(* ===== verification/Ft_Prelude.thy ===== *)
theory Ft_Prelude
  imports Main "HOL-Library.Word" "HOL-Library.Monad_Syntax"
begin

text \<open>
  Shared vocabulary of the development: machine types, run-time assertions, result codes,
  little-endian byte encodings and the list lemmas that several components use.

  \<^item> \<open>TXNID\<close> is the 64-bit transaction id of \<open>src/ft/txn/txn.h\<close>, \<open>TXNID_NONE\<close> is 0.
  \<^item> \<open>invariant(e)\<close> and \<open>assert(e)\<close> abort the process when \<open>e\<close> is false. A model
    function whose source contains one returns an \<open>option\<close>; \<open>ensure\<close> is the assertion and
    \<open>None\<close> is the abort. A theorem that a call returns \<open>Some\<close> says that no assertion fires.
  \<^item> \<open>toku_htod32\<close>, \<open>toku_htod64\<close> and their inverses convert to disk order, which is little
    endian; \<open>le_bytes\<close> and \<open>le_word\<close> are the two directions.
\<close>

unbundle bit_operations_syntax

type_synonym byte = "8 word"
type_synonym TXNID = "64 word"

definition TXNID_NONE :: TXNID where
  "TXNID_NONE = 0"

definition TXNID_MAX :: TXNID where
  "TXNID_MAX = - 1"

text \<open>The nonzero return codes used by the modelled functions; success is the other branch.\<close>

datatype ft_error = EINVAL | DB_NOTFOUND | DB_KEYEXIST | DB_LOCK_NOTGRANTED | DB_LOCK_DEADLOCK
  | TOKUDB_OUT_OF_LOCKS | EDOM

named_theorems ft_defs \<open>definitions unfolded together in component proofs\<close>
named_theorems ft_spec \<open>abstraction equations of the concrete operations\<close>

subsection \<open>Assertions\<close>

definition ensure :: "bool \<Rightarrow> unit option" where
  "ensure b = (if b then Some () else None)"

lemma ensure_simps [simp]:
  "ensure True = Some ()" "ensure False = None"
  "(ensure b = Some x) = b" "(ensure b = None) = (\<not> b)"
  by (auto simp: ensure_def)

lemma ensure_bind_Some [simp]:
  "(Option.bind (ensure b) f = Some y) = (b \<and> f () = Some y)"
  by (cases b) auto

lemma bind_ensure_True: "b \<Longrightarrow> Option.bind (ensure b) f = f ()"
  by simp

text \<open>
  \<open>returns m P\<close>: the computation does not abort and its result satisfies \<open>P\<close>. The rules follow
  the program constructs, so a call is verified by walking through its body.
\<close>

definition returns :: "'a option \<Rightarrow> ('a \<Rightarrow> bool) \<Rightarrow> bool" where
  "returns m P \<longleftrightarrow> (\<exists>y. m = Some y \<and> P y)"

lemma returns_Some [simp]: "returns (Some y) P = P y"
  and returns_None [simp]: "returns None P = False"
  by (auto simp: returns_def)

lemma returns_bind: "returns m P \<Longrightarrow> (\<And>y. P y \<Longrightarrow> returns (f y) Q) \<Longrightarrow> returns (Option.bind m f) Q"
  by (auto simp: returns_def)

lemma returns_ensure [simp]: "returns (Option.bind (ensure b) f) Q = (b \<and> returns (f ()) Q)"
  by (cases b) auto

lemma returns_mono: "returns m P \<Longrightarrow> (\<And>y. P y \<Longrightarrow> Q y) \<Longrightarrow> returns m Q"
  by (auto simp: returns_def)

lemma returns_SomeD: "returns m P \<Longrightarrow> m = Some y \<Longrightarrow> P y"
  by (auto simp: returns_def)

lemma returns_obtain: "returns m P \<Longrightarrow> \<exists>y. m = Some y \<and> P y"
  by (auto simp: returns_def)

subsection \<open>Little-endian encodings\<close>

definition le_bytes :: "nat \<Rightarrow> 'a::len word \<Rightarrow> byte list" where
  "le_bytes n w = map (\<lambda>i. ucast (drop_bit (8 * i) w)) [0..<n]"

fun le_word :: "byte list \<Rightarrow> 'a::len word" where
  "le_word [] = 0"
| "le_word (b # bs) = ucast b OR push_bit 8 (le_word bs)"

lemma length_le_bytes [simp]: "length (le_bytes n w) = n"
  by (simp add: le_bytes_def)

lemma bit_le_word:
  "bit (le_word bs :: 'a::len word) n \<longleftrightarrow>
     n < LENGTH('a) \<and> n div 8 < length bs \<and> bit (bs ! (n div 8)) (n mod 8)"
proof (induction bs arbitrary: n)
  case Nil
  then show ?case by simp
next
  case (Cons b bs)
  show ?case
  proof (cases "n < 8")
    case True
    then show ?thesis
      by (auto simp: bit_or_iff bit_ucast_iff bit_push_bit_iff)
  next
    case False
    have hi: "\<not> bit b n"
      using False bit_imp_le_length [of b n] by auto
    have "n div 8 = Suc ((n - 8) div 8)" and "(n - 8) mod 8 = n mod 8"
      using False by (simp_all add: le_div_geq le_mod_geq)
    then show ?thesis
      using False hi Cons.IH [of "n - 8"]
      by (auto simp: bit_or_iff bit_ucast_iff bit_push_bit_iff)
  qed
qed

lemma le_word_le_bytes:
  assumes "LENGTH('a::len) \<le> 8 * n"
  shows "le_word (le_bytes n (w :: 'a word)) = w"
proof (rule bit_word_eqI)
  fix k assume k: "k < LENGTH('a)"
  then have "k div 8 < n" using assms by (simp add: less_mult_imp_div_less mult.commute)
  moreover have "8 * (k div 8) + k mod 8 = k" by simp
  ultimately show "bit (le_word (le_bytes n w) :: 'a word) k = bit w k"
    using k by (simp add: bit_le_word le_bytes_def bit_ucast_iff bit_drop_bit_eq)
qed

lemma le_word_le_bytes32 [simp]: "le_word (le_bytes 4 (w :: 32 word)) = w"
  by (simp add: le_word_le_bytes)

lemma le_word_le_bytes64 [simp]: "le_word (le_bytes 8 (w :: 64 word)) = w"
  by (simp add: le_word_le_bytes)

subsection \<open>Lists\<close>

lemma map_upt_shift: "map f [k..<k + n] = map (\<lambda>i. f (i + k)) [0..<n]"
  by (induction n) (simp_all add: add.commute)

text \<open>The length of the longest common prefix of two lists.\<close>

fun lcp_length :: "'a list \<Rightarrow> 'a list \<Rightarrow> nat" where
  "lcp_length (x # xs) (y # ys) = (if x = y then Suc (lcp_length xs ys) else 0)"
| "lcp_length xs ys = 0"

lemma lcp_length_le: "lcp_length xs ys \<le> length xs" "lcp_length xs ys \<le> length ys"
  by (induction xs ys rule: lcp_length.induct) auto

lemma lcp_length_take: "take (lcp_length xs ys) xs = take (lcp_length xs ys) ys"
  by (induction xs ys rule: lcp_length.induct) auto

lemma lcp_length_nth: "i < lcp_length xs ys \<Longrightarrow> xs ! i = ys ! i"
  by (induction xs ys arbitrary: i rule: lcp_length.induct) (auto simp: nth_Cons split: nat.split if_splits)

lemma lcp_length_differ:
  "lcp_length xs ys < length xs \<Longrightarrow> lcp_length xs ys < length ys \<Longrightarrow>
     xs ! lcp_length xs ys \<noteq> ys ! lcp_length xs ys"
  by (induction xs ys rule: lcp_length.induct) auto

lemma lcp_length_unique:
  assumes "n \<le> length xs" "n \<le> length ys" "\<And>i. i < n \<Longrightarrow> xs ! i = ys ! i"
    and "n < length xs \<Longrightarrow> n < length ys \<Longrightarrow> xs ! n \<noteq> ys ! n"
  shows "lcp_length xs ys = n"
  using assms
proof (induction xs ys arbitrary: n rule: lcp_length.induct)
  case (1 x xs y ys)
  show ?case
  proof (cases n)
    case 0
    then show ?thesis using 1 by auto
  next
    case (Suc m)
    have "x = y" using "1.prems"(3) [of 0] Suc by simp
    moreover have "xs ! i = ys ! i" if "i < m" for i
      using "1.prems"(3) [of "Suc i"] Suc that by simp
    then have "lcp_length xs ys = m"
      using "1.prems"(1,2,4) Suc \<open>x = y\<close> by (intro "1.IH") auto
    ultimately show ?thesis using Suc by simp
  qed
qed auto

end
