(* ===== verification/Xids.thy ===== *)
theory Xids
  imports Ft_Prelude
begin

text \<open>
  Nested transaction id stacks (\<open>src/ft/txn/xids.cc\<close>, \<open>src/ft/txn/xids.h\<close>).

  An \<open>XIDS_S\<close> is a counted array of transaction ids: \<open>ids[0]\<close> is the outermost (root)
  transaction, \<open>ids[num_xids - 1]\<close> the innermost. The root transaction 0 is implicit. The model is
  the list of the ids in that order and \<open>num_xids\<close> is its length; the counter is an 8-bit field
  and \<open>xids_ok\<close> (every list the code creates is shorter than \<open>MAX_TRANSACTION_RECORDS\<close>, 254)
  keeps it in range. Ids are held in host order; the conversions at the disk boundary are
  in the packing functions.
\<close>

definition MAX_NESTED_TRANSACTIONS :: nat where
  "MAX_NESTED_TRANSACTIONS = 253"

definition MAX_TRANSACTION_RECORDS :: nat where
  "MAX_TRANSACTION_RECORDS = MAX_NESTED_TRANSACTIONS + 1"

lemma MAX_TRANSACTION_RECORDS_eq [simp]: "MAX_TRANSACTION_RECORDS = 254"
  by (simp add: MAX_TRANSACTION_RECORDS_def MAX_NESTED_TRANSACTIONS_def)

type_synonym XIDS = "TXNID list"

definition toku_xids_get_root_xids :: XIDS where
  "toku_xids_get_root_xids = []"

definition toku_xids_get_num_xids :: "XIDS \<Rightarrow> nat" where
  "toku_xids_get_num_xids xids = length xids"

definition toku_xids_can_create_child :: "XIDS \<Rightarrow> bool option" where
  "toku_xids_can_create_child xids = do {
     ensure (length xids < MAX_TRANSACTION_RECORDS);
     Some (length xids + 1 \<noteq> MAX_TRANSACTION_RECORDS)
   }"

definition toku_xids_create_unknown_child :: "XIDS \<Rightarrow> XIDS option" where
  "toku_xids_create_unknown_child parent_xids = do {
     ensure (length parent_xids + 1 < MAX_TRANSACTION_RECORDS);
     Some parent_xids
   }"

definition toku_xids_finalize_with_child :: "XIDS \<Rightarrow> TXNID \<Rightarrow> XIDS" where
  "toku_xids_finalize_with_child xids this_xid = xids @ [this_xid]"

definition toku_xids_create_child :: "XIDS \<Rightarrow> TXNID \<Rightarrow> (ft_error + XIDS) option" where
  "toku_xids_create_child parent_xids this_xid = do {
     can_create_child \<leftarrow> toku_xids_can_create_child parent_xids;
     if \<not> can_create_child then Some (Inl EINVAL)
     else do {
       xids \<leftarrow> toku_xids_create_unknown_child parent_xids;
       Some (Inr (toku_xids_finalize_with_child xids this_xid))
     }
   }"

definition toku_xids_get_xid :: "XIDS \<Rightarrow> nat \<Rightarrow> TXNID option" where
  "toku_xids_get_xid xids index = do {
     ensure (index < toku_xids_get_num_xids xids);
     Some (xids ! index)
   }"

definition toku_xids_get_innermost_xid :: "XIDS \<Rightarrow> TXNID option" where
  "toku_xids_get_innermost_xid xids =
     (if toku_xids_get_num_xids xids \<noteq> 0
      then toku_xids_get_xid xids (toku_xids_get_num_xids xids - 1)
      else Some TXNID_NONE)"

definition toku_xids_get_outermost_xid :: "XIDS \<Rightarrow> TXNID option" where
  "toku_xids_get_outermost_xid xids =
     (if toku_xids_get_num_xids xids \<noteq> 0 then toku_xids_get_xid xids 0 else Some TXNID_NONE)"

text \<open>\<open>sizeof(*xids)\<close> is 1: the struct is packed and the array is a flexible member.\<close>

definition toku_xids_get_size :: "XIDS \<Rightarrow> nat" where
  "toku_xids_get_size xids = 1 + length xids * 8"

definition toku_xids_get_serialize_size :: "XIDS \<Rightarrow> nat" where
  "toku_xids_get_serialize_size xids = 1 + 8 * length xids"

subsection \<open>Well-formed stacks\<close>

definition xids_ok :: "XIDS \<Rightarrow> bool" where
  "xids_ok xids \<longleftrightarrow> length xids < MAX_TRANSACTION_RECORDS \<and> TXNID_NONE \<notin> set xids \<and> distinct xids"

lemma xids_ok_root: "xids_ok toku_xids_get_root_xids"
  by (simp add: xids_ok_def toku_xids_get_root_xids_def)

lemma toku_xids_get_innermost_xid_eq [simp]:
  "toku_xids_get_innermost_xid xids = Some (if xids = [] then TXNID_NONE else last xids)"
  by (simp add: toku_xids_get_innermost_xid_def toku_xids_get_xid_def toku_xids_get_num_xids_def
      last_conv_nth)

lemma toku_xids_get_outermost_xid_eq:
  "toku_xids_get_outermost_xid xids = Some (if xids = [] then TXNID_NONE else hd xids)"
  by (simp add: toku_xids_get_outermost_xid_def toku_xids_get_xid_def toku_xids_get_num_xids_def
      hd_conv_nth)

lemma xids_ok_last: "xids_ok xids \<Longrightarrow> xids \<noteq> [] \<Longrightarrow> last xids \<noteq> TXNID_NONE"
  by (metis last_in_set xids_ok_def)

lemma toku_xids_get_xid_Some: "i < length xids \<Longrightarrow> toku_xids_get_xid xids i = Some (xids ! i)"
  by (simp add: toku_xids_get_xid_def toku_xids_get_num_xids_def)

text \<open>
  Creating a child either appends the new id or reports \<open>EINVAL\<close> at the nesting limit; no
  assertion of the two-step construction fires.
\<close>

lemma toku_xids_create_child_cases:
  assumes "length xids < MAX_TRANSACTION_RECORDS"
  shows "toku_xids_create_child xids x =
    Some (if length xids = MAX_NESTED_TRANSACTIONS then Inl EINVAL else Inr (xids @ [x]))"
  using assms
  by (auto simp: toku_xids_create_child_def toku_xids_can_create_child_def
      toku_xids_create_unknown_child_def toku_xids_finalize_with_child_def
      MAX_NESTED_TRANSACTIONS_def)

lemma toku_xids_create_child_ok:
  assumes "xids_ok xids" "toku_xids_create_child xids x = Some (Inr child)"
    and "x \<noteq> TXNID_NONE" "x \<notin> set xids"
  shows "xids_ok child"
  using assms by (auto simp: xids_ok_def toku_xids_create_child_cases MAX_NESTED_TRANSACTIONS_def
      split: if_splits)

end
