(* ===== verification/Ft_Msg.thy ===== *)
theory Ft_Msg
  imports Xids
begin

text \<open>
  Tree messages (\<open>src/ft/msg.h\<close>, \<open>src/ft/msg.cc\<close>): the message types, the message itself and
  the two classifications of message types.
\<close>

datatype ft_msg_type =
    FT_NONE
  | FT_INSERT
  | FT_DELETE_ANY
  | FT_ABORT_ANY
  | FT_COMMIT_ANY
  | FT_COMMIT_BROADCAST_ALL
  | FT_COMMIT_BROADCAST_TXN
  | FT_ABORT_BROADCAST_TXN
  | FT_INSERT_NO_OVERWRITE
  | FT_OPTIMIZE
  | FT_OPTIMIZE_FOR_UPGRADE
  | FT_UPDATE
  | FT_UPDATE_BROADCAST_ALL

text \<open>The numeric codes of the enumeration, as written to disk.\<close>

fun ft_msg_type_code :: "ft_msg_type \<Rightarrow> byte" where
  "ft_msg_type_code FT_NONE = 0"
| "ft_msg_type_code FT_INSERT = 1"
| "ft_msg_type_code FT_DELETE_ANY = 2"
| "ft_msg_type_code FT_ABORT_ANY = 4"
| "ft_msg_type_code FT_COMMIT_ANY = 6"
| "ft_msg_type_code FT_COMMIT_BROADCAST_ALL = 8"
| "ft_msg_type_code FT_COMMIT_BROADCAST_TXN = 9"
| "ft_msg_type_code FT_ABORT_BROADCAST_TXN = 10"
| "ft_msg_type_code FT_INSERT_NO_OVERWRITE = 11"
| "ft_msg_type_code FT_OPTIMIZE = 12"
| "ft_msg_type_code FT_OPTIMIZE_FOR_UPGRADE = 13"
| "ft_msg_type_code FT_UPDATE = 14"
| "ft_msg_type_code FT_UPDATE_BROADCAST_ALL = 15"

definition ft_msg_type_applies_once :: "ft_msg_type \<Rightarrow> bool" where
  "ft_msg_type_applies_once t =
     (case t of FT_INSERT_NO_OVERWRITE \<Rightarrow> True | FT_INSERT \<Rightarrow> True | FT_DELETE_ANY \<Rightarrow> True
      | FT_ABORT_ANY \<Rightarrow> True | FT_COMMIT_ANY \<Rightarrow> True | FT_UPDATE \<Rightarrow> True
      | FT_COMMIT_BROADCAST_ALL \<Rightarrow> False | FT_COMMIT_BROADCAST_TXN \<Rightarrow> False
      | FT_ABORT_BROADCAST_TXN \<Rightarrow> False | FT_OPTIMIZE \<Rightarrow> False
      | FT_OPTIMIZE_FOR_UPGRADE \<Rightarrow> False | FT_UPDATE_BROADCAST_ALL \<Rightarrow> False | FT_NONE \<Rightarrow> False)"

definition ft_msg_type_applies_all :: "ft_msg_type \<Rightarrow> bool" where
  "ft_msg_type_applies_all t =
     (case t of FT_NONE \<Rightarrow> False | FT_INSERT_NO_OVERWRITE \<Rightarrow> False | FT_INSERT \<Rightarrow> False
      | FT_DELETE_ANY \<Rightarrow> False | FT_ABORT_ANY \<Rightarrow> False | FT_COMMIT_ANY \<Rightarrow> False | FT_UPDATE \<Rightarrow> False
      | FT_COMMIT_BROADCAST_ALL \<Rightarrow> True | FT_COMMIT_BROADCAST_TXN \<Rightarrow> True
      | FT_ABORT_BROADCAST_TXN \<Rightarrow> True | FT_OPTIMIZE \<Rightarrow> True
      | FT_OPTIMIZE_FOR_UPGRADE \<Rightarrow> True | FT_UPDATE_BROADCAST_ALL \<Rightarrow> True)"

definition ft_msg_type_does_nothing :: "ft_msg_type \<Rightarrow> bool" where
  "ft_msg_type_does_nothing t \<longleftrightarrow> t = FT_NONE"

text \<open>A DBT is the byte string it points to; its \<open>size\<close> field is the length.\<close>

record ft_msg =
  msg_key :: "byte list"
  msg_val :: "byte list"
  msg_type :: ft_msg_type
  msg_msn :: "64 word"
  msg_xids :: XIDS

lemma ft_msg_type_classes:
  "ft_msg_type_applies_once t \<longleftrightarrow> \<not> ft_msg_type_applies_all t \<and> \<not> ft_msg_type_does_nothing t"
  by (cases t) (simp_all add: ft_msg_type_applies_once_def ft_msg_type_applies_all_def
      ft_msg_type_does_nothing_def)

end
