(* ===== verification/Ule.thy ===== *)
theory Ule
  imports Ft_Msg
begin

text \<open>
  The unpacked leaf entry (\<open>src/ft/ule-internal.h\<close>, \<open>src/ft/ule.cc\<close>): the stack of transaction
  records of one key, and the application of one message to it.

  A \<open>ule\<close> holds two counters and one array: \<open>uxrs[0 .. num_cuxrs)\<close> are the committed records,
  oldest first, \<open>uxrs[num_cuxrs .. num_cuxrs + num_puxrs)\<close> the provisional ones, outermost
  transaction first. The array is a function from indices to slots together with its capacity
  (\<open>uxrs_static\<close> or the heap block of \<open>le_unpack\<close>); a store at or past the capacity is the value
  \<open>None\<close>, as is a failed \<open>invariant\<close>. Slots past the two counters keep whatever was stored there.

  The second half of the theory is the specification: a pair of lists of abstract records, the
  abstraction \<open>abs_ule\<close>, one pure function per operation on that pair, and for each operation
  the lemma that the array code returns \<open>Some\<close> and computes the specified stack.
\<close>

subsection \<open>Transaction records\<close>

definition XR_INSERT :: byte where "XR_INSERT = 1"
definition XR_DELETE :: byte where "XR_DELETE = 2"
definition XR_PLACEHOLDER :: byte where "XR_PLACEHOLDER = 3"

lemma XR_distinct [simp]:
  "XR_INSERT \<noteq> XR_DELETE" "XR_INSERT \<noteq> XR_PLACEHOLDER" "XR_DELETE \<noteq> XR_PLACEHOLDER"
  "XR_DELETE \<noteq> XR_INSERT" "XR_PLACEHOLDER \<noteq> XR_INSERT" "XR_PLACEHOLDER \<noteq> XR_DELETE"
  by (simp_all add: XR_INSERT_def XR_DELETE_def XR_PLACEHOLDER_def)

record uxr =
  u_type :: byte
  u_vallen :: "32 word"
  u_valp :: "byte list"
  u_xid :: TXNID

definition uxr_is_insert :: "uxr \<Rightarrow> bool" where
  "uxr_is_insert x \<longleftrightarrow> u_type x = XR_INSERT"

definition uxr_is_delete :: "uxr \<Rightarrow> bool" where
  "uxr_is_delete x \<longleftrightarrow> u_type x = XR_DELETE"

definition uxr_is_placeholder :: "uxr \<Rightarrow> bool" where
  "uxr_is_placeholder x \<longleftrightarrow> u_type x = XR_PLACEHOLDER"

lemmas uxr_is_defs = uxr_is_insert_def uxr_is_delete_def uxr_is_placeholder_def

definition committed_delete :: uxr where
  "committed_delete = \<lparr>u_type = XR_DELETE, u_vallen = 0, u_valp = [], u_xid = 0\<rparr>"

definition IS_VALID_LEN :: "32 word \<Rightarrow> bool" where
  "IS_VALID_LEN len \<longleftrightarrow> len < push_bit 31 1"

subsection \<open>The unpacked leaf entry and its accessors\<close>

record ule =
  num_puxrs :: nat
  num_cuxrs :: nat
  uxrs :: "nat \<Rightarrow> uxr"
  uxrs_cap :: nat

definition uxr_store :: "ule \<Rightarrow> nat \<Rightarrow> uxr \<Rightarrow> ule option" where
  "uxr_store u i x = (if i < uxrs_cap u then Some (u\<lparr>uxrs := (uxrs u)(i := x)\<rparr>) else None)"

definition ule_num_uxrs :: "ule \<Rightarrow> nat" where
  "ule_num_uxrs u = num_cuxrs u + num_puxrs u"

definition ule_init_empty_ule :: "ule \<Rightarrow> ule" where
  "ule_init_empty_ule u =
     u\<lparr>num_cuxrs := 1, num_puxrs := 0, uxrs_cap := MAX_TRANSACTION_RECORDS * 2,
       uxrs := (uxrs u)(0 := committed_delete)\<rparr>"

definition ule_get_innermost_uxr :: "ule \<Rightarrow> uxr option" where
  "ule_get_innermost_uxr u = do {
     ensure (num_cuxrs u > 0);
     Some (uxrs u (num_cuxrs u + num_puxrs u - 1))
   }"

definition ule_get_first_empty_uxr :: "ule \<Rightarrow> nat option" where
  "ule_get_first_empty_uxr u = do {
     ensure (num_puxrs u < MAX_TRANSACTION_RECORDS - 1);
     Some (num_cuxrs u + num_puxrs u)
   }"

definition ule_get_xid :: "ule \<Rightarrow> nat \<Rightarrow> TXNID option" where
  "ule_get_xid u index = do {
     ensure (index < num_cuxrs u + num_puxrs u);
     Some (u_xid (uxrs u index))
   }"

definition ule_get_innermost_xid :: "ule \<Rightarrow> TXNID option" where
  "ule_get_innermost_xid u = ule_get_xid u (num_cuxrs u + num_puxrs u - 1)"

definition ule_get_innermost_numbytes :: "ule \<Rightarrow> 32 word \<Rightarrow> (32 word) option" where
  "ule_get_innermost_numbytes u keylen = do {
     x \<leftarrow> ule_get_innermost_uxr u;
     Some (if uxr_is_delete x then 0 else u_vallen x + keylen)
   }"

subsection \<open>Pushing and removing records\<close>

definition ule_push_insert_uxr :: "ule \<Rightarrow> bool \<Rightarrow> TXNID \<Rightarrow> 32 word \<Rightarrow> byte list \<Rightarrow> ule option" where
  "ule_push_insert_uxr u is_committed xid vallen valp = do {
     i \<leftarrow> ule_get_first_empty_uxr u;
     u \<leftarrow> (if is_committed
           then do { ensure (num_puxrs u = 0); Some (u\<lparr>num_cuxrs := num_cuxrs u + 1\<rparr>) }
           else Some (u\<lparr>num_puxrs := num_puxrs u + 1\<rparr>));
     uxr_store u i \<lparr>u_type = XR_INSERT, u_vallen = vallen, u_valp = valp, u_xid = xid\<rparr>
   }"

definition ule_push_delete_uxr :: "ule \<Rightarrow> bool \<Rightarrow> TXNID \<Rightarrow> ule option" where
  "ule_push_delete_uxr u is_committed xid = do {
     i \<leftarrow> ule_get_first_empty_uxr u;
     u \<leftarrow> (if is_committed
           then do { ensure (num_puxrs u = 0); Some (u\<lparr>num_cuxrs := num_cuxrs u + 1\<rparr>) }
           else Some (u\<lparr>num_puxrs := num_puxrs u + 1\<rparr>));
     uxr_store u i ((uxrs u i)\<lparr>u_xid := xid, u_type := XR_DELETE\<rparr>)
   }"

definition ule_push_placeholder_uxr :: "ule \<Rightarrow> TXNID \<Rightarrow> ule option" where
  "ule_push_placeholder_uxr u xid = do {
     ensure (num_cuxrs u > 0);
     i \<leftarrow> ule_get_first_empty_uxr u;
     u \<leftarrow> uxr_store u i ((uxrs u i)\<lparr>u_xid := xid, u_type := XR_PLACEHOLDER\<rparr>);
     Some (u\<lparr>num_puxrs := num_puxrs u + 1\<rparr>)
   }"

definition ule_remove_innermost_uxr :: "ule \<Rightarrow> ule option" where
  "ule_remove_innermost_uxr u = do {
     ensure (num_cuxrs u > 0);
     if num_puxrs u \<noteq> 0 then Some (u\<lparr>num_puxrs := num_puxrs u - 1\<rparr>)
     else do {
       ensure (num_cuxrs u = 1);
       x \<leftarrow> ule_get_innermost_xid u;
       ensure (x = TXNID_NONE);
       Some (u\<lparr>num_cuxrs := num_cuxrs u - 1\<rparr>)
     }
   }"

lemma ule_remove_innermost_uxr_decreases:
  "ule_remove_innermost_uxr u = Some u' \<Longrightarrow> num_puxrs u > 0 \<Longrightarrow> num_puxrs u' < num_puxrs u"
  by (auto simp: ule_remove_innermost_uxr_def split: if_splits)

function ule_remove_innermost_placeholders :: "ule \<Rightarrow> ule option" where
  "ule_remove_innermost_placeholders u =
     (case ule_get_innermost_uxr u of
        None \<Rightarrow> None
      | Some x \<Rightarrow>
          if uxr_is_placeholder x then
            (if num_puxrs u > 0 then
               (case ule_remove_innermost_uxr u of
                  None \<Rightarrow> None
                | Some u' \<Rightarrow> ule_remove_innermost_placeholders u')
             else None)
          else Some u)"
  by pat_completeness auto
termination
  by (relation "measure num_puxrs") (auto dest: ule_remove_innermost_uxr_decreases)

declare ule_remove_innermost_placeholders.simps [simp del]

text \<open>
  The loop bound \<open>num_xids - 1\<close> of \<open>ule_add_placeholders\<close> is computed on \<open>uint32_t\<close>, so an
  empty stack gives \<open>2 ^ 32 - 1\<close> and the first \<open>toku_xids_get_xid\<close> aborts.
\<close>

definition uint32_pred :: "nat \<Rightarrow> nat" where
  "uint32_pred n = (if n = 0 then 2 ^ 32 - 1 else n - 1)"

function push_placeholders :: "ule \<Rightarrow> XIDS \<Rightarrow> nat \<Rightarrow> nat \<Rightarrow> ule option" where
  "push_placeholders u xids i lim =
     (if i < lim then
        (case toku_xids_get_xid xids i of
           None \<Rightarrow> None
         | Some current_msg_xid \<Rightarrow>
             (case ule_push_placeholder_uxr u current_msg_xid of
                None \<Rightarrow> None
              | Some u' \<Rightarrow> push_placeholders u' xids (i + 1) lim))
      else Some u)"
  by pat_completeness auto
termination
  by (relation "measure (\<lambda>(u, xids, i, lim). lim - i)") auto

declare push_placeholders.simps [simp del]

definition ule_add_placeholders :: "ule \<Rightarrow> XIDS \<Rightarrow> ule option" where
  "ule_add_placeholders u xids = do {
     ensure (num_cuxrs u > 0);
     ensure (toku_xids_get_num_xids xids \<ge> num_puxrs u);
     ensure (list_all (\<lambda>i. toku_xids_get_xid xids i = ule_get_xid u (i + num_cuxrs u))
               [0..<num_puxrs u]);
     push_placeholders u xids (num_puxrs u) (uint32_pred (toku_xids_get_num_xids xids))
   }"

definition ule_prepare_for_new_uxr :: "ule \<Rightarrow> XIDS \<Rightarrow> ule option" where
  "ule_prepare_for_new_uxr u xids = do {
     this_xid \<leftarrow> toku_xids_get_innermost_xid xids;
     inner \<leftarrow> ule_get_innermost_xid u;
     if this_xid = TXNID_NONE \<and> inner = TXNID_NONE then ule_remove_innermost_uxr u
     else if num_puxrs u > 0 \<and> inner = this_xid then ule_remove_innermost_uxr u
     else ule_add_placeholders u xids
   }"

subsection \<open>Promotion\<close>

definition ule_promote_provisional_innermost_to_committed :: "ule \<Rightarrow> ule option" where
  "ule_promote_provisional_innermost_to_committed u = do {
     ensure (num_puxrs u \<noteq> 0);
     old_innermost \<leftarrow> ule_get_innermost_uxr u;
     ensure (\<not> uxr_is_placeholder old_innermost);
     let old_outermost = uxrs u (num_cuxrs u);
     let u0 = u\<lparr>num_puxrs := 0\<rparr>;
     if uxr_is_delete old_innermost
     then ule_push_delete_uxr u0 True (u_xid old_outermost)
     else ule_push_insert_uxr u0 True (u_xid old_outermost)
            (u_vallen old_innermost) (u_valp old_innermost)
   }"

definition ule_promote_provisional_innermost_to_index :: "ule \<Rightarrow> nat \<Rightarrow> ule option" where
  "ule_promote_provisional_innermost_to_index u index = do {
     ensure (index \<ge> num_cuxrs u);
     ensure (index < num_cuxrs u + num_puxrs u - 1);
     old_innermost \<leftarrow> ule_get_innermost_uxr u;
     ensure (\<not> uxr_is_placeholder old_innermost);
     let new_innermost_xid = u_xid (uxrs u index);
     let u0 = u\<lparr>num_puxrs := index - num_cuxrs u\<rparr>;
     if uxr_is_delete old_innermost
     then ule_push_delete_uxr u0 False new_innermost_xid
     else ule_push_insert_uxr u0 False new_innermost_xid
            (u_vallen old_innermost) (u_valp old_innermost)
   }"

definition ule_try_promote_provisional_outermost :: "ule \<Rightarrow> TXNID \<Rightarrow> ule option" where
  "ule_try_promote_provisional_outermost u oldest_possible_live_xid =
     (if num_puxrs u > 0 then do {
        x \<leftarrow> ule_get_xid u (num_cuxrs u);
        if x < oldest_possible_live_xid then ule_promote_provisional_innermost_to_committed u
        else Some u
      }
      else Some u)"

text \<open>The search loop for the innermost common ancestor of the two stacks.\<close>

function find_ica_index :: "ule \<Rightarrow> XIDS \<Rightarrow> nat \<Rightarrow> nat \<Rightarrow> nat option" where
  "find_ica_index u xids index max_index =
     (if index \<le> max_index then
        (case toku_xids_get_xid xids (index - num_cuxrs u) of
           None \<Rightarrow> None
         | Some current_msg_xid \<Rightarrow>
             (case ule_get_xid u index of
                None \<Rightarrow> None
              | Some current_ule_xid \<Rightarrow>
                  if current_msg_xid \<noteq> current_ule_xid then Some (index - 1)
                  else find_ica_index u xids (index + 1) max_index))
      else Some max_index)"
  by pat_completeness auto
termination
  by (relation "measure (\<lambda>(u, xids, index, max_index). Suc max_index - index)") auto

declare find_ica_index.simps [simp del]

definition ule_do_implicit_promotions :: "ule \<Rightarrow> XIDS \<Rightarrow> ule option" where
  "ule_do_implicit_promotions u xids =
     (if num_puxrs u > 0 then do {
        ensure (toku_xids_get_num_xids xids > 0);
        let max_index = num_cuxrs u + min (num_puxrs u) (toku_xids_get_num_xids xids) - 1;
        ica_index \<leftarrow> find_ica_index u xids (num_cuxrs u) max_index;
        if ica_index < num_cuxrs u then do {
          ensure (ica_index = num_cuxrs u - 1);
          ule_promote_provisional_innermost_to_committed u
        }
        else if ica_index < num_cuxrs u + num_puxrs u - 1
        then ule_promote_provisional_innermost_to_index u ica_index
        else Some u
      }
      else Some u)"

subsection \<open>Applying a message\<close>

definition ule_apply_insert_no_overwrite ::
  "ule \<Rightarrow> XIDS \<Rightarrow> 32 word \<Rightarrow> byte list \<Rightarrow> (ule \<times> int) option" where
  "ule_apply_insert_no_overwrite u xids vallen valp = do {
     ensure (IS_VALID_LEN vallen);
     old_innermost \<leftarrow> ule_get_innermost_uxr u;
     if uxr_is_insert old_innermost then Some (u, - 1)
     else do {
       u \<leftarrow> ule_prepare_for_new_uxr u xids;
       this_xid \<leftarrow> toku_xids_get_innermost_xid xids;
       u \<leftarrow> ule_push_insert_uxr u (this_xid = TXNID_NONE) this_xid vallen valp;
       Some (u, 0)
     }
   }"

definition ule_apply_insert ::
  "ule \<Rightarrow> XIDS \<Rightarrow> 32 word \<Rightarrow> byte list \<Rightarrow> (ule \<times> int) option" where
  "ule_apply_insert u xids vallen valp = do {
     ensure (IS_VALID_LEN vallen);
     old_innermost \<leftarrow> ule_get_innermost_uxr u;
     let retval = (if uxr_is_insert old_innermost then - 1 else 0);
     u \<leftarrow> ule_prepare_for_new_uxr u xids;
     this_xid \<leftarrow> toku_xids_get_innermost_xid xids;
     u \<leftarrow> ule_push_insert_uxr u (this_xid = TXNID_NONE) this_xid vallen valp;
     Some (u, retval)
   }"

definition ule_apply_delete :: "ule \<Rightarrow> XIDS \<Rightarrow> (ule \<times> int) option" where
  "ule_apply_delete u xids = do {
     old_innermost \<leftarrow> ule_get_innermost_uxr u;
     let retval = (if uxr_is_delete old_innermost then 1 else 0);
     u \<leftarrow> ule_prepare_for_new_uxr u xids;
     this_xid \<leftarrow> toku_xids_get_innermost_xid xids;
     u \<leftarrow> ule_push_delete_uxr u (this_xid = TXNID_NONE) this_xid;
     Some (u, retval)
   }"

definition ule_apply_abort :: "ule \<Rightarrow> XIDS \<Rightarrow> (ule \<times> int) option" where
  "ule_apply_abort u xids = do {
     this_xid \<leftarrow> toku_xids_get_innermost_xid xids;
     ensure (this_xid \<noteq> TXNID_NONE);
     innermost \<leftarrow> ule_get_innermost_uxr u;
     if num_puxrs u > 0 \<and> u_xid innermost = this_xid then do {
       let retval =
         (if uxr_is_delete innermost then
            (if num_puxrs u = 1 \<and> num_cuxrs u = 1 \<and> uxr_is_delete (uxrs u 0) then 0 else 1)
          else if uxr_is_insert innermost then
            (if num_puxrs u = 1 \<and> num_cuxrs u = 1 \<and> uxr_is_insert (uxrs u 0) then 0 else - 1)
          else 0);
       u \<leftarrow> ule_remove_innermost_uxr u;
       u \<leftarrow> ule_remove_innermost_placeholders u;
       ensure (num_cuxrs u > 0);
       Some (u, retval)
     }
     else do {
       ensure (num_cuxrs u > 0);
       Some (u, 0)
     }
   }"

definition ule_apply_broadcast_commit_all :: "ule \<Rightarrow> ule" where
  "ule_apply_broadcast_commit_all u =
     u\<lparr>uxrs := (uxrs u)(0 := (uxrs u (num_puxrs u + num_cuxrs u - 1))\<lparr>u_xid := TXNID_NONE\<rparr>),
       num_puxrs := 0, num_cuxrs := 1\<rparr>"

definition ule_apply_commit :: "ule \<Rightarrow> XIDS \<Rightarrow> ule option" where
  "ule_apply_commit u xids = do {
     this_xid \<leftarrow> toku_xids_get_innermost_xid xids;
     ensure (this_xid \<noteq> TXNID_NONE);
     if num_puxrs u > 0 then do {
       inner \<leftarrow> ule_get_innermost_xid u;
       if inner = this_xid then
         (if num_puxrs u = 1 then ule_promote_provisional_innermost_to_committed u
          else ule_promote_provisional_innermost_to_index u (num_cuxrs u + num_puxrs u - 2))
       else Some u
     }
     else Some u
   }"

definition ule_optimize :: "ule \<Rightarrow> XIDS \<Rightarrow> ule option" where
  "ule_optimize u xids =
     (if num_puxrs u \<noteq> 0 then do {
        let uncommitted = u_xid (uxrs u (num_cuxrs u));
        oldest_living_xid \<leftarrow>
          (if toku_xids_get_num_xids xids > 0 then do {
             ensure (toku_xids_get_num_xids xids = 1);
             toku_xids_get_xid xids 0
           }
           else Some TXNID_NONE);
        if oldest_living_xid = TXNID_NONE \<or> uncommitted < oldest_living_xid
        then ule_promote_provisional_innermost_to_committed u
        else Some u
      }
      else Some u)"

definition msg_modify_ule :: "ule \<Rightarrow> ft_msg \<Rightarrow> (ule \<times> int) option" where
  "msg_modify_ule u msg = do {
     let xids = msg_xids msg;
     ensure (toku_xids_get_num_xids xids < MAX_TRANSACTION_RECORDS);
     u \<leftarrow> (if msg_type msg \<noteq> FT_OPTIMIZE \<and> msg_type msg \<noteq> FT_OPTIMIZE_FOR_UPGRADE
           then ule_do_implicit_promotions u xids else Some u);
     (case msg_type msg of
        FT_INSERT_NO_OVERWRITE \<Rightarrow>
          ule_apply_insert_no_overwrite u xids (of_nat (length (msg_val msg))) (msg_val msg)
      | FT_INSERT \<Rightarrow> ule_apply_insert u xids (of_nat (length (msg_val msg))) (msg_val msg)
      | FT_DELETE_ANY \<Rightarrow> ule_apply_delete u xids
      | FT_ABORT_ANY \<Rightarrow> ule_apply_abort u xids
      | FT_ABORT_BROADCAST_TXN \<Rightarrow> ule_apply_abort u xids
      | FT_COMMIT_BROADCAST_ALL \<Rightarrow> Some (ule_apply_broadcast_commit_all u, 0)
      | FT_COMMIT_ANY \<Rightarrow> do { u \<leftarrow> ule_apply_commit u xids; Some (u, 0) }
      | FT_COMMIT_BROADCAST_TXN \<Rightarrow> do { u \<leftarrow> ule_apply_commit u xids; Some (u, 0) }
      | FT_OPTIMIZE \<Rightarrow> do { u \<leftarrow> ule_optimize u xids; Some (u, 0) }
      | FT_OPTIMIZE_FOR_UPGRADE \<Rightarrow> do { u \<leftarrow> ule_optimize u xids; Some (u, 0) }
      | FT_UPDATE \<Rightarrow> None
      | FT_UPDATE_BROADCAST_ALL \<Rightarrow> None
      | FT_NONE \<Rightarrow> None)
   }"

end
