(* ===== verification/Ule_Spec.thy ===== *)
theory Ule_Spec
  imports Ule
begin

text \<open>
  The specification of the unpacked leaf entry and the refinement proofs. A stack is a pair of
  lists of records \<open>(xid, value)\<close>: committed records, oldest first, and provisional records,
  outermost first. \<open>repr u cap cs ps\<close> says that the array state \<open>u\<close> represents the pair
  \<open>(cs, ps)\<close>. Every lemma \<open>..._returns\<close> shows that one array operation does not abort and
  represents the specified stack afterwards.
\<close>

subsection \<open>Abstract stacks\<close>

datatype xval = Ins "byte list" | Del | Hold

type_synonym xrec = "TXNID \<times> xval"
type_synonym vstack = "xrec list \<times> xrec list"

definition abs_uxr :: "uxr \<Rightarrow> xrec" where
  "abs_uxr x = (u_xid x,
     if uxr_is_insert x then Ins (u_valp x) else if uxr_is_delete x then Del else Hold)"

definition uxr_ok :: "uxr \<Rightarrow> bool" where
  "uxr_ok x \<longleftrightarrow>
     (uxr_is_insert x \<and> length (u_valp x) = unat (u_vallen x) \<and> IS_VALID_LEN (u_vallen x)) \<or>
     uxr_is_delete x \<or> uxr_is_placeholder x"

definition cstack :: "ule \<Rightarrow> xrec list" where
  "cstack u = map (\<lambda>i. abs_uxr (uxrs u i)) [0..<num_cuxrs u]"

definition pstack :: "ule \<Rightarrow> xrec list" where
  "pstack u = map (\<lambda>i. abs_uxr (uxrs u i)) [num_cuxrs u..<num_cuxrs u + num_puxrs u]"

definition abs_ule :: "ule \<Rightarrow> vstack" where
  "abs_ule u = (cstack u, pstack u)"

definition slots_ok :: "ule \<Rightarrow> bool" where
  "slots_ok u \<longleftrightarrow> (\<forall>i < num_cuxrs u + num_puxrs u. uxr_ok (uxrs u i))"

definition repr :: "ule \<Rightarrow> nat \<Rightarrow> xrec list \<Rightarrow> xrec list \<Rightarrow> bool" where
  "repr u cap cs ps \<longleftrightarrow>
     num_cuxrs u = length cs \<and> num_puxrs u = length ps \<and> uxrs_cap u = cap \<and>
     (\<forall>i < length cs + length ps. uxr_ok (uxrs u i) \<and> abs_uxr (uxrs u i) = (cs @ ps) ! i)"

fun vs_ok :: "vstack \<Rightarrow> bool" where
  "vs_ok (cs, ps) \<longleftrightarrow>
     cs \<noteq> [] \<and> fst (hd cs) = TXNID_NONE \<and> Hold \<notin> snd ` set cs \<and>
     (ps \<noteq> [] \<longrightarrow> snd (last ps) \<noteq> Hold) \<and>
     TXNID_NONE \<notin> fst ` set ps \<and> distinct (map fst ps) \<and> length ps < MAX_TRANSACTION_RECORDS"

text \<open>
  The invariant of a leaf entry between operations. The capacity clause leaves room for what one
  message can add: one committed record and a full provisional stack.
\<close>

definition ule_wf :: "ule \<Rightarrow> bool" where
  "ule_wf u \<longleftrightarrow> slots_ok u \<and> vs_ok (abs_ule u) \<and> num_cuxrs u + MAX_TRANSACTION_RECORDS \<le> uxrs_cap u"

lemma length_stacks [simp]: "length (cstack u) = num_cuxrs u" "length (pstack u) = num_puxrs u"
  by (simp_all add: cstack_def pstack_def)

lemma stacks_append: "cstack u @ pstack u = map (\<lambda>i. abs_uxr (uxrs u i)) [0..<num_cuxrs u + num_puxrs u]"
  by (simp add: cstack_def pstack_def upt_add_eq_append [of 0 "num_cuxrs u" "num_puxrs u"])

lemma repr_iff:
  "repr u cap cs ps \<longleftrightarrow> slots_ok u \<and> uxrs_cap u = cap \<and> abs_ule u = (cs, ps)"
proof
  assume r: "repr u cap cs ps"
  then have "cstack u @ pstack u = cs @ ps"
    by (intro nth_equalityI) (auto simp: stacks_append repr_def)
  moreover have "length (cstack u) = length cs" using r by (simp add: repr_def)
  ultimately show "slots_ok u \<and> uxrs_cap u = cap \<and> abs_ule u = (cs, ps)"
    using r by (simp add: abs_ule_def slots_ok_def repr_def)
next
  assume a: "slots_ok u \<and> uxrs_cap u = cap \<and> abs_ule u = (cs, ps)"
  then have "cs @ ps = map (\<lambda>i. abs_uxr (uxrs u i)) [0..<num_cuxrs u + num_puxrs u]"
    using stacks_append [of u] by (simp add: abs_ule_def)
  moreover have "length cs = num_cuxrs u" "length ps = num_puxrs u"
    using a by (auto simp: abs_ule_def)
  ultimately show "repr u cap cs ps"
    using a by (simp add: repr_def slots_ok_def)
qed

lemma repr_lengths:
  "repr u cap cs ps \<Longrightarrow> num_cuxrs u = length cs \<and> num_puxrs u = length ps \<and> uxrs_cap u = cap"
  by (simp add: repr_def)

lemma repr_nth:
  "repr u cap cs ps \<Longrightarrow> i < length cs + length ps \<Longrightarrow>
     uxr_ok (uxrs u i) \<and> abs_uxr (uxrs u i) = (cs @ ps) ! i"
  by (simp add: repr_def)

lemma abs_uxr_kinds:
  assumes "uxr_ok x"
  shows "uxr_is_placeholder x \<longleftrightarrow> snd (abs_uxr x) = Hold"
    and "uxr_is_delete x \<longleftrightarrow> snd (abs_uxr x) = Del"
    and "uxr_is_insert x \<longleftrightarrow> (\<exists>v. snd (abs_uxr x) = Ins v)"
    and "uxr_is_insert x \<Longrightarrow> snd (abs_uxr x) = Ins (u_valp x)"
    and "u_xid x = fst (abs_uxr x)"
  using assms by (auto simp: uxr_ok_def abs_uxr_def uxr_is_defs)

subsection \<open>Specified operations\<close>

fun vs_innermost :: "vstack \<Rightarrow> xrec" where
  "vs_innermost (cs, ps) = last (cs @ ps)"

fun vs_promote_committed :: "vstack \<Rightarrow> vstack" where
  "vs_promote_committed (cs, ps) = (cs @ [(fst (hd ps), snd (last ps))], [])"

fun vs_promote_to :: "nat \<Rightarrow> vstack \<Rightarrow> vstack" where
  "vs_promote_to k (cs, ps) = (cs, take k ps @ [(fst (ps ! k), snd (last ps))])"

text \<open>
  Implicit promotion: records of transactions that are not ancestors of the message have ended,
  so their value moves to the innermost common ancestor.
\<close>

fun vs_implicit :: "XIDS \<Rightarrow> vstack \<Rightarrow> vstack" where
  "vs_implicit xids (cs, ps) =
     (let n = lcp_length xids (map fst ps) in
      if ps = [] then (cs, ps)
      else if n = 0 then vs_promote_committed (cs, ps)
      else if n < length ps then vs_promote_to (n - 1) (cs, ps)
      else (cs, ps))"

text \<open>A write replaces the record of its own transaction or adds one above placeholders.\<close>

definition prepared :: "XIDS \<Rightarrow> xrec list \<Rightarrow> xrec list" where
  "prepared xids ps =
     take (length xids - 1) (ps @ map (\<lambda>x. (x, Hold)) (drop (length ps) (butlast xids)))"

fun vs_write :: "XIDS \<Rightarrow> xval \<Rightarrow> vstack \<Rightarrow> vstack" where
  "vs_write xids v (cs, ps) =
     (if xids = [] then (butlast cs @ [(TXNID_NONE, v)], ps)
      else (cs, prepared xids ps @ [(last xids, v)]))"

definition strip_holds :: "xrec list \<Rightarrow> xrec list" where
  "strip_holds ps = rev (dropWhile (\<lambda>r. snd r = Hold) (rev ps))"

fun vs_abort :: "XIDS \<Rightarrow> vstack \<Rightarrow> vstack" where
  "vs_abort xids (cs, ps) =
     (if ps \<noteq> [] \<and> fst (last ps) = last xids then (cs, strip_holds (butlast ps)) else (cs, ps))"

fun vs_commit :: "XIDS \<Rightarrow> vstack \<Rightarrow> vstack" where
  "vs_commit xids (cs, ps) =
     (if ps \<noteq> [] \<and> fst (last ps) = last xids
      then (if length ps = 1 then vs_promote_committed (cs, ps)
            else vs_promote_to (length ps - 2) (cs, ps))
      else (cs, ps))"

fun vs_commit_all :: "vstack \<Rightarrow> vstack" where
  "vs_commit_all (cs, ps) = ([(TXNID_NONE, snd (last (cs @ ps)))], [])"

fun vs_optimize :: "XIDS \<Rightarrow> vstack \<Rightarrow> vstack" where
  "vs_optimize xids (cs, ps) =
     (if ps \<noteq> [] \<and> (xids = [] \<or> hd xids = TXNID_NONE \<or> fst (hd ps) < hd xids)
      then vs_promote_committed (cs, ps) else (cs, ps))"

fun vs_modify :: "ft_msg_type \<Rightarrow> XIDS \<Rightarrow> byte list \<Rightarrow> vstack \<Rightarrow> vstack" where
  "vs_modify FT_INSERT xids v s = vs_write xids (Ins v) (vs_implicit xids s)"
| "vs_modify FT_INSERT_NO_OVERWRITE xids v s =
     (let s' = vs_implicit xids s
      in case snd (vs_innermost s') of Ins _ \<Rightarrow> s' | _ \<Rightarrow> vs_write xids (Ins v) s')"
| "vs_modify FT_DELETE_ANY xids v s = vs_write xids Del (vs_implicit xids s)"
| "vs_modify FT_ABORT_ANY xids v s = vs_abort xids (vs_implicit xids s)"
| "vs_modify FT_ABORT_BROADCAST_TXN xids v s = vs_abort xids (vs_implicit xids s)"
| "vs_modify FT_COMMIT_ANY xids v s = vs_commit xids (vs_implicit xids s)"
| "vs_modify FT_COMMIT_BROADCAST_TXN xids v s = vs_commit xids (vs_implicit xids s)"
| "vs_modify FT_COMMIT_BROADCAST_ALL xids v s = vs_commit_all (vs_implicit xids s)"
| "vs_modify FT_OPTIMIZE xids v s = vs_optimize xids s"
| "vs_modify FT_OPTIMIZE_FOR_UPGRADE xids v s = vs_optimize xids s"
| "vs_modify FT_NONE xids v s = s"
| "vs_modify FT_UPDATE xids v s = s"
| "vs_modify FT_UPDATE_BROADCAST_ALL xids v s = s"

subsection \<open>Primitive operations\<close>

lemma ule_get_innermost_uxr_returns:
  assumes "repr u cap cs ps" "cs \<noteq> []"
  shows "returns (ule_get_innermost_uxr u) (\<lambda>x. uxr_ok x \<and> abs_uxr x = last (cs @ ps))"
proof -
  let ?i = "length cs + length ps - 1"
  have "?i < length cs + length ps" using assms(2) by (cases cs) auto
  then have "uxr_ok (uxrs u ?i) \<and> abs_uxr (uxrs u ?i) = last (cs @ ps)"
    using repr_nth [OF assms(1), of ?i] assms(2) last_conv_nth [of "cs @ ps"] by simp
  then show ?thesis
    using assms repr_lengths [OF assms(1)] by (simp add: ule_get_innermost_uxr_def)
qed

lemma ule_get_xid_returns:
  assumes "repr u cap cs ps" "i < length cs + length ps"
  shows "ule_get_xid u i = Some (fst ((cs @ ps) ! i))"
proof -
  from repr_nth [OF assms] have "fst ((cs @ ps) ! i) = u_xid (uxrs u i)"
    by (metis abs_uxr_def fst_conv)
  then show ?thesis
    using assms repr_lengths [OF assms(1)] by (simp add: ule_get_xid_def)
qed

lemma ule_get_innermost_xid_returns:
  assumes "repr u cap cs ps" "cs \<noteq> []"
  shows "ule_get_innermost_xid u = Some (fst (last (cs @ ps)))"
proof -
  have "length cs + length ps - 1 < length cs + length ps" using assms(2) by (cases cs) auto
  from ule_get_xid_returns [OF assms(1) this] show ?thesis
    using assms repr_lengths [OF assms(1)] last_conv_nth [of "cs @ ps"]
    by (simp add: ule_get_innermost_xid_def)
qed

lemma repr_push:
  assumes "repr u cap cs ps" "uxr_ok x" "uxrs u' = (uxrs u)(length cs + length ps := x)"
    and "uxrs_cap u' = cap" "num_cuxrs u' = length cs'" "num_puxrs u' = length ps'"
    and "cs' @ ps' = cs @ ps @ [abs_uxr x]"
  shows "repr u' cap cs' ps'"
proof -
  have n: "length cs' + length ps' = Suc (length cs + length ps)"
    using arg_cong [OF assms(7), of length] by simp
  have "uxr_ok (uxrs u' i) \<and> abs_uxr (uxrs u' i) = (cs' @ ps') ! i" if "i < length cs' + length ps'" for i
  proof (cases "i = length cs + length ps")
    case True
    then show ?thesis using assms(2,3,7) by (simp add: nth_append)
  next
    case False
    then have i: "i < length cs + length ps" using that n by simp
    then have "(cs @ ps @ [abs_uxr x]) ! i = (cs @ ps) ! i"
      by (simp add: nth_append_left flip: append_assoc)
    then show ?thesis using repr_nth [OF assms(1) i] False assms(3,7) by simp
  qed
  then show ?thesis using assms(4-6) by (simp add: repr_def)
qed

lemma abs_uxr_made:
  "abs_uxr \<lparr>u_type = XR_INSERT, u_vallen = l, u_valp = v, u_xid = x\<rparr> = (x, Ins v)"
  "abs_uxr (y\<lparr>u_xid := x, u_type := XR_DELETE\<rparr>) = (x, Del)"
  "abs_uxr (y\<lparr>u_xid := x, u_type := XR_PLACEHOLDER\<rparr>) = (x, Hold)"
  "uxr_ok (y\<lparr>u_xid := x, u_type := XR_DELETE\<rparr>)"
  "uxr_ok (y\<lparr>u_xid := x, u_type := XR_PLACEHOLDER\<rparr>)"
  "length v = unat l \<Longrightarrow> IS_VALID_LEN l \<Longrightarrow>
     uxr_ok \<lparr>u_type = XR_INSERT, u_vallen = l, u_valp = v, u_xid = x\<rparr>"
  by (simp_all add: abs_uxr_def uxr_ok_def uxr_is_defs)

lemmas ule_push_defs = ule_push_insert_uxr_def ule_push_delete_uxr_def ule_push_placeholder_uxr_def
  ule_get_first_empty_uxr_def uxr_store_def

lemma ule_push_insert_uxr_returns:
  assumes "repr u cap cs ps" "length cs + length ps < cap" "length ps < 253"
    and "length v = unat l" "IS_VALID_LEN l" "c \<Longrightarrow> ps = []"
  shows "returns (ule_push_insert_uxr u c x l v)
    (\<lambda>u'. if c then repr u' cap (cs @ [(x, Ins v)]) [] else repr u' cap cs (ps @ [(x, Ins v)]))"
  using assms(2-6) repr_lengths [OF assms(1)]
  by (simp add: ule_push_defs)
    (intro conjI impI; rule repr_push [OF assms(1) abs_uxr_made(6) [OF assms(4,5)]]; simp add: abs_uxr_made)

lemma ule_push_delete_uxr_returns:
  assumes "repr u cap cs ps" "length cs + length ps < cap" "length ps < 253" "c \<Longrightarrow> ps = []"
  shows "returns (ule_push_delete_uxr u c x)
    (\<lambda>u'. if c then repr u' cap (cs @ [(x, Del)]) [] else repr u' cap cs (ps @ [(x, Del)]))"
  using assms(2-4) repr_lengths [OF assms(1)]
  by (simp add: ule_push_defs)
    (intro conjI impI; rule repr_push [OF assms(1) abs_uxr_made(4)]; simp add: abs_uxr_made)

lemma ule_push_placeholder_uxr_returns:
  assumes "repr u cap cs ps" "cs \<noteq> []" "length cs + length ps < cap" "length ps < 253"
  shows "returns (ule_push_placeholder_uxr u x) (\<lambda>u'. repr u' cap cs (ps @ [(x, Hold)]))"
  using assms(2-4) repr_lengths [OF assms(1)]
  by (simp add: ule_push_defs)
    (rule repr_push [OF assms(1) abs_uxr_made(5)]; simp add: abs_uxr_made)

lemma repr_take_provisional:
  assumes "repr u cap cs ps" "k \<le> length ps"
  shows "repr (u\<lparr>num_puxrs := k\<rparr>) cap cs (take k ps)"
  using assms by (auto simp: repr_def nth_append)

lemma ule_remove_innermost_provisional_returns:
  assumes "repr u cap cs ps" "cs \<noteq> []" "ps \<noteq> []"
  shows "returns (ule_remove_innermost_uxr u) (\<lambda>u'. repr u' cap cs (butlast ps))"
  using assms repr_lengths [OF assms(1)] repr_take_provisional [OF assms(1), of "length ps - 1"]
  by (simp add: ule_remove_innermost_uxr_def butlast_conv_take)

lemma ule_remove_innermost_committed_returns:
  assumes "repr u cap [(TXNID_NONE, v)] []"
  shows "returns (ule_remove_innermost_uxr u) (\<lambda>u'. repr u' cap [] [])"
  using repr_lengths [OF assms(1)] ule_get_innermost_xid_returns [OF assms]
  by (simp add: ule_remove_innermost_uxr_def) (simp add: repr_def)

subsection \<open>Loops\<close>

lemma strip_holds_snoc:
  "strip_holds (ps @ [r]) = (if snd r = Hold then strip_holds ps else ps @ [r])"
  by (simp add: strip_holds_def)

lemma strip_holds_Nil [simp]: "strip_holds [] = []"
  by (simp add: strip_holds_def)

lemma ule_remove_innermost_placeholders_returns:
  "repr u cap cs ps \<Longrightarrow> cs \<noteq> [] \<Longrightarrow> Hold \<notin> snd ` set cs \<Longrightarrow>
     returns (ule_remove_innermost_placeholders u) (\<lambda>u'. repr u' cap cs (strip_holds ps))"
proof (induction ps arbitrary: u rule: rev_induct)
  case Nil
  then obtain x where x: "ule_get_innermost_uxr u = Some x" "uxr_ok x" "abs_uxr x = last cs"
    using returns_obtain [OF ule_get_innermost_uxr_returns] by fastforce
  have "last cs \<in> set cs" using Nil.prems(2) by simp
  then have "\<not> uxr_is_placeholder x"
    using Nil.prems(3) x abs_uxr_kinds(1) by (metis image_eqI)
  then show ?case
    using x Nil.prems(1) by (simp add: ule_remove_innermost_placeholders.simps [of u])
next
  case (snoc r ps)
  obtain x where x: "ule_get_innermost_uxr u = Some x" "uxr_ok x" "abs_uxr x = r"
    using returns_obtain [OF ule_get_innermost_uxr_returns [OF snoc.prems(1,2)]] by auto
  obtain u' where u': "ule_remove_innermost_uxr u = Some u'" "repr u' cap cs ps"
    using returns_obtain [OF ule_remove_innermost_provisional_returns [OF snoc.prems(1,2)]] by auto
  show ?case
  proof (cases "snd r = Hold")
    case True
    then have "uxr_is_placeholder x" using x abs_uxr_kinds(1) by blast
    then show ?thesis
      using x u' True snoc.IH [OF u'(2) snoc.prems(2,3)] repr_lengths [OF snoc.prems(1)]
      by (simp add: ule_remove_innermost_placeholders.simps [of u] strip_holds_snoc)
  next
    case False
    then have "\<not> uxr_is_placeholder x" using x abs_uxr_kinds(1) by blast
    then show ?thesis
      using x False snoc.prems(1)
      by (simp add: ule_remove_innermost_placeholders.simps [of u] strip_holds_snoc)
  qed
qed

lemma push_placeholders_returns:
  "repr u cap cs ps \<Longrightarrow> cs \<noteq> [] \<Longrightarrow> lim \<le> length xids \<Longrightarrow> length cs + length ps + (lim - i) \<le> cap \<Longrightarrow>
     length ps + (lim - i) \<le> 253 \<Longrightarrow>
     returns (push_placeholders u xids i lim)
       (\<lambda>u'. repr u' cap cs (ps @ map (\<lambda>x. (x, Hold)) (drop i (take lim xids))))"
proof (induction "lim - i" arbitrary: u ps i)
  case 0
  then show ?case by (simp add: push_placeholders.simps [of u])
next
  case (Suc n)
  then have i: "i < lim" by simp
  then have x: "toku_xids_get_xid xids i = Some (xids ! i)"
    using Suc.prems(3) by (simp add: toku_xids_get_xid_Some)
  obtain u' where u': "ule_push_placeholder_uxr u (xids ! i) = Some u'"
    "repr u' cap cs (ps @ [(xids ! i, Hold)])"
    using returns_obtain [OF ule_push_placeholder_uxr_returns [OF Suc.prems(1,2)]] Suc.prems i by fastforce
  have "drop i (take lim xids) = xids ! i # drop (i + 1) (take lim xids)"
    using i Suc.prems(3) by (subst Cons_nth_drop_Suc [symmetric]) auto
  moreover have "returns (push_placeholders u' xids (i + 1) lim)
      (\<lambda>u''. repr u'' cap cs ((ps @ [(xids ! i, Hold)]) @
         map (\<lambda>x. (x, Hold)) (drop (i + 1) (take lim xids))))"
    using Suc.prems(2-5) Suc.hyps(2) i by (intro Suc.hyps(1) u'(2)) auto
  ultimately show ?case
    using i x u'(1) by (simp add: push_placeholders.simps [of u])
qed

lemma find_ica_index_eq:
  assumes "repr u cap cs ps" "ps \<noteq> []" "xids \<noteq> []"
    and "k \<le> min (length ps) (length xids)" "\<And>i. i < k \<Longrightarrow> xids ! i = fst (ps ! i)"
  shows "find_ica_index u xids (length cs + k) (length cs + min (length ps) (length xids) - 1) =
    Some (length cs + lcp_length xids (map fst ps) - 1)"
  using assms(4,5)
proof (induction "min (length ps) (length xids) - k" arbitrary: k)
  case 0
  then have k: "k = min (length ps) (length xids)" by simp
  then have "k > 0" using assms(2,3) by (cases ps; cases xids) auto
  moreover have "lcp_length xids (map fst ps) = k"
    using k 0 by (intro lcp_length_unique) auto
  moreover have "find_ica_index u xids (length cs + k) (length cs + k - 1) = Some (length cs + k - 1)"
    using \<open>k > 0\<close> by (cases k) (simp_all add: find_ica_index.simps [of u])
  ultimately show ?case by (simp add: k [symmetric])
next
  case (Suc n)
  let ?m = "min (length ps) (length xids)"
  have k: "k < ?m" using Suc.hyps(2) by linarith
  have x: "toku_xids_get_xid xids (length cs + k - num_cuxrs u) = Some (xids ! k)"
    using k repr_lengths [OF assms(1)] by (simp add: toku_xids_get_xid_Some)
  have y: "ule_get_xid u (length cs + k) = Some (fst (ps ! k))"
    using k ule_get_xid_returns [OF assms(1), of "length cs + k"] by (simp add: nth_append)
  show ?case
  proof (cases "xids ! k = fst (ps ! k)")
    case True
    then have "find_ica_index u xids (length cs + Suc k) (length cs + ?m - 1) =
        Some (length cs + lcp_length xids (map fst ps) - 1)"
      using k Suc by (intro Suc.hyps(1)) (auto simp: less_Suc_eq)
    moreover have "length cs + k \<le> length cs + ?m - 1" using k by linarith
    ultimately show ?thesis
      using True k x y by (subst find_ica_index.simps) simp
  next
    case False
    then have "lcp_length xids (map fst ps) = k"
      using k Suc.prems by (intro lcp_length_unique) auto
    moreover have "length cs + k \<le> length cs + ?m - 1" using k by linarith
    ultimately show ?thesis
      using False k x y by (subst find_ica_index.simps) simp
  qed
qed

subsection \<open>Promotion\<close>

lemma ule_promote_provisional_innermost_to_committed_returns:
  assumes "repr u cap cs ps" "cs \<noteq> []" "ps \<noteq> []" "snd (last ps) \<noteq> Hold" "length cs < cap"
  shows "returns (ule_promote_provisional_innermost_to_committed u)
    (\<lambda>u'. repr u' cap (fst (vs_promote_committed (cs, ps))) [])"
proof -
  obtain x where x: "ule_get_innermost_uxr u = Some x" "uxr_ok x" "abs_uxr x = last ps"
    using returns_obtain [OF ule_get_innermost_uxr_returns [OF assms(1,2)]] assms(3) by auto
  have r0: "repr (u\<lparr>num_puxrs := 0\<rparr>) cap cs []"
    using repr_take_provisional [OF assms(1), of 0] by simp
  have "abs_uxr (uxrs u (num_cuxrs u)) = hd ps"
    using repr_nth [OF assms(1), of "length cs"] repr_lengths [OF assms(1)] assms(3)
    by (simp add: nth_append hd_conv_nth)
  then have xid: "u_xid (uxrs u (num_cuxrs u)) = fst (hd ps)" by (metis abs_uxr_def fst_conv)
  have np: "\<not> uxr_is_placeholder x" and n0: "num_puxrs u \<noteq> 0"
    using assms x abs_uxr_kinds(1) repr_lengths [OF assms(1)] by auto
  show ?thesis
  proof (cases "uxr_is_delete x")
    case True
    then have "snd (last ps) = Del" using x abs_uxr_kinds(2) by metis
    then show ?thesis
      using x np n0 xid True returns_mono [OF ule_push_delete_uxr_returns [OF r0, of True "fst (hd ps)"]] assms(5)
      by (simp add: ule_promote_provisional_innermost_to_committed_def)
  next
    case False
    then have i: "uxr_is_insert x" using x(2) np by (auto simp: uxr_ok_def)
    then have "snd (last ps) = Ins (u_valp x)" using x abs_uxr_kinds(4) by metis
    moreover have "length (u_valp x) = unat (u_vallen x)" "IS_VALID_LEN (u_vallen x)"
      using i x(2) by (auto simp: uxr_ok_def uxr_is_defs)
    ultimately show ?thesis
      using x np n0 xid False assms(5)
        returns_mono [OF ule_push_insert_uxr_returns [OF r0, of "u_valp x" "u_vallen x" True "fst (hd ps)"]]
      by (simp add: ule_promote_provisional_innermost_to_committed_def)
  qed
qed

lemma ule_promote_provisional_innermost_to_index_returns:
  assumes "repr u cap cs ps" "cs \<noteq> []" "k < length ps - 1" "snd (last ps) \<noteq> Hold"
    and "length cs + k < cap" "length ps < MAX_TRANSACTION_RECORDS"
  shows "returns (ule_promote_provisional_innermost_to_index u (length cs + k))
    (\<lambda>u'. repr u' cap cs (snd (vs_promote_to k (cs, ps))))"
proof -
  have ps: "ps \<noteq> []" and k: "k < length ps" "k < 253" using assms(3,6) by auto
  obtain x where x: "ule_get_innermost_uxr u = Some x" "uxr_ok x" "abs_uxr x = last ps"
    using returns_obtain [OF ule_get_innermost_uxr_returns [OF assms(1,2)]] ps by auto
  have r0: "repr (u\<lparr>num_puxrs := k\<rparr>) cap cs (take k ps)"
    using repr_take_provisional [OF assms(1), of k] k by simp
  have "abs_uxr (uxrs u (length cs + k)) = ps ! k"
    using repr_nth [OF assms(1), of "length cs + k"] k by (simp add: nth_append)
  then have xid: "u_xid (uxrs u (length cs + k)) = fst (ps ! k)" by (metis abs_uxr_def fst_conv)
  have np: "\<not> uxr_is_placeholder x" using assms x abs_uxr_kinds(1) by auto
  note lens = repr_lengths [OF assms(1)]
  show ?thesis
  proof (cases "uxr_is_delete x")
    case True
    then have "snd (last ps) = Del" using x abs_uxr_kinds(2) by metis
    then show ?thesis
      using x np xid True lens assms(3,5) k
        returns_mono [OF ule_push_delete_uxr_returns [OF r0, of False "fst (ps ! k)"]]
      by (simp add: ule_promote_provisional_innermost_to_index_def)
  next
    case False
    then have i: "uxr_is_insert x" using x(2) np by (auto simp: uxr_ok_def)
    then have "snd (last ps) = Ins (u_valp x)" using x abs_uxr_kinds(4) by metis
    moreover have "length (u_valp x) = unat (u_vallen x)" "IS_VALID_LEN (u_vallen x)"
      using i x(2) by (auto simp: uxr_ok_def uxr_is_defs)
    ultimately show ?thesis
      using x np xid False lens assms(3,5) k
        returns_mono [OF ule_push_insert_uxr_returns [OF r0, of "u_valp x" "u_vallen x" False "fst (ps ! k)"]]
      by (simp add: ule_promote_provisional_innermost_to_index_def)
  qed
qed

abbreviation represents :: "ule \<Rightarrow> nat \<Rightarrow> vstack \<Rightarrow> bool" where
  "represents u cap s \<equiv> repr u cap (fst s) (snd s)"

lemma ule_do_implicit_promotions_returns:
  assumes "repr u cap cs ps" "vs_ok (cs, ps)" "ps \<noteq> [] \<Longrightarrow> xids \<noteq> []" "length cs + length ps \<le> cap"
  shows "returns (ule_do_implicit_promotions u xids) (\<lambda>u'. represents u' cap (vs_implicit xids (cs, ps)))"
proof (cases "ps = []")
  case True
  then show ?thesis
    using assms(1) repr_lengths [OF assms(1)] by (simp add: ule_do_implicit_promotions_def)
next
  case False
  let ?n = "lcp_length xids (map fst ps)"
  note lens = repr_lengths [OF assms(1)]
  have xs: "xids \<noteq> []" using assms(3) False by simp
  have cs: "cs \<noteq> []" "snd (last ps) \<noteq> Hold" "length ps < MAX_TRANSACTION_RECORDS" "length cs < cap"
    using assms(2,4) False by (auto, cases ps, auto)
  have ica: "find_ica_index u xids (length cs) (length cs + min (length ps) (length xids) - 1) =
      Some (length cs + ?n - 1)"
    using find_ica_index_eq [OF assms(1) False xs, of 0] by simp
  have n: "?n \<le> length ps" using lcp_length_le(2) [of xids "map fst ps"] by simp
  consider (none) "?n = 0" | (some) "0 < ?n" "?n < length ps" | (all) "0 < ?n" "?n = length ps"
    using n by linarith
  then show ?thesis
  proof cases
    case none
    then show ?thesis
      using False xs ica lens cs ule_promote_provisional_innermost_to_committed_returns [OF assms(1) cs(1) False cs(2,4)]
      by (simp add: ule_do_implicit_promotions_def toku_xids_get_num_xids_def)
  next
    case some
    have "returns (ule_promote_provisional_innermost_to_index u (length cs + (?n - 1)))
        (\<lambda>u'. repr u' cap cs (snd (vs_promote_to (?n - 1) (cs, ps))))"
      using some cs assms(1,4) by (intro ule_promote_provisional_innermost_to_index_returns) auto
    moreover have "length cs + (?n - 1) = length cs + ?n - 1" using some by simp
    moreover have "\<not> length cs + ?n - 1 < length cs" "length cs + ?n - 1 < length cs + length ps - 1"
      using some by linarith+
    ultimately show ?thesis
      using False xs ica lens some
      by (simp add: ule_do_implicit_promotions_def toku_xids_get_num_xids_def Let_def)
  next
    case all
    moreover have "\<not> length cs + length ps - 1 < length cs" using False by (cases ps) auto
    ultimately show ?thesis
      using False xs ica lens assms(1)
      by (simp add: ule_do_implicit_promotions_def toku_xids_get_num_xids_def)
  qed
qed

end
