(* ===== verification/Ule_Apply.thy ===== *)
theory Ule_Apply
  imports Ule_Spec
begin

text \<open>
  Message application (\<open>msg_modify_ule\<close> and the \<open>ule_apply_xxx\<close> family of \<open>src/ft/ule.cc\<close>):
  under the conditions the callers guarantee (\<open>msg_applicable\<close>) no assertion and no array bound
  is violated, the invariant is kept, and the stack computed is the specified one.
\<close>

subsection \<open>The specified operations keep the stack well formed\<close>

definition matches :: "XIDS \<Rightarrow> xrec list \<Rightarrow> bool" where
  "matches xids ps \<longleftrightarrow> length ps \<le> length xids \<and> map fst ps = take (length ps) xids"

lemma vs_promote_committed_ok:
  "vs_ok (cs, ps) \<Longrightarrow> ps \<noteq> [] \<Longrightarrow> vs_ok (vs_promote_committed (cs, ps))"
  by auto

lemma vs_promote_to_ok:
  assumes "vs_ok (cs, ps)" "k < length ps"
  shows "vs_ok (vs_promote_to k (cs, ps))"
proof -
  have ps: "ps \<noteq> []" using assms(2) by auto
  have fsts: "map fst (take k ps @ [(fst (ps ! k), snd (last ps))]) = take (Suc k) (map fst ps)"
    using assms(2) by (simp add: take_Suc_conv_app_nth take_map)
  have "distinct (take (Suc k) (map fst ps))" "TXNID_NONE \<notin> set (take (Suc k) (map fst ps))"
    using assms(1) by (auto dest: in_set_takeD)
  moreover have "snd (last ps) \<noteq> Hold" "length ps < MAX_TRANSACTION_RECORDS"
    using assms(1) ps by auto
  ultimately show ?thesis
    using assms(1,2) by (simp only: fsts [symmetric]) (auto simp: image_iff)
qed

lemma vs_implicit_ok:
  assumes "vs_ok (cs, ps)"
  shows "vs_ok (vs_implicit xids (cs, ps))"
  using assms vs_promote_committed_ok [OF assms] vs_promote_to_ok [OF assms] lcp_length_le(2) [of xids "map fst ps"]
  by (auto simp: Let_def simp del: vs_ok.simps vs_promote_committed.simps vs_promote_to.simps)

lemma vs_implicit_matches:
  assumes "ps \<noteq> [] \<Longrightarrow> xids \<noteq> []"
  shows "matches xids (snd (vs_implicit xids (cs, ps)))"
proof -
  let ?n = "lcp_length xids (map fst ps)"
  note le = lcp_length_le [of xids "map fst ps"]
  have tk: "take ?n (map fst ps) = take ?n xids" using lcp_length_take [of xids "map fst ps"] by simp
  show ?thesis
  proof (cases "ps = [] \<or> ?n = 0 \<or> ?n = length ps")
    case True
    then show ?thesis using le tk by (auto simp: matches_def Let_def)
  next
    case False
    then have n: "0 < ?n" "?n < length ps" using le by auto
    then have "map fst (take (?n - 1) ps @ [(fst (ps ! (?n - 1)), snd (last ps))]) = take ?n (map fst ps)"
      using take_Suc_conv_app_nth [of "?n - 1" ps] by (simp add: take_map)
    then show ?thesis using n le tk by (simp add: matches_def Let_def)
  qed
qed

lemma vs_implicit_lengths:
  "length (fst (vs_implicit xids (cs, ps))) \<le> length cs + 1"
  "ps = [] \<Longrightarrow> vs_implicit xids (cs, ps) = (cs, ps)"
  by (auto simp: Let_def)

lemma take_prepared_fst:
  assumes "matches xids ps" "xids \<noteq> []"
  shows "map fst (prepared xids ps) = butlast xids"
proof -
  have "map fst (ps @ map (\<lambda>x. (x, Hold)) (drop (length ps) (butlast xids))) =
      take (length ps) xids @ drop (length ps) (butlast xids)"
    using assms(1) by (simp add: matches_def comp_def)
  also have "take (length xids - 1) \<dots> = butlast xids"
  proof (cases "length ps = length xids")
    case True
    then show ?thesis by (simp add: butlast_conv_take)
  next
    case False
    then have "take (length ps) xids = take (length ps) (butlast xids)"
      using assms(1) by (auto simp: matches_def butlast_conv_take min_def)
    then show ?thesis by simp
  qed
  finally show ?thesis by (simp only: take_map prepared_def)
qed

lemma vs_write_ok:
  assumes "vs_ok (cs, ps)" "xids_ok xids" "matches xids ps" "v \<noteq> Hold"
    and "xids = [] \<longrightarrow> length cs = 1"
  shows "vs_ok (vs_write xids v (cs, ps))"
proof (cases "xids = []")
  case True
  then have "butlast cs = []" "ps = []"
    using assms by (cases cs, auto simp: matches_def)
  then show ?thesis using True assms(4) by simp
next
  case False
  let ?q = "prepared xids ps"
  have f: "map fst (?q @ [(last xids, v)]) = xids"
    using take_prepared_fst [OF assms(3) False] False by (simp only: map_append) simp
  then have "fst ` set (?q @ [(last xids, v)]) = set xids" by (metis set_map)
  moreover have "length (?q @ [(last xids, v)]) = length xids" using f by (metis length_map)
  moreover have "distinct (map fst (?q @ [(last xids, v)]))" using f assms(2) by (simp add: xids_ok_def)
  moreover have "vs_write xids v (cs, ps) = (cs, ?q @ [(last xids, v)])" using False by simp
  ultimately show ?thesis
    using assms(1,2,4) by (simp only: vs_ok.simps xids_ok_def) simp
qed

lemma strip_holds_split: "\<exists>hs. ps = strip_holds ps @ hs \<and> (\<forall>h\<in>set hs. snd h = Hold)"
proof (intro exI conjI)
  show "ps = strip_holds ps @ rev (takeWhile (\<lambda>r. snd r = Hold) (rev ps))"
    by (simp add: strip_holds_def flip: rev_append)
qed (auto dest: set_takeWhileD)

lemma strip_holds_last: "strip_holds ps \<noteq> [] \<Longrightarrow> snd (last (strip_holds ps)) \<noteq> Hold"
  by (metis (mono_tags, lifting) hd_dropWhile last_rev rev_is_Nil_conv strip_holds_def)

lemma vs_abort_ok:
  assumes "vs_ok (cs, ps)"
  shows "vs_ok (vs_abort xids (cs, ps))"
proof -
  obtain hs where hs: "butlast ps = strip_holds (butlast ps) @ hs" using strip_holds_split by metis
  show ?thesis
  proof (cases "ps \<noteq> [] \<and> fst (last ps) = last xids")
    case True
    then have ps: "ps = strip_holds (butlast ps) @ hs @ [last ps]"
      using hs by (metis append_assoc append_butlast_last_id)
    have "fst ` set (strip_holds (butlast ps)) \<subseteq> fst ` set ps" by (subst (2) ps) auto
    moreover have "distinct (map fst (strip_holds (butlast ps)))"
      using assms ps by (metis distinct_append map_append vs_ok.simps)
    moreover have "length (strip_holds (butlast ps)) \<le> length ps" by (subst (2) ps) simp
    ultimately show ?thesis
      using True assms strip_holds_last by auto
  qed (use assms in auto)
qed

lemma vs_commit_ok: "vs_ok (cs, ps) \<Longrightarrow> vs_ok (vs_commit xids (cs, ps))"
  using vs_promote_committed_ok vs_promote_to_ok [of cs ps "length ps - 2"]
  by (simp del: vs_ok.simps vs_promote_committed.simps vs_promote_to.simps)

lemma vs_commit_all_ok: "vs_ok (cs, ps) \<Longrightarrow> vs_ok (vs_commit_all (cs, ps))"
  by (auto simp: image_iff last_append)

lemma vs_optimize_ok: "vs_ok (cs, ps) \<Longrightarrow> vs_ok (vs_optimize xids (cs, ps))"
  using vs_promote_committed_ok by (simp del: vs_ok.simps vs_promote_committed.simps)

subsection \<open>Preparing for a new record\<close>

lemma ule_add_placeholders_returns:
  assumes "repr u cap cs ps" "cs \<noteq> []" "xids_ok xids" "matches xids ps" "length ps < length xids"
    and "length cs + 253 \<le> cap"
  shows "returns (ule_add_placeholders u xids)
    (\<lambda>u'. repr u' cap cs (ps @ map (\<lambda>x. (x, Hold)) (drop (length ps) (butlast xids))))"
proof -
  note lens = repr_lengths [OF assms(1)]
  have "toku_xids_get_xid xids i = ule_get_xid u (i + num_cuxrs u)" if "i < length ps" for i
  proof -
    have "fst (ps ! i) = xids ! i"
      using assms(4) that by (metis (no_types) matches_def nth_map nth_take)
    then show ?thesis
      using that assms(5) ule_get_xid_returns [OF assms(1), of "i + length cs"] lens
      by (simp add: toku_xids_get_xid_Some nth_append)
  qed
  moreover have "returns (push_placeholders u xids (length ps) (length xids - 1))
      (\<lambda>u'. repr u' cap cs (ps @ map (\<lambda>x. (x, Hold)) (drop (length ps) (take (length xids - 1) xids))))"
    using assms by (intro push_placeholders_returns) (auto simp: xids_ok_def)
  moreover have "uint32_pred (length xids) = length xids - 1" "num_puxrs u \<le> length xids"
    using assms(5) lens by (auto simp: uint32_pred_def)
  ultimately show ?thesis
    using lens assms(2)
    by (simp add: ule_add_placeholders_def list_all_iff toku_xids_get_num_xids_def butlast_conv_take)
qed

lemma ule_prepare_for_new_uxr_returns:
  assumes "repr u cap cs ps" "vs_ok (cs, ps)" "xids_ok xids" "matches xids ps"
    and "xids = [] \<longrightarrow> length cs = 1" "length cs + 253 \<le> cap"
  shows "returns (ule_prepare_for_new_uxr u xids)
    (\<lambda>u'. if xids = [] then repr u' cap [] []
          else repr u' cap cs (prepared xids ps))"
proof -
  note lens = repr_lengths [OF assms(1)]
  have cs: "cs \<noteq> []" using assms(2) by simp
  note inner = ule_get_innermost_xid_returns [OF assms(1) cs]
  consider (root) "xids = []" | (same) "xids \<noteq> []" "length ps = length xids"
    | (deeper) "xids \<noteq> []" "length ps < length xids"
    using assms(4) by (fastforce simp: matches_def le_less)
  then show ?thesis
  proof cases
    case root
    then obtain v where "cs = [(TXNID_NONE, v)]" "ps = []"
      using assms(2,4,5) by (cases cs) (auto simp: matches_def length_Suc_conv)
    then show ?thesis
      using root inner ule_remove_innermost_committed_returns [of u cap v] assms(1)
      by (simp add: ule_prepare_for_new_uxr_def)
  next
    case same
    then have ps: "ps \<noteq> []" "map fst ps = xids" using assms(4) by (auto simp: matches_def)
    then have l: "fst (last ps) = last xids" by (metis last_map)
    moreover have "last xids \<noteq> TXNID_NONE" using same assms(3) by (simp add: xids_ok_last)
    ultimately show ?thesis
      using same ps inner lens ule_remove_innermost_provisional_returns [OF assms(1) cs ps(1)]
      by (simp add: ule_prepare_for_new_uxr_def butlast_conv_take prepared_def)
  next
    case deeper
    have nn: "last xids \<noteq> TXNID_NONE" using deeper assms(3) by (simp add: xids_ok_last)
    have "fst (last (cs @ ps)) \<noteq> last xids" if "ps \<noteq> []"
    proof -
      have "last (map fst ps) = last (take (length ps) xids)"
        using assms(4) by (simp add: matches_def)
      then have "fst (last ps) = xids ! (length ps - 1)"
        using that deeper by (simp add: last_map last_conv_nth)
      moreover have "length ps - 1 < length xids" "length xids - 1 < length xids"
        "length ps - 1 \<noteq> length xids - 1"
        using that deeper by (cases ps; simp)+
      ultimately show ?thesis
        using assms(3) deeper(1) that by (simp add: xids_ok_def last_conv_nth [of xids] nth_eq_iff_index_eq)
    qed
    moreover have "prepared xids ps = ps @ map (\<lambda>x. (x, Hold)) (drop (length ps) (butlast xids))"
      using deeper by (simp add: prepared_def)
    ultimately show ?thesis
      using deeper nn inner lens ule_add_placeholders_returns [OF assms(1) cs assms(3,4) deeper(2) assms(6)]
      by (cases "ps = []") (simp_all add: ule_prepare_for_new_uxr_def)
  qed
qed

lemma length_prepared:
  assumes "matches xids ps" "xids \<noteq> []"
  shows "length (prepared xids ps) = length xids - 1"
  using arg_cong [OF take_prepared_fst [OF assms], of length] by simp

text \<open>Both kinds of write: prepare the stack, then push the new record.\<close>

lemma write_insert_returns:
  assumes "repr u cap cs ps" "vs_ok (cs, ps)" "xids_ok xids" "matches xids ps"
    and "xids = [] \<longrightarrow> length cs = 1" "length cs + 253 \<le> cap" "length v = unat l" "IS_VALID_LEN l"
  shows "returns (do {
      u \<leftarrow> ule_prepare_for_new_uxr u xids;
      this_xid \<leftarrow> toku_xids_get_innermost_xid xids;
      u \<leftarrow> ule_push_insert_uxr u (this_xid = TXNID_NONE) this_xid l v;
      Some (u, r :: int) })
    (\<lambda>(u', r'). represents u' cap (vs_write xids (Ins v) (cs, ps)) \<and> r' = r)"
proof (rule returns_bind [OF ule_prepare_for_new_uxr_returns [OF assms(1-6)]], goal_cases)
  case (1 u')
  show ?case
  proof (cases "xids = []")
    case True
    moreover have "butlast cs = []" "ps = []"
      using True assms(2,4,5) by (cases cs, auto simp: matches_def)
    ultimately show ?thesis
      using 1 True assms(6-8) ule_push_insert_uxr_returns [of u' cap "[]" "[]" v l True TXNID_NONE]
      by (auto elim!: returns_bind)
  next
    case False
    have nn: "last xids \<noteq> TXNID_NONE" using False assms(3) by (simp add: xids_ok_last)
    have len: "length xids - 1 < 253" using assms(3) False by (cases xids) (auto simp: xids_ok_def)
    have "returns (ule_push_insert_uxr u' False (last xids) l v)
        (\<lambda>u''. repr u'' cap cs (prepared xids ps @ [(last xids, Ins v)]))"
      using 1 False len assms(6-8) length_prepared [OF assms(4) False]
        ule_push_insert_uxr_returns [of u' cap cs "prepared xids ps" v l False "last xids"] by simp
    then show ?thesis
      using False nn by (auto elim!: returns_bind)
  qed
qed

lemma write_delete_returns:
  assumes "repr u cap cs ps" "vs_ok (cs, ps)" "xids_ok xids" "matches xids ps"
    and "xids = [] \<longrightarrow> length cs = 1" "length cs + 253 \<le> cap"
  shows "returns (do {
      u \<leftarrow> ule_prepare_for_new_uxr u xids;
      this_xid \<leftarrow> toku_xids_get_innermost_xid xids;
      u \<leftarrow> ule_push_delete_uxr u (this_xid = TXNID_NONE) this_xid;
      Some (u, r :: int) })
    (\<lambda>(u', r'). represents u' cap (vs_write xids Del (cs, ps)) \<and> r' = r)"
proof (rule returns_bind [OF ule_prepare_for_new_uxr_returns [OF assms(1-6)]], goal_cases)
  case (1 u')
  show ?case
  proof (cases "xids = []")
    case True
    moreover have "butlast cs = []" "ps = []"
      using True assms(2,4,5) by (cases cs, auto simp: matches_def)
    ultimately show ?thesis
      using 1 True assms(6) ule_push_delete_uxr_returns [of u' cap "[]" "[]" True TXNID_NONE]
      by (auto elim!: returns_bind)
  next
    case False
    have nn: "last xids \<noteq> TXNID_NONE" using False assms(3) by (simp add: xids_ok_last)
    have len: "length xids - 1 < 253" using assms(3) False by (cases xids) (auto simp: xids_ok_def)
    have "returns (ule_push_delete_uxr u' False (last xids))
        (\<lambda>u''. repr u'' cap cs (prepared xids ps @ [(last xids, Del)]))"
      using 1 False len assms(6) length_prepared [OF assms(4) False]
        ule_push_delete_uxr_returns [of u' cap cs "prepared xids ps" False "last xids"] by simp
    then show ?thesis
      using False nn by (auto elim!: returns_bind)
  qed
qed

subsection \<open>The apply functions\<close>

lemma valid_length:
  assumes "n < 2 ^ 31"
  shows "IS_VALID_LEN (of_nat n)" "unat (of_nat n :: 32 word) = n"
proof -
  show u: "unat (of_nat n :: 32 word) = n"
    using assms by (simp add: unsigned_of_nat take_bit_nat_eq_self)
  show "IS_VALID_LEN (of_nat n)"
    using assms u by (simp add: IS_VALID_LEN_def word_less_nat_alt push_bit_eq_mult)
qed

fun vs_abort_delta :: "XIDS \<Rightarrow> vstack \<Rightarrow> int" where
  "vs_abort_delta xids (cs, ps) =
     (if ps \<noteq> [] \<and> fst (last ps) = last xids then
        (case snd (last ps) of
           Del \<Rightarrow> if length ps = 1 \<and> length cs = 1 \<and> snd (hd cs) = Del then 0 else 1
         | Ins v \<Rightarrow> if length ps = 1 \<and> length cs = 1 \<and> (\<exists>w. snd (hd cs) = Ins w) then 0 else - 1
         | Hold \<Rightarrow> 0)
      else 0)"

lemma ule_apply_abort_returns:
  assumes "repr u cap cs ps" "vs_ok (cs, ps)" "xids_ok xids" "xids \<noteq> []"
  shows "returns (ule_apply_abort u xids)
    (\<lambda>(u', r). represents u' cap (vs_abort xids (cs, ps)) \<and> r = vs_abort_delta xids (cs, ps))"
proof -
  note lens = repr_lengths [OF assms(1)]
  have cs: "cs \<noteq> []" "Hold \<notin> snd ` set cs" using assms(2) by auto
  have nn: "last xids \<noteq> TXNID_NONE" using assms(3,4) by (rule xids_ok_last)
  obtain x where x: "ule_get_innermost_uxr u = Some x" "uxr_ok x" "abs_uxr x = last (cs @ ps)"
    using returns_obtain [OF ule_get_innermost_uxr_returns [OF assms(1) cs(1)]] by auto
  have xid: "u_xid x = fst (last (cs @ ps))" using x(2,3) abs_uxr_kinds(5) by metis
  show ?thesis
  proof (cases "ps \<noteq> [] \<and> fst (last ps) = last xids")
    case False
    then show ?thesis
      using x(1) xid nn lens assms(1,4) cs(1) by (auto simp: ule_apply_abort_def)
  next
    case True
    have b: "uxr_ok (uxrs u 0)" "abs_uxr (uxrs u 0) = hd cs"
      using repr_nth [OF assms(1), of 0] cs(1) by (auto simp: nth_append hd_conv_nth)
    obtain u1 where u1: "ule_remove_innermost_uxr u = Some u1" "repr u1 cap cs (butlast ps)"
      using returns_obtain [OF ule_remove_innermost_provisional_returns [OF assms(1) cs(1)]] True by auto
    obtain u2 where u2: "ule_remove_innermost_placeholders u1 = Some u2" "repr u2 cap cs (strip_holds (butlast ps))"
      using returns_obtain [OF ule_remove_innermost_placeholders_returns [OF u1(2) cs]] by auto
    have "num_cuxrs u2 > 0" using repr_lengths [OF u2(2)] cs(1) by simp
    moreover have "uxr_is_delete x \<longleftrightarrow> snd (last ps) = Del" "uxr_is_insert x \<longleftrightarrow> (\<exists>v. snd (last ps) = Ins v)"
      using x True abs_uxr_kinds(2,3) by auto
    moreover have "uxr_is_delete (uxrs u 0) \<longleftrightarrow> snd (hd cs) = Del"
      "uxr_is_insert (uxrs u 0) \<longleftrightarrow> (\<exists>v. snd (hd cs) = Ins v)"
      using b abs_uxr_kinds(2,3) by auto
    ultimately show ?thesis
      using x(1) xid nn lens u1(1) u2 True assms(4)
      by (auto simp: ule_apply_abort_def split: xval.split)
  qed
qed

lemma ule_apply_commit_returns:
  assumes "repr u cap cs ps" "vs_ok (cs, ps)" "xids_ok xids" "xids \<noteq> []" "length cs + length ps \<le> cap"
  shows "returns (ule_apply_commit u xids) (\<lambda>u'. represents u' cap (vs_commit xids (cs, ps)))"
proof -
  note lens = repr_lengths [OF assms(1)]
  have cs: "cs \<noteq> []" using assms(2) by auto
  have nn: "last xids \<noteq> TXNID_NONE" using assms(3,4) by (rule xids_ok_last)
  note inner = ule_get_innermost_xid_returns [OF assms(1) cs]
  show ?thesis
  proof (cases "ps \<noteq> [] \<and> fst (last ps) = last xids")
    case False
    then show ?thesis
      using inner nn lens assms(1,4) by (auto simp: ule_apply_commit_def)
  next
    case True
    then have h: "snd (last ps) \<noteq> Hold" "length ps < MAX_TRANSACTION_RECORDS" using assms(2) by auto
    have c: "length cs < cap" using True assms(5) by (cases ps) auto
    show ?thesis
    proof (cases "length ps = 1")
      case one: True
      then show ?thesis
        using True inner nn lens assms(4)
          ule_promote_provisional_innermost_to_committed_returns [OF assms(1) cs _ h(1) c]
        by (simp add: ule_apply_commit_def)
    next
      case False
      then have n: "length ps \<ge> 2" using True by (cases ps) (auto simp: Suc_le_eq)
      have "returns (ule_promote_provisional_innermost_to_index u (length cs + (length ps - 2)))
          (\<lambda>u'. repr u' cap cs (snd (vs_promote_to (length ps - 2) (cs, ps))))"
        using n h assms(1,5) cs by (intro ule_promote_provisional_innermost_to_index_returns) auto
      moreover have "length cs + (length ps - 2) = length cs + length ps - 2" using n by simp
      ultimately show ?thesis
        using True False inner nn lens assms(4) by (simp add: ule_apply_commit_def)
    qed
  qed
qed

lemma ule_apply_broadcast_commit_all_repr:
  assumes "repr u cap cs ps" "vs_ok (cs, ps)"
  shows "represents (ule_apply_broadcast_commit_all u) cap (vs_commit_all (cs, ps))"
proof -
  have cs: "cs \<noteq> []" using assms(2) by simp
  note lens = repr_lengths [OF assms(1)]
  let ?i = "length cs + length ps - 1"
  have "?i < length cs + length ps" using cs by (cases cs) auto
  then have x: "uxr_ok (uxrs u ?i)" "abs_uxr (uxrs u ?i) = last (cs @ ps)"
    using repr_nth [OF assms(1), of ?i] cs last_conv_nth [of "cs @ ps"] by auto
  have "abs_uxr ((uxrs u ?i)\<lparr>u_xid := TXNID_NONE\<rparr>) = (TXNID_NONE, snd (last (cs @ ps)))"
    "uxr_ok ((uxrs u ?i)\<lparr>u_xid := TXNID_NONE\<rparr>)"
    using x by (auto simp: abs_uxr_def uxr_ok_def uxr_is_defs simp flip: x(2))
  then show ?thesis
    using lens by (simp add: ule_apply_broadcast_commit_all_def repr_def add.commute)
qed

lemma ule_optimize_returns:
  assumes "repr u cap cs ps" "vs_ok (cs, ps)" "length xids \<le> 1" "length cs + length ps \<le> cap"
  shows "returns (ule_optimize u xids) (\<lambda>u'. represents u' cap (vs_optimize xids (cs, ps)))"
proof (cases "ps = []")
  case True
  then show ?thesis using assms(1) repr_lengths [OF assms(1)] by (simp add: ule_optimize_def)
next
  case False
  note lens = repr_lengths [OF assms(1)]
  have "abs_uxr (uxrs u (length cs)) = hd ps"
    using repr_nth [OF assms(1), of "length cs"] False by (simp add: nth_append hd_conv_nth)
  then have o: "u_xid (uxrs u (length cs)) = fst (hd ps)" by (metis abs_uxr_def fst_conv)
  have x: "(if toku_xids_get_num_xids xids > 0
            then do { ensure (toku_xids_get_num_xids xids = 1); toku_xids_get_xid xids 0 }
            else Some TXNID_NONE) = Some (if xids = [] then TXNID_NONE else hd xids)"
    using assms(3) by (cases xids) (auto simp: toku_xids_get_num_xids_def toku_xids_get_xid_def)
  have c: "length cs < cap" "cs \<noteq> []" "snd (last ps) \<noteq> Hold"
    using assms(2,4) False by (auto, cases ps, auto)
  show ?thesis
    using ule_promote_provisional_innermost_to_committed_returns [OF assms(1) c(2) False c(3,1)]
      False lens o assms(1)
    by (simp add: ule_optimize_def x)
qed

end
