(* ===== verification/Ule_Modify.thy ===== *)
theory Ule_Modify
  imports Ule_Apply
begin

text \<open>
  Applying a whole message to a leaf entry: \<open>msg_modify_ule\<close> of \<open>src/ft/ule.cc\<close> refines
  \<open>vs_modify\<close>, together with what that means for the value a reader sees, for nested commit and
  abort, and for the logical row count.
\<close>

subsection \<open>Applicable messages\<close>

text \<open>
  What the callers guarantee. A message carries the stack of its transaction; messages without
  a transaction (\<open>xids = []\<close>) only meet leaf entries with a single committed record.
  \<open>FT_UPDATE\<close> messages never reach \<open>msg_modify_ule\<close>: \<open>toku_ft_leaf_apply_msg\<close> turns them into
  inserts and deletes.
\<close>

fun msg_applicable :: "ft_msg \<Rightarrow> vstack \<Rightarrow> bool" where
  "msg_applicable m (cs, ps) \<longleftrightarrow>
     xids_ok (msg_xids m) \<and> length (msg_val m) < 2 ^ 31 \<and>
     (case msg_type m of
        FT_OPTIMIZE \<Rightarrow> length (msg_xids m) \<le> 1
      | FT_OPTIMIZE_FOR_UPGRADE \<Rightarrow> length (msg_xids m) \<le> 1
      | FT_COMMIT_ANY \<Rightarrow> msg_xids m \<noteq> []
      | FT_COMMIT_BROADCAST_TXN \<Rightarrow> msg_xids m \<noteq> []
      | FT_ABORT_ANY \<Rightarrow> msg_xids m \<noteq> []
      | FT_ABORT_BROADCAST_TXN \<Rightarrow> msg_xids m \<noteq> []
      | FT_COMMIT_BROADCAST_ALL \<Rightarrow> ps \<noteq> [] \<longrightarrow> msg_xids m \<noteq> []
      | FT_INSERT \<Rightarrow> msg_xids m = [] \<longrightarrow> ps = [] \<and> length cs = 1
      | FT_INSERT_NO_OVERWRITE \<Rightarrow> msg_xids m = [] \<longrightarrow> ps = [] \<and> length cs = 1
      | FT_DELETE_ANY \<Rightarrow> msg_xids m = [] \<longrightarrow> ps = [] \<and> length cs = 1
      | _ \<Rightarrow> False)"

fun is_Ins :: "xval \<Rightarrow> bool" where
  "is_Ins (Ins v) = True"
| "is_Ins Del = False"
| "is_Ins Hold = False"

lemma is_Ins_iff: "is_Ins v \<longleftrightarrow> (\<exists>w. v = Ins w)"
  by (cases v) auto

text \<open>The specified row-count adjustment; the caller adds it to 1 for inserts, 0 for deletes.\<close>

fun vs_delta :: "ft_msg_type \<Rightarrow> XIDS \<Rightarrow> vstack \<Rightarrow> int" where
  "vs_delta FT_INSERT xids s = (if is_Ins (snd (vs_innermost s)) then - 1 else 0)"
| "vs_delta FT_INSERT_NO_OVERWRITE xids s = (if is_Ins (snd (vs_innermost s)) then - 1 else 0)"
| "vs_delta FT_DELETE_ANY xids s = (if snd (vs_innermost s) = Del then 1 else 0)"
| "vs_delta FT_ABORT_ANY xids s = vs_abort_delta xids (vs_implicit xids s)"
| "vs_delta FT_ABORT_BROADCAST_TXN xids s = vs_abort_delta xids (vs_implicit xids s)"
| "vs_delta _ xids s = 0"

lemma vs_ok_innermost: "vs_ok s \<Longrightarrow> snd (vs_innermost s) \<noteq> Hold"
  by (cases s) (metis image_eqI last_appendL last_appendR last_in_set vs_innermost.simps vs_ok.simps)

subsection \<open>Implicit promotion keeps the current value\<close>

lemma vs_implicit_innermost_value:
  assumes "vs_ok (cs, ps)"
  shows "snd (vs_innermost (vs_implicit xids (cs, ps))) = snd (vs_innermost (cs, ps))"
  by (simp add: Let_def)

lemma vs_implicit_committed:
  assumes "vs_ok (cs, ps)"
  shows "\<exists>cs'. fst (vs_implicit xids (cs, ps)) = cs @ cs' \<and> length cs' \<le> 1"
  by (simp add: Let_def)

lemma vs_implicit_ids:
  "fst ` set (snd (vs_implicit xids (cs, ps))) \<subseteq> fst ` set ps"
proof -
  have "lcp_length xids (map fst ps) \<le> length ps"
    using lcp_length_le(2) [of xids "map fst ps"] by simp
  then show ?thesis by (auto simp: Let_def dest: in_set_takeD)
qed

subsection \<open>Refinement\<close>

lemma innermost_kind:
  assumes "repr u cap cs ps" "cs \<noteq> []"
  shows "returns (ule_get_innermost_uxr u)
    (\<lambda>x. (uxr_is_insert x \<longleftrightarrow> is_Ins (snd (vs_innermost (cs, ps)))) \<and>
         (uxr_is_delete x \<longleftrightarrow> snd (vs_innermost (cs, ps)) = Del))"
  using ule_get_innermost_uxr_returns [OF assms]
  by (rule returns_mono) (auto simp: abs_uxr_kinds is_Ins_iff)

lemma ule_apply_insert_returns:
  assumes "repr u cap cs ps" "vs_ok (cs, ps)" "xids_ok xids" "matches xids ps"
    and "xids = [] \<longrightarrow> length cs = 1" "length cs + 253 \<le> cap" "length v < 2 ^ 31"
  shows "returns (ule_apply_insert u xids (of_nat (length v)) v)
    (\<lambda>(u', r). represents u' cap (vs_write xids (Ins v) (cs, ps)) \<and>
       r = (if is_Ins (snd (vs_innermost (cs, ps))) then - 1 else 0))"
proof -
  have cs: "cs \<noteq> []" using assms(2) by simp
  note w = write_insert_returns [OF assms(1-6) valid_length(2) [OF assms(7), symmetric] valid_length(1) [OF assms(7)]]
  obtain x where "ule_get_innermost_uxr u = Some x"
    "uxr_is_insert x \<longleftrightarrow> is_Ins (snd (vs_innermost (cs, ps)))"
    using returns_obtain [OF innermost_kind [OF assms(1) cs]] by auto
  then show ?thesis
    using w valid_length [OF assms(7)] assms(7) 
    by (simp add: ule_apply_insert_def Let_def del: toku_xids_get_innermost_xid_eq vs_write.simps vs_innermost.simps)
qed

lemma ule_apply_insert_no_overwrite_returns:
  assumes "repr u cap cs ps" "vs_ok (cs, ps)" "xids_ok xids" "matches xids ps"
    and "xids = [] \<longrightarrow> length cs = 1" "length cs + 253 \<le> cap" "length v < 2 ^ 31"
  shows "returns (ule_apply_insert_no_overwrite u xids (of_nat (length v)) v)
    (\<lambda>(u', r). represents u' cap (if is_Ins (snd (vs_innermost (cs, ps))) then (cs, ps)
          else vs_write xids (Ins v) (cs, ps)) \<and>
       r = (if is_Ins (snd (vs_innermost (cs, ps))) then - 1 else 0))"
proof -
  have cs: "cs \<noteq> []" using assms(2) by simp
  note w = write_insert_returns [OF assms(1-6) valid_length(2) [OF assms(7), symmetric] valid_length(1) [OF assms(7)], of 0]
  obtain x where "ule_get_innermost_uxr u = Some x"
    "uxr_is_insert x \<longleftrightarrow> is_Ins (snd (vs_innermost (cs, ps)))"
    using returns_obtain [OF innermost_kind [OF assms(1) cs]] by auto
  then show ?thesis
    using w valid_length [OF assms(7)] assms(1,7)
    by (simp add: ule_apply_insert_no_overwrite_def del: toku_xids_get_innermost_xid_eq vs_write.simps vs_innermost.simps)
qed

lemma ule_apply_delete_returns:
  assumes "repr u cap cs ps" "vs_ok (cs, ps)" "xids_ok xids" "matches xids ps"
    and "xids = [] \<longrightarrow> length cs = 1" "length cs + 253 \<le> cap"
  shows "returns (ule_apply_delete u xids)
    (\<lambda>(u', r). represents u' cap (vs_write xids Del (cs, ps)) \<and>
       r = (if snd (vs_innermost (cs, ps)) = Del then 1 else 0))"
proof -
  have cs: "cs \<noteq> []" using assms(2) by simp
  obtain x where "ule_get_innermost_uxr u = Some x"
    "uxr_is_delete x \<longleftrightarrow> snd (vs_innermost (cs, ps)) = Del"
    using returns_obtain [OF innermost_kind [OF assms(1) cs]] by auto
  then show ?thesis
    using write_delete_returns [OF assms(1-6)] 
    by (simp add: ule_apply_delete_def Let_def del: toku_xids_get_innermost_xid_eq vs_write.simps vs_innermost.simps)
qed

text \<open>
  The main theorem on message application: an applicable message is applied without violating
  any assertion or array bound, the result represents the specified stack, the specified stack
  is well formed, and the returned adjustment is the specified one.
\<close>

lemma vs_modify_ok:
  assumes "vs_ok (cs, ps)" "msg_applicable m (cs, ps)"
  shows "vs_ok (vs_modify (msg_type m) (msg_xids m) (msg_val m) (cs, ps))"
proof -
  let ?s = "vs_implicit (msg_xids m) (cs, ps)"
  obtain cs' ps' where s: "?s = (cs', ps')" by (cases ?s)
  have ok: "vs_ok (cs', ps')" using vs_implicit_ok [OF assms(1), of "msg_xids m"] s by simp
  have w: "vs_ok (vs_write (msg_xids m) v (cs', ps'))"
    if "v \<noteq> Hold" "msg_xids m = [] \<longrightarrow> ps = [] \<and> length cs = 1" for v
    using that assms(2) vs_implicit_matches [of ps "msg_xids m" cs] vs_implicit_lengths(2) [of ps "msg_xids m" cs] s ok
    by (intro vs_write_ok) auto
  show ?thesis
    using assms(2) ok w s vs_abort_ok vs_commit_ok vs_commit_all_ok vs_optimize_ok [OF assms(1)]
    by (cases "msg_type m"; cases "snd (vs_innermost (cs', ps'))")
      (simp_all add: Let_def del: vs_implicit.simps vs_write.simps vs_ok.simps vs_abort.simps
        vs_commit.simps vs_commit_all.simps vs_optimize.simps vs_innermost.simps)
qed

lemma msg_modify_ule_returns:
  assumes "repr u cap cs ps" "vs_ok (cs, ps)" "msg_applicable m (cs, ps)"
    and "length cs + MAX_TRANSACTION_RECORDS \<le> cap"
  shows "returns (msg_modify_ule u m)
    (\<lambda>(u', r). represents u' cap (vs_modify (msg_type m) (msg_xids m) (msg_val m) (cs, ps)) \<and>
       r = vs_delta (msg_type m) (msg_xids m) (cs, ps))"
proof -
  let ?x = "msg_xids m" and ?t = "msg_type m" and ?v = "msg_val m"
  have ps: "length cs + length ps \<le> cap" using assms(2,4) by simp
  have app: "xids_ok ?x" "length ?x < MAX_TRANSACTION_RECORDS" "length ?v < 2 ^ 31"
    using assms(3) by (auto simp: xids_ok_def)
  note dels = vs_implicit.simps vs_write.simps vs_ok.simps vs_abort.simps vs_commit.simps
    vs_commit_all.simps vs_optimize.simps vs_innermost.simps vs_abort_delta.simps
  show ?thesis
  proof (cases "?t = FT_OPTIMIZE \<or> ?t = FT_OPTIMIZE_FOR_UPGRADE")
    case True
    then have "length ?x \<le> 1" using assms(3) by auto
    from ule_optimize_returns [OF assms(1,2) this ps] show ?thesis
      using True app(2)
      by (auto simp: msg_modify_ule_def toku_xids_get_num_xids_def elim!: returns_bind simp del: dels)
  next
    case False
    then have xs: "ps \<noteq> [] \<Longrightarrow> ?x \<noteq> []" using assms(3) by (auto split: ft_msg_type.splits)
    obtain cs' ps' where s: "vs_implicit ?x (cs, ps) = (cs', ps')" by fastforce
    obtain u' where u': "ule_do_implicit_promotions u ?x = Some u'" "repr u' cap cs' ps'"
      using returns_obtain [OF ule_do_implicit_promotions_returns [OF assms(1,2) xs ps]] s by auto
    have ok: "vs_ok (cs', ps')" using vs_implicit_ok [OF assms(2)] s by metis
    have m: "matches ?x ps'" using vs_implicit_matches [OF xs] s by (metis snd_conv)
    have cap: "length cs' + 253 \<le> cap" "length cs' + length ps' \<le> cap"
      using vs_implicit_lengths(1) [of ?x cs ps] s assms(4) ok by auto
    have one: "?x = [] \<longrightarrow> length cs' = 1" if "?x = [] \<longrightarrow> ps = [] \<and> length cs = 1"
      using that vs_implicit_lengths(2) [of ps ?x cs] s by auto
    have val: "snd (vs_innermost (cs', ps')) = snd (vs_innermost (cs, ps))"
      using vs_implicit_innermost_value [OF assms(2), of ?x] s by simp
    have nh: "snd (vs_innermost (cs, ps)) \<noteq> Hold" using assms(2) by (rule vs_ok_innermost)
    have ins: "returns (ule_apply_insert u' ?x (of_nat (length ?v)) ?v)
        (\<lambda>(u'', r). represents u'' cap (vs_write ?x (Ins ?v) (cs', ps')) \<and>
           r = (if is_Ins (snd (vs_innermost (cs, ps))) then - 1 else 0))"
      "returns (ule_apply_insert_no_overwrite u' ?x (of_nat (length ?v)) ?v)
        (\<lambda>(u'', r). represents u'' cap (if is_Ins (snd (vs_innermost (cs, ps))) then (cs', ps')
              else vs_write ?x (Ins ?v) (cs', ps')) \<and>
           r = (if is_Ins (snd (vs_innermost (cs, ps))) then - 1 else 0))"
      "returns (ule_apply_delete u' ?x)
        (\<lambda>(u'', r). represents u'' cap (vs_write ?x Del (cs', ps')) \<and>
           r = (if snd (vs_innermost (cs, ps)) = Del then 1 else 0))"
      if "?x = [] \<longrightarrow> ps = [] \<and> length cs = 1"
      using ule_apply_insert_returns [OF u'(2) ok app(1) m one [OF that] cap(1) app(3)]
        ule_apply_insert_no_overwrite_returns [OF u'(2) ok app(1) m one [OF that] cap(1) app(3)]
        ule_apply_delete_returns [OF u'(2) ok app(1) m one [OF that] cap(1)] val
      by simp_all
    have com: "returns (do { u \<leftarrow> ule_apply_commit u' ?x; Some (u, 0 :: int) })
        (\<lambda>(u'', r). represents u'' cap (vs_commit ?x (cs', ps')) \<and> r = 0)" if "?x \<noteq> []"
      using ule_apply_commit_returns [OF u'(2) ok app(1) that cap(2)]
      by (auto elim!: returns_bind simp del: vs_commit.simps)
    show ?thesis
      using False app(2) assms(3) s u' ins com ule_apply_abort_returns [OF u'(2) ok app(1)]
        ule_apply_broadcast_commit_all_repr [OF u'(2) ok] val nh
      by (cases ?t; cases "snd (vs_innermost (cs, ps))")
        (simp_all add: msg_modify_ule_def toku_xids_get_num_xids_def Let_def del: dels)
  qed
qed

lemma ule_wf_repr:
  assumes "ule_wf u"
  obtains cs ps where "repr u (uxrs_cap u) cs ps" "vs_ok (cs, ps)" "abs_ule u = (cs, ps)"
    "length cs + MAX_TRANSACTION_RECORDS \<le> uxrs_cap u"
  using assms that [of "cstack u" "pstack u"]
  by (simp add: ule_wf_def repr_iff abs_ule_def del: vs_ok.simps)

subsection \<open>Consequences on the specification level\<close>

definition vs_rows :: "vstack \<Rightarrow> int" where
  "vs_rows s = (if is_Ins (snd (vs_innermost s)) then 1 else 0)"

lemma vs_write_innermost: "snd (vs_innermost (vs_write xids v (cs, [])) ) = v"
  "xids \<noteq> [] \<Longrightarrow> snd (vs_innermost (vs_write xids v s)) = v"
  by (simp, cases s, simp)

lemma vs_promote_innermost:
  "ps \<noteq> [] \<Longrightarrow> snd (vs_innermost (vs_commit xids (cs, ps))) = snd (vs_innermost (cs, ps))"
  "snd (vs_innermost (vs_commit_all s)) = snd (vs_innermost s)"
  "snd (vs_innermost (vs_optimize xids s)) = snd (vs_innermost s)"
  by (simp, (cases s, simp)+)

lemma vs_commit_innermost: "snd (vs_innermost (vs_commit xids s)) = snd (vs_innermost s)"
  by (cases s, cases "snd s = []") (simp_all add: vs_promote_innermost)

lemma vs_implicit_matching:
  assumes "matches xids ps"
  shows "vs_implicit xids (cs, ps) = (cs, ps)"
proof -
  have "length ps \<le> length xids" "\<And>i. i < length ps \<Longrightarrow> xids ! i = map fst ps ! i"
    using assms by (simp_all add: matches_def)
  then have "lcp_length xids (map fst ps) = length ps" by (intro lcp_length_unique) auto
  then show ?thesis by (auto simp: Let_def)
qed

lemma matches_write:
  assumes "matches xids ps" "xids \<noteq> []"
  shows "matches xids (prepared xids ps @ [(last xids, v)])"
  using take_prepared_fst [OF assms] length_prepared [OF assms] assms(2)
  by (cases xids rule: rev_cases) (auto simp: matches_def)

lemma vs_abort_write:
  assumes "vs_ok (cs, ps)" "matches xids ps" "xids \<noteq> []" "last xids \<notin> fst ` set ps"
  shows "vs_abort xids (vs_write xids v (cs, ps)) = (cs, ps)"
proof -
  have len: "length ps < length xids"
  proof (rule ccontr)
    assume "\<not> ?thesis"
    then have "map fst ps = xids" using assms(2) by (simp add: matches_def)
    then show False using assms(3,4) by (metis image_set last_in_set)
  qed
  have "strip_holds (ps @ map (\<lambda>x. (x, Hold)) ys) = ps" for ys
    using assms(1)
    by (induction ys rule: rev_induct)
      (simp_all add: strip_holds_snoc flip: append_assoc, cases ps rule: rev_cases, auto simp: strip_holds_snoc)
  then show ?thesis using assms(3) len by (simp add: prepared_def butlast_append)
qed

lemma vs_commit_write:
  assumes "matches xids ps" "xids \<noteq> []"
  shows "vs_commit xids (vs_write xids v (cs, ps)) =
    (if length xids = 1 then (cs @ [(hd xids, v)], []) else vs_write (butlast xids) v (cs, ps))"
proof (cases "length xids = 1")
  case True
  then obtain x where "xids = [x]" by (auto simp: length_Suc_conv)
  then show ?thesis by (simp add: prepared_def)
next
  case False
  then obtain p x where xs: "xids = p @ [x]" "p \<noteq> []"
    using assms(2) by (cases xids rule: rev_cases) auto
  have q: "map fst (prepared xids ps) = p" "length (prepared xids ps) = length p"
    using take_prepared_fst [OF assms] length_prepared [OF assms] xs by auto
  have "prepared p ps = take (length p - 1) (prepared xids ps)"
    using xs assms(1) by (cases p rule: rev_cases)
      (auto simp: prepared_def matches_def min_def take_map drop_map butlast_append)
  moreover have "fst ((prepared xids ps @ [(x, v)]) ! (length p - 1)) = last p"
    using q xs(2) by (cases p rule: rev_cases) (auto simp: nth_append, metis diff_Suc_1 length_append_singleton lessI nth_append_length nth_map)
  ultimately show ?thesis using xs q by (simp)
qed

subsection \<open>Properties\<close>

lemma msg_modify_ule_wf:
  assumes "ule_wf u" "msg_applicable m (abs_ule u)"
  obtains u' where "msg_modify_ule u m = Some (u', vs_delta (msg_type m) (msg_xids m) (abs_ule u))"
    "abs_ule u' = vs_modify (msg_type m) (msg_xids m) (msg_val m) (abs_ule u)"
    "slots_ok u'" "vs_ok (abs_ule u')" "uxrs_cap u' = uxrs_cap u"
proof -
  obtain cs ps where r: "repr u (uxrs_cap u) cs ps" "vs_ok (cs, ps)" "abs_ule u = (cs, ps)"
    "length cs + MAX_TRANSACTION_RECORDS \<le> uxrs_cap u"
    using ule_wf_repr [OF assms(1)] .
  then have m: "msg_applicable m (cs, ps)" using assms(2) by metis
  obtain u' where "msg_modify_ule u m = Some (u', vs_delta (msg_type m) (msg_xids m) (cs, ps))"
    "represents u' (uxrs_cap u) (vs_modify (msg_type m) (msg_xids m) (msg_val m) (cs, ps))"
    using returns_obtain [OF msg_modify_ule_returns [OF r(1,2) m r(4)]] by auto
  then show ?thesis
    using that r(3) vs_modify_ok [OF r(2) m] by (simp add: repr_iff)
qed

text \<open>
  C1. Applying an applicable message to a well-formed leaf entry never violates an assertion or
  the bound of the record array; the resulting record stack is exactly the specified one, it is
  again well formed, and the returned row adjustment is the specified one.
\<close>

theorem msg_modify_ule_refines:
  assumes "ule_wf u" "msg_applicable m (abs_ule u)"
  shows "\<exists>u' r. msg_modify_ule u m = Some (u', r) \<and>
    abs_ule u' = vs_modify (msg_type m) (msg_xids m) (msg_val m) (abs_ule u) \<and>
    r = vs_delta (msg_type m) (msg_xids m) (abs_ule u) \<and>
    slots_ok u' \<and> vs_ok (abs_ule u') \<and> uxrs_cap u' = uxrs_cap u"
  using msg_modify_ule_wf [OF assms] by metis

lemma empty_ule_stack: "abs_ule (ule_init_empty_ule u) = ([(TXNID_NONE, Del)], [])"
  by (simp add: abs_ule_def cstack_def pstack_def ule_init_empty_ule_def committed_delete_def
      abs_uxr_def uxr_is_defs TXNID_NONE_def)

lemma empty_ule_wf:
  "ule_wf (ule_init_empty_ule u)"
  "num_cuxrs (ule_init_empty_ule u) + 1 + MAX_TRANSACTION_RECORDS \<le> uxrs_cap (ule_init_empty_ule u)"
  unfolding ule_wf_def empty_ule_stack
  by (simp_all add: slots_ok_def ule_init_empty_ule_def committed_delete_def uxr_ok_def uxr_is_defs)

definition sample_ule :: ule where
  "sample_ule = ule_init_empty_ule \<lparr>num_puxrs = 0, num_cuxrs = 0, uxrs = \<lambda>_. committed_delete, uxrs_cap = 0\<rparr>"

definition sample_insert :: ft_msg where
  "sample_insert = \<lparr>msg_key = [1], msg_val = [42, 43], msg_type = FT_INSERT, msg_msn = 1, msg_xids = [5, 9]\<rparr>"

lemma sample_applicable:
  "msg_applicable sample_insert (abs_ule sample_ule)"
  "msg_applicable (sample_insert\<lparr>msg_type := FT_DELETE_ANY\<rparr>) (abs_ule sample_ule)"
  by (simp_all add: sample_ule_def empty_ule_stack sample_insert_def xids_ok_def TXNID_NONE_def)

lemma sample_ule_wf: "ule_wf sample_ule" "abs_ule sample_ule = ([(TXNID_NONE, Del)], [])"
  "num_cuxrs sample_ule + 1 + MAX_TRANSACTION_RECORDS \<le> uxrs_cap sample_ule" "pstack sample_ule = []"
  using empty_ule_wf empty_ule_stack by (simp_all add: sample_ule_def abs_ule_def)

theorem msg_modify_ule_refines_witness:
  "\<exists>u' r. msg_modify_ule sample_ule sample_insert = Some (u', r) \<and>
    abs_ule u' = ([(TXNID_NONE, Del)], [(5, Hold), (9, Ins [42, 43])]) \<and> r = 0"
  using msg_modify_ule_refines [OF sample_ule_wf(1) sample_applicable(1)]
  by (auto simp: sample_ule_wf(2) sample_insert_def prepared_def)

lemma write_then:
  assumes "ule_wf u" "num_cuxrs u + 1 + MAX_TRANSACTION_RECORDS \<le> uxrs_cap u"
    and "msg_type m = FT_INSERT \<and> v = Ins (msg_val m) \<or> msg_type m = FT_DELETE_ANY \<and> v = Del"
    and "msg_applicable m (abs_ule u)" "msg_xids m \<noteq> []"
  obtains u1 r1 cs ps where "msg_modify_ule u m = Some (u1, r1)" "ule_wf u1"
    "vs_implicit (msg_xids m) (abs_ule u) = (cs, ps)" "vs_ok (cs, ps)" "matches (msg_xids m) ps"
    "abs_ule u1 = vs_write (msg_xids m) v (cs, ps)"
    "vs_implicit (msg_xids m) (abs_ule u1) = abs_ule u1"
    "fst ` set ps \<subseteq> fst ` set (pstack u)"
proof -
  obtain u1 where u1: "msg_modify_ule u m = Some (u1, vs_delta (msg_type m) (msg_xids m) (abs_ule u))"
    "abs_ule u1 = vs_modify (msg_type m) (msg_xids m) (msg_val m) (abs_ule u)"
    "slots_ok u1" "vs_ok (abs_ule u1)" "uxrs_cap u1 = uxrs_cap u"
    using msg_modify_ule_wf [OF assms(1,4)] .
  obtain cs ps where s: "vs_implicit (msg_xids m) (cstack u, pstack u) = (cs, ps)" by fastforce
  have ok: "vs_ok (cs, ps)"
    using vs_implicit_ok [of "cstack u" "pstack u" "msg_xids m"] s assms(1) by (simp add: ule_wf_def abs_ule_def)
  have mt: "matches (msg_xids m) ps"
    using vs_implicit_matches [of "pstack u" "msg_xids m" "cstack u"] s assms(5) by (simp del: vs_implicit.simps)
  have w: "abs_ule u1 = vs_write (msg_xids m) v (cs, ps)"
    using u1(2) assms(3) s by (auto simp: abs_ule_def simp del: vs_implicit.simps vs_write.simps)
  have "length (cstack u1) \<le> length cs" using w assms(5) by (simp add: abs_ule_def)
  moreover have "length cs \<le> num_cuxrs u + 1"
    using vs_implicit_lengths(1) [of "msg_xids m" "cstack u" "pstack u"] s by simp
  ultimately have "ule_wf u1" using u1 assms(2) by (simp add: ule_wf_def)
  moreover have "vs_implicit (msg_xids m) (abs_ule u1) = abs_ule u1"
    using vs_implicit_matching [OF matches_write [OF mt assms(5)]] w assms(5) by (simp del: vs_implicit.simps)
  moreover have "fst ` set ps \<subseteq> fst ` set (pstack u)"
    using vs_implicit_ids [of "msg_xids m" "cstack u" "pstack u"] s by simp
  ultimately show ?thesis
    using that u1(1) s ok mt w by (simp add: abs_ule_def del: vs_implicit.simps vs_write.simps vs_ok.simps)
qed

text \<open>
  C2. Aborting a transaction undoes its write: if the innermost transaction of the message has
  no record in the leaf entry yet, then an insert or delete followed by the abort of the same
  transaction leaves exactly the stack that implicit promotion alone would have left (so the
  stack itself when the provisional records belong to ancestors of the message).
\<close>

theorem abort_undoes_write:
  assumes "ule_wf u" "num_cuxrs u + 1 + MAX_TRANSACTION_RECORDS \<le> uxrs_cap u"
    and "msg_type m = FT_INSERT \<or> msg_type m = FT_DELETE_ANY" "msg_xids m \<noteq> []"
    and "msg_applicable m (abs_ule u)" "last (msg_xids m) \<notin> fst ` set (pstack u)"
  shows "\<exists>u1 r1 u2 r2. msg_modify_ule u m = Some (u1, r1) \<and>
    msg_modify_ule u1 (m\<lparr>msg_type := FT_ABORT_ANY\<rparr>) = Some (u2, r2) \<and>
    abs_ule u2 = vs_implicit (msg_xids m) (abs_ule u)"
proof -
  obtain v where v: "msg_type m = FT_INSERT \<and> v = Ins (msg_val m) \<or> msg_type m = FT_DELETE_ANY \<and> v = Del"
    using assms(3) by auto
  obtain u1 r1 cs ps where u1: "msg_modify_ule u m = Some (u1, r1)" "ule_wf u1"
    "vs_implicit (msg_xids m) (abs_ule u) = (cs, ps)" "vs_ok (cs, ps)" "matches (msg_xids m) ps"
    "abs_ule u1 = vs_write (msg_xids m) v (cs, ps)"
    "vs_implicit (msg_xids m) (abs_ule u1) = abs_ule u1" "fst ` set ps \<subseteq> fst ` set (pstack u)"
    using write_then [OF assms(1,2) v assms(5,4)] by metis
  let ?m = "m\<lparr>msg_type := FT_ABORT_ANY\<rparr>"
  have "msg_applicable ?m (abs_ule u1)"
    using assms(4,5) by (cases "abs_ule u"; cases "abs_ule u1") simp
  from msg_modify_ule_wf [OF u1(2) this] obtain u2 r2 where "msg_modify_ule u1 ?m = Some (u2, r2)"
    "abs_ule u2 = vs_modify (msg_type ?m) (msg_xids m) (msg_val m) (abs_ule u1)"
    by (metis ft_msg.select_convs(2,5) ft_msg.update_convs(3) ft_msg.surjective)
  moreover from this(2) have "abs_ule u2 = vs_abort (msg_xids m) (vs_write (msg_xids m) v (cs, ps))"
    using u1(6,7) by (simp del: vs_implicit.simps vs_abort.simps vs_write.simps)
  moreover have "last (msg_xids m) \<notin> fst ` set ps" using u1(8) assms(6) by blast
  ultimately show ?thesis
    using u1(1,3) vs_abort_write [OF u1(4,5) assms(4)] by metis
qed

theorem abort_undoes_write_witness:
  "\<exists>u1 r1 u2 r2. msg_modify_ule sample_ule sample_insert = Some (u1, r1) \<and>
    msg_modify_ule u1 (sample_insert\<lparr>msg_type := FT_ABORT_ANY\<rparr>) = Some (u2, r2) \<and>
    abs_ule u2 = ([(TXNID_NONE, Del)], [])"
  using abort_undoes_write [OF sample_ule_wf(1,3) _ _ sample_applicable(1)]
  by (simp add: sample_ule_wf(2,4) sample_insert_def)

text \<open>
  C3. Committing after a write: when a nested transaction commits, the stack is the one its
  parent would have produced by doing the write itself; when a root transaction commits, the
  value becomes the newest committed record under the root's id and no provisional record is left.
\<close>

theorem commit_after_write:
  assumes "ule_wf u" "num_cuxrs u + 1 + MAX_TRANSACTION_RECORDS \<le> uxrs_cap u"
    and "msg_type m = FT_INSERT \<and> v = Ins (msg_val m) \<or> msg_type m = FT_DELETE_ANY \<and> v = Del"
    and "msg_applicable m (abs_ule u)" "msg_xids m \<noteq> []"
  shows "\<exists>u1 r1 u2 r2. msg_modify_ule u m = Some (u1, r1) \<and>
    msg_modify_ule u1 (m\<lparr>msg_type := FT_COMMIT_ANY\<rparr>) = Some (u2, r2) \<and>
    abs_ule u2 =
      (let s = vs_implicit (msg_xids m) (abs_ule u) in
       if length (msg_xids m) = 1 then (fst s @ [(hd (msg_xids m), v)], [])
       else vs_write (butlast (msg_xids m)) v s)"
proof -
  obtain u1 r1 cs ps where u1: "msg_modify_ule u m = Some (u1, r1)" "ule_wf u1"
    "vs_implicit (msg_xids m) (abs_ule u) = (cs, ps)" "vs_ok (cs, ps)" "matches (msg_xids m) ps"
    "abs_ule u1 = vs_write (msg_xids m) v (cs, ps)"
    "vs_implicit (msg_xids m) (abs_ule u1) = abs_ule u1"
    using write_then [OF assms] by metis
  let ?m = "m\<lparr>msg_type := FT_COMMIT_ANY\<rparr>"
  have "msg_applicable ?m (abs_ule u1)"
    using assms(4,5) by (cases "abs_ule u"; cases "abs_ule u1") simp
  from msg_modify_ule_wf [OF u1(2) this] obtain u2 r2 where "msg_modify_ule u1 ?m = Some (u2, r2)"
    "abs_ule u2 = vs_modify (msg_type ?m) (msg_xids m) (msg_val m) (abs_ule u1)"
    by (metis ft_msg.select_convs(2,5) ft_msg.update_convs(3) ft_msg.surjective)
  moreover from this(2) have "abs_ule u2 = vs_commit (msg_xids m) (vs_write (msg_xids m) v (cs, ps))"
    using u1(6,7) by (simp del: vs_implicit.simps vs_commit.simps vs_write.simps)
  ultimately show ?thesis
    using u1(1) vs_commit_write [OF u1(5) assms(5), of v cs]
    unfolding u1(3) Let_def fst_conv by metis
qed

theorem commit_after_write_witness:
  "\<exists>u1 r1 u2 r2. msg_modify_ule sample_ule sample_insert = Some (u1, r1) \<and>
    msg_modify_ule u1 (sample_insert\<lparr>msg_type := FT_COMMIT_ANY\<rparr>) = Some (u2, r2) \<and>
    abs_ule u2 = ([(TXNID_NONE, Del)], [(5, Ins [42, 43])])"
  using commit_after_write [OF sample_ule_wf(1,3) _ sample_applicable(1)]
  by (simp add: sample_ule_wf(2) sample_insert_def prepared_def)

lemma vs_write_rows:
  "xids = [] \<longrightarrow> snd s = [] \<Longrightarrow> snd (vs_innermost (vs_write xids v s)) = v"
  using vs_write_innermost by (cases s; cases "xids = []") auto

lemma vs_innermost_kinds: "vs_ok s \<Longrightarrow> snd (vs_innermost s) = Del \<longleftrightarrow> \<not> is_Ins (snd (vs_innermost s))"
  using vs_ok_innermost [of s] by (cases "snd (vs_innermost s)") auto

fun sender_delta :: "ft_msg_type \<Rightarrow> int" where
  "sender_delta FT_INSERT = 1"
| "sender_delta FT_INSERT_NO_OVERWRITE = 1"
| "sender_delta FT_DELETE_ANY = - 1"
| "sender_delta _ = 0"

text \<open>
  C4. The returned row adjustment is right for every message except aborts: the senders count
  one row more for an insert and one less for a delete, and adding the adjustment gives the
  change in the number of rows that the newest record of the leaf entry stands for.
\<close>

theorem row_adjustment_correct:
  assumes "ule_wf u" "msg_applicable m (abs_ule u)"
    and "msg_type m \<noteq> FT_ABORT_ANY" "msg_type m \<noteq> FT_ABORT_BROADCAST_TXN"
    and "msg_modify_ule u m = Some (u', r)"
  shows "vs_rows (abs_ule u') = vs_rows (abs_ule u) + sender_delta (msg_type m) + r"
proof -
  obtain cs ps where s: "abs_ule u = (cs, ps)" by fastforce
  let ?s = "vs_implicit (msg_xids m) (cs, ps)"
  have ok: "vs_ok (cs, ps)" using assms(1) s by (simp add: ule_wf_def)
  note inn = vs_innermost_kinds [OF ok] vs_implicit_innermost_value [OF ok, of "msg_xids m"]
  have r: "r = vs_delta (msg_type m) (msg_xids m) (cs, ps)"
    "abs_ule u' = vs_modify (msg_type m) (msg_xids m) (msg_val m) (cs, ps)"
    using msg_modify_ule_wf [OF assms(1,2)] assms(5) s by (metis Pair_inject option.inject)+
  have w: "snd (vs_innermost (vs_write (msg_xids m) v ?s)) = v"
    if "msg_xids m = [] \<longrightarrow> ps = [] \<and> length cs = 1" for v
    using that vs_implicit_lengths(2) [of ps "msg_xids m" cs] by (intro vs_write_rows) auto
  show ?thesis
    using assms(2-4) r s inn w
    by (cases "msg_type m"; cases "snd (vs_innermost (cs, ps))")
      (simp_all add: vs_rows_def vs_commit_innermost vs_promote_innermost Let_def
        del: vs_implicit.simps vs_write.simps vs_commit.simps vs_commit_all.simps vs_optimize.simps
          vs_innermost.simps)
qed

theorem row_adjustment_correct_witness:
  "\<exists>u' r. msg_modify_ule sample_ule sample_insert = Some (u', r) \<and>
    vs_rows (abs_ule u') = vs_rows (abs_ule sample_ule) + 1 + r"
proof -
  obtain u' where m: "msg_modify_ule sample_ule sample_insert =
      Some (u', vs_delta (msg_type sample_insert) (msg_xids sample_insert) (abs_ule sample_ule))"
    using msg_modify_ule_wf [OF sample_ule_wf(1) sample_applicable(1)] by metis
  from row_adjustment_correct [OF sample_ule_wf(1) sample_applicable(1) _ _ m] show ?thesis
    using m by (simp add: sample_insert_def)
qed

definition sample_abort :: ft_msg where
  "sample_abort = \<lparr>msg_key = [1], msg_val = [], msg_type = FT_ABORT_ANY, msg_msn = 2, msg_xids = [9]\<rparr>"

definition sample_overwritten :: ule where
  "sample_overwritten = \<lparr>num_puxrs = 1, num_cuxrs = 2,
     uxrs = (\<lambda>_. committed_delete)
       (1 := \<lparr>u_type = XR_INSERT, u_vallen = 1, u_valp = [7], u_xid = 5\<rparr>,
        2 := \<lparr>u_type = XR_INSERT, u_vallen = 1, u_valp = [8], u_xid = 9\<rparr>),
     uxrs_cap = 508\<rparr>"

lemma sample_overwritten_facts:
  "abs_ule sample_overwritten = ([(TXNID_NONE, Del), (5, Ins [7])], [(9, Ins [8])])"
  "ule_wf sample_overwritten" "msg_applicable sample_abort (abs_ule sample_overwritten)"
proof -
  show a: "abs_ule sample_overwritten = ([(TXNID_NONE, Del), (5, Ins [7])], [(9, Ins [8])])"
    by (simp add: abs_ule_def cstack_def pstack_def sample_overwritten_def abs_uxr_def
        uxr_is_defs committed_delete_def TXNID_NONE_def upt_rec)
  show "ule_wf sample_overwritten"
    unfolding ule_wf_def a
    by (auto simp: slots_ok_def sample_overwritten_def uxr_ok_def uxr_is_defs committed_delete_def
        IS_VALID_LEN_def TXNID_NONE_def less_Suc_eq numeral_3_eq_3)
  show "msg_applicable sample_abort (abs_ule sample_overwritten)"
    unfolding a by (simp add: sample_abort_def xids_ok_def TXNID_NONE_def)
qed

lemma abort_adjustment_cases:
  assumes "vs_ok (ds, qs)" "qs \<noteq> []" "fst (last qs) = last xids"
  shows "vs_rows (vs_abort xids (ds, qs)) = vs_rows (ds, qs) + vs_abort_delta xids (ds, qs) \<longleftrightarrow>
    length ds = 1 \<and> length qs = 1 \<or> vs_rows (vs_abort xids (ds, qs)) \<noteq> vs_rows (ds, qs)"
proof (cases "length ds = 1 \<and> length qs = 1")
  case True
  then obtain d q where "ds = [d]" "qs = [q]" by (auto simp: length_Suc_conv)
  then show ?thesis using assms by (cases "snd d"; cases "snd q"; simp add: vs_rows_def strip_holds_def)
next
  case False
  have "snd (last qs) \<noteq> Hold" using assms(1,2) by simp
  then consider "snd (last qs) = Del" | v where "snd (last qs) = Ins v" by (cases "snd (last qs)") auto
  then show ?thesis
  proof cases
    case 1
    then have "vs_abort_delta xids (ds, qs) = 1" "vs_rows (ds, qs) = 0" using assms(2,3) False by (auto simp: vs_rows_def)
    then show ?thesis using False by (auto simp: vs_rows_def)
  next
    case 2
    then have "vs_abort_delta xids (ds, qs) = - 1" "vs_rows (ds, qs) = 1" using assms(2,3) False by (auto simp: vs_rows_def)
    then show ?thesis using False by (auto simp: vs_rows_def)
  qed
qed

text \<open>
  C5. The row adjustment of an abort, exactly. Let \<open>s\<close> be the stack after the implicit promotions. The adjustment is the change in the number of rows if the
  transaction has no record in \<open>s\<close> to abort, or if its record is the only provisional one above a single committed one, or if the row appears or vanishes with
  the abort. In all other cases - the aborted record is an insert above an insert or a delete above a delete, and there is more than one committed or more than one
  provisional record - it is wrong: the abort reports one row less, or one more, although the number of rows stays, because the code requires that the oldest
  committed record is the only one instead of looking at the record that becomes the innermost.
\<close>

theorem abort_adjustment_exact:
  assumes "ule_wf u" "msg_applicable m (abs_ule u)" "msg_type m = FT_ABORT_ANY \<or> msg_type m = FT_ABORT_BROADCAST_TXN"
    and "msg_modify_ule u m = Some (u', r)" "vs_implicit (msg_xids m) (abs_ule u) = s"
  shows "vs_rows (abs_ule u') = vs_rows (abs_ule u) + r \<longleftrightarrow>
    snd s = [] \<or> fst (last (snd s)) \<noteq> last (msg_xids m) \<or> length (fst s) = 1 \<and> length (snd s) = 1 \<or> vs_rows (abs_ule u') \<noteq> vs_rows (abs_ule u)"
proof -
  obtain cs ps where s: "abs_ule u = (cs, ps)" by fastforce
  obtain ds qs where q: "s = (ds, qs)" by fastforce
  have ok: "vs_ok (cs, ps)" using assms(1) s by (simp add: ule_wf_def)
  have okq: "vs_ok (ds, qs)" using vs_implicit_ok [OF ok] assms(5) unfolding s q by metis
  have inn: "vs_rows (abs_ule u) = vs_rows (ds, qs)"
    using vs_implicit_innermost_value [OF ok, of "msg_xids m"] assms(5) unfolding s q vs_rows_def by metis
  obtain u1 where "msg_modify_ule u m = Some (u1, vs_delta (msg_type m) (msg_xids m) (abs_ule u))"
    "abs_ule u1 = vs_modify (msg_type m) (msg_xids m) (msg_val m) (abs_ule u)" by (rule msg_modify_ule_wf [OF assms(1,2)])
  moreover have "vs_delta (msg_type m) (msg_xids m) (abs_ule u) = vs_abort_delta (msg_xids m) s"
    "vs_modify (msg_type m) (msg_xids m) (msg_val m) (abs_ule u) = vs_abort (msg_xids m) s" using assms(3,5) by (elim disjE; simp only: vs_delta.simps vs_modify.simps)+
  ultimately have r: "r = vs_abort_delta (msg_xids m) (ds, qs)" "abs_ule u' = vs_abort (msg_xids m) (ds, qs)" using assms(4) q by simp_all
  show ?thesis
  proof (cases "qs \<noteq> [] \<and> fst (last qs) = last (msg_xids m)")
    case True
    then show ?thesis using abort_adjustment_cases [OF okq] unfolding r inn q fst_conv snd_conv by blast
  next
    case False
    then show ?thesis unfolding r inn q by auto
  qed
qed

text \<open>A committed insert (transaction 5) is overwritten by transaction 9, which then aborts: the row exists before and after, the abort reports one row less.\<close>

theorem abort_adjustment_exact_witness:
  "\<exists>u' r. msg_modify_ule sample_overwritten sample_abort = Some (u', r) \<and> vs_rows (abs_ule u') = vs_rows (abs_ule sample_overwritten) \<and>
     vs_rows (abs_ule u') \<noteq> vs_rows (abs_ule sample_overwritten) + r"
proof -
  obtain u' r where m: "msg_modify_ule sample_overwritten sample_abort = Some (u', r)"
    "abs_ule u' = vs_modify (msg_type sample_abort) (msg_xids sample_abort) (msg_val sample_abort) (abs_ule sample_overwritten)"
    using msg_modify_ule_wf [OF sample_overwritten_facts(2,3)] by metis
  then have rows: "vs_rows (abs_ule u') = vs_rows (abs_ule sample_overwritten)"
    using sample_overwritten_facts(1) by (simp add: sample_abort_def vs_rows_def strip_holds_def)
  have "vs_implicit (msg_xids sample_abort) (abs_ule sample_overwritten) = ([(TXNID_NONE, Del), (5, Ins [7])], [(9, Ins [8])])"
    using sample_overwritten_facts(1) by (simp add: sample_abort_def)
  from abort_adjustment_exact [OF sample_overwritten_facts(2,3) _ m(1) this] rows
  show ?thesis using m(1) by (auto simp: sample_abort_def)
qed

end
