(* ===== verification/Leafentry.thy ===== *)
theory Leafentry
  imports Ule_Modify
begin

text \<open>
  The packed leaf entry (\<open>src/ft/leafentry.h\<close> and the \<open>le_\<close> functions of \<open>src/ft/ule.cc\<close>): the
  byte string that stores the record stack of one key. Packing produces the bytes that the code
  writes through its moving pointer \<open>p\<close>; unpacking consumes them, a read past the end being \<open>None\<close>.
  Counters and lengths have their width in the format: 32 bits for the number of committed records and for
  lengths, whose top bit marks an insert, and 8 bits for the number of provisional records.
\<close>

subsection \<open>Reading integers and data\<close>

definition rd8 :: "byte list \<Rightarrow> (byte \<times> byte list) option" where
  "rd8 p = (case p of [] \<Rightarrow> None | b # p \<Rightarrow> Some (b, p))"

definition rd32 :: "byte list \<Rightarrow> (32 word \<times> byte list) option" where
  "rd32 p = (if length p < 4 then None else Some (le_word (take 4 p), drop 4 p))"

definition rd64 :: "byte list \<Rightarrow> (64 word \<times> byte list) option" where
  "rd64 p = (if length p < 8 then None else Some (le_word (take 8 p), drop 8 p))"

definition rd_data :: "32 word \<Rightarrow> byte list \<Rightarrow> (byte list \<times> byte list) option" where
  "rd_data n p = (if length p < unat n then None else Some (take (unat n) p, drop (unat n) p))"

lemma rd_pack [simp]:
  "rd8 (b # r) = Some (b, r)" "rd32 (le_bytes 4 w @ r) = Some (w, r)" "rd64 (le_bytes 8 x @ r) = Some (x, r)"
  by (simp_all add: rd8_def rd32_def rd64_def)

lemma rd_data_pack: "length d = unat n \<Longrightarrow> rd_data n (d @ r) = Some (d, r)"
  by (simp add: rd_data_def)

subsection \<open>Records\<close>

definition INSERT_LENGTH :: "32 word \<Rightarrow> 32 word" where
  "INSERT_LENGTH len = push_bit 31 1 OR len"

definition DELETE_LENGTH :: "32 word \<Rightarrow> 32 word" where
  "DELETE_LENGTH len = 0"

definition GET_LENGTH :: "32 word \<Rightarrow> 32 word" where
  "GET_LENGTH len = len AND (push_bit 31 1 - 1)"

definition IS_INSERT :: "32 word \<Rightarrow> bool" where
  "IS_INSERT len \<longleftrightarrow> len AND push_bit 31 1 \<noteq> 0"

definition uxr_pack_txnid :: "uxr \<Rightarrow> byte list" where
  "uxr_pack_txnid x = le_bytes 8 (u_xid x)"

definition uxr_pack_type_and_length :: "uxr \<Rightarrow> byte list" where
  "uxr_pack_type_and_length x = u_type x # (if uxr_is_insert x then le_bytes 4 (u_vallen x) else [])"

definition uxr_pack_length_and_bit :: "uxr \<Rightarrow> byte list" where
  "uxr_pack_length_and_bit x =
     le_bytes 4 (if uxr_is_insert x then INSERT_LENGTH (u_vallen x) else DELETE_LENGTH (u_vallen x))"

definition uxr_pack_data :: "uxr \<Rightarrow> byte list" where
  "uxr_pack_data x = (if uxr_is_insert x then take (unat (u_vallen x)) (u_valp x) else [])"

definition uxr_unpack_txnid :: "uxr \<Rightarrow> byte list \<Rightarrow> (uxr \<times> byte list) option" where
  "uxr_unpack_txnid x p = do { (xid, p) \<leftarrow> rd64 p; Some (x\<lparr>u_xid := xid\<rparr>, p) }"

definition uxr_unpack_type_and_length :: "uxr \<Rightarrow> byte list \<Rightarrow> (uxr \<times> byte list) option" where
  "uxr_unpack_type_and_length x p = do {
     (type, p) \<leftarrow> rd8 p;
     let x = x\<lparr>u_type := type\<rparr>;
     if uxr_is_insert x then do { (vallen, p) \<leftarrow> rd32 p; Some (x\<lparr>u_vallen := vallen\<rparr>, p) }
     else Some (x, p)
   }"

definition uxr_unpack_length_and_bit :: "uxr \<Rightarrow> byte list \<Rightarrow> (uxr \<times> byte list) option" where
  "uxr_unpack_length_and_bit x p = do {
     (length_and_bit, p) \<leftarrow> rd32 p;
     Some (if IS_INSERT length_and_bit
           then x\<lparr>u_type := XR_INSERT, u_vallen := GET_LENGTH length_and_bit\<rparr>
           else x\<lparr>u_type := XR_DELETE, u_vallen := 0\<rparr>, p)
   }"

definition uxr_unpack_data :: "uxr \<Rightarrow> byte list \<Rightarrow> (uxr \<times> byte list) option" where
  "uxr_unpack_data x p =
     (if uxr_is_insert x then do { (d, p) \<leftarrow> rd_data (u_vallen x) p; Some (x\<lparr>u_valp := d\<rparr>, p) }
      else Some (x, p))"

subsection \<open>Packing\<close>

definition LE_CLEAN :: byte where "LE_CLEAN = 0"
definition LE_MVCC :: byte where "LE_MVCC = 1"

text \<open>The bytes of the records at the given slots, in that order.\<close>

definition pack_slots :: "(uxr \<Rightarrow> byte list) \<Rightarrow> nat list \<Rightarrow> (nat \<Rightarrow> uxr) \<Rightarrow> byte list" where
  "pack_slots g is a = concat (map (\<lambda>i. g (a i)) is)"

definition data_size :: "uxr \<Rightarrow> nat" where
  "data_size x = (if uxr_is_insert x then unat (u_vallen x) else 0)"

definition le_memsize_from_ule :: "ule \<Rightarrow> nat option" where
  "le_memsize_from_ule u = do {
     ensure (num_cuxrs u \<noteq> 0);
     if num_cuxrs u = 1 \<and> num_puxrs u = 0 then do {
       ensure (uxr_is_insert (uxrs u 0));
       Some (1 + 4 + unat (u_vallen (uxrs u 0)))
     }
     else do {
       let rval = 1 + 4 + 1 + 4 * num_cuxrs u + 8 * (num_cuxrs u + num_puxrs u - 1);
       let rval = rval + (\<Sum>i\<leftarrow>[0..<num_cuxrs u]. data_size (uxrs u i));
       if num_puxrs u \<noteq> 0 then do {
         innermost \<leftarrow> ule_get_innermost_uxr u;
         let rval = rval + data_size innermost;
         let rval = rval + 4 + 1 * (num_puxrs u - 1);
         Some (rval + (\<Sum>i\<leftarrow>[0..<num_puxrs u - 1].
           if uxr_is_insert (uxrs u (i + num_cuxrs u)) then 4 + unat (u_vallen (uxrs u (i + num_cuxrs u))) else 0))
       }
       else Some rval
     }
   }"

definition pack_provisional :: "uxr \<Rightarrow> byte list" where
  "pack_provisional x = uxr_pack_txnid x @ uxr_pack_type_and_length x @ uxr_pack_data x"

definition pack_xrs :: "nat \<Rightarrow> nat \<Rightarrow> (nat \<Rightarrow> uxr) \<Rightarrow> byte list" where
  "pack_xrs c n a =
     pack_slots uxr_pack_txnid (if n \<noteq> 0 then [c] else []) a @
     pack_slots uxr_pack_txnid (map (\<lambda>i. c - 1 - i) [0..<c - 1]) a @
     pack_slots uxr_pack_length_and_bit (if n \<noteq> 0 then [c + n - 1] else []) a @
     pack_slots uxr_pack_length_and_bit (map (\<lambda>i. c - 1 - i) [0..<c]) a @
     pack_slots uxr_pack_data (if n \<noteq> 0 then [c + n - 1] else []) a @
     pack_slots uxr_pack_data (map (\<lambda>i. c - 1 - i) [0..<c]) a @
     (if n > 1 then
        pack_slots uxr_pack_type_and_length [c] a @ pack_slots uxr_pack_data [c] a @
        pack_slots pack_provisional [c + 1..<c + n - 1] a @
        pack_slots uxr_pack_txnid [c + n - 1] a
      else [])"

definition pack_mvcc :: "ule \<Rightarrow> byte list" where
  "pack_mvcc u =
     [LE_MVCC] @ le_bytes 4 (of_nat (num_cuxrs u) :: 32 word) @ [of_nat (num_puxrs u)] @
     pack_xrs (num_cuxrs u) (num_puxrs u) (uxrs u)"

text \<open>
  \<open>Some None\<close> is the null leaf entry. The space for the entry is provided by the caller's buffer.
\<close>

definition le_pack :: "ule \<Rightarrow> byte list option option" where
  "le_pack u = do {
     ensure (num_cuxrs u > 0);
     ensure (u_xid (uxrs u 0) = TXNID_NONE);
     if \<not> list_ex (\<lambda>i. uxr_is_insert (uxrs u i)) [0..<num_cuxrs u + num_puxrs u] then Some None
     else do {
       memsize \<leftarrow> le_memsize_from_ule u;
       bytes \<leftarrow>
         (if num_cuxrs u = 1 \<and> num_puxrs u = 0
          then Some ([LE_CLEAN] @ le_bytes 4 (u_vallen (uxrs u 0)) @ take (unat (u_vallen (uxrs u 0))) (u_valp (uxrs u 0)))
          else do {
            ensure (num_puxrs u < MAX_TRANSACTION_RECORDS);
            Some (pack_mvcc u)
          });
       ensure (length bytes = memsize);
       Some (Some bytes)
     }
   }"

subsection \<open>Unpacking\<close>

fun unpack_slots ::
  "(uxr \<Rightarrow> byte list \<Rightarrow> (uxr \<times> byte list) option) \<Rightarrow> nat list \<Rightarrow> (nat \<Rightarrow> uxr) \<Rightarrow> byte list \<Rightarrow>
     ((nat \<Rightarrow> uxr) \<times> byte list) option" where
  "unpack_slots f [] a p = Some (a, p)"
| "unpack_slots f (i # is) a p = do { (x, p) \<leftarrow> f (a i) p; unpack_slots f is (a(i := x)) p }"

definition unpack_provisional :: "uxr \<Rightarrow> byte list \<Rightarrow> (uxr \<times> byte list) option" where
  "unpack_provisional x p = do {
     (x, p) \<leftarrow> uxr_unpack_txnid x p;
     (x, p) \<leftarrow> uxr_unpack_type_and_length x p;
     uxr_unpack_data x p
   }"

definition unpack_mvcc :: "nat \<Rightarrow> nat \<Rightarrow> (nat \<Rightarrow> uxr) \<Rightarrow> byte list \<Rightarrow> ((nat \<Rightarrow> uxr) \<times> byte list) option" where
  "unpack_mvcc c n a p = do {
     (a, p) \<leftarrow> unpack_slots uxr_unpack_txnid (if n \<noteq> 0 then [c] else []) a p;
     let a = a(0 := (a 0)\<lparr>u_xid := TXNID_NONE\<rparr>);
     (a, p) \<leftarrow> unpack_slots uxr_unpack_txnid (map (\<lambda>i. c - 1 - i) [0..<c - 1]) a p;
     (a, p) \<leftarrow> unpack_slots uxr_unpack_length_and_bit (if n \<noteq> 0 then [c + n - 1] else []) a p;
     (a, p) \<leftarrow> unpack_slots uxr_unpack_length_and_bit (map (\<lambda>i. c - 1 - i) [0..<c]) a p;
     (a, p) \<leftarrow> unpack_slots uxr_unpack_data (if n \<noteq> 0 then [c + n - 1] else []) a p;
     (a, p) \<leftarrow> unpack_slots uxr_unpack_data (map (\<lambda>i. c - 1 - i) [0..<c]) a p;
     if n > 1 then do {
       (a, p) \<leftarrow> unpack_slots uxr_unpack_type_and_length [c] a p;
       (a, p) \<leftarrow> unpack_slots uxr_unpack_data [c] a p;
       (a, p) \<leftarrow> unpack_slots unpack_provisional [c + 1..<c + n - 1] a p;
       unpack_slots uxr_unpack_txnid [c + n - 1] a p
     }
     else Some (a, p)
   }"

text \<open>\<open>u\<close> provides the stale contents of the destination; the result does not depend on them.\<close>

definition le_unpack :: "ule \<Rightarrow> byte list \<Rightarrow> ule option" where
  "le_unpack u le = do {
     (type, p) \<leftarrow> rd8 le;
     if type = LE_CLEAN then do {
       (vallen, p) \<leftarrow> rd32 p;
       (val, p) \<leftarrow> rd_data vallen p;
       Some (u\<lparr>num_cuxrs := 1, num_puxrs := 0, uxrs_cap := MAX_TRANSACTION_RECORDS * 2,
         uxrs := (uxrs u)(0 := \<lparr>u_type = XR_INSERT, u_vallen = vallen, u_valp = val, u_xid = TXNID_NONE\<rparr>)\<rparr>)
     }
     else if type = LE_MVCC then do {
       (num_cxrs, p) \<leftarrow> rd32 p;
       ensure (num_cxrs \<noteq> 0);
       (num_pxrs, p) \<leftarrow> rd8 p;
       let c = unat num_cxrs;
       let n = unat num_pxrs;
       let cap = (if c < MAX_TRANSACTION_RECORDS then MAX_TRANSACTION_RECORDS * 2 else c + 1 + MAX_TRANSACTION_RECORDS);
       (a, p) \<leftarrow> unpack_mvcc c n (uxrs u) p;
       Some (u\<lparr>num_cuxrs := c, num_puxrs := n, uxrs_cap := cap, uxrs := a\<rparr>)
     }
     else None
   }"

subsection \<open>Record round trips\<close>

definition top_bit :: "32 word" where
  "top_bit = push_bit 31 1"

lemma bit_top: "bit top_bit n \<longleftrightarrow> n = 31"
  unfolding top_bit_def bit_push_bit_iff bit_1_iff by auto

lemma valid_len_bits: "IS_VALID_LEN w \<longleftrightarrow> \<not> bit w 31"
proof -
  have u: "unat w < 2 ^ 32" using unsigned_less [of w] by simp
  have "IS_VALID_LEN w \<longleftrightarrow> unat w < 2 ^ 31"
    by (simp add: IS_VALID_LEN_def word_less_nat_alt push_bit_eq_mult)
  also have "\<dots> \<longleftrightarrow> even (unat w div 2 ^ 31)"
  proof (cases "unat w < 2 ^ 31")
    case False
    then have "unat w div 2 ^ 31 = 1" using u by (intro div_nat_eqI) auto
    then show ?thesis using False by simp
  qed simp
  also have "\<dots> \<longleftrightarrow> \<not> bit (unat w) 31" unfolding bit_iff_odd [of "unat w"] by blast
  also have "\<dots> \<longleftrightarrow> \<not> bit w 31" by (simp add: bit_unsigned_iff)
  finally show ?thesis .
qed

lemma length_and_bit_insert:
  assumes "IS_VALID_LEN w"
  shows "IS_INSERT (INSERT_LENGTH w)" "GET_LENGTH (INSERT_LENGTH w) = w"
proof -
  have "bit (INSERT_LENGTH w AND top_bit) 31"
    unfolding INSERT_LENGTH_def top_bit_def [symmetric] by (simp add: bit_and_iff bit_or_iff bit_top)
  then have "INSERT_LENGTH w AND top_bit \<noteq> 0" by (metis bit_0_eq bot_apply bot_bool_def)
  then show "IS_INSERT (INSERT_LENGTH w)" by (simp only: IS_INSERT_def top_bit_def not_False_eq_True)
  have m: "push_bit 31 1 - 1 = (mask 31 :: 32 word)" by (simp add: mask_eq_exp_minus_1 push_bit_eq_mult)
  have b: "\<not> bit w 31" using assms by (simp add: valid_len_bits)
  show "GET_LENGTH (INSERT_LENGTH w) = w"
    unfolding GET_LENGTH_def m unfolding INSERT_LENGTH_def top_bit_def [symmetric]
  proof (rule bit_word_eqI)
    fix n assume "n < LENGTH(32)"
    then have "n < 31 \<or> n = 31" by auto
    then show "bit ((top_bit OR w) AND mask 31) n = bit w n"
      using b by (auto simp: bit_and_iff bit_or_iff bit_top bit_mask_iff)
  qed
qed

lemma length_and_bit_delete: "\<not> IS_INSERT (DELETE_LENGTH w)"
  by (simp add: IS_INSERT_def DELETE_LENGTH_def)

text \<open>What unpacking the bytes of record \<open>y\<close> does to a slot \<open>x\<close>.\<close>

definition set_xid :: "uxr \<Rightarrow> uxr \<Rightarrow> uxr" where
  "set_xid y x = x\<lparr>u_xid := u_xid y\<rparr>"

definition set_length_and_bit :: "uxr \<Rightarrow> uxr \<Rightarrow> uxr" where
  "set_length_and_bit y x =
     (if uxr_is_insert y then x\<lparr>u_type := XR_INSERT, u_vallen := u_vallen y\<rparr> else x\<lparr>u_type := XR_DELETE, u_vallen := 0\<rparr>)"

definition set_type_and_length :: "uxr \<Rightarrow> uxr \<Rightarrow> uxr" where
  "set_type_and_length y x =
     (if uxr_is_insert y then x\<lparr>u_type := XR_INSERT, u_vallen := u_vallen y\<rparr> else x\<lparr>u_type := u_type y\<rparr>)"

definition set_data :: "uxr \<Rightarrow> uxr \<Rightarrow> uxr" where
  "set_data y x = (if uxr_is_insert y then x\<lparr>u_valp := u_valp y\<rparr> else x)"

lemmas set_defs = set_xid_def set_length_and_bit_def set_type_and_length_def set_data_def

lemma unpack_txnid_pack: "uxr_unpack_txnid x (uxr_pack_txnid y @ r) = Some (set_xid y x, r)"
  by (simp add: uxr_unpack_txnid_def uxr_pack_txnid_def set_xid_def)

lemma unpack_length_and_bit_pack:
  "uxr_ok y \<Longrightarrow> uxr_unpack_length_and_bit x (uxr_pack_length_and_bit y @ r) = Some (set_length_and_bit y x, r)"
  by (auto simp: uxr_unpack_length_and_bit_def uxr_pack_length_and_bit_def set_length_and_bit_def uxr_ok_def
      length_and_bit_insert length_and_bit_delete uxr_is_defs)

lemma unpack_type_and_length_pack:
  "uxr_unpack_type_and_length x (uxr_pack_type_and_length y @ r) = Some (set_type_and_length y x, r)"
  by (auto simp: uxr_unpack_type_and_length_def uxr_pack_type_and_length_def set_type_and_length_def uxr_is_defs)

lemma unpack_data_pack:
  assumes "uxr_ok y" "uxr_is_insert x \<longleftrightarrow> uxr_is_insert y" "uxr_is_insert y \<Longrightarrow> u_vallen x = u_vallen y"
  shows "uxr_unpack_data x (uxr_pack_data y @ r) = Some (set_data y x, r)"
  using assms by (auto simp: uxr_unpack_data_def uxr_pack_data_def set_data_def uxr_ok_def rd_data_pack uxr_is_defs)

definition set_provisional :: "uxr \<Rightarrow> uxr \<Rightarrow> uxr" where
  "set_provisional y x = set_data y (set_type_and_length y (set_xid y x))"

lemma set_type_and_length_kind:
  "uxr_is_insert (set_type_and_length y x) = uxr_is_insert y"
  "uxr_is_insert y \<Longrightarrow> u_vallen (set_type_and_length y x) = u_vallen y"
  by (auto simp: set_type_and_length_def uxr_is_defs)

lemma unpack_provisional_pack:
  "uxr_ok y \<Longrightarrow> unpack_provisional x (pack_provisional y @ r) = Some (set_provisional y x, r)"
  by (simp add: unpack_provisional_def pack_provisional_def unpack_txnid_pack unpack_type_and_length_pack
      unpack_data_pack set_type_and_length_kind set_provisional_def)

definition upd_slots :: "(uxr \<Rightarrow> uxr \<Rightarrow> uxr) \<Rightarrow> nat list \<Rightarrow> (nat \<Rightarrow> uxr) \<Rightarrow> (nat \<Rightarrow> uxr) \<Rightarrow> nat \<Rightarrow> uxr" where
  "upd_slots h is src a = (\<lambda>i. if i \<in> set is then h (src i) (a i) else a i)"

lemma upd_slots_apply: "upd_slots h is src a i = (if i \<in> set is then h (src i) (a i) else a i)"
  by (simp add: upd_slots_def)

lemma unpack_pack_slots:
  assumes "distinct is" "\<And>i r. i \<in> set is \<Longrightarrow> f (a i) (g (src i) @ r) = Some (h (src i) (a i), r)"
  shows "unpack_slots f is a (pack_slots g is src @ rest) = Some (upd_slots h is src a, rest)"
  using assms
proof (induction "is" arbitrary: a)
  case Nil
  then show ?case by (simp add: pack_slots_def upd_slots_def)
next
  case (Cons i "is")
  let ?a = "a(i := h (src i) (a i))"
  have "f (?a j) (g (src j) @ r) = Some (h (src j) (?a j), r)" if "j \<in> set is" for j r
    using Cons.prems that by auto
  then have "unpack_slots f is ?a (pack_slots g is src @ rest) = Some (upd_slots h is src ?a, rest)"
    using Cons.prems(1) by (intro Cons.IH) auto
  moreover have "upd_slots h is src ?a = upd_slots h (i # is) src a"
    using Cons.prems(1) by (auto simp: upd_slots_def)
  ultimately show ?case
    using Cons.prems(2) [of i] by (simp add: pack_slots_def)
qed

lemma map_down: "map (\<lambda>i. c - 1 - i) [0..<c] = rev [0..<c]"
  by (rule nth_equalityI) (auto simp: rev_nth)

lemma map_down_tail: "map (\<lambda>i. c - 1 - i) [0..<c - 1] = rev [1..<c]"
  by (rule nth_equalityI) (auto simp: rev_nth)

subsection \<open>Unpacking inverts packing\<close>

lemma set_length_and_bit_kind:
  "uxr_is_insert (set_length_and_bit y x) = uxr_is_insert y"
  "uxr_is_insert y \<Longrightarrow> u_vallen (set_length_and_bit y x) = u_vallen y"
  by (auto simp: set_length_and_bit_def uxr_is_defs)

text \<open>A slot that carries what the format keeps of record \<open>y\<close>.\<close>

definition same_rec :: "uxr \<Rightarrow> uxr \<Rightarrow> bool" where
  "same_rec y x \<longleftrightarrow> u_xid x = u_xid y \<and> u_type x = u_type y \<and>
     (uxr_is_insert y \<longrightarrow> u_vallen x = u_vallen y \<and> u_valp x = u_valp y)"

lemma same_rec_ok: "same_rec y x \<Longrightarrow> uxr_ok y \<Longrightarrow> uxr_ok x \<and> abs_uxr x = abs_uxr y"
  by (auto simp: same_rec_def uxr_ok_def abs_uxr_def uxr_is_defs)

lemma same_rec_committed:
  assumes "uxr_ok y" "\<not> uxr_is_placeholder y" "u_xid x = u_xid y"
  shows "same_rec y (set_data y (set_length_and_bit y x))"
  using assms by (auto simp: same_rec_def set_defs uxr_ok_def uxr_is_defs)

lemma same_rec_provisional:
  "u_xid x = u_xid y \<Longrightarrow> same_rec y (set_data y (set_type_and_length y x))" "same_rec y (set_provisional y x)"
  by (auto simp: same_rec_def set_defs set_provisional_def uxr_is_defs)

lemma unpack_mvcc_pack:
  assumes c: "0 < c" and ok: "\<And>i. i < c + n \<Longrightarrow> uxr_ok (src i)" and root: "u_xid (src 0) = TXNID_NONE"
    and com: "\<And>i. i < c \<Longrightarrow> \<not> uxr_is_placeholder (src i)"
    and inner: "n \<noteq> 0 \<Longrightarrow> \<not> uxr_is_placeholder (src (c + n - 1))"
  obtains a' where "unpack_mvcc c n a (pack_xrs c n src @ rest) = Some (a', rest)"
    "\<And>i. i < c + n \<Longrightarrow> same_rec (src i) (a' i)"
proof -
  define O1 where "O1 = (if n \<noteq> 0 then [c] else [])"
  define I1 where "I1 = (if n \<noteq> 0 then [c + n - 1] else [])"
  let ?C = "rev [0..<c]" and ?C1 = "rev [1..<c]" and ?P = "[c + 1..<c + n - 1]"
  define a1 where "a1 = upd_slots set_xid O1 src a"
  define a2 where "a2 = a1(0 := (a1 0)\<lparr>u_xid := TXNID_NONE\<rparr>)"
  define a3 where "a3 = upd_slots set_xid ?C1 src a2"
  define a4 where "a4 = upd_slots set_length_and_bit I1 src a3"
  define a5 where "a5 = upd_slots set_length_and_bit ?C src a4"
  define a6 where "a6 = upd_slots set_data I1 src a5"
  define a7 where "a7 = upd_slots set_data ?C src a6"
  define a8 where "a8 = upd_slots set_type_and_length [c] src a7"
  define a9 where "a9 = upd_slots set_data [c] src a8"
  define a10 where "a10 = upd_slots set_provisional ?P src a9"
  define a11 where "a11 = upd_slots set_xid [c + n - 1] src a10"
  note app = upd_slots_apply
  have xid: "unpack_slots uxr_unpack_txnid is b (pack_slots uxr_pack_txnid is src @ r) =
      Some (upd_slots set_xid is src b, r)" if "distinct is" for "is" b r
    using that by (intro unpack_pack_slots unpack_txnid_pack) auto
  have lb: "unpack_slots uxr_unpack_length_and_bit is b (pack_slots uxr_pack_length_and_bit is src @ r) =
      Some (upd_slots set_length_and_bit is src b, r)" if "distinct is" "\<forall>i\<in>set is. i < c + n" for "is" b r
    using ok that by (intro unpack_pack_slots unpack_length_and_bit_pack) auto
  have dat: "unpack_slots uxr_unpack_data is b (pack_slots uxr_pack_data is src @ r) =
      Some (upd_slots set_data is src b, r)" if "distinct is" "\<forall>i\<in>set is. i < c + n \<and>
        uxr_is_insert (b i) = uxr_is_insert (src i) \<and> (uxr_is_insert (src i) \<longrightarrow> u_vallen (b i) = u_vallen (src i))"
    for "is" b r
    using ok that by (intro unpack_pack_slots unpack_data_pack) auto
  have O1: "distinct O1" "distinct I1" "\<forall>i\<in>set I1. i < c + n" by (auto simp: O1_def I1_def)
  note S1 = xid [OF O1(1), of a, folded a1_def]
  have S3: "unpack_slots uxr_unpack_txnid ?C1 a2 (pack_slots uxr_pack_txnid ?C1 src @ r) = Some (a3, r)" for r
    unfolding a3_def by (rule xid) simp
  note S4 = lb [OF O1(2,3), of a3, folded a4_def]
  have S5: "unpack_slots uxr_unpack_length_and_bit ?C a4 (pack_slots uxr_pack_length_and_bit ?C src @ r) = Some (a5, r)" for r
    unfolding a5_def by (rule lb) auto
  have S6: "unpack_slots uxr_unpack_data I1 a5 (pack_slots uxr_pack_data I1 src @ r) = Some (a6, r)" for r
    unfolding a6_def using O1 by (intro dat) (auto simp: a5_def a4_def app set_length_and_bit_kind)
  have S7: "unpack_slots uxr_unpack_data ?C a6 (pack_slots uxr_pack_data ?C src @ r) = Some (a7, r)" for r
    unfolding a7_def by (intro dat) (auto simp: a6_def a5_def app set_length_and_bit_kind I1_def)
  have S8: "unpack_slots uxr_unpack_type_and_length [c] a7 (pack_slots uxr_pack_type_and_length [c] src @ r) = Some (a8, r)" for r
    unfolding a8_def by (intro unpack_pack_slots unpack_type_and_length_pack) auto
  have S9: "unpack_slots uxr_unpack_data [c] a8 (pack_slots uxr_pack_data [c] src @ r) = Some (a9, r)" if "n > 1" for r
    unfolding a9_def using that by (intro dat) (auto simp: a8_def app set_type_and_length_kind)
  have S10: "unpack_slots unpack_provisional ?P a9 (pack_slots pack_provisional ?P src @ r) = Some (a10, r)" for r
    unfolding a10_def using ok by (intro unpack_pack_slots unpack_provisional_pack) auto
  have S11: "unpack_slots uxr_unpack_txnid [c + n - 1] a10 (pack_slots uxr_pack_txnid [c + n - 1] src @ r) = Some (a11, r)" for r
    unfolding a11_def by (rule xid) simp
  note S = S1 S3 S4 S5 S6 S7
  have run: "unpack_mvcc c n a (pack_xrs c n src @ rest) = Some (if n > 1 then a11 else a7, rest)"
  proof (cases "n > 1")
    case True
    then show ?thesis
      unfolding unpack_mvcc_def pack_xrs_def map_down map_down_tail O1_def [symmetric] I1_def [symmetric]
      by (simp only: append.assoc S Let_def a2_def [symmetric] bind.bind_lunit prod.case if_True S8 S9 S10 S11)
  next
    case False
    then show ?thesis
      unfolding unpack_mvcc_def pack_xrs_def map_down map_down_tail O1_def [symmetric] I1_def [symmetric]
      by (simp only: append.assoc append_Nil S Let_def a2_def [symmetric] bind.bind_lunit prod.case if_False)
  qed
  have "same_rec (src i) ((if n > 1 then a11 else a7) i)" if i: "i < c + n" for i
  proof -
    have x3: "u_xid (a3 i) = u_xid (src i)" if "i \<le> c"
      using that i c root by (auto simp: a3_def a2_def a1_def app O1_def set_xid_def)
    consider "i < c" | "n = 1" "i = c" | "n > 1" "i = c" | "n > 1" "c < i" "i < c + n - 1" | "n > 1" "i = c + n - 1"
      using i by linarith
    then show ?thesis
    proof cases
      case 1
      then have "a7 i = set_data (src i) (set_length_and_bit (src i) (a3 i))"
        by (auto simp: a7_def a6_def a5_def a4_def app I1_def)
      moreover have "(if n > 1 then a11 else a7) i = a7 i"
        using 1 by (auto simp: a11_def a10_def a9_def a8_def app)
      ultimately show ?thesis using same_rec_committed [OF ok [OF i] com [OF 1] x3] 1 by simp
    next
      case 2
      then have "a7 i = set_data (src i) (set_length_and_bit (src i) (a3 i))"
        by (auto simp: a7_def a6_def a5_def a4_def app I1_def)
      then show ?thesis using same_rec_committed [OF ok [OF i] _ x3] inner 2 by simp
    next
      case 3
      then have "a11 i = set_data (src i) (set_type_and_length (src i) (a7 i))" "a7 i = a3 i"
        by (auto simp: a11_def a10_def a9_def a8_def a7_def a6_def a5_def a4_def app I1_def)
      then show ?thesis using same_rec_provisional(1) [of "a3 i" "src i"] x3 3 by simp
    next
      case 4
      then have "a11 i = set_provisional (src i) (a9 i)" by (auto simp: a11_def a10_def app)
      then show ?thesis using same_rec_provisional(2) 4 by simp
    next
      case 5
      then have "a11 i = set_xid (src i) (a7 i)" "a7 i = set_data (src i) (set_length_and_bit (src i) (a3 i))"
        by (auto simp: a11_def a10_def a9_def a8_def a7_def a6_def a5_def a4_def app I1_def)
      moreover have "set_xid y (set_data y (set_length_and_bit y x)) = set_data y (set_length_and_bit y (set_xid y x))" for x y
        by (simp add: set_defs)
      ultimately have "a11 i = set_data (src i) (set_length_and_bit (src i) (set_xid (src i) (a3 i)))" by simp
      then show ?thesis
        using same_rec_committed [OF ok [OF i], of "set_xid (src i) (a3 i)"] inner 5 by (simp add: set_xid_def)
    qed
  qed
  then show ?thesis using that run by blast
qed

subsection \<open>The size of a packed leaf entry\<close>

lemma length_pack_slots: "length (pack_slots g is a) = (\<Sum>i\<leftarrow>is. length (g (a i)))"
  by (simp add: pack_slots_def length_concat comp_def)

lemma record_sizes:
  "length (uxr_pack_txnid x) = 8" "length (uxr_pack_length_and_bit x) = 4"
  "length (uxr_pack_type_and_length x) = 1 + (if uxr_is_insert x then 4 else 0)"
  "uxr_ok x \<Longrightarrow> length (uxr_pack_data x) = data_size x"
  by (auto simp: uxr_pack_txnid_def uxr_pack_length_and_bit_def uxr_pack_type_and_length_def uxr_pack_data_def
      data_size_def uxr_ok_def uxr_is_defs)

lemma length_pack_data:
  "(\<And>i. i \<in> set is \<Longrightarrow> uxr_ok (a i)) \<Longrightarrow> length (pack_slots uxr_pack_data is a) = (\<Sum>i\<leftarrow>is. data_size (a i))"
  by (induction "is") (simp_all add: pack_slots_def record_sizes)

definition prov_size :: "uxr \<Rightarrow> nat" where
  "prov_size x = (if uxr_is_insert x then 4 + unat (u_vallen x) else 0)"

lemma length_pack_provisional:
  "(\<And>i. i \<in> set is \<Longrightarrow> uxr_ok (a i)) \<Longrightarrow>
     length (pack_slots pack_provisional is a) = 9 * length is + (\<Sum>i\<leftarrow>is. prov_size (a i))"
  by (induction "is") (auto simp: pack_slots_def pack_provisional_def record_sizes prov_size_def data_size_def)

lemma sum_list_rev_nat: "(\<Sum>i\<leftarrow>rev xs. f i) = (\<Sum>i\<leftarrow>xs. (f i :: nat))"
  by (simp add: sum_list_rev flip: rev_map)

lemma length_pack_xrs:
  assumes ok: "\<And>i. i < c + n \<Longrightarrow> uxr_ok (a i)" and c: "0 < c"
  shows "length (pack_xrs c n a) = 4 * c + 8 * (c + n - 1) + (\<Sum>i\<leftarrow>[0..<c]. data_size (a i)) +
    (if n \<noteq> 0 then data_size (a (c + n - 1)) + 4 + (n - 1) + (\<Sum>i\<leftarrow>[0..<n - 1]. prov_size (a (i + c))) else 0)"
proof -
  have com: "length (pack_slots uxr_pack_data (rev [0..<c]) a) = (\<Sum>i\<leftarrow>[0..<c]. data_size (a i))"
    using ok by (subst length_pack_data) (auto simp: sum_list_rev_nat)
  have txn: "length (pack_slots uxr_pack_txnid is a) = 8 * length is" for "is"
    by (simp add: length_pack_slots record_sizes sum_list_triv)
  have lb: "length (pack_slots uxr_pack_length_and_bit is a) = 4 * length is" for "is"
    by (simp add: length_pack_slots record_sizes sum_list_triv)
  have one: "length (pack_slots uxr_pack_data [i] a) = data_size (a i)" if "i < c + n" for i
    using ok that by (subst length_pack_data) auto
  have tl: "length (pack_slots uxr_pack_type_and_length [c] a) + length (pack_slots uxr_pack_data [c] a) =
      1 + prov_size (a c)" if "n > 1"
    using ok that by (simp add: pack_slots_def record_sizes prov_size_def data_size_def)
  have prov: "(\<Sum>i\<leftarrow>[0..<n - 1]. prov_size (a (i + c))) = prov_size (a c) + (\<Sum>i\<leftarrow>[c + 1..<c + n - 1]. prov_size (a i))"
    if "n > 1"
  proof -
    have "map (\<lambda>i. prov_size (a (i + c))) [0..<n - 1] = map (\<lambda>i. prov_size (a i)) [c..<c + (n - 1)]"
      by (simp only: map_upt_shift)
    also have "[c..<c + (n - 1)] = c # [c + 1..<c + n - 1]" using that by (simp add: upt_conv_Cons)
    finally show ?thesis by simp
  qed
  have mid: "length (pack_slots pack_provisional [c + 1..<c + n - 1] a) =
      9 * (n - 2) + (\<Sum>i\<leftarrow>[c + 1..<c + n - 1]. prov_size (a i))"
    using ok by (subst length_pack_provisional) auto
  consider "n = 0" | "n = 1" | "n > 1" by linarith
  then show ?thesis
  proof cases
    case 1
    then show ?thesis
      unfolding pack_xrs_def map_down map_down_tail using c by (simp add: com txn lb pack_slots_def [of _ "[]"])
  next
    case 2
    then show ?thesis
      unfolding pack_xrs_def map_down map_down_tail using c one [of c] by (simp add: com txn lb)
  next
    case 3
    then show ?thesis
      unfolding pack_xrs_def map_down map_down_tail
      using c one [of "c + n - 1"] tl prov mid by (simp add: com txn lb) linarith
  qed
qed

lemma le_memsize_mvcc:
  assumes "slots_ok u" "num_cuxrs u > 0" "\<not> (num_cuxrs u = 1 \<and> num_puxrs u = 0)"
  shows "le_memsize_from_ule u = Some (length (pack_mvcc u))"
proof -
  let ?c = "num_cuxrs u" and ?n = "num_puxrs u"
  have "length (pack_xrs ?c ?n (uxrs u)) = 4 * ?c + 8 * (?c + ?n - 1) + (\<Sum>i\<leftarrow>[0..<?c]. data_size (uxrs u i)) +
    (if ?n \<noteq> 0 then data_size (uxrs u (?c + ?n - 1)) + 4 + (?n - 1) + (\<Sum>i\<leftarrow>[0..<?n - 1]. prov_size (uxrs u (i + ?c))) else 0)"
    using assms(1,2) by (intro length_pack_xrs) (auto simp: slots_ok_def)
  then show ?thesis
    using assms(2,3)
    by (auto simp: le_memsize_from_ule_def pack_mvcc_def ule_get_innermost_uxr_def Let_def prov_size_def)
qed

subsection \<open>The round trip\<close>

lemma repr_same_rec:
  assumes "num_cuxrs u' = num_cuxrs u" "num_puxrs u' = num_puxrs u" "slots_ok u"
    and "\<And>i. i < num_cuxrs u + num_puxrs u \<Longrightarrow> same_rec (uxrs u i) (uxrs u' i)"
  shows "slots_ok u'" "abs_ule u' = abs_ule u"
proof -
  have s: "uxr_ok (uxrs u' i) \<and> abs_uxr (uxrs u' i) = abs_uxr (uxrs u i)" if "i < num_cuxrs u + num_puxrs u" for i
    using assms(3,4) that same_rec_ok by (auto simp: slots_ok_def)
  then show "slots_ok u'" using assms(1,2) by (simp add: slots_ok_def)
  show "abs_ule u' = abs_ule u"
    using s assms(1,2) by (auto simp: abs_ule_def cstack_def pstack_def intro!: map_cong)
qed

lemma wf_slots:
  assumes "ule_wf u"
  shows "slots_ok u" "num_cuxrs u > 0" "u_xid (uxrs u 0) = TXNID_NONE" "num_puxrs u < MAX_TRANSACTION_RECORDS"
    "\<And>i. i < num_cuxrs u \<Longrightarrow> \<not> uxr_is_placeholder (uxrs u i)"
    "num_puxrs u \<noteq> 0 \<Longrightarrow> \<not> uxr_is_placeholder (uxrs u (num_cuxrs u + num_puxrs u - 1))"
proof -
  have vs: "vs_ok (cstack u, pstack u)" using assms by (simp add: ule_wf_def abs_ule_def)
  show so: "slots_ok u" using assms by (simp add: ule_wf_def)
  show c: "num_cuxrs u > 0" using vs by (auto simp: cstack_def)
  then have "hd (cstack u) = abs_uxr (uxrs u 0)" by (simp add: cstack_def hd_map upt_conv_Cons)
  then show "u_xid (uxrs u 0) = TXNID_NONE" using vs by (simp add: abs_uxr_def)
  show "num_puxrs u < MAX_TRANSACTION_RECORDS" using vs by simp
  show "\<not> uxr_is_placeholder (uxrs u i)" if "i < num_cuxrs u" for i
  proof -
    have "abs_uxr (uxrs u i) \<in> set (cstack u)" using that by (simp add: cstack_def)
    then have "snd (abs_uxr (uxrs u i)) \<noteq> Hold" using vs by (metis image_eqI vs_ok.simps)
    then show ?thesis using so that by (simp add: abs_uxr_kinds(1) slots_ok_def)
  qed
  show "\<not> uxr_is_placeholder (uxrs u (num_cuxrs u + num_puxrs u - 1))" if n: "num_puxrs u \<noteq> 0"
  proof -
    have ne: "pstack u \<noteq> []" using n by (simp flip: length_0_conv)
    have "last (pstack u) = abs_uxr (uxrs u (num_cuxrs u + num_puxrs u - 1))"
      using n by (simp add: last_conv_nth [OF ne]) (simp add: pstack_def)
    then have "snd (abs_uxr (uxrs u (num_cuxrs u + num_puxrs u - 1))) \<noteq> Hold" using vs ne by auto
    then show ?thesis using so n by (simp add: abs_uxr_kinds(1) slots_ok_def)
  qed
qed

definition has_insert :: "ule \<Rightarrow> bool" where
  "has_insert u \<longleftrightarrow> list_ex (\<lambda>i. uxr_is_insert (uxrs u i)) [0..<num_cuxrs u + num_puxrs u]"

lemma le_pack_returns:
  assumes "ule_wf u"
  shows "le_pack u = Some (if \<not> has_insert u then None
    else Some (if num_cuxrs u = 1 \<and> num_puxrs u = 0
      then [LE_CLEAN] @ le_bytes 4 (u_vallen (uxrs u 0)) @ u_valp (uxrs u 0) else pack_mvcc u))"
proof -
  note wf = wf_slots [OF assms]
  show ?thesis
  proof (cases "num_cuxrs u = 1 \<and> num_puxrs u = 0")
    case True
    have "uxr_is_insert (uxrs u 0) \<Longrightarrow> length (u_valp (uxrs u 0)) = unat (u_vallen (uxrs u 0))"
      using wf(1) True by (auto simp: slots_ok_def uxr_ok_def uxr_is_defs)
    then show ?thesis
      using True wf by (auto simp: le_pack_def has_insert_def le_memsize_from_ule_def)
  next
    case False
    then show ?thesis
      using wf le_memsize_mvcc [OF wf(1,2) False] by (auto simp: le_pack_def has_insert_def)
  qed
qed

lemma le_unpack_pack:
  assumes wf: "ule_wf u" and ins: "has_insert u" and small: "num_cuxrs u < 2 ^ 32" and pk: "le_pack u = Some (Some le)"
  obtains u' where "le_unpack v le = Some u'" "num_cuxrs u' = num_cuxrs u" "num_puxrs u' = num_puxrs u"
    "slots_ok u'" "abs_ule u' = abs_ule u" "num_cuxrs u' + MAX_TRANSACTION_RECORDS \<le> uxrs_cap u'"
proof -
  note w = wf_slots [OF wf]
  let ?c = "num_cuxrs u" and ?n = "num_puxrs u"
  show ?thesis
  proof (cases "?c = 1 \<and> ?n = 0")
    case True
    let ?x = "uxrs u 0"
    have x: "uxr_is_insert ?x" using ins True by (simp add: has_insert_def)
    then have l: "length (u_valp ?x) = unat (u_vallen ?x)"
      using w(1) True by (auto simp: slots_ok_def uxr_ok_def uxr_is_defs)
    have le: "le = [LE_CLEAN] @ le_bytes 4 (u_vallen ?x) @ u_valp ?x"
      using pk le_pack_returns [OF wf] True ins by simp
    let ?y = "\<lparr>u_type = XR_INSERT, u_vallen = u_vallen ?x, u_valp = u_valp ?x, u_xid = TXNID_NONE\<rparr>"
    let ?u = "v\<lparr>num_cuxrs := 1, num_puxrs := 0, uxrs_cap := MAX_TRANSACTION_RECORDS * 2, uxrs := (uxrs v)(0 := ?y)\<rparr>"
    have "le_unpack v le = Some ?u"
      using rd_data_pack [OF l, of "[]"] by (simp add: le le_unpack_def)
    moreover have "same_rec (uxrs u i) (uxrs ?u i)" if "i < ?c + ?n" for i
      using that True x w(3) by (auto simp: same_rec_def uxr_is_defs)
    ultimately show ?thesis
      using that [of ?u] repr_same_rec [of ?u u] w(1) True by simp
  next
    case False
    have le: "le = pack_mvcc u" using pk le_pack_returns [OF wf] ins unfolding if_not_P [OF False] by simp
    have ok: "uxr_ok (uxrs u i)" if "i < ?c + ?n" for i using w(1) that by (simp add: slots_ok_def)
    obtain a where a: "unpack_mvcc ?c ?n (uxrs v) (pack_xrs ?c ?n (uxrs u) @ []) = Some (a, [])"
      "\<And>i. i < ?c + ?n \<Longrightarrow> same_rec (uxrs u i) (a i)"
      using unpack_mvcc_pack [OF w(2) ok w(3,5,6)] by blast
    have n: "unat (of_nat ?n :: byte) = ?n" "unat (of_nat ?c :: 32 word) = ?c" "(of_nat ?c :: 32 word) \<noteq> 0"
    proof -
      show "unat (of_nat ?n :: byte) = ?n" using w(4) by (simp add: unsigned_of_nat take_bit_nat_eq_self)
      show "unat (of_nat ?c :: 32 word) = ?c" using small by (simp add: unsigned_of_nat take_bit_nat_eq_self)
      then show "(of_nat ?c :: 32 word) \<noteq> 0" using w(2) by (metis less_irrefl unsigned_0)
    qed
    let ?cap = "if ?c < MAX_TRANSACTION_RECORDS then MAX_TRANSACTION_RECORDS * 2 else ?c + 1 + MAX_TRANSACTION_RECORDS"
    let ?u = "v\<lparr>num_cuxrs := ?c, num_puxrs := ?n, uxrs_cap := ?cap, uxrs := a\<rparr>"
    have "le_unpack v le = Some ?u"
      using a(1) n by (simp add: le pack_mvcc_def le_unpack_def LE_CLEAN_def LE_MVCC_def Let_def)
    moreover have "same_rec (uxrs u i) (uxrs ?u i)" if "i < ?c + ?n" for i using a(2) that by simp
    ultimately show ?thesis
      using that [of ?u] repr_same_rec [of ?u u] w(1) by simp
  qed
qed

lemma has_insert_stack:
  assumes "slots_ok u"
  shows "has_insert u \<longleftrightarrow> (\<exists>r\<in>set (cstack u @ pstack u). is_Ins (snd r))"
proof -
  have k: "is_Ins (snd (abs_uxr (uxrs u i))) = uxr_is_insert (uxrs u i)" if "i < num_cuxrs u + num_puxrs u" for i
    using assms that abs_uxr_kinds(3) [of "uxrs u i"] by (simp add: slots_ok_def is_Ins_iff)
  show ?thesis
    unfolding stacks_append has_insert_def list_ex_iff using k by (simp add: Bex_def)
qed

text \<open>
  C15. Packing and unpacking a leaf entry. A well-formed stack packs without a failed assertion, to the
  null entry exactly if it holds no insert; otherwise unpacking the bytes gives a well-formed stack with the same
  records, whatever the destination held before.
\<close>

theorem le_roundtrip:
  assumes "ule_wf u" "num_cuxrs u < 2 ^ 32"
  shows "case le_pack u of
      None \<Rightarrow> False
    | Some None \<Rightarrow> \<forall>r \<in> set (cstack u @ pstack u). \<not> is_Ins (snd r)
    | Some (Some le) \<Rightarrow> \<exists>u'. le_unpack v le = Some u' \<and> abs_ule u' = abs_ule u \<and> ule_wf u'"
proof (cases "has_insert u")
  case True
  then obtain le where le: "le_pack u = Some (Some le)" using le_pack_returns [OF assms(1)] by auto
  obtain u' where "le_unpack v le = Some u'" "slots_ok u'" "abs_ule u' = abs_ule u"
    "num_cuxrs u' + MAX_TRANSACTION_RECORDS \<le> uxrs_cap u'"
    using le_unpack_pack [OF assms(1) True assms(2) le] by metis
  then show ?thesis using le assms(1) by (auto simp: ule_wf_def)
next
  case False
  then show ?thesis
    using le_pack_returns [OF assms(1)] has_insert_stack [OF wf_slots(1) [OF assms(1)]] by simp
qed

theorem le_roundtrip_witness:
  "case le_pack sample_overwritten of
      None \<Rightarrow> False
    | Some None \<Rightarrow> False
    | Some (Some le) \<Rightarrow> \<exists>u'. le_unpack sample_ule le = Some u' \<and>
        abs_ule u' = ([(TXNID_NONE, Del), (5, Ins [7])], [(9, Ins [8])])"
proof -
  have "num_cuxrs sample_overwritten < 2 ^ 32" by (simp add: sample_overwritten_def)
  note r = le_roundtrip [OF sample_overwritten_facts(2) this, of sample_ule]
  have "has_insert sample_overwritten"
    by (simp add: has_insert_def sample_overwritten_def uxr_is_defs upt_rec)
  then show ?thesis
    using r le_pack_returns [OF sample_overwritten_facts(2)] sample_overwritten_facts(1) by auto
qed

end
