(* ===== verification/Le_Access.thy ===== *)
theory Le_Access
  imports Leafentry
begin

text \<open>
  Reading a packed leaf entry without unpacking it (\<open>src/ft/ule.cc\<close>): its size, its newest value,
  the outermost uncommitted transaction, and the value that a reader accepts. A callback
  answers \<open>Inl e\<close> to stop with an error, \<open>Inr True\<close> for \<open>TOKUDB_ACCEPT\<close> and \<open>Inr False\<close> for 0. Each accessor is
  shown to agree with the record stack that the entry stores.
\<close>

type_synonym le_callback = "TXNID \<Rightarrow> bool \<Rightarrow> (ft_error + bool) option"

definition skip :: "nat \<Rightarrow> byte list \<Rightarrow> byte list option" where
  "skip n p = (if length p < n then None else Some (drop n p))"

lemma skip_append: "length q = n \<Longrightarrow> skip n (q @ r) = Some r"
  by (simp add: skip_def)

text \<open>A scratch record, \<open>UXR_S uxr\<close>, whose initial contents are never read.\<close>

definition scratch_uxr :: uxr where
  "scratch_uxr = committed_delete"

subsection \<open>Sizes\<close>

fun sum_lengths :: "nat \<Rightarrow> byte list \<Rightarrow> nat \<Rightarrow> (byte list \<times> nat) option" where
  "sum_lengths 0 p lengths = Some (p, lengths)"
| "sum_lengths (Suc k) p lengths = do {
     (x, p) \<leftarrow> uxr_unpack_length_and_bit scratch_uxr p;
     sum_lengths k p (if uxr_is_insert x then lengths + unat (u_vallen x) else lengths)
   }"

fun skip_provisional :: "nat \<Rightarrow> byte list \<Rightarrow> byte list option" where
  "skip_provisional 0 p = Some p"
| "skip_provisional (Suc k) p = do { (_, p) \<leftarrow> unpack_provisional scratch_uxr p; skip_provisional k p }"

definition leafentry_rest_memsize :: "nat \<Rightarrow> nat \<Rightarrow> byte list \<Rightarrow> nat option" where
  "leafentry_rest_memsize n c start = do {
     p \<leftarrow> (if n \<noteq> 0 then skip 8 start else Some start);
     p \<leftarrow> skip ((c - 1) * 8) p;
     (p, lengths) \<leftarrow> (if n \<noteq> 0 then sum_lengths 1 p 0 else Some (p, 0));
     (p, lengths) \<leftarrow> sum_lengths c p lengths;
     p \<leftarrow> skip lengths p;
     p \<leftarrow> (if n > 1 then do {
             (x, p) \<leftarrow> uxr_unpack_type_and_length scratch_uxr p;
             (x, p) \<leftarrow> uxr_unpack_data x p;
             p \<leftarrow> skip_provisional (n - 2) p;
             (x, p) \<leftarrow> uxr_unpack_txnid x p;
             Some p
           }
           else Some p);
     Some (length start - length p)
   }"

definition leafentry_memsize :: "byte list \<Rightarrow> nat option" where
  "leafentry_memsize le = do {
     (type, p) \<leftarrow> rd8 le;
     if type = LE_CLEAN then do { (vallen, p) \<leftarrow> rd32 p; Some (1 + 4 + unat vallen) }
     else if type = LE_MVCC then do {
       (num_cuxrs, p) \<leftarrow> rd32 p;
       ensure (num_cuxrs \<noteq> 0);
       (num_puxrs, p) \<leftarrow> rd8 p;
       rest \<leftarrow> leafentry_rest_memsize (unat num_puxrs) (unat num_cuxrs) p;
       Some (1 + 4 + 1 + rest)
     }
     else None
   }"

definition leafentry_disksize :: "byte list \<Rightarrow> nat option" where
  "leafentry_disksize le = leafentry_memsize le"

subsection \<open>The newest value\<close>

definition le_is_clean :: "byte list \<Rightarrow> bool option" where
  "le_is_clean le = do {
     (type, _) \<leftarrow> rd8 le;
     if type = LE_CLEAN then Some True else if type = LE_MVCC then Some False else None
   }"

definition le_latest_is_del :: "byte list \<Rightarrow> bool option" where
  "le_latest_is_del le = do {
     (type, p) \<leftarrow> rd8 le;
     if type = LE_CLEAN then Some False
     else if type = LE_MVCC then do {
       (num_cuxrs, p) \<leftarrow> rd32 p;
       ensure (num_cuxrs \<noteq> 0);
       (num_puxrs, p) \<leftarrow> rd8 p;
       p \<leftarrow> (if num_puxrs \<noteq> 0 then skip 8 p else Some p);
       p \<leftarrow> skip ((unat num_cuxrs - 1) * 8) p;
       (x, p) \<leftarrow> uxr_unpack_length_and_bit scratch_uxr p;
       Some (uxr_is_delete x)
     }
     else None
   }"

definition le_latest_val_and_len :: "byte list \<Rightarrow> (byte list option \<times> 32 word) option" where
  "le_latest_val_and_len le = do {
     (type, p) \<leftarrow> rd8 le;
     if type = LE_CLEAN then do { (vallen, p) \<leftarrow> rd32 p; (val, _) \<leftarrow> rd_data vallen p; Some (Some val, vallen) }
     else if type = LE_MVCC then do {
       (num_cuxrs, p) \<leftarrow> rd32 p;
       ensure (num_cuxrs \<noteq> 0);
       (num_puxrs, p) \<leftarrow> rd8 p;
       p \<leftarrow> (if num_puxrs \<noteq> 0 then skip 8 p else Some p);
       p \<leftarrow> skip ((unat num_cuxrs - 1) * 8) p;
       (x, p) \<leftarrow> uxr_unpack_length_and_bit scratch_uxr p;
       if uxr_is_insert x then do {
         p \<leftarrow> skip ((unat num_cuxrs - 1 + (if num_puxrs \<noteq> 0 then 1 else 0)) * 4) p;
         (val, _) \<leftarrow> rd_data (u_vallen x) p;
         Some (Some val, u_vallen x)
       }
       else Some (None, 0)
     }
     else None
   }"

definition le_latest_vallen :: "byte list \<Rightarrow> (32 word) option" where
  "le_latest_vallen le = do {
     (type, p) \<leftarrow> rd8 le;
     if type = LE_CLEAN then do { (vallen, p) \<leftarrow> rd32 p; Some vallen }
     else if type = LE_MVCC then do {
       (num_cuxrs, p) \<leftarrow> rd32 p;
       ensure (num_cuxrs \<noteq> 0);
       (num_puxrs, p) \<leftarrow> rd8 p;
       p \<leftarrow> (if num_puxrs \<noteq> 0 then skip 8 p else Some p);
       p \<leftarrow> skip ((unat num_cuxrs - 1) * 8) p;
       (x, p) \<leftarrow> uxr_unpack_length_and_bit scratch_uxr p;
       Some (if uxr_is_insert x then u_vallen x else 0)
     }
     else None
   }"

definition le_outermost_uncommitted_xid :: "byte list \<Rightarrow> TXNID option" where
  "le_outermost_uncommitted_xid le = do {
     (type, p) \<leftarrow> rd8 le;
     if type = LE_MVCC then do {
       (_, p) \<leftarrow> rd32 p;
       (num_puxrs, p) \<leftarrow> rd8 p;
       if num_puxrs \<noteq> 0 then do { (x, _) \<leftarrow> uxr_unpack_txnid scratch_uxr p; Some (u_xid x) }
       else Some TXNID_NONE
     }
     else Some TXNID_NONE
   }"

definition le_has_xids :: "byte list \<Rightarrow> XIDS \<Rightarrow> bool option" where
  "le_has_xids le xids = do {
     ensure (toku_xids_get_num_xids xids > 0);
     xid \<leftarrow> toku_xids_get_xid xids 0;
     ensure (xid \<noteq> TXNID_NONE);
     outermost \<leftarrow> le_outermost_uncommitted_xid le;
     Some (outermost = xid)
   }"

subsection \<open>The value a reader accepts\<close>

fun le_iterate_loop :: "le_callback \<Rightarrow> bool \<Rightarrow> nat \<Rightarrow> nat \<Rightarrow> byte list \<Rightarrow> (ft_error + nat) option" where
  "le_iterate_loop f prov i 0 p = Some (Inr i)"
| "le_iterate_loop f prov i (Suc k) p = do {
     (xid, p) \<leftarrow> rd64 p;
     r \<leftarrow> f xid (i = 0 \<and> prov);
     case r of
       Inl e \<Rightarrow> Some (Inl e)
     | Inr accept \<Rightarrow> if accept then Some (Inr i) else le_iterate_loop f prov (i + 1) k p
   }"

definition le_iterate_get_accepted_index ::
  "byte list \<Rightarrow> nat \<Rightarrow> le_callback \<Rightarrow> bool \<Rightarrow> (ft_error + nat) option" where
  "le_iterate_get_accepted_index xids num_xids f top_is_provisional =
     le_iterate_loop f top_is_provisional 0 (num_xids - 1) xids"

definition le_iterate_is_del :: "byte list \<Rightarrow> le_callback \<Rightarrow> (ft_error + bool) option" where
  "le_iterate_is_del le f = do {
     (type, p) \<leftarrow> rd8 le;
     if type = LE_CLEAN then Some (Inr False)
     else if type = LE_MVCC then do {
       (num_cuxrs, p) \<leftarrow> rd32 p;
       (num_puxrs, p) \<leftarrow> rd8 p;
       let num_interesting = unat num_cuxrs + (if num_puxrs \<noteq> 0 then 1 else 0);
       r \<leftarrow> le_iterate_get_accepted_index p num_interesting f (num_puxrs \<noteq> 0);
       case r of
         Inl e \<Rightarrow> Some (Inl e)
       | Inr index \<Rightarrow> do {
           ensure (index < num_interesting);
           p \<leftarrow> skip ((num_interesting - 1) * 8) p;
           p \<leftarrow> skip (index * 4) p;
           (my_length_and_bit, _) \<leftarrow> rd32 p;
           Some (Inr (\<not> IS_INSERT my_length_and_bit))
         }
     }
     else None
   }"

definition le_iterate_val :: "byte list \<Rightarrow> le_callback \<Rightarrow> (ft_error + byte list option \<times> 32 word) option" where
  "le_iterate_val le f = do {
     (type, p) \<leftarrow> rd8 le;
     if type = LE_CLEAN then do {
       (vallen, p) \<leftarrow> rd32 p;
       (val, _) \<leftarrow> rd_data vallen p;
       Some (Inr (Some val, vallen))
     }
     else if type = LE_MVCC then do {
       (num_cuxrs, p) \<leftarrow> rd32 p;
       (num_puxrs, p) \<leftarrow> rd8 p;
       let num_interesting = unat num_cuxrs + (if num_puxrs \<noteq> 0 then 1 else 0);
       r \<leftarrow> le_iterate_get_accepted_index p num_interesting f (num_puxrs \<noteq> 0);
       case r of
         Inl e \<Rightarrow> Some (Inl e)
       | Inr index \<Rightarrow> do {
           ensure (index < num_interesting);
           lens \<leftarrow> skip ((num_interesting - 1) * 8) p;
           (p, offset) \<leftarrow> sum_lengths index lens 0;
           (temp, _) \<leftarrow> uxr_unpack_length_and_bit scratch_uxr p;
           if uxr_is_delete temp then Some (Inr (None, 0))
           else do {
             p \<leftarrow> skip (num_interesting * 4) lens;
             p \<leftarrow> skip offset p;
             (val, _) \<leftarrow> rd_data (u_vallen temp) p;
             Some (Inr (Some val, u_vallen temp))
           }
         }
     }
     else None
   }"

datatype cursor_read_type = C_READ_ANY | C_READ_SNAPSHOT | C_READ_COMMITTED

definition le_iterate_read_committed_callback :: "le_callback \<Rightarrow> le_callback" where
  "le_iterate_read_committed_callback reads txnid is_provisional =
     (if is_provisional then reads txnid is_provisional else Some (Inr True))"

text \<open>\<open>reads\<close> is \<open>toku_txn_reads_txnid\<close> for the reading transaction.\<close>

definition le_val_is_del :: "byte list \<Rightarrow> cursor_read_type \<Rightarrow> le_callback \<Rightarrow> bool option" where
  "le_val_is_del le read_type reads =
     (case read_type of
        C_READ_ANY \<Rightarrow> le_latest_is_del le
      | _ \<Rightarrow> do {
          r \<leftarrow> le_iterate_is_del le
            (if read_type = C_READ_SNAPSHOT then reads else le_iterate_read_committed_callback reads);
          Some (case r of Inl _ \<Rightarrow> False | Inr is_del \<Rightarrow> is_del)
        })"

definition le_extract_val ::
  "byte list \<Rightarrow> bool \<Rightarrow> cursor_read_type \<Rightarrow> le_callback \<Rightarrow> (byte list option \<times> 32 word) option" where
  "le_extract_val le is_leaf_mode read_type reads =
     (if is_leaf_mode then do { n \<leftarrow> leafentry_memsize le; Some (Some le, of_nat n) }
      else (case read_type of
        C_READ_ANY \<Rightarrow> le_latest_val_and_len le
      | _ \<Rightarrow> do {
          r \<leftarrow> le_iterate_val le
            (if read_type = C_READ_SNAPSHOT then reads else le_iterate_read_committed_callback reads);
          (case r of Inl _ \<Rightarrow> None | Inr v \<Rightarrow> Some v)
        }))"

subsection \<open>The layout of a packed stack\<close>

text \<open>
  The records relevant for reads, newest first: the ids come from the slots \<open>id_slots\<close>, the lengths
  and data from the slots \<open>val_slots\<close>.
\<close>

definition id_slots :: "nat \<Rightarrow> nat \<Rightarrow> nat list" where
  "id_slots c n = (if n \<noteq> 0 then [c] else []) @ rev [1..<c]"

definition val_slots :: "nat \<Rightarrow> nat \<Rightarrow> nat list" where
  "val_slots c n = (if n \<noteq> 0 then [c + n - 1] else []) @ rev [0..<c]"

lemma pack_slots_append: "pack_slots g (xs @ ys) a = pack_slots g xs a @ pack_slots g ys a"
  by (simp add: pack_slots_def)

lemma pack_xrs_layout:
  "\<exists>tail. pack_xrs c n a = pack_slots uxr_pack_txnid (id_slots c n) a @ pack_slots uxr_pack_length_and_bit (val_slots c n) a @
     pack_slots uxr_pack_data (val_slots c n) a @ tail"
  unfolding pack_xrs_def map_down map_down_tail id_slots_def val_slots_def pack_slots_append append.assoc by blast

lemma slots_lengths:
  "0 < c \<Longrightarrow> length (id_slots c n) = c + (if n \<noteq> 0 then 1 else 0) - 1"
  "length (val_slots c n) = c + (if n \<noteq> 0 then 1 else 0)"
  "i \<in> set (val_slots c n) \<Longrightarrow> i < c + n"
  by (auto simp: id_slots_def val_slots_def split: if_splits)

lemma length_pack_txnid: "length (pack_slots uxr_pack_txnid is a) = length is * 8"
  by (simp add: length_pack_slots record_sizes sum_list_triv)

lemma length_pack_lb: "length (pack_slots uxr_pack_length_and_bit is a) = length is * 4"
  by (simp add: length_pack_slots record_sizes sum_list_triv)

lemma unpack_lb_size:
  assumes "uxr_ok y"
  shows "uxr_unpack_length_and_bit x (uxr_pack_length_and_bit y @ r) = Some (set_length_and_bit y x, r)"
    "(if uxr_is_insert (set_length_and_bit y x) then unat (u_vallen (set_length_and_bit y x)) else 0) = data_size y"
    "uxr_is_delete (set_length_and_bit y x) \<longleftrightarrow> \<not> uxr_is_insert y"
  using assms unpack_length_and_bit_pack
  by (auto simp: data_size_def set_length_and_bit_def uxr_is_defs)

lemma sum_lengths_pack:
  "(\<And>i. i \<in> set is \<Longrightarrow> uxr_ok (a i)) \<Longrightarrow>
     sum_lengths (length is) (pack_slots uxr_pack_length_and_bit is a @ r) l = Some (r, l + (\<Sum>i\<leftarrow>is. data_size (a i)))"
proof (induction "is" arbitrary: l)
  case Nil
  then show ?case by (simp add: pack_slots_def)
next
  case (Cons i "is")
  let ?x = "set_length_and_bit (a i) scratch_uxr"
  have "(if uxr_is_insert ?x then l + unat (u_vallen ?x) else l) = l + data_size (a i)"
    using unpack_lb_size(2) [of "a i" scratch_uxr] Cons.prems by (auto split: if_splits)
  then show ?case
    using Cons.IH [of "l + data_size (a i)"] Cons.prems unpack_length_and_bit_pack [of "a i"]
    by (simp add: pack_slots_def)
qed

lemma skip_provisional_pack:
  "(\<And>i. i \<in> set is \<Longrightarrow> uxr_ok (a i)) \<Longrightarrow> skip_provisional (length is) (pack_slots pack_provisional is a @ r) = Some r"
  by (induction "is") (simp_all add: pack_slots_def unpack_provisional_pack)

lemma rest_memsize_pack:
  assumes ok: "\<And>i. i < c + n \<Longrightarrow> uxr_ok (a i)" and c: "0 < c"
  shows "leafentry_rest_memsize n c (pack_xrs c n a) = Some (length (pack_xrs c n a))"
proof -
  let ?C = "rev [0..<c]"
  define T where "T = (if n > 1 then pack_slots uxr_pack_type_and_length [c] a @ pack_slots uxr_pack_data [c] a @
        pack_slots pack_provisional [c + 1..<c + n - 1] a @ pack_slots uxr_pack_txnid [c + n - 1] a else [])"
  have com: "sum_lengths c (pack_slots uxr_pack_length_and_bit ?C a @ r) l = Some (r, l + (\<Sum>i\<leftarrow>?C. data_size (a i)))" for r l
    using sum_lengths_pack [of ?C a r l] ok by simp
  have dat: "length (pack_slots uxr_pack_data ?C a) = (\<Sum>i\<leftarrow>?C. data_size (a i))"
    using ok by (intro length_pack_data) auto
  have tail: "do {
      (x, p) \<leftarrow> uxr_unpack_type_and_length scratch_uxr T;
      (x, p) \<leftarrow> uxr_unpack_data x p;
      p \<leftarrow> skip_provisional (n - 2) p;
      (x, p) \<leftarrow> uxr_unpack_txnid x p;
      Some p } = Some []" if True: "n > 1"
  proof -
    let ?P = "[c + 1..<c + n - 1]"
    have "uxr_unpack_data (set_type_and_length (a c) scratch_uxr) (uxr_pack_data (a c) @ r) =
        Some (set_data (a c) (set_type_and_length (a c) scratch_uxr), r)" for r
      using ok True by (intro unpack_data_pack) (auto simp: set_type_and_length_kind)
    moreover have "skip_provisional (n - 2) (pack_slots pack_provisional ?P a @ r) = Some r" for r
    proof -
      have "skip_provisional (length ?P) (pack_slots pack_provisional ?P a @ r) = Some r"
        using ok by (intro skip_provisional_pack) auto
      then show ?thesis by simp
    qed
    moreover have "uxr_unpack_txnid x (uxr_pack_txnid y) = Some (set_xid y x, [])" for x y
      using unpack_txnid_pack [of x y "[]"] by simp
    ultimately show ?thesis
      using True by (simp add: T_def pack_slots_def [of _ "[_]"] unpack_type_and_length_pack)
  qed
  show ?thesis
  proof (cases "n = 0")
    case True
    then show ?thesis
      using c com dat
      unfolding leafentry_rest_memsize_def pack_xrs_def map_down map_down_tail
      by (simp add: pack_slots_def [of _ "[]"] skip_append skip_append [OF dat, of "[]", simplified] length_pack_txnid)
  next
    case False
    have "sum_lengths 1 (uxr_pack_length_and_bit (a (c + n - 1)) @ r) 0 = Some (r, data_size (a (c + n - 1)))" for r
      using sum_lengths_pack [of "[c + n - 1]" a r 0] ok False by (simp add: pack_slots_def)
    moreover have "length (uxr_pack_data (a (c + n - 1)) @ pack_slots uxr_pack_data ?C a) =
        data_size (a (c + n - 1)) + (\<Sum>i\<leftarrow>?C. data_size (a i))"
      using ok False dat by (simp add: record_sizes)
    then have "skip (data_size (a (c + n - 1)) + (\<Sum>i\<leftarrow>?C. data_size (a i)))
        (uxr_pack_data (a (c + n - 1)) @ pack_slots uxr_pack_data ?C a @ T) = Some T"
      by (metis append.assoc skip_append)
    moreover have "(if n > 1 then do {
        (x, p) \<leftarrow> uxr_unpack_type_and_length scratch_uxr T;
        (x, p) \<leftarrow> uxr_unpack_data x p;
        p \<leftarrow> skip_provisional (n - 2) p;
        (x, p) \<leftarrow> uxr_unpack_txnid x p;
        Some p } else Some T) = Some []"
      using tail by (simp add: T_def)
    ultimately show ?thesis
      using False c com
      unfolding leafentry_rest_memsize_def pack_xrs_def map_down map_down_tail T_def [symmetric]
      by (simp add: pack_slots_def [of _ "[_]"] skip_append length_pack_txnid record_sizes
          del: sum_lengths.simps split del: if_split)
  qed
qed

subsection \<open>What a reader sees\<close>

text \<open>The candidates for a read, newest first, and the first one that the callback accepts.\<close>

fun vs_candidates :: "vstack \<Rightarrow> xrec list" where
  "vs_candidates (cs, ps) = (if ps = [] then [] else [(fst (hd ps), snd (last ps))]) @ rev cs"

fun accept_pos :: "le_callback \<Rightarrow> bool \<Rightarrow> nat \<Rightarrow> TXNID list \<Rightarrow> (ft_error + nat) option" where
  "accept_pos f prov i [] = Some (Inr i)"
| "accept_pos f prov i (x # xs) = do {
     r \<leftarrow> f x (i = 0 \<and> prov);
     case r of
       Inl e \<Rightarrow> Some (Inl e)
     | Inr accept \<Rightarrow> if accept then Some (Inr i) else accept_pos f prov (i + 1) xs
   }"

definition vs_read :: "le_callback \<Rightarrow> vstack \<Rightarrow> (ft_error + xval) option" where
  "vs_read f s = do {
     r \<leftarrow> accept_pos f (snd s \<noteq> []) 0 (map fst (butlast (vs_candidates s)));
     case r of Inl e \<Rightarrow> Some (Inl e) | Inr i \<Rightarrow> Some (Inr (snd (vs_candidates s ! i)))
   }"

lemma accept_pos_bound: "accept_pos f prov i xs = Some (Inr j) \<Longrightarrow> i \<le> j \<and> j \<le> i + length xs"
proof (induction xs arbitrary: i)
  case (Cons x xs)
  then obtain b where "f x (i = 0 \<and> prov) = Some (Inr b)"
    by (cases "f x (i = 0 \<and> prov)") (auto split: sum.splits)
  then show ?case using Cons.prems Cons.IH [of "i + 1"] by (auto split: if_splits)
qed simp

lemma le_iterate_loop_pack:
  "le_iterate_loop f prov i (length is) (pack_slots uxr_pack_txnid is a @ r) =
     accept_pos f prov i (map (\<lambda>j. u_xid (a j)) is)"
proof (induction "is" arbitrary: i)
  case Nil
  then show ?case by simp
next
  case (Cons j "is")
  have "rd64 (pack_slots uxr_pack_txnid (j # is) a @ r) = Some (u_xid (a j), pack_slots uxr_pack_txnid is a @ r)"
    by (simp add: pack_slots_def uxr_pack_txnid_def)
  then show ?case using Cons.IH by (cases "f (u_xid (a j)) (i = 0 \<and> prov)") (auto split: sum.split)
qed

lemma rev_cstack: "rev (cstack u) = map (\<lambda>i. abs_uxr (uxrs u i)) (rev [0..<num_cuxrs u])"
  by (simp add: cstack_def rev_map)

lemma candidates_slots:
  assumes "num_cuxrs u > 0"
  shows "map snd (vs_candidates (abs_ule u)) = map (\<lambda>i. snd (abs_uxr (uxrs u i))) (val_slots (num_cuxrs u) (num_puxrs u))"
    "map fst (butlast (vs_candidates (abs_ule u))) = map (\<lambda>i. u_xid (uxrs u i)) (id_slots (num_cuxrs u) (num_puxrs u))"
    "snd (abs_ule u) \<noteq> [] \<longleftrightarrow> num_puxrs u \<noteq> 0"
proof -
  let ?c = "num_cuxrs u" and ?n = "num_puxrs u"
  have e: "pstack u = [] \<longleftrightarrow> ?n = 0" by (metis length_0_conv length_stacks(2))
  then show "snd (abs_ule u) \<noteq> [] \<longleftrightarrow> ?n \<noteq> 0" by (simp add: abs_ule_def)
  have hd: "hd (pstack u) = abs_uxr (uxrs u ?c)" "last (pstack u) = abs_uxr (uxrs u (?c + ?n - 1))" if "?n \<noteq> 0"
    using that e by (simp_all add: hd_conv_nth last_conv_nth) (simp_all add: pstack_def)
  show "map snd (vs_candidates (abs_ule u)) = map (\<lambda>i. snd (abs_uxr (uxrs u i))) (val_slots ?c ?n)"
    using e hd by (auto simp: abs_ule_def val_slots_def rev_cstack)
  have "butlast (rev (cstack u)) = map (\<lambda>i. abs_uxr (uxrs u i)) (rev [1..<?c])"
    using assms by (simp add: rev_cstack map_butlast [symmetric] butlast_rev upt_conv_Cons)
  then have b: "map fst (butlast (rev (cstack u))) = map (\<lambda>i. u_xid (uxrs u i)) (rev [1..<?c])"
    by (simp add: abs_uxr_def comp_def)
  have "rev (cstack u) \<noteq> []" using assms by (metis length_0_conv length_rev length_stacks(1) less_irrefl)
  then show "map fst (butlast (vs_candidates (abs_ule u))) = map (\<lambda>i. u_xid (uxrs u i)) (id_slots ?c ?n)"
    using e hd b by (auto simp: abs_ule_def id_slots_def butlast_append abs_uxr_def)
qed

text \<open>The bytes of an entry, and a value as the accessors return it.\<close>

lemma packed_has_insert: "le_pack u = Some (Some le) \<Longrightarrow> has_insert u"
  by (auto simp: le_pack_def has_insert_def split: if_splits)

lemma packed_cases [consumes 2, case_names clean mvcc]:
  assumes "ule_wf u" "le_pack u = Some (Some le)"
  obtains (clean) v and len :: "32 word" where "le = [LE_CLEAN] @ le_bytes 4 len @ v" "length v = unat len" "of_nat (length v) = len"
      "abs_ule u = ([(TXNID_NONE, Ins v)], [])"
    | (mvcc) "le = pack_mvcc u"
proof (cases "num_cuxrs u = 1 \<and> num_puxrs u = 0")
  case True
  let ?x = "uxrs u 0"
  note w = wf_slots [OF assms(1)]
  have i: "has_insert u" by (rule packed_has_insert [OF assms(2)])
  have x: "uxr_is_insert ?x" using i True by (simp add: has_insert_def)
  then have l: "length (u_valp ?x) = unat (u_vallen ?x)"
    using w(1) True by (auto simp: slots_ok_def uxr_ok_def uxr_is_defs)
  moreover have "abs_ule u = ([(TXNID_NONE, Ins (u_valp ?x))], [])"
    using True x w(3) by (simp add: abs_ule_def cstack_def pstack_def abs_uxr_def)
  moreover have "le = [LE_CLEAN] @ le_bytes 4 (u_vallen ?x) @ u_valp ?x"
    using assms(2) le_pack_returns [OF assms(1)] True i by simp
  ultimately show ?thesis by (intro clean) auto
next
  case False
  have i: "has_insert u" by (rule packed_has_insert [OF assms(2)])
  then show ?thesis using assms(2) le_pack_returns [OF assms(1)] mvcc unfolding if_not_P [OF False] by simp
qed

definition val_result :: "xval \<Rightarrow> byte list option \<times> 32 word" where
  "val_result v = (case v of Ins b \<Rightarrow> (Some b, of_nat (length b)) | _ \<Rightarrow> (None, 0))"

lemma val_result_abs:
  "uxr_ok x \<Longrightarrow> val_result (snd (abs_uxr x)) = (if uxr_is_insert x then (Some (u_valp x), u_vallen x) else (None, 0))"
  by (auto simp: val_result_def abs_uxr_def uxr_ok_def uxr_is_defs)

lemma mvcc_header:
  assumes "ule_wf u" "num_cuxrs u < 2 ^ 32"
  shows "unat (of_nat (num_puxrs u) :: byte) = num_puxrs u" "unat (of_nat (num_cuxrs u) :: 32 word) = num_cuxrs u"
    "(of_nat (num_cuxrs u) :: 32 word) \<noteq> 0" "(of_nat (num_puxrs u) :: byte) = 0 \<longleftrightarrow> num_puxrs u = 0"
proof -
  note w = wf_slots [OF assms(1)]
  show n: "unat (of_nat (num_puxrs u) :: byte) = num_puxrs u"
    using w(4) by (simp add: unsigned_of_nat take_bit_nat_eq_self)
  show c: "unat (of_nat (num_cuxrs u) :: 32 word) = num_cuxrs u"
    using assms(2) by (simp add: unsigned_of_nat take_bit_nat_eq_self)
  show "(of_nat (num_cuxrs u) :: 32 word) \<noteq> 0" using c w(2) by (metis less_irrefl unsigned_0)
  show "(of_nat (num_puxrs u) :: byte) = 0 \<longleftrightarrow> num_puxrs u = 0"
  proof
    assume "(of_nat (num_puxrs u) :: byte) = 0"
    then show "num_puxrs u = 0" using n by simp
  qed simp
qed

lemma leafentry_memsize_pack:
  assumes "ule_wf u" "num_cuxrs u < 2 ^ 32" "le_pack u = Some (Some le)"
  shows "leafentry_memsize le = Some (length le)"
  using assms(1,3)
proof (cases rule: packed_cases)
  case (clean v len)
  then show ?thesis by (simp add: leafentry_memsize_def)
next
  case mvcc
  have "leafentry_rest_memsize (num_puxrs u) (num_cuxrs u) (pack_xrs (num_cuxrs u) (num_puxrs u) (uxrs u)) =
      Some (length (pack_xrs (num_cuxrs u) (num_puxrs u) (uxrs u)))"
    using wf_slots [OF assms(1)] by (intro rest_memsize_pack) (auto simp: slots_ok_def)
  then show ?thesis
    using mvcc mvcc_header [OF assms(1,2)]
    by (simp add: leafentry_memsize_def pack_mvcc_def LE_CLEAN_def LE_MVCC_def)
qed

lemma val_slots_hd:
  assumes "0 < c"
  shows "\<exists>rest. val_slots c n = (c + n - 1) # rest"
  using assms by (cases c) (auto simp: val_slots_def)

lemma skip_ids:
  assumes "0 < c"
  obtains q where "\<And>r. (if n = 0 then Some (pack_slots uxr_pack_txnid (id_slots c n) a @ r)
      else skip 8 (pack_slots uxr_pack_txnid (id_slots c n) a @ r)) = Some (q @ r)"
    "\<And>r. skip ((c - Suc 0) * 8) (q @ r) = Some r"
proof (rule that [of "pack_slots uxr_pack_txnid (rev [1..<c]) a"])
  fix r
  show "(if n = 0 then Some (pack_slots uxr_pack_txnid (id_slots c n) a @ r)
      else skip 8 (pack_slots uxr_pack_txnid (id_slots c n) a @ r)) = Some (pack_slots uxr_pack_txnid (rev [1..<c]) a @ r)"
  proof (cases "n = 0")
    case False
    have "id_slots c n = [c] @ rev [1..<c]" using False by (simp add: id_slots_def)
    then show ?thesis using False
      by (simp add: pack_slots_append [of _ "[c]" "rev [Suc 0..<c]", simplified] skip_append length_pack_txnid)
  qed (simp add: id_slots_def)
  show "skip ((c - Suc 0) * 8) (pack_slots uxr_pack_txnid (rev [1..<c]) a @ r) = Some r"
    by (rule skip_append) (simp add: length_pack_txnid)
qed

lemma slots_at:
  assumes ok: "\<And>j. j \<in> set V \<Longrightarrow> uxr_ok (a j)" and i: "i < length V"
  shows "sum_lengths i (pack_slots uxr_pack_length_and_bit V a @ r) 0 =
      Some (uxr_pack_length_and_bit (a (V ! i)) @ pack_slots uxr_pack_length_and_bit (drop (Suc i) V) a @ r,
        \<Sum>j\<leftarrow>take i V. data_size (a j))"
    "skip (\<Sum>j\<leftarrow>take i V. data_size (a j)) (pack_slots uxr_pack_data V a @ r) =
      Some (uxr_pack_data (a (V ! i)) @ pack_slots uxr_pack_data (drop (Suc i) V) a @ r)"
    "skip (i * 4) (pack_slots uxr_pack_length_and_bit V a @ r) =
      Some (uxr_pack_length_and_bit (a (V ! i)) @ pack_slots uxr_pack_length_and_bit (drop (Suc i) V) a @ r)"
proof -
  have V: "V = take i V @ V ! i # drop (Suc i) V" using i by (rule id_take_nth_drop)
  have split: "pack_slots g V a = pack_slots g (take i V) a @ g (a (V ! i)) @ pack_slots g (drop (Suc i) V) a" for g
    using arg_cong [OF V, of "\<lambda>x. pack_slots g x a"] by (simp add: pack_slots_append) (simp add: pack_slots_def)
  have t: "\<And>j. j \<in> set (take i V) \<Longrightarrow> uxr_ok (a j)" using ok by (meson in_set_takeD)
  show "sum_lengths i (pack_slots uxr_pack_length_and_bit V a @ r) 0 =
      Some (uxr_pack_length_and_bit (a (V ! i)) @ pack_slots uxr_pack_length_and_bit (drop (Suc i) V) a @ r,
        \<Sum>j\<leftarrow>take i V. data_size (a j))"
    using sum_lengths_pack [of "take i V" a _ 0] t i by (simp add: split)
  show "skip (\<Sum>j\<leftarrow>take i V. data_size (a j)) (pack_slots uxr_pack_data V a @ r) =
      Some (uxr_pack_data (a (V ! i)) @ pack_slots uxr_pack_data (drop (Suc i) V) a @ r)"
    using length_pack_data [of "take i V" a] t by (simp add: split skip_append)
  show "skip (i * 4) (pack_slots uxr_pack_length_and_bit V a @ r) =
      Some (uxr_pack_length_and_bit (a (V ! i)) @ pack_slots uxr_pack_length_and_bit (drop (Suc i) V) a @ r)"
    using i by (simp add: split skip_append length_pack_lb)
qed

lemma rd_data_uxr:
  "uxr_ok y \<Longrightarrow> uxr_is_insert y \<Longrightarrow> rd_data (u_vallen y) (uxr_pack_data y @ r) = Some (u_valp y, r)"
  by (auto simp: uxr_ok_def uxr_pack_data_def rd_data_pack uxr_is_defs)

lemma rd32_length_and_bit:
  assumes "uxr_ok y"
  obtains w where "\<And>r. rd32 (uxr_pack_length_and_bit y @ r) = Some (w, r)"
    "\<not> IS_INSERT w \<longleftrightarrow> \<not> uxr_is_insert y"
  using assms length_and_bit_insert length_and_bit_delete
  by (cases "uxr_is_insert y") (auto simp: uxr_pack_length_and_bit_def uxr_ok_def uxr_is_defs)

text \<open>The parts of an entry with several records, as the accessors find them.\<close>

lemma mvcc_parts:
  assumes "ule_wf u" "num_cuxrs u < 2 ^ 32"
  defines "c \<equiv> num_cuxrs u" and "n \<equiv> num_puxrs u"
  obtains tail where "pack_mvcc u = [LE_MVCC] @ le_bytes 4 (of_nat c :: 32 word) @ [of_nat n] @
      pack_slots uxr_pack_txnid (id_slots c n) (uxrs u) @ pack_slots uxr_pack_length_and_bit (val_slots c n) (uxrs u) @
      pack_slots uxr_pack_data (val_slots c n) (uxrs u) @ tail"
    "\<And>j. j \<in> set (val_slots c n) \<Longrightarrow> uxr_ok (uxrs u j)"
proof -
  obtain tail where "pack_xrs c n (uxrs u) = pack_slots uxr_pack_txnid (id_slots c n) (uxrs u) @
      pack_slots uxr_pack_length_and_bit (val_slots c n) (uxrs u) @ pack_slots uxr_pack_data (val_slots c n) (uxrs u) @ tail"
    using pack_xrs_layout by blast
  moreover have "uxr_ok (uxrs u j)" if "j \<in> set (val_slots c n)" for j
    using slots_lengths(3) [OF that] wf_slots(1) [OF assms(1)] by (simp add: slots_ok_def c_def n_def)
  ultimately show ?thesis using that [of tail] by (simp add: pack_mvcc_def c_def n_def)
qed

lemma le_iterate_val_pack:
  assumes "ule_wf u" "num_cuxrs u < 2 ^ 32" "le_pack u = Some (Some le)"
  shows "le_iterate_val le f = map_option (map_sum (\<lambda>e. e) val_result) (vs_read f (abs_ule u))"
    "le_iterate_is_del le f = map_option (map_sum (\<lambda>e. e) (\<lambda>v. v = Del)) (vs_read f (abs_ule u))"
  using assms(1,3)
proof (atomize (full), cases rule: packed_cases)
  case (clean v len)
  then show "le_iterate_val le f = map_option (map_sum (\<lambda>e. e) val_result) (vs_read f (abs_ule u)) \<and>
    le_iterate_is_del le f = map_option (map_sum (\<lambda>e. e) (\<lambda>v. v = Del)) (vs_read f (abs_ule u))"
    using rd_data_pack [of v len "[]"]
    by (simp add: le_iterate_val_def le_iterate_is_del_def vs_read_def val_result_def)
next
  case mvcc
  define c n a where "c = num_cuxrs u" and "n = num_puxrs u" and "a = uxrs u"
  define V where "V = val_slots c n"
  note w = wf_slots [OF assms(1), folded c_def n_def a_def] and h = mvcc_header [OF assms(1,2), folded c_def n_def]
  note cand = candidates_slots [of u, folded c_def n_def a_def, OF w(2), folded V_def]
  obtain tail where le: "le = [LE_MVCC] @ le_bytes 4 (of_nat c :: 32 word) @ [of_nat n] @
      pack_slots uxr_pack_txnid (id_slots c n) a @ pack_slots uxr_pack_length_and_bit V a @ pack_slots uxr_pack_data V a @ tail"
    and ok: "\<And>j. j \<in> set V \<Longrightarrow> uxr_ok (a j)"
    using mvcc_parts [OF assms(1,2)] unfolding mvcc c_def n_def a_def V_def by metis
  let ?num = "c + (if n \<noteq> 0 then 1 else 0)" and ?lens = "pack_slots uxr_pack_length_and_bit V a"
    and ?data = "pack_slots uxr_pack_data V a @ tail"
  have len: "length (id_slots c n) = ?num - 1" "length V = ?num"
    using slots_lengths(1) [OF w(2), of n] slots_lengths(2) [of c n] by (simp_all add: V_def)
  have ids: "skip ((?num - 1) * 8) (pack_slots uxr_pack_txnid (id_slots c n) a @ r) = Some r" for r
    using len(1) by (intro skip_append) (simp add: length_pack_txnid)
  have lens: "skip (?num * 4) (?lens @ r) = Some r" for r
    using len(2) by (intro skip_append) (simp add: length_pack_lb)
  have idx: "le_iterate_get_accepted_index (pack_slots uxr_pack_txnid (id_slots c n) a @ r) ?num f (n \<noteq> 0) =
      accept_pos f (snd (abs_ule u) \<noteq> []) 0 (map fst (butlast (vs_candidates (abs_ule u))))" for r
    using le_iterate_loop_pack [of f "n \<noteq> 0" 0 "id_slots c n" a r] len(1) cand(2,3)
    by (simp add: le_iterate_get_accepted_index_def)
  have at: "snd (vs_candidates (abs_ule u) ! i) = snd (abs_uxr (a (V ! i)))" if "i < ?num" for i
    using arg_cong [OF cand(1), of "\<lambda>x. x ! i"] that len(2) arg_cong [OF cand(1), of length] by simp
  show "le_iterate_val le f = map_option (map_sum (\<lambda>e. e) val_result) (vs_read f (abs_ule u)) \<and>
    le_iterate_is_del le f = map_option (map_sum (\<lambda>e. e) (\<lambda>v. v = Del)) (vs_read f (abs_ule u))"
  proof (cases "accept_pos f (snd (abs_ule u) \<noteq> []) 0 (map fst (butlast (vs_candidates (abs_ule u))))")
    case None
    then show ?thesis
      using idx h by (simp add: le_iterate_val_def le_iterate_is_del_def le LE_CLEAN_def LE_MVCC_def Let_def vs_read_def)
  next
    case (Some r)
    show ?thesis
    proof (cases r)
      case (Inl e)
      then show ?thesis
        using idx h Some by (simp add: le_iterate_val_def le_iterate_is_del_def le LE_CLEAN_def LE_MVCC_def Let_def vs_read_def)
    next
      case (Inr i)
      have i: "i < ?num"
      proof -
        have "length (map fst (butlast (vs_candidates (abs_ule u)))) = ?num - 1" using cand(2) len(1) by simp
        then show ?thesis using accept_pos_bound [of f _ 0 _ i] Some Inr w(2) by fastforce
      qed
      define y where "y = a (V ! i)"
      have yok: "uxr_ok y" using ok i len(2) by (simp add: y_def)
      have iV: "i < length V" using i len(2) by simp
      note at_i = slots_at [where V = V and a = a and i = i, OF ok iV, folded y_def] and lb = unpack_lb_size [OF yok]
      have k: "uxr_is_insert (set_length_and_bit y x) = uxr_is_insert y"
        "uxr_is_insert y \<Longrightarrow> u_vallen (set_length_and_bit y x) = u_vallen y" for x
        by (rule set_length_and_bit_kind)+
      have val: "le_iterate_val le f = Some (Inr (val_result (snd (abs_uxr y))))"
        using idx h Some Inr ids lens i at_i(1,2) len(2) lb(1,3) k rd_data_uxr [OF yok] val_result_abs [OF yok]
        by (cases "uxr_is_insert y"; cases "n = 0") (simp_all add: le_iterate_val_def le LE_CLEAN_def LE_MVCC_def Let_def)
      obtain lw where lw: "\<And>r. rd32 (uxr_pack_length_and_bit y @ r) = Some (lw, r)"
        "\<not> IS_INSERT lw \<longleftrightarrow> \<not> uxr_is_insert y"
        using rd32_length_and_bit [OF yok] by blast
      have del: "\<not> uxr_is_insert y \<longleftrightarrow> snd (abs_uxr y) = Del"
      proof -
        have "V ! i \<in> set V" using iV by simp
        then have "\<not> uxr_is_placeholder y"
          using w(5,6) unfolding V_def val_slots_def y_def by (auto split: if_splits)
        then show ?thesis using abs_uxr_kinds(2) [OF yok] yok by (auto simp: uxr_ok_def uxr_is_defs)
      qed
      have "le_iterate_is_del le f = Some (Inr (snd (abs_uxr y) = Del))"
        using idx h Some Inr ids i at_i(3) len(2) lw del
        by (simp add: le_iterate_is_del_def le LE_CLEAN_def LE_MVCC_def Let_def split del: if_split)
      then show ?thesis
        using Some Inr at [OF i] val by (simp add: vs_read_def y_def)
    qed
  qed
qed

subsection \<open>The accessors agree with the stack\<close>

lemma le_latest_pack:
  assumes "ule_wf u" "num_cuxrs u < 2 ^ 32" "le_pack u = Some (Some le)"
  shows "le_latest_is_del le = Some (snd (vs_innermost (abs_ule u)) = Del) \<and>
    le_latest_val_and_len le = Some (val_result (snd (vs_innermost (abs_ule u)))) \<and>
    le_latest_vallen le = Some (snd (val_result (snd (vs_innermost (abs_ule u))))) \<and>
    le_outermost_uncommitted_xid le = Some (case pstack u of [] \<Rightarrow> TXNID_NONE | r # _ \<Rightarrow> fst r)"
  using assms(1,3)
proof (cases rule: packed_cases)
  case (clean v len)
  then show ?thesis
    using rd_data_pack [of v len "[]"]
    by (simp add: le_latest_is_del_def le_latest_val_and_len_def le_latest_vallen_def le_outermost_uncommitted_xid_def
        val_result_def abs_ule_def LE_CLEAN_def LE_MVCC_def)
next
  case mvcc
  define c n a where "c = num_cuxrs u" and "n = num_puxrs u" and "a = uxrs u"
  define y where "y = a (c + n - 1)"
  note w = wf_slots [OF assms(1), folded c_def n_def a_def] and h = mvcc_header [OF assms(1,2), folded c_def n_def]
  obtain V where V: "val_slots c n = (c + n - 1) # V" using val_slots_hd [OF w(2)] by blast
  obtain tail where le: "le = [LE_MVCC] @ le_bytes 4 (of_nat c :: 32 word) @ [of_nat n] @
      pack_slots uxr_pack_txnid (id_slots c n) a @ uxr_pack_length_and_bit y @ pack_slots uxr_pack_length_and_bit V a @
      uxr_pack_data y @ tail"
    and ok: "uxr_ok y"
  proof -
    obtain t where "le = [LE_MVCC] @ le_bytes 4 (of_nat c :: 32 word) @ [of_nat n] @
      pack_slots uxr_pack_txnid (id_slots c n) a @ pack_slots uxr_pack_length_and_bit (val_slots c n) a @
      pack_slots uxr_pack_data (val_slots c n) a @ t" "\<And>j. j \<in> set (val_slots c n) \<Longrightarrow> uxr_ok (a j)"
      using mvcc_parts [OF assms(1,2)] unfolding mvcc c_def n_def a_def by metis
    then show ?thesis
      by (intro that [of "pack_slots uxr_pack_data V a @ t"]) (auto simp: V y_def pack_slots_def)
  qed
  have lV: "length (pack_slots uxr_pack_length_and_bit V a) = (c - 1 + (if n \<noteq> 0 then 1 else 0)) * 4"
    using slots_lengths(2) [of c n] V w(2) by (simp add: length_pack_lb)
  have in_y: "vs_innermost (abs_ule u) = abs_uxr y"
  proof -
    have "vs_innermost (abs_ule u) = last (map (\<lambda>i. abs_uxr (a i)) [0..<c + n])"
      using stacks_append [of u] by (simp add: abs_ule_def a_def c_def n_def)
    also have "\<dots> = abs_uxr y" using w(2) by (simp add: last_map y_def)
    finally show ?thesis .
  qed
  have "\<not> uxr_is_placeholder y" using w(2,5,6) by (cases "n = 0") (auto simp: y_def)
  then have del: "snd (abs_uxr y) = Del \<longleftrightarrow> \<not> uxr_is_insert y"
    using abs_uxr_kinds(2) [OF ok] ok by (auto simp: uxr_ok_def uxr_is_defs)
  have outer: "(case pstack u of [] \<Rightarrow> TXNID_NONE | r # _ \<Rightarrow> fst r) = (if n = 0 then TXNID_NONE else u_xid (a c))"
  proof (cases "n = 0")
    case False
    then have "[c..<c + n] = c # [Suc c..<c + n]" by (simp add: upt_conv_Cons)
    then show ?thesis using False by (simp add: pstack_def abs_uxr_def flip: n_def c_def a_def)
  qed (simp add: pstack_def flip: n_def)
  obtain q where "\<And>r. (if n = 0 then Some (pack_slots uxr_pack_txnid (id_slots c n) a @ r)
      else skip 8 (pack_slots uxr_pack_txnid (id_slots c n) a @ r)) = Some (q @ r)"
    "\<And>r. skip ((c - Suc 0) * 8) (q @ r) = Some r"
    using skip_ids [OF w(2), of n a] by metis
  then have ids: "n = 0 \<Longrightarrow> pack_slots uxr_pack_txnid (id_slots c n) a @ r = q @ r"
    "n \<noteq> 0 \<Longrightarrow> skip 8 (pack_slots uxr_pack_txnid (id_slots c n) a @ r) = Some (q @ r)"
    "skip ((c - Suc 0) * 8) (q @ r) = Some r" for r by (simp_all split: if_splits)
  note lb = unpack_lb_size [OF ok] and k = set_length_and_bit_kind [of y]
  have "le_latest_is_del le = Some (snd (abs_uxr y) = Del)"
    using h lb del ids
    by (cases "n = 0") (simp_all add: le_latest_is_del_def le LE_CLEAN_def LE_MVCC_def)
  moreover have "le_latest_val_and_len le = Some (val_result (snd (abs_uxr y)))"
    using h lb k lV rd_data_uxr [OF ok] val_result_abs [OF ok] ids
    by (cases "n = 0"; cases "uxr_is_insert y") (simp_all add: le_latest_val_and_len_def le LE_CLEAN_def LE_MVCC_def skip_append)
  moreover have "le_latest_vallen le = Some (snd (val_result (snd (abs_uxr y))))"
    using h lb k val_result_abs [OF ok] ids
    by (cases "n = 0"; cases "uxr_is_insert y") (simp_all add: le_latest_vallen_def le LE_CLEAN_def LE_MVCC_def)
  moreover have "le_outermost_uncommitted_xid le = Some (if n = 0 then TXNID_NONE else u_xid (a c))"
    using h unpack_txnid_pack
    by (cases "n = 0")
      (simp_all add: le_outermost_uncommitted_xid_def le LE_MVCC_def id_slots_def pack_slots_def set_xid_def)
  ultimately show ?thesis
    unfolding in_y outer by blast
qed

text \<open>
  C16. The fast accessors of a packed leaf entry agree with the record stack it stores: the
  recomputed size is the number of bytes, and the newest value, its length, whether it is a delete, and the
  outermost uncommitted transaction are those of the stack.
\<close>

theorem le_accessors_correct:
  assumes "ule_wf u" "num_cuxrs u < 2 ^ 32" "le_pack u = Some (Some le)"
  shows "leafentry_memsize le = Some (length le) \<and>
    le_latest_is_del le = Some (snd (vs_innermost (abs_ule u)) = Del) \<and>
    le_latest_val_and_len le = Some (val_result (snd (vs_innermost (abs_ule u)))) \<and>
    le_latest_vallen le = Some (snd (val_result (snd (vs_innermost (abs_ule u))))) \<and>
    le_outermost_uncommitted_xid le = Some (case pstack u of [] \<Rightarrow> TXNID_NONE | r # _ \<Rightarrow> fst r)"
  using leafentry_memsize_pack [OF assms] le_latest_pack [OF assms] by simp

lemma sample_packed:
  "num_cuxrs sample_overwritten < 2 ^ 32" "le_pack sample_overwritten = Some (Some (pack_mvcc sample_overwritten))"
  "pstack sample_overwritten = [(9, Ins [8])]"
proof -
  show "num_cuxrs sample_overwritten < 2 ^ 32" by (simp add: sample_overwritten_def)
  have "has_insert sample_overwritten"
    by (simp add: has_insert_def sample_overwritten_def uxr_is_defs upt_rec)
  moreover have n: "\<not> (num_cuxrs sample_overwritten = 1 \<and> num_puxrs sample_overwritten = 0)"
    by (simp add: sample_overwritten_def)
  ultimately show "le_pack sample_overwritten = Some (Some (pack_mvcc sample_overwritten))"
    using le_pack_returns [OF sample_overwritten_facts(2)] unfolding if_not_P [OF n] by simp
  show "pstack sample_overwritten = [(9, Ins [8])]"
    using sample_overwritten_facts(1) by (simp add: abs_ule_def)
qed

theorem le_accessors_correct_witness:
  "le_latest_val_and_len (pack_mvcc sample_overwritten) = Some (Some [8], 1) \<and>
   le_outermost_uncommitted_xid (pack_mvcc sample_overwritten) = Some 9"
  using le_accessors_correct [OF sample_overwritten_facts(2) sample_packed(1,2)] sample_packed(3)
    sample_overwritten_facts(1)
  by (simp add: val_result_def)

text \<open>
  C17. Reading a packed leaf entry through a callback finds the newest candidate that the callback
  accepts, the candidates being the innermost provisional value under the outermost transaction's id and the
  committed values from newest to oldest; the oldest needs no acceptance.
\<close>

theorem le_iterate_correct:
  assumes "ule_wf u" "num_cuxrs u < 2 ^ 32" "le_pack u = Some (Some le)"
  shows "le_iterate_val le f = map_option (map_sum (\<lambda>e. e) val_result) (vs_read f (abs_ule u)) \<and>
    le_iterate_is_del le f = map_option (map_sum (\<lambda>e. e) (\<lambda>v. v = Del)) (vs_read f (abs_ule u))"
  using le_iterate_val_pack [OF assms] by simp

theorem le_iterate_correct_witness:
  "le_iterate_val (pack_mvcc sample_overwritten) (\<lambda>x _. Some (Inr (x = 5))) = Some (Inr (Some [7], 1))"
  using le_iterate_correct [OF sample_overwritten_facts(2) sample_packed(1,2), of "\<lambda>x _. Some (Inr (x = 5))"]
  by (simp add: sample_overwritten_facts(1) vs_read_def val_result_def)

end
