(* ===== verification/Omt_Spec.thy ===== *)
theory Omt_Spec
  imports Ft_Prelude
begin

text \<open>
  What an order maintenance tree (\<open>src/util/omt.h\<close>) promises its clients, on the list of its
  values in index order. Each operation has the return code of the class: \<open>EINVAL\<close> for an index
  out of range, \<open>DB_NOTFOUND\<close> with the insertion index for a failed search, \<open>DB_KEYEXIST\<close>.

  A search takes a heaviside function: negative for the values before the searched place,
  zero on it, positive after it.
\<close>

definition omt_fetch :: "'a list \<Rightarrow> nat \<Rightarrow> ft_error + 'a" where
  "omt_fetch vs i = (if i < length vs then Inr (vs ! i) else Inl EINVAL)"

definition omt_insert_at :: "'a list \<Rightarrow> 'a \<Rightarrow> nat \<Rightarrow> ft_error + 'a list" where
  "omt_insert_at vs v i = (if i \<le> length vs then Inr (take i vs @ v # drop i vs) else Inl EINVAL)"

definition omt_set_at :: "'a list \<Rightarrow> 'a \<Rightarrow> nat \<Rightarrow> ft_error + 'a list" where
  "omt_set_at vs v i = (if i < length vs then Inr (vs[i := v]) else Inl EINVAL)"

definition omt_delete_at :: "'a list \<Rightarrow> nat \<Rightarrow> ft_error + 'a list" where
  "omt_delete_at vs i = (if i < length vs then Inr (take i vs @ drop (Suc i) vs) else Inl EINVAL)"

text \<open>\<open>Inl i\<close> is \<open>DB_NOTFOUND\<close> with \<open>*idxp = i\<close>; \<open>Inr (v, i)\<close> is success.\<close>

definition below_count :: "('a \<Rightarrow> int) \<Rightarrow> 'a list \<Rightarrow> nat" where
  "below_count h vs = length (takeWhile (\<lambda>v. h v < 0) vs)"

definition omt_find_zero :: "('a \<Rightarrow> int) \<Rightarrow> 'a list \<Rightarrow> nat + 'a \<times> nat" where
  "omt_find_zero h vs =
     (let i = below_count h vs in
      if i < length vs \<and> h (vs ! i) = 0 then Inr (vs ! i, i) else Inl i)"

definition omt_find_minus :: "('a \<Rightarrow> int) \<Rightarrow> 'a list \<Rightarrow> ('a \<times> nat) option" where
  "omt_find_minus h vs =
     (let i = below_count h vs in if i = 0 then None else Some (vs ! (i - 1), i - 1))"

definition omt_find_plus :: "('a \<Rightarrow> int) \<Rightarrow> 'a list \<Rightarrow> ('a \<times> nat) option" where
  "omt_find_plus h vs =
     (let i = length (takeWhile (\<lambda>v. h v \<le> 0) vs) in
      if i < length vs then Some (vs ! i, i) else None)"

definition omt_insert :: "('a \<Rightarrow> int) \<Rightarrow> 'a list \<Rightarrow> 'a \<Rightarrow> (ft_error \<times> nat) + 'a list \<times> nat" where
  "omt_insert h vs v =
     (case omt_find_zero h vs of
        Inr (_, i) \<Rightarrow> Inl (DB_KEYEXIST, i)
      | Inl i \<Rightarrow> (case omt_insert_at vs v i of Inl e \<Rightarrow> Inl (e, i) | Inr vs' \<Rightarrow> Inr (vs', i)))"

subsection \<open>Monotone searches\<close>

definition heavy :: "('a \<Rightarrow> int) \<Rightarrow> 'a list \<Rightarrow> bool" where
  "heavy h vs \<longleftrightarrow> (\<forall>i j. i \<le> j \<and> j < length vs \<longrightarrow> sgn (h (vs ! i)) \<le> sgn (h (vs ! j)))"

lemma below_count_le: "below_count h vs \<le> length vs"
  by (simp add: below_count_def length_takeWhile_le)

lemma below_count_below: "i < below_count h vs \<Longrightarrow> h (vs ! i) < 0"
  by (metis below_count_def nth_mem set_takeWhileD takeWhile_nth)

lemma below_count_stop: "below_count h vs < length vs \<Longrightarrow> 0 \<le> h (vs ! below_count h vs)"
  by (metis below_count_def linorder_not_less nth_length_takeWhile)

lemma below_count_unique:
  assumes "n \<le> length vs" "\<And>i. i < n \<Longrightarrow> h (vs ! i) < 0" "n < length vs \<Longrightarrow> 0 \<le> h (vs ! n)"
  shows "below_count h vs = n"
proof (rule ccontr)
  assume "below_count h vs \<noteq> n"
  then consider "below_count h vs < n" | "n < below_count h vs" by linarith
  then show False
    using assms below_count_stop [of h vs] below_count_below [of n h vs] below_count_le [of h vs]
    by cases fastforce+
qed

text \<open>Searching by a strictly increasing key.\<close>

definition key_cmp :: "('a \<Rightarrow> 'k::linorder) \<Rightarrow> 'k \<Rightarrow> 'a \<Rightarrow> int" where
  "key_cmp key k v = (if key v < k then - 1 else if key v > k then 1 else 0)"

lemma key_cmp_sign [simp]:
  "key_cmp key k v < 0 \<longleftrightarrow> key v < k" "key_cmp key k v = 0 \<longleftrightarrow> key v = k"
  "0 < key_cmp key k v \<longleftrightarrow> k < key v" "0 \<le> key_cmp key k v \<longleftrightarrow> k \<le> key v"
  by (auto simp: key_cmp_def)

definition sorted_by :: "('a \<Rightarrow> 'k::linorder) \<Rightarrow> 'a list \<Rightarrow> bool" where
  "sorted_by key vs \<longleftrightarrow> sorted_wrt (\<lambda>a b. key a < key b) vs"

lemma sorted_by_simps [simp]:
  "sorted_by key []"
  "sorted_by key (v # vs) \<longleftrightarrow> (\<forall>w\<in>set vs. key v < key w) \<and> sorted_by key vs"
  "sorted_by key (vs @ ws) \<longleftrightarrow>
     sorted_by key vs \<and> sorted_by key ws \<and> (\<forall>v\<in>set vs. \<forall>w\<in>set ws. key v < key w)"
  by (auto simp: sorted_by_def sorted_wrt_append)

lemma below_count_sorted_by:
  "sorted_by key vs \<Longrightarrow> takeWhile (\<lambda>v. key_cmp key k v < 0) vs = filter (\<lambda>v. key v < k) vs"
proof (induction vs)
  case (Cons a vs)
  then have "filter (\<lambda>v. key v < k) vs = []" if "\<not> key a < k"
    using that by (fastforce simp: filter_empty_conv)
  then show ?case using Cons by simp
qed simp

lemma sorted_by_split:
  assumes "sorted_by key vs" "v \<in> set vs" "key v = k"
  obtains us ws where "vs = us @ v # ws" "below_count (key_cmp key k) vs = length us"
    "\<forall>u\<in>set us. key u < k" "\<forall>w\<in>set ws. k < key w"
proof -
  obtain us ws where s: "vs = us @ v # ws" using assms(2) by (meson split_list)
  then have o: "\<forall>u\<in>set us. key u < k" "\<forall>w\<in>set ws. k < key w" using assms by auto
  have "below_count (key_cmp key k) vs = length us"
    using s o assms(3) by (intro below_count_unique) (auto simp: nth_append)
  then show ?thesis using that s o by blast
qed

text \<open>A search by key in a strictly sorted list finds exactly the element with that key.\<close>

lemma omt_find_zero_sorted:
  assumes "sorted_by key vs"
  shows "omt_find_zero (key_cmp key k) vs = Inr (v, i) \<longleftrightarrow> i < length vs \<and> vs ! i = v \<and> key v = k"
proof
  assume "omt_find_zero (key_cmp key k) vs = Inr (v, i)"
  then show "i < length vs \<and> vs ! i = v \<and> key v = k"
    by (auto simp: omt_find_zero_def Let_def split: if_splits)
next
  assume a: "i < length vs \<and> vs ! i = v \<and> key v = k"
  have "below_count (key_cmp key k) vs = i"
    using a assms by (intro below_count_unique) (auto simp: sorted_by_def sorted_wrt_iff_nth_less)
  then show "omt_find_zero (key_cmp key k) vs = Inr (v, i)"
    using a by (simp add: omt_find_zero_def)
qed

lemma omt_find_zero_missing:
  assumes "sorted_by key vs"
  shows "(\<exists>i. omt_find_zero (key_cmp key k) vs = Inl i) \<longleftrightarrow> k \<notin> key ` set vs"
proof (cases "omt_find_zero (key_cmp key k) vs")
  case (Inr p)
  then obtain v i where "p = (v, i)" "i < length vs" "vs ! i = v" "key v = k"
    using omt_find_zero_sorted [OF assms] by (cases p) auto
  then show ?thesis using Inr by (auto simp: image_iff)
next
  case (Inl i)
  have "k \<notin> key ` set vs"
  proof
    assume "k \<in> key ` set vs"
    then obtain j where "j < length vs" "key (vs ! j) = k" by (auto simp: in_set_conv_nth)
    then show False using Inl omt_find_zero_sorted [OF assms, of k "vs ! j" j] by simp
  qed
  then show ?thesis using Inl by simp
qed

lemma omt_find_minus_sorted:
  assumes "sorted_by key vs" "omt_find_minus (key_cmp key k) vs = Some (v, i)"
  shows "v \<in> set vs \<and> key v < k \<and> (\<forall>w\<in>set vs. key w < k \<longrightarrow> key w \<le> key v)"
proof -
  let ?us = "takeWhile (\<lambda>v. key_cmp key k v < 0) vs"
  have us: "?us = filter (\<lambda>v. key v < k) vs" using assms(1) by (rule below_count_sorted_by)
  have ne: "?us \<noteq> []" and v: "v = vs ! (length ?us - 1)"
    using assms(2) by (auto simp: omt_find_minus_def below_count_def Let_def split: if_splits)
  then have v: "v = last ?us" by (metis diff_less last_conv_nth length_greater_0_conv takeWhile_nth zero_less_one)
  have "sorted_by key ?us"
    using assms(1) us by (simp add: sorted_by_def sorted_wrt_filter)
  then have mx: "\<forall>w\<in>set ?us. key w \<le> key v"
    using ne v by (cases ?us rule: rev_cases) (auto intro: less_imp_le)
  moreover have "v \<in> set ?us" using ne v by simp
  ultimately show ?thesis unfolding us by auto
qed

lemma omt_find_minus_none:
  assumes "sorted_by key vs"
  shows "omt_find_minus (key_cmp key k) vs = None \<longleftrightarrow> (\<forall>w\<in>set vs. k \<le> key w)"
  using below_count_sorted_by [OF assms, of k]
  by (auto simp: omt_find_minus_def below_count_def Let_def filter_empty_conv linorder_not_less)

text \<open>An insertion of a new key keeps the list sorted.\<close>

lemma omt_insert_sorted:
  assumes "sorted_by key vs" "key v \<notin> key ` set vs"
  obtains i vs' where "omt_insert (key_cmp key (key v)) vs v = Inr (vs', i)"
    "sorted_by key vs'" "set vs' = insert v (set vs)"
proof -
  let ?h = "key_cmp key (key v)" and ?i = "below_count (key_cmp key (key v)) vs"
  have i: "?i \<le> length vs" by (rule below_count_le)
  have "omt_find_zero ?h vs = Inl ?i"
    using omt_find_zero_missing [OF assms(1), of "key v"] assms(2)
    by (auto simp: omt_find_zero_def Let_def split: if_splits)
  then have r: "omt_insert ?h vs v = Inr (take ?i vs @ v # drop ?i vs, ?i)"
    using i by (simp add: omt_insert_def omt_insert_at_def)
  have lo: "key u < key v" if "u \<in> set (take ?i vs)" for u
    using that below_count_below [of _ ?h vs] by (auto simp: in_set_conv_nth)
  have hi: "key v < key u" if u: "u \<in> set (drop ?i vs)" for u
  proof -
    obtain j where j: "?i + j < length vs" "u = vs ! (?i + j)"
      using u by (auto simp: in_set_conv_nth less_diff_conv add.commute)
    then have "key v \<le> key (vs ! ?i)" using below_count_stop [of ?h vs] by auto
    moreover have "key (vs ! ?i) \<le> key u"
      using j assms(1) by (cases "j = 0") (auto simp: sorted_by_def sorted_wrt_iff_nth_less intro: less_imp_le)
    moreover have "key u \<noteq> key v" using assms(2) j by (metis image_eqI nth_mem)
    ultimately show ?thesis by simp
  qed
  have "sorted_by key (take ?i vs @ drop ?i vs)" using assms(1) by simp
  then have s: "sorted_by key (take ?i vs @ v # drop ?i vs)"
    using lo hi by (simp only: sorted_by_simps) auto
  have "set (take ?i vs @ v # drop ?i vs) = insert v (set vs)"
    by (metis append_take_drop_id insert_is_Un list.simps(15) set_append sup_left_commute)
  then show ?thesis using that r s by blast
qed

end
