(* ===== verification/Txn_Manager.thy ===== *)
theory Txn_Manager
  imports Xids Omt_Spec
begin

text \<open>
  The transaction manager (\<open>src/ft/txn/txn_manager.cc\<close>), the child manager
  (\<open>src/ft/txn/txn_child_manager.cc\<close>) and the begin/complete functions of \<open>src/ft/txn/txn.cc\<close>.

  A \<open>TOKUTXN\<close> is a pointer: the model keeps the transaction structs in a store \<open>txns\<close> indexed by
  handles, and the doubly linked list of snapshots is threaded through that store exactly as in
  the code. A live list (\<open>xid_omt_t *\<close>) is a pointer too: \<open>xid_lists\<close> maps the addresses of
  the allocated lists to their contents, a freed address is not in its domain, and using one is
  the value \<open>None\<close>. The OMTs are the lists of their values with the operations of \<open>Omt_Spec\<close>. The
  manager mutex makes every function atomic. Id arithmetic is on 64-bit words.
\<close>

datatype TXN_SNAPSHOT_TYPE =
    TXN_SNAPSHOT_NONE | TXN_SNAPSHOT_ROOT | TXN_SNAPSHOT_CHILD | TXN_COPIES_SNAPSHOT

type_synonym TOKUTXN = nat

record tokutxn =
  parent_id64 :: TXNID
  child_id64 :: TXNID
  snapshot_txnid64 :: TXNID
  snapshot_type :: TXN_SNAPSHOT_TYPE
  txn_parent :: "TOKUTXN option"
  txn_child :: "TOKUTXN option"
  child_manager :: TOKUTXN
  m_last_xid :: TXNID
  live_root_txn_list :: "nat option"
  txn_xids :: XIDS
  snapshot_next :: "TOKUTXN option"
  snapshot_prev :: "TOKUTXN option"
  begin_was_logged :: bool
  declared_read_only :: bool

record referenced_xid_tuple =
  begin_id :: TXNID
  end_id :: TXNID
  references :: nat

record txn_manager =
  txns :: "TOKUTXN \<Rightarrow> tokutxn"
  xid_lists :: "nat \<rightharpoonup> TXNID list"
  next_list :: nat
  live_root_txns :: "TOKUTXN list"
  live_root_ids :: "TXNID list"
  snapshot_head :: "TOKUTXN option"
  snapshot_tail :: "TOKUTXN option"
  num_snapshots :: nat
  referenced_xids :: "referenced_xid_tuple list"
  last_xid :: TXNID
  last_xid_seen_for_recover :: TXNID
  last_calculated_oldest_referenced_xid :: TXNID

definition upd_txn :: "TOKUTXN \<Rightarrow> (tokutxn \<Rightarrow> tokutxn) \<Rightarrow> txn_manager \<Rightarrow> txn_manager" where
  "upd_txn t f m = m\<lparr>txns := (txns m)(t := f (txns m t))\<rparr>"

text \<open>The live list a transaction points to; \<open>None\<close> for a null or dangling pointer.\<close>

definition live_list :: "txn_manager \<Rightarrow> TOKUTXN \<Rightarrow> TXNID list option" where
  "live_list m t = Option.bind (live_root_txn_list (txns m t)) (xid_lists m)"

subsection \<open>Heaviside functions\<close>

definition toku_find_xid_by_xid :: "TXNID \<Rightarrow> TXNID \<Rightarrow> int" where
  "toku_find_xid_by_xid xid xidfind = (if xid < xidfind then - 1 else if xid > xidfind then 1 else 0)"

definition find_by_xid :: "txn_manager \<Rightarrow> TOKUTXN \<Rightarrow> TXNID \<Rightarrow> int" where
  "find_by_xid m txn txnidfind =
     (if parent_id64 (txns m txn) < txnidfind then - 1
      else if parent_id64 (txns m txn) > txnidfind then 1 else 0)"

definition find_xid :: "txn_manager \<Rightarrow> TOKUTXN \<Rightarrow> TOKUTXN \<Rightarrow> int" where
  "find_xid m txn txnfind =
     (if parent_id64 (txns m txn) < parent_id64 (txns m txnfind) then - 1
      else if parent_id64 (txns m txn) > parent_id64 (txns m txnfind) then 1 else 0)"

definition find_tuple_by_xid :: "referenced_xid_tuple \<Rightarrow> TXNID \<Rightarrow> int" where
  "find_tuple_by_xid t xidfind =
     (if begin_id t < xidfind then - 1 else if begin_id t > xidfind then 1 else 0)"

subsection \<open>Snapshot kinds\<close>

definition txn_records_snapshot :: "TXN_SNAPSHOT_TYPE \<Rightarrow> TOKUTXN option \<Rightarrow> bool" where
  "txn_records_snapshot ty parent =
     (if ty = TXN_COPIES_SNAPSHOT then False
      else ty \<noteq> TXN_SNAPSHOT_NONE \<and> (parent = None \<or> ty = TXN_SNAPSHOT_CHILD))"

definition txn_copies_snapshot :: "TXN_SNAPSHOT_TYPE \<Rightarrow> TOKUTXN option \<Rightarrow> bool" where
  "txn_copies_snapshot ty parent = (ty = TXN_COPIES_SNAPSHOT \<or> txn_records_snapshot ty parent)"

definition txn_declared_read_only :: "tokutxn \<Rightarrow> bool" where
  "txn_declared_read_only t = declared_read_only t"

definition toku_txn_is_read_only :: "tokutxn \<Rightarrow> bool" where
  "toku_txn_is_read_only t = (\<not> begin_was_logged t)"

subsection \<open>Creation and the oldest referenced id\<close>

definition toku_txn_manager_init :: "(TOKUTXN \<Rightarrow> tokutxn) \<Rightarrow> txn_manager" where
  "toku_txn_manager_init store =
     \<lparr>txns = store, xid_lists = Map.empty, next_list = 0, live_root_txns = [], live_root_ids = [],
      snapshot_head = None, snapshot_tail = None, num_snapshots = 0, referenced_xids = [],
      last_xid = 0, last_xid_seen_for_recover = TXNID_NONE,
      last_calculated_oldest_referenced_xid = TXNID_NONE\<rparr>"

definition toku_txn_manager_destroy :: "txn_manager \<Rightarrow> unit option" where
  "toku_txn_manager_destroy m = do {
     ensure (length (live_root_txns m) = 0);
     ensure (length (live_root_ids m) = 0);
     ensure (snapshot_head m = None);
     ensure (length (referenced_xids m) = 0)
   }"

definition toku_txn_manager_get_oldest_living_xid :: "txn_manager \<Rightarrow> TXNID" where
  "toku_txn_manager_get_oldest_living_xid m =
     (case omt_fetch (live_root_txns m) 0 of
        Inl _ \<Rightarrow> TXNID_NONE
      | Inr rtxn \<Rightarrow> parent_id64 (txns m rtxn))"

definition toku_txn_manager_get_oldest_referenced_xid_estimate :: "txn_manager \<Rightarrow> TXNID" where
  "toku_txn_manager_get_oldest_referenced_xid_estimate m = last_calculated_oldest_referenced_xid m"

definition setup_live_root_txn_list :: "TXNID list \<Rightarrow> TXNID list" where
  "setup_live_root_txn_list live_root_txnid = (if length live_root_txnid > 0 then live_root_txnid else [])"

definition max_xid :: "TXNID \<Rightarrow> TXNID \<Rightarrow> TXNID" where
  "max_xid a b = (if a < b then b else a)"

definition set_oldest_referenced_xid :: "txn_manager \<Rightarrow> txn_manager option" where
  "set_oldest_referenced_xid m = do {
     let oldest = TXNID_MAX;
     let oldest = (case omt_fetch (live_root_ids m) 0 of Inr x \<Rightarrow> x | Inl _ \<Rightarrow> oldest);
     let oldest = (case omt_fetch (referenced_xids m) 0 of
         Inr tuple \<Rightarrow> (if begin_id tuple < oldest then begin_id tuple else oldest)
       | Inl _ \<Rightarrow> oldest);
     let oldest = (case snapshot_head m of
         Some h \<Rightarrow> (if snapshot_txnid64 (txns m h) < oldest then snapshot_txnid64 (txns m h) else oldest)
       | None \<Rightarrow> oldest);
     let oldest = (if last_xid m < oldest then last_xid m else oldest);
     ensure (oldest \<noteq> TXNID_MAX);
     Some (m\<lparr>last_calculated_oldest_referenced_xid := oldest\<rparr>)
   }"

subsection \<open>Snapshots\<close>

definition txn_manager_create_snapshot_unlocked :: "txn_manager \<Rightarrow> TOKUTXN \<Rightarrow> txn_manager option" where
  "txn_manager_create_snapshot_unlocked m txn = do {
     let m = m\<lparr>last_xid := last_xid m + 1\<rparr>;
     let m = upd_txn txn (\<lambda>t. t\<lparr>snapshot_txnid64 := last_xid m\<rparr>) m;
     m \<leftarrow> (case snapshot_head m of
         None \<Rightarrow> do {
           ensure (snapshot_tail m = None);
           Some (m\<lparr>snapshot_head := Some txn, snapshot_tail := Some txn\<rparr>)
         }
       | Some _ \<Rightarrow> do {
           tail \<leftarrow> snapshot_tail m;
           let m = upd_txn tail (\<lambda>t. t\<lparr>snapshot_next := Some txn\<rparr>) m;
           let m = upd_txn txn (\<lambda>t. t\<lparr>snapshot_prev := Some tail\<rparr>) m;
           Some (m\<lparr>snapshot_tail := Some txn\<rparr>)
         });
     Some (m\<lparr>num_snapshots := num_snapshots m + 1\<rparr>)
   }"

text \<open>Closing a snapshot, first variant: walk its live list and look each id up.\<close>

definition referenced_xids_note_snapshot_txn_end_iter ::
  "TXNID \<Rightarrow> referenced_xid_tuple list \<Rightarrow> referenced_xid_tuple list option" where
  "referenced_xids_note_snapshot_txn_end_iter live_xid rx =
     (case omt_find_zero (\<lambda>t. find_tuple_by_xid t live_xid) rx of
        Inl _ \<Rightarrow> Some rx
      | Inr (tuple, idx) \<Rightarrow> do {
          ensure (references tuple > 0);
          let tuple = tuple\<lparr>references := references tuple - 1\<rparr>;
          if references tuple = 0
          then (case omt_delete_at rx idx of Inl _ \<Rightarrow> None | Inr rx' \<Rightarrow> Some rx')
          else Some (rx[idx := tuple])
        })"

fun note_snapshot_txn_end_by_ref_xids ::
  "TXNID list \<Rightarrow> referenced_xid_tuple list \<Rightarrow> referenced_xid_tuple list option" where
  "note_snapshot_txn_end_by_ref_xids [] rx = Some rx"
| "note_snapshot_txn_end_by_ref_xids (x # xs) rx = do {
     rx \<leftarrow> referenced_xids_note_snapshot_txn_end_iter x rx;
     note_snapshot_txn_end_by_ref_xids xs rx
   }"

text \<open>
  Second variant: walk the tuples, look each one up in the live list, decrement in place and
  collect the indexes of the tuples to delete; then delete them from the highest index down.
\<close>

fun note_snapshot_txn_end_by_txn_live_list_iter ::
  "TXNID list \<Rightarrow> nat \<Rightarrow> referenced_xid_tuple list \<Rightarrow> (referenced_xid_tuple list \<times> nat list) option" where
  "note_snapshot_txn_end_by_txn_live_list_iter live index [] = Some ([], [])"
| "note_snapshot_txn_end_by_txn_live_list_iter live index (tuple # rx) =
     (case omt_find_zero (\<lambda>x. toku_find_xid_by_xid x (begin_id tuple)) live of
        Inl _ \<Rightarrow> do {
          (rx', del) \<leftarrow> note_snapshot_txn_end_by_txn_live_list_iter live (index + 1) rx;
          Some (tuple # rx', del)
        }
      | Inr (txnid, idx) \<Rightarrow> do {
          ensure (txnid = begin_id tuple);
          ensure (references tuple > 0);
          let tuple = tuple\<lparr>references := references tuple - 1\<rparr>;
          (rx', del) \<leftarrow> note_snapshot_txn_end_by_txn_live_list_iter live (index + 1) rx;
          Some (tuple # rx', if references tuple = 0 then index # del else del)
        })"

fun delete_indexes :: "nat list \<Rightarrow> 'a list \<Rightarrow> 'a list" where
  "delete_indexes [] vs = vs"
| "delete_indexes (i # is) vs =
     delete_indexes is (case omt_delete_at vs i of Inl _ \<Rightarrow> vs | Inr vs' \<Rightarrow> vs')"

definition note_snapshot_txn_end_by_txn_live_list ::
  "TXNID list \<Rightarrow> referenced_xid_tuple list \<Rightarrow> referenced_xid_tuple list option" where
  "note_snapshot_txn_end_by_txn_live_list live rx = do {
     (rx', del) \<leftarrow> note_snapshot_txn_end_by_txn_live_list_iter live 0 rx;
     Some (delete_indexes (rev del) rx')
   }"

definition txn_manager_remove_snapshot_unlocked :: "TOKUTXN \<Rightarrow> txn_manager \<Rightarrow> txn_manager option" where
  "txn_manager_remove_snapshot_unlocked txn m = do {
     let next = snapshot_next (txns m txn);
     let prev = snapshot_prev (txns m txn);
     let m = (if snapshot_head m = Some txn then m\<lparr>snapshot_head := next\<rparr> else m);
     let m = (if snapshot_tail m = Some txn then m\<lparr>snapshot_tail := prev\<rparr> else m);
     let m = (case next of Some n \<Rightarrow> upd_txn n (\<lambda>t. t\<lparr>snapshot_prev := prev\<rparr>) m | None \<Rightarrow> m);
     let m = (case prev of Some p \<Rightarrow> upd_txn p (\<lambda>t. t\<lparr>snapshot_next := next\<rparr>) m | None \<Rightarrow> m);
     let m = m\<lparr>num_snapshots := num_snapshots m - 1\<rparr>;
     let ref_xids_size = length (referenced_xids m);
     live \<leftarrow> live_list m txn;
     if ref_xids_size > 0 \<and> length live > 0 then do {
       rx \<leftarrow> (if length live > ref_xids_size \<and> ref_xids_size < 2000
              then note_snapshot_txn_end_by_txn_live_list live (referenced_xids m)
              else note_snapshot_txn_end_by_ref_xids live (referenced_xids m));
       Some (m\<lparr>referenced_xids := rx\<rparr>)
     }
     else Some m
   }"

subsection \<open>Allocation of live lists\<close>

text \<open>\<open>XMALLOC\<close> of a list object, and \<open>destroy\<close> followed by \<open>toku_free\<close>.\<close>

definition malloc_list :: "TOKUTXN \<Rightarrow> txn_manager \<Rightarrow> txn_manager" where
  "malloc_list txn m =
     (upd_txn txn (\<lambda>t. t\<lparr>live_root_txn_list := Some (next_list m)\<rparr>) m)
       \<lparr>xid_lists := (xid_lists m)(next_list m \<mapsto> []), next_list := next_list m + 1\<rparr>"

definition store_list :: "TOKUTXN \<Rightarrow> TXNID list \<Rightarrow> txn_manager \<Rightarrow> txn_manager option" where
  "store_list txn xs m = do {
     a \<leftarrow> live_root_txn_list (txns m txn);
     ensure (xid_lists m a \<noteq> None);
     Some (m\<lparr>xid_lists := (xid_lists m)(a \<mapsto> xs)\<rparr>)
   }"

definition free_list :: "TOKUTXN \<Rightarrow> txn_manager \<Rightarrow> txn_manager option" where
  "free_list txn m = do {
     a \<leftarrow> live_root_txn_list (txns m txn);
     ensure (xid_lists m a \<noteq> None);
     Some (m\<lparr>xid_lists := (xid_lists m)(a := None)\<rparr>)
   }"

subsection \<open>Child snapshots\<close>

definition inherit_snapshot_from_parent :: "TOKUTXN \<Rightarrow> txn_manager \<Rightarrow> txn_manager" where
  "inherit_snapshot_from_parent child m =
     (case txn_parent (txns m child) of
        Some p \<Rightarrow> upd_txn child (\<lambda>t. t\<lparr>snapshot_txnid64 := snapshot_txnid64 (txns m p),
                                 live_root_txn_list := live_root_txn_list (txns m p)\<rparr>) m
      | None \<Rightarrow> m)"

definition toku_txn_manager_handle_snapshot_create_for_child_txn ::
  "TOKUTXN \<Rightarrow> txn_manager \<Rightarrow> TXN_SNAPSHOT_TYPE \<Rightarrow> txn_manager option" where
  "toku_txn_manager_handle_snapshot_create_for_child_txn txn m ty = do {
     ensure (txn_parent (txns m txn) \<noteq> None);
     let copies_snapshot = txn_copies_snapshot ty (txn_parent (txns m txn));
     let records_snapshot = txn_records_snapshot ty (txn_parent (txns m txn));
     ensure (\<not> records_snapshot \<or> copies_snapshot);
     m \<leftarrow> (if records_snapshot then do {
             ensure (live_root_txn_list (txns m txn) = None);
             txn_manager_create_snapshot_unlocked (malloc_list txn m) txn
           }
           else Some (inherit_snapshot_from_parent txn m));
     if copies_snapshot then store_list txn (setup_live_root_txn_list (live_root_ids m)) m
     else Some m
   }"

definition toku_txn_manager_handle_snapshot_destroy_for_child_txn ::
  "TOKUTXN \<Rightarrow> txn_manager \<Rightarrow> TXN_SNAPSHOT_TYPE \<Rightarrow> txn_manager option" where
  "toku_txn_manager_handle_snapshot_destroy_for_child_txn txn m ty = do {
     ensure (txn_parent (txns m txn) \<noteq> None);
     let copies_snapshot = txn_copies_snapshot ty (txn_parent (txns m txn));
     let records_snapshot = txn_records_snapshot ty (txn_parent (txns m txn));
     m \<leftarrow> (if records_snapshot then txn_manager_remove_snapshot_unlocked txn m else Some m);
     if copies_snapshot then free_list txn m else Some m
   }"

subsection \<open>Starting and finishing root transactions\<close>

definition toku_txn_update_xids_in_txn :: "TOKUTXN \<Rightarrow> TXNID \<Rightarrow> txn_manager \<Rightarrow> txn_manager option" where
  "toku_txn_update_xids_in_txn txn xid m = do {
     ensure (parent_id64 (txns m txn) = TXNID_NONE);
     ensure (child_id64 (txns m txn) = TXNID_NONE);
     Some (upd_txn txn (\<lambda>t. t\<lparr>parent_id64 := xid, child_id64 := TXNID_NONE\<rparr>) m)
   }"

definition insert_live_root :: "TOKUTXN \<Rightarrow> nat \<Rightarrow> txn_manager \<Rightarrow> txn_manager option" where
  "insert_live_root txn idx m =
     (case omt_insert_at (live_root_txns m) txn idx of
        Inl _ \<Rightarrow> None
      | Inr ts \<Rightarrow>
          (case omt_insert_at (live_root_ids m) (parent_id64 (txns m txn)) idx of
             Inl _ \<Rightarrow> None
           | Inr ids \<Rightarrow> Some (m\<lparr>live_root_txns := ts, live_root_ids := ids\<rparr>)))"

definition toku_txn_manager_start_txn_for_recovery ::
  "TOKUTXN \<Rightarrow> txn_manager \<Rightarrow> TXNID \<Rightarrow> txn_manager option" where
  "toku_txn_manager_start_txn_for_recovery txn m xid = do {
     let m = m\<lparr>last_xid := max_xid (last_xid m) xid\<rparr>;
     m \<leftarrow> toku_txn_update_xids_in_txn txn xid m;
     (case omt_find_zero (\<lambda>t. find_xid m t txn) (live_root_txns m) of
        Inr _ \<Rightarrow> None
      | Inl idx \<Rightarrow> insert_live_root txn idx m)
   }"

definition toku_txn_manager_start_txn ::
  "TOKUTXN \<Rightarrow> txn_manager \<Rightarrow> TXN_SNAPSHOT_TYPE \<Rightarrow> bool \<Rightarrow> txn_manager option" where
  "toku_txn_manager_start_txn txn m ty read_only = do {
     let copies_snapshot = txn_copies_snapshot ty None;
     let records_snapshot = txn_records_snapshot ty None;
     ensure (\<not> records_snapshot \<or> copies_snapshot);
     m \<leftarrow> (if copies_snapshot then do {
             ensure (live_root_txn_list (txns m txn) = None);
             Some (malloc_list txn m)
           }
           else Some m);
     let m = m\<lparr>last_xid := last_xid m + 1\<rparr>;
     m \<leftarrow> toku_txn_update_xids_in_txn txn (last_xid m) m;
     m \<leftarrow> (if \<not> read_only then insert_live_root txn (length (live_root_txns m)) m else Some m);
     m \<leftarrow> set_oldest_referenced_xid m;
     m \<leftarrow> (if records_snapshot then txn_manager_create_snapshot_unlocked m txn else Some m);
     if copies_snapshot then store_list txn (setup_live_root_txn_list (live_root_ids m)) m
     else Some m
   }"

definition toku_get_youngest_live_list_txnid_for ::
  "TXNID \<Rightarrow> TXNID list \<Rightarrow> referenced_xid_tuple list \<Rightarrow> TXNID option" where
  "toku_get_youngest_live_list_txnid_for xc snapshot_txnids rx =
     (case omt_find_zero (\<lambda>t. find_tuple_by_xid t xc) rx of
        Inl _ \<Rightarrow> Some TXNID_NONE
      | Inr (tuple, _) \<Rightarrow>
          (case omt_find_minus (\<lambda>x. toku_find_xid_by_xid x (end_id tuple)) snapshot_txnids of
             None \<Rightarrow> Some TXNID_NONE
           | Some (live, _) \<Rightarrow> do {
               ensure (live < end_id tuple);
               Some (if live > begin_id tuple then live else TXNID_NONE)
             }))"

text \<open>The walk over the snapshot list, from the tail, that counts the newer snapshots.\<close>

partial_function (option) count_newer_snapshots ::
  "txn_manager \<Rightarrow> TXNID \<Rightarrow> TOKUTXN option \<Rightarrow> nat \<Rightarrow> nat option" where
  "count_newer_snapshots m xid cur n =
     (case cur of
        None \<Rightarrow> Some n
      | Some c \<Rightarrow>
          if snapshot_txnid64 (txns m c) > xid
          then count_newer_snapshots m xid (snapshot_prev (txns m c)) (n + 1)
          else Some n)"

definition toku_txn_manager_finish_txn :: "bool \<Rightarrow> txn_manager \<Rightarrow> TOKUTXN \<Rightarrow> txn_manager option" where
  "toku_txn_manager_finish_txn garbage_collection_debug m txn = do {
     ensure (txn_parent (txns m txn) = None);
     let records_snapshot = txn_records_snapshot (snapshot_type (txns m txn)) None;
     m \<leftarrow> (if records_snapshot then txn_manager_remove_snapshot_unlocked txn m else Some m);
     m \<leftarrow> (if \<not> txn_declared_read_only (txns m txn) then
             (case omt_find_zero (\<lambda>t. find_xid m t txn) (live_root_txns m) of
                Inl _ \<Rightarrow> None
              | Inr (txnagain, idx) \<Rightarrow> do {
                  ensure (txn = txnagain);
                  let xid = parent_id64 (txns m txn);
                  m \<leftarrow> (case omt_delete_at (live_root_txns m) idx of
                      Inl _ \<Rightarrow> None | Inr ts \<Rightarrow> Some (m\<lparr>live_root_txns := ts\<rparr>));
                  m \<leftarrow> (case omt_delete_at (live_root_ids m) idx of
                      Inl _ \<Rightarrow> None | Inr ids \<Rightarrow> Some (m\<lparr>live_root_ids := ids\<rparr>));
                  if \<not> toku_txn_is_read_only (txns m txn) \<or> garbage_collection_debug then do {
                    num_references \<leftarrow> count_newer_snapshots m xid (snapshot_tail m) 0;
                    if num_references > 0 then do {
                      let m = m\<lparr>last_xid := last_xid m + 1\<rparr>;
                      (case omt_insert (\<lambda>t. find_tuple_by_xid t xid) (referenced_xids m)
                          \<lparr>begin_id = xid, end_id = last_xid m, references = num_references\<rparr> of
                         Inl _ \<Rightarrow> None
                       | Inr (rx, _) \<Rightarrow> Some (m\<lparr>referenced_xids := rx\<rparr>))
                    }
                    else Some m
                  }
                  else Some m
                })
           else Some m);
     if live_root_txn_list (txns m txn) \<noteq> None then free_list txn m else Some m
   }"

definition snapshot_xid_list :: "txn_manager \<Rightarrow> TOKUTXN list \<Rightarrow> TXNID list" where
  "snapshot_xid_list m ts = map (\<lambda>t. snapshot_txnid64 (txns m t)) ts"

text \<open>The walk from the head that copies the snapshot ids into an array.\<close>

partial_function (option) snapshot_chain ::
  "txn_manager \<Rightarrow> TOKUTXN option \<Rightarrow> TOKUTXN list option" where
  "snapshot_chain m cur =
     (case cur of
        None \<Rightarrow> Some []
      | Some c \<Rightarrow> do {
          rest \<leftarrow> snapshot_chain m (snapshot_next (txns m c));
          Some (c # rest)
        })"

record txn_gc_state =
  snapshot_xids :: "TXNID list"
  gc_referenced_xids :: "referenced_xid_tuple list"
  gc_live_root_txns :: "TXNID list"

definition toku_txn_manager_clone_state_for_gc :: "txn_manager \<Rightarrow> txn_gc_state option" where
  "toku_txn_manager_clone_state_for_gc m = do {
     ts \<leftarrow> snapshot_chain m (snapshot_head m);
     ensure (length ts = num_snapshots m);
     Some \<lparr>snapshot_xids = snapshot_xid_list m ts,
           gc_referenced_xids = referenced_xids m,
           gc_live_root_txns = setup_live_root_txn_list (live_root_ids m)\<rparr>
   }"

definition toku_txn_manager_id2txn_unlocked :: "txn_manager \<Rightarrow> TXNID \<Rightarrow> TOKUTXN option" where
  "toku_txn_manager_id2txn_unlocked m xid =
     (case omt_find_zero (\<lambda>t. find_by_xid m t xid) (live_root_txns m) of
        Inr (txn, _) \<Rightarrow> Some txn
      | Inl _ \<Rightarrow> None)"

definition is_txnid_live :: "txn_manager \<Rightarrow> TXNID \<Rightarrow> bool" where
  "is_txnid_live m xid = (toku_txn_manager_id2txn_unlocked m xid \<noteq> None)"

definition toku_txn_manager_num_live_root_txns :: "txn_manager \<Rightarrow> nat" where
  "toku_txn_manager_num_live_root_txns m = length (live_root_txns m)"

definition toku_txn_manager_txns_exist :: "txn_manager \<Rightarrow> bool" where
  "toku_txn_manager_txns_exist m = (length (live_root_txns m) > 0)"

definition toku_txn_manager_set_last_xid_from_logger :: "txn_manager \<Rightarrow> TXNID \<Rightarrow> txn_manager option" where
  "toku_txn_manager_set_last_xid_from_logger m xid = do {
     ensure (last_xid m = TXNID_NONE);
     Some (m\<lparr>last_xid := xid\<rparr>)
   }"

definition toku_txn_manager_set_last_xid_from_recovered_checkpoint :: "txn_manager \<Rightarrow> TXNID \<Rightarrow> txn_manager" where
  "toku_txn_manager_set_last_xid_from_recovered_checkpoint m xid = m\<lparr>last_xid := xid\<rparr>"

definition toku_txn_manager_get_last_xid :: "txn_manager \<Rightarrow> TXNID" where
  "toku_txn_manager_get_last_xid m = last_xid m"

subsection \<open>Reading through a snapshot\<close>

definition toku_get_oldest_in_live_root_txn_list :: "TXNID list \<Rightarrow> TXNID" where
  "toku_get_oldest_in_live_root_txn_list live =
     (case omt_fetch live 0 of Inr x \<Rightarrow> x | Inl _ \<Rightarrow> TXNID_NONE)"

definition toku_is_txn_in_live_root_txn_list :: "TXNID list \<Rightarrow> TXNID \<Rightarrow> bool option" where
  "toku_is_txn_in_live_root_txn_list live xid =
     (case omt_find_zero (\<lambda>x. toku_find_xid_by_xid x xid) live of
        Inr (txnid, _) \<Rightarrow> do { ensure (txnid = xid); Some True }
      | Inl _ \<Rightarrow> Some False)"

text \<open>\<open>True\<close> is \<open>TOKUDB_ACCEPT\<close>. The \<open>force_recovery\<close> override is off.\<close>

definition toku_txn_reads_txnid :: "TXNID \<Rightarrow> txn_manager \<Rightarrow> TOKUTXN \<Rightarrow> bool option" where
  "toku_txn_reads_txnid txnid m txn = do {
     live \<leftarrow> live_list m txn;
     let oldest_live_in_snapshot = toku_get_oldest_in_live_root_txn_list live;
     if oldest_live_in_snapshot = TXNID_NONE \<and> txnid < snapshot_txnid64 (txns m txn) then Some True
     else if txnid < oldest_live_in_snapshot \<or> txnid = parent_id64 (txns m txn) then Some True
     else if txnid > snapshot_txnid64 (txns m txn) then Some False
     else do {
       found \<leftarrow> toku_is_txn_in_live_root_txn_list live txnid;
       Some (\<not> found)
     }
   }"

subsection \<open>Child ids, begin and complete\<close>

definition start_child_txn :: "TOKUTXN \<Rightarrow> TOKUTXN \<Rightarrow> txn_manager \<Rightarrow> txn_manager option" where
  "start_child_txn child parent m = do {
     let root = child_manager (txns m parent);
     let root_id = parent_id64 (txns m root);
     ensure (parent_id64 (txns m parent) = root_id);
     let m = upd_txn child (\<lambda>t. t\<lparr>parent_id64 := root_id\<rparr>) m;
     let next = m_last_xid (txns m root) + 1;
     let next = (if next = root_id then next + 1 else next);
     let m = upd_txn root (\<lambda>t. t\<lparr>m_last_xid := next\<rparr>) m;
     let m = upd_txn child (\<lambda>t. t\<lparr>child_id64 := next\<rparr>) m;
     Some (upd_txn parent (\<lambda>t. t\<lparr>txn_child := Some child\<rparr>) m)
   }"

definition finish_child_txn :: "TOKUTXN \<Rightarrow> txn_manager \<Rightarrow> txn_manager option" where
  "finish_child_txn child m = do {
     ensure (parent_id64 (txns m child) = parent_id64 (txns m (child_manager (txns m child))));
     parent \<leftarrow> txn_parent (txns m child);
     Some (upd_txn parent (\<lambda>t. t\<lparr>txn_child := None\<rparr>) m)
   }"

definition toku_txn_create_txn ::
  "TOKUTXN \<Rightarrow> TOKUTXN option \<Rightarrow> TXN_SNAPSHOT_TYPE \<Rightarrow> bool \<Rightarrow> bool \<Rightarrow> txn_manager \<Rightarrow> txn_manager" where
  "toku_txn_create_txn txn parent ty for_recovery read_only m =
     m\<lparr>txns := (txns m)(txn :=
       \<lparr>parent_id64 = TXNID_NONE, child_id64 = TXNID_NONE, snapshot_txnid64 = TXNID_NONE,
        snapshot_type = (if for_recovery then TXN_SNAPSHOT_NONE else ty),
        txn_parent = parent, txn_child = None,
        child_manager = (case parent of None \<Rightarrow> txn | Some p \<Rightarrow> child_manager (txns m p)),
        m_last_xid = TXNID_NONE, live_root_txn_list = None, txn_xids = [],
        snapshot_next = None, snapshot_prev = None,
        begin_was_logged = False, declared_read_only = read_only\<rparr>)\<rparr>"

definition txn_create_xids :: "TOKUTXN \<Rightarrow> TOKUTXN option \<Rightarrow> txn_manager \<Rightarrow> txn_manager option" where
  "txn_create_xids txn parent m = do {
     let parent_xids = (case parent of None \<Rightarrow> toku_xids_get_root_xids | Some p \<Rightarrow> txn_xids (txns m p));
     xids \<leftarrow> toku_xids_create_unknown_child parent_xids;
     let finalized_xid = (if parent = None then parent_id64 (txns m txn) else child_id64 (txns m txn));
     Some (upd_txn txn (\<lambda>t. t\<lparr>txn_xids := toku_xids_finalize_with_child xids finalized_xid\<rparr>) m)
   }"

text \<open>\<open>toku_txn_begin_with_xid\<close> outside recovery; \<open>txn\<close> is the freshly allocated struct.\<close>

definition toku_txn_begin_txn ::
  "TOKUTXN option \<Rightarrow> TOKUTXN \<Rightarrow> TXN_SNAPSHOT_TYPE \<Rightarrow> bool \<Rightarrow> txn_manager \<Rightarrow> (ft_error + txn_manager) option" where
  "toku_txn_begin_txn parent txn ty read_only m = do {
     too_deep \<leftarrow> (case parent of
         Some p \<Rightarrow> if read_only then Some False
                   else do { c \<leftarrow> toku_xids_can_create_child (txn_xids (txns m p)); Some (\<not> c) }
       | None \<Rightarrow> Some False);
     if too_deep then Some (Inl EINVAL)
     else do {
       ensure (case parent of Some p \<Rightarrow> read_only \<longrightarrow> txn_declared_read_only (txns m p) | None \<Rightarrow> True);
       let m = toku_txn_create_txn txn parent ty False read_only m;
       m \<leftarrow> (case parent of
           None \<Rightarrow> toku_txn_manager_start_txn txn m ty read_only
         | Some p \<Rightarrow> do {
             m \<leftarrow> start_child_txn txn p m;
             toku_txn_manager_handle_snapshot_create_for_child_txn txn m ty
           });
       m \<leftarrow> (if \<not> read_only then txn_create_xids txn parent m else Some m);
       Some (Inr m)
     }
   }"

definition toku_txn_complete_txn :: "bool \<Rightarrow> TOKUTXN \<Rightarrow> txn_manager \<Rightarrow> txn_manager option" where
  "toku_txn_complete_txn garbage_collection_debug txn m =
     (case txn_parent (txns m txn) of
        Some p \<Rightarrow> do {
          m \<leftarrow> toku_txn_manager_handle_snapshot_destroy_for_child_txn txn m (snapshot_type (txns m txn));
          finish_child_txn txn m
        }
      | None \<Rightarrow> toku_txn_manager_finish_txn garbage_collection_debug m txn)"

text \<open>Before its first write a transaction logs its begin, parents first.\<close>

partial_function (option) maybe_log_begin_txn_for_write_operation_unlocked ::
  "TOKUTXN \<Rightarrow> txn_manager \<Rightarrow> txn_manager option" where
  "maybe_log_begin_txn_for_write_operation_unlocked txn m =
     (if begin_was_logged (txns m txn) then Some m
      else do {
        m \<leftarrow> (case txn_parent (txns m txn) of
            Some parent \<Rightarrow> maybe_log_begin_txn_for_write_operation_unlocked parent m
          | None \<Rightarrow> Some m);
        Some (upd_txn txn (\<lambda>t. t\<lparr>begin_was_logged := True\<rparr>) m)
      })"

end
