(* ===== verification/Txn_Snapshots.thy ===== *)
theory Txn_Snapshots
  imports Txn_Manager
begin

text \<open>
  Two refinements inside the transaction manager. The doubly linked list of snapshots threaded
  through the transaction structs represents a list of handles (\<open>dll\<close>), and the walks over it
  terminate and compute what the list says. The two ways of closing a snapshot, by its live list
  and by the tuples, both compute \<open>note_end\<close>.
\<close>

subsection \<open>Searches by key\<close>

lemma find_tuple_by_xid_key: "(\<lambda>t. find_tuple_by_xid t x) = key_cmp begin_id x"
  by (simp add: fun_eq_iff find_tuple_by_xid_def key_cmp_def)

lemma toku_find_xid_by_xid_key: "(\<lambda>y. toku_find_xid_by_xid y x) = key_cmp (\<lambda>y. y) x"
  by (simp add: fun_eq_iff toku_find_xid_by_xid_def key_cmp_def)

lemma find_xid_key: "(\<lambda>t. find_xid m t u) = key_cmp (\<lambda>t. parent_id64 (txns m t)) (parent_id64 (txns m u))"
  by (simp add: fun_eq_iff find_xid_def key_cmp_def)

lemma find_by_xid_key: "(\<lambda>t. find_by_xid m t x) = key_cmp (\<lambda>t. parent_id64 (txns m t)) x"
  by (simp add: fun_eq_iff find_by_xid_def key_cmp_def)

lemmas find_keys = find_tuple_by_xid_key toku_find_xid_by_xid_key find_xid_key find_by_xid_key

lemma toku_is_txn_in_live_root_txn_list_iff:
  assumes "sorted_by (\<lambda>y. y) live"
  shows "toku_is_txn_in_live_root_txn_list live x = Some (x \<in> set live)"
proof (cases "omt_find_zero (key_cmp (\<lambda>y. y) x) live")
  case (Inl i)
  then show ?thesis
    using omt_find_zero_missing [OF assms, of x]
    by (auto simp: toku_is_txn_in_live_root_txn_list_def toku_find_xid_by_xid_key)
next
  case (Inr p)
  then show ?thesis
    using omt_find_zero_sorted [OF assms, of x "fst p" "snd p"]
    by (auto simp: toku_is_txn_in_live_root_txn_list_def toku_find_xid_by_xid_key split: prod.splits)
qed

subsection \<open>The linked list of snapshots\<close>

fun links :: "('t \<Rightarrow> 't option) \<Rightarrow> ('t \<Rightarrow> 't option) \<Rightarrow> 't option \<Rightarrow> 't list \<Rightarrow> 't option \<Rightarrow> bool" where
  "links nxt prv p [] e = True"
| "links nxt prv p (x # xs) e =
     (prv x = p \<and> nxt x = (if xs = [] then e else Some (hd xs)) \<and> links nxt prv (Some x) xs e)"

abbreviation first_of :: "'t list \<Rightarrow> 't option \<Rightarrow> 't option" where
  "first_of xs e \<equiv> (if xs = [] then e else Some (hd xs))"

abbreviation last_of :: "'t option \<Rightarrow> 't list \<Rightarrow> 't option" where
  "last_of p xs \<equiv> (if xs = [] then p else Some (last xs))"

lemma links_append:
  "links nxt prv p (xs @ ys) e \<longleftrightarrow>
     links nxt prv p xs (first_of ys e) \<and> links nxt prv (last_of p xs) ys e"
  by (induction xs arbitrary: p) auto

lemma links_cong:
  assumes "\<And>x. x \<in> set xs \<Longrightarrow> nxt' x = nxt x \<and> prv' x = prv x"
  shows "links nxt' prv' p xs e = links nxt prv p xs e"
  using assms by (induction xs arbitrary: p) auto

lemma links_new_end:
  assumes "links nxt prv p xs e" "distinct xs" "xs \<noteq> []"
  shows "links (nxt(last xs := e')) prv p xs e'"
  using assms
proof (induction xs arbitrary: p)
  case (Cons x xs)
  show ?case
  proof (cases "xs = []")
    case False
    then have "last xs \<noteq> x" using Cons.prems(2) by (metis distinct.simps(2) last_in_set)
    then show ?thesis using Cons False by simp
  qed (use Cons in simp)
qed simp

lemma links_new_start:
  assumes "links nxt prv p xs e" "distinct xs" "xs \<noteq> []"
  shows "links nxt (prv(hd xs := p')) p' xs e"
proof -
  obtain y ys where xs: "xs = y # ys" using assms(3) by (cases xs) auto
  have "links nxt (prv(y := p')) (Some y) ys e = links nxt prv (Some y) ys e"
    using assms(2) xs by (intro links_cong) auto
  then show ?thesis using assms(1) xs by simp
qed

definition dll :: "txn_manager \<Rightarrow> TOKUTXN list \<Rightarrow> bool" where
  "dll m S \<longleftrightarrow> distinct S \<and> snapshot_head m = first_of S None \<and> snapshot_tail m = last_of None S \<and>
     links (\<lambda>t. snapshot_next (txns m t)) (\<lambda>t. snapshot_prev (txns m t)) None S None"

lemma snapshot_chain_links:
  "links (\<lambda>t. snapshot_next (txns m t)) prv p S None \<Longrightarrow> snapshot_chain m (first_of S None) = Some S"
proof (induction S arbitrary: p)
  case (Cons t S)
  then have "snapshot_chain m (snapshot_next (txns m t)) = Some S" by auto
  then show ?case by (simp add: snapshot_chain.simps [of m "Some t"])
qed (simp add: snapshot_chain.simps [of m None])

lemma snapshot_chain_dll: "dll m S \<Longrightarrow> snapshot_chain m (snapshot_head m) = Some S"
  using snapshot_chain_links [of m "\<lambda>t. snapshot_prev (txns m t)" None S]
  by (simp add: dll_def split del: if_split)

lemma count_newer_links:
  assumes "links nxt (\<lambda>t. snapshot_prev (txns m t)) None S e"
    and "sorted_by (\<lambda>t. snapshot_txnid64 (txns m t)) S"
  shows "count_newer_snapshots m xid (last_of None S) n =
    Some (n + length (filter (\<lambda>t. snapshot_txnid64 (txns m t) > xid) S))"
  using assms
proof (induction S arbitrary: n e rule: rev_induct)
  case Nil
  then show ?case by (subst count_newer_snapshots.simps) simp
next
  case (snoc t S)
  have IH: "count_newer_snapshots m xid (last_of None S) k =
      Some (k + length (filter (\<lambda>t. snapshot_txnid64 (txns m t) > xid) S))" for k
    using snoc.prems by (intro snoc.IH) (auto simp: links_append)
  have p: "snapshot_prev (txns m t) = last_of None S"
    using snoc.prems(1) by (simp add: links_append)
  have older: "filter (\<lambda>t. snapshot_txnid64 (txns m t) > xid) S = []"
    if "\<not> snapshot_txnid64 (txns m t) > xid"
    using that snoc.prems(2) by (force simp: filter_empty_conv)
  show ?case
    using IH [of "n + 1"] p older by (subst count_newer_snapshots.simps) simp
qed

lemma count_newer_dll:
  assumes "dll m S" "sorted_by (\<lambda>t. snapshot_txnid64 (txns m t)) S"
  shows "count_newer_snapshots m xid (snapshot_tail m) 0 =
    Some (length (filter (\<lambda>t. snapshot_txnid64 (txns m t) > xid) S))"
  using count_newer_links [OF _ assms(2), of _ None xid 0] assms(1) by (auto simp: dll_def)

text \<open>Appending and removing a snapshot.\<close>

lemma dll_append:
  assumes "dll m S" "t \<notin> set S" "snapshot_next (txns m t) = None" "snapshot_prev (txns m t) = None"
    and "txn_manager_create_snapshot_unlocked m t = Some m'"
  shows "dll m' (S @ [t])"
proof (cases "S = []")
  case True
  then show ?thesis
    using assms by (auto simp: dll_def txn_manager_create_snapshot_unlocked_def upd_txn_def Let_def)
next
  case False
  let ?n = "\<lambda>t. snapshot_next (txns m t)" and ?p = "\<lambda>t. snapshot_prev (txns m t)"
  have "links (?n(last S := Some t)) ?p None S (Some t)"
    using assms(1) False by (intro links_new_end) (auto simp: dll_def)
  moreover have "t \<noteq> last S" using assms(2) False by auto
  moreover have m': "\<And>x. x \<in> set S \<Longrightarrow> snapshot_next (txns m' x) = (?n(last S := Some t)) x \<and> snapshot_prev (txns m' x) = ?p x"
    "snapshot_next (txns m' t) = None" "snapshot_prev (txns m' t) = Some (last S)"
    "snapshot_head m' = Some (hd S)" "snapshot_tail m' = Some t"
    using assms(1-3,5) False \<open>t \<noteq> last S\<close>
    by (auto simp: dll_def txn_manager_create_snapshot_unlocked_def upd_txn_def Let_def)
  ultimately have "links (\<lambda>t. snapshot_next (txns m' t)) (\<lambda>t. snapshot_prev (txns m' t)) None S (Some t)"
    using links_cong [of S "\<lambda>t. snapshot_next (txns m' t)" "?n(last S := Some t)" "\<lambda>t. snapshot_prev (txns m' t)" ?p]
    by simp
  then show ?thesis
    using m'(2-5) assms(1,2) False by (simp add: dll_def links_append)
qed

lemma dll_neighbours:
  assumes "dll m (A @ t # B)"
  shows "snapshot_next (txns m t) = first_of B None" "snapshot_prev (txns m t) = last_of None A"
  using assms by (auto simp: dll_def links_append)

text \<open>The pointer updates of a removal, as one function of the state.\<close>

definition unlink_snapshot :: "TOKUTXN \<Rightarrow> txn_manager \<Rightarrow> txn_manager" where
  "unlink_snapshot txn m =
    (let next = snapshot_next (txns m txn); prev = snapshot_prev (txns m txn);
         m = (if snapshot_head m = Some txn then m\<lparr>snapshot_head := next\<rparr> else m);
         m = (if snapshot_tail m = Some txn then m\<lparr>snapshot_tail := prev\<rparr> else m);
         m = (case next of Some n \<Rightarrow> upd_txn n (\<lambda>t. t\<lparr>snapshot_prev := prev\<rparr>) m | None \<Rightarrow> m)
     in (case prev of Some p \<Rightarrow> upd_txn p (\<lambda>t. t\<lparr>snapshot_next := next\<rparr>) m | None \<Rightarrow> m))"

lemma dll_remove:
  assumes "dll m (A @ t # B)"
  shows "dll (unlink_snapshot t m) (A @ B)"
proof -
  let ?m = "unlink_snapshot t m"
  let ?n = "\<lambda>t. snapshot_next (txns m t)" and ?p = "\<lambda>t. snapshot_prev (txns m t)"
  let ?n' = "\<lambda>t. snapshot_next (txns ?m t)" and ?p' = "\<lambda>t. snapshot_prev (txns ?m t)"
  note nb = dll_neighbours [OF assms]
  have d: "distinct (A @ t # B)" "links ?n ?p None A (Some t)" "links ?n ?p (Some t) B None"
    using assms by (auto simp: dll_def links_append)
  have hd: "A \<noteq> [] \<Longrightarrow> hd A \<noteq> t" "B \<noteq> [] \<Longrightarrow> last B \<noteq> t" using d(1) by (cases A; auto)+
  have heads: "snapshot_head ?m = first_of (A @ B) None" "snapshot_tail ?m = last_of None (A @ B)"
    using assms nb hd
    by (auto simp: dll_def unlink_snapshot_def Let_def upd_txn_def hd_append last_append)
  have dis: "A \<noteq> [] \<Longrightarrow> last A \<notin> set B" "B \<noteq> [] \<Longrightarrow> hd B \<notin> set A"
    using d(1) by (auto simp: disjoint_iff)
  have "links ?n' ?p' None A (first_of B None)"
  proof (cases "A = []")
    case False
    have "links (?n(last A := first_of B None)) ?p None A (first_of B None)"
      using d False by (intro links_new_end) auto
    then show ?thesis
      using nb False dis
      by (subst links_cong [of A _ "?n(last A := first_of B None)" _ ?p])
        (auto simp: unlink_snapshot_def Let_def upd_txn_def)
  qed simp
  moreover have "links ?n' ?p' (last_of None A) B None"
  proof (cases "B = []")
    case False
    have "links ?n (?p(hd B := last_of None A)) (last_of None A) B None"
      using d False by (intro links_new_start) auto
    then show ?thesis
      using nb False dis
      by (subst links_cong [of B _ ?n _ "?p(hd B := last_of None A)"])
        (auto simp: unlink_snapshot_def Let_def upd_txn_def)
  qed simp
  ultimately show ?thesis using d(1) heads by (simp add: dll_def links_append)
qed

subsection \<open>Closing a snapshot\<close>

definition drop_reference :: "TXNID set \<Rightarrow> referenced_xid_tuple \<Rightarrow> referenced_xid_tuple" where
  "drop_reference X t = (if begin_id t \<in> X then t\<lparr>references := references t - 1\<rparr> else t)"

definition note_end :: "TXNID set \<Rightarrow> referenced_xid_tuple list \<Rightarrow> referenced_xid_tuple list" where
  "note_end X rx = filter (\<lambda>t. references t > 0) (map (drop_reference X) rx)"

lemma drop_reference_ids [simp]:
  "begin_id (drop_reference X t) = begin_id t" "end_id (drop_reference X t) = end_id t"
  by (simp_all add: drop_reference_def)

lemma note_end_empty: "\<forall>t\<in>set rx. references t > 0 \<Longrightarrow> note_end {} rx = rx"
  by (induction rx) (auto simp: note_end_def drop_reference_def)

lemma note_end_append [simp]: "note_end X (as @ bs) = note_end X as @ note_end X bs"
  by (simp add: note_end_def)

lemma note_end_ids: "begin_id ` set (note_end X rx) \<subseteq> begin_id ` set rx"
  by (auto simp: note_end_def)

lemma note_end_sorted: "sorted_by begin_id rx \<Longrightarrow> sorted_by begin_id (note_end X rx)"
proof (induction rx)
  case (Cons t rx)
  have "\<forall>w\<in>set (note_end X rx). begin_id t < begin_id w"
    using Cons.prems note_end_ids [of X rx] by fastforce
  then show ?case using Cons by (simp add: note_end_def)
qed (simp add: note_end_def)

lemma note_end_positive: "\<forall>t\<in>set (note_end X rx). references t > 0"
  by (auto simp: note_end_def)

lemma note_end_missing:
  "begin_id ` set rx \<inter> X = {} \<Longrightarrow> \<forall>t\<in>set rx. references t > 0 \<Longrightarrow> note_end X rx = rx"
  by (induction rx) (auto simp: note_end_def drop_reference_def)

lemma note_end_insert:
  assumes "x \<notin> X"
  shows "note_end X (note_end {x} rx) = note_end (insert x X) rx"
  using assms by (induction rx) (auto simp: note_end_def drop_reference_def)

lemma referenced_xids_note_snapshot_txn_end_iter_eq:
  assumes "sorted_by begin_id rx" "\<forall>t\<in>set rx. references t > 0"
  shows "referenced_xids_note_snapshot_txn_end_iter x rx = Some (note_end {x} rx)"
proof (cases "x \<in> begin_id ` set rx")
  case False
  then obtain i where "omt_find_zero (key_cmp begin_id x) rx = Inl i"
    using omt_find_zero_missing [OF assms(1)] by blast
  then show ?thesis
    using False assms(2) by (simp add: referenced_xids_note_snapshot_txn_end_iter_def find_keys note_end_missing)
next
  case True
  then obtain t where t: "t \<in> set rx" "begin_id t = x" by auto
  obtain us ws where s: "rx = us @ t # ws" "\<forall>u\<in>set us. begin_id u < x" "\<forall>w\<in>set ws. x < begin_id w"
    using sorted_by_split [OF assms(1) t] by metis
  have f: "omt_find_zero (key_cmp begin_id x) rx = Inr (t, length us)"
    using omt_find_zero_sorted [OF assms(1)] s(1) t(2) by simp
  have "note_end {x} us = us" "note_end {x} ws = ws"
    using s assms(2) by (intro note_end_missing; fastforce)+
  then have "note_end {x} rx = us @ (if references t = 1 then [] else [t\<lparr>references := references t - 1\<rparr>]) @ ws"
    using s(1) t(2) assms(2) by (auto simp: note_end_def drop_reference_def)
  then show ?thesis
    using f s(1) assms(2)
    by (auto simp: referenced_xids_note_snapshot_txn_end_iter_def find_keys omt_delete_at_def Let_def)
qed

lemma note_snapshot_txn_end_by_ref_xids_eq:
  assumes "sorted_by begin_id rx" "\<forall>t\<in>set rx. references t > 0" "distinct live"
  shows "note_snapshot_txn_end_by_ref_xids live rx = Some (note_end (set live) rx)"
  using assms
proof (induction live arbitrary: rx)
  case Nil
  then show ?case by (simp add: note_end_empty)
next
  case (Cons x live)
  then show ?case
    using note_end_sorted [OF Cons.prems(1)] note_end_positive [of "{x}" rx]
    by (simp add: referenced_xids_note_snapshot_txn_end_iter_eq note_end_insert)
qed

fun indexes_where :: "('a \<Rightarrow> bool) \<Rightarrow> nat \<Rightarrow> 'a list \<Rightarrow> nat list" where
  "indexes_where P k [] = []"
| "indexes_where P k (x # xs) =
     (if P x then k # indexes_where P (k + 1) xs else indexes_where P (k + 1) xs)"

lemma delete_indexes_append: "delete_indexes (is @ js) vs = delete_indexes js (delete_indexes is vs)"
  by (induction "is" arbitrary: vs) auto

lemma delete_indexes_where:
  "k = length us \<Longrightarrow> delete_indexes (rev (indexes_where P k xs)) (us @ xs) = us @ filter (\<lambda>x. \<not> P x) xs"
proof (induction xs arbitrary: us k)
  case (Cons x xs)
  have "delete_indexes (rev (indexes_where P (Suc k) xs)) (us @ x # xs) = us @ x # filter (\<lambda>x. \<not> P x) xs"
    using Cons.IH [of "Suc k" "us @ [x]"] Cons.prems by simp
  then show ?case using Cons.prems by (simp add: delete_indexes_append omt_delete_at_def)
qed simp

lemma note_snapshot_txn_end_by_txn_live_list_iter_eq:
  assumes "sorted_by (\<lambda>y. y) live" "\<forall>t\<in>set rx. references t > 0"
  shows "note_snapshot_txn_end_by_txn_live_list_iter live k rx =
    Some (map (drop_reference (set live)) rx,
          indexes_where (\<lambda>t. references t = 0) k (map (drop_reference (set live)) rx))"
  using assms(2)
proof (induction rx arbitrary: k)
  case (Cons t rx)
  show ?case
  proof (cases "begin_id t \<in> set live")
    case True
    then obtain i where i: "i < length live" "live ! i = begin_id t" by (auto simp: in_set_conv_nth)
    then have "omt_find_zero (key_cmp (\<lambda>y. y) (begin_id t)) live = Inr (begin_id t, i)"
      using omt_find_zero_sorted [OF assms(1)] by simp
    then show ?thesis using Cons True by (simp add: find_keys drop_reference_def Let_def)
  next
    case False
    then obtain i where "omt_find_zero (key_cmp (\<lambda>y. y) (begin_id t)) live = Inl i"
      using omt_find_zero_missing [OF assms(1), of "begin_id t"] by auto
    then show ?thesis using Cons False by (simp add: find_keys drop_reference_def)
  qed
qed simp

lemma note_snapshot_txn_end_by_txn_live_list_eq:
  assumes "sorted_by (\<lambda>y. y) live" "\<forall>t\<in>set rx. references t > 0"
  shows "note_snapshot_txn_end_by_txn_live_list live rx = Some (note_end (set live) rx)"
  using note_snapshot_txn_end_by_txn_live_list_iter_eq [OF assms, of 0]
    delete_indexes_where [of 0 "[]" "\<lambda>t. references t = 0" "map (drop_reference (set live)) rx"]
  by (simp add: note_snapshot_txn_end_by_txn_live_list_def note_end_def)

lemma sorted_by_distinct: "sorted_by key vs \<Longrightarrow> distinct vs"
  by (induction vs) auto

text \<open>
  C6. The two ways of closing a snapshot are equivalent: walking the live list and walking the
  tuples (the choice depends only on the sizes) leave the same tuples, neither violates an
  assertion, and the result drops one reference of exactly the tuples whose transaction is in the
  live list and removes those that reach zero.
\<close>

theorem snapshot_end_variants_agree:
  assumes "sorted_by begin_id rx" "sorted_by (\<lambda>y. y) live" "\<forall>t\<in>set rx. references t > 0"
  shows "note_snapshot_txn_end_by_ref_xids live rx = note_snapshot_txn_end_by_txn_live_list live rx \<and>
    note_snapshot_txn_end_by_ref_xids live rx = Some (note_end (set live) rx)"
  using note_snapshot_txn_end_by_ref_xids_eq [OF assms(1,3) sorted_by_distinct [OF assms(2)]]
    note_snapshot_txn_end_by_txn_live_list_eq [OF assms(2,3)] by simp

theorem snapshot_end_variants_agree_witness:
  "note_snapshot_txn_end_by_ref_xids [3, 5, 8]
      [\<lparr>begin_id = 3, end_id = 9, references = 1\<rparr>, \<lparr>begin_id = 5, end_id = 10, references = 2\<rparr>] =
    Some [\<lparr>begin_id = 5, end_id = 10, references = 1\<rparr>]"
proof -
  let ?rx = "[\<lparr>begin_id = 3, end_id = 9, references = 1\<rparr>, \<lparr>begin_id = 5, end_id = 10, references = 2\<rparr>]"
  have "note_snapshot_txn_end_by_ref_xids [3, 5, 8] ?rx = Some (note_end (set [3, 5, 8]) ?rx)"
    by (rule conjunct2 [OF snapshot_end_variants_agree]) simp_all
  then show ?thesis by (simp add: note_end_def drop_reference_def)
qed

end
