(* ===== verification/Mvcc.thy ===== *)
theory Mvcc
  imports Txn_Snapshots
begin

text \<open>
  The specification of the MVCC bookkeeping: what the transaction manager keeps, without
  pointers. A snapshot is its id, the id of the root transaction that reads through it, and
  the root transactions live when it was taken. \<open>E\<close> is a pair of history sets: the root transactions that ended
  after writing (aborted or committed), and those that ended without having written although they could.
  \<open>R\<close> are the ids of the active root transactions. Every operation keeps \<open>mv_inv\<close>, which is
  what garbage collection relies on.
\<close>

record snap =
  sn_id :: TXNID
  sn_root :: TXNID
  sn_live :: "TXNID list"

record mvcc =
  mv_lives :: "TXNID list"
  mv_snaps :: "snap list"
  mv_rx :: "referenced_xid_tuple list"
  mv_last :: TXNID
  mv_oldest :: TXNID

definition mv_min :: "mvcc \<Rightarrow> TXNID" where
  "mv_min v = Min ({mv_last v} \<union> set (mv_lives v) \<union> begin_id ` set (mv_rx v) \<union> sn_id ` set (mv_snaps v))"

definition mv_begin :: "bool \<Rightarrow> mvcc \<Rightarrow> mvcc" where
  "mv_begin read_only v =
     (let x = mv_last v + 1;
          v = v\<lparr>mv_last := x, mv_lives := (if read_only then mv_lives v else mv_lives v @ [x])\<rparr>
      in v\<lparr>mv_oldest := mv_min v\<rparr>)"

definition mv_snap :: "TXNID \<Rightarrow> mvcc \<Rightarrow> mvcc" where
  "mv_snap root v =
     v\<lparr>mv_last := mv_last v + 1,
       mv_snaps := mv_snaps v @ [\<lparr>sn_id = mv_last v + 1, sn_root = root, sn_live = mv_lives v\<rparr>]\<rparr>"

definition mv_unsnap :: "snap list \<Rightarrow> snap \<Rightarrow> snap list \<Rightarrow> mvcc \<Rightarrow> mvcc" where
  "mv_unsnap A s B v = v\<lparr>mv_snaps := A @ B, mv_rx := note_end (set (sn_live s)) (mv_rx v)\<rparr>"

definition mv_end :: "TXNID \<Rightarrow> bool \<Rightarrow> mvcc \<Rightarrow> mvcc" where
  "mv_end x wrote v =
     (let v = v\<lparr>mv_lives := filter (\<lambda>y. y \<noteq> x) (mv_lives v)\<rparr>;
          n = length (filter (\<lambda>s. sn_id s > x) (mv_snaps v))
      in if wrote \<and> n > 0 then
           (case omt_insert (key_cmp begin_id x) (mv_rx v)
                   \<lparr>begin_id = x, end_id = mv_last v + 1, references = n\<rparr> of
              Inr (rx, _) \<Rightarrow> v\<lparr>mv_last := mv_last v + 1, mv_rx := rx\<rparr>
            | Inl _ \<Rightarrow> v)
         else v)"

subsection \<open>The invariant\<close>

definition snap_ok :: "TXNID set \<Rightarrow> mvcc \<Rightarrow> snap \<Rightarrow> bool" where
  "snap_ok R v s \<longleftrightarrow>
     sn_id s \<le> mv_last v \<and> sn_root s \<in> R \<and> sn_root s < sn_id s \<and> sn_id s \<notin> R \<and>
     sorted_by (\<lambda>y. y) (sn_live s) \<and> (\<forall>x\<in>set (sn_live s). 0 < x \<and> x < sn_id s) \<and>
     (\<forall>x\<in>set (mv_lives v). x < sn_id s \<longrightarrow> x \<in> set (sn_live s))"

definition tuple_ok :: "TXNID set \<Rightarrow> mvcc \<Rightarrow> referenced_xid_tuple \<Rightarrow> bool" where
  "tuple_ok R v t \<longleftrightarrow>
     begin_id t < end_id t \<and> end_id t \<le> mv_last v \<and> begin_id t \<notin> R \<and> end_id t \<notin> R \<and>
     references t = length (filter (\<lambda>s. begin_id t \<in> set (sn_live s)) (mv_snaps v)) \<and> 0 < references t \<and>
     (\<forall>s\<in>set (mv_snaps v).
        (begin_id t \<in> set (sn_live s) \<longleftrightarrow> begin_id t < sn_id s \<and> sn_id s < end_id t) \<and>
        end_id t \<notin> set (sn_live s) \<and> begin_id t \<noteq> sn_id s)"

definition ended_ok :: "TXNID set \<Rightarrow> mvcc \<Rightarrow> TXNID \<Rightarrow> bool" where
  "ended_ok R v x \<longleftrightarrow>
     x \<notin> R \<and> x \<le> mv_last v \<and> x \<notin> sn_id ` set (mv_snaps v) \<and>
     (\<forall>s\<in>set (mv_snaps v). x \<in> set (sn_live s) \<longrightarrow> x \<in> begin_id ` set (mv_rx v))"

type_synonym ended = "TXNID set \<times> TXNID set"

definition note_ended :: "TXNID \<Rightarrow> bool \<Rightarrow> bool \<Rightarrow> ended \<Rightarrow> ended" where
  "note_ended x wrote live E =
     (if wrote then (insert x (fst E), snd E) else if live then (fst E, insert x (snd E)) else E)"

definition mv_inv :: "ended \<Rightarrow> TXNID set \<Rightarrow> mvcc \<Rightarrow> bool" where
  "mv_inv E R v \<longleftrightarrow>
     sorted_by (\<lambda>y. y) (mv_lives v) \<and> set (mv_lives v) \<subseteq> R \<and> (\<forall>x\<in>R. 0 < x \<and> x \<le> mv_last v) \<and>
     sorted_by sn_id (mv_snaps v) \<and> (\<forall>s\<in>set (mv_snaps v). snap_ok R v s) \<and>
     sorted_by begin_id (mv_rx v) \<and> (\<forall>t\<in>set (mv_rx v). tuple_ok R v t) \<and>
     (\<forall>x\<in>fst E. ended_ok R v x) \<and> begin_id ` set (mv_rx v) \<subseteq> fst E \<and> mv_oldest v \<le> mv_min v \<and>
     (\<forall>s\<in>set (mv_snaps v). set (sn_live s) \<subseteq> set (mv_lives v) \<union> fst E \<union> snd E)"

lemma word_less_add_1:
  assumes "(x :: 'a::len word) < - 1"
  shows "x < x + 1"
proof -
  have "unat x < 2 ^ LENGTH('a) - 1"
    using assms by (simp add: word_less_nat_alt unsigned_minus_1_eq_mask mask_eq_exp_minus_1)
  then have "unat (x + 1) = unat x + 1" by (simp add: unat_word_ariths)
  then show ?thesis by (simp add: word_less_nat_alt)
qed

lemma mv_min_le_iff:
  "a \<le> mv_min v \<longleftrightarrow> a \<le> mv_last v \<and> (\<forall>x\<in>set (mv_lives v). a \<le> x) \<and>
     (\<forall>t\<in>set (mv_rx v). a \<le> begin_id t) \<and> (\<forall>s\<in>set (mv_snaps v). a \<le> sn_id s)"
  by (auto simp: mv_min_def)

subsection \<open>Every operation keeps the invariant\<close>

lemma mv_invD:
  assumes "mv_inv E R v"
  shows "sorted_by (\<lambda>y. y) (mv_lives v)" "set (mv_lives v) \<subseteq> R"
    "\<And>x. x \<in> R \<Longrightarrow> 0 < x \<and> x \<le> mv_last v" "sorted_by sn_id (mv_snaps v)"
    "\<And>s. s \<in> set (mv_snaps v) \<Longrightarrow> snap_ok R v s" "sorted_by begin_id (mv_rx v)"
    "\<And>t. t \<in> set (mv_rx v) \<Longrightarrow> tuple_ok R v t" "\<And>x. x \<in> fst E \<Longrightarrow> ended_ok R v x"
    "begin_id ` set (mv_rx v) \<subseteq> fst E" "mv_oldest v \<le> mv_min v"
    "\<And>s. s \<in> set (mv_snaps v) \<Longrightarrow> set (sn_live s) \<subseteq> set (mv_lives v) \<union> fst E \<union> snd E"
  using assms by (auto simp: mv_inv_def)

lemma mv_begin_inv:
  assumes "mv_inv E R v" "mv_last v < - 1"
  shows "mv_inv E (insert (mv_last v + 1) R) (mv_begin ro v)"
proof -
  note inv = mv_invD [OF assms(1)]
  define x where "x = mv_last v + 1"
  have lt: "mv_last v < x" using word_less_add_1 [OF assms(2)] by (simp add: x_def)
  have fresh: "x \<notin> R" "\<forall>y\<in>R. y < x" "0 < x"
    using inv(3) lt by (metis leD, metis le_less_trans, metis word_gt_0 word_not_simps(1))
  let ?v = "mv_begin ro v"
  have v': "mv_snaps ?v = mv_snaps v" "mv_rx ?v = mv_rx v" "mv_last ?v = x" "mv_oldest ?v = mv_min ?v"
    "mv_lives ?v = (if ro then mv_lives v else mv_lives v @ [x])"
    by (auto simp: mv_begin_def Let_def x_def mv_min_def)
  have "snap_ok (insert x R) ?v s" if "s \<in> set (mv_snaps v)" for s
  proof -
    have s: "snap_ok R v s" using inv(5) that .
    then have "sn_id s < x" using lt by (auto simp: snap_ok_def)
    then show ?thesis using s by (auto simp: snap_ok_def v')
  qed
  moreover have "tuple_ok (insert x R) ?v t" if "t \<in> set (mv_rx v)" for t
  proof -
    have t: "tuple_ok R v t" using inv(7) that .
    then have "end_id t < x" using lt by (auto simp: tuple_ok_def)
    then show ?thesis using t by (auto simp: tuple_ok_def v')
  qed
  moreover have "ended_ok (insert x R) ?v y" if "y \<in> fst E" for y
    using inv(8) [OF that] lt by (auto simp: ended_ok_def v')
  moreover have "sorted_by (\<lambda>y. y) (mv_lives ?v)" "set (mv_lives ?v) \<subseteq> insert x R"
    using inv(1,2) fresh by (auto simp: v')
  moreover have "\<forall>y\<in>insert x R. 0 < y \<and> y \<le> mv_last ?v"
    using inv(3) fresh by (auto simp: v' less_imp_le)
  moreover have "set (sn_live s) \<subseteq> set (mv_lives ?v) \<union> fst E \<union> snd E" if "s \<in> set (mv_snaps v)" for s
    using inv(11) [OF that] by (auto simp: v')
  ultimately show ?thesis
    using inv(4,6,9) by (simp add: mv_inv_def v' flip: x_def)
qed

lemma mv_snap_inv:
  assumes "mv_inv E R v" "mv_last v < - 1" "p \<in> R"
  shows "mv_inv E R (mv_snap p v)"
proof -
  note inv = mv_invD [OF assms(1)]
  define x where "x = mv_last v + 1"
  have lt: "mv_last v < x" using word_less_add_1 [OF assms(2)] by (simp add: x_def)
  have fresh: "x \<notin> R" "\<forall>y\<in>R. y < x" using inv(3) lt by (metis leD, metis le_less_trans)
  let ?v = "mv_snap p v" and ?s = "\<lparr>sn_id = x, sn_root = p, sn_live = mv_lives v\<rparr>"
  have v': "mv_snaps ?v = mv_snaps v @ [?s]" "mv_rx ?v = mv_rx v" "mv_last ?v = x"
    "mv_oldest ?v = mv_oldest v" "mv_lives ?v = mv_lives v"
    by (simp_all add: mv_snap_def x_def)
  have sx: "sn_id s < x" if "s \<in> set (mv_snaps v)" for s
    using inv(5) [OF that] lt by (auto simp: snap_ok_def)
  have "snap_ok R ?v s" if "s \<in> set (mv_snaps v)" for s
    using inv(5) [OF that] sx [OF that] by (auto simp: snap_ok_def v')
  moreover have "snap_ok R ?v ?s"
    using inv(1-3) fresh assms(3) by (auto simp: snap_ok_def v')
  moreover have "tuple_ok R ?v t" if "t \<in> set (mv_rx v)" for t
  proof -
    have t: "tuple_ok R v t" using inv(7) that .
    then have "end_id t < x" "begin_id t < x" "begin_id t \<notin> set (mv_lives v)" "end_id t \<notin> set (mv_lives v)"
      using lt inv(2) by (auto simp: tuple_ok_def)
    then show ?thesis using t by (auto simp: tuple_ok_def v')
  qed
  moreover have "ended_ok R ?v y" if "y \<in> fst E" for y
    using inv(8) [OF that] lt inv(2) by (auto simp: ended_ok_def v')
  moreover have "mv_oldest v \<le> mv_min ?v"
    using inv(10) lt by (auto simp: mv_min_le_iff v')
  ultimately show ?thesis
    using inv(1-4,6,9,11) sx fresh by (auto simp: mv_inv_def v')
qed

lemma length_filter_split: "length (filter P (A @ s # B)) = length (filter P (A @ B)) + (if P s then 1 else 0)"
  by simp

lemma mv_unsnap_inv:
  assumes "mv_inv E R v" "mv_snaps v = A @ s # B"
  shows "mv_inv E R (mv_unsnap A s B v)"
proof -
  note inv = mv_invD [OF assms(1)]
  let ?v = "mv_unsnap A s B v" and ?L = "set (sn_live s)"
  have v': "mv_snaps ?v = A @ B" "mv_rx ?v = note_end ?L (mv_rx v)" "mv_last ?v = mv_last v"
    "mv_oldest ?v = mv_oldest v" "mv_lives ?v = mv_lives v"
    by (simp_all add: mv_unsnap_def)
  have sub: "set (A @ B) \<subseteq> set (mv_snaps v)" using assms(2) by auto
  have "snap_ok R ?v u" if "u \<in> set (A @ B)" for u
    using inv(5) [of u] sub that by (auto simp: snap_ok_def v')
  moreover have tup: "tuple_ok R ?v (drop_reference ?L t)"
    if "t \<in> set (mv_rx v)" "references (drop_reference ?L t) > 0" for t
    using inv(7) [OF that(1)] that(2) assms(2)
    by (auto simp: tuple_ok_def v' drop_reference_def split: if_splits)
  then have "tuple_ok R ?v t" if "t \<in> set (note_end ?L (mv_rx v))" for t
    using that by (auto simp: note_end_def)
  moreover have "ended_ok R ?v x" if "x \<in> fst E" for x
  proof -
    have e: "ended_ok R v x" using inv(8) that .
    have "x \<in> begin_id ` set (note_end ?L (mv_rx v))" if u: "u \<in> set (A @ B)" "x \<in> set (sn_live u)" for u
    proof -
      obtain t where t: "t \<in> set (mv_rx v)" "begin_id t = x"
        using e u sub by (auto simp: ended_ok_def)
      have "filter (\<lambda>s. x \<in> set (sn_live s)) (A @ B) \<noteq> []" using u by (auto simp: filter_empty_conv)
      then have "0 < length (filter (\<lambda>s. x \<in> set (sn_live s)) (A @ B))" by blast
      moreover have "references t = length (filter (\<lambda>s. x \<in> set (sn_live s)) (A @ s # B))"
        using inv(7) [OF t(1)] t(2) assms(2) by (simp add: tuple_ok_def)
      ultimately have "0 < references (drop_reference ?L t)"
        using t(2) unfolding length_filter_split by (auto simp: drop_reference_def)
      then have "drop_reference ?L t \<in> set (note_end ?L (mv_rx v))" using t(1) by (simp add: note_end_def)
      then show ?thesis using t(2) by (metis drop_reference_ids(1) image_eqI)
    qed
    then show ?thesis using e sub by (auto simp: ended_ok_def v')
  qed
  moreover have "sorted_by sn_id (A @ B)" using inv(4) assms(2) by auto
  moreover have "mv_oldest v \<le> mv_min ?v"
    using inv(10) note_end_ids [of ?L "mv_rx v"] sub by (fastforce simp: mv_min_le_iff v')
  moreover have "set (sn_live u) \<subseteq> set (mv_lives v) \<union> fst E \<union> snd E" if "u \<in> set (A @ B)" for u
    using inv(11) [of u] sub that by auto
  moreover have "begin_id ` set (note_end ?L (mv_rx v)) \<subseteq> fst E"
    using inv(9) note_end_ids [of ?L "mv_rx v"] by auto
  ultimately show ?thesis
    using inv(1-3,6) note_end_sorted [of "mv_rx v"]
    by (simp add: mv_inv_def v')
qed

lemma mv_end_inv:
  assumes "mv_inv E R v" "mv_last v < - 1" "x \<in> R" "\<forall>s\<in>set (mv_snaps v). sn_root s \<noteq> x"
    and "wrote \<longrightarrow> x \<in> set (mv_lives v)"
  shows "mv_inv (note_ended x wrote (x \<in> set (mv_lives v)) E) (R - {x}) (mv_end x wrote v)"
proof -
  note inv = mv_invD [OF assms(1)]
  let ?n = "length (filter (\<lambda>s. sn_id s > x) (mv_snaps v))"
  let ?v = "mv_end x wrote v" and ?lives = "filter (\<lambda>y. y \<noteq> x) (mv_lives v)"
  let ?E = "note_ended x wrote (x \<in> set (mv_lives v)) E"
  have live_iff: "x \<in> set (sn_live s) \<longleftrightarrow> x < sn_id s" if "wrote" "s \<in> set (mv_snaps v)" for s
    using inv(5) [OF that(2)] assms(5) that(1) by (auto simp: snap_ok_def)
  have lives: "sorted_by (\<lambda>y. y) ?lives"
    using inv(1) by (simp add: sorted_by_def sorted_wrt_filter)
  have xs: "x \<notin> sn_id ` set (mv_snaps v)" "x \<notin> begin_id ` set (mv_rx v)" "x \<le> mv_last v"
    using inv(3,5,7) assms(3) by (auto simp: snap_ok_def tuple_ok_def)
  show ?thesis
  proof (cases "wrote \<and> ?n > 0")
    case False
    then have v': "?v = v\<lparr>mv_lives := ?lives\<rparr>" by (auto simp: mv_end_def Let_def)
    have nox: "x \<notin> set (sn_live s)" if "wrote" "s \<in> set (mv_snaps v)" for s
      using False that live_iff by (auto simp: filter_empty_conv)
    have "snap_ok (R - {x}) ?v s" if "s \<in> set (mv_snaps v)" for s
      using inv(5) [OF that] assms(4) that by (auto simp: snap_ok_def v')
    moreover have "tuple_ok (R - {x}) ?v t" if "t \<in> set (mv_rx v)" for t
      using inv(7) [OF that] by (auto simp: tuple_ok_def v')
    moreover have "ended_ok (R - {x}) ?v y" if "y \<in> fst E" for y
      using inv(8) [OF that] by (auto simp: ended_ok_def v')
    moreover have "ended_ok (R - {x}) (v\<lparr>mv_lives := ?lives\<rparr>) x" if "wrote"
      using nox [OF that] xs by (auto simp: ended_ok_def)
    moreover have "mv_oldest v \<le> mv_min ?v" using inv(10) by (auto simp: mv_min_le_iff v')
    moreover have "set (sn_live s) \<subseteq> set ?lives \<union> fst ?E \<union> snd ?E" if "s \<in> set (mv_snaps v)" for s
      using inv(11) [OF that] by (auto simp: note_ended_def)
    ultimately show ?thesis
      using inv(2-4,6,9) lives by (auto simp: mv_inv_def v' note_ended_def)
  next
    case True
    define e where "e = mv_last v + 1"
    have lt: "mv_last v < e" using word_less_add_1 [OF assms(2)] by (simp add: e_def)
    let ?t = "\<lparr>begin_id = x, end_id = e, references = ?n\<rparr>"
    obtain i rx where rx: "omt_insert (key_cmp begin_id x) (mv_rx v) ?t = Inr (rx, i)"
      "sorted_by begin_id rx" "set rx = insert ?t (set (mv_rx v))"
      using omt_insert_sorted [OF inv(6), of ?t] xs(2) by (metis referenced_xid_tuple.select_convs(1))
    have v': "?v = v\<lparr>mv_lives := ?lives, mv_last := e, mv_rx := rx\<rparr>"
      using True rx(1) by (simp add: mv_end_def Let_def e_def)
    have se: "sn_id s < e" if "s \<in> set (mv_snaps v)" for s
      using inv(5) [OF that] lt by (auto simp: snap_ok_def)
    have "snap_ok (R - {x}) ?v s" if "s \<in> set (mv_snaps v)" for s
      using inv(5) [OF that] assms(4) that se [OF that] by (auto simp: snap_ok_def v')
    moreover have "tuple_ok (R - {x}) ?v t" if "t \<in> set (mv_rx v)" for t
      using inv(7) [OF that] lt by (auto simp: tuple_ok_def v')
    moreover have "tuple_ok (R - {x}) ?v ?t"
    proof -
      have "filter (\<lambda>s. x \<in> set (sn_live s)) (mv_snaps v) = filter (\<lambda>s. x < sn_id s) (mv_snaps v)"
        using True live_iff by (intro filter_cong) auto
      moreover have "e \<notin> R" "x < e" using inv(3) lt xs(3) by (metis leD, metis le_less_trans)
      moreover have "e \<notin> set (sn_live s)" if "s \<in> set (mv_snaps v)" for s
        using inv(5) [OF that] se [OF that] by (auto simp: snap_ok_def)
      ultimately show ?thesis
        unfolding v' tuple_ok_def using True live_iff se xs(1) by (auto simp: image_iff)
    qed
    moreover have "ended_ok (R - {x}) ?v y" if "y \<in> fst E" for y
      using inv(8) [OF that] lt rx(3) by (auto simp: ended_ok_def v')
    moreover have "ended_ok (R - {x}) ?v x"
      using xs lt rx(3) by (auto simp: ended_ok_def v')
    moreover have "mv_oldest v \<le> mv_min ?v"
      unfolding v' mv_min_le_iff using inv(10) assms(5) True lt rx(3) by (auto simp: mv_min_le_iff)
    moreover have "\<forall>y\<in>R. y \<le> e" using inv(3) lt by (metis le_less_trans less_imp_le)
    moreover have "set (sn_live s) \<subseteq> set ?lives \<union> insert x (fst E) \<union> snd E" if "s \<in> set (mv_snaps v)" for s
      using inv(11) [OF that] by auto
    ultimately show ?thesis
      unfolding v' mv_inv_def using inv(2-4,9) lives rx True by (auto simp: note_ended_def)
  qed
qed

end
