(* ===== verification/Txn_Refine.thy ===== *)
theory Txn_Refine
  imports Mvcc
begin

text \<open>
  The transaction manager refines the MVCC bookkeeping of \<open>Mvcc\<close>: \<open>mgr_wf\<close> relates the pointer
  state to the active transactions \<open>A\<close> and the snapshot list \<open>S\<close>, \<open>abs_mgr\<close> is the abstraction, and every
  operation returns (no assertion fires, no dangling list is used) and commutes with the
  abstraction.
\<close>

abbreviation sid :: "txn_manager \<Rightarrow> TOKUTXN \<Rightarrow> TXNID" where
  "sid m t \<equiv> snapshot_txnid64 (txns m t)"

abbreviation rid :: "txn_manager \<Rightarrow> TOKUTXN \<Rightarrow> TXNID" where
  "rid m t \<equiv> parent_id64 (txns m t)"

definition abs_snap :: "txn_manager \<Rightarrow> TOKUTXN \<Rightarrow> snap" where
  "abs_snap m t = \<lparr>sn_id = sid m t, sn_root = rid m t,
     sn_live = (case live_list m t of Some L \<Rightarrow> L | None \<Rightarrow> [])\<rparr>"

definition abs_mgr :: "txn_manager \<Rightarrow> TOKUTXN list \<Rightarrow> mvcc" where
  "abs_mgr m S = \<lparr>mv_lives = live_root_ids m, mv_snaps = map (abs_snap m) S, mv_rx = referenced_xids m,
     mv_last = last_xid m, mv_oldest = last_calculated_oldest_referenced_xid m\<rparr>"

definition owns :: "tokutxn \<Rightarrow> bool" where
  "owns t \<longleftrightarrow> txn_copies_snapshot (snapshot_type t) (txn_parent t)"

definition records :: "tokutxn \<Rightarrow> bool" where
  "records t \<longleftrightarrow> txn_records_snapshot (snapshot_type t) (txn_parent t)"

lemma records_owns: "records t \<Longrightarrow> owns t"
  by (simp add: records_def owns_def txn_copies_snapshot_def)

text \<open>The lists owned by the transactions of a set are allocated and pairwise different.\<close>

definition lists_ok :: "txn_manager \<Rightarrow> TOKUTXN set \<Rightarrow> bool" where
  "lists_ok m A \<longleftrightarrow>
     (\<forall>t\<in>A. owns (txns m t) \<longrightarrow>
        (\<exists>a L. live_root_txn_list (txns m t) = Some a \<and> xid_lists m a = Some L \<and> a < next_list m)) \<and>
     inj_on (\<lambda>t. live_root_txn_list (txns m t)) {t\<in>A. owns (txns m t)}"

text \<open>The parent structure: every active transaction hangs below an active root with its id.\<close>

definition member_ok :: "txn_manager \<Rightarrow> TOKUTXN set \<Rightarrow> TOKUTXN \<Rightarrow> bool" where
  "member_ok m A t \<longleftrightarrow>
     (let r = child_manager (txns m t) in
      r \<in> A \<and> rid m r = rid m t \<and> txn_parent (txns m r) = None \<and>
      (case txn_parent (txns m t) of
         None \<Rightarrow> r = t \<and> (\<not> owns (txns m t) \<longrightarrow> live_root_txn_list (txns m t) = None)
       | Some p \<Rightarrow> p \<in> A \<and> child_manager (txns m p) = r \<and> snapshot_type (txns m t) \<noteq> TXN_COPIES_SNAPSHOT))"

definition family_ok :: "txn_manager \<Rightarrow> TOKUTXN set \<Rightarrow> bool" where
  "family_ok m A \<longleftrightarrow>
     (\<forall>t\<in>A. member_ok m A t) \<and> inj_on (rid m) {t\<in>A. txn_parent (txns m t) = None}"

lemmas family_defs = family_ok_def member_ok_def Let_def

definition mgr_wf :: "txn_manager \<Rightarrow> TOKUTXN set \<Rightarrow> TOKUTXN list \<Rightarrow> bool" where
  "mgr_wf m A S \<longleftrightarrow>
     dll m S \<and> num_snapshots m = length S \<and> set S \<subseteq> A \<and>
     (\<forall>t\<in>A. t \<in> set S \<longleftrightarrow> records (txns m t)) \<and>
     live_root_ids m = map (rid m) (live_root_txns m) \<and> set (live_root_txns m) \<subseteq> A \<and>
     (\<forall>t\<in>A. t \<in> set (live_root_txns m) \<longleftrightarrow>
        txn_parent (txns m t) = None \<and> \<not> declared_read_only (txns m t)) \<and>
     lists_ok m A \<and> family_ok m A"

subsection \<open>Frames of the pointer operations\<close>

definition same_core :: "tokutxn \<Rightarrow> tokutxn \<Rightarrow> bool" where
  "same_core x y \<longleftrightarrow>
     x\<lparr>snapshot_next := None, snapshot_prev := None, snapshot_txnid64 := 0, txn_child := None, m_last_xid := 0\<rparr> =
     y\<lparr>snapshot_next := None, snapshot_prev := None, snapshot_txnid64 := 0, txn_child := None, m_last_xid := 0\<rparr>"

lemma same_coreD:
  assumes "same_core x y"
  shows "parent_id64 y = parent_id64 x" "child_id64 y = child_id64 x" "snapshot_type y = snapshot_type x"
    "txn_parent y = txn_parent x" "child_manager y = child_manager x" "live_root_txn_list y = live_root_txn_list x" "txn_xids y = txn_xids x"
    "begin_was_logged y = begin_was_logged x" "declared_read_only y = declared_read_only x"
    "owns y = owns x" "records y = records x"
  using assms by (cases x; cases y; simp add: same_core_def owns_def records_def)+

lemma same_core_refl [simp]: "same_core x x"
  by (simp add: same_core_def)

lemma create_snapshot_frame:
  assumes "dll m S"
  obtains m' where "txn_manager_create_snapshot_unlocked m t = Some m'"
    "\<And>u. same_core (txns m u) (txns m' u)" "\<And>u. sid m' u = (if u = t then last_xid m + 1 else sid m u)"
    "xid_lists m' = xid_lists m" "next_list m' = next_list m" "live_root_txns m' = live_root_txns m"
    "live_root_ids m' = live_root_ids m" "referenced_xids m' = referenced_xids m"
    "last_xid m' = last_xid m + 1" "num_snapshots m' = num_snapshots m + 1"
    "last_calculated_oldest_referenced_xid m' = last_calculated_oldest_referenced_xid m"
proof -
  have "txn_manager_create_snapshot_unlocked m t \<noteq> None"
    using assms by (auto simp: txn_manager_create_snapshot_unlocked_def dll_def upd_txn_def Let_def)
  then obtain m' where m': "txn_manager_create_snapshot_unlocked m t = Some m'" by auto
  note defs = txn_manager_create_snapshot_unlocked_def upd_txn_def Let_def same_core_def
  show ?thesis
    by (rule that [OF m']) (use m' in \<open>auto simp: defs bind_eq_Some_conv split: option.splits if_splits\<close>)
qed

lemma unlink_snapshot_frame:
  "same_core (txns m u) (txns (unlink_snapshot t m) u)"
  "sid (unlink_snapshot t m) u = sid m u"
  "xid_lists (unlink_snapshot t m) = xid_lists m" "next_list (unlink_snapshot t m) = next_list m"
  "live_root_txns (unlink_snapshot t m) = live_root_txns m"
  "live_root_ids (unlink_snapshot t m) = live_root_ids m"
  "referenced_xids (unlink_snapshot t m) = referenced_xids m"
  "last_xid (unlink_snapshot t m) = last_xid m" "num_snapshots (unlink_snapshot t m) = num_snapshots m"
  "last_calculated_oldest_referenced_xid (unlink_snapshot t m) = last_calculated_oldest_referenced_xid m"
  by (auto simp: unlink_snapshot_def Let_def upd_txn_def same_core_def split: option.split)

lemma live_list_frame:
  assumes "same_core (txns m u) (txns m' u)" "xid_lists m' = xid_lists m"
  shows "live_list m' u = live_list m u"
  using same_coreD(6) [OF assms(1)] assms(2) by (simp add: live_list_def)

lemma remove_snapshot_unfold:
  "txn_manager_remove_snapshot_unlocked t m = do {
     let m' = (unlink_snapshot t m)\<lparr>num_snapshots := num_snapshots (unlink_snapshot t m) - 1\<rparr>;
     live \<leftarrow> live_list m' t;
     if length (referenced_xids m') > 0 \<and> length live > 0 then do {
       rx \<leftarrow> (if length live > length (referenced_xids m') \<and> length (referenced_xids m') < 2000
              then note_snapshot_txn_end_by_txn_live_list live (referenced_xids m')
              else note_snapshot_txn_end_by_ref_xids live (referenced_xids m'));
       Some (m'\<lparr>referenced_xids := rx\<rparr>)
     }
     else Some m' }"
  unfolding txn_manager_remove_snapshot_unlocked_def unlink_snapshot_def by (simp only: Let_def)

lemma remove_snapshot_eq:
  assumes "live_list m t = Some L" "sorted_by begin_id (referenced_xids m)" "sorted_by (\<lambda>y. y) L"
    and "\<forall>r\<in>set (referenced_xids m). references r > 0"
  shows "txn_manager_remove_snapshot_unlocked t m =
    Some ((unlink_snapshot t m)\<lparr>num_snapshots := num_snapshots m - 1,
      referenced_xids := note_end (set L) (referenced_xids m)\<rparr>)"
proof -
  let ?m = "unlink_snapshot t m" and ?rx = "referenced_xids m"
  have L: "live_list (?m\<lparr>num_snapshots := num_snapshots ?m - 1\<rparr>) t = Some L"
    using live_list_frame [OF unlink_snapshot_frame(1,3)] assms(1) by (simp add: live_list_def)
  have "note_end {} ?rx = ?rx" "note_end (set L) [] = []"
    using assms(4) note_end_empty by (auto simp: note_end_def)
  then show ?thesis
    unfolding remove_snapshot_unfold
    using L note_snapshot_txn_end_by_ref_xids_eq [OF assms(2,4) sorted_by_distinct [OF assms(3)]]
      note_snapshot_txn_end_by_txn_live_list_eq [OF assms(3,4)]
    by (cases "?rx = []"; cases "L = []") (simp_all add: Let_def unlink_snapshot_frame)
qed

subsection \<open>Adding and removing an active transaction\<close>

lemma mgr_wf_add:
  assumes wf: "mgr_wf m A S" and t: "t \<notin> A"
    and core: "\<And>u. u \<in> A \<Longrightarrow> same_core (txns m u) (txns m' u)"
    and S': "dll m' S'" "num_snapshots m' = length S'" "S' = (if records (txns m' t) then S @ [t] else S)"
    and live: "live_root_txns m' = (if txn_parent (txns m' t) = None \<and> \<not> declared_read_only (txns m' t)
        then live_root_txns m @ [t] else live_root_txns m)"
      "live_root_ids m' = map (rid m') (live_root_txns m')"
    and lists: "\<And>a. a < next_list m \<Longrightarrow> xid_lists m' a = xid_lists m a" "next_list m \<le> next_list m'"
      "owns (txns m' t) \<Longrightarrow> \<exists>a L. live_root_txn_list (txns m' t) = Some a \<and> xid_lists m' a = Some L \<and>
         next_list m \<le> a \<and> a < next_list m'"
    and fam: "case txn_parent (txns m' t) of
        None \<Rightarrow> child_manager (txns m' t) = t \<and> rid m' t \<notin> rid m ` A \<and>
          (\<not> owns (txns m' t) \<longrightarrow> live_root_txn_list (txns m' t) = None)
      | Some p \<Rightarrow> p \<in> A \<and> child_manager (txns m' t) = child_manager (txns m p) \<and> rid m' t = rid m p \<and>
          snapshot_type (txns m' t) \<noteq> TXN_COPIES_SNAPSHOT"
  shows "mgr_wf m' (insert t A) S'"
proof -
  note c = same_coreD [OF core]
  have wfD: "set S \<subseteq> A" "\<forall>u\<in>A. u \<in> set S \<longleftrightarrow> records (txns m u)" "set (live_root_txns m) \<subseteq> A"
    "\<forall>u\<in>A. u \<in> set (live_root_txns m) \<longleftrightarrow> txn_parent (txns m u) = None \<and> \<not> declared_read_only (txns m u)"
    "lists_ok m A" "family_ok m A"
    using wf by (auto simp: mgr_wf_def)
  have "set S' \<subseteq> insert t A" "\<forall>u\<in>insert t A. u \<in> set S' \<longleftrightarrow> records (txns m' u)"
    using wfD(1,2) t c(11) S'(3) by auto
  moreover have "set (live_root_txns m') \<subseteq> insert t A"
    "\<forall>u\<in>insert t A. u \<in> set (live_root_txns m') \<longleftrightarrow>
       txn_parent (txns m' u) = None \<and> \<not> declared_read_only (txns m' u)"
    using wfD(3,4) t c(4,9) live(1) by auto
  moreover have "lists_ok m' (insert t A)"
  proof -
    have old: "\<exists>a L. live_root_txn_list (txns m' u) = Some a \<and> xid_lists m' a = Some L \<and> a < next_list m"
      if "u \<in> A" "owns (txns m' u)" for u
      using wfD(5) that c(6,10) [OF that(1)] lists(1) by (fastforce simp: lists_ok_def)
    have "inj_on (\<lambda>u. live_root_txn_list (txns m' u)) {u\<in>A. owns (txns m' u)}"
      using wfD(5) c(6,10) by (auto simp: lists_ok_def inj_on_def)
    moreover have "live_root_txn_list (txns m' u) \<noteq> live_root_txn_list (txns m' t)"
      if "u \<in> A" "owns (txns m' u)" "owns (txns m' t)" for u
      using old [OF that(1,2)] lists(3) [OF that(3)] by auto
    ultimately have "inj_on (\<lambda>u. live_root_txn_list (txns m' u)) {u\<in>insert t A. owns (txns m' u)}"
      unfolding inj_on_def by (metis (mono_tags, lifting) insert_iff mem_Collect_eq)
    then show ?thesis
      using old lists(2,3) by (fastforce simp: lists_ok_def)
  qed
  moreover have "family_ok m' (insert t A)"
  proof -
    have A: "member_ok m' A u" if u: "u \<in> A" for u
    proof -
      have "member_ok m A u" using wfD(6) u by (simp add: family_ok_def)
      moreover from this have "child_manager (txns m u) \<in> A"
        "\<And>p. txn_parent (txns m u) = Some p \<Longrightarrow> p \<in> A"
        by (auto simp: member_ok_def Let_def)
      ultimately show ?thesis
        using c [OF u] c(1,4,5) by (auto simp: member_ok_def Let_def split: option.splits)
    qed
    have T: "member_ok m' (insert t A) t"
    proof (cases "txn_parent (txns m' t)")
      case (Some p)
      then have p: "p \<in> A" using fam by simp
      show ?thesis using A [OF p] c(1,5) [OF p] fam Some by (simp add: member_ok_def Let_def)
    qed (use fam in \<open>simp add: member_ok_def Let_def\<close>)
    have "inj_on (rid m') {u\<in>A. txn_parent (txns m' u) = None}"
      using wfD(6) c(1,4) by (auto simp: family_ok_def inj_on_def)
    moreover have "rid m' u \<noteq> rid m' t" if "u \<in> A" "txn_parent (txns m' t) = None" for u
      using fam that(2) imageI [OF that(1), of "rid m"] c(1) [OF that(1)] by auto
    ultimately have "inj_on (rid m') {u\<in>insert t A. txn_parent (txns m' u) = None}"
      unfolding inj_on_def by (metis (mono_tags, lifting) insert_iff mem_Collect_eq)
    moreover have "member_ok m' (insert t A) u" if "u \<in> insert t A" for u
    proof (cases "u = t")
      case False
      then show ?thesis using A [of u] that by (simp add: member_ok_def Let_def split: option.splits)
    qed (use T in simp)
    ultimately show ?thesis by (simp only: family_ok_def) blast
  qed
  ultimately show ?thesis using S'(1,2) live(2) by (simp add: mgr_wf_def)
qed

lemma mgr_wf_remove:
  assumes wf: "mgr_wf m A S" and t: "t \<in> A"
    and core: "\<And>u. u \<in> A - {t} \<Longrightarrow> same_core (txns m u) (txns m' u)"
    and S': "dll m' S'" "num_snapshots m' = length S'" "set S' = set S - {t}"
    and live: "set (live_root_txns m') = set (live_root_txns m) - {t}"
      "live_root_ids m' = map (rid m') (live_root_txns m')"
    and lists: "\<And>a u. u \<in> A - {t} \<Longrightarrow> owns (txns m u) \<Longrightarrow> live_root_txn_list (txns m u) = Some a \<Longrightarrow>
         xid_lists m' a = xid_lists m a" "next_list m' = next_list m"
    and leaf: "\<And>u. u \<in> A - {t} \<Longrightarrow> child_manager (txns m u) \<noteq> t \<and> txn_parent (txns m u) \<noteq> Some t"
  shows "mgr_wf m' (A - {t}) S'"
proof -
  note c = same_coreD [OF core]
  have wfD: "set S \<subseteq> A" "\<forall>u\<in>A. u \<in> set S \<longleftrightarrow> records (txns m u)" "set (live_root_txns m) \<subseteq> A"
    "\<forall>u\<in>A. u \<in> set (live_root_txns m) \<longleftrightarrow> txn_parent (txns m u) = None \<and> \<not> declared_read_only (txns m u)"
    "lists_ok m A" "family_ok m A"
    using wf by (auto simp: mgr_wf_def)
  have "lists_ok m' (A - {t})"
  proof -
    have "\<exists>a L. live_root_txn_list (txns m' u) = Some a \<and> xid_lists m' a = Some L \<and> a < next_list m'"
      if "u \<in> A - {t}" "owns (txns m' u)" for u
      using wfD(5) that c(6,10) [OF that(1)] lists by (fastforce simp: lists_ok_def)
    moreover have "inj_on (\<lambda>u. live_root_txn_list (txns m' u)) {u\<in>A - {t}. owns (txns m' u)}"
      using wfD(5) c(6,10) by (auto simp: lists_ok_def inj_on_def)
    ultimately show ?thesis by (simp add: lists_ok_def)
  qed
  moreover have "family_ok m' (A - {t})"
  proof -
    have "member_ok m' (A - {t}) u" if u: "u \<in> A - {t}" for u
    proof -
      have M: "member_ok m A u" using wfD(6) u by (simp add: family_ok_def)
      then have r: "child_manager (txns m u) \<in> A - {t}"
        "\<And>p. txn_parent (txns m u) = Some p \<Longrightarrow> p \<in> A - {t}"
        using leaf [OF u] by (auto simp: member_ok_def Let_def)
      show ?thesis
        using M c [OF u] c(1,4) [OF r(1)] c(5) [OF r(2)] r
        by (auto simp: member_ok_def Let_def split: option.splits)
    qed
    moreover have "inj_on (rid m') {u\<in>A - {t}. txn_parent (txns m' u) = None}"
      using wfD(6) c(1,4) by (auto simp: family_ok_def inj_on_def)
    ultimately show ?thesis by (simp add: family_ok_def)
  qed
  moreover have "\<forall>u\<in>A - {t}. u \<in> set S' \<longleftrightarrow> records (txns m' u)" using wfD(2) S'(3) c(11) by auto
  moreover have "\<forall>u\<in>A - {t}. u \<in> set (live_root_txns m') \<longleftrightarrow>
      txn_parent (txns m' u) = None \<and> \<not> declared_read_only (txns m' u)"
    using wfD(4) live(1) c(4,9) by auto
  ultimately show ?thesis using wfD(1,3) S' live by (auto simp: mgr_wf_def)
qed

subsection \<open>The oldest referenced id\<close>

lemma sorted_by_hd: "sorted_by key vs \<Longrightarrow> v \<in> set vs \<Longrightarrow> key (hd vs) \<le> key v"
  by (cases vs) (auto intro: less_imp_le)

lemma set_oldest_referenced_xid_eq:
  assumes "dll m S" "sorted_by (\<lambda>y. y) (live_root_ids m)" "sorted_by begin_id (referenced_xids m)"
    and "sorted_by (sid m) S" "last_xid m < - 1"
  shows "set_oldest_referenced_xid m =
    Some (m\<lparr>last_calculated_oldest_referenced_xid := mv_min (abs_mgr m S)\<rparr>)"
proof -
  let ?l = "live_root_ids m" and ?rx = "referenced_xids m" and ?v = "abs_mgr m S"
  let ?o1 = "if ?l = [] then TXNID_MAX else hd ?l"
  let ?o2 = "if ?rx = [] then ?o1 else min (begin_id (hd ?rx)) ?o1"
  let ?o3 = "if S = [] then ?o2 else min (sid m (hd S)) ?o2"
  let ?o = "min (last_xid m) ?o3"
  have sns: "sn_id ` set (mv_snaps ?v) = sid m ` set S"
    by (simp add: abs_mgr_def abs_snap_def image_image)
  have mem: "?o \<in> {mv_last ?v} \<union> set (mv_lives ?v) \<union> begin_id ` set (mv_rx ?v) \<union> sn_id ` set (mv_snaps ?v)"
    using assms(5) unfolding sns by (auto simp: abs_mgr_def min_def TXNID_MAX_def)
  have "?o \<le> mv_min ?v"
    using sorted_by_hd [OF assms(2)] sorted_by_hd [OF assms(3)] sorted_by_hd [OF assms(4)]
    by (auto simp: mv_min_le_iff abs_mgr_def abs_snap_def min_le_iff_disj dest: list.set_sel(1))
  moreover have "mv_min ?v \<le> ?o" using mem unfolding mv_min_def by (intro Min_le) auto
  ultimately have o: "?o = mv_min ?v" by (rule antisym)
  have hd: "snapshot_head m = (if S = [] then None else Some (hd S))" using assms(1) by (simp add: dll_def)
  have "?o \<noteq> TXNID_MAX" using assms(5) by (auto simp: min_def TXNID_MAX_def)
  moreover have "set_oldest_referenced_xid m =
      (if ?o = TXNID_MAX then None else Some (m\<lparr>last_calculated_oldest_referenced_xid := ?o\<rparr>))"
  proof -
    have mn: "(if a < b then a else b) = min a b" for a b :: TXNID by (auto simp: min_def)
    have f: "(case omt_fetch ?l 0 of Inl _ \<Rightarrow> TXNID_MAX | Inr x \<Rightarrow> x) = ?o1"
      "(case omt_fetch ?rx 0 of Inl _ \<Rightarrow> z | Inr r \<Rightarrow> min (begin_id r) z) =
         (if ?rx = [] then z else min (begin_id (hd ?rx)) z)"
      "(case snapshot_head m of None \<Rightarrow> z | Some h \<Rightarrow> min (sid m h) z) =
         (if S = [] then z else min (sid m (hd S)) z)" for z
      by (auto simp: omt_fetch_def hd_conv_nth hd)
    show ?thesis
      unfolding set_oldest_referenced_xid_def Let_def mn f by (simp add: ensure_def split del: if_split) simp
  qed
  ultimately show ?thesis using o by simp
qed

end
