(* ===== verification/Txn_Begin.thy ===== *)
theory Txn_Begin
  imports Txn_Refine
begin

text \<open>
  Beginning and completing transactions (\<open>toku_txn_begin_with_xid\<close>, \<open>toku_txn_complete_txn\<close>):
  each of them returns and refines the corresponding MVCC operations.
\<close>

subsection \<open>Beginning a root transaction\<close>

lemma dll_cong:
  assumes "snapshot_head m' = snapshot_head m" "snapshot_tail m' = snapshot_tail m"
    and "\<And>s. s \<in> set S \<Longrightarrow> snapshot_next (txns m' s) = snapshot_next (txns m s) \<and>
           snapshot_prev (txns m' s) = snapshot_prev (txns m s)"
  shows "dll m' S = dll m S"
  using assms links_cong [of S "\<lambda>t. snapshot_next (txns m' t)" "\<lambda>t. snapshot_next (txns m t)"
      "\<lambda>t. snapshot_prev (txns m' t)" "\<lambda>t. snapshot_prev (txns m t)" None None]
  by (simp add: dll_def)

lemma abs_snap_cong:
  assumes "same_core (txns m s) (txns m' s)" "sid m' s = sid m s"
    and "\<And>a. live_root_txn_list (txns m s) = Some a \<Longrightarrow> xid_lists m' a = xid_lists m a"
  shows "abs_snap m' s = abs_snap m s"
  using assms same_coreD(1,6) [OF assms(1)]
  by (cases "live_root_txn_list (txns m s)") (simp_all add: abs_snap_def live_list_def)

lemma mgr_wf_snapshot_list:
  assumes "mgr_wf m A S" "s \<in> set S"
  shows "s \<in> A" "\<exists>a L. live_root_txn_list (txns m s) = Some a \<and> xid_lists m a = Some L \<and> a < next_list m \<and>
    live_list m s = Some L"
proof -
  show s: "s \<in> A" using assms by (auto simp: mgr_wf_def)
  then have "owns (txns m s)" using assms records_owns by (auto simp: mgr_wf_def)
  moreover have "lists_ok m A" using assms(1) by (simp add: mgr_wf_def)
  ultimately obtain a L where "live_root_txn_list (txns m s) = Some a" "xid_lists m a = Some L" "a < next_list m"
    using s by (auto simp: lists_ok_def)
  then show "\<exists>a L. live_root_txn_list (txns m s) = Some a \<and> xid_lists m a = Some L \<and> a < next_list m \<and>
      live_list m s = Some L"
    by (simp add: live_list_def)
qed

definition fresh_root :: "TOKUTXN \<Rightarrow> TXN_SNAPSHOT_TYPE \<Rightarrow> bool \<Rightarrow> TXNID \<Rightarrow> nat option \<Rightarrow> tokutxn" where
  "fresh_root t ty ro x a =
     \<lparr>parent_id64 = x, child_id64 = TXNID_NONE, snapshot_txnid64 = TXNID_NONE, snapshot_type = ty,
      txn_parent = None, txn_child = None, child_manager = t, m_last_xid = TXNID_NONE,
      live_root_txn_list = a, txn_xids = [], snapshot_next = None, snapshot_prev = None,
      begin_was_logged = False, declared_read_only = ro\<rparr>"

text \<open>The state just before \<open>set_oldest_referenced_xid\<close> in \<open>toku_txn_manager_start_txn\<close>.\<close>

definition started_root :: "TOKUTXN \<Rightarrow> TXN_SNAPSHOT_TYPE \<Rightarrow> bool \<Rightarrow> txn_manager \<Rightarrow> txn_manager" where
  "started_root t ty ro m =
     (let x = last_xid m + 1; c = txn_copies_snapshot ty None
      in m\<lparr>txns := (txns m)(t := fresh_root t ty ro x (if c then Some (next_list m) else None)),
           xid_lists := (if c then (xid_lists m)(next_list m \<mapsto> []) else xid_lists m),
           next_list := (if c then next_list m + 1 else next_list m),
           last_xid := x,
           live_root_txns := (if ro then live_root_txns m else live_root_txns m @ [t]),
           live_root_ids := (if ro then live_root_ids m else live_root_ids m @ [x])\<rparr>)"

lemma begin_root_unfold:
  assumes "length (live_root_ids m) = length (live_root_txns m)"
  shows "toku_txn_begin_txn None t ty ro m = do {
    m \<leftarrow> set_oldest_referenced_xid (started_root t ty ro m);
    m \<leftarrow> (if txn_records_snapshot ty None then txn_manager_create_snapshot_unlocked m t else Some m);
    m \<leftarrow> (if txn_copies_snapshot ty None
          then store_list t (setup_live_root_txn_list (live_root_ids m)) m else Some m);
    m \<leftarrow> (if \<not> ro then txn_create_xids t None m else Some m);
    Some (Inr m) }"
  using assms
  by (cases m; cases ro; cases "txn_copies_snapshot ty None")
    (simp_all add: toku_txn_begin_txn_def toku_txn_manager_start_txn_def toku_txn_create_txn_def
      malloc_list_def toku_txn_update_xids_in_txn_def insert_live_root_def upd_txn_def started_root_def
      fresh_root_def omt_insert_at_def Let_def txn_copies_snapshot_def cong: if_cong)

text \<open>Taking a snapshot: link the transaction, then store the live ids in its list.\<close>

lemma take_snapshot:
  assumes "dll m S" "t \<notin> set S" "snapshot_next (txns m t) = None" "snapshot_prev (txns m t) = None"
    and "live_root_txn_list (txns m t) = Some a" "xid_lists m a = Some L"
    and "\<And>s. s \<in> set S \<Longrightarrow> live_root_txn_list (txns m s) \<noteq> Some a"
  obtains m' where "do { m \<leftarrow> txn_manager_create_snapshot_unlocked m t;
      store_list t (setup_live_root_txn_list (live_root_ids m)) m } = Some m'"
    "dll m' (S @ [t])" "abs_mgr m' (S @ [t]) = mv_snap (rid m t) (abs_mgr m S)"
    "\<And>u. same_core (txns m u) (txns m' u)" "xid_lists m' = (xid_lists m)(a \<mapsto> live_root_ids m)"
    "next_list m' = next_list m" "live_root_txns m' = live_root_txns m"
    "num_snapshots m' = num_snapshots m + 1" "live_root_ids m' = live_root_ids m"
proof -
  obtain m1 where m1: "txn_manager_create_snapshot_unlocked m t = Some m1"
    "\<And>u. same_core (txns m u) (txns m1 u)" "\<And>u. sid m1 u = (if u = t then last_xid m + 1 else sid m u)"
    "xid_lists m1 = xid_lists m" "next_list m1 = next_list m" "live_root_txns m1 = live_root_txns m"
    "live_root_ids m1 = live_root_ids m" "referenced_xids m1 = referenced_xids m"
    "last_xid m1 = last_xid m + 1" "num_snapshots m1 = num_snapshots m + 1"
    "last_calculated_oldest_referenced_xid m1 = last_calculated_oldest_referenced_xid m"
    using create_snapshot_frame [OF assms(1), of t] by blast
  have a: "live_root_txn_list (txns m1 t) = Some a" using same_coreD(6) [OF m1(2)] assms(5) by simp
  let ?m = "m1\<lparr>xid_lists := (xid_lists m)(a \<mapsto> live_root_ids m)\<rparr>"
  have st: "store_list t (setup_live_root_txn_list (live_root_ids m1)) m1 = Some ?m"
    using a assms(6) m1(4,7) by (auto simp: store_list_def setup_live_root_txn_list_def)
  have d: "dll ?m (S @ [t])"
    using dll_append [OF assms(1-4) m1(1)] by (simp add: dll_cong [of ?m m1])
  have old: "abs_snap ?m s = abs_snap m s" if "s \<in> set S" for s
    using that assms(2,7) m1(2,3) by (intro abs_snap_cong) auto
  have new: "abs_snap ?m t = \<lparr>sn_id = last_xid m + 1, sn_root = rid m t, sn_live = live_root_ids m\<rparr>"
    using a m1(3) same_coreD(1) [OF m1(2)] by (simp add: abs_snap_def live_list_def)
  have "abs_mgr ?m (S @ [t]) = mv_snap (rid m t) (abs_mgr m S)"
    using old new m1(7-9,11) by (simp add: abs_mgr_def mv_snap_def)
  then show ?thesis
    using that [of ?m] m1(1,2,5-7,10) st d by simp
qed

lemma started_root_abs:
  assumes "mgr_wf m A S" "t \<notin> A"
  shows "abs_mgr (started_root t ty ro m) S = (abs_mgr m S)\<lparr>mv_last := last_xid m + 1,
      mv_lives := (if ro then live_root_ids m else live_root_ids m @ [last_xid m + 1])\<rparr>"
    and "dll (started_root t ty ro m) S"
    and "\<And>u. u \<in> A \<Longrightarrow> txns (started_root t ty ro m) u = txns m u"
proof -
  let ?m = "started_root t ty ro m"
  show tx: "\<And>u. u \<in> A \<Longrightarrow> txns ?m u = txns m u"
    using assms(2) by (auto simp: started_root_def Let_def)
  have "abs_snap ?m s = abs_snap m s" if "s \<in> set S" for s
    using mgr_wf_snapshot_list [OF assms(1) that] tx by (intro abs_snap_cong) (auto simp: started_root_def Let_def)
  then show "abs_mgr ?m S = (abs_mgr m S)\<lparr>mv_last := last_xid m + 1,
      mv_lives := (if ro then live_root_ids m else live_root_ids m @ [last_xid m + 1])\<rparr>"
    by (simp add: abs_mgr_def started_root_def Let_def)
  have "dll m S" "set S \<subseteq> A" using assms(1) by (auto simp: mgr_wf_def)
  then show "dll ?m S"
    using assms(2) by (subst dll_cong [of ?m m]) (auto simp: started_root_def Let_def)
qed

text \<open>Ids are drawn from a 64-bit counter; \<open>room\<close> keeps it from wrapping during one operation.\<close>

definition room :: "TXNID \<Rightarrow> bool" where
  "room x \<longleftrightarrow> unat x + 3 < 2 ^ 64"

lemma word_room: "unat (x :: TXNID) + 1 < 2 ^ 64 \<Longrightarrow> x < - 1 \<and> unat (x + 1) = unat x + 1"
  by (simp add: word_less_nat_alt unsigned_minus_1_eq_mask mask_eq_exp_minus_1 unat_word_ariths)

lemma roomD: "room x \<Longrightarrow> x < - 1 \<and> x + 1 < - 1 \<and> x + 1 + 1 < - 1"
  using word_room [of x] word_room [of "x + 1"] word_room [of "x + 1 + 1"] by (simp add: room_def)

lemma sorted_by_map: "sorted_by key (map f xs) \<longleftrightarrow> sorted_by (\<lambda>x. key (f x)) xs"
  by (simp add: sorted_by_def sorted_wrt_map)

lemma sorted_snaps: "sorted_by sn_id (mv_snaps (abs_mgr m S)) \<longleftrightarrow> sorted_by (sid m) S"
  by (simp add: abs_mgr_def abs_snap_def sorted_by_map)

lemma set_oldest_started_root:
  assumes "mgr_wf m A S" "mv_inv E (rid m ` A) (abs_mgr m S)" "t \<notin> A" "room (last_xid m)"
  obtains c where "set_oldest_referenced_xid (started_root t ty ro m) =
      Some ((started_root t ty ro m)\<lparr>last_calculated_oldest_referenced_xid := c\<rparr>)"
    "abs_mgr ((started_root t ty ro m)\<lparr>last_calculated_oldest_referenced_xid := c\<rparr>) S =
      mv_begin ro (abs_mgr m S)"
proof -
  let ?m = "started_root t ty ro m" and ?v = "abs_mgr m S"
  note abs = started_root_abs [OF assms(1,3), where ty = ty and ro = ro]
  note lt = roomD [OF assms(4)]
  have last: "mv_last ?v = last_xid m" by (simp add: abs_mgr_def)
  have beg: "mv_begin ro ?v = (abs_mgr ?m S)\<lparr>mv_oldest := mv_min (abs_mgr ?m S)\<rparr>"
    by (simp add: abs(1) mv_begin_def Let_def) (simp add: abs_mgr_def)
  have inv': "mv_inv E (insert (last_xid m + 1) (rid m ` A)) (mv_begin ro ?v)"
    using mv_begin_inv [OF assms(2), of ro] lt last by simp
  have "sorted_by (\<lambda>y. y) (live_root_ids ?m)" "sorted_by begin_id (referenced_xids ?m)"
    using mv_invD(1,6) [OF inv'] by (simp_all add: beg) (simp_all add: abs_mgr_def)
  moreover have "sorted_by (sid ?m) S"
    using mv_invD(4) [OF inv'] sorted_snaps [of ?m S] by (simp add: beg)
  moreover have "last_xid ?m < - 1" using lt by (simp add: started_root_def Let_def)
  ultimately have "set_oldest_referenced_xid ?m =
      Some (?m\<lparr>last_calculated_oldest_referenced_xid := mv_min (abs_mgr ?m S)\<rparr>)"
    using abs(2) by (intro set_oldest_referenced_xid_eq)
  moreover have "abs_mgr (?m\<lparr>last_calculated_oldest_referenced_xid := c\<rparr>) S = (abs_mgr ?m S)\<lparr>mv_oldest := c\<rparr>" for c
    by (simp add: abs_mgr_def abs_snap_def live_list_def)
  ultimately show ?thesis using that beg by simp
qed

text \<open>Setting the id stack of a transaction is invisible to the manager.\<close>

definition with_xids :: "TOKUTXN \<Rightarrow> XIDS \<Rightarrow> txn_manager \<Rightarrow> txn_manager" where
  "with_xids t xs = upd_txn t (\<lambda>u. u\<lparr>txn_xids := xs\<rparr>)"

lemma with_xids_fields [simp]:
  "txns (with_xids t xs m) u = (if u = t then (txns m t)\<lparr>txn_xids := xs\<rparr> else txns m u)"
  "xid_lists (with_xids t xs m) = xid_lists m" "next_list (with_xids t xs m) = next_list m"
  "live_root_txns (with_xids t xs m) = live_root_txns m" "live_root_ids (with_xids t xs m) = live_root_ids m"
  "num_snapshots (with_xids t xs m) = num_snapshots m" "last_xid (with_xids t xs m) = last_xid m"
  by (simp_all add: with_xids_def upd_txn_def)

lemma with_xids_abs [simp]:
  "dll (with_xids t xs m) S = dll m S" "abs_mgr (with_xids t xs m) S = abs_mgr m S"
proof -
  show "dll (with_xids t xs m) S = dll m S"
    by (rule dll_cong) (auto simp: with_xids_def upd_txn_def)
  have "abs_snap (with_xids t xs m) s = abs_snap m s" for s
    by (simp add: abs_snap_def live_list_def)
  then show "abs_mgr (with_xids t xs m) S = abs_mgr m S"
    by (simp add: abs_mgr_def) (simp add: with_xids_def upd_txn_def)
qed

lemma owns_records_xids [simp]: "owns (x\<lparr>txn_xids := xs\<rparr>) = owns x" "records (x\<lparr>txn_xids := xs\<rparr>) = records x"
  by (simp_all add: owns_def records_def)

lemma txn_create_xids_root: "txn_create_xids t None m = Some (with_xids t [rid m t] m)"
  by (simp add: txn_create_xids_def toku_xids_create_unknown_child_def toku_xids_get_root_xids_def
      toku_xids_finalize_with_child_def with_xids_def)

text \<open>The three kinds of root snapshot, up to the point where the id stack is set.\<close>

lemma begin_root_snapshot:
  fixes ty ro c
  assumes "mgr_wf m A S" "t \<notin> A"
  defines "m1 \<equiv> (started_root t ty ro m)\<lparr>last_calculated_oldest_referenced_xid := c\<rparr>"
    and "S' \<equiv> (if txn_records_snapshot ty None then S @ [t] else S)"
  obtains m2 where
    "do { m \<leftarrow> (if txn_records_snapshot ty None then txn_manager_create_snapshot_unlocked m1 t else Some m1);
          if txn_copies_snapshot ty None
          then store_list t (setup_live_root_txn_list (live_root_ids m)) m else Some m } = Some m2"
    "dll m2 S'"
    "abs_mgr m2 S' = (if txn_records_snapshot ty None then mv_snap (last_xid m + 1) else (\<lambda>v. v)) (abs_mgr m1 S)"
    "\<And>u. same_core (txns m1 u) (txns m2 u)" "live_root_txns m2 = live_root_txns m1"
    "live_root_ids m2 = live_root_ids m1" "next_list m2 = next_list m1" "num_snapshots m2 = length S'"
    "\<And>a. a < next_list m \<Longrightarrow> xid_lists m2 a = xid_lists m a"
    "txn_copies_snapshot ty None \<Longrightarrow> \<exists>L. xid_lists m2 (next_list m) = Some L"
proof -
  have d: "dll m1 S" "num_snapshots m1 = length S" "set S \<subseteq> A"
    using started_root_abs(2) [OF assms(1,2), of ty ro] assms(1)
    by (simp_all add: m1_def dll_cong [of m1 "started_root t ty ro m"] mgr_wf_def started_root_def Let_def dll_def)
  have fr: "txns m1 t = fresh_root t ty ro (last_xid m + 1) (if txn_copies_snapshot ty None then Some (next_list m) else None)"
    by (simp add: m1_def started_root_def Let_def)
  have xl: "xid_lists m1 = (if txn_copies_snapshot ty None then (xid_lists m)(next_list m \<mapsto> []) else xid_lists m)"
    by (simp add: m1_def started_root_def Let_def)
  have tS: "t \<notin> set S" using assms(2) d(3) by auto
  have own: "live_root_txn_list (txns m1 s) \<noteq> Some (next_list m)" if "s \<in> set S" for s
    using mgr_wf_snapshot_list [OF assms(1) that] assms(2) by (auto simp: m1_def started_root_def Let_def)
  show ?thesis
  proof (cases "txn_records_snapshot ty None")
    case True
    then have c: "txn_copies_snapshot ty None" by (simp add: txn_copies_snapshot_def)
    obtain m2 where m2: "do { m \<leftarrow> txn_manager_create_snapshot_unlocked m1 t;
        store_list t (setup_live_root_txn_list (live_root_ids m)) m } = Some m2"
      "dll m2 (S @ [t])" "abs_mgr m2 (S @ [t]) = mv_snap (rid m1 t) (abs_mgr m1 S)"
      "\<And>u. same_core (txns m1 u) (txns m2 u)" "xid_lists m2 = (xid_lists m1)(next_list m \<mapsto> live_root_ids m1)"
      "next_list m2 = next_list m1" "live_root_txns m2 = live_root_txns m1"
      "num_snapshots m2 = num_snapshots m1 + 1" "live_root_ids m2 = live_root_ids m1"
      using take_snapshot [OF d(1) tS _ _ _ _ own] fr xl c by (auto simp: fresh_root_def)
    have "rid m1 t = last_xid m + 1" using fr by (simp add: fresh_root_def)
    then show ?thesis
      using that [of m2] m2 True c xl d(2) by (simp add: S'_def)
  next
    case False
    show ?thesis
    proof (cases "txn_copies_snapshot ty None")
      case True
      let ?m = "m1\<lparr>xid_lists := (xid_lists m1)(next_list m \<mapsto> live_root_ids m1)\<rparr>"
      have st: "store_list t (setup_live_root_txn_list (live_root_ids m1)) m1 = Some ?m"
        using True fr xl by (auto simp: store_list_def fresh_root_def setup_live_root_txn_list_def)
      have "abs_snap ?m s = abs_snap m1 s" if "s \<in> set S" for s
        using own [OF that] by (intro abs_snap_cong) auto
      then have "abs_mgr ?m S = abs_mgr m1 S" by (simp add: abs_mgr_def)
      moreover have "dll ?m S" using d(1) by (simp add: dll_cong [of ?m m1])
      ultimately show ?thesis
        using that [of ?m] False True st xl d(2) by (simp add: S'_def)
    next
      case none: False
      show ?thesis using that [of m1] False none xl d(1,2) by (simp add: S'_def)
    qed
  qed
qed

lemma begin_root_refines:
  assumes wf: "mgr_wf m A S" and inv: "mv_inv E (rid m ` A) (abs_mgr m S)" and t: "t \<notin> A"
    and rm: "room (last_xid m)"
  obtains m' S' where "toku_txn_begin_txn None t ty ro m = Some (Inr m')" "mgr_wf m' (insert t A) S'"
    "mv_inv E (rid m' ` insert t A) (abs_mgr m' S')" "\<And>u. u \<in> A \<Longrightarrow> same_core (txns m u) (txns m' u)"
    "rid m' t = last_xid m + 1" "txn_parent (txns m' t) = None" "declared_read_only (txns m' t) = ro"
    "\<not> ro \<Longrightarrow> txn_xids (txns m' t) = [last_xid m + 1]" "\<And>u. u \<in> set S \<Longrightarrow> abs_snap m' u = abs_snap m u"
    "txn_records_snapshot ty None \<Longrightarrow> abs_snap m' t = \<lparr>sn_id = last_xid m + 2, sn_root = last_xid m + 1,
       sn_live = (if ro then live_root_ids m else live_root_ids m @ [last_xid m + 1])\<rparr>"
    "records (txns m' t) \<longleftrightarrow> txn_records_snapshot ty None"
proof -
  let ?x = "last_xid m + 1" and ?v = "abs_mgr m S" and ?rec = "txn_records_snapshot ty None"
  have len: "length (live_root_ids m) = length (live_root_txns m)" using wf by (simp add: mgr_wf_def)
  obtain c where c: "set_oldest_referenced_xid (started_root t ty ro m) =
      Some ((started_root t ty ro m)\<lparr>last_calculated_oldest_referenced_xid := c\<rparr>)"
    "abs_mgr ((started_root t ty ro m)\<lparr>last_calculated_oldest_referenced_xid := c\<rparr>) S = mv_begin ro ?v"
    using set_oldest_started_root [OF wf inv t rm] by metis
  define m1 where "m1 = (started_root t ty ro m)\<lparr>last_calculated_oldest_referenced_xid := c\<rparr>"
  define S' where "S' = (if ?rec then S @ [t] else S)"
  obtain m2 where m2:
    "do { m \<leftarrow> (if ?rec then txn_manager_create_snapshot_unlocked m1 t else Some m1);
          if txn_copies_snapshot ty None
          then store_list t (setup_live_root_txn_list (live_root_ids m)) m else Some m } = Some m2"
    "dll m2 S'" "abs_mgr m2 S' = (if ?rec then mv_snap ?x else (\<lambda>v. v)) (abs_mgr m1 S)"
    "\<And>u. same_core (txns m1 u) (txns m2 u)" "live_root_txns m2 = live_root_txns m1"
    "live_root_ids m2 = live_root_ids m1" "next_list m2 = next_list m1" "num_snapshots m2 = length S'"
    "\<And>a. a < next_list m \<Longrightarrow> xid_lists m2 a = xid_lists m a"
    "txn_copies_snapshot ty None \<Longrightarrow> \<exists>L. xid_lists m2 (next_list m) = Some L"
    by (rule begin_root_snapshot [OF wf t, where ty = ty and ro = ro and c = c, folded m1_def S'_def])
      (rule that; assumption)
  define m' where "m' = (if ro then m2 else with_xids t [rid m2 t] m2)"
  have fr: "txns m1 t = fresh_root t ty ro ?x (if txn_copies_snapshot ty None then Some (next_list m) else None)"
    by (simp add: m1_def started_root_def Let_def)
  note ct = same_coreD [OF m2(4) [of t]]
  have m't: "rid m' t = ?x" "txn_parent (txns m' t) = None" "declared_read_only (txns m' t) = ro"
    "child_manager (txns m' t) = t" "records (txns m' t) = ?rec" "owns (txns m' t) = txn_copies_snapshot ty None"
    "live_root_txn_list (txns m' t) = (if txn_copies_snapshot ty None then Some (next_list m) else None)"
    using ct fr by (simp_all add: m'_def fresh_root_def records_def owns_def)
  have m': "dll m' S'" "abs_mgr m' S' = abs_mgr m2 S'" "live_root_txns m' = live_root_txns m1"
    "live_root_ids m' = live_root_ids m1" "next_list m' = next_list m1" "num_snapshots m' = length S'"
    "xid_lists m' = xid_lists m2"
    using m2 by (simp_all add: m'_def)
  have core: "same_core (txns m u) (txns m' u)" if "u \<in> A" for u
  proof -
    have "u \<noteq> t" using that t by auto
    then have "txns m1 u = txns m u" "txns m' u = txns m2 u"
      by (auto simp: m1_def started_root_def Let_def m'_def)
    then show ?thesis using m2(4) [of u] by simp
  qed
  have ids: "rid m' u = rid m u" if "u \<in> A" for u using same_coreD(1) [OF core [OF that]] .
  have fresh: "?x \<notin> rid m ` A"
    using mv_invD(3) [OF inv] word_less_add_1 [of "last_xid m"] roomD [OF rm]
    by (auto simp: abs_mgr_def) (metis leD imageI)
  have R: "rid m' ` insert t A = insert ?x (rid m ` A)" using ids m't(1) by auto
  have run: "toku_txn_begin_txn None t ty ro m = Some (Inr m')"
    using c(1) m2(1) unfolding begin_root_unfold [OF len] m1_def [symmetric]
    by (auto simp: txn_create_xids_root m'_def bind_eq_Some_conv)
  have wf': "mgr_wf m' (insert t A) S'"
  proof (rule mgr_wf_add [OF wf t core m'(1,6)])
    show "S' = (if records (txns m' t) then S @ [t] else S)" by (simp add: S'_def m't)
    show lv: "live_root_txns m' = (if txn_parent (txns m' t) = None \<and> \<not> declared_read_only (txns m' t)
        then live_root_txns m @ [t] else live_root_txns m)"
      by (simp add: m't m'(3) m1_def started_root_def Let_def)
    have "set (live_root_txns m) \<subseteq> A" "live_root_ids m = map (rid m) (live_root_txns m)"
      using wf by (auto simp: mgr_wf_def)
    then show "live_root_ids m' = map (rid m') (live_root_txns m')"
      using ids m't by (auto simp: lv m'(4) m1_def started_root_def Let_def subset_iff)
    show "xid_lists m' a = xid_lists m a" if "a < next_list m" for a using m2(9) that m'(7) by simp
    show "next_list m \<le> next_list m'" by (simp add: m'(5) m1_def started_root_def Let_def)
    show "\<exists>a L. live_root_txn_list (txns m' t) = Some a \<and> xid_lists m' a = Some L \<and>
        next_list m \<le> a \<and> a < next_list m'" if "owns (txns m' t)"
      using that m't(6,7) m2(10) m'(5,7) by (simp add: m1_def started_root_def Let_def)
    show "case txn_parent (txns m' t) of
        None \<Rightarrow> child_manager (txns m' t) = t \<and> rid m' t \<notin> rid m ` A \<and>
          (\<not> owns (txns m' t) \<longrightarrow> live_root_txn_list (txns m' t) = None)
      | Some p \<Rightarrow> p \<in> A \<and> child_manager (txns m' t) = child_manager (txns m p) \<and> rid m' t = rid m p \<and>
          snapshot_type (txns m' t) \<noteq> TXN_COPIES_SNAPSHOT"
      using m't fresh by simp
  qed
  have "mv_inv E (insert ?x (rid m ` A)) (mv_begin ro ?v)"
    using mv_begin_inv [OF inv, of ro] roomD [OF rm] by (simp add: abs_mgr_def)
  moreover have "mv_last (mv_begin ro ?v) = ?x" by (simp add: mv_begin_def Let_def abs_mgr_def)
  ultimately have inv': "mv_inv E (rid m' ` insert t A) (abs_mgr m' S')"
    using mv_snap_inv [of E _ "mv_begin ro ?v" ?x] roomD [OF rm] R m'(2) m2(3) c(2) by (simp add: m1_def)
  have snaps: "abs_snap m' u = abs_snap m u" if "u \<in> set S" for u
  proof -
    have "map (abs_snap m') S = map (abs_snap m) S"
      using arg_cong [OF m'(2), of mv_snaps] m2(3) c(2)
      by (auto simp: S'_def m1_def abs_mgr_def mv_snap_def mv_begin_def Let_def split: if_splits)
    then show ?thesis using that by simp
  qed
  have "abs_snap m' t = \<lparr>sn_id = last_xid m + 2, sn_root = last_xid m + 1,
       sn_live = (if ro then live_root_ids m else live_root_ids m @ [last_xid m + 1])\<rparr>" if ?rec
    using arg_cong [OF m'(2), of mv_snaps] m2(3) c(2) that
    by (auto simp: S'_def m1_def abs_mgr_def mv_snap_def mv_begin_def Let_def)
  then show ?thesis
    using that [of m' S'] run wf' inv' core m't(1-3,5) ct(1) fr snaps by (simp add: m'_def fresh_root_def)
qed

subsection \<open>Beginning a child transaction\<close>

definition next_child_id :: "txn_manager \<Rightarrow> TOKUTXN \<Rightarrow> TXNID" where
  "next_child_id m r =
     (let n = m_last_xid (txns m r) + 1 in if n = rid m r then n + 1 else n)"

definition fresh_child :: "TOKUTXN \<Rightarrow> TOKUTXN \<Rightarrow> TXN_SNAPSHOT_TYPE \<Rightarrow> bool \<Rightarrow> txn_manager \<Rightarrow> tokutxn" where
  "fresh_child t p ty ro m =
     (let r = child_manager (txns m p)
      in \<lparr>parent_id64 = rid m r, child_id64 = next_child_id m r, snapshot_txnid64 = TXNID_NONE,
          snapshot_type = ty, txn_parent = Some p, txn_child = None, child_manager = r,
          m_last_xid = TXNID_NONE, live_root_txn_list = None, txn_xids = [], snapshot_next = None,
          snapshot_prev = None, begin_was_logged = False, declared_read_only = ro\<rparr>)"

definition started_child :: "TOKUTXN \<Rightarrow> TOKUTXN \<Rightarrow> TXN_SNAPSHOT_TYPE \<Rightarrow> bool \<Rightarrow> txn_manager \<Rightarrow> txn_manager" where
  "started_child t p ty ro m =
     (let r = child_manager (txns m p)
      in upd_txn p (\<lambda>u. u\<lparr>txn_child := Some t\<rparr>) (upd_txn r (\<lambda>u. u\<lparr>m_last_xid := next_child_id m r\<rparr>)
           (m\<lparr>txns := (txns m)(t := fresh_child t p ty ro m)\<rparr>)))"

lemma begin_child_unfold:
  assumes "p \<noteq> t" "child_manager (txns m p) \<noteq> t" "rid m (child_manager (txns m p)) = rid m p"
    and "ro \<longrightarrow> declared_read_only (txns m p)" "\<not> ro \<longrightarrow> length (txn_xids (txns m p)) < MAX_NESTED_TRANSACTIONS"
  shows "toku_txn_begin_txn (Some p) t ty ro m = do {
    m \<leftarrow> toku_txn_manager_handle_snapshot_create_for_child_txn t (started_child t p ty ro m) ty;
    m \<leftarrow> (if \<not> ro then txn_create_xids t (Some p) m else Some m);
    Some (Inr m) }"
proof -
  have "start_child_txn t p (toku_txn_create_txn t (Some p) ty False ro m) = Some (started_child t p ty ro m)"
    using assms(1-3)
    by (cases m) (auto simp: start_child_txn_def toku_txn_create_txn_def started_child_def upd_txn_def
        fresh_child_def next_child_id_def Let_def fun_upd_twist)
  then show ?thesis
    using assms(4,5)
    by (cases ro) (simp_all add: toku_txn_begin_txn_def toku_xids_can_create_child_def
        txn_declared_read_only_def MAX_NESTED_TRANSACTIONS_def)
qed

lemma started_child_core:
  assumes "t \<notin> A" "u \<in> A"
  shows "same_core (txns m u) (txns (started_child t p ty ro m) u)"
    "sid (started_child t p ty ro m) u = sid m u"
    "snapshot_next (txns (started_child t p ty ro m) u) = snapshot_next (txns m u)"
    "snapshot_prev (txns (started_child t p ty ro m) u) = snapshot_prev (txns m u)"
    "txn_xids (txns (started_child t p ty ro m) u) = txn_xids (txns m u)"
  using assms by (auto simp: started_child_def Let_def upd_txn_def same_core_def)

lemma started_child_fields:
  "xid_lists (started_child t p ty ro m) = xid_lists m" "next_list (started_child t p ty ro m) = next_list m"
  "live_root_txns (started_child t p ty ro m) = live_root_txns m"
  "live_root_ids (started_child t p ty ro m) = live_root_ids m"
  "num_snapshots (started_child t p ty ro m) = num_snapshots m"
  "snapshot_head (started_child t p ty ro m) = snapshot_head m"
  "snapshot_tail (started_child t p ty ro m) = snapshot_tail m"
  "referenced_xids (started_child t p ty ro m) = referenced_xids m"
  "last_xid (started_child t p ty ro m) = last_xid m"
  "last_calculated_oldest_referenced_xid (started_child t p ty ro m) = last_calculated_oldest_referenced_xid m"
  "p \<noteq> t \<Longrightarrow> child_manager (txns m p) \<noteq> t \<Longrightarrow> txns (started_child t p ty ro m) t = fresh_child t p ty ro m"
  by (simp_all add: started_child_def Let_def upd_txn_def)

lemma started_child_abs:
  assumes "mgr_wf m A S" "t \<notin> A"
  shows "dll (started_child t p ty ro m) S" "abs_mgr (started_child t p ty ro m) S = abs_mgr m S"
proof -
  have S: "set S \<subseteq> A" "dll m S" using assms(1) by (auto simp: mgr_wf_def)
  show "dll (started_child t p ty ro m) S"
    using S started_child_core(3,4) [OF assms(2)]
    by (subst dll_cong [of _ m]) (auto simp: started_child_fields subset_iff)
  have "abs_snap (started_child t p ty ro m) s = abs_snap m s" if "s \<in> set S" for s
    using that S(1) started_child_core(1,2) [OF assms(2)]
    by (intro abs_snap_cong) (auto simp: started_child_fields subset_iff)
  then show "abs_mgr (started_child t p ty ro m) S = abs_mgr m S"
    by (simp add: abs_mgr_def started_child_fields)
qed

lemma begin_child_snapshot:
  fixes ty ro
  assumes "mgr_wf m A S" "t \<notin> A" "p \<in> A" "child_manager (txns m p) \<in> A" "ty \<noteq> TXN_COPIES_SNAPSHOT"
  defines "m1 \<equiv> started_child t p ty ro m" and "S' \<equiv> (if ty = TXN_SNAPSHOT_CHILD then S @ [t] else S)"
  obtains m2 where "toku_txn_manager_handle_snapshot_create_for_child_txn t m1 ty = Some m2" "dll m2 S'"
    "abs_mgr m2 S' = (if ty = TXN_SNAPSHOT_CHILD then mv_snap (rid m1 t) else (\<lambda>v. v)) (abs_mgr m S)"
    "\<And>u. u \<in> A \<Longrightarrow> same_core (txns m u) (txns m2 u)"
    "same_core (fresh_child t p ty ro m) ((txns m2 t)\<lparr>live_root_txn_list := None\<rparr>)"
    "live_root_txns m2 = live_root_txns m" "live_root_ids m2 = live_root_ids m" "next_list m \<le> next_list m2"
    "num_snapshots m2 = length S'" "\<And>a. a < next_list m \<Longrightarrow> xid_lists m2 a = xid_lists m a"
    "ty = TXN_SNAPSHOT_CHILD \<Longrightarrow> \<exists>a L. live_root_txn_list (txns m2 t) = Some a \<and> xid_lists m2 a = Some L \<and>
       next_list m \<le> a \<and> a < next_list m2"
proof -
  have pt: "p \<noteq> t" "child_manager (txns m p) \<noteq> t" using assms by auto
  note fld = started_child_fields [where t = t and p = p and ty = ty and ro = ro and m = m, folded m1_def]
  note abs = started_child_abs [OF assms(1,2), where p = p and ty = ty and ro = ro, folded m1_def]
  note core = started_child_core [OF assms(2), where m = m and p = p and ty = ty and ro = ro, folded m1_def]
  have S: "set S \<subseteq> A" "num_snapshots m = length S" using assms(1) by (auto simp: mgr_wf_def)
  have t1: "txns m1 t = fresh_child t p ty ro m" using fld pt by simp
  have par: "txn_parent (txns m1 t) = Some p" by (simp add: t1 fresh_child_def Let_def)
  have kinds: "txn_records_snapshot ty (Some p) \<longleftrightarrow> ty = TXN_SNAPSHOT_CHILD"
    "txn_copies_snapshot ty (Some p) \<longleftrightarrow> ty = TXN_SNAPSHOT_CHILD"
    using assms(5) by (auto simp: txn_records_snapshot_def txn_copies_snapshot_def)
  show ?thesis
  proof (cases "ty = TXN_SNAPSHOT_CHILD")
    case True
    let ?m = "malloc_list t m1" and ?a = "next_list m"
    have M: "txns ?m u = (if u = t then (txns m1 t)\<lparr>live_root_txn_list := Some ?a\<rparr> else txns m1 u)"
      "xid_lists ?m = (xid_lists m)(?a \<mapsto> [])" "next_list ?m = ?a + 1" "live_root_txns ?m = live_root_txns m"
      "live_root_ids ?m = live_root_ids m" "num_snapshots ?m = num_snapshots m" for u
      using fld by (simp_all add: malloc_list_def upd_txn_def)
    have tS: "t \<notin> set S" using S(1) assms(2) by auto
    have own: "live_root_txn_list (txns ?m s) \<noteq> Some ?a" if "s \<in> set S" for s
      using mgr_wf_snapshot_list [OF assms(1) that] same_coreD(6) [OF core(1)] assms(2) by (auto simp: M)
    have d: "dll ?m S"
      using abs(1) tS by (subst dll_cong [of _ m1]) (auto simp: malloc_list_def upd_txn_def)
    have snap: "abs_snap ?m s = abs_snap m1 s" if "s \<in> set S" for s
      using mgr_wf_snapshot_list [OF assms(1) that] same_coreD(6) [OF core(1)] tS that assms(2)
      by (intro abs_snap_cong) (auto simp: M fld(1))
    then have ab: "abs_mgr ?m S = abs_mgr m S"
      using abs(2) by (simp add: abs_mgr_def) (simp add: malloc_list_def upd_txn_def)
    obtain m2 where m2: "do { m \<leftarrow> txn_manager_create_snapshot_unlocked ?m t;
        store_list t (setup_live_root_txn_list (live_root_ids m)) m } = Some m2"
      "dll m2 (S @ [t])" "abs_mgr m2 (S @ [t]) = mv_snap (rid ?m t) (abs_mgr ?m S)"
      "\<And>u. same_core (txns ?m u) (txns m2 u)" "xid_lists m2 = (xid_lists ?m)(?a \<mapsto> live_root_ids ?m)"
      "next_list m2 = next_list ?m" "live_root_txns m2 = live_root_txns ?m"
      "num_snapshots m2 = num_snapshots ?m + 1" "live_root_ids m2 = live_root_ids ?m"
      by (rule take_snapshot [OF d tS, of ?a "[]"])
        (use own t1 in \<open>auto simp: M fresh_child_def Let_def\<close>)
    have run: "toku_txn_manager_handle_snapshot_create_for_child_txn t m1 ty = Some m2"
      using m2(1) True kinds par t1
      by (simp add: toku_txn_manager_handle_snapshot_create_for_child_txn_def fresh_child_def Let_def)
    have c2: "same_core (txns m u) (txns m2 u)" if "u \<in> A" for u
      using m2(4) [of u] core(1) [OF that] that assms(2) by (cases "u = t") (auto simp: M same_core_def)
    have ct: "same_core (fresh_child t p ty ro m) ((txns m2 t)\<lparr>live_root_txn_list := None\<rparr>)"
      "live_root_txn_list (txns m2 t) = Some ?a"
      using m2(4) [of t] t1 same_coreD(6) [OF m2(4) [of t]]
      by (cases "txns m2 t", simp add: M same_core_def fresh_child_def Let_def, simp add: M)
    show ?thesis
      using that [of m2] run m2 c2 ct True ab S(2) by (simp add: S'_def M)
  next
    case False
    let ?m = "inherit_snapshot_from_parent t m1"
    have M: "txns ?m u = (if u = t then (txns m1 t)\<lparr>snapshot_txnid64 := sid m1 p, live_root_txn_list := live_root_txn_list (txns m1 p)\<rparr> else txns m1 u)"
      "xid_lists ?m = xid_lists m" "next_list ?m = next_list m" "live_root_txns ?m = live_root_txns m"
      "live_root_ids ?m = live_root_ids m" "num_snapshots ?m = num_snapshots m" for u
      using fld par by (simp_all add: inherit_snapshot_from_parent_def upd_txn_def)
    have tS: "t \<notin> set S" using S(1) assms(2) by auto
    have d: "dll ?m S"
      using abs(1) tS par by (subst dll_cong [of _ m1]) (auto simp: inherit_snapshot_from_parent_def upd_txn_def)
    have "abs_snap ?m s = abs_snap m1 s" if "s \<in> set S" for s
      using tS that by (intro abs_snap_cong) (auto simp: M fld(1))
    then have ab: "abs_mgr ?m S = abs_mgr m S"
      using abs(2) par by (simp add: abs_mgr_def) (simp add: inherit_snapshot_from_parent_def upd_txn_def)
    have run: "toku_txn_manager_handle_snapshot_create_for_child_txn t m1 ty = Some ?m"
      using False kinds par
      by (simp add: toku_txn_manager_handle_snapshot_create_for_child_txn_def)
    have c2: "same_core (txns m u) (txns ?m u)" if "u \<in> A" for u
      using core(1) [OF that] that assms(2) by (auto simp: M)
    have ct: "same_core (fresh_child t p ty ro m) ((txns ?m t)\<lparr>live_root_txn_list := None\<rparr>)"
      using t1 by (simp add: M same_core_def fresh_child_def Let_def)
    show ?thesis
      using that [of ?m] run d ab c2 ct False S(2) by (simp add: S'_def M)
  qed
qed

lemma txn_create_xids_child:
  assumes "length (txn_xids (txns m p)) < MAX_NESTED_TRANSACTIONS"
  shows "txn_create_xids t (Some p) m = Some (with_xids t (txn_xids (txns m p) @ [child_id64 (txns m t)]) m)"
  using assms by (simp add: txn_create_xids_def toku_xids_create_unknown_child_def
      toku_xids_finalize_with_child_def with_xids_def MAX_NESTED_TRANSACTIONS_def)

lemma family_root:
  assumes "mgr_wf m A S" "p \<in> A"
  shows "child_manager (txns m p) \<in> A" "rid m (child_manager (txns m p)) = rid m p"
  using assms by (auto simp: mgr_wf_def family_defs)

lemma begin_child_refines:
  assumes wf: "mgr_wf m A S" and inv: "mv_inv E (rid m ` A) (abs_mgr m S)" and t: "t \<notin> A" and p: "p \<in> A"
    and ty: "ty \<noteq> TXN_COPIES_SNAPSHOT" and rm: "room (last_xid m)"
    and ro: "ro \<longrightarrow> declared_read_only (txns m p)"
    and nest: "\<not> ro \<longrightarrow> length (txn_xids (txns m p)) < MAX_NESTED_TRANSACTIONS"
  obtains m' S' where "toku_txn_begin_txn (Some p) t ty ro m = Some (Inr m')" "mgr_wf m' (insert t A) S'"
    "mv_inv E (rid m' ` insert t A) (abs_mgr m' S')" "\<And>u. u \<in> A \<Longrightarrow> same_core (txns m u) (txns m' u)"
    "rid m' t = rid m p" "txn_parent (txns m' t) = Some p" "declared_read_only (txns m' t) = ro"
    "child_manager (txns m' t) = child_manager (txns m p)"
    "\<not> ro \<Longrightarrow> txn_xids (txns m' t) = txn_xids (txns m p) @ [next_child_id m (child_manager (txns m p))]"
    "\<And>u. u \<in> set S \<Longrightarrow> abs_snap m' u = abs_snap m u"
    "records (txns m' t) \<Longrightarrow> abs_snap m' t = \<lparr>sn_id = last_xid m + 1, sn_root = rid m p, sn_live = live_root_ids m\<rparr>"
    "last_xid m' = (if records (txns m' t) then last_xid m + 1 else last_xid m)"
proof -
  let ?r = "child_manager (txns m p)"
  note fam = family_root [OF wf p]
  have pt: "p \<noteq> t" "?r \<noteq> t" using t p fam(1) by auto
  define m1 where "m1 = started_child t p ty ro m"
  define S' where "S' = (if ty = TXN_SNAPSHOT_CHILD then S @ [t] else S)"
  obtain m2 where m2: "toku_txn_manager_handle_snapshot_create_for_child_txn t m1 ty = Some m2" "dll m2 S'"
    "abs_mgr m2 S' = (if ty = TXN_SNAPSHOT_CHILD then mv_snap (rid m1 t) else (\<lambda>v. v)) (abs_mgr m S)"
    "\<And>u. u \<in> A \<Longrightarrow> same_core (txns m u) (txns m2 u)"
    "same_core (fresh_child t p ty ro m) ((txns m2 t)\<lparr>live_root_txn_list := None\<rparr>)"
    "live_root_txns m2 = live_root_txns m" "live_root_ids m2 = live_root_ids m" "next_list m \<le> next_list m2"
    "num_snapshots m2 = length S'" "\<And>a. a < next_list m \<Longrightarrow> xid_lists m2 a = xid_lists m a"
    "ty = TXN_SNAPSHOT_CHILD \<Longrightarrow> \<exists>a L. live_root_txn_list (txns m2 t) = Some a \<and> xid_lists m2 a = Some L \<and>
       next_list m \<le> a \<and> a < next_list m2"
    by (rule begin_child_snapshot [OF wf t p fam(1) ty, where ro = ro, folded m1_def S'_def]) (rule that; assumption)
  define xs where "xs = txn_xids (txns m p) @ [next_child_id m ?r]"
  define m' where "m' = (if ro then m2 else with_xids t xs m2)"
  have f: "parent_id64 (fresh_child t p ty ro m) = rid m p" "rid m1 t = rid m p"
    using fam(2) started_child_fields(11) [OF pt] by (simp_all add: fresh_child_def Let_def m1_def)
  note ct = same_coreD [OF m2(5)]
  have m't: "rid m' t = rid m p" "txn_parent (txns m' t) = Some p" "declared_read_only (txns m' t) = ro"
    "child_manager (txns m' t) = ?r" "snapshot_type (txns m' t) = ty" "child_id64 (txns m2 t) = next_child_id m ?r"
    "live_root_txn_list (txns m' t) = live_root_txn_list (txns m2 t)"
    using ct f(1) by (simp_all add: m'_def fresh_child_def Let_def)
  have kinds: "records (txns m' t) \<longleftrightarrow> ty = TXN_SNAPSHOT_CHILD" "owns (txns m' t) \<longleftrightarrow> ty = TXN_SNAPSHOT_CHILD"
    using ty m't(2,5) by (auto simp: records_def owns_def txn_records_snapshot_def txn_copies_snapshot_def)
  have m': "dll m' S'" "abs_mgr m' S' = abs_mgr m2 S'" "live_root_txns m' = live_root_txns m"
    "live_root_ids m' = live_root_ids m" "next_list m' = next_list m2" "num_snapshots m' = length S'"
    "xid_lists m' = xid_lists m2"
    using m2 by (simp_all add: m'_def)
  have core: "same_core (txns m u) (txns m' u)" if "u \<in> A" for u
    using m2(4) [OF that] that t by (auto simp: m'_def)
  have ids: "rid m' u = rid m u" if "u \<in> A" for u using same_coreD(1) [OF core [OF that]] .
  have R: "rid m' ` insert t A = rid m ` A" using ids m't(1) p by force
  have px: "txn_xids (txns m2 p) = txn_xids (txns m p)" using same_coreD(7) [OF m2(4) [OF p]] .
  have run: "toku_txn_begin_txn (Some p) t ty ro m = Some (Inr m')"
    using m2(1) nest ro px m't(6) unfolding begin_child_unfold [OF pt fam(2) ro nest] m1_def [symmetric]
    by (simp add: txn_create_xids_child m'_def xs_def)
  have wf': "mgr_wf m' (insert t A) S'"
  proof (rule mgr_wf_add [OF wf t core m'(1,6)])
    show "S' = (if records (txns m' t) then S @ [t] else S)" by (simp add: S'_def kinds)
    show "live_root_txns m' = (if txn_parent (txns m' t) = None \<and> \<not> declared_read_only (txns m' t)
        then live_root_txns m @ [t] else live_root_txns m)"
      by (simp add: m't m'(3))
    have "set (live_root_txns m) \<subseteq> A" "live_root_ids m = map (rid m) (live_root_txns m)"
      using wf by (auto simp: mgr_wf_def)
    then show "live_root_ids m' = map (rid m') (live_root_txns m')"
      using ids by (auto simp: m'(3,4) subset_iff)
    show "xid_lists m' a = xid_lists m a" if "a < next_list m" for a using m2(10) that m'(7) by simp
    show "next_list m \<le> next_list m'" using m2(8) by (simp add: m'(5))
    show "\<exists>a L. live_root_txn_list (txns m' t) = Some a \<and> xid_lists m' a = Some L \<and>
        next_list m \<le> a \<and> a < next_list m'" if "owns (txns m' t)"
      using that kinds(2) m2(11) m't(7) m'(5,7) by simp
    show "case txn_parent (txns m' t) of
        None \<Rightarrow> child_manager (txns m' t) = t \<and> rid m' t \<notin> rid m ` A \<and>
          (\<not> owns (txns m' t) \<longrightarrow> live_root_txn_list (txns m' t) = None)
      | Some p \<Rightarrow> p \<in> A \<and> child_manager (txns m' t) = child_manager (txns m p) \<and> rid m' t = rid m p \<and>
          snapshot_type (txns m' t) \<noteq> TXN_COPIES_SNAPSHOT"
      using m't p ty by simp
  qed
  have inv': "mv_inv E (rid m' ` insert t A) (abs_mgr m' S')"
  proof -
    have "mv_last (abs_mgr m S) = last_xid m" by (simp add: abs_mgr_def)
    then show ?thesis
      unfolding R m'(2) m2(3) f(2) using mv_snap_inv [OF inv, of "rid m p"] roomD [OF rm] inv p by simp
  qed
  have snaps: "abs_snap m' u = abs_snap m u" if "u \<in> set S" for u
  proof -
    have "map (abs_snap m') S = map (abs_snap m) S"
      using arg_cong [OF m'(2), of mv_snaps] m2(3)
      by (auto simp: S'_def abs_mgr_def mv_snap_def split: if_splits)
    then show ?thesis using that by simp
  qed
  have new: "abs_snap m' t = \<lparr>sn_id = last_xid m + 1, sn_root = rid m p, sn_live = live_root_ids m\<rparr>" if "records (txns m' t)"
    using that kinds(1) arg_cong [OF m'(2), of mv_snaps] m2(3) f(2) by (simp add: S'_def abs_mgr_def mv_snap_def)
  have "last_xid m' = (if records (txns m' t) then last_xid m + 1 else last_xid m)"
    using kinds(1) arg_cong [OF m'(2), of mv_last] m2(3) by (auto simp: abs_mgr_def mv_snap_def split: if_splits)
  then show ?thesis
    using that run wf' inv' core m't(1-4) snaps new by (simp add: m'_def xs_def)
qed

end
