(* ===== verification/Txn_End.thy ===== *)
theory Txn_End
  imports Txn_Begin
begin

text \<open>
  Completing transactions: \<open>toku_txn_complete_txn\<close> for a child and for a root returns and
  refines the MVCC bookkeeping.
\<close>

subsection \<open>Dropping a snapshot\<close>

lemma drop_snapshot:
  assumes wf: "mgr_wf m A S" and inv: "mv_inv E R (abs_mgr m S)" and t: "t \<in> set S"
  obtains m1 S1 where "txn_manager_remove_snapshot_unlocked t m = Some m1" "dll m1 S1"
    "set S1 = set S - {t}" "num_snapshots m1 = length S1" "mv_inv E R (abs_mgr m1 S1)"
    "\<And>u. same_core (txns m u) (txns m1 u)" "xid_lists m1 = xid_lists m" "next_list m1 = next_list m"
    "live_root_txns m1 = live_root_txns m" "live_root_ids m1 = live_root_ids m" "last_xid m1 = last_xid m"
    "\<And>s. abs_snap m1 s = abs_snap m s"
proof -
  have d: "dll m S" "num_snapshots m = length S" using wf by (auto simp: mgr_wf_def)
  obtain P Q where S: "S = P @ t # Q" using t by (meson split_list)
  obtain a L where L: "live_list m t = Some L" using mgr_wf_snapshot_list [OF wf t] by auto
  let ?v = "abs_mgr m S"
  have "snap_ok R ?v (abs_snap m t)" using mv_invD(5) [OF inv] t by (simp add: abs_mgr_def)
  then have "sorted_by (\<lambda>y. y) L" using L by (simp add: snap_ok_def abs_snap_def)
  moreover have "sorted_by begin_id (referenced_xids m)" "\<forall>r\<in>set (referenced_xids m). references r > 0"
  proof -
    have "\<forall>r\<in>set (mv_rx ?v). references r > 0" using mv_invD(7) [OF inv] by (auto simp only: tuple_ok_def)
    then show "sorted_by begin_id (referenced_xids m)" "\<forall>r\<in>set (referenced_xids m). references r > 0"
      using mv_invD(6) [OF inv] by (simp_all add: abs_mgr_def)
  qed
  ultimately have run: "txn_manager_remove_snapshot_unlocked t m =
      Some ((unlink_snapshot t m)\<lparr>num_snapshots := num_snapshots m - 1,
        referenced_xids := note_end (set L) (referenced_xids m)\<rparr>)" (is "_ = Some ?m")
    using L by (intro remove_snapshot_eq)
  have dm: "dll ?m (P @ Q)"
    using dll_remove [of m P t Q] d S by (subst dll_cong [of _ "unlink_snapshot t m"]) auto
  have sn: "abs_snap ?m s = abs_snap m s" for s
    by (intro abs_snap_cong) (simp_all add: unlink_snapshot_frame)
  then have "abs_mgr ?m (P @ Q) = mv_unsnap (map (abs_snap m) P) (abs_snap m t) (map (abs_snap m) Q) ?v"
    using L by (simp add: abs_mgr_def mv_unsnap_def unlink_snapshot_frame) (simp add: abs_snap_def)
  moreover have "mv_snaps ?v = map (abs_snap m) P @ abs_snap m t # map (abs_snap m) Q"
    using S by (simp add: abs_mgr_def)
  ultimately have "mv_inv E R (abs_mgr ?m (P @ Q))" using mv_unsnap_inv [OF inv] by metis
  moreover have "distinct S" using d(1) by (simp add: dll_def)
  ultimately show ?thesis
    using that [of ?m "P @ Q"] run dm d(2) S sn by (auto simp: unlink_snapshot_frame)
qed

text \<open>Freeing the list of one transaction does not disturb the snapshots of the others.\<close>

lemma free_list_frame:
  assumes "live_root_txn_list (txns m t) = Some a" "xid_lists m a = Some L"
    and "\<And>s. s \<in> set S \<Longrightarrow> live_root_txn_list (txns m s) \<noteq> Some a"
  shows "free_list t m = Some (m\<lparr>xid_lists := (xid_lists m)(a := None)\<rparr>)"
    and "dll (m\<lparr>xid_lists := (xid_lists m)(a := None)\<rparr>) S = dll m S"
    and "abs_mgr (m\<lparr>xid_lists := (xid_lists m)(a := None)\<rparr>) S = abs_mgr m S"
    and "\<And>s. s \<in> set S \<Longrightarrow> abs_snap (m\<lparr>xid_lists := (xid_lists m)(a := None)\<rparr>) s = abs_snap m s"
proof -
  let ?m = "m\<lparr>xid_lists := (xid_lists m)(a := None)\<rparr>"
  show "free_list t m = Some ?m" using assms(1,2) by (simp add: free_list_def)
  show "dll ?m S = dll m S" by (rule dll_cong) auto
  show sn: "abs_snap ?m s = abs_snap m s" if "s \<in> set S" for s
    using assms(3) [OF that] by (intro abs_snap_cong) auto
  then show "abs_mgr ?m S = abs_mgr m S" by (simp add: abs_mgr_def)
qed

lemma lists_ok_distinct:
  assumes "lists_ok m A" "t \<in> A" "u \<in> A" "u \<noteq> t" "owns (txns m t)" "owns (txns m u)"
  shows "live_root_txn_list (txns m u) \<noteq> live_root_txn_list (txns m t)"
  using assms unfolding lists_ok_def inj_on_def by blast

subsection \<open>Completing a child\<close>

lemma complete_child_refines:
  assumes wf: "mgr_wf m A S" and inv: "mv_inv E (rid m ` A) (abs_mgr m S)" and t: "t \<in> A"
    and p: "txn_parent (txns m t) = Some p" and leaf: "\<And>u. u \<in> A \<Longrightarrow> txn_parent (txns m u) \<noteq> Some t"
  obtains m' S' where "toku_txn_complete_txn dbg t m = Some m'" "mgr_wf m' (A - {t}) S'"
    "mv_inv E (rid m' ` (A - {t})) (abs_mgr m' S')"
    "\<And>u. u \<in> A \<Longrightarrow> same_core (txns m u) (txns m' u)" "\<And>u. u \<in> set S' \<Longrightarrow> abs_snap m' u = abs_snap m u"
proof -
  have wfD: "lists_ok m A" "family_ok m A" "\<forall>u\<in>A. u \<in> set S \<longleftrightarrow> records (txns m u)" "set S \<subseteq> A"
    "dll m S" "num_snapshots m = length S" "set (live_root_txns m) \<subseteq> A"
    "live_root_ids m = map (rid m) (live_root_txns m)"
    "\<forall>u\<in>A. u \<in> set (live_root_txns m) \<longleftrightarrow> txn_parent (txns m u) = None \<and> \<not> declared_read_only (txns m u)"
    using wf by (auto simp: mgr_wf_def)
  have pA: "p \<in> A" and ty: "snapshot_type (txns m t) \<noteq> TXN_COPIES_SNAPSHOT"
    using wfD(2) t p by (auto simp: family_defs)
  have own: "owns (txns m t) \<longleftrightarrow> records (txns m t)"
    using ty by (simp add: owns_def records_def txn_copies_snapshot_def)
  have root: "child_manager (txns m u) \<in> A - {t}" "rid m (child_manager (txns m u)) = rid m u" if "u \<in> A" for u
    using wfD(2) that p by (auto simp: family_defs)
  have "\<exists>m2 S'. toku_txn_manager_handle_snapshot_destroy_for_child_txn t m (snapshot_type (txns m t)) = Some m2 \<and>
      dll m2 S' \<and> set S' = set S - {t} \<and> num_snapshots m2 = length S' \<and> mv_inv E (rid m ` A) (abs_mgr m2 S') \<and>
      (\<forall>u. same_core (txns m u) (txns m2 u)) \<and> next_list m2 = next_list m \<and>
      live_root_txns m2 = live_root_txns m \<and> live_root_ids m2 = live_root_ids m \<and>
      (\<forall>u\<in>A - {t}. \<forall>a. owns (txns m u) \<longrightarrow> live_root_txn_list (txns m u) = Some a \<longrightarrow> xid_lists m2 a = xid_lists m a) \<and>
      (\<forall>u\<in>set S'. abs_snap m2 u = abs_snap m u)"
  proof (cases "records (txns m t)")
    case False
    then show ?thesis
      using own p wfD(3-6) t inv
      by (intro exI [of _ m] exI [of _ S])
        (simp add: toku_txn_manager_handle_snapshot_destroy_for_child_txn_def owns_def records_def)
  next
    case True
    then have tS: "t \<in> set S" using wfD(3) t by simp
    obtain m1 S1 where m1: "txn_manager_remove_snapshot_unlocked t m = Some m1" "dll m1 S1"
      "set S1 = set S - {t}" "num_snapshots m1 = length S1" "mv_inv E (rid m ` A) (abs_mgr m1 S1)"
      "\<And>u. same_core (txns m u) (txns m1 u)" "xid_lists m1 = xid_lists m" "next_list m1 = next_list m"
      "live_root_txns m1 = live_root_txns m" "live_root_ids m1 = live_root_ids m" "last_xid m1 = last_xid m"
      "\<And>s. abs_snap m1 s = abs_snap m s"
      by (rule drop_snapshot [OF wf inv tS]) (rule that; assumption)
    obtain a L where a: "live_root_txn_list (txns m t) = Some a" "xid_lists m a = Some L"
      using mgr_wf_snapshot_list(2) [OF wf tS] by auto
    have other: "live_root_txn_list (txns m u) \<noteq> Some a" if "u \<in> A - {t}" "owns (txns m u)" for u
      using lists_ok_distinct [OF wfD(1) t, of u] that own True a(1) by auto
    have "live_root_txn_list (txns m1 s) \<noteq> Some a" if "s \<in> set S1" for s
      using that m1(3) wfD(3,4) other [of s] records_owns same_coreD(6) [OF m1(6)] by auto
    then have fr: "free_list t m1 = Some (m1\<lparr>xid_lists := (xid_lists m1)(a := None)\<rparr>)"
      "dll (m1\<lparr>xid_lists := (xid_lists m1)(a := None)\<rparr>) S1 = dll m1 S1"
      "abs_mgr (m1\<lparr>xid_lists := (xid_lists m1)(a := None)\<rparr>) S1 = abs_mgr m1 S1"
      "\<And>s. s \<in> set S1 \<Longrightarrow> abs_snap (m1\<lparr>xid_lists := (xid_lists m1)(a := None)\<rparr>) s = abs_snap m1 s"
      using free_list_frame [of m1 t a L S1] a m1(7) same_coreD(6) [OF m1(6)] by auto
    let ?m = "m1\<lparr>xid_lists := (xid_lists m1)(a := None)\<rparr>"
    have run: "toku_txn_manager_handle_snapshot_destroy_for_child_txn t m (snapshot_type (txns m t)) = Some ?m"
      using True own p m1(1) fr(1)
      by (simp add: toku_txn_manager_handle_snapshot_destroy_for_child_txn_def owns_def records_def Let_def)
    show ?thesis
      using run m1 fr(2-4) other by (intro exI [of _ ?m] exI [of _ S1]) auto
  qed
  then obtain m2 S' where m2: "toku_txn_manager_handle_snapshot_destroy_for_child_txn t m (snapshot_type (txns m t)) = Some m2"
      "dll m2 S'" "set S' = set S - {t}" "num_snapshots m2 = length S'" "mv_inv E (rid m ` A) (abs_mgr m2 S')"
      "\<And>u. same_core (txns m u) (txns m2 u)" "next_list m2 = next_list m"
      "live_root_txns m2 = live_root_txns m" "live_root_ids m2 = live_root_ids m"
      "\<And>u a. u \<in> A - {t} \<Longrightarrow> owns (txns m u) \<Longrightarrow> live_root_txn_list (txns m u) = Some a \<Longrightarrow> xid_lists m2 a = xid_lists m a"
      "\<And>u. u \<in> set S' \<Longrightarrow> abs_snap m2 u = abs_snap m u"
    by blast
  let ?m = "upd_txn p (\<lambda>u. u\<lparr>txn_child := None\<rparr>) m2"
  note c2 = same_coreD [OF m2(6)]
  have run: "toku_txn_complete_txn dbg t m = Some ?m"
    using m2(1) p c2 root [OF t] by (simp add: toku_txn_complete_txn_def finish_child_txn_def)
  have core: "same_core (txns m u) (txns ?m u)" for u
    using m2(6) [of u] by (auto simp: upd_txn_def same_core_def)
  have dm: "dll ?m S'" using m2(2) by (subst dll_cong [of _ m2]) (auto simp: upd_txn_def)
  have sn: "abs_snap ?m u = abs_snap m2 u" for u
    by (simp add: upd_txn_def abs_snap_def live_list_def)
  have ab: "abs_mgr ?m S' = abs_mgr m2 S'"
    by (simp add: abs_mgr_def sn) (simp add: upd_txn_def)
  have tl: "t \<notin> set (live_root_txns m)" using wfD(9) t p by simp
  have ids: "rid ?m u = rid m u" for u using same_coreD(1) [OF core] .
  have "mgr_wf ?m (A - {t}) S'"
  proof (rule mgr_wf_remove [OF wf t core dm _ m2(3)])
    show "num_snapshots ?m = length S'" using m2(4) by (simp add: upd_txn_def)
    show "set (live_root_txns ?m) = set (live_root_txns m) - {t}" using tl m2(8) by (simp add: upd_txn_def)
    have "live_root_txns ?m = live_root_txns m" "live_root_ids ?m = live_root_ids m"
      using m2(8,9) by (simp_all add: upd_txn_def)
    then show "live_root_ids ?m = map (rid ?m) (live_root_txns ?m)" using wfD(8) by (simp add: ids)
    show "xid_lists ?m a = xid_lists m a"
      if "u \<in> A - {t}" "owns (txns m u)" "live_root_txn_list (txns m u) = Some a" for a u
      using m2(10) [OF that] by (simp add: upd_txn_def)
    show "next_list ?m = next_list m" using m2(7) by (simp add: upd_txn_def)
    show "child_manager (txns m u) \<noteq> t \<and> txn_parent (txns m u) \<noteq> Some t" if "u \<in> A - {t}" for u
      using root(1) [of u] leaf [of u] that by auto
  qed
  moreover have "rid ?m ` (A - {t}) = rid m ` A"
  proof -
    have "rid m t \<in> rid m ` (A - {t})" using root [OF t] by (metis imageI)
    then show ?thesis using ids t by (auto simp: image_iff) 
  qed
  ultimately show ?thesis
    using that [of ?m S'] run m2(5,11) ab core sn by simp
qed

subsection \<open>Completing a root\<close>

lemma delete_sorted:
  assumes "sorted_by key vs" "i < length vs"
  shows "take i vs @ drop (Suc i) vs = filter (\<lambda>y. key y \<noteq> key (vs ! i)) vs"
proof -
  have s: "vs = take i vs @ vs ! i # drop (Suc i) vs" using assms(2) by (rule id_take_nth_drop)
  then have "sorted_by key (take i vs @ vs ! i # drop (Suc i) vs)" using assms(1) by simp
  then have "\<forall>y\<in>set (take i vs). key y \<noteq> key (vs ! i)" "\<forall>y\<in>set (drop (Suc i) vs). key y \<noteq> key (vs ! i)"
    by auto
  then show ?thesis by (subst (3) s) (simp add: filter_id_conv)
qed

text \<open>The part of \<open>toku_txn_manager_finish_txn\<close> under the lock, after the snapshot is dropped.\<close>

definition finish_live :: "bool \<Rightarrow> TOKUTXN \<Rightarrow> txn_manager \<Rightarrow> txn_manager option" where
  "finish_live dbg txn m =
     (if \<not> txn_declared_read_only (txns m txn) then
        (case omt_find_zero (\<lambda>t. find_xid m t txn) (live_root_txns m) of
           Inl _ \<Rightarrow> None
         | Inr (txnagain, idx) \<Rightarrow> do {
             ensure (txn = txnagain);
             let xid = parent_id64 (txns m txn);
             m \<leftarrow> (case omt_delete_at (live_root_txns m) idx of
                 Inl _ \<Rightarrow> None | Inr ts \<Rightarrow> Some (m\<lparr>live_root_txns := ts\<rparr>));
             m \<leftarrow> (case omt_delete_at (live_root_ids m) idx of
                 Inl _ \<Rightarrow> None | Inr ids \<Rightarrow> Some (m\<lparr>live_root_ids := ids\<rparr>));
             if \<not> toku_txn_is_read_only (txns m txn) \<or> dbg then do {
               num_references \<leftarrow> count_newer_snapshots m xid (snapshot_tail m) 0;
               if num_references > 0 then do {
                 let m = m\<lparr>last_xid := last_xid m + 1\<rparr>;
                 (case omt_insert (\<lambda>t. find_tuple_by_xid t xid) (referenced_xids m)
                     \<lparr>begin_id = xid, end_id = last_xid m, references = num_references\<rparr> of
                    Inl _ \<Rightarrow> None
                  | Inr (rx, _) \<Rightarrow> Some (m\<lparr>referenced_xids := rx\<rparr>))
               }
               else Some m
             }
             else Some m
           })
      else Some m)"

definition wrote :: "bool \<Rightarrow> tokutxn \<Rightarrow> bool" where
  "wrote dbg t \<longleftrightarrow> \<not> declared_read_only t \<and> (begin_was_logged t \<or> dbg)"

lemma finish_live_refines:
  assumes d: "dll m S" and inv: "mv_inv E R (abs_mgr m S)"
    and ids: "live_root_ids m = map (rid m) (live_root_txns m)"
    and live: "t \<in> set (live_root_txns m) \<longleftrightarrow> \<not> declared_read_only (txns m t)"
    and ro: "declared_read_only (txns m t) \<longrightarrow> rid m t \<notin> set (live_root_ids m)"
    and R: "rid m t \<in> R"
  obtains m' where "finish_live dbg t m = Some m'" "abs_mgr m' S = mv_end (rid m t) (wrote dbg (txns m t)) (abs_mgr m S)"
    "txns m' = txns m" "dll m' S" "num_snapshots m' = num_snapshots m" "xid_lists m' = xid_lists m"
    "next_list m' = next_list m" "set (live_root_txns m') = set (live_root_txns m) - {t}"
    "live_root_ids m' = map (rid m) (live_root_txns m')"
proof (cases "declared_read_only (txns m t)")
  case True
  then have "filter (\<lambda>y. y \<noteq> rid m t) (live_root_ids m) = live_root_ids m"
    using ro by (auto intro!: filter_True)
  then have "abs_mgr m S = mv_end (rid m t) (wrote dbg (txns m t)) (abs_mgr m S)"
    using True by (simp add: mv_end_def wrote_def abs_mgr_def)
  then show ?thesis
    using that [of m] True d ids live by (simp add: finish_live_def txn_declared_read_only_def)
next
  case False
  let ?x = "rid m t"
  have srt: "sorted_by (rid m) (live_root_txns m)"
    using mv_invD(1) [OF inv] ids by (simp add: abs_mgr_def sorted_by_map)
  obtain i where i: "i < length (live_root_txns m)" "live_root_txns m ! i = t"
    using live False by (auto simp: in_set_conv_nth)
  have fz: "omt_find_zero (\<lambda>u. find_xid m u t) (live_root_txns m) = Inr (t, i)"
    using omt_find_zero_sorted [OF srt] i by (simp add: find_keys)
  let ?ts = "take i (live_root_txns m) @ drop (Suc i) (live_root_txns m)"
  have ts: "?ts = filter (\<lambda>u. rid m u \<noteq> ?x) (live_root_txns m)" using delete_sorted [OF srt i(1)] i(2) by simp
  have tset: "set ?ts = set (live_root_txns m) - {t}"
  proof -
    let ?l = "live_root_txns m"
    have l: "?l = take i ?l @ t # drop (Suc i) ?l" using id_take_nth_drop [OF i(1)] i(2) by simp
    then have "distinct (take i ?l @ t # drop (Suc i) ?l)" using sorted_by_distinct [OF srt] by simp
    moreover have "set ?l = insert t (set ?ts)" by (subst l) simp
    ultimately show ?thesis by auto
  qed
  have del: "omt_delete_at (live_root_txns m) i = Inr ?ts"
    "omt_delete_at (live_root_ids m) i = Inr (filter (\<lambda>y. y \<noteq> ?x) (live_root_ids m))"
    using i ids ts by (auto simp: omt_delete_at_def take_map drop_map filter_map comp_def simp flip: map_append)
  let ?m = "m\<lparr>live_root_txns := ?ts, live_root_ids := filter (\<lambda>y. y \<noteq> ?x) (live_root_ids m)\<rparr>"
  have dm: "dll ?m S" using d by (simp add: dll_cong [of ?m m])
  have sn: "sorted_by (sid ?m) S" using mv_invD(4) [OF inv] sorted_snaps [of m S] by simp
  let ?n = "length (filter (\<lambda>s. sid m s > ?x) S)"
  have cnt: "count_newer_snapshots ?m ?x (snapshot_tail ?m) 0 = Some ?n"
    using count_newer_dll [OF dm sn] by simp
  have idm: "live_root_ids ?m = map (rid m) (live_root_txns ?m)"
    by (simp add: ts ids filter_map comp_def)
  have ab: "abs_mgr ?m S = (abs_mgr m S)\<lparr>mv_lives := filter (\<lambda>y. y \<noteq> ?x) (live_root_ids m)\<rparr>"
    by (simp add: abs_mgr_def abs_snap_def live_list_def)
  have nn: "length (filter (\<lambda>s. sn_id s > ?x) (mv_snaps (abs_mgr m S))) = ?n"
    by (simp add: abs_mgr_def filter_map comp_def abs_snap_def)
  have xb: "?x \<notin> begin_id ` set (referenced_xids m)"
    using mv_invD(7) [OF inv] R by (auto simp: abs_mgr_def tuple_ok_def)
  show ?thesis
  proof (cases "wrote dbg (txns m t) \<and> ?n > 0")
    case w: False
    have "finish_live dbg t m = Some ?m"
      using False fz del cnt w
      by (auto simp: finish_live_def txn_declared_read_only_def toku_txn_is_read_only_def wrote_def Let_def)
    moreover have "abs_mgr ?m S = mv_end ?x (wrote dbg (txns m t)) (abs_mgr m S)"
      using w nn by (auto simp: ab mv_end_def Let_def) (simp_all add: abs_mgr_def)
    ultimately show ?thesis using that [of ?m] dm tset idm by simp
  next
    case w: True
    let ?tu = "\<lparr>begin_id = ?x, end_id = last_xid m + 1, references = ?n\<rparr>"
    have "sorted_by begin_id (referenced_xids m)" using mv_invD(6) [OF inv] by (simp add: abs_mgr_def)
    then obtain j rx where rx: "omt_insert (key_cmp begin_id ?x) (referenced_xids m) ?tu = Inr (rx, j)"
      using omt_insert_sorted [of begin_id "referenced_xids m" ?tu] xb by (metis referenced_xid_tuple.select_convs(1))
    let ?m' = "?m\<lparr>last_xid := last_xid m + 1, referenced_xids := rx\<rparr>"
    have "finish_live dbg t m = Some ?m'"
      using False fz del cnt w rx
      by (auto simp: finish_live_def txn_declared_read_only_def toku_txn_is_read_only_def wrote_def Let_def find_tuple_by_xid_key)
    moreover have "abs_mgr ?m' S = mv_end ?x (wrote dbg (txns m t)) (abs_mgr m S)"
    proof -
      have "0 < length (filter (\<lambda>s. sn_id s > ?x) (mv_snaps (abs_mgr m S)))" using nn w by simp
      moreover have "abs_mgr ?m' S = (abs_mgr m S)\<lparr>mv_lives := filter (\<lambda>y. y \<noteq> ?x) (live_root_ids m),
          mv_last := last_xid m + 1, mv_rx := rx\<rparr>"
        by (simp add: abs_mgr_def abs_snap_def live_list_def)
      moreover have "mv_lives (abs_mgr m S) = live_root_ids m" "mv_rx (abs_mgr m S) = referenced_xids m"
        "mv_last (abs_mgr m S) = last_xid m"
        by (simp_all add: abs_mgr_def)
      ultimately show ?thesis using w nn rx by (simp add: mv_end_def Let_def del: length_greater_0_conv)
    qed
    moreover have "dll ?m' S" using dm by (simp add: dll_cong [of ?m' ?m])
    ultimately show ?thesis using that [of ?m'] tset idm by simp
  qed
qed

lemma finish_txn_unfold:
  "toku_txn_manager_finish_txn dbg m t = do {
     ensure (txn_parent (txns m t) = None);
     m \<leftarrow> (if txn_records_snapshot (snapshot_type (txns m t)) None
           then txn_manager_remove_snapshot_unlocked t m else Some m);
     m \<leftarrow> finish_live dbg t m;
     if live_root_txn_list (txns m t) \<noteq> None then free_list t m else Some m }"
  by (simp add: toku_txn_manager_finish_txn_def finish_live_def Let_def)

lemma complete_root_refines:
  assumes wf: "mgr_wf m A S" and inv: "mv_inv E (rid m ` A) (abs_mgr m S)" and t: "t \<in> A"
    and root: "txn_parent (txns m t) = None" and rm: "room (last_xid m)"
    and leaf: "\<And>u. u \<in> A \<Longrightarrow> child_manager (txns m u) = t \<Longrightarrow> u = t"
  obtains m' S' where "toku_txn_complete_txn dbg t m = Some m'" "mgr_wf m' (A - {t}) S'"
    "mv_inv (note_ended (rid m t) (wrote dbg (txns m t)) (\<not> declared_read_only (txns m t)) E)
      (rid m' ` (A - {t})) (abs_mgr m' S')"
    "\<And>u. u \<in> A \<Longrightarrow> same_core (txns m u) (txns m' u)" "\<And>u. u \<in> set S' \<Longrightarrow> abs_snap m' u = abs_snap m u"
proof -
  have wfD: "lists_ok m A" "family_ok m A" "\<forall>u\<in>A. u \<in> set S \<longleftrightarrow> records (txns m u)" "set S \<subseteq> A"
    "dll m S" "num_snapshots m = length S" "set (live_root_txns m) \<subseteq> A"
    "live_root_ids m = map (rid m) (live_root_txns m)"
    "\<forall>u\<in>A. u \<in> set (live_root_txns m) \<longleftrightarrow> txn_parent (txns m u) = None \<and> \<not> declared_read_only (txns m u)"
    using wf by (auto simp: mgr_wf_def)
  let ?x = "rid m t" and ?w = "wrote dbg (txns m t)"
  let ?E = "note_ended ?x ?w (\<not> declared_read_only (txns m t)) E"
  have rec: "records (txns m t) \<longleftrightarrow> txn_records_snapshot (snapshot_type (txns m t)) None"
    using root by (simp add: records_def)
  have uniq: "rid m u \<noteq> ?x" if "u \<in> A - {t}" for u
  proof
    assume eq: "rid m u = ?x"
    let ?r = "child_manager (txns m u)"
    have r: "?r \<in> A" "rid m ?r = ?x" "txn_parent (txns m ?r) = None"
      using wfD(2) that eq by (auto simp: family_defs)
    then have "?r = t" using wfD(2) t root by (auto simp: family_ok_def inj_on_def)
    then show False using leaf [of u] that by auto
  qed
  have "\<exists>m1 S1. (if records (txns m t) then txn_manager_remove_snapshot_unlocked t m else Some m) = Some m1 \<and>
      dll m1 S1 \<and> set S1 = set S - {t} \<and> num_snapshots m1 = length S1 \<and> mv_inv E (rid m ` A) (abs_mgr m1 S1) \<and>
      (\<forall>u. same_core (txns m u) (txns m1 u)) \<and> xid_lists m1 = xid_lists m \<and> next_list m1 = next_list m \<and>
      live_root_txns m1 = live_root_txns m \<and> live_root_ids m1 = live_root_ids m \<and> last_xid m1 = last_xid m \<and>
      (\<forall>s. abs_snap m1 s = abs_snap m s)"
  proof (cases "records (txns m t)")
    case True
    then have "t \<in> set S" using wfD(3) t by simp
    from drop_snapshot [OF wf inv this] show ?thesis using True by metis
  next
    case False
    then show ?thesis using wfD(3,5,6) t inv by auto
  qed
  then obtain m1 S1 where m1: "(if records (txns m t) then txn_manager_remove_snapshot_unlocked t m else Some m) = Some m1"
      "dll m1 S1" "set S1 = set S - {t}" "num_snapshots m1 = length S1" "mv_inv E (rid m ` A) (abs_mgr m1 S1)"
      "\<And>u. same_core (txns m u) (txns m1 u)" "xid_lists m1 = xid_lists m" "next_list m1 = next_list m"
      "live_root_txns m1 = live_root_txns m" "live_root_ids m1 = live_root_ids m" "last_xid m1 = last_xid m"
      "\<And>s. abs_snap m1 s = abs_snap m s"
    by blast
  note c1 = same_coreD [OF m1(6)]
  have ids1: "rid m1 u = rid m u" for u using c1(1) .
  obtain m2 where m2: "finish_live dbg t m1 = Some m2" "abs_mgr m2 S1 = mv_end (rid m1 t) (wrote dbg (txns m1 t)) (abs_mgr m1 S1)"
    "txns m2 = txns m1" "dll m2 S1" "num_snapshots m2 = num_snapshots m1" "xid_lists m2 = xid_lists m1"
    "next_list m2 = next_list m1" "set (live_root_txns m2) = set (live_root_txns m1) - {t}"
    "live_root_ids m2 = map (rid m1) (live_root_txns m2)"
  proof (rule finish_live_refines [OF m1(2,5), of t dbg])
    show "live_root_ids m1 = map (rid m1) (live_root_txns m1)" using wfD(8) m1(9,10) ids1 by simp
    show "t \<in> set (live_root_txns m1) \<longleftrightarrow> \<not> declared_read_only (txns m1 t)"
      using wfD(9) t root m1(9) c1(9) by simp
    show "declared_read_only (txns m1 t) \<longrightarrow> rid m1 t \<notin> set (live_root_ids m1)"
    proof
      assume ro: "declared_read_only (txns m1 t)"
      then have "t \<notin> set (live_root_txns m)" using wfD(9) t c1(9) by simp
      then show "rid m1 t \<notin> set (live_root_ids m1)"
        using uniq wfD(7,8) m1(10) ids1 by (auto simp: image_iff subset_iff) metis
    qed
    show "rid m1 t \<in> rid m ` A" using t ids1 by simp
  qed (rule that)
  have inv2: "mv_inv ?E (rid m ` A - {?x}) (abs_mgr m2 S1)"
  proof -
    have w: "wrote dbg (txns m1 t) = ?w" using c1(8,9) by (simp add: wrote_def)
    have "\<forall>s\<in>set (mv_snaps (abs_mgr m1 S1)). sn_root s \<noteq> ?x"
      using m1(3) wfD(4) uniq ids1 by (fastforce simp: abs_mgr_def abs_snap_def fun_eq_iff)
    moreover have "?w \<longrightarrow> ?x \<in> set (mv_lives (abs_mgr m1 S1))"
      using wfD(8,9) t root m1(10) by (auto simp: wrote_def abs_mgr_def)
    moreover have "?x \<in> set (mv_lives (abs_mgr m1 S1)) \<longleftrightarrow> \<not> declared_read_only (txns m t)"
    proof -
      have "t \<in> set (live_root_txns m) \<longleftrightarrow> ?x \<in> rid m ` set (live_root_txns m)"
        using uniq wfD(7) by (auto simp: image_iff subset_iff) metis
      then show ?thesis using wfD(8,9) t root m1(10) by (simp add: abs_mgr_def)
    qed
    ultimately show ?thesis
      using mv_end_inv [OF m1(5), of ?x ?w] roomD [OF rm] t m2(2) w ids1 m1(11) by (simp add: abs_mgr_def)
  qed
  have ll: "live_root_txn_list (txns m2 t) = live_root_txn_list (txns m t)" using m2(3) c1(6) by simp
  have other: "live_root_txn_list (txns m u) \<noteq> live_root_txn_list (txns m t)"
    if "u \<in> A - {t}" "owns (txns m u)" "owns (txns m t)" for u
    using lists_ok_distinct [OF wfD(1) t, of u] that by auto
  have "\<exists>m'. (if live_root_txn_list (txns m2 t) \<noteq> None then free_list t m2 else Some m2) = Some m' \<and>
      txns m' = txns m2 \<and> dll m' S1 \<and> abs_mgr m' S1 = abs_mgr m2 S1 \<and> num_snapshots m' = num_snapshots m2 \<and>
      next_list m' = next_list m2 \<and> live_root_txns m' = live_root_txns m2 \<and> live_root_ids m' = live_root_ids m2 \<and>
      (\<forall>u a. u \<in> A - {t} \<longrightarrow> owns (txns m u) \<longrightarrow> live_root_txn_list (txns m u) = Some a \<longrightarrow> xid_lists m' a = xid_lists m a) \<and>
      (\<forall>s\<in>set S1. abs_snap m' s = abs_snap m2 s)"
  proof (cases "owns (txns m t)")
    case False
    then have "live_root_txn_list (txns m t) = None"
      using wfD(2) t root by (auto simp: family_defs)
    then show ?thesis using ll m2(4,6) m1(7) by simp
  next
    case True
    then obtain a L where a: "live_root_txn_list (txns m t) = Some a" "xid_lists m a = Some L"
      using wfD(1) t by (auto simp: lists_ok_def)
    have "live_root_txn_list (txns m2 s) \<noteq> Some a" if "s \<in> set S1" for s
    proof -
      have "s \<in> A - {t}" "owns (txns m s)" using that m1(3) wfD(3,4) records_owns by auto
      then show ?thesis using other [of s] True a(1) m2(3) c1(6) by simp
    qed
    then have "free_list t m2 = Some (m2\<lparr>xid_lists := (xid_lists m2)(a := None)\<rparr>)"
      "dll (m2\<lparr>xid_lists := (xid_lists m2)(a := None)\<rparr>) S1 = dll m2 S1"
      "abs_mgr (m2\<lparr>xid_lists := (xid_lists m2)(a := None)\<rparr>) S1 = abs_mgr m2 S1"
      "\<And>s. s \<in> set S1 \<Longrightarrow> abs_snap (m2\<lparr>xid_lists := (xid_lists m2)(a := None)\<rparr>) s = abs_snap m2 s"
      using free_list_frame [of m2 t a L S1] a ll m2(6) m1(7) by auto
    then show ?thesis
      using ll a m2(4,6) m1(7) other True
      by (intro exI [of _ "m2\<lparr>xid_lists := (xid_lists m2)(a := None)\<rparr>"]) auto
  qed
  then obtain m' where m': "(if live_root_txn_list (txns m2 t) \<noteq> None then free_list t m2 else Some m2) = Some m'"
      "txns m' = txns m2" "dll m' S1" "abs_mgr m' S1 = abs_mgr m2 S1" "num_snapshots m' = num_snapshots m2"
      "next_list m' = next_list m2" "live_root_txns m' = live_root_txns m2" "live_root_ids m' = live_root_ids m2"
      "\<And>u a. u \<in> A - {t} \<Longrightarrow> owns (txns m u) \<Longrightarrow> live_root_txn_list (txns m u) = Some a \<Longrightarrow> xid_lists m' a = xid_lists m a"
      "\<And>s. s \<in> set S1 \<Longrightarrow> abs_snap m' s = abs_snap m2 s"
    by blast
  have core: "same_core (txns m u) (txns m' u)" for u using m1(6) m2(3) m'(2) by simp
  have run: "toku_txn_complete_txn dbg t m = Some m'"
    using m1(1) m2(1) m'(1) root rec by (simp add: toku_txn_complete_txn_def finish_txn_unfold)
  have ids: "rid m' u = rid m u" for u using same_coreD(1) [OF core] .
  have wf': "mgr_wf m' (A - {t}) S1"
  proof (rule mgr_wf_remove [OF wf t core m'(3) _ m1(3)])
    show "num_snapshots m' = length S1" using m'(5) m2(5) m1(4) by simp
    show "set (live_root_txns m') = set (live_root_txns m) - {t}" using m'(7) m2(8) m1(9) by simp
    show "live_root_ids m' = map (rid m') (live_root_txns m')" using m'(7,8) m2(9) ids ids1 by simp
    show "xid_lists m' a = xid_lists m a"
      if "u \<in> A - {t}" "owns (txns m u)" "live_root_txn_list (txns m u) = Some a" for a u
      using m'(9) [OF that] .
    show "next_list m' = next_list m" using m'(6) m2(7) m1(8) by simp
    show "child_manager (txns m u) \<noteq> t \<and> txn_parent (txns m u) \<noteq> Some t" if u: "u \<in> A - {t}" for u
    proof
      show c: "child_manager (txns m u) \<noteq> t" using leaf u by auto
      show "txn_parent (txns m u) \<noteq> Some t"
      proof
        assume "txn_parent (txns m u) = Some t"
        then have "child_manager (txns m t) = child_manager (txns m u)" "child_manager (txns m t) = t"
          using wfD(2) u t root by (auto simp: family_defs)
        then show False using c by simp
      qed
    qed
  qed
  have R: "rid m' ` (A - {t}) = rid m ` A - {?x}" using uniq t ids by auto
  have "abs_snap m2 s = abs_snap m1 s" for s
    using m2(3,6) by (simp add: abs_snap_def live_list_def)
  then show ?thesis using that [of m' S1] run wf' inv2 R m'(4,10) m1(12) core by simp
qed

end
