(* ===== verification/Txn_Run.thy ===== *)
theory Txn_Run
  imports Txn_End
begin

text \<open>
  Runs of the transaction manager. A step begins a root or a child transaction, logs the begin
  of a writing transaction, or completes a transaction. \<open>dbg\<close> is the \<open>garbage_collection_debug\<close> flag. The
  state is accompanied by the set of active transactions and the set of ids of root
  transactions that ended after writing. Steps are guarded by what the layer above enforces: a
  transaction completes after its children, a child is read-only exactly if its parent is, and
  ids do not wrap around.
\<close>

subsection \<open>Frames of the child id counter and the id stacks\<close>

abbreviation lastc :: "txn_manager \<Rightarrow> TOKUTXN \<Rightarrow> TXNID" where
  "lastc m u \<equiv> m_last_xid (txns m u)"

lemma create_snapshot_lastc:
  "txn_manager_create_snapshot_unlocked m t = Some m' \<Longrightarrow> lastc m' u = lastc m u"
  by (auto simp: txn_manager_create_snapshot_unlocked_def Let_def upd_txn_def bind_eq_Some_conv
      split: option.splits if_splits)

lemma unlink_lastc: "lastc (unlink_snapshot t m) u = lastc m u"
  by (auto simp: unlink_snapshot_def Let_def upd_txn_def split: option.split)

lemma remove_snapshot_lastc:
  assumes "txn_manager_remove_snapshot_unlocked t m = Some m'"
  shows "lastc m' u = lastc m u"
proof -
  have "\<exists>n rx. m' = (unlink_snapshot t m)\<lparr>num_snapshots := n, referenced_xids := rx\<rparr> \<or>
      m' = (unlink_snapshot t m)\<lparr>num_snapshots := n\<rparr>"
    using assms unfolding remove_snapshot_unfold Let_def
    by (auto simp: bind_eq_Some_conv split: if_split_asm)
  then show ?thesis using unlink_lastc [of t m u] by auto
qed

lemma store_list_txns: "store_list t xs m = Some m' \<Longrightarrow> txns m' = txns m"
  by (auto simp: store_list_def bind_eq_Some_conv)

lemma free_list_txns: "free_list t m = Some m' \<Longrightarrow> txns m' = txns m"
  by (auto simp: free_list_def bind_eq_Some_conv)

lemma set_oldest_txns: "set_oldest_referenced_xid m = Some m' \<Longrightarrow> txns m' = txns m"
  by (auto simp: set_oldest_referenced_xid_def Let_def)

lemma begin_root_lastc:
  assumes "toku_txn_begin_txn None t ty ro m = Some (Inr m')" "u \<noteq> t"
    and "length (live_root_ids m) = length (live_root_txns m)"
  shows "lastc m' u = lastc m u"
proof -
  obtain m1 m2 m3 where m1: "set_oldest_referenced_xid (started_root t ty ro m) = Some m1"
    and m2: "(if txn_records_snapshot ty None then txn_manager_create_snapshot_unlocked m1 t else Some m1) = Some m2"
    and m3: "(if txn_copies_snapshot ty None
       then store_list t (setup_live_root_txn_list (live_root_ids m2)) m2 else Some m2) = Some m3"
    and m4: "(if \<not> ro then txn_create_xids t None m3 else Some m3) = Some m'"
    using assms(1) unfolding begin_root_unfold [OF assms(3)] by (auto simp: bind_eq_Some_conv)
  have "lastc m1 u = lastc m u" using set_oldest_txns [OF m1] assms(2) by (simp add: started_root_def Let_def)
  moreover have "lastc m2 u = lastc m1 u" using m2 create_snapshot_lastc by (auto split: if_splits)
  moreover have "lastc m3 u = lastc m2 u" using m3 store_list_txns by (auto split: if_splits)
  moreover have "lastc m' u = lastc m3 u"
    using m4 assms(2) by (auto simp: txn_create_xids_root split: if_splits)
  ultimately show ?thesis by simp
qed

lemma begin_child_lastc:
  assumes "toku_txn_begin_txn (Some p) t ty ro m = Some (Inr m')" "u \<noteq> t" "p \<noteq> t"
    and "child_manager (txns m p) \<noteq> t" "rid m (child_manager (txns m p)) = rid m p"
    and "ro \<longrightarrow> declared_read_only (txns m p)"
    and "\<not> ro \<longrightarrow> length (txn_xids (txns m p)) < MAX_NESTED_TRANSACTIONS"
  shows "lastc m' u = (if u = child_manager (txns m p) then next_child_id m u else lastc m u)"
proof -
  let ?m = "started_child t p ty ro m"
  obtain m1 where m1: "toku_txn_manager_handle_snapshot_create_for_child_txn t ?m ty = Some m1"
    and m2: "(if \<not> ro then txn_create_xids t (Some p) m1 else Some m1) = Some m'"
    using assms(1) unfolding begin_child_unfold [OF assms(3-7)] by (auto simp: bind_eq_Some_conv)
  have "lastc ?m u = (if u = child_manager (txns m p) then next_child_id m u else lastc m u)"
    using assms(2-4) by (auto simp: started_child_def Let_def upd_txn_def)
  moreover have "lastc m1 u = lastc ?m u"
  proof -
    obtain m0 where m0: "(if txn_records_snapshot ty (txn_parent (txns ?m t))
        then txn_manager_create_snapshot_unlocked (malloc_list t ?m) t
        else Some (inherit_snapshot_from_parent t ?m)) = Some m0"
      and s: "(if txn_copies_snapshot ty (txn_parent (txns ?m t))
        then store_list t (setup_live_root_txn_list (live_root_ids m0)) m0 else Some m0) = Some m1"
      using m1 by (auto simp: toku_txn_manager_handle_snapshot_create_for_child_txn_def Let_def
          bind_eq_Some_conv split: if_splits)
    have "lastc m0 u = lastc ?m u"
      using m0 create_snapshot_lastc [of "malloc_list t ?m" t m0 u] assms(2)
      by (auto simp: malloc_list_def inherit_snapshot_from_parent_def upd_txn_def split: if_splits option.splits)
    moreover have "lastc m1 u = lastc m0 u" using s store_list_txns by (auto split: if_splits)
    ultimately show ?thesis by simp
  qed
  moreover have "lastc m' u = lastc m1 u"
    using m2 assms(2) by (auto simp: txn_create_xids_def Let_def bind_eq_Some_conv upd_txn_def split: if_splits)
  ultimately show ?thesis by simp
qed

definition keeps_txns :: "(TOKUTXN \<Rightarrow> tokutxn) \<Rightarrow> txn_manager option \<Rightarrow> bool" where
  "keeps_txns T r \<longleftrightarrow> (\<forall>m'. r = Some m' \<longrightarrow> txns m' = T)"

lemma keeps_txns_simps [simp]:
  "keeps_txns T None" "keeps_txns T (Some m) \<longleftrightarrow> txns m = T"
  "keeps_txns T (Option.bind x f) \<longleftrightarrow> (\<forall>y. x = Some y \<longrightarrow> keeps_txns T (f y))"
  by (auto simp: keeps_txns_def bind_eq_Some_conv)

lemma finish_live_txns:
  assumes "finish_live dbg t m = Some m'"
  shows "txns m' = txns m"
proof -
  have "keeps_txns (txns m) (finish_live dbg t m)"
    by (auto simp: finish_live_def Let_def split: sum.split prod.split)
  then show ?thesis using assms by (simp add: keeps_txns_def)
qed

lemma complete_lastc:
  assumes "toku_txn_complete_txn dbg t m = Some m'"
  shows "lastc m' u = lastc m u"
proof (cases "txn_parent (txns m t)")
  case None
  then obtain m1 m2 where
    m1: "(if txn_records_snapshot (snapshot_type (txns m t)) None
         then txn_manager_remove_snapshot_unlocked t m else Some m) = Some m1"
    and m2: "finish_live dbg t m1 = Some m2"
    and m3: "(if live_root_txn_list (txns m2 t) \<noteq> None then free_list t m2 else Some m2) = Some m'"
    using assms by (auto simp: toku_txn_complete_txn_def finish_txn_unfold bind_eq_Some_conv)
  have "lastc m1 u = lastc m u" using m1 remove_snapshot_lastc by (auto split: if_splits)
  then show ?thesis using finish_live_txns [OF m2] m3 free_list_txns by (auto split: if_splits)
next
  case (Some p)
  then obtain m1 m2 where
    m1: "(if txn_records_snapshot (snapshot_type (txns m t)) (Some p)
         then txn_manager_remove_snapshot_unlocked t m else Some m) = Some m1"
    and m2: "(if txn_copies_snapshot (snapshot_type (txns m t)) (Some p) then free_list t m1 else Some m1) = Some m2"
    and m3: "finish_child_txn t m2 = Some m'"
    using assms by (auto simp: toku_txn_complete_txn_def bind_eq_Some_conv
        toku_txn_manager_handle_snapshot_destroy_for_child_txn_def Let_def)
  have "lastc m1 u = lastc m u" using m1 remove_snapshot_lastc by (auto split: if_splits)
  moreover have "lastc m2 u = lastc m1 u" using m2 free_list_txns by (auto split: if_splits)
  moreover have "lastc m' u = lastc m2 u"
    using m3 by (auto simp: finish_child_txn_def upd_txn_def bind_eq_Some_conv)
  ultimately show ?thesis by simp
qed

subsection \<open>Logging the begin of a writer\<close>

definition logged :: "TOKUTXN \<Rightarrow> txn_manager \<Rightarrow> txn_manager" where
  "logged t = upd_txn t (\<lambda>u. u\<lparr>begin_was_logged := True\<rparr>)"

lemma logged_abs: "dll (logged t m) S = dll m S" "abs_mgr (logged t m) S = abs_mgr m S"
proof -
  show "dll (logged t m) S = dll m S" by (rule dll_cong) (auto simp: logged_def upd_txn_def)
  have "abs_snap (logged t m) s = abs_snap m s" for s
    by (simp add: abs_snap_def live_list_def logged_def upd_txn_def)
  then show "abs_mgr (logged t m) S = abs_mgr m S"
    by (simp add: abs_mgr_def) (simp add: logged_def upd_txn_def)
qed

lemma logged_fields:
  "rid (logged t m) u = rid m u" "child_manager (txns (logged t m) u) = child_manager (txns m u)"
  "txn_parent (txns (logged t m) u) = txn_parent (txns m u)" "txn_xids (txns (logged t m) u) = txn_xids (txns m u)"
  "declared_read_only (txns (logged t m) u) = declared_read_only (txns m u)" "lastc (logged t m) u = lastc m u"
  "snapshot_type (txns (logged t m) u) = snapshot_type (txns m u)"
  "live_root_txn_list (txns (logged t m) u) = live_root_txn_list (txns m u)"
  "live_root_txns (logged t m) = live_root_txns m" "live_root_ids (logged t m) = live_root_ids m"
  "num_snapshots (logged t m) = num_snapshots m" "xid_lists (logged t m) = xid_lists m"
  "next_list (logged t m) = next_list m" "last_xid (logged t m) = last_xid m"
  by (simp_all add: logged_def upd_txn_def)

lemma logged_wf: "mgr_wf (logged t m) A S = mgr_wf m A S"
proof -
  have "owns (txns (logged t m) u) = owns (txns m u)" "records (txns (logged t m) u) = records (txns m u)" for u
    by (simp_all add: owns_def records_def logged_fields)
  then show ?thesis
    by (simp add: mgr_wf_def lists_ok_def family_ok_def member_ok_def logged_abs logged_fields cong: option.case_cong)
qed

subsection \<open>The invariant of a run\<close>

definition xids_member :: "txn_manager \<Rightarrow> TOKUTXN \<Rightarrow> bool" where
  "xids_member m t \<longleftrightarrow>
     (let xs = txn_xids (txns m t) in
      xids_ok xs \<and> xs \<noteq> [] \<and> hd xs = rid m t \<and>
      (\<forall>x\<in>set (tl xs). x \<le> lastc m (child_manager (txns m t))) \<and>
      (case txn_parent (txns m t) of
         None \<Rightarrow> xs = [rid m t]
       | Some p \<Rightarrow> \<not> declared_read_only (txns m p) \<and> (\<exists>x. xs = txn_xids (txns m p) @ [x])))"

definition xids_inv :: "txn_manager \<Rightarrow> TOKUTXN set \<Rightarrow> bool" where
  "xids_inv m A \<longleftrightarrow> (\<forall>t\<in>A. \<not> declared_read_only (txns m t) \<longrightarrow> xids_member m t)"

definition run_inv :: "ended \<Rightarrow> TOKUTXN set \<Rightarrow> txn_manager \<Rightarrow> bool" where
  "run_inv E A m \<longleftrightarrow>
     (\<exists>S. mgr_wf m A S \<and> mv_inv E (rid m ` A) (abs_mgr m S)) \<and> xids_inv m A"

lemma xids_member_frame:
  assumes "same_core (txns m t) (txns m' t)" "lastc m (child_manager (txns m t)) \<le> lastc m' (child_manager (txns m t))"
    and "\<And>p. txn_parent (txns m t) = Some p \<Longrightarrow> same_core (txns m p) (txns m' p)" "xids_member m t"
  shows "xids_member m' t"
proof -
  note c = same_coreD [OF assms(1)]
  have p: "txn_xids (txns m' p) = txn_xids (txns m p)" "declared_read_only (txns m' p) = declared_read_only (txns m p)"
    if "txn_parent (txns m t) = Some p" for p
    using same_coreD(7,9) [OF assms(3) [OF that]] by auto
  show ?thesis
    using assms(2,4) c p by (auto simp: xids_member_def Let_def split: option.splits)
qed

lemma xids_inv_frame:
  assumes "mgr_wf m A S" "xids_inv m A" "\<And>u. u \<in> A \<Longrightarrow> same_core (txns m u) (txns m' u)"
    and "\<And>u. u \<in> A \<Longrightarrow> lastc m u \<le> lastc m' u" "B \<subseteq> A"
  shows "xids_inv m' B"
  unfolding xids_inv_def
proof (intro ballI impI)
  fix t assume t: "t \<in> B" "\<not> declared_read_only (txns m' t)"
  then have tA: "t \<in> A" using assms(5) by auto
  have "member_ok m A t" using assms(1) tA by (simp add: mgr_wf_def family_ok_def)
  then have r: "child_manager (txns m t) \<in> A" "\<And>p. txn_parent (txns m t) = Some p \<Longrightarrow> p \<in> A"
    by (auto simp: member_ok_def Let_def)
  have "xids_member m t"
    using assms(2) tA t(2) same_coreD(9) [OF assms(3) [OF tA]] by (simp add: xids_inv_def)
  then show "xids_member m' t"
    using assms(3,4) tA r by (intro xids_member_frame [of m t m']) auto
qed

subsection \<open>Steps\<close>

inductive mgr_step :: "bool \<Rightarrow> ended \<times> TOKUTXN set \<times> txn_manager \<Rightarrow> ended \<times> TOKUTXN set \<times> txn_manager \<Rightarrow> bool"
  for dbg where
  begin_root: "t \<notin> A \<Longrightarrow> room (last_xid m) \<Longrightarrow> toku_txn_begin_txn None t ty ro m = Some (Inr m') \<Longrightarrow>
     mgr_step dbg (E, A, m) (E, insert t A, m')"
| begin_child: "t \<notin> A \<Longrightarrow> p \<in> A \<Longrightarrow> ty \<noteq> TXN_COPIES_SNAPSHOT \<Longrightarrow> ro = declared_read_only (txns m p) \<Longrightarrow>
     room (last_xid m) \<Longrightarrow> room (lastc m (child_manager (txns m p))) \<Longrightarrow>
     toku_txn_begin_txn (Some p) t ty ro m = Some (Inr m') \<Longrightarrow>
     mgr_step dbg (E, A, m) (E, insert t A, m')"
| log_begin: "t \<in> A \<Longrightarrow> \<not> declared_read_only (txns m t) \<Longrightarrow>
     maybe_log_begin_txn_for_write_operation_unlocked t m = Some m' \<Longrightarrow>
     mgr_step dbg (E, A, m) (E, A, m')"
| complete_child: "t \<in> A \<Longrightarrow> txn_parent (txns m t) \<noteq> None \<Longrightarrow> \<forall>u\<in>A. txn_parent (txns m u) \<noteq> Some t \<Longrightarrow>
     toku_txn_complete_txn dbg t m = Some m' \<Longrightarrow>
     mgr_step dbg (E, A, m) (E, A - {t}, m')"
| complete_root: "t \<in> A \<Longrightarrow> txn_parent (txns m t) = None \<Longrightarrow> room (last_xid m) \<Longrightarrow>
     \<forall>u\<in>A. child_manager (txns m u) = t \<longrightarrow> u = t \<Longrightarrow>
     toku_txn_complete_txn dbg t m = Some m' \<Longrightarrow>
     mgr_step dbg (E, A, m)
       (note_ended (rid m t) (wrote dbg (txns m t)) (\<not> declared_read_only (txns m t)) E, A - {t}, m')"

inductive_cases mgr_step_cases: "mgr_step dbg (E, A, m) s"

inductive_cases mgr_step_elim: "mgr_step dbg (E, A, m) (E', A', m')"

inductive reachable :: "bool \<Rightarrow> ended \<times> TOKUTXN set \<times> txn_manager \<Rightarrow> bool" for dbg where
  init: "reachable dbg (({}, {}), {}, toku_txn_manager_init store)"
| step: "reachable dbg s \<Longrightarrow> mgr_step dbg s s' \<Longrightarrow> reachable dbg s'"

subsection \<open>Every step keeps the invariant\<close>

lemma run_invD:
  assumes "run_inv E A m"
  obtains S where "mgr_wf m A S" "mv_inv E (rid m ` A) (abs_mgr m S)" "xids_inv m A"
    "length (live_root_ids m) = length (live_root_txns m)"
proof -
  obtain S where "mgr_wf m A S" "mv_inv E (rid m ` A) (abs_mgr m S)" "xids_inv m A"
    using assms by (auto simp: run_inv_def)
  moreover from this(1) have "length (live_root_ids m) = length (live_root_txns m)"
    by (simp add: mgr_wf_def)
  ultimately show ?thesis using that by blast
qed

lemma run_inv_init: "run_inv ({}, {}) {} (toku_txn_manager_init store)"
proof -
  have "mgr_wf (toku_txn_manager_init store) {} []" "mv_inv ({}, {}) {} (abs_mgr (toku_txn_manager_init store) [])"
    by (simp_all add: mgr_wf_def toku_txn_manager_init_def dll_def lists_ok_def family_ok_def mv_inv_def abs_mgr_def
        mv_min_def TXNID_NONE_def)
  then show ?thesis by (auto simp: run_inv_def xids_inv_def)
qed

lemma next_child_id_fresh:
  assumes "room (lastc m r)"
  shows "lastc m r < next_child_id m r" "next_child_id m r \<noteq> rid m r" "next_child_id m r \<noteq> TXNID_NONE"
proof -
  note lt = roomD [OF assms]
  define n where "n = lastc m r + 1"
  have n: "lastc m r < n" "n < n + 1" using lt by (simp_all only: n_def word_less_add_1)
  then have "lastc m r < n + 1" by (rule less_trans)
  then show l: "lastc m r < next_child_id m r" "next_child_id m r \<noteq> rid m r"
    using n unfolding next_child_id_def n_def [symmetric] Let_def by auto
  show "next_child_id m r \<noteq> TXNID_NONE" using l(1) by (metis TXNID_NONE_def word_not_simps(1))
qed

lemma begin_root_step:
  assumes "run_inv E A m" "t \<notin> A" "room (last_xid m)"
  obtains m' where "toku_txn_begin_txn None t ty ro m = Some (Inr m')" "run_inv E (insert t A) m'"
proof -
  obtain S where S: "mgr_wf m A S" "mv_inv E (rid m ` A) (abs_mgr m S)" "xids_inv m A"
    "length (live_root_ids m) = length (live_root_txns m)"
    using run_invD [OF assms(1)] by metis
  obtain m' S' where m': "toku_txn_begin_txn None t ty ro m = Some (Inr m')" "mgr_wf m' (insert t A) S'"
    "mv_inv E (rid m' ` insert t A) (abs_mgr m' S')" "\<And>u. u \<in> A \<Longrightarrow> same_core (txns m u) (txns m' u)"
    "rid m' t = last_xid m + 1" "txn_parent (txns m' t) = None" "declared_read_only (txns m' t) = ro"
    "\<not> ro \<Longrightarrow> txn_xids (txns m' t) = [last_xid m + 1]"
    using begin_root_refines [OF S(1,2) assms(2,3)] by metis
  have last: "lastc m' u = lastc m u" if "u \<in> A" for u
    using begin_root_lastc [OF m'(1) _ S(4), of u] that assms(2) by metis
  have old: "xids_inv m' A" using S(1,3) m'(4) last by (intro xids_inv_frame [of m A S m' A]) auto
  have "0 < rid m' t" using mv_invD(3) [OF m'(3)] by auto
  then have "\<not> ro \<Longrightarrow> xids_member m' t"
    using m'(5,6,8) by (simp add: xids_member_def xids_ok_def TXNID_NONE_def)
  then have "xids_inv m' (insert t A)" using old m'(7) by (auto simp: xids_inv_def)
  then show ?thesis using that m'(1-3) by (auto simp: run_inv_def)
qed

lemma begin_child_step:
  assumes "run_inv E A m" "t \<notin> A" "p \<in> A" "ty \<noteq> TXN_COPIES_SNAPSHOT" "ro = declared_read_only (txns m p)"
    and "room (last_xid m)" "room (lastc m (child_manager (txns m p)))"
    and "\<not> ro \<longrightarrow> length (txn_xids (txns m p)) < MAX_NESTED_TRANSACTIONS"
  obtains m' where "toku_txn_begin_txn (Some p) t ty ro m = Some (Inr m')" "run_inv E (insert t A) m'"
proof -
  obtain S where S: "mgr_wf m A S" "mv_inv E (rid m ` A) (abs_mgr m S)" "xids_inv m A"
    using run_invD [OF assms(1)] by metis
  let ?r = "child_manager (txns m p)"
  note fam = family_root [OF S(1) assms(3)]
  have ro: "ro \<longrightarrow> declared_read_only (txns m p)" using assms(5) by simp
  obtain m' S' where m': "toku_txn_begin_txn (Some p) t ty ro m = Some (Inr m')" "mgr_wf m' (insert t A) S'"
    "mv_inv E (rid m' ` insert t A) (abs_mgr m' S')" "\<And>u. u \<in> A \<Longrightarrow> same_core (txns m u) (txns m' u)"
    "rid m' t = rid m p" "txn_parent (txns m' t) = Some p" "declared_read_only (txns m' t) = ro"
    "child_manager (txns m' t) = ?r"
    "\<not> ro \<Longrightarrow> txn_xids (txns m' t) = txn_xids (txns m p) @ [next_child_id m ?r]"
    using begin_child_refines [OF S(1,2) assms(2,3,4,6) ro assms(8)] by metis
  note fresh = next_child_id_fresh [OF assms(7)]
  have pt: "p \<noteq> t" "?r \<noteq> t" using assms(2,3) fam(1) by auto
  have last: "lastc m' u = (if u = ?r then next_child_id m u else lastc m u)" if "u \<in> A" for u
  proof -
    have "u \<noteq> t" using that assms(2) by auto
    then show ?thesis by (rule begin_child_lastc [OF m'(1) _ pt fam(2) ro assms(8)])
  qed
  have old: "xids_inv m' A"
    using S(1,3) m'(4) last fresh(1) by (intro xids_inv_frame [of m A S m' A]) (auto intro: less_imp_le)
  have "xids_member m' t" if w: "\<not> ro"
  proof -
    have "xids_member m p" using S(3) assms(3,5) w by (simp add: xids_inv_def)
    then have mp: "xids_ok (txn_xids (txns m p))" "txn_xids (txns m p) \<noteq> []" "hd (txn_xids (txns m p)) = rid m p"
      "\<forall>x\<in>set (tl (txn_xids (txns m p))). x \<le> lastc m ?r"
      by (auto simp: xids_member_def Let_def)
    then have "next_child_id m ?r \<notin> set (txn_xids (txns m p))"
      using fresh(1,2) fam(2) by (cases "txn_xids (txns m p)") auto
    then have "xids_ok (txn_xids (txns m p) @ [next_child_id m ?r])"
      using mp(1) fresh(3) assms(8) w by (auto simp: xids_ok_def MAX_NESTED_TRANSACTIONS_def)
    moreover have "declared_read_only (txns m' p) = ro" "txn_xids (txns m' p) = txn_xids (txns m p)"
      using same_coreD(7,9) [OF m'(4) [OF assms(3)]] assms(5) by auto
    moreover have "lastc m' ?r = next_child_id m ?r" using last [OF fam(1)] by simp
    ultimately show ?thesis
      using m'(5,6,8) m'(9) [OF w] mp(2-4) fresh(1) w
      by (auto simp: xids_member_def Let_def intro: less_imp_le order.trans)
  qed
  then have "xids_inv m' (insert t A)" using old m'(7) by (auto simp: xids_inv_def)
  then show ?thesis using that m'(1-3) by (auto simp: run_inv_def)
qed

lemma run_inv_logged: "run_inv E A (logged t m) = run_inv E A m"
proof -
  have "rid (logged t m) ` A = rid m ` A" by (simp add: logged_fields)
  then show ?thesis
    by (simp add: run_inv_def xids_inv_def xids_member_def logged_wf logged_abs logged_fields cong: option.case_cong)
qed

lemma log_begin_step:
  assumes "run_inv E A m" "t \<in> A" "\<not> declared_read_only (txns m t)"
  obtains m' where "maybe_log_begin_txn_for_write_operation_unlocked t m = Some m'" "run_inv E A m'"
  using assms(2,3)
proof (induction "length (txn_xids (txns m t))" arbitrary: t thesis rule: less_induct)
  case less
  note simps = maybe_log_begin_txn_for_write_operation_unlocked.simps [of t m]
  have mem: "xids_member m t" using assms(1) less.prems(2,3) by (simp add: run_inv_def xids_inv_def)
  show ?case
  proof (cases "begin_was_logged (txns m t)")
    case True
    then show ?thesis using less.prems(1) [of m] assms(1) simps by simp
  next
    case False
    show ?thesis
    proof (cases "txn_parent (txns m t)")
      case None
      then show ?thesis
        using less.prems(1) [of "logged t m"] assms(1) simps False by (simp add: run_inv_logged logged_def [symmetric])
    next
      case (Some p)
      have "p \<in> A" using assms(1) less.prems(2) Some by (auto simp: run_inv_def mgr_wf_def family_defs)
      moreover have "\<not> declared_read_only (txns m p)" "length (txn_xids (txns m p)) < length (txn_xids (txns m t))"
        using mem Some by (auto simp: xids_member_def Let_def)
      ultimately obtain m1 where "maybe_log_begin_txn_for_write_operation_unlocked p m = Some m1" "run_inv E A m1"
        using less.hyps [of p] by metis
      then show ?thesis
        using less.prems(1) [of "logged t m1"] simps False Some by (simp add: run_inv_logged logged_def [symmetric])
    qed
  qed
qed

lemma complete_child_step:
  assumes "run_inv E A m" "t \<in> A" "txn_parent (txns m t) \<noteq> None" "\<forall>u\<in>A. txn_parent (txns m u) \<noteq> Some t"
  obtains m' where "toku_txn_complete_txn dbg t m = Some m'" "run_inv E (A - {t}) m'"
proof -
  obtain S where S: "mgr_wf m A S" "mv_inv E (rid m ` A) (abs_mgr m S)" "xids_inv m A"
    using run_invD [OF assms(1)] by metis
  obtain p where p: "txn_parent (txns m t) = Some p" using assms(3) by auto
  obtain m' S' where m': "toku_txn_complete_txn dbg t m = Some m'" "mgr_wf m' (A - {t}) S'"
    "mv_inv E (rid m' ` (A - {t})) (abs_mgr m' S')" "\<And>u. u \<in> A \<Longrightarrow> same_core (txns m u) (txns m' u)"
    using complete_child_refines [OF S(1,2) assms(2) p] assms(4) by metis
  have "xids_inv m' (A - {t})"
    using S(1,3) m'(4) complete_lastc [OF m'(1)] by (intro xids_inv_frame [of m A S m']) auto
  then show ?thesis using that m'(1-3) by (auto simp: run_inv_def)
qed

lemma complete_root_step:
  assumes "run_inv E A m" "t \<in> A" "txn_parent (txns m t) = None" "room (last_xid m)"
    and "\<forall>u\<in>A. child_manager (txns m u) = t \<longrightarrow> u = t"
  obtains m' where "toku_txn_complete_txn dbg t m = Some m'"
    "run_inv (note_ended (rid m t) (wrote dbg (txns m t)) (\<not> declared_read_only (txns m t)) E) (A - {t}) m'"
proof -
  obtain S where S: "mgr_wf m A S" "mv_inv E (rid m ` A) (abs_mgr m S)" "xids_inv m A"
    using run_invD [OF assms(1)] by metis
  obtain m' S' where m': "toku_txn_complete_txn dbg t m = Some m'" "mgr_wf m' (A - {t}) S'"
    "mv_inv (note_ended (rid m t) (wrote dbg (txns m t)) (\<not> declared_read_only (txns m t)) E) (rid m' ` (A - {t})) (abs_mgr m' S')"
    "\<And>u. u \<in> A \<Longrightarrow> same_core (txns m u) (txns m' u)"
    using complete_root_refines [OF S(1,2) assms(2,3,4)] assms(5) by metis
  have "xids_inv m' (A - {t})"
    using S(1,3) m'(4) complete_lastc [OF m'(1)] by (intro xids_inv_frame [of m A S m']) auto
  then show ?thesis using that m'(1-3) by (auto simp: run_inv_def)
qed

lemma begin_child_nesting:
  assumes "toku_txn_begin_txn (Some p) t ty ro m = Some (Inr m')" "\<not> ro"
  shows "length (txn_xids (txns m p)) < MAX_NESTED_TRANSACTIONS"
proof (rule ccontr)
  assume "\<not> ?thesis"
  then show False
    using assms by (cases "length (txn_xids (txns m p)) = 253")
      (auto simp: toku_txn_begin_txn_def toku_xids_can_create_child_def MAX_NESTED_TRANSACTIONS_def)
qed

lemma mgr_step_inv:
  assumes "mgr_step dbg s s'" "case s of (E, A, m) \<Rightarrow> run_inv E A m"
  shows "case s' of (E, A, m) \<Rightarrow> run_inv E A m"
  using assms
proof (induction rule: mgr_step.induct)
  case (begin_root t A m ty ro m' E)
  then have inv: "run_inv E A m" by simp
  from begin_root_step [OF inv begin_root.hyps(1,2)] have "run_inv E (insert t A) m'"
    using begin_root.hyps(3) by (metis option.inject sum.inject(2))
  then show ?case by simp
next
  case (begin_child t A p ty ro m m' E)
  then have inv: "run_inv E A m" by simp
  have "\<not> ro \<longrightarrow> length (txn_xids (txns m p)) < MAX_NESTED_TRANSACTIONS"
    using begin_child_nesting [OF begin_child.hyps(7)] by simp
  from begin_child_step [OF inv begin_child.hyps(1-6) this] have "run_inv E (insert t A) m'"
    using begin_child.hyps(7) by (metis option.inject sum.inject(2))
  then show ?case by simp
next
  case (log_begin t A m m' E)
  then have inv: "run_inv E A m" by simp
  from log_begin_step [OF inv log_begin.hyps(1,2)] have "run_inv E A m'"
    using log_begin.hyps(3) by (metis option.inject)
  then show ?case by simp
next
  case (complete_child t A m m' E)
  then have inv: "run_inv E A m" by simp
  from complete_child_step [OF inv complete_child.hyps(1-3)] have "run_inv E (A - {t}) m'"
    using complete_child.hyps(4) by (metis option.inject)
  then show ?case by simp
next
  case (complete_root t A m m' E)
  then have inv: "run_inv E A m" by simp
  from complete_root_step [OF inv complete_root.hyps(1-4)]
  have "run_inv (note_ended (rid m t) (wrote dbg (txns m t)) (\<not> declared_read_only (txns m t)) E) (A - {t}) m'"
    using complete_root.hyps(5) by (metis option.inject)
  then show ?case by simp
qed

lemma reachable_inv: "reachable dbg (E, A, m) \<Longrightarrow> run_inv E A m"
proof (induction "(E, A, m)" arbitrary: E A m rule: reachable.induct)
  case init
  show ?case by (rule run_inv_init)
next
  case (step s)
  then show ?case using mgr_step_inv [OF step(3)] by (cases s) auto
qed

end
