(* ===== verification/Txn_Verify.thy ===== *)
theory Txn_Verify
  imports Txn_Run
begin

text \<open>
  The self-check of the transaction manager, \<open>verify_snapshot_system\<close>, which the code runs around
  every operation when \<open>garbage_collection_debug\<close> is on: each \<open>invariant\<close> of the code is an
  \<open>ensure\<close>, so \<open>None\<close> is a failed check. It never fails in a reachable state. The lookups of the youngest
  live list that refers to an id, which the check and garbage collection share, are characterised
  here.
\<close>

subsection \<open>The self-check\<close>

fun for_each :: "('a \<Rightarrow> unit option) \<Rightarrow> 'a list \<Rightarrow> unit option" where
  "for_each f [] = Some ()"
| "for_each f (x # xs) = do { f x; for_each f xs }"

lemma for_each_ok: "for_each f xs = Some () \<longleftrightarrow> (\<forall>x\<in>set xs. f x = Some ())"
  by (induction xs) (auto simp: bind_eq_Some_conv)

definition verify_live_xid :: "txn_manager \<Rightarrow> txn_gc_state \<Rightarrow> TXNID \<Rightarrow> TXNID \<Rightarrow> unit option" where
  "verify_live_xid m gcs snapshot_xid live_xid = do {
     ensure (live_xid \<le> snapshot_xid);
     youngest \<leftarrow> toku_get_youngest_live_list_txnid_for live_xid (snapshot_xids gcs) (referenced_xids m);
     if is_txnid_live m live_xid then ensure (youngest = TXNID_NONE)
     else do {
       ensure (youngest \<noteq> TXNID_NONE);
       ensure (youngest \<ge> snapshot_xid)
     }
   }"

definition verify_snapshot :: "txn_manager \<Rightarrow> txn_gc_state \<Rightarrow> TOKUTXN \<Rightarrow> unit option" where
  "verify_snapshot m gcs snapshot_txn = do {
     let snapshot_xid = snapshot_txnid64 (txns m snapshot_txn);
     live \<leftarrow> live_list m snapshot_txn;
     youngest \<leftarrow> toku_get_youngest_live_list_txnid_for snapshot_xid (snapshot_xids gcs) (referenced_xids m);
     ensure (youngest = TXNID_NONE);
     for_each (verify_live_xid m gcs snapshot_xid) live
   }"

fun count_references :: "txn_manager \<Rightarrow> referenced_xid_tuple \<Rightarrow> TOKUTXN list \<Rightarrow> nat option" where
  "count_references m tuple [] = Some 0"
| "count_references m tuple (snapshot_txn # ts) = do {
     live \<leftarrow> live_list m snapshot_txn;
     found \<leftarrow> toku_is_txn_in_live_root_txn_list live (begin_id tuple);
     found_end \<leftarrow> toku_is_txn_in_live_root_txn_list live (end_id tuple);
     ensure (\<not> found_end);
     n \<leftarrow> count_references m tuple ts;
     Some (if found then n + 1 else n)
   }"

definition verify_tuple :: "txn_manager \<Rightarrow> txn_gc_state \<Rightarrow> TOKUTXN list \<Rightarrow> referenced_xid_tuple \<Rightarrow> unit option" where
  "verify_tuple m gcs snapshot_txns tuple = do {
     ensure (begin_id tuple < end_id tuple);
     ensure (references tuple > 0);
     ensure (\<not> is_txnid_live m (begin_id tuple));
     ensure (\<not> is_txnid_live m (end_id tuple));
     for_each (\<lambda>t. ensure (begin_id tuple \<noteq> parent_id64 (txns m t) \<and> end_id tuple \<noteq> parent_id64 (txns m t)))
       snapshot_txns;
     refs_found \<leftarrow> count_references m tuple snapshot_txns;
     ensure (refs_found = references tuple);
     youngest \<leftarrow> toku_get_youngest_live_list_txnid_for (begin_id tuple) (snapshot_xids gcs) (referenced_xids m);
     ensure (youngest \<noteq> TXNID_NONE);
     ensure (youngest > begin_id tuple);
     ensure (youngest < end_id tuple);
     (case omt_find_zero (\<lambda>x. toku_find_xid_by_xid x youngest) (snapshot_xids gcs) of
        Inr _ \<Rightarrow> Some ()
      | Inl _ \<Rightarrow> None)
   }"

definition verify_snapshot_system :: "txn_manager \<Rightarrow> unit option" where
  "verify_snapshot_system m = do {
     gcs \<leftarrow> toku_txn_manager_clone_state_for_gc m;
     snapshot_txns \<leftarrow> snapshot_chain m (snapshot_head m);
     for_each (verify_snapshot m gcs) snapshot_txns;
     for_each (verify_tuple m gcs snapshot_txns) (referenced_xids m)
   }"

subsection \<open>The youngest live list that refers to an id\<close>

lemma youngest_none:
  assumes "sorted_by begin_id rx" "x \<notin> begin_id ` set rx"
  shows "toku_get_youngest_live_list_txnid_for x sx rx = Some TXNID_NONE"
  using omt_find_zero_missing [OF assms(1), of x] assms(2)
  by (auto simp: toku_get_youngest_live_list_txnid_for_def find_keys split: sum.splits)

lemma youngest_tuple:
  assumes "sorted_by begin_id rx" "t \<in> set rx" "sorted_by (\<lambda>y. y) sx"
    and "s \<in> set sx" "begin_id t < s" "s < end_id t"
  obtains y where "toku_get_youngest_live_list_txnid_for (begin_id t) sx rx = Some y"
    "y \<in> set sx" "begin_id t < y" "y < end_id t" "\<And>w. w \<in> set sx \<Longrightarrow> w < end_id t \<Longrightarrow> w \<le> y"
proof -
  obtain us ws where u: "rx = us @ t # ws" using assms(2) by (meson split_list)
  then have fz: "omt_find_zero (key_cmp begin_id (begin_id t)) rx = Inr (t, length us)"
    using omt_find_zero_sorted [OF assms(1)] by simp
  have "omt_find_minus (key_cmp (\<lambda>y. y) (end_id t)) sx \<noteq> None"
    using omt_find_minus_none [OF assms(3), of "end_id t"] assms(4,6) by fastforce
  then obtain y i where y: "omt_find_minus (key_cmp (\<lambda>y. y) (end_id t)) sx = Some (y, i)" by auto
  note law = omt_find_minus_sorted [OF assms(3) y]
  moreover from this have "begin_id t < y" using assms(4-6) by (metis less_le_trans)
  ultimately show ?thesis
    using that [of y] fz y by (simp add: toku_get_youngest_live_list_txnid_for_def find_keys)
qed

subsection \<open>What the manager hands to garbage collection\<close>

lemma is_txnid_live_iff:
  assumes "sorted_by (\<lambda>y. y) (live_root_ids m)" "live_root_ids m = map (rid m) (live_root_txns m)"
  shows "is_txnid_live m x \<longleftrightarrow> x \<in> set (live_root_ids m)"
proof -
  have s: "sorted_by (rid m) (live_root_txns m)" using assms by (simp add: sorted_by_map)
  show ?thesis
    using omt_find_zero_missing [OF s, of x] assms(2)
    by (auto simp: is_txnid_live_def toku_txn_manager_id2txn_unlocked_def find_keys split: sum.splits)
qed

lemma clone_state_eq:
  assumes "mgr_wf m A S"
  shows "toku_txn_manager_clone_state_for_gc m =
    Some \<lparr>snapshot_xids = map (sid m) S, gc_referenced_xids = referenced_xids m,
      gc_live_root_txns = live_root_ids m\<rparr>"
proof -
  have "dll m S" "num_snapshots m = length S" using assms by (auto simp: mgr_wf_def)
  then show ?thesis
    using snapshot_chain_dll [of m S]
    by (auto simp: toku_txn_manager_clone_state_for_gc_def snapshot_xid_list_def setup_live_root_txn_list_def)
qed

lemma abs_mgr_sel [simp]:
  "mv_lives (abs_mgr m S) = live_root_ids m" "mv_snaps (abs_mgr m S) = map (abs_snap m) S"
  "mv_rx (abs_mgr m S) = referenced_xids m" "mv_last (abs_mgr m S) = last_xid m"
  "mv_oldest (abs_mgr m S) = last_calculated_oldest_referenced_xid m"
  "sn_id (abs_snap m t) = sid m t" "sn_root (abs_snap m t) = rid m t"
  by (simp_all add: abs_mgr_def abs_snap_def)

lemma snapshot_live_list:
  assumes "mgr_wf m A S" "s \<in> set S"
  shows "live_list m s = Some (sn_live (abs_snap m s))"
  using mgr_wf_snapshot_list [OF assms] by (auto simp: live_list_def abs_snap_def)

subsection \<open>The self-check succeeds\<close>

lemma verify_live_xid_ok:
  assumes wf: "mgr_wf m A S" and inv: "mv_inv (E, {}) (rid m ` A) (abs_mgr m S)"
    and s: "s \<in> set S" and x: "x \<in> set (sn_live (abs_snap m s))"
    and g: "snapshot_xids g = map (sid m) S"
  shows "verify_live_xid m g (sid m s) x = Some ()"
proof -
  note i = mv_invD [OF inv, simplified]
  have so: "snap_ok (rid m ` A) (abs_mgr m S) (abs_snap m s)" using i(5) s by auto
  then have xs: "x < sid m s" using x by (simp add: snap_ok_def)
  have sx: "sorted_by (\<lambda>y. y) (map (sid m) S)" using i(4) by (simp add: sorted_by_map)
  have ids: "live_root_ids m = map (rid m) (live_root_txns m)" using wf by (simp add: mgr_wf_def)
  show ?thesis
  proof (cases "x \<in> set (live_root_ids m)")
    case True
    have "x \<notin> begin_id ` set (referenced_xids m)"
      using i(2,7) True by (fastforce simp: tuple_ok_def)
    then show ?thesis
      using youngest_none [OF i(6)] True xs is_txnid_live_iff [OF i(1) ids] by (simp add: verify_live_xid_def)
  next
    case False
    have "x \<in> E" using i(11) [of "abs_snap m s"] s x False by auto
    then have "x \<in> begin_id ` set (referenced_xids m)"
      using i(8) s x by (auto simp: ended_ok_def)
    then obtain t where t: "t \<in> set (referenced_xids m)" "begin_id t = x" by auto
    have se: "sid m s < end_id t" using i(7) [OF t(1)] s x t(2) by (auto simp: tuple_ok_def)
    obtain y where "toku_get_youngest_live_list_txnid_for x (map (sid m) S) (referenced_xids m) = Some y"
      "\<And>w. w \<in> set (map (sid m) S) \<Longrightarrow> w < end_id t \<Longrightarrow> w \<le> y" "begin_id t < y"
      by (rule youngest_tuple [OF i(6) t(1) sx, of "sid m s"]) (use s xs se t(2) in \<open>auto intro!: that\<close>)
    moreover from this have "sid m s \<le> y" "y \<noteq> TXNID_NONE" using s se by (auto simp: TXNID_NONE_def)
    ultimately show ?thesis
      using False xs g is_txnid_live_iff [OF i(1) ids] by (simp add: verify_live_xid_def)
  qed
qed

lemma verify_snapshot_ok:
  assumes wf: "mgr_wf m A S" and inv: "mv_inv (E, {}) (rid m ` A) (abs_mgr m S)"
    and s: "s \<in> set S" and g: "snapshot_xids g = map (sid m) S"
  shows "verify_snapshot m g s = Some ()"
proof -
  note i = mv_invD [OF inv, simplified]
  have "sid m s \<notin> begin_id ` set (referenced_xids m)" using i(7) s by (fastforce simp: tuple_ok_def)
  then show ?thesis
    using youngest_none [OF i(6)] snapshot_live_list [OF wf s] verify_live_xid_ok [OF wf inv s _ g]
    by (simp add: verify_snapshot_def for_each_ok)
qed

lemma count_references_eq:
  assumes "\<And>s. s \<in> set T \<Longrightarrow> live_list m s = Some (sn_live (abs_snap m s)) \<and>
      sorted_by (\<lambda>y. y) (sn_live (abs_snap m s)) \<and> end_id t \<notin> set (sn_live (abs_snap m s))"
  shows "count_references m t T = Some (length (filter (\<lambda>s. begin_id t \<in> set (sn_live (abs_snap m s))) T))"
  using assms by (induction T) (simp_all add: toku_is_txn_in_live_root_txn_list_iff)

lemma verify_tuple_ok:
  assumes wf: "mgr_wf m A S" and inv: "mv_inv E (rid m ` A) (abs_mgr m S)"
    and t: "t \<in> set (referenced_xids m)" and g: "snapshot_xids g = map (sid m) S"
  shows "verify_tuple m g S t = Some ()"
proof -
  note i = mv_invD [OF inv, simplified]
  have to: "tuple_ok (rid m ` A) (abs_mgr m S) t" using i(7) t .
  have ids: "live_root_ids m = map (rid m) (live_root_txns m)" and SA: "set S \<subseteq> A"
    using wf by (auto simp: mgr_wf_def)
  have sx: "sorted_by (\<lambda>y. y) (map (sid m) S)" using i(4) by (simp add: sorted_by_map)
  have live: "\<not> is_txnid_live m (begin_id t)" "\<not> is_txnid_live m (end_id t)"
    using is_txnid_live_iff [OF i(1) ids] i(2) to by (auto simp: tuple_ok_def)
  have roots: "\<forall>s\<in>set S. begin_id t \<noteq> rid m s \<and> end_id t \<noteq> rid m s"
    using to SA by (auto simp: tuple_ok_def)
  have "live_list m s = Some (sn_live (abs_snap m s)) \<and>
      sorted_by (\<lambda>y. y) (sn_live (abs_snap m s)) \<and> end_id t \<notin> set (sn_live (abs_snap m s))" if s: "s \<in> set S" for s
    using i(5) to snapshot_live_list [OF wf s] s by (auto simp: snap_ok_def tuple_ok_def)
  then have refs: "count_references m t S = Some (references t)"
    using count_references_eq [of S m t] to by (simp add: tuple_ok_def filter_map comp_def)
  have "references t = length (filter (\<lambda>s. begin_id t \<in> set (sn_live (abs_snap m s))) S)"
    using to by (simp add: tuple_ok_def filter_map comp_def)
  moreover have "0 < references t" using to unfolding tuple_ok_def by blast
  ultimately have "filter (\<lambda>s. begin_id t \<in> set (sn_live (abs_snap m s))) S \<noteq> []" by (metis length_greater_0_conv)
  then obtain s where "s \<in> set S" "begin_id t \<in> set (sn_live (abs_snap m s))"
    by (force simp: filter_empty_conv)
  then have s: "sid m s \<in> set (map (sid m) S)" "begin_id t < sid m s" "sid m s < end_id t"
    using to by (auto simp: tuple_ok_def)
  obtain y where y: "toku_get_youngest_live_list_txnid_for (begin_id t) (map (sid m) S) (referenced_xids m) = Some y"
    "y \<in> set (map (sid m) S)" "begin_id t < y" "y < end_id t"
    using youngest_tuple [OF i(6) t sx s] by metis
  have fz: "(case omt_find_zero (\<lambda>x. toku_find_xid_by_xid x y) (map (sid m) S) of Inr _ \<Rightarrow> Some () | Inl _ \<Rightarrow> None) = Some ()"
    using omt_find_zero_missing [OF sx, of y] y(2) by (auto simp: find_keys split: sum.splits)
  have "y \<noteq> TXNID_NONE" using y(3) by (auto simp: TXNID_NONE_def)
  moreover have "begin_id t < end_id t" "0 < references t" using to unfolding tuple_ok_def by blast+
  moreover have "for_each (\<lambda>s. ensure (begin_id t \<noteq> rid m s \<and> end_id t \<noteq> rid m s)) S = Some ()"
    using roots by (simp add: for_each_ok)
  ultimately show ?thesis
    using live refs y fz by (simp add: verify_tuple_def g)
qed

lemma verify_snapshot_system_ok:
  assumes wf: "mgr_wf m A S" and inv: "mv_inv (E, {}) (rid m ` A) (abs_mgr m S)"
  shows "verify_snapshot_system m = Some ()"
proof -
  let ?g = "\<lparr>snapshot_xids = map (sid m) S, gc_referenced_xids = referenced_xids m,
      gc_live_root_txns = live_root_ids m\<rparr>"
  have "snapshot_chain m (snapshot_head m) = Some S"
    using wf snapshot_chain_dll by (auto simp: mgr_wf_def)
  moreover have "for_each (verify_snapshot m ?g) S = Some ()"
    using verify_snapshot_ok [OF wf inv] by (simp add: for_each_ok)
  moreover have "for_each (verify_tuple m ?g S) (referenced_xids m) = Some ()"
    using verify_tuple_ok [OF wf inv] by (simp add: for_each_ok)
  ultimately show ?thesis using clone_state_eq [OF wf] by (simp add: verify_snapshot_system_def)
qed

text \<open>With \<open>garbage_collection_debug\<close> on, no root transaction ends unnoticed.\<close>

lemma debug_ended:
  "reachable True (E, A, m) \<Longrightarrow> snd E = {}"
proof (induction "(E, A, m)" arbitrary: E A m rule: reachable.induct)
  case (step s)
  obtain E0 A0 m0 where s: "s = (E0, A0, m0)" by (cases s)
  then have "snd E0 = {}" using step(2) by blast
  moreover have "mgr_step True (E0, A0, m0) (E, A, m)" using step(3) s by simp
  ultimately show ?case by (auto elim!: mgr_step_cases simp: note_ended_def wrote_def split: if_splits)
qed simp

end
