(* ===== verification/Ule_Gc.thy ===== *)
theory Ule_Gc
  imports Le_Access Txn_Verify
begin

text \<open>
  Garbage collection of leaf entries (\<open>src/ft/ule.cc\<close>): removing the committed records that no
  snapshot can read, and the two entry points that apply a message to a packed leaf entry or only
  collect its garbage. \<open>gc_contract\<close> states what the collector relies on from the transaction
  manager; the lemmas inside it show that every reader sees the same value afterwards.
\<close>

subsection \<open>The collector's questions about transactions\<close>

definition get_next_older_txnid :: "TXNID \<Rightarrow> TXNID list \<Rightarrow> TXNID option" where
  "get_next_older_txnid xc omt =
     (case omt_find_minus (\<lambda>x. toku_find_xid_by_xid x xc) omt of
        Some (xid, _) \<Rightarrow> do { ensure (xid < xc); Some xid }
      | None \<Rightarrow> Some TXNID_NONE)"

definition xid_reads_committed_xid ::
  "TXNID \<Rightarrow> TXNID \<Rightarrow> TXNID list \<Rightarrow> referenced_xid_tuple list \<Rightarrow> bool option" where
  "xid_reads_committed_xid tl1 xc snapshot_txnids rx =
     (if tl1 < xc then Some False
      else do {
        x \<leftarrow> toku_get_youngest_live_list_txnid_for xc snapshot_txnids rx;
        Some (if x = TXNID_NONE then True else tl1 > x)
      })"

subsection \<open>Simple garbage collection\<close>

text \<open>\<open>n\<close> slots from \<open>src\<close> on are copied to \<open>dst\<close>.\<close>

definition memmove_uxrs :: "nat \<Rightarrow> nat \<Rightarrow> nat \<Rightarrow> (nat \<Rightarrow> uxr) \<Rightarrow> nat \<Rightarrow> uxr" where
  "memmove_uxrs dst src n a = (\<lambda>i. if dst \<le> i \<and> i < dst + n then a (src + (i - dst)) else a i)"

text \<open>The loop from the top of the committed stack; \<open>k\<close> slots are left to look at.\<close>

fun simple_gc_index :: "ule \<Rightarrow> TXNID \<Rightarrow> nat \<Rightarrow> nat" where
  "simple_gc_index u oldest 0 = 0"
| "simple_gc_index u oldest (Suc k) =
     (if u_xid (uxrs u k) < oldest then k else simple_gc_index u oldest k)"

definition ule_simple_garbage_collection :: "ule \<Rightarrow> TXNID \<Rightarrow> bool \<Rightarrow> ule" where
  "ule_simple_garbage_collection u oldest_referenced_xid_for_simple_gc mvcc_needed =
     (if num_cuxrs u = 1 then u
      else
        let curr_index =
              (if mvcc_needed then simple_gc_index u oldest_referenced_xid_for_simple_gc (num_cuxrs u)
               else num_cuxrs u - 1)
        in if curr_index \<noteq> 0 then
             let num_entries = num_cuxrs u + num_puxrs u - curr_index;
                 a = memmove_uxrs 0 curr_index num_entries (uxrs u)
             in u\<lparr>uxrs := a(0 := (a 0)\<lparr>u_xid := TXNID_NONE\<rparr>), num_cuxrs := num_cuxrs u - curr_index\<rparr>
           else u)"

subsection \<open>Full garbage collection\<close>

text \<open>The inner loop: the next record below that transaction \<open>tl1\<close> reads, or the bottom.\<close>

fun skip_unread ::
  "ule \<Rightarrow> TXNID \<Rightarrow> TXNID list \<Rightarrow> referenced_xid_tuple list \<Rightarrow> nat \<Rightarrow> nat option" where
  "skip_unread u tl1 sx rx 0 = Some 0"
| "skip_unread u tl1 sx rx (Suc k) = do {
     reads \<leftarrow> xid_reads_committed_xid tl1 (u_xid (uxrs u (Suc k))) sx rx;
     if reads then Some (Suc k) else skip_unread u tl1 sx rx k
   }"

lemma skip_unread_le: "skip_unread u tl1 sx rx k = Some j \<Longrightarrow> j \<le> k"
  by (induction k) (auto simp: bind_eq_Some_conv split: if_splits)

text \<open>One turn of the outer loop below a necessary record: where to go on, \<open>None\<close> for \<open>break\<close>.\<close>

definition next_necessary ::
  "bool \<Rightarrow> ule \<Rightarrow> TXNID list \<Rightarrow> referenced_xid_tuple list \<Rightarrow> TXNID list \<Rightarrow> nat \<Rightarrow> nat option option" where
  "next_necessary garbage_collection_debug u sx rx live cur = do {
     let xc = u_xid (uxrs u cur);
     is_xc_live \<leftarrow> toku_is_txn_in_live_root_txn_list live xc;
     if is_xc_live then Some (Some (cur - 1))
     else do {
       tl1 \<leftarrow> toku_get_youngest_live_list_txnid_for xc sx rx;
       ensure (tl1 \<noteq> xc);
       tl1 \<leftarrow> (if tl1 = TXNID_NONE then get_next_older_txnid xc sx else Some tl1);
       if tl1 = TXNID_NONE then Some None
       else do {
         ensure (garbage_collection_debug \<longrightarrow> (\<exists>v. omt_find_zero (\<lambda>x. toku_find_xid_by_xid x tl1) sx = Inr v));
         next \<leftarrow> skip_unread u tl1 sx rx (cur - 1);
         Some (Some next)
       }
     }
   }"

lemma next_necessary_less:
  "next_necessary dbg u sx rx live cur = Some (Some next) \<Longrightarrow> cur \<noteq> 0 \<Longrightarrow> next < cur"
  by (auto simp: next_necessary_def Let_def bind_eq_Some_conv dest!: skip_unread_le split: if_splits)

text \<open>The loop that marks the records to keep.\<close>

function mark_necessary ::
  "bool \<Rightarrow> ule \<Rightarrow> TXNID list \<Rightarrow> referenced_xid_tuple list \<Rightarrow> TXNID list \<Rightarrow> nat \<Rightarrow> bool list \<Rightarrow> bool list option" where
  "mark_necessary dbg u sx rx live cur necessary =
     (let necessary = necessary[cur := True]
      in if cur = 0 then Some necessary
         else (case next_necessary dbg u sx rx live cur of
             None \<Rightarrow> None
           | Some None \<Rightarrow> Some necessary
           | Some (Some next) \<Rightarrow> mark_necessary dbg u sx rx live next necessary))"
  by pat_completeness auto
termination
  by (relation "measure (\<lambda>(dbg, u, sx, rx, live, cur, necessary). cur)") (auto dest: next_necessary_less)

declare mark_necessary.simps [simp del]

text \<open>The loop that shifts the necessary records down; \<open>i\<close> is the next slot to read.\<close>

fun shift_necessary :: "bool list \<Rightarrow> nat \<Rightarrow> nat \<Rightarrow> (nat \<Rightarrow> uxr) \<Rightarrow> (nat \<Rightarrow> uxr) \<times> nat" where
  "shift_necessary [] i first_free a = (a, first_free)"
| "shift_necessary (b # bs) i first_free a =
     (if b then shift_necessary bs (i + 1) (first_free + 1) (a(first_free := a i))
      else shift_necessary bs (i + 1) first_free a)"

definition ule_garbage_collect ::
  "bool \<Rightarrow> ule \<Rightarrow> TXNID list \<Rightarrow> referenced_xid_tuple list \<Rightarrow> TXNID list \<Rightarrow> ule option" where
  "ule_garbage_collect dbg u sx rx live =
     (if num_cuxrs u = 1 then Some u
      else do {
        necessary \<leftarrow> mark_necessary dbg u sx rx live (num_cuxrs u - 1) (replicate (num_cuxrs u) False);
        let (a, first_free) = shift_necessary necessary 0 0 (uxrs u);
        ensure (first_free \<le> num_cuxrs u);
        ensure (first_free \<ge> 1);
        let a = a(0 := (a 0)\<lparr>u_xid := TXNID_NONE\<rparr>);
        let a = (if first_free \<noteq> num_cuxrs u then memmove_uxrs first_free (num_cuxrs u) (num_puxrs u) a else a);
        Some (u\<lparr>uxrs := a, num_cuxrs := first_free\<rparr>)
      })"

definition ule_packed_memsize :: "ule \<Rightarrow> nat option" where
  "ule_packed_memsize u = do {
     inner \<leftarrow> (if num_cuxrs u = 1 \<and> num_puxrs u = 0 then map_option Some (ule_get_innermost_uxr u) else Some None);
     if (case inner of Some x \<Rightarrow> uxr_is_delete x | None \<Rightarrow> False) then Some 0
     else le_memsize_from_ule u
   }"

subsection \<open>Reading a committed stack\<close>

text \<open>
  A reader accepts the records of some transactions. It reads the newest committed record it
  accepts, or the oldest one. \<open>reads_at acc cs i\<close>: the record at index \<open>i\<close> is the one read.
\<close>

definition reads_at :: "(TXNID \<Rightarrow> bool) \<Rightarrow> xrec list \<Rightarrow> nat \<Rightarrow> bool" where
  "reads_at acc cs i \<longleftrightarrow> i < length cs \<and> (i = 0 \<or> acc (fst (cs ! i))) \<and>
     (\<forall>j. i < j \<and> j < length cs \<longrightarrow> \<not> acc (fst (cs ! j)))"

fun newest_read :: "(TXNID \<Rightarrow> bool) \<Rightarrow> xrec list \<Rightarrow> xval" where
  "newest_read acc [] = Del"
| "newest_read acc [r] = snd r"
| "newest_read acc (r # rs) = (if acc (fst r) then snd r else newest_read acc rs)"

definition cs_read :: "(TXNID \<Rightarrow> bool) \<Rightarrow> xrec list \<Rightarrow> xval" where
  "cs_read acc cs = newest_read acc (rev cs)"

fun stack_read :: "(TXNID \<Rightarrow> bool) \<Rightarrow> vstack \<Rightarrow> xval" where
  "stack_read acc (cs, ps) = (if ps \<noteq> [] \<and> acc (fst (hd ps)) then snd (last ps) else cs_read acc cs)"

lemma newest_read_Cons: "rs \<noteq> [] \<Longrightarrow> newest_read acc (r # rs) = (if acc (fst r) then snd r else newest_read acc rs)"
  by (cases rs) simp_all

lemma newest_read_skip: "\<forall>t\<in>set ts. \<not> acc (fst t) \<Longrightarrow> rs \<noteq> [] \<Longrightarrow> newest_read acc (ts @ rs) = newest_read acc rs"
  by (induction ts) (simp_all add: newest_read_Cons)

lemma cs_read_split:
  assumes "\<forall>t\<in>set ts. \<not> acc (fst t)" "bs = [] \<or> acc (fst r)"
  shows "cs_read acc (bs @ r # ts) = snd r"
proof -
  have "newest_read acc (r # rev bs) = snd r"
    using assms(2) by (cases "bs = []") (simp_all add: newest_read_Cons)
  then show ?thesis using assms(1) by (simp add: cs_read_def newest_read_skip)
qed

lemma reads_at_split:
  assumes "reads_at acc cs i"
  shows "cs = take i cs @ cs ! i # drop (Suc i) cs" "\<forall>t\<in>set (drop (Suc i) cs). \<not> acc (fst t)"
    "take i cs = [] \<or> acc (fst (cs ! i))"
proof -
  show "cs = take i cs @ cs ! i # drop (Suc i) cs" using assms by (auto simp: reads_at_def id_take_nth_drop)
  show "\<forall>t\<in>set (drop (Suc i) cs). \<not> acc (fst t)"
  proof
    fix t assume "t \<in> set (drop (Suc i) cs)"
    then obtain j where "j < length (drop (Suc i) cs)" "t = drop (Suc i) cs ! j" by (metis in_set_conv_nth)
    then show "\<not> acc (fst t)" using assms by (simp add: reads_at_def)
  qed
  show "take i cs = [] \<or> acc (fst (cs ! i))" using assms by (auto simp: reads_at_def)
qed

lemma reads_at_value: "reads_at acc cs i \<Longrightarrow> cs_read acc cs = snd (cs ! i)"
  using cs_read_split [of "drop (Suc i) cs" acc "take i cs" "cs ! i"] reads_at_split [of acc cs i] by simp

lemma reads_at_exists:
  assumes "cs \<noteq> []"
  obtains i where "reads_at acc cs i"
proof -
  let ?P = "\<lambda>i. i < length cs \<and> (i = 0 \<or> acc (fst (cs ! i)))"
  have bound: "?P i \<Longrightarrow> i \<le> length cs" for i by simp
  have "?P 0" using assms by simp
  then have "?P (Greatest ?P)" by (rule GreatestI_nat [of ?P, OF _ bound])
  moreover have "\<not> acc (fst (cs ! j))" if "Greatest ?P < j" "j < length cs" for j
    using Greatest_le_nat [of ?P j, OF _ bound] that by fastforce
  ultimately have "reads_at acc cs (Greatest ?P)" by (auto simp: reads_at_def)
  then show ?thesis using that by blast
qed

text \<open>What is left of a stack, with the bottom record losing its id.\<close>

fun reset_bottom :: "xrec list \<Rightarrow> xrec list" where
  "reset_bottom [] = []"
| "reset_bottom (r # rs) = (TXNID_NONE, snd r) # rs"

definition kept :: "bool list \<Rightarrow> xrec list \<Rightarrow> xrec list" where
  "kept necessary cs = map snd (filter fst (zip necessary cs))"

lemma cs_read_reset_bottom: "cs \<noteq> [] \<Longrightarrow> cs_read acc (reset_bottom cs) = cs_read acc cs"
proof (cases cs)
  case (Cons r rs)
  have "newest_read acc (ts @ [(TXNID_NONE, snd r)]) = newest_read acc (ts @ [r])" for ts
    by (induction ts) (simp_all add: newest_read_Cons)
  then show ?thesis using Cons by (simp add: cs_read_def)
qed simp

lemma cs_read_drop:
  assumes "reads_at acc cs i" "k \<le> i"
  shows "cs_read acc (reset_bottom (drop k cs)) = cs_read acc cs"
proof -
  note s = reads_at_split [OF assms(1)]
  have i: "i < length cs" using assms(1) by (simp add: reads_at_def)
  have d: "drop k cs = drop k (take i cs) @ cs ! i # drop (Suc i) cs"
    using arg_cong [OF s(1), of "drop k"] assms(2) i by simp
  have "cs_read acc (drop k cs) = snd (cs ! i)"
    unfolding d using s(2,3) by (intro cs_read_split) auto
  then show ?thesis using cs_read_reset_bottom [of "drop k cs" acc] d reads_at_value [OF assms(1)] by simp
qed

lemma kept_append: "length ns = length cs \<Longrightarrow> kept (ns @ ms) (cs @ ds) = kept ns cs @ kept ms ds"
  by (simp add: kept_def)

lemma set_kept: "set (kept ns cs) \<subseteq> set cs"
  by (auto simp: kept_def dest: set_zip_rightD)

lemma set_tl_subset: "set (tl xs) \<subseteq> set xs"
  by (cases xs) auto

lemma set_tl_kept: "set (tl (kept ns cs)) \<subseteq> set (tl cs)"
proof (cases ns; cases cs)
  fix n ns' c cs'
  assume "ns = n # ns'" "cs = c # cs'"
  then show ?thesis
    using set_kept [of ns' cs'] set_tl_subset [of "kept ns' cs'"] by (cases n) (auto simp: kept_def)
qed (simp_all add: kept_def)

lemma cs_read_kept:
  assumes "reads_at acc cs i" "length ns = length cs" "ns ! i"
  shows "kept ns cs \<noteq> []" "cs_read acc (reset_bottom (kept ns cs)) = cs_read acc cs"
proof -
  note s = reads_at_split [OF assms(1)]
  have i: "i < length cs" using assms(1) by (simp add: reads_at_def)
  have n: "ns = take i ns @ True # drop (Suc i) ns" using id_take_nth_drop [of i ns] i assms(2,3) by simp
  have k: "kept ns cs = kept (take i ns) (take i cs) @ cs ! i # kept (drop (Suc i) ns) (drop (Suc i) cs)"
    by (subst n, subst s(1), subst kept_append) (use i assms(2) in \<open>simp_all add: kept_def\<close>)
  then show "kept ns cs \<noteq> []" by simp
  have "cs_read acc (kept ns cs) = snd (cs ! i)"
    unfolding k
  proof (rule cs_read_split)
    show "\<forall>t\<in>set (kept (drop (Suc i) ns) (drop (Suc i) cs)). \<not> acc (fst t)"
      using s(2) set_kept [of "drop (Suc i) ns" "drop (Suc i) cs"] by blast
    show "kept (take i ns) (take i cs) = [] \<or> acc (fst (cs ! i))" using s(3) by (auto simp: kept_def)
  qed
  then show "cs_read acc (reset_bottom (kept ns cs)) = cs_read acc cs"
    using cs_read_reset_bottom [OF \<open>kept ns cs \<noteq> []\<close>] reads_at_value [OF assms(1)] by simp
qed

text \<open>The accessors of packed entries read what \<open>stack_read\<close> says.\<close>

abbreviation accepting :: "(TXNID \<Rightarrow> bool) \<Rightarrow> le_callback" where
  "accepting acc \<equiv> \<lambda>x _. Some (Inr (acc x))"

lemma accept_pos_newest:
  assumes "rs \<noteq> []"
  shows "\<exists>j. accept_pos (accepting acc) prov i (map fst (butlast rs)) = Some (Inr (i + j)) \<and> snd (rs ! j) = newest_read acc rs"
  using assms
proof (induction rs arbitrary: i)
  case (Cons r rs)
  show ?case
  proof (cases "rs = []")
    case False
    then obtain j where "accept_pos (accepting acc) prov (i + 1) (map fst (butlast rs)) = Some (Inr (i + 1 + j))"
      "snd (rs ! j) = newest_read acc rs"
      using Cons.IH by blast
    then show ?thesis using False
      by (cases "acc (fst r)") (auto simp: newest_read_Cons intro: exI [of _ "Suc j"] exI [of _ 0])
  qed simp
qed simp

lemma vs_read_accepting:
  assumes "cs \<noteq> []"
  shows "vs_read (accepting acc) (cs, ps) = Some (Inr (stack_read acc (cs, ps)))"
proof -
  let ?rs = "vs_candidates (cs, ps)"
  have "?rs \<noteq> []" using assms by simp
  then obtain j where "accept_pos (accepting acc) (ps \<noteq> []) 0 (map fst (butlast ?rs)) = Some (Inr j)"
    "snd (?rs ! j) = newest_read acc ?rs"
    using accept_pos_newest [of ?rs acc "ps \<noteq> []" 0] by auto
  then have "vs_read (accepting acc) (cs, ps) = Some (Inr (newest_read acc ?rs))"
    by (simp add: vs_read_def del: vs_candidates.simps)
  moreover have "newest_read acc ?rs = stack_read acc (cs, ps)"
    using assms by (cases "ps = []") (simp_all add: cs_read_def newest_read_Cons)
  ultimately show ?thesis by simp
qed

subsection \<open>The collectors on the abstract stack\<close>

lemma simple_gc_index_le: "simple_gc_index u oldest k \<le> k - 1"
  by (induction k) auto

lemma simple_gc_index_old:
  "simple_gc_index u oldest k \<noteq> 0 \<Longrightarrow> u_xid (uxrs u (simple_gc_index u oldest k)) < oldest"
  by (induction k) auto

lemma reprI_slots:
  assumes "repr u cap cs ps" "num_cuxrs u' = length cs'" "num_puxrs u' = length ps" "uxrs_cap u' = cap"
    and "\<And>i. i < length cs' + length ps \<Longrightarrow> uxr_ok (uxrs u' i) \<and> abs_uxr (uxrs u' i) = (cs' @ ps) ! i"
  shows "repr u' cap cs' ps"
  using assms by (simp add: repr_def)

lemma abs_uxr_reset: "abs_uxr (x\<lparr>u_xid := y\<rparr>) = (y, snd (abs_uxr x))" "uxr_ok (x\<lparr>u_xid := y\<rparr>) = uxr_ok x"
  by (simp_all add: abs_uxr_def uxr_ok_def uxr_is_defs)

lemma reset_bottom_nth:
  "i < length cs \<Longrightarrow> reset_bottom cs ! i = (if i = 0 then (TXNID_NONE, snd (cs ! 0)) else cs ! i)"
  by (cases cs; cases i) auto

lemma length_reset_bottom [simp]: "length (reset_bottom cs) = length cs"
  by (cases cs) auto

lemma reset_bottom_id: "vs_ok (cs, ps) \<Longrightarrow> reset_bottom cs = cs"
  by (cases cs) (auto simp: prod_eq_iff)

lemma vs_ok_collected:
  assumes "vs_ok (cs, ps)" "set cs' \<subseteq> set cs" "cs' \<noteq> []"
  shows "vs_ok (reset_bottom cs', ps)"
  using assms by (cases cs') (auto simp: image_iff)

text \<open>Resetting the bottom and keeping the provisional records, as both collectors end.\<close>

lemma collected_repr:
  assumes "repr u cap cs ps" "cs' \<noteq> []"
    and "num_cuxrs u' = length cs'" "num_puxrs u' = num_puxrs u" "uxrs_cap u' = uxrs_cap u"
    and uxrs': "\<And>i. i < length cs' + length ps \<Longrightarrow> uxr_ok (a i) \<and> abs_uxr (a i) = (cs' @ ps) ! i"
    and "\<And>i. i < length cs' + length ps \<Longrightarrow> uxrs u' i = (a(0 := (a 0)\<lparr>u_xid := TXNID_NONE\<rparr>)) i"
  shows "repr u' cap (reset_bottom cs') ps"
proof -
  note l = repr_lengths [OF assms(1)]
  have "uxr_ok (uxrs u' i) \<and> abs_uxr (uxrs u' i) = (reset_bottom cs' @ ps) ! i" if i: "i < length cs' + length ps" for i
  proof (cases "i = 0")
    case True
    then have "abs_uxr (a 0) = cs' ! 0" "uxr_ok (a 0)" using uxrs' [OF i] assms(2) by (auto simp: nth_append)
    then show ?thesis using True assms(2) i assms(7) [OF i] by (simp add: nth_append abs_uxr_reset reset_bottom_nth)
  next
    case False
    then show ?thesis using uxrs' [OF i] assms(7) [OF i] i by (simp add: nth_append reset_bottom_nth)
  qed
  then show ?thesis using assms(3-5) l by (simp add: repr_def)
qed

lemma ule_simple_garbage_collection_repr:
  fixes oldest :: TXNID and mvcc :: bool
  assumes "repr u cap cs ps" "vs_ok (cs, ps)"
  defines "k \<equiv> (if mvcc then simple_gc_index u oldest (length cs) else length cs - 1)"
  shows "repr (ule_simple_garbage_collection u oldest mvcc) cap (reset_bottom (drop k cs)) ps" "k < length cs"
proof -
  note l = repr_lengths [OF assms(1)]
  have ne: "cs \<noteq> []" using assms(2) by simp
  then show k: "k < length cs" using simple_gc_index_le [of u oldest "length cs"] by (auto simp: k_def less_Suc_eq_le Suc_diff_1 intro: le_less_trans)
  have kk: "(if mvcc then simple_gc_index u oldest (num_cuxrs u) else num_cuxrs u - 1) = k" using l by (simp add: k_def)
  show "repr (ule_simple_garbage_collection u oldest mvcc) cap (reset_bottom (drop k cs)) ps"
  proof (cases "length cs = 1 \<or> k = 0")
    case True
    then have k0: "k = 0" using k by auto
    then have "ule_simple_garbage_collection u oldest mvcc = u"
      unfolding ule_simple_garbage_collection_def kk Let_def by simp
    then show ?thesis using assms(1) k0 reset_bottom_id [OF assms(2)] by simp
  next
    case False
    let ?a = "memmove_uxrs 0 k (num_cuxrs u + num_puxrs u - k) (uxrs u)"
    have u': "ule_simple_garbage_collection u oldest mvcc =
        u\<lparr>uxrs := ?a(0 := (?a 0)\<lparr>u_xid := TXNID_NONE\<rparr>), num_cuxrs := num_cuxrs u - k\<rparr>"
      unfolding ule_simple_garbage_collection_def kk using False l by (simp add: Let_def)
    have "uxr_ok (?a i) \<and> abs_uxr (?a i) = (drop k cs @ ps) ! i" if "i < length (drop k cs) + length ps" for i
    proof -
      have "drop k (cs @ ps) = drop k cs @ ps" using k by simp
      then have "(cs @ ps) ! (k + i) = (drop k cs @ ps) ! i" using k by (metis length_append less_imp_le nth_drop trans_le_add1)
      then show ?thesis using repr_nth [OF assms(1), of "k + i"] that k l by (simp add: memmove_uxrs_def)
    qed
    then show ?thesis
      unfolding u' using k l by (intro collected_repr [OF assms(1), where a = ?a]) simp_all
  qed
qed

text \<open>The compaction loop keeps the marked records in order and touches no slot it has yet to read.\<close>

lemma shift_necessary_kept:
  assumes "shift_necessary ns i ff a = (a', f)" "ff \<le> i"
  shows "f = ff + length (filter (\<lambda>b. b) ns) \<and> f \<le> i + length ns \<and>
    (\<forall>j. j < ff \<or> i + length ns \<le> j \<longrightarrow> a' j = a j) \<and>
    map a' [ff..<f] = map snd (filter fst (zip ns (map a [i..<i + length ns])))"
  using assms
proof (induction ns arbitrary: i ff a)
  case (Cons b ns)
  have up: "[i..<i + length (b # ns)] = i # [Suc i..<Suc i + length ns]" by (simp add: upt_conv_Cons del: upt_Suc)
  show ?case
  proof (cases b)
    case True
    let ?a = "a(ff := a i)"
    have p: "shift_necessary ns (Suc i) (Suc ff) ?a = (a', f)" using Cons.prems True by simp
    have IH: "f = Suc ff + length (filter (\<lambda>b. b) ns) \<and> f \<le> Suc i + length ns \<and>
        (\<forall>j. j < Suc ff \<or> Suc i + length ns \<le> j \<longrightarrow> a' j = ?a j) \<and>
        map a' [Suc ff..<f] = map snd (filter fst (zip ns (map ?a [Suc i..<Suc i + length ns])))"
      by (rule Cons.IH [OF p]) (use Cons.prems in simp)
    moreover have "map ?a [Suc i..<Suc i + length ns] = map a [Suc i..<Suc i + length ns]"
      using Cons.prems(2) by simp
    moreover have "[ff..<f] = ff # [Suc ff..<f]" using conjunct1 [OF IH] by (intro upt_conv_Cons) simp
    ultimately show ?thesis unfolding up using True Cons.prems(2) by (auto simp del: upt_Suc)
  next
    case False
    then have p: "shift_necessary ns (Suc i) ff a = (a', f)" using Cons.prems by simp
    have "ff \<le> Suc i" using Cons.prems(2) by simp
    from Cons.IH [OF p this] show ?thesis unfolding up using False by (elim conjE) (simp del: upt_Suc)
  qed
qed auto

lemma ule_garbage_collect_repr:
  assumes r: "repr u cap cs ps" and "vs_ok (cs, ps)" and n1: "length cs \<noteq> 1"
    and ns: "mark_necessary dbg u sx rx live (length cs - 1) (replicate (length cs) False) = Some ns"
      "length ns = length cs" and k: "kept ns cs \<noteq> []"
  shows "returns (ule_garbage_collect dbg u sx rx live) (\<lambda>u'. repr u' cap (reset_bottom (kept ns cs)) ps)"
proof -
  note l = repr_lengths [OF r]
  obtain a f where s: "shift_necessary ns 0 0 (uxrs u) = (a, f)" by fastforce
  note law = shift_necessary_kept [OF s, simplified]
  have cs: "map (\<lambda>i. abs_uxr (uxrs u i)) [0..<length cs] = cs"
    using repr_nth [OF r] by (intro nth_equalityI) (auto simp: nth_append)
  have m: "map a [0..<f] = map snd (filter fst (zip ns (map (uxrs u) [0..<length cs])))" using law ns(2) by metis
  have "map abs_uxr (map snd (filter fst (zip ns (map (uxrs u) [0..<length cs])))) = kept ns cs"
    by (subst (2) cs [symmetric]) (simp add: kept_def zip_map2 filter_map comp_def case_prod_beta)
  then have km: "map (\<lambda>i. abs_uxr (a i)) [0..<f] = kept ns cs" using arg_cong [OF m, of "map abs_uxr"] by (simp add: comp_def)
  then have f: "f = length (kept ns cs)" by (metis diff_zero length_map length_upt)
  then have f1: "1 \<le> f" "f \<le> length cs" using k law ns(2) by (cases "kept ns cs", auto)
  let ?b = "a(0 := (a 0)\<lparr>u_xid := TXNID_NONE\<rparr>)"
  let ?m = "\<lambda>a. if f \<noteq> length cs then memmove_uxrs f (length cs) (length ps) a else a"
  have u': "ule_garbage_collect dbg u sx rx live = Some (u\<lparr>uxrs := ?m ?b, num_cuxrs := f\<rparr>)"
    using n1 ns(1) s f1 l by (simp add: ule_garbage_collect_def)
  have "uxr_ok (?m a i) \<and> abs_uxr (?m a i) = (kept ns cs @ ps) ! i" if i: "i < length (kept ns cs) + length ps" for i
  proof (cases "i < f")
    case True
    have "a i \<in> set (map a [0..<f])" using True by simp
    then have "a i \<in> set (map (uxrs u) [0..<length cs])" unfolding m by (auto dest: set_zip_rightD)
    then have "uxr_ok (a i)" using repr_nth [OF r] by auto
    moreover have "abs_uxr (a i) = kept ns cs ! i" using True by (subst km [symmetric]) simp
    ultimately show ?thesis using True f by (simp add: nth_append memmove_uxrs_def)
  next
    case False
    then obtain j where j: "i = f + j" by (metis le_Suc_ex linorder_not_less)
    have "?m a i = uxrs u (length cs + j)"
      using j i f law ns(2) by (auto simp: memmove_uxrs_def)
    then show ?thesis using repr_nth [OF r, of "length cs + j"] j i f by (simp add: nth_append)
  qed
  moreover have "?m ?b i = ((?m a)(0 := (?m a 0)\<lparr>u_xid := TXNID_NONE\<rparr>)) i" for i
    using f1 by (auto simp: memmove_uxrs_def)
  ultimately have "repr (u\<lparr>uxrs := ?m ?b, num_cuxrs := f\<rparr>) cap (reset_bottom (kept ns cs)) ps"
    using k f by (intro collected_repr [OF r, where a = "?m a"]) simp_all
  then show ?thesis using u' by simp
qed

subsection \<open>What the collector relies on\<close>

text \<open>
  The contract of the transaction manager towards the collector. \<open>clone\<close> is the copy of its state
  that the collector works on; \<open>known\<close> are the ids that committed records can carry, \<open>live\<close> those of
  transactions that have not ended. A reader is the id of its snapshot and the set of transactions
  it accepts: of those live at the moment it accepts none that is newer than its snapshot; of an
  ended one it accepts exactly those that the snapshots sharing it were taken after.
\<close>

locale gc_contract =
  fixes ok :: "'s \<Rightarrow> bool"
    and clone :: "'s \<Rightarrow> txn_gc_state option"
    and live :: "'s \<Rightarrow> TXNID set"
    and known :: "'s \<Rightarrow> TXNID set"
    and readers :: "'s \<Rightarrow> (TXNID \<times> (TXNID \<Rightarrow> bool)) set"
    and oldest :: "'s \<Rightarrow> TXNID"
  assumes clone_law: "ok s \<Longrightarrow> \<exists>g. clone s = Some g"
    and sorted_law: "ok s \<Longrightarrow> clone s = Some g \<Longrightarrow> sorted_by (\<lambda>x. x) (snapshot_xids g)"
    and live_law: "ok s \<Longrightarrow> clone s = Some g \<Longrightarrow> x \<in> known s \<Longrightarrow>
      toku_is_txn_in_live_root_txn_list (gc_live_root_txns g) x = Some (x \<in> live s)"
    and older_law: "ok s \<Longrightarrow> clone s = Some g \<Longrightarrow> x \<in> known s \<Longrightarrow> (r, acc) \<in> readers s \<Longrightarrow> r < x \<Longrightarrow>
      r \<in> set (snapshot_xids g) \<and> r \<noteq> TXNID_NONE"
    and youngest_law: "ok s \<Longrightarrow> clone s = Some g \<Longrightarrow> x \<in> known s \<Longrightarrow>
      \<exists>y. toku_get_youngest_live_list_txnid_for x (snapshot_xids g) (gc_referenced_xids g) = Some y \<and>
        (if y \<noteq> TXNID_NONE
         then y \<in> set (snapshot_xids g) \<and> x < y \<and> (\<forall>(r, acc) \<in> readers s. acc x \<longleftrightarrow> y < r)
         else if x \<in> live s then \<forall>(r, acc) \<in> readers s. acc x \<longrightarrow> x \<le> r
         else \<forall>(r, acc) \<in> readers s. acc x \<longleftrightarrow> x \<le> r)"
    and known_law: "ok s \<Longrightarrow> x \<in> known s \<Longrightarrow> x \<noteq> TXNID_NONE"
    and oldest_law: "ok s \<Longrightarrow> x \<in> known s \<Longrightarrow> x < oldest s \<Longrightarrow> (r, acc) \<in> readers s \<Longrightarrow> acc x"
begin

text \<open>The answer about the youngest snapshot that holds a record's transaction, by cases.\<close>

lemma youngest [consumes 3, case_names shared alive ended]:
  assumes "ok s" "clone s = Some g" "x \<in> known s"
  obtains (shared) y where "toku_get_youngest_live_list_txnid_for x (snapshot_xids g) (gc_referenced_xids g) = Some y"
      "y \<noteq> TXNID_NONE" "y \<in> set (snapshot_xids g)" "x < y" "\<And>r acc. (r, acc) \<in> readers s \<Longrightarrow> acc x \<longleftrightarrow> y < r"
    | (alive) "toku_get_youngest_live_list_txnid_for x (snapshot_xids g) (gc_referenced_xids g) = Some TXNID_NONE"
      "x \<in> live s" "\<And>r acc. (r, acc) \<in> readers s \<Longrightarrow> acc x \<Longrightarrow> x \<le> r"
    | (ended) "toku_get_youngest_live_list_txnid_for x (snapshot_xids g) (gc_referenced_xids g) = Some TXNID_NONE"
      "x \<notin> live s" "\<And>r acc. (r, acc) \<in> readers s \<Longrightarrow> acc x \<longleftrightarrow> x \<le> r"
proof -
  obtain y where y: "toku_get_youngest_live_list_txnid_for x (snapshot_xids g) (gc_referenced_xids g) = Some y"
    "if y \<noteq> TXNID_NONE then y \<in> set (snapshot_xids g) \<and> x < y \<and> (\<forall>(r, acc) \<in> readers s. acc x \<longleftrightarrow> y < r)
       else if x \<in> live s then \<forall>(r, acc) \<in> readers s. acc x \<longrightarrow> x \<le> r
       else \<forall>(r, acc) \<in> readers s. acc x \<longleftrightarrow> x \<le> r"
    using youngest_law [OF assms] by blast
  show ?thesis
  proof (cases "y \<noteq> TXNID_NONE")
    case True
    then show ?thesis using y by (intro shared) auto
  next
    case False
    then show ?thesis using y alive ended by (cases "x \<in> live s") auto
  qed
qed

text \<open>The outcome of the test whether the snapshot \<open>tl1\<close> reads a record.\<close>

lemma reads_committed:
  assumes "ok s" "clone s = Some g" "x \<in> known s"
  obtains b where "xid_reads_committed_xid tl1 x (snapshot_xids g) (gc_referenced_xids g) = Some b"
    "\<And>r acc. \<not> b \<Longrightarrow> (r, acc) \<in> readers s \<Longrightarrow> r \<le> tl1 \<Longrightarrow> \<not> acc x"
proof (cases rule: youngest [OF assms])
  case (1 y)
  show ?thesis
  proof (rule that [of "tl1 \<ge> x \<and> tl1 > y"])
    show "xid_reads_committed_xid tl1 x (snapshot_xids g) (gc_referenced_xids g) = Some (tl1 \<ge> x \<and> tl1 > y)"
      using 1(1,2) by (auto simp: xid_reads_committed_xid_def)
    show "\<not> acc x" if "\<not> (tl1 \<ge> x \<and> tl1 > y)" "(r, acc) \<in> readers s" "r \<le> tl1" for r acc
      using 1(4) 1(5) [OF that(2)] that(1,3) by auto
  qed
next
  case 2
  show ?thesis
  proof (rule that [of "tl1 \<ge> x"])
    show "\<not> acc x" if "\<not> tl1 \<ge> x" "(r, acc) \<in> readers s" "r \<le> tl1" for r acc
      using 2(3) [OF that(2)] that(1,3) by auto
  qed (use 2(1) in \<open>auto simp: xid_reads_committed_xid_def\<close>)
next
  case 3
  show ?thesis
  proof (rule that [of "tl1 \<ge> x"])
    show "\<not> acc x" if "\<not> tl1 \<ge> x" "(r, acc) \<in> readers s" "r \<le> tl1" for r acc
      using 3(3) [OF that(2)] that(1,3) by auto
  qed (use 3(1) in \<open>auto simp: xid_reads_committed_xid_def\<close>)
qed

lemma next_older:
  assumes "ok s" "clone s = Some g" "x \<in> known s"
  obtains t where "get_next_older_txnid x (snapshot_xids g) = Some t" "t \<noteq> TXNID_NONE \<Longrightarrow> t \<in> set (snapshot_xids g)"
    "\<And>r acc. (r, acc) \<in> readers s \<Longrightarrow> r < x \<Longrightarrow> t \<noteq> TXNID_NONE \<and> r \<le> t"
proof -
  let ?f = "omt_find_minus (key_cmp (\<lambda>x. x) x) (snapshot_xids g)"
  note srt = sorted_law [OF assms(1,2)]
  show ?thesis
  proof (cases ?f)
    case None
    then have "\<forall>w\<in>set (snapshot_xids g). x \<le> w" using omt_find_minus_none [OF srt, of x] by simp
    moreover have "get_next_older_txnid x (snapshot_xids g) = Some TXNID_NONE"
      using None by (simp add: get_next_older_txnid_def find_keys)
    ultimately show ?thesis using that [of TXNID_NONE] older_law [OF assms] by fastforce
  next
    case (Some p)
    then obtain t i where t: "?f = Some (t, i)" by (cases p) auto
    note law = omt_find_minus_sorted [OF srt t]
    have "get_next_older_txnid x (snapshot_xids g) = Some t"
      using t law by (simp add: get_next_older_txnid_def find_keys)
    moreover have "t \<noteq> TXNID_NONE \<and> r \<le> t" if "(r, acc) \<in> readers s" "r < x" for r acc
    proof -
      have r: "r \<in> set (snapshot_xids g)" "r \<noteq> TXNID_NONE" using older_law [OF assms that] by auto
      then have "r \<le> t" using law that(2) by blast
      then show ?thesis using r(2) by (auto simp: TXNID_NONE_def)
    qed
    ultimately show ?thesis using that [of t] law by blast
  qed
qed

text \<open>The records that the inner loop passes over are accepted by no reader up to \<open>tl1\<close>.\<close>

lemma skip_unread_returns:
  assumes "ok s" "clone s = Some g" and "\<And>i. 0 < i \<Longrightarrow> i \<le> k \<Longrightarrow> u_xid (uxrs u i) \<in> known s"
  obtains j where "skip_unread u tl1 (snapshot_xids g) (gc_referenced_xids g) k = Some j" "j \<le> k"
    "\<And>r acc i. (r, acc) \<in> readers s \<Longrightarrow> r \<le> tl1 \<Longrightarrow> j < i \<Longrightarrow> i \<le> k \<Longrightarrow> \<not> acc (u_xid (uxrs u i))"
  using assms(3)
proof (induction k arbitrary: thesis)
  case (Suc k)
  let ?x = "u_xid (uxrs u (Suc k))"
  have "?x \<in> known s" using Suc.prems(2) by simp
  then obtain b where b: "xid_reads_committed_xid tl1 ?x (snapshot_xids g) (gc_referenced_xids g) = Some b"
    "\<And>r acc. \<not> b \<Longrightarrow> (r, acc) \<in> readers s \<Longrightarrow> r \<le> tl1 \<Longrightarrow> \<not> acc ?x"
    using reads_committed [OF assms(1,2)] by metis
  show ?case
  proof (cases b)
    case True
    then show ?thesis using Suc.prems(1) [of "Suc k"] b(1) by simp
  next
    case False
    obtain j where j: "skip_unread u tl1 (snapshot_xids g) (gc_referenced_xids g) k = Some j" "j \<le> k"
      "\<And>r acc i. (r, acc) \<in> readers s \<Longrightarrow> r \<le> tl1 \<Longrightarrow> j < i \<Longrightarrow> i \<le> k \<Longrightarrow> \<not> acc (u_xid (uxrs u i))"
      using Suc.IH Suc.prems(2) by (metis le_SucI)
    show ?thesis
    proof (rule Suc.prems(1) [of j])
      show "\<not> acc (u_xid (uxrs u i))" if "(r, acc) \<in> readers s" "r \<le> tl1" "j < i" "i \<le> Suc k" for r acc i
        using b(2) [OF False that(1,2)] j(3) [OF that(1-3)] that(4) by (cases "i = Suc k") auto
    qed (use b(1) False j(1,2) in simp_all)
  qed
qed simp

lemma next_necessary_returns:
  assumes "ok s" "clone s = Some g" and "\<And>i. 0 < i \<Longrightarrow> i \<le> cur \<Longrightarrow> u_xid (uxrs u i) \<in> known s" and "0 < cur"
  obtains next' where
    "next_necessary dbg u (snapshot_xids g) (gc_referenced_xids g) (gc_live_root_txns g) cur = Some next'"
    "\<And>r acc. (r, acc) \<in> readers s \<Longrightarrow> \<not> acc (u_xid (uxrs u cur)) \<Longrightarrow>
      (case next' of None \<Rightarrow> False | Some nx \<Rightarrow> \<forall>i. nx < i \<and> i < cur \<longrightarrow> \<not> acc (u_xid (uxrs u i)))"
proof -
  note found = that
  let ?x = "u_xid (uxrs u cur)" and ?sx = "snapshot_xids g" and ?rx = "gc_referenced_xids g"
  have x: "?x \<in> known s" "?x \<noteq> TXNID_NONE" using assms(3) [of cur] assms(4) known_law [OF assms(1)] by auto
  note lv = live_law [OF assms(1,2) x(1)]
  have fz: "\<exists>v. omt_find_zero (key_cmp (\<lambda>x. x) t) ?sx = Inr v" if "t \<in> set ?sx" for t
    using omt_find_zero_missing [OF sorted_law [OF assms(1,2)], of t] that
    by (cases "omt_find_zero (key_cmp (\<lambda>x. x) t) ?sx") auto
  have below: "\<And>i. 0 < i \<Longrightarrow> i \<le> cur - 1 \<Longrightarrow> u_xid (uxrs u i) \<in> known s" using assms(3) by simp
  have walk: thesis
    if "?x \<notin> live s" and y: "toku_get_youngest_live_list_txnid_for ?x ?sx ?rx = Some y"
      "(if y = TXNID_NONE then get_next_older_txnid ?x ?sx else Some y) = Some t" "y \<noteq> ?x"
      and t: "t \<noteq> TXNID_NONE \<Longrightarrow> t \<in> set ?sx"
      "\<And>r acc. (r, acc) \<in> readers s \<Longrightarrow> \<not> acc ?x \<Longrightarrow> t \<noteq> TXNID_NONE \<and> r \<le> t" for y t
  proof (cases "t = TXNID_NONE")
    case True
    then show ?thesis
      using found [of None] y t(2) lv \<open>?x \<notin> live s\<close> by (auto simp: next_necessary_def Let_def)
  next
    case False
    obtain j where j: "skip_unread u t ?sx ?rx (cur - 1) = Some j"
      "\<And>r acc i. (r, acc) \<in> readers s \<Longrightarrow> r \<le> t \<Longrightarrow> j < i \<Longrightarrow> i \<le> cur - 1 \<Longrightarrow> \<not> acc (u_xid (uxrs u i))"
      using skip_unread_returns [OF assms(1,2) below] by metis
    have "next_necessary dbg u ?sx ?rx (gc_live_root_txns g) cur = Some (Some j)"
      using y lv \<open>?x \<notin> live s\<close> False j(1) fz [OF t(1) [OF False]] by (simp add: next_necessary_def Let_def find_keys)
    then show ?thesis using found [of "Some j"] j(2) t(2) by fastforce
  qed
  show ?thesis
  proof (cases "?x \<in> live s")
    case True
    then have n: "next_necessary dbg u ?sx ?rx (gc_live_root_txns g) cur = Some (Some (cur - 1))"
      using lv by (simp add: next_necessary_def Let_def)
    show ?thesis by (rule found [OF n]) auto
  next
    case False
    from assms(1,2) x(1) show ?thesis
    proof (cases rule: youngest)
      case (shared y)
      then show ?thesis using walk [OF False shared(1), of y] shared(2-4) shared(5) by (fastforce simp: linorder_not_less)
    next
      case alive
      then show ?thesis using False by simp
    next
      case ended
      obtain t where t: "get_next_older_txnid ?x ?sx = Some t" "t \<noteq> TXNID_NONE \<Longrightarrow> t \<in> set ?sx"
        "\<And>r acc. (r, acc) \<in> readers s \<Longrightarrow> r < ?x \<Longrightarrow> t \<noteq> TXNID_NONE \<and> r \<le> t"
        using next_older [OF assms(1,2) x(1)] by metis
      show ?thesis
      proof (rule walk [OF False ended(1), of t])
        show "t \<noteq> TXNID_NONE \<and> r \<le> t" if "(r, acc) \<in> readers s" "\<not> acc ?x" for r acc
          using t(3) [OF that(1)] ended(3) [OF that(1)] that(2) by (simp add: linorder_not_le)
      qed (use t x(2) in auto)
    qed
  qed
qed

text \<open>Every reader's record is marked or still below the current index; so at the end it is marked.\<close>

lemma mark_necessary_returns:
  assumes "ok s" "clone s = Some g" and "\<And>i. 0 < i \<Longrightarrow> i < length cs \<Longrightarrow> u_xid (uxrs u i) \<in> known s"
    and xid: "\<And>i. i < length cs \<Longrightarrow> fst (cs ! i) = u_xid (uxrs u i)"
    and "cur < length cs" "length ns = length cs"
    and "\<And>r acc i. (r, acc) \<in> readers s \<Longrightarrow> reads_at acc cs i \<Longrightarrow> i \<le> cur \<or> ns ! i"
  shows "\<exists>ns'. mark_necessary dbg u (snapshot_xids g) (gc_referenced_xids g) (gc_live_root_txns g) cur ns = Some ns' \<and>
    length ns' = length cs \<and> ns' ! cur \<and> (\<forall>(r, acc) \<in> readers s. \<forall>i. reads_at acc cs i \<longrightarrow> ns' ! i) \<and>
    (\<forall>i. i < length cs \<and> ns ! i \<longrightarrow> ns' ! i)"
  using assms(5-7)
proof (induction cur arbitrary: ns rule: less_induct)
  case (less cur)
  let ?m = "mark_necessary dbg u (snapshot_xids g) (gc_referenced_xids g) (gc_live_root_txns g)"
  let ?ns = "ns[cur := True]"
  have marked: "?ns ! cur" "\<And>i. ns ! i \<Longrightarrow> ?ns ! i" using less.prems(1,2) by (auto simp: nth_list_update)
  have at: "i < cur \<and> \<not> acc (u_xid (uxrs u cur)) \<or> ?ns ! i" if "(r, acc) \<in> readers s" "reads_at acc cs i" for r acc i
  proof -
    have "i \<le> cur \<or> ns ! i" using less.prems(3) that by blast
    moreover have "i < cur \<longrightarrow> \<not> acc (fst (cs ! cur))" using that(2) less.prems(1) by (auto simp: reads_at_def)
    ultimately show ?thesis using marked xid [OF less.prems(1)] by (auto simp: le_less)
  qed
  show ?case
  proof (cases "cur = 0")
    case True
    have "?m cur ns = Some ?ns" by (subst mark_necessary.simps) (simp add: True)
    then show ?thesis using at marked less.prems(2) True by fastforce
  next
    case False
    have "\<And>i. 0 < i \<Longrightarrow> i \<le> cur \<Longrightarrow> u_xid (uxrs u i) \<in> known s" using assms(3) less.prems(1) by simp
    then obtain next' where n: "next_necessary dbg u (snapshot_xids g) (gc_referenced_xids g) (gc_live_root_txns g) cur = Some next'"
      "\<And>r acc. (r, acc) \<in> readers s \<Longrightarrow> \<not> acc (u_xid (uxrs u cur)) \<Longrightarrow>
        (case next' of None \<Rightarrow> False | Some nx \<Rightarrow> \<forall>i. nx < i \<and> i < cur \<longrightarrow> \<not> acc (u_xid (uxrs u i)))"
      using next_necessary_returns [OF assms(1,2), of cur u dbg] False by blast
    show ?thesis
    proof (cases next')
      case None
      have "?m cur ns = Some ?ns" by (subst mark_necessary.simps) (simp add: False n(1) None)
      moreover have "?ns ! i" if "(r, acc) \<in> readers s" "reads_at acc cs i" for r acc i
        using at [OF that] n(2) [OF that(1)] None by auto
      ultimately show ?thesis using marked less.prems(2) by auto
    next
      case (Some nx)
      have nx: "nx < cur" using next_necessary_less n(1) Some False by blast
      have m: "?m cur ns = ?m nx ?ns" by (subst mark_necessary.simps) (simp add: False n(1) Some)
      have "i \<le> nx \<or> ?ns ! i" if "(r, acc) \<in> readers s" "reads_at acc cs i" for r acc i
      proof (rule ccontr)
        assume c: "\<not> ?thesis"
        then have "i < cur" "\<not> acc (u_xid (uxrs u cur))" using at [OF that] by auto
        then have "\<not> acc (u_xid (uxrs u i))" using n(2) [OF that(1)] Some c by auto
        then show False using that(2) c xid [of i] by (auto simp: reads_at_def)
      qed
      then obtain ns' where ns': "?m nx ?ns = Some ns'" "length ns' = length cs"
        "\<forall>(r, acc) \<in> readers s. \<forall>i. reads_at acc cs i \<longrightarrow> ns' ! i" "\<forall>i. i < length cs \<and> ?ns ! i \<longrightarrow> ns' ! i"
        using less.IH [OF nx, of ?ns] nx less.prems(1,2) by (auto simp del: split_paired_All)
      then show ?thesis unfolding m using marked less.prems(1) by blast
    qed
  qed
qed

text \<open>Full collection keeps what every reader sees, and so does simple collection.\<close>

lemma ule_garbage_collect_reads:
  assumes "ok s" "clone s = Some g" "repr u cap cs ps" "vs_ok (cs, ps)" "fst ` set (tl cs) \<subseteq> known s"
  obtains u' cs' where
    "ule_garbage_collect dbg u (snapshot_xids g) (gc_referenced_xids g) (gc_live_root_txns g) = Some u'"
    "repr u' cap cs' ps" "vs_ok (cs', ps)" "length cs' \<le> length cs" "fst ` set (tl cs') \<subseteq> known s"
    "\<And>r acc. (r, acc) \<in> readers s \<Longrightarrow> cs_read acc cs' = cs_read acc cs"
proof (cases "length cs = 1")
  case True
  then have "ule_garbage_collect dbg u (snapshot_xids g) (gc_referenced_xids g) (gc_live_root_txns g) = Some u"
    using repr_lengths [OF assms(3)] by (simp add: ule_garbage_collect_def)
  then show ?thesis using that [of u cs] assms(3-5) by simp
next
  case False
  have xid: "fst (cs ! i) = u_xid (uxrs u i)" if "i < length cs" for i
    using repr_nth [OF assms(3), of i] that by (simp add: nth_append) (metis abs_uxr_def fst_conv)
  have kn: "u_xid (uxrs u i) \<in> known s" if "0 < i" "i < length cs" for i
  proof -
    have "cs ! i \<in> set (tl cs)" using that by (cases cs; cases i) auto
    then show ?thesis using assms(5) xid [OF that(2)] by force
  qed
  have ne: "cs \<noteq> []" using assms(4) by simp
  obtain ns where ns: "mark_necessary dbg u (snapshot_xids g) (gc_referenced_xids g) (gc_live_root_txns g) (length cs - 1)
      (replicate (length cs) False) = Some ns" "length ns = length cs" "ns ! (length cs - 1)"
    "\<And>r acc i. (r, acc) \<in> readers s \<Longrightarrow> reads_at acc cs i \<Longrightarrow> ns ! i"
    using mark_necessary_returns [where cur = "length cs - 1" and ns = "replicate (length cs) False" and dbg = dbg, OF assms(1,2) kn xid] ne
    by (fastforce simp: reads_at_def)
  have "reads_at (\<lambda>_. True) cs (length cs - 1)" using ne by (auto simp: reads_at_def)
  then have k: "kept ns cs \<noteq> []" using cs_read_kept(1) ns(2,3) by blast
  obtain u' where u': "ule_garbage_collect dbg u (snapshot_xids g) (gc_referenced_xids g) (gc_live_root_txns g) = Some u'"
    "repr u' cap (reset_bottom (kept ns cs)) ps"
    using returns_obtain [OF ule_garbage_collect_repr [OF assms(3,4) False ns(1,2) k]] by blast
  have "cs_read acc (reset_bottom (kept ns cs)) = cs_read acc cs" if "(r, acc) \<in> readers s" for r acc
    using reads_at_exists [OF ne, of acc] cs_read_kept(2) [OF _ ns(2)] ns(4) [OF that] by metis
  moreover have "length (kept ns cs) \<le> length cs"
    using ns(2) by (simp add: kept_def le_trans [OF length_filter_le])
  moreover have "fst ` set (tl (reset_bottom (kept ns cs))) \<subseteq> known s"
    using assms(5) set_tl_kept [of ns cs] by (cases "kept ns cs") auto
  ultimately show ?thesis
    using that u' vs_ok_collected [OF assms(4) set_kept k] by simp
qed

lemma ule_simple_garbage_collection_reads:
  assumes "ok s" "repr u cap cs ps" "vs_ok (cs, ps)" "fst ` set (tl cs) \<subseteq> known s" "x \<le> oldest s"
  obtains cs' where "repr (ule_simple_garbage_collection u x True) cap cs' ps" "vs_ok (cs', ps)"
    "length cs' \<le> length cs" "fst ` set (tl cs') \<subseteq> known s"
    "\<And>r acc. (r, acc) \<in> readers s \<Longrightarrow> cs_read acc cs' = cs_read acc cs"
proof -
  define k where "k = simple_gc_index u x (length cs)"
  note r = ule_simple_garbage_collection_repr [where mvcc = True and oldest = x, OF assms(2,3), simplified, folded k_def]
  have ne: "cs \<noteq> []" using assms(3) by simp
  have "cs_read acc (reset_bottom (drop k cs)) = cs_read acc cs" if "(r, acc) \<in> readers s" for r acc
  proof -
    obtain i where i: "reads_at acc cs i" using reads_at_exists [OF ne] .
    have "k \<le> i"
    proof (rule ccontr)
      assume "\<not> ?thesis"
      then have ki: "i < k" "k \<noteq> 0" by auto
      have "fst (cs ! k) = u_xid (uxrs u k)"
        using repr_nth [OF assms(2), of k] r(2) by (simp add: nth_append) (metis abs_uxr_def fst_conv)
      moreover have "u_xid (uxrs u k) < x" using simple_gc_index_old [of u x "length cs"] ki(2) by (simp add: k_def)
      moreover have "cs ! k \<in> set (tl cs)" using ki(2) r(2) by (cases cs; cases k) auto
      ultimately have "fst (cs ! k) \<in> known s" "fst (cs ! k) < oldest s" using assms(4,5) by auto
      then have "acc (fst (cs ! k))" using oldest_law [OF assms(1) _ _ that] by blast
      then show False using i ki(1) r(2) by (simp add: reads_at_def)
    qed
    then show ?thesis by (rule cs_read_drop [OF i])
  qed
  moreover have d: "drop k cs \<noteq> []" using r(2) by simp
  moreover have "vs_ok (reset_bottom (drop k cs), ps)"
    using vs_ok_collected [OF assms(3) set_drop_subset d] .
  moreover have "tl (reset_bottom (drop k cs)) = drop k (tl cs)"
    using d by (cases "drop k cs") (simp_all add: tl_drop [symmetric] drop_Suc)
  then have "fst ` set (tl (reset_bottom (drop k cs))) \<subseteq> known s"
    using assms(4) set_drop_subset [of k "tl cs"] by auto
  ultimately show ?thesis using that [of "reset_bottom (drop k cs)"] r(1) by simp
qed

text \<open>Promoting the outermost provisional record of a transaction older than every live one changes no read.\<close>

lemma ule_try_promote_reads:
  assumes "ok s" "repr u cap cs ps" "vs_ok (cs, ps)" "length cs < cap" "x \<le> oldest s" "fst ` set (tl cs) \<subseteq> known s"
    and "ps \<noteq> [] \<Longrightarrow> fst (hd ps) \<in> known s"
  obtains u' cs' ps' where "ule_try_promote_provisional_outermost u x = Some u'" "repr u' cap cs' ps'" "vs_ok (cs', ps')"
    "length cs' \<le> length cs + 1" "fst ` set (tl cs') \<subseteq> known s"
    "\<And>r acc. (r, acc) \<in> readers s \<Longrightarrow> stack_read acc (cs', ps') = stack_read acc (cs, ps)"
proof (cases "ps \<noteq> [] \<and> fst (hd ps) < x")
  case True
  note l = repr_lengths [OF assms(2)]
  have ne: "cs \<noteq> []" and h: "snd (last ps) \<noteq> Hold" using assms(3) True by auto
  have id: "ule_get_xid u (length cs) = Some (fst (hd ps))"
    using ule_get_xid_returns [OF assms(2), of "length cs"] True by (simp add: hd_conv_nth nth_append)
  let ?c = "cs @ [(fst (hd ps), snd (last ps))]"
  obtain u' where u': "ule_promote_provisional_innermost_to_committed u = Some u'" "repr u' cap ?c []"
    using returns_obtain [OF ule_promote_provisional_innermost_to_committed_returns [OF assms(2) ne _ h assms(4)]] True by auto
  have "ule_try_promote_provisional_outermost u x = Some u'"
    using True u'(1) l id by (simp add: ule_try_promote_provisional_outermost_def)
  moreover have "stack_read acc (?c, []) = stack_read acc (cs, ps)" if "(r, acc) \<in> readers s" for r acc
  proof -
    have "acc (fst (hd ps))" using oldest_law [OF assms(1,7) _ that] True assms(5) by auto
    then show ?thesis using True cs_read_split [of "[]" acc cs "(fst (hd ps), snd (last ps))"] by simp
  qed
  moreover have "vs_ok (?c, [])" using vs_promote_committed_ok [OF assms(3)] True by simp
  moreover have "fst ` set (tl ?c) \<subseteq> known s" using assms(6,7) True ne by auto
  ultimately show ?thesis using that [of u' ?c "[]"] u'(2) by simp
next
  case False
  have "ule_try_promote_provisional_outermost u x = Some u"
    using False repr_lengths [OF assms(2)] ule_get_xid_returns [OF assms(2), of "length cs"]
    by (cases "ps = []") (simp_all add: ule_try_promote_provisional_outermost_def hd_conv_nth nth_append)
  then show ?thesis using that [of u cs ps] assms(2,3,6) by simp
qed

end

subsection \<open>Applying a message to a packed entry\<close>

text \<open>
  \<open>txn_manager_state\<close> is the lazily initialised copy of the manager's state; \<open>txn_gc_info\<close> what a
  caller provides. The entry points return the updated copy beside their results. An absent leaf
  entry is \<open>None\<close>; where the bytes are stored is not part of the model.
\<close>

record txn_manager_state =
  st_txn_manager :: txn_manager
  initialized :: bool
  st_state :: txn_gc_state

record txn_gc_info =
  txn_state_for_gc :: "txn_manager_state option"
  oldest_referenced_xid_for_simple_gc :: TXNID
  oldest_referenced_xid_for_implicit_promotion :: TXNID
  mvcc_needed :: bool

definition txn_manager_state_init :: "txn_manager_state \<Rightarrow> txn_manager_state option" where
  "txn_manager_state_init st = do {
     ensure (\<not> initialized st);
     g \<leftarrow> toku_txn_manager_clone_state_for_gc (st_txn_manager st);
     Some (st\<lparr>st_state := g, initialized := True\<rparr>)
   }"

definition ULE_MIN_STACK_SIZE_TO_FORCE_GC :: nat where "ULE_MIN_STACK_SIZE_TO_FORCE_GC = 5"
definition ULE_MIN_MEMSIZE_TO_FORCE_GC :: nat where "ULE_MIN_MEMSIZE_TO_FORCE_GC = 1024 * 1024"

text \<open>The condition on the state evaluates the packed size only when the earlier tests fail.\<close>

definition maybe_garbage_collect :: "bool \<Rightarrow> ule \<Rightarrow> txn_manager_state option \<Rightarrow> (ule \<times> txn_manager_state option) option" where
  "maybe_garbage_collect dbg u state =
     (case state of
        None \<Rightarrow> Some (u, None)
      | Some st \<Rightarrow> do {
          worth \<leftarrow>
            (if \<not> num_cuxrs u > 1 then Some False
             else if initialized st \<or> num_cuxrs u \<ge> ULE_MIN_STACK_SIZE_TO_FORCE_GC then Some True
             else do { size \<leftarrow> ule_packed_memsize u; Some (size \<ge> ULE_MIN_MEMSIZE_TO_FORCE_GC) });
          if worth then do {
            st \<leftarrow> (if \<not> initialized st then txn_manager_state_init st else Some st);
            size_before_gc \<leftarrow> ule_packed_memsize u;
            u \<leftarrow> ule_garbage_collect dbg u (snapshot_xids (st_state st)) (gc_referenced_xids (st_state st))
                   (gc_live_root_txns (st_state st));
            size_after_gc \<leftarrow> ule_packed_memsize u;
            Some (u, Some st)
          }
          else Some (u, Some st)
        })"

definition sint64 :: "32 word \<Rightarrow> int" where
  "sint64 w = int (unat w)"

definition toku_le_apply_msg ::
  "bool \<Rightarrow> ule \<Rightarrow> ft_msg \<Rightarrow> byte list option \<Rightarrow> txn_gc_info \<Rightarrow> (byte list option \<times> int \<times> int \<times> txn_gc_info) option" where
  "toku_le_apply_msg dbg scratch msg old_leafentry gc_info = do {
     let keylen = of_nat (length (msg_key msg));
     (u, oldnumbytes) \<leftarrow>
       (case old_leafentry of
          None \<Rightarrow> Some (ule_init_empty_ule scratch, 0)
        | Some le \<Rightarrow> do {
            oldmemsize \<leftarrow> leafentry_memsize le;
            u \<leftarrow> le_unpack scratch le;
            n \<leftarrow> ule_get_innermost_numbytes u keylen;
            Some (u, sint64 n)
          });
     (u, rowcountdelta) \<leftarrow> msg_modify_ule u msg;
     u \<leftarrow> ule_try_promote_provisional_outermost u (oldest_referenced_xid_for_implicit_promotion gc_info);
     let u = ule_simple_garbage_collection u (oldest_referenced_xid_for_simple_gc gc_info) (mvcc_needed gc_info);
     (u, state) \<leftarrow> maybe_garbage_collect dbg u (txn_state_for_gc gc_info);
     new_leafentry \<leftarrow> le_pack u;
     newnumbytes \<leftarrow>
       (case new_leafentry of
          None \<Rightarrow> Some 0
        | Some _ \<Rightarrow> do { n \<leftarrow> ule_get_innermost_numbytes u keylen; Some (sint64 n) });
     Some (new_leafentry, rowcountdelta, newnumbytes - oldnumbytes, gc_info\<lparr>txn_state_for_gc := state\<rparr>)
   }"

definition toku_le_worth_running_garbage_collection :: "byte list \<Rightarrow> txn_gc_info \<Rightarrow> bool option" where
  "toku_le_worth_running_garbage_collection le gc_info = do {
     (type, p) \<leftarrow> rd8 le;
     if type \<noteq> LE_MVCC then Some False
     else do {
       (num_cxrs, p) \<leftarrow> rd32 p;
       if num_cxrs > 1 then Some True
       else do {
         (num_pxrs, p) \<leftarrow> rd8 p;
         if num_pxrs > 0 then do {
           xid \<leftarrow> le_outermost_uncommitted_xid le;
           Some (xid < oldest_referenced_xid_for_implicit_promotion gc_info)
         }
         else Some False
       }
     }
   }"

definition toku_le_garbage_collect ::
  "bool \<Rightarrow> ule \<Rightarrow> byte list \<Rightarrow> 32 word \<Rightarrow> txn_gc_info \<Rightarrow> (byte list option \<times> int) option" where
  "toku_le_garbage_collect dbg scratch old_leaf_entry keylen gc_info = do {
     st \<leftarrow> txn_state_for_gc gc_info;
     u \<leftarrow> le_unpack scratch old_leaf_entry;
     oldnumbytes \<leftarrow> ule_get_innermost_numbytes u keylen;
     old_mem_size \<leftarrow> leafentry_memsize old_leaf_entry;
     u \<leftarrow> ule_try_promote_provisional_outermost u (oldest_referenced_xid_for_implicit_promotion gc_info);
     u \<leftarrow> (if num_cuxrs u > 1 then do {
            size_before_gc \<leftarrow> ule_packed_memsize u;
            u \<leftarrow> ule_garbage_collect dbg u (snapshot_xids (st_state st)) (gc_referenced_xids (st_state st))
                   (gc_live_root_txns (st_state st));
            size_after_gc \<leftarrow> ule_packed_memsize u;
            Some u
          }
          else Some u);
     new_leaf_entry \<leftarrow> le_pack u;
     newnumbytes \<leftarrow>
       (case new_leaf_entry of
          None \<Rightarrow> Some 0
        | Some _ \<Rightarrow> do { n \<leftarrow> ule_get_innermost_numbytes u keylen; Some (sint64 n) });
     Some (new_leaf_entry, newnumbytes - sint64 oldnumbytes)
   }"

end
