(* ===== verification/Txn_Props.thy ===== *)
theory Txn_Props
  imports Txn_Verify
begin

text \<open>
  The properties of the transaction manager in every reachable state: its operations return, the
  id stacks it hands to messages are well formed, a snapshot reads exactly what was committed when
  it was taken and never changes, and the self-check succeeds. The last section shows that a
  \<open>TXN_COPIES_SNAPSHOT\<close> child frees the live list of its parent, in every reachable state.
\<close>

subsection \<open>Concrete runs\<close>

definition empty_manager :: txn_manager where
  "empty_manager = toku_txn_manager_init (\<lambda>_. \<lparr>parent_id64 = TXNID_NONE, child_id64 = TXNID_NONE,
     snapshot_txnid64 = TXNID_NONE, snapshot_type = TXN_SNAPSHOT_NONE, txn_parent = None, txn_child = None,
     child_manager = 0, m_last_xid = TXNID_NONE, live_root_txn_list = None, txn_xids = [], snapshot_next = None,
     snapshot_prev = None, begin_was_logged = False, declared_read_only = False\<rparr>)"

definition began :: "(ft_error + txn_manager) option \<Rightarrow> txn_manager option" where
  "began r = (case r of Some (Inr m) \<Rightarrow> Some m | _ \<Rightarrow> None)"

text \<open>Two roots with snapshots; the first has written.\<close>

definition two_roots :: "txn_manager option" where
  "two_roots = do {
     m \<leftarrow> began (toku_txn_begin_txn None 0 TXN_SNAPSHOT_ROOT False empty_manager);
     m \<leftarrow> began (toku_txn_begin_txn None 1 TXN_SNAPSHOT_ROOT False m);
     maybe_log_begin_txn_for_write_operation_unlocked 0 m
   }"

lemmas run_simps = empty_manager_def toku_txn_manager_init_def toku_txn_begin_txn_def toku_txn_create_txn_def
  toku_txn_manager_start_txn_def txn_copies_snapshot_def txn_records_snapshot_def malloc_list_def upd_txn_def
  toku_txn_update_xids_in_txn_def insert_live_root_def omt_insert_at_def set_oldest_referenced_xid_def omt_fetch_def
  txn_manager_create_snapshot_unlocked_def store_list_def setup_live_root_txn_list_def txn_create_xids_def
  toku_xids_get_root_xids_def toku_xids_create_unknown_child_def toku_xids_finalize_with_child_def
  toku_xids_can_create_child_def TXNID_NONE_def TXNID_MAX_def MAX_NESTED_TRANSACTIONS_def
  MAX_TRANSACTION_RECORDS_def began_def Let_def ensure_def

lemma began_Some [simp]: "began r = Some m \<longleftrightarrow> r = Some (Inr m)"
  by (auto simp: began_def split: option.splits sum.splits)

lemma root_begun:
  obtains m where "toku_txn_begin_txn None 0 TXN_SNAPSHOT_ROOT False empty_manager = Some (Inr m)"
    "reachable dbg (({}, {}), {0}, m)" "last_xid m = 2" "txn_xids (txns m 0) = [1]" "lastc m 0 = 0"
    "child_manager (txns m 0) = 0" "txn_parent (txns m 0) = None" "\<not> declared_read_only (txns m 0)"
proof -
  have "\<exists>m. toku_txn_begin_txn None 0 TXN_SNAPSHOT_ROOT False empty_manager = Some (Inr m) \<and>
      last_xid m = 2 \<and> txn_xids (txns m 0) = [1] \<and> lastc m 0 = 0 \<and> child_manager (txns m 0) = 0 \<and>
      txn_parent (txns m 0) = None \<and> \<not> declared_read_only (txns m 0)"
    by (simp add: run_simps)
  then obtain m where m: "toku_txn_begin_txn None 0 TXN_SNAPSHOT_ROOT False empty_manager = Some (Inr m)"
    "last_xid m = 2" "txn_xids (txns m 0) = [1]" "lastc m 0 = 0" "child_manager (txns m 0) = 0"
    "txn_parent (txns m 0) = None" "\<not> declared_read_only (txns m 0)" by auto
  have "mgr_step dbg (({}, {}), {}, empty_manager) (({}, {}), insert 0 {}, m)"
    by (rule mgr_step.begin_root [OF _ _ m(1)]) (simp_all add: room_def empty_manager_def toku_txn_manager_init_def)
  then have "reachable dbg (({}, {}), {0}, m)"
    using reachable.step [OF reachable.init] by (auto simp: empty_manager_def)
  then show ?thesis using that m by blast
qed

lemma two_roots_run:
  obtains m where "two_roots = Some m" "reachable dbg (({}, {}), {0, 1}, m)" "last_xid m = 4"
    "rid m 0 = 1" "rid m 1 = 3" "sid m 1 = 4" "records (txns m 1)" "live_list m 1 = Some [1, 3]"
    "txn_parent (txns m 0) = None" "child_manager (txns m 0) = 0" "child_manager (txns m 1) = 1"
    "snapshot_type (txns m 0) = TXN_SNAPSHOT_ROOT" "\<not> declared_read_only (txns m 1)" "txn_parent (txns m 1) = None"
    "set (live_root_ids m) = {1, 3}"
proof -
  obtain m0 where m0: "toku_txn_begin_txn None 0 TXN_SNAPSHOT_ROOT False empty_manager = Some (Inr m0)"
    "reachable dbg (({}, {}), {0}, m0)" "last_xid m0 = 2" "\<not> declared_read_only (txns m0 0)"
    using root_begun by metis
  let ?r = "do { m \<leftarrow> began (toku_txn_begin_txn None 0 TXN_SNAPSHOT_ROOT False empty_manager);
     began (toku_txn_begin_txn None 1 TXN_SNAPSHOT_ROOT False m) }"
  have "\<exists>m. ?r = Some m \<and> last_xid m = 4 \<and> rid m 0 = 1 \<and> rid m 1 = 3 \<and> sid m 1 = 4 \<and> records (txns m 1) \<and>
      live_list m 1 = Some [1, 3] \<and> txn_parent (txns m 0) = None \<and> child_manager (txns m 0) = 0 \<and>
      child_manager (txns m 1) = 1 \<and> snapshot_type (txns m 0) = TXN_SNAPSHOT_ROOT \<and>
      \<not> declared_read_only (txns m 0) \<and> \<not> declared_read_only (txns m 1) \<and> \<not> begin_was_logged (txns m 0) \<and>
      txn_parent (txns m 1) = None \<and> set (live_root_ids m) = {1, 3}"
    by (simp add: run_simps records_def live_list_def)
  then obtain m where m: "?r = Some m" "last_xid m = 4" "rid m 0 = 1" "rid m 1 = 3" "sid m 1 = 4"
    "records (txns m 1)" "live_list m 1 = Some [1, 3]" "txn_parent (txns m 0) = None" "child_manager (txns m 0) = 0"
    "child_manager (txns m 1) = 1" "snapshot_type (txns m 0) = TXN_SNAPSHOT_ROOT"
    "\<not> declared_read_only (txns m 0)" "\<not> declared_read_only (txns m 1)" "\<not> begin_was_logged (txns m 0)"
    "txn_parent (txns m 1) = None" "set (live_root_ids m) = {1, 3}"
    by auto
  have b: "toku_txn_begin_txn None 1 TXN_SNAPSHOT_ROOT False m0 = Some (Inr m)"
    using m(1) m0(1) by (simp add: bind_eq_Some_conv)
  have r: "reachable dbg (({}, {}), insert 1 {0}, m)"
    by (rule reachable.step [OF m0(2)], rule mgr_step.begin_root [OF _ _ b]) (simp_all add: room_def m0(3))
  have l: "maybe_log_begin_txn_for_write_operation_unlocked 0 m = Some (logged 0 m)"
    by (subst maybe_log_begin_txn_for_write_operation_unlocked.simps) (simp add: m(8,14) logged_def)
  have "reachable dbg (({}, {}), insert 1 {0}, logged 0 m)"
    by (rule reachable.step [OF r], rule mgr_step.log_begin [OF _ m(12) l]) simp
  moreover have "two_roots = Some (logged 0 m)"
    using m(1) l by (auto simp: two_roots_def bind_eq_Some_conv)
  moreover have "records (txns (logged 0 m) 1)" "live_list (logged 0 m) 1 = Some [1, 3]" "sid (logged 0 m) 1 = 4"
    using m by (simp_all add: records_def live_list_def logged_def upd_txn_def)
  ultimately show ?thesis
    using that [of "logged 0 m"] m by (simp add: logged_fields insert_commute)
qed

subsection \<open>Reading through a snapshot\<close>

lemma reads_through_snapshot:
  assumes "live_list m t = Some L" "sorted_by (\<lambda>y. y) L" "\<forall>y\<in>set L. 0 < y \<and> y < sid m t"
  shows "toku_txn_reads_txnid x m t = Some (x = rid m t \<or> (x \<le> sid m t \<and> x \<notin> set L))"
proof -
  let ?o = "toku_get_oldest_in_live_root_txn_list L"
  have o: "?o = (case L of [] \<Rightarrow> 0 | a # _ \<Rightarrow> a)"
    by (simp add: toku_get_oldest_in_live_root_txn_list_def omt_fetch_def TXNID_NONE_def split: list.split)
  have low: "x \<notin> set L \<and> (L \<noteq> [] \<longrightarrow> x < sid m t)" if "x < ?o"
    using that assms(2,3) unfolding o by (cases L) (auto dest: less_trans)
  have e: "L = [] \<longleftrightarrow> ?o = 0" using assms(3) unfolding o by (cases L) auto
  then have "\<not> x < ?o" if "L = []" using that by simp
  then show ?thesis
    using assms(1) low e toku_is_txn_in_live_root_txn_list_iff [OF assms(2), of x]
    by (cases "L = []") (auto simp: toku_txn_reads_txnid_def TXNID_NONE_def Let_def)
qed

lemma run_snapshot:
  assumes "run_inv E A m" "t \<in> A" "records (txns m t)"
  shows "toku_txn_reads_txnid x m t =
    Some (x = rid m t \<or> (x \<le> sid m t \<and> x \<notin> set (sn_live (abs_snap m t))))"
    "live_list m t = Some (sn_live (abs_snap m t))"
    "x \<in> set (live_root_ids m) \<Longrightarrow> x < sid m t \<Longrightarrow> x \<in> set (sn_live (abs_snap m t))"
proof -
  obtain S where S: "mgr_wf m A S" "mv_inv E (rid m ` A) (abs_mgr m S)" using run_invD [OF assms(1)] by metis
  have t: "t \<in> set S" using S(1) assms(2,3) by (simp add: mgr_wf_def)
  then have ok: "snap_ok (rid m ` A) (abs_mgr m S) (abs_snap m t)" using mv_invD(5) [OF S(2)] by simp
  show l: "live_list m t = Some (sn_live (abs_snap m t))" by (rule snapshot_live_list [OF S(1) t])
  show "toku_txn_reads_txnid x m t =
    Some (x = rid m t \<or> (x \<le> sid m t \<and> x \<notin> set (sn_live (abs_snap m t))))"
    using ok by (intro reads_through_snapshot [OF l]) (auto simp: snap_ok_def)
  show "x \<in> set (live_root_ids m) \<Longrightarrow> x < sid m t \<Longrightarrow> x \<in> set (sn_live (abs_snap m t))"
    using ok by (auto simp: snap_ok_def)
qed

lemma log_begin_snap:
  "maybe_log_begin_txn_for_write_operation_unlocked u m = Some m' \<Longrightarrow>
     abs_snap m' t = abs_snap m t \<and> records (txns m' t) = records (txns m t)"
proof (induction rule: maybe_log_begin_txn_for_write_operation_unlocked.raw_induct [rotated, consumes 1, case_names log])
  case (log f u m m')
  show ?case
  proof (cases "begin_was_logged (txns m u)")
    case True
    then show ?thesis using log(2) by simp
  next
    case False
    then obtain m1 where m1: "(case txn_parent (txns m u) of None \<Rightarrow> Some m | Some p \<Rightarrow> f p m) = Some m1" "m' = logged u m1"
      using log(2) by (auto simp: bind_eq_Some_conv logged_def)
    have "abs_snap m1 t = abs_snap m t \<and> records (txns m1 t) = records (txns m t)"
      using m1(1) log(1) by (auto split: option.splits)
    moreover have "abs_snap m' t = abs_snap m1 t" "records (txns m' t) = records (txns m1 t)"
      unfolding m1(2) by (simp_all add: abs_snap_def records_def live_list_def logged_def upd_txn_def)
    ultimately show ?thesis by simp
  qed
qed

text \<open>A step neither moves nor changes the snapshot of a transaction that stays active.\<close>

lemma snapshot_kept:
  assumes "mgr_step dbg (E, A, m) (E', A', m')" "run_inv E A m" "t \<in> A" "t \<in> A'" "records (txns m t)"
  shows "abs_snap m' t = abs_snap m t" "records (txns m' t)"
proof -
  obtain S where S: "mgr_wf m A S" "mv_inv E (rid m ` A) (abs_mgr m S)" "xids_inv m A"
    using run_invD [OF assms(2)] by metis
  have tS: "t \<in> set S" using S(1) assms(3,5) by (simp add: mgr_wf_def)
  have "abs_snap m' t = abs_snap m t \<and> records (txns m' t)"
    using assms(1)
  proof (cases rule: mgr_step_elim [consumes 1, case_names 1 2 3 4 5])
    case (1 u ty ro)
    from begin_root_refines [OF S(1,2) 1(1,2)] show ?thesis
      using 1(3) tS assms(3,5) same_coreD(11) by (metis option.inject sum.inject(2))
  next
    case (2 u p ty)
    let ?ro = "declared_read_only (txns m p)"
    have "\<not> ?ro \<longrightarrow> length (txn_xids (txns m p)) < MAX_NESTED_TRANSACTIONS"
      using begin_child_nesting [OF 2(6)] by simp
    from begin_child_refines [OF S(1,2) 2(1-4), of ?ro, OF _ this] show ?thesis
      using 2(6) tS assms(3,5) same_coreD(11) by (metis option.inject sum.inject(2))
  next
    case (3 u)
    then show ?thesis using log_begin_snap [OF 3(3)] assms(5) by simp
  next
    case (4 u p)
    obtain m1 S1 where "toku_txn_complete_txn dbg u m = Some m1" "mgr_wf m1 (A - {u}) S1"
      "\<And>v. v \<in> A \<Longrightarrow> same_core (txns m v) (txns m1 v)" "\<And>v. v \<in> set S1 \<Longrightarrow> abs_snap m1 v = abs_snap m v"
      using complete_child_refines [OF S(1,2) 4(1,6)] 4(2) by metis
    then show ?thesis
      using 4 assms(3-5) same_coreD(11) by (metis mgr_wf_def option.inject)
  next
    case (5 u)
    obtain m1 S1 where "toku_txn_complete_txn dbg u m = Some m1" "mgr_wf m1 (A - {u}) S1"
      "\<And>v. v \<in> A \<Longrightarrow> same_core (txns m v) (txns m1 v)" "\<And>v. v \<in> set S1 \<Longrightarrow> abs_snap m1 v = abs_snap m v"
      using complete_root_refines [OF S(1,2) 5(1-3)] 5(4) by metis
    then show ?thesis
      using 5 assms(3-5) same_coreD(11) by (metis mgr_wf_def option.inject)
  qed
  then show "abs_snap m' t = abs_snap m t" "records (txns m' t)" by simp_all
qed

subsection \<open>Operations return\<close>

lemma reachable_step: "reachable dbg s \<Longrightarrow> mgr_step dbg s s' \<Longrightarrow> reachable dbg s'"
  by (rule reachable.step)

text \<open>
  C7. In every reachable state, beginning a root transaction of any snapshot type returns: no
  assertion of the manager fires, no dangling live list is used, and the new state is reachable.
\<close>

theorem begin_root_returns:
  assumes "reachable dbg (E, A, m)" "t \<notin> A" "room (last_xid m)"
  shows "\<exists>m'. toku_txn_begin_txn None t ty ro m = Some (Inr m') \<and> reachable dbg (E, insert t A, m')"
proof -
  obtain m' where m': "toku_txn_begin_txn None t ty ro m = Some (Inr m')"
    using begin_root_step [OF reachable_inv [OF assms(1)] assms(2,3)] by metis
  show ?thesis
    using reachable_step [OF assms(1) mgr_step.begin_root [OF assms(2,3) m']] m' by blast
qed

theorem begin_root_returns_witness:
  "\<exists>m'. toku_txn_begin_txn None 0 TXN_COPIES_SNAPSHOT True empty_manager = Some (Inr m') \<and>
     reachable False (({}, {}), insert 0 {}, m')"
  by (rule begin_root_returns)
    (auto simp: empty_manager_def room_def toku_txn_manager_init_def intro: reachable.init [unfolded toku_txn_manager_init_def])

text \<open>
  C8. Beginning a child of an active transaction returns in every reachable state. It fails with
  \<open>EINVAL\<close> exactly if a writing parent is nested as deep as an id stack can hold; otherwise the child is active
  in a reachable state.
\<close>

theorem begin_child_returns:
  assumes "reachable dbg (E, A, m)" "t \<notin> A" "p \<in> A" "ty \<noteq> TXN_COPIES_SNAPSHOT"
    and "room (last_xid m)" "room (m_last_xid (txns m (child_manager (txns m p))))"
  defines "ro \<equiv> declared_read_only (txns m p)"
  shows "if \<not> ro \<and> toku_xids_get_num_xids (txn_xids (txns m p)) = MAX_NESTED_TRANSACTIONS
    then toku_txn_begin_txn (Some p) t ty ro m = Some (Inl EINVAL)
    else \<exists>m'. toku_txn_begin_txn (Some p) t ty ro m = Some (Inr m') \<and> reachable dbg (E, insert t A, m')"
proof (cases "\<not> ro \<and> toku_xids_get_num_xids (txn_xids (txns m p)) = MAX_NESTED_TRANSACTIONS")
  case True
  then show ?thesis
    by (simp add: toku_txn_begin_txn_def toku_xids_can_create_child_def toku_xids_get_num_xids_def
        MAX_NESTED_TRANSACTIONS_def MAX_TRANSACTION_RECORDS_def)
next
  case False
  have inv: "run_inv E A m" using reachable_inv [OF assms(1)] .
  have "\<not> ro \<longrightarrow> length (txn_xids (txns m p)) < MAX_NESTED_TRANSACTIONS"
  proof
    assume "\<not> ro"
    then have "xids_ok (txn_xids (txns m p))"
      using inv assms(3) by (auto simp: run_inv_def xids_inv_def xids_member_def ro_def Let_def)
    then show "length (txn_xids (txns m p)) < MAX_NESTED_TRANSACTIONS"
      using False \<open>\<not> ro\<close> by (auto simp: xids_ok_def toku_xids_get_num_xids_def MAX_NESTED_TRANSACTIONS_def)
  qed
  then obtain m' where m': "toku_txn_begin_txn (Some p) t ty ro m = Some (Inr m')"
    using begin_child_step [OF inv assms(2-4), of ro] assms(5,6) ro_def by metis
  have "mgr_step dbg (E, A, m) (E, insert t A, m')"
    by (rule mgr_step.begin_child [OF assms(2-4) ro_def [THEN meta_eq_to_obj_eq] assms(5,6) m'])
  then show ?thesis using False m' reachable_step [OF assms(1)] by auto
qed

theorem begin_child_returns_witness:
  "\<exists>m m'. reachable False (({}, {}), {0}, m) \<and>
     toku_txn_begin_txn (Some 0) 1 TXN_SNAPSHOT_CHILD False m = Some (Inr m') \<and>
     reachable False (({}, {}), insert 1 {0}, m')"
proof -
  obtain m where m: "reachable False (({}, {}), {0}, m)" "last_xid m = 2" "txn_xids (txns m 0) = [1]" "lastc m 0 = 0"
    "child_manager (txns m 0) = 0" "\<not> declared_read_only (txns m 0)"
    using root_begun [of False] by metis
  then show ?thesis
    using begin_child_returns [OF m(1), of 1 0 TXN_SNAPSHOT_CHILD]
    by (auto simp: room_def toku_xids_get_num_xids_def MAX_NESTED_TRANSACTIONS_def)
qed

text \<open>
  C9. Completing an active transaction without active descendants returns in every reachable state: its
  snapshot, its live list and the reference counts are found as the code expects.
\<close>

theorem complete_returns:
  assumes "reachable dbg (E, A, m)" "t \<in> A" "room (last_xid m)"
    and "\<forall>u\<in>A. txn_parent (txns m u) \<noteq> Some t \<and> (u \<noteq> t \<longrightarrow> child_manager (txns m u) \<noteq> t)"
  shows "\<exists>E' m'. toku_txn_complete_txn dbg t m = Some m' \<and> reachable dbg (E', A - {t}, m')"
proof (cases "txn_parent (txns m t)")
  case None
  have leaf: "\<forall>u\<in>A. child_manager (txns m u) = t \<longrightarrow> u = t" using assms(4) by auto
  obtain m' where "toku_txn_complete_txn dbg t m = Some m'"
    using complete_root_step [OF reachable_inv [OF assms(1)] assms(2) None assms(3) leaf] by metis
  then show ?thesis
    using reachable_step [OF assms(1) mgr_step.complete_root [OF assms(2) None assms(3) leaf]] by blast
next
  case (Some p)
  have leaf: "\<forall>u\<in>A. txn_parent (txns m u) \<noteq> Some t" using assms(4) by auto
  have S: "txn_parent (txns m t) \<noteq> None" using Some by simp
  obtain m' where "toku_txn_complete_txn dbg t m = Some m'"
    using complete_child_step [OF reachable_inv [OF assms(1)] assms(2) S leaf] by metis
  then show ?thesis
    using reachable_step [OF assms(1) mgr_step.complete_child [OF assms(2) S leaf]] by blast
qed

theorem complete_returns_witness:
  "\<exists>m m' E'. reachable False (({}, {}), {0, 1}, m) \<and> toku_txn_complete_txn False 0 m = Some m' \<and>
     reachable False (E', {0, 1} - {0}, m')"
proof -
  obtain m where m: "reachable False (({}, {}), {0, 1}, m)" "last_xid m = 4" "txn_parent (txns m 0) = None"
    "txn_parent (txns m 1) = None" "child_manager (txns m 1) = 1"
    using two_roots_run [of False] by metis
  then show ?thesis using complete_returns [OF m(1), of 0] by (auto simp: room_def)
qed

text \<open>
  In every reachable state the id stack of an active transaction that may write is well formed: it
  starts with the id of the root, extends the parent's stack by one id, has no duplicate and no null id, and fits
  the one-byte counter of the message format. This is what message application assumes of its \<open>XIDS\<close>.
\<close>

theorem txn_xids_wf:
  assumes "reachable dbg (E, A, m)" "t \<in> A" "\<not> declared_read_only (txns m t)"
  shows "xids_ok (txn_xids (txns m t)) \<and> toku_xids_get_outermost_xid (txn_xids (txns m t)) = Some (parent_id64 (txns m t)) \<and>
    (case txn_parent (txns m t) of
       None \<Rightarrow> txn_xids (txns m t) = [parent_id64 (txns m t)]
     | Some p \<Rightarrow> \<exists>x. txn_xids (txns m t) = txn_xids (txns m p) @ [x])"
proof -
  have "xids_member m t"
    using reachable_inv [OF assms(1)] assms(2,3) by (auto simp: run_inv_def xids_inv_def)
  then show ?thesis
    by (auto simp: xids_member_def Let_def toku_xids_get_outermost_xid_def toku_xids_get_num_xids_def
        toku_xids_get_xid_def hd_conv_nth split: option.splits)
qed

theorem txn_xids_wf_witness:
  "\<exists>m. reachable False (({}, {}), {0}, m) \<and> xids_ok (txn_xids (txns m 0))"
proof -
  obtain m where m: "reachable False (({}, {}), {0}, m)" "\<not> declared_read_only (txns m 0)"
    using root_begun [of False] by metis
  then show ?thesis using txn_xids_wf [OF m(1)] by auto
qed

subsection \<open>Snapshot isolation\<close>

text \<open>
  C10. A root transaction that begins with a snapshot reads, of all transactions that began before
  it, exactly those that are not live at that moment; and it reads its own writes.
\<close>

theorem snapshot_reads_ended:
  assumes "reachable dbg (E, A, m)" "t \<notin> A" "room (last_xid m)"
    and "ty = TXN_SNAPSHOT_ROOT \<or> ty = TXN_SNAPSHOT_CHILD"
    and "toku_txn_begin_txn None t ty ro m = Some (Inr m')"
  shows "(\<forall>x \<le> last_xid m. toku_txn_reads_txnid x m' t = Some (x \<notin> set (live_root_ids m))) \<and>
    toku_txn_reads_txnid (parent_id64 (txns m' t)) m' t = Some True"
proof -
  obtain S where S: "mgr_wf m A S" "mv_inv E (rid m ` A) (abs_mgr m S)"
    using run_invD [OF reachable_inv [OF assms(1)]] by metis
  have rec: "txn_records_snapshot ty None" using assms(4) by (auto simp: txn_records_snapshot_def)
  obtain m1 S1 where "toku_txn_begin_txn None t ty ro m = Some (Inr m1)" "mgr_wf m1 (insert t A) S1"
    "mv_inv E (rid m1 ` insert t A) (abs_mgr m1 S1)" "rid m1 t = last_xid m + 1" "txn_parent (txns m1 t) = None"
    "abs_snap m1 t = \<lparr>sn_id = last_xid m + 2, sn_root = last_xid m + 1,
       sn_live = (if ro then live_root_ids m else live_root_ids m @ [last_xid m + 1])\<rparr>"
    "records (txns m1 t)"
    using begin_root_refines [OF S assms(2,3), of ty ro] rec by metis
  then have m1: "mgr_wf m' (insert t A) S1" "mv_inv E (rid m' ` insert t A) (abs_mgr m' S1)"
    "rid m' t = last_xid m + 1" "abs_snap m' t = \<lparr>sn_id = last_xid m + 2, sn_root = last_xid m + 1,
       sn_live = (if ro then live_root_ids m else live_root_ids m @ [last_xid m + 1])\<rparr>"
    and rm: "records (txns m' t)"
    using assms(5) by simp_all
  have xs: "run_inv E (insert t A) m'"
    using begin_root_step [OF reachable_inv [OF assms(1)] assms(2,3), of ty ro] assms(5)
    by (metis option.inject sum.inject(2))
  have lt: "last_xid m < last_xid m + 1" "last_xid m + 1 < last_xid m + 2"
    using roomD [OF assms(3)] word_less_add_1 [of "last_xid m"] word_less_add_1 [of "last_xid m + 1"]
    by (auto simp: add.assoc)
  have sd: "sid m' t = last_xid m + 2" using arg_cong [OF m1(4), of sn_id] by simp
  have "toku_txn_reads_txnid x m' t = Some (x \<notin> set (live_root_ids m))" if "x \<le> last_xid m" for x
  proof -
    have "x \<noteq> last_xid m + 1" "x \<le> last_xid m + 2" using that lt by auto
    then show ?thesis using run_snapshot(1) [OF xs _ rm, of x] m1(3,4) sd by simp
  qed
  then show ?thesis using run_snapshot(1) [OF xs _ rm] by simp
qed

theorem snapshot_reads_ended_witness:
  "\<exists>m m'. two_roots = Some m \<and> toku_txn_begin_txn None 2 TXN_SNAPSHOT_ROOT False m = Some (Inr m') \<and>
     toku_txn_reads_txnid 2 m' 2 = Some (2 \<notin> set (live_root_ids m))"
proof -
  obtain m where m: "two_roots = Some m" "reachable False (({}, {}), {0, 1}, m)" "last_xid m = 4"
    using two_roots_run [of False] by metis
  have r: "room (last_xid m)" by (simp add: room_def m(3))
  then obtain m' where m': "toku_txn_begin_txn None 2 TXN_SNAPSHOT_ROOT False m = Some (Inr m')"
    using begin_root_step [OF reachable_inv [OF m(2)], of 2 TXN_SNAPSHOT_ROOT False] by auto
  show ?thesis
    using snapshot_reads_ended [OF m(2) _ r _ m'] m(1,3) m' by auto
qed

text \<open>
  C11. What a recorded snapshot reads does not change while its transaction is active, whatever
  other transactions begin, write, or complete.
\<close>

theorem snapshot_reads_stable:
  assumes "reachable dbg (E, A, m)" "mgr_step dbg (E, A, m) (E', A', m')" "t \<in> A" "t \<in> A'"
    and "txn_records_snapshot (snapshot_type (txns m t)) (txn_parent (txns m t))"
  shows "toku_txn_reads_txnid x m' t = toku_txn_reads_txnid x m t"
proof -
  have inv: "run_inv E A m" "run_inv E' A' m'"
    using reachable_inv reachable_step [OF assms(1,2)] assms(1) by blast+
  have rec: "records (txns m t)" using assms(5) by (simp add: records_def)
  note kept = snapshot_kept [OF assms(2) inv(1) assms(3,4) rec]
  have "rid m' t = rid m t" "sid m' t = sid m t"
    using arg_cong [OF kept(1), of sn_root] arg_cong [OF kept(1), of sn_id] by simp_all
  then show ?thesis
    using run_snapshot(1) [OF inv(1) assms(3) rec] run_snapshot(1) [OF inv(2) assms(4) kept(2)] kept(1) by simp
qed

theorem snapshot_reads_stable_witness:
  "\<exists>m m'. two_roots = Some m \<and> toku_txn_complete_txn False 0 m = Some m' \<and>
     toku_txn_reads_txnid 1 m' 1 = toku_txn_reads_txnid 1 m 1"
proof -
  obtain m where m: "two_roots = Some m" "reachable False (({}, {}), {0, 1}, m)" "last_xid m = 4"
    "records (txns m 1)" "txn_parent (txns m 0) = None" "child_manager (txns m 1) = 1"
    using two_roots_run [of False] by metis
  have leaf: "\<forall>u\<in>{0, 1}. child_manager (txns m u) = 0 \<longrightarrow> u = 0" using m(6) by auto
  have r: "room (last_xid m)" by (simp add: room_def m(3))
  obtain m' where m': "toku_txn_complete_txn False 0 m = Some m'"
    using complete_root_step [OF reachable_inv [OF m(2)] _ m(5) r leaf] by auto
  have st: "mgr_step False (({}, {}), {0, 1}, m)
      (note_ended (rid m 0) (wrote False (txns m 0)) (\<not> declared_read_only (txns m 0)) ({}, {}), {0, 1} - {0}, m')"
    by (rule mgr_step.complete_root [OF _ m(5) r leaf m']) simp
  then show ?thesis
    using snapshot_reads_stable [OF m(2) st, of 1] m(1,4) m' by (auto simp: records_def)
qed

text \<open>
  C12. A snapshot never reads the writes of another root transaction that is still live.
\<close>

theorem live_txn_not_read:
  assumes "reachable dbg (E, A, m)" "t \<in> A" "x \<in> set (live_root_ids m)" "x \<noteq> parent_id64 (txns m t)"
    and "txn_records_snapshot (snapshot_type (txns m t)) (txn_parent (txns m t))"
  shows "toku_txn_reads_txnid x m t = Some False"
proof -
  have inv: "run_inv E A m" using reachable_inv [OF assms(1)] .
  have rec: "records (txns m t)" using assms(5) by (simp add: records_def)
  obtain S where S: "mgr_wf m A S" "mv_inv E (rid m ` A) (abs_mgr m S)" using run_invD [OF inv] by metis
  have "t \<in> set S" using S(1) assms(2) rec by (simp add: mgr_wf_def)
  then have "sid m t \<notin> rid m ` A" using mv_invD(5) [OF S(2), of "abs_snap m t"] by (simp add: snap_ok_def)
  then have "x \<noteq> sid m t" using mv_invD(2) [OF S(2)] assms(3) by auto
  then show ?thesis
    using run_snapshot(1,3) [OF inv assms(2) rec, of x] assms(3,4) by auto
qed

theorem live_txn_not_read_witness:
  "\<exists>m. two_roots = Some m \<and> toku_txn_reads_txnid 1 m 1 = Some False"
proof -
  obtain m where m: "two_roots = Some m" "reachable False (({}, {}), {0, 1}, m)" "records (txns m 1)" "rid m 1 = 3"
    "set (live_root_ids m) = {1, 3}"
    using two_roots_run [of False] by metis
  then show ?thesis using live_txn_not_read [OF m(2), of 1 1] by (auto simp: records_def)
qed

subsection \<open>The self-check and shutdown\<close>

text \<open>
  C13. With \<open>garbage_collection_debug\<close> on, the self-check of the snapshot system never fails: in every
  reachable state all its \<open>invariant\<close>s hold.
\<close>

theorem self_check_never_fails:
  assumes "reachable True (E, A, m)"
  shows "verify_snapshot_system m = Some ()"
proof -
  obtain S where S: "mgr_wf m A S" "mv_inv E (rid m ` A) (abs_mgr m S)"
    using run_invD [OF reachable_inv [OF assms]] by metis
  moreover have "E = (fst E, {})" using debug_ended [OF assms] by (simp add: prod_eq_iff)
  ultimately show ?thesis using verify_snapshot_system_ok [of m A S "fst E"] by metis
qed

theorem self_check_never_fails_witness:
  "\<exists>m m'. two_roots = Some m \<and> toku_txn_complete_txn True 0 m = Some m' \<and> verify_snapshot_system m' = Some ()"
proof -
  obtain m where m: "two_roots = Some m" "reachable True (({}, {}), {0, 1}, m)" "last_xid m = 4"
    "txn_parent (txns m 0) = None" "child_manager (txns m 1) = 1"
    using two_roots_run [of True] by metis
  have leaf: "\<forall>u\<in>{0, 1}. child_manager (txns m u) = 0 \<longrightarrow> u = 0" using m(5) by auto
  have r: "room (last_xid m)" by (simp add: room_def m(3))
  obtain m' where m': "toku_txn_complete_txn True 0 m = Some m'"
    using complete_root_step [OF reachable_inv [OF m(2)] _ m(4) r leaf] by auto
  have "reachable True (note_ended (rid m 0) (wrote True (txns m 0)) (\<not> declared_read_only (txns m 0)) ({}, {}), {0, 1} - {0}, m')"
    by (rule reachable_step [OF m(2)], rule mgr_step.complete_root [OF _ m(4) r leaf m']) simp
  then show ?thesis using self_check_never_fails m(1) m' by blast
qed

text \<open>
  When no transaction is active, the manager can be destroyed: no live root, no snapshot and no
  referenced id is left behind.
\<close>

theorem destroy_when_idle:
  assumes "reachable dbg (E, {}, m)"
  shows "toku_txn_manager_destroy m = Some ()"
proof -
  obtain S where S: "mgr_wf m {} S" "mv_inv E (rid m ` {}) (abs_mgr m S)"
    using run_invD [OF reachable_inv [OF assms]] by metis
  have e: "S = []" "live_root_txns m = []" "live_root_ids m = []" using S(1) by (auto simp: mgr_wf_def)
  have "\<not> t \<in> set (referenced_xids m)" for t
    using mv_invD(7) [OF S(2), of t] e(1) by (auto simp: tuple_ok_def)
  then have "referenced_xids m = []" by (metis list.set_intros(1) list.exhaust)
  moreover have "snapshot_head m = None" using S(1) e(1) by (simp add: mgr_wf_def dll_def)
  ultimately show ?thesis using e by (simp add: toku_txn_manager_destroy_def)
qed

theorem destroy_when_idle_witness: "toku_txn_manager_destroy empty_manager = Some ()"
  using destroy_when_idle [OF reachable.init] by (simp add: empty_manager_def)

subsection \<open>A child that copies its snapshot\<close>

text \<open>The middle part of \<open>toku_txn_manager_finish_txn\<close>, which takes a root out of the live lists, leaves the transactions and their lists alone.\<close>

definition leave_live :: "bool \<Rightarrow> TOKUTXN \<Rightarrow> TOKUTXN \<Rightarrow> nat \<Rightarrow> txn_manager \<Rightarrow> txn_manager option" where
  "leave_live dbg txn txnagain idx m = do {
     ensure (txn = txnagain);
     let xid = parent_id64 (txns m txn);
     m \<leftarrow> (case omt_delete_at (live_root_txns m) idx of Inl _ \<Rightarrow> None | Inr ts \<Rightarrow> Some (m\<lparr>live_root_txns := ts\<rparr>));
     m \<leftarrow> (case omt_delete_at (live_root_ids m) idx of Inl _ \<Rightarrow> None | Inr ids \<Rightarrow> Some (m\<lparr>live_root_ids := ids\<rparr>));
     if \<not> toku_txn_is_read_only (txns m txn) \<or> dbg then do {
       num_references \<leftarrow> count_newer_snapshots m xid (snapshot_tail m) 0;
       if num_references > 0 then do {
         let m = m\<lparr>last_xid := last_xid m + 1\<rparr>;
         (case omt_insert (\<lambda>t. find_tuple_by_xid t xid) (referenced_xids m) \<lparr>begin_id = xid, end_id = last_xid m, references = num_references\<rparr> of
            Inl _ \<Rightarrow> None
          | Inr (rx, _) \<Rightarrow> Some (m\<lparr>referenced_xids := rx\<rparr>))
       }
       else Some m
     }
     else Some m
   }"

lemma leave_live_frame: "leave_live dbg p q idx m = Some m' \<Longrightarrow> txns m' = txns m \<and> xid_lists m' = xid_lists m"
  unfolding leave_live_def Let_def by (auto split: sum.split_asm prod.split_asm if_split_asm Option.bind_split_asm)

lemma finish_unfold:
  "toku_txn_manager_finish_txn dbg m p = do {
     ensure (txn_parent (txns m p) = None);
     m \<leftarrow> (if txn_records_snapshot (snapshot_type (txns m p)) None then txn_manager_remove_snapshot_unlocked p m else Some m);
     m \<leftarrow> (if \<not> txn_declared_read_only (txns m p) then
             (case omt_find_zero (\<lambda>t. find_xid m t p) (live_root_txns m) of Inl _ \<Rightarrow> None | Inr (q, idx) \<Rightarrow> leave_live dbg p q idx m)
           else Some m);
     if live_root_txn_list (txns m p) \<noteq> None then free_list p m else Some m
   }"
  unfolding toku_txn_manager_finish_txn_def leave_live_def Let_def by (rule refl)

lemma finish_dangling:
  assumes "txn_parent (txns m p) = None" "live_root_txn_list (txns m p) = Some a" "xid_lists m a = None"
  shows "toku_txn_complete_txn dbg p m = None"
proof (rule ccontr)
  assume "toku_txn_complete_txn dbg p m \<noteq> None"
  then obtain m' where fin: "toku_txn_manager_finish_txn dbg m p = Some m'" using assms(1) by (auto simp: toku_txn_complete_txn_def)
  have "txn_manager_remove_snapshot_unlocked p m = None"
    using assms(2,3) by (auto simp: txn_manager_remove_snapshot_unlocked_def Let_def live_list_def upd_txn_def split: option.split)
  then have rec: "\<not> txn_records_snapshot (snapshot_type (txns m p)) None" using fin by (auto simp: finish_unfold)
  have "\<exists>m3. txns m3 = txns m \<and> xid_lists m3 = xid_lists m \<and> (if live_root_txn_list (txns m3 p) \<noteq> None then free_list p m3 else Some m3) = Some m'"
  proof (cases "txn_declared_read_only (txns m p)")
    case True
    then show ?thesis using fin rec by (intro exI [of _ m]) (simp add: finish_unfold)
  next
    case False
    then obtain q idx m3 where q: "omt_find_zero (\<lambda>t. find_xid m t p) (live_root_txns m) = Inr (q, idx)" "leave_live dbg p q idx m = Some m3"
      "(if live_root_txn_list (txns m3 p) \<noteq> None then free_list p m3 else Some m3) = Some m'"
      using fin rec by (cases "omt_find_zero (\<lambda>t. find_xid m t p) (live_root_txns m)") (auto simp: finish_unfold bind_eq_Some_conv)
    then show ?thesis using leave_live_frame by blast
  qed
  then show False using assms(2,3) by (auto simp: free_list_def)
qed

lemma begin_copying_child:
  assumes "toku_txn_begin_txn (Some p) t TXN_COPIES_SNAPSHOT ro m = Some (Inr m1)" "p \<noteq> t" "child_manager (txns m p) \<noteq> t" "live_root_txn_list (txns m p) = Some a"
  shows "txn_parent (txns m1 t) = Some p" "snapshot_type (txns m1 t) = TXN_COPIES_SNAPSHOT" "live_root_txn_list (txns m1 t) = Some a"
    "live_root_txn_list (txns m1 p) = Some a" "xid_lists m1 a = Some (live_root_ids m)" "child_manager (txns m1 t) = child_manager (txns m p)"
    "parent_id64 (txns m1 t) = parent_id64 (txns m1 (child_manager (txns m p)))" "txn_parent (txns m1 p) = txn_parent (txns m p)"
proof -
  let ?mc = "toku_txn_create_txn t (Some p) TXN_COPIES_SNAPSHOT False ro m"
  obtain ms mh where s: "start_child_txn t p ?mc = Some ms" "toku_txn_manager_handle_snapshot_create_for_child_txn t ms TXN_COPIES_SNAPSHOT = Some mh"
    "(if \<not> ro then txn_create_xids t (Some p) mh else Some mh) = Some m1"
    using assms(1) by (auto simp: toku_txn_begin_txn_def Let_def bind_eq_Some_conv split: if_splits)
  have c: "txns ?mc p = txns m p" "live_root_ids ?mc = live_root_ids m" "txn_parent (txns ?mc t) = Some p" "snapshot_type (txns ?mc t) = TXN_COPIES_SNAPSHOT"
    "child_manager (txns ?mc t) = child_manager (txns m p)" using assms(2) by (simp_all add: toku_txn_create_txn_def)
  let ?r = "child_manager (txns m p)"
  obtain f g h where ms_eq: "ms = upd_txn p (\<lambda>t. t\<lparr>txn_child := f\<rparr>) (upd_txn t (\<lambda>t. t\<lparr>child_id64 := g\<rparr>) (upd_txn ?r (\<lambda>t. t\<lparr>m_last_xid := h\<rparr>)
      (upd_txn t (\<lambda>t. t\<lparr>parent_id64 := parent_id64 (txns ?mc ?r)\<rparr>) ?mc)))"
    using s(1) unfolding start_child_txn_def Let_def c(1) bind_eq_Some_conv by blast
  have ms: "live_root_txn_list (txns ms p) = Some a" "txn_parent (txns ms p) = txn_parent (txns m p)" "txn_parent (txns ms t) = Some p"
    "snapshot_type (txns ms t) = TXN_COPIES_SNAPSHOT" "child_manager (txns ms t) = ?r" "live_root_ids ms = live_root_ids m"
    "parent_id64 (txns ms t) = parent_id64 (txns ms ?r)"
    unfolding ms_eq using c assms(2-4) by (simp_all add: upd_txn_def)
  have mh: "live_root_txn_list (txns mh t) = Some a \<and> live_root_txn_list (txns mh p) = Some a \<and> txn_parent (txns mh p) = txn_parent (txns m p) \<and>
    txn_parent (txns mh t) = Some p \<and> snapshot_type (txns mh t) = TXN_COPIES_SNAPSHOT \<and> child_manager (txns mh t) = child_manager (txns m p) \<and>
    parent_id64 (txns mh t) = parent_id64 (txns mh (child_manager (txns m p))) \<and> xid_lists mh a = Some (live_root_ids m)"
    using s(2) ms assms(2,3) by (auto simp: toku_txn_manager_handle_snapshot_create_for_child_txn_def txn_copies_snapshot_def txn_records_snapshot_def
        inherit_snapshot_from_parent_def upd_txn_def store_list_def setup_live_root_txn_list_def Let_def bind_eq_Some_conv)
  have "\<exists>xs. m1 = upd_txn t (\<lambda>x. x\<lparr>txn_xids := xs\<rparr>) mh \<or> m1 = mh" using s(3) by (auto simp: txn_create_xids_def Let_def bind_eq_Some_conv split: if_splits)
  then show "txn_parent (txns m1 t) = Some p" "snapshot_type (txns m1 t) = TXN_COPIES_SNAPSHOT" "live_root_txn_list (txns m1 t) = Some a"
    "live_root_txn_list (txns m1 p) = Some a" "xid_lists m1 a = Some (live_root_ids m)" "child_manager (txns m1 t) = child_manager (txns m p)"
    "parent_id64 (txns m1 t) = parent_id64 (txns m1 (child_manager (txns m p)))" "txn_parent (txns m1 p) = txn_parent (txns m p)"
    using mh assms(2,3) by (auto simp: upd_txn_def)
qed

text \<open>
  C14. In every reachable state, a child that begins with \<open>TXN_COPIES_SNAPSHOT\<close> (read committed always) below a parent with a live list takes over the parent's pointer and overwrites the
  parent's list with the transactions that are live now; its completion frees that list. The parent is left with a dangling pointer: every read of the parent through its
  snapshot is undefined, and so is the completion of the parent, if it is a root, which uses the list or frees it again.
\<close>

theorem copies_snapshot_child_frees_parent_list:
  assumes "reachable dbg (E, A, m)" "p \<in> A" "t \<notin> A" "live_list m p \<noteq> None" "toku_txn_begin_txn (Some p) t TXN_COPIES_SNAPSHOT ro m = Some (Inr m1)"
  shows "live_root_txn_list (txns m1 t) = live_root_txn_list (txns m1 p) \<and> live_list m1 p = Some (live_root_ids m) \<and>
    (\<exists>m2. toku_txn_complete_txn dbg t m1 = Some m2 \<and> (\<forall>x. toku_txn_reads_txnid x m2 p = None) \<and>
      (txn_parent (txns m p) = None \<longrightarrow> toku_txn_complete_txn dbg p m2 = None))"
proof -
  obtain a where a: "live_root_txn_list (txns m p) = Some a" "xid_lists m a \<noteq> None" using assms(4) by (auto simp: live_list_def bind_eq_Some_conv)
  have "member_ok m A p" using reachable_inv [OF assms(1)] assms(2) by (auto simp: run_inv_def mgr_wf_def family_ok_def)
  then have r: "child_manager (txns m p) \<noteq> t" "p \<noteq> t" using assms(2,3) by (auto simp: member_ok_def Let_def)
  note m1 = begin_copying_child [OF assms(5) r(2,1) a(1)]
  let ?m2 = "upd_txn p (\<lambda>t. t\<lparr>txn_child := None\<rparr>) (m1\<lparr>xid_lists := (xid_lists m1)(a := None)\<rparr>)"
  have c: "toku_txn_complete_txn dbg t m1 = Some ?m2"
    using m1 by (simp add: toku_txn_complete_txn_def toku_txn_manager_handle_snapshot_destroy_for_child_txn_def txn_copies_snapshot_def txn_records_snapshot_def
        free_list_def finish_child_txn_def Let_def)
  have "toku_txn_reads_txnid x ?m2 p = None" for x using m1(4) by (simp add: toku_txn_reads_txnid_def live_list_def upd_txn_def)
  moreover have "toku_txn_complete_txn dbg p ?m2 = None" if "txn_parent (txns m p) = None"
    by (rule finish_dangling [of _ _ a]) (use that m1(4,8) in \<open>simp_all add: upd_txn_def\<close>)
  ultimately show ?thesis using c m1(3-5) by (auto simp: live_list_def)
qed

theorem copies_snapshot_child_frees_parent_list_witness:
  "\<exists>m0 m1 m2. toku_txn_begin_txn None 0 TXN_COPIES_SNAPSHOT False empty_manager = Some (Inr m0) \<and>
     toku_txn_begin_txn (Some 0) 1 TXN_COPIES_SNAPSHOT False m0 = Some (Inr m1) \<and>
     toku_txn_complete_txn False 1 m1 = Some m2 \<and> toku_txn_complete_txn False 0 m2 = None"
proof -
  have "\<exists>m0 m1. toku_txn_begin_txn None 0 TXN_COPIES_SNAPSHOT False empty_manager = Some (Inr m0) \<and>
     toku_txn_begin_txn (Some 0) 1 TXN_COPIES_SNAPSHOT False m0 = Some (Inr m1) \<and> live_list m0 0 \<noteq> None \<and> txn_parent (txns m0 0) = None"
    by (simp add: run_simps start_child_txn_def toku_txn_manager_handle_snapshot_create_for_child_txn_def inherit_snapshot_from_parent_def live_list_def)
  then obtain m0 m1 where m: "toku_txn_begin_txn None 0 TXN_COPIES_SNAPSHOT False empty_manager = Some (Inr m0)"
    "toku_txn_begin_txn (Some 0) 1 TXN_COPIES_SNAPSHOT False m0 = Some (Inr m1)" "live_list m0 0 \<noteq> None" "txn_parent (txns m0 0) = None" by blast
  have "mgr_step False (({}, {}), {}, empty_manager) (({}, {}), insert 0 {}, m0)"
    by (rule mgr_step.begin_root [OF _ _ m(1)]) (simp_all add: room_def empty_manager_def toku_txn_manager_init_def)
  then have "reachable False (({}, {}), {0}, m0)"
    using reachable.step [OF reachable.init] by (auto simp: empty_manager_def)
  from copies_snapshot_child_frees_parent_list [OF this _ _ m(3,2)] show ?thesis using m by auto
qed

end
