(* ===== verification/Txn_Later.thy ===== *)
theory Txn_Later
  imports Txn_Props
begin

text \<open>
  How a state of the transaction manager relates to the states after it: ids only grow, a root
  transaction that is live later was live before or began in between, and a snapshot that exists
  later existed before or was taken in between.
\<close>

definition younger :: "txn_manager \<Rightarrow> TXNID set" where
  "younger m = {x. last_xid m < x}"

definition later_snap :: "TOKUTXN set \<Rightarrow> txn_manager \<Rightarrow> snap \<Rightarrow> bool" where
  "later_snap A m s \<longleftrightarrow>
     (\<exists>t\<in>A. records (txns m t) \<and> s = abs_snap m t) \<or>
     last_xid m < sn_id s \<and> set (sn_live s) \<subseteq> set (live_root_ids m) \<union> younger m"

definition later_state :: "TOKUTXN set \<Rightarrow> txn_manager \<Rightarrow> TOKUTXN set \<Rightarrow> txn_manager \<Rightarrow> bool" where
  "later_state A m A' m' \<longleftrightarrow>
     last_xid m \<le> last_xid m' \<and> set (live_root_ids m') \<subseteq> set (live_root_ids m) \<union> younger m \<and>
     (\<forall>t\<in>A'. records (txns m' t) \<longrightarrow> later_snap A m (abs_snap m' t))"

lemma later_state_refl: "later_state A m A m"
  by (auto simp: later_state_def later_snap_def)

lemma later_state_trans:
  assumes "later_state A m A1 m1" "later_state A1 m1 A2 m2"
  shows "later_state A m A2 m2"
proof -
  have y: "younger m1 \<subseteq> younger m" using assms(1) by (auto simp: later_state_def younger_def)
  have "later_snap A m s" if "later_snap A1 m1 s" for s
  proof (cases "\<exists>t\<in>A1. records (txns m1 t) \<and> s = abs_snap m1 t")
    case True
    then show ?thesis using assms(1) by (auto simp: later_state_def)
  next
    case False
    then have n: "last_xid m1 < sn_id s" "set (sn_live s) \<subseteq> set (live_root_ids m1) \<union> younger m1"
      using that by (auto simp: later_snap_def)
    have l: "last_xid m \<le> last_xid m1" "set (live_root_ids m1) \<subseteq> set (live_root_ids m) \<union> younger m"
      using assms(1) by (simp_all add: later_state_def)
    have "last_xid m < sn_id s" using l(1) n(1) by (rule le_less_trans)
    moreover have "set (sn_live s) \<subseteq> set (live_root_ids m) \<union> younger m" using n(2) l(2) y by blast
    ultimately show ?thesis by (simp add: later_snap_def)
  qed
  then show ?thesis using assms y by (auto simp: later_state_def)
qed

subsection \<open>Frames\<close>

lemma live_root_ids_set:
  "mgr_wf m A S \<Longrightarrow> set (live_root_ids m) = rid m ` {t\<in>A. txn_parent (txns m t) = None \<and> \<not> declared_read_only (txns m t)}"
  by (auto simp: mgr_wf_def)

lemma live_root_ids_shrink:
  assumes "mgr_wf m A S" "mgr_wf m' A' S'" "A' \<subseteq> A" "\<And>u. u \<in> A \<Longrightarrow> same_core (txns m u) (txns m' u)"
  shows "set (live_root_ids m') \<subseteq> set (live_root_ids m)"
  unfolding live_root_ids_set [OF assms(1)] live_root_ids_set [OF assms(2)]
  using assms(3) same_coreD(1,4,9) [OF assms(4)] by (auto simp: image_iff subset_iff)

lemma pred_option_bind: "pred_option P (Option.bind x f) \<longleftrightarrow> (\<forall>y. x = Some y \<longrightarrow> pred_option P (f y))"
  by (cases x) auto

lemma finish_live_last:
  assumes "finish_live dbg t m = Some m'"
  shows "last_xid m' = last_xid m \<or> last_xid m' = last_xid m + 1"
proof -
  have "pred_option (\<lambda>m'. last_xid m' = last_xid m \<or> last_xid m' = last_xid m + 1) (finish_live dbg t m)"
    by (auto simp: finish_live_def Let_def pred_option_bind split: sum.split prod.split sum.split_asm)
  then show ?thesis using assms by simp
qed

lemma unlink_last: "last_xid (unlink_snapshot t m) = last_xid m"
  by (auto simp: unlink_snapshot_def Let_def upd_txn_def split: option.split)

lemma remove_snapshot_last:
  "txn_manager_remove_snapshot_unlocked t m = Some m' \<Longrightarrow> last_xid m' = last_xid m"
  unfolding remove_snapshot_unfold Let_def
  by (auto simp: bind_eq_Some_conv unlink_last split: if_split_asm)

lemma free_list_last: "free_list t m = Some m' \<Longrightarrow> last_xid m' = last_xid m"
  by (auto simp: free_list_def bind_eq_Some_conv)

lemma complete_last:
  assumes "toku_txn_complete_txn dbg t m = Some m'"
  shows "last_xid m' = last_xid m \<or> txn_parent (txns m t) = None \<and> last_xid m' = last_xid m + 1"
proof (cases "txn_parent (txns m t)")
  case None
  then obtain m1 m2 where
    m1: "(if txn_records_snapshot (snapshot_type (txns m t)) None
         then txn_manager_remove_snapshot_unlocked t m else Some m) = Some m1"
    and m2: "finish_live dbg t m1 = Some m2"
    and m3: "(if live_root_txn_list (txns m2 t) \<noteq> None then free_list t m2 else Some m2) = Some m'"
    using assms by (auto simp: toku_txn_complete_txn_def finish_txn_unfold bind_eq_Some_conv)
  have "last_xid m1 = last_xid m" using m1 remove_snapshot_last by (auto split: if_splits)
  moreover have "last_xid m' = last_xid m2" using m3 free_list_last by (auto split: if_splits)
  ultimately show ?thesis using finish_live_last [OF m2] None by simp
next
  case (Some p)
  then obtain m1 m2 where
    m1: "(if txn_records_snapshot (snapshot_type (txns m t)) (Some p)
         then txn_manager_remove_snapshot_unlocked t m else Some m) = Some m1"
    and m2: "(if txn_copies_snapshot (snapshot_type (txns m t)) (Some p) then free_list t m1 else Some m1) = Some m2"
    and m3: "finish_child_txn t m2 = Some m'"
    using assms by (auto simp: toku_txn_complete_txn_def bind_eq_Some_conv
        toku_txn_manager_handle_snapshot_destroy_for_child_txn_def Let_def)
  have "last_xid m1 = last_xid m" using m1 remove_snapshot_last by (auto split: if_splits)
  moreover have "last_xid m2 = last_xid m1" using m2 free_list_last by (auto split: if_splits)
  moreover have "last_xid m' = last_xid m2"
    using m3 by (auto simp: finish_child_txn_def upd_txn_def bind_eq_Some_conv)
  ultimately show ?thesis by simp
qed

lemma log_begin_frame:
  "maybe_log_begin_txn_for_write_operation_unlocked u m = Some m' \<Longrightarrow>
     last_xid m' = last_xid m \<and> live_root_ids m' = live_root_ids m"
proof (induction rule: maybe_log_begin_txn_for_write_operation_unlocked.raw_induct [rotated, consumes 1, case_names log])
  case (log f u m m')
  then show ?case
    by (auto simp: bind_eq_Some_conv upd_txn_def split: if_splits option.splits)
qed

subsection \<open>Steps and runs\<close>

lemma complete_later:
  assumes S: "mgr_wf m A S" "mgr_wf m' (A - {t}) S'" and c: "toku_txn_complete_txn dbg t m = Some m'"
    and core: "\<And>u. u \<in> A \<Longrightarrow> same_core (txns m u) (txns m' u)" "\<And>u. u \<in> set S' \<Longrightarrow> abs_snap m' u = abs_snap m u"
    and rm: "txn_parent (txns m t) = None \<Longrightarrow> room (last_xid m)"
  shows "later_state A m (A - {t}) m'"
proof -
  have "last_xid m \<le> last_xid m'"
    using complete_last [OF c] roomD [OF rm] word_less_add_1 [of "last_xid m"] by (auto intro: less_imp_le)
  moreover have "later_snap A m (abs_snap m' u)" if "u \<in> A - {t}" "records (txns m' u)" for u
  proof -
    have "u \<in> set S'" using S(2) that by (simp add: mgr_wf_def)
    moreover have "records (txns m u)" using that same_coreD(11) [OF core(1)] by simp
    ultimately show ?thesis using core(2) that(1) unfolding later_snap_def by auto
  qed
  ultimately show ?thesis
    using live_root_ids_shrink [OF S _ core(1)] by (auto simp: later_state_def)
qed

lemma begun_later:
  assumes S: "mgr_wf m A S" "mgr_wf m' (insert t A) S'" and t: "t \<notin> A"
    and core: "\<And>u. u \<in> A \<Longrightarrow> same_core (txns m u) (txns m' u)" "\<And>u. u \<in> set S \<Longrightarrow> abs_snap m' u = abs_snap m u"
    and last: "last_xid m \<le> last_xid m'" and id: "txn_parent (txns m' t) = None \<Longrightarrow> last_xid m < rid m' t"
    and new: "records (txns m' t) \<Longrightarrow> last_xid m < sn_id (abs_snap m' t) \<and>
      set (sn_live (abs_snap m' t)) \<subseteq> set (live_root_ids m) \<union> younger m"
  shows "later_state A m (insert t A) m'"
proof -
  have "set (live_root_ids m') \<subseteq> set (live_root_ids m) \<union> younger m"
    unfolding live_root_ids_set [OF S(1)] live_root_ids_set [OF S(2)]
    using id same_coreD(1,4,9) [OF core(1)] by (auto simp: younger_def image_iff)
  moreover have "later_snap A m (abs_snap m' u)" if "u \<in> insert t A" "records (txns m' u)" for u
  proof (cases "u = t")
    case True
    then show ?thesis using new that(2) by (simp add: later_snap_def)
  next
    case False
    then have u: "u \<in> A" "records (txns m u)" using that same_coreD(11) [OF core(1), of u] by auto
    then have "u \<in> set S" using S(1) by (simp add: mgr_wf_def)
    then show ?thesis using core(2) u by (auto simp: later_snap_def)
  qed
  ultimately show ?thesis using last by (auto simp: later_state_def)
qed

lemma step_later:
  assumes "mgr_step dbg (E, A, m) (E', A', m')" "run_inv E A m"
  shows "later_state A m A' m'"
proof -
  obtain S where S: "mgr_wf m A S" "mv_inv E (rid m ` A) (abs_mgr m S)"
    using run_invD [OF assms(2)] by metis
  show ?thesis
    using assms(1)
  proof (cases rule: mgr_step_elim [consumes 1, case_names 1 2 3 4 5])
    case (1 u ty ro)
    have lt: "last_xid m < last_xid m + 1" "last_xid m + 1 < last_xid m + 2"
      using roomD [OF 1(2)] word_less_add_1 [of "last_xid m"] word_less_add_1 [of "last_xid m + 1"]
      by (auto simp: add.assoc)
    obtain m1 S1 where m1: "toku_txn_begin_txn None u ty ro m = Some (Inr m1)" "mgr_wf m1 (insert u A) S1"
      "mv_inv E (rid m1 ` insert u A) (abs_mgr m1 S1)" "\<And>v. v \<in> A \<Longrightarrow> same_core (txns m v) (txns m1 v)"
      "rid m1 u = last_xid m + 1" "\<And>v. v \<in> set S \<Longrightarrow> abs_snap m1 v = abs_snap m v"
      "txn_records_snapshot ty None \<Longrightarrow> abs_snap m1 u = \<lparr>sn_id = last_xid m + 2, sn_root = last_xid m + 1,
         sn_live = (if ro then live_root_ids m else live_root_ids m @ [last_xid m + 1])\<rparr>"
      "records (txns m1 u) \<longleftrightarrow> txn_records_snapshot ty None"
      using begin_root_refines [OF S 1(1,2), of ty ro] by metis
    have eq: "m' = m1" using 1 m1(1) by simp
    have "rid m1 u \<le> last_xid m1" using mv_invD(3) [OF m1(3), of "rid m1 u"] by simp
    then have "later_state A m (insert u A) m1"
      using m1(5,7,8) lt
      by (intro begun_later [OF S(1) m1(2) 1(1) m1(4,6)]) (auto simp: younger_def)
    then show ?thesis using 1 eq by simp
  next
    case (2 u p ty)
    let ?ro = "declared_read_only (txns m p)"
    have lt: "last_xid m < last_xid m + 1"
      using roomD [OF 2(4)] word_less_add_1 [of "last_xid m"] by auto
    have "\<not> ?ro \<longrightarrow> length (txn_xids (txns m p)) < MAX_NESTED_TRANSACTIONS"
      using begin_child_nesting [OF 2(6)] by simp
    then obtain m1 S1 where m1: "toku_txn_begin_txn (Some p) u ty ?ro m = Some (Inr m1)" "mgr_wf m1 (insert u A) S1"
      "\<And>v. v \<in> A \<Longrightarrow> same_core (txns m v) (txns m1 v)" "txn_parent (txns m1 u) = Some p"
      "\<And>v. v \<in> set S \<Longrightarrow> abs_snap m1 v = abs_snap m v"
      "records (txns m1 u) \<Longrightarrow> abs_snap m1 u = \<lparr>sn_id = last_xid m + 1, sn_root = rid m p, sn_live = live_root_ids m\<rparr>"
      "last_xid m1 = (if records (txns m1 u) then last_xid m + 1 else last_xid m)"
      using begin_child_refines [OF S 2(1-4), of ?ro] by metis
    have eq: "m' = m1" using 2 m1(1) by simp
    have "later_state A m (insert u A) m1"
      using m1(4,6,7) lt by (intro begun_later [OF S(1) m1(2) 2(1) m1(3,5)]) auto
    then show ?thesis using 2 eq by simp
  next
    case (3 u)
    then show ?thesis
      using log_begin_frame [OF 3(3)] log_begin_snap [OF 3(3)] by (auto simp: later_state_def later_snap_def)
  next
    case (4 u p)
    obtain m1 S1 where m1: "toku_txn_complete_txn dbg u m = Some m1" "mgr_wf m1 (A - {u}) S1"
      "\<And>v. v \<in> A \<Longrightarrow> same_core (txns m v) (txns m1 v)" "\<And>v. v \<in> set S1 \<Longrightarrow> abs_snap m1 v = abs_snap m v"
      using complete_child_refines [OF S 4(1,6)] 4(2) by metis
    have "m' = m1" using 4(3) m1(1) by simp
    then show ?thesis using complete_later [OF S(1) m1(2,1,3,4)] 4 by simp
  next
    case (5 u)
    obtain m1 S1 where m1: "toku_txn_complete_txn dbg u m = Some m1" "mgr_wf m1 (A - {u}) S1"
      "\<And>v. v \<in> A \<Longrightarrow> same_core (txns m v) (txns m1 v)" "\<And>v. v \<in> set S1 \<Longrightarrow> abs_snap m1 v = abs_snap m v"
      using complete_root_refines [OF S 5(1-3)] 5(4) by metis
    have "m' = m1" using 5(5) m1(1) by simp
    then show ?thesis using complete_later [OF S(1) m1(2,1,3,4)] 5 by simp
  qed
qed

lemma run_later:
  assumes "(mgr_step dbg)\<^sup>*\<^sup>* (E, A, m) (E', A', m')" "reachable dbg (E, A, m)"
  shows "reachable dbg (E', A', m') \<and> later_state A m A' m'"
  using assms(1)
proof (induction "(E', A', m')" arbitrary: E' A' m' rule: rtranclp_induct)
  case base
  then show ?case using assms(2) later_state_refl by auto
next
  case (step s)
  obtain E1 A1 m1 where s: "s = (E1, A1, m1)" by (cases s)
  have IH: "reachable dbg (E1, A1, m1)" "later_state A m A1 m1" using step.hyps(3) s by auto
  then show ?case
    using step_later [OF step.hyps(2) [unfolded s] reachable_inv [OF IH(1)]] later_state_trans reachable_step step.hyps(2) s
    by blast
qed

end
