(* ===== verification/Gc_Safe.thy ===== *)
theory Gc_Safe
  imports Ule_Gc Txn_Later
begin

text \<open>
  Garbage collection and the transaction manager together. The manager's reachable states satisfy
  \<open>gc_contract\<close>, where the readers are the snapshots that exist or may be taken later; hence
  collecting the garbage of a leaf entry, or applying a message to it, changes nothing that any of
  these snapshots reads.
\<close>

subsection \<open>The manager provides what the collector relies on\<close>

type_synonym mgr_state = "ended \<times> TOKUTXN set \<times> txn_manager"

fun mgr_ok :: "mgr_state \<Rightarrow> bool" where
  "mgr_ok (E, A, m) = run_inv E A m"

fun mgr_clone :: "mgr_state \<Rightarrow> txn_gc_state option" where
  "mgr_clone (E, A, m) = toku_txn_manager_clone_state_for_gc m"

fun mgr_live :: "mgr_state \<Rightarrow> TXNID set" where
  "mgr_live (E, A, m) = set (live_root_ids m)"

text \<open>The ids that records in the tree can carry: live root transactions, and ended ones that wrote.\<close>

fun mgr_known :: "mgr_state \<Rightarrow> TXNID set" where
  "mgr_known (E, A, m) = (set (live_root_ids m) \<union> fst E) - {TXNID_NONE}"

definition snap_accepts :: "snap \<Rightarrow> TXNID \<Rightarrow> bool" where
  "snap_accepts s x \<longleftrightarrow> x = sn_root s \<or> (x \<le> sn_id s \<and> x \<notin> set (sn_live s))"

fun mgr_readers :: "mgr_state \<Rightarrow> (TXNID \<times> (TXNID \<Rightarrow> bool)) set" where
  "mgr_readers (E, A, m) = {(sn_id s, snap_accepts s) |s. later_snap A m s}"

fun mgr_oldest :: "mgr_state \<Rightarrow> TXNID" where
  "mgr_oldest (E, A, m) = toku_txn_manager_get_oldest_referenced_xid_estimate m"

lemma future_accepts:
  assumes "mv_inv E (rid m ` A) (abs_mgr m S)" "last_xid m < sn_id s"
    and "set (sn_live s) \<subseteq> set (live_root_ids m) \<union> younger m" "x \<in> set (live_root_ids m) \<union> fst E"
  shows "x < sn_id s" "x \<notin> set (live_root_ids m) \<Longrightarrow> snap_accepts s x"
proof -
  have "x \<le> last_xid m"
    using mv_invD(2,3,8) [OF assms(1)] assms(4) by (auto simp: ended_ok_def)
  then show "x < sn_id s" "x \<notin> set (live_root_ids m) \<Longrightarrow> snap_accepts s x"
    using assms(2,3) by (auto simp: snap_accepts_def younger_def)
qed

lemma recorded_snap:
  assumes "mgr_wf m A S" "t \<in> A" "records (txns m t)"
  shows "abs_snap m t \<in> set (mv_snaps (abs_mgr m S))" "sid m t \<in> set (map (sid m) S)"
  using assms by (auto simp: mgr_wf_def)

lemma abs_snap_sel [simp]: "sn_id (abs_snap m t) = sid m t" "sn_root (abs_snap m t) = rid m t"
  by (simp_all add: abs_snap_def)

text \<open>A transaction with a tuple ended, and is read exactly by the snapshots after its end.\<close>

lemma shared_law:
  assumes S: "mgr_wf m A S" "mv_inv E (rid m ` A) (abs_mgr m S)" and t: "t \<in> set (referenced_xids m)"
  obtains y where
    "toku_get_youngest_live_list_txnid_for (begin_id t) (map (sid m) S) (referenced_xids m) = Some y"
    "y \<noteq> TXNID_NONE" "y \<in> set (map (sid m) S)" "begin_id t < y"
    "\<And>s. later_snap A m s \<Longrightarrow> snap_accepts s (begin_id t) \<longleftrightarrow> y < sn_id s"
proof -
  note i = mv_invD [OF S(2), simplified]
  let ?x = "begin_id t"
  have to: "tuple_ok (rid m ` A) (abs_mgr m S) t" using i(7) [OF t] .
  have "0 < length (filter (\<lambda>s. ?x \<in> set (sn_live s)) (map (abs_snap m) S))" using to unfolding tuple_ok_def by (metis abs_mgr_sel(2))
  then obtain s0 where s0: "s0 \<in> set S" "?x \<in> set (sn_live (abs_snap m s0))"
    by (auto simp: filter_empty_conv simp flip: length_greater_0_conv)
  have law: "(?x \<in> set (sn_live (abs_snap m u)) \<longleftrightarrow> ?x < sid m u \<and> sid m u < end_id t) \<and> ?x \<noteq> sid m u" if "u \<in> set S" for u
    using to that by (auto simp: tuple_ok_def)
  have sx: "sorted_by (\<lambda>y. y) (map (sid m) S)" using i(4) by (simp add: sorted_by_map comp_def)
  obtain y where y: "toku_get_youngest_live_list_txnid_for ?x (map (sid m) S) (referenced_xids m) = Some y"
    "y \<in> set (map (sid m) S)" "?x < y" "y < end_id t" "\<And>w. w \<in> set (map (sid m) S) \<Longrightarrow> w < end_id t \<Longrightarrow> w \<le> y"
    by (rule youngest_tuple [OF i(6) t sx, of "sid m s0"]) (use s0 law in auto)
  have x: "?x \<in> fst E" "?x \<notin> rid m ` A" "?x \<notin> set (live_root_ids m)" "end_id t \<le> last_xid m"
    using i(2,9) t to by (auto simp: tuple_ok_def)
  have "snap_accepts s ?x \<longleftrightarrow> y < sn_id s" if s: "later_snap A m s" for s
  proof (cases "\<exists>u\<in>A. records (txns m u) \<and> s = abs_snap m u")
    case True
    then obtain u where u: "u \<in> A" "u \<in> set S" "s = abs_snap m u" using S(1) by (auto simp: mgr_wf_def)
    have "?x \<noteq> rid m u" using x(2) u(1) by auto
    then have "snap_accepts s ?x \<longleftrightarrow> end_id t \<le> sid m u"
      using law [OF u(2)] u(3) to by (auto simp: snap_accepts_def tuple_ok_def)
    also have "\<dots> \<longleftrightarrow> y < sid m u" using y(4) y(5) [of "sid m u"] u(2) by (auto simp: linorder_not_le [symmetric])
    finally show ?thesis using u(3) by simp
  next
    case False
    then have "last_xid m < sn_id s" "set (sn_live s) \<subseteq> set (live_root_ids m) \<union> younger m"
      using s by (auto simp: later_snap_def)
    then show ?thesis using future_accepts(2) [OF S(2)] x y(4) by auto
  qed
  moreover have "y \<noteq> TXNID_NONE" using y(3) by (auto simp: TXNID_NONE_def)
  ultimately show ?thesis using that [OF y(1) _ y(2,3)] by blast
qed

text \<open>Without a tuple, an ended transaction is read exactly by the snapshots taken after it began.\<close>

lemma unshared_law:
  assumes S: "mgr_wf m A S" "mv_inv E (rid m ` A) (abs_mgr m S)" and x: "x \<notin> begin_id ` set (referenced_xids m)"
    and "x \<in> set (live_root_ids m) \<union> fst E" and s: "later_snap A m s"
  shows "snap_accepts s x \<Longrightarrow> x \<le> sn_id s" "x \<notin> set (live_root_ids m) \<Longrightarrow> snap_accepts s x \<longleftrightarrow> x \<le> sn_id s"
proof -
  note i = mv_invD [OF S(2), simplified]
  have "(snap_accepts s x \<longrightarrow> x \<le> sn_id s) \<and> (x \<notin> set (live_root_ids m) \<longrightarrow> (snap_accepts s x \<longleftrightarrow> x \<le> sn_id s))"
  proof (cases "\<exists>u\<in>A. records (txns m u) \<and> s = abs_snap m u")
    case True
    then obtain u where u: "u \<in> A" "u \<in> set S" "s = abs_snap m u" using S(1) by (auto simp: mgr_wf_def)
    have so: "snap_ok (rid m ` A) (abs_mgr m S) s" using i(5) u by auto
    then have "sn_root s \<le> sn_id s" by (auto simp: snap_ok_def intro: less_imp_le)
    moreover have "x \<noteq> sn_root s \<and> x \<notin> set (sn_live s)" if "x \<notin> set (live_root_ids m)"
    proof -
      have "ended_ok (rid m ` A) (abs_mgr m S) x" using i(8) assms(4) that by auto
      then show ?thesis using x u by (auto simp: ended_ok_def)
    qed
    ultimately show ?thesis by (auto simp: snap_accepts_def)
  next
    case False
    then have "last_xid m < sn_id s" "set (sn_live s) \<subseteq> set (live_root_ids m) \<union> younger m"
      using s by (auto simp: later_snap_def)
    from future_accepts [OF S(2) this assms(4)] show ?thesis by (auto intro: less_imp_le)
  qed
  then show "snap_accepts s x \<Longrightarrow> x \<le> sn_id s" "x \<notin> set (live_root_ids m) \<Longrightarrow> snap_accepts s x \<longleftrightarrow> x \<le> sn_id s"
    by auto
qed

lemma oldest_accepted:
  assumes S: "mgr_wf m A S" "mv_inv E (rid m ` A) (abs_mgr m S)"
    and "x \<in> set (live_root_ids m) \<union> fst E" "x < last_calculated_oldest_referenced_xid m" and s: "later_snap A m s"
  shows "snap_accepts s x"
proof -
  note i = mv_invD [OF S(2), simplified]
  have mn: "x < mv_min (abs_mgr m S)" using i(10) assms(4) by (auto simp: abs_mgr_def dest: less_le_trans)
  then have lt: "x \<notin> set (live_root_ids m)" "x \<notin> begin_id ` set (referenced_xids m)" "\<And>u. u \<in> set S \<Longrightarrow> x < sid m u"
    using mv_min_le_iff [of "mv_min (abs_mgr m S)" "abs_mgr m S"] by (auto dest: less_le_trans)
  have "x \<le> sn_id s"
  proof (cases "\<exists>u\<in>A. records (txns m u) \<and> s = abs_snap m u")
    case True
    then show ?thesis using lt(3) S(1) by (auto simp: mgr_wf_def intro: less_imp_le)
  next
    case False
    then have "last_xid m < sn_id s" "set (sn_live s) \<subseteq> set (live_root_ids m) \<union> younger m"
      using s by (auto simp: later_snap_def)
    then show ?thesis using future_accepts(1) [OF S(2) _ _ assms(3)] by (auto intro: less_imp_le)
  qed
  then show ?thesis using unshared_law(2) [OF S lt(2) assms(3) s lt(1)] by simp
qed

interpretation mgr: gc_contract mgr_ok mgr_clone mgr_live mgr_known mgr_readers mgr_oldest
proof
  fix s :: mgr_state and g x r acc
  obtain E A m where s: "s = (E, A, m)" by (cases s)
  assume "mgr_ok s"
  then have "run_inv E A m" using s by simp
  then obtain S where S: "mgr_wf m A S" "mv_inv E (rid m ` A) (abs_mgr m S)" using run_invD by metis
  note i = mv_invD [OF S(2), simplified]
  have cl: "mgr_clone s = Some \<lparr>snapshot_xids = map (sid m) S, gc_referenced_xids = referenced_xids m,
      gc_live_root_txns = live_root_ids m\<rparr>"
    using clone_state_eq [OF S(1)] s by simp
  then show "\<exists>g. mgr_clone s = Some g" by blast
  show "x \<noteq> TXNID_NONE" if "x \<in> mgr_known s" using that s by simp
  show "acc x" if "x \<in> mgr_known s" "x < mgr_oldest s" "(r, acc) \<in> mgr_readers s"
    using that s oldest_accepted [OF S, of x] by (auto simp: toku_txn_manager_get_oldest_referenced_xid_estimate_def)
  assume g: "mgr_clone s = Some g"
  have sx: "snapshot_xids g = map (sid m) S" "gc_referenced_xids g = referenced_xids m" "gc_live_root_txns g = live_root_ids m"
    using cl g by auto
  show "sorted_by (\<lambda>x. x) (snapshot_xids g)" using i(4) sx by (simp add: sorted_by_map comp_def)
  assume x: "x \<in> mgr_known s"
  show "toku_is_txn_in_live_root_txn_list (gc_live_root_txns g) x = Some (x \<in> mgr_live s)"
    using toku_is_txn_in_live_root_txn_list_iff [OF i(1), of x] sx s by simp
  show "r \<in> set (snapshot_xids g) \<and> r \<noteq> TXNID_NONE" if r: "(r, acc) \<in> mgr_readers s" "r < x"
  proof -
    obtain sn where sn: "later_snap A m sn" "r = sn_id sn" using r s by auto
    have kn: "x \<in> set (live_root_ids m) \<union> fst E" using x s by simp
    have "\<exists>u\<in>A. records (txns m u) \<and> sn = abs_snap m u"
      using sn r(2) future_accepts(1) [OF S(2) _ _ kn, of sn] by (auto simp: later_snap_def)
    then obtain u where u: "u \<in> A" "u \<in> set S" "sn = abs_snap m u" using S(1) by (auto simp: mgr_wf_def)
    have "rid m u < sid m u" using i(5) [of sn] u by (auto simp: snap_ok_def)
    then show ?thesis using u sn(2) sx by (auto simp: TXNID_NONE_def)
  qed
  show "\<exists>y. toku_get_youngest_live_list_txnid_for x (snapshot_xids g) (gc_referenced_xids g) = Some y \<and>
      (if y \<noteq> TXNID_NONE
       then y \<in> set (snapshot_xids g) \<and> x < y \<and> (\<forall>(r, acc) \<in> mgr_readers s. acc x \<longleftrightarrow> y < r)
       else if x \<in> mgr_live s then \<forall>(r, acc) \<in> mgr_readers s. acc x \<longrightarrow> x \<le> r
       else \<forall>(r, acc) \<in> mgr_readers s. acc x \<longleftrightarrow> x \<le> r)"
  proof (cases "x \<in> begin_id ` set (referenced_xids m)")
    case True
    then obtain t where t: "t \<in> set (referenced_xids m)" "x = begin_id t" by auto
    obtain y where "toku_get_youngest_live_list_txnid_for (begin_id t) (map (sid m) S) (referenced_xids m) = Some y"
      "y \<noteq> TXNID_NONE" "y \<in> set (map (sid m) S)" "begin_id t < y"
      "\<And>s. later_snap A m s \<Longrightarrow> snap_accepts s (begin_id t) \<longleftrightarrow> y < sn_id s"
      using shared_law [OF S t(1)] by metis
    then show ?thesis using s sx t(2) by auto
  next
    case False
    have kn: "x \<in> set (live_root_ids m) \<union> fst E" using x s by simp
    show ?thesis
      using youngest_none [OF i(6) False, of "map (sid m) S"] unshared_law [OF S False kn] s sx by auto
  qed
qed

subsection \<open>Reading a packed entry\<close>

text \<open>An absent entry reads as deleted.\<close>

definition entry_read :: "byte list option \<Rightarrow> le_callback \<Rightarrow> (ft_error + byte list option \<times> 32 word) option" where
  "entry_read e f = (case e of None \<Rightarrow> Some (Inr (None, 0)) | Some le \<Rightarrow> le_iterate_val le f)"

definition ule_ok :: "ule \<Rightarrow> bool" where
  "ule_ok u \<longleftrightarrow> slots_ok u \<and> vs_ok (abs_ule u)"

lemma ule_ok_cap:
  assumes "ule_ok u"
  shows "ule_wf (u\<lparr>uxrs_cap := num_cuxrs u + MAX_TRANSACTION_RECORDS\<rparr>)" "abs_ule (u\<lparr>uxrs_cap := k\<rparr>) = abs_ule u"
    "has_insert (u\<lparr>uxrs_cap := k\<rparr>) = has_insert u"
  using assms by (simp_all add: ule_ok_def ule_wf_def slots_ok_def abs_ule_def cstack_def pstack_def has_insert_def)

lemma le_pack_cap: "le_pack (u\<lparr>uxrs_cap := k\<rparr>) = le_pack u"
proof -
  have "le_memsize_from_ule (u\<lparr>uxrs_cap := k\<rparr>) = le_memsize_from_ule u"
    by (simp add: le_memsize_from_ule_def ule_get_innermost_uxr_def Let_def cong: if_cong)
  then show ?thesis by (simp add: le_pack_def pack_mvcc_def cong: if_cong)
qed

lemma repr_ule_ok: "repr u cap cs ps \<Longrightarrow> vs_ok (cs, ps) \<Longrightarrow> ule_ok u \<and> abs_ule u = (cs, ps)"
  by (simp add: ule_ok_def repr_iff)

lemma newest_read_in: "rs \<noteq> [] \<Longrightarrow> newest_read acc rs \<in> snd ` set rs"
proof (induction rs)
  case (Cons r rs)
  then show ?case by (cases "rs = []") (auto simp: newest_read_Cons)
qed simp

lemma stack_read_in: "cs \<noteq> [] \<Longrightarrow> stack_read acc (cs, ps) \<in> snd ` set (cs @ ps)"
  using newest_read_in [of "rev cs" acc] by (auto simp: cs_read_def)

lemma entry_read_pack:
  assumes "ule_ok u" "num_cuxrs u < 2 ^ 32"
  obtains e where "le_pack u = Some e"
    "\<And>acc. entry_read e (accepting acc) = Some (Inr (val_result (stack_read acc (abs_ule u))))"
proof -
  let ?u = "u\<lparr>uxrs_cap := num_cuxrs u + MAX_TRANSACTION_RECORDS\<rparr>"
  note wf = ule_ok_cap [OF assms(1)]
  have ne: "cstack u \<noteq> []" using assms(1) by (auto simp: ule_ok_def abs_ule_def)
  obtain e where e: "le_pack u = Some e" using le_pack_returns [OF wf(1)] le_pack_cap by metis
  have "entry_read e (accepting acc) = Some (Inr (val_result (stack_read acc (abs_ule u))))" for acc
  proof (cases e)
    case None
    then have "\<not> has_insert u" using e le_pack_returns [OF wf(1)] le_pack_cap wf(3) by (auto split: if_splits)
    then have "\<forall>r\<in>set (cstack u @ pstack u). \<not> is_Ins (snd r)"
      using has_insert_stack assms(1) by (auto simp: ule_ok_def)
    then have "\<not> is_Ins (stack_read acc (cstack u, pstack u))"
      using stack_read_in [OF ne, of acc "pstack u"] by (metis imageE)
    then show ?thesis
      using None by (simp add: entry_read_def abs_ule_def val_result_def is_Ins_iff del: stack_read.simps split: xval.split)
  next
    case (Some le)
    have "num_cuxrs ?u < 2 ^ 32" using assms(2) by simp
    moreover have "le_pack ?u = Some (Some le)" using e Some by (simp add: le_pack_cap)
    ultimately have "le_iterate_val le (accepting acc) = map_option (map_sum (\<lambda>e. e) val_result) (vs_read (accepting acc) (abs_ule ?u))"
      by (rule le_iterate_val_pack(1) [OF wf(1)])
    also have "vs_read (accepting acc) (abs_ule ?u) = Some (Inr (stack_read acc (abs_ule u)))"
      unfolding wf(2) unfolding abs_ule_def by (rule vs_read_accepting [OF ne])
    finally show ?thesis using Some by (simp add: entry_read_def)
  qed
  then show ?thesis using that e by blast
qed

lemma ule_packed_memsize_returns:
  assumes "ule_ok u"
  shows "\<exists>n. ule_packed_memsize u = Some n"
proof -
  note wf = wf_slots [OF ule_ok_cap(1) [OF assms], simplified]
  show ?thesis
  proof (cases "num_cuxrs u = 1 \<and> num_puxrs u = 0")
    case True
    have "uxr_ok (uxrs u 0)" using assms wf(2) by (simp add: ule_ok_def slots_ok_def)
    then have "uxr_is_delete (uxrs u 0) \<or> uxr_is_insert (uxrs u 0)" using wf(2,5) by (auto simp: uxr_ok_def)
    then show ?thesis
      using True by (auto simp: ule_packed_memsize_def ule_get_innermost_uxr_def le_memsize_from_ule_def)
  next
    case False
    have "le_memsize_from_ule u = Some (length (pack_mvcc u))"
      using assms wf(2) False by (intro le_memsize_mvcc) (auto simp: ule_ok_def)
    then show ?thesis using False by (auto simp: ule_packed_memsize_def)
  qed
qed

lemma innermost_numbytes_returns:
  assumes "ule_ok u"
  shows "\<exists>n. ule_get_innermost_numbytes u keylen = Some n"
  using wf_slots(2) [OF ule_ok_cap(1) [OF assms]] by (simp add: ule_get_innermost_numbytes_def ule_get_innermost_uxr_def)

text \<open>The transaction ids of a stack that a reader or the collector asks about.\<close>

fun outer_ids :: "vstack \<Rightarrow> TXNID set" where
  "outer_ids (cs, ps) = fst ` set (tl cs) \<union> (if ps = [] then {} else {fst (hd ps)})"

lemma tl_append_ids: "cs \<noteq> [] \<Longrightarrow> set (tl (cs @ ds)) = set (tl cs) \<union> set ds"
  by simp

lemma vs_implicit_outer:
  assumes "cs \<noteq> []"
  shows "outer_ids (vs_implicit xids (cs, ps)) \<subseteq> outer_ids (cs, ps)" "fst (vs_implicit xids (cs, ps)) \<noteq> []"
proof -
  let ?n = "lcp_length xids (map fst ps)"
  have "fst (hd (take k ps @ [(fst (ps ! k), v)])) = fst (hd ps)" if "k < length ps" for k v
    using that by (cases k; cases ps) auto
  moreover have "?n - 1 < length ps" if "ps \<noteq> []" "0 < ?n" using lcp_length_le(2) [of xids "map fst ps"] that by simp
  ultimately show "outer_ids (vs_implicit xids (cs, ps)) \<subseteq> outer_ids (cs, ps)"
    using assms by (auto simp: Let_def)
  show "fst (vs_implicit xids (cs, ps)) \<noteq> []" using assms by (auto simp: Let_def)
qed

lemma vs_write_outer:
  assumes "cs \<noteq> []" "matches xids ps" "xids = [] \<longrightarrow> length cs = 1"
  shows "outer_ids (vs_write xids v (cs, ps)) \<subseteq> outer_ids (cs, ps) \<union> set (take 1 xids)"
proof (cases xids)
  case Nil
  then show ?thesis using assms(3) by (cases cs) auto
next
  case (Cons x xs)
  then have "hd (map fst (prepared xids ps @ [(last xids, v)])) = x"
    using take_prepared_fst [OF assms(2)] by (cases xs) auto
  then have "fst (hd (prepared xids ps @ [(last xids, v)])) = x" by (metis hd_map snoc_eq_iff_butlast)
  then show ?thesis using Cons by auto
qed

lemma strip_holds_hd: "strip_holds ps \<noteq> [] \<Longrightarrow> hd (strip_holds ps) = hd ps"
proof -
  have "\<exists>qs. ps = strip_holds ps @ qs"
    unfolding strip_holds_def by (metis rev_append rev_rev_ident takeWhile_dropWhile_id)
  then show "strip_holds ps \<noteq> [] \<Longrightarrow> hd (strip_holds ps) = hd ps" by (metis hd_append2)
qed

lemma vs_abort_outer: "outer_ids (vs_abort xids (cs, ps)) \<subseteq> outer_ids (cs, ps)"
proof -
  have "hd (strip_holds (butlast ps)) = hd ps \<and> ps \<noteq> []" if "strip_holds (butlast ps) \<noteq> []"
  proof -
    have "butlast ps \<noteq> []" using that by (auto simp: strip_holds_def)
    then show ?thesis using strip_holds_hd [OF that] by (cases ps) auto
  qed
  then show ?thesis by auto
qed

lemma vs_commit_outer:
  assumes "cs \<noteq> []"
  shows "outer_ids (vs_commit xids (cs, ps)) \<subseteq> outer_ids (cs, ps)"
proof -
  have "fst (hd (take (length ps - 2) ps @ [(fst (ps ! (length ps - 2)), v)])) = fst (hd ps)" if "2 \<le> length ps" for v
    using that by (cases "length ps - 2"; cases ps) auto
  moreover have "2 \<le> length ps" if "ps \<noteq> []" "length ps \<noteq> 1" using that by (cases ps; cases "tl ps") auto
  ultimately show ?thesis using assms by auto
qed

lemma vs_modify_outer:
  assumes "vs_ok (cs, ps)" "msg_applicable m (cs, ps)"
  shows "outer_ids (vs_modify (msg_type m) (msg_xids m) (msg_val m) (cs, ps)) \<subseteq> outer_ids (cs, ps) \<union> set (take 1 (msg_xids m))"
proof -
  let ?x = "msg_xids m"
  obtain cs' ps' where s: "vs_implicit ?x (cs, ps) = (cs', ps')" by fastforce
  have ne: "cs \<noteq> []" using assms(1) by simp
  note im = vs_implicit_outer [OF ne, of ?x ps, unfolded s fst_conv]
  have w: "outer_ids (vs_write ?x v (cs', ps')) \<subseteq> outer_ids (cs, ps) \<union> set (take 1 ?x)"
    if "?x = [] \<longrightarrow> ps = [] \<and> length cs = 1" for v
  proof -
    have "matches ?x ps'" using vs_implicit_matches [of ps ?x cs] s that by (auto simp del: vs_implicit.simps)
    moreover have "?x = [] \<longrightarrow> length cs' = 1"
      using that vs_implicit_lengths(2) [of ps ?x cs] s by (auto simp del: vs_implicit.simps)
    ultimately show ?thesis using vs_write_outer [OF im(2), of ?x ps' v] im(1) by blast
  qed
  have "outer_ids (vs_optimize ?x (cs, ps)) \<subseteq> outer_ids (cs, ps)" using ne by auto
  moreover have "outer_ids (vs_commit_all (cs', ps')) = {}" by simp
  moreover have "outer_ids (cs', ps') \<subseteq> outer_ids (cs, ps)" by (rule im(1))
  ultimately show ?thesis
    using assms(2) w s vs_abort_outer [of ?x cs' ps'] vs_commit_outer [OF im(2), of ?x ps']
    by (cases "msg_type m")
      (auto simp: Let_def simp del: vs_implicit.simps vs_write.simps vs_abort.simps vs_commit.simps vs_optimize.simps
         vs_commit_all.simps outer_ids.simps split: xval.split)
qed

lemma vs_modify_length:
  assumes "vs_ok (cs, ps)"
  shows "length (fst (vs_modify ty xids v (cs, ps))) \<le> length cs + 1"
proof -
  let ?n = "lcp_length xids (map fst ps)"
  obtain cs' ps' where s: "vs_implicit xids (cs, ps) = (cs', ps')" by fastforce
  have l: "length cs' \<le> length cs + 1" "ps' \<noteq> [] \<Longrightarrow> cs' = cs"
    using s by (auto simp: Let_def split: if_splits)
  have w: "length (fst (vs_write xids v (cs', ps'))) \<le> length cs + 1" for v
    using l(1) by auto
  have c: "length (fst (vs_commit xids (cs', ps'))) \<le> length cs + 1" using l by auto
  have "length (fst (vs_abort xids (cs', ps'))) \<le> length cs + 1" "length (fst (vs_commit_all (cs', ps'))) \<le> length cs + 1"
    "length (fst (vs_optimize xids (cs, ps))) \<le> length cs + 1" using l by auto
  then show ?thesis
    using s l(1) w c
    by (cases ty) (auto simp: Let_def simp del: vs_implicit.simps vs_write.simps vs_abort.simps vs_commit.simps vs_optimize.simps
         vs_commit_all.simps split: xval.split)
qed

subsection \<open>The entry points under the contract\<close>

text \<open>\<open>stores e s\<close>: the entry \<open>e\<close>, absent or packed, holds the record stack \<open>s\<close>.\<close>

definition stores :: "byte list option \<Rightarrow> vstack \<Rightarrow> bool" where
  "stores e s \<longleftrightarrow>
     (case e of
        None \<Rightarrow> s = ([(TXNID_NONE, Del)], [])
      | Some le \<Rightarrow> \<exists>u. ule_wf u \<and> num_cuxrs u + 2 < 2 ^ 32 \<and> le_pack u = Some (Some le) \<and> abs_ule u = s)"

lemma stores_read:
  assumes "stores e s"
  shows "entry_read e (accepting acc) = Some (Inr (val_result (stack_read acc s)))"
proof (cases e)
  case None
  then show ?thesis using assms by (simp add: stores_def entry_read_def cs_read_def val_result_def)
next
  case (Some le)
  then obtain u where u: "ule_wf u" "num_cuxrs u + 2 < 2 ^ 32" "le_pack u = Some (Some le)" "abs_ule u = s"
    using assms by (auto simp: stores_def)
  have "ule_ok u" "num_cuxrs u < 2 ^ 32" using u(1,2) by (auto simp: ule_ok_def ule_wf_def)
  then obtain e' where "le_pack u = Some e'"
    "\<And>acc. entry_read e' (accepting acc) = Some (Inr (val_result (stack_read acc (abs_ule u))))"
    using entry_read_pack by metis
  then show ?thesis using u(3,4) Some by simp
qed

lemma stores_unpack:
  assumes "stores (Some le) s"
  obtains u where "le_unpack scratch le = Some u" "ule_wf u" "num_cuxrs u + 2 < 2 ^ 32" "abs_ule u = s"
    "leafentry_memsize le = Some (length le)"
proof -
  obtain v where v: "ule_wf v" "num_cuxrs v + 2 < 2 ^ 32" "le_pack v = Some (Some le)" "abs_ule v = s"
    using assms by (auto simp: stores_def)
  have small: "num_cuxrs v < 2 ^ 32" using v(2) by simp
  obtain u where "le_unpack scratch le = Some u" "num_cuxrs u = num_cuxrs v" "slots_ok u" "abs_ule u = abs_ule v"
    "num_cuxrs u + MAX_TRANSACTION_RECORDS \<le> uxrs_cap u"
    using le_unpack_pack [OF v(1) packed_has_insert [OF v(3)] small v(3)] by metis
  then show ?thesis
    using that v leafentry_memsize_pack [OF v(1) small v(3)] by (simp add: ule_wf_def)
qed

lemma ule_wf_repr_ids:
  assumes "ule_wf u" "abs_ule u = (cs, ps)"
  shows "repr u (uxrs_cap u) cs ps" "vs_ok (cs, ps)" "num_cuxrs u = length cs" "length cs + MAX_TRANSACTION_RECORDS \<le> uxrs_cap u"
proof -
  show r: "repr u (uxrs_cap u) cs ps" using assms by (simp add: ule_wf_def repr_iff)
  show "vs_ok (cs, ps)" using assms by (simp add: ule_wf_def)
  show "num_cuxrs u = length cs" using repr_lengths [OF r] by simp
  then show "length cs + MAX_TRANSACTION_RECORDS \<le> uxrs_cap u" using assms(1) by (simp add: ule_wf_def)
qed

text \<open>The last step of both entry points: packing and the byte count.\<close>

lemma finish_entry_returns:
  assumes "repr u cap cs ps" "vs_ok (cs, ps)" "length cs < 2 ^ 32"
  obtains e n where "le_pack u = Some e"
    "(case e of None \<Rightarrow> Some 0 | Some _ \<Rightarrow> do { n \<leftarrow> ule_get_innermost_numbytes u keylen; Some (sint64 n) }) = Some n"
    "\<And>acc. entry_read e (accepting acc) = Some (Inr (val_result (stack_read acc (cs, ps))))"
proof -
  have u: "ule_ok u" "abs_ule u = (cs, ps)" "num_cuxrs u < 2 ^ 32"
    using repr_ule_ok [OF assms(1,2)] repr_lengths [OF assms(1)] assms(3) by auto
  obtain e where e: "le_pack u = Some e"
    "\<And>acc. entry_read e (accepting acc) = Some (Inr (val_result (stack_read acc (cs, ps))))"
    using entry_read_pack [OF u(1,3)] u(2) by metis
  have "\<exists>n. (case e of None \<Rightarrow> Some 0 | Some _ \<Rightarrow> do { n \<leftarrow> ule_get_innermost_numbytes u keylen; Some (sint64 n) }) = Some n"
    using innermost_numbytes_returns [OF u(1), of keylen] by (cases e) auto
  then show ?thesis using that e by blast
qed

context gc_contract
begin

lemma garbage_collect_entry:
  assumes "ok s" "clone s = Some (st_state st)" "txn_state_for_gc info = Some st"
    and "stores (Some le) v" "outer_ids v \<subseteq> known s" "oldest_referenced_xid_for_implicit_promotion info \<le> oldest s"
  obtains e d where "toku_le_garbage_collect dbg scratch le keylen info = Some (e, d)"
    "\<And>r acc. (r, acc) \<in> readers s \<Longrightarrow> entry_read e (accepting acc) = entry_read (Some le) (accepting acc)"
proof -
  obtain u where u: "le_unpack scratch le = Some u" "ule_wf u" "num_cuxrs u + 2 < 2 ^ 32" "abs_ule u = v"
    "leafentry_memsize le = Some (length le)"
    using stores_unpack [OF assms(4)] by metis
  obtain cs ps where v: "v = (cs, ps)" by fastforce
  note r = ule_wf_repr_ids [OF u(2) u(4) [unfolded v]]
  obtain n0 where n0: "ule_get_innermost_numbytes u keylen = Some n0"
    using innermost_numbytes_returns u(2) by (metis ule_ok_def ule_wf_def)
  have ids: "fst ` set (tl cs) \<subseteq> known s" "ps \<noteq> [] \<Longrightarrow> fst (hd ps) \<in> known s" using assms(5) v by auto
  have "length cs < uxrs_cap u" using r(4) by simp
  then obtain u1 cs1 ps1 where u1: "ule_try_promote_provisional_outermost u (oldest_referenced_xid_for_implicit_promotion info) = Some u1"
    "repr u1 (uxrs_cap u) cs1 ps1" "vs_ok (cs1, ps1)" "length cs1 \<le> length cs + 1" "fst ` set (tl cs1) \<subseteq> known s"
    "\<And>r acc. (r, acc) \<in> readers s \<Longrightarrow> stack_read acc (cs1, ps1) = stack_read acc (cs, ps)"
    using ule_try_promote_reads [OF assms(1) r(1,2) _ assms(6) ids] by metis
  obtain u2 cs2 where u2: "ule_garbage_collect dbg u1 (snapshot_xids (st_state st)) (gc_referenced_xids (st_state st))
      (gc_live_root_txns (st_state st)) = Some u2" "repr u2 (uxrs_cap u) cs2 ps1" "vs_ok (cs2, ps1)" "length cs2 \<le> length cs1"
    "\<And>r acc. (r, acc) \<in> readers s \<Longrightarrow> cs_read acc cs2 = cs_read acc cs1"
    using ule_garbage_collect_reads [OF assms(1,2) u1(2,3,5)] by metis
  have one: "u2 = u1" if "\<not> num_cuxrs u1 > 1"
  proof -
    have "num_cuxrs u1 = 1" using that u1(3) repr_lengths [OF u1(2)] by (cases cs1) auto
    then show ?thesis using u2(1) by (simp add: ule_garbage_collect_def)
  qed
  obtain a b where ab: "ule_packed_memsize u1 = Some a" "ule_packed_memsize u2 = Some b"
    using ule_packed_memsize_returns repr_ule_ok u1(2,3) u2(2,3) by metis
  have small: "length cs2 < 2 ^ 32" using u2(4) u1(4) u(3) r(3) by linarith
  obtain e n where e: "le_pack u2 = Some e"
    "(case e of None \<Rightarrow> Some 0 | Some _ \<Rightarrow> do { n \<leftarrow> ule_get_innermost_numbytes u2 keylen; Some (sint64 n) }) = Some n"
    "\<And>acc. entry_read e (accepting acc) = Some (Inr (val_result (stack_read acc (cs2, ps1))))"
    using finish_entry_returns [OF u2(2,3) small] by metis
  have "(if num_cuxrs u1 > 1 then do {
            size_before_gc \<leftarrow> ule_packed_memsize u1;
            u \<leftarrow> ule_garbage_collect dbg u1 (snapshot_xids (st_state st)) (gc_referenced_xids (st_state st))
                   (gc_live_root_txns (st_state st));
            size_after_gc \<leftarrow> ule_packed_memsize u;
            Some u
          }
          else Some u1) = Some u2"
    using ab u2(1) one by auto
  then have "toku_le_garbage_collect dbg scratch le keylen info = Some (e, n - sint64 n0)"
    using assms(3) u(1,5) n0 u1(1) e(1,2) by (simp add: toku_le_garbage_collect_def)
  moreover have "entry_read e (accepting acc) = entry_read (Some le) (accepting acc)" if "(r, acc) \<in> readers s" for r acc
  proof -
    have "stack_read acc (cs2, ps1) = stack_read acc (cs1, ps1)" using u2(5) [OF that] by simp
    also have "\<dots> = stack_read acc (cs, ps)" by (rule u1(6) [OF that])
    finally show ?thesis using e(3) stores_read [OF assms(4)] v by simp
  qed
  ultimately show ?thesis using that by blast
qed

lemma maybe_garbage_collect_reads:
  assumes "ok s" "repr u cap cs ps" "vs_ok (cs, ps)" "fst ` set (tl cs) \<subseteq> known s"
    and "\<And>st. state = Some st \<Longrightarrow> (if initialized st then Some (st_state st)
        else toku_txn_manager_clone_state_for_gc (st_txn_manager st)) = clone s"
  obtains u' state' cs' where "maybe_garbage_collect dbg u state = Some (u', state')" "repr u' cap cs' ps" "vs_ok (cs', ps)"
    "length cs' \<le> length cs" "\<And>r acc. (r, acc) \<in> readers s \<Longrightarrow> cs_read acc cs' = cs_read acc cs"
proof (cases state)
  case None
  then show ?thesis using that [of u None cs] assms(2,3) by (simp add: maybe_garbage_collect_def)
next
  case (Some st)
  obtain g where g: "clone s = Some g" using clone_law [OF assms(1)] by blast
  obtain st' where st': "(if \<not> initialized st then txn_manager_state_init st else Some st) = Some st'" "st_state st' = g"
    using assms(5) [OF Some] g by (auto simp: txn_manager_state_init_def split: if_splits)
  obtain u2 cs2 where u2: "ule_garbage_collect dbg u (snapshot_xids g) (gc_referenced_xids g) (gc_live_root_txns g) = Some u2"
    "repr u2 cap cs2 ps" "vs_ok (cs2, ps)" "length cs2 \<le> length cs"
    "\<And>r acc. (r, acc) \<in> readers s \<Longrightarrow> cs_read acc cs2 = cs_read acc cs"
    using ule_garbage_collect_reads [OF assms(1) g assms(2-4)] by metis
  obtain a b where ab: "ule_packed_memsize u = Some a" "ule_packed_memsize u2 = Some b"
    using ule_packed_memsize_returns repr_ule_ok assms(2,3) u2(2,3) by metis
  let ?w = "num_cuxrs u > 1 \<and> (initialized st \<or> num_cuxrs u \<ge> ULE_MIN_STACK_SIZE_TO_FORCE_GC \<or> a \<ge> ULE_MIN_MEMSIZE_TO_FORCE_GC)"
  have "maybe_garbage_collect dbg u state = Some (if ?w then (u2, Some st') else (u, Some st))"
    using Some st' u2(1) ab by (auto simp: maybe_garbage_collect_def)
  then show ?thesis
    using that [of u2 "Some st'" cs2] that [of u "Some st" cs] u2(2-5) assms(2,3) by (cases ?w) auto
qed

lemma apply_msg_entry:
  assumes "ok s" "mvcc_needed info"
    and old: "oldest_referenced_xid_for_simple_gc info \<le> oldest s" "oldest_referenced_xid_for_implicit_promotion info \<le> oldest s"
    and st: "\<And>st. txn_state_for_gc info = Some st \<Longrightarrow> (if initialized st then Some (st_state st)
        else toku_txn_manager_clone_state_for_gc (st_txn_manager st)) = clone s"
    and v: "stores le v" "msg_applicable msg v" "outer_ids v \<subseteq> known s" "set (take 1 (msg_xids msg)) \<subseteq> known s"
  obtains e d info' where
    "toku_le_apply_msg dbg scratch msg le info = Some (e, vs_delta (msg_type msg) (msg_xids msg) v, d, info')"
    "\<And>r acc. (r, acc) \<in> readers s \<Longrightarrow> entry_read e (accepting acc) =
       Some (Inr (val_result (stack_read acc (vs_modify (msg_type msg) (msg_xids msg) (msg_val msg) v))))"
proof -
  let ?k = "of_nat (length (msg_key msg)) :: 32 word"
  let ?v = "vs_modify (msg_type msg) (msg_xids msg) (msg_val msg) v"
  have "\<exists>u n. (case le of
          None \<Rightarrow> Some (ule_init_empty_ule scratch, 0)
        | Some le \<Rightarrow> do { oldmemsize \<leftarrow> leafentry_memsize le; u \<leftarrow> le_unpack scratch le;
            n \<leftarrow> ule_get_innermost_numbytes u ?k; Some (u, sint64 n) }) = Some (u, n) \<and>
      ule_wf u \<and> num_cuxrs u + 2 < 2 ^ 32 \<and> abs_ule u = v"
  proof (cases le)
    case None
    then show ?thesis
      using v(1) empty_ule_wf(1) [of scratch] empty_ule_stack [of scratch] by (simp add: stores_def ule_init_empty_ule_def)
  next
    case (Some b)
    obtain u where u: "le_unpack scratch b = Some u" "ule_wf u" "num_cuxrs u + 2 < 2 ^ 32" "abs_ule u = v"
      "leafentry_memsize b = Some (length b)"
      using stores_unpack v(1) Some by metis
    moreover obtain n where "ule_get_innermost_numbytes u ?k = Some n"
      using innermost_numbytes_returns u(2) by (metis ule_ok_def ule_wf_def)
    ultimately show ?thesis using Some by simp
  qed
  then obtain u n where u: "(case le of
          None \<Rightarrow> Some (ule_init_empty_ule scratch, 0)
        | Some le \<Rightarrow> do { oldmemsize \<leftarrow> leafentry_memsize le; u \<leftarrow> le_unpack scratch le;
            n \<leftarrow> ule_get_innermost_numbytes u ?k; Some (u, sint64 n) }) = Some (u, n)"
      "ule_wf u" "num_cuxrs u + 2 < 2 ^ 32" "abs_ule u = v" by blast
  obtain c0 p0 where v0: "v = (c0, p0)" by fastforce
  note r0 = ule_wf_repr_ids [OF u(2) u(4) [unfolded v0]]
  obtain cs ps where v1: "?v = (cs, ps)" by fastforce
  obtain u1 where u1: "msg_modify_ule u msg = Some (u1, vs_delta (msg_type msg) (msg_xids msg) v)"
    "abs_ule u1 = ?v" "slots_ok u1" "vs_ok (abs_ule u1)" "uxrs_cap u1 = uxrs_cap u"
    using msg_modify_ule_wf [OF u(2)] u(4) v(2) by metis
  have r1: "repr u1 (uxrs_cap u) cs ps" "vs_ok (cs, ps)" using u1(2-5) v1 by (simp_all add: repr_iff)
  have len: "length cs \<le> length c0 + 1" using vs_modify_length [OF r0(2), of "msg_type msg" "msg_xids msg" "msg_val msg"] v0 v1 by simp
  have "outer_ids ?v \<subseteq> outer_ids v \<union> set (take 1 (msg_xids msg))"
    using vs_modify_outer [OF r0(2)] v(2) unfolding v0 by blast
  then have "outer_ids (cs, ps) \<subseteq> known s" using v(3,4) unfolding v1 by blast
  then have ids: "fst ` set (tl cs) \<subseteq> known s" "ps \<noteq> [] \<Longrightarrow> fst (hd ps) \<in> known s" by auto
  have "length cs < uxrs_cap u" using r0(4) len by simp
  then obtain u2 cs2 ps2 where u2: "ule_try_promote_provisional_outermost u1 (oldest_referenced_xid_for_implicit_promotion info) = Some u2"
    "repr u2 (uxrs_cap u) cs2 ps2" "vs_ok (cs2, ps2)" "length cs2 \<le> length cs + 1" "fst ` set (tl cs2) \<subseteq> known s"
    "\<And>r acc. (r, acc) \<in> readers s \<Longrightarrow> stack_read acc (cs2, ps2) = stack_read acc (cs, ps)"
    using ule_try_promote_reads [OF assms(1) r1 _ old(2) ids] by metis
  let ?u3 = "ule_simple_garbage_collection u2 (oldest_referenced_xid_for_simple_gc info) True"
  obtain cs3 where u3: "repr ?u3 (uxrs_cap u) cs3 ps2" "vs_ok (cs3, ps2)" "length cs3 \<le> length cs2"
    "fst ` set (tl cs3) \<subseteq> known s" "\<And>r acc. (r, acc) \<in> readers s \<Longrightarrow> cs_read acc cs3 = cs_read acc cs2"
    using ule_simple_garbage_collection_reads [OF assms(1) u2(2,3,5) old(1)] by metis
  obtain u4 state' cs4 where u4: "maybe_garbage_collect dbg ?u3 (txn_state_for_gc info) = Some (u4, state')"
    "repr u4 (uxrs_cap u) cs4 ps2" "vs_ok (cs4, ps2)" "length cs4 \<le> length cs3"
    "\<And>r acc. (r, acc) \<in> readers s \<Longrightarrow> cs_read acc cs4 = cs_read acc cs3"
    using maybe_garbage_collect_reads [OF assms(1) u3(1,2,4) st] by metis
  have small: "length cs4 < 2 ^ 32" using u4(4) u3(3) u2(4) len u(3) r0(3) by linarith
  obtain e k where e: "le_pack u4 = Some e"
    "(case e of None \<Rightarrow> Some 0 | Some _ \<Rightarrow> do { n \<leftarrow> ule_get_innermost_numbytes u4 ?k; Some (sint64 n) }) = Some k"
    "\<And>acc. entry_read e (accepting acc) = Some (Inr (val_result (stack_read acc (cs4, ps2))))"
    using finish_entry_returns [OF u4(2,3) small] by metis
  have "toku_le_apply_msg dbg scratch msg le info =
      Some (e, vs_delta (msg_type msg) (msg_xids msg) v, k - n, info\<lparr>txn_state_for_gc := state'\<rparr>)"
    unfolding toku_le_apply_msg_def Let_def u(1) using u1(1) u2(1) u4(1) e(1,2) assms(2) by simp
  moreover have "stack_read acc (cs4, ps2) = stack_read acc ?v" if "(r, acc) \<in> readers s" for r acc
  proof -
    have "stack_read acc (cs4, ps2) = stack_read acc (cs2, ps2)" using u4(5) [OF that] u3(5) [OF that] by simp
    also have "\<dots> = stack_read acc (cs, ps)" by (rule u2(6) [OF that])
    finally show ?thesis using v1 by simp
  qed
  ultimately show ?thesis using that e(3) by simp
qed

end

subsection \<open>Every snapshot reads the same after garbage collection\<close>

text \<open>The callback that a snapshot cursor passes to \<open>le_iterate_val\<close>.\<close>

definition snapshot_callback :: "txn_manager \<Rightarrow> TOKUTXN \<Rightarrow> le_callback" where
  "snapshot_callback m t x is_provisional = map_option Inr (toku_txn_reads_txnid x m t)"

lemma snapshot_callback_accepting:
  assumes "run_inv E A m" "t \<in> A" "records (txns m t)"
  shows "snapshot_callback m t = accepting (snap_accepts (abs_snap m t))"
  using run_snapshot(1) [OF assms] by (intro ext) (simp add: snapshot_callback_def snap_accepts_def)

lemma later_reader:
  assumes "reachable dbg (E, A, m)" "(mgr_step dbg)\<^sup>*\<^sup>* (E, A, m) (E', A', m')" "t \<in> A'"
    and "txn_records_snapshot (snapshot_type (txns m' t)) (txn_parent (txns m' t))"
  shows "(sid m' t, snap_accepts (abs_snap m' t)) \<in> mgr_readers (E, A, m)"
    "snapshot_callback m' t = accepting (snap_accepts (abs_snap m' t))" "mgr_ok (E, A, m)"
proof -
  have r: "records (txns m' t)" using assms(4) by (simp add: records_def)
  have l: "reachable dbg (E', A', m')" "later_state A m A' m'" using run_later [OF assms(2,1)] by auto
  then have "later_snap A m (abs_snap m' t)" using assms(3) r by (simp add: later_state_def)
  then show "(sid m' t, snap_accepts (abs_snap m' t)) \<in> mgr_readers (E, A, m)" by (auto intro: exI [of _ "abs_snap m' t"])
  show "snapshot_callback m' t = accepting (snap_accepts (abs_snap m' t))"
    by (rule snapshot_callback_accepting [OF reachable_inv [OF l(1)] assms(3) r])
  show "mgr_ok (E, A, m)" using reachable_inv [OF assms(1)] by simp
qed

text \<open>An entry with records of the two transactions of \<open>two_roots\<close>.\<close>

definition gc_sample :: ule where
  "gc_sample = \<lparr>num_puxrs = 1, num_cuxrs = 2,
     uxrs = (\<lambda>_. committed_delete)
       (1 := \<lparr>u_type = XR_INSERT, u_vallen = 1, u_valp = [7], u_xid = 1\<rparr>,
        2 := \<lparr>u_type = XR_INSERT, u_vallen = 1, u_valp = [8], u_xid = 3\<rparr>),
     uxrs_cap = 508\<rparr>"

definition gc_sample_info :: "txn_manager \<Rightarrow> txn_gc_state \<Rightarrow> txn_gc_info" where
  "gc_sample_info m g = \<lparr>txn_state_for_gc = Some \<lparr>st_txn_manager = m, initialized = True, st_state = g\<rparr>,
     oldest_referenced_xid_for_simple_gc = 0, oldest_referenced_xid_for_implicit_promotion = 0, mvcc_needed = True\<rparr>"

lemma gc_sample_stores:
  "stores (Some (pack_mvcc gc_sample)) ([(TXNID_NONE, Del), (1, Ins [7])], [(3, Ins [8])])"
proof -
  have a: "abs_ule gc_sample = ([(TXNID_NONE, Del), (1, Ins [7])], [(3, Ins [8])])"
    by (simp add: abs_ule_def cstack_def pstack_def gc_sample_def abs_uxr_def
        uxr_is_defs committed_delete_def TXNID_NONE_def upt_rec)
  have wf: "ule_wf gc_sample"
    unfolding ule_wf_def a
    by (auto simp: slots_ok_def gc_sample_def uxr_ok_def uxr_is_defs committed_delete_def
        IS_VALID_LEN_def TXNID_NONE_def less_Suc_eq numeral_3_eq_3)
  have "has_insert gc_sample" by (simp add: has_insert_def gc_sample_def uxr_is_defs upt_rec)
  moreover have n: "\<not> (num_cuxrs gc_sample = 1 \<and> num_puxrs gc_sample = 0)" by (simp add: gc_sample_def)
  ultimately have "le_pack gc_sample = Some (Some (pack_mvcc gc_sample))"
    using le_pack_returns [OF wf] unfolding if_not_P [OF n] by simp
  moreover have "num_cuxrs gc_sample + 2 < 2 ^ 32" by (simp add: gc_sample_def)
  ultimately show ?thesis using wf a by (auto simp: stores_def)
qed

lemma gc_sample_state:
  obtains m g where "two_roots = Some m" "reachable False (({}, {}), {0, 1}, m)" "toku_txn_manager_clone_state_for_gc m = Some g"
    "txn_records_snapshot (snapshot_type (txns m 1)) (txn_parent (txns m 1))" "set (live_root_ids m) = {1, 3}"
proof -
  obtain m where m: "two_roots = Some m" "reachable False (({}, {}), {0, 1}, m)" "records (txns m 1)" "set (live_root_ids m) = {1, 3}"
    using two_roots_run [of False] by metis
  obtain g where "toku_txn_manager_clone_state_for_gc m = Some g"
    using mgr.clone_law [of "(({}, {}), {0, 1}, m)"] reachable_inv [OF m(2)] by auto
  then show ?thesis using that m by (auto simp: records_def)
qed

text \<open>
  C18. Garbage collection never changes what a snapshot reads. Let the collector work on a copy of
  the transaction manager's state taken at any moment, on an entry whose records belong to transactions that were
  live or had ended after writing at that moment. The collection returns (no assertion fires), and every snapshot
  that existed at that moment or is taken at any time later reads the same value from the collected entry as from
  the old one.
\<close>

theorem garbage_collection_safe:
  assumes "reachable dbg (E, A, m)" "(mgr_step dbg)\<^sup>*\<^sup>* (E, A, m) (E', A', m')" "t \<in> A'"
    and "txn_records_snapshot (snapshot_type (txns m' t)) (txn_parent (txns m' t))"
    and "txn_state_for_gc info = Some st" "toku_txn_manager_clone_state_for_gc m = Some (st_state st)"
    and "oldest_referenced_xid_for_implicit_promotion info \<le> toku_txn_manager_get_oldest_referenced_xid_estimate m"
    and "stores (Some le) v" "outer_ids v \<subseteq> (set (live_root_ids m) \<union> fst E) - {TXNID_NONE}"
  shows "\<exists>e d. toku_le_garbage_collect dbg' scratch le keylen info = Some (e, d) \<and>
    entry_read e (snapshot_callback m' t) = entry_read (Some le) (snapshot_callback m' t)"
proof -
  note r = later_reader [OF assms(1-4)]
  have "mgr_clone (E, A, m) = Some (st_state st)" using assms(6) by simp
  then obtain e d where "toku_le_garbage_collect dbg' scratch le keylen info = Some (e, d)"
    "\<And>r acc. (r, acc) \<in> mgr_readers (E, A, m) \<Longrightarrow> entry_read e (accepting acc) = entry_read (Some le) (accepting acc)"
    using mgr.garbage_collect_entry [OF r(3) _ assms(5,8), of dbg' scratch keylen] assms(7,9) by auto
  then show ?thesis using r(1,2) by auto
qed

theorem garbage_collection_safe_witness:
  "\<exists>m g e d. two_roots = Some m \<and> toku_txn_manager_clone_state_for_gc m = Some g \<and>
     toku_le_garbage_collect False sample_ule (pack_mvcc gc_sample) 1 (gc_sample_info m g) = Some (e, d) \<and>
     entry_read e (snapshot_callback m 1) = entry_read (Some (pack_mvcc gc_sample)) (snapshot_callback m 1)"
proof -
  obtain m g where m: "two_roots = Some m" "reachable False (({}, {}), {0, 1}, m)" "toku_txn_manager_clone_state_for_gc m = Some g"
    "txn_records_snapshot (snapshot_type (txns m 1)) (txn_parent (txns m 1))" "set (live_root_ids m) = {1, 3}"
    using gc_sample_state .
  show ?thesis
    using garbage_collection_safe [OF m(2) rtranclp.rtrancl_refl _ m(4), of "gc_sample_info m g" _ _ _ False sample_ule 1,
        OF _ _ _ _ gc_sample_stores] m(1,3,5)
    by (auto simp: gc_sample_info_def TXNID_NONE_def)
qed

text \<open>
  C19. Applying a message to a stored entry is correct in the presence of implicit promotion and both
  kinds of garbage collection: the call returns, its row adjustment is the specified one, and every snapshot that
  exists or is taken later reads from the new entry what it would read from the specified record stack, from which
  nothing was collected.
\<close>

theorem apply_msg_reads:
  assumes "reachable dbg (E, A, m)" "(mgr_step dbg)\<^sup>*\<^sup>* (E, A, m) (E', A', m')" "t \<in> A'"
    and "txn_records_snapshot (snapshot_type (txns m' t)) (txn_parent (txns m' t))" and "mvcc_needed info"
    and "oldest_referenced_xid_for_simple_gc info \<le> toku_txn_manager_get_oldest_referenced_xid_estimate m"
    and "oldest_referenced_xid_for_implicit_promotion info \<le> toku_txn_manager_get_oldest_referenced_xid_estimate m"
    and "\<And>st. txn_state_for_gc info = Some st \<Longrightarrow> (if initialized st then Some (st_state st)
        else toku_txn_manager_clone_state_for_gc (st_txn_manager st)) = toku_txn_manager_clone_state_for_gc m"
    and "stores le v" "msg_applicable msg v"
    and "outer_ids v \<union> set (take 1 (msg_xids msg)) \<subseteq> (set (live_root_ids m) \<union> fst E) - {TXNID_NONE}"
  shows "\<exists>e d info'. toku_le_apply_msg dbg' scratch msg le info =
      Some (e, vs_delta (msg_type msg) (msg_xids msg) v, d, info') \<and>
    entry_read e (snapshot_callback m' t) = map_option (map_sum (\<lambda>x. x) val_result)
      (vs_read (snapshot_callback m' t) (vs_modify (msg_type msg) (msg_xids msg) (msg_val msg) v))"
proof -
  note r = later_reader [OF assms(1-4)]
  let ?v = "vs_modify (msg_type msg) (msg_xids msg) (msg_val msg) v"
  have st: "\<And>st. txn_state_for_gc info = Some st \<Longrightarrow> (if initialized st then Some (st_state st)
        else toku_txn_manager_clone_state_for_gc (st_txn_manager st)) = mgr_clone (E, A, m)" using assms(8) by simp
  obtain e d info' where e: "toku_le_apply_msg dbg' scratch msg le info =
      Some (e, vs_delta (msg_type msg) (msg_xids msg) v, d, info')"
    "\<And>r acc. (r, acc) \<in> mgr_readers (E, A, m) \<Longrightarrow> entry_read e (accepting acc) = Some (Inr (val_result (stack_read acc ?v)))"
    using mgr.apply_msg_entry [OF r(3) assms(5) _ _ st assms(9,10), of dbg' scratch] assms(6,7,11) by auto
  obtain cs ps where v: "v = (cs, ps)" "?v = (fst ?v, snd ?v)" by fastforce
  have "vs_ok v" using assms(9) by (auto simp: stores_def ule_wf_def split: option.splits)
  then have "vs_ok (fst ?v, snd ?v)" using vs_modify_ok [of cs ps msg] assms(10) v by simp
  then have "fst ?v \<noteq> []" unfolding vs_ok.simps by blast
  then have "vs_read (snapshot_callback m' t) ?v = Some (Inr (stack_read (snap_accepts (abs_snap m' t)) ?v))"
    using vs_read_accepting [of "fst ?v" _ "snd ?v"] r(2) by (simp del: stack_read.simps)
  then show ?thesis using e r(1,2) by auto
qed

theorem apply_msg_reads_witness:
  "\<exists>m g e d info'. two_roots = Some m \<and> toku_txn_manager_clone_state_for_gc m = Some g \<and>
     toku_le_apply_msg False sample_ule
       \<lparr>msg_key = [1], msg_val = [9], msg_type = FT_INSERT, msg_msn = 1, msg_xids = [3]\<rparr>
       (Some (pack_mvcc gc_sample)) (gc_sample_info m g) = Some (e, - 1, d, info') \<and>
     entry_read e (snapshot_callback m 1) = map_option (map_sum (\<lambda>x. x) val_result)
       (vs_read (snapshot_callback m 1) ([(TXNID_NONE, Del), (1, Ins [7])], [(3, Ins [9])]))"
proof -
  let ?v = "([(TXNID_NONE, Del), (1, Ins [7])], [(3, Ins [8])]) :: vstack"
  let ?msg = "\<lparr>msg_key = [1], msg_val = [9], msg_type = FT_INSERT, msg_msn = 1, msg_xids = [3]\<rparr> :: ft_msg"
  obtain m g where m: "two_roots = Some m" "reachable False (({}, {}), {0, 1}, m)" "toku_txn_manager_clone_state_for_gc m = Some g"
    "txn_records_snapshot (snapshot_type (txns m 1)) (txn_parent (txns m 1))" "set (live_root_ids m) = {1, 3}"
    using gc_sample_state .
  have app: "msg_applicable ?msg ?v" by (simp add: xids_ok_def TXNID_NONE_def)
  have "vs_modify (msg_type ?msg) (msg_xids ?msg) (msg_val ?msg) ?v = ([(TXNID_NONE, Del), (1, Ins [7])], [(3, Ins [9])])"
    "vs_delta (msg_type ?msg) (msg_xids ?msg) ?v = - 1"
    by (simp_all add: prepared_def)
  then show ?thesis
    using apply_msg_reads [OF m(2) rtranclp.rtrancl_refl _ m(4), of "gc_sample_info m g",
        OF _ _ _ _ _ gc_sample_stores app, of False sample_ule] m(1,3,5)
    by (auto simp: gc_sample_info_def TXNID_NONE_def)
qed

end
