(* ===== verification/Omt.thy ===== *)
theory Omt
  imports Omt_Spec
begin

text \<open>
  The order maintenance tree (\<open>src/util/omt.h\<close>, \<open>src/util/omt.cc\<close>): a sequence kept either in an
  array or in a weight-balanced tree, converted between the two as it is used. \<open>supports_marks\<close> is
  the template parameter of the same name; such a tree is never an array and its nodes carry two
  stolen bits.

  A subtree index and the node it points to are one constructor of \<open>omt_tree\<close>; \<open>t_free_idx\<close>
  counts the slots of the node array that were handed out, and an allocation past \<open>capacity\<close> is
  \<open>None\<close>, as is a failed \<open>paranoid_invariant\<close> and a store past the end of the value array. A
  pointer to a subtree is the path from the root to it (\<open>True\<close> is right). Fresh memory holds
  arbitrary values past those copied into it. Indices are natural numbers; the class is used with
  fewer than \<open>2 ^ 31\<close> values, so that no size computation wraps.
\<close>

subsection \<open>Data\<close>

datatype 'a omt_tree =
  Null
| Node (weight: nat) (marked: bool) (marks_below: bool) (left: "'a omt_tree") (val: 'a) (right: "'a omt_tree")

record 'a omt =
  is_array :: bool
  capacity :: nat
  a_start_idx :: nat
  a_num_values :: nat
  a_values :: "nat \<Rightarrow> 'a"
  t_root :: "'a omt_tree"
  t_free_idx :: nat

type_synonym path = "bool list"

fun nweight :: "'a omt_tree \<Rightarrow> nat" where
  "nweight Null = 0"
| "nweight (Node w mk bl l v r) = w"

definition omt_size :: "'a omt \<Rightarrow> nat" where
  "omt_size q = (if is_array q then a_num_values q else nweight (t_root q))"

fun has_marks :: "'a omt_tree \<Rightarrow> bool" where
  "has_marks Null = False"
| "has_marks (Node w mk bl l v r) = (bl \<or> mk)"

definition barf_if_marked :: "bool \<Rightarrow> 'a omt \<Rightarrow> unit option" where
  "barf_if_marked sm q = ensure (sm \<longrightarrow> \<not> has_marks (t_root q))"

subsection \<open>Conversion and resizing\<close>

definition node_malloc :: "nat \<Rightarrow> nat \<Rightarrow> nat option" where
  "node_malloc cap free = do { ensure (free < cap); Some (free + 1) }"

function rebuild_from_sorted_array :: "nat \<Rightarrow> 'a list \<Rightarrow> nat \<Rightarrow> ('a omt_tree \<times> nat) option" where
  "rebuild_from_sorted_array cap values free =
     (if length values = 0 then Some (Null, free)
      else
        let halfway = length values div 2
        in case node_malloc cap free of
             None \<Rightarrow> None
           | Some free \<Rightarrow>
               (case rebuild_from_sorted_array cap (take halfway values) free of
                  None \<Rightarrow> None
                | Some (l, free) \<Rightarrow>
                    (case rebuild_from_sorted_array cap (drop (halfway + 1) values) free of
                       None \<Rightarrow> None
                     | Some (r, free) \<Rightarrow> Some (Node (length values) False False l (values ! halfway) r, free))))"
  by pat_completeness auto
termination
  by (relation "measure (\<lambda>(cap, values, free). length values)") auto

declare rebuild_from_sorted_array.simps [simp del]

fun fill_array_with_subtree_values :: "'a omt_tree \<Rightarrow> 'a list" where
  "fill_array_with_subtree_values Null = []"
| "fill_array_with_subtree_values (Node w mk bl l v r) =
     fill_array_with_subtree_values l @ v # fill_array_with_subtree_values r"

definition create_internal_no_array :: "'a omt \<Rightarrow> nat \<Rightarrow> 'a omt" where
  "create_internal_no_array q new_capacity =
     q\<lparr>is_array := True, a_start_idx := 0, a_num_values := 0, capacity := new_capacity\<rparr>"

definition convert_to_array :: "'a omt \<Rightarrow> 'a omt" where
  "convert_to_array q =
     (if \<not> is_array q then
        let num_values = omt_size q;
            new_size = 2 * num_values;
            new_size = (if new_size < 4 then 4 else new_size);
            tmp_values = (\<lambda>i. fill_array_with_subtree_values (t_root q) ! i)
        in q\<lparr>is_array := True, capacity := new_size, a_num_values := num_values, a_values := tmp_values, a_start_idx := 0\<rparr>
      else q)"

definition array_values :: "'a omt \<Rightarrow> 'a list" where
  "array_values q = map (\<lambda>i. a_values q (a_start_idx q + i)) [0..<a_num_values q]"

definition convert_to_tree :: "'a omt \<Rightarrow> 'a omt option" where
  "convert_to_tree q =
     (if is_array q then do {
        let num_nodes = omt_size q;
        let new_size = num_nodes * 2;
        let new_size = (if new_size < 4 then 4 else new_size);
        (root, free) \<leftarrow> rebuild_from_sorted_array new_size (array_values q) 0;
        Some (q\<lparr>is_array := False, capacity := new_size, t_root := root, t_free_idx := free\<rparr>)
      }
      else Some q)"

definition maybe_resize_array :: "nat \<Rightarrow> 'a omt \<Rightarrow> 'a omt option" where
  "maybe_resize_array n q = do {
     let new_size = (if n \<le> 2 then 4 else 2 * n);
     let room = capacity q - a_start_idx q;
     if room < n \<or> capacity q div 2 \<ge> new_size then do {
       ensure (a_num_values q \<le> new_size);
       Some (q\<lparr>a_values := (\<lambda>i. a_values q (a_start_idx q + i)), a_start_idx := 0, capacity := new_size\<rparr>)
     }
     else Some q
   }"

definition maybe_resize_or_convert :: "bool \<Rightarrow> nat \<Rightarrow> 'a omt \<Rightarrow> 'a omt option" where
  "maybe_resize_or_convert sm n q =
     (if is_array q then maybe_resize_array n q
      else
        let new_size = (if n \<le> 2 then 4 else 2 * n);
            num_nodes = nweight (t_root q)
        in if capacity q div 2 \<ge> new_size \<or> (t_free_idx q \<ge> capacity q \<and> num_nodes < n) \<or> capacity q < n
           then (if sm then convert_to_tree (convert_to_array q) else Some (convert_to_array q))
           else Some q)"

subsection \<open>Construction\<close>

definition omt_create :: "bool \<Rightarrow> 'a omt \<Rightarrow> 'a omt option" where
  "omt_create sm q =
     (let q = create_internal_no_array q 2 in if sm then convert_to_tree q else Some q)"

definition omt_create_no_array :: "bool \<Rightarrow> 'a omt \<Rightarrow> 'a omt" where
  "omt_create_no_array sm q =
     (if \<not> sm then create_internal_no_array q 0
      else q\<lparr>is_array := False, capacity := 0, t_root := Null, t_free_idx := 0\<rparr>)"

definition omt_create_from_sorted_array :: "bool \<Rightarrow> 'a list \<Rightarrow> 'a omt \<Rightarrow> 'a omt option" where
  "omt_create_from_sorted_array sm values q =
     (let q = (create_internal_no_array q (length values))\<lparr>a_values := (\<lambda>i. values ! i), a_num_values := length values\<rparr>
      in if sm then convert_to_tree q else Some q)"

definition omt_split_at :: "bool \<Rightarrow> nat \<Rightarrow> 'a omt \<Rightarrow> 'a omt \<Rightarrow> (ft_error + 'a omt \<times> 'a omt) option" where
  "omt_split_at sm idx q newomt = do {
     barf_if_marked sm q;
     if idx > omt_size q then Some (Inl EINVAL)
     else do {
       let q = convert_to_array q;
       newomt \<leftarrow> omt_create_from_sorted_array sm (drop idx (array_values q)) newomt;
       q \<leftarrow> maybe_resize_array idx (q\<lparr>a_num_values := idx\<rparr>);
       q \<leftarrow> (if sm then convert_to_tree q else Some q);
       Some (Inr (q, newomt))
     }
   }"

definition omt_clone :: "bool \<Rightarrow> 'a omt \<Rightarrow> 'a omt \<Rightarrow> 'a omt option" where
  "omt_clone sm src q = do {
     barf_if_marked sm q;
     let q = create_internal_no_array q (omt_size src);
     let q = (if is_array src then q\<lparr>a_values := (\<lambda>i. a_values src (a_start_idx src + i))\<rparr>
              else q\<lparr>a_values := (\<lambda>i. fill_array_with_subtree_values (t_root src) ! i)\<rparr>);
     let q = q\<lparr>a_num_values := omt_size src\<rparr>;
     if sm then convert_to_tree q else Some q
   }"

definition omt_clear :: "'a omt \<Rightarrow> 'a omt" where
  "omt_clear q =
     (if is_array q then q\<lparr>a_start_idx := 0, a_num_values := 0\<rparr>
      else q\<lparr>t_root := Null, t_free_idx := 0\<rparr>)"

text \<open>The values of the right tree are copied behind those of the left one, whose array is taken
  over when it has room; a tree that supports marks is never an array, so that case does not arise for it.\<close>

definition omt_merge :: "bool \<Rightarrow> 'a omt \<Rightarrow> 'a omt \<Rightarrow> 'a omt \<Rightarrow> 'a omt option" where
  "omt_merge sm leftomt rightomt q = do {
     barf_if_marked sm q;
     let leftsize = omt_size leftomt;
     let rightsize = omt_size rightomt;
     let newsize = leftsize + rightsize;
     q \<leftarrow>
       (if is_array leftomt then
          if capacity leftomt - (a_start_idx leftomt + a_num_values leftomt) \<ge> rightsize
          then (if sm then None else
            Some ((create_internal_no_array q (capacity leftomt))
              \<lparr>a_num_values := a_num_values leftomt, a_values := a_values leftomt, a_start_idx := a_start_idx leftomt\<rparr>))
          else Some ((create_internal_no_array q newsize)\<lparr>a_values := (\<lambda>i. a_values leftomt (a_start_idx leftomt + i))\<rparr>)
        else Some ((create_internal_no_array q newsize)
          \<lparr>a_values := (\<lambda>i. fill_array_with_subtree_values (t_root leftomt) ! i)\<rparr>));
     let q = q\<lparr>a_num_values := leftsize\<rparr>;
     let rightvals = (if is_array rightomt then array_values rightomt else fill_array_with_subtree_values (t_root rightomt));
     let base = a_start_idx q + a_num_values q;
     ensure (base + length rightvals \<le> capacity q);
     let q = q\<lparr>a_values := (\<lambda>i. if base \<le> i \<and> i < base + length rightvals then rightvals ! (i - base) else a_values q i),
               a_num_values := a_num_values q + rightsize\<rparr>;
     ensure (omt_size q = newsize);
     if sm then convert_to_tree q else Some q
   }"

subsection \<open>Insertion and deletion in the tree\<close>

fun will_need_rebalance :: "'a omt_tree \<Rightarrow> int \<Rightarrow> int \<Rightarrow> bool" where
  "will_need_rebalance Null leftmod rightmod = False"
| "will_need_rebalance (Node w mk bl l v r) leftmod rightmod =
     (let weight_left = int (nweight l) + leftmod;
          weight_right = int (nweight r) + rightmod
      in 1 + weight_left < (1 + 1 + weight_right) div 2 \<or> 1 + weight_right < (1 + 1 + weight_left) div 2)"

definition note_rebalance :: "path option \<Rightarrow> path \<Rightarrow> bool \<Rightarrow> path option" where
  "note_rebalance rebalance_subtree p needed =
     (if rebalance_subtree = None \<and> needed then Some p else rebalance_subtree)"

fun insert_internal ::
  "nat \<Rightarrow> 'a omt_tree \<Rightarrow> 'a \<Rightarrow> nat \<Rightarrow> path \<Rightarrow> path option \<Rightarrow> nat \<Rightarrow> ('a omt_tree \<times> path option \<times> nat) option" where
  "insert_internal cap Null v idx p rebalance_subtree free = do {
     ensure (idx = 0);
     free \<leftarrow> node_malloc cap free;
     Some (Node 1 False False Null v Null, rebalance_subtree, free)
   }"
| "insert_internal cap (Node w mk bl l x r) v idx p rebalance_subtree free =
     (if idx \<le> nweight l then do {
        let rebalance_subtree = note_rebalance rebalance_subtree p (will_need_rebalance (Node w mk bl l x r) 1 0);
        (l, rebalance_subtree, free) \<leftarrow> insert_internal cap l v idx (p @ [False]) rebalance_subtree free;
        Some (Node (w + 1) mk bl l x r, rebalance_subtree, free)
      }
      else do {
        let rebalance_subtree = note_rebalance rebalance_subtree p (will_need_rebalance (Node w mk bl l x r) 0 1);
        let sub_index = idx - nweight l - 1;
        (r, rebalance_subtree, free) \<leftarrow> insert_internal cap r v sub_index (p @ [True]) rebalance_subtree free;
        Some (Node (w + 1) mk bl l x r, rebalance_subtree, free)
      })"

text \<open>
  The second component of the result is what the call stores through \<open>copyn\<close>: the deleted value, or nothing when the
  recursion stores it in a node of its own.
\<close>

fun delete_internal :: "'a omt_tree \<Rightarrow> nat \<Rightarrow> path \<Rightarrow> path option \<Rightarrow> ('a omt_tree \<times> 'a option \<times> path option) option" where
  "delete_internal Null idx p rebalance_subtree = None"
| "delete_internal (Node w mk bl l x r) idx p rebalance_subtree =
     (if idx < nweight l then do {
        let rebalance_subtree = note_rebalance rebalance_subtree p (will_need_rebalance (Node w mk bl l x r) (- 1) 0);
        (l, copied, rebalance_subtree) \<leftarrow> delete_internal l idx (p @ [False]) rebalance_subtree;
        Some (Node (w - 1) mk bl l x r, copied, rebalance_subtree)
      }
      else if idx = nweight l then
        (if l = Null then Some (r, Some x, rebalance_subtree)
         else if r = Null then Some (l, Some x, rebalance_subtree)
         else do {
           let rebalance_subtree = note_rebalance rebalance_subtree p (will_need_rebalance (Node w mk bl l x r) 0 (- 1));
           (r, copied, rebalance_subtree) \<leftarrow> delete_internal r 0 (p @ [True]) rebalance_subtree;
           Some (Node (w - 1) mk bl l (case copied of Some v \<Rightarrow> v | None \<Rightarrow> x) r, None, rebalance_subtree)
         })
      else do {
        let rebalance_subtree = note_rebalance rebalance_subtree p (will_need_rebalance (Node w mk bl l x r) 0 (- 1));
        (r, copied, rebalance_subtree) \<leftarrow> delete_internal r (idx - nweight l - 1) (p @ [True]) rebalance_subtree;
        Some (Node (w - 1) mk bl l x r, copied, rebalance_subtree)
      })"

text \<open>Rebalancing relinks the nodes of a subtree; a node keeps its value and its stolen bits.\<close>

fun fill_array_with_subtree_idxs :: "'a omt_tree \<Rightarrow> ('a \<times> bool \<times> bool) list" where
  "fill_array_with_subtree_idxs Null = []"
| "fill_array_with_subtree_idxs (Node w mk bl l v r) =
     fill_array_with_subtree_idxs l @ (v, mk, bl) # fill_array_with_subtree_idxs r"

function rebuild_subtree_from_idxs :: "('a \<times> bool \<times> bool) list \<Rightarrow> 'a omt_tree" where
  "rebuild_subtree_from_idxs idxs =
     (if length idxs = 0 then Null
      else
        let halfway = length idxs div 2;
            (v, mk, bl) = idxs ! halfway
        in Node (length idxs) mk bl (rebuild_subtree_from_idxs (take halfway idxs)) v
             (rebuild_subtree_from_idxs (drop (halfway + 1) idxs)))"
  by pat_completeness auto
termination
  by (relation "measure length") auto

declare rebuild_subtree_from_idxs.simps [simp del]

fun subtree_at :: "('a omt_tree \<Rightarrow> 'a omt_tree) \<Rightarrow> path \<Rightarrow> 'a omt_tree \<Rightarrow> 'a omt_tree" where
  "subtree_at f [] t = f t"
| "subtree_at f (b # p) Null = Null"
| "subtree_at f (False # p) (Node w mk bl l v r) = Node w mk bl (subtree_at f p l) v r"
| "subtree_at f (True # p) (Node w mk bl l v r) = Node w mk bl l v (subtree_at f p r)"

definition omt_rebalance :: "bool \<Rightarrow> path \<Rightarrow> 'a omt \<Rightarrow> 'a omt option" where
  "omt_rebalance sm p q =
     (if p = [] then (if sm then convert_to_tree (convert_to_array q) else Some (convert_to_array q))
      else Some (q\<lparr>t_root := subtree_at (\<lambda>st. rebuild_subtree_from_idxs (fill_array_with_subtree_idxs st)) p (t_root q)\<rparr>))"

definition maybe_rebalance :: "bool \<Rightarrow> path option \<Rightarrow> 'a omt \<Rightarrow> 'a omt option" where
  "maybe_rebalance sm rebalance_subtree q =
     (case rebalance_subtree of None \<Rightarrow> Some q | Some p \<Rightarrow> omt_rebalance sm p q)"

subsection \<open>Operations by index\<close>

text \<open>The stores of \<open>insert_at\<close> and \<open>delete_at\<close>, after they have resized or converted the sequence.\<close>

definition insert_at_stored :: "bool \<Rightarrow> 'a \<Rightarrow> nat \<Rightarrow> 'a omt \<Rightarrow> 'a omt option" where
  "insert_at_stored sm v idx q =
     (if is_array q then
        (if idx = a_num_values q then do {
           ensure (a_start_idx q + a_num_values q < capacity q);
           Some (q\<lparr>a_values := (a_values q)(a_start_idx q + a_num_values q := v), a_num_values := a_num_values q + 1\<rparr>)
         }
         else
           Some (q\<lparr>a_start_idx := a_start_idx q - 1, a_values := (a_values q)(a_start_idx q - 1 := v),
             a_num_values := a_num_values q + 1\<rparr>))
      else do {
        (root, rebalance_subtree, free) \<leftarrow> insert_internal (capacity q) (t_root q) v idx [] None (t_free_idx q);
        maybe_rebalance sm rebalance_subtree (q\<lparr>t_root := root, t_free_idx := free\<rparr>)
      })"

definition insert_at :: "bool \<Rightarrow> 'a \<Rightarrow> nat \<Rightarrow> 'a omt \<Rightarrow> (ft_error + 'a omt) option" where
  "insert_at sm v idx q = do {
     barf_if_marked sm q;
     if idx > omt_size q then Some (Inl EINVAL)
     else do {
       q \<leftarrow> maybe_resize_or_convert sm (omt_size q + 1) q;
       q \<leftarrow> (if is_array q \<and> idx \<noteq> a_num_values q \<and> (idx \<noteq> 0 \<or> a_start_idx q = 0) then convert_to_tree q else Some q);
       q \<leftarrow> insert_at_stored sm v idx q;
       Some (Inr q)
     }
   }"

fun set_at_internal :: "'a omt_tree \<Rightarrow> 'a \<Rightarrow> nat \<Rightarrow> 'a omt_tree option" where
  "set_at_internal Null v idx = None"
| "set_at_internal (Node w mk bl l x r) v idx =
     (if idx < nweight l then do { l \<leftarrow> set_at_internal l v idx; Some (Node w mk bl l x r) }
      else if idx = nweight l then Some (Node w mk bl l v r)
      else do { r \<leftarrow> set_at_internal r v (idx - nweight l - 1); Some (Node w mk bl l x r) })"

definition set_at :: "bool \<Rightarrow> 'a \<Rightarrow> nat \<Rightarrow> 'a omt \<Rightarrow> (ft_error + 'a omt) option" where
  "set_at sm v idx q = do {
     barf_if_marked sm q;
     if idx \<ge> omt_size q then Some (Inl EINVAL)
     else if is_array q then Some (Inr (q\<lparr>a_values := (a_values q)(a_start_idx q + idx := v)\<rparr>))
     else do { root \<leftarrow> set_at_internal (t_root q) v idx; Some (Inr (q\<lparr>t_root := root\<rparr>)) }
   }"

definition delete_at_stored :: "bool \<Rightarrow> nat \<Rightarrow> 'a omt \<Rightarrow> 'a omt option" where
  "delete_at_stored sm idx q =
     (if is_array q then
        (let q = (if idx \<noteq> a_num_values q - 1 then q\<lparr>a_start_idx := a_start_idx q + 1\<rparr> else q)
         in Some (q\<lparr>a_num_values := a_num_values q - 1\<rparr>))
      else do {
        (root, copied, rebalance_subtree) \<leftarrow> delete_internal (t_root q) idx [] None;
        maybe_rebalance sm rebalance_subtree (q\<lparr>t_root := root\<rparr>)
      })"

definition delete_at :: "bool \<Rightarrow> nat \<Rightarrow> 'a omt \<Rightarrow> (ft_error + 'a omt) option" where
  "delete_at sm idx q = do {
     barf_if_marked sm q;
     if idx \<ge> omt_size q then Some (Inl EINVAL)
     else do {
       q \<leftarrow> maybe_resize_or_convert sm (omt_size q - 1) q;
       q \<leftarrow> (if is_array q \<and> idx \<noteq> 0 \<and> idx \<noteq> a_num_values q - 1 then convert_to_tree q else Some q);
       q \<leftarrow> delete_at_stored sm idx q;
       Some (Inr q)
     }
   }"

fun fetch_internal :: "'a omt_tree \<Rightarrow> nat \<Rightarrow> 'a option" where
  "fetch_internal Null i = None"
| "fetch_internal (Node w mk bl l v r) i =
     (if i < nweight l then fetch_internal l i
      else if i = nweight l then Some v
      else fetch_internal r (i - nweight l - 1))"

definition fetch :: "nat \<Rightarrow> 'a omt \<Rightarrow> (ft_error + 'a) option" where
  "fetch idx q =
     (if idx \<ge> omt_size q then Some (Inl EINVAL)
      else if is_array q then Some (Inr (a_values q (a_start_idx q + idx)))
      else map_option Inr (fetch_internal (t_root q) idx))"

subsection \<open>Searches\<close>

text \<open>The binary searches of the array. \<open>None\<close> for the best position so far is \<open>NODE_NULL\<close>.\<close>

partial_function (option) find_zero_loop ::
  "('a \<Rightarrow> int) \<Rightarrow> (nat \<Rightarrow> 'a) \<Rightarrow> nat \<Rightarrow> nat \<Rightarrow> nat option \<Rightarrow> nat option \<Rightarrow> (nat option \<times> nat option) option" where
  "find_zero_loop h values min' limit best_pos best_zero =
     (if min' \<noteq> limit then
        let mid = (min' + limit) div 2;
            hv = h (values mid)
        in if hv < 0 then find_zero_loop h values (mid + 1) limit best_pos best_zero
           else if hv > 0 then find_zero_loop h values min' mid (Some mid) best_zero
           else find_zero_loop h values min' mid best_pos (Some mid)
      else Some (best_pos, best_zero))"

definition find_internal_zero_array :: "('a \<Rightarrow> int) \<Rightarrow> 'a omt \<Rightarrow> (nat + 'a \<times> nat) option" where
  "find_internal_zero_array h q = do {
     (best_pos, best_zero) \<leftarrow>
       find_zero_loop h (a_values q) (a_start_idx q) (a_start_idx q + a_num_values q) None None;
     Some (case best_zero of
         Some z \<Rightarrow> Inr (a_values q z, z - a_start_idx q)
       | None \<Rightarrow> Inl (case best_pos of Some p \<Rightarrow> p - a_start_idx q | None \<Rightarrow> a_num_values q))
   }"

fun find_internal_zero :: "('a \<Rightarrow> int) \<Rightarrow> 'a omt_tree \<Rightarrow> nat + 'a \<times> nat" where
  "find_internal_zero h Null = Inl 0"
| "find_internal_zero h (Node w mk bl l v r) =
     (if h v < 0 then
        (case find_internal_zero h r of
           Inl i \<Rightarrow> Inl (i + nweight l + 1)
         | Inr (x, i) \<Rightarrow> Inr (x, i + nweight l + 1))
      else if h v > 0 then find_internal_zero h l
      else (case find_internal_zero h l of Inl _ \<Rightarrow> Inr (v, nweight l) | Inr xi \<Rightarrow> Inr xi))"

partial_function (option) find_plus_loop ::
  "('a \<Rightarrow> int) \<Rightarrow> (nat \<Rightarrow> 'a) \<Rightarrow> nat \<Rightarrow> nat \<Rightarrow> nat option \<Rightarrow> nat option option" where
  "find_plus_loop h values min' limit best =
     (if min' \<noteq> limit then
        let mid = (min' + limit) div 2;
            hv = h (values mid)
        in if hv > 0 then find_plus_loop h values min' mid (Some mid)
           else find_plus_loop h values (mid + 1) limit best
      else Some best)"

definition find_internal_plus_array :: "('a \<Rightarrow> int) \<Rightarrow> 'a omt \<Rightarrow> ('a \<times> nat) option option" where
  "find_internal_plus_array h q = do {
     best \<leftarrow> find_plus_loop h (a_values q) (a_start_idx q) (a_start_idx q + a_num_values q) None;
     Some (map_option (\<lambda>b. (a_values q b, b - a_start_idx q)) best)
   }"

fun find_internal_plus :: "('a \<Rightarrow> int) \<Rightarrow> 'a omt_tree \<Rightarrow> ('a \<times> nat) option" where
  "find_internal_plus h Null = None"
| "find_internal_plus h (Node w mk bl l v r) =
     (if h v > 0 then
        (case find_internal_plus h l of None \<Rightarrow> Some (v, nweight l) | Some xi \<Rightarrow> Some xi)
      else (case find_internal_plus h r of None \<Rightarrow> None | Some (x, i) \<Rightarrow> Some (x, i + nweight l + 1)))"

partial_function (option) find_minus_loop ::
  "('a \<Rightarrow> int) \<Rightarrow> (nat \<Rightarrow> 'a) \<Rightarrow> nat \<Rightarrow> nat \<Rightarrow> nat option \<Rightarrow> nat option option" where
  "find_minus_loop h values min' limit best =
     (if min' \<noteq> limit then
        let mid = (min' + limit) div 2;
            hv = h (values mid)
        in if hv < 0 then find_minus_loop h values (mid + 1) limit (Some mid)
           else find_minus_loop h values min' mid best
      else Some best)"

definition find_internal_minus_array :: "('a \<Rightarrow> int) \<Rightarrow> 'a omt \<Rightarrow> ('a \<times> nat) option option" where
  "find_internal_minus_array h q = do {
     best \<leftarrow> find_minus_loop h (a_values q) (a_start_idx q) (a_start_idx q + a_num_values q) None;
     Some (map_option (\<lambda>b. (a_values q b, b - a_start_idx q)) best)
   }"

fun find_internal_minus :: "('a \<Rightarrow> int) \<Rightarrow> 'a omt_tree \<Rightarrow> ('a \<times> nat) option" where
  "find_internal_minus h Null = None"
| "find_internal_minus h (Node w mk bl l v r) =
     (if h v < 0 then
        (case find_internal_minus h r of
           Some (x, i) \<Rightarrow> Some (x, i + nweight l + 1)
         | None \<Rightarrow> Some (v, nweight l))
      else find_internal_minus h l)"

definition find_zero :: "('a \<Rightarrow> int) \<Rightarrow> 'a omt \<Rightarrow> (nat + 'a \<times> nat) option" where
  "find_zero h q = (if is_array q then find_internal_zero_array h q else Some (find_internal_zero h (t_root q)))"

text \<open>\<open>find\<close> with a negative and with a positive direction.\<close>

definition find_minus :: "('a \<Rightarrow> int) \<Rightarrow> 'a omt \<Rightarrow> ('a \<times> nat) option option" where
  "find_minus h q = (if is_array q then find_internal_minus_array h q else Some (find_internal_minus h (t_root q)))"

definition find_plus :: "('a \<Rightarrow> int) \<Rightarrow> 'a omt \<Rightarrow> ('a \<times> nat) option option" where
  "find_plus h q = (if is_array q then find_internal_plus_array h q else Some (find_internal_plus h (t_root q)))"

definition insert_omt :: "bool \<Rightarrow> 'a \<Rightarrow> ('a \<Rightarrow> int) \<Rightarrow> 'a omt \<Rightarrow> ((ft_error \<times> nat) + 'a omt \<times> nat) option" where
  "insert_omt sm v h q = do {
     r \<leftarrow> find_zero h q;
     case r of
       Inr (_, insert_idx) \<Rightarrow> Some (Inl (DB_KEYEXIST, insert_idx))
     | Inl insert_idx \<Rightarrow> do {
         r \<leftarrow> insert_at sm v insert_idx q;
         Some (case r of Inl e \<Rightarrow> Inl (e, insert_idx) | Inr q \<Rightarrow> Inr (q, insert_idx))
       }
   }"

end
