(* ===== verification/Omt_Tree.thy ===== *)
theory Omt_Tree
  imports Omt
begin

text \<open>
  The tree representation of the order maintenance tree: the recursive insertion, deletion, update and
  access compute on the in-order sequence what their names say and keep the weights right. The tree stays
  weight balanced: an insertion or deletion notes the highest subtree that it unbalances, and rebuilding
  that one restores the balance, so that the recursions of the class are of logarithmic depth.
\<close>

subsection \<open>The invariant of the tree\<close>

abbreviation vals :: "'a omt_tree \<Rightarrow> 'a list" where
  "vals \<equiv> fill_array_with_subtree_values"

fun weights_ok :: "'a omt_tree \<Rightarrow> bool" where
  "weights_ok Null = True"
| "weights_ok (Node w mk bl l v r) \<longleftrightarrow> w = length (vals l) + length (vals r) + 1 \<and> weights_ok l \<and> weights_ok r"

fun unmarked :: "'a omt_tree \<Rightarrow> bool" where
  "unmarked Null = True"
| "unmarked (Node w mk bl l v r) \<longleftrightarrow> \<not> mk \<and> \<not> bl \<and> unmarked l \<and> unmarked r"

definition tree_ok :: "'a omt_tree \<Rightarrow> bool" where
  "tree_ok t \<longleftrightarrow> weights_ok t \<and> unmarked t"

lemma tree_ok_simps [simp]:
  "tree_ok Null" "tree_ok (Node w mk bl l v r) \<longleftrightarrow> \<not> mk \<and> \<not> bl \<and> w = length (vals l) + length (vals r) + 1 \<and> tree_ok l \<and> tree_ok r"
  by (auto simp: tree_ok_def)

lemma nweight_vals: "weights_ok t \<Longrightarrow> nweight t = length (vals t)"
  by (cases t) auto

lemma tree_okD: "tree_ok t \<Longrightarrow> weights_ok t" "tree_ok t \<Longrightarrow> nweight t = length (vals t)" "tree_ok t \<Longrightarrow> \<not> has_marks t"
  by (simp_all add: tree_ok_def nweight_vals) (cases t; simp)

lemma vals_empty [simp]: "vals t = [] \<longleftrightarrow> t = Null"
  by (cases t) auto

lemma rebuild_from_sorted_array_ok:
  assumes "free + length vs \<le> cap"
  shows "\<exists>t. rebuild_from_sorted_array cap vs free = Some (t, free + length vs) \<and> vals t = vs \<and> tree_ok t"
  using assms
proof (induction cap vs free rule: rebuild_from_sorted_array.induct)
  case (1 cap vs free)
  show ?case
  proof (cases "length vs = 0")
    case True
    then show ?thesis by (subst rebuild_from_sorted_array.simps) simp
  next
    case False
    let ?h = "length vs div 2"
    have h: "?h < length vs" using False by simp
    have m: "node_malloc cap free = Some (free + 1)" using 1(3) False by (cases vs) (auto simp: node_malloc_def)
    obtain l where l: "rebuild_from_sorted_array cap (take ?h vs) (free + 1) = Some (l, free + 1 + ?h)" "vals l = take ?h vs" "tree_ok l"
      using 1(1) [OF False refl m] 1(3) h by auto
    obtain r where r: "rebuild_from_sorted_array cap (drop (?h + 1) vs) (free + 1 + ?h) = Some (r, free + length vs)"
      "vals r = drop (?h + 1) vs" "tree_ok r"
    proof -
      have e: "free + 1 + ?h + length (drop (?h + 1) vs) = free + length vs" using h by simp
      show thesis using 1(2) [OF False refl m l(1) refl] 1(3) that unfolding e by blast
    qed
    have "take ?h vs @ vs ! ?h # drop (Suc ?h) vs = vs" using id_take_nth_drop [OF h] by simp
    moreover have "length vs = Suc (?h + (length vs - Suc ?h))" using h by linarith
    ultimately show ?thesis
      using False m l r by (subst rebuild_from_sorted_array.simps) (simp add: Let_def, use h in linarith)
  qed
qed

lemma rebuild_subtree_ok:
  "map fst idxs = vals (rebuild_subtree_from_idxs idxs) \<and>
   ((\<forall>x\<in>set idxs. \<not> fst (snd x) \<and> \<not> snd (snd x)) \<longrightarrow> tree_ok (rebuild_subtree_from_idxs idxs))"
proof (induction idxs rule: rebuild_subtree_from_idxs.induct)
  case (1 idxs)
  show ?case
  proof (cases "length idxs = 0")
    case True
    then show ?thesis by (simp add: rebuild_subtree_from_idxs.simps)
  next
    case False
    let ?h = "length idxs div 2"
    obtain v mk bl where x: "idxs ! ?h = (v, mk, bl)" by (cases "idxs ! ?h") auto
    have h: "?h < length idxs" using False by simp
    note IH = 1 [OF False refl x [symmetric] refl]
    have s: "idxs = take ?h idxs @ (v, mk, bl) # drop (Suc ?h) idxs" using id_take_nth_drop [OF h] x by simp
    have t: "rebuild_subtree_from_idxs idxs = Node (length idxs) mk bl (rebuild_subtree_from_idxs (take ?h idxs)) v
        (rebuild_subtree_from_idxs (drop (Suc ?h) idxs))"
      using False x by (subst rebuild_subtree_from_idxs.simps) (simp add: Let_def)
    have v: "map fst idxs = vals (rebuild_subtree_from_idxs idxs)"
      unfolding t using arg_cong [OF s, of "map fst"] IH by (simp del: append_take_drop_id)
    have "length (vals (rebuild_subtree_from_idxs (take ?h idxs))) = ?h"
      "length (vals (rebuild_subtree_from_idxs (drop (Suc ?h) idxs))) = length idxs - Suc ?h"
      using IH h by (metis length_map length_take min.absorb4, metis length_map length_drop Suc_eq_plus1)
    then have "tree_ok (rebuild_subtree_from_idxs idxs)" if a: "\<forall>x\<in>set idxs. \<not> fst (snd x) \<and> \<not> snd (snd x)"
      unfolding t using IH a h x nth_mem [OF h] by (auto dest!: in_set_takeD in_set_dropD)
    then show ?thesis using v by blast
  qed
qed

lemma idxs_vals: "map fst (fill_array_with_subtree_idxs t) = vals t"
  "tree_ok t \<Longrightarrow> \<forall>x\<in>set (fill_array_with_subtree_idxs t). \<not> fst (snd x) \<and> \<not> snd (snd x)"
  by (induction t) auto

definition rebuilt :: "'a omt_tree \<Rightarrow> 'a omt_tree" where
  "rebuilt st = rebuild_subtree_from_idxs (fill_array_with_subtree_idxs st)"

lemma rebuilt_ok: "vals (rebuilt t) = vals t" "tree_ok t \<Longrightarrow> tree_ok (rebuilt t)"
  using rebuild_subtree_ok [of "fill_array_with_subtree_idxs t"] idxs_vals [of t] by (auto simp: rebuilt_def)

lemma subtree_at_ok:
  assumes "\<And>t. vals (f t) = vals t" "\<And>t. tree_ok t \<Longrightarrow> tree_ok (f t)"
  shows "vals (subtree_at f p t) = vals t \<and> (tree_ok t \<longrightarrow> tree_ok (subtree_at f p t))"
  using assms by (induction f p t rule: subtree_at.induct) auto

lemma subtree_at_rebuilt: "vals (subtree_at rebuilt p t) = vals t \<and> (tree_ok t \<longrightarrow> tree_ok (subtree_at rebuilt p t))"
  by (rule subtree_at_ok) (auto simp: rebuilt_ok)

subsection \<open>Balanced trees\<close>

declare will_need_rebalance.simps [simp del]

fun balanced :: "'a omt_tree \<Rightarrow> bool" where
  "balanced Null = True"
| "balanced (Node w mk bl l v r) \<longleftrightarrow> \<not> will_need_rebalance (Node w mk bl l v r) 0 0 \<and> balanced l \<and> balanced r"

fun height :: "'a omt_tree \<Rightarrow> nat" where
  "height Null = 0"
| "height (Node w mk bl l v r) = max (height l) (height r) + 1"

lemma will_need_rebalance_iff:
  "will_need_rebalance (Node w mk bl l v r) i j \<longleftrightarrow>
     2 * (1 + int (nweight l) + i) < 1 + int (nweight r) + j \<or> 2 * (1 + int (nweight r) + j) < 1 + int (nweight l) + i"
  by (auto simp: will_need_rebalance.simps Let_def)

lemma height_bound: "weights_ok t \<Longrightarrow> balanced t \<Longrightarrow> 3 ^ height t \<le> 2 ^ height t * (1 + length (vals t))"
proof (induction t)
  case (Node w mk bl l v r)
  let ?a = "1 + length (vals l)" and ?b = "1 + length (vals r)"
  have IH: "3 ^ height l \<le> 2 ^ height l * ?a" "3 ^ height r \<le> 2 ^ height r * ?b" using Node by auto
  have ab: "?b \<le> 2 * ?a" "?a \<le> 2 * ?b" using Node.prems by (auto simp: will_need_rebalance_iff nweight_vals)
  have step: "3 ^ Suc k \<le> 2 ^ Suc k * (x + y)" if "3 ^ k \<le> 2 ^ k * x" "x \<le> 2 * y" for k x y :: nat
  proof -
    have "3 ^ Suc k \<le> 2 ^ k * (3 * x)" using that(1) by simp
    also have "\<dots> \<le> 2 ^ k * (2 * (x + y))" using that(2) by (intro mult_le_mono2) simp
    finally show ?thesis by (simp add: algebra_simps)
  qed
  show ?case
    using step [OF IH(1) ab(2)] step [OF IH(2) ab(1)] by (simp add: max_def add.commute add.left_commute)
qed simp

lemma halves_balanced:
  "0 < n \<Longrightarrow> \<not> 1 + 2 * int (n div 2) < int (n - Suc (n div 2)) \<and> \<not> 1 + 2 * int (n - Suc (n div 2)) < int (n div 2)"
  by (cases "even n") (auto elim!: evenE oddE)

lemma rebuilt_balanced: "balanced (rebuild_subtree_from_idxs idxs)"
proof (induction idxs rule: rebuild_subtree_from_idxs.induct)
  case (1 idxs)
  show ?case
  proof (cases "length idxs = 0")
    case True
    then show ?thesis by (simp add: rebuild_subtree_from_idxs.simps)
  next
    case False
    let ?h = "length idxs div 2"
    obtain v mk bl where x: "idxs ! ?h = (v, mk, bl)" by (cases "idxs ! ?h") auto
    have t: "rebuild_subtree_from_idxs idxs = Node (length idxs) mk bl (rebuild_subtree_from_idxs (take ?h idxs)) v
        (rebuild_subtree_from_idxs (drop (Suc ?h) idxs))"
      using False x by (subst rebuild_subtree_from_idxs.simps) (simp add: Let_def)
    have w: "nweight (rebuild_subtree_from_idxs is) = length is" for "is" :: "('a \<times> bool \<times> bool) list"
      by (subst rebuild_subtree_from_idxs.simps) (simp add: Let_def split: prod.split)
    show ?thesis using 1 [OF False refl x [symmetric] refl] halves_balanced [of "length idxs"] False by (simp add: t will_need_rebalance_iff w)
  qed
qed

lemma rebuild_from_sorted_array_balanced:
  "rebuild_from_sorted_array cap vs free = Some (t, free') \<Longrightarrow> balanced t \<and> nweight t = length vs"
proof (induction cap vs free arbitrary: t free' rule: rebuild_from_sorted_array.induct)
  case (1 cap vs free)
  show ?case
  proof (cases "length vs = 0")
    case True
    then show ?thesis using 1(3) by (simp add: rebuild_from_sorted_array.simps)
  next
    case False
    let ?h = "length vs div 2"
    obtain f1 l f2 r where m: "node_malloc cap free = Some f1"
      and l: "rebuild_from_sorted_array cap (take ?h vs) f1 = Some (l, f2)"
      and r: "rebuild_from_sorted_array cap (drop (?h + 1) vs) f2 = Some (r, free')"
      and t: "t = Node (length vs) False False l (vs ! ?h) r"
      using 1(3) False by (subst (asm) rebuild_from_sorted_array.simps) (auto simp: Let_def split: option.splits)
    show ?thesis
      using 1(1) [OF False refl m l] 1(2) [OF False refl m l refl r] halves_balanced [of "length vs"] False by (simp add: t will_need_rebalance_iff)
  qed
qed

text \<open>
  The tree \<open>t\<close> that an operation made below \<open>p\<close> is balanced once the noted subtree, if any, is rebuilt.
  A subtree noted before is the one that is kept.
\<close>

definition rebalances :: "path \<Rightarrow> path option \<Rightarrow> path option \<Rightarrow> 'a omt_tree \<Rightarrow> bool" where
  "rebalances p reb reb' t \<longleftrightarrow>
     (case reb of
        Some _ \<Rightarrow> reb' = reb
      | None \<Rightarrow>
          (case reb' of
             None \<Rightarrow> balanced t
           | Some p' \<Rightarrow> \<exists>q. p' = p @ q \<and> balanced (subtree_at rebuilt q t)))"

lemma nweight_subtree_at: "tree_ok t \<Longrightarrow> nweight (subtree_at rebuilt q t) = nweight t"
  using subtree_at_rebuilt [of q t] by (metis tree_okD(2))

lemma rebalances_self: "balanced (rebuilt t)"
  by (simp add: rebuilt_def rebuilt_balanced)

lemma rebalances_left:
  assumes "rebalances (p @ [False]) (note_rebalance reb p nd) reb' l'" "balanced r" "tree_ok l'"
    and "nd \<longleftrightarrow> will_need_rebalance (Node w mk bl l' v r) 0 0"
  shows "rebalances p reb reb' (Node w mk bl l' v r)"
  using assms
  by (auto simp: rebalances_def note_rebalance_def rebalances_self
      will_need_rebalance_iff nweight_subtree_at split: option.splits if_splits)

lemma rebalances_right:
  assumes "rebalances (p @ [True]) (note_rebalance reb p nd) reb' r'" "balanced l" "tree_ok r'"
    and "nd \<longleftrightarrow> will_need_rebalance (Node w mk bl l v r') 0 0"
  shows "rebalances p reb reb' (Node w mk bl l v r')"
  using assms
  by (auto simp: rebalances_def note_rebalance_def rebalances_self
      will_need_rebalance_iff nweight_subtree_at split: option.splits if_splits)

subsection \<open>Insertion and deletion in the tree\<close>

lemma insert_internal_ok:
  assumes "tree_ok t" "idx \<le> length (vals t)" "free < cap"
  shows "\<exists>t' reb'. insert_internal cap t v idx p reb free = Some (t', reb', free + 1) \<and>
    vals t' = take idx (vals t) @ v # drop idx (vals t) \<and> tree_ok t' \<and> (balanced t \<longrightarrow> rebalances p reb reb' t')"
  using assms
proof (induction t arbitrary: idx p reb)
  case Null
  then show ?case by (auto simp: node_malloc_def rebalances_def will_need_rebalance_iff split: option.splits)
next
  case (Node w mk bl l x r)
  have w: "nweight l = length (vals l)" using Node.prems(1) tree_okD(2) by auto
  show ?case
  proof (cases "idx \<le> nweight l")
    case True
    let ?reb = "note_rebalance reb p (will_need_rebalance (Node w mk bl l x r) 1 0)"
    obtain l' reb' where l': "insert_internal cap l v idx (p @ [False]) ?reb free = Some (l', reb', free + 1)"
      "vals l' = take idx (vals l) @ v # drop idx (vals l)" "tree_ok l'" "balanced l \<longrightarrow> rebalances (p @ [False]) ?reb reb' l'"
      using Node.IH(1) [of idx "p @ [False]" ?reb] Node.prems True w by auto
    have "nweight l' = nweight l + 1" using l'(2,3) w by (simp add: tree_okD)
    then have "rebalances p reb reb' (Node (w + 1) mk bl l' x r)" if "balanced (Node w mk bl l x r)"
      using rebalances_left l'(3,4) that by (fastforce simp: will_need_rebalance_iff)
    then show ?thesis using True w Node.prems(1) l' by simp
  next
    case False
    let ?reb = "note_rebalance reb p (will_need_rebalance (Node w mk bl l x r) 0 1)"
    let ?i = "idx - nweight l - 1"
    have i: "idx = length (vals l) + 1 + ?i" using False w by simp
    have le: "tree_ok r" "?i \<le> length (vals r)" using Node.prems i by auto
    obtain r' reb' where r': "insert_internal cap r v ?i (p @ [True]) ?reb free = Some (r', reb', free + 1)"
      "vals r' = take ?i (vals r) @ v # drop ?i (vals r)" "tree_ok r'" "balanced r \<longrightarrow> rebalances (p @ [True]) ?reb reb' r'"
      using Node.IH(2) [OF le Node.prems(3)] by blast
    have "nweight r' = nweight r + 1" using r'(2,3) le by (simp add: tree_okD)
    then have "rebalances p reb reb' (Node (w + 1) mk bl l x r')" if "balanced (Node w mk bl l x r)"
      using rebalances_right r'(3,4) that by (fastforce simp: will_need_rebalance_iff)
    moreover
    have "take idx (vals l @ x # vals r) = vals l @ x # take ?i (vals r)" "drop idx (vals l @ x # vals r) = drop ?i (vals r)"
      by (subst i, simp)+
    ultimately show ?thesis using False w Node.prems(1) r' by simp
  qed
qed

lemma delete_internal_ok:
  assumes "tree_ok t" "idx < length (vals t)"
  shows "\<exists>t' c reb'. delete_internal t idx p reb = Some (t', c, reb') \<and>
    vals t' = take idx (vals t) @ drop (Suc idx) (vals t) \<and> tree_ok t' \<and> (idx = 0 \<longrightarrow> c = Some (vals t ! 0)) \<and>
    (balanced t \<longrightarrow> rebalances p reb reb' t')"
  using assms
proof (induction t arbitrary: idx p reb)
  case (Node w mk bl l x r)
  have w: "nweight l = length (vals l)" using Node.prems(1) tree_okD(2) by auto
  consider (left) "idx < nweight l" | (here) "idx = nweight l" | (right) "nweight l < idx" by linarith
  then show ?case
  proof cases
    case left
    let ?reb = "note_rebalance reb p (will_need_rebalance (Node w mk bl l x r) (- 1) 0)"
    obtain l' c reb' where l': "delete_internal l idx (p @ [False]) ?reb = Some (l', c, reb')"
      "vals l' = take idx (vals l) @ drop (Suc idx) (vals l)" "tree_ok l'" "idx = 0 \<longrightarrow> c = Some (vals l ! 0)"
      "balanced l \<longrightarrow> rebalances (p @ [False]) ?reb reb' l'"
      using Node.IH(1) [of idx "p @ [False]" ?reb] Node.prems left w by auto
    have "int (nweight l') = int (nweight l) - 1" using l'(2,3) w left by (simp add: tree_okD)
    then have "rebalances p reb reb' (Node (w - 1) mk bl l' x r)" if "balanced (Node w mk bl l x r)"
      using rebalances_left l'(3,5) that by (fastforce simp: will_need_rebalance_iff)
    then show ?thesis using left w Node.prems(1) l' by (auto simp: nth_append Let_def)
  next
    case here
    show ?thesis
    proof (cases "l = Null \<or> r = Null")
      case True
      then show ?thesis using here w Node.prems(1) by (cases "l = Null") (auto simp: rebalances_def split: option.splits)
    next
      case False
      let ?reb = "note_rebalance reb p (will_need_rebalance (Node w mk bl l x r) 0 (- 1))"
      have "0 < length (vals r)" using False by simp
      then obtain r' reb' where r': "delete_internal r 0 (p @ [True]) ?reb = Some (r', Some (vals r ! 0), reb')"
        "vals r' = drop (Suc 0) (vals r)" "tree_ok r'" "balanced r \<longrightarrow> rebalances (p @ [True]) ?reb reb' r'"
        using Node.IH(2) [of 0 "p @ [True]" ?reb] Node.prems by auto
      have "int (nweight r') = int (nweight r) - 1" using r'(2,3) Node.prems(1) False by (cases "vals r") (simp_all add: tree_okD)
      then have "rebalances p reb reb' (Node (w - 1) mk bl l y r')" if "balanced (Node w mk bl l x r)" for y
        using rebalances_right r'(3,4) that by (fastforce simp: will_need_rebalance_iff)
      moreover have "vals r ! 0 # drop (Suc 0) (vals r) = vals r" using False by (cases "vals r") auto
      moreover have "idx \<noteq> 0" using False here w by auto
      ultimately show ?thesis using False here w Node.prems(1) r' by (auto simp: Let_def)
    qed
  next
    case right
    let ?reb = "note_rebalance reb p (will_need_rebalance (Node w mk bl l x r) 0 (- 1))"
    let ?i = "idx - nweight l - 1"
    have i: "idx = length (vals l) + 1 + ?i" using right w by simp
    have le: "tree_ok r" "?i < length (vals r)" using Node.prems i by auto
    obtain r' c reb' where r': "delete_internal r ?i (p @ [True]) ?reb = Some (r', c, reb')"
      "vals r' = take ?i (vals r) @ drop (Suc ?i) (vals r)" "tree_ok r'" "balanced r \<longrightarrow> rebalances (p @ [True]) ?reb reb' r'"
      using Node.IH(2) [OF le] by blast
    have "int (nweight r') = int (nweight r) - 1" using r'(2,3) le by (simp add: tree_okD)
    then have "rebalances p reb reb' (Node (w - 1) mk bl l x r')" if "balanced (Node w mk bl l x r)"
      using rebalances_right r'(3,4) that by (fastforce simp: will_need_rebalance_iff)
    moreover
    have "take idx (vals l @ x # vals r) = vals l @ x # take ?i (vals r)"
      "drop (Suc idx) (vals l @ x # vals r) = drop (Suc ?i) (vals r)"
      by (subst i, simp)+
    moreover have "length (vals r') = length (vals r) - 1" using r'(2) le(2) by simp
    ultimately show ?thesis using right w Node.prems(1) r' le(2) by (simp add: Let_def)
  qed
qed simp

lemma set_at_internal_ok:
  "tree_ok t \<Longrightarrow> idx < length (vals t) \<Longrightarrow>
     \<exists>t'. set_at_internal t v idx = Some t' \<and> vals t' = (vals t)[idx := v] \<and> tree_ok t' \<and> (balanced t \<longrightarrow> balanced t')"
proof (induction t arbitrary: idx)
  case (Node w mk bl l x r)
  have w: "nweight l = length (vals l)" using Node.prems(1) tree_okD(2) by auto
  consider (left) "idx < nweight l" | (here) "idx = nweight l" | (right) "nweight l < idx" by linarith
  then show ?case
  proof cases
    case left
    then show ?thesis using Node.IH(1) [of idx] Node.prems w by (auto simp: list_update_append will_need_rebalance_iff tree_okD)
  next
    case here
    then show ?thesis using w Node.prems by (auto simp: will_need_rebalance_iff)
  next
    case right
    then obtain i where i: "idx = length (vals l) + 1 + i" using w by (metis less_imp_Suc_add add.commute add_Suc_right Suc_eq_plus1 add.assoc)
    then show ?thesis using Node.IH(2) [of i] Node.prems w by (auto simp: list_update_append will_need_rebalance_iff tree_okD)
  qed
qed simp

lemma fetch_internal_ok: "weights_ok t \<Longrightarrow> i < length (vals t) \<Longrightarrow> fetch_internal t i = Some (vals t ! i)"
proof (induction t arbitrary: i)
  case (Node w mk bl l x r)
  then have w: "nweight l = length (vals l)" by (simp add: nweight_vals)
  show ?case
  proof (cases "nweight l < i")
    case True
    then obtain j where "i = length (vals l) + 1 + j" using w by (metis less_imp_Suc_add add.commute add_Suc_right Suc_eq_plus1 add.assoc)
    then show ?thesis using Node w by (simp add: nth_append)
  qed (use Node w in \<open>auto simp: nth_append\<close>)
qed simp

end
