(* ===== verification/Omt_Refine.thy ===== *)
theory Omt_Refine
  imports Omt_Tree
begin

text \<open>
  The order maintenance tree implements the sequence of \<open>Omt_Spec\<close>: in either representation, and
  across all conversions, every operation returns and computes the specified sequence and result
  code.
\<close>

subsection \<open>The invariant of the class and its conversions\<close>

definition omt_wf :: "bool \<Rightarrow> 'a omt \<Rightarrow> bool" where
  "omt_wf sm q \<longleftrightarrow>
     (if is_array q then \<not> sm \<and> a_start_idx q + a_num_values q \<le> capacity q
      else tree_ok (t_root q) \<and> balanced (t_root q) \<and> length (vals (t_root q)) \<le> t_free_idx q \<and> t_free_idx q \<le> capacity q)"

definition omt_list :: "'a omt \<Rightarrow> 'a list" where
  "omt_list q = (if is_array q then array_values q else vals (t_root q))"

definition implements :: "bool \<Rightarrow> 'a omt \<Rightarrow> 'a list \<Rightarrow> bool" where
  "implements sm q vs \<longleftrightarrow> omt_wf sm q \<and> omt_list q = vs"

lemma length_array_values [simp]: "length (array_values q) = a_num_values q"
  by (simp add: array_values_def)

lemma nth_array_values [simp]: "i < a_num_values q \<Longrightarrow> array_values q ! i = a_values q (a_start_idx q + i)"
  by (simp add: array_values_def)

lemma array_values_eq:
  "length vs = a_num_values q \<Longrightarrow> (\<And>i. i < a_num_values q \<Longrightarrow> a_values q (a_start_idx q + i) = vs ! i) \<Longrightarrow> array_values q = vs"
  by (rule nth_equalityI) auto

lemma omt_size_eq: "omt_wf sm q \<Longrightarrow> omt_size q = length (omt_list q)"
  by (auto simp: omt_size_def omt_list_def omt_wf_def tree_okD)

lemma barf_if_marked_ok: "omt_wf sm q \<Longrightarrow> barf_if_marked sm q = Some ()"
  by (auto simp: omt_wf_def barf_if_marked_def tree_okD split: if_splits)

definition array_ok :: "'a omt \<Rightarrow> bool" where
  "array_ok q \<longleftrightarrow> is_array q \<and> a_start_idx q + a_num_values q \<le> capacity q"

lemma array_ok_wf [simp]: "array_ok q \<Longrightarrow> omt_wf False q"
  by (simp add: array_ok_def omt_wf_def)

lemma convert_to_array_tree:
  assumes "\<not> is_array q" "tree_ok (t_root q)"
  shows "array_ok (convert_to_array q)" "omt_list (convert_to_array q) = vals (t_root q)"
  using assms
  by (auto simp: convert_to_array_def array_ok_def Let_def omt_list_def omt_size_def tree_okD intro!: array_values_eq)

lemma convert_to_array_ok:
  assumes "omt_wf sm q"
  shows "array_ok (convert_to_array q)" "omt_list (convert_to_array q) = omt_list q"
  using assms convert_to_array_tree [of q]
  by (cases "is_array q"; simp add: omt_wf_def omt_list_def; simp add: convert_to_array_def array_ok_def)+

definition tree_room :: "'a omt \<Rightarrow> bool" where
  "tree_room q \<longleftrightarrow> \<not> is_array q \<and> t_free_idx q < capacity q"

lemma convert_to_tree_array:
  assumes "is_array q"
  shows "returns (convert_to_tree q) (\<lambda>q'. omt_wf sm q' \<and> tree_room q' \<and> omt_list q' = omt_list q)"
proof -
  let ?n = "a_num_values q"
  let ?size = "if ?n * 2 < 4 then 4 else ?n * 2"
  have "0 + length (array_values q) \<le> ?size" by simp
  from rebuild_from_sorted_array_ok [OF this]
  obtain t where "rebuild_from_sorted_array ?size (array_values q) 0 = Some (t, ?n)" "vals t = array_values q" "tree_ok t"
    unfolding add_0 length_array_values by blast
  then show ?thesis
    using assms rebuild_from_sorted_array_balanced [of ?size "array_values q" 0]
    by (auto simp: convert_to_tree_def omt_size_def omt_wf_def tree_room_def omt_list_def Let_def)
qed

lemma convert_to_tree_ok:
  assumes "omt_wf sm q"
  shows "returns (convert_to_tree q) (\<lambda>q'. omt_wf sm q' \<and> \<not> is_array q' \<and> omt_list q' = omt_list q)"
proof (cases "is_array q")
  case True
  show ?thesis by (rule returns_mono [OF convert_to_tree_array [OF True]]) (auto simp: tree_room_def)
qed (use assms in \<open>simp add: convert_to_tree_def\<close>)

text \<open>The tail shared by the operations: a tree that supports marks goes back to a tree.\<close>

lemma finish_array:
  assumes "array_ok q"
  shows "returns (if sm then convert_to_tree q else Some q) (\<lambda>q'. omt_wf sm q' \<and> (if is_array q' then q' = q else tree_room q') \<and>
    omt_list q' = omt_list q)"
proof (cases sm)
  case True
  have "is_array q" using assms by (simp add: array_ok_def)
  show ?thesis using True returns_mono [OF convert_to_tree_array [OF \<open>is_array q\<close>, of sm]] by (auto simp: tree_room_def)
qed (use assms in \<open>simp add: array_ok_def omt_wf_def\<close>)

lemma maybe_resize_array_ok:
  assumes "array_ok q" "a_num_values q \<le> n + 1"
  shows "returns (maybe_resize_array n q) (\<lambda>q'. array_ok q' \<and> omt_list q' = omt_list q \<and>
    a_num_values q' = a_num_values q \<and> (a_num_values q < n \<longrightarrow> a_start_idx q' + a_num_values q' < capacity q'))"
  using assms
  by (auto simp: maybe_resize_array_def Let_def array_ok_def omt_list_def array_values_def)

lemma maybe_resize_or_convert_ok:
  assumes "omt_wf sm q" "length (omt_list q) \<le> n + 1"
  shows "returns (maybe_resize_or_convert sm n q) (\<lambda>q'. omt_wf sm q' \<and> omt_list q' = omt_list q \<and>
    (length (omt_list q) < n \<longrightarrow> (if is_array q' then a_start_idx q' + a_num_values q' < capacity q' else tree_room q')))"
proof (cases "is_array q")
  case True
  then have q: "array_ok q" "\<not> sm" "length (omt_list q) = a_num_values q" using assms by (auto simp: omt_wf_def array_ok_def omt_list_def)
  show ?thesis
    unfolding maybe_resize_or_convert_def if_P [OF True]
    by (rule returns_mono [OF maybe_resize_array_ok]) (use q assms in \<open>auto simp: array_ok_def omt_wf_def\<close>)
next
  case False
  have n: "nweight (t_root q) = length (omt_list q)" using assms False by (simp add: omt_wf_def omt_list_def tree_okD)
  let ?c = "convert_to_array q"
  have c: "array_ok ?c" "omt_list ?c = omt_list q" using convert_to_array_ok [OF assms(1)] by auto
  have room: "a_start_idx ?c + a_num_values ?c < capacity ?c"
    using False by (simp add: convert_to_array_def Let_def)
  show ?thesis
  proof (cases "capacity q div 2 \<ge> (if n \<le> 2 then 4 else 2 * n) \<or> (t_free_idx q \<ge> capacity q \<and> nweight (t_root q) < n) \<or> capacity q < n")
    case True
    show ?thesis
      unfolding maybe_resize_or_convert_def Let_def if_not_P [OF False] if_P [OF True]
      by (rule returns_mono [OF finish_array [OF c(1), of sm]]) (use c room in auto)
  next
    case False': False
    then show ?thesis using False assms n by (auto simp: maybe_resize_or_convert_def Let_def tree_room_def)
  qed
qed

lemma maybe_rebalance_ok:
  assumes "\<not> is_array q" "tree_ok (t_root q)" "length (vals (t_root q)) \<le> t_free_idx q" "t_free_idx q \<le> capacity q"
    and "rebalances [] None reb (t_root q)"
  shows "returns (maybe_rebalance sm reb q) (\<lambda>q'. implements sm q' (vals (t_root q)))"
proof (cases reb)
  case None
  then show ?thesis using assms by (simp add: maybe_rebalance_def implements_def omt_wf_def omt_list_def rebalances_def)
next
  case (Some p)
  have f: "(\<lambda>st. rebuild_subtree_from_idxs (fill_array_with_subtree_idxs st)) = rebuilt" by (rule ext) (simp add: rebuilt_def)
  have c: "array_ok (convert_to_array q)" "omt_list (convert_to_array q) = vals (t_root q)"
    using assms convert_to_array_tree by blast+
  show ?thesis
  proof (cases "p = []")
    case True
    show ?thesis
      unfolding maybe_rebalance_def omt_rebalance_def Some option.case if_P [OF True]
      by (rule returns_mono [OF finish_array [OF c(1)]]) (use c(2) in \<open>auto simp: implements_def\<close>)
  next
    case False
    then show ?thesis
      using Some assms subtree_at_rebuilt [of p "t_root q"]
      by (simp add: maybe_rebalance_def omt_rebalance_def f implements_def omt_wf_def omt_list_def rebalances_def)
  qed
qed

subsection \<open>Operations by index\<close>

definition same_result :: "(ft_error + 'b) \<Rightarrow> ('a \<Rightarrow> 'b \<Rightarrow> bool) \<Rightarrow> ft_error + 'a \<Rightarrow> bool" where
  "same_result spec R res =
     (case spec of Inl e \<Rightarrow> res = Inl e | Inr y \<Rightarrow> (case res of Inl _ \<Rightarrow> False | Inr x \<Rightarrow> R x y))"

lemma same_result_simps [simp]:
  "same_result (Inl e) R res = (res = Inl e)" "same_result (Inr y) R (Inr x) = R x y" "\<not> same_result (Inr y) R (Inl e)"
  by (auto simp: same_result_def)

lemma array_snoc:
  assumes "array_ok q" "a_start_idx q + a_num_values q < capacity q"
  shows "implements False (q\<lparr>a_values := (a_values q)(a_start_idx q + a_num_values q := v), a_num_values := a_num_values q + 1\<rparr>)
    (omt_list q @ [v])"
proof -
  have "map (\<lambda>i. ((a_values q)(a_start_idx q + a_num_values q := v)) (a_start_idx q + i)) [0..<a_num_values q] = array_values q"
    by (auto simp: array_values_def)
  then show ?thesis using assms by (simp add: implements_def omt_wf_def array_ok_def omt_list_def array_values_def)
qed

lemma array_cons:
  assumes "array_ok q" "a_start_idx q \<noteq> 0"
  shows "implements False (q\<lparr>a_start_idx := a_start_idx q - 1, a_values := (a_values q)(a_start_idx q - 1 := v),
    a_num_values := a_num_values q + 1\<rparr>) (v # omt_list q)"
proof -
  have "map (\<lambda>i. ((a_values q)(a_start_idx q - 1 := v)) (a_start_idx q - 1 + i)) [Suc 0..<Suc (a_num_values q)] = array_values q"
    using assms(2) by (auto simp: array_values_def map_Suc_upt [symmetric] simp del: map_Suc_upt upt_Suc)
  then show ?thesis
    using assms by (simp add: implements_def omt_wf_def array_ok_def omt_list_def array_values_def upt_conv_Cons del: upt_Suc)
qed

lemma tree_insert:
  assumes "omt_wf sm q" "tree_room q" "idx \<le> length (omt_list q)"
  shows "returns (insert_at_stored sm v idx q) (\<lambda>q'. implements sm q' (take idx (omt_list q) @ v # drop idx (omt_list q)))"
proof -
  have q: "\<not> is_array q" "tree_ok (t_root q)" "omt_list q = vals (t_root q)" "length (vals (t_root q)) \<le> t_free_idx q"
    "t_free_idx q < capacity q" "balanced (t_root q)"
    using assms by (auto simp: tree_room_def omt_wf_def omt_list_def)
  obtain t reb where t: "insert_internal (capacity q) (t_root q) v idx [] None (t_free_idx q) = Some (t, reb, t_free_idx q + 1)"
    "vals t = take idx (vals (t_root q)) @ v # drop idx (vals (t_root q))" "tree_ok t" "rebalances [] None reb t"
    using insert_internal_ok [OF q(2)] assms(3) q by metis
  let ?q = "q\<lparr>t_root := t, t_free_idx := t_free_idx q + 1\<rparr>"
  show ?thesis
    using maybe_rebalance_ok [of ?q reb sm] t q by (simp add: insert_at_stored_def)
qed

lemma array_insert:
  assumes "array_ok q" "a_start_idx q + a_num_values q < capacity q" "idx = a_num_values q \<or> (idx = 0 \<and> a_start_idx q \<noteq> 0)"
  shows "returns (insert_at_stored sm v idx q) (\<lambda>q'. implements False q' (take idx (omt_list q) @ v # drop idx (omt_list q)))"
proof -
  have "is_array q" "length (omt_list q) = a_num_values q" using assms(1) by (simp_all add: array_ok_def omt_list_def)
  then show ?thesis
    using assms(2,3) array_snoc [OF assms(1,2), of v] array_cons [OF assms(1), of v]
    by (auto simp: insert_at_stored_def)
qed

lemma insert_at_ok:
  assumes "omt_wf sm q"
  shows "returns (insert_at sm v idx q) (same_result (omt_insert_at (omt_list q) v idx) (implements sm))"
proof (cases "idx \<le> omt_size q")
  case True
  note size = omt_size_eq [OF assms]
  have fits: "length (omt_list q) \<le> omt_size q + 1 + 1" using size by simp
  let ?res = "take idx (omt_list q) @ v # drop idx (omt_list q)"
  have spec: "omt_insert_at (omt_list q) v idx = Inr ?res" using True size by (simp add: omt_insert_at_def)
  have stored: "returns (Option.bind (if is_array q1 \<and> idx \<noteq> a_num_values q1 \<and> (idx \<noteq> 0 \<or> a_start_idx q1 = 0)
      then convert_to_tree q1 else Some q1) (insert_at_stored sm v idx)) (\<lambda>q'. implements sm q' ?res)"
    if q1: "omt_wf sm q1" "omt_list q1 = omt_list q"
      "if is_array q1 then a_start_idx q1 + a_num_values q1 < capacity q1 else tree_room q1" for q1
  proof (cases "is_array q1 \<and> (idx \<noteq> a_num_values q1 \<and> (idx \<noteq> 0 \<or> a_start_idx q1 = 0))")
    case conv: True
    then have "is_array q1" by simp
    show ?thesis
      unfolding if_P [OF conv]
      by (rule returns_bind [OF convert_to_tree_array [OF \<open>is_array q1\<close>, of sm]])
        (metis tree_insert q1(2) True size)
  next
    case False
    then show ?thesis
      unfolding if_not_P [OF False]
      using q1 True size array_insert [of q1 idx sm v] tree_insert [of sm q1 idx v]
      by (cases "is_array q1") (auto simp: array_ok_def omt_wf_def)
  qed
  show ?thesis
    unfolding insert_at_def barf_if_marked_ok [OF assms] spec if_not_P [OF linorder_not_less [THEN iffD2, OF True]] Option.bind.simps
    by (rule returns_bind [OF maybe_resize_or_convert_ok [OF assms fits]], subst bind_assoc [symmetric],
        rule returns_bind [OF stored]) (use size in auto)
qed (use omt_size_eq [OF assms] in \<open>simp add: insert_at_def barf_if_marked_ok [OF assms] omt_insert_at_def\<close>)

lemma tree_delete:
  assumes "omt_wf sm q" "\<not> is_array q" "idx < length (omt_list q)"
  shows "returns (delete_at_stored sm idx q) (\<lambda>q'. implements sm q' (take idx (omt_list q) @ drop (Suc idx) (omt_list q)))"
proof -
  have q: "tree_ok (t_root q)" "omt_list q = vals (t_root q)" "length (vals (t_root q)) \<le> t_free_idx q" "t_free_idx q \<le> capacity q"
    "balanced (t_root q)"
    using assms by (auto simp: omt_wf_def omt_list_def)
  obtain t c reb where t: "delete_internal (t_root q) idx [] None = Some (t, c, reb)"
    "vals t = take idx (vals (t_root q)) @ drop (Suc idx) (vals (t_root q))" "tree_ok t" "rebalances [] None reb t"
    using delete_internal_ok [OF q(1)] assms(3) q(2,5) by metis
  let ?q = "q\<lparr>t_root := t\<rparr>"
  show ?thesis
    using maybe_rebalance_ok [of ?q reb sm] t q assms(2,3) by (simp add: delete_at_stored_def)
qed

lemma array_delete:
  assumes "array_ok q" "idx < a_num_values q" "idx = 0 \<or> idx = a_num_values q - 1"
  shows "returns (delete_at_stored sm idx q) (\<lambda>q'. implements False q' (take idx (omt_list q) @ drop (Suc idx) (omt_list q)))"
proof -
  have a: "is_array q" "omt_list q = array_values q" using assms(1) by (simp_all add: array_ok_def omt_list_def)
  have "\<exists>q'. delete_at_stored sm idx q = Some q' \<and> array_ok q' \<and> omt_list q' = take idx (array_values q) @ drop (Suc idx) (array_values q)"
    using assms a(1) by (auto simp: delete_at_stored_def Let_def array_ok_def omt_list_def intro!: array_values_eq)
  then show ?thesis using a(2) by (auto simp: returns_def implements_def)
qed

lemma delete_at_ok:
  assumes "omt_wf sm q"
  shows "returns (delete_at sm idx q) (same_result (omt_delete_at (omt_list q) idx) (implements sm))"
proof (cases "idx < omt_size q")
  case True
  note size = omt_size_eq [OF assms]
  have fits: "length (omt_list q) \<le> omt_size q - 1 + 1" using size True by simp
  let ?res = "take idx (omt_list q) @ drop (Suc idx) (omt_list q)"
  have spec: "omt_delete_at (omt_list q) idx = Inr ?res" using True size by (simp add: omt_delete_at_def)
  have stored: "returns (Option.bind (if is_array q1 \<and> idx \<noteq> 0 \<and> idx \<noteq> a_num_values q1 - 1
      then convert_to_tree q1 else Some q1) (delete_at_stored sm idx)) (\<lambda>q'. implements sm q' ?res)"
    if q1: "omt_wf sm q1" "omt_list q1 = omt_list q" for q1
  proof (cases "is_array q1 \<and> (idx \<noteq> 0 \<and> idx \<noteq> a_num_values q1 - 1)")
    case conv: True
    show ?thesis
      unfolding if_P [OF conv]
      by (rule returns_bind [OF convert_to_tree_ok [OF q1(1)]]) (metis tree_delete q1(2) True size)
  next
    case False
    have "length (omt_list q1) = a_num_values q1" if "is_array q1" using that by (simp add: omt_list_def)
    then show ?thesis
      unfolding if_not_P [OF False]
      using q1 False True size array_delete [of q1 idx sm] tree_delete [of sm q1 idx]
      by (cases "is_array q1") (auto simp: array_ok_def omt_wf_def)
  qed
  show ?thesis
    unfolding delete_at_def barf_if_marked_ok [OF assms] spec if_not_P [OF linorder_not_le [THEN iffD2, OF True]] Option.bind.simps
    by (rule returns_bind [OF maybe_resize_or_convert_ok [OF assms fits]], subst bind_assoc [symmetric],
        rule returns_bind [OF stored]) auto
qed (use omt_size_eq [OF assms] in \<open>simp add: delete_at_def barf_if_marked_ok [OF assms] omt_delete_at_def\<close>)

lemma set_at_ok:
  assumes "omt_wf sm q"
  shows "returns (set_at sm v idx q) (same_result (omt_set_at (omt_list q) v idx) (implements sm))"
proof (cases "idx < omt_size q")
  case True
  note size = omt_size_eq [OF assms]
  show ?thesis
  proof (cases "is_array q")
    case arr: True
    have "array_values (q\<lparr>a_values := (a_values q)(a_start_idx q + idx := v)\<rparr>) = (array_values q)[idx := v]"
      by (rule array_values_eq) (auto simp: nth_list_update)
    then show ?thesis
      using arr True size assms barf_if_marked_ok [OF assms]
      by (simp add: set_at_def omt_set_at_def implements_def omt_wf_def omt_list_def)
  next
    case False
    then show ?thesis
      using True size assms set_at_internal_ok [of "t_root q" idx v] barf_if_marked_ok [OF assms]
      by (auto simp: set_at_def omt_set_at_def implements_def omt_wf_def omt_list_def)
  qed
qed (use omt_size_eq [OF assms] in \<open>simp add: set_at_def barf_if_marked_ok [OF assms] omt_set_at_def\<close>)

lemma fetch_ok:
  assumes "omt_wf sm q"
  shows "fetch idx q = Some (omt_fetch (omt_list q) idx)"
  using assms omt_size_eq [OF assms] fetch_internal_ok [of "t_root q" idx]
  by (auto simp: fetch_def omt_fetch_def omt_list_def omt_wf_def tree_okD)

end
