(* ===== verification/Omt_Search.thy ===== *)
theory Omt_Search
  imports Omt_Refine
begin

text \<open>
  The searches of the order maintenance tree: the binary searches of the array representation and the
  descents of the tree representation return, and find what the linear searches of \<open>Omt_Spec\<close>
  find, for every heaviside function that is monotone along the sequence.
\<close>

subsection \<open>Monotone functions on parts of a sequence\<close>

lemma heavy_sorted_wrt: "heavy h vs \<longleftrightarrow> sorted_wrt (\<lambda>a b. sgn (h a) \<le> sgn (h b)) vs"
proof
  assume "sorted_wrt (\<lambda>a b. sgn (h a) \<le> sgn (h b)) vs"
  then show "heavy h vs" unfolding heavy_def sorted_wrt_iff_nth_less by (auto simp: le_eq_less_or_eq)
qed (auto simp: heavy_def sorted_wrt_iff_nth_less)

lemma heavy_append:
  assumes "heavy h (l @ v # r)"
  shows "heavy h l" "heavy h r" "x \<in> set l \<Longrightarrow> sgn (h x) \<le> sgn (h v)" "x \<in> set r \<Longrightarrow> sgn (h v) \<le> sgn (h x)"
  using assms by (auto simp: heavy_sorted_wrt sorted_wrt_append)

lemma sgn_le_iff:
  fixes a b :: int
  assumes "sgn a \<le> sgn b"
  shows "b < 0 \<Longrightarrow> a < 0" "0 \<le> a \<Longrightarrow> 0 \<le> b" "0 < a \<Longrightarrow> 0 < b" "b \<le> 0 \<Longrightarrow> a \<le> 0"
  using assms by (auto simp: sgn_if split: if_splits)

lemma below_count_append:
  assumes "heavy h (l @ v # r)"
  shows "below_count h (l @ v # r) = (if h v < 0 then length l + 1 + below_count h r else below_count h l)"
proof -
  have "\<forall>x\<in>set l. h x < 0" if "h v < 0" using heavy_append(3) [OF assms] that by (blast dest: sgn_le_iff(1))
  then show ?thesis by (simp add: below_count_def takeWhile_tail takeWhile_append2)
qed

lemma heavy_zero:
  assumes "heavy h l" "\<And>x. x \<in> set l \<Longrightarrow> h x \<le> 0" "below_count h l < length l"
  shows "h (l ! below_count h l) = 0"
  using below_count_stop [OF assms(3)] assms(2) [OF nth_mem [OF assms(3)]] by simp

subsection \<open>The tree\<close>

lemma find_internal_zero_ok:
  "weights_ok t \<Longrightarrow> heavy h (vals t) \<Longrightarrow> find_internal_zero h t = omt_find_zero h (vals t)"
proof (induction t)
  case Null
  then show ?case by (simp add: omt_find_zero_def below_count_def)
next
  case (Node w mk bl l v r)
  have w: "nweight l = length (vals l)" using Node.prems(1) by (simp add: nweight_vals)
  have hv: "heavy h (vals l @ v # vals r)" using Node.prems(2) by simp
  have l: "find_internal_zero h l = omt_find_zero h (vals l)" and r: "find_internal_zero h r = omt_find_zero h (vals r)"
    using Node heavy_append(1,2) [OF hv] by auto
  note count = below_count_append [OF hv]
  have zero: "h (vals l ! below_count h (vals l)) = 0" if "h v = 0" "below_count h (vals l) < length (vals l)"
    using heavy_append(1) [OF hv] sgn_le_iff(4) [OF heavy_append(3) [OF hv]] that by (intro heavy_zero) auto
  consider "h v < 0" | "h v > 0" | "h v = 0" by linarith
  then show ?case
  proof cases
    case 1
    then show ?thesis using l r w count by (simp add: omt_find_zero_def Let_def nth_append)
  next
    case 2
    then show ?thesis using l r w count below_count_le [of h "vals l"]
      by (auto simp: omt_find_zero_def Let_def nth_append)
  next
    case 3
    then show ?thesis using l r w count zero below_count_le [of h "vals l"]
      by (auto simp: omt_find_zero_def Let_def nth_append)
  qed
qed

lemma find_internal_minus_ok:
  "weights_ok t \<Longrightarrow> heavy h (vals t) \<Longrightarrow> find_internal_minus h t = omt_find_minus h (vals t)"
proof (induction t)
  case Null
  then show ?case by (simp add: omt_find_minus_def below_count_def)
next
  case (Node w mk bl l v r)
  have w: "nweight l = length (vals l)" using Node.prems(1) by (simp add: nweight_vals)
  have hv: "heavy h (vals l @ v # vals r)" using Node.prems(2) by simp
  have "find_internal_minus h l = omt_find_minus h (vals l)" "find_internal_minus h r = omt_find_minus h (vals r)"
    using Node heavy_append(1,2) [OF hv] by auto
  then show ?case
    using w below_count_append [OF hv] below_count_le [of h "vals l"]
    by (auto simp: omt_find_minus_def Let_def nth_append)
qed

lemma find_internal_plus_ok:
  "weights_ok t \<Longrightarrow> heavy h (vals t) \<Longrightarrow> find_internal_plus h t = omt_find_plus h (vals t)"
proof (induction t)
  case Null
  then show ?case by (simp add: omt_find_plus_def)
next
  case (Node w mk bl l v r)
  have w: "nweight l = length (vals l)" using Node.prems(1) by (simp add: nweight_vals)
  have hv: "heavy h (vals l @ v # vals r)" using Node.prems(2) by simp
  have IH: "find_internal_plus h l = omt_find_plus h (vals l)" "find_internal_plus h r = omt_find_plus h (vals r)"
    using Node heavy_append(1,2) [OF hv] by auto
  show ?case
  proof (cases "h v > 0")
    case True
    then show ?thesis
      using w IH length_takeWhile_le [of "\<lambda>v. h v \<le> 0" "vals l"]
      by (auto simp: omt_find_plus_def Let_def takeWhile_tail nth_append)
  next
    case False
    then have "\<forall>x\<in>set (vals l). h x \<le> 0" using heavy_append(3) [OF hv] by (fastforce dest: sgn_le_iff(4))
    then show ?thesis using False w IH by (auto simp: omt_find_plus_def Let_def takeWhile_append nth_append)
  qed
qed

subsection \<open>The binary searches\<close>

text \<open>\<open>p\<close> is the first place of \<open>[s, e)\<close> at which the values stop satisfying \<open>P\<close>.\<close>

definition boundary :: "('a \<Rightarrow> bool) \<Rightarrow> (nat \<Rightarrow> 'a) \<Rightarrow> nat \<Rightarrow> nat \<Rightarrow> nat \<Rightarrow> bool" where
  "boundary P f s e p \<longleftrightarrow> s \<le> p \<and> p \<le> e \<and> (\<forall>i. s \<le> i \<and> i < p \<longrightarrow> P (f i)) \<and> (p < e \<longrightarrow> \<not> P (f p))"

definition downward :: "('a \<Rightarrow> bool) \<Rightarrow> (nat \<Rightarrow> 'a) \<Rightarrow> nat \<Rightarrow> nat \<Rightarrow> bool" where
  "downward P f s e \<longleftrightarrow> (\<forall>i j. s \<le> i \<and> i \<le> j \<and> j < e \<and> P (f j) \<longrightarrow> P (f i))"

definition between :: "('a \<Rightarrow> bool) \<Rightarrow> (nat \<Rightarrow> 'a) \<Rightarrow> nat \<Rightarrow> nat \<Rightarrow> nat \<Rightarrow> nat \<Rightarrow> bool" where
  "between P f s e lo hi \<longleftrightarrow> s \<le> lo \<and> lo \<le> hi \<and> hi \<le> e \<and> (\<forall>i. s \<le> i \<and> i < lo \<longrightarrow> P (f i)) \<and> (hi < e \<longrightarrow> \<not> P (f hi))"

lemma between_step:
  assumes "between P f s e lo hi" "lo \<noteq> hi" "downward P f s e"
  shows "P (f ((lo + hi) div 2)) \<Longrightarrow> between P f s e ((lo + hi) div 2 + 1) hi"
    and "\<not> P (f ((lo + hi) div 2)) \<Longrightarrow> between P f s e lo ((lo + hi) div 2)"
    and "lo \<le> (lo + hi) div 2" "(lo + hi) div 2 < hi"
proof -
  let ?m = "(lo + hi) div 2"
  have m: "lo \<le> ?m" "?m < hi" "s \<le> lo" "hi \<le> e" using assms by (auto simp: between_def)
  then show "lo \<le> ?m" "?m < hi" by simp_all
  show "between P f s e (?m + 1) hi" if "P (f ?m)"
  proof -
    have "P (f i)" if i: "s \<le> i" "i < ?m + 1" for i
      using assms(3) [unfolded downward_def, rule_format, of i ?m] \<open>P (f ?m)\<close> i m by simp
    then show ?thesis using assms(1) m unfolding between_def by auto
  qed
  show "between P f s e lo ?m" if "\<not> P (f ?m)" using assms that m unfolding between_def by auto
qed

lemma between_boundary: "between P f s e p p \<Longrightarrow> boundary P f s e p"
  by (auto simp: between_def boundary_def)

lemma boundary_takeWhile:
  assumes "boundary P f s (s + n) p"
  shows "length (takeWhile P (map (\<lambda>i. f (s + i)) [0..<n])) = p - s"
proof -
  have "takeWhile P (map (\<lambda>i. f (s + i)) [0..<n]) = take (p - s) (map (\<lambda>i. f (s + i)) [0..<n])"
    using assms by (intro takeWhile_eq_take_P_nth) (auto simp: boundary_def)
  moreover have "p - s \<le> n" using assms by (auto simp: boundary_def)
  ultimately show ?thesis by simp
qed

lemma find_minus_loop_ok:
  assumes "downward (\<lambda>v. h v < 0) f s e" "between (\<lambda>v. h v < 0) f s e lo hi"
    and "best = (if lo = s then None else Some (lo - 1))"
  shows "\<exists>p. boundary (\<lambda>v. h v < 0) f s e p \<and> find_minus_loop h f lo hi best = Some (if p = s then None else Some (p - 1))"
  using assms(2,3)
proof (induction "hi - lo" arbitrary: lo hi best rule: less_induct)
  case less
  show ?case
  proof (cases "lo = hi")
    case True
    then show ?thesis using less.prems between_boundary [of _ f s e hi] by (subst find_minus_loop.simps) (intro exI [of _ hi], simp)
  next
    case False
    note st = between_step [OF less.prems(1) False assms(1)]
    let ?m = "(lo + hi) div 2"
    have "s \<le> lo" using less.prems(1) by (simp add: between_def)
    show ?thesis
    proof (cases "h (f ?m) < 0")
      case True
      then show ?thesis
        using less.hyps [OF _ st(1)] st(3,4) False \<open>s \<le> lo\<close> by (subst find_minus_loop.simps) (simp add: Let_def)
    next
      case neg: False
      then show ?thesis
        using less.hyps [OF _ st(2), of best] st(3,4) False less.prems(2) by (subst find_minus_loop.simps) (simp add: Let_def)
    qed
  qed
qed

lemma find_plus_loop_ok:
  assumes "downward (\<lambda>v. h v \<le> 0) f s e" "between (\<lambda>v. h v \<le> 0) f s e lo hi"
    and "best = (if hi = e then None else Some hi)"
  shows "\<exists>p. boundary (\<lambda>v. h v \<le> 0) f s e p \<and> find_plus_loop h f lo hi best = Some (if p = e then None else Some p)"
  using assms(2,3)
proof (induction "hi - lo" arbitrary: lo hi best rule: less_induct)
  case less
  show ?case
  proof (cases "lo = hi")
    case True
    then show ?thesis using less.prems between_boundary [of _ f s e hi] by (subst find_plus_loop.simps) (intro exI [of _ hi], simp)
  next
    case False
    note st = between_step [OF less.prems(1) False assms(1)]
    let ?m = "(lo + hi) div 2"
    have "hi \<le> e" using less.prems(1) by (simp add: between_def)
    show ?thesis
    proof (cases "h (f ?m) \<le> 0")
      case True
      then show ?thesis
        using less.hyps [OF _ st(1), of best] st(3,4) False less.prems(2) by (subst find_plus_loop.simps) (simp add: Let_def)
    next
      case pos: False
      then show ?thesis
        using less.hyps [OF _ st(2)] st(3,4) False \<open>hi \<le> e\<close> by (subst find_plus_loop.simps) (simp add: Let_def)
    qed
  qed
qed

definition zero_best :: "('a \<Rightarrow> int) \<Rightarrow> (nat \<Rightarrow> 'a) \<Rightarrow> nat \<Rightarrow> nat \<Rightarrow> nat option \<Rightarrow> nat option \<Rightarrow> bool" where
  "zero_best h f e hi best_pos best_zero \<longleftrightarrow>
     best_zero = (if hi < e \<and> h (f hi) = 0 then Some hi else None) \<and>
     (best_zero = None \<longrightarrow> best_pos = (if hi < e then Some hi else None))"

lemma find_zero_loop_ok:
  assumes "downward (\<lambda>v. h v < 0) f s e" "downward (\<lambda>v. h v \<le> 0) f s e" "between (\<lambda>v. h v < 0) f s e lo hi"
    and "zero_best h f e hi bp bz"
  shows "\<exists>p bp' bz'. boundary (\<lambda>v. h v < 0) f s e p \<and> find_zero_loop h f lo hi bp bz = Some (bp', bz') \<and> zero_best h f e p bp' bz'"
  using assms(3,4)
proof (induction "hi - lo" arbitrary: lo hi bp bz rule: less_induct)
  case less
  show ?case
  proof (cases "lo = hi")
    case True
    then show ?thesis using less.prems between_boundary [of _ f s e hi] by (subst find_zero_loop.simps) auto
  next
    case False
    note st = between_step [OF less.prems(1) False assms(1)]
    let ?m = "(lo + hi) div 2"
    have m: "s \<le> lo" "hi \<le> e" "lo \<le> ?m" "?m < hi" using less.prems(1) st(3,4) by (simp_all add: between_def)
    consider "h (f ?m) < 0" | "h (f ?m) > 0" | "h (f ?m) = 0" by linarith
    then show ?thesis
    proof cases
      case 1
      then show ?thesis
        using less.hyps [OF _ st(1)] m False less.prems(2) by (subst find_zero_loop.simps) (simp add: Let_def)
    next
      case 2
      then have "h (f hi) \<noteq> 0" if "hi < e"
        using that m assms(2) unfolding downward_def by (metis le_trans less_imp_le linorder_not_le order_refl)
      then have "zero_best h f e ?m (Some ?m) bz" using 2 less.prems(2) m by (auto simp: zero_best_def)
      then show ?thesis
        using 2 less.hyps [OF _ st(2)] m False by (subst find_zero_loop.simps) (simp add: Let_def)
    next
      case 3
      then have "zero_best h f e ?m bp (Some ?m)" using m by (auto simp: zero_best_def)
      then show ?thesis
        using 3 less.hyps [OF _ st(2)] m False by (subst find_zero_loop.simps) (simp add: Let_def)
    qed
  qed
qed

lemma heavy_downward:
  assumes "heavy h (array_values q)"
  shows "downward (\<lambda>v. h v < 0) (a_values q) (a_start_idx q) (a_start_idx q + a_num_values q)"
    and "downward (\<lambda>v. h v \<le> 0) (a_values q) (a_start_idx q) (a_start_idx q + a_num_values q)"
proof -
  let ?s = "a_start_idx q"
  have "sgn (h (a_values q i)) \<le> sgn (h (a_values q j))" if "?s \<le> i" "i \<le> j" "j < ?s + a_num_values q" for i j
    using assms [unfolded heavy_def, rule_format, of "i - ?s" "j - ?s"] that by (simp add: diff_le_mono less_diff_conv2)
  note mono = this
  show "downward (\<lambda>v. h v < 0) (a_values q) ?s (?s + a_num_values q)"
    "downward (\<lambda>v. h v \<le> 0) (a_values q) ?s (?s + a_num_values q)"
    unfolding downward_def using mono sgn_le_iff(1,4) by blast+
qed

lemma between_all: "between P f s (s + n) s (s + n)"
  by (auto simp: between_def)

lemma find_internal_array_ok:
  assumes "heavy h (array_values q)"
  shows "find_internal_minus_array h q = Some (omt_find_minus h (array_values q))"
    and "find_internal_plus_array h q = Some (omt_find_plus h (array_values q))"
    and "find_internal_zero_array h q = Some (omt_find_zero h (array_values q))"
proof -
  let ?s = "a_start_idx q" and ?n = "a_num_values q" and ?f = "a_values q"
  note down = heavy_downward [OF assms]
  obtain p where p: "boundary (\<lambda>v. h v < 0) ?f ?s (?s + ?n) p"
    "find_minus_loop h ?f ?s (?s + ?n) None = Some (if p = ?s then None else Some (p - 1))"
    using find_minus_loop_ok [OF down(1) between_all] by auto
  have "below_count h (array_values q) = p - ?s"
    using boundary_takeWhile [OF p(1)] by (simp add: below_count_def array_values_def)
  then show "find_internal_minus_array h q = Some (omt_find_minus h (array_values q))"
    using p by (auto simp: find_internal_minus_array_def omt_find_minus_def Let_def boundary_def)
  obtain p where p: "boundary (\<lambda>v. h v \<le> 0) ?f ?s (?s + ?n) p"
    "find_plus_loop h ?f ?s (?s + ?n) None = Some (if p = ?s + ?n then None else Some p)"
    using find_plus_loop_ok [OF down(2) between_all] by auto
  have "length (takeWhile (\<lambda>v. h v \<le> 0) (array_values q)) = p - ?s"
    using boundary_takeWhile [OF p(1)] by (simp add: array_values_def)
  then show "find_internal_plus_array h q = Some (omt_find_plus h (array_values q))"
    using p by (auto simp: find_internal_plus_array_def omt_find_plus_def Let_def boundary_def)
  have "zero_best h ?f (?s + ?n) (?s + ?n) None None" by (simp add: zero_best_def)
  then obtain p bp bz where p: "boundary (\<lambda>v. h v < 0) ?f ?s (?s + ?n) p"
    "find_zero_loop h ?f ?s (?s + ?n) None None = Some (bp, bz)" "zero_best h ?f (?s + ?n) p bp bz"
    using find_zero_loop_ok [OF down between_all] by blast
  have "below_count h (array_values q) = p - ?s"
    using boundary_takeWhile [OF p(1)] by (simp add: below_count_def array_values_def)
  then show "find_internal_zero_array h q = Some (omt_find_zero h (array_values q))"
    using p by (auto simp: find_internal_zero_array_def omt_find_zero_def Let_def boundary_def zero_best_def)
qed

subsection \<open>The searches of the class\<close>

lemma find_ok:
  assumes "omt_wf sm q" "heavy h (omt_list q)"
  shows "find_zero h q = Some (omt_find_zero h (omt_list q))"
    and "find_minus h q = Some (omt_find_minus h (omt_list q))"
    and "find_plus h q = Some (omt_find_plus h (omt_list q))"
  using assms find_internal_array_ok [of h q] find_internal_zero_ok [of "t_root q" h]
    find_internal_minus_ok [of "t_root q" h] find_internal_plus_ok [of "t_root q" h]
  by (auto simp: find_zero_def find_minus_def find_plus_def omt_list_def omt_wf_def tree_okD)

end
