(* ===== verification/Omt_Props.thy ===== *)
theory Omt_Props
  imports Omt_Search
begin

text \<open>
  Construction, splitting and merging of order maintenance trees, the contract that the class offers its clients as
  a locale, its interpretations on the two instances of the template, and the properties of the class.
\<close>

subsection \<open>Construction\<close>

lemma array_implements:
  assumes "is_array q" "a_start_idx q + a_num_values q \<le> capacity q" "array_values q = vs"
  shows "returns (if sm then convert_to_tree q else Some q) (\<lambda>q'. implements sm q' vs)"
  by (rule returns_mono [OF finish_array]) (use assms in \<open>auto simp: array_ok_def implements_def omt_list_def\<close>)

lemma array_values_nth [simp]:
  "array_values \<lparr>is_array = b, capacity = c, a_start_idx = 0, a_num_values = length vs, a_values = (!) vs, t_root = t, t_free_idx = f, \<dots> = m\<rparr> = vs"
  by (rule array_values_eq) auto

lemma omt_create_ok: "returns (omt_create sm q) (\<lambda>q'. implements sm q' [])"
  unfolding omt_create_def Let_def
  by (rule array_implements) (simp_all add: create_internal_no_array_def array_values_def)

lemma omt_create_no_array_ok: "implements sm (omt_create_no_array sm q) []"
  by (simp add: omt_create_no_array_def create_internal_no_array_def implements_def omt_wf_def omt_list_def array_values_def)

lemma omt_create_from_sorted_array_ok: "returns (omt_create_from_sorted_array sm vs q) (\<lambda>q'. implements sm q' vs)"
  unfolding omt_create_from_sorted_array_def Let_def
  by (rule array_implements) (simp_all add: create_internal_no_array_def array_values_eq)

lemma omt_clear_ok: "omt_wf sm q \<Longrightarrow> implements sm (omt_clear q) []"
  by (auto simp: omt_clear_def implements_def omt_wf_def omt_list_def array_values_def)

lemma omt_clone_ok:
  assumes "omt_wf sm src" "omt_wf sm q"
  shows "returns (omt_clone sm src q) (\<lambda>q'. implements sm q' (omt_list src))"
  unfolding omt_clone_def barf_if_marked_ok [OF assms(2)] Option.bind.simps Let_def
  by (rule array_implements)
    (use omt_size_eq [OF assms(1)] in \<open>auto simp: create_internal_no_array_def omt_list_def intro!: array_values_eq split: if_splits\<close>)

lemma omt_split_at_ok:
  assumes "omt_wf sm q"
  shows "returns (omt_split_at sm idx q newomt) (\<lambda>res.
    if idx > length (omt_list q) then res = Inl EINVAL
    else \<exists>q' n'. res = Inr (q', n') \<and> implements sm q' (take idx (omt_list q)) \<and> implements sm n' (drop idx (omt_list q)))"
proof (cases "idx > omt_size q")
  case False
  note size = omt_size_eq [OF assms]
  let ?c = "convert_to_array q"
  let ?q = "?c\<lparr>a_num_values := idx\<rparr>"
  have c: "array_ok ?c" "omt_list ?c = omt_list q" using convert_to_array_ok [OF assms] by auto
  then have av: "array_values ?c = omt_list q" by (simp add: array_ok_def omt_list_def)
  then have "a_num_values ?c = length (omt_list q)" by (metis length_array_values)
  then have q: "array_ok ?q" "omt_list ?q = take idx (omt_list q)"
    using c(1) False size av [symmetric]
    by (auto simp: array_ok_def omt_list_def intro!: array_values_eq)
  have cut: "returns (Option.bind (maybe_resize_array idx ?q) (\<lambda>q. if sm then convert_to_tree q else Some q))
      (\<lambda>q'. implements sm q' (take idx (omt_list q)))"
    by (rule returns_bind [OF maybe_resize_array_ok [OF q(1)]], simp, rule array_implements)
      (use q(2) in \<open>auto simp: array_ok_def omt_list_def\<close>)
  show ?thesis
    unfolding omt_split_at_def barf_if_marked_ok [OF assms] if_not_P [OF False] Option.bind.simps Let_def av
    by (rule returns_bind [OF omt_create_from_sorted_array_ok], subst bind_assoc [symmetric], rule returns_bind [OF cut])
      (use False size in auto)
qed (use omt_size_eq [OF assms] in \<open>simp add: omt_split_at_def barf_if_marked_ok [OF assms]\<close>)

lemma array_append:
  assumes "a_start_idx q + a_num_values q + length ws \<le> capacity q" "is_array q" "array_values q = vs"
  shows "array_values (q\<lparr>a_values := (\<lambda>i. if a_start_idx q + a_num_values q \<le> i \<and> i < a_start_idx q + a_num_values q + length ws
      then ws ! (i - (a_start_idx q + a_num_values q)) else a_values q i), a_num_values := a_num_values q + length ws\<rparr>) = vs @ ws"
  unfolding assms(3) [symmetric] by (rule array_values_eq) (auto simp: nth_append)

definition merge_left :: "bool \<Rightarrow> 'a omt \<Rightarrow> nat \<Rightarrow> nat \<Rightarrow> 'a omt \<Rightarrow> 'a omt option" where
  "merge_left sm leftomt rightsize newsize q =
     (if is_array leftomt then
        if capacity leftomt - (a_start_idx leftomt + a_num_values leftomt) \<ge> rightsize
        then (if sm then None else
          Some ((create_internal_no_array q (capacity leftomt))
            \<lparr>a_num_values := a_num_values leftomt, a_values := a_values leftomt, a_start_idx := a_start_idx leftomt\<rparr>))
        else Some ((create_internal_no_array q newsize)\<lparr>a_values := (\<lambda>i. a_values leftomt (a_start_idx leftomt + i))\<rparr>)
      else Some ((create_internal_no_array q newsize)
        \<lparr>a_values := (\<lambda>i. fill_array_with_subtree_values (t_root leftomt) ! i)\<rparr>))"

lemma merge_left_ok:
  assumes "omt_wf sm leftomt" "newsize = omt_size leftomt + rightsize"
  shows "returns (merge_left sm leftomt rightsize newsize q) (\<lambda>q. is_array q \<and>
    a_start_idx q + omt_size leftomt + rightsize \<le> capacity q \<and> array_values (q\<lparr>a_num_values := omt_size leftomt\<rparr>) = omt_list leftomt)"
  using assms omt_size_eq [OF assms(1)]
  by (auto simp: merge_left_def create_internal_no_array_def omt_list_def omt_wf_def omt_size_def intro!: array_values_eq split: if_splits)

lemma omt_merge_ok:
  assumes "omt_wf sm leftomt" "omt_wf sm rightomt" "omt_wf sm q"
  shows "returns (omt_merge sm leftomt rightomt q) (\<lambda>q'. implements sm q' (omt_list leftomt @ omt_list rightomt))"
proof -
  let ?r = "omt_list rightomt"
  have r: "(if is_array rightomt then array_values rightomt else fill_array_with_subtree_values (t_root rightomt)) = ?r"
    by (simp add: omt_list_def)
  have size: "omt_size rightomt = length ?r" using omt_size_eq [OF assms(2)] .
  show ?thesis
    unfolding omt_merge_def barf_if_marked_ok [OF assms(3)] Option.bind.simps Let_def r merge_left_def [symmetric] size
    apply (rule returns_bind [OF merge_left_ok [OF assms(1) refl]])
    subgoal for q1
      using array_append [of "q1\<lparr>a_num_values := omt_size leftomt\<rparr>" ?r "omt_list leftomt"]
      by (simp add: omt_size_def array_implements)
    done
qed

subsection \<open>The contract\<close>

lemma same_result_InrE: "same_result (Inr y) R res \<Longrightarrow> (\<And>x. res = Inr x \<Longrightarrow> R x y \<Longrightarrow> P) \<Longrightarrow> P"
  by (cases res) auto

text \<open>
  What a client may rely on: \<open>ok\<close> is kept, and every operation acts on the sequence \<open>seq\<close> as specified, with the
  specified result code.
\<close>

locale omt_contract =
  fixes ok :: "'q \<Rightarrow> bool" and seq :: "'q \<Rightarrow> 'a list"
    and create :: "'q option"
    and fetch_op :: "nat \<Rightarrow> 'q \<Rightarrow> (ft_error + 'a) option"
    and insert_op :: "'a \<Rightarrow> nat \<Rightarrow> 'q \<Rightarrow> (ft_error + 'q) option"
    and set_op :: "'a \<Rightarrow> nat \<Rightarrow> 'q \<Rightarrow> (ft_error + 'q) option"
    and delete_op :: "nat \<Rightarrow> 'q \<Rightarrow> (ft_error + 'q) option"
    and find_op :: "('a \<Rightarrow> int) \<Rightarrow> 'q \<Rightarrow> (nat + 'a \<times> nat) option"
  assumes create_law: "returns create (\<lambda>q. ok q \<and> seq q = [])"
    and fetch_law: "ok q \<Longrightarrow> fetch_op i q = Some (omt_fetch (seq q) i)"
    and insert_law: "ok q \<Longrightarrow> returns (insert_op v i q) (same_result (omt_insert_at (seq q) v i) (\<lambda>q' vs. ok q' \<and> seq q' = vs))"
    and set_law: "ok q \<Longrightarrow> returns (set_op v i q) (same_result (omt_set_at (seq q) v i) (\<lambda>q' vs. ok q' \<and> seq q' = vs))"
    and delete_law: "ok q \<Longrightarrow> returns (delete_op i q) (same_result (omt_delete_at (seq q) i) (\<lambda>q' vs. ok q' \<and> seq q' = vs))"
    and find_law: "ok q \<Longrightarrow> heavy h (seq q) \<Longrightarrow> find_op h q = Some (omt_find_zero h (seq q))"

text \<open>A history: a sequence of updates, each with its result code.\<close>

datatype 'a omt_op = InsertAt 'a nat | SetAt 'a nat | DeleteAt nat

fun spec_op :: "'a omt_op \<Rightarrow> 'a list \<Rightarrow> ft_error + 'a list" where
  "spec_op (InsertAt v i) vs = omt_insert_at vs v i"
| "spec_op (SetAt v i) vs = omt_set_at vs v i"
| "spec_op (DeleteAt i) vs = omt_delete_at vs i"

fun spec_run :: "'a omt_op list \<Rightarrow> 'a list \<Rightarrow> ft_error option list \<times> 'a list" where
  "spec_run [] vs = ([], vs)"
| "spec_run (x # xs) vs =
     (case spec_op x vs of
        Inl e \<Rightarrow> (case spec_run xs vs of (cs, vs') \<Rightarrow> (Some e # cs, vs'))
      | Inr vs \<Rightarrow> (case spec_run xs vs of (cs, vs') \<Rightarrow> (None # cs, vs')))"

fun run_ops :: "('a omt_op \<Rightarrow> 'q \<Rightarrow> (ft_error + 'q) option) \<Rightarrow> 'a omt_op list \<Rightarrow> 'q \<Rightarrow> (ft_error option list \<times> 'q) option" where
  "run_ops step [] q = Some ([], q)"
| "run_ops step (x # xs) q = do {
     r \<leftarrow> step x q;
     case r of
       Inl e \<Rightarrow> do { (cs, q) \<leftarrow> run_ops step xs q; Some (Some e # cs, q) }
     | Inr q \<Rightarrow> do { (cs, q) \<leftarrow> run_ops step xs q; Some (None # cs, q) }
   }"

fun op_step :: "('a \<Rightarrow> nat \<Rightarrow> 'q \<Rightarrow> (ft_error + 'q) option) \<Rightarrow> ('a \<Rightarrow> nat \<Rightarrow> 'q \<Rightarrow> (ft_error + 'q) option) \<Rightarrow>
    (nat \<Rightarrow> 'q \<Rightarrow> (ft_error + 'q) option) \<Rightarrow> 'a omt_op \<Rightarrow> 'q \<Rightarrow> (ft_error + 'q) option" where
  "op_step ins st del (InsertAt v i) q = ins v i q"
| "op_step ins st del (SetAt v i) q = st v i q"
| "op_step ins st del (DeleteAt i) q = del i q"

lemma run_ops_refines:
  assumes "\<And>x q. ok q \<Longrightarrow> returns (step x q) (same_result (spec_op x (seq q)) (\<lambda>q' vs. ok q' \<and> seq q' = vs))"
  shows "ok q \<Longrightarrow> returns (run_ops step xs q) (\<lambda>(cs, q'). ok q' \<and> spec_run xs (seq q) = (cs, seq q'))"
proof (induction xs arbitrary: q)
  case (Cons x xs)
  obtain r where r: "step x q = Some r" "same_result (spec_op x (seq q)) (\<lambda>q' vs. ok q' \<and> seq q' = vs) r"
    using returns_obtain [OF assms [OF Cons.prems]] by blast
  show ?case
  proof (cases "spec_op x (seq q)")
    case (Inl e)
    then show ?thesis using r Cons.IH [OF Cons.prems] by (auto simp: returns_def)
  next
    case (Inr vs)
    then obtain q' where "r = Inr q'" "ok q'" "seq q' = vs" using r(2) by (cases r) auto
    then show ?thesis using r(1) Inr Cons.IH [of q'] by (auto simp: returns_def)
  qed
qed simp

context omt_contract
begin

lemma step_law: "ok q \<Longrightarrow> returns (op_step insert_op set_op delete_op x q) (same_result (spec_op x (seq q)) (\<lambda>q' vs. ok q' \<and> seq q' = vs))"
  by (cases x) (simp_all add: insert_law set_law delete_law)

lemma history: "returns (Option.bind create (run_ops (op_step insert_op set_op delete_op) xs)) (\<lambda>(cs, q). ok q \<and> spec_run xs [] = (cs, seq q))"
  using create_law
proof (rule returns_bind)
  show "returns (run_ops (op_step insert_op set_op delete_op) xs q) (\<lambda>(cs, q). ok q \<and> spec_run xs [] = (cs, seq q))" if "ok q \<and> seq q = []" for q
    using run_ops_refines [OF step_law, of q xs] that by auto
qed

lemma fetch_after_insert:
  assumes "ok q" "i \<le> length (seq q)"
  shows "\<exists>q'. insert_op v i q = Some (Inr q') \<and> ok q' \<and> fetch_op i q' = Some (Inr v) \<and>
    (\<forall>j<i. fetch_op j q' = fetch_op j q) \<and> (\<forall>j>i. fetch_op j q' = fetch_op (j - 1) q)"
proof -
  obtain q' where "insert_op v i q = Some (Inr q')" "ok q'" "seq q' = take i (seq q) @ v # drop i (seq q)"
    using insert_law [OF assms(1), of v i] assms(2) by (auto simp: returns_def omt_insert_at_def elim!: same_result_InrE)
  then show ?thesis
    using assms by (auto simp: fetch_law omt_fetch_def nth_append min_absorb2 nth_Cons' not_less_eq)
qed

end

lemma implements_fun: "(\<lambda>q vs. omt_wf sm q \<and> omt_list q = vs) = implements sm"
  by (intro ext) (simp add: implements_def)

interpretation omt: omt_contract "omt_wf sm" omt_list "omt_create sm q0" fetch "insert_at sm" "set_at sm" "delete_at sm" find_zero
  for sm q0
proof unfold_locales
  show "returns (omt_create sm q0) (\<lambda>q. omt_wf sm q \<and> omt_list q = [])"
    using omt_create_ok [of sm q0] by (simp add: implements_def)
qed (simp_all add: implements_fun fetch_ok insert_at_ok set_at_ok delete_at_ok find_ok)

definition omt_step :: "bool \<Rightarrow> 'a omt_op \<Rightarrow> 'a omt \<Rightarrow> (ft_error + 'a omt) option" where
  "omt_step sm = op_step (insert_at sm) (set_at sm) (delete_at sm)"

lemma sorted_by_heavy: "sorted_by key vs \<Longrightarrow> heavy (key_cmp key k) vs"
  unfolding heavy_sorted_wrt sorted_by_def by (erule sorted_wrt_mono_rel [rotated]) (auto simp: key_cmp_def)

lemma insert_omt_ok:
  assumes "omt_wf sm q" "heavy h (omt_list q)"
  shows "returns (insert_omt sm v h q) (\<lambda>res. case omt_insert h (omt_list q) v of
      Inl e \<Rightarrow> res = Inl e
    | Inr (vs, i) \<Rightarrow> (\<exists>q'. res = Inr (q', i) \<and> implements sm q' vs))"
proof (cases "omt_find_zero h (omt_list q)")
  case (Inl i)
  obtain r where r: "insert_at sm v i q = Some r" "same_result (omt_insert_at (omt_list q) v i) (implements sm) r"
    using returns_obtain [OF insert_at_ok [OF assms(1)]] by blast
  then show ?thesis
    using Inl find_ok(1) [OF assms]
    by (cases "omt_insert_at (omt_list q) v i") (auto simp: insert_omt_def omt_insert_def elim!: same_result_InrE)
next
  case (Inr vi)
  then show ?thesis using find_ok(1) [OF assms] by (cases vi) (simp add: insert_omt_def omt_insert_def)
qed

subsection \<open>Properties\<close>

text \<open>
  C20. Every history of insertions, updates and deletions by index, started on a new tree, returns: no assertion of the
  class fails, no node is taken from a full node array and nothing is stored behind the end of the value array,
  whichever conversions between array and tree happen on the way. Every operation returns the code of the
  specification (\<open>EINVAL\<close> exactly for an index out of range), and the tree then holds the specified sequence. Sizes
  and node indices are numbers here, where the code has 32-bit sizes and 31-bit indices: the property is about the code
  for trees of fewer than \<open>2 ^ 31\<close> elements.
\<close>

theorem omt_history_refines:
  "\<exists>codes q. Option.bind (omt_create sm q0) (run_ops (omt_step sm) ops) = Some (codes, q) \<and>
     spec_run ops [] = (codes, omt_list q) \<and> omt_wf sm q \<and> omt_size q = length (omt_list q) \<and>
     (\<forall>i. fetch i q = Some (omt_fetch (omt_list q) i))"
proof -
  obtain codes q where "Option.bind (omt_create sm q0) (run_ops (omt_step sm) ops) = Some (codes, q)"
    "omt_wf sm q" "spec_run ops [] = (codes, omt_list q)"
    using omt.history [of sm q0 ops] by (auto simp: returns_def omt_step_def)
  then show ?thesis using omt_size_eq fetch_ok by blast
qed

text \<open>
  C21. The binary searches of the array and the descents of the tree return and agree with the
  linear reference: for a function whose sign increases along the sequence, \<open>find_zero\<close> gives the first value at which it is zero,
  or the place where one belongs, \<open>find\<close> to the left the last value at which it is negative,
  and \<open>find\<close> to the right the first value at which it is positive, each with its index.
\<close>

theorem omt_search_correct:
  assumes "omt_wf sm q" "heavy h (omt_list q)"
  shows "find_zero h q = Some (omt_find_zero h (omt_list q)) \<and> find_minus h q = Some (omt_find_minus h (omt_list q)) \<and>
    find_plus h q = Some (omt_find_plus h (omt_list q))"
  using find_ok [OF assms] by blast

definition squares :: "nat omt" where
  "squares = \<lparr>is_array = True, capacity = 8, a_start_idx = 2, a_num_values = 5, a_values = (\<lambda>i. i * i),
     t_root = Null, t_free_idx = 0\<rparr>"

theorem omt_search_correct_witness:
  "find_zero (\<lambda>v. int v - 16) squares = Some (Inr (16, 2)) \<and> find_minus (\<lambda>v. int v - 16) squares = Some (Some (9, 1)) \<and>
   find_plus (\<lambda>v. int v - 16) squares = Some (Some (25, 3))"
proof -
  have l: "omt_list squares = [4, 9, 16, 25, 36]"
    by (simp add: squares_def omt_list_def array_values_def upt_rec)
  have "omt_wf False squares" by (simp add: squares_def omt_wf_def)
  moreover have "heavy (\<lambda>v. int v - 16) (omt_list squares)" unfolding l heavy_sorted_wrt by simp
  ultimately show ?thesis
    using omt_search_correct [of False squares "\<lambda>v. int v - 16"]
    unfolding l by (simp add: omt_find_zero_def omt_find_minus_def omt_find_plus_def below_count_def)
qed

text \<open>
  C23. Splitting a tree at an index and merging the two parts gives back the sequence, for every index up to the size and
  either representation; the parts hold the values before and from the index.
\<close>

theorem omt_split_merge:
  assumes "omt_wf sm q" "omt_wf sm target" "idx \<le> omt_size q"
  shows "\<exists>l r m. omt_split_at sm idx q newomt = Some (Inr (l, r)) \<and> omt_list l = take idx (omt_list q) \<and>
    omt_list r = drop idx (omt_list q) \<and> omt_merge sm l r target = Some m \<and> omt_wf sm m \<and> omt_list m = omt_list q"
proof -
  have "\<not> idx > length (omt_list q)" using assms(3) omt_size_eq [OF assms(1)] by simp
  then obtain l r where lr: "omt_split_at sm idx q newomt = Some (Inr (l, r))" "implements sm l (take idx (omt_list q))"
    "implements sm r (drop idx (omt_list q))"
    using omt_split_at_ok [OF assms(1), of idx newomt] by (auto simp: returns_def)
  then obtain m where "omt_merge sm l r target = Some m" "implements sm m (omt_list l @ omt_list r)"
    using omt_merge_ok [of sm l r target] assms(2) by (auto simp: returns_def implements_def)
  then show ?thesis using lr by (auto simp: implements_def)
qed

theorem omt_split_merge_witness:
  "\<exists>l r m. omt_split_at False 2 squares squares = Some (Inr (l, r)) \<and> omt_list l = [4, 9] \<and> omt_list r = [16, 25, 36] \<and>
     omt_merge False l r squares = Some m \<and> omt_list m = [4, 9, 16, 25, 36]"
proof -
  have l: "omt_list squares = [4, 9, 16, 25, 36]"
    by (simp add: squares_def omt_list_def array_values_def upt_rec)
  have wf: "omt_wf False squares" and size: "2 \<le> omt_size squares" by (simp_all add: squares_def omt_wf_def omt_size_def)
  show ?thesis
    using omt_split_merge [OF wf wf size, of squares] unfolding l by auto
qed

text \<open>
  C24. The recursions over a tree of fewer than \<open>2 ^ 31\<close> values, the most that the index of a subtree can address, are
  at most 52 calls deep, and the node array has a slot for every node.
\<close>

theorem omt_depth_bound:
  assumes "omt_wf sm q" "\<not> is_array q" "omt_size q < 2 ^ 31"
  shows "height (t_root q) \<le> 52 \<and> omt_size q \<le> t_free_idx q \<and> t_free_idx q \<le> capacity q"
proof -
  let ?h = "height (t_root q)"
  have t: "tree_ok (t_root q)" "balanced (t_root q)" "omt_size q = length (vals (t_root q))"
    "length (vals (t_root q)) \<le> t_free_idx q" "t_free_idx q \<le> capacity q"
    using assms by (auto simp: omt_wf_def omt_size_def tree_okD)
  have b: "3 ^ ?h \<le> 2 ^ ?h * (2 ^ 31 :: nat)"
    using order_trans [OF height_bound [OF tree_okD(1) [OF t(1)] t(2)]] assms(3) t(3) by (metis Suc_eq_plus1_left Suc_leI mult_le_mono2)
  have "?h \<le> 52"
  proof (rule ccontr)
    assume "\<not> ?h \<le> 52"
    then obtain k where k: "?h = 53 + k" using nat_le_iff_add [of 53 ?h] by auto
    have "(2 :: nat) ^ 53 * 2 ^ 31 * 2 ^ k < 3 ^ 53 * 3 ^ k"
      by (rule mult_less_le_imp_less) (auto intro: power_mono)
    then have "2 ^ ?h * (2 ^ 31 :: nat) < 3 ^ ?h" unfolding k power_add by (simp only: mult.assoc mult.commute mult.left_commute)
    then show False using b by simp
  qed
  then show ?thesis using t by simp
qed

theorem omt_depth_bound_witness:
  "\<exists>q. omt_create_from_sorted_array True [10, 20, 30 :: nat] squares = Some q \<and> height (t_root q) \<le> 52 \<and> 3 \<le> t_free_idx q"
proof -
  obtain q where q: "omt_create_from_sorted_array True [10, 20, 30 :: nat] squares = Some q" "implements True q [10, 20, 30]"
    using omt_create_from_sorted_array_ok [of True "[10, 20, 30 :: nat]" squares] by (auto simp: returns_def)
  then have "omt_wf True q" "\<not> is_array q" "omt_size q = 3"
    using omt_size_eq [of True q] by (auto simp: implements_def omt_wf_def split: if_splits)
  then show ?thesis using q omt_depth_bound [of True q] by auto
qed

text \<open>
  C22. \<open>insert\<close> on a tree that is sorted by a key refuses a key that is present, with \<open>DB_KEYEXIST\<close> and its index, and
  otherwise adds exactly the value, keeps the order, and a search for the key then finds the value at the returned index.
\<close>

theorem insert_omt_sorted:
  assumes "omt_wf sm q" "sorted_by key (omt_list q)"
  shows "if key v \<in> key ` set (omt_list q)
    then \<exists>i. insert_omt sm v (key_cmp key (key v)) q = Some (Inl (DB_KEYEXIST, i)) \<and> i < omt_size q \<and> key (omt_list q ! i) = key v
    else \<exists>q' i. insert_omt sm v (key_cmp key (key v)) q = Some (Inr (q', i)) \<and> omt_wf sm q' \<and> sorted_by key (omt_list q') \<and>
      set (omt_list q') = insert v (set (omt_list q)) \<and> find_zero (key_cmp key (key v)) q' = Some (Inr (v, i))"
proof (cases "key v \<in> key ` set (omt_list q)")
  case True
  let ?h = "key_cmp key (key v)"
  note hv = sorted_by_heavy [OF assms(2), of "key v"]
  obtain w i where "omt_find_zero ?h (omt_list q) = Inr (w, i)"
    using True omt_find_zero_missing [OF assms(2), of "key v"] by (cases "omt_find_zero ?h (omt_list q)") auto
  moreover from this have "i < length (omt_list q)" "omt_list q ! i = w" "key w = key v"
    using omt_find_zero_sorted [OF assms(2)] by blast+
  ultimately show ?thesis
    using True insert_omt_ok [OF assms(1) hv, of v] omt_size_eq [OF assms(1)] by (auto simp: returns_def omt_insert_def)
next
  case False
  let ?h = "key_cmp key (key v)"
  note hv = sorted_by_heavy [OF assms(2), of "key v"]
  obtain i vs where ins: "omt_insert ?h (omt_list q) v = Inr (vs, i)" "sorted_by key vs" "set vs = insert v (set (omt_list q))"
    using omt_insert_sorted [OF assms(2) False] by metis
  then have "i < length vs" "vs ! i = v"
    by (auto simp: omt_insert_def omt_insert_at_def nth_append split: sum.splits if_splits)
  then have "omt_find_zero ?h vs = Inr (v, i)" using omt_find_zero_sorted [OF ins(2)] by blast
  moreover obtain q' where "insert_omt sm v ?h q = Some (Inr (q', i))" "implements sm q' vs"
    using insert_omt_ok [OF assms(1) hv, of v] ins(1) by (auto simp: returns_def)
  ultimately show ?thesis
    using False ins(2,3) find_ok(1) [of sm q' ?h] sorted_by_heavy [OF ins(2)] by (auto simp: implements_def)
qed

theorem insert_omt_sorted_witness:
  "\<exists>q' i. insert_omt False 20 (key_cmp id 20) squares = Some (Inr (q', i)) \<and> set (omt_list q') = {4, 9, 16, 20, 25, 36} \<and>
     find_zero (key_cmp id 20) q' = Some (Inr (20, i))"
proof -
  have l: "omt_list squares = [4, 9, 16, 25, 36]"
    by (simp add: squares_def omt_list_def array_values_def upt_rec)
  have "omt_wf False squares" "sorted_by id (omt_list squares)" unfolding l by (simp_all add: squares_def omt_wf_def)
  from insert_omt_sorted [OF this, of 20] show ?thesis unfolding l by (auto simp: insert_commute)
qed

end
