(* ===== verification/Omt_Marks.thy ===== *)
theory Omt_Marks
  imports Omt_Props
begin

text \<open>
  Iteration over an order maintenance tree and the marks of its nodes (\<open>src/util/omt.cc\<close>). Marks are set
  while a range is visited and later delete the marked values in one pass; until then every update of the tree fails an
  assertion. A callback is a function on the client's state that also returns a code; a
  code other than zero stops the iteration.
\<close>

subsection \<open>Iteration\<close>

type_synonym ('a, 's) visitor = "'a \<Rightarrow> nat \<Rightarrow> 's \<Rightarrow> int \<times> 's"

function iterate_internal_array :: "('a, 's) visitor \<Rightarrow> nat \<Rightarrow> nat \<Rightarrow> 'a omt \<Rightarrow> 's \<Rightarrow> int \<times> 's" where
  "iterate_internal_array f i right' q s =
     (if i < right' then
        case f (a_values q (a_start_idx q + i)) i s of (r, s) \<Rightarrow>
          if r \<noteq> 0 then (r, s) else iterate_internal_array f (i + 1) right' q s
      else (0, s))"
  by pat_completeness auto
termination
  by (relation "measure (\<lambda>(f, i, right', q, s). right' - i)") auto

declare iterate_internal_array.simps [simp del]

fun iterate_internal :: "('a, 's) visitor \<Rightarrow> nat \<Rightarrow> nat \<Rightarrow> 'a omt_tree \<Rightarrow> nat \<Rightarrow> 's \<Rightarrow> int \<times> 's" where
  "iterate_internal f left' right' Null idx s = (0, s)"
| "iterate_internal f left' right' (Node w mk bl l v r) idx s =
     (let idx_root = idx + nweight l in
      case (if left' < idx_root then iterate_internal f left' right' l idx s else (0, s)) of (ret, s) \<Rightarrow>
        if ret \<noteq> 0 then (ret, s)
        else
          case (if left' \<le> idx_root \<and> idx_root < right' then f v idx_root s else (0, s)) of (ret, s) \<Rightarrow>
            if ret \<noteq> 0 then (ret, s)
            else if idx_root + 1 < right' then iterate_internal f left' right' r (idx_root + 1) s
            else (0, s))"

definition iterate_on_range :: "('a, 's) visitor \<Rightarrow> nat \<Rightarrow> nat \<Rightarrow> 'a omt \<Rightarrow> 's \<Rightarrow> ft_error + int \<times> 's" where
  "iterate_on_range f left' right' q s =
     (if right' > omt_size q then Inl EINVAL
      else if left' = right' then Inr (0, s)
      else if is_array q then Inr (iterate_internal_array f left' right' q s)
      else Inr (iterate_internal f left' right' (t_root q) 0 s))"

definition omt_iterate :: "('a, 's) visitor \<Rightarrow> 'a omt \<Rightarrow> 's \<Rightarrow> ft_error + int \<times> 's" where
  "omt_iterate f q s = iterate_on_range f 0 (omt_size q) q s"

text \<open>\<open>iterate_ptr\<close> hands out pointers to the values: the callback may replace a value, and must return zero.\<close>

type_synonym ('a, 's) ptr_visitor = "'a \<Rightarrow> nat \<Rightarrow> 's \<Rightarrow> int \<times> 'a \<times> 's"

function iterate_ptr_internal_array :: "('a, 's) ptr_visitor \<Rightarrow> nat \<Rightarrow> nat \<Rightarrow> 'a omt \<Rightarrow> 's \<Rightarrow> ('a omt \<times> 's) option" where
  "iterate_ptr_internal_array f i right' q s =
     (if i < right' then
        case f (a_values q (a_start_idx q + i)) i s of (r, v, s) \<Rightarrow> do {
          ensure (r = 0);
          iterate_ptr_internal_array f (i + 1) right' (q\<lparr>a_values := (a_values q)(a_start_idx q + i := v)\<rparr>) s
        }
      else Some (q, s))"
  by pat_completeness auto
termination
  by (relation "measure (\<lambda>(f, i, right', q, s). right' - i)") auto

declare iterate_ptr_internal_array.simps [simp del]

fun iterate_ptr_internal :: "('a, 's) ptr_visitor \<Rightarrow> nat \<Rightarrow> nat \<Rightarrow> 'a omt_tree \<Rightarrow> nat \<Rightarrow> 's \<Rightarrow> ('a omt_tree \<times> 's) option" where
  "iterate_ptr_internal f left' right' Null idx s = Some (Null, s)"
| "iterate_ptr_internal f left' right' (Node w mk bl l v r) idx s = do {
     let idx_root = idx + nweight l;
     (l, s) \<leftarrow> (if left' < idx_root then iterate_ptr_internal f left' right' l idx s else Some (l, s));
     (v, s) \<leftarrow>
       (if left' \<le> idx_root \<and> idx_root < right'
        then case f v idx_root s of (ret, v, s) \<Rightarrow> do { ensure (ret = 0); Some (v, s) }
        else Some (v, s));
     (r, s) \<leftarrow> (if idx_root + 1 < right' then iterate_ptr_internal f left' right' r (idx_root + 1) s else Some (r, s));
     Some (Node w mk bl l v r, s)
   }"

definition iterate_ptr :: "('a, 's) ptr_visitor \<Rightarrow> 'a omt \<Rightarrow> 's \<Rightarrow> ('a omt \<times> 's) option" where
  "iterate_ptr f q s =
     (if is_array q then iterate_ptr_internal_array f 0 (omt_size q) q s
      else do {
        (root, s) \<leftarrow> iterate_ptr_internal f 0 (omt_size q) (t_root q) 0 s;
        Some (q\<lparr>t_root := root\<rparr>, s)
      })"

subsection \<open>Marks\<close>

fun iterate_and_mark_range_internal ::
  "('a, 's) visitor \<Rightarrow> nat \<Rightarrow> nat \<Rightarrow> 'a omt_tree \<Rightarrow> nat \<Rightarrow> 's \<Rightarrow> ((int \<times> 's) \<times> 'a omt_tree) option" where
  "iterate_and_mark_range_internal f left' right' Null idx s = None"
| "iterate_and_mark_range_internal f left' right' (Node w mk bl l v r) idx s = do {
     let idx_root = idx + nweight l;
     let go = (left' < idx_root \<and> l \<noteq> Null);
     let bl = (bl \<or> go);
     ((ret, s), l) \<leftarrow> (if go then iterate_and_mark_range_internal f left' right' l idx s else Some ((0, s), l));
     if ret \<noteq> 0 then Some ((ret, s), Node w mk bl l v r)
     else do {
       let here = (left' \<le> idx_root \<and> idx_root < right');
       let mk = (mk \<or> here);
       let (ret, s) = (if here then f v idx_root s else (0, s));
       if ret \<noteq> 0 then Some ((ret, s), Node w mk bl l v r)
       else if idx_root + 1 < right' \<and> r \<noteq> Null then do {
         ((ret, s), r) \<leftarrow> iterate_and_mark_range_internal f left' right' r (idx_root + 1) s;
         Some ((ret, s), Node w mk True l v r)
       }
       else Some ((0, s), Node w mk bl l v r)
     }
   }"

definition iterate_and_mark_range ::
  "('a, 's) visitor \<Rightarrow> nat \<Rightarrow> nat \<Rightarrow> 'a omt \<Rightarrow> 's \<Rightarrow> (ft_error + (int \<times> 's) \<times> 'a omt) option" where
  "iterate_and_mark_range f left' right' q s =
     (if right' > omt_size q then Some (Inl EINVAL)
      else if left' = right' then Some (Inr ((0, s), q))
      else do {
        ensure (\<not> is_array q);
        (rs, root) \<leftarrow> iterate_and_mark_range_internal f left' right' (t_root q) 0 s;
        Some (Inr (rs, q\<lparr>t_root := root\<rparr>))
      })"

fun iterate_over_marked_internal :: "('a, 's) visitor \<Rightarrow> 'a omt_tree \<Rightarrow> nat \<Rightarrow> 's \<Rightarrow> int \<times> 's" where
  "iterate_over_marked_internal f Null idx s = (0, s)"
| "iterate_over_marked_internal f (Node w mk bl l v r) idx s =
     (let idx_root = idx + nweight l in
      case (if bl then iterate_over_marked_internal f l idx s else (0, s)) of (ret, s) \<Rightarrow>
        if ret \<noteq> 0 then (ret, s)
        else
          case (if mk then f v idx_root s else (0, s)) of (ret, s) \<Rightarrow>
            if ret \<noteq> 0 then (ret, s)
            else if bl then iterate_over_marked_internal f r (idx_root + 1) s
            else (0, s))"

definition iterate_over_marked :: "('a, 's) visitor \<Rightarrow> 'a omt \<Rightarrow> 's \<Rightarrow> (int \<times> 's) option" where
  "iterate_over_marked f q s = do {
     ensure (\<not> is_array q);
     Some (iterate_over_marked_internal f (t_root q) 0 s)
   }"

fun unmark :: "'a omt_tree \<Rightarrow> nat \<Rightarrow> nat list \<Rightarrow> 'a omt_tree \<times> nat list" where
  "unmark Null index indexes = (Null, indexes)"
| "unmark (Node w mk bl l v r) index indexes =
     (let index_root = index + nweight l;
          (l, indexes) = (if bl then unmark l index indexes else (l, indexes));
          indexes = (if mk then indexes @ [index_root] else indexes);
          (r, indexes) = (if bl then unmark r (index_root + 1) indexes else (r, indexes))
      in (Node w False False l v r, indexes))"

text \<open>The loop of \<open>delete_all_marked\<close>; \<open>i\<close> values were deleted before.\<close>

fun delete_marked_indexes :: "nat list \<Rightarrow> nat \<Rightarrow> 'a omt \<Rightarrow> 'a omt option" where
  "delete_marked_indexes [] i q = Some q"
| "delete_marked_indexes (x # xs) i q = do {
     r \<leftarrow> delete_at True (x - i) q;
     case r of Inl _ \<Rightarrow> None | Inr q \<Rightarrow> delete_marked_indexes xs (i + 1) q
   }"

definition delete_all_marked :: "'a omt \<Rightarrow> 'a omt option" where
  "delete_all_marked q =
     (if \<not> has_marks (t_root q) then Some q
      else do {
        ensure (\<not> is_array q);
        let (root, marked_indexes) = unmark (t_root q) 0 [];
        q \<leftarrow> delete_marked_indexes marked_indexes 0 (q\<lparr>t_root := root\<rparr>);
        barf_if_marked True q;
        Some q
      })"

fun verify_marks_consistent_internal :: "'a omt_tree \<Rightarrow> bool \<Rightarrow> nat option" where
  "verify_marks_consistent_internal Null allow_marks = Some 0"
| "verify_marks_consistent_internal (Node w mk bl l v r) allow_marks = do {
     n \<leftarrow> verify_marks_consistent_internal l bl;
     m \<leftarrow> verify_marks_consistent_internal r bl;
     let num_marks = n + m;
     (if bl then ensure (allow_marks \<and> num_marks > 0) else ensure (num_marks = 0));
     ensure (mk \<longrightarrow> allow_marks);
     Some (if mk then num_marks + 1 else num_marks)
   }"

definition verify_marks_consistent :: "'a omt \<Rightarrow> nat option" where
  "verify_marks_consistent q = do {
     ensure (\<not> is_array q);
     verify_marks_consistent_internal (t_root q) True
   }"

subsection \<open>What an iteration visits\<close>

fun iter_list :: "('a, 's) visitor \<Rightarrow> ('a \<times> nat) list \<Rightarrow> 's \<Rightarrow> int \<times> 's" where
  "iter_list f [] s = (0, s)"
| "iter_list f (x # xs) s = (case f (fst x) (snd x) s of (r, s) \<Rightarrow> if r \<noteq> 0 then (r, s) else iter_list f xs s)"

fun visited :: "('a, 's) visitor \<Rightarrow> ('a \<times> nat) list \<Rightarrow> 's \<Rightarrow> nat set" where
  "visited f [] s = {}"
| "visited f (x # xs) s = insert (snd x) (case f (fst x) (snd x) s of (r, s) \<Rightarrow> if r \<noteq> 0 then {} else visited f xs s)"

lemma iter_list_append:
  "iter_list f (xs @ ys) s = (case iter_list f xs s of (r, s) \<Rightarrow> if r \<noteq> 0 then (r, s) else iter_list f ys s)"
  by (induction xs arbitrary: s) (auto split: prod.splits)

lemma visited_append:
  "visited f (xs @ ys) s = visited f xs s \<union> (case iter_list f xs s of (r, s) \<Rightarrow> if r \<noteq> 0 then {} else visited f ys s)"
  by (induction xs arbitrary: s) (auto split: prod.splits)

lemma visited_subset: "visited f xs s \<subseteq> snd ` set xs"
  by (induction xs arbitrary: s) (auto split: prod.splits if_splits)

lemma visited_nonempty: "xs \<noteq> [] \<Longrightarrow> visited f xs s \<noteq> {}"
  by (cases xs) auto

lemma visited_all: "(\<And>v i s. fst (f v i s) = 0) \<Longrightarrow> visited f xs s = snd ` set xs"
proof (induction xs arbitrary: s)
  case (Cons x xs)
  then obtain s' where "f (fst x) (snd x) s = (0, s')" by (metis prod.collapse)
  then show ?case using Cons by simp
qed simp

text \<open>The values of a sequence with their indices, the first of them \<open>idx\<close>.\<close>

definition indexed :: "nat \<Rightarrow> 'a list \<Rightarrow> ('a \<times> nat) list" where
  "indexed idx vs = zip vs [idx..<idx + length vs]"

definition in_range :: "nat \<Rightarrow> nat \<Rightarrow> nat \<Rightarrow> 'a list \<Rightarrow> ('a \<times> nat) list" where
  "in_range lo hi idx vs = filter (\<lambda>x. lo \<le> snd x \<and> snd x < hi) (indexed idx vs)"

lemma indexed_simps [simp]:
  "indexed idx [] = []" "indexed idx (v # vs) = (v, idx) # indexed (idx + 1) vs"
  "indexed idx (vs @ ws) = indexed idx vs @ indexed (idx + length vs) ws"
proof -
  have "[idx..<idx + length vs + length ws] = [idx..<idx + length vs] @ [idx + length vs..<idx + length vs + length ws]"
    by (rule upt_add_eq_append) simp
  then show "indexed idx (vs @ ws) = indexed idx vs @ indexed (idx + length vs) ws" by (simp add: indexed_def add.assoc [symmetric])
qed (simp_all add: indexed_def upt_conv_Cons del: upt_Suc)

lemma snd_indexed: "snd ` set (indexed idx vs) = {idx..<idx + length vs}"
  by (induction vs arbitrary: idx) auto

lemma in_range_simps [simp]:
  "in_range lo hi idx [] = []"
  "in_range lo hi idx (v # vs) = (if lo \<le> idx \<and> idx < hi then [(v, idx)] else []) @ in_range lo hi (idx + 1) vs"
  "in_range lo hi idx (vs @ ws) = in_range lo hi idx vs @ in_range lo hi (idx + length vs) ws"
  by (simp_all add: in_range_def)

lemma in_range_empty:
  "idx + length vs \<le> lo \<Longrightarrow> in_range lo hi idx vs = []" "hi \<le> idx \<Longrightarrow> in_range lo hi idx vs = []"
  by (induction vs arbitrary: idx) auto

lemma in_range_nonempty:
  "lo < idx + length vs \<Longrightarrow> idx < hi \<Longrightarrow> lo < hi \<Longrightarrow> vs \<noteq> [] \<Longrightarrow> in_range lo hi idx vs \<noteq> []"
proof (induction vs arbitrary: idx)
  case (Cons v vs)
  show ?case
  proof (cases "lo \<le> idx")
    case False
    then show ?thesis using Cons.IH [of "idx + 1"] Cons.prems by (cases vs) auto
  qed (use Cons.prems in simp)
qed simp

lemma snd_in_range: "snd ` set (in_range lo hi idx vs) = {idx..<idx + length vs} \<inter> {lo..<hi}"
proof -
  have "snd ` set (in_range lo hi idx vs) = {i \<in> snd ` set (indexed idx vs). lo \<le> i \<and> i < hi}" by (auto simp: in_range_def)
  then show ?thesis by (auto simp: snd_indexed)
qed

lemma in_range_map:
  assumes "hi \<le> length vs"
  shows "in_range lo hi 0 vs = map (\<lambda>i. (vs ! i, i)) [lo..<hi]"
proof -
  have "indexed 0 vs = map (\<lambda>i. (vs ! i, i)) [0..<length vs]" by (rule nth_equalityI) (auto simp: indexed_def)
  moreover have "filter (\<lambda>i. lo \<le> i \<and> i < hi) [0..<length vs] = [lo..<hi]"
    using assms by (intro sorted_distinct_set_unique) (auto simp: sorted_wrt_filter)
  ultimately show ?thesis by (simp add: in_range_def filter_map comp_def)
qed

lemma iterate_internal_ok:
  "weights_ok t \<Longrightarrow> iterate_internal f lo hi t idx s = iter_list f (in_range lo hi idx (vals t)) s"
proof (induction t arbitrary: idx s)
  case (Node w mk bl l v r)
  have w: "nweight l = length (vals l)" using Node.prems by (simp add: nweight_vals)
  have l: "(if lo < idx + nweight l then iterate_internal f lo hi l idx s else (0, s)) = iter_list f (in_range lo hi idx (vals l)) s" for s
    using Node.IH(1) [of idx s] Node.prems w by (simp add: in_range_empty(1))
  have r: "(if idx + nweight l + 1 < hi then iterate_internal f lo hi r (idx + nweight l + 1) s else (0, s)) =
      iter_list f (in_range lo hi (idx + nweight l + 1) (vals r)) s" for s
    using Node.IH(2) [of "idx + nweight l + 1" s] Node.prems w by (simp add: in_range_empty(2))
  show ?case
    unfolding iterate_internal.simps Let_def l r by (auto simp: iter_list_append w split: prod.splits)
qed simp

lemma iterate_internal_array_ok:
  assumes "hi \<le> a_num_values q"
  shows "iterate_internal_array f i hi q s = iter_list f (map (\<lambda>i. (array_values q ! i, i)) [i..<hi]) s"
  using assms
proof (induction f i hi q s rule: iterate_internal_array.induct)
  case (1 f i hi q s)
  then show ?case
    by (subst iterate_internal_array.simps) (auto simp: upt_conv_Cons simp del: upt_Suc split: prod.splits)
qed

lemma iterate_on_range_ok:
  assumes "omt_wf sm q"
  shows "iterate_on_range f lo hi q s =
    (if hi > length (omt_list q) then Inl EINVAL else Inr (iter_list f (map (\<lambda>i. (omt_list q ! i, i)) [lo..<hi]) s))"
  using assms omt_size_eq [OF assms] iterate_internal_array_ok [of hi q f lo s] iterate_internal_ok [of "t_root q" f lo hi 0 s]
  by (auto simp: iterate_on_range_def omt_list_def omt_wf_def tree_okD in_range_map)

subsection \<open>Consistent marks\<close>

fun marks :: "'a omt_tree \<Rightarrow> bool list" where
  "marks Null = []"
| "marks (Node w mk bl l v r) = marks l @ mk # marks r"

fun marks_ok :: "'a omt_tree \<Rightarrow> bool" where
  "marks_ok Null = True"
| "marks_ok (Node w mk bl l v r) \<longleftrightarrow> (bl \<longleftrightarrow> True \<in> set (marks l) \<or> True \<in> set (marks r)) \<and> marks_ok l \<and> marks_ok r"

lemma length_marks [simp]: "length (marks t) = length (vals t)"
  by (induction t) auto

lemma unmarked_iff: "unmarked t \<longleftrightarrow> marks_ok t \<and> True \<notin> set (marks t)"
  by (induction t) auto

lemma marks_ok_has_marks: "marks_ok t \<Longrightarrow> has_marks t \<longleftrightarrow> True \<in> set (marks t)"
  by (cases t) auto

lemma count_True_pos: "0 < count_list ms True \<longleftrightarrow> True \<in> set ms"
  by (metis count_list_0_iff neq0_conv)

lemma verify_marks_consistent_internal_ok:
  "marks_ok t \<Longrightarrow> (allow \<or> True \<notin> set (marks t)) \<Longrightarrow>
     verify_marks_consistent_internal t allow = Some (count_list (marks t) True)"
proof (induction t arbitrary: allow)
  case (Node w mk bl l v r)
  have "verify_marks_consistent_internal l bl = Some (count_list (marks l) True)"
    "verify_marks_consistent_internal r bl = Some (count_list (marks r) True)"
    using Node.prems(1) Node.IH(1) [of bl] Node.IH(2) [of bl] by (cases bl; simp)+
  moreover have "bl \<longleftrightarrow> 0 < count_list (marks l) True + count_list (marks r) True"
    using Node.prems(1) by (simp add: count_True_pos)
  moreover have "(bl \<longrightarrow> allow) \<and> (mk \<longrightarrow> allow)" using Node.prems by auto
  ultimately show ?case by (auto simp: Let_def)
qed simp

lemma verify_marks_consistent_internal_marks_ok:
  "verify_marks_consistent_internal t allow = Some n \<Longrightarrow> marks_ok t \<and> n = count_list (marks t) True"
proof (induction t arbitrary: allow n)
  case (Node w mk bl l v r)
  obtain a b where ab: "verify_marks_consistent_internal l bl = Some a" "verify_marks_consistent_internal r bl = Some b"
    "bl \<longleftrightarrow> 0 < a + b" "n = (if mk then a + b + 1 else a + b)"
    using Node.prems by (auto simp: Let_def split: bind_splits if_splits)
  note IH = Node.IH(1) [OF ab(1)] Node.IH(2) [OF ab(2)]
  have "bl \<longleftrightarrow> True \<in> set (marks l) \<or> True \<in> set (marks r)" using ab(3) IH by (simp add: count_True_pos)
  then show ?case using IH ab(4) by simp
qed simp

text \<open>Setting the marks at the indices of \<open>I\<close>.\<close>

definition mark_at :: "nat set \<Rightarrow> nat \<Rightarrow> bool list \<Rightarrow> bool list" where
  "mark_at I idx ms = map (\<lambda>x. fst x \<or> snd x \<in> I) (indexed idx ms)"

lemma mark_at_simps [simp]:
  "mark_at I idx [] = []" "mark_at I idx (m # ms) = (m \<or> idx \<in> I) # mark_at I (idx + 1) ms"
  "mark_at I idx (ms @ ns) = mark_at I idx ms @ mark_at I (idx + length ms) ns"
  by (simp_all add: mark_at_def)

lemma mark_at_cong:
  "I \<inter> {idx..<idx + length ms} = J \<inter> {idx..<idx + length ms} \<Longrightarrow> mark_at I idx ms = mark_at J idx ms"
proof -
  assume "I \<inter> {idx..<idx + length ms} = J \<inter> {idx..<idx + length ms}"
  then have "snd x \<in> I \<longleftrightarrow> snd x \<in> J" if "x \<in> set (indexed idx ms)" for x
    using that snd_indexed [of idx ms] by blast
  then show ?thesis by (simp add: mark_at_def)
qed

lemma mark_at_none: "I \<inter> {idx..<idx + length ms} = {} \<Longrightarrow> mark_at I idx ms = ms"
proof -
  have "mark_at {} idx ms = ms" by (induction ms arbitrary: idx) auto
  then show "I \<inter> {idx..<idx + length ms} = {} \<Longrightarrow> mark_at I idx ms = ms" using mark_at_cong [of I idx ms "{}"] by simp
qed

lemma True_in_mark_at: "True \<in> set (mark_at I idx ms) \<longleftrightarrow> True \<in> set ms \<or> I \<inter> {idx..<idx + length ms} \<noteq> {}"
proof (induction ms arbitrary: idx)
  case (Cons m ms)
  have "{idx..<idx + length (m # ms)} = insert idx {idx + 1..<idx + 1 + length ms}" by auto
  then show ?case using Cons [of "idx + 1"] by auto
qed simp

subsection \<open>Marking a range\<close>

definition marked_as :: "'a omt_tree \<Rightarrow> nat set \<Rightarrow> nat \<Rightarrow> 'a omt_tree \<Rightarrow> bool" where
  "marked_as t I idx t' \<longleftrightarrow> vals t' = vals t \<and> weights_ok t' \<and> nweight t' = nweight t \<and> (balanced t \<longrightarrow> balanced t') \<and>
     marks_ok t' \<and> marks t' = mark_at I idx (marks t)"

lemma marked_as_refl:
  "weights_ok t \<Longrightarrow> marks_ok t \<Longrightarrow> I \<inter> {idx..<idx + length (vals t)} = {} \<Longrightarrow> marked_as t I idx t"
  by (simp add: marked_as_def mark_at_none)

lemma marked_as_cong:
  "marked_as t I idx t' \<Longrightarrow> I \<inter> {idx..<idx + length (vals t)} = J \<inter> {idx..<idx + length (vals t)} \<Longrightarrow> marked_as t J idx t'"
  using mark_at_cong [of I idx "marks t" J] by (simp add: marked_as_def)

lemma marked_as_node:
  assumes "marked_as l I idx l'" "marked_as r I (idx + length (vals l) + 1) r'" "weights_ok (Node w mk bl l v r)"
    and "mk' = (mk \<or> idx + length (vals l) \<in> I)" "bl' \<longleftrightarrow> True \<in> set (marks l') \<or> True \<in> set (marks r')"
  shows "marked_as (Node w mk bl l v r) I idx (Node w mk' bl' l' v r')"
  using assms by (auto simp: marked_as_def will_need_rebalance_iff)

lemma marked_as_True:
  assumes "marked_as t (visited f (in_range lo hi idx (vals t)) s) idx t'"
  shows "True \<in> set (marks t') \<longleftrightarrow> True \<in> set (marks t) \<or> in_range lo hi idx (vals t) \<noteq> []"
proof -
  have "visited f (in_range lo hi idx (vals t)) s \<subseteq> {idx..<idx + length (vals t)}"
    using visited_subset [of f "in_range lo hi idx (vals t)" s] by (auto simp: snd_in_range)
  then show ?thesis
    using assms visited_nonempty [of "in_range lo hi idx (vals t)" f s]
    by (cases "in_range lo hi idx (vals t) = []") (auto simp: marked_as_def True_in_mark_at Int_absorb2)
qed

lemma iterate_and_mark_range_internal_ok:
  assumes "weights_ok t" "marks_ok t" "lo < hi" "lo < idx + length (vals t)" "idx < hi" "t \<noteq> Null"
  shows "\<exists>t'. iterate_and_mark_range_internal f lo hi t idx s = Some (iter_list f (in_range lo hi idx (vals t)) s, t') \<and>
    marked_as t (visited f (in_range lo hi idx (vals t)) s) idx t'"
  using assms
proof (induction t arbitrary: idx s)
  case (Node w mk bl l v r)
  have w: "nweight l = length (vals l)" and wl: "weights_ok l" "weights_ok r" and ml: "marks_ok l" "marks_ok r"
    using Node.prems by (simp_all add: nweight_vals)
  define root where "root = idx + nweight l"
  let ?go = "lo < root \<and> l \<noteq> Null" and ?go_r = "root + 1 < hi \<and> r \<noteq> Null"
  let ?L = "in_range lo hi idx (vals l)" and ?R = "in_range lo hi (root + 1) (vals r)"
  have sub: "visited f ?L s \<subseteq> {idx..<root}" "visited f ?R s \<subseteq> {root + 1..<root + 1 + length (vals r)}" for s
    using visited_subset [of f ?L s] visited_subset [of f ?R s] w by (auto simp: snd_in_range root_def)
  have ne: "?go \<Longrightarrow> ?L \<noteq> []" "\<not> ?go \<Longrightarrow> ?L = []" "?go_r \<Longrightarrow> ?R \<noteq> []" "\<not> ?go_r \<Longrightarrow> ?R = []"
    using w Node.prems(3-5) in_range_nonempty [of lo "idx" "vals l" hi] in_range_nonempty [of lo "root + 1" "vals r" hi]
      in_range_empty(1) [of idx "vals l" lo hi] in_range_empty(2) [of hi "root + 1" lo "vals r"] by (auto simp: root_def)
  have l: "\<exists>l'. (if ?go then iterate_and_mark_range_internal f lo hi l idx s else Some ((0, s), l)) = Some (iter_list f ?L s, l') \<and>
      marked_as l (visited f ?L s) idx l'" for s
    using Node.IH(1) [of idx s] Node.prems ne(2) w marked_as_refl [OF wl(1) ml(1)] by (auto simp: root_def)
  have r: "\<exists>r'. (if ?go_r then iterate_and_mark_range_internal f lo hi r (root + 1) s else Some ((0, s), r)) = Some (iter_list f ?R s, r') \<and>
      marked_as r (visited f ?R s) (root + 1) r'" for s
    using Node.IH(2) [of "root + 1" s] Node.prems ne(4) w marked_as_refl [OF wl(2) ml(2)] by (auto simp: root_def)
  obtain l' where l': "(if ?go then iterate_and_mark_range_internal f lo hi l idx s else Some ((0, s), l)) = Some (iter_list f ?L s, l')"
    "marked_as l (visited f ?L s) idx l'" using l by blast
  have tl: "True \<in> set (marks l') \<longleftrightarrow> True \<in> set (marks l) \<or> ?go" using marked_as_True [OF l'(2)] ne by blast
  obtain r1 s1 where rs: "iter_list f ?L s = (r1, s1)" by fastforce
  have bl: "bl \<longleftrightarrow> True \<in> set (marks l) \<or> True \<in> set (marks r)" using Node.prems(2) by simp
  note defs = Let_def root_def [symmetric] w [symmetric] iter_list_append visited_append
  show ?case
  proof (cases "r1 = 0")
    case False
    have "marked_as r (visited f ?L s) (root + 1) r"
      using sub(1) [of s] by (intro marked_as_refl) (use wl ml in auto)
    then have "marked_as (Node w mk bl l v r) (visited f ?L s) idx (Node w mk (bl \<or> ?go) l' v r)"
      using l'(2) Node.prems(1) sub(1) [of s] w bl tl by (intro marked_as_node) (auto simp: root_def)
    then show ?thesis using l'(1) rs False by (simp add: defs)
  next
    case True
    let ?here = "lo \<le> root \<and> root < hi"
    have parts: "in_range lo hi idx (vals (Node w mk bl l v r)) = ?L @ (if ?here then [(v, root)] else []) @ ?R"
      by (simp add: root_def w)
    obtain r2 s2 where rs2: "(if ?here then f v root s1 else (0, s1)) = (r2, s2)" by fastforce
    define I where "I = visited f ?L s \<union> (if ?here then {root} else {}) \<union> (if r2 = 0 then visited f ?R s2 else {})"
    have "marked_as l I idx l'"
      using sub(1) [of s] sub(2) [of s2] w by (intro marked_as_cong [OF l'(2)]) (auto simp: I_def root_def)
    note node = marked_as_node [OF this _ Node.prems(1), where mk' = "mk \<or> ?here"]
    have here: "root \<in> I \<longleftrightarrow> ?here" using sub(1) [of s] sub(2) [of s2] by (auto simp: I_def)
    show ?thesis
    proof (cases "r2 = 0")
      case r2: True
      obtain r' where r': "(if ?go_r then iterate_and_mark_range_internal f lo hi r (root + 1) s2 else Some ((0, s2), r)) = Some (iter_list f ?R s2, r')"
        "marked_as r (visited f ?R s2) (root + 1) r'" using r by blast
      have tr: "True \<in> set (marks r') \<longleftrightarrow> True \<in> set (marks r) \<or> ?go_r" using marked_as_True [OF r'(2)] ne by blast
      have "marked_as r I (root + 1) r'"
        using sub(1) [of s] by (intro marked_as_cong [OF r'(2)]) (auto simp: I_def r2)
      then have m: "marked_as (Node w mk bl l v r) I idx (Node w (mk \<or> ?here) (bl \<or> ?go \<or> ?go_r) l' v r')"
        using here bl tl tr w by (intro node) (auto simp: root_def)
      have eq: "iterate_and_mark_range_internal f lo hi (Node w mk bl l v r) idx s =
          Some (iter_list f ?R s2, Node w (mk \<or> ?here) (bl \<or> ?go \<or> ?go_r) l' v r')"
        using r'(1) ne(4) r2 rs2 True
        unfolding iterate_and_mark_range_internal.simps Let_def root_def [symmetric] l'(1) rs
        by (cases ?go_r) (auto split: if_splits)
      have it: "iter_list f (in_range lo hi idx (vals (Node w mk bl l v r))) s = iter_list f ?R s2"
        unfolding parts iter_list_append rs using True rs2 r2 by (cases ?here) auto
      have vi: "visited f (in_range lo hi idx (vals (Node w mk bl l v r))) s = I"
        unfolding parts I_def visited_append rs using True rs2 r2 by (cases ?here) auto
      show ?thesis unfolding eq it vi using m by blast
    next
      case r2: False
      then have ?here using rs2 by (auto split: if_splits)
      have "marked_as r I (root + 1) r"
        using sub(1) [of s] by (intro marked_as_refl) (use wl ml r2 in \<open>auto simp: I_def\<close>)
      then have "marked_as (Node w mk bl l v r) I idx (Node w (mk \<or> ?here) (bl \<or> ?go) l' v r)"
        using here bl tl w by (intro node) (auto simp: root_def)
      then show ?thesis
        using l'(1) rs True rs2 r2 \<open>?here\<close> by (simp add: defs I_def)
    qed
  qed
qed simp

subsection \<open>Deleting the marked values\<close>

definition marked_wf :: "'a omt \<Rightarrow> bool" where
  "marked_wf q \<longleftrightarrow> \<not> is_array q \<and> weights_ok (t_root q) \<and> marks_ok (t_root q) \<and> balanced (t_root q) \<and>
     length (vals (t_root q)) \<le> t_free_idx q \<and> t_free_idx q \<le> capacity q"

definition omt_marks :: "'a omt \<Rightarrow> bool list" where
  "omt_marks q = marks (t_root q)"

lemma omt_wf_marked: "omt_wf True q \<longleftrightarrow> marked_wf q \<and> True \<notin> set (omt_marks q)"
  by (auto simp: omt_wf_def marked_wf_def omt_marks_def tree_ok_def unmarked_iff)

lemma marked_wf_size: "marked_wf q \<Longrightarrow> omt_size q = length (omt_list q)" "marked_wf q \<Longrightarrow> length (omt_marks q) = length (omt_list q)"
  by (simp_all add: marked_wf_def omt_size_def omt_list_def nweight_vals omt_marks_def)

definition marked_indices :: "nat \<Rightarrow> bool list \<Rightarrow> nat list" where
  "marked_indices idx ms = map snd (filter fst (indexed idx ms))"

lemma marked_indices_simps [simp]:
  "marked_indices idx [] = []" "marked_indices idx (m # ms) = (if m then [idx] else []) @ marked_indices (idx + 1) ms"
  "marked_indices idx (ms @ ns) = marked_indices idx ms @ marked_indices (idx + length ms) ns"
  by (simp_all add: marked_indices_def)

lemma marked_indices_none: "True \<notin> set ms \<Longrightarrow> marked_indices idx ms = []"
  by (induction ms arbitrary: idx) auto

lemma unmark_ok:
  "weights_ok t \<Longrightarrow> marks_ok t \<Longrightarrow>
     \<exists>t'. unmark t idx acc = (t', acc @ marked_indices idx (marks t)) \<and> vals t' = vals t \<and> nweight t' = nweight t \<and>
       weights_ok t' \<and> unmarked t' \<and> (balanced t \<longrightarrow> balanced t')"
proof (induction t arbitrary: idx acc)
  case (Node w mk bl l v r)
  have w: "nweight l = length (vals l)" using Node.prems(1) by (simp add: nweight_vals)
  show ?case
  proof (cases bl)
    case True
    obtain l' where l': "unmark l idx acc = (l', acc @ marked_indices idx (marks l))" "vals l' = vals l" "nweight l' = nweight l"
      "weights_ok l'" "unmarked l'" "balanced l \<longrightarrow> balanced l'"
      using Node.IH(1) [of idx acc] Node.prems by auto
    let ?acc = "acc @ marked_indices idx (marks l) @ (if mk then [idx + nweight l] else [])"
    obtain r' where r': "unmark r (idx + nweight l + 1) ?acc = (r', ?acc @ marked_indices (idx + nweight l + 1) (marks r))"
      "vals r' = vals r" "nweight r' = nweight r" "weights_ok r'" "unmarked r'" "balanced r \<longrightarrow> balanced r'"
      using Node.IH(2) [of "idx + nweight l + 1" ?acc] Node.prems by auto
    show ?thesis
      using True l' r' Node.prems(1) w by (cases mk) (auto simp: will_need_rebalance_iff Let_def)
  next
    case False
    then show ?thesis
      using Node.prems w by (auto simp: marked_indices_none unmarked_iff will_need_rebalance_iff Let_def)
  qed
qed simp

definition unmarked_values :: "'a list \<Rightarrow> bool list \<Rightarrow> 'a list" where
  "unmarked_values vs ms = map fst (filter (\<lambda>x. \<not> snd x) (zip vs ms))"

lemma unmarked_values_simps [simp]:
  "unmarked_values [] ms = []" "unmarked_values vs [] = []" "unmarked_values (v # vs) (m # ms) = (if m then [] else [v]) @ unmarked_values vs ms"
  by (simp_all add: unmarked_values_def)

lemma unmarked_values_none: "length vs = length ms \<Longrightarrow> True \<notin> set ms \<Longrightarrow> unmarked_values vs ms = vs"
  by (induction vs ms rule: list_induct2) auto

lemma delete_marked_indexes_ok:
  assumes "omt_wf True q" "omt_list q = kept @ vs" "length vs = length ms" "p = length kept + i"
  shows "returns (delete_marked_indexes (marked_indices p ms) i q) (\<lambda>q'. implements True q' (kept @ unmarked_values vs ms))"
  using assms
proof (induction ms arbitrary: p i q kept vs)
  case Nil
  then show ?case by (simp add: implements_def)
next
  case (Cons m ms)
  then obtain v vs' where vs: "vs = v # vs'" "length vs' = length ms" by (cases vs) auto
  show ?case
  proof (cases m)
    case True
    have "returns (delete_at True (p - i) q) (same_result (omt_delete_at (omt_list q) (p - i)) (implements True))"
      by (rule delete_at_ok [OF Cons.prems(1)])
    then obtain q' where q': "delete_at True (p - i) q = Some (Inr q')" "implements True q' (kept @ vs')"
      using Cons.prems vs by (auto simp: returns_def omt_delete_at_def elim!: same_result_InrE)
    then show ?thesis using Cons.IH [of q' kept vs' "p + 1" "i + 1"] Cons.prems(4) True vs by (simp add: implements_def)
  next
    case False
    then show ?thesis using Cons.IH [of q "kept @ [v]" vs' "p + 1" i] Cons.prems vs by simp
  qed
qed

lemma delete_all_marked_ok:
  assumes "marked_wf q"
  shows "returns (delete_all_marked q) (\<lambda>q'. implements True q' (unmarked_values (omt_list q) (omt_marks q)))"
proof (cases "True \<in> set (omt_marks q)")
  case False
  then show ?thesis
    using assms marked_wf_size(2) [OF assms] marks_ok_has_marks [of "t_root q"]
    by (simp add: delete_all_marked_def implements_def omt_wf_marked unmarked_values_none) (simp add: marked_wf_def omt_marks_def)
next
  case True
  have q: "\<not> is_array q" "weights_ok (t_root q)" "marks_ok (t_root q)" "balanced (t_root q)" "has_marks (t_root q)"
    "length (vals (t_root q)) \<le> t_free_idx q" "t_free_idx q \<le> capacity q"
    using assms True marks_ok_has_marks [of "t_root q"] by (auto simp: marked_wf_def omt_marks_def)
  obtain t where t: "unmark (t_root q) 0 [] = (t, marked_indices 0 (omt_marks q))" "vals t = vals (t_root q)"
    "weights_ok t" "unmarked t" "balanced t"
    using unmark_ok [OF q(2,3), of 0 "[]"] q(4) by (auto simp: omt_marks_def)
  let ?q = "q\<lparr>t_root := t\<rparr>"
  have "omt_wf True ?q" "omt_list ?q = [] @ omt_list q" using q t by (simp_all add: omt_wf_def omt_list_def tree_ok_def)
  from delete_marked_indexes_ok [OF this marked_wf_size(2) [OF assms, symmetric], of 0 0]
  have "returns (delete_marked_indexes (marked_indices 0 (omt_marks q)) 0 ?q) (\<lambda>q'. implements True q' (unmarked_values (omt_list q) (omt_marks q)))"
    by simp
  then show ?thesis
    using q t by (auto simp: delete_all_marked_def returns_def implements_def barf_if_marked_ok)
qed

subsection \<open>Visiting the marked values\<close>

definition marked_values :: "nat \<Rightarrow> 'a list \<Rightarrow> bool list \<Rightarrow> ('a \<times> nat) list" where
  "marked_values idx vs ms = map fst (filter snd (zip (indexed idx vs) ms))"

lemma marked_values_simps [simp]:
  "marked_values idx [] ms = []" "marked_values idx vs [] = []"
  "marked_values idx (v # vs) (m # ms) = (if m then [(v, idx)] else []) @ marked_values (idx + 1) vs ms"
  by (simp_all add: marked_values_def)

lemma marked_values_append:
  "length vs = length ms \<Longrightarrow> marked_values idx (vs @ ws) (ms @ ns) = marked_values idx vs ms @ marked_values (idx + length vs) ws ns"
  by (induction vs ms arbitrary: idx rule: list_induct2) auto

lemma marked_values_none: "True \<notin> set ms \<Longrightarrow> marked_values idx vs ms = []"
  by (auto simp: marked_values_def filter_empty_conv dest: set_zip_rightD)

lemma iterate_over_marked_internal_ok:
  "weights_ok t \<Longrightarrow> marks_ok t \<Longrightarrow> iterate_over_marked_internal f t idx s = iter_list f (marked_values idx (vals t) (marks t)) s"
proof (induction t arbitrary: idx s)
  case (Node w mk bl l v r)
  have w: "nweight l = length (vals l)" using Node.prems by (simp add: nweight_vals)
  have l: "(if bl then iterate_over_marked_internal f l idx s else (0, s)) = iter_list f (marked_values idx (vals l) (marks l)) s" for s
    using Node.IH(1) [of idx s] Node.prems by (simp add: marked_values_none)
  have r: "(if bl then iterate_over_marked_internal f r (idx + nweight l + 1) s else (0, s)) =
      iter_list f (marked_values (idx + nweight l + 1) (vals r) (marks r)) s" for s
    using Node.IH(2) [of "idx + nweight l + 1" s] Node.prems by (simp add: marked_values_none)
  show ?case
    unfolding iterate_over_marked_internal.simps Let_def l r
    by (auto simp: iter_list_append marked_values_append w split: prod.splits)
qed simp

lemma iterate_and_mark_range_ok:
  assumes "marked_wf q" "lo \<le> hi" "hi \<le> omt_size q"
  shows "\<exists>q'. iterate_and_mark_range f lo hi q s = Some (Inr (iter_list f (map (\<lambda>i. (omt_list q ! i, i)) [lo..<hi]) s, q')) \<and>
    marked_wf q' \<and> omt_list q' = omt_list q \<and>
    omt_marks q' = mark_at (visited f (map (\<lambda>i. (omt_list q ! i, i)) [lo..<hi]) s) 0 (omt_marks q)"
proof -
  have q: "\<not> is_array q" "weights_ok (t_root q)" "marks_ok (t_root q)" "omt_list q = vals (t_root q)" "hi \<le> length (vals (t_root q))"
    "balanced (t_root q)" "omt_size q = length (vals (t_root q))"
    using assms marked_wf_size(1) [OF assms(1)] by (auto simp: marked_wf_def omt_list_def)
  show ?thesis
  proof (cases "lo = hi")
    case True
    then show ?thesis using assms(1,3) mark_at_none [of "{}" 0 "omt_marks q"] by (simp add: iterate_and_mark_range_def)
  next
    case False
    then have r: "lo < hi" "lo < 0 + length (vals (t_root q))" "0 < hi" "t_root q \<noteq> Null" using assms(2) q(5) by auto
    obtain t where t: "iterate_and_mark_range_internal f lo hi (t_root q) 0 s = Some (iter_list f (in_range lo hi 0 (vals (t_root q))) s, t)"
      "marked_as (t_root q) (visited f (in_range lo hi 0 (vals (t_root q))) s) 0 t"
      using iterate_and_mark_range_internal_ok [OF q(2,3) r, of f s] by blast
    let ?q = "q\<lparr>t_root := t\<rparr>"
    have "\<not> hi > omt_size q" using assms(3) by simp
    then have "iterate_and_mark_range f lo hi q s = Some (Inr (iter_list f (in_range lo hi 0 (vals (t_root q))) s, ?q))"
      using False q(1) t(1) by (simp add: iterate_and_mark_range_def)
    moreover have "marked_wf ?q" "omt_list ?q = vals (t_root q)"
      using t(2) q(1,6) assms(1) by (simp_all add: marked_as_def marked_wf_def omt_list_def)
    moreover have "omt_marks ?q = mark_at (visited f (in_range lo hi 0 (vals (t_root q))) s) 0 (omt_marks q)"
      using t(2) by (simp add: marked_as_def omt_marks_def)
    ultimately show ?thesis unfolding q(4) in_range_map [OF q(5)] by blast
  qed
qed

lemma mark_at_False: "True \<notin> set ms \<Longrightarrow> mark_at I idx ms = map (\<lambda>i. i \<in> I) [idx..<idx + length ms]"
  by (induction ms arbitrary: idx) (auto simp: upt_conv_Cons simp del: upt_Suc)

lemma unmarked_values_map:
  "unmarked_values vs (map m [0..<length vs]) = map (\<lambda>i. vs ! i) (filter (\<lambda>i. \<not> m i) [0..<length vs])"
proof -
  have "zip vs (map m [0..<length vs]) = map (\<lambda>i. (vs ! i, m i)) [0..<length vs]" by (rule nth_equalityI) auto
  then show ?thesis by (simp add: unmarked_values_def filter_map comp_def)
qed

lemma marked_values_map:
  "marked_values 0 vs (map m [0..<length vs]) = map (\<lambda>i. (vs ! i, i)) (filter m [0..<length vs])"
proof -
  have "zip (indexed 0 vs) (map m [0..<length vs]) = map (\<lambda>i. ((vs ! i, i), m i)) [0..<length vs]"
    by (rule nth_equalityI) (auto simp: indexed_def)
  then show ?thesis by (simp add: marked_values_def filter_map comp_def)
qed

subsection \<open>Properties\<close>

text \<open>
  C25. Iterating over an index range calls the function on exactly the values of the range, in order and each with its
  index, in either representation, and stops at the first call that does not return zero; a range that ends behind the
  sequence is refused with \<open>EINVAL\<close> before any call.
\<close>

theorem iterate_on_range_correct:
  assumes "omt_wf sm q"
  shows "iterate_on_range f lo hi q s =
    (if hi > omt_size q then Inl EINVAL else Inr (iter_list f (map (\<lambda>i. (omt_list q ! i, i)) [lo..<hi]) s))"
  using iterate_on_range_ok [OF assms, of f lo hi s] omt_size_eq [OF assms] by simp

theorem iterate_on_range_correct_witness:
  "iterate_on_range (\<lambda>v i s. (if v = 25 then 7 else 0, s @ [(v, i)])) 1 5 squares [] = Inr (7, [(9, 1), (16, 2), (25, 3)])"
proof -
  have l: "omt_list squares = [4, 9, 16, 25, 36]"
    by (simp add: squares_def omt_list_def array_values_def upt_rec)
  have "omt_wf False squares" "omt_size squares = 5" by (simp_all add: squares_def omt_wf_def omt_size_def)
  then show ?thesis
    using iterate_on_range_correct [of False squares "\<lambda>v i s. (if v = 25 then 7 else 0, s @ [(v, i)])" 1 5 "[]"]
    unfolding l by (simp add: upt_rec)
qed

text \<open>
  C26. The life cycle of marks. Visiting a range marks exactly the values whose visit was begun, and leaves the bits consistent, as
  \<open>verify_marks_consistent\<close> checks them; \<open>iterate_over_marked\<close> then visits exactly these values in order; and \<open>delete_all_marked\<close>
  returns, deletes exactly these values, and leaves a tree without marks.
\<close>

theorem mark_then_delete:
  assumes "omt_wf True q" "lo \<le> hi" "hi \<le> omt_size q"
  shows "\<exists>q1 q2. iterate_and_mark_range f lo hi q s = Some (Inr (iter_list f (map (\<lambda>i. (omt_list q ! i, i)) [lo..<hi]) s, q1)) \<and>
    omt_list q1 = omt_list q \<and> (\<exists>n. verify_marks_consistent q1 = Some n) \<and>
    (let seen = visited f (map (\<lambda>i. (omt_list q ! i, i)) [lo..<hi]) s in
      iterate_over_marked g q1 u = Some (iter_list g (map (\<lambda>i. (omt_list q ! i, i)) (filter (\<lambda>i. i \<in> seen) [0..<omt_size q])) u) \<and>
      delete_all_marked q1 = Some q2 \<and> omt_wf True q2 \<and>
      omt_list q2 = map (\<lambda>i. omt_list q ! i) (filter (\<lambda>i. i \<notin> seen) [0..<omt_size q]))"
proof -
  have q: "marked_wf q" "True \<notin> set (omt_marks q)" using assms(1) by (simp_all add: omt_wf_marked)
  note size = marked_wf_size [OF q(1)]
  let ?seen = "visited f (map (\<lambda>i. (omt_list q ! i, i)) [lo..<hi]) s"
  obtain q1 where q1: "iterate_and_mark_range f lo hi q s = Some (Inr (iter_list f (map (\<lambda>i. (omt_list q ! i, i)) [lo..<hi]) s, q1))"
    "marked_wf q1" "omt_list q1 = omt_list q" "omt_marks q1 = map (\<lambda>i. i \<in> ?seen) [0..<length (omt_list q)]"
    using iterate_and_mark_range_ok [OF q(1) assms(2,3), of f s] mark_at_False [OF q(2), of ?seen 0] size(2) by auto
  obtain q2 where q2: "delete_all_marked q1 = Some q2" "implements True q2 (unmarked_values (omt_list q) (omt_marks q1))"
    using delete_all_marked_ok [OF q1(2)] q1(3) by (auto simp: returns_def)
  have t: "\<not> is_array q1" "weights_ok (t_root q1)" "marks_ok (t_root q1)" "vals (t_root q1) = omt_list q" "marks (t_root q1) = omt_marks q1"
    using q1(2,3) by (simp_all add: marked_wf_def omt_list_def omt_marks_def)
  have "iterate_over_marked g q1 u = Some (iter_list g (marked_values 0 (omt_list q) (omt_marks q1)) u)"
    using t iterate_over_marked_internal_ok [OF t(2,3)] by (simp add: iterate_over_marked_def)
  moreover have "\<exists>n. verify_marks_consistent q1 = Some n"
    using t verify_marks_consistent_internal_ok [OF t(3)] by (simp add: verify_marks_consistent_def)
  ultimately show ?thesis
    using q1 q2 size unfolding q1(4) marked_values_map unmarked_values_map by (auto simp: Let_def implements_def)
qed

theorem mark_then_delete_witness:
  "\<exists>q q1 q2. omt_create_from_sorted_array True [10, 20, 30, 40 :: nat] squares = Some q \<and>
     iterate_and_mark_range (\<lambda>v i s. (0, s + v)) 1 3 q 0 = Some (Inr ((0, 50), q1)) \<and>
     delete_all_marked q1 = Some q2 \<and> omt_list q2 = [10, 40]"
proof -
  obtain q where q: "omt_create_from_sorted_array True [10, 20, 30, 40 :: nat] squares = Some q" "implements True q [10, 20, 30, 40]"
    using omt_create_from_sorted_array_ok [of True "[10, 20, 30, 40 :: nat]" squares] by (auto simp: returns_def)
  then have wf: "omt_wf True q" "omt_list q = [10, 20, 30, 40]" by (simp_all add: implements_def)
  then have size: "omt_size q = 4" using omt_size_eq [of True q] by simp
  have "(1 :: nat) \<le> 3" "3 \<le> omt_size q" using size by simp_all
  from mark_then_delete [OF wf(1) this, of "\<lambda>v i s. (0, s + v)" 0 "\<lambda>v i s. (0, s)" "0 :: nat"]
  show ?thesis using q(1) by (auto simp: wf(2) size upt_rec Let_def)
qed

end
