(* ===== verification/Keyrange.thy ===== *)
theory Keyrange
  imports Ft_Prelude
begin

text \<open>
  Keys, their comparison and ranges of keys: \<open>src/util/dbt.cc\<close>, \<open>src/ft/comparator.h\<close>,
  \<open>toku_builtin_compare_fun\<close> of \<open>src/ft/ft-ops.cc\<close> and \<open>src/locktree/keyrange.cc\<close>.

  A \<open>DBT\<close> is one of the two infinities, which the code recognises by their address, or a
  buffer: its address, 0 for the null pointer, and its bytes. The only use of an address is
  \<open>toku_dbt_equals\<close> on the two ends of one range, so a clone takes an address that differs from the
  other end of its range. The comparison function of the user is a parameter, a field of
  \<open>comparator\<close>; what the lock tree expects of it is \<open>comparator_ok\<close>.
\<close>

subsection \<open>Keys\<close>

type_synonym bytes = "byte list"

datatype DBT = NegInf | PosInf | Dbt (dbt_ptr: nat) (dbt_data: bytes)

definition toku_init_dbt :: DBT where
  "toku_init_dbt = Dbt 0 []"

fun toku_dbt_is_infinite :: "DBT \<Rightarrow> bool" where
  "toku_dbt_is_infinite (Dbt p d) = False"
| "toku_dbt_is_infinite _ = True"

fun dbt_size :: "DBT \<Rightarrow> nat" where
  "dbt_size (Dbt p d) = length d"
| "dbt_size _ = 0"

definition toku_dbt_equals :: "DBT \<Rightarrow> DBT \<Rightarrow> bool" where
  "toku_dbt_equals a b =
     (if \<not> toku_dbt_is_infinite a \<and> \<not> toku_dbt_is_infinite b
      then dbt_ptr a = dbt_ptr b \<and> dbt_size a = dbt_size b
      else a = b)"

fun toku_clone_dbt :: "DBT \<Rightarrow> DBT \<Rightarrow> DBT" where
  "toku_clone_dbt (Dbt p d) src = Dbt (Suc p) (dbt_data src)"
| "toku_clone_dbt _ src = Dbt 1 (dbt_data src)"

definition toku_dbt_infinite_compare :: "DBT \<Rightarrow> DBT \<Rightarrow> int" where
  "toku_dbt_infinite_compare a b =
     (if a = b then 0 else if a = PosInf then 1 else if b = PosInf then - 1 else if a = NegInf then - 1 else 1)"

subsection \<open>Comparison\<close>

fun memcmp :: "bytes \<Rightarrow> bytes \<Rightarrow> int" where
  "memcmp (x # xs) (y # ys) = (if x = y then memcmp xs ys else if x < y then - 1 else 1)"
| "memcmp _ _ = 0"

definition toku_keycompare :: "bytes \<Rightarrow> bytes \<Rightarrow> int" where
  "toku_keycompare key1 key2 =
     (let comparelen = min (length key1) (length key2);
          c = memcmp (take comparelen key1) (take comparelen key2)
      in if c \<noteq> 0 then c
         else if length key1 < length key2 then - 1
         else if length key1 > length key2 then 1
         else 0)"

definition toku_builtin_compare_fun :: "bytes \<Rightarrow> bytes \<Rightarrow> int" where
  "toku_builtin_compare_fun a b = toku_keycompare a b"

record comparator =
  cmp_fun :: "bytes \<Rightarrow> bytes \<Rightarrow> int"
  memcmp_magic :: byte

definition MEMCMP_MAGIC_NONE :: byte where
  "MEMCMP_MAGIC_NONE = 0"

text \<open>
  The code compares a plain \<open>char\<close> with the magic byte, a \<open>uint8_t\<close>: both are promoted to \<open>int\<close>, and where
  \<open>char\<close> is signed (as on x86) a byte above 127 becomes negative and never matches. An empty key is taken not to have
  the magic byte; the code reads the byte at its address.
\<close>

fun dbt_has_memcmp_magic :: "comparator \<Rightarrow> bytes \<Rightarrow> bool" where
  "dbt_has_memcmp_magic c [] = False"
| "dbt_has_memcmp_magic c (b # bs) = (sint b = uint (memcmp_magic c))"

definition finite_compare :: "comparator \<Rightarrow> bytes \<Rightarrow> bytes \<Rightarrow> int" where
  "finite_compare c a b =
     (if memcmp_magic c \<noteq> MEMCMP_MAGIC_NONE \<and> dbt_has_memcmp_magic c a \<and> dbt_has_memcmp_magic c b
      then toku_builtin_compare_fun a b
      else cmp_fun c a b)"

definition compare_dbts :: "comparator \<Rightarrow> DBT \<Rightarrow> DBT \<Rightarrow> int" where
  "compare_dbts c a b =
     (if toku_dbt_is_infinite a \<or> toku_dbt_is_infinite b then toku_dbt_infinite_compare a b
      else finite_compare c (dbt_data a) (dbt_data b))"

subsection \<open>Key ranges\<close>

record keyrange =
  m_left_key_copy :: DBT
  m_right_key_copy :: DBT
  m_left_key :: "DBT option"
  m_right_key :: "DBT option"
  m_point_range :: bool

datatype comparison = EQUALS | LESS_THAN | GREATER_THAN | OVERLAPS

definition init_empty :: keyrange where
  "init_empty = \<lparr>m_left_key_copy = toku_init_dbt, m_right_key_copy = toku_init_dbt, m_left_key = None, m_right_key = None,
     m_point_range = False\<rparr>"

definition keyrange_create :: "DBT \<Rightarrow> DBT \<Rightarrow> keyrange" where
  "keyrange_create left' right' = init_empty\<lparr>m_left_key := Some left', m_right_key := Some right'\<rparr>"

definition get_left_key :: "keyrange \<Rightarrow> DBT" where
  "get_left_key k = (case m_left_key k of Some d \<Rightarrow> d | None \<Rightarrow> m_left_key_copy k)"

definition get_right_key :: "keyrange \<Rightarrow> DBT" where
  "get_right_key k = (case m_right_key k of Some d \<Rightarrow> d | None \<Rightarrow> m_right_key_copy k)"

definition set_both_keys :: "DBT \<Rightarrow> keyrange \<Rightarrow> keyrange" where
  "set_both_keys key k =
     (let k = (if toku_dbt_is_infinite key then k\<lparr>m_left_key := Some key, m_right_key := Some key\<rparr>
               else let copy = toku_clone_dbt toku_init_dbt key in k\<lparr>m_left_key_copy := copy, m_right_key_copy := copy\<rparr>)
      in k\<lparr>m_point_range := True\<rparr>)"

definition replace_left_key :: "DBT \<Rightarrow> keyrange \<Rightarrow> keyrange" where
  "replace_left_key key k =
     (let k = (if m_point_range k then k\<lparr>m_right_key_copy := m_left_key_copy k\<rparr> else k\<lparr>m_left_key_copy := toku_init_dbt\<rparr>);
          k = (if toku_dbt_is_infinite key then k\<lparr>m_left_key := Some key\<rparr>
               else k\<lparr>m_left_key_copy := toku_clone_dbt (get_right_key k) key, m_left_key := None\<rparr>)
      in k\<lparr>m_point_range := False\<rparr>)"

definition replace_right_key :: "DBT \<Rightarrow> keyrange \<Rightarrow> keyrange" where
  "replace_right_key key k =
     (let k = k\<lparr>m_right_key_copy := toku_init_dbt\<rparr>;
          k = (if toku_dbt_is_infinite key then k\<lparr>m_right_key := Some key\<rparr>
               else k\<lparr>m_right_key_copy := toku_clone_dbt (get_left_key k) key, m_right_key := None\<rparr>)
      in k\<lparr>m_point_range := False\<rparr>)"

definition create_copy :: "keyrange \<Rightarrow> keyrange" where
  "create_copy rng =
     (if toku_dbt_equals (get_left_key rng) (get_right_key rng) then set_both_keys (get_left_key rng) init_empty
      else replace_right_key (get_right_key rng) (replace_left_key (get_left_key rng) init_empty))"

definition keyrange_extend :: "comparator \<Rightarrow> keyrange \<Rightarrow> keyrange \<Rightarrow> keyrange" where
  "keyrange_extend c k rng =
     (let range_left = get_left_key rng;
          range_right = get_right_key rng;
          k = (if compare_dbts c range_left (get_left_key k) < 0 then replace_left_key range_left k else k)
      in if compare_dbts c range_right (get_right_key k) > 0 then replace_right_key range_right k else k)"

definition keyrange_memory_size :: "nat \<Rightarrow> keyrange \<Rightarrow> nat" where
  "keyrange_memory_size sizeof_keyrange k = dbt_size (get_left_key k) + dbt_size (get_right_key k) + sizeof_keyrange"

definition keyrange_compare :: "comparator \<Rightarrow> keyrange \<Rightarrow> keyrange \<Rightarrow> comparison" where
  "keyrange_compare c k rng =
     (if compare_dbts c (get_right_key k) (get_left_key rng) < 0 then LESS_THAN
      else if compare_dbts c (get_left_key k) (get_right_key rng) > 0 then GREATER_THAN
      else if compare_dbts c (get_left_key k) (get_left_key rng) = 0 \<and> compare_dbts c (get_right_key k) (get_right_key rng) = 0
      then EQUALS
      else OVERLAPS)"

definition keyrange_overlaps :: "comparator \<Rightarrow> keyrange \<Rightarrow> keyrange \<Rightarrow> bool" where
  "keyrange_overlaps c k rng = (let cm = keyrange_compare c k rng in cm = EQUALS \<or> cm = OVERLAPS)"

definition get_infinite_range :: keyrange where
  "get_infinite_range = keyrange_create NegInf PosInf"

subsection \<open>Orders on keys\<close>

text \<open>A key without its address, and the interval that a range stands for.\<close>

datatype endpoint = MinusInf | PlusInf | Point bytes

fun keyof :: "DBT \<Rightarrow> endpoint" where
  "keyof NegInf = MinusInf"
| "keyof PosInf = PlusInf"
| "keyof (Dbt p d) = Point d"

type_synonym interval = "endpoint \<times> endpoint"

definition range_of :: "keyrange \<Rightarrow> interval" where
  "range_of k = (keyof (get_left_key k), keyof (get_right_key k))"

text \<open>The contract of a comparison: a total preorder with the infinities at its ends.\<close>

locale key_order =
  fixes cmp :: "endpoint \<Rightarrow> endpoint \<Rightarrow> int"
  assumes cmp_anti: "sgn (cmp a b) = - sgn (cmp b a)"
    and cmp_trans: "cmp a b \<le> 0 \<Longrightarrow> cmp b d \<le> 0 \<Longrightarrow> cmp a d \<le> 0"
    and cmp_bottom: "cmp MinusInf a \<le> 0"
    and cmp_top: "cmp a PlusInf \<le> 0"
begin

lemma cmp_refl [simp]: "cmp a a = 0"
  using cmp_anti [of a a] by (simp add: sgn_if split: if_splits)

lemma cmp_flip: "cmp a b < 0 \<longleftrightarrow> cmp b a > 0" "cmp a b \<le> 0 \<longleftrightarrow> cmp b a \<ge> 0" "cmp a b = 0 \<longleftrightarrow> cmp b a = 0"
  using cmp_anti [of a b] by (auto simp: sgn_if split: if_splits)

lemma cmp_less_trans: "cmp a b < 0 \<Longrightarrow> cmp b d \<le> 0 \<Longrightarrow> cmp a d < 0" "cmp a b \<le> 0 \<Longrightarrow> cmp b d < 0 \<Longrightarrow> cmp a d < 0"
  using cmp_trans cmp_flip by (metis less_imp_le linorder_not_le)+

definition within :: "endpoint \<Rightarrow> interval \<Rightarrow> bool" where
  "within x i \<longleftrightarrow> cmp (fst i) x \<le> 0 \<and> cmp x (snd i) \<le> 0"

definition proper :: "interval \<Rightarrow> bool" where
  "proper i \<longleftrightarrow> cmp (fst i) (snd i) \<le> 0"

definition before :: "interval \<Rightarrow> interval \<Rightarrow> bool" where
  "before i j \<longleftrightarrow> cmp (snd i) (fst j) < 0"

lemma proper_within: "proper i \<Longrightarrow> within (fst i) i" "proper i \<Longrightarrow> within (snd i) i"
  by (simp_all add: proper_def within_def)

lemma disjoint_iff:
  assumes "proper i" "proper j"
  shows "before i j \<or> before j i \<longleftrightarrow> (\<nexists>x. within x i \<and> within x j)"
proof
  show "\<nexists>x. within x i \<and> within x j" if "before i j \<or> before j i"
    using that cmp_less_trans cmp_trans cmp_flip unfolding before_def within_def by (metis linorder_not_le)
next
  assume n: "\<nexists>x. within x i \<and> within x j"
  show "before i j \<or> before j i"
  proof (rule ccontr)
    assume "\<not> (before i j \<or> before j i)"
    then have b: "cmp (fst j) (snd i) \<le> 0" "cmp (fst i) (snd j) \<le> 0" by (auto simp: before_def cmp_flip(2) not_less)
    show False
    proof (cases "cmp (fst i) (fst j) \<le> 0")
      case True
      then have "within (fst j) i" using b(1) by (simp add: within_def)
      then show False using n proper_within(1) [OF assms(2)] by blast
    next
      case False
      then have "cmp (fst j) (fst i) \<le> 0" using cmp_flip(2) [of "fst j" "fst i"] by simp
      then have "within (fst i) j" using b(2) by (simp add: within_def)
      then show False using n proper_within(1) [OF assms(1)] by blast
    qed
  qed
qed

end

definition endpoint_compare :: "comparator \<Rightarrow> endpoint \<Rightarrow> endpoint \<Rightarrow> int" where
  "endpoint_compare c a b =
     (case (a, b) of
        (Point x, Point y) \<Rightarrow> finite_compare c x y
      | _ \<Rightarrow> if a = b then 0 else if a = PlusInf \<or> b = MinusInf then 1 else - 1)"

lemma compare_dbts_endpoint: "compare_dbts c a b = endpoint_compare c (keyof a) (keyof b)"
  by (cases a; cases b) (simp_all add: compare_dbts_def endpoint_compare_def toku_dbt_infinite_compare_def)

definition comparator_ok :: "comparator \<Rightarrow> bool" where
  "comparator_ok c \<longleftrightarrow>
     (\<forall>a b. sgn (finite_compare c a b) = - sgn (finite_compare c b a)) \<and>
     (\<forall>a b d. finite_compare c a b \<le> 0 \<longrightarrow> finite_compare c b d \<le> 0 \<longrightarrow> finite_compare c a d \<le> 0)"

lemma comparator_key_order:
  assumes "comparator_ok c"
  shows "key_order (endpoint_compare c)"
proof unfold_locales
  fix a b d
  have anti: "sgn (finite_compare c x y) = - sgn (finite_compare c y x)"
    and trans: "finite_compare c x y \<le> 0 \<Longrightarrow> finite_compare c y z \<le> 0 \<Longrightarrow> finite_compare c x z \<le> 0" for x y z
    using assms unfolding comparator_ok_def by blast+
  show "sgn (endpoint_compare c a b) = - sgn (endpoint_compare c b a)"
    by (cases a; cases b) (simp_all add: endpoint_compare_def, rule anti)
  show "endpoint_compare c a d \<le> 0" if "endpoint_compare c a b \<le> 0" "endpoint_compare c b d \<le> 0"
    using that by (cases a; cases b; cases d) (auto simp: endpoint_compare_def intro: trans)
  show "endpoint_compare c MinusInf a \<le> 0" "endpoint_compare c a PlusInf \<le> 0"
    by (cases a; simp add: endpoint_compare_def)+
qed

subsection \<open>The built-in comparison\<close>

lemma memcmp_take: "memcmp (take (min (length a) (length b)) a) (take (min (length a) (length b)) b) = memcmp a b"
  by (induction a b rule: memcmp.induct) auto

fun lex_compare :: "bytes \<Rightarrow> bytes \<Rightarrow> int" where
  "lex_compare [] [] = 0"
| "lex_compare [] (y # ys) = - 1"
| "lex_compare (x # xs) [] = 1"
| "lex_compare (x # xs) (y # ys) = (if x = y then lex_compare xs ys else if x < y then - 1 else 1)"

lemma toku_keycompare_lex: "toku_keycompare a b = lex_compare a b"
proof -
  have "(if memcmp a b \<noteq> 0 then memcmp a b else if length a < length b then - 1 else if length a > length b then 1 else 0) = lex_compare a b"
    by (induction a b rule: lex_compare.induct) auto
  then show ?thesis by (simp only: toku_keycompare_def Let_def memcmp_take)
qed

lemma lex_compare_anti: "sgn (lex_compare a b) = - sgn (lex_compare b a)"
  by (induction a b rule: lex_compare.induct) auto

lemma lex_compare_trans: "lex_compare a b \<le> 0 \<Longrightarrow> lex_compare b d \<le> 0 \<Longrightarrow> lex_compare a d \<le> 0"
proof (induction a b arbitrary: d rule: lex_compare.induct)
  case (2 y ys)
  then show ?case by (cases d) auto
next
  case (4 x xs y ys)
  show ?case
  proof (cases d)
    case (Cons z zs)
    then show ?thesis using 4 by (auto split: if_splits)
  qed (use 4 in simp)
qed (case_tac d; simp)+

definition builtin_comparator :: comparator where
  "builtin_comparator = \<lparr>cmp_fun = toku_builtin_compare_fun, memcmp_magic = MEMCMP_MAGIC_NONE\<rparr>"

lemma builtin_comparator_ok: "comparator_ok builtin_comparator"
proof -
  have "finite_compare builtin_comparator = lex_compare"
    by (intro ext) (simp add: finite_compare_def builtin_comparator_def toku_builtin_compare_fun_def toku_keycompare_lex)
  then show ?thesis using lex_compare_anti lex_compare_trans unfolding comparator_ok_def by metis
qed

interpretation builtin: key_order "endpoint_compare builtin_comparator"
  by (rule comparator_key_order [OF builtin_comparator_ok])

subsection \<open>Ranges as intervals\<close>

lemma clone_key [simp]: "\<not> toku_dbt_is_infinite src \<Longrightarrow> keyof (toku_clone_dbt other src) = keyof src"
  "toku_dbt_is_infinite (toku_clone_dbt other src) = False"
  by (cases other; cases src; simp)+

lemma keyof_create [simp]: "range_of (keyrange_create l r) = (keyof l, keyof r)"
  by (simp add: range_of_def keyrange_create_def get_left_key_def get_right_key_def)

text \<open>A range that shares one buffer for its two ends has equal ends.\<close>

definition keyrange_wf :: "keyrange \<Rightarrow> bool" where
  "keyrange_wf k \<longleftrightarrow>
     (m_point_range k \<longrightarrow> keyof (get_left_key k) = keyof (get_right_key k) \<and> m_left_key k = m_right_key k \<and>
        (m_left_key k = None \<longrightarrow> m_left_key_copy k = m_right_key_copy k)) \<and>
     (toku_dbt_equals (get_left_key k) (get_right_key k) \<longrightarrow> keyof (get_left_key k) = keyof (get_right_key k))"

lemma replace_keys:
  assumes "keyrange_wf k"
  shows "range_of (replace_left_key key k) = (keyof key, keyof (get_right_key k))"
    and "range_of (replace_right_key key k) = (keyof (get_left_key k), keyof key)"
  using assms
  by (auto simp: range_of_def replace_left_key_def replace_right_key_def get_left_key_def get_right_key_def keyrange_wf_def Let_def
      split: option.splits)

lemma wf_create: "(toku_dbt_equals l r \<longrightarrow> keyof l = keyof r) \<Longrightarrow> keyrange_wf (keyrange_create l r)"
  by (simp add: keyrange_wf_def keyrange_create_def init_empty_def get_left_key_def get_right_key_def)

lemma wf_init [simp]: "keyrange_wf init_empty"
  by (simp add: keyrange_wf_def init_empty_def get_left_key_def get_right_key_def)

lemma clone_not_equals:
  "\<not> toku_dbt_equals (toku_clone_dbt other src) other" "\<not> toku_dbt_equals other (toku_clone_dbt other src)"
  by (cases other; simp add: toku_dbt_equals_def)+

lemma infinite_equals: "toku_dbt_is_infinite a \<or> toku_dbt_is_infinite b \<Longrightarrow> toku_dbt_equals a b \<longleftrightarrow> keyof a = keyof b"
  by (cases a; cases b) (simp_all add: toku_dbt_equals_def)

lemma wf_replace:
  "keyrange_wf k \<Longrightarrow> keyrange_wf (replace_left_key key k)" "keyrange_wf k \<Longrightarrow> keyrange_wf (replace_right_key key k)"
  by (cases "toku_dbt_is_infinite key";
      auto simp: keyrange_wf_def replace_left_key_def replace_right_key_def get_left_key_def get_right_key_def Let_def
        clone_not_equals infinite_equals split: option.splits)+

lemma create_copy_ok:
  assumes "keyrange_wf k"
  shows "range_of (create_copy k) = range_of k" "keyrange_wf (create_copy k)"
proof -
  let ?l = "get_left_key k" and ?r = "get_right_key k"
  have eq: "keyof ?l = keyof ?r" if "toku_dbt_equals ?l ?r" using assms that by (simp add: keyrange_wf_def)
  show "range_of (create_copy k) = range_of k"
  proof (cases "toku_dbt_equals ?l ?r")
    case True
    then show ?thesis
      using eq by (auto simp: create_copy_def set_both_keys_def range_of_def get_left_key_def get_right_key_def init_empty_def Let_def)
  next
    case False
    have "range_of (replace_left_key ?l init_empty) = (keyof ?l, keyof (get_right_key init_empty))" by (simp add: replace_keys)
    then have "keyof (get_left_key (replace_left_key ?l init_empty)) = keyof ?l" by (simp add: range_of_def)
    then show ?thesis using False replace_keys(2) [OF wf_replace(1) [OF wf_init]] by (simp add: create_copy_def range_of_def)
  qed
  show "keyrange_wf (create_copy k)"
  proof (cases "toku_dbt_equals ?l ?r")
    case True
    then show ?thesis
      by (auto simp: create_copy_def set_both_keys_def keyrange_wf_def get_left_key_def get_right_key_def init_empty_def Let_def)
  qed (simp add: create_copy_def wf_replace)
qed

text \<open>The operations on ranges compute on intervals.\<close>

definition interval_compare :: "(endpoint \<Rightarrow> endpoint \<Rightarrow> int) \<Rightarrow> interval \<Rightarrow> interval \<Rightarrow> comparison" where
  "interval_compare cmp i j =
     (if cmp (snd i) (fst j) < 0 then LESS_THAN
      else if cmp (fst i) (snd j) > 0 then GREATER_THAN
      else if cmp (fst i) (fst j) = 0 \<and> cmp (snd i) (snd j) = 0 then EQUALS
      else OVERLAPS)"

definition interval_extend :: "(endpoint \<Rightarrow> endpoint \<Rightarrow> int) \<Rightarrow> interval \<Rightarrow> interval \<Rightarrow> interval" where
  "interval_extend cmp i j =
     (if cmp (fst j) (fst i) < 0 then fst j else fst i, if cmp (snd j) (snd i) > 0 then snd j else snd i)"

lemma keyrange_compare_ok: "keyrange_compare c k k' = interval_compare (endpoint_compare c) (range_of k) (range_of k')"
  by (simp add: keyrange_compare_def interval_compare_def range_of_def compare_dbts_endpoint)

lemma keyrange_extend_ok:
  assumes "keyrange_wf k"
  shows "range_of (keyrange_extend c k rng) = interval_extend (endpoint_compare c) (range_of k) (range_of rng)"
    "keyrange_wf (keyrange_extend c k rng)"
proof -
  define k1 where "k1 = (if compare_dbts c (get_left_key rng) (get_left_key k) < 0 then replace_left_key (get_left_key rng) k else k)"
  have k1: "keyrange_wf k1" "range_of k1 = (fst (interval_extend (endpoint_compare c) (range_of k) (range_of rng)), snd (range_of k))"
    using assms replace_keys(1) [OF assms]
    by (simp_all add: k1_def wf_replace interval_extend_def compare_dbts_endpoint) (simp_all add: range_of_def)
  have e: "keyrange_extend c k rng = (if compare_dbts c (get_right_key rng) (get_right_key k1) > 0 then replace_right_key (get_right_key rng) k1 else k1)"
    by (simp add: keyrange_extend_def k1_def Let_def)
  have "keyof (get_right_key k1) = snd (range_of k)" "keyof (get_left_key k1) = fst (range_of k1)"
    using k1(2) by (simp_all add: range_of_def)
  then show "range_of (keyrange_extend c k rng) = interval_extend (endpoint_compare c) (range_of k) (range_of rng)"
    "keyrange_wf (keyrange_extend c k rng)"
    unfolding e using k1 replace_keys(2) [OF k1(1)] wf_replace(2) [OF k1(1)]
    by (auto simp: compare_dbts_endpoint interval_extend_def range_of_def)
qed

context key_order
begin

lemma interval_compare_iff:
  assumes "proper i" "proper j"
  shows "interval_compare cmp i j = LESS_THAN \<longleftrightarrow> before i j" "interval_compare cmp i j = GREATER_THAN \<longleftrightarrow> before j i"
    "interval_compare cmp i j = EQUALS \<or> interval_compare cmp i j = OVERLAPS \<longleftrightarrow> \<not> before i j \<and> \<not> before j i"
proof -
  have "\<not> before j i" if "before i j"
  proof
    assume "before j i"
    then have "cmp (snd j) (snd i) < 0" using assms(1) cmp_less_trans unfolding before_def proper_def by blast
    moreover have "cmp (snd i) (snd j) < 0" using that assms(2) cmp_less_trans unfolding before_def proper_def by blast
    ultimately show False using cmp_flip(1) [of "snd i" "snd j"] by simp
  qed
  then show "interval_compare cmp i j = LESS_THAN \<longleftrightarrow> before i j" "interval_compare cmp i j = GREATER_THAN \<longleftrightarrow> before j i"
    "interval_compare cmp i j = EQUALS \<or> interval_compare cmp i j = OVERLAPS \<longleftrightarrow> \<not> before i j \<and> \<not> before j i"
    using cmp_flip(1) [of "snd j" "fst i"] by (auto simp: interval_compare_def before_def)
qed

lemma before_trans: "before i j \<Longrightarrow> proper j \<Longrightarrow> before j k \<Longrightarrow> before i k"
  using cmp_less_trans unfolding before_def proper_def by (metis less_imp_le)

lemma before_asym: "proper i \<Longrightarrow> proper j \<Longrightarrow> before i j \<Longrightarrow> \<not> before j i"
  using interval_compare_iff [of i j] by (metis comparison.distinct(7))

lemma extend_proper: "proper i \<Longrightarrow> proper j \<Longrightarrow> proper (interval_extend cmp i j)"
  using cmp_trans [of "fst i" "snd i" "snd j"] cmp_trans [of "fst j" "fst i" "snd i"] cmp_flip(1) [of "snd i" "snd j"]
  by (auto simp: proper_def interval_extend_def)

text \<open>The extension is the hull of the two intervals.\<close>

lemma extend_within: "within x i \<or> within x j \<Longrightarrow> within x (interval_extend cmp i j)"
  using cmp_trans [of "fst j" "fst i" x] cmp_trans [of "fst i" "fst j" x] cmp_trans [of x "snd i" "snd j"] cmp_trans [of x "snd j" "snd i"]
    cmp_flip(1) [of "snd i" "snd j"] cmp_flip(2) [of "fst i" "fst j"]
  by (auto simp: within_def interval_extend_def)

lemma extend_before:
  "before (interval_extend cmp i j) k \<longleftrightarrow> before i k \<and> before j k" "before k (interval_extend cmp i j) \<longleftrightarrow> before k i \<and> before k j"
proof -
  show "before (interval_extend cmp i j) k \<longleftrightarrow> before i k \<and> before j k"
    using cmp_less_trans(2) [of "snd i" "snd j" "fst k"] cmp_less_trans(2) [of "snd j" "snd i" "fst k"] cmp_flip(1) [of "snd i" "snd j"]
    by (auto simp: before_def interval_extend_def)
  show "before k (interval_extend cmp i j) \<longleftrightarrow> before k i \<and> before k j"
    using cmp_less_trans(1) [of "snd k" "fst j" "fst i"] cmp_less_trans(1) [of "snd k" "fst i" "fst j"] cmp_flip(2) [of "fst i" "fst j"]
    by (auto simp: before_def interval_extend_def)
qed

end

end
