(* ===== verification/Treenode.thy ===== *)
theory Treenode
  imports Keyrange
begin

text \<open>
  The tree of row locks: \<open>src/locktree/treenode.cc\<close> and \<open>src/locktree/concurrent_tree.cc\<close>. A node carries a key range, the
  transaction that owns it and two child pointers, each with an estimate of the depth below it that is
  refreshed whenever the child is locked. The tree is balanced by rotations on the way down.

  A pointer to a node is the path from the root to it (\<open>True\<close> is right). The root object is part of the tree and is never rotated or freed:
  it is marked empty instead. A thread holds the mutexes of the nodes that it works on, root first, so that an operation
  on a locked key range is one step of the model; mutex calls themselves are left out. A failed \<open>invariant\<close> is \<open>None\<close>.
\<close>

subsection \<open>Nodes\<close>

datatype treenode =
  TNull
| TNode (t_range: keyrange) (t_txnid: TXNID) (t_left_est: nat) (t_left: treenode) (t_right_est: nat) (t_right: treenode)

type_synonym tpath = "bool list"

fun get_depth_estimate :: "treenode \<Rightarrow> nat" where
  "get_depth_estimate TNull = 0"
| "get_depth_estimate (TNode k x le l re r) = (if le > re then le else re) + 1"

definition treenode_alloc :: "keyrange \<Rightarrow> TXNID \<Rightarrow> treenode" where
  "treenode_alloc k txnid = TNode (create_copy k) txnid 0 TNull 0 TNull"

definition IMBALANCE_THRESHOLD :: nat where
  "IMBALANCE_THRESHOLD = 2"

fun left_imbalanced :: "nat \<Rightarrow> treenode \<Rightarrow> bool" where
  "left_imbalanced threshold TNull = False"
| "left_imbalanced threshold (TNode k x le l re r) = (l \<noteq> TNull \<and> le > threshold + re)"

fun right_imbalanced :: "nat \<Rightarrow> treenode \<Rightarrow> bool" where
  "right_imbalanced threshold TNull = False"
| "right_imbalanced threshold (TNode k x le l re r) = (r \<noteq> TNull \<and> re > threshold + le)"

text \<open>\<open>set_left\<close> and \<open>set_right\<close> are \<open>child_ptr::set\<close> on the two pointers.\<close>

fun set_left :: "treenode \<Rightarrow> treenode \<Rightarrow> treenode" where
  "set_left (TNode k x le l re r) child = TNode k x (get_depth_estimate child) child re r"
| "set_left TNull child = TNull"

fun set_right :: "treenode \<Rightarrow> treenode \<Rightarrow> treenode" where
  "set_right (TNode k x le l re r) child = TNode k x le l (get_depth_estimate child) child"
| "set_right TNull child = TNull"

fun treenode_maybe_rebalance :: "treenode \<Rightarrow> treenode" where
  "treenode_maybe_rebalance TNull = TNull"
| "treenode_maybe_rebalance (TNode k x le l re r) =
     (if left_imbalanced IMBALANCE_THRESHOLD (TNode k x le l re r) then
        case l of
          TNull \<Rightarrow> TNode k x le l re r
        | TNode ck cx cle cl cre cr \<Rightarrow>
            (case cr of
               TNode gk gx gle gl gre gr \<Rightarrow>
                 if right_imbalanced 0 l then
                   let child = TNode ck cx cle cl gle gl;
                       grandchild = set_left cr child;
                       this = TNode k x gre gr re r
                   in set_right grandchild this
                 else set_right l (TNode k x cre cr re r)
             | TNull \<Rightarrow> set_right l (TNode k x cre cr re r))
      else if right_imbalanced IMBALANCE_THRESHOLD (TNode k x le l re r) then
        case r of
          TNull \<Rightarrow> TNode k x le l re r
        | TNode ck cx cle cl cre cr \<Rightarrow>
            (case cl of
               TNode gk gx gle gl gre gr \<Rightarrow>
                 if left_imbalanced 0 r then
                   let child = TNode ck cx gre gr cre cr;
                       grandchild = set_right cl child;
                       this = TNode k x le l gle gl
                   in set_left grandchild this
                 else set_left r (TNode k x le l cle cl)
             | TNull \<Rightarrow> set_left r (TNode k x le l cle cl))
      else TNode k x le l re r)"

fun lock_and_rebalance_left :: "treenode \<Rightarrow> treenode" where
  "lock_and_rebalance_left TNull = TNull"
| "lock_and_rebalance_left (TNode k x le l re r) =
     (if l = TNull then TNode k x le l re r else set_left (TNode k x le l re r) (treenode_maybe_rebalance l))"

fun lock_and_rebalance_right :: "treenode \<Rightarrow> treenode" where
  "lock_and_rebalance_right TNull = TNull"
| "lock_and_rebalance_right (TNode k x le l re r) =
     (if r = TNull then TNode k x le l re r else set_right (TNode k x le l re r) (treenode_maybe_rebalance r))"

fun tsize :: "treenode \<Rightarrow> nat" where
  "tsize TNull = 0"
| "tsize (TNode k x le l re r) = tsize l + tsize r + 1"

lemma tsize_set [simp]:
  "tsize (set_left (TNode k x le l re r) c) = tsize c + tsize r + 1"
  "tsize (set_right (TNode k x le l re r) c) = tsize l + tsize c + 1"
  by simp_all

lemma tsize_maybe_rebalance [simp]: "tsize (treenode_maybe_rebalance t) = tsize t"
  by (cases t rule: treenode_maybe_rebalance.cases) (auto simp: Let_def split: treenode.split)

lemma tsize_lock_left: "lock_and_rebalance_left (TNode k x le l re r) = TNode k' x' le' l' re' r' \<Longrightarrow> tsize l' < Suc (tsize l + tsize r)"
  by (auto split: if_splits)

lemma tsize_lock_right: "lock_and_rebalance_right (TNode k x le l re r) = TNode k' x' le' l' re' r' \<Longrightarrow> tsize r' < Suc (tsize l + tsize r)"
  by (auto split: if_splits)

subsection \<open>Search, traversal and updates\<close>

text \<open>The result is the path to the node that stays locked, and the rebalanced tree.\<close>

function find_node_with_overlapping_child ::
  "comparator \<Rightarrow> keyrange \<Rightarrow> comparison option \<Rightarrow> treenode \<Rightarrow> (tpath \<times> treenode) option" where
  "find_node_with_overlapping_child c rng cmp_hint TNull = None"
| "find_node_with_overlapping_child c rng cmp_hint (TNode k x le l re r) =
     (let cm = (case cmp_hint of Some h \<Rightarrow> h | None \<Rightarrow> keyrange_compare c rng k)
      in if cm = LESS_THAN then
           case lock_and_rebalance_left (TNode k x le l re r) of
             TNull \<Rightarrow> None
           | TNode k' x' le' l' re' r' \<Rightarrow>
               (case l' of
                  TNull \<Rightarrow> Some ([], TNode k' x' le' l' re' r')
                | TNode ck cx cle cl cre cr \<Rightarrow>
                    let cm = keyrange_compare c rng ck
                    in if cm = EQUALS \<or> cm = OVERLAPS then Some ([], TNode k' x' le' l' re' r')
                       else (case find_node_with_overlapping_child c rng (Some cm) l' of
                               None \<Rightarrow> None
                             | Some (p, l'') \<Rightarrow> Some (False # p, TNode k' x' le' l'' re' r')))
         else if cm = GREATER_THAN then
           case lock_and_rebalance_right (TNode k x le l re r) of
             TNull \<Rightarrow> None
           | TNode k' x' le' l' re' r' \<Rightarrow>
               (case r' of
                  TNull \<Rightarrow> Some ([], TNode k' x' le' l' re' r')
                | TNode ck cx cle cl cre cr \<Rightarrow>
                    let cm = keyrange_compare c rng ck
                    in if cm = EQUALS \<or> cm = OVERLAPS then Some ([], TNode k' x' le' l' re' r')
                       else (case find_node_with_overlapping_child c rng (Some cm) r' of
                               None \<Rightarrow> None
                             | Some (p, r'') \<Rightarrow> Some (True # p, TNode k' x' le' l' re' r'')))
         else None)"
  by pat_completeness auto
termination
  by (relation "measure (\<lambda>(c, rng, h, t). tsize t)") (auto simp del: lock_and_rebalance_left.simps lock_and_rebalance_right.simps dest!: tsize_lock_left tsize_lock_right)

text \<open>
  The callback of a traversal acts on the caller's state and tells whether to go on. Locking a child refreshes its depth
  estimate, so the traversal returns the tree as well.
\<close>

fun traverse_overlaps :: "comparator \<Rightarrow> keyrange \<Rightarrow> (keyrange \<Rightarrow> TXNID \<Rightarrow> 's \<Rightarrow> bool \<times> 's) \<Rightarrow> treenode \<Rightarrow> 's \<Rightarrow> treenode \<times> 's" where
  "traverse_overlaps c rng fn TNull s = (TNull, s)"
| "traverse_overlaps c rng fn (TNode k x le l re r) s =
     (let cm = keyrange_compare c rng k
      in if cm = EQUALS then (TNode k x le l re r, snd (fn k x s))
         else
           let le = (if l \<noteq> TNull then get_depth_estimate l else le);
               (l, s) = (if l \<noteq> TNull \<and> cm \<noteq> GREATER_THAN then traverse_overlaps c rng fn l s else (l, s));
               (keep_going, s) = (if cm = OVERLAPS then fn k x s else (True, s))
           in if \<not> keep_going then (TNode k x le l re r, s)
              else
                let re = (if r \<noteq> TNull then get_depth_estimate r else re);
                    (r, s) = (if r \<noteq> TNull \<and> cm \<noteq> LESS_THAN then traverse_overlaps c rng fn r s else (r, s))
                in (TNode k x le l re r, s))"

function treenode_insert :: "comparator \<Rightarrow> keyrange \<Rightarrow> TXNID \<Rightarrow> treenode \<Rightarrow> treenode option" where
  "treenode_insert c rng txnid TNull = None"
| "treenode_insert c rng txnid (TNode k x le l re r) =
     (let cm = keyrange_compare c rng k
      in if cm = LESS_THAN then
           case lock_and_rebalance_left (TNode k x le l re r) of
             TNull \<Rightarrow> None
           | TNode k' x' le' l' re' r' \<Rightarrow>
               if l' = TNull then Some (set_left (TNode k' x' le' l' re' r') (treenode_alloc rng txnid))
               else (case treenode_insert c rng txnid l' of None \<Rightarrow> None | Some l'' \<Rightarrow> Some (TNode k' x' le' l'' re' r'))
         else if cm = GREATER_THAN then
           case lock_and_rebalance_right (TNode k x le l re r) of
             TNull \<Rightarrow> None
           | TNode k' x' le' l' re' r' \<Rightarrow>
               if r' = TNull then Some (set_right (TNode k' x' le' l' re' r') (treenode_alloc rng txnid))
               else (case treenode_insert c rng txnid r' of None \<Rightarrow> None | Some r'' \<Rightarrow> Some (TNode k' x' le' l' re' r''))
         else None)"
  by pat_completeness auto
termination
  by (relation "measure (\<lambda>(c, rng, x, t). tsize t)") (auto simp del: lock_and_rebalance_left.simps lock_and_rebalance_right.simps dest!: tsize_lock_left tsize_lock_right)

text \<open>
  \<open>find_rightmost_child\<close> and \<open>find_leftmost_child\<close> with the detaching of what they find: the range and owner of the extreme node, and
  the pointer, with its estimate, that its parent is left with.
\<close>

fun detach_rightmost :: "treenode \<Rightarrow> (keyrange \<times> TXNID) \<times> nat \<times> treenode" where
  "detach_rightmost TNull = ((init_empty, TXNID_NONE), 0, TNull)"
| "detach_rightmost (TNode k x le l re r) =
     (if r = TNull then ((k, x), le, l)
      else case detach_rightmost r of (rep, re', r') \<Rightarrow> (rep, get_depth_estimate (TNode k x le l re r), TNode k x le l re' r'))"

fun detach_leftmost :: "treenode \<Rightarrow> (keyrange \<times> TXNID) \<times> nat \<times> treenode" where
  "detach_leftmost TNull = ((init_empty, TXNID_NONE), 0, TNull)"
| "detach_leftmost (TNode k x le l re r) =
     (if l = TNull then ((k, x), re, r)
      else case detach_leftmost l of (rep, le', l') \<Rightarrow> (rep, get_depth_estimate (TNode k x le l re r), TNode k x le' l' re r))"

text \<open>\<open>TNull\<close> for a result is the null pointer: the node had no children and was freed.\<close>

fun remove_root_of_subtree :: "treenode \<Rightarrow> treenode" where
  "remove_root_of_subtree TNull = TNull"
| "remove_root_of_subtree (TNode k x le l re r) =
     (if l = TNull \<and> r = TNull then TNull
      else if l \<noteq> TNull then case detach_rightmost l of ((k', x'), le', l') \<Rightarrow> TNode k' x' le' l' re r
      else case detach_leftmost r of ((k', x'), re', r') \<Rightarrow> TNode k' x' le l re' r')"

fun treenode_remove :: "comparator \<Rightarrow> keyrange \<Rightarrow> treenode \<Rightarrow> treenode option" where
  "treenode_remove c rng TNull = None"
| "treenode_remove c rng (TNode k x le l re r) =
     (case keyrange_compare c rng k of
        EQUALS \<Rightarrow> Some (remove_root_of_subtree (TNode k x le l re r))
      | LESS_THAN \<Rightarrow> (case treenode_remove c rng l of None \<Rightarrow> None | Some l' \<Rightarrow> Some (set_left (TNode k x le l re r) l'))
      | GREATER_THAN \<Rightarrow> (case treenode_remove c rng r of None \<Rightarrow> None | Some r' \<Rightarrow> Some (set_right (TNode k x le l re r) r'))
      | OVERLAPS \<Rightarrow> None)"

subsection \<open>The tree and its locked key ranges\<close>

record concurrent_tree =
  m_root :: treenode
  m_is_empty :: bool

definition concurrent_tree_create :: concurrent_tree where
  "concurrent_tree_create = \<lparr>m_root = TNode init_empty TXNID_NONE 0 TNull 0 TNull, m_is_empty = True\<rparr>"

definition concurrent_tree_is_empty :: "concurrent_tree \<Rightarrow> bool" where
  "concurrent_tree_is_empty t = m_is_empty t"

text \<open>\<open>destroy\<close>: the root must be empty.\<close>

definition concurrent_tree_destroy :: "concurrent_tree \<Rightarrow> unit option" where
  "concurrent_tree_destroy t = ensure (m_is_empty t)"

record locked_keyrange =
  lkr_range :: keyrange
  lkr_subtree :: tpath

definition lkr_prepare :: locked_keyrange where
  "lkr_prepare = \<lparr>lkr_range = get_infinite_range, lkr_subtree = []\<rparr>"

definition lkr_acquire :: "comparator \<Rightarrow> keyrange \<Rightarrow> concurrent_tree \<Rightarrow> (locked_keyrange \<times> concurrent_tree) option" where
  "lkr_acquire c rng t =
     (if m_is_empty t \<or> keyrange_overlaps c (t_range (m_root t)) rng then Some (\<lparr>lkr_range = rng, lkr_subtree = []\<rparr>, t)
      else do {
        (p, root) \<leftarrow> find_node_with_overlapping_child c rng None (m_root t);
        Some (\<lparr>lkr_range = rng, lkr_subtree = p\<rparr>, t\<lparr>m_root := root\<rparr>)
      })"

text \<open>The node at a path, and its replacement. No operation changes which object a path ends at, except that the root may become empty.\<close>

fun node_at :: "tpath \<Rightarrow> treenode \<Rightarrow> treenode" where
  "node_at [] t = t"
| "node_at (b # p) TNull = TNull"
| "node_at (False # p) (TNode k x le l re r) = node_at p l"
| "node_at (True # p) (TNode k x le l re r) = node_at p r"

fun put_at :: "tpath \<Rightarrow> treenode \<Rightarrow> treenode \<Rightarrow> treenode" where
  "put_at [] n t = n"
| "put_at (b # p) n TNull = TNull"
| "put_at (False # p) n (TNode k x le l re r) = TNode k x le (put_at p n l) re r"
| "put_at (True # p) n (TNode k x le l re r) = TNode k x le l re (put_at p n r)"

definition subtree_is_empty :: "locked_keyrange \<Rightarrow> concurrent_tree \<Rightarrow> bool" where
  "subtree_is_empty lkr t = (lkr_subtree lkr = [] \<and> m_is_empty t)"

definition lkr_iterate ::
  "comparator \<Rightarrow> (keyrange \<Rightarrow> TXNID \<Rightarrow> 's \<Rightarrow> bool \<times> 's) \<Rightarrow> locked_keyrange \<Rightarrow> concurrent_tree \<Rightarrow> 's \<Rightarrow> concurrent_tree \<times> 's" where
  "lkr_iterate c fn lkr t s =
     (if \<not> subtree_is_empty lkr t then
        case traverse_overlaps c (lkr_range lkr) fn (node_at (lkr_subtree lkr) (m_root t)) s of (n, s) \<Rightarrow>
          (t\<lparr>m_root := put_at (lkr_subtree lkr) n (m_root t)\<rparr>, s)
      else (t, s))"

text \<open>\<open>set_range_and_txnid\<close> on the root.\<close>

fun set_range_and_txnid :: "keyrange \<Rightarrow> TXNID \<Rightarrow> treenode \<Rightarrow> treenode" where
  "set_range_and_txnid rng txnid (TNode k x le l re r) = TNode (create_copy rng) txnid le l re r"
| "set_range_and_txnid rng txnid TNull = TNull"

definition lkr_insert :: "comparator \<Rightarrow> keyrange \<Rightarrow> TXNID \<Rightarrow> locked_keyrange \<Rightarrow> concurrent_tree \<Rightarrow> concurrent_tree option" where
  "lkr_insert c rng txnid lkr t =
     (if subtree_is_empty lkr t then Some \<lparr>m_root = set_range_and_txnid rng txnid (m_root t), m_is_empty = False\<rparr>
      else do {
        n \<leftarrow> treenode_insert c rng txnid (node_at (lkr_subtree lkr) (m_root t));
        Some (t\<lparr>m_root := put_at (lkr_subtree lkr) n (m_root t)\<rparr>)
      })"

text \<open>A root that is removed as the last node keeps its object, which has no children then.\<close>

fun clear_node :: "treenode \<Rightarrow> treenode" where
  "clear_node (TNode k x le l re r) = TNode init_empty x le l re r"
| "clear_node TNull = TNull"

definition lkr_remove :: "comparator \<Rightarrow> keyrange \<Rightarrow> locked_keyrange \<Rightarrow> concurrent_tree \<Rightarrow> concurrent_tree option" where
  "lkr_remove c rng lkr t = do {
     ensure (\<not> subtree_is_empty lkr t);
     n \<leftarrow> treenode_remove c rng (node_at (lkr_subtree lkr) (m_root t));
     if n = TNull then do {
       ensure (lkr_subtree lkr = []);
       Some \<lparr>m_root = clear_node (m_root t), m_is_empty = True\<rparr>
     }
     else Some (t\<lparr>m_root := put_at (lkr_subtree lkr) n (m_root t)\<rparr>)
   }"

text \<open>\<open>recursive_remove\<close>, which is only used on the root.\<close>

definition lkr_remove_all :: "concurrent_tree \<Rightarrow> concurrent_tree" where
  "lkr_remove_all t = t\<lparr>m_root := clear_node (set_right (set_left (m_root t) TNull) TNull), m_is_empty := True\<rparr>"

end
