(* ===== verification/Treenode_Props.thy ===== *)
theory Treenode_Props
  imports Treenode
begin

text \<open>
  The tree of row locks keeps a sorted sequence of disjoint key ranges: rotations do not change it, a traversal visits
  exactly the ranges that overlap the given one, in order, and insertion and removal change exactly the
  given range. A locked key range finds a subtree that contains every overlapping range. The lemmas hold for every comparison
  that meets the contract \<open>key_comparator\<close>.
\<close>

subsection \<open>The sequence of a tree\<close>

fun tnodes :: "treenode \<Rightarrow> (keyrange \<times> TXNID) list" where
  "tnodes TNull = []"
| "tnodes (TNode k x le l re r) = tnodes l @ (k, x) # tnodes r"

lemma tnodes_empty [simp]: "tnodes t = [] \<longleftrightarrow> t = TNull"
  by (cases t) auto

lemma tnodes_set [simp]:
  "tnodes (set_left (TNode k x le l re r) c) = tnodes c @ (k, x) # tnodes r"
  "tnodes (set_right (TNode k x le l re r) c) = tnodes l @ (k, x) # tnodes c"
  by simp_all

lemma tnodes_maybe_rebalance [simp]: "tnodes (treenode_maybe_rebalance t) = tnodes t"
  by (cases t rule: treenode_maybe_rebalance.cases) (auto simp: Let_def split: treenode.split)

lemma maybe_rebalance_TNull [simp]: "treenode_maybe_rebalance t = TNull \<longleftrightarrow> t = TNull"
  using tnodes_empty tnodes_maybe_rebalance by metis

lemma lock_and_rebalance_left_cases:
  obtains le' l' where "lock_and_rebalance_left (TNode k x le l re r) = TNode k x le' l' re r" "tnodes l' = tnodes l" "tsize l' = tsize l"
  by (cases "l = TNull") auto

lemma lock_and_rebalance_right_cases:
  obtains re' r' where "lock_and_rebalance_right (TNode k x le l re r) = TNode k x le l re' r'" "tnodes r' = tnodes r" "tsize r' = tsize r"
  by (cases "r = TNull") auto

declare lock_and_rebalance_left.simps [simp del] lock_and_rebalance_right.simps [simp del] treenode_maybe_rebalance.simps [simp del]

lemma detach_rightmost_nodes:
  "t \<noteq> TNull \<Longrightarrow> \<exists>k x e t'. detach_rightmost t = ((k, x), e, t') \<and> tnodes t = tnodes t' @ [(k, x)]"
proof (induction t)
  case (TNode k x le l re r)
  then show ?case by (cases "r = TNull") auto
qed simp

lemma detach_leftmost_nodes:
  "t \<noteq> TNull \<Longrightarrow> \<exists>k x e t'. detach_leftmost t = ((k, x), e, t') \<and> tnodes t = (k, x) # tnodes t'"
proof (induction t)
  case (TNode k x le l re r)
  then show ?case by (cases "l = TNull") auto
qed simp

lemma remove_root_nodes: "tnodes (remove_root_of_subtree (TNode k x le l re r)) = tnodes l @ tnodes r"
  using detach_rightmost_nodes [of l] detach_leftmost_nodes [of r] by auto

text \<open>\<open>refreshed\<close>: the same tree up to depth estimates.\<close>

lemma traverse_nodes: "tnodes (fst (traverse_overlaps c rng fn t s)) = tnodes t"
proof (induction t arbitrary: s)
  case (TNode k x le l re r)
  have l: "tnodes (fst (if P then traverse_overlaps c rng fn l s else (l, s))) = tnodes l" for P s using TNode.IH(1) by simp
  have r: "tnodes (fst (if P then traverse_overlaps c rng fn r s else (r, s))) = tnodes r" for P s using TNode.IH(2) by simp
  show ?case
    unfolding traverse_overlaps.simps Let_def case_prod_beta by (simp add: l r)
qed simp

text \<open>What stands before and after the subtree at a path.\<close>

fun surround :: "tpath \<Rightarrow> treenode \<Rightarrow> (keyrange \<times> TXNID) list \<times> (keyrange \<times> TXNID) list" where
  "surround [] t = ([], [])"
| "surround (b # p) TNull = ([], [])"
| "surround (False # p) (TNode k x le l re r) = (fst (surround p l), snd (surround p l) @ (k, x) # tnodes r)"
| "surround (True # p) (TNode k x le l re r) = (tnodes l @ (k, x) # fst (surround p r), snd (surround p r))"

lemma surround_nodes: "tnodes t = fst (surround p t) @ tnodes (node_at p t) @ snd (surround p t)"
  by (induction p t rule: surround.induct) auto

lemma surround_put:
  assumes "node_at p t \<noteq> TNull"
  shows "tnodes (put_at p n t) = fst (surround p t) @ tnodes n @ snd (surround p t)"
    "surround p (put_at p n t) = surround p t" "node_at p (put_at p n t) = n"
  using assms by (induction p t rule: surround.induct) auto

lemma put_at_node: "node_at p t \<noteq> TNull \<Longrightarrow> n \<noteq> TNull \<Longrightarrow> put_at p n t \<noteq> TNull"
  by (cases p; cases t) (auto simp: put_at.simps split: bool.splits elim!: put_at.elims)

lemma traverse_range: "t \<noteq> TNull \<Longrightarrow> t_range (fst (traverse_overlaps c rng fn t s)) = t_range t"
  "t \<noteq> TNull \<Longrightarrow> fst (traverse_overlaps c rng fn t s) \<noteq> TNull"
  by (cases t; simp add: Let_def case_prod_beta)+

lemma insert_range:
  assumes "treenode_insert c rng x t = Some t'"
  shows "t_range t' = t_range t" "t' \<noteq> TNull"
proof -
  obtain k x le l re r where t: "t = TNode k x le l re r" using assms by (cases t) auto
  obtain le' l' where "lock_and_rebalance_left t = TNode k x le' l' re r" unfolding t by (rule lock_and_rebalance_left_cases)
  moreover obtain re' r' where "lock_and_rebalance_right t = TNode k x le l re' r'" unfolding t by (rule lock_and_rebalance_right_cases)
  ultimately show "t_range t' = t_range t" "t' \<noteq> TNull"
    using assms t by (auto simp: Let_def split: if_splits option.splits)
qed

lemma remove_range:
  assumes "treenode_remove c rng t = Some t'" "keyrange_compare c rng (t_range t) \<noteq> EQUALS"
  shows "t_range t' = t_range t" "t' \<noteq> TNull"
  using assms by (cases t; auto split: comparison.splits option.splits)+

subsection \<open>Comparators\<close>

locale key_comparator =
  fixes c :: comparator
  assumes comparator: "comparator_ok c"

sublocale key_comparator \<subseteq> key_order "endpoint_compare c"
  by (rule comparator_key_order [OF comparator])

text \<open>Relations between ranges: to the left of, not empty, with a key in common. \<open>covers\<close> is membership of a key.\<close>

definition covers :: "comparator \<Rightarrow> keyrange \<Rightarrow> endpoint \<Rightarrow> bool" where
  "covers c k x \<longleftrightarrow> endpoint_compare c (fst (range_of k)) x \<le> 0 \<and> endpoint_compare c x (snd (range_of k)) \<le> 0"

definition range_before :: "comparator \<Rightarrow> keyrange \<Rightarrow> keyrange \<Rightarrow> bool" where
  "range_before c j k \<longleftrightarrow> endpoint_compare c (snd (range_of j)) (fst (range_of k)) < 0"

definition range_proper :: "comparator \<Rightarrow> keyrange \<Rightarrow> bool" where
  "range_proper c k \<longleftrightarrow> keyrange_wf k \<and> endpoint_compare c (fst (range_of k)) (snd (range_of k)) \<le> 0"

definition range_overlap :: "comparator \<Rightarrow> keyrange \<Rightarrow> keyrange \<Rightarrow> bool" where
  "range_overlap c j k \<longleftrightarrow> \<not> range_before c j k \<and> \<not> range_before c k j"

definition ranges_ordered :: "comparator \<Rightarrow> (keyrange \<times> TXNID) list \<Rightarrow> bool" where
  "ranges_ordered c ns \<longleftrightarrow> (\<forall>n\<in>set ns. range_proper c (fst n)) \<and> sorted_wrt (\<lambda>a b. range_before c (fst a) (fst b)) ns"

context key_comparator
begin

abbreviation kbefore :: "keyrange \<Rightarrow> keyrange \<Rightarrow> bool" where
  "kbefore \<equiv> range_before c"

abbreviation kproper :: "keyrange \<Rightarrow> bool" where
  "kproper \<equiv> range_proper c"

abbreviation koverlap :: "keyrange \<Rightarrow> keyrange \<Rightarrow> bool" where
  "koverlap \<equiv> range_overlap c"

abbreviation ordered :: "(keyrange \<times> TXNID) list \<Rightarrow> bool" where
  "ordered \<equiv> ranges_ordered c"

lemmas koverlap_def = range_overlap_def [of c]

lemma kbefore_def: "kbefore j k \<longleftrightarrow> before (range_of j) (range_of k)"
  by (simp add: range_before_def before_def)

lemma kproper_def: "kproper k \<longleftrightarrow> keyrange_wf k \<and> proper (range_of k)"
  by (simp add: range_proper_def proper_def)

lemma covers_within: "covers c k x \<longleftrightarrow> within x (range_of k)"
  by (simp add: covers_def within_def)

lemma ordered_simps [simp]:
  "ordered []" "ordered (n # ns) \<longleftrightarrow> kproper (fst n) \<and> (\<forall>m\<in>set ns. kbefore (fst n) (fst m)) \<and> ordered ns"
  "ordered (ns @ ms) \<longleftrightarrow> ordered ns \<and> ordered ms \<and> (\<forall>n\<in>set ns. \<forall>m\<in>set ms. kbefore (fst n) (fst m))"
  by (auto simp: ranges_ordered_def sorted_wrt_append)

lemma kbefore_trans: "kbefore i j \<Longrightarrow> kproper j \<Longrightarrow> kbefore j k \<Longrightarrow> kbefore i k"
  unfolding kbefore_def kproper_def using before_trans by blast

lemma kbefore_asym: "kproper i \<Longrightarrow> kproper j \<Longrightarrow> kbefore i j \<Longrightarrow> \<not> kbefore j i"
  unfolding kbefore_def kproper_def using before_asym by blast

lemma compare_cases:
  assumes "kproper j" "kproper k"
  obtains (less) "keyrange_compare c j k = LESS_THAN" "kbefore j k" "\<not> kbefore k j"
  | (greater) "keyrange_compare c j k = GREATER_THAN" "kbefore k j" "\<not> kbefore j k"
  | (equals) "keyrange_compare c j k = EQUALS" "koverlap j k"
      "\<And>i. kbefore i j \<longleftrightarrow> kbefore i k" "\<And>i. kbefore j i \<longleftrightarrow> kbefore k i"
  | (overlaps) "keyrange_compare c j k = OVERLAPS" "koverlap j k"
proof -
  note iff = interval_compare_iff [of "range_of j" "range_of k"]
  have p: "proper (range_of j)" "proper (range_of k)" using assms by (simp_all add: kproper_def)
  have eq: "(before (range_of i) (range_of j) \<longleftrightarrow> before (range_of i) (range_of k)) \<and> (before (range_of j) (range_of i) \<longleftrightarrow> before (range_of k) (range_of i))"
    if "keyrange_compare c j k = EQUALS" for i
  proof -
    have z: "endpoint_compare c (fst (range_of j)) (fst (range_of k)) = 0" "endpoint_compare c (snd (range_of j)) (snd (range_of k)) = 0"
      using that by (auto simp: keyrange_compare_ok interval_compare_def split: if_splits)
    then have "endpoint_compare c (fst (range_of k)) (fst (range_of j)) = 0" "endpoint_compare c (snd (range_of k)) (snd (range_of j)) = 0"
      using cmp_flip(3) by blast+
    then show ?thesis using z cmp_less_trans unfolding before_def by (metis order_refl)
  qed
  show thesis
  proof (cases "keyrange_compare c j k")
    case EQUALS
    show thesis
      by (rule equals [OF EQUALS]) (use iff(3) [OF p] eq [OF EQUALS] EQUALS in \<open>auto simp: koverlap_def kbefore_def keyrange_compare_ok\<close>)
  next
    case LESS_THAN
    then have "before (range_of j) (range_of k)" using iff(1) [OF p] by (simp add: keyrange_compare_ok)
    then show thesis using less [OF LESS_THAN] before_asym [OF p] by (simp add: kbefore_def)
  next
    case GREATER_THAN
    then have "before (range_of k) (range_of j)" using iff(2) [OF p] by (simp add: keyrange_compare_ok)
    then show thesis using greater [OF GREATER_THAN] before_asym [OF p(2,1)] by (simp add: kbefore_def)
  next
    case OVERLAPS
    show thesis
      by (rule overlaps [OF OVERLAPS]) (use iff(3) [OF p] OVERLAPS in \<open>auto simp: koverlap_def kbefore_def keyrange_compare_ok\<close>)
  qed
qed

lemma keyrange_overlaps_iff: "kproper j \<Longrightarrow> kproper k \<Longrightarrow> keyrange_overlaps c j k \<longleftrightarrow> koverlap j k"
  by (rule compare_cases [of j k]) (auto simp: keyrange_overlaps_def koverlap_def Let_def)

lemma koverlap_sym: "koverlap j k \<longleftrightarrow> koverlap k j"
  by (auto simp: koverlap_def)

lemma infinite_proper: "kproper get_infinite_range" "koverlap get_infinite_range k" "koverlap k get_infinite_range"
proof -
  have "range_of get_infinite_range = (MinusInf, PlusInf)" by (simp add: get_infinite_range_def)
  moreover have "keyrange_wf get_infinite_range" unfolding get_infinite_range_def by (rule wf_create) (simp add: toku_dbt_equals_def)
  ultimately show "kproper get_infinite_range" using cmp_bottom by (simp add: kproper_def proper_def)
  show "koverlap get_infinite_range k" "koverlap k get_infinite_range"
    using \<open>range_of get_infinite_range = (MinusInf, PlusInf)\<close> cmp_bottom cmp_top cmp_flip
    by (auto simp: koverlap_def kbefore_def before_def not_less)
qed

text \<open>Among ordered ranges, those that overlap a given one are consecutive.\<close>

lemma overlap_split:
  assumes "ordered (as @ n # bs)" "kproper rng" "kproper (fst n)"
  shows "kbefore rng (fst n) \<Longrightarrow> b \<in> set bs \<Longrightarrow> kbefore rng (fst b)"
    and "kbefore (fst n) rng \<Longrightarrow> a \<in> set as \<Longrightarrow> kbefore (fst a) rng"
  using assms kbefore_trans [of rng "fst n" "fst b"] kbefore_trans [of "fst a" "fst n" rng] by auto

lemma filter_overlap_none:
  "\<forall>n\<in>set ns. kbefore rng (fst n) \<or> kbefore (fst n) rng \<Longrightarrow> filter (\<lambda>n. koverlap rng (fst n)) ns = []"
  by (auto simp: koverlap_def filter_empty_conv)

text \<open>
  A callback that declines stays declined and does not act: then a traversal is a fold over the overlapping ranges.
\<close>

definition steady :: "(keyrange \<Rightarrow> TXNID \<Rightarrow> 's \<Rightarrow> bool \<times> 's) \<Rightarrow> bool" where
  "steady fn \<longleftrightarrow> (\<forall>k x s. \<not> fst (fn k x s) \<longrightarrow> (\<forall>k' x'. fn k' x' s = (False, s)))"

definition visit :: "(keyrange \<Rightarrow> TXNID \<Rightarrow> 's \<Rightarrow> bool \<times> 's) \<Rightarrow> (keyrange \<times> TXNID) list \<Rightarrow> 's \<Rightarrow> 's" where
  "visit fn ns s = fold (\<lambda>n s. snd (fn (fst n) (snd n) s)) ns s"

lemma visit_simps [simp]:
  "visit fn [] s = s" "visit fn (n # ns) s = visit fn ns (snd (fn (fst n) (snd n) s))" "visit fn (ns @ ms) s = visit fn ms (visit fn ns s)"
  by (simp_all add: visit_def)

lemma visit_declined: "steady fn \<Longrightarrow> \<not> fst (fn k x s) \<Longrightarrow> visit fn ns s = s"
  by (induction ns) (auto simp: steady_def)

lemma declined: "steady fn \<Longrightarrow> \<not> fst (fn k x s) \<Longrightarrow> snd (fn k x s) = s"
  by (auto simp: steady_def)

lemma traverse_visits:
  assumes "ordered (tnodes t)" "kproper rng" "steady fn"
  shows "snd (traverse_overlaps c rng fn t s) = visit fn (filter (\<lambda>n. koverlap rng (fst n)) (tnodes t)) s"
  using assms(1)
proof (induction t arbitrary: s)
  case (TNode k x le l re r)
  have ord: "ordered (tnodes l @ (k, x) # tnodes r)" using TNode.prems by simp
  then have k: "kproper k" and lr: "ordered (tnodes l)" "ordered (tnodes r)"
    "\<forall>n\<in>set (tnodes l). kbefore (fst n) k" "\<forall>n\<in>set (tnodes r). kbefore k (fst n)" by auto
  let ?ov = "filter (\<lambda>n. koverlap rng (fst n))"
  have l: "snd (traverse_overlaps c rng fn l s) = visit fn (?ov (tnodes l)) s" for s using TNode.IH(1) lr(1) by blast
  have r: "snd (traverse_overlaps c rng fn r s) = visit fn (?ov (tnodes r)) s" for s using TNode.IH(2) lr(2) by blast
  have none_l: "l = TNull \<Longrightarrow> ?ov (tnodes l) = []" and none_r: "r = TNull \<Longrightarrow> ?ov (tnodes r) = []" by simp_all
  from assms(2) k show ?case
  proof (cases rule: compare_cases)
    case less
    have "?ov (tnodes r) = []" using lr(4) less(2) k by (intro filter_overlap_none) (auto intro: kbefore_trans)
    then show ?thesis using less l none_l by (auto simp: koverlap_def Let_def case_prod_beta)
  next
    case greater
    have "?ov (tnodes l) = []" using lr(3) greater(2) k by (intro filter_overlap_none) (auto intro: kbefore_trans)
    then show ?thesis using greater r none_r by (auto simp: koverlap_def Let_def case_prod_beta)
  next
    case equals
    have "?ov (tnodes l) = []" "?ov (tnodes r) = []"
      using lr(3,4) equals(3,4) by (auto intro!: filter_overlap_none)
    then show ?thesis using equals by simp
  next
    case overlaps
    show ?thesis
      using overlaps l r none_l none_r visit_declined [OF assms(3)] declined [OF assms(3)]
      by (auto simp: Let_def case_prod_beta)
  qed
qed simp

lemma insert_nodes:
  assumes "ordered (tnodes t)" "kproper rng" "\<forall>n\<in>set (tnodes t). \<not> koverlap rng (fst n)" "t \<noteq> TNull"
  shows "\<exists>t'. treenode_insert c rng txnid t = Some t' \<and>
    (\<exists>as bs. tnodes t = as @ bs \<and> tnodes t' = as @ (create_copy rng, txnid) # bs \<and>
      (\<forall>a\<in>set as. kbefore (fst a) rng) \<and> (\<forall>b\<in>set bs. kbefore rng (fst b)))"
  using assms(1,3,4)
proof (induction "tsize t" arbitrary: t rule: less_induct)
  case less
  obtain k x le l re r where t: "t = TNode k x le l re r" using less.prems(3) by (cases t) auto
  have ord: "kproper k" "ordered (tnodes l)" "ordered (tnodes r)" "\<forall>n\<in>set (tnodes l). kbefore (fst n) k" "\<forall>n\<in>set (tnodes r). kbefore k (fst n)"
    using less.prems(1) t by auto
  have "\<not> koverlap rng k" using less.prems(2) t by simp
  from assms(2) ord(1) show ?case
  proof (cases rule: compare_cases)
    case le: less
    obtain le' l' where l': "lock_and_rebalance_left t = TNode k x le' l' re r" "tnodes l' = tnodes l" "tsize l' = tsize l"
      unfolding t by (rule lock_and_rebalance_left_cases)
    have after: "\<forall>n\<in>set (tnodes r). kbefore rng (fst n)" using ord(1,5) le(2) kbefore_trans by blast
    show ?thesis
    proof (cases "l' = TNull")
      case True
      then have "l = TNull" using l'(2) by (metis tnodes_empty)
      let ?t = "set_left (TNode k x le' l' re r) (treenode_alloc rng txnid)"
      have "treenode_insert c rng txnid t = Some ?t" using True le l' t by simp
      moreover have "tnodes t = [] @ (k, x) # tnodes r" "tnodes ?t = [] @ (create_copy rng, txnid) # (k, x) # tnodes r"
        using t \<open>l = TNull\<close> by (simp_all add: treenode_alloc_def)
      moreover have "\<forall>b\<in>set ((k, x) # tnodes r). kbefore rng (fst b)" using after le(2) by simp
      ultimately show ?thesis by (metis empty_iff list.set(1))
    next
      case False
      then obtain l'' as bs where IH: "treenode_insert c rng txnid l' = Some l''" "tnodes l' = as @ bs"
        "tnodes l'' = as @ (create_copy rng, txnid) # bs" "\<forall>a\<in>set as. kbefore (fst a) rng" "\<forall>b\<in>set bs. kbefore rng (fst b)"
        using less.hyps [of l'] less.prems ord(2) l' t by auto
      show ?thesis
        using le l' IH False after t l'(2)
        by (intro exI [of _ "TNode k x le' l'' re r"] conjI exI [of _ as] exI [of _ "bs @ (k, x) # tnodes r"]) auto
    qed
  next
    case gr: greater
    obtain re' r' where r': "lock_and_rebalance_right t = TNode k x le l re' r'" "tnodes r' = tnodes r" "tsize r' = tsize r"
      unfolding t by (rule lock_and_rebalance_right_cases)
    have bef: "\<forall>n\<in>set (tnodes l). kbefore (fst n) rng" using ord(1,4) gr(2) kbefore_trans by blast
    show ?thesis
    proof (cases "r' = TNull")
      case True
      then have "r = TNull" using r'(2) by (metis tnodes_empty)
      then show ?thesis
        using True gr r' bef t
        by (intro exI [of _ "set_right (TNode k x le l re' r') (treenode_alloc rng txnid)"] conjI exI [of _ "tnodes l @ [(k, x)]"] exI [of _ "[]"])
          (auto simp: treenode_alloc_def)
    next
      case False
      then obtain r'' as bs where IH: "treenode_insert c rng txnid r' = Some r''" "tnodes r' = as @ bs"
        "tnodes r'' = as @ (create_copy rng, txnid) # bs" "\<forall>a\<in>set as. kbefore (fst a) rng" "\<forall>b\<in>set bs. kbefore rng (fst b)"
        using less.hyps [of r'] less.prems ord(3) r' t by auto
      show ?thesis
        using gr r' IH False bef t r'(2)
        by (intro exI [of _ "TNode k x le l re' r''"] conjI exI [of _ "tnodes l @ (k, x) # as"] exI [of _ bs]) auto
    qed
  qed (use \<open>\<not> koverlap rng k\<close> in auto)
qed

lemma remove_nodes:
  assumes "ordered (tnodes t)" "kproper rng" "tnodes t = as @ (k, x) # bs" "keyrange_compare c rng k = EQUALS"
  shows "\<exists>t'. treenode_remove c rng t = Some t' \<and> tnodes t' = as @ bs"
  using assms(1,3)
proof (induction t arbitrary: as bs)
  case (TNode k' x' le l re r)
  have ord: "kproper k'" "ordered (tnodes l)" "ordered (tnodes r)" "\<forall>n\<in>set (tnodes l). kbefore (fst n) k'" "\<forall>n\<in>set (tnodes r). kbefore k' (fst n)"
    using TNode.prems(1) by auto
  have k: "kproper k" using assms(1,3) by simp
  have eq: "kbefore i rng \<longleftrightarrow> kbefore i k" "kbefore rng i \<longleftrightarrow> kbefore k i" for i
    using assms(4) by (rule_tac compare_cases [OF assms(2) k]; simp)+
  consider (left) ys where "tnodes l = as @ (k, x) # ys" "bs = ys @ (k', x') # tnodes r"
    | (here) "as = tnodes l" "k = k'" "x = x'" "bs = tnodes r"
    | (right) ys where "as = tnodes l @ (k', x') # ys" "tnodes r = ys @ (k, x) # bs"
    using TNode.prems(2) by (auto simp: append_eq_append_conv2 append_eq_Cons_conv Cons_eq_append_conv)
  then show ?case
  proof cases
    case left
    then have "kbefore k k'" using ord(4) by auto
    then have "kbefore rng k'" using eq(2) by simp
    then have "keyrange_compare c rng k' = LESS_THAN"
      by (rule_tac compare_cases [OF assms(2) ord(1)]) (auto simp: koverlap_def dest: kbefore_asym [OF assms(2) ord(1)])
    then show ?thesis using TNode.IH(1) [OF ord(2) left(1)] left(2) by auto
  next
    case here
    then show ?thesis using assms(4) remove_root_nodes [of k' x' le l re r] by simp
  next
    case right
    then have "kbefore k' k" using ord(5) by auto
    then have "kbefore k' rng" using eq(1) by simp
    then have "keyrange_compare c rng k' = GREATER_THAN"
      by (rule_tac compare_cases [OF assms(2) ord(1)]) (auto simp: koverlap_def dest: kbefore_asym [OF ord(1) assms(2)])
    then show ?thesis using TNode.IH(2) [OF ord(3) right(2)] right(1) by auto
  qed
qed simp

text \<open>\<open>locates rng p t\<close>: everything in \<open>t\<close> that overlaps \<open>rng\<close> is strictly below the node at \<open>p\<close>.\<close>

definition locates :: "keyrange \<Rightarrow> tpath \<Rightarrow> treenode \<Rightarrow> bool" where
  "locates rng p t \<longleftrightarrow> node_at p t \<noteq> TNull \<and> (\<forall>a\<in>set (fst (surround p t)). kbefore (fst a) rng) \<and>
     (\<forall>b\<in>set (snd (surround p t)). kbefore rng (fst b)) \<and> \<not> koverlap rng (t_range (node_at p t))"

lemma compare_overlap:
  assumes "kproper rng" "kproper k"
  shows "keyrange_compare c rng k = EQUALS \<or> keyrange_compare c rng k = OVERLAPS \<longleftrightarrow> koverlap rng k"
  by (rule compare_cases [OF assms]) (auto simp: koverlap_def)

lemma child_proper: "ordered (tnodes t) \<Longrightarrow> t = TNode k x le l re r \<Longrightarrow> kproper k"
  by auto

text \<open>The step at a child: stop here when there is none or it overlaps, else go on below it.\<close>

lemma find_step:
  assumes "ordered (tnodes u)" "kproper rng"
  shows "(case u of TNull \<Rightarrow> Some ([], t) | TNode ck cx cle cl cre cr \<Rightarrow>
       let cm = keyrange_compare c rng ck in if cm = EQUALS \<or> cm = OVERLAPS then Some ([], t) else F cm)
     = (if u = TNull \<or> koverlap rng (t_range u) then Some ([], t) else F (keyrange_compare c rng (t_range u)))"
proof (cases u)
  case (TNode ck cx cle cl cre cr)
  then show ?thesis using compare_overlap [OF assms(2) child_proper [OF assms(1) TNode]] by (simp add: Let_def)
qed simp

lemma find_node_ok:
  assumes "ordered (tnodes t)" "kproper rng" "t \<noteq> TNull" "\<not> koverlap rng (t_range t)"
    and "hint = None \<or> hint = Some (keyrange_compare c rng (t_range t))"
  shows "\<exists>p t'. find_node_with_overlapping_child c rng hint t = Some (p, t') \<and> tnodes t' = tnodes t \<and> locates rng p t'"
  using assms(1,3,4,5)
proof (induction "tsize t" arbitrary: t hint rule: less_induct)
  case less
  obtain k x le l re r where t: "t = TNode k x le l re r" using less.prems(2) by (cases t) auto
  have ord: "kproper k" "ordered (tnodes l)" "ordered (tnodes r)" "\<forall>n\<in>set (tnodes l). kbefore (fst n) k" "\<forall>n\<in>set (tnodes r). kbefore k (fst n)"
    using less.prems(1) t by auto
  have hint: "(case hint of Some h \<Rightarrow> h | None \<Rightarrow> keyrange_compare c rng k) = keyrange_compare c rng k"
    using less.prems(4) t by (auto split: option.splits)
  have no: "\<not> koverlap rng k" using less.prems(3) t by simp
  have rec: "\<exists>p t'. find_node_with_overlapping_child c rng (Some (keyrange_compare c rng (t_range u))) u = Some (p, t') \<and> tnodes t' = tnodes u \<and> locates rng p t'"
    if "tsize u < tsize t" "ordered (tnodes u)" "u \<noteq> TNull" "\<not> koverlap rng (t_range u)" for u
    using less.hyps [OF that] by simp
  from assms(2) ord(1) show ?case
  proof (cases rule: compare_cases)
    case le: less
    obtain le' l' where l': "lock_and_rebalance_left (TNode k x le l re r) = TNode k x le' l' re r" "tnodes l' = tnodes l" "tsize l' = tsize l"
      by (rule lock_and_rebalance_left_cases)
    have after: "\<forall>n\<in>set (tnodes r). kbefore rng (fst n)" using ord(1,5) le(2) kbefore_trans by blast
    have o: "ordered (tnodes l')" using ord(2) l'(2) by simp
    note step = find_node_with_overlapping_child.simps(2) [of c rng hint k x le l re r, unfolded hint, unfolded Let_def [of "keyrange_compare c rng k"], unfolded le(1) l'(1)
      treenode.case simp_thms if_True find_step [OF o assms(2)]]
    show ?thesis
    proof (cases "l' = TNull \<or> koverlap rng (t_range l')")
      case True
      then have "find_node_with_overlapping_child c rng hint t = Some ([], TNode k x le' l' re r)" unfolding t step by simp
      then show ?thesis using l'(2) no t by (simp add: locates_def)
    next
      case False
      then obtain p t' where IH: "find_node_with_overlapping_child c rng (Some (keyrange_compare c rng (t_range l'))) l' = Some (p, t')"
        "tnodes t' = tnodes l'" "locates rng p t'" using rec [of l'] l' t o by auto
      have "find_node_with_overlapping_child c rng hint t = Some (False # p, TNode k x le' t' re r)" unfolding t step using False IH(1) by simp
      then show ?thesis using IH(2,3) l'(2) after le(2) t by (auto simp: locates_def)
    qed
  next
    case gr: greater
    obtain re' r' where r': "lock_and_rebalance_right (TNode k x le l re r) = TNode k x le l re' r'" "tnodes r' = tnodes r" "tsize r' = tsize r"
      by (rule lock_and_rebalance_right_cases)
    have bef: "\<forall>n\<in>set (tnodes l). kbefore (fst n) rng" using ord(1,4) gr(2) kbefore_trans by blast
    have o: "ordered (tnodes r')" using ord(3) r'(2) by simp
    note step = find_node_with_overlapping_child.simps(2) [of c rng hint k x le l re r, unfolded hint, unfolded Let_def [of "keyrange_compare c rng k"], unfolded gr(1) r'(1)
      treenode.case simp_thms comparison.simps if_True if_False find_step [OF o assms(2)]]
    show ?thesis
    proof (cases "r' = TNull \<or> koverlap rng (t_range r')")
      case True
      then have "find_node_with_overlapping_child c rng hint t = Some ([], TNode k x le l re' r')" unfolding t step by simp
      then show ?thesis using r'(2) no t by (simp add: locates_def)
    next
      case False
      then obtain p t' where IH: "find_node_with_overlapping_child c rng (Some (keyrange_compare c rng (t_range r'))) r' = Some (p, t')"
        "tnodes t' = tnodes r'" "locates rng p t'" using rec [of r'] r' t o by auto
      have "find_node_with_overlapping_child c rng hint t = Some (True # p, TNode k x le l re' t')" unfolding t step using False IH(1) by simp
      then show ?thesis using IH(2,3) r'(2) bef gr(2) t by (auto simp: locates_def)
    qed
  qed (use no in auto)
qed

end

end
