(* ===== verification/Concurrent_Tree.thy ===== *)
theory Concurrent_Tree
  imports Treenode_Props
begin

text \<open>
  The tree of row locks under a locked key range (\<open>src/locktree/concurrent_tree.cc\<close>): after \<open>lkr_acquire\<close> the operations of the range act on the
  sorted sequence of all row locks, although they only see the subtree that the range has locked.
\<close>

definition ct_nodes :: "concurrent_tree \<Rightarrow> (keyrange \<times> TXNID) list" where
  "ct_nodes t = (if m_is_empty t then [] else tnodes (m_root t))"

definition ct_wf :: "comparator \<Rightarrow> concurrent_tree \<Rightarrow> bool" where
  "ct_wf c t \<longleftrightarrow> m_root t \<noteq> TNull \<and> (m_is_empty t \<longrightarrow> t_left (m_root t) = TNull \<and> t_right (m_root t) = TNull) \<and>
     ranges_ordered c (ct_nodes t)"

lemma create_wf: "ct_wf c concurrent_tree_create" "ct_nodes concurrent_tree_create = []"
  by (simp_all add: ct_wf_def ct_nodes_def concurrent_tree_create_def ranges_ordered_def)

lemma ct_nodes_empty: "ct_wf c t \<Longrightarrow> ct_nodes t = [] \<longleftrightarrow> m_is_empty t"
  by (auto simp: ct_wf_def ct_nodes_def)

lemma remove_all_nodes: "ct_wf c t \<Longrightarrow> m_is_empty (lkr_remove_all t)" "ct_nodes (lkr_remove_all t) = []"
  by (simp_all add: lkr_remove_all_def ct_nodes_def)

context key_comparator
begin

definition lkr_ok :: "locked_keyrange \<Rightarrow> concurrent_tree \<Rightarrow> bool" where
  "lkr_ok lkr t \<longleftrightarrow> kproper (lkr_range lkr) \<and>
     (lkr_subtree lkr = [] \<or> \<not> m_is_empty t \<and> locates (lkr_range lkr) (lkr_subtree lkr) (m_root t))"

lemma lkr_prepare_ok: "lkr_ok lkr_prepare t" "lkr_subtree lkr_prepare = []" "lkr_range lkr_prepare = get_infinite_range"
  by (simp_all add: lkr_ok_def lkr_prepare_def infinite_proper)

lemma lkr_acquire_ok:
  assumes "ct_wf c t" "kproper rng"
  obtains lkr t' where "lkr_acquire c rng t = Some (lkr, t')" "lkr_range lkr = rng" "ct_nodes t' = ct_nodes t" "ct_wf c t'" "lkr_ok lkr t'"
proof (cases "m_is_empty t \<or> keyrange_overlaps c (t_range (m_root t)) rng")
  case True
  show thesis by (rule that [of "\<lparr>lkr_range = rng, lkr_subtree = []\<rparr>" t]) (use True assms in \<open>simp_all add: lkr_acquire_def lkr_ok_def\<close>)
next
  case False
  obtain k x le l re r where root: "m_root t = TNode k x le l re r" using assms(1) by (cases "m_root t") (auto simp: ct_wf_def)
  have ord: "ordered (tnodes (m_root t))" using assms(1) False by (simp add: ct_wf_def ct_nodes_def)
  then have "kproper k" using root by simp
  then have "\<not> koverlap rng (t_range (m_root t))" using False assms(2) root keyrange_overlaps_iff [of k rng] koverlap_sym [of k rng] by simp
  then obtain p root' where f: "find_node_with_overlapping_child c rng None (m_root t) = Some (p, root')"
    "tnodes root' = tnodes (m_root t)" "locates rng p root'"
    using find_node_ok [OF ord assms(2), of None] root by auto
  have nn: "root' \<noteq> TNull" using f(2) root by auto
  show thesis
    by (rule that [of "\<lparr>lkr_range = rng, lkr_subtree = p\<rparr>" "t\<lparr>m_root := root'\<rparr>"])
      (use False f assms nn in \<open>simp_all add: lkr_acquire_def lkr_ok_def ct_nodes_def ct_wf_def\<close>)
qed

text \<open>The subtree of a locked range, and what is outside of it.\<close>

lemma lkr_subtree_nodes:
  assumes "lkr_ok lkr t" "ct_wf c t" "\<not> subtree_is_empty lkr t"
  obtains as ns bs where "ct_nodes t = as @ ns @ bs" "(as, bs) = surround (lkr_subtree lkr) (m_root t)" "ns = tnodes (node_at (lkr_subtree lkr) (m_root t))"
    "node_at (lkr_subtree lkr) (m_root t) \<noteq> TNull" "\<not> m_is_empty t" "ordered ns"
    "\<forall>a\<in>set as. kbefore (fst a) (lkr_range lkr)" "\<forall>b\<in>set bs. kbefore (lkr_range lkr) (fst b)"
proof -
  have ne: "\<not> m_is_empty t" "node_at (lkr_subtree lkr) (m_root t) \<noteq> TNull"
    using assms by (auto simp: lkr_ok_def subtree_is_empty_def locates_def ct_wf_def)
  have nodes: "ct_nodes t = fst (surround (lkr_subtree lkr) (m_root t)) @ tnodes (node_at (lkr_subtree lkr) (m_root t)) @ snd (surround (lkr_subtree lkr) (m_root t))"
    using ne(1) surround_nodes by (simp add: ct_nodes_def)
  have "ordered (tnodes (node_at (lkr_subtree lkr) (m_root t)))" using assms(2) nodes by (simp add: ct_wf_def)
  moreover have "\<forall>a\<in>set (fst (surround (lkr_subtree lkr) (m_root t))). kbefore (fst a) (lkr_range lkr)"
    "\<forall>b\<in>set (snd (surround (lkr_subtree lkr) (m_root t))). kbefore (lkr_range lkr) (fst b)"
    using assms(1) by (auto simp: lkr_ok_def locates_def)
  ultimately show thesis using that [OF nodes] ne by simp
qed

lemma lkr_put:
  assumes "lkr_ok lkr t" "ct_wf c t" "\<not> subtree_is_empty lkr t" "(as, bs) = surround (lkr_subtree lkr) (m_root t)"
    and "n \<noteq> TNull" "lkr_subtree lkr \<noteq> [] \<Longrightarrow> t_range n = t_range (node_at (lkr_subtree lkr) (m_root t))" "ordered (as @ tnodes n @ bs)"
  shows "ct_nodes (t\<lparr>m_root := put_at (lkr_subtree lkr) n (m_root t)\<rparr>) = as @ tnodes n @ bs"
    "ct_wf c (t\<lparr>m_root := put_at (lkr_subtree lkr) n (m_root t)\<rparr>)" "lkr_ok lkr (t\<lparr>m_root := put_at (lkr_subtree lkr) n (m_root t)\<rparr>)"
proof -
  let ?p = "lkr_subtree lkr" and ?t = "t\<lparr>m_root := put_at (lkr_subtree lkr) n (m_root t)\<rparr>"
  have ne: "\<not> m_is_empty t" "node_at ?p (m_root t) \<noteq> TNull"
    using assms by (auto simp: lkr_ok_def subtree_is_empty_def locates_def ct_wf_def)
  have f: "fst (surround ?p (m_root t)) = as" "snd (surround ?p (m_root t)) = bs" using assms(4) by (metis fst_conv, metis snd_conv)
  show nodes: "ct_nodes ?t = as @ tnodes n @ bs" using ne surround_put(1) [OF ne(2), of n] f by (simp add: ct_nodes_def)
  have "put_at ?p n (m_root t) \<noteq> TNull" using put_at_node [OF ne(2) assms(5)] .
  then show "ct_wf c ?t" using nodes assms(7) ne(1) by (simp add: ct_wf_def)
  show "lkr_ok lkr ?t"
    using assms(1,5,6) ne surround_put(2,3) [OF ne(2), of n] by (auto simp: lkr_ok_def locates_def)
qed

lemma lkr_iterate_ok:
  assumes "lkr_ok lkr t" "ct_wf c t" "steady fn"
  obtains t' where "lkr_iterate c fn lkr t s = (t', visit fn (filter (\<lambda>n. koverlap (lkr_range lkr) (fst n)) (ct_nodes t)) s)"
    "ct_nodes t' = ct_nodes t" "ct_wf c t'" "lkr_ok lkr t'"
proof (cases "subtree_is_empty lkr t")
  case True
  then have "ct_nodes t = []" by (simp add: subtree_is_empty_def ct_nodes_def)
  then show thesis using that [of t] True assms by (simp add: lkr_iterate_def)
next
  case False
  obtain as ns bs where sub: "ct_nodes t = as @ ns @ bs" "(as, bs) = surround (lkr_subtree lkr) (m_root t)"
    "ns = tnodes (node_at (lkr_subtree lkr) (m_root t))" "node_at (lkr_subtree lkr) (m_root t) \<noteq> TNull" "ordered ns"
    "\<forall>a\<in>set as. kbefore (fst a) (lkr_range lkr)" "\<forall>b\<in>set bs. kbefore (lkr_range lkr) (fst b)"
    by (rule lkr_subtree_nodes [OF assms(1,2) False])
  let ?n = "fst (traverse_overlaps c (lkr_range lkr) fn (node_at (lkr_subtree lkr) (m_root t)) s)"
  have n: "?n \<noteq> TNull" "tnodes ?n = ns" "t_range ?n = t_range (node_at (lkr_subtree lkr) (m_root t))"
    using sub(3,4) traverse_range [OF sub(4)] traverse_nodes by simp_all
  have "ordered (as @ tnodes ?n @ bs)" using assms(2) sub(1) n(2) by (simp add: ct_wf_def)
  note put = lkr_put [OF assms(1,2) False sub(2) n(1) n(3) this, unfolded n(2) sub(1) [symmetric]]
  have "filter (\<lambda>n. koverlap (lkr_range lkr) (fst n)) as = []" "filter (\<lambda>n. koverlap (lkr_range lkr) (fst n)) bs = []"
    using sub(6,7) by (simp_all add: filter_overlap_none)
  then have ov: "filter (\<lambda>n. koverlap (lkr_range lkr) (fst n)) (ct_nodes t) = filter (\<lambda>n. koverlap (lkr_range lkr) (fst n)) ns"
    unfolding sub(1) by simp
  have "snd (traverse_overlaps c (lkr_range lkr) fn (node_at (lkr_subtree lkr) (m_root t)) s) = visit fn (filter (\<lambda>n. koverlap (lkr_range lkr) (fst n)) ns) s"
    using traverse_visits [OF _ _ assms(3)] sub(3,5) assms(1) by (simp add: lkr_ok_def)
  then show thesis using that [OF _ put] False ov by (simp add: lkr_iterate_def case_prod_beta)
qed

lemma lkr_remove_ok:
  assumes "lkr_ok lkr t" "ct_wf c t" "kproper rng" "ct_nodes t = as @ (k, x) # bs" "keyrange_compare c rng k = EQUALS" "koverlap (lkr_range lkr) k"
  obtains t' where "lkr_remove c rng lkr t = Some t'" "ct_nodes t' = as @ bs" "ct_wf c t'" "lkr_ok lkr t'"
proof -
  have "\<not> subtree_is_empty lkr t" using assms(4) by (auto simp: subtree_is_empty_def ct_nodes_def)
  then obtain as' ns bs' where sub: "ct_nodes t = as' @ ns @ bs'" "(as', bs') = surround (lkr_subtree lkr) (m_root t)"
    "ns = tnodes (node_at (lkr_subtree lkr) (m_root t))" "node_at (lkr_subtree lkr) (m_root t) \<noteq> TNull" "\<not> m_is_empty t" "ordered ns"
    "\<forall>a\<in>set as'. kbefore (fst a) (lkr_range lkr)" "\<forall>b\<in>set bs'. kbefore (lkr_range lkr) (fst b)"
    using lkr_subtree_nodes [OF assms(1,2)] by metis
  have "(k, x) \<notin> set as'" "(k, x) \<notin> set bs'" using sub(7,8) assms(6) by (auto simp: koverlap_def)
  then obtain cs ds where cd: "ns = cs @ (k, x) # ds" "as = as' @ cs" "bs = ds @ bs'"
    using assms(4) unfolding sub(1) by (auto simp: append_eq_append_conv2 append_eq_Cons_conv Cons_eq_append_conv)
  obtain n where n: "treenode_remove c rng (node_at (lkr_subtree lkr) (m_root t)) = Some n" "tnodes n = cs @ ds"
    using remove_nodes [OF sub(6) [unfolded sub(3)] assms(3) cd(1) [unfolded sub(3)] assms(5)] by auto
  have ord: "ordered (as' @ tnodes n @ bs')" using assms(2) unfolding ct_wf_def assms(4) cd n(2) by auto
  have far: "keyrange_compare c rng (t_range (node_at (lkr_subtree lkr) (m_root t))) \<noteq> EQUALS" if p: "lkr_subtree lkr \<noteq> []"
  proof
    assume eq: "keyrange_compare c rng (t_range (node_at (lkr_subtree lkr) (m_root t))) = EQUALS"
    obtain k' x' le l re r where node: "node_at (lkr_subtree lkr) (m_root t) = TNode k' x' le l re r" using sub(4) by (metis treenode.exhaust)
    have kp: "kproper k'" "kproper k" using sub(3,6) node assms(2,4) by (auto simp: ct_wf_def)
    have "kbefore i k \<longleftrightarrow> kbefore i k'" "kbefore k i \<longleftrightarrow> kbefore k' i" for i
      by (rule compare_cases [OF assms(3) kp(1)]; rule compare_cases [OF assms(3) kp(2)]; use eq node assms(5) in simp)+
    then have "koverlap (lkr_range lkr) k'" using assms(6) by (simp add: koverlap_def)
    then show False using assms(1) p node by (simp add: lkr_ok_def locates_def)
  qed
  show thesis
  proof (cases "n = TNull")
    case True
    then have "lkr_subtree lkr = []" using far remove_range(2) [OF n(1)] by auto
    then have "as' = []" "bs' = []" using sub(2) by simp_all
    let ?t = "\<lparr>m_root = clear_node (m_root t), m_is_empty = True\<rparr>"
    obtain k' x' le l re r where root: "m_root t = TNode k' x' le l re r" using assms(2) by (cases "m_root t") (auto simp: ct_wf_def)
    have "l = TNull" "r = TNull"
      using n True root \<open>lkr_subtree lkr = []\<close> cd sub(3) by (auto simp: append_eq_Cons_conv)
    then have "ct_wf c ?t" using root by (simp add: ct_wf_def ct_nodes_def)
    moreover have "ct_nodes ?t = as @ bs" using n(2) True cd \<open>as' = []\<close> \<open>bs' = []\<close> by (simp add: ct_nodes_def)
    moreover have "lkr_ok lkr ?t" using assms(1) \<open>lkr_subtree lkr = []\<close> by (simp add: lkr_ok_def)
    ultimately show thesis using that [of ?t] n(1) True \<open>lkr_subtree lkr = []\<close> \<open>\<not> subtree_is_empty lkr t\<close> by (simp add: lkr_remove_def)
  next
    case False
    note put = lkr_put [OF assms(1,2) \<open>\<not> subtree_is_empty lkr t\<close> sub(2) False remove_range(1) [OF n(1) far] ord]
    show thesis by (rule that [OF _ _ put(2,3)]) (use put(1) n False cd \<open>\<not> subtree_is_empty lkr t\<close> in \<open>simp_all add: lkr_remove_def\<close>)
  qed
qed

lemma lkr_insert_ok:
  assumes "lkr_ok lkr t" "ct_wf c t" "kproper k" "\<forall>n\<in>set (ct_nodes t). \<not> koverlap k (fst n)"
    and "lkr_subtree lkr = [] \<or> (\<forall>n\<in>set (ct_nodes t). (kbefore (fst n) (lkr_range lkr) \<longrightarrow> kbefore (fst n) k) \<and> (kbefore (lkr_range lkr) (fst n) \<longrightarrow> kbefore k (fst n)))"
  obtains t' as bs where "lkr_insert c k x lkr t = Some t'" "ct_nodes t = as @ bs" "ct_nodes t' = as @ (create_copy k, x) # bs" "ct_wf c t'" "lkr_ok lkr t'"
    "\<not> m_is_empty t'"
proof -
  have wf: "keyrange_wf k" using assms(3) by (simp add: range_proper_def)
  have copy: "kproper (create_copy k)" "kbefore (create_copy k) i \<longleftrightarrow> kbefore k i" "kbefore i (create_copy k) \<longleftrightarrow> kbefore i k" for i
    using create_copy_ok [OF wf] assms(3) by (simp_all add: range_proper_def range_before_def)
  show thesis
  proof (cases "subtree_is_empty lkr t")
    case True
    obtain k' x' le l re r where root: "m_root t = TNode k' x' le l re r" using assms(2) by (cases "m_root t") (auto simp: ct_wf_def)
    have "lkr_insert c k x lkr t = Some \<lparr>m_root = set_range_and_txnid k x (m_root t), m_is_empty = False\<rparr>"
      using True by (simp add: lkr_insert_def)
    then show thesis
      by (rule that [of _ "[]" "[]"])
        (use True root assms(1,2) copy in \<open>auto simp: ct_wf_def ct_nodes_def subtree_is_empty_def lkr_ok_def\<close>)
  next
    case False
    then obtain as' ns bs' where sub: "ct_nodes t = as' @ ns @ bs'" "(as', bs') = surround (lkr_subtree lkr) (m_root t)"
      "ns = tnodes (node_at (lkr_subtree lkr) (m_root t))" "node_at (lkr_subtree lkr) (m_root t) \<noteq> TNull" "\<not> m_is_empty t" "ordered ns"
      "\<forall>a\<in>set as'. kbefore (fst a) (lkr_range lkr)" "\<forall>b\<in>set bs'. kbefore (lkr_range lkr) (fst b)"
      using lkr_subtree_nodes [OF assms(1,2)] by metis
    have "\<forall>n\<in>set (tnodes (node_at (lkr_subtree lkr) (m_root t))). \<not> koverlap k (fst n)" using assms(4) sub(1,3) by simp
    then obtain n cs ds where n: "treenode_insert c k x (node_at (lkr_subtree lkr) (m_root t)) = Some n" "ns = cs @ ds" "tnodes n = cs @ (create_copy k, x) # ds"
      "\<forall>a\<in>set cs. kbefore (fst a) k" "\<forall>b\<in>set ds. kbefore k (fst b)"
      using insert_nodes [OF sub(6) [unfolded sub(3)] assms(3) _ sub(4), of x] sub(3) by auto
    have side: "\<forall>a\<in>set as'. kbefore (fst a) k" "\<forall>b\<in>set bs'. kbefore k (fst b)"
      using assms(5) sub(1,2,7,8) by auto
    have "ordered (as' @ (cs @ ds) @ bs')" using assms(2) sub(1) n(2) by (simp add: ct_wf_def)
    then have ord: "ordered (as' @ tnodes n @ bs')" using n(4,5) side copy unfolding n(3) by auto
    note put = lkr_put [OF assms(1,2) False sub(2) insert_range(2) [OF n(1)] insert_range(1) [OF n(1)] ord]
    show thesis
      by (rule that [of _ "as' @ cs" "ds @ bs'", OF _ _ _ put(2,3)]) (use put(1) n sub(1,5) False in \<open>simp_all add: lkr_insert_def\<close>)
  qed
qed

end

end
