(* ===== verification/Range_Buffer.thy ===== *)
theory Range_Buffer
  imports Keyrange
begin

text \<open>
  Buffers of key ranges: \<open>src/util/memarena.cc\<close> and \<open>src/locktree/range_buffer.cc\<close>. An arena is a growing list of chunks, of which
  the current one takes the next allocation; a range buffer lays records out in an arena, each an eight byte header
  and the bytes of the finite keys, and its iterator reads them back chunk by chunk.

  A chunk holds the bytes that have been handed out from it. Sizes are numbers: they add up sizes of blocks that are in
  memory together, and only \<open>round_to_page\<close> computes with the bits of a \<open>size_t\<close>. The footprint counter of an arena, which asks the
  allocator for the usable size of a block, is left out.
\<close>

subsection \<open>Arenas\<close>

record arena_chunk =
  ac_buf :: "bytes option"
  ac_used :: nat
  ac_size :: nat

record memarena =
  ma_current_chunk :: arena_chunk
  ma_other_chunks :: "arena_chunk list"
  ma_size_of_other_chunks :: nat

definition null_chunk :: arena_chunk where
  "null_chunk = \<lparr>ac_buf = None, ac_used = 0, ac_size = 0\<rparr>"

definition memarena_create :: "nat \<Rightarrow> memarena" where
  "memarena_create initial_size =
     \<lparr>ma_current_chunk = \<lparr>ac_buf = (if initial_size > 0 then Some [] else None), ac_used = 0, ac_size = initial_size\<rparr>,
      ma_other_chunks = [], ma_size_of_other_chunks = 0\<rparr>"

text \<open>\<open>destroy\<close> leaves the size of the other chunks as it is.\<close>

definition memarena_destroy :: "memarena \<Rightarrow> memarena" where
  "memarena_destroy ma = ma\<lparr>ma_current_chunk := null_chunk, ma_other_chunks := []\<rparr>"

definition round_to_page :: "64 word \<Rightarrow> 64 word option" where
  "round_to_page sz =
     (let page_size = 4096;
          r = page_size + ((sz - 1) AND NOT (page_size - 1))
      in do {
        ensure (r AND (page_size - 1) = 0);
        ensure (r \<ge> sz);
        ensure (r < sz + page_size);
        Some r
      })"

definition MEMARENA_MAX_CHUNK_SIZE :: nat where
  "MEMARENA_MAX_CHUNK_SIZE = 64 * 1024 * 1024"

text \<open>The result is the offset of the allocation in the current chunk. Fresh bytes are shown as zeros.\<close>

definition malloc_from_arena :: "nat \<Rightarrow> memarena \<Rightarrow> (nat \<times> memarena) option" where
  "malloc_from_arena sz ma = do {
     ma \<leftarrow> (let cur = ma_current_chunk ma in
       if ac_buf cur = None \<or> ac_size cur < ac_used cur + sz then do {
         ma \<leftarrow> (if ac_buf cur \<noteq> None then do {
           ensure (ac_size cur > 0);
           Some (ma\<lparr>ma_other_chunks := ma_other_chunks ma @ [cur],
                    ma_size_of_other_chunks := ma_size_of_other_chunks ma + ac_size cur\<rparr>)
         } else Some ma);
         let new_size = min MEMARENA_MAX_CHUNK_SIZE (2 * ac_size cur);
         let new_size = (if new_size < sz then sz else new_size);
         new_size \<leftarrow> round_to_page (of_nat new_size);
         Some (ma\<lparr>ma_current_chunk := \<lparr>ac_buf = Some [], ac_used = 0, ac_size = unat new_size\<rparr>\<rparr>)
       } else Some ma);
     let cur = ma_current_chunk ma;
     buf \<leftarrow> ac_buf cur;
     Some (ac_used cur, ma\<lparr>ma_current_chunk := cur\<lparr>ac_buf := Some (buf @ replicate sz 0), ac_used := ac_used cur + sz\<rparr>\<rparr>)
   }"

definition move_memory :: "memarena \<Rightarrow> memarena \<Rightarrow> memarena \<times> memarena" where
  "move_memory ma dest =
     (\<lparr>ma_current_chunk = null_chunk, ma_other_chunks = [], ma_size_of_other_chunks = 0\<rparr>,
      dest\<lparr>ma_other_chunks := ma_other_chunks dest @ ma_other_chunks ma @ [ma_current_chunk ma],
           ma_size_of_other_chunks := ma_size_of_other_chunks dest + (ma_size_of_other_chunks ma + ac_size (ma_current_chunk ma))\<rparr>)"

definition total_size_in_use :: "memarena \<Rightarrow> nat" where
  "total_size_in_use ma = ma_size_of_other_chunks ma + ac_used (ma_current_chunk ma)"

text \<open>The sizes of the two structures are parameters.\<close>

definition memarena_total_memory_size :: "nat \<Rightarrow> nat \<Rightarrow> memarena \<Rightarrow> nat" where
  "memarena_total_memory_size sizeof_memarena sizeof_arena_chunk ma =
     sizeof_memarena + total_size_in_use ma + length (ma_other_chunks ma) * sizeof_arena_chunk"

text \<open>The chunk iterator: -1 is the current chunk, then come the other chunks. The result is the base, null at the end, and the bytes in use.\<close>

definition chunk_current :: "memarena \<Rightarrow> int \<Rightarrow> bytes option \<times> nat" where
  "chunk_current ma idx =
     (if idx < 0 then (ac_buf (ma_current_chunk ma), ac_used (ma_current_chunk ma))
      else if idx < int (length (ma_other_chunks ma))
           then (ac_buf (ma_other_chunks ma ! nat idx), ac_used (ma_other_chunks ma ! nat idx))
      else (None, 0))"

definition chunk_more :: "memarena \<Rightarrow> int \<Rightarrow> bool" where
  "chunk_more ma idx = (if idx < 0 then ac_buf (ma_current_chunk ma) \<noteq> None else idx < int (length (ma_other_chunks ma)))"

text \<open>\<open>memcpy\<close> into an allocation of the current chunk.\<close>

definition arena_write :: "nat \<Rightarrow> bytes \<Rightarrow> memarena \<Rightarrow> memarena" where
  "arena_write off data ma =
     ma\<lparr>ma_current_chunk := (ma_current_chunk ma)
       \<lparr>ac_buf := map_option (\<lambda>buf. take off buf @ data @ drop (off + length data) buf) (ac_buf (ma_current_chunk ma))\<rparr>\<rparr>"

subsection \<open>Records\<close>

definition MAX_KEY_SIZE :: nat where
  "MAX_KEY_SIZE = 2 ^ 16"

record record_header =
  left_neg_inf :: bool
  left_pos_inf :: bool
  right_pos_inf :: bool
  right_neg_inf :: bool
  left_key_size :: "16 word"
  right_key_size :: "16 word"

definition left_is_infinite :: "record_header \<Rightarrow> bool" where
  "left_is_infinite h = (left_neg_inf h \<or> left_pos_inf h)"

definition right_is_infinite :: "record_header \<Rightarrow> bool" where
  "right_is_infinite h = (right_neg_inf h \<or> right_pos_inf h)"

definition header_init :: "DBT \<Rightarrow> DBT option \<Rightarrow> record_header" where
  "header_init left_key right_key =
     \<lparr>left_neg_inf = (left_key = NegInf), left_pos_inf = (left_key = PosInf),
      right_pos_inf = (case right_key of Some r \<Rightarrow> r = PosInf | None \<Rightarrow> left_key = PosInf),
      right_neg_inf = (case right_key of Some r \<Rightarrow> r = NegInf | None \<Rightarrow> left_key = NegInf),
      left_key_size = (if toku_dbt_is_infinite left_key then 0 else of_nat (dbt_size left_key)),
      right_key_size = (case right_key of Some r \<Rightarrow> if toku_dbt_is_infinite r then 0 else of_nat (dbt_size r) | None \<Rightarrow> 0)\<rparr>"

text \<open>The header is copied to and from the buffer as it lies in memory: four flags and two 16-bit sizes, eight bytes in all.\<close>

definition sizeof_record_header :: nat where
  "sizeof_record_header = 8"

definition header_bytes :: "record_header \<Rightarrow> bytes" where
  "header_bytes h =
     [of_bool (left_neg_inf h), of_bool (left_pos_inf h), of_bool (right_pos_inf h), of_bool (right_neg_inf h)]
       @ le_bytes 2 (left_key_size h) @ le_bytes 2 (right_key_size h)"

definition header_of_bytes :: "bytes \<Rightarrow> record_header" where
  "header_of_bytes b =
     \<lparr>left_neg_inf = b ! 0 \<noteq> 0, left_pos_inf = b ! 1 \<noteq> 0, right_pos_inf = b ! 2 \<noteq> 0, right_neg_inf = b ! 3 \<noteq> 0,
      left_key_size = le_word (take 2 (drop 4 b)), right_key_size = le_word (take 2 (drop 6 b))\<rparr>"

record rb_record =
  rec_header :: record_header
  rec_left_key :: DBT
  rec_right_key :: DBT

definition rec_get_left_key :: "rb_record \<Rightarrow> DBT" where
  "rec_get_left_key rec =
     (if left_neg_inf (rec_header rec) then NegInf else if left_pos_inf (rec_header rec) then PosInf else rec_left_key rec)"

definition rec_get_right_key :: "rb_record \<Rightarrow> DBT" where
  "rec_get_right_key rec =
     (if right_neg_inf (rec_header rec) then NegInf else if right_pos_inf (rec_header rec) then PosInf else rec_right_key rec)"

definition rec_size :: "rb_record \<Rightarrow> nat" where
  "rec_size rec = sizeof_record_header + unat (left_key_size (rec_header rec)) + unat (right_key_size (rec_header rec))"

text \<open>
  \<open>deserialize\<close> on the bytes \<open>buf\<close> at address \<open>addr\<close>. It overwrites a record that may have been used before, and keeps the parts of it
  that it does not assign.
\<close>

definition deserialize :: "nat \<Rightarrow> bytes \<Rightarrow> rb_record \<Rightarrow> rb_record" where
  "deserialize addr buf rec =
     (let h = header_of_bytes (take sizeof_record_header buf);
          cur = sizeof_record_header;
          rec = rec\<lparr>rec_header := h\<rparr>;
          (rec, cur) =
            (if \<not> left_is_infinite h
             then (rec\<lparr>rec_left_key := Dbt (addr + cur) (take (unat (left_key_size h)) (drop cur buf))\<rparr>, cur + unat (left_key_size h))
             else (rec, cur))
      in if \<not> right_is_infinite h then
           if right_key_size h = 0 then rec\<lparr>rec_right_key := rec_left_key rec\<rparr>
           else rec\<lparr>rec_right_key := Dbt (addr + cur) (take (unat (right_key_size h)) (drop cur buf))\<rparr>
         else rec)"

subsection \<open>Range buffers and their iterators\<close>

record range_buffer =
  rb_arena :: memarena
  rb_num_ranges :: nat

definition rb_create :: range_buffer where
  "rb_create = \<lparr>rb_arena = memarena_create 0, rb_num_ranges = 0\<rparr>"

definition append_range :: "DBT \<Rightarrow> DBT \<Rightarrow> memarena \<Rightarrow> memarena option" where
  "append_range left_key right_key ma = do {
     let record_length = sizeof_record_header + dbt_size left_key + dbt_size right_key;
     (buf, ma) \<leftarrow> malloc_from_arena record_length ma;
     let h = header_init left_key (Some right_key);
     let ma = arena_write buf (header_bytes h) ma;
     let buf = buf + sizeof_record_header;
     let (ma, buf) = (if \<not> left_is_infinite h then (arena_write buf (dbt_data left_key) ma, buf + dbt_size left_key) else (ma, buf));
     Some (if \<not> right_is_infinite h then arena_write buf (dbt_data right_key) ma else ma)
   }"

definition append_point :: "DBT \<Rightarrow> memarena \<Rightarrow> memarena option" where
  "append_point key ma = do {
     let record_length = sizeof_record_header + dbt_size key;
     (buf, ma) \<leftarrow> malloc_from_arena record_length ma;
     let h = header_init key None;
     let ma = arena_write buf (header_bytes h) ma;
     let buf = buf + sizeof_record_header;
     Some (if \<not> left_is_infinite h then arena_write buf (dbt_data key) ma else ma)
   }"

definition rb_append :: "DBT \<Rightarrow> DBT \<Rightarrow> range_buffer \<Rightarrow> range_buffer option" where
  "rb_append left_key right_key b = do {
     ma \<leftarrow> (if toku_dbt_equals left_key right_key then do {
         ensure (dbt_size left_key \<le> MAX_KEY_SIZE);
         append_point left_key (rb_arena b)
       } else do {
         ensure (dbt_size left_key \<le> MAX_KEY_SIZE);
         ensure (dbt_size right_key \<le> MAX_KEY_SIZE);
         append_range left_key right_key (rb_arena b)
       });
     Some (b\<lparr>rb_arena := ma, rb_num_ranges := rb_num_ranges b + 1\<rparr>)
   }"

definition rb_total_memory_size :: "range_buffer \<Rightarrow> nat" where
  "rb_total_memory_size b = total_size_in_use (rb_arena b)"

definition rb_is_empty :: "range_buffer \<Rightarrow> bool" where
  "rb_is_empty b = (rb_total_memory_size b = 0)"

definition rb_destroy :: "range_buffer \<Rightarrow> range_buffer" where
  "rb_destroy b = b\<lparr>rb_arena := memarena_destroy (rb_arena b)\<rparr>"

record rb_iterator =
  it_chunk_idx :: int
  it_chunk_base :: "bytes option"
  it_chunk_offset :: nat
  it_chunk_max :: nat
  it_rec_size :: nat

definition reset_current_chunk :: "memarena \<Rightarrow> rb_iterator \<Rightarrow> rb_iterator" where
  "reset_current_chunk ma it =
     (let (base, used) = chunk_current ma (it_chunk_idx it)
      in it\<lparr>it_chunk_base := base, it_chunk_max := used, it_chunk_offset := 0\<rparr>)"

definition iterator_create :: "range_buffer \<Rightarrow> rb_iterator" where
  "iterator_create b =
     reset_current_chunk (rb_arena b)
       \<lparr>it_chunk_idx = - 1, it_chunk_base = None, it_chunk_offset = 0, it_chunk_max = 0, it_rec_size = 0\<rparr>"

text \<open>\<open>current\<close> returns no record at the end. The base of a chunk is given address 1.\<close>

definition iterator_current :: "rb_iterator \<Rightarrow> rb_record \<Rightarrow> (rb_record \<times> rb_iterator) option" where
  "iterator_current it rec =
     (if it_chunk_offset it < it_chunk_max it then
        let buf = (case it_chunk_base it of Some b \<Rightarrow> b | None \<Rightarrow> []);
            rec = deserialize (1 + it_chunk_offset it) (drop (it_chunk_offset it) buf) rec
        in Some (rec, it\<lparr>it_rec_size := rec_size rec\<rparr>)
      else None)"

definition iterator_next :: "memarena \<Rightarrow> rb_iterator \<Rightarrow> rb_iterator option" where
  "iterator_next ma it = do {
     ensure (it_chunk_offset it < it_chunk_max it);
     ensure (it_rec_size it > 0);
     let it = it\<lparr>it_chunk_offset := it_chunk_offset it + it_rec_size it, it_rec_size := 0\<rparr>;
     Some (if it_chunk_offset it \<ge> it_chunk_max it \<and> chunk_more ma (it_chunk_idx it)
           then reset_current_chunk ma (it\<lparr>it_chunk_idx := it_chunk_idx it + 1\<rparr>)
           else it)
   }"

text \<open>
  The loop \<open>while (iter.current(&rec)) { ...; iter.next(); }\<close> of the clients: the keys of the records in the order in which it meets them. The record is
  not initialised before the loop, \<open>rec\<close> is what it happens to contain.
\<close>

lemma rec_size_pos: "0 < rec_size rec"
  by (simp add: rec_size_def sizeof_record_header_def)

lemma rec_size_advances: "off < m \<Longrightarrow> m - (off + rec_size rec) < m - off"
  using rec_size_pos [of rec] by linarith

function rb_loop :: "memarena \<Rightarrow> rb_iterator \<Rightarrow> rb_record \<Rightarrow> (DBT \<times> DBT) list option" where
  "rb_loop ma it rec =
     (case iterator_current it rec of
        None \<Rightarrow> Some []
      | Some (rec, it) \<Rightarrow> do {
          it \<leftarrow> iterator_next ma it;
          rs \<leftarrow> rb_loop ma it rec;
          Some ((rec_get_left_key rec, rec_get_right_key rec) # rs)
        })"
  by pat_completeness auto
termination
proof (relation "measures [\<lambda>(ma, it, rec). nat (int (length (ma_other_chunks ma)) - it_chunk_idx it), \<lambda>(ma, it, rec). it_chunk_max it - it_chunk_offset it]")
  show "wf (measures [\<lambda>(ma, it, rec). nat (int (length (ma_other_chunks ma)) - it_chunk_idx it), \<lambda>(ma, it, rec). it_chunk_max it - it_chunk_offset it])"
    by simp
qed (auto simp: iterator_current_def iterator_next_def Let_def rec_size_pos rec_size_advances chunk_more_def reset_current_chunk_def case_prod_beta split: if_splits)

declare rb_loop.simps [simp del]

definition rb_ranges :: "range_buffer \<Rightarrow> rb_record \<Rightarrow> (DBT \<times> DBT) list option" where
  "rb_ranges b rec = rb_loop (rb_arena b) (iterator_create b) rec"

end
