(* ===== verification/Range_Buffer_Props.thy ===== *)
theory Range_Buffer_Props
  imports Range_Buffer "HOL-Library.Multiset"
begin

text \<open>
  A range buffer gives back the ranges that were appended to it, each once, whatever chunks they went to: the encoding of a
  range is decoded again, a chunk is a sequence of encodings, and appending either extends the current chunk or opens a new one. The
  order changes when a chunk is full, because iteration starts with the current chunk.
\<close>

subsection \<open>Page rounding\<close>

lemma unat_of_nat_small: "n < 2 ^ 64 \<Longrightarrow> unat (of_nat n :: 64 word) = n"
  by (simp add: unat_of_nat)

lemma and_not_mask12: "(w :: 64 word) AND NOT 4095 = push_bit 12 (drop_bit 12 w)"
proof -
  have m: "(4095 :: 64 word) = mask 12" by (simp add: mask_eq_exp_minus_1)
  show ?thesis unfolding m by (rule bit_word_eqI) (auto simp: bit_simps)
qed

lemma round_to_page_ok:
  assumes "0 < n" "n < 2 ^ 63"
  obtains r where "round_to_page (of_nat n) = Some r" "n \<le> unat r" "unat r < n + 4096" "4096 dvd unat r"
proof -
  let ?w = "of_nat n - 1 :: 64 word" and ?q = "4096 * ((n - 1) div 4096)"
  have w: "?w = of_nat (n - 1)" using assms(1) by (simp add: of_nat_diff)
  have uw: "unat ?w = n - 1" unfolding w using assms by (intro unat_of_nat_small) simp
  have q: "?q \<le> n - 1" "n - 1 < ?q + 4096"
    using mult_div_mod_eq [of 4096 "n - 1"] mod_less_divisor [of 4096 "n - 1"] by linarith+
  have "unat (?w AND NOT 4095) = take_bit 64 (push_bit 12 (drop_bit 12 (take_bit 64 (n - 1))))"
    unfolding and_not_mask12 unsigned_push_bit_eq unsigned_drop_bit_eq uw by simp
  also have "\<dots> = ?q" using q assms by (simp add: push_bit_eq_mult drop_bit_eq_div take_bit_nat_eq_self)
  finally have "unat (?w AND NOT 4095) = ?q" .
  then have m: "?w AND NOT 4095 = of_nat ?q" by (metis of_nat_unat ucast_id)
  let ?r = "of_nat (4096 + ?q) :: 64 word"
  have r: "4096 + (?w AND NOT 4095) = ?r" unfolding m by simp
  have ur: "unat ?r = 4096 + ?q" using q assms by (intro unat_of_nat_small) simp
  have "?r AND 4095 = take_bit 12 ?r" by (simp add: take_bit_eq_mask mask_eq_exp_minus_1)
  also have "\<dots> = of_nat (take_bit 12 (4096 + ?q))" by (rule take_bit_of_nat)
  also have "take_bit 12 (4096 + ?q) = 0" by (simp add: take_bit_eq_mod)
  finally have a: "?r AND 4095 = 0" by simp
  have b: "of_nat n \<le> ?r" "?r < of_nat n + 4096"
  proof -
    have "(of_nat n + 4096 :: 64 word) = of_nat (n + 4096)" by simp
    moreover have "unat (of_nat (n + 4096) :: 64 word) = n + 4096" "unat (of_nat n :: 64 word) = n" using assms by (intro unat_of_nat_small; simp)+
    ultimately show "of_nat n \<le> ?r" "?r < of_nat n + 4096" using ur q assms(1) by (simp_all add: word_le_nat_alt word_less_nat_alt)
  qed
  have "round_to_page (of_nat n) = Some ?r"
    unfolding round_to_page_def Let_def using r a b by simp
  then show thesis by (rule that) (use ur q assms(1) in simp_all)
qed

subsection \<open>Encodings\<close>

definition encode_range :: "DBT \<Rightarrow> DBT \<Rightarrow> bytes" where
  "encode_range l r =
     (if toku_dbt_equals l r then header_bytes (header_init l None) @ (if toku_dbt_is_infinite l then [] else dbt_data l)
      else header_bytes (header_init l (Some r)) @ (if toku_dbt_is_infinite l then [] else dbt_data l)
        @ (if toku_dbt_is_infinite r then [] else dbt_data r))"

text \<open>The ranges that can be stored: keys of less than 65536 bytes, and an empty right key only with an empty left key.\<close>

definition storable :: "DBT \<Rightarrow> DBT \<Rightarrow> bool" where
  "storable l r \<longleftrightarrow> dbt_size l < 2 ^ 16 \<and> dbt_size r < 2 ^ 16 \<and> (keyof r = Point [] \<longrightarrow> keyof l = Point []) \<and>
     (toku_dbt_equals l r \<longrightarrow> keyof l = keyof r)"

lemma length_header_bytes [simp]: "length (header_bytes h) = 8"
  by (simp add: header_bytes_def)

lemma header_roundtrip [simp]: "header_of_bytes (header_bytes h) = h"
  by (simp add: header_of_bytes_def header_bytes_def le_word_le_bytes numeral_2_eq_2 [symmetric] nth_Cons')

lemma header_infinite [simp]:
  "left_is_infinite (header_init l r) = toku_dbt_is_infinite l"
  "right_is_infinite (header_init l (Some r')) = toku_dbt_is_infinite r'"
  "right_is_infinite (header_init l None) = toku_dbt_is_infinite l"
proof -
  show "left_is_infinite (header_init l r) = toku_dbt_is_infinite l" by (cases l) (simp_all add: left_is_infinite_def header_init_def)
  show "right_is_infinite (header_init l (Some r')) = toku_dbt_is_infinite r'" by (cases r') (simp_all add: right_is_infinite_def header_init_def)
  show "right_is_infinite (header_init l None) = toku_dbt_is_infinite l" by (cases l) (simp_all add: right_is_infinite_def header_init_def)
qed

lemma dbt_size_data: "\<not> toku_dbt_is_infinite l \<Longrightarrow> dbt_size l = length (dbt_data l)" "toku_dbt_is_infinite l \<Longrightarrow> dbt_size l = 0"
  by (cases l; simp)+

lemma length_encode: "length (encode_range l r) = 8 + dbt_size l + (if toku_dbt_equals l r then 0 else dbt_size r)"
  by (cases l; cases r) (simp_all add: encode_range_def toku_dbt_equals_def)

lemma unat_key_size: "n < 2 ^ 16 \<Longrightarrow> unat (of_nat n :: 16 word) = n"
  by (simp add: unat_of_nat)

text \<open>What decoding gives back: the same keys, though in other buffers, and ends that share a buffer only when they are the same.\<close>

definition same_range :: "DBT \<times> DBT \<Rightarrow> interval \<Rightarrow> bool" where
  "same_range p i \<longleftrightarrow> (keyof (fst p), keyof (snd p)) = i \<and> (toku_dbt_equals (fst p) (snd p) \<longrightarrow> fst i = snd i)"

lemma deserialize_header: "rec_header (deserialize addr (header_bytes h @ body) rec) = h"
  by (simp add: deserialize_def Let_def sizeof_record_header_def)

lemma deserialize_left:
  "rec_get_left_key (deserialize addr (header_bytes h @ body) rec) =
     (if left_neg_inf h then NegInf else if left_pos_inf h then PosInf else Dbt (addr + 8) (take (unat (left_key_size h)) body))"
  unfolding rec_get_left_key_def deserialize_header
  by (simp add: deserialize_def Let_def sizeof_record_header_def left_is_infinite_def)

lemma deserialize_right:
  "rec_get_right_key (deserialize addr (header_bytes h @ body) rec) =
     (let ls = (if left_is_infinite h then 0 else unat (left_key_size h)) in
      if right_neg_inf h then NegInf else if right_pos_inf h then PosInf
      else if right_key_size h = 0 then (if left_is_infinite h then rec_left_key rec else Dbt (addr + 8) (take ls body))
      else Dbt (addr + (8 + ls)) (take (unat (right_key_size h)) (drop ls body)))"
  unfolding rec_get_right_key_def deserialize_header
  by (simp add: deserialize_def Let_def sizeof_record_header_def right_is_infinite_def)

lemma header_flags [simp]:
  "left_neg_inf (header_init l x) = (l = NegInf)" "left_pos_inf (header_init l x) = (l = PosInf)"
  "right_neg_inf (header_init l (Some r)) = (r = NegInf)" "right_pos_inf (header_init l (Some r)) = (r = PosInf)"
  "right_neg_inf (header_init l None) = (l = NegInf)" "right_pos_inf (header_init l None) = (l = PosInf)"
  "right_key_size (header_init l None) = 0"
  by (simp_all add: header_init_def)

lemma header_sizes:
  "dbt_size l < 2 ^ 16 \<Longrightarrow> unat (left_key_size (header_init l x)) = dbt_size l"
  "dbt_size r < 2 ^ 16 \<Longrightarrow> unat (right_key_size (header_init l (Some r))) = dbt_size r"
  "dbt_size r < 2 ^ 16 \<Longrightarrow> right_key_size (header_init l (Some r)) = 0 \<longleftrightarrow> dbt_size r = 0"
proof -
  show "unat (left_key_size (header_init l x)) = dbt_size l" if "dbt_size l < 2 ^ 16"
    using unat_key_size [OF that] by (cases "toku_dbt_is_infinite l") (simp_all only: header_init_def record_header.simps if_P if_not_P simp_thms if_True if_False unsigned_0 dbt_size_data)
  show r: "unat (right_key_size (header_init l (Some r))) = dbt_size r" if "dbt_size r < 2 ^ 16"
    using unat_key_size [OF that] by (cases "toku_dbt_is_infinite r") (simp_all only: header_init_def record_header.simps option.case simp_thms if_True if_False unsigned_0 dbt_size_data)
  show "right_key_size (header_init l (Some r)) = 0 \<longleftrightarrow> dbt_size r = 0" if "dbt_size r < 2 ^ 16"
    unfolding r [OF that, symmetric] by (simp only: unat_eq_0)
qed

lemma deserialize_ok:
  assumes "storable l r"
  shows "same_range (rec_get_left_key (deserialize addr (encode_range l r @ rest) rec), rec_get_right_key (deserialize addr (encode_range l r @ rest) rec))
      (keyof l, keyof r)"
    "rec_size (deserialize addr (encode_range l r @ rest) rec) = length (encode_range l r)"
proof -
  have l: "unat (left_key_size (header_init l x)) = dbt_size l" for x using assms header_sizes(1) unfolding storable_def by blast
  have r: "unat (right_key_size (header_init l (Some r))) = dbt_size r" "right_key_size (header_init l (Some r)) = 0 \<longleftrightarrow> dbt_size r = 0"
    using assms header_sizes(2,3) unfolding storable_def by blast+
  have eq: "keyof l = keyof r" if "toku_dbt_equals l r" using assms that unfolding storable_def by blast
  have empty: "keyof r = Point [] \<Longrightarrow> keyof l = Point []" using assms unfolding storable_def by blast
  show "same_range (rec_get_left_key (deserialize addr (encode_range l r @ rest) rec), rec_get_right_key (deserialize addr (encode_range l r @ rest) rec))
      (keyof l, keyof r)"
  proof (cases "toku_dbt_equals l r")
    case True
    show ?thesis
      unfolding encode_range_def if_P [OF True] append_assoc deserialize_left deserialize_right eq [OF True, symmetric] l
      by (cases l) (simp_all add: same_range_def Let_def left_is_infinite_def)
  next
    case False
    show ?thesis
      unfolding encode_range_def if_not_P [OF False] append_assoc deserialize_left deserialize_right l r using False empty
      by (cases l; cases r) (auto simp: same_range_def Let_def left_is_infinite_def toku_dbt_equals_def)
  qed
  show "rec_size (deserialize addr (encode_range l r @ rest) rec) = length (encode_range l r)"
  proof (cases "toku_dbt_equals l r")
    case True
    show ?thesis
      unfolding rec_size_def length_encode encode_range_def if_P [OF True] append_assoc deserialize_header l
      by (simp add: sizeof_record_header_def dbt_size_data)
  next
    case False
    show ?thesis
      unfolding rec_size_def length_encode encode_range_def if_not_P [OF False] append_assoc deserialize_header l r
      by (simp add: sizeof_record_header_def dbt_size_data)
  qed
qed

subsection \<open>Allocation\<close>

definition chunk_holds :: "arena_chunk \<Rightarrow> bytes \<Rightarrow> bool" where
  "chunk_holds ch d \<longleftrightarrow> ac_buf ch = Some d \<and> ac_used ch = length d \<and> d \<noteq> [] \<and> length d \<le> ac_size ch"

text \<open>\<open>arena_holds ma cur os\<close>: the contents of the current chunk, none when nothing was allocated yet, and of the other chunks.\<close>

definition arena_holds :: "memarena \<Rightarrow> bytes \<Rightarrow> bytes list \<Rightarrow> bool" where
  "arena_holds ma cur os \<longleftrightarrow>
     (if cur = [] then os = [] \<and> ma_current_chunk ma = null_chunk else chunk_holds (ma_current_chunk ma) cur) \<and>
     list_all2 chunk_holds (ma_other_chunks ma) os \<and> ma_size_of_other_chunks ma = sum_list (map ac_size (ma_other_chunks ma))"

lemma arena_holds_create: "arena_holds (memarena_create 0) [] []"
  by (simp add: arena_holds_def memarena_create_def null_chunk_def)

definition arena_put :: "bytes \<Rightarrow> memarena \<Rightarrow> memarena option" where
  "arena_put d ma = do {
     (off, ma) \<leftarrow> malloc_from_arena (length d) ma;
     Some (arena_write off d ma)
   }"

lemma arena_write_write:
  assumes "ac_buf (ma_current_chunk ma) = Some buf" "off + length a + length b \<le> length buf"
  shows "arena_write (off + length a) b (arena_write off a ma) = arena_write off (a @ b) ma"
  using assms by (simp add: arena_write_def ac_simps)

lemma malloc_from_arena_ok:
  assumes "arena_holds ma cur os" "0 < n" "n < 2 ^ 62"
  obtains off ma' cur' os' where "malloc_from_arena n ma = Some (off, ma')" "ac_buf (ma_current_chunk ma') = Some (cur' @ replicate n 0)" "off = length cur'"
    "\<And>d. length d = n \<Longrightarrow> arena_holds (arena_write off d ma') (cur' @ d) os'"
    "cur' = cur \<and> os' = os \<or> cur' = [] \<and> os' = os @ [cur] \<and> cur \<noteq> []"
proof -
  let ?cur = "ma_current_chunk ma"
  show thesis
  proof (cases "ac_buf ?cur = None \<or> ac_size ?cur < ac_used ?cur + n")
    case False
    then have "cur \<noteq> []" using assms(1) by (auto simp: arena_holds_def null_chunk_def)
    then have c: "ac_buf ?cur = Some cur" "ac_used ?cur = length cur" using assms(1) by (auto simp: arena_holds_def chunk_holds_def)
    let ?ma = "ma\<lparr>ma_current_chunk := ?cur\<lparr>ac_buf := Some (cur @ replicate n 0), ac_used := ac_used ?cur + n\<rparr>\<rparr>"
    have "malloc_from_arena n ma = Some (length cur, ?ma)" using False c by (simp add: malloc_from_arena_def Let_def)
    then show thesis
      by (rule that [of _ _ cur os]) (use False c assms(1,2) \<open>cur \<noteq> []\<close> in \<open>auto simp: arena_holds_def chunk_holds_def arena_write_def\<close>)
  next
    case True
    let ?sz = "max n (min MEMARENA_MAX_CHUNK_SIZE (2 * ac_size ?cur))"
    have "0 < ?sz" "?sz < 2 ^ 63" using assms(2,3) by (simp_all add: MEMARENA_MAX_CHUNK_SIZE_def)
    then obtain r where r: "round_to_page (of_nat ?sz) = Some r" "?sz \<le> unat r" by (rule round_to_page_ok)
    have m: "(if min MEMARENA_MAX_CHUNK_SIZE (2 * ac_size ?cur) < n then n else min MEMARENA_MAX_CHUNK_SIZE (2 * ac_size ?cur)) = ?sz" by auto
    let ?new = "\<lparr>ac_buf = Some (replicate n 0), ac_used = n, ac_size = unat r\<rparr>"
    show thesis
    proof (cases "cur = []")
      case empty: True
      then have "?cur = null_chunk" "ma_other_chunks ma = []" "os = []" using assms(1) by (auto simp: arena_holds_def)
      have "malloc_from_arena n ma = Some (0, ma\<lparr>ma_current_chunk := ?new\<rparr>)"
        using True assms(2) r(1) m \<open>?cur = null_chunk\<close> by (simp add: malloc_from_arena_def Let_def null_chunk_def)
      then show thesis
        by (rule that [of _ _ "[]" "[]"])
          (use empty assms r(2) \<open>ma_other_chunks ma = []\<close> \<open>os = []\<close> in \<open>auto simp: arena_holds_def chunk_holds_def arena_write_def\<close>)
    next
      case full: False
      then have c: "chunk_holds ?cur cur" "list_all2 chunk_holds (ma_other_chunks ma) os" using assms(1) by (auto simp: arena_holds_def)
      then have b: "ac_buf ?cur = Some cur" "ac_size ?cur > 0" by (cases cur; auto simp: chunk_holds_def)+
      let ?ma = "ma\<lparr>ma_other_chunks := ma_other_chunks ma @ [?cur], ma_size_of_other_chunks := ma_size_of_other_chunks ma + ac_size ?cur, ma_current_chunk := ?new\<rparr>"
      have "malloc_from_arena n ma = Some (0, ?ma)"
        using True r(1) m b by (simp add: malloc_from_arena_def Let_def)
      then show thesis
        by (rule that [of _ _ "[]" "os @ [cur]"])
          (use full assms(1,2) r(2) c in \<open>auto simp: arena_holds_def chunk_holds_def arena_write_def list_all2_appendI\<close>)
    qed
  qed
qed

lemma arena_put_ok:
  assumes "arena_holds ma cur os" "d \<noteq> []" "length d < 2 ^ 62"
  obtains ma' cur' os' where "arena_put d ma = Some ma'" "arena_holds ma' (cur' @ d) os'"
    "cur' = cur \<and> os' = os \<or> cur' = [] \<and> os' = os @ [cur] \<and> cur \<noteq> []"
proof -
  have "0 < length d" using assms(2) by simp
  then show thesis
  proof (rule malloc_from_arena_ok [OF assms(1) _ assms(3)])
    fix off ma' cur' os'
    assume m: "malloc_from_arena (length d) ma = Some (off, ma')" "off = length cur'"
      "\<And>e. length e = length d \<Longrightarrow> arena_holds (arena_write off e ma') (cur' @ e) os'"
      and c: "cur' = cur \<and> os' = os \<or> cur' = [] \<and> os' = os @ [cur] \<and> cur \<noteq> []"
    have "arena_put d ma = Some (arena_write off d ma')" using m(1) by (simp add: arena_put_def)
    then show thesis using m(3) [of d] c by (intro that) simp_all
  qed
qed

text \<open>Appending a range is writing its encoding.\<close>

lemma append_point_put:
  assumes "arena_holds ma cur os" "toku_dbt_equals l r" "dbt_size l \<le> MAX_KEY_SIZE"
  shows "append_point l ma = arena_put (encode_range l r) ma"
proof -
  have n: "sizeof_record_header + dbt_size l = length (encode_range l r)" using assms(2) by (simp add: length_encode sizeof_record_header_def)
  have "0 < length (encode_range l r)" "length (encode_range l r) < 2 ^ 62" using assms(2,3) by (simp_all add: length_encode MAX_KEY_SIZE_def)
  then obtain off ma' cur' where m: "malloc_from_arena (length (encode_range l r)) ma = Some (off, ma')"
    "ac_buf (ma_current_chunk ma') = Some (cur' @ replicate (length (encode_range l r)) 0)" "off = length cur'"
    by (rule malloc_from_arena_ok [OF assms(1)])
  show ?thesis
    using m assms(2) arena_write_write [OF m(2), of off "header_bytes (header_init l None)" "dbt_data l"]
    by (cases "toku_dbt_is_infinite l") (simp_all add: append_point_def arena_put_def n Let_def encode_range_def length_encode dbt_size_data sizeof_record_header_def)
qed

lemma append_range_put:
  assumes "arena_holds ma cur os" "\<not> toku_dbt_equals l r" "dbt_size l \<le> MAX_KEY_SIZE" "dbt_size r \<le> MAX_KEY_SIZE"
  shows "append_range l r ma = arena_put (encode_range l r) ma"
proof -
  have n: "sizeof_record_header + dbt_size l + dbt_size r = length (encode_range l r)" using assms(2) by (simp add: length_encode sizeof_record_header_def)
  have "0 < length (encode_range l r)" "length (encode_range l r) < 2 ^ 62" using assms(2-4) by (simp_all add: length_encode MAX_KEY_SIZE_def)
  then obtain off ma' cur' where m: "malloc_from_arena (length (encode_range l r)) ma = Some (off, ma')"
    "ac_buf (ma_current_chunk ma') = Some (cur' @ replicate (length (encode_range l r)) 0)" "off = length cur'"
    by (rule malloc_from_arena_ok [OF assms(1)])
  let ?h = "header_bytes (header_init l (Some r))"
  have w: "arena_write (off + length a) b (arena_write off a ma') = arena_write off (a @ b) ma'" if "length a + length b \<le> length (encode_range l r)" for a b
    using that arena_write_write [OF m(2)] m(3) by simp
  show ?thesis
    using m(1) assms(2) w [of ?h "dbt_data l"] w [of ?h "dbt_data r"] w [of "?h @ dbt_data l" "dbt_data r"]
    by (cases "toku_dbt_is_infinite l"; cases "toku_dbt_is_infinite r") (simp_all add: append_range_def arena_put_def n Let_def encode_range_def length_encode dbt_size_data sizeof_record_header_def add.assoc)
qed

lemma rb_append_put:
  assumes "arena_holds (rb_arena b) cur os" "dbt_size l \<le> MAX_KEY_SIZE" "dbt_size r \<le> MAX_KEY_SIZE"
  shows "rb_append l r b = map_option (\<lambda>ma. b\<lparr>rb_arena := ma, rb_num_ranges := rb_num_ranges b + 1\<rparr>) (arena_put (encode_range l r) (rb_arena b))"
  using append_point_put [OF assms(1) _ assms(2), of r] append_range_put [OF assms(1) _ assms(2,3)] assms(2,3)
  by (cases "toku_dbt_equals l r"; cases "arena_put (encode_range l r) (rb_arena b)") (simp_all add: rb_append_def)

subsection \<open>Iteration\<close>

definition encodes :: "(DBT \<times> DBT) list \<Rightarrow> bytes" where
  "encodes ps = concat (map (\<lambda>p. encode_range (fst p) (snd p)) ps)"

definition keys_of :: "DBT \<times> DBT \<Rightarrow> interval" where
  "keys_of p = (keyof (fst p), keyof (snd p))"

definition all_storable :: "(DBT \<times> DBT) list \<Rightarrow> bool" where
  "all_storable ps \<longleftrightarrow> (\<forall>p\<in>set ps. storable (fst p) (snd p))"

lemma encodes_simps [simp]: "encodes [] = []" "encodes (p # ps) = encode_range (fst p) (snd p) @ encodes ps" "encodes (ps @ qs) = encodes ps @ encodes qs"
  by (simp_all add: encodes_def)

lemma encode_not_Nil [simp]: "encode_range l r \<noteq> []"
  using length_encode [of l r] by (metis add_is_0 list.size(3) zero_neq_numeral)

lemma encodes_Nil_iff [simp]: "encodes ps = [] \<longleftrightarrow> ps = []"
  by (cases ps) auto

lemma all_storable_simps [simp]:
  "all_storable []" "all_storable (p # ps) \<longleftrightarrow> storable (fst p) (snd p) \<and> all_storable ps" "all_storable (ps @ qs) \<longleftrightarrow> all_storable ps \<and> all_storable qs"
  by (auto simp: all_storable_def)

text \<open>One turn of the loop, at a record that is followed by \<open>rest\<close> in its chunk.\<close>

lemma rb_loop_turn:
  assumes "it_chunk_base it = Some d" "it_chunk_max it = length d" "drop (it_chunk_offset it) d = encode_range l r @ rest" "storable l r"
  obtains rec' where "same_range (rec_get_left_key rec', rec_get_right_key rec') (keyof l, keyof r)"
    "rb_loop ma it rec = map_option ((#) (rec_get_left_key rec', rec_get_right_key rec'))
       (rb_loop ma (let it' = it\<lparr>it_chunk_offset := it_chunk_offset it + length (encode_range l r), it_rec_size := 0\<rparr>
          in if rest = [] \<and> chunk_more ma (it_chunk_idx it) then reset_current_chunk ma (it'\<lparr>it_chunk_idx := it_chunk_idx it + 1\<rparr>) else it') rec')"
proof -
  let ?off = "it_chunk_offset it"
  let ?rec = "deserialize (1 + ?off) (encode_range l r @ rest) rec"
  have len: "length d - ?off = length (encode_range l r) + length rest" using assms(3) by (metis length_append length_drop)
  moreover have pos: "0 < length (encode_range l r)" by simp
  ultimately have "?off < length d" "length d \<le> ?off + length (encode_range l r) \<longleftrightarrow> length rest = 0" by linarith+
  then have off: "?off < length d" "length d \<le> ?off + length (encode_range l r) \<longleftrightarrow> rest = []" by simp_all
  have cur: "iterator_current it rec = Some (?rec, it\<lparr>it_rec_size := length (encode_range l r)\<rparr>)"
    using off(1) assms deserialize_ok(2) [OF assms(4)] by (simp add: iterator_current_def Let_def)
  show thesis
    by (rule that [of ?rec, OF deserialize_ok(1) [OF assms(4)]], subst rb_loop.simps)
      (use cur off pos assms(2) in \<open>simp add: iterator_next_def Let_def map_conv_bind_option comp_def\<close>)
qed

lemma rb_loop_chunk:
  assumes "\<And>rec it. \<exists>out. rb_loop ma (reset_current_chunk ma (it\<lparr>it_chunk_idx := i + 1\<rparr>)) rec = Some out \<and> list_all2 same_range out later"
    and "chunk_more ma i" "ps \<noteq> []" "all_storable ps"
    and "it_chunk_idx it = i" "it_chunk_base it = Some d" "it_chunk_max it = length d" "drop (it_chunk_offset it) d = encodes ps"
  shows "\<exists>out. rb_loop ma it rec = Some out \<and> list_all2 same_range out (map keys_of ps @ later)"
  using assms(3-8)
proof (induction ps arbitrary: it rec)
  case (Cons p ps)
  obtain rec' where turn: "same_range (rec_get_left_key rec', rec_get_right_key rec') (keys_of p)"
    "rb_loop ma it rec = map_option ((#) (rec_get_left_key rec', rec_get_right_key rec'))
       (rb_loop ma (let it' = it\<lparr>it_chunk_offset := it_chunk_offset it + length (encode_range (fst p) (snd p)), it_rec_size := 0\<rparr>
          in if encodes ps = [] \<and> chunk_more ma (it_chunk_idx it) then reset_current_chunk ma (it'\<lparr>it_chunk_idx := it_chunk_idx it + 1\<rparr>) else it') rec')"
    using Cons.prems unfolding keys_of_def
    by (elim rb_loop_turn [of it d "fst p" "snd p" "encodes ps" ma rec, rotated -1]) simp_all
  show ?case
  proof (cases "ps = []")
    case True
    then show ?thesis
      using turn assms(1) [of "it\<lparr>it_chunk_offset := it_chunk_offset it + length (encode_range (fst p) (snd p)), it_rec_size := 0\<rparr>" rec'] assms(2) Cons.prems(3)
      by (auto simp: Let_def)
  next
    case False
    let ?it = "it\<lparr>it_chunk_offset := it_chunk_offset it + length (encode_range (fst p) (snd p)), it_rec_size := 0\<rparr>"
    have "drop (it_chunk_offset ?it) d = encodes ps"
      using Cons.prems(6) drop_drop [of "length (encode_range (fst p) (snd p))" "it_chunk_offset it" d] by (simp add: add.commute)
    then obtain out where "rb_loop ma ?it rec' = Some out" "list_all2 same_range out (map keys_of ps @ later)"
      using Cons.IH [of ?it rec'] False Cons.prems by auto
    then show ?thesis using turn False by (simp add: Let_def)
  qed
qed simp

lemma rb_loop_others:
  assumes "list_all2 chunk_holds (drop n (ma_other_chunks ma)) (map encodes qs)" "all_storable (concat qs)"
  shows "\<exists>out. rb_loop ma (reset_current_chunk ma (it\<lparr>it_chunk_idx := int n\<rparr>)) rec = Some out \<and> list_all2 same_range out (map keys_of (concat qs))"
  using assms
proof (induction qs arbitrary: n it rec)
  case Nil
  then have "length (ma_other_chunks ma) \<le> n" by simp
  then have "iterator_current (reset_current_chunk ma (it\<lparr>it_chunk_idx := int n\<rparr>)) rec = None"
    by (simp add: reset_current_chunk_def chunk_current_def iterator_current_def)
  then show ?case by (subst rb_loop.simps) simp
next
  case (Cons q qs)
  have n: "n < length (ma_other_chunks ma)" using list_all2_lengthD [OF Cons.prems(1)] by simp
  then have "drop n (ma_other_chunks ma) = ma_other_chunks ma ! n # drop (Suc n) (ma_other_chunks ma)" by (rule Cons_nth_drop_Suc [symmetric])
  then have h: "chunk_holds (ma_other_chunks ma ! n) (encodes q)" "list_all2 chunk_holds (drop (Suc n) (ma_other_chunks ma)) (map encodes qs)"
    using Cons.prems(1) by simp_all
  let ?it = "reset_current_chunk ma (it\<lparr>it_chunk_idx := int n\<rparr>)"
  have it: "it_chunk_idx ?it = int n" "it_chunk_base ?it = Some (encodes q)" "it_chunk_max ?it = length (encodes q)" "drop (it_chunk_offset ?it) (encodes q) = encodes q"
    using n h(1) by (simp_all add: reset_current_chunk_def chunk_current_def chunk_holds_def)
  have IH: "\<exists>out. rb_loop ma (reset_current_chunk ma (it\<lparr>it_chunk_idx := int n + 1\<rparr>)) rec = Some out \<and> list_all2 same_range out (map keys_of (concat qs))" for it rec
    using Cons.IH [OF h(2), of it rec] Cons.prems(2) by (simp add: add.commute)
  have "chunk_more ma (int n)" "q \<noteq> []" "all_storable q" using n h(1) Cons.prems(2) by (auto simp: chunk_more_def chunk_holds_def)
  from rb_loop_chunk [OF IH this it] show ?case by simp
qed

text \<open>\<open>rb_holds b cur os\<close>: the ranges in the chunks of a buffer.\<close>

definition rb_holds :: "range_buffer \<Rightarrow> (DBT \<times> DBT) list \<Rightarrow> (DBT \<times> DBT) list list \<Rightarrow> bool" where
  "rb_holds b cur os \<longleftrightarrow> arena_holds (rb_arena b) (encodes cur) (map encodes os) \<and> all_storable (cur @ concat os)"

lemma rb_ranges_holds:
  assumes "rb_holds b cur os"
  shows "\<exists>out. rb_ranges b rec = Some out \<and> list_all2 same_range out (map keys_of (cur @ concat os))"
proof (cases "cur = []")
  case True
  then have "os = []" "ma_current_chunk (rb_arena b) = null_chunk" using assms by (simp_all add: rb_holds_def arena_holds_def)
  then have "iterator_current (iterator_create b) rec = None"
    by (simp add: iterator_create_def reset_current_chunk_def chunk_current_def iterator_current_def null_chunk_def)
  then show ?thesis using True \<open>os = []\<close> by (simp add: rb_ranges_def, subst rb_loop.simps) simp
next
  case False
  let ?ma = "rb_arena b" and ?it = "iterator_create b"
  have h: "chunk_holds (ma_current_chunk ?ma) (encodes cur)" "list_all2 chunk_holds (drop 0 (ma_other_chunks ?ma)) (map encodes os)" "all_storable (concat os)" "all_storable cur"
    using assms False by (simp_all add: rb_holds_def arena_holds_def)
  have others: "\<exists>out. rb_loop ?ma (reset_current_chunk ?ma (it\<lparr>it_chunk_idx := - 1 + 1\<rparr>)) rec = Some out \<and> list_all2 same_range out (map keys_of (concat os))" for it rec
    using rb_loop_others [OF h(2,3), of it rec] by simp
  have it: "it_chunk_idx ?it = - 1" "it_chunk_base ?it = Some (encodes cur)" "it_chunk_max ?it = length (encodes cur)" "drop (it_chunk_offset ?it) (encodes cur) = encodes cur"
    using h(1) by (simp_all add: iterator_create_def reset_current_chunk_def chunk_current_def chunk_holds_def)
  have "chunk_more ?ma (- 1)" using h(1) by (simp add: chunk_more_def chunk_holds_def)
  from rb_loop_chunk [OF others this False h(4) it] show ?thesis by (simp add: rb_ranges_def)
qed

lemma rb_append_holds:
  assumes "rb_holds b cur os" "storable l r"
  obtains b' cur' os' where "rb_append l r b = Some b'" "rb_holds b' cur' os'" "mset (cur' @ concat os') = add_mset (l, r) (mset (cur @ concat os))"
    "rb_num_ranges b' = rb_num_ranges b + 1"
proof -
  have sz: "dbt_size l \<le> MAX_KEY_SIZE" "dbt_size r \<le> MAX_KEY_SIZE" "length (encode_range l r) < 2 ^ 62"
    using assms(2) by (simp_all add: storable_def MAX_KEY_SIZE_def length_encode)
  have ah: "arena_holds (rb_arena b) (encodes cur) (map encodes os)" using assms(1) by (simp add: rb_holds_def)
  obtain ma' c' o' where put: "arena_put (encode_range l r) (rb_arena b) = Some ma'" "arena_holds ma' (c' @ encode_range l r) o'"
    "c' = encodes cur \<and> o' = map encodes os \<or> c' = [] \<and> o' = map encodes os @ [encodes cur] \<and> encodes cur \<noteq> []"
    by (rule arena_put_ok [OF ah encode_not_Nil sz(3)])
  let ?b = "b\<lparr>rb_arena := ma', rb_num_ranges := rb_num_ranges b + 1\<rparr>"
  have app: "rb_append l r b = Some ?b" using rb_append_put [OF ah sz(1,2)] put(1) by simp
  from put(3) show thesis
  proof
    assume "c' = encodes cur \<and> o' = map encodes os"
    then have "rb_holds ?b (cur @ [(l, r)]) os" using put(2) assms by (simp add: rb_holds_def)
    then show thesis using that [OF app] by simp
  next
    assume "c' = [] \<and> o' = map encodes os @ [encodes cur] \<and> encodes cur \<noteq> []"
    then have "rb_holds ?b [(l, r)] (os @ [cur])" using put(2) assms by (simp add: rb_holds_def)
    then show thesis using that [OF app] by simp
  qed
qed

lemma rb_create_holds: "rb_holds rb_create [] []"
  by (simp add: rb_holds_def rb_create_def arena_holds_create)

lemma rb_empty_holds: "rb_holds b cur os \<Longrightarrow> rb_is_empty b \<longleftrightarrow> cur @ concat os = []"
  by (cases "cur = []") (auto simp: rb_holds_def arena_holds_def rb_is_empty_def rb_total_memory_size_def total_size_in_use_def null_chunk_def chunk_holds_def)

subsection \<open>Properties\<close>

definition rb_append_all :: "(DBT \<times> DBT) list \<Rightarrow> range_buffer \<Rightarrow> range_buffer option" where
  "rb_append_all ps b = fold (\<lambda>p m. Option.bind m (rb_append (fst p) (snd p))) ps (Some b)"

lemma rb_append_all_holds:
  assumes "rb_holds b cur os" "all_storable ps"
  shows "\<exists>b' cur' os'. rb_append_all ps b = Some b' \<and> rb_holds b' cur' os' \<and> mset (cur' @ concat os') = mset ps + mset (cur @ concat os) \<and>
    rb_num_ranges b' = rb_num_ranges b + length ps"
  using assms
proof (induction ps arbitrary: b cur os)
  case (Cons p ps)
  obtain b1 cur1 os1 where one: "rb_append (fst p) (snd p) b = Some b1" "rb_holds b1 cur1 os1"
    "mset (cur1 @ concat os1) = add_mset p (mset (cur @ concat os))" "rb_num_ranges b1 = rb_num_ranges b + 1"
    using rb_append_holds [OF Cons.prems(1), of "fst p" "snd p"] Cons.prems(2) by auto
  have "rb_append_all (p # ps) b = rb_append_all ps b1" using one(1) by (simp add: rb_append_all_def)
  then show ?case using Cons.IH [OF one(2)] Cons.prems(2) one(3,4) by simp
qed (auto simp: rb_append_all_def)

lemma same_range_mset: "list_all2 same_range out is \<Longrightarrow> map keys_of out = is"
  by (induction rule: list_all2_induct) (auto simp: same_range_def keys_of_def)

text \<open>
  C31. Ranges go through a range buffer unharmed. Appending any list of ranges with keys below 65536 bytes (and no range that ends at the empty
  key without starting there) to a new buffer fires no assertion, counts them, and iterating over the buffer yields the same ranges, each as
  often as it was appended, however the arena has spread them over its chunks and whatever the record variable contained
  before the loop. The buffer is empty only if nothing was appended.
\<close>

theorem range_buffer_roundtrip:
  assumes "all_storable ps"
  shows "\<exists>b out. rb_append_all ps rb_create = Some b \<and> rb_num_ranges b = length ps \<and> (rb_is_empty b \<longleftrightarrow> ps = []) \<and>
    rb_ranges b rec = Some out \<and> mset (map keys_of out) = mset (map keys_of ps)"
proof -
  obtain b cur os where b: "rb_append_all ps rb_create = Some b" "rb_holds b cur os" "mset (cur @ concat os) = mset ps" "rb_num_ranges b = length ps"
    using rb_append_all_holds [OF rb_create_holds assms] by (auto simp: rb_create_def)
  obtain out where out: "rb_ranges b rec = Some out" "map keys_of out = map keys_of (cur @ concat os)"
    using rb_ranges_holds [OF b(2)] same_range_mset by blast
  have "mset (map keys_of out) = mset (map keys_of ps)" unfolding out(2) mset_map b(3) ..
  moreover have "rb_is_empty b \<longleftrightarrow> ps = []" using rb_empty_holds [OF b(2)] b(3) by (metis mset_zero_iff)
  ultimately show ?thesis using b(1,4) out(1) by blast
qed

theorem range_buffer_roundtrip_witness:
  "\<exists>b out. rb_append_all [(NegInf, Dbt 7 [1, 2]), (Dbt 5 [3], Dbt 5 [3]), (Dbt 6 [], PosInf)] rb_create = Some b \<and> rb_num_ranges b = 3 \<and>
     rb_ranges b \<lparr>rec_header = header_init NegInf None, rec_left_key = PosInf, rec_right_key = PosInf\<rparr> = Some out \<and>
     mset (map keys_of out) = {#(MinusInf, Point [1, 2]), (Point [3], Point [3]), (Point [], PlusInf)#}"
proof -
  have "all_storable [(NegInf, Dbt 7 [1, 2]), (Dbt 5 [3], Dbt 5 [3]), (Dbt 6 [], PosInf)]"
    by (simp add: storable_def toku_dbt_equals_def)
  from range_buffer_roundtrip [OF this, of "\<lparr>rec_header = header_init NegInf None, rec_left_key = PosInf, rec_right_key = PosInf\<rparr>"]
  show ?thesis by (auto simp: keys_of_def)
qed

lemma append_first:
  assumes "dbt_size l \<le> MAX_KEY_SIZE" "dbt_size r \<le> MAX_KEY_SIZE"
  obtains b rest where "rb_append l r rb_create = Some b" "iterator_current (iterator_create b) rec = Some (deserialize 1 (encode_range l r) rec, rest)"
proof -
  have ah: "arena_holds (rb_arena rb_create) [] []" by (simp add: rb_create_def arena_holds_create)
  have "length (encode_range l r) < 2 ^ 62" using assms by (simp add: length_encode MAX_KEY_SIZE_def)
  then obtain ma where put: "arena_put (encode_range l r) (rb_arena rb_create) = Some ma" "arena_holds ma (encode_range l r) []"
    using arena_put_ok [OF ah encode_not_Nil] by (metis append_Nil)
  then show thesis using that rb_append_put [OF ah assms]
    by (auto simp: arena_holds_def chunk_holds_def iterator_create_def reset_current_chunk_def chunk_current_def iterator_current_def Let_def)
qed

text \<open>
  C32. Two ranges that the assertions of \<open>append\<close> let through and that do not come back. A key of exactly 65536 bytes passes \<open>MAX_KEY_SIZE\<close>, but
  its size is stored in 16 bits as 0, so the range reads back as the empty key. And a range from minus infinity to the
  empty key reads back with whatever left key the record variable held before as its right end, because a stored right key size of 0 also marks a point range.
\<close>

theorem range_buffer_limits:
  assumes "dbt_size key = 2 ^ 16"
  shows "(\<exists>b rec' it. rb_append key key rb_create = Some b \<and> iterator_current (iterator_create b) rec = Some (rec', it) \<and>
      keyof (rec_get_left_key rec') = Point [] \<and> keyof (rec_get_right_key rec') = Point []) \<and>
    (\<exists>b rec' it. rb_append NegInf (Dbt p []) rb_create = Some b \<and> iterator_current (iterator_create b) rec = Some (rec', it) \<and>
      rec_get_left_key rec' = NegInf \<and> rec_get_right_key rec' = rec_left_key rec)"
proof
  obtain b rest where b: "rb_append key key rb_create = Some b" "iterator_current (iterator_create b) rec = Some (deserialize 1 (encode_range key key) rec, rest)"
    by (rule append_first [of key key rec]) (simp_all add: assms MAX_KEY_SIZE_def)
  obtain a d where key: "key = Dbt a d" using assms by (cases key) auto
  have "left_key_size (header_init key None) = 0" using assms key by (simp add: header_init_def)
  then have "keyof (rec_get_left_key (deserialize 1 (encode_range key key) rec)) = Point [] \<and> keyof (rec_get_right_key (deserialize 1 (encode_range key key) rec)) = Point []"
    using key by (simp add: encode_range_def toku_dbt_equals_def deserialize_left deserialize_right Let_def)
  then show "\<exists>b rec' it. rb_append key key rb_create = Some b \<and> iterator_current (iterator_create b) rec = Some (rec', it) \<and>
      keyof (rec_get_left_key rec') = Point [] \<and> keyof (rec_get_right_key rec') = Point []"
    using b by blast
  obtain b rest where b: "rb_append NegInf (Dbt p []) rb_create = Some b"
    "iterator_current (iterator_create b) rec = Some (deserialize 1 (encode_range NegInf (Dbt p [])) rec, rest)"
    by (rule append_first [of NegInf "Dbt p []" rec]) (simp_all add: MAX_KEY_SIZE_def)
  have "right_key_size (header_init NegInf (Some (Dbt p []))) = 0" by (simp add: header_init_def)
  moreover have "encode_range NegInf (Dbt p []) = header_bytes (header_init NegInf (Some (Dbt p []))) @ []"
    by (simp add: encode_range_def toku_dbt_equals_def)
  ultimately have "rec_get_left_key (deserialize 1 (encode_range NegInf (Dbt p [])) rec) = NegInf \<and> rec_get_right_key (deserialize 1 (encode_range NegInf (Dbt p [])) rec) = rec_left_key rec"
    by (simp only: deserialize_left deserialize_right Let_def) simp
  then show "\<exists>b rec' it. rb_append NegInf (Dbt p []) rb_create = Some b \<and> iterator_current (iterator_create b) rec = Some (rec', it) \<and>
      rec_get_left_key rec' = NegInf \<and> rec_get_right_key rec' = rec_left_key rec"
    using b by blast
qed

theorem range_buffer_limits_witness:
  "\<exists>b rec' it. rb_append (Dbt 9 (replicate (2 ^ 16) 1)) (Dbt 9 (replicate (2 ^ 16) 1)) rb_create = Some b \<and>
     iterator_current (iterator_create b) \<lparr>rec_header = header_init NegInf None, rec_left_key = PosInf, rec_right_key = PosInf\<rparr> = Some (rec', it) \<and>
     keyof (rec_get_left_key rec') = Point [] \<and> keyof (rec_get_right_key rec') = Point []"
  by (rule range_buffer_limits [THEN conjunct1]) simp

end
