(* ===== verification/Txnid_Set.thy ===== *)
theory Txnid_Set
  imports Omt_Spec
begin

text \<open>
  Sets of transaction ids, \<open>src/locktree/txnid_set.cc\<close>: an order maintenance tree of ids, represented by the sorted list of its values.
\<close>

definition find_by_txnid :: "TXNID \<Rightarrow> TXNID \<Rightarrow> int" where
  "find_by_txnid txnid_a txnid_b = (if txnid_a < txnid_b then - 1 else if txnid_a = txnid_b then 0 else 1)"

definition txnid_set_create :: "TXNID list" where
  "txnid_set_create = []"

definition txnid_set_contains :: "TXNID list \<Rightarrow> TXNID \<Rightarrow> bool" where
  "txnid_set_contains s txnid = (case omt_find_zero (\<lambda>v. find_by_txnid v txnid) s of Inr _ \<Rightarrow> True | Inl _ \<Rightarrow> False)"

definition txnid_set_add :: "TXNID list \<Rightarrow> TXNID \<Rightarrow> TXNID list option" where
  "txnid_set_add s txnid =
     (case omt_insert (\<lambda>v. find_by_txnid v txnid) s txnid of
        Inr (s', _) \<Rightarrow> Some s'
      | Inl (r, _) \<Rightarrow> do { ensure (r = DB_KEYEXIST); Some s })"

definition txnid_set_remove :: "TXNID list \<Rightarrow> TXNID \<Rightarrow> TXNID list option" where
  "txnid_set_remove s txnid =
     (case omt_find_zero (\<lambda>v. find_by_txnid v txnid) s of
        Inr (_, idx) \<Rightarrow> (case omt_delete_at s idx of Inr s' \<Rightarrow> Some s' | Inl _ \<Rightarrow> None)
      | Inl _ \<Rightarrow> Some s)"

definition txnid_set_size :: "TXNID list \<Rightarrow> nat" where
  "txnid_set_size s = length s"

definition txnid_set_get :: "TXNID list \<Rightarrow> nat \<Rightarrow> TXNID option" where
  "txnid_set_get s i = (case omt_fetch s i of Inr txnid \<Rightarrow> Some txnid | Inl _ \<Rightarrow> None)"

abbreviation txnid_set_ok :: "TXNID list \<Rightarrow> bool" where
  "txnid_set_ok \<equiv> sorted_by (\<lambda>x. x)"

lemma find_by_txnid_key: "(\<lambda>v. find_by_txnid v txnid) = key_cmp (\<lambda>x. x) txnid"
  by (auto simp: find_by_txnid_def key_cmp_def fun_eq_iff)

lemma txnid_set_contains_ok: "txnid_set_ok s \<Longrightarrow> txnid_set_contains s x \<longleftrightarrow> x \<in> set s"
  using omt_find_zero_missing [of "\<lambda>x. x" s x]
  by (cases "omt_find_zero (key_cmp (\<lambda>x. x) x) s") (auto simp: txnid_set_contains_def find_by_txnid_key)

lemma txnid_set_add_ok:
  assumes "txnid_set_ok s"
  obtains s' where "txnid_set_add s x = Some s'" "txnid_set_ok s'" "set s' = insert x (set s)"
proof (cases "x \<in> set s")
  case True
  then obtain i where "omt_find_zero (key_cmp (\<lambda>x. x) x) s = Inr (x, i)"
    using omt_find_zero_sorted [OF assms, of x x] by (auto simp: in_set_conv_nth)
  then have "txnid_set_add s x = Some s" by (simp add: txnid_set_add_def find_by_txnid_key omt_insert_def)
  then show thesis using that [of s] assms True by (simp add: insert_absorb)
next
  case False
  obtain i s' where "omt_insert (key_cmp (\<lambda>x. x) x) s x = Inr (s', i)" "txnid_set_ok s'" "set s' = insert x (set s)"
    by (rule omt_insert_sorted [OF assms, of x]) (use False in simp_all)
  then show thesis using that [of s'] by (simp add: txnid_set_add_def find_by_txnid_key)
qed

lemma txnid_set_remove_ok:
  assumes "txnid_set_ok s"
  obtains s' where "txnid_set_remove s x = Some s'" "txnid_set_ok s'" "set s' = set s - {x}"
proof (cases "x \<in> set s")
  case True
  then obtain us ws where s: "s = us @ x # ws" "below_count (key_cmp (\<lambda>x. x) x) s = length us" "\<forall>u\<in>set us. u < x" "\<forall>w\<in>set ws. x < w"
    using sorted_by_split [OF assms] by metis
  then have "omt_find_zero (key_cmp (\<lambda>x. x) x) s = Inr (x, length us)" by (simp add: omt_find_zero_def)
  then have "txnid_set_remove s x = Some (us @ ws)" using s(1) by (simp add: txnid_set_remove_def find_by_txnid_key omt_delete_at_def)
  then show thesis using that assms s by auto
next
  case False
  then have "\<exists>i. omt_find_zero (key_cmp (\<lambda>x. x) x) s = Inl i" using omt_find_zero_missing [OF assms, of x] by simp
  then have "txnid_set_remove s x = Some s" by (auto simp: txnid_set_remove_def find_by_txnid_key)
  then show thesis using that assms False by simp
qed

lemma txnid_set_get_ok: "txnid_set_get s i = (if i < length s then Some (s ! i) else None)"
  by (simp add: txnid_set_get_def omt_fetch_def)

lemma txnid_set_get_first: "set s \<noteq> {} \<Longrightarrow> \<exists>x\<in>set s. txnid_set_get s 0 = Some x"
  by (cases s) (simp_all add: txnid_set_get_ok)

end
