(* ===== verification/Locktree.thy ===== *)
theory Locktree
  imports Concurrent_Tree Range_Buffer_Props Txnid_Set
begin

text \<open>
  The row locks of a dictionary: \<open>src/locktree/locktree.cc\<close>. A request is first tried against the single transaction optimisation, which
  only appends ranges to a buffer while one transaction is the only owner of locks, and else against the tree of ranges, where the overlapping
  ranges of the requesting transaction are merged with the request. Escalation rewrites the tree with neighbouring ranges of one owner merged.

  A return code is \<open>None\<close> for 0. The memory counter \<open>m_current_lock_memory\<close> of the lock tree manager is seen through the field \<open>lt_mem\<close>,
  which is \<open>None\<close> when the tree has no manager; the manager asserts that it never falls below zero. It counts memory that is
  allocated at one time, so it is a number. \<open>junk\<close> is what the uninitialised \<open>record\<close> variable of a loop over a range buffer contains. The
  time spent in \<open>sto_end_early\<close> and the user data pointer are left out.
\<close>

type_synonym row_lock = "keyrange \<times> TXNID"

record locktree =
  lt_dict_id :: "64 word"
  lt_cmp :: comparator
  lt_reference_count :: "32 word"
  lt_mem :: "nat option"
  lt_sizeof_keyrange :: nat
  lt_sizeof_treenode :: nat
  m_rangetree :: concurrent_tree
  m_sto_txnid :: TXNID
  m_sto_buffer :: range_buffer
  m_sto_score :: nat
  m_sto_end_early_count :: nat

definition STO_BUFFER_MAX_SIZE :: nat where
  "STO_BUFFER_MAX_SIZE = 50 * 1024"

definition STO_SCORE_THRESHOLD :: nat where
  "STO_SCORE_THRESHOLD = 100"

definition locktree_create :: "nat option \<Rightarrow> nat \<Rightarrow> nat \<Rightarrow> 64 word \<Rightarrow> comparator \<Rightarrow> locktree" where
  "locktree_create mem sizeof_keyrange sizeof_treenode dict_id cmp =
     \<lparr>lt_dict_id = dict_id, lt_cmp = cmp, lt_reference_count = 1, lt_mem = mem,
      lt_sizeof_keyrange = sizeof_keyrange, lt_sizeof_treenode = sizeof_treenode,
      m_rangetree = concurrent_tree_create, m_sto_txnid = TXNID_NONE, m_sto_buffer = rb_create,
      m_sto_score = STO_SCORE_THRESHOLD, m_sto_end_early_count = 0\<rparr>"

definition note_mem_used :: "nat \<Rightarrow> locktree \<Rightarrow> locktree" where
  "note_mem_used mem_used lt = lt\<lparr>lt_mem := map_option (\<lambda>m. m + mem_used) (lt_mem lt)\<rparr>"

definition note_mem_released :: "nat \<Rightarrow> locktree \<Rightarrow> locktree option" where
  "note_mem_released mem_released lt =
     (case lt_mem lt of
        None \<Rightarrow> Some lt
      | Some old_mem_used \<Rightarrow> do {
          ensure (old_mem_used \<ge> mem_released);
          Some (lt\<lparr>lt_mem := Some (old_mem_used - mem_released)\<rparr>)
        })"

subsection \<open>Row locks in a tree\<close>

text \<open>The operations work on the tree of a locked key range, which need not be the tree of the lock tree: the two are passed side by side.\<close>

definition iterate_and_get_overlapping_row_locks ::
  "comparator \<Rightarrow> locked_keyrange \<Rightarrow> concurrent_tree \<Rightarrow> concurrent_tree \<times> row_lock list" where
  "iterate_and_get_overlapping_row_locks c lkr t = lkr_iterate c (\<lambda>rng txnid row_locks. (True, row_locks @ [(rng, txnid)])) lkr t []"

fun determine_conflicting_txnids :: "row_lock list \<Rightarrow> TXNID \<Rightarrow> TXNID list option \<Rightarrow> (bool \<times> TXNID list option) option" where
  "determine_conflicting_txnids [] txnid conflicts = Some (False, conflicts)"
| "determine_conflicting_txnids (lock # row_locks) txnid conflicts =
     (if snd lock \<noteq> txnid then do {
        conflicts \<leftarrow> (case conflicts of None \<Rightarrow> Some None | Some s \<Rightarrow> map_option Some (txnid_set_add s (snd lock)));
        (_, conflicts) \<leftarrow> determine_conflicting_txnids row_locks txnid conflicts;
        Some (True, conflicts)
      }
      else determine_conflicting_txnids row_locks txnid conflicts)"

definition row_lock_size_in_tree :: "row_lock \<Rightarrow> locktree \<Rightarrow> nat" where
  "row_lock_size_in_tree lock lt = keyrange_memory_size (lt_sizeof_keyrange lt) (fst lock) + lt_sizeof_treenode lt"

definition remove_row_lock_from_tree :: "locked_keyrange \<Rightarrow> row_lock \<Rightarrow> concurrent_tree \<times> locktree \<Rightarrow> (concurrent_tree \<times> locktree) option" where
  "remove_row_lock_from_tree lkr lock s = (case s of (t, lt) \<Rightarrow> do {
     let mem_released = row_lock_size_in_tree lock lt;
     t \<leftarrow> lkr_remove (lt_cmp lt) (fst lock) lkr t;
     lt \<leftarrow> note_mem_released mem_released lt;
     Some (t, lt)
   })"

definition insert_row_lock_into_tree :: "locked_keyrange \<Rightarrow> row_lock \<Rightarrow> concurrent_tree \<times> locktree \<Rightarrow> (concurrent_tree \<times> locktree) option" where
  "insert_row_lock_into_tree lkr lock s = (case s of (t, lt) \<Rightarrow> do {
     let mem_used = row_lock_size_in_tree lock lt;
     t \<leftarrow> lkr_insert (lt_cmp lt) (fst lock) (snd lock) lkr t;
     Some (t, note_mem_used mem_used lt)
   })"

text \<open>The loop of \<open>acquire_lock_consolidated\<close> over the overlapping locks.\<close>

fun consolidate :: "locked_keyrange \<Rightarrow> TXNID \<Rightarrow> row_lock list \<Rightarrow> keyrange \<Rightarrow> concurrent_tree \<times> locktree \<Rightarrow> (keyrange \<times> concurrent_tree \<times> locktree) option" where
  "consolidate lkr txnid [] requested_range s = Some (requested_range, s)"
| "consolidate lkr txnid (lock # row_locks) requested_range s = do {
     ensure (snd lock = txnid);
     let requested_range = keyrange_extend (lt_cmp (snd s)) requested_range (fst lock);
     s \<leftarrow> remove_row_lock_from_tree lkr lock s;
     consolidate lkr txnid row_locks requested_range s
   }"

definition acquire_lock_consolidated ::
  "TXNID \<Rightarrow> DBT \<Rightarrow> DBT \<Rightarrow> TXNID list option \<Rightarrow> concurrent_tree \<times> locktree \<Rightarrow>
     (ft_error option \<times> TXNID list option \<times> concurrent_tree \<times> locktree) option" where
  "acquire_lock_consolidated txnid left_key right_key conflicts s = (case s of (t, lt) \<Rightarrow> do {
     let requested_range = keyrange_create left_key right_key;
     (lkr, t) \<leftarrow> lkr_acquire (lt_cmp lt) requested_range t;
     let (t, overlapping_row_locks) = iterate_and_get_overlapping_row_locks (lt_cmp lt) lkr t;
     (conflicts_exist, conflicts) \<leftarrow> determine_conflicting_txnids overlapping_row_locks txnid conflicts;
     if \<not> conflicts_exist then do {
       (requested_range, s) \<leftarrow> consolidate lkr txnid overlapping_row_locks requested_range (t, lt);
       s \<leftarrow> insert_row_lock_into_tree lkr (requested_range, txnid) s;
       Some (None, conflicts, s)
     }
     else Some (Some DB_LOCK_NOTGRANTED, conflicts, t, lt)
   })"

subsection \<open>The single transaction optimisation\<close>

definition sto_begin :: "TXNID \<Rightarrow> locktree \<Rightarrow> locktree option" where
  "sto_begin txnid lt = do {
     ensure (m_sto_txnid lt = TXNID_NONE);
     ensure (rb_is_empty (m_sto_buffer lt));
     Some (lt\<lparr>m_sto_txnid := txnid\<rparr>)
   }"

definition sto_append :: "DBT \<Rightarrow> DBT \<Rightarrow> locktree \<Rightarrow> locktree option" where
  "sto_append left_key right_key lt = do {
     let buffer_mem = rb_total_memory_size (m_sto_buffer lt);
     buffer \<leftarrow> rb_append left_key right_key (m_sto_buffer lt);
     let delta = rb_total_memory_size buffer - buffer_mem;
     Some (note_mem_used delta (lt\<lparr>m_sto_buffer := buffer\<rparr>))
   }"

definition sto_end :: "locktree \<Rightarrow> locktree option" where
  "sto_end lt = do {
     lt \<leftarrow> note_mem_released (rb_total_memory_size (m_sto_buffer lt)) lt;
     Some (lt\<lparr>m_sto_buffer := rb_create, m_sto_txnid := TXNID_NONE\<rparr>)
   }"

fun sto_fill_tree :: "(DBT \<times> DBT) list \<Rightarrow> concurrent_tree \<times> locktree \<Rightarrow> (concurrent_tree \<times> locktree) option" where
  "sto_fill_tree [] s = Some s"
| "sto_fill_tree (rec # recs) s = do {
     (r, _, s) \<leftarrow> acquire_lock_consolidated (m_sto_txnid (snd s)) (fst rec) (snd rec) None s;
     ensure (r = None);
     sto_fill_tree recs s
   }"

definition sto_migrate_buffer_ranges_to_tree :: "rb_record \<Rightarrow> locked_keyrange \<Rightarrow> locktree \<Rightarrow> locktree option" where
  "sto_migrate_buffer_ranges_to_tree junk prepared_lkr lt = do {
     ensure (\<not> rb_is_empty (m_sto_buffer lt));
     ensure (concurrent_tree_is_empty (m_rangetree lt));
     recs \<leftarrow> rb_ranges (m_sto_buffer lt) junk;
     (sto_rangetree, lt) \<leftarrow> sto_fill_tree recs (concurrent_tree_create, lt);
     let (sto_rangetree, dst) = lkr_iterate (lt_cmp lt)
       (\<lambda>rng txnid dst. (True, Option.bind dst (lkr_insert (lt_cmp lt) rng txnid prepared_lkr))) lkr_prepare sto_rangetree (Some (m_rangetree lt));
     dst \<leftarrow> dst;
     concurrent_tree_destroy (lkr_remove_all sto_rangetree);
     ensure (\<not> concurrent_tree_is_empty dst);
     Some (lt\<lparr>m_rangetree := dst\<rparr>)
   }"

definition sto_end_early_no_accounting :: "rb_record \<Rightarrow> locked_keyrange \<Rightarrow> locktree \<Rightarrow> locktree option" where
  "sto_end_early_no_accounting junk prepared_lkr lt = do {
     lt \<leftarrow> sto_migrate_buffer_ranges_to_tree junk prepared_lkr lt;
     lt \<leftarrow> sto_end lt;
     Some (lt\<lparr>m_sto_score := 0\<rparr>)
   }"

definition sto_end_early :: "rb_record \<Rightarrow> locked_keyrange \<Rightarrow> locktree \<Rightarrow> locktree option" where
  "sto_end_early junk prepared_lkr lt = sto_end_early_no_accounting junk prepared_lkr (lt\<lparr>m_sto_end_early_count := m_sto_end_early_count lt + 1\<rparr>)"

definition sto_try_acquire :: "rb_record \<Rightarrow> locked_keyrange \<Rightarrow> TXNID \<Rightarrow> DBT \<Rightarrow> DBT \<Rightarrow> locktree \<Rightarrow> (bool \<times> locktree) option" where
  "sto_try_acquire junk prepared_lkr txnid left_key right_key lt = do {
     lt \<leftarrow> (if concurrent_tree_is_empty (m_rangetree lt) \<and> rb_is_empty (m_sto_buffer lt) \<and> m_sto_score lt \<ge> STO_SCORE_THRESHOLD
        then sto_begin txnid lt
        else if m_sto_txnid lt \<noteq> TXNID_NONE then
          if m_sto_txnid lt \<noteq> txnid \<or> rb_num_ranges (m_sto_buffer lt) > STO_BUFFER_MAX_SIZE
          then sto_end_early junk prepared_lkr lt else Some lt
        else Some lt);
     if m_sto_txnid lt \<noteq> TXNID_NONE then do {
       ensure (m_sto_txnid lt = txnid);
       lt \<leftarrow> sto_append left_key right_key lt;
       Some (True, lt)
     }
     else do {
       ensure (rb_is_empty (m_sto_buffer lt));
       Some (False, lt)
     }
   }"

subsection \<open>Acquisition and release\<close>

definition acquire_lock ::
  "rb_record \<Rightarrow> bool \<Rightarrow> TXNID \<Rightarrow> DBT \<Rightarrow> DBT \<Rightarrow> TXNID list option \<Rightarrow> locktree \<Rightarrow> (ft_error option \<times> TXNID list option \<times> locktree) option" where
  "acquire_lock junk is_write_request txnid left_key right_key conflicts lt = do {
     ensure is_write_request;
     (acquired, lt) \<leftarrow> sto_try_acquire junk lkr_prepare txnid left_key right_key lt;
     if \<not> acquired then do {
       (r, conflicts, t, lt) \<leftarrow> acquire_lock_consolidated txnid left_key right_key conflicts (m_rangetree lt, lt);
       Some (r, conflicts, lt\<lparr>m_rangetree := t\<rparr>)
     }
     else Some (None, conflicts, lt)
   }"

definition locktree_get_conflicts :: "TXNID \<Rightarrow> DBT \<Rightarrow> DBT \<Rightarrow> TXNID list \<Rightarrow> locktree \<Rightarrow> (TXNID list \<times> locktree) option" where
  "locktree_get_conflicts txnid left_key right_key conflicts lt = do {
     (lkr, t) \<leftarrow> lkr_acquire (lt_cmp lt) (keyrange_create left_key right_key) (m_rangetree lt);
     let (t, overlapping_row_locks) = iterate_and_get_overlapping_row_locks (lt_cmp lt) lkr t;
     (_, conflicts) \<leftarrow> determine_conflicting_txnids overlapping_row_locks txnid (Some conflicts);
     conflicts \<leftarrow> conflicts;
     Some (conflicts, lt\<lparr>m_rangetree := t\<rparr>)
   }"

fun remove_own_locks :: "locked_keyrange \<Rightarrow> TXNID \<Rightarrow> row_lock list \<Rightarrow> concurrent_tree \<times> locktree \<Rightarrow> (concurrent_tree \<times> locktree) option" where
  "remove_own_locks lkr txnid [] s = Some s"
| "remove_own_locks lkr txnid (lock # row_locks) s = do {
     s \<leftarrow> (if snd lock = txnid then remove_row_lock_from_tree lkr lock s else Some s);
     remove_own_locks lkr txnid row_locks s
   }"

definition remove_overlapping_locks_for_txnid :: "TXNID \<Rightarrow> DBT \<Rightarrow> DBT \<Rightarrow> locktree \<Rightarrow> locktree option" where
  "remove_overlapping_locks_for_txnid txnid left_key right_key lt = do {
     (lkr, t) \<leftarrow> lkr_acquire (lt_cmp lt) (keyrange_create left_key right_key) (m_rangetree lt);
     let (t, overlapping_row_locks) = iterate_and_get_overlapping_row_locks (lt_cmp lt) lkr t;
     (t, lt) \<leftarrow> remove_own_locks lkr txnid overlapping_row_locks (t, lt);
     Some (lt\<lparr>m_rangetree := t\<rparr>)
   }"

definition sto_try_release :: "TXNID \<Rightarrow> locktree \<Rightarrow> (bool \<times> locktree) option" where
  "sto_try_release txnid lt =
     (if m_sto_txnid lt \<noteq> TXNID_NONE then do {
        ensure (m_sto_txnid lt = txnid);
        ensure (concurrent_tree_is_empty (m_rangetree lt));
        lt \<leftarrow> sto_end lt;
        Some (True, lt)
      }
      else Some (False, lt))"

fun release_ranges :: "TXNID \<Rightarrow> (DBT \<times> DBT) list \<Rightarrow> locktree \<Rightarrow> locktree option" where
  "release_ranges txnid [] lt = Some lt"
| "release_ranges txnid (rec # recs) lt = do {
     lt \<leftarrow> remove_overlapping_locks_for_txnid txnid (fst rec) (snd rec) lt;
     release_ranges txnid recs lt
   }"

definition release_locks :: "rb_record \<Rightarrow> TXNID \<Rightarrow> range_buffer \<Rightarrow> locktree \<Rightarrow> locktree option" where
  "release_locks junk txnid ranges lt = do {
     (released, lt) \<leftarrow> sto_try_release txnid lt;
     if \<not> released then do {
       recs \<leftarrow> rb_ranges ranges junk;
       lt \<leftarrow> release_ranges txnid recs lt;
       Some (if m_sto_score lt < STO_SCORE_THRESHOLD then lt\<lparr>m_sto_score := m_sto_score lt + 1\<rparr> else lt)
     }
     else Some lt
   }"

end
