(* ===== verification/Locktree_Props.thy ===== *)
theory Locktree_Props
  imports Locktree
begin

text \<open>
  Acquisition and release of row locks on the sorted sequence of locks: which requests are granted, what the owners hold afterwards,
  and the exact accounting of memory.
\<close>

subsection \<open>What the owners of a sequence of locks hold\<close>

definition nodes_held :: "comparator \<Rightarrow> row_lock list \<Rightarrow> TXNID \<Rightarrow> endpoint set" where
  "nodes_held c ns u = {x. \<exists>k. (k, u) \<in> set ns \<and> covers c k x}"

lemma nodes_held_simps:
  "nodes_held c [] u = {}" "nodes_held c (ns @ ms) u = nodes_held c ns u \<union> nodes_held c ms u"
  "nodes_held c ((k, w) # ns) u = (if w = u then {x. covers c k x} else {}) \<union> nodes_held c ns u"
  by (auto simp: nodes_held_def)

lemma nodes_held_own: "\<forall>l\<in>set ls. snd l = w \<Longrightarrow> nodes_held c ls u = (if u = w then {x. \<exists>l\<in>set ls. covers c (fst l) x} else {})"
  by (induction ls) (auto simp: nodes_held_simps, fastforce)

text \<open>Keys that a range buffer stores faithfully.\<close>

fun key_ok :: "endpoint \<Rightarrow> bool" where
  "key_ok (Point d) = (0 < length d \<and> length d < 2 ^ 16)"
| "key_ok _ = True"

definition range_sized :: "keyrange \<Rightarrow> bool" where
  "range_sized k \<longleftrightarrow> key_ok (fst (range_of k)) \<and> key_ok (snd (range_of k))"

fun key_size :: "endpoint \<Rightarrow> nat" where
  "key_size (Point d) = length d"
| "key_size _ = 0"

lemma dbt_size_key: "dbt_size d = key_size (keyof d)"
  by (cases d) simp_all

lemma memory_size_range: "keyrange_memory_size n k = key_size (fst (range_of k)) + key_size (snd (range_of k)) + n"
  by (simp add: keyrange_memory_size_def dbt_size_key range_of_def)

lemma row_lock_size_range: "range_of k = range_of k' \<Longrightarrow> row_lock_size_in_tree (k, x) lt = row_lock_size_in_tree (k', x') lt"
  by (simp add: row_lock_size_in_tree_def memory_size_range)

definition tree_mem :: "locktree \<Rightarrow> row_lock list \<Rightarrow> nat" where
  "tree_mem lt ns = (\<Sum>l\<leftarrow>ns. row_lock_size_in_tree l lt)"

lemma tree_mem_simps [simp]:
  "tree_mem lt [] = 0" "tree_mem lt (l # ns) = row_lock_size_in_tree l lt + tree_mem lt ns" "tree_mem lt (ns @ ms) = tree_mem lt ns + tree_mem lt ms"
  by (simp_all add: tree_mem_def)

definition charged :: "locktree \<Rightarrow> nat \<Rightarrow> bool" where
  "charged lt m \<longleftrightarrow> lt_mem lt = None \<or> lt_mem lt = Some m"

text \<open>\<open>same_but_mem\<close>: an operation on a tree that only touches the memory counter of the lock tree.\<close>

definition same_but_mem :: "locktree \<Rightarrow> locktree \<Rightarrow> bool" where
  "same_but_mem lt lt' \<longleftrightarrow> lt' = lt\<lparr>lt_mem := lt_mem lt'\<rparr>"

lemma same_but_mem_refl [simp]: "same_but_mem lt lt"
  by (simp add: same_but_mem_def)

lemma same_but_mem_trans: "same_but_mem lt lt' \<Longrightarrow> same_but_mem lt' lt'' \<Longrightarrow> same_but_mem lt lt''"
  by (metis (no_types, lifting) locktree.surjective locktree.update_convs(4) same_but_mem_def)

lemma same_but_mem_sel:
  assumes "same_but_mem lt lt'"
  shows "lt_cmp lt' = lt_cmp lt" "m_rangetree lt' = m_rangetree lt" "m_sto_txnid lt' = m_sto_txnid lt" "m_sto_buffer lt' = m_sto_buffer lt"
    "m_sto_score lt' = m_sto_score lt" "row_lock_size_in_tree l lt' = row_lock_size_in_tree l lt" "tree_mem lt' ns = tree_mem lt ns"
  by (subst assms [unfolded same_but_mem_def], simp add: tree_mem_def row_lock_size_in_tree_def)+

lemma note_mem_released_ok:
  assumes "charged lt (m + n)"
  obtains lt' where "note_mem_released n lt = Some lt'" "same_but_mem lt lt'" "charged lt' m"
  using assms that [of lt] that [of "lt\<lparr>lt_mem := Some m\<rparr>"]
  by (auto simp: charged_def note_mem_released_def same_but_mem_def)

lemma note_mem_used_ok: "charged lt m \<Longrightarrow> charged (note_mem_used n lt) (m + n)" "same_but_mem lt (note_mem_used n lt)"
  by (auto simp: charged_def note_mem_used_def same_but_mem_def)

subsection \<open>Conflicts\<close>

definition others :: "row_lock list \<Rightarrow> TXNID \<Rightarrow> TXNID set" where
  "others ls txnid = snd ` set ls - {txnid}"

definition conflicts_added :: "TXNID list option \<Rightarrow> TXNID set \<Rightarrow> TXNID list option \<Rightarrow> bool" where
  "conflicts_added cs xs cs' \<longleftrightarrow>
     (case (cs, cs') of (None, None) \<Rightarrow> True | (Some s, Some s') \<Rightarrow> txnid_set_ok s' \<and> set s' = set s \<union> xs | _ \<Rightarrow> False)"

definition conflicts_ok :: "TXNID list option \<Rightarrow> bool" where
  "conflicts_ok cs \<longleftrightarrow> (case cs of None \<Rightarrow> True | Some s \<Rightarrow> txnid_set_ok s)"

lemma determine_ok:
  assumes "conflicts_ok cs"
  shows "\<exists>cs'. determine_conflicting_txnids ls txnid cs = Some (others ls txnid \<noteq> {}, cs') \<and> conflicts_added cs (others ls txnid) cs'"
  using assms
proof (induction ls arbitrary: cs)
  case Nil
  then show ?case by (auto simp: others_def conflicts_added_def conflicts_ok_def split: option.splits)
next
  case (Cons l ls)
  show ?case
  proof (cases "snd l = txnid")
    case True
    then have "others (l # ls) txnid = others ls txnid" by (auto simp: others_def)
    then show ?thesis using Cons.IH [OF Cons.prems] True by simp
  next
    case False
    then have o: "others (l # ls) txnid = insert (snd l) (others ls txnid)" by (auto simp: others_def)
    obtain cs1 where cs1: "(case cs of None \<Rightarrow> Some None | Some s \<Rightarrow> map_option Some (txnid_set_add s (snd l))) = Some cs1"
      "conflicts_ok cs1" "conflicts_added cs {snd l} cs1"
    proof (cases cs)
      case (Some s)
      then have "txnid_set_ok s" using Cons.prems by (simp add: conflicts_ok_def)
      then show thesis using Some that by (elim txnid_set_add_ok [of s "snd l"]) (auto simp: conflicts_ok_def conflicts_added_def)
    qed (use that in \<open>auto simp: conflicts_ok_def conflicts_added_def\<close>)
    then show ?thesis using Cons.IH [OF cs1(2)] False o
      by (auto simp: conflicts_added_def split: option.splits)
  qed
qed

subsection \<open>Row locks in a tree\<close>

text \<open>The transactions other than \<open>txnid\<close> that hold a key of the range.\<close>

definition blockers :: "comparator \<Rightarrow> row_lock list \<Rightarrow> TXNID \<Rightarrow> keyrange \<Rightarrow> TXNID set" where
  "blockers c ns txnid rng = {u. u \<noteq> txnid \<and> (\<exists>x\<in>nodes_held c ns u. covers c rng x)}"

definition tree_state :: "comparator \<Rightarrow> nat \<Rightarrow> concurrent_tree \<times> locktree \<Rightarrow> bool" where
  "tree_state c base s \<longleftrightarrow> ct_wf c (fst s) \<and> lt_cmp (snd s) = c \<and> charged (snd s) (base + tree_mem (snd s) (ct_nodes (fst s)))"

context key_comparator
begin

lemma compare_same_range:
  assumes "kproper k" "range_of k' = range_of k"
  shows "keyrange_compare c k' k = EQUALS"
  using assms cmp_flip(2) [of "fst (range_of k)" "snd (range_of k)"]
  by (auto simp: keyrange_compare_ok interval_compare_def range_proper_def)

lemma iterate_locks_ok:
  assumes "lkr_ok lkr t" "ct_wf c t"
  obtains t' where "iterate_and_get_overlapping_row_locks c lkr t = (t', filter (\<lambda>n. koverlap (lkr_range lkr) (fst n)) (ct_nodes t))"
    "ct_nodes t' = ct_nodes t" "ct_wf c t'" "lkr_ok lkr t'"
proof -
  let ?fn = "\<lambda>rng txnid row_locks. (True, row_locks @ [(rng, txnid)])"
  have "steady ?fn" by (simp add: steady_def)
  moreover have "visit ?fn ns s = s @ ns" for ns s by (induction ns arbitrary: s) simp_all
  ultimately show thesis
    using lkr_iterate_ok [OF assms, of ?fn "[]"] that by (metis (no_types, lifting) append_Nil iterate_and_get_overlapping_row_locks_def)
qed

lemma remove_row_lock_ok:
  assumes "tree_state c base (t, lt)" "lkr_ok lkr t" "ct_nodes t = as @ (k, x) # bs" "koverlap (lkr_range lkr) k" "keyrange_wf k'" "range_of k' = range_of k"
  obtains t' lt' where "remove_row_lock_from_tree lkr (k', x') (t, lt) = Some (t', lt')" "ct_nodes t' = as @ bs" "tree_state c base (t', lt')"
    "lkr_ok lkr t'" "same_but_mem lt lt'"
proof -
  have wf: "ct_wf c t" "lt_cmp lt = c" "charged lt (base + tree_mem lt (ct_nodes t))" using assms(1) by (simp_all add: tree_state_def)
  have k: "kproper k" using wf(1) assms(3) by (simp add: ct_wf_def)
  then have k': "kproper k'" using assms(5,6) by (simp add: range_proper_def)
  obtain t' where t': "lkr_remove c k' lkr t = Some t'" "ct_nodes t' = as @ bs" "ct_wf c t'" "lkr_ok lkr t'"
    by (rule lkr_remove_ok [OF assms(2) wf(1) k' assms(3) compare_same_range [OF k assms(6)] assms(4)])
  have "charged lt (base + tree_mem lt (as @ bs) + row_lock_size_in_tree (k', x') lt)"
    using wf(3) row_lock_size_range [OF assms(6), of x' lt x] by (simp add: assms(3) ac_simps)
  then obtain lt' where lt': "note_mem_released (row_lock_size_in_tree (k', x') lt) lt = Some lt'" "same_but_mem lt lt'" "charged lt' (base + tree_mem lt (as @ bs))"
    by (rule note_mem_released_ok)
  show thesis
    by (rule that [of t' lt']) (use t' lt' wf(2) same_but_mem_sel [OF lt'(2)] in \<open>simp_all add: remove_row_lock_from_tree_def tree_state_def\<close>)
qed

lemma insert_row_lock_ok:
  assumes "tree_state c base (t, lt)" "lkr_ok lkr t" "kproper k" "\<forall>n\<in>set (ct_nodes t). \<not> koverlap k (fst n)"
    and "lkr_subtree lkr = [] \<or> (\<forall>n\<in>set (ct_nodes t). (kbefore (fst n) (lkr_range lkr) \<longrightarrow> kbefore (fst n) k) \<and> (kbefore (lkr_range lkr) (fst n) \<longrightarrow> kbefore k (fst n)))"
  obtains t' lt' as bs where "insert_row_lock_into_tree lkr (k, x) (t, lt) = Some (t', lt')" "ct_nodes t = as @ bs" "ct_nodes t' = as @ (create_copy k, x) # bs"
    "tree_state c base (t', lt')" "lkr_ok lkr t'" "same_but_mem lt lt'" "\<not> m_is_empty t'"
proof -
  have wf: "ct_wf c t" "lt_cmp lt = c" "charged lt (base + tree_mem lt (ct_nodes t))" using assms(1) by (simp_all add: tree_state_def)
  obtain t' as bs where t': "lkr_insert c k x lkr t = Some t'" "ct_nodes t = as @ bs" "ct_nodes t' = as @ (create_copy k, x) # bs" "ct_wf c t'" "lkr_ok lkr t'" "\<not> m_is_empty t'"
    by (rule lkr_insert_ok [OF assms(2) wf(1) assms(3-5)])
  let ?lt = "note_mem_used (row_lock_size_in_tree (k, x) lt) lt"
  have "range_of (create_copy k) = range_of k" using assms(3) create_copy_ok(1) by (simp add: range_proper_def)
  then have "charged ?lt (base + tree_mem lt (ct_nodes t'))"
    using note_mem_used_ok(1) [OF wf(3), of "row_lock_size_in_tree (k, x) lt"] row_lock_size_range [of "create_copy k" k x lt x] t'(2,3) by (simp add: ac_simps)
  then show thesis
    by (intro that [of t' ?lt as bs]) (use t' wf(2) note_mem_used_ok(2) same_but_mem_sel [OF note_mem_used_ok(2)] in \<open>simp_all add: insert_row_lock_into_tree_def tree_state_def\<close>)
qed

subsection \<open>Consolidation\<close>

lemma extend_union:
  assumes "\<not> before i j" "\<not> before j i"
  shows "within x (interval_extend (endpoint_compare c) i j) \<longleftrightarrow> within x i \<or> within x j"
proof
  assume h: "within x (interval_extend (endpoint_compare c) i j)"
  let ?cmp = "endpoint_compare c"
  have meet: "?cmp (fst j) (snd i) \<le> 0" "?cmp (fst i) (snd j) \<le> 0" using assms by (auto simp: before_def cmp_flip(2) not_less)
  consider "?cmp (fst i) x \<le> 0" "?cmp x (snd i) \<le> 0" | "?cmp x (fst i) < 0" | "?cmp (snd i) x < 0"
    using cmp_flip(1) [of x "fst i"] cmp_flip(1) [of "snd i" x] by linarith
  then show "within x i \<or> within x j"
  proof cases
    case 2
    then have "\<not> ?cmp (fst i) x \<le> 0" "?cmp x (snd j) \<le> 0" using cmp_flip(1) [of x "fst i"] cmp_less_trans(1) [OF 2 meet(2)] by linarith+
    then show ?thesis using h by (auto simp: within_def interval_extend_def split: if_splits)
  next
    case 3
    then have "\<not> ?cmp x (snd i) \<le> 0" "?cmp (fst j) x \<le> 0" using cmp_flip(1) [of "snd i" x] cmp_less_trans(2) [OF meet(1) 3] by linarith+
    then show ?thesis using h by (auto simp: within_def interval_extend_def split: if_splits)
  qed (simp add: within_def)
qed (rule extend_within)

lemma extend_ok:
  assumes "kproper k" "kproper k'"
  shows "kproper (keyrange_extend c k k')" "kbefore (keyrange_extend c k k') n \<longleftrightarrow> kbefore k n \<and> kbefore k' n"
    "kbefore n (keyrange_extend c k k') \<longleftrightarrow> kbefore n k \<and> kbefore n k'"
    "koverlap k k' \<Longrightarrow> covers c (keyrange_extend c k k') x \<longleftrightarrow> covers c k x \<or> covers c k' x"
    "range_sized k \<Longrightarrow> range_sized k' \<Longrightarrow> range_sized (keyrange_extend c k k')"
proof -
  have wf: "keyrange_wf k" using assms(1) by (simp add: range_proper_def)
  note e = keyrange_extend_ok(1) [OF wf, of c k']
  show "kproper (keyrange_extend c k k')" using assms e keyrange_extend_ok(2) [OF wf] extend_proper by (simp add: kproper_def)
  show "kbefore (keyrange_extend c k k') n \<longleftrightarrow> kbefore k n \<and> kbefore k' n" "kbefore n (keyrange_extend c k k') \<longleftrightarrow> kbefore n k \<and> kbefore n k'"
    using e extend_before by (simp_all add: kbefore_def)
  show "covers c (keyrange_extend c k k') x \<longleftrightarrow> covers c k x \<or> covers c k' x" if "koverlap k k'"
    using that e extend_union by (simp add: covers_within koverlap_def kbefore_def)
  show "range_sized (keyrange_extend c k k')" if "range_sized k" "range_sized k'"
    using that e by (simp add: range_sized_def interval_extend_def)
qed

text \<open>\<open>spans cur rng ns\<close>: \<open>cur\<close> contains \<open>rng\<close>, and reaches none of \<open>ns\<close> that \<open>rng\<close> does not.\<close>

definition spans :: "keyrange \<Rightarrow> keyrange \<Rightarrow> row_lock list \<Rightarrow> bool" where
  "spans cur rng ns \<longleftrightarrow> (\<forall>i. (kbefore cur i \<longrightarrow> kbefore rng i) \<and> (kbefore i cur \<longrightarrow> kbefore i rng)) \<and>
     (\<forall>n\<in>set ns. (kbefore (fst n) rng \<longrightarrow> kbefore (fst n) cur) \<and> (kbefore rng (fst n) \<longrightarrow> kbefore cur (fst n)))"

lemma spans_overlap: "spans cur rng ns \<Longrightarrow> koverlap rng k \<Longrightarrow> koverlap cur k"
  by (auto simp: spans_def koverlap_def)

lemma spans_free: "spans cur rng ns \<Longrightarrow> n \<in> set ns \<Longrightarrow> \<not> koverlap rng (fst n) \<Longrightarrow> \<not> koverlap cur (fst n)"
  unfolding spans_def koverlap_def by blast

lemma spans_extend:
  assumes "spans cur rng (as @ (k, x) # bs)" "ordered (as @ (k, x) # bs)" "koverlap rng k" "kproper cur" "kproper rng"
  shows "spans (keyrange_extend c cur k) rng (as @ bs)"
proof -
  have k: "kproper k" using assms(2) by simp
  have pr: "\<forall>n\<in>set as \<union> set bs. kproper (fst n)" using assms(2) by (auto simp: ranges_ordered_def)
  have as: "kbefore (fst n) k \<and> \<not> kbefore rng (fst n)" if "n \<in> set as" for n
    using that pr assms(2,3) kbefore_trans [of rng "fst n" k] by (auto simp: koverlap_def)
  have bs: "kbefore k (fst n) \<and> \<not> kbefore (fst n) rng" if "n \<in> set bs" for n
    using that pr assms(2,3) kbefore_trans [of k "fst n" rng] by (auto simp: koverlap_def)
  show ?thesis
    unfolding spans_def extend_ok(2,3) [OF assms(4) k]
    using assms(1) as bs unfolding spans_def by auto
qed

lemma consolidate_ok:
  assumes "tree_state c base (t, lt)" "lkr_ok lkr t" "filter (\<lambda>n. koverlap (lkr_range lkr) (fst n)) (ct_nodes t) = ls" "\<forall>l\<in>set ls. snd l = txnid"
    and "kproper cur" "spans cur (lkr_range lkr) (ct_nodes t)"
  shows "\<exists>cur' t' lt'. consolidate lkr txnid ls cur (t, lt) = Some (cur', t', lt') \<and>
    ct_nodes t' = filter (\<lambda>n. \<not> koverlap (lkr_range lkr) (fst n)) (ct_nodes t) \<and> tree_state c base (t', lt') \<and> lkr_ok lkr t' \<and> same_but_mem lt lt' \<and>
    kproper cur' \<and> spans cur' (lkr_range lkr) (ct_nodes t') \<and>
    (\<forall>x. covers c cur' x \<longleftrightarrow> covers c cur x \<or> (\<exists>l\<in>set ls. covers c (fst l) x)) \<and>
    (range_sized cur \<longrightarrow> (\<forall>l\<in>set ls. range_sized (fst l)) \<longrightarrow> range_sized cur')"
  using assms
proof (induction ls arbitrary: cur t lt)
  case Nil
  have "filter (\<lambda>n. \<not> koverlap (lkr_range lkr) (fst n)) (ct_nodes t) = ct_nodes t"
    using Nil.prems(3) by (auto simp: filter_id_conv filter_empty_conv)
  then show ?case using Nil by simp
next
  case (Cons l ls)
  obtain k x where l: "l = (k, x)" by (cases l)
  obtain as bs where split: "ct_nodes t = as @ (k, x) # bs" "\<forall>n\<in>set as. \<not> koverlap (lkr_range lkr) (fst n)" "koverlap (lkr_range lkr) k"
    "ls = filter (\<lambda>n. koverlap (lkr_range lkr) (fst n)) bs"
    using Cons.prems(3) unfolding l by (auto simp: filter_eq_Cons_iff)
  have ord: "ordered (as @ (k, x) # bs)" using Cons.prems(1) split(1) by (simp add: tree_state_def ct_wf_def)
  then have k: "kproper k" by simp
  then have "keyrange_wf k" by (simp add: range_proper_def)
  then obtain t1 lt1 where rem: "remove_row_lock_from_tree lkr (k, x) (t, lt) = Some (t1, lt1)" "ct_nodes t1 = as @ bs" "tree_state c base (t1, lt1)"
    "lkr_ok lkr t1" "same_but_mem lt lt1"
    by (rule remove_row_lock_ok [OF Cons.prems(1,2) split(1,3) _ refl])
  let ?cur = "keyrange_extend c cur k"
  have rng: "kproper (lkr_range lkr)" using Cons.prems(2) by (simp add: lkr_ok_def)
  have sp: "spans ?cur (lkr_range lkr) (ct_nodes t1)"
    unfolding rem(2) using spans_extend [OF Cons.prems(6) [unfolded split(1)] ord split(3) Cons.prems(5) rng] .
  have as: "filter (\<lambda>n. koverlap (lkr_range lkr) (fst n)) as = []" using split(2) by (simp add: filter_empty_conv)
  have fl: "filter (\<lambda>n. koverlap (lkr_range lkr) (fst n)) (ct_nodes t1) = ls" using split(4) as by (simp add: rem(2))
  have own: "\<forall>l\<in>set ls. snd l = txnid" using Cons.prems(4) by simp
  have ov: "koverlap cur k" using spans_overlap [OF Cons.prems(6) split(3)] .
  obtain cur' t' lt' where IH: "consolidate lkr txnid ls ?cur (t1, lt1) = Some (cur', t', lt')"
    "ct_nodes t' = filter (\<lambda>n. \<not> koverlap (lkr_range lkr) (fst n)) (ct_nodes t1)" "tree_state c base (t', lt')" "lkr_ok lkr t'" "same_but_mem lt1 lt'"
    "kproper cur'" "spans cur' (lkr_range lkr) (ct_nodes t')" "\<forall>x. covers c cur' x \<longleftrightarrow> covers c ?cur x \<or> (\<exists>l\<in>set ls. covers c (fst l) x)"
    "range_sized ?cur \<longrightarrow> (\<forall>l\<in>set ls. range_sized (fst l)) \<longrightarrow> range_sized cur'"
    using Cons.IH [OF rem(3,4) fl own extend_ok(1) [OF Cons.prems(5) k] sp] by blast
  have cmp: "lt_cmp lt = c" using Cons.prems(1) by (simp add: tree_state_def)
  have "consolidate lkr txnid (l # ls) cur (t, lt) = Some (cur', t', lt')" using IH(1) rem(1) Cons.prems(4) cmp by (simp add: l)
  moreover have "ct_nodes t' = filter (\<lambda>n. \<not> koverlap (lkr_range lkr) (fst n)) (ct_nodes t)" using IH(2) split(3) by (simp add: rem(2) split(1))
  moreover have "\<forall>x. covers c cur' x \<longleftrightarrow> covers c cur x \<or> (\<exists>l\<in>set (l # ls). covers c (fst l) x)"
    using IH(8) extend_ok(4) [OF Cons.prems(5) k ov] by (auto simp: l)
  moreover have "range_sized cur \<longrightarrow> (\<forall>l\<in>set (l # ls). range_sized (fst l)) \<longrightarrow> range_sized cur'"
    using IH(9) extend_ok(5) [OF Cons.prems(5) k] by (simp add: l)
  ultimately show ?case using IH(3-7) same_but_mem_trans [OF rem(5) IH(5)] by blast
qed

lemma overlap_covers: "kproper j \<Longrightarrow> kproper k \<Longrightarrow> koverlap j k \<longleftrightarrow> (\<exists>x. covers c j x \<and> covers c k x)"
  using disjoint_iff [of "range_of j" "range_of k"] by (auto simp: koverlap_def kbefore_def kproper_def covers_within)

lemma blockers_overlap:
  assumes "ordered ns" "kproper rng"
  shows "others (filter (\<lambda>n. koverlap rng (fst n)) ns) txnid = blockers c ns txnid rng"
proof -
  have "koverlap rng k \<longleftrightarrow> (\<exists>x. covers c k x \<and> covers c rng x)" if "(k, u) \<in> set ns" for k u
  proof -
    have "kproper k" using that assms(1) unfolding ranges_ordered_def by force
    then show ?thesis using overlap_covers [OF assms(2)] by blast
  qed
  then show ?thesis by (force simp: others_def blockers_def nodes_held_def)
qed

lemma acquire_consolidated_ok:
  assumes "tree_state c base (t, lt)" "kproper (keyrange_create l r)" "conflicts_ok cs"
  defines "rng \<equiv> keyrange_create l r"
  obtains cs' t' lt' where
    "acquire_lock_consolidated txnid l r cs (t, lt) =
       Some (if blockers c (ct_nodes t) txnid rng = {} then None else Some DB_LOCK_NOTGRANTED, cs', t', lt')"
    "conflicts_added cs (blockers c (ct_nodes t) txnid rng) cs'" "tree_state c base (t', lt')" "same_but_mem lt lt'"
    "if blockers c (ct_nodes t) txnid rng = {}
     then (\<forall>u. nodes_held c (ct_nodes t') u = nodes_held c (ct_nodes t) u \<union> (if u = txnid then {x. covers c rng x} else {})) \<and> ct_nodes t' \<noteq> [] \<and>
       (range_sized rng \<longrightarrow> (\<forall>n\<in>set (ct_nodes t). range_sized (fst n)) \<longrightarrow> (\<forall>n\<in>set (ct_nodes t'). range_sized (fst n)))
     else ct_nodes t' = ct_nodes t \<and> lt' = lt"
proof -
  let ?ov = "\<lambda>n. koverlap rng (fst n)"
  have wf: "ct_wf c t" "lt_cmp lt = c" using assms(1) by (simp_all add: tree_state_def)
  obtain lkr t1 where acq: "lkr_acquire c rng t = Some (lkr, t1)" "lkr_range lkr = rng" "ct_nodes t1 = ct_nodes t" "ct_wf c t1" "lkr_ok lkr t1"
    using lkr_acquire_ok [OF wf(1) assms(2)] unfolding rng_def by metis
  obtain t2 where it: "iterate_and_get_overlapping_row_locks c lkr t1 = (t2, filter ?ov (ct_nodes t))" "ct_nodes t2 = ct_nodes t" "ct_wf c t2" "lkr_ok lkr t2"
    using iterate_locks_ok [OF acq(5,4)] unfolding acq(2,3) by metis
  let ?ls = "filter ?ov (ct_nodes t)"
  have ord: "ordered (ct_nodes t)" using wf(1) by (simp add: ct_wf_def)
  have bl: "others ?ls txnid = blockers c (ct_nodes t) txnid rng" using blockers_overlap [OF ord] assms(2) by (simp add: rng_def)
  obtain cs' where det: "determine_conflicting_txnids ?ls txnid cs = Some (blockers c (ct_nodes t) txnid rng \<noteq> {}, cs')"
    "conflicts_added cs (blockers c (ct_nodes t) txnid rng) cs'"
    using determine_ok [OF assms(3), of ?ls txnid] unfolding bl by blast
  have ts: "tree_state c base (t2, lt)" using assms(1) it(2,3) by (simp add: tree_state_def)
  show thesis
  proof (cases "blockers c (ct_nodes t) txnid rng = {}")
    case False
    then have "acquire_lock_consolidated txnid l r cs (t, lt) = Some (Some DB_LOCK_NOTGRANTED, cs', t2, lt)"
      using acq(1) it(1) det(1) by (simp add: acquire_lock_consolidated_def wf(2) Let_def rng_def)
    then show thesis using False that [of cs' t2 lt] det(2) ts it(2) by simp
  next
    case True
    have own: "\<forall>l\<in>set ?ls. snd l = txnid" using bl True unfolding others_def by blast
    have fl: "filter (\<lambda>n. koverlap (lkr_range lkr) (fst n)) (ct_nodes t2) = ?ls" by (simp add: acq(2) it(2))
    have kp: "kproper rng" using assms(2) by (simp add: rng_def)
    have sp: "spans rng (lkr_range lkr) (ct_nodes t2)" by (simp add: spans_def acq(2))
    obtain cur t3 lt3 where con: "consolidate lkr txnid ?ls rng (t2, lt) = Some (cur, t3, lt3)" "ct_nodes t3 = filter (\<lambda>n. \<not> ?ov n) (ct_nodes t)"
      "tree_state c base (t3, lt3)" "lkr_ok lkr t3" "same_but_mem lt lt3" "kproper cur" "spans cur rng (ct_nodes t3)"
      "\<forall>x. covers c cur x \<longleftrightarrow> covers c rng x \<or> (\<exists>l\<in>set ?ls. covers c (fst l) x)"
      "range_sized rng \<longrightarrow> (\<forall>l\<in>set ?ls. range_sized (fst l)) \<longrightarrow> range_sized cur"
      using consolidate_ok [OF ts it(4) fl own kp sp, unfolded acq(2) it(2)] by blast
    have free: "\<forall>n\<in>set (ct_nodes t3). \<not> koverlap cur (fst n)"
      using con(2) spans_free [OF con(7)] by simp
    have side: "lkr_subtree lkr = [] \<or> (\<forall>n\<in>set (ct_nodes t3). (kbefore (fst n) (lkr_range lkr) \<longrightarrow> kbefore (fst n) cur) \<and> (kbefore (lkr_range lkr) (fst n) \<longrightarrow> kbefore cur (fst n)))"
      using con(7) by (simp add: spans_def acq(2))
    obtain t4 lt4 as bs where ins: "insert_row_lock_into_tree lkr (cur, txnid) (t3, lt3) = Some (t4, lt4)" "ct_nodes t3 = as @ bs" "ct_nodes t4 = as @ (create_copy cur, txnid) # bs"
      "tree_state c base (t4, lt4)" "same_but_mem lt3 lt4"
      by (rule insert_row_lock_ok [OF con(3,4,6) free side])
    have res: "acquire_lock_consolidated txnid l r cs (t, lt) = Some (None, cs', t4, lt4)"
      using acq(1) it(1) det(1) True con(1) ins(1) by (simp add: acquire_lock_consolidated_def wf(2) Let_def rng_def)
    have copy: "covers c (create_copy cur) x \<longleftrightarrow> covers c cur x" "range_sized (create_copy cur) \<longleftrightarrow> range_sized cur" for x
      using create_copy_ok(1) [of cur] con(6) by (simp_all add: covers_def range_proper_def range_sized_def)
    have held: "nodes_held c (ct_nodes t4) u = nodes_held c (ct_nodes t) u \<union> (if u = txnid then {x. covers c rng x} else {})" for u
    proof -
      have "nodes_held c (ct_nodes t4) u = nodes_held c (ct_nodes t3) u \<union> (if u = txnid then {x. covers c cur x} else {})"
        using copy(1) by (auto simp: ins(2,3) nodes_held_simps)
      moreover have "nodes_held c (ct_nodes t) u = nodes_held c (ct_nodes t3) u \<union> nodes_held c ?ls u"
        by (auto simp: con(2) nodes_held_def)
      moreover have "nodes_held c ?ls u = (if u = txnid then {x. \<exists>l\<in>set ?ls. covers c (fst l) x} else {})"
        by (rule nodes_held_own [OF own])
      moreover have "{x. covers c cur x} = {x. covers c rng x} \<union> {x. \<exists>l\<in>set ?ls. covers c (fst l) x}" using con(8) by blast
      ultimately show ?thesis by (cases "u = txnid") (simp_all add: Un_ac)
    qed
    have sized: "range_sized rng \<longrightarrow> (\<forall>n\<in>set (ct_nodes t). range_sized (fst n)) \<longrightarrow> (\<forall>n\<in>set (ct_nodes t4). range_sized (fst n))"
    proof (intro impI)
      assume sz: "range_sized rng" "\<forall>n\<in>set (ct_nodes t). range_sized (fst n)"
      then have "range_sized (create_copy cur)" using con(9) copy(2) by simp
      moreover have "set (as @ bs) \<subseteq> set (ct_nodes t)" unfolding ins(2) [symmetric] con(2) by auto
      ultimately show "\<forall>n\<in>set (ct_nodes t4). range_sized (fst n)" using sz(2) unfolding ins(3) by auto
    qed
    have "ct_nodes t4 \<noteq> []" by (simp add: ins(3))
    show thesis
      by (rule that [OF _ det(2) ins(4) same_but_mem_trans [OF con(5) ins(5)]])
        (unfold if_P [OF True], rule res, intro conjI allI held \<open>ct_nodes t4 \<noteq> []\<close> sized)
  qed
qed

lemma acquire_granted:
  assumes "tree_state c base (t, lt)" "kproper (keyrange_create l r)" "conflicts_ok cs" "blockers c (ct_nodes t) txnid (keyrange_create l r) = {}"
  shows "\<exists>cs' t' lt'. acquire_lock_consolidated txnid l r cs (t, lt) = Some (None, cs', t', lt') \<and> conflicts_added cs {} cs' \<and>
    tree_state c base (t', lt') \<and> same_but_mem lt lt' \<and>
    (\<forall>u. nodes_held c (ct_nodes t') u = nodes_held c (ct_nodes t) u \<union> (if u = txnid then {x. covers c (keyrange_create l r) x} else {})) \<and> ct_nodes t' \<noteq> [] \<and>
    (range_sized (keyrange_create l r) \<longrightarrow> (\<forall>n\<in>set (ct_nodes t). range_sized (fst n)) \<longrightarrow> (\<forall>n\<in>set (ct_nodes t'). range_sized (fst n)))"
  by (rule acquire_consolidated_ok [OF assms(1-3), of txnid], unfold assms(4) if_P [OF refl]) blast

lemma acquire_blocked:
  assumes "tree_state c base (t, lt)" "kproper (keyrange_create l r)" "conflicts_ok cs" "blockers c (ct_nodes t) txnid (keyrange_create l r) \<noteq> {}"
  shows "\<exists>cs' t'. acquire_lock_consolidated txnid l r cs (t, lt) = Some (Some DB_LOCK_NOTGRANTED, cs', t', lt) \<and>
    conflicts_added cs (blockers c (ct_nodes t) txnid (keyrange_create l r)) cs' \<and> tree_state c base (t', lt) \<and> ct_nodes t' = ct_nodes t"
  by (rule acquire_consolidated_ok [OF assms(1-3), of txnid], unfold if_not_P [OF assms(4)]) blast

end

end
