(* ===== verification/Locktree_Sto.thy ===== *)
theory Locktree_Sto
  imports Locktree_Props
begin

text \<open>
  The lock tree as a whole, its invariant and the keys each transaction holds, whether the locks are in the buffer of the single transaction
  optimisation or in the tree; ending the optimisation moves them from the one to the other without a change.
\<close>

subsection \<open>The invariant\<close>

definition blank_record :: rb_record where
  "blank_record = \<lparr>rec_header = header_init NegInf None, rec_left_key = toku_init_dbt, rec_right_key = toku_init_dbt\<rparr>"

definition buffer_ranges :: "range_buffer \<Rightarrow> (DBT \<times> DBT) list" where
  "buffer_ranges b = (case rb_ranges b blank_record of Some out \<Rightarrow> out | None \<Rightarrow> [])"

definition interval_keys :: "comparator \<Rightarrow> interval \<Rightarrow> endpoint set" where
  "interval_keys c i = {x. endpoint_compare c (fst i) x \<le> 0 \<and> endpoint_compare c x (snd i) \<le> 0}"

definition buffer_keys :: "comparator \<Rightarrow> (DBT \<times> DBT) list \<Rightarrow> endpoint set" where
  "buffer_keys c ps = \<Union> (set (map (interval_keys c) (map keys_of ps)))"

text \<open>\<open>lt_held lt u\<close>: the keys that transaction \<open>u\<close> has locked.\<close>

definition lt_held :: "locktree \<Rightarrow> TXNID \<Rightarrow> endpoint set" where
  "lt_held lt u = nodes_held (lt_cmp lt) (ct_nodes (m_rangetree lt)) u \<union>
     (if u = m_sto_txnid lt \<and> u \<noteq> TXNID_NONE then buffer_keys (lt_cmp lt) (buffer_ranges (m_sto_buffer lt)) else {})"

text \<open>A range that can be requested: its ends are in order, and its keys can be stored in a range buffer.\<close>

definition range_ok :: "comparator \<Rightarrow> DBT \<Rightarrow> DBT \<Rightarrow> bool" where
  "range_ok c l r \<longleftrightarrow> range_proper c (keyrange_create l r) \<and> range_sized (keyrange_create l r)"

definition sto_ok :: "comparator \<Rightarrow> range_buffer \<Rightarrow> bool" where
  "sto_ok c b \<longleftrightarrow> (\<exists>cur os. rb_holds b cur os \<and> cur @ concat os \<noteq> [] \<and> (\<forall>p\<in>set (cur @ concat os). range_ok c (fst p) (snd p)))"

definition lt_usage :: "locktree \<Rightarrow> nat" where
  "lt_usage lt = tree_mem lt (ct_nodes (m_rangetree lt)) + rb_total_memory_size (m_sto_buffer lt)"

definition lt_ok :: "nat \<Rightarrow> locktree \<Rightarrow> bool" where
  "lt_ok base lt \<longleftrightarrow> comparator_ok (lt_cmp lt) \<and> ct_wf (lt_cmp lt) (m_rangetree lt) \<and>
     (\<forall>n\<in>set (ct_nodes (m_rangetree lt)). range_sized (fst n)) \<and> charged lt (base + lt_usage lt) \<and>
     (if m_sto_txnid lt = TXNID_NONE then m_sto_buffer lt = rb_create else m_is_empty (m_rangetree lt) \<and> sto_ok (lt_cmp lt) (m_sto_buffer lt))"

lemma lt_create_ok: "comparator_ok c \<Longrightarrow> mem = None \<or> mem = Some base \<Longrightarrow> lt_ok base (locktree_create mem szk szt d c)"
  and lt_create_held: "lt_held (locktree_create mem szk szt d c) u = {}"
  by (auto simp: lt_ok_def locktree_create_def create_wf charged_def lt_usage_def rb_total_memory_size_def rb_create_def total_size_in_use_def
      memarena_create_def lt_held_def nodes_held_def)

lemma rb_create_empty [simp]: "rb_is_empty rb_create" "rb_total_memory_size rb_create = 0" "rb_num_ranges rb_create = 0"
  by (simp_all add: rb_is_empty_def rb_total_memory_size_def rb_create_def total_size_in_use_def memarena_create_def)

subsection \<open>Ranges in a buffer\<close>

lemma covers_create: "{x. covers c (keyrange_create l r) x} = interval_keys c (keyof l, keyof r)"
  by (simp add: covers_def interval_keys_def)

lemma range_ok_storable: "range_ok c l r \<Longrightarrow> storable l r"
proof -
  assume a: "range_ok c l r"
  have "keyrange_wf (keyrange_create l r)" using a by (simp add: range_ok_def range_proper_def)
  moreover have "get_left_key (keyrange_create l r) = l" "get_right_key (keyrange_create l r) = r"
    by (simp_all add: keyrange_create_def get_left_key_def get_right_key_def)
  ultimately have "toku_dbt_equals l r \<longrightarrow> keyof l = keyof r" by (simp add: keyrange_wf_def)
  moreover have "key_ok (keyof l)" "key_ok (keyof r)" using a by (simp_all add: range_ok_def range_sized_def)
  ultimately show ?thesis by (cases l; cases r) (auto simp: storable_def)
qed

lemma same_range_ok:
  assumes "same_range q (keys_of p)" "range_ok c (fst p) (snd p)"
  shows "range_ok c (fst q) (snd q)"
proof -
  have k: "keyof (fst q) = keyof (fst p)" "keyof (snd q) = keyof (snd p)" "toku_dbt_equals (fst q) (snd q) \<longrightarrow> keyof (fst q) = keyof (snd q)"
    using assms(1) by (auto simp: same_range_def keys_of_def)
  then have "range_of (keyrange_create (fst q) (snd q)) = range_of (keyrange_create (fst p) (snd p))" by simp
  then show ?thesis using assms(2) wf_create [OF k(3)] by (simp add: range_ok_def range_proper_def range_sized_def)
qed

lemma rb_read:
  assumes "rb_holds b cur os" "\<forall>p\<in>set (cur @ concat os). range_ok c (fst p) (snd p)"
  obtains out where "rb_ranges b junk = Some out" "map keys_of out = map keys_of (cur @ concat os)" "\<forall>q\<in>set out. range_ok c (fst q) (snd q)"
proof -
  obtain out where out: "rb_ranges b junk = Some out" "list_all2 same_range out (map keys_of (cur @ concat os))"
    using rb_ranges_holds [OF assms(1)] by blast
  have "range_ok c (fst q) (snd q)" if q: "q \<in> set out" for q
  proof -
    obtain i where i: "i < length out" "q = out ! i" using q by (auto simp: in_set_conv_nth)
    then have "same_range q (map keys_of (cur @ concat os) ! i)" "i < length (cur @ concat os)"
      using list_all2_nthD [OF out(2)] list_all2_lengthD [OF out(2)] by simp_all
    then have "same_range q (keys_of ((cur @ concat os) ! i))" "i < length (cur @ concat os)" by (simp_all only: nth_map)
    then show ?thesis using same_range_ok assms(2) nth_mem by metis
  qed
  then show thesis using that out same_range_mset by blast
qed

lemma malloc_total:
  assumes "arena_holds ma cur os" "malloc_from_arena n ma = Some (off, ma')"
  shows "total_size_in_use ma \<le> total_size_in_use ma'"
proof -
  have "ac_used (ma_current_chunk ma) \<le> ac_size (ma_current_chunk ma)"
    using assms(1) by (auto simp: arena_holds_def chunk_holds_def null_chunk_def split: if_splits)
  moreover have "ac_buf (ma_current_chunk ma) = None \<Longrightarrow> ac_used (ma_current_chunk ma) = 0"
    using assms(1) by (auto simp: arena_holds_def chunk_holds_def null_chunk_def split: if_splits)
  ultimately show ?thesis
    using assms(2) by (auto simp: malloc_from_arena_def Let_def total_size_in_use_def split: if_splits Option.bind_splits)
qed

lemma rb_append_total:
  assumes "rb_holds b cur os" "storable l r" "rb_append l r b = Some b'"
  shows "rb_total_memory_size b \<le> rb_total_memory_size b'"
proof -
  have ah: "arena_holds (rb_arena b) (encodes cur) (map encodes os)" using assms(1) by (simp add: rb_holds_def)
  have "rb_append l r b = map_option (\<lambda>ma. b\<lparr>rb_arena := ma, rb_num_ranges := rb_num_ranges b + 1\<rparr>) (arena_put (encode_range l r) (rb_arena b))"
    by (rule rb_append_put [OF ah]) (use assms(2) in \<open>simp_all add: storable_def MAX_KEY_SIZE_def\<close>)
  then obtain off ma' where m: "malloc_from_arena (length (encode_range l r)) (rb_arena b) = Some (off, ma')" "rb_arena b' = arena_write off (encode_range l r) ma'"
    using assms(3) by (auto simp: arena_put_def split: Option.bind_splits)
  then show ?thesis using malloc_total [OF ah m(1)] by (simp add: rb_total_memory_size_def total_size_in_use_def arena_write_def)
qed

lemma buffer_ranges_keys: "rb_holds b cur os \<Longrightarrow> map keys_of (buffer_ranges b) = map keys_of (cur @ concat os)"
  using rb_ranges_holds [of b cur os blank_record] same_range_mset by (auto simp: buffer_ranges_def)

lemma buffer_keys_cong: "map keys_of ps = map keys_of qs \<Longrightarrow> buffer_keys c ps = buffer_keys c qs"
  by (simp only: buffer_keys_def)

lemma buffer_keys_Cons: "buffer_keys c [] = {}" "buffer_keys c (p # ps) = interval_keys c (keys_of p) \<union> buffer_keys c ps"
  by (simp_all add: buffer_keys_def)

subsection \<open>Filling trees\<close>

definition copied :: "row_lock \<Rightarrow> row_lock" where
  "copied n = (create_copy (fst n), snd n)"

lemma tree_mem_mset: "mset ns = mset ms \<Longrightarrow> tree_mem lt ns = tree_mem lt ms"
  by (metis mset_map sum_mset_sum_list tree_mem_def)

context key_comparator
begin

lemma owners_held:
  assumes "ordered ns"
  shows "w \<in> snd ` set ns \<longleftrightarrow> nodes_held c ns w \<noteq> {}"
proof -
  have "\<exists>x. covers c (fst n) x" if "n \<in> set ns" for n
    using assms that overlap_covers [of "fst n" "fst n"] kbefore_asym [of "fst n" "fst n"] by (auto simp: ranges_ordered_def koverlap_def)
  then have ne: "\<exists>x. covers c k x" if "(k, w) \<in> set ns" for k using that by force
  have "w \<in> snd ` set ns \<longleftrightarrow> (\<exists>k. (k, w) \<in> set ns)" by force
  then show ?thesis using ne unfolding nodes_held_def by blast
qed

lemma sto_fill_ok:
  assumes "tree_state c base (t, lt)" "\<forall>p\<in>set recs. range_ok c (fst p) (snd p)" "snd ` set (ct_nodes t) \<subseteq> {m_sto_txnid lt}"
    and "\<forall>n\<in>set (ct_nodes t). range_sized (fst n)"
  shows "\<exists>t' lt'. sto_fill_tree recs (t, lt) = Some (t', lt') \<and> tree_state c base (t', lt') \<and> same_but_mem lt lt' \<and>
    snd ` set (ct_nodes t') \<subseteq> {m_sto_txnid lt} \<and> (\<forall>n\<in>set (ct_nodes t'). range_sized (fst n)) \<and> (recs \<noteq> [] \<longrightarrow> ct_nodes t' \<noteq> []) \<and>
    nodes_held c (ct_nodes t') (m_sto_txnid lt) = nodes_held c (ct_nodes t) (m_sto_txnid lt) \<union> buffer_keys c recs"
  using assms
proof (induction recs arbitrary: t lt)
  case (Cons p recs)
  let ?u = "m_sto_txnid lt" and ?rng = "keyrange_create (fst p) (snd p)"
  have cn: "conflicts_ok None" by (simp add: conflicts_ok_def)
  have rng: "kproper ?rng" "range_sized ?rng" using Cons.prems(2) by (simp_all add: range_ok_def)
  have ord: "ordered (ct_nodes t)" using Cons.prems(1) by (simp add: tree_state_def ct_wf_def)
  have alone: "nodes_held c (ct_nodes t) w = {}" if "w \<noteq> ?u" for w using owners_held [OF ord, of w] that Cons.prems(3) by auto
  then have "blockers c (ct_nodes t) ?u ?rng = {}" unfolding blockers_def by blast
  then obtain cs' t1 lt1 where one: "acquire_lock_consolidated ?u (fst p) (snd p) None (t, lt) = Some (None, cs', t1, lt1)" "tree_state c base (t1, lt1)" "same_but_mem lt lt1"
    "\<forall>w. nodes_held c (ct_nodes t1) w = nodes_held c (ct_nodes t) w \<union> (if w = ?u then {x. covers c ?rng x} else {})" "ct_nodes t1 \<noteq> []"
    "\<forall>n\<in>set (ct_nodes t1). range_sized (fst n)"
    using acquire_granted [OF Cons.prems(1) rng(1) cn] Cons.prems(4) rng(2) by blast
  have ord1: "ordered (ct_nodes t1)" using one(2) by (simp add: tree_state_def ct_wf_def)
  have u: "m_sto_txnid lt1 = ?u" using same_but_mem_sel(3) [OF one(3)] .
  have "nodes_held c (ct_nodes t1) w = {}" if "w \<noteq> ?u" for w using one(4) alone [OF that] that by simp
  then have "w = ?u" if "w \<in> snd ` set (ct_nodes t1)" for w using that owners_held [OF ord1, of w] by metis
  then have "snd ` set (ct_nodes t1) \<subseteq> {m_sto_txnid lt1}" unfolding u by (intro subsetI singletonI) (rule singleton_iff [THEN iffD2])
  moreover have "\<forall>p\<in>set recs. range_ok c (fst p) (snd p)" using Cons.prems(2) by simp
  ultimately
  obtain t' lt' where IH: "sto_fill_tree recs (t1, lt1) = Some (t', lt')" "tree_state c base (t', lt')" "same_but_mem lt1 lt'"
    "snd ` set (ct_nodes t') \<subseteq> {?u}" "\<forall>n\<in>set (ct_nodes t'). range_sized (fst n)" "recs \<noteq> [] \<longrightarrow> ct_nodes t' \<noteq> []"
    "nodes_held c (ct_nodes t') ?u = nodes_held c (ct_nodes t1) ?u \<union> buffer_keys c recs" and
    "snd ` set (ct_nodes t1) \<subseteq> {m_sto_txnid lt1}"
    using Cons.IH [OF one(2) _ _ one(6)] unfolding u by blast
  have "ct_nodes t' \<noteq> []"
    using IH(6,7) one(5) owners_held [OF ord1, of ?u] \<open>snd ` set (ct_nodes t1) \<subseteq> {m_sto_txnid lt1}\<close> u by (cases "ct_nodes t1") (auto simp: nodes_held_def)
  moreover have "nodes_held c (ct_nodes t') ?u = nodes_held c (ct_nodes t) ?u \<union> buffer_keys c (p # recs)"
    using IH(7) one(4) by (simp add: buffer_keys_Cons keys_of_def covers_create Un_assoc)
  moreover have "sto_fill_tree (p # recs) (t, lt) = Some (t', lt')" using one(1) IH(1) by simp
  ultimately show ?case using IH(2,4,5) same_but_mem_trans [OF one(3) IH(3)] by blast
qed (simp add: buffer_keys_Cons)

text \<open>Insertion of ranges that overlap neither each other nor the tree.\<close>

lemma copied_ok:
  assumes "kproper (fst n)"
  shows "kproper (fst (copied n))" "koverlap k (fst (copied n)) \<longleftrightarrow> koverlap k (fst n)" "range_sized (fst (copied n)) \<longleftrightarrow> range_sized (fst n)"
    "row_lock_size_in_tree (copied n) lt = row_lock_size_in_tree n lt" "covers c (fst (copied n)) x \<longleftrightarrow> covers c (fst n) x" "snd (copied n) = snd n"
proof -
  have "range_of (fst (copied n)) = range_of (fst n)" "keyrange_wf (fst (copied n))"
    using create_copy_ok [of "fst n"] assms by (simp_all add: copied_def range_proper_def)
  then show "kproper (fst (copied n))" "koverlap k (fst (copied n)) \<longleftrightarrow> koverlap k (fst n)" "range_sized (fst (copied n)) \<longleftrightarrow> range_sized (fst n)"
    "row_lock_size_in_tree (copied n) lt = row_lock_size_in_tree n lt" "covers c (fst (copied n)) x \<longleftrightarrow> covers c (fst n) x" "snd (copied n) = snd n"
    using assms row_lock_size_range [of "fst (copied n)" "fst n" "snd (copied n)" lt "snd n"]
    by (simp_all add: range_proper_def range_overlap_def range_before_def range_sized_def covers_def copied_def)
qed

definition apart :: "row_lock list \<Rightarrow> bool" where
  "apart ns \<longleftrightarrow> (\<forall>n\<in>set ns. kproper (fst n)) \<and> sorted_wrt (\<lambda>a b. \<not> koverlap (fst a) (fst b)) ns"

lemma ordered_apart: "ordered ns \<Longrightarrow> apart ns"
  by (auto simp: apart_def ranges_ordered_def koverlap_def elim!: sorted_wrt_mono_rel [rotated])

lemma copied_list:
  assumes "\<forall>n\<in>set ns. kproper (fst n)"
  shows "tree_mem lt (map copied ns) = tree_mem lt ns" "nodes_held c (map copied ns) u = nodes_held c ns u"
    "(\<forall>n\<in>set (map copied ns). range_sized (fst n)) \<longleftrightarrow> (\<forall>n\<in>set ns. range_sized (fst n))" "snd ` set (map copied ns) = snd ` set ns"
proof -
  show "tree_mem lt (map copied ns) = tree_mem lt ns" using assms copied_ok(4) by (induction ns) auto
  show "nodes_held c (map copied ns) u = nodes_held c ns u"
    using assms
  proof (induction ns)
    case (Cons n ns)
    obtain k w where n: "n = (k, w)" by (cases n)
    have "covers c (create_copy k) = covers c k" using copied_ok(5) [of n] Cons.prems by (simp add: copied_def fun_eq_iff n)
    then show ?case using Cons by (simp add: nodes_held_simps n copied_def)
  qed simp
  show "(\<forall>n\<in>set (map copied ns). range_sized (fst n)) \<longleftrightarrow> (\<forall>n\<in>set ns. range_sized (fst n))" using assms copied_ok(3) by auto
  show "snd ` set (map copied ns) = snd ` set ns" unfolding set_map image_image copied_def snd_conv ..
qed

lemma nodes_held_mset: "mset ns = mset ms \<Longrightarrow> nodes_held c ns u = nodes_held c ms u"
  using mset_eq_setD [of ns ms] by (simp add: nodes_held_def)

subsection \<open>Ending the optimisation\<close>

lemma migrate_visit:
  assumes "lkr_ok lkr t" "ct_wf c t" "lkr_subtree lkr = []" "apart ns" "\<forall>n\<in>set ns. \<forall>m\<in>set (ct_nodes t). \<not> koverlap (fst n) (fst m)"
  shows "\<exists>t'. visit (\<lambda>rng txnid dst. (True, Option.bind dst (lkr_insert c rng txnid lkr))) ns (Some t) = Some t' \<and>
    mset (ct_nodes t') = mset (ct_nodes t) + mset (map copied ns) \<and> ct_wf c t' \<and> lkr_ok lkr t'"
  using assms
proof (induction ns arbitrary: t)
  case (Cons n ns)
  obtain k x where n: "n = (k, x)" by (cases n)
  have k: "kproper k" "apart ns" "\<forall>m\<in>set ns. \<not> koverlap k (fst m)" using Cons.prems(4) by (auto simp: apart_def n)
  have free: "\<forall>m\<in>set (ct_nodes t). \<not> koverlap k (fst m)" using Cons.prems(5) by (simp add: n)
  obtain t1 as bs where ins: "lkr_insert c k x lkr t = Some t1" "ct_nodes t = as @ bs" "ct_nodes t1 = as @ (create_copy k, x) # bs" "ct_wf c t1" "lkr_ok lkr t1"
    by (rule lkr_insert_ok [OF Cons.prems(1,2) k(1) free, of x]) (use Cons.prems(3) in simp_all)
  have "\<not> koverlap (fst m) (create_copy k)" if "m \<in> set ns" for m
    using k(1,3) that copied_ok(2) [of n "fst m"] koverlap_sym [of k "fst m"] by (simp add: n copied_def)
  then have "\<forall>m\<in>set ns. \<forall>m'\<in>set (ct_nodes t1). \<not> koverlap (fst m) (fst m')" using Cons.prems(5) ins(2,3) by auto
  then show ?case using Cons.IH [OF ins(5,4) Cons.prems(3) k(2)] ins(1-3) by (simp add: n copied_def)
qed simp

lemma sto_migrate_ok:
  assumes "lt_ok base lt" "lt_cmp lt = c" "m_sto_txnid lt \<noteq> TXNID_NONE" "lkr_ok lkr (m_rangetree lt)" "lkr_subtree lkr = []"
  shows "\<exists>mem tree. let lt' = lt\<lparr>lt_mem := mem, m_rangetree := tree\<rparr> in
    sto_migrate_buffer_ranges_to_tree junk lkr lt = Some lt' \<and> ct_wf c tree \<and> (\<forall>n\<in>set (ct_nodes tree). range_sized (fst n)) \<and>
    charged lt' (base + lt_usage lt') \<and>
    (\<forall>u. nodes_held c (ct_nodes tree) u = (if u = m_sto_txnid lt then buffer_keys c (buffer_ranges (m_sto_buffer lt)) else {}))"
proof -
  let ?u = "m_sto_txnid lt" and ?buf = "m_sto_buffer lt"
  have wf: "ct_wf c (m_rangetree lt)" "m_is_empty (m_rangetree lt)" "ct_nodes (m_rangetree lt) = []" "charged lt (base + lt_usage lt)" "sto_ok c ?buf"
    using assms(1-3) by (auto simp: lt_ok_def ct_nodes_def)
  then obtain cur os where h: "rb_holds ?buf cur os" "cur @ concat os \<noteq> []" "\<forall>p\<in>set (cur @ concat os). range_ok c (fst p) (snd p)"
    unfolding sto_ok_def by blast
  obtain recs where recs: "rb_ranges ?buf junk = Some recs" "map keys_of recs = map keys_of (cur @ concat os)" "\<forall>p\<in>set recs. range_ok c (fst p) (snd p)"
    by (rule rb_read [OF h(1,3)])
  have ne: "recs \<noteq> []" "\<not> rb_is_empty ?buf" using recs(2) h(2) rb_empty_holds [OF h(1)] by auto
  have keys: "buffer_keys c recs = buffer_keys c (buffer_ranges ?buf)"
    using recs(2) buffer_ranges_keys [OF h(1)] by (intro buffer_keys_cong) simp
  let ?base = "base + rb_total_memory_size ?buf"
  have "tree_state c ?base (concurrent_tree_create, lt)"
    using wf(3,4) assms(2) create_wf by (simp add: tree_state_def lt_usage_def)
  then obtain t1 lt1 where fill: "sto_fill_tree recs (concurrent_tree_create, lt) = Some (t1, lt1)" "tree_state c ?base (t1, lt1)" "same_but_mem lt lt1"
    "snd ` set (ct_nodes t1) \<subseteq> {?u}" "\<forall>n\<in>set (ct_nodes t1). range_sized (fst n)" "ct_nodes t1 \<noteq> []"
    "nodes_held c (ct_nodes t1) ?u = nodes_held c (ct_nodes concurrent_tree_create) ?u \<union> buffer_keys c recs"
    using sto_fill_ok [of ?base concurrent_tree_create lt recs] recs(3) ne(1) create_wf(2) by auto
  have t1: "ct_wf c t1" "charged lt1 (?base + tree_mem lt1 (ct_nodes t1))" using fill(2) by (simp_all add: tree_state_def)
  have ord: "ordered (ct_nodes t1)" using t1(1) by (simp add: ct_wf_def)
  let ?fn = "\<lambda>rng txnid dst. (True, Option.bind dst (lkr_insert c rng txnid lkr))"
  have fl: "filter (\<lambda>n. koverlap (lkr_range lkr_prepare) (fst n)) (ct_nodes t1) = ct_nodes t1"
    by (simp add: lkr_prepare_ok infinite_proper filter_id_conv)
  have "steady ?fn" by (simp add: steady_def)
  then obtain t2 where it: "lkr_iterate c ?fn lkr_prepare t1 (Some (m_rangetree lt)) = (t2, visit ?fn (ct_nodes t1) (Some (m_rangetree lt)))" "ct_wf c t2"
    using lkr_iterate_ok [OF lkr_prepare_ok(1) t1(1), of ?fn "Some (m_rangetree lt)"] unfolding fl by metis
  obtain dst where dst: "visit ?fn (ct_nodes t1) (Some (m_rangetree lt)) = Some dst" "mset (ct_nodes dst) = mset (map copied (ct_nodes t1))" "ct_wf c dst"
    using migrate_visit [OF assms(4) wf(1) assms(5) ordered_apart [OF ord]] wf(3) by auto
  have proper: "\<forall>n\<in>set (ct_nodes t1). kproper (fst n)" using ord by (simp add: ranges_ordered_def)
  note cl = copied_list [OF proper]
  have "ct_nodes dst \<noteq> []" using dst(2) fill(6) by auto
  then have full: "\<not> m_is_empty dst" using ct_nodes_empty [OF dst(3)] by simp
  let ?lt = "lt\<lparr>lt_mem := lt_mem lt1, m_rangetree := dst\<rparr>"
  have same: "lt1 = lt\<lparr>lt_mem := lt_mem lt1\<rparr>" using fill(3) by (simp add: same_but_mem_def)
  have tm: "tree_mem ?lt ns = tree_mem lt1 ns" for ns
    by (subst same) (simp add: tree_mem_def row_lock_size_in_tree_def)
  have res: "sto_migrate_buffer_ranges_to_tree junk lkr lt = Some ?lt"
    using wf(2) ne(2) recs(1) fill(1) it(1) dst(1) full same_but_mem_sel [OF fill(3)] assms(2) same
    by (simp add: sto_migrate_buffer_ranges_to_tree_def concurrent_tree_is_empty_def concurrent_tree_destroy_def remove_all_nodes(1) [OF it(2)])
  have "tree_mem lt1 (ct_nodes dst) = tree_mem lt1 (ct_nodes t1)" using tree_mem_mset [OF dst(2)] cl(1) by simp
  then have ch: "charged ?lt (base + lt_usage ?lt)" using t1(2) by (simp add: charged_def lt_usage_def tm ac_simps)
  have "set (ct_nodes dst) = set (map copied (ct_nodes t1))" using dst(2) by (rule mset_eq_setD)
  then have sz: "\<forall>n\<in>set (ct_nodes dst). range_sized (fst n)" using cl(3) fill(5) by simp
  have "nodes_held c (ct_nodes dst) w = (if w = ?u then buffer_keys c (buffer_ranges ?buf) else {})" for w
  proof -
    have "nodes_held c (ct_nodes dst) w = nodes_held c (ct_nodes t1) w" using nodes_held_mset [OF dst(2)] cl(2) by simp
    moreover have "nodes_held c (ct_nodes t1) ?u = buffer_keys c (buffer_ranges ?buf)" using fill(7) keys create_wf(2) by (simp add: nodes_held_simps)
    moreover have "nodes_held c (ct_nodes t1) w = {}" if "w \<noteq> ?u" using owners_held [OF ord, of w] fill(4) that by blast
    ultimately show ?thesis by simp
  qed
  then show ?thesis using res dst(3) sz ch by (intro exI [of _ "lt_mem lt1"] exI [of _ dst]) (simp add: Let_def)
qed

lemma sto_end_ok:
  assumes "charged lt (m + rb_total_memory_size (m_sto_buffer lt))"
  obtains mem where "sto_end lt = Some (lt\<lparr>lt_mem := mem, m_sto_buffer := rb_create, m_sto_txnid := TXNID_NONE\<rparr>)" "mem = None \<or> mem = Some m"
proof -
  obtain lt' where "note_mem_released (rb_total_memory_size (m_sto_buffer lt)) lt = Some lt'" "same_but_mem lt lt'" "charged lt' m"
    by (rule note_mem_released_ok [OF assms])
  then show thesis using that [of "lt_mem lt'"] by (auto simp: sto_end_def charged_def same_but_mem_def)
qed

lemma sto_end_early_ok:
  assumes "lt_ok base lt" "lt_cmp lt = c" "m_sto_txnid lt \<noteq> TXNID_NONE" "lkr_ok lkr (m_rangetree lt)" "lkr_subtree lkr = []"
  obtains mem tree where "sto_end_early_no_accounting junk lkr lt =
      Some (lt\<lparr>lt_mem := mem, m_rangetree := tree, m_sto_buffer := rb_create, m_sto_txnid := TXNID_NONE, m_sto_score := 0\<rparr>)"
    "lt_ok base (lt\<lparr>lt_mem := mem, m_rangetree := tree, m_sto_buffer := rb_create, m_sto_txnid := TXNID_NONE, m_sto_score := 0\<rparr>)"
    "\<And>u. lt_held (lt\<lparr>lt_mem := mem, m_rangetree := tree, m_sto_buffer := rb_create, m_sto_txnid := TXNID_NONE, m_sto_score := 0\<rparr>) u = lt_held lt u"
proof -
  obtain mem tree where mig: "sto_migrate_buffer_ranges_to_tree junk lkr lt = Some (lt\<lparr>lt_mem := mem, m_rangetree := tree\<rparr>)" "ct_wf c tree"
    "\<forall>n\<in>set (ct_nodes tree). range_sized (fst n)" "charged (lt\<lparr>lt_mem := mem, m_rangetree := tree\<rparr>) (base + lt_usage (lt\<lparr>lt_mem := mem, m_rangetree := tree\<rparr>))"
    "\<forall>u. nodes_held c (ct_nodes tree) u = (if u = m_sto_txnid lt then buffer_keys c (buffer_ranges (m_sto_buffer lt)) else {})"
    using sto_migrate_ok [OF assms, of junk] unfolding Let_def by blast
  let ?lt1 = "lt\<lparr>lt_mem := mem, m_rangetree := tree\<rparr>"
  have "charged ?lt1 ((base + tree_mem ?lt1 (ct_nodes tree)) + rb_total_memory_size (m_sto_buffer ?lt1))"
    using mig(4) by (simp add: lt_usage_def ac_simps)
  then obtain mem' where en: "sto_end ?lt1 = Some (?lt1\<lparr>lt_mem := mem', m_sto_buffer := rb_create, m_sto_txnid := TXNID_NONE\<rparr>)"
    "mem' = None \<or> mem' = Some (base + tree_mem ?lt1 (ct_nodes tree))"
    by (rule sto_end_ok)
  let ?lt = "lt\<lparr>lt_mem := mem', m_rangetree := tree, m_sto_buffer := rb_create, m_sto_txnid := TXNID_NONE, m_sto_score := 0\<rparr>"
  have tm: "tree_mem ?lt ns = tree_mem ?lt1 ns" for ns by (simp add: tree_mem_def row_lock_size_in_tree_def)
  have emp: "ct_nodes (m_rangetree lt) = []" using assms(1,3) by (simp add: lt_ok_def ct_nodes_def)
  show thesis
  proof (rule that [of tree mem'])
    show "sto_end_early_no_accounting junk lkr lt = Some ?lt" using mig(1) en(1) by (simp add: sto_end_early_no_accounting_def)
    show "lt_ok base ?lt" using mig(2,3) en(2) assms(2) comparator by (simp add: lt_ok_def lt_usage_def tm charged_def)
    show "lt_held ?lt u = lt_held lt u" for u using mig(5) assms(2,3) emp by (auto simp: lt_held_def nodes_held_simps)
  qed
qed

text \<open>The transactions that stand in the way of a request.\<close>

lemma lt_held_none: "m_sto_txnid lt = TXNID_NONE \<Longrightarrow> lt_held lt u = nodes_held (lt_cmp lt) (ct_nodes (m_rangetree lt)) u"
  by (auto simp: lt_held_def)

end

definition lt_blockers :: "locktree \<Rightarrow> TXNID \<Rightarrow> DBT \<Rightarrow> DBT \<Rightarrow> TXNID set" where
  "lt_blockers lt txnid l r = {u. u \<noteq> txnid \<and> lt_held lt u \<inter> interval_keys (lt_cmp lt) (keyof l, keyof r) \<noteq> {}}"

context key_comparator
begin

lemma blockers_lt:
  assumes "m_sto_txnid lt = TXNID_NONE" "lt_cmp lt = c"
  shows "blockers c (ct_nodes (m_rangetree lt)) txnid (keyrange_create l r) = lt_blockers lt txnid l r"
  using assms covers_create [of c l r] by (force simp: blockers_def lt_blockers_def lt_held_none)

text \<open>A request that reaches the tree.\<close>

lemma acquire_in_tree:
  assumes "lt_ok base lt" "lt_cmp lt = c" "m_sto_txnid lt = TXNID_NONE" "range_ok c l r" "conflicts_ok cs"
  shows "\<exists>cs' t' lt1. acquire_lock_consolidated txnid l r cs (m_rangetree lt, lt) =
      Some (if lt_blockers lt txnid l r = {} then None else Some DB_LOCK_NOTGRANTED, cs', t', lt1) \<and>
    conflicts_added cs (lt_blockers lt txnid l r) cs' \<and> lt_ok base (lt1\<lparr>m_rangetree := t'\<rparr>) \<and> lt_cmp lt1 = c \<and> m_sto_txnid lt1 = TXNID_NONE \<and>
    (\<forall>u. lt_held (lt1\<lparr>m_rangetree := t'\<rparr>) u = lt_held lt u \<union> (if lt_blockers lt txnid l r = {} \<and> u = txnid then interval_keys c (keyof l, keyof r) else {}))"
proof -
  let ?rng = "keyrange_create l r" and ?t = "m_rangetree lt"
  have rng: "kproper ?rng" "range_sized ?rng" using assms(4) by (simp_all add: range_ok_def)
  have lt: "ct_wf c ?t" "\<forall>n\<in>set (ct_nodes ?t). range_sized (fst n)" "charged lt (base + lt_usage lt)" "m_sto_buffer lt = rb_create"
    using assms(1-3) by (simp_all add: lt_ok_def)
  have ts: "tree_state c base (?t, lt)" using lt(1,3,4) assms(2) by (simp add: tree_state_def lt_usage_def)
  note bl = blockers_lt [OF assms(3,2), of txnid l r]
  have fin: "lt_ok base (lt1\<lparr>m_rangetree := t'\<rparr>) \<and> lt_cmp lt1 = c \<and> m_sto_txnid lt1 = TXNID_NONE \<and>
    lt_held (lt1\<lparr>m_rangetree := t'\<rparr>) u = nodes_held c (ct_nodes t') u"
    if "tree_state c base (t', lt1)" "same_but_mem lt lt1" "\<forall>n\<in>set (ct_nodes t'). range_sized (fst n)" for t' lt1 u
  proof -
    have "tree_mem (lt1\<lparr>m_rangetree := t'\<rparr>) ns = tree_mem lt1 ns" for ns by (simp add: tree_mem_def row_lock_size_in_tree_def)
    then show ?thesis
      using that same_but_mem_sel [OF that(2)] lt(4) assms(2,3) comparator
      by (simp add: lt_ok_def tree_state_def lt_usage_def charged_def lt_held_none)
  qed
  show ?thesis
  proof (cases "lt_blockers lt txnid l r = {}")
    case True
    then obtain cs' t' lt1 where g: "acquire_lock_consolidated txnid l r cs (?t, lt) = Some (None, cs', t', lt1)" "conflicts_added cs {} cs'"
      "tree_state c base (t', lt1)" "same_but_mem lt lt1"
      "\<forall>u. nodes_held c (ct_nodes t') u = nodes_held c (ct_nodes ?t) u \<union> (if u = txnid then {x. covers c ?rng x} else {})"
      "\<forall>n\<in>set (ct_nodes t'). range_sized (fst n)"
      using acquire_granted [OF ts rng(1) assms(5), of txnid] bl rng(2) lt(2) by metis
    then show ?thesis
      using fin [OF g(3,4,6)] True assms(2,3) by (intro exI [of _ cs'] exI [of _ t'] exI [of _ lt1]) (simp add: lt_held_none covers_create)
  next
    case False
    then obtain cs' t' where g: "acquire_lock_consolidated txnid l r cs (?t, lt) = Some (Some DB_LOCK_NOTGRANTED, cs', t', lt)"
      "conflicts_added cs (lt_blockers lt txnid l r) cs'" "tree_state c base (t', lt)" "ct_nodes t' = ct_nodes ?t"
      using acquire_blocked [OF ts rng(1) assms(5), of txnid] unfolding bl by blast
    have "\<forall>n\<in>set (ct_nodes t'). range_sized (fst n)" using lt(2) g(4) by simp
    then show ?thesis
      using fin [OF g(3) same_but_mem_refl] False g assms(2,3) by (intro exI [of _ cs'] exI [of _ t'] exI [of _ lt]) (simp add: lt_held_none)
  qed
qed

lemma buffer_keys_mset:
  assumes "rb_holds b' cur' os'" "rb_holds b cur os" "mset (cur' @ concat os') = add_mset (l, r) (mset (cur @ concat os))"
  shows "buffer_keys c (buffer_ranges b') = buffer_keys c (buffer_ranges b) \<union> interval_keys c (keyof l, keyof r)"
proof -
  have "set (cur' @ concat os') = insert (l, r) (set (cur @ concat os))" using assms(3) by (metis set_mset_add_mset_insert set_mset_mset)
  moreover have "buffer_keys c (buffer_ranges b') = \<Union> (interval_keys c ` keys_of ` set (cur' @ concat os'))"
    "buffer_keys c (buffer_ranges b) = \<Union> (interval_keys c ` keys_of ` set (cur @ concat os))"
    by (simp_all only: buffer_keys_def buffer_ranges_keys [OF assms(1)] buffer_ranges_keys [OF assms(2)] set_map)
  ultimately show ?thesis by (simp only: image_insert Sup_insert keys_of_def fst_conv snd_conv Un_commute)
qed

lemma sto_append_ok:
  assumes "lt_cmp lt = c" "m_sto_txnid lt \<noteq> TXNID_NONE" "ct_wf c (m_rangetree lt)" "m_is_empty (m_rangetree lt)" "charged lt (base + lt_usage lt)"
    and "rb_holds (m_sto_buffer lt) cur os" "\<forall>p\<in>set (cur @ concat os). range_ok c (fst p) (snd p)" "range_ok c l r"
  obtains lt' where "sto_append l r lt = Some lt'" "lt_ok base lt'" "lt_cmp lt' = c" "m_sto_txnid lt' = m_sto_txnid lt"
    "\<And>u. lt_held lt' u = lt_held lt u \<union> (if u = m_sto_txnid lt then interval_keys c (keyof l, keyof r) else {})"
proof -
  have st: "storable l r" by (rule range_ok_storable [OF assms(8)])
  obtain b' cur' os' where app: "rb_append l r (m_sto_buffer lt) = Some b'" "rb_holds b' cur' os'" "mset (cur' @ concat os') = add_mset (l, r) (mset (cur @ concat os))"
    by (rule rb_append_holds [OF assms(6) st])
  let ?lt = "note_mem_used (rb_total_memory_size b' - rb_total_memory_size (m_sto_buffer lt)) (lt\<lparr>m_sto_buffer := b'\<rparr>)"
  have emp: "ct_nodes (m_rangetree lt) = []" using assms(4) by (simp add: ct_nodes_def)
  have sel: "lt_cmp ?lt = c" "m_rangetree ?lt = m_rangetree lt" "m_sto_txnid ?lt = m_sto_txnid lt" "m_sto_buffer ?lt = b'"
    using assms(1) by (simp_all add: note_mem_used_def)
  have "rb_total_memory_size (m_sto_buffer lt) \<le> rb_total_memory_size b'" by (rule rb_append_total [OF assms(6) st app(1)])
  then have "charged ?lt (base + lt_usage ?lt)"
    using assms(5) emp by (auto simp: charged_def note_mem_used_def lt_usage_def)
  moreover have "sto_ok c b'"
  proof -
    have "set (cur' @ concat os') = insert (l, r) (set (cur @ concat os))" using app(3) by (metis set_mset_add_mset_insert set_mset_mset)
    then have "\<forall>p\<in>set (cur' @ concat os'). range_ok c (fst p) (snd p)" "cur' @ concat os' \<noteq> []" using assms(7,8) by (simp, metis empty_iff insertI1 list.set(1))
    then show ?thesis using app(2) unfolding sto_ok_def by blast
  qed
  ultimately have "lt_ok base ?lt"
    using sel assms(2-4) emp comparator by (simp add: lt_ok_def)
  moreover have "lt_held ?lt u = lt_held lt u \<union> (if u = m_sto_txnid lt then interval_keys c (keyof l, keyof r) else {})" for u
    unfolding lt_held_def sel buffer_keys_mset [OF app(2) assms(6) app(3)] assms(1) using assms(2) by auto
  ultimately show thesis using app(1) sel by (intro that [of ?lt]) (simp_all add: sto_append_def)
qed

lemma acquire_lock_ok:
  assumes "lt_ok base lt" "lt_cmp lt = c" "range_ok c l r" "conflicts_ok cs"
  shows "\<exists>cs' lt'. acquire_lock junk True txnid l r cs lt =
      Some (if lt_blockers lt txnid l r = {} then None else Some DB_LOCK_NOTGRANTED, cs', lt') \<and>
    conflicts_added cs (lt_blockers lt txnid l r) cs' \<and> lt_ok base lt' \<and> lt_cmp lt' = c \<and>
    (\<forall>u. lt_held lt' u = lt_held lt u \<union> (if lt_blockers lt txnid l r = {} \<and> u = txnid then interval_keys c (keyof l, keyof r) else {}))"
proof -
  have wf: "ct_wf c (m_rangetree lt)" "charged lt (base + lt_usage lt)" using assms(1,2) by (simp_all add: lt_ok_def)
  have tree: ?thesis if "sto_try_acquire junk lkr_prepare txnid l r lt = Some (False, lt1)" "lt_ok base lt1" "lt_cmp lt1 = c" "m_sto_txnid lt1 = TXNID_NONE"
    "\<And>u. lt_held lt1 u = lt_held lt u" for lt1
  proof -
    note hyp = that
    have "lt_blockers lt1 txnid l r = lt_blockers lt txnid l r" using that(3,5) assms(2) by (simp add: lt_blockers_def)
    then obtain cs' t' lt2 where a: "acquire_lock_consolidated txnid l r cs (m_rangetree lt1, lt1) =
        Some (if lt_blockers lt txnid l r = {} then None else Some DB_LOCK_NOTGRANTED, cs', t', lt2)"
      "conflicts_added cs (lt_blockers lt txnid l r) cs'" "lt_ok base (lt2\<lparr>m_rangetree := t'\<rparr>)" "lt_cmp lt2 = c"
      "\<forall>u. lt_held (lt2\<lparr>m_rangetree := t'\<rparr>) u = lt_held lt u \<union> (if lt_blockers lt txnid l r = {} \<and> u = txnid then interval_keys c (keyof l, keyof r) else {})"
      using acquire_in_tree [OF hyp(2-4) assms(3,4), of txnid] unfolding hyp(5) by metis
    have "acquire_lock junk True txnid l r cs lt =
        Some (if lt_blockers lt txnid l r = {} then None else Some DB_LOCK_NOTGRANTED, cs', lt2\<lparr>m_rangetree := t'\<rparr>)"
      using that(1) a(1) by (simp add: acquire_lock_def)
    then show ?thesis using a(2-5) by (intro exI [of _ cs'] exI [of _ "lt2\<lparr>m_rangetree := t'\<rparr>"] conjI) simp_all
  qed
  have buffered: ?thesis if "sto_try_acquire junk lkr_prepare txnid l r lt = Some (True, lt1)" "lt_ok base lt1" "lt_cmp lt1 = c"
    "\<And>u. lt_held lt1 u = lt_held lt u \<union> (if u = txnid then interval_keys c (keyof l, keyof r) else {})" "\<And>u. u \<noteq> txnid \<Longrightarrow> lt_held lt u = {}" for lt1
  proof -
    have "lt_blockers lt txnid l r = {}" using that(5) by (auto simp: lt_blockers_def)
    moreover have "conflicts_added cs {} cs" using assms(4) by (auto simp: conflicts_added_def conflicts_ok_def split: option.splits)
    ultimately show ?thesis using that(1-4) by (simp add: acquire_lock_def)
  qed
  show ?thesis
  proof (cases "m_sto_txnid lt = TXNID_NONE")
    case none: True
    then have buf: "m_sto_buffer lt = rb_create" using assms(1) by (simp add: lt_ok_def)
    show ?thesis
    proof (cases "m_is_empty (m_rangetree lt) \<and> STO_SCORE_THRESHOLD \<le> m_sto_score lt \<and> txnid \<noteq> TXNID_NONE")
      case True
      let ?lt = "lt\<lparr>m_sto_txnid := txnid\<rparr>"
      have emp: "lt_held lt u = {}" for u using True none by (simp add: lt_held_def ct_nodes_def nodes_held_simps)
      have "tree_mem ?lt ns = tree_mem lt ns" for ns by (simp add: tree_mem_def row_lock_size_in_tree_def)
      then have ch: "charged ?lt (base + lt_usage ?lt)" using wf(2) by (simp add: charged_def lt_usage_def)
      obtain lt' where lt': "sto_append l r ?lt = Some lt'" "lt_ok base lt'" "lt_cmp lt' = c" "m_sto_txnid lt' = txnid"
        "\<And>u. lt_held lt' u = lt_held ?lt u \<union> (if u = txnid then interval_keys c (keyof l, keyof r) else {})"
        using sto_append_ok [of ?lt base "[]" "[]" l r] ch wf(1) True assms(2,3) buf rb_create_holds by auto
      have "buffer_ranges rb_create = []" using buffer_ranges_keys [OF rb_create_holds] by simp
      then have "lt_held ?lt u = {}" for u using emp [of u] buf none by (simp add: lt_held_def buffer_keys_Cons)
      then show ?thesis
        using lt' True none buf emp
        by (intro buffered [of lt']) (simp_all add: sto_try_acquire_def concurrent_tree_is_empty_def sto_begin_def)
    next
      case False
      have "lt\<lparr>m_sto_txnid := TXNID_NONE\<rparr> = lt" using none by simp
      then have "sto_try_acquire junk lkr_prepare txnid l r lt = Some (False, lt)"
        using False none buf by (auto simp: sto_try_acquire_def concurrent_tree_is_empty_def sto_begin_def)
      then show ?thesis using tree assms(1,2) none by simp
    qed
  next
    case active: False
    then have st: "m_is_empty (m_rangetree lt)" "sto_ok c (m_sto_buffer lt)" using assms(1,2) by (simp_all add: lt_ok_def)
    obtain cur os where h: "rb_holds (m_sto_buffer lt) cur os" "cur @ concat os \<noteq> []" "\<forall>p\<in>set (cur @ concat os). range_ok c (fst p) (snd p)"
      using st(2) unfolding sto_ok_def by blast
    have ne: "\<not> rb_is_empty (m_sto_buffer lt)" using rb_empty_holds [OF h(1)] h(2) by simp
    show ?thesis
    proof (cases "m_sto_txnid lt \<noteq> txnid \<or> rb_num_ranges (m_sto_buffer lt) > STO_BUFFER_MAX_SIZE")
      case True
      let ?lt = "lt\<lparr>m_sto_end_early_count := m_sto_end_early_count lt + 1\<rparr>"
      have "tree_mem ?lt ns = tree_mem lt ns" for ns by (simp add: tree_mem_def row_lock_size_in_tree_def)
      then have ok: "lt_ok base ?lt" using assms(1) by (simp add: lt_ok_def charged_def lt_usage_def)
      have sel: "lt_cmp ?lt = c" "m_sto_txnid ?lt \<noteq> TXNID_NONE" using assms(2) active by simp_all
      obtain mem t where e: "sto_end_early_no_accounting junk lkr_prepare ?lt =
          Some (?lt\<lparr>lt_mem := mem, m_rangetree := t, m_sto_buffer := rb_create, m_sto_txnid := TXNID_NONE, m_sto_score := 0\<rparr>)"
        "lt_ok base (?lt\<lparr>lt_mem := mem, m_rangetree := t, m_sto_buffer := rb_create, m_sto_txnid := TXNID_NONE, m_sto_score := 0\<rparr>)"
        "\<And>u. lt_held (?lt\<lparr>lt_mem := mem, m_rangetree := t, m_sto_buffer := rb_create, m_sto_txnid := TXNID_NONE, m_sto_score := 0\<rparr>) u = lt_held ?lt u"
        by (rule sto_end_early_ok [OF ok sel lkr_prepare_ok(1,2), where junk = junk]) (rule that)
      have "lt_held ?lt u = lt_held lt u" for u by (auto simp: lt_held_def)
      then show ?thesis using e True active ne assms(2)
        by (intro tree [of "?lt\<lparr>lt_mem := mem, m_rangetree := t, m_sto_buffer := rb_create, m_sto_txnid := TXNID_NONE, m_sto_score := 0\<rparr>"])
          (simp_all add: sto_try_acquire_def sto_end_early_def)
    next
      case False
      obtain lt' where lt': "sto_append l r lt = Some lt'" "lt_ok base lt'" "lt_cmp lt' = c" "m_sto_txnid lt' = m_sto_txnid lt"
        "\<And>u. lt_held lt' u = lt_held lt u \<union> (if u = m_sto_txnid lt then interval_keys c (keyof l, keyof r) else {})"
        by (rule sto_append_ok [OF assms(2) active wf(1) st(1) wf(2) h(1,3) assms(3)]) (rule that)
      have "lt_held lt u = {}" if "u \<noteq> txnid" for u
        using that False st(1) by (simp add: lt_held_def ct_nodes_def nodes_held_simps)
      then show ?thesis using lt' False active ne by (intro buffered [of lt']) (simp_all add: sto_try_acquire_def)
    qed
  qed
qed

end

end
