(* ===== verification/Locktree_Release.thy ===== *)
theory Locktree_Release
  imports Locktree_Sto
begin

text \<open>
  Release of row locks and the query for conflicts: a transaction gives up every lock that overlaps one of its ranges, nobody else's locks change,
  and a transaction whose ranges cover all that it holds is left with nothing.
\<close>

context key_comparator
begin

lemma ordered_distinct: "ordered ns \<Longrightarrow> distinct ns"
proof (induction ns)
  case (Cons n ns)
  then have "n \<notin> set ns" using kbefore_asym [of "fst n" "fst n"] by auto
  then show ?case using Cons by simp
qed simp

lemma remove_own_ok:
  assumes "tree_state c base (t, lt)" "lkr_ok lkr t" "distinct ls" "\<forall>l\<in>set ls. l \<in> set (ct_nodes t) \<and> koverlap (lkr_range lkr) (fst l)"
  shows "\<exists>t' lt'. remove_own_locks lkr txnid ls (t, lt) = Some (t', lt') \<and>
    ct_nodes t' = filter (\<lambda>n. \<not> (n \<in> set ls \<and> snd n = txnid)) (ct_nodes t) \<and> tree_state c base (t', lt') \<and> same_but_mem lt lt'"
  using assms
proof (induction ls arbitrary: t lt)
  case (Cons l ls)
  show ?case
  proof (cases "snd l = txnid")
    case False
    then have "filter (\<lambda>n. \<not> (n \<in> set (l # ls) \<and> snd n = txnid)) (ct_nodes t) = filter (\<lambda>n. \<not> (n \<in> set ls \<and> snd n = txnid)) (ct_nodes t)"
      by (intro filter_cong) auto
    then show ?thesis using Cons.IH [OF Cons.prems(1,2)] Cons.prems(3,4) False by simp
  next
    case True
    obtain k x where l: "l = (k, x)" by (cases l)
    obtain as bs where split: "ct_nodes t = as @ (k, x) # bs" using Cons.prems(4) by (auto simp: l dest: split_list)
    have ord: "ordered (ct_nodes t)" using Cons.prems(1) by (simp add: tree_state_def ct_wf_def)
    have "keyrange_wf k" using ord by (simp add: split range_proper_def)
    moreover have "koverlap (lkr_range lkr) k" using Cons.prems(4) by (simp add: l)
    ultimately obtain t1 lt1 where rem: "remove_row_lock_from_tree lkr (k, x) (t, lt) = Some (t1, lt1)" "ct_nodes t1 = as @ bs" "tree_state c base (t1, lt1)"
      "lkr_ok lkr t1" "same_but_mem lt lt1"
      by (rule_tac remove_row_lock_ok [OF Cons.prems(1,2) split _ _ refl])
    have d: "(k, x) \<notin> set as" "(k, x) \<notin> set bs" using ordered_distinct [OF ord] by (simp_all add: split)
    have "\<forall>m\<in>set ls. m \<in> set (ct_nodes t1) \<and> koverlap (lkr_range lkr) (fst m)" using Cons.prems(3,4) rem(2) by (auto simp: l split)
    then obtain t' lt' where IH: "remove_own_locks lkr txnid ls (t1, lt1) = Some (t', lt')"
      "ct_nodes t' = filter (\<lambda>n. \<not> (n \<in> set ls \<and> snd n = txnid)) (ct_nodes t1)" "tree_state c base (t', lt')" "same_but_mem lt1 lt'"
      using Cons.IH [OF rem(3,4)] Cons.prems(3) by auto
    have "filter (\<lambda>n. \<not> (n \<in> set (l # ls) \<and> snd n = txnid)) (as @ bs) = filter (\<lambda>n. \<not> (n \<in> set ls \<and> snd n = txnid)) (as @ bs)"
      using d by (intro filter_cong) (auto simp: l)
    then have "ct_nodes t' = filter (\<lambda>n. \<not> (n \<in> set (l # ls) \<and> snd n = txnid)) (ct_nodes t)" using IH(2) True by (simp add: rem(2) split l)
    then show ?thesis using IH(1,3) same_but_mem_trans [OF rem(5) IH(4)] rem(1) True by (simp add: l)
  qed
qed simp

lemma lt_ok_tree:
  assumes "lt_ok base lt" "lt_cmp lt = c" "m_sto_txnid lt = TXNID_NONE"
  shows "tree_state c base (m_rangetree lt, lt)"
  using assms by (auto simp: lt_ok_def tree_state_def lt_usage_def)

lemma lt_ok_untree:
  assumes "lt_ok base lt" "lt_cmp lt = c" "m_sto_txnid lt = TXNID_NONE" "tree_state c base (t, lt1)" "same_but_mem lt lt1"
    "\<forall>n\<in>set (ct_nodes t). range_sized (fst n)"
  shows "lt_ok base (lt1\<lparr>m_rangetree := t\<rparr>)" "lt_cmp (lt1\<lparr>m_rangetree := t\<rparr>) = c" "m_sto_txnid (lt1\<lparr>m_rangetree := t\<rparr>) = TXNID_NONE"
    "lt_held (lt1\<lparr>m_rangetree := t\<rparr>) u = nodes_held c (ct_nodes t) u"
proof -
  have "tree_mem (lt1\<lparr>m_rangetree := t\<rparr>) ns = tree_mem lt1 ns" for ns by (simp add: tree_mem_def row_lock_size_in_tree_def)
  then show "lt_ok base (lt1\<lparr>m_rangetree := t\<rparr>)" "lt_cmp (lt1\<lparr>m_rangetree := t\<rparr>) = c" "m_sto_txnid (lt1\<lparr>m_rangetree := t\<rparr>) = TXNID_NONE"
    "lt_held (lt1\<lparr>m_rangetree := t\<rparr>) u = nodes_held c (ct_nodes t) u"
    using assms same_but_mem_sel [OF assms(5)] comparator
    by (auto simp: lt_ok_def tree_state_def lt_usage_def charged_def lt_held_none)
qed

lemma get_conflicts_ok:
  assumes "lt_ok base lt" "lt_cmp lt = c" "m_sto_txnid lt = TXNID_NONE" "range_ok c l r" "txnid_set_ok s"
  shows "\<exists>s' t. locktree_get_conflicts txnid l r s lt = Some (s', lt\<lparr>m_rangetree := t\<rparr>) \<and> txnid_set_ok s' \<and> set s' = set s \<union> lt_blockers lt txnid l r \<and>
    lt_ok base (lt\<lparr>m_rangetree := t\<rparr>) \<and> (\<forall>u. lt_held (lt\<lparr>m_rangetree := t\<rparr>) u = lt_held lt u)"
proof -
  let ?rng = "keyrange_create l r"
  have ts: "tree_state c base (m_rangetree lt, lt)" by (rule lt_ok_tree [OF assms(1-3)])
  have wf: "ct_wf c (m_rangetree lt)" using ts by (simp add: tree_state_def)
  have rng: "kproper ?rng" using assms(4) by (simp add: range_ok_def)
  obtain lkr t1 where acq: "lkr_acquire c ?rng (m_rangetree lt) = Some (lkr, t1)" "lkr_range lkr = ?rng" "ct_nodes t1 = ct_nodes (m_rangetree lt)" "ct_wf c t1" "lkr_ok lkr t1"
    by (rule lkr_acquire_ok [OF wf rng])
  obtain t2 where it: "iterate_and_get_overlapping_row_locks c lkr t1 = (t2, filter (\<lambda>n. koverlap ?rng (fst n)) (ct_nodes (m_rangetree lt)))"
    "ct_nodes t2 = ct_nodes (m_rangetree lt)" "ct_wf c t2"
    using iterate_locks_ok [OF acq(5,4)] unfolding acq(2,3) by metis
  have ord: "ordered (ct_nodes (m_rangetree lt))" using wf by (simp add: ct_wf_def)
  note bl = blockers_overlap [OF ord rng, of txnid, unfolded blockers_lt [OF assms(3,2)]]
  obtain s' where det: "determine_conflicting_txnids (filter (\<lambda>n. koverlap ?rng (fst n)) (ct_nodes (m_rangetree lt))) txnid (Some s) =
      Some (lt_blockers lt txnid l r \<noteq> {}, Some s')" "txnid_set_ok s'" "set s' = set s \<union> lt_blockers lt txnid l r"
    using determine_ok [of "Some s" "filter (\<lambda>n. koverlap ?rng (fst n)) (ct_nodes (m_rangetree lt))" txnid] assms(5)
    unfolding bl by (auto simp: conflicts_ok_def conflicts_added_def split: option.splits)
  have "tree_state c base (t2, lt)" using ts it(2,3) by (simp add: tree_state_def)
  moreover have "\<forall>n\<in>set (ct_nodes t2). range_sized (fst n)" using assms(1) it(2) by (simp add: lt_ok_def)
  ultimately have un: "lt_ok base (lt\<lparr>m_rangetree := t2\<rparr>)" "lt_held (lt\<lparr>m_rangetree := t2\<rparr>) u = nodes_held c (ct_nodes t2) u" for u
    using lt_ok_untree [OF assms(1-3) _ same_but_mem_refl] by blast+
  have "locktree_get_conflicts txnid l r s lt = Some (s', lt\<lparr>m_rangetree := t2\<rparr>)"
    using acq(1) it(1) det(1) assms(2) by (simp add: locktree_get_conflicts_def)
  then show ?thesis using det(2,3) un it(2) lt_held_none [OF assms(3)] assms(2) by (intro exI [of _ s'] exI [of _ t2]) simp
qed

text \<open>\<open>released c nodes txnid ivs\<close>: what is left when the locks of \<open>txnid\<close> that overlap one of the intervals are gone.\<close>

definition untouched :: "TXNID \<Rightarrow> DBT \<Rightarrow> DBT \<Rightarrow> row_lock \<Rightarrow> bool" where
  "untouched txnid l r n \<longleftrightarrow> \<not> (koverlap (keyrange_create l r) (fst n) \<and> snd n = txnid)"

lemma remove_overlapping_ok:
  assumes "lt_ok base lt" "lt_cmp lt = c" "m_sto_txnid lt = TXNID_NONE" "range_ok c l r"
  shows "\<exists>lt'. remove_overlapping_locks_for_txnid txnid l r lt = Some lt' \<and> lt_ok base lt' \<and> lt_cmp lt' = c \<and> m_sto_txnid lt' = TXNID_NONE \<and>
    m_sto_score lt' = m_sto_score lt \<and> ct_nodes (m_rangetree lt') = filter (untouched txnid l r) (ct_nodes (m_rangetree lt))"
proof -
  let ?rng = "keyrange_create l r" and ?ns = "ct_nodes (m_rangetree lt)"
  have ts: "tree_state c base (m_rangetree lt, lt)" by (rule lt_ok_tree [OF assms(1-3)])
  have wf: "ct_wf c (m_rangetree lt)" using ts by (simp add: tree_state_def)
  have rng: "kproper ?rng" using assms(4) by (simp add: range_ok_def)
  obtain lkr t1 where acq: "lkr_acquire c ?rng (m_rangetree lt) = Some (lkr, t1)" "lkr_range lkr = ?rng" "ct_nodes t1 = ?ns" "ct_wf c t1" "lkr_ok lkr t1"
    by (rule lkr_acquire_ok [OF wf rng])
  let ?ls = "filter (\<lambda>n. koverlap ?rng (fst n)) ?ns"
  obtain t2 where it: "iterate_and_get_overlapping_row_locks c lkr t1 = (t2, ?ls)" "ct_nodes t2 = ?ns" "ct_wf c t2" "lkr_ok lkr t2"
    using iterate_locks_ok [OF acq(5,4)] unfolding acq(2,3) by metis
  have ts2: "tree_state c base (t2, lt)" using ts it(2,3) by (simp add: tree_state_def)
  have d: "distinct ?ls" using wf ordered_distinct by (simp add: ct_wf_def)
  have inc: "\<forall>l\<in>set ?ls. l \<in> set (ct_nodes t2) \<and> koverlap (lkr_range lkr) (fst l)" using it(2) acq(2) by simp
  obtain t3 lt3 where rem: "remove_own_locks lkr txnid ?ls (t2, lt) = Some (t3, lt3)" "ct_nodes t3 = filter (\<lambda>n. \<not> (n \<in> set ?ls \<and> snd n = txnid)) (ct_nodes t2)"
    "tree_state c base (t3, lt3)" "same_but_mem lt lt3"
    using remove_own_ok [OF ts2 it(4) d inc] by blast
  have nodes: "ct_nodes t3 = filter (untouched txnid l r) ?ns"
    unfolding rem(2) it(2) by (intro filter_cong) (auto simp: untouched_def)
  have "\<forall>n\<in>set (ct_nodes t3). range_sized (fst n)" using assms(1) nodes by (simp add: lt_ok_def)
  note un = lt_ok_untree [OF assms(1-3) rem(3,4) this]
  have "remove_overlapping_locks_for_txnid txnid l r lt = Some (lt3\<lparr>m_rangetree := t3\<rparr>)"
    using acq(1) it(1) rem(1) assms(2) by (simp add: remove_overlapping_locks_for_txnid_def)
  then show ?thesis using un(1-3) nodes same_but_mem_sel(5) [OF rem(4)] by simp
qed

lemma release_ranges_ok:
  assumes "lt_ok base lt" "lt_cmp lt = c" "m_sto_txnid lt = TXNID_NONE" "\<forall>p\<in>set recs. range_ok c (fst p) (snd p)"
  shows "\<exists>lt'. release_ranges txnid recs lt = Some lt' \<and> lt_ok base lt' \<and> lt_cmp lt' = c \<and> m_sto_txnid lt' = TXNID_NONE \<and>
    m_sto_score lt' = m_sto_score lt \<and> ct_nodes (m_rangetree lt') = filter (\<lambda>n. \<forall>p\<in>set recs. untouched txnid (fst p) (snd p) n) (ct_nodes (m_rangetree lt))"
  using assms
proof (induction recs arbitrary: lt)
  case (Cons p recs)
  have p: "range_ok c (fst p) (snd p)" using Cons.prems(4) by simp
  obtain lt1 where one: "remove_overlapping_locks_for_txnid txnid (fst p) (snd p) lt = Some lt1" "lt_ok base lt1" "lt_cmp lt1 = c" "m_sto_txnid lt1 = TXNID_NONE"
    "m_sto_score lt1 = m_sto_score lt" "ct_nodes (m_rangetree lt1) = filter (untouched txnid (fst p) (snd p)) (ct_nodes (m_rangetree lt))"
    using remove_overlapping_ok [OF Cons.prems(1-3) p] by blast
  then show ?case using Cons.IH [OF one(2-4)] Cons.prems(4) by (simp add: conj_commute)
qed simp

lemma untouched_disjoint:
  assumes "ordered ns" "\<forall>p\<in>set recs. range_ok c (fst p) (snd p)"
  shows "nodes_held c (filter (\<lambda>n. \<forall>p\<in>set recs. untouched txnid (fst p) (snd p) n) ns) txnid \<inter> buffer_keys c recs = {}"
proof (rule ccontr)
  assume "\<not> ?thesis"
  then obtain x k p where x: "(k, txnid) \<in> set ns" "\<forall>p\<in>set recs. untouched txnid (fst p) (snd p) (k, txnid)" "covers c k x" "p \<in> set recs"
    "x \<in> interval_keys c (keys_of p)"
    by (auto simp: nodes_held_def buffer_keys_def)
  have "kproper k" using x(1) assms(1) unfolding ranges_ordered_def by force
  moreover have "kproper (keyrange_create (fst p) (snd p))" using x(4) assms(2) by (simp add: range_ok_def)
  moreover have "covers c (keyrange_create (fst p) (snd p)) x" using x(5) covers_create [of c "fst p" "snd p"] by (auto simp: keys_of_def)
  ultimately have "koverlap (keyrange_create (fst p) (snd p)) k" using x(3) overlap_covers by blast
  then show False using x(2,4) by (auto simp: untouched_def)
qed

lemma release_locks_ok:
  assumes "lt_ok base lt" "lt_cmp lt = c" "m_sto_txnid lt = TXNID_NONE \<or> m_sto_txnid lt = txnid"
    and "rb_holds b cur os" "\<forall>p\<in>set (cur @ concat os). range_ok c (fst p) (snd p)"
  shows "\<exists>lt'. release_locks junk txnid b lt = Some lt' \<and> lt_ok base lt' \<and> lt_cmp lt' = c \<and> m_sto_txnid lt' = TXNID_NONE \<and>
    (\<forall>u. u \<noteq> txnid \<longrightarrow> lt_held lt' u = lt_held lt u) \<and> lt_held lt' txnid \<subseteq> lt_held lt txnid \<and>
    lt_held lt' txnid \<inter> buffer_keys c (buffer_ranges b) = {}"
proof (cases "m_sto_txnid lt = TXNID_NONE")
  case False
  then have me: "m_sto_txnid lt = txnid" "txnid \<noteq> TXNID_NONE" using assms(3) by auto
  have st: "m_is_empty (m_rangetree lt)" "ct_wf c (m_rangetree lt)" "charged lt (base + lt_usage lt)" using assms(1,2) False by (simp_all add: lt_ok_def)
  have emp: "ct_nodes (m_rangetree lt) = []" using st(1) by (simp add: ct_nodes_def)
  have "charged lt (base + rb_total_memory_size (m_sto_buffer lt))" using st(3) emp by (simp add: lt_usage_def)
  then obtain mem where en: "sto_end lt = Some (lt\<lparr>lt_mem := mem, m_sto_buffer := rb_create, m_sto_txnid := TXNID_NONE\<rparr>)" "mem = None \<or> mem = Some base"
    by (rule sto_end_ok)
  let ?lt = "lt\<lparr>lt_mem := mem, m_sto_buffer := rb_create, m_sto_txnid := TXNID_NONE\<rparr>"
  have "release_locks junk txnid b lt = Some ?lt"
    using me st(1) en(1) by (simp add: release_locks_def sto_try_release_def concurrent_tree_is_empty_def)
  moreover have "lt_ok base ?lt" using st(2) en(2) emp comparator assms(2) by (auto simp: lt_ok_def lt_usage_def charged_def)
  moreover have "lt_held ?lt u = {}" for u using emp by (simp add: lt_held_none nodes_held_simps)
  moreover have "lt_held lt u = {}" if "u \<noteq> txnid" for u using that emp me by (simp add: lt_held_def nodes_held_simps)
  ultimately show ?thesis using assms(2) by simp
next
  case True
  obtain recs where recs: "rb_ranges b junk = Some recs" "map keys_of recs = map keys_of (cur @ concat os)" "\<forall>p\<in>set recs. range_ok c (fst p) (snd p)"
    by (rule rb_read [OF assms(4,5)])
  have keys: "buffer_keys c recs = buffer_keys c (buffer_ranges b)"
    using recs(2) buffer_ranges_keys [OF assms(4)] by (intro buffer_keys_cong) simp
  let ?ns = "ct_nodes (m_rangetree lt)" and ?keep = "\<lambda>n. \<forall>p\<in>set recs. untouched txnid (fst p) (snd p) n"
  obtain lt1 where rel: "release_ranges txnid recs lt = Some lt1" "lt_ok base lt1" "lt_cmp lt1 = c" "m_sto_txnid lt1 = TXNID_NONE" "ct_nodes (m_rangetree lt1) = filter ?keep ?ns"
    using release_ranges_ok [OF assms(1,2) True recs(3)] by blast
  let ?lt = "if m_sto_score lt1 < STO_SCORE_THRESHOLD then lt1\<lparr>m_sto_score := m_sto_score lt1 + 1\<rparr> else lt1"
  have "release_locks junk txnid b lt = Some ?lt" using True recs(1) rel(1) by (simp add: release_locks_def sto_try_release_def)
  moreover have "lt_ok base ?lt"
  proof -
    have "tree_mem ?lt ns = tree_mem lt1 ns" for ns by (simp add: tree_mem_def row_lock_size_in_tree_def)
    then show ?thesis using rel(2) by (simp add: lt_ok_def lt_usage_def charged_def)
  qed
  moreover have held: "lt_held ?lt u = nodes_held c (filter ?keep ?ns) u" for u using rel(3-5) by (simp add: lt_held_none)
  moreover have old: "lt_held lt u = nodes_held c ?ns u" for u using True assms(2) by (simp add: lt_held_none)
  moreover have "nodes_held c (filter ?keep ?ns) u = nodes_held c ?ns u" if "u \<noteq> txnid" for u
    using that by (auto simp: nodes_held_def untouched_def)
  moreover have "nodes_held c (filter ?keep ?ns) txnid \<subseteq> nodes_held c ?ns txnid" by (auto simp: nodes_held_def)
  moreover have "ordered ?ns" using assms(1,2) by (simp add: lt_ok_def ct_wf_def)
  ultimately show ?thesis using rel(3,4) untouched_disjoint [OF _ recs(3), of ?ns txnid] keys by (intro exI [of _ ?lt]) simp
qed

end

end
