(* ===== verification/Locktree_Escalate.thy ===== *)
theory Locktree_Escalate
  imports Locktree_Release
begin

text \<open>
  Lock escalation, \<open>locktree::escalate\<close> of \<open>src/locktree/locktree.cc\<close>: all locks are taken out of the tree in batches, neighbours of one owner in a batch are
  merged, and the tree is rebuilt from one range buffer per owner. No owner loses a key, no key gets a second owner, and every owner is told
  exactly the ranges that it holds afterwards.
\<close>

subsection \<open>The algorithm\<close>

fun remove_row_locks :: "locked_keyrange \<Rightarrow> row_lock list \<Rightarrow> concurrent_tree \<times> locktree \<Rightarrow> (concurrent_tree \<times> locktree) option" where
  "remove_row_locks lkr [] s = Some s"
| "remove_row_locks lkr (lock # row_locks) s = do {
     s \<leftarrow> remove_row_lock_from_tree lkr lock s;
     remove_row_locks lkr row_locks s
   }"

definition extract_first_n_row_locks ::
  "locked_keyrange \<Rightarrow> nat \<Rightarrow> concurrent_tree \<times> locktree \<Rightarrow> (row_lock list \<times> concurrent_tree \<times> locktree) option" where
  "extract_first_n_row_locks lkr num_to_extract s = (case s of (t, lt) \<Rightarrow> do {
     let (t, row_locks) = lkr_iterate (lt_cmp lt)
       (\<lambda>rng txnid row_locks. if length row_locks < num_to_extract then (True, row_locks @ [(create_copy rng, txnid)]) else (False, row_locks)) lkr t [];
     ensure (length row_locks \<le> num_to_extract);
     s \<leftarrow> remove_row_locks lkr row_locks (t, lt);
     Some (row_locks, s)
   })"

type_synonym txnid_range_buffer = "TXNID \<times> range_buffer"

definition find_buffer_by_txnid :: "TXNID \<Rightarrow> txnid_range_buffer \<Rightarrow> int" where
  "find_buffer_by_txnid txnid other_buffer = (if txnid < fst other_buffer then - 1 else if fst other_buffer = txnid then 0 else 1)"

definition add_escalated_range :: "TXNID \<Rightarrow> DBT \<Rightarrow> DBT \<Rightarrow> txnid_range_buffer list \<Rightarrow> txnid_range_buffer list option" where
  "add_escalated_range txnid left_key right_key bufs =
     (case omt_find_zero (find_buffer_by_txnid txnid) bufs of
        Inl idx \<Rightarrow> do {
          buffer \<leftarrow> rb_append left_key right_key rb_create;
          Some (case omt_insert_at bufs (txnid, buffer) idx of Inr bufs' \<Rightarrow> bufs' | Inl _ \<Rightarrow> bufs)
        }
      | Inr (existing, idx) \<Rightarrow> do {
          ensure (fst existing = txnid);
          buffer \<leftarrow> rb_append left_key right_key (snd existing);
          Some (bufs[idx := (txnid, buffer)])
        })"

text \<open>
  The right end of a group that has more than one lock comes from another copied range than its left end. The copies are in memory at the same
  time, so the addresses of the two ends differ; \<open>toku_clone_dbt\<close> gives an address that does.
\<close>

definition escalated_right_key :: "row_lock \<Rightarrow> row_lock list \<Rightarrow> DBT" where
  "escalated_right_key lock same =
     (if same = [] then get_right_key (fst lock)
      else let r = get_right_key (fst (last same)) in if toku_dbt_is_infinite r then r else toku_clone_dbt (get_left_key (fst lock)) r)"

function escalate_batch :: "row_lock list \<Rightarrow> txnid_range_buffer list \<Rightarrow> txnid_range_buffer list option" where
  "escalate_batch [] bufs = Some bufs"
| "escalate_batch (lock # row_locks) bufs = do {
     let same = takeWhile (\<lambda>l. snd l = snd lock) row_locks;
     bufs \<leftarrow> add_escalated_range (snd lock) (get_left_key (fst lock)) (escalated_right_key lock same) bufs;
     escalate_batch (dropWhile (\<lambda>l. snd l = snd lock) row_locks) bufs
   }"
  by pat_completeness auto
termination
  by (relation "measure (length \<circ> fst)") (auto simp: less_Suc_eq_le length_dropWhile_le)

definition num_row_locks_per_batch :: nat where
  "num_row_locks_per_batch = 128"

text \<open>The loop ends because each batch makes the tree smaller.\<close>

definition ct_size :: "concurrent_tree \<Rightarrow> nat" where
  "ct_size t = tsize (m_root t) + (if m_is_empty t then 0 else 1)"

lemma tsize_nodes: "tsize t = length (tnodes t)"
  by (induction t) auto

lemma treenode_remove_size: "treenode_remove c rng t = Some t' \<Longrightarrow> tsize t = Suc (tsize t')"
proof (induction t arbitrary: t')
  case (TNode k x le l re r)
  show ?case
  proof (cases "keyrange_compare c rng k")
    case EQUALS
    then have "t' = remove_root_of_subtree (TNode k x le l re r)" using TNode.prems by simp
    then show ?thesis using remove_root_nodes [of k x le l re r] by (simp add: tsize_nodes)
  qed (use TNode in \<open>auto split: option.splits\<close>)
qed simp

lemma tsize_put: "node_at p t \<noteq> TNull \<Longrightarrow> tsize (put_at p n t) + tsize (node_at p t) = tsize t + tsize n"
  using surround_put(1) [of p t n] surround_nodes [of t p] by (simp add: tsize_nodes)

lemma lkr_remove_size:
  assumes "lkr_remove c rng lkr t = Some t'"
  shows "ct_size t' < ct_size t"
proof -
  let ?n = "node_at (lkr_subtree lkr) (m_root t)"
  obtain n where n: "treenode_remove c rng ?n = Some n" "\<not> subtree_is_empty lkr t"
    using assms by (auto simp: lkr_remove_def split: Option.bind_splits)
  have ne: "?n \<noteq> TNull" using n(1) by auto
  show ?thesis
  proof (cases "n = TNull")
    case True
    then have root: "lkr_subtree lkr = []" "t' = \<lparr>m_root = clear_node (m_root t), m_is_empty = True\<rparr>"
      using assms n by (auto simp: lkr_remove_def)
    then have "\<not> m_is_empty t" using n(2) by (simp add: subtree_is_empty_def)
    moreover have "tsize (clear_node u) = tsize u" for u by (cases u) simp_all
    ultimately show ?thesis using root by (simp add: ct_size_def)
  next
    case False
    then have "t' = t\<lparr>m_root := put_at (lkr_subtree lkr) n (m_root t)\<rparr>" using assms n by (simp add: lkr_remove_def)
    then show ?thesis using tsize_put [OF ne, of n] treenode_remove_size [OF n(1)] by (simp add: ct_size_def)
  qed
qed

lemma remove_row_locks_size:
  "remove_row_locks lkr ls (t, lt) = Some (t', lt') \<Longrightarrow> ct_size t' \<le> ct_size t \<and> (ls \<noteq> [] \<longrightarrow> ct_size t' < ct_size t)"
proof (induction ls arbitrary: t lt)
  case (Cons l ls)
  then obtain t1 lt1 where one: "remove_row_lock_from_tree lkr l (t, lt) = Some (t1, lt1)" "remove_row_locks lkr ls (t1, lt1) = Some (t', lt')"
    by (auto split: Option.bind_splits)
  then have "lkr_remove (lt_cmp lt) (fst l) lkr t = Some t1" by (auto simp: remove_row_lock_from_tree_def Let_def split: Option.bind_splits)
  then show ?case using Cons.IH [OF one(2)] lkr_remove_size by fastforce
qed simp

lemma extract_size:
  assumes "extract_first_n_row_locks lkr n (t, lt) = Some (ls, t', lt')"
  shows "ls \<noteq> [] \<Longrightarrow> ct_size t' < ct_size t"
proof -
  let ?fn = "\<lambda>rng txnid row_locks. if length row_locks < n then (True, row_locks @ [(create_copy rng, txnid)]) else (False, row_locks)"
  obtain t1 where it: "lkr_iterate (lt_cmp lt) ?fn lkr t [] = (t1, ls)" "remove_row_locks lkr ls (t1, lt) = Some (t', lt')"
    using assms by (auto simp: extract_first_n_row_locks_def split: prod.splits Option.bind_splits)
  have "ct_size t1 = ct_size t"
  proof (cases "node_at (lkr_subtree lkr) (m_root t) = TNull")
    case True
    have "put_at p TNull u = u" if "node_at p u = TNull" for p u using that by (induction p u rule: node_at.induct) simp_all
    then show ?thesis using it(1) True by (auto simp: lkr_iterate_def ct_size_def split: if_splits)
  next
    case False
    let ?n = "fst (traverse_overlaps (lt_cmp lt) (lkr_range lkr) ?fn (node_at (lkr_subtree lkr) (m_root t)) [])"
    have "tsize ?n = tsize (node_at (lkr_subtree lkr) (m_root t))" by (simp only: tsize_nodes traverse_nodes)
    then have "tsize (put_at (lkr_subtree lkr) ?n (m_root t)) = tsize (m_root t)" using tsize_put [OF False, of ?n] by simp
    moreover have "t1 = t \<or> t1 = t\<lparr>m_root := put_at (lkr_subtree lkr) ?n (m_root t)\<rparr>"
      using it(1) by (auto simp: lkr_iterate_def case_prod_beta split: if_splits)
    ultimately show ?thesis by (auto simp: ct_size_def)
  qed
  then show "ct_size t' < ct_size t" if "ls \<noteq> []" using remove_row_locks_size [OF it(2)] that by simp
qed

function escalate_extract ::
  "locked_keyrange \<Rightarrow> txnid_range_buffer list \<Rightarrow> concurrent_tree \<times> locktree \<Rightarrow> (txnid_range_buffer list \<times> concurrent_tree \<times> locktree) option" where
  "escalate_extract lkr bufs s =
     (case extract_first_n_row_locks lkr num_row_locks_per_batch s of
        None \<Rightarrow> None
      | Some (row_locks, s) \<Rightarrow>
          if row_locks = [] then Some (bufs, s)
          else do {
            bufs \<leftarrow> escalate_batch row_locks bufs;
            escalate_extract lkr bufs s
          })"
  by pat_completeness auto
termination
  by (relation "measure (\<lambda>(lkr, bufs, t, lt). ct_size t)") (auto dest: extract_size)

declare escalate_extract.simps [simp del]

fun rebuild_ranges :: "locked_keyrange \<Rightarrow> TXNID \<Rightarrow> (DBT \<times> DBT) list \<Rightarrow> concurrent_tree \<times> locktree \<Rightarrow> (concurrent_tree \<times> locktree) option" where
  "rebuild_ranges lkr txnid [] s = Some s"
| "rebuild_ranges lkr txnid (rec # recs) s = do {
     s \<leftarrow> insert_row_lock_into_tree lkr (keyrange_create (fst rec) (snd rec), txnid) s;
     rebuild_ranges lkr txnid recs s
   }"

fun escalate_rebuild :: "rb_record \<Rightarrow> locked_keyrange \<Rightarrow> txnid_range_buffer list \<Rightarrow> concurrent_tree \<times> locktree \<Rightarrow> (concurrent_tree \<times> locktree) option" where
  "escalate_rebuild junk lkr [] s = Some s"
| "escalate_rebuild junk lkr (buf # bufs) s = do {
     recs \<leftarrow> rb_ranges (snd buf) junk;
     s \<leftarrow> rebuild_ranges lkr (fst buf) recs s;
     escalate_rebuild junk lkr bufs s
   }"

text \<open>The result lists the calls of \<open>after_escalate_callback\<close>, which get an owner and the buffer of its ranges.\<close>

definition escalate :: "rb_record \<Rightarrow> locktree \<Rightarrow> (txnid_range_buffer list \<times> locktree) option" where
  "escalate junk lt = do {
     (lkr, t) \<leftarrow> lkr_acquire (lt_cmp lt) get_infinite_range (m_rangetree lt);
     let lt = lt\<lparr>m_rangetree := t\<rparr>;
     lt \<leftarrow> (if m_sto_txnid lt \<noteq> TXNID_NONE then sto_end_early_no_accounting junk lkr lt else Some lt);
     (bufs, t, lt) \<leftarrow> escalate_extract lkr [] (m_rangetree lt, lt);
     ensure (concurrent_tree_is_empty t);
     (t, lt) \<leftarrow> escalate_rebuild junk lkr bufs (t, lt);
     Some (bufs, lt\<lparr>m_rangetree := t\<rparr>)
   }"

end
