(* ===== verification/Locktree_Escalate_Props.thy ===== *)
theory Locktree_Escalate_Props
  imports Locktree_Escalate
begin

text \<open>
  Escalation keeps the locks: the merged ranges cover the locks they replace, in the same order and for the same owners, so that they are disjoint and can
  be inserted again in any order.
\<close>

subsection \<open>Merging neighbours\<close>

function emit :: "row_lock list \<Rightarrow> (TXNID \<times> DBT \<times> DBT) list" where
  "emit [] = []"
| "emit (lock # row_locks) =
     (snd lock, get_left_key (fst lock), escalated_right_key lock (takeWhile (\<lambda>l. snd l = snd lock) row_locks))
       # emit (dropWhile (\<lambda>l. snd l = snd lock) row_locks)"
  by pat_completeness auto
termination
  by (relation "measure length") (auto simp: less_Suc_eq_le length_dropWhile_le)

definition add_all :: "(TXNID \<times> DBT \<times> DBT) list \<Rightarrow> txnid_range_buffer list \<Rightarrow> txnid_range_buffer list option" where
  "add_all es bufs = fold (\<lambda>(u, l, r) m. Option.bind m (add_escalated_range u l r)) es (Some bufs)"

lemma fold_bind_None: "fold (\<lambda>(u, l, r) m. Option.bind m (add_escalated_range u l r)) es None = None"
  by (induction es) auto

lemma add_all_simps [simp]:
  "add_all [] bufs = Some bufs" "add_all ((u, l, r) # es) bufs = Option.bind (add_escalated_range u l r bufs) (add_all es)"
  by (simp_all add: add_all_def) (cases "add_escalated_range u l r bufs"; simp add: fold_bind_None add_all_def)

lemma escalate_batch_emit: "escalate_batch ls bufs = add_all (emit ls) bufs"
  by (induction ls bufs rule: escalate_batch.induct) (auto simp: Let_def intro!: Option.bind_cong)

definition elock :: "TXNID \<times> DBT \<times> DBT \<Rightarrow> row_lock" where
  "elock e = (keyrange_create (fst (snd e)) (snd (snd e)), fst e)"

lemma escalated_right_end: "keyof (escalated_right_key lock same) = snd (range_of (fst (last (lock # same))))"
  by (auto simp: escalated_right_key_def Let_def range_of_def)

context key_comparator
begin

text \<open>\<open>merges ns ls\<close>: the locks \<open>ls\<close> can stand for \<open>ns\<close>.\<close>

definition merges :: "row_lock list \<Rightarrow> row_lock list \<Rightarrow> bool" where
  "merges ns ls \<longleftrightarrow> ordered ls \<and> (\<forall>l\<in>set ls. range_sized (fst l)) \<and> (\<forall>u. nodes_held c ns u \<subseteq> nodes_held c ls u) \<and> snd ` set ls = snd ` set ns \<and>
     length ls \<le> length ns \<and> (\<forall>a. (\<forall>n\<in>set ns. kbefore a (fst n)) \<longrightarrow> (\<forall>m\<in>set ls. kbefore a (fst m))) \<and>
     (\<forall>b. (\<forall>n\<in>set ns. kbefore (fst n) b) \<longrightarrow> (\<forall>m\<in>set ls. kbefore (fst m) b))"

lemma merges_Nil: "merges [] []"
  by (simp add: merges_def)

lemma merges_held: "merges ns ls \<Longrightarrow> nodes_held c ns u \<subseteq> nodes_held c ls u"
  unfolding merges_def by simp

lemma merges_sides:
  assumes "merges ns ls" "m \<in> set ls"
  shows "\<forall>n\<in>set ns. kbefore a (fst n) \<Longrightarrow> kbefore a (fst m)" "\<forall>n\<in>set ns. kbefore (fst n) a \<Longrightarrow> kbefore (fst m) a"
  using assms unfolding merges_def by simp_all

lemma merges_append:
  assumes "merges ns ls" "merges ns' ls'" "ordered (ns @ ns')"
  shows "merges (ns @ ns') (ls @ ls')"
proof -
  have d: "ordered ls" "ordered ls'" "\<forall>l\<in>set ls. range_sized (fst l)" "\<forall>l\<in>set ls'. range_sized (fst l)" "snd ` set ls = snd ` set ns" "snd ` set ls' = snd ` set ns'"
    "length ls \<le> length ns" "length ls' \<le> length ns'"
    using assms(1,2) by (simp_all add: merges_def)
  have x: "\<forall>n'\<in>set ns'. kbefore (fst n) (fst n')" if "n \<in> set ns" for n using that assms(3) by simp
  have mid: "kbefore (fst m) (fst m')" if m: "m \<in> set ls" "m' \<in> set ls'" for m m'
  proof (rule merges_sides(2) [OF assms(1) m(1)], rule ballI)
    show "kbefore (fst n) (fst m')" if "n \<in> set ns" for n by (rule merges_sides(1) [OF assms(2) m(2) x [OF that]])
  qed
  show ?thesis
    unfolding merges_def
  proof (intro conjI allI impI)
    show "ordered (ls @ ls')" using d(1,2) mid by simp
    show "\<forall>l\<in>set (ls @ ls'). range_sized (fst l)" using d(3,4) by (simp add: ball_Un)
    show "nodes_held c (ns @ ns') u \<subseteq> nodes_held c (ls @ ls') u" for u
      unfolding nodes_held_simps by (rule Un_mono [OF merges_held [OF assms(1)] merges_held [OF assms(2)]])
    show "snd ` set (ls @ ls') = snd ` set (ns @ ns')" by (simp only: set_append image_Un d(5,6))
    show "length (ls @ ls') \<le> length (ns @ ns')" using d(7,8) by simp
    show "\<forall>m\<in>set (ls @ ls'). kbefore a (fst m)" if "\<forall>n\<in>set (ns @ ns'). kbefore a (fst n)" for a
      using that merges_sides(1) [OF assms(1), of _ a] merges_sides(1) [OF assms(2), of _ a] by (simp add: ball_Un)
    show "\<forall>m\<in>set (ls @ ls'). kbefore (fst m) b" if "\<forall>n\<in>set (ns @ ns'). kbefore (fst n) b" for b
      using that merges_sides(2) [OF assms(1), of _ b] merges_sides(2) [OF assms(2), of _ b] by (simp add: ball_Un)
  qed
qed

lemma ordered_last: "ordered ns \<Longrightarrow> n \<in> set ns \<Longrightarrow> n = last ns \<or> kbefore (fst n) (fst (last ns))"
  by (induction ns) (auto split: if_splits)

lemma hull_ok:
  assumes "ordered (lock # same)" "\<forall>n\<in>set (lock # same). range_sized (fst n)" "\<forall>n\<in>set same. snd n = snd lock"
  defines "h \<equiv> keyrange_create (get_left_key (fst lock)) (escalated_right_key lock same)"
  shows "merges (lock # same) [(h, snd lock)]"
proof -
  let ?k = "fst lock" and ?z = "fst (last (lock # same))"
  have kp: "kproper ?k" "kproper ?z" using assms(1) last_in_set [of same] by (auto simp: ranges_ordered_def)
  note right' = escalated_right_end [of lock same]
  have rh: "range_of h = (fst (range_of ?k), snd (range_of ?z))" unfolding h_def using right' by (simp add: range_of_def [of ?k])
  have "toku_dbt_equals (get_left_key ?k) (escalated_right_key lock same) \<longrightarrow> keyof (get_left_key ?k) = keyof (escalated_right_key lock same)"
  proof (cases "same = []")
    case True
    then show ?thesis using kp(1) by (simp add: escalated_right_key_def range_proper_def keyrange_wf_def)
  next
    case False
    then show ?thesis using clone_not_equals(2) infinite_equals by (simp add: escalated_right_key_def Let_def)
  qed
  then have wf: "keyrange_wf h" unfolding h_def by (rule wf_create)
  have first: "endpoint_compare c (fst (range_of ?k)) (fst (range_of (fst n))) \<le> 0" if "n \<in> set (lock # same)" for n
  proof (cases "n = lock")
    case False
    then have "kbefore ?k (fst n)" using that assms(1) by auto
    then show ?thesis using kp(1) cmp_less_trans(2) [of "fst (range_of ?k)"] by (fastforce simp: range_proper_def range_before_def)
  qed simp
  have last': "endpoint_compare c (snd (range_of (fst n))) (snd (range_of ?z)) \<le> 0" if "n \<in> set (lock # same)" for n
  proof -
    have "n = last (lock # same) \<or> kbefore (fst n) ?z" using ordered_last [OF assms(1) that] .
    then show ?thesis using kp(2) cmp_less_trans(1) [of _ "fst (range_of ?z)" "snd (range_of ?z)"] by (fastforce simp: range_proper_def range_before_def)
  qed
  have in': "last (lock # same) \<in> set (lock # same)" by (rule last_in_set) simp
  have "kproper h"
    using cmp_trans [OF first [OF in'], of "snd (range_of ?z)"] kp(2) wf by (simp add: range_proper_def rh del: last.simps)
  moreover have cov: "covers c h x" if "n \<in> set (lock # same)" "covers c (fst n) x" for n x
    using first [OF that(1)] last' [OF that(1)] that(2) cmp_trans unfolding covers_def rh by (metis fst_conv snd_conv)
  moreover have "range_sized ?k" "range_sized ?z" using assms(2) in' by (auto simp del: last.simps)
  then have "range_sized h" by (simp add: range_sized_def rh)
  moreover have "kbefore a h \<longleftrightarrow> kbefore a ?k" "kbefore h b \<longleftrightarrow> kbefore ?z b" for a b by (simp_all add: range_before_def rh)
  moreover have "snd ` set (lock # same) = {snd lock}" using assms(3) by auto
  moreover have "nodes_held c (lock # same) u \<subseteq> nodes_held c [(h, snd lock)] u" for u
  proof
    fix x
    assume "x \<in> nodes_held c (lock # same) u"
    then obtain k where k: "(k, u) \<in> set (lock # same)" "covers c k x" by (auto simp: nodes_held_def)
    then have "u = snd lock" using assms(3) by auto
    then show "x \<in> nodes_held c [(h, snd lock)] u" using cov [OF k(1)] k(2) by (simp add: nodes_held_def)
  qed
  moreover have "kbefore ?z b" if "\<forall>n\<in>set (lock # same). kbefore (fst n) b" for b using that in' by blast
  ultimately show ?thesis
    unfolding merges_def by (simp del: last.simps)
qed

lemma emit_merges:
  assumes "ordered ls" "\<forall>n\<in>set ls. range_sized (fst n)"
  shows "merges ls (map elock (emit ls))"
  using assms
proof (induction ls rule: emit.induct)
  case (2 lock ls)
  let ?same = "takeWhile (\<lambda>l. snd l = snd lock) ls" and ?rest = "dropWhile (\<lambda>l. snd l = snd lock) ls"
  have split: "lock # ls = (lock # ?same) @ ?rest" by simp
  have ord: "ordered ((lock # ?same) @ ?rest)" using "2.prems"(1) by (simp only: split [symmetric])
  then have o: "ordered (lock # ?same)" "ordered ?rest" by (simp_all only: ordered_simps(3))
  have sz: "\<forall>n\<in>set (lock # ?same). range_sized (fst n)" "\<forall>n\<in>set ?rest. range_sized (fst n)"
    using "2.prems"(2) by (auto dest: set_takeWhileD set_dropWhileD)
  have "\<forall>n\<in>set ?same. snd n = snd lock" by (auto dest: set_takeWhileD)
  from merges_append [OF hull_ok [OF o(1) sz(1) this] "2.IH" [OF o(2) sz(2)] ord]
  show ?case by (simp add: elock_def)
qed (simp add: merges_Nil)

end

subsection \<open>One buffer per owner\<close>

definition buffer_good :: "comparator \<Rightarrow> range_buffer \<Rightarrow> bool" where
  "buffer_good c b \<longleftrightarrow> (\<exists>cur os. rb_holds b cur os \<and> (\<forall>p\<in>set (cur @ concat os). range_ok c (fst p) (snd p)))"

definition buffer_ivs :: "txnid_range_buffer \<Rightarrow> (TXNID \<times> interval) list" where
  "buffer_ivs b = map (\<lambda>p. (fst b, keys_of p)) (buffer_ranges (snd b))"

definition bufs_ivs :: "txnid_range_buffer list \<Rightarrow> (TXNID \<times> interval) list" where
  "bufs_ivs bufs = concat (map buffer_ivs bufs)"

lemma bufs_ivs_simps [simp]:
  "bufs_ivs [] = []" "bufs_ivs (b # bufs) = buffer_ivs b @ bufs_ivs bufs" "bufs_ivs (bs @ bs') = bufs_ivs bs @ bufs_ivs bs'"
  by (simp_all add: bufs_ivs_def)

definition buf_key :: "txnid_range_buffer \<Rightarrow> int" where
  "buf_key b = - uint (fst b)"

definition bufs_ok :: "comparator \<Rightarrow> txnid_range_buffer list \<Rightarrow> bool" where
  "bufs_ok c bufs \<longleftrightarrow> sorted_by buf_key bufs \<and> (\<forall>b\<in>set bufs. buffer_good c (snd b))"

lemma find_buffer_key: "find_buffer_by_txnid u = key_cmp buf_key (- uint u)"
  by (auto simp: find_buffer_by_txnid_def key_cmp_def buf_key_def fun_eq_iff word_less_def word_uint_eq_iff)

lemma buffer_good_append:
  assumes "buffer_good c b" "range_ok c l r"
  obtains b' where "rb_append l r b = Some b'" "buffer_good c b'" "mset (buffer_ivs (u, b')) = add_mset (u, keyof l, keyof r) (mset (buffer_ivs (u, b)))"
proof -
  obtain cur os where h: "rb_holds b cur os" "\<forall>p\<in>set (cur @ concat os). range_ok c (fst p) (snd p)" using assms(1) unfolding buffer_good_def by blast
  obtain b' cur' os' where app: "rb_append l r b = Some b'" "rb_holds b' cur' os'" "mset (cur' @ concat os') = add_mset (l, r) (mset (cur @ concat os))"
    by (rule rb_append_holds [OF h(1) range_ok_storable [OF assms(2)]])
  have "set (cur' @ concat os') = insert (l, r) (set (cur @ concat os))" using app(3) by (metis set_mset_add_mset_insert set_mset_mset)
  then have "\<forall>p\<in>set (cur' @ concat os'). range_ok c (fst p) (snd p)" using h(2) assms(2) by simp
  then have g: "buffer_good c b'" using app(2) unfolding buffer_good_def by blast
  have iv: "buffer_ivs (u, b) = map (Pair u) (map keys_of (buffer_ranges b))" for b by (simp add: buffer_ivs_def)
  have "mset (buffer_ivs (u, b')) = add_mset (u, keyof l, keyof r) (mset (buffer_ivs (u, b)))"
    unfolding iv buffer_ranges_keys [OF h(1)] buffer_ranges_keys [OF app(2)] mset_map app(3) by (simp add: keys_of_def)
  then show thesis by (rule that [OF app(1) g])
qed

lemma buffer_good_create: "buffer_good c rb_create" "buffer_ivs (u, rb_create) = []"
  using rb_create_holds buffer_ranges_keys [OF rb_create_holds]
  by (unfold buffer_good_def buffer_ivs_def, intro exI [of _ "[]"] conjI) simp_all

lemma add_escalated_ok:
  assumes "bufs_ok c bufs" "range_ok c l r"
  shows "\<exists>bufs'. add_escalated_range u l r bufs = Some bufs' \<and> bufs_ok c bufs' \<and> mset (bufs_ivs bufs') = add_mset (u, keyof l, keyof r) (mset (bufs_ivs bufs))"
proof -
  have so: "sorted_by buf_key bufs" and good: "\<forall>b\<in>set bufs. buffer_good c (snd b)" using assms(1) by (simp_all add: bufs_ok_def)
  have inj: "buf_key b = - uint u \<longleftrightarrow> fst b = u" for b by (simp add: buf_key_def word_uint_eq_iff)
  show ?thesis
  proof (cases "\<exists>b\<in>set bufs. fst b = u")
    case True
    then obtain b where b: "b \<in> set bufs" "fst b = u" by blast
    then obtain us ws where s: "bufs = us @ b # ws" "below_count (key_cmp buf_key (- uint u)) bufs = length us" "\<forall>w\<in>set us. buf_key w < - uint u" "\<forall>w\<in>set ws. - uint u < buf_key w"
      using sorted_by_split [OF so b(1), of "- uint u"] inj by blast
    have find: "omt_find_zero (find_buffer_by_txnid u) bufs = Inr (b, length us)"
      using s(1,2) b(2) inj unfolding find_buffer_key by (simp add: omt_find_zero_def)
    obtain b' where b': "rb_append l r (snd b) = Some b'" "buffer_good c b'" "mset (buffer_ivs (u, b')) = add_mset (u, keyof l, keyof r) (mset (buffer_ivs (u, snd b)))"
      using good b(1) by (elim buffer_good_append [OF _ assms(2), of "snd b" u, rotated]) simp
    have "add_escalated_range u l r bufs = Some (us @ (u, b') # ws)"
      using find b(2) b'(1) by (simp add: add_escalated_range_def s(1))
    moreover have "buf_key (u, b') = buf_key b" using b(2) by (simp add: buf_key_def)
    then have "bufs_ok c (us @ (u, b') # ws)" using so good b'(2) by (simp add: bufs_ok_def s(1))
    moreover have "(u, snd b) = b" using b(2) by auto
    then have "mset (bufs_ivs (us @ (u, b') # ws)) = add_mset (u, keyof l, keyof r) (mset (bufs_ivs bufs))" using b'(3) by (simp add: s(1))
    ultimately show ?thesis by blast
  next
    case False
    obtain b' where b': "rb_append l r rb_create = Some b'" "buffer_good c b'" "mset (buffer_ivs (u, b')) = add_mset (u, keyof l, keyof r) (mset (buffer_ivs (u, rb_create)))"
      by (rule buffer_good_append [OF buffer_good_create(1) assms(2)])
    have "buf_key (u, b') = - uint u" by (simp add: buf_key_def)
    then have "buf_key (u, b') \<notin> buf_key ` set bufs" using False inj by (metis (no_types, lifting) imageE)
    then obtain i bufs' where ins: "omt_insert (key_cmp buf_key (buf_key (u, b'))) bufs (u, b') = Inr (bufs', i)" "sorted_by buf_key bufs'" "set bufs' = insert (u, b') (set bufs)"
      by (rule omt_insert_sorted [OF so])
    have k: "key_cmp buf_key (buf_key (u, b')) = find_buffer_by_txnid u" by (simp add: find_buffer_key buf_key_def)
    obtain i' where i': "omt_find_zero (find_buffer_by_txnid u) bufs = Inl i'" "i' \<le> length bufs" "bufs' = take i' bufs @ (u, b') # drop i' bufs"
      using ins(1) unfolding k omt_insert_def omt_insert_at_def by (auto split: sum.splits prod.splits if_splits)
    have "add_escalated_range u l r bufs = Some bufs'" using i' b'(1) by (simp add: add_escalated_range_def omt_insert_at_def)
    moreover have "bufs_ok c bufs'" using ins(2,3) good b'(2) by (simp add: bufs_ok_def)
    moreover have "mset (bufs_ivs bufs') = add_mset (u, keyof l, keyof r) (mset (bufs_ivs (take i' bufs @ drop i' bufs)))"
      unfolding i'(3) bufs_ivs_simps using b'(3) buffer_good_create(2) by simp
    ultimately show ?thesis by simp
  qed
qed

definition eiv :: "TXNID \<times> DBT \<times> DBT \<Rightarrow> TXNID \<times> interval" where
  "eiv e = (fst e, keyof (fst (snd e)), keyof (snd (snd e)))"

lemma add_all_ok:
  assumes "bufs_ok c bufs" "\<forall>(u, l, r)\<in>set es. range_ok c l r"
  shows "\<exists>bufs'. add_all es bufs = Some bufs' \<and> bufs_ok c bufs' \<and> mset (bufs_ivs bufs') = mset (bufs_ivs bufs) + mset (map eiv es)"
  using assms
proof (induction es arbitrary: bufs)
  case (Cons e es)
  obtain u l r where e: "e = (u, l, r)" by (cases e)
  have "range_ok c l r" using Cons.prems(2) by (simp add: e)
  then obtain b1 where one: "add_escalated_range u l r bufs = Some b1" "bufs_ok c b1" "mset (bufs_ivs b1) = add_mset (u, keyof l, keyof r) (mset (bufs_ivs bufs))"
    using add_escalated_ok [OF Cons.prems(1)] by blast
  then show ?case using Cons.IH [OF one(2)] Cons.prems(2) by (simp add: e eiv_def)
qed simp

subsection \<open>Taking the locks out\<close>

definition liv :: "row_lock \<Rightarrow> TXNID \<times> interval" where
  "liv n = (snd n, range_of (fst n))"

lemma liv_elock [simp]: "liv (elock e) = eiv e"
  by (simp add: liv_def elock_def eiv_def)

text \<open>
  The rows of a lock tree are its owners and ranges in the order of the keys. Escalation merges neighbours of one owner, in batches: \<open>coalesce\<close>.
\<close>

definition lt_rows :: "locktree \<Rightarrow> (TXNID \<times> interval) list" where
  "lt_rows lt = map liv (ct_nodes (m_rangetree lt))"

fun merge_neighbours :: "(TXNID \<times> interval) list \<Rightarrow> (TXNID \<times> interval) list" where
  "merge_neighbours [] = []"
| "merge_neighbours [p] = [p]"
| "merge_neighbours (p # q # ps) =
     (if fst q = fst p then merge_neighbours ((fst p, fst (snd p), snd (snd q)) # ps) else p # merge_neighbours (q # ps))"

fun in_batches :: "nat \<Rightarrow> 'a list \<Rightarrow> 'a list list" where
  "in_batches n [] = []"
| "in_batches n (x # xs) = (x # take n xs) # in_batches n (drop n xs)"

definition coalesce :: "(TXNID \<times> interval) list \<Rightarrow> (TXNID \<times> interval) list" where
  "coalesce rows = concat (map merge_neighbours (in_batches (num_row_locks_per_batch - 1) rows))"

lemma coalesce_simps:
  "coalesce [] = []"
  "rows \<noteq> [] \<Longrightarrow> coalesce rows = merge_neighbours (take num_row_locks_per_batch rows) @ coalesce (drop num_row_locks_per_batch rows)"
  by (simp add: coalesce_def) (cases rows; simp add: coalesce_def num_row_locks_per_batch_def)

lemma merge_same:
  "\<forall>q\<in>set qs. fst q = fst p \<Longrightarrow> rs = [] \<or> fst (hd rs) \<noteq> fst p \<Longrightarrow>
     merge_neighbours (p # qs @ rs) = (fst p, fst (snd p), snd (snd (last (p # qs)))) # merge_neighbours rs"
proof (induction qs arbitrary: p)
  case Nil
  then show ?case by (cases rs) auto
next
  case (Cons q qs)
  then show ?case using Cons.IH [of "(fst p, fst (snd p), snd (snd q))"] by (cases qs) simp_all
qed

lemma emit_rows: "map eiv (emit ls) = merge_neighbours (map liv ls)"
proof (induction ls rule: emit.induct)
  case (2 lock ls)
  let ?same = "takeWhile (\<lambda>l. snd l = snd lock) ls" and ?rest = "dropWhile (\<lambda>l. snd l = snd lock) ls"
  have "map liv (lock # ls) = liv lock # map liv ?same @ map liv ?rest" by (simp flip: map_append)
  moreover have "?rest = [] \<or> fst (hd (map liv ?rest)) \<noteq> fst (liv lock)"
    using hd_dropWhile [of "\<lambda>l. snd l = snd lock" ls] by (cases ?rest) (auto simp: liv_def)
  moreover have "\<forall>q\<in>set (map liv ?same). fst q = fst (liv lock)" by (auto simp: liv_def dest: set_takeWhileD)
  ultimately have m: "merge_neighbours (map liv (lock # ls)) =
      (fst (liv lock), fst (snd (liv lock)), snd (snd (last (liv lock # map liv ?same)))) # merge_neighbours (map liv ?rest)"
    using merge_same [of "map liv ?same" "liv lock" "map liv ?rest"] by simp
  have "last (liv lock # map liv ?same) = liv (last (lock # ?same))" by (simp add: last_map)
  then have "eiv (hd (emit (lock # ls))) = (fst (liv lock), fst (snd (liv lock)), snd (snd (last (liv lock # map liv ?same))))"
    by (simp add: eiv_def escalated_right_end liv_def range_of_def [of "fst lock"] del: last.simps)
  then show ?case using "2.IH" unfolding m by simp
qed simp

lemma sorted_wrt_unique:
  "sorted_wrt R xs \<Longrightarrow> sorted_wrt R ys \<Longrightarrow> mset xs = mset ys \<Longrightarrow> \<forall>x\<in>set xs. \<forall>y\<in>set xs. R x y \<longrightarrow> \<not> R y x \<Longrightarrow> xs = ys"
proof (induction xs arbitrary: ys)
  case (Cons x xs)
  have "ys \<noteq> []" using Cons.prems(3) by auto
  then obtain y ys' where ys: "ys = y # ys'" by (cases ys) simp_all
  have in': "set ys = set (x # xs)" using mset_eq_setD [OF Cons.prems(3)] by simp
  have "y = x"
  proof (rule ccontr)
    assume "y \<noteq> x"
    then have "x \<in> set ys'" "y \<in> set xs" using in' by (auto simp: ys)
    then have "R y x" "R x y" using Cons.prems(1,2) by (simp_all add: ys)
    then show False using Cons.prems(4) \<open>y \<in> set xs\<close> by auto
  qed
  moreover have "xs = ys'"
  proof (rule Cons.IH)
    show "sorted_wrt R xs" "sorted_wrt R ys'" "mset xs = mset ys'" using Cons.prems(1-3) \<open>y = x\<close> by (simp_all add: ys)
    show "\<forall>x\<in>set xs. \<forall>y\<in>set xs. R x y \<longrightarrow> \<not> R y x" using Cons.prems(4) by (meson list.set_intros(2))
  qed
  ultimately show ?case by (simp add: ys)
qed simp

lemma nodes_held_liv: "nodes_held c ns u = (\<Union>p\<in>{p \<in> set (map liv ns). fst p = u}. interval_keys c (snd p))"
  by (force simp: nodes_held_def liv_def interval_keys_def covers_def)

context key_comparator
begin

lemma remove_row_locks_ok:
  assumes "tree_state c base (t, lt)" "lkr_ok lkr t" "lkr_range lkr = get_infinite_range" "ct_nodes t = ns @ rest"
  shows "\<exists>t' lt'. remove_row_locks lkr (map copied ns) (t, lt) = Some (t', lt') \<and> ct_nodes t' = rest \<and> tree_state c base (t', lt') \<and> lkr_ok lkr t' \<and> same_but_mem lt lt'"
  using assms
proof (induction ns arbitrary: t lt)
  case (Cons n ns)
  obtain k x where n: "n = (k, x)" by (cases n)
  have nodes: "ct_nodes t = [] @ (k, x) # (ns @ rest)" using Cons.prems(4) by (simp add: n)
  have "kproper k" using Cons.prems(1) by (simp add: tree_state_def ct_wf_def nodes)
  then have cp: "keyrange_wf (create_copy k)" "range_of (create_copy k) = range_of k" using create_copy_ok [of k] by (simp_all add: range_proper_def)
  have ov: "koverlap (lkr_range lkr) k" by (simp add: Cons.prems(3) infinite_proper)
  obtain t1 lt1 where rem: "remove_row_lock_from_tree lkr (create_copy k, x) (t, lt) = Some (t1, lt1)" "ct_nodes t1 = ns @ rest" "tree_state c base (t1, lt1)" "lkr_ok lkr t1" "same_but_mem lt lt1"
    by (rule remove_row_lock_ok [OF Cons.prems(1,2) nodes ov cp, of x]) (use that in simp)
  then show ?case using Cons.IH [OF rem(3,4) Cons.prems(3) rem(2)] same_but_mem_trans [OF rem(5)] by (auto simp: n copied_def)
qed simp

lemma extract_ok:
  assumes "tree_state c base (t, lt)" "lkr_ok lkr t" "lkr_range lkr = get_infinite_range"
  shows "\<exists>t' lt'. extract_first_n_row_locks lkr m (t, lt) = Some (map copied (take m (ct_nodes t)), t', lt') \<and> ct_nodes t' = drop m (ct_nodes t) \<and>
    tree_state c base (t', lt') \<and> lkr_ok lkr t' \<and> same_but_mem lt lt'"
proof -
  let ?fn = "\<lambda>rng txnid row_locks. if length row_locks < m then (True, row_locks @ [(create_copy rng, txnid)]) else (False, row_locks)"
  have wf: "ct_wf c t" "lt_cmp lt = c" using assms(1) by (simp_all add: tree_state_def)
  have st: "steady ?fn" by (simp add: steady_def)
  have v: "visit ?fn ns acc = acc @ map copied (take (m - length acc) ns)" for ns acc
  proof (induction ns arbitrary: acc)
    case (Cons n ns)
    show ?case
    proof (cases "length acc < m")
      case True
      then show ?thesis using Cons.IH [of "acc @ [copied n]"] by (simp add: copied_def Suc_diff_Suc [symmetric])
    next
      case False
      then show ?thesis using Cons.IH [of acc] by simp
    qed
  qed simp
  have fl: "filter (\<lambda>n. koverlap (lkr_range lkr) (fst n)) (ct_nodes t) = ct_nodes t" by (simp add: assms(3) infinite_proper filter_id_conv)
  obtain t1 where it: "lkr_iterate c ?fn lkr t [] = (t1, map copied (take m (ct_nodes t)))" "ct_nodes t1 = ct_nodes t" "ct_wf c t1" "lkr_ok lkr t1"
    by (rule lkr_iterate_ok [OF assms(2) wf(1) st, of "[]", unfolded fl v]) (simp add: that)
  have ts: "tree_state c base (t1, lt)" using assms(1) it(2,3) by (simp add: tree_state_def)
  have nodes: "ct_nodes t1 = take m (ct_nodes t) @ drop m (ct_nodes t)" using it(2) by simp
  show ?thesis
    using remove_row_locks_ok [OF ts it(4) assms(3) nodes] it(1) wf(2) by (auto simp: extract_first_n_row_locks_def)
qed

lemma merges_copied:
  assumes "merges (map copied ns) ls" "\<forall>n\<in>set ns. kproper (fst n)"
  shows "merges ns ls"
proof -
  have "kbefore a (fst (copied n)) \<longleftrightarrow> kbefore a (fst n)" "kbefore (fst (copied n)) a \<longleftrightarrow> kbefore (fst n) a" if "n \<in> set ns" for a n
    using that assms(2) create_copy_ok(1) [of "fst n"] by (simp_all add: copied_def range_before_def range_proper_def)
  then have b: "(\<forall>n\<in>set (map copied ns). kbefore a (fst n)) \<longleftrightarrow> (\<forall>n\<in>set ns. kbefore a (fst n))"
    "(\<forall>n\<in>set (map copied ns). kbefore (fst n) a) \<longleftrightarrow> (\<forall>n\<in>set ns. kbefore (fst n) a)" for a by simp_all
  show ?thesis using assms(1) unfolding merges_def copied_list(2,4) [OF assms(2)] length_map b .
qed

lemma ordered_copied: "ordered ns \<Longrightarrow> ordered (map copied ns)"
proof (induction ns)
  case (Cons n ns)
  then have "kproper (fst n)" "\<forall>m\<in>set ns. kproper (fst m)" by (auto simp: ranges_ordered_def)
  then show ?case using Cons create_copy_ok(1) by (auto simp: copied_def range_before_def range_proper_def create_copy_ok)
qed simp

lemma elock_range_ok: "range_ok c l r \<longleftrightarrow> kproper (fst (elock (u, l, r))) \<and> range_sized (fst (elock (u, l, r)))"
  by (simp add: elock_def range_ok_def)

lemma escalate_extract_ok:
  assumes "tree_state c base (t, lt)" "lkr_ok lkr t" "lkr_range lkr = get_infinite_range" "\<forall>n\<in>set (ct_nodes t). range_sized (fst n)" "bufs_ok c bufs"
  shows "\<exists>bufs' ls t' lt'. escalate_extract lkr bufs (t, lt) = Some (bufs', t', lt') \<and> bufs_ok c bufs' \<and>
    mset (bufs_ivs bufs') = mset (bufs_ivs bufs) + mset (map liv ls) \<and> merges (ct_nodes t) ls \<and> map liv ls = coalesce (map liv (ct_nodes t)) \<and> ct_nodes t' = [] \<and>
    tree_state c base (t', lt') \<and> lkr_ok lkr t' \<and> same_but_mem lt lt'"
  using assms(1,2,4,5)
proof (induction "length (ct_nodes t)" arbitrary: t lt bufs rule: less_induct)
  case less
  let ?b = num_row_locks_per_batch and ?ns = "ct_nodes t"
  obtain t1 lt1 where ex: "extract_first_n_row_locks lkr ?b (t, lt) = Some (map copied (take ?b ?ns), t1, lt1)" "ct_nodes t1 = drop ?b ?ns"
    "tree_state c base (t1, lt1)" "lkr_ok lkr t1" "same_but_mem lt lt1"
    using extract_ok [OF less.prems(1,2) assms(3), of ?b] by blast
  show ?case
  proof (cases "?ns = []")
    case True
    have "escalate_extract lkr bufs (t, lt) = Some (bufs, t1, lt1)" using ex(1) True by (subst escalate_extract.simps) simp
    then show ?thesis using ex(2-5) True less.prems(4) merges_Nil by (intro exI [of _ bufs] exI [of _ "[]"] exI [of _ t1] exI [of _ lt1]) (simp add: coalesce_simps)
  next
    case False
    let ?batch = "map copied (take ?b ?ns)"
    have ord: "ordered ?ns" using less.prems(1) by (simp add: tree_state_def ct_wf_def)
    have ord': "ordered (take ?b ?ns)" using ord ordered_simps(3) [of "take ?b ?ns" "drop ?b ?ns"] by simp
    have proper: "\<forall>n\<in>set (take ?b ?ns). kproper (fst n)" using ord' by (simp add: ranges_ordered_def)
    have sz: "\<forall>n\<in>set ?batch. range_sized (fst n)" using copied_list(3) [OF proper] less.prems(3) by (auto dest: in_set_takeD)
    let ?es = "emit ?batch"
    have m1: "merges (take ?b ?ns) (map elock ?es)" by (rule merges_copied [OF emit_merges [OF ordered_copied [OF ord'] sz] proper])
    then have "\<forall>n\<in>set (map elock ?es). kproper (fst n) \<and> range_sized (fst n)" by (simp add: merges_def ranges_ordered_def)
    then have "\<forall>(u, l, r)\<in>set ?es. range_ok c l r" using elock_range_ok by fastforce
    then obtain bufs1 where b1: "add_all ?es bufs = Some bufs1" "bufs_ok c bufs1" "mset (bufs_ivs bufs1) = mset (bufs_ivs bufs) + mset (map eiv ?es)"
      using add_all_ok [OF less.prems(4)] by blast
    have shorter: "length (ct_nodes t1) < length ?ns" using False by (simp add: ex(2) num_row_locks_per_batch_def)
    have sz1: "\<forall>n\<in>set (ct_nodes t1). range_sized (fst n)" using less.prems(3) ex(2) by (auto dest: in_set_dropD)
    obtain bufs' ls t' lt' where IH: "escalate_extract lkr bufs1 (t1, lt1) = Some (bufs', t', lt')" "bufs_ok c bufs'"
      "mset (bufs_ivs bufs') = mset (bufs_ivs bufs1) + mset (map liv ls)" "merges (ct_nodes t1) ls" "map liv ls = coalesce (map liv (ct_nodes t1))" "ct_nodes t' = []"
      "tree_state c base (t', lt')" "lkr_ok lkr t'" "same_but_mem lt1 lt'"
      using less.hyps [OF shorter ex(3,4) sz1 b1(2)] by (elim exE conjE) (rule that)
    have "escalate_extract lkr bufs (t, lt) = Some (bufs', t', lt')"
      using ex(1) False b1(1) IH(1) by (subst escalate_extract.simps) (simp add: escalate_batch_emit num_row_locks_per_batch_def)
    moreover have "merges ?ns (map elock ?es @ ls)"
      using merges_append [OF m1 IH(4) [unfolded ex(2)]] ord by simp
    moreover have "mset (bufs_ivs bufs') = mset (bufs_ivs bufs) + mset (map liv (map elock ?es @ ls))"
      unfolding IH(3) b1(3) by (simp add: comp_def)
    moreover have "map liv (map elock ?es @ ls) = coalesce (map liv ?ns)"
    proof -
      have "map liv ?batch = map liv (take ?b ?ns)"
        unfolding map_map by (rule map_cong [OF refl]) (use proper in \<open>simp add: liv_def copied_def range_proper_def create_copy_ok\<close>)
      then have "map liv ?batch = take ?b (map liv ?ns)" by (simp only: take_map)
      then have "map liv (map elock ?es) = merge_neighbours (take ?b (map liv ?ns))" 
        using emit_rows [of ?batch] by (simp only: map_map comp_def liv_elock)
      then show ?thesis using False IH(5) ex(2) by (simp add: coalesce_simps(2) drop_map)
    qed
    ultimately show ?thesis using IH(2,6-8) same_but_mem_trans [OF ex(5) IH(9)] by blast
  qed
qed

end

subsection \<open>Putting the locks back\<close>

fun insert_row_locks :: "locked_keyrange \<Rightarrow> row_lock list \<Rightarrow> concurrent_tree \<times> locktree \<Rightarrow> (concurrent_tree \<times> locktree) option" where
  "insert_row_locks lkr [] s = Some s"
| "insert_row_locks lkr (l # ls) s = Option.bind (insert_row_lock_into_tree lkr l s) (insert_row_locks lkr ls)"

lemma insert_row_locks_append: "insert_row_locks lkr (ls @ ms) s = Option.bind (insert_row_locks lkr ls s) (insert_row_locks lkr ms)"
  by (induction ls arbitrary: s) (auto intro: Option.bind_cong)

lemma rebuild_ranges_insert: "rebuild_ranges lkr u recs s = insert_row_locks lkr (map (\<lambda>p. elock (u, fst p, snd p)) recs) s"
  by (induction recs arbitrary: s) (auto simp: elock_def intro: Option.bind_cong)

lemma escalate_rebuild_insert:
  assumes "\<forall>b\<in>set bufs. buffer_good c (snd b)"
  shows "\<exists>ls. (\<forall>s. escalate_rebuild junk lkr bufs s = insert_row_locks lkr ls s) \<and> map liv ls = bufs_ivs bufs \<and>
    (\<forall>l\<in>set ls. range_proper c (fst l) \<and> range_sized (fst l))"
  using assms
proof (induction bufs)
  case (Cons b bufs)
  then obtain ls where IH: "\<forall>s. escalate_rebuild junk lkr bufs s = insert_row_locks lkr ls s" "map liv ls = bufs_ivs bufs"
    "\<forall>l\<in>set ls. range_proper c (fst l) \<and> range_sized (fst l)" by auto
  obtain cur os where h: "rb_holds (snd b) cur os" "\<forall>p\<in>set (cur @ concat os). range_ok c (fst p) (snd p)"
    using Cons.prems unfolding buffer_good_def by (meson list.set_intros(1))
  obtain recs where recs: "rb_ranges (snd b) junk = Some recs" "map keys_of recs = map keys_of (cur @ concat os)" "\<forall>p\<in>set recs. range_ok c (fst p) (snd p)"
    by (rule rb_read [OF h])
  let ?ls = "map (\<lambda>p. elock (fst b, fst p, snd p)) recs"
  have "map liv ?ls = map (Pair (fst b)) (map keys_of recs)" by (simp add: eiv_def keys_of_def)
  also have "\<dots> = map (Pair (fst b)) (map keys_of (buffer_ranges (snd b)))" unfolding recs(2) buffer_ranges_keys [OF h(1)] ..
  also have "\<dots> = buffer_ivs b" by (simp add: buffer_ivs_def)
  finally have "map liv (?ls @ ls) = bufs_ivs (b # bufs)" using IH(2) by simp
  moreover have "\<forall>l\<in>set (?ls @ ls). range_proper c (fst l) \<and> range_sized (fst l)" using IH(3) recs(3) by (auto simp: elock_def range_ok_def)
  moreover have "\<forall>s. escalate_rebuild junk lkr (b # bufs) s = insert_row_locks lkr (?ls @ ls) s"
  proof -
    have "escalate_rebuild junk lkr bufs = insert_row_locks lkr ls" by (rule ext) (rule IH(1) [rule_format])
    then show ?thesis using recs(1) by (simp add: rebuild_ranges_insert insert_row_locks_append)
  qed
  ultimately show ?case by blast
qed (intro exI [of _ "[]"], simp)

lemma sorted_wrt_mset:
  assumes "symp R" "sorted_wrt R xs" "mset ys = mset xs"
  shows "sorted_wrt R ys"
  using assms(2,3)
proof (induction ys arbitrary: xs)
  case (Cons y ys)
  then have "y \<in> set xs" by (metis list.set_intros(1) set_mset_mset)
  then obtain as bs where xs: "xs = as @ y # bs" by (meson split_list)
  have m: "mset ys = mset (as @ bs)" using Cons.prems(2) by (simp add: xs)
  moreover have "sorted_wrt R (as @ bs)" using Cons.prems(1) by (simp add: xs sorted_wrt_append)
  ultimately have "sorted_wrt R ys" using Cons.IH by blast
  moreover have "R y z" if "z \<in> set ys" for z
  proof -
    have "z \<in> set (as @ bs)" using that m by (metis set_mset_mset)
    then show ?thesis using Cons.prems(1) sympD [OF assms(1)] by (auto simp: xs sorted_wrt_append)
  qed
  ultimately show ?case by simp
qed simp

context key_comparator
begin

lemma insert_row_locks_ok:
  assumes "tree_state c base (t, lt)" "lkr_ok lkr t" "lkr_subtree lkr = []" "apart ls" "\<forall>n\<in>set ls. \<forall>m\<in>set (ct_nodes t). \<not> koverlap (fst n) (fst m)"
  shows "\<exists>t' lt'. insert_row_locks lkr ls (t, lt) = Some (t', lt') \<and> mset (ct_nodes t') = mset (ct_nodes t) + mset (map copied ls) \<and>
    tree_state c base (t', lt') \<and> same_but_mem lt lt'"
  using assms
proof (induction ls arbitrary: t lt)
  case (Cons n ns)
  obtain k x where n: "n = (k, x)" by (cases n)
  have k: "kproper k" "apart ns" "\<forall>m\<in>set ns. \<not> koverlap k (fst m)" using Cons.prems(4) by (auto simp: apart_def n)
  have free: "\<forall>m\<in>set (ct_nodes t). \<not> koverlap k (fst m)" using Cons.prems(5) by (simp add: n)
  obtain t1 lt1 as bs where ins: "insert_row_lock_into_tree lkr (k, x) (t, lt) = Some (t1, lt1)" "ct_nodes t = as @ bs" "ct_nodes t1 = as @ (create_copy k, x) # bs"
    "tree_state c base (t1, lt1)" "lkr_ok lkr t1" "same_but_mem lt lt1"
    by (rule insert_row_lock_ok [OF Cons.prems(1,2) k(1) free, of x]) (use Cons.prems(3) in simp_all)
  have "\<not> koverlap (fst m) (create_copy k)" if "m \<in> set ns" for m
    using k(1,3) that copied_ok(2) [of n "fst m"] koverlap_sym [of k "fst m"] by (simp add: n copied_def)
  then have "\<forall>m\<in>set ns. \<forall>m'\<in>set (ct_nodes t1). \<not> koverlap (fst m) (fst m')" using Cons.prems(5) ins(2,3) by auto
  then obtain t' lt' where IH: "insert_row_locks lkr ns (t1, lt1) = Some (t', lt')" "mset (ct_nodes t') = mset (ct_nodes t1) + mset (map copied ns)"
    "tree_state c base (t', lt')" "same_but_mem lt1 lt'"
    using Cons.IH [OF ins(4,5) Cons.prems(3) k(2)] by blast
  have "insert_row_locks lkr (n # ns) (t, lt) = Some (t', lt')" "mset (ct_nodes t') = mset (ct_nodes t) + mset (map copied (n # ns))"
    using ins(1-3) IH(1,2) by (simp_all add: n copied_def)
  then show ?case using IH(3) same_but_mem_trans [OF ins(6) IH(4)] by blast
qed simp

lemma apart_mset:
  assumes "ordered ls" "mset (map liv ms) = mset (map liv ls)" "\<forall>m\<in>set ms. kproper (fst m)"
  shows "apart ms"
proof -
  let ?R = "\<lambda>a b. before (snd a) (snd b) \<or> before (snd b) (snd a)"
  have "sorted_wrt ?R (map liv ls)"
    using assms(1) unfolding ranges_ordered_def sorted_wrt_map by (auto simp: liv_def kbefore_def elim!: sorted_wrt_mono_rel [rotated])
  then have "sorted_wrt ?R (map liv ms)" by (rule sorted_wrt_mset [rotated]) (use assms(2) in \<open>auto intro: sympI\<close>)
  then show ?thesis using assms(3) by (simp add: apart_def sorted_wrt_map liv_def koverlap_def kbefore_def)
qed

lemma acquire_infinite:
  assumes "ct_wf c t"
  shows "lkr_acquire c get_infinite_range t = Some (\<lparr>lkr_range = get_infinite_range, lkr_subtree = []\<rparr>, t)"
proof (cases "m_is_empty t")
  case False
  obtain k x le l re r where root: "m_root t = TNode k x le l re r" using assms by (cases "m_root t") (auto simp: ct_wf_def)
  then have "kproper k" using assms False by (simp add: ct_wf_def ct_nodes_def)
  then have "keyrange_overlaps c k get_infinite_range" using keyrange_overlaps_iff infinite_proper by blast
  then show ?thesis using root by (simp add: lkr_acquire_def)
qed (simp add: lkr_acquire_def)

text \<open>Escalation of a tree, with the optimisation ended.\<close>

lemma escalate_tree_ok:
  assumes "lt_ok base lt" "lt_cmp lt = c" "m_sto_txnid lt = TXNID_NONE"
  defines "lkr \<equiv> \<lparr>lkr_range = get_infinite_range, lkr_subtree = []\<rparr>"
  shows "\<exists>bufs t t' lt1 lt2. escalate_extract lkr [] (m_rangetree lt, lt) = Some (bufs, t, lt1) \<and> m_is_empty t \<and>
    escalate_rebuild junk lkr bufs (t, lt1) = Some (t', lt2) \<and> lt_ok base (lt2\<lparr>m_rangetree := t'\<rparr>) \<and> lt_cmp lt2 = c \<and> m_sto_txnid lt2 = TXNID_NONE \<and>
    (\<forall>u. lt_held lt u \<subseteq> lt_held (lt2\<lparr>m_rangetree := t'\<rparr>) u) \<and> snd ` set (ct_nodes t') = snd ` set (ct_nodes (m_rangetree lt)) \<and>
    length (ct_nodes t') \<le> length (ct_nodes (m_rangetree lt)) \<and> map liv (ct_nodes t') = coalesce (lt_rows lt) \<and>
    (\<forall>u. lt_held (lt2\<lparr>m_rangetree := t'\<rparr>) u = (\<Union>p\<in>{p \<in> set (bufs_ivs bufs). fst p = u}. interval_keys c (snd p)))"
proof -
  have ok: "lkr_ok lkr t" for t by (simp add: lkr_ok_def lkr_def infinite_proper)
  have inf: "lkr_range lkr = get_infinite_range" "lkr_subtree lkr = []" by (simp_all add: lkr_def)
  have ts: "tree_state c base (m_rangetree lt, lt)" by (rule lt_ok_tree [OF assms(1-3)])
  have sz: "\<forall>n\<in>set (ct_nodes (m_rangetree lt)). range_sized (fst n)" using assms(1) by (simp add: lt_ok_def)
  have "bufs_ok c []" by (simp add: bufs_ok_def)
  from escalate_extract_ok [OF ts ok inf(1) sz this]
  obtain bufs ls t lt1 where ex: "escalate_extract lkr [] (m_rangetree lt, lt) = Some (bufs, t, lt1)" "bufs_ok c bufs" "mset (bufs_ivs bufs) = mset (map liv ls)"
    "merges (ct_nodes (m_rangetree lt)) ls" "ct_nodes t = []" "tree_state c base (t, lt1)" "same_but_mem lt lt1" "map liv ls = coalesce (lt_rows lt)"
    by (elim exE conjE) (rule that; simp add: lt_rows_def)
  have emp: "m_is_empty t" using ex(5,6) ct_nodes_empty by (auto simp: tree_state_def)
  obtain ms where ms: "\<forall>s. escalate_rebuild junk lkr bufs s = insert_row_locks lkr ms s" "map liv ms = bufs_ivs bufs" "\<forall>m\<in>set ms. kproper (fst m) \<and> range_sized (fst m)"
    using escalate_rebuild_insert [of bufs c junk lkr] ex(2) unfolding bufs_ok_def by blast
  have proper: "\<forall>m\<in>set ms. kproper (fst m)" using ms(3) by simp
  have iv: "mset (map liv ms) = mset (map liv ls)" using ex(3) by (simp only: ms(2))
  have "apart ms" by (rule apart_mset [OF _ iv proper]) (use ex(4) in \<open>simp add: merges_def\<close>)
  from insert_row_locks_ok [OF ex(6) ok inf(2) this]
  obtain t' lt2 where ins: "insert_row_locks lkr ms (t, lt1) = Some (t', lt2)" "mset (ct_nodes t') = mset (map copied ms)" "tree_state c base (t', lt2)" "same_but_mem lt1 lt2"
    using ex(5) by auto
  have rows: "map liv (ct_nodes t') = map liv ls"
  proof (rule sorted_wrt_unique)
    let ?R = "\<lambda>p q. before (snd p) (snd q)"
    have o: "sorted_wrt ?R (map liv ns) \<and> (\<forall>p\<in>set (map liv ns). \<forall>q\<in>set (map liv ns). ?R p q \<longrightarrow> \<not> ?R q p)" if "ordered ns" for ns
      using that kbefore_asym unfolding ranges_ordered_def sorted_wrt_map by (auto simp: liv_def kbefore_def)
    have "ordered (ct_nodes t')" "ordered ls" using ins(3) ex(4) by (simp_all add: tree_state_def ct_wf_def merges_def)
    then show "sorted_wrt ?R (map liv (ct_nodes t'))" "sorted_wrt ?R (map liv ls)"
      "\<forall>p\<in>set (map liv (ct_nodes t')). \<forall>q\<in>set (map liv (ct_nodes t')). ?R p q \<longrightarrow> \<not> ?R q p" using o by blast+
    have "map liv (map copied ms) = map liv ms" using proper by (auto simp: liv_def copied_def range_proper_def create_copy_ok)
    then show "mset (map liv (ct_nodes t')) = mset (map liv ls)" using ins(2) iv by (metis mset_map)
  qed
  have set: "set (ct_nodes t') = set (map copied ms)" using mset_eq_setD [OF ins(2)] .
  have sz': "\<forall>n\<in>set (ct_nodes t'). range_sized (fst n)" unfolding set using copied_list(3) [OF proper] ms(3) by blast
  note un = lt_ok_untree [OF assms(1-3) ins(3) same_but_mem_trans [OF ex(7) ins(4)] sz']
  have held: "nodes_held c (ct_nodes t') u = nodes_held c ms u" for u using nodes_held_mset [OF ins(2)] copied_list(2) [OF proper] by simp
  have set_iv: "set (map liv ms) = set (map liv ls)" using mset_eq_setD [OF iv] .
  have held': "nodes_held c ms u = nodes_held c ls u" for u unfolding nodes_held_liv set_iv ..
  have "snd ` set ns = fst ` set (map liv ns)" for ns unfolding set_map image_image liv_def fst_conv ..
  then have "snd ` set (ct_nodes t') = snd ` set ls" unfolding set copied_list(4) [OF proper] by (simp only: set_iv)
  moreover have "length (ct_nodes t') = length ls" using mset_eq_length [OF ins(2)] mset_eq_length [OF iv] by simp
  moreover have "lt_held lt u = nodes_held c (ct_nodes (m_rangetree lt)) u" for u using assms(2,3) by (simp add: lt_held_none)
  ultimately show ?thesis
    using ex(1,4) emp ms(1) ins(1) un held held' nodes_held_liv [of c ms] merges_held [OF ex(4)] rows ex(8) unfolding ms(2)
    by (intro exI [of _ bufs] exI [of _ t] exI [of _ t'] exI [of _ lt1] exI [of _ lt2]) (simp add: merges_def)
qed

end

end
