(* ===== verification/Lock_Table.thy ===== *)
theory Lock_Table
  imports Locktree_Escalate_Props
begin

text \<open>
  The lock tree as a table of locked keys. The contract \<open>lock_table\<close> is what the rest of the system may rely on; the lock tree is shown to provide
  it, and the guarantees for whole histories of requests, releases and escalations follow from the contract alone.
\<close>

subsection \<open>Escalation and exclusion\<close>

lemma bufs_held: "(\<Union>p\<in>{p \<in> set (bufs_ivs bufs). fst p = u}. interval_keys c (snd p)) = (\<Union>b\<in>{b \<in> set bufs. fst b = u}. buffer_keys c (buffer_ranges (snd b)))"
proof -
  have iv: "q \<in> set (bufs_ivs bufs) \<longleftrightarrow> (\<exists>b p. b \<in> set bufs \<and> p \<in> set (buffer_ranges (snd b)) \<and> q = (fst b, keys_of p))" for q
  proof -
    have "set (bufs_ivs bufs) = (\<Union>b\<in>set bufs. (\<lambda>p. (fst b, keys_of p)) ` set (buffer_ranges (snd b)))" by (simp add: bufs_ivs_def buffer_ivs_def)
    then show ?thesis by (simp only: UN_iff image_iff) blast
  qed
  have keys: "x \<in> buffer_keys c ps \<longleftrightarrow> (\<exists>p\<in>set ps. x \<in> interval_keys c (keys_of p))" for x ps unfolding buffer_keys_def by auto
  show ?thesis
  proof (intro set_eqI iffI)
    fix x
    assume "x \<in> (\<Union>p\<in>{p \<in> set (bufs_ivs bufs). fst p = u}. interval_keys c (snd p))"
    then obtain q where q: "q \<in> set (bufs_ivs bufs)" "fst q = u" "x \<in> interval_keys c (snd q)" by blast
    obtain b p where b: "b \<in> set bufs" "p \<in> set (buffer_ranges (snd b))" "q = (fst b, keys_of p)" using q(1) unfolding iv by blast
    then have "x \<in> buffer_keys c (buffer_ranges (snd b))" "fst b = u" using q(2,3) keys by auto
    then show "x \<in> (\<Union>b\<in>{b \<in> set bufs. fst b = u}. buffer_keys c (buffer_ranges (snd b)))" using b(1) by blast
  next
    fix x
    assume "x \<in> (\<Union>b\<in>{b \<in> set bufs. fst b = u}. buffer_keys c (buffer_ranges (snd b)))"
    then obtain b p where b: "b \<in> set bufs" "fst b = u" "p \<in> set (buffer_ranges (snd b))" "x \<in> interval_keys c (keys_of p)" using keys by auto
    then have "(u, keys_of p) \<in> set (bufs_ivs bufs)" unfolding iv by blast
    then show "x \<in> (\<Union>p\<in>{p \<in> set (bufs_ivs bufs). fst p = u}. interval_keys c (snd p))" using b(4)
      by (intro UN_I [of "(u, keys_of p)"]) simp_all
  qed
qed

text \<open>
  What escalation makes of a tree: the single transaction optimisation is off, and the rows are those of before with the neighbours of one owner merged. When the optimisation was
  on, the rows of before are those of its transaction, in a tree that it takes over from the buffer.
\<close>

definition stands_for :: "locktree \<Rightarrow> (TXNID \<times> interval) list \<Rightarrow> bool" where
  "stands_for lt rows \<longleftrightarrow>
     (if m_sto_txnid lt = TXNID_NONE then rows = lt_rows lt
      else (\<forall>p\<in>set rows. fst p = m_sto_txnid lt) \<and> (\<Union>p\<in>set rows. interval_keys (lt_cmp lt) (snd p)) = lt_held lt (m_sto_txnid lt))"

definition escalated_tree :: "locktree \<Rightarrow> locktree \<Rightarrow> bool" where
  "escalated_tree lt lt' \<longleftrightarrow> m_sto_txnid lt' = TXNID_NONE \<and> (\<exists>rows. stands_for lt rows \<and> lt_rows lt' = coalesce rows)"

context key_comparator
begin

lemma escalate_ok:
  assumes "lt_ok base lt" "lt_cmp lt = c"
  shows "\<exists>bufs lt'. escalate junk lt = Some (bufs, lt') \<and> lt_ok base lt' \<and> lt_cmp lt' = c \<and> m_sto_txnid lt' = TXNID_NONE \<and> escalated_tree lt lt' \<and>
    (\<forall>u. lt_held lt u \<subseteq> lt_held lt' u) \<and> (\<forall>u. lt_held lt u = {} \<longrightarrow> lt_held lt' u = {}) \<and>
    (\<forall>u. lt_held lt' u = (\<Union>b\<in>{b \<in> set bufs. fst b = u}. buffer_keys c (buffer_ranges (snd b)))) \<and>
    (m_sto_txnid lt = TXNID_NONE \<longrightarrow> length (ct_nodes (m_rangetree lt')) \<le> length (ct_nodes (m_rangetree lt)))"
proof -
  let ?lkr = "\<lparr>lkr_range = get_infinite_range, lkr_subtree = []\<rparr>"
  have wf: "ct_wf c (m_rangetree lt)" using assms by (simp add: lt_ok_def)
  have lkr: "lkr_ok ?lkr t" for t by (simp add: lkr_ok_def infinite_proper)
  have start: "lkr_acquire c get_infinite_range (m_rangetree lt) = Some (?lkr, m_rangetree lt)" "lt\<lparr>m_rangetree := m_rangetree lt\<rparr> = lt"
    by (simp_all add: acquire_infinite [OF wf])
  have body: "\<exists>bufs lt'. escalate junk lt = Some (bufs, lt') \<and> lt_ok base lt' \<and> lt_cmp lt' = c \<and> m_sto_txnid lt' = TXNID_NONE \<and> lt_rows lt' = coalesce (lt_rows lt1) \<and>
      (\<forall>u. lt_held lt1 u \<subseteq> lt_held lt' u) \<and> (\<forall>u. lt_held lt1 u = {} \<longrightarrow> lt_held lt' u = {}) \<and>
      (\<forall>u. lt_held lt' u = (\<Union>b\<in>{b \<in> set bufs. fst b = u}. buffer_keys c (buffer_ranges (snd b)))) \<and>
      length (ct_nodes (m_rangetree lt')) \<le> length (ct_nodes (m_rangetree lt1))"
    if one: "(if m_sto_txnid lt \<noteq> TXNID_NONE then sto_end_early_no_accounting junk ?lkr lt else Some lt) = Some lt1"
      "lt_ok base lt1" "lt_cmp lt1 = c" "m_sto_txnid lt1 = TXNID_NONE" for lt1
  proof -
    note hyp = that
    obtain bufs t t' lt2 lt3 where e: "escalate_extract ?lkr [] (m_rangetree lt1, lt1) = Some (bufs, t, lt2)" "m_is_empty t"
      "escalate_rebuild junk ?lkr bufs (t, lt2) = Some (t', lt3)" "lt_ok base (lt3\<lparr>m_rangetree := t'\<rparr>)" "lt_cmp lt3 = c" "m_sto_txnid lt3 = TXNID_NONE"
      "\<forall>u. lt_held lt1 u \<subseteq> lt_held (lt3\<lparr>m_rangetree := t'\<rparr>) u" "snd ` set (ct_nodes t') = snd ` set (ct_nodes (m_rangetree lt1))"
      "length (ct_nodes t') \<le> length (ct_nodes (m_rangetree lt1))" "map liv (ct_nodes t') = coalesce (lt_rows lt1)"
      "\<forall>u. lt_held (lt3\<lparr>m_rangetree := t'\<rparr>) u = (\<Union>p\<in>{p \<in> set (bufs_ivs bufs). fst p = u}. interval_keys c (snd p))"
      using escalate_tree_ok [OF hyp(2-4), of junk] by (elim exE conjE) (rule that)
    let ?lt = "lt3\<lparr>m_rangetree := t'\<rparr>"
    have "ordered (ct_nodes (m_rangetree lt1))" "ordered (ct_nodes t')" using hyp(2,3) e(4,5) by (simp_all add: lt_ok_def ct_wf_def)
    then have "lt_held lt1 u = {} \<longrightarrow> lt_held ?lt u = {}" for u
      using owners_held [of "ct_nodes (m_rangetree lt1)" u] owners_held [of "ct_nodes t'" u] e(5,6,8) hyp(3,4) by (simp add: lt_held_none)
    moreover have "escalate junk lt = Some (bufs, ?lt)"
      using start hyp(1) e(1-3) assms(2) by (simp add: escalate_def concurrent_tree_is_empty_def)
    ultimately show ?thesis using e(4-7,9-11) unfolding bufs_held by (intro exI [of _ bufs] exI [of _ ?lt]) (simp add: lt_rows_def)
  qed
  show ?thesis
  proof (cases "m_sto_txnid lt = TXNID_NONE")
    case True
    then have "escalated_tree lt lt'" if "m_sto_txnid lt' = TXNID_NONE" "lt_rows lt' = coalesce (lt_rows lt)" for lt'
      using that by (simp add: escalated_tree_def stands_for_def)
    then show ?thesis using body [of lt] assms True by auto
  next
    case False
    have path: "lkr_subtree ?lkr = []" by simp
    obtain mem t where e: "sto_end_early_no_accounting junk ?lkr lt =
        Some (lt\<lparr>lt_mem := mem, m_rangetree := t, m_sto_buffer := rb_create, m_sto_txnid := TXNID_NONE, m_sto_score := 0\<rparr>)"
      "lt_ok base (lt\<lparr>lt_mem := mem, m_rangetree := t, m_sto_buffer := rb_create, m_sto_txnid := TXNID_NONE, m_sto_score := 0\<rparr>)"
      "\<And>u. lt_held (lt\<lparr>lt_mem := mem, m_rangetree := t, m_sto_buffer := rb_create, m_sto_txnid := TXNID_NONE, m_sto_score := 0\<rparr>) u = lt_held lt u"
      by (rule sto_end_early_ok [OF assms False lkr path, where junk = junk]) (rule that)
    have "(if m_sto_txnid lt \<noteq> TXNID_NONE then sto_end_early_no_accounting junk ?lkr lt else Some lt) =
        Some (lt\<lparr>lt_mem := mem, m_rangetree := t, m_sto_buffer := rb_create, m_sto_txnid := TXNID_NONE, m_sto_score := 0\<rparr>)"
      using False e(1) by simp
    note body1 = body [OF this e(2)]
    let ?lt1 = "lt\<lparr>lt_mem := mem, m_rangetree := t, m_sto_buffer := rb_create, m_sto_txnid := TXNID_NONE, m_sto_score := 0\<rparr>"
    have none: "lt_held lt w = {}" if "w \<noteq> m_sto_txnid lt" for w
      using assms(1) False that by (simp add: lt_ok_def lt_held_def ct_nodes_def nodes_held_simps)
    have ord: "ordered (ct_nodes t)" using e(2) assms(2) by (simp add: lt_ok_def ct_wf_def)
    have held: "lt_held lt w = nodes_held c (ct_nodes t) w" for w using e(3) [of w] assms(2) by (simp add: lt_held_none)
    have "\<forall>p\<in>set (lt_rows ?lt1). fst p = m_sto_txnid lt"
    proof
      fix p
      assume "p \<in> set (lt_rows ?lt1)"
      then have "fst p \<in> snd ` set (ct_nodes t)" by (force simp: lt_rows_def liv_def)
      then show "fst p = m_sto_txnid lt" using owners_held [OF ord] none held by blast
    qed
    then have "stands_for lt (lt_rows ?lt1)"
      using False assms(2) held [of "m_sto_txnid lt"] nodes_held_liv [of c "ct_nodes t" "m_sto_txnid lt"] unfolding stands_for_def lt_rows_def by auto
    then have "escalated_tree lt lt'" if "m_sto_txnid lt' = TXNID_NONE" "lt_rows lt' = coalesce (lt_rows ?lt1)" for lt'
      using that by (auto simp: escalated_tree_def)
    then show ?thesis using body1 assms(2) False unfolding e(3) by auto
  qed
qed

lemma held_exclusive:
  assumes "lt_ok base lt" "lt_cmp lt = c" "u \<noteq> w"
  shows "lt_held lt u \<inter> lt_held lt w = {}"
proof (cases "m_sto_txnid lt = TXNID_NONE")
  case False
  then have "ct_nodes (m_rangetree lt) = []" using assms(1) by (simp add: lt_ok_def ct_nodes_def)
  then show ?thesis using assms(3) by (auto simp: lt_held_def nodes_held_simps)
next
  case True
  let ?ns = "ct_nodes (m_rangetree lt)"
  have ord: "ordered ?ns" using assms(1,2) by (simp add: lt_ok_def ct_wf_def)
  have "False" if k: "(k, u) \<in> set ?ns" "(k', w) \<in> set ?ns" "covers c k x" "covers c k' x" for k k' x
  proof -
    have p: "kproper k" "kproper k'" using k(1,2) ord unfolding ranges_ordered_def by force+
    have "kbefore k k' \<or> kbefore k' k"
    proof -
      obtain i j where ij: "i < length ?ns" "?ns ! i = (k, u)" "j < length ?ns" "?ns ! j = (k', w)" using k(1,2) by (auto simp: in_set_conv_nth)
      then have "i < j \<or> j < i" using assms(3) by (cases i j rule: linorder_cases) auto
      moreover have "kbefore (fst (?ns ! i)) (fst (?ns ! j))" if "i < j" "j < length ?ns" for i j
        using that ord by (simp add: ranges_ordered_def sorted_wrt_iff_nth_less)
      ultimately show ?thesis using ij by (metis fst_conv)
    qed
    then show False using overlap_covers [OF p] k(3,4) by (auto simp: koverlap_def)
  qed
  then show ?thesis using True assms(2) by (auto simp: lt_held_none nodes_held_def)
qed

end

interpretation builtin_keys: key_comparator builtin_comparator
  by unfold_locales (rule builtin_comparator_ok)

subsection \<open>The contract\<close>

datatype ('r, 'b) lock_op = Acquire TXNID 'r | Release TXNID 'b | Escalate

fun run_lock_ops :: "('o \<Rightarrow> 's \<Rightarrow> 's option) \<Rightarrow> 'o list \<Rightarrow> 's \<Rightarrow> 's option" where
  "run_lock_ops app [] s = Some s"
| "run_lock_ops app (op # ops) s = Option.bind (app op s) (run_lock_ops app ops)"

text \<open>A history in which every call is made in a state that permits it.\<close>

fun legal_ops :: "('o \<Rightarrow> 's \<Rightarrow> bool) \<Rightarrow> ('o \<Rightarrow> 's \<Rightarrow> 's option) \<Rightarrow> 'o list \<Rightarrow> 's \<Rightarrow> bool" where
  "legal_ops pre app [] s = True"
| "legal_ops pre app (op # ops) s = (pre op s \<and> (case app op s of None \<Rightarrow> True | Some s' \<Rightarrow> legal_ops pre app ops s'))"

fun releases :: "TXNID \<Rightarrow> ('r, 'b) lock_op \<Rightarrow> bool" where
  "releases u (Release w b) = (u = w)"
| "releases u _ = False"

locale lock_table =
  fixes ok :: "'s \<Rightarrow> bool" and held :: "'s \<Rightarrow> TXNID \<Rightarrow> endpoint set" and pre :: "('r, 'b) lock_op \<Rightarrow> 's \<Rightarrow> bool"
    and app :: "('r, 'b) lock_op \<Rightarrow> 's \<Rightarrow> 's option" and keys :: "'r \<Rightarrow> endpoint set"
  assumes acquire_law: "ok s \<Longrightarrow> pre (Acquire u r) s \<Longrightarrow> \<exists>s'. app (Acquire u r) s = Some s' \<and> ok s' \<and>
      (\<forall>w. held s' w = held s w \<union> (if w = u \<and> (\<forall>v. v \<noteq> u \<longrightarrow> held s v \<inter> keys r = {}) then keys r else {}))"
    and release_law: "ok s \<Longrightarrow> pre (Release u b) s \<Longrightarrow> \<exists>s'. app (Release u b) s = Some s' \<and> ok s' \<and>
      (\<forall>w. w \<noteq> u \<longrightarrow> held s' w = held s w) \<and> held s' u \<subseteq> held s u"
    and escalate_law: "ok s \<Longrightarrow> pre Escalate s \<Longrightarrow> \<exists>s'. app Escalate s = Some s' \<and> ok s' \<and> (\<forall>w. held s w \<subseteq> held s' w)"
    and exclusive: "ok s \<Longrightarrow> u \<noteq> w \<Longrightarrow> held s u \<inter> held s w = {}"
begin

lemma step_law: "ok s \<Longrightarrow> pre op s \<Longrightarrow> \<exists>s'. app op s = Some s' \<and> ok s' \<and> (\<forall>u. \<not> releases u op \<longrightarrow> held s u \<subseteq> held s' u)"
  using acquire_law [of s] release_law [of s] escalate_law [of s] by (cases op) (fastforce, metis order_refl releases.simps(1), fastforce)

lemma history:
  "ok s \<Longrightarrow> legal_ops pre app ops s \<Longrightarrow>
     \<exists>s'. run_lock_ops app ops s = Some s' \<and> ok s' \<and> (\<forall>u. (\<forall>op\<in>set ops. \<not> releases u op) \<longrightarrow> held s u \<subseteq> held s' u)"
proof (induction ops arbitrary: s)
  case (Cons op ops)
  then obtain s1 where s1: "app op s = Some s1" "ok s1" "\<forall>u. \<not> releases u op \<longrightarrow> held s u \<subseteq> held s1 u" using step_law [of s op] by auto
  then obtain s' where "run_lock_ops app ops s1 = Some s'" "ok s'" "\<forall>u. (\<forall>op\<in>set ops. \<not> releases u op) \<longrightarrow> held s1 u \<subseteq> held s' u"
    using Cons.IH [of s1] Cons.prems(2) by auto
  then show ?case using s1 by (intro exI [of _ s']) (simp, meson order_trans)
qed simp

text \<open>While \<open>u\<close> does not release, nobody else gets a key that it has.\<close>

lemma protected:
  assumes "ok s" "legal_ops pre app ops s" "run_lock_ops app ops s = Some s'" "\<forall>op\<in>set ops. \<not> releases u op" "w \<noteq> u"
  shows "held s u \<inter> held s' w = {}"
proof -
  have "ok s'" "held s u \<subseteq> held s' u" using history [OF assms(1,2)] assms(3,4) by auto
  then show ?thesis using exclusive [of s' u w] assms(5) by blast
qed

end

subsection \<open>The lock tree provides it\<close>

type_synonym lt_op = "(DBT \<times> DBT, range_buffer) lock_op"

fun lt_apply :: "rb_record \<Rightarrow> lt_op \<Rightarrow> locktree \<Rightarrow> locktree option" where
  "lt_apply junk (Acquire u p) lt = map_option (\<lambda>(r, conflicts, lt'). lt') (acquire_lock junk True u (fst p) (snd p) (Some txnid_set_create) lt)"
| "lt_apply junk (Release u b) lt = release_locks junk u b lt"
| "lt_apply junk Escalate lt = map_option snd (escalate junk lt)"

text \<open>A transaction releases only on a lock tree on which it holds something.\<close>

fun lt_pre :: "lt_op \<Rightarrow> locktree \<Rightarrow> bool" where
  "lt_pre (Acquire u p) lt = range_ok (lt_cmp lt) (fst p) (snd p)"
| "lt_pre (Release u b) lt = (lt_held lt u \<noteq> {} \<and> buffer_good (lt_cmp lt) b)"
| "lt_pre Escalate lt = True"

lemma lt_key_comparator: "lt_ok base lt \<Longrightarrow> key_comparator (lt_cmp lt)"
  by unfold_locales (simp add: lt_ok_def)

lemma conflicts_ok_create: "conflicts_ok (Some txnid_set_create)"
  by (simp add: conflicts_ok_def txnid_set_create_def)

lemma holder_may_release:
  assumes "lt_ok base lt" "lt_held lt u \<noteq> {}"
  shows "m_sto_txnid lt = TXNID_NONE \<or> m_sto_txnid lt = u"
  using assms by (auto simp: lt_ok_def lt_held_def ct_nodes_def nodes_held_simps split: if_splits)

lemma release_held:
  assumes "lt_ok base lt" "lt_held lt u \<noteq> {}" "buffer_good (lt_cmp lt) b"
  shows "\<exists>lt'. release_locks junk u b lt = Some lt' \<and> lt_ok base lt' \<and> lt_cmp lt' = lt_cmp lt \<and> (\<forall>w. w \<noteq> u \<longrightarrow> lt_held lt' w = lt_held lt w) \<and>
    lt_held lt' u \<subseteq> lt_held lt u \<and> lt_held lt' u \<inter> buffer_keys (lt_cmp lt) (buffer_ranges b) = {}"
proof -
  obtain cur os where "rb_holds b cur os" "\<forall>p\<in>set (cur @ concat os). range_ok (lt_cmp lt) (fst p) (snd p)" using assms(3) unfolding buffer_good_def by blast
  from key_comparator.release_locks_ok [OF lt_key_comparator [OF assms(1)] assms(1) refl holder_may_release [OF assms(1,2)] this, of junk]
  show ?thesis by blast
qed

interpretation lt: lock_table "\<lambda>lt. lt_ok base lt \<and> lt_cmp lt = c" lt_held lt_pre "lt_apply junk" "\<lambda>p. interval_keys c (keys_of p)"
  for base c junk
proof unfold_locales
  fix lt u p
  assume lt: "lt_ok base lt \<and> lt_cmp lt = c" and pre: "lt_pre (Acquire u p) lt"
  have ok: "lt_ok base lt" "lt_cmp lt = c" "key_comparator c" using lt lt_key_comparator by auto
  let ?B = "lt_blockers lt u (fst p) (snd p)"
  obtain r cs' lt' where a: "acquire_lock junk True u (fst p) (snd p) (Some txnid_set_create) lt = Some (r, cs', lt')" "lt_ok base lt'" "lt_cmp lt' = c"
    "\<forall>w. lt_held lt' w = lt_held lt w \<union> (if ?B = {} \<and> w = u then interval_keys c (keyof (fst p), keyof (snd p)) else {})"
    using key_comparator.acquire_lock_ok [OF ok(3,1,2) _ conflicts_ok_create, of "fst p" "snd p" junk u] pre ok(2) by auto
  have "?B = {} \<longleftrightarrow> (\<forall>v. v \<noteq> u \<longrightarrow> lt_held lt v \<inter> interval_keys c (keys_of p) = {})"
    using ok(2) by (auto simp: lt_blockers_def keys_of_def)
  then show "\<exists>s'. lt_apply junk (Acquire u p) lt = Some s' \<and> (lt_ok base s' \<and> lt_cmp s' = c) \<and>
      (\<forall>w. lt_held s' w = lt_held lt w \<union> (if w = u \<and> (\<forall>v. v \<noteq> u \<longrightarrow> lt_held lt v \<inter> interval_keys c (keys_of p) = {}) then interval_keys c (keys_of p) else {}))"
    using a unfolding keys_of_def [symmetric] by (intro exI [of _ lt']) (simp add: conj_commute)
next
  fix lt u b
  assume lt: "lt_ok base lt \<and> lt_cmp lt = c" and "lt_pre (Release u b) lt"
  then show "\<exists>s'. lt_apply junk (Release u b) lt = Some s' \<and> (lt_ok base s' \<and> lt_cmp s' = c) \<and>
      (\<forall>w. w \<noteq> u \<longrightarrow> lt_held s' w = lt_held lt w) \<and> lt_held s' u \<subseteq> lt_held lt u"
    using release_held [of base lt u b junk] by auto
next
  fix lt
  assume lt: "lt_ok base lt \<and> lt_cmp lt = c" and "lt_pre Escalate lt"
  then have ok: "lt_ok base lt" "lt_cmp lt = c" "key_comparator c" using lt_key_comparator by auto
  obtain bufs lt' where "escalate junk lt = Some (bufs, lt')" "lt_ok base lt'" "lt_cmp lt' = c" "\<forall>u. lt_held lt u \<subseteq> lt_held lt' u"
    using key_comparator.escalate_ok [OF ok(3,1,2), of junk] by (elim exE conjE) (rule that)
  then show "\<exists>s'. lt_apply junk Escalate lt = Some s' \<and> (lt_ok base s' \<and> lt_cmp s' = c) \<and> (\<forall>w. lt_held lt w \<subseteq> lt_held s' w)" by simp
next
  fix lt and u w :: TXNID
  assume "lt_ok base lt \<and> lt_cmp lt = c" "u \<noteq> w"
  then show "lt_held lt u \<inter> lt_held lt w = {}" using key_comparator.held_exclusive [of c base lt u w] lt_key_comparator [of base lt] by blast
qed

subsection \<open>Properties\<close>

text \<open>
  C28. What a request for a row lock does, in the buffer of the single transaction optimisation or in the tree: no assertion fires;
  it is granted exactly if no other transaction holds a key of the range, and otherwise returns \<open>DB_LOCK_NOTGRANTED\<close> with exactly the
  transactions that hold one added to the conflict set; a granted range is held from then on, in addition to what was held before, and nobody else's holdings change; the
  invariant of the lock tree, with its exact memory accounting, is kept.
\<close>

theorem acquire_lock_correct:
  fixes txnid :: TXNID
  assumes "lt_ok base lt" "range_ok (lt_cmp lt) left_key right_key" "txnid_set_ok s"
  defines "others_in_range \<equiv> {u. u \<noteq> txnid \<and> lt_held lt u \<inter> interval_keys (lt_cmp lt) (keyof left_key, keyof right_key) \<noteq> {}}"
  shows "\<exists>s' lt'. acquire_lock junk True txnid left_key right_key (Some s) lt =
      Some (if others_in_range = {} then None else Some DB_LOCK_NOTGRANTED, Some s', lt') \<and>
    txnid_set_ok s' \<and> set s' = set s \<union> others_in_range \<and> lt_ok base lt' \<and> lt_cmp lt' = lt_cmp lt \<and>
    (\<forall>u. lt_held lt' u = lt_held lt u \<union>
       (if others_in_range = {} \<and> u = txnid then interval_keys (lt_cmp lt) (keyof left_key, keyof right_key) else {}))"
proof -
  have cs: "conflicts_ok (Some s)" using assms(3) by (simp add: conflicts_ok_def)
  have B: "lt_blockers lt txnid left_key right_key = others_in_range" by (simp add: others_in_range_def lt_blockers_def)
  obtain cs' lt' where a: "acquire_lock junk True txnid left_key right_key (Some s) lt =
      Some (if others_in_range = {} then None else Some DB_LOCK_NOTGRANTED, cs', lt')" "conflicts_added (Some s) others_in_range cs'"
    "lt_ok base lt'" "lt_cmp lt' = lt_cmp lt"
    "\<forall>u. lt_held lt' u = lt_held lt u \<union> (if others_in_range = {} \<and> u = txnid then interval_keys (lt_cmp lt) (keyof left_key, keyof right_key) else {})"
    using key_comparator.acquire_lock_ok [OF lt_key_comparator [OF assms(1)] assms(1) refl assms(2) cs, of junk txnid] unfolding B by (elim exE conjE) (rule that)
  obtain s' where "cs' = Some s'" "txnid_set_ok s'" "set s' = set s \<union> others_in_range" using a(2) by (cases cs') (simp_all add: conflicts_added_def)
  then show ?thesis using a(1,3-5) by (intro exI [of _ s'] exI [of _ lt'] conjI) simp_all
qed

text \<open>A lock tree with one transaction in the optimisation, for the witnesses.\<close>

definition demo_tree :: locktree where
  "demo_tree = locktree_create (Some 1000) 64 128 7 builtin_comparator"

lemma demo_tree_ok: "lt_ok 1000 demo_tree" "lt_cmp demo_tree = builtin_comparator" "lt_held demo_tree u = {}"
  by (simp_all add: demo_tree_def lt_create_ok lt_create_held builtin_comparator_ok) (simp add: locktree_create_def)

lemma demo_range_ok: "range_ok builtin_comparator (Dbt 1 [3]) (Dbt 2 [5])" "range_ok builtin_comparator (Dbt 3 [4]) (Dbt 3 [4])"
  by (simp_all add: range_ok_def range_proper_def range_sized_def wf_create toku_dbt_equals_def endpoint_compare_def finite_compare_def
      builtin_comparator_def toku_builtin_compare_fun_def toku_keycompare_def Let_def)

lemma demo_acquire:
  obtains lt1 where "lt_apply blank_record (Acquire 9 (Dbt 1 [3], Dbt 2 [5])) demo_tree = Some lt1" "lt_ok 1000 lt1" "lt_cmp lt1 = builtin_comparator"
    "lt_held lt1 9 = interval_keys builtin_comparator (Point [3], Point [5])" "lt_held lt1 7 = {}"
proof -
  have "lt_pre (Acquire 9 (Dbt 1 [3], Dbt 2 [5])) demo_tree" by (simp only: lt_pre.simps fst_conv snd_conv demo_tree_ok(2) demo_range_ok)
  from lt.acquire_law [OF conjI [OF demo_tree_ok(1,2)] this, of blank_record] show thesis using that demo_tree_ok(3) by (auto simp: keys_of_def)
qed

lemma demo_inside: "Point [4] \<in> interval_keys builtin_comparator (Point [3], Point [5])"
  by (simp add: interval_keys_def endpoint_compare_def finite_compare_def builtin_comparator_def toku_builtin_compare_fun_def toku_keycompare_def Let_def)

lemma demo_buffer:
  obtains b where "rb_append (Dbt 1 [3]) (Dbt 2 [5]) rb_create = Some b" "buffer_good builtin_comparator b"
    "buffer_keys builtin_comparator (buffer_ranges b) = interval_keys builtin_comparator (Point [3], Point [5])"
proof -
  obtain b where b: "rb_append (Dbt 1 [3]) (Dbt 2 [5]) rb_create = Some b" "buffer_good builtin_comparator b"
    "mset (buffer_ivs (9, b)) = add_mset (9, keyof (Dbt 1 [3]), keyof (Dbt 2 [5])) (mset (buffer_ivs (9, rb_create)))"
    by (rule buffer_good_append [OF buffer_good_create(1) demo_range_ok(1)])
  then have "mset (buffer_ivs (9, b)) = {#(9, Point [3], Point [5])#}" by (simp add: buffer_good_create(2))
  then have "buffer_ivs (9, b) = [(9, Point [3], Point [5])]" unfolding mset_single_iff .
  then have "map keys_of (buffer_ranges b) = [(Point [3], Point [5])]" by (auto simp: buffer_ivs_def)
  then have "buffer_keys builtin_comparator (buffer_ranges b) = interval_keys builtin_comparator (Point [3], Point [5])" unfolding buffer_keys_def by (simp del: map_map set_map)
  then show thesis by (rule that [OF b(1,2)])
qed

theorem acquire_lock_correct_witness:
  "\<exists>s' lt'. acquire_lock blank_record True 9 (Dbt 1 [3]) (Dbt 2 [5]) (Some []) demo_tree = Some (None, Some s', lt') \<and> lt_ok 1000 lt' \<and>
     lt_held lt' 9 = interval_keys builtin_comparator (Point [3], Point [5])"
proof -
  have "range_ok (lt_cmp demo_tree) (Dbt 1 [3]) (Dbt 2 [5])" unfolding demo_tree_ok(2) by (rule demo_range_ok(1))
  from acquire_lock_correct [where txnid = 9 and junk = blank_record, OF demo_tree_ok(1) this, of "[]"]
  show ?thesis by (auto simp: demo_tree_ok)
qed

text \<open>
  C29. What a transaction that holds something and ends does: no assertion fires, it loses every key of the ranges in its buffer (and everything, if the ranges cover what it holds),
  everybody else keeps exactly what they had, and the invariant with its memory accounting is kept.
\<close>

theorem release_locks_correct:
  assumes "lt_ok base lt" "lt_held lt txnid \<noteq> {}" "buffer_good (lt_cmp lt) ranges"
  shows "\<exists>lt'. release_locks junk txnid ranges lt = Some lt' \<and> lt_ok base lt' \<and> lt_cmp lt' = lt_cmp lt \<and>
    (\<forall>w. w \<noteq> txnid \<longrightarrow> lt_held lt' w = lt_held lt w) \<and> lt_held lt' txnid \<subseteq> lt_held lt txnid - buffer_keys (lt_cmp lt) (buffer_ranges ranges) \<and>
    (lt_held lt txnid \<subseteq> buffer_keys (lt_cmp lt) (buffer_ranges ranges) \<longrightarrow> lt_held lt' txnid = {})"
  using release_held [OF assms, of junk] by (elim exE conjE) (intro exI conjI, assumption+, blast+)

theorem release_locks_correct_witness:
  "\<exists>b lt1 lt2. rb_append (Dbt 1 [3]) (Dbt 2 [5]) rb_create = Some b \<and> lt_apply blank_record (Acquire 9 (Dbt 1 [3], Dbt 2 [5])) demo_tree = Some lt1 \<and>
     Point [4] \<in> lt_held lt1 9 \<and> release_locks blank_record 9 b lt1 = Some lt2 \<and> lt_ok 1000 lt2 \<and> lt_held lt2 9 = {}"
proof -
  obtain b where b: "rb_append (Dbt 1 [3]) (Dbt 2 [5]) rb_create = Some b" "buffer_good builtin_comparator b"
    "buffer_keys builtin_comparator (buffer_ranges b) = interval_keys builtin_comparator (Point [3], Point [5])" by (rule demo_buffer)
  obtain lt1 where lt1: "lt_apply blank_record (Acquire 9 (Dbt 1 [3], Dbt 2 [5])) demo_tree = Some lt1" "lt_ok 1000 lt1" "lt_cmp lt1 = builtin_comparator"
    "lt_held lt1 9 = interval_keys builtin_comparator (Point [3], Point [5])" by (rule demo_acquire)
  have held: "Point [4] \<in> lt_held lt1 9" "lt_held lt1 9 \<noteq> {}" "buffer_good (lt_cmp lt1) b" using lt1(3,4) b(2) demo_inside by auto
  obtain lt2 where "release_locks blank_record 9 b lt1 = Some lt2" "lt_ok 1000 lt2"
    "lt_held lt1 9 \<subseteq> buffer_keys (lt_cmp lt1) (buffer_ranges b) \<longrightarrow> lt_held lt2 9 = {}"
    using release_locks_correct [OF lt1(2) held(2,3), of blank_record] by (elim exE conjE) (rule that)
  then show ?thesis using b lt1 held(1) by (intro exI [of _ b] exI [of _ lt1] exI [of _ lt2]) simp
qed

text \<open>
  C30. Lock escalation in every state, with the single transaction optimisation running or not: it returns, keeps the invariant with its memory accounting, leaves
  the optimisation, takes no key from any transaction and gives nothing to a transaction that held nothing; the buffers
  passed to the callback list, per transaction, exactly the keys that it now holds; and the tree does not get more locks than it had. Its rows are exactly those of
  before - the ranges of the optimisation's buffer, if it was running - with every run of neighbours of one owner within a batch merged into one row (\<open>escalated_tree\<close>).
\<close>

theorem escalate_correct:
  assumes "lt_ok base lt"
  shows "\<exists>bufs lt'. escalate junk lt = Some (bufs, lt') \<and> lt_ok base lt' \<and> lt_cmp lt' = lt_cmp lt \<and> m_sto_txnid lt' = TXNID_NONE \<and> escalated_tree lt lt' \<and>
    (\<forall>u. lt_held lt u \<subseteq> lt_held lt' u) \<and> (\<forall>u. lt_held lt u = {} \<longrightarrow> lt_held lt' u = {}) \<and>
    (\<forall>u. lt_held lt' u = (\<Union>b\<in>{b \<in> set bufs. fst b = u}. buffer_keys (lt_cmp lt) (buffer_ranges (snd b)))) \<and>
    (m_sto_txnid lt = TXNID_NONE \<longrightarrow> length (ct_nodes (m_rangetree lt')) \<le> length (ct_nodes (m_rangetree lt)))"
  using key_comparator.escalate_ok [OF lt_key_comparator [OF assms] assms refl] .

theorem escalate_correct_witness:
  "\<exists>lt1 bufs lt'. lt_apply blank_record (Acquire 9 (Dbt 1 [3], Dbt 2 [5])) demo_tree = Some lt1 \<and> escalate blank_record lt1 = Some (bufs, lt') \<and>
     lt_ok 1000 lt' \<and> Point [4] \<in> lt_held lt' 9 \<and> lt_held lt' 7 = {}"
proof -
  obtain lt1 where lt1: "lt_apply blank_record (Acquire 9 (Dbt 1 [3], Dbt 2 [5])) demo_tree = Some lt1" "lt_ok 1000 lt1" "lt_cmp lt1 = builtin_comparator"
    "lt_held lt1 9 = interval_keys builtin_comparator (Point [3], Point [5])" "lt_held lt1 7 = {}"
    by (rule demo_acquire)
  obtain bufs lt' where "escalate blank_record lt1 = Some (bufs, lt')" "lt_ok 1000 lt'" "\<forall>u. lt_held lt1 u \<subseteq> lt_held lt' u" "\<forall>u. lt_held lt1 u = {} \<longrightarrow> lt_held lt' u = {}"
    using escalate_correct [OF lt1(2), of blank_record] by (elim exE conjE) (rule that)
  moreover have "Point [4] \<in> lt_held lt1 9" using lt1(4) demo_inside by simp
  ultimately show ?thesis using lt1(1,5) by (intro exI [of _ lt1] exI [of _ bufs] exI [of _ lt']) auto
qed

text \<open>
  C27. Mutual exclusion over whole histories of requests, releases and escalations: every history of permitted calls returns in a state that satisfies the
  invariant; no key is ever held by two transactions; and as long as a transaction releases nothing it keeps every key
  that it had, so that nobody else ever gets one of them.
\<close>

theorem lock_history:
  assumes "lt_ok base lt" "legal_ops lt_pre (lt_apply junk) ops lt"
  shows "\<exists>lt'. run_lock_ops (lt_apply junk) ops lt = Some lt' \<and> lt_ok base lt' \<and> (\<forall>u w. u \<noteq> w \<longrightarrow> lt_held lt' u \<inter> lt_held lt' w = {}) \<and>
    (\<forall>u. (\<forall>op\<in>set ops. \<not> releases u op) \<longrightarrow> lt_held lt u \<subseteq> lt_held lt' u \<and> (\<forall>w. w \<noteq> u \<longrightarrow> lt_held lt u \<inter> lt_held lt' w = {}))"
proof -
  have ok: "lt_ok base lt \<and> lt_cmp lt = lt_cmp lt" using assms(1) by simp
  obtain lt' where lt': "run_lock_ops (lt_apply junk) ops lt = Some lt'" "lt_ok base lt' \<and> lt_cmp lt' = lt_cmp lt"
    "\<forall>u. (\<forall>op\<in>set ops. \<not> releases u op) \<longrightarrow> lt_held lt u \<subseteq> lt_held lt' u"
    using lt.history [OF ok assms(2)] by (elim exE conjE) (rule that, simp_all)
  have "lt_held lt u \<inter> lt_held lt' w = {}" if "\<forall>op\<in>set ops. \<not> releases u op" "w \<noteq> u" for u w
    using lt.protected [OF ok assms(2) lt'(1) that] .
  moreover have "lt_held lt' u \<inter> lt_held lt' w = {}" if "u \<noteq> w" for u w using lt.exclusive [OF lt'(2) that] .
  ultimately show ?thesis using lt' by (intro exI [of _ lt'] conjI allI impI) simp_all
qed

theorem lock_history_witness:
  "\<exists>lt1 lt2. lt_apply blank_record (Acquire 9 (Dbt 1 [3], Dbt 2 [5])) demo_tree = Some lt1 \<and> Point [4] \<in> lt_held lt1 9 \<and>
     run_lock_ops (lt_apply blank_record) [Escalate, Acquire 8 (Dbt 3 [4], Dbt 3 [4])] lt1 = Some lt2 \<and> Point [4] \<in> lt_held lt2 9 \<and> Point [4] \<notin> lt_held lt2 8"
proof -
  let ?ops = "[Escalate, Acquire 8 (Dbt 3 [4], Dbt 3 [4])] :: lt_op list"
  obtain lt1 where lt1: "lt_apply blank_record (Acquire 9 (Dbt 1 [3], Dbt 2 [5])) demo_tree = Some lt1" "lt_ok 1000 lt1" "lt_cmp lt1 = builtin_comparator"
    "lt_held lt1 9 = interval_keys builtin_comparator (Point [3], Point [5])" by (rule demo_acquire)
  have ok: "lt_ok 1000 lt1 \<and> lt_cmp lt1 = builtin_comparator" using lt1 by simp
  obtain lt' where "lt_apply blank_record Escalate lt1 = Some lt'" "lt_ok 1000 lt' \<and> lt_cmp lt' = builtin_comparator"
    using lt.escalate_law [OF ok lt_pre.simps(3) [THEN iffD2, OF TrueI], of blank_record] by (elim exE conjE) (rule that, simp_all)
  then have legal: "legal_ops lt_pre (lt_apply blank_record) ?ops lt1" using demo_range_ok(2)
    by (simp del: lt_apply.simps split: option.splits)
  have quiet: "\<forall>op\<in>set ?ops. \<not> releases 9 op" by simp
  obtain lt2 where lt2: "run_lock_ops (lt_apply blank_record) ?ops lt1 = Some lt2"
    "\<forall>u. (\<forall>op\<in>set ?ops. \<not> releases u op) \<longrightarrow> lt_held lt1 u \<subseteq> lt_held lt2 u \<and> (\<forall>w. w \<noteq> u \<longrightarrow> lt_held lt1 u \<inter> lt_held lt2 w = {})"
    using lock_history [OF lt1(2) legal] by (elim exE conjE) (rule that)
  have "Point [4] \<in> lt_held lt1 9" using lt1(4) demo_inside by simp
  moreover have "lt_held lt1 9 \<subseteq> lt_held lt2 9" "lt_held lt1 9 \<inter> lt_held lt2 8 = {}" using lt2(2) quiet by simp_all
  ultimately have "Point [4] \<in> lt_held lt1 9 \<and> Point [4] \<in> lt_held lt2 9 \<and> Point [4] \<notin> lt_held lt2 8" by blast
  then show ?thesis using lt1(1) lt2(1) by (intro exI [of _ lt1] exI [of _ lt2]) (simp only: simp_thms)
qed

end
