(* ===== verification/Locktree_Frame.thy ===== *)
theory Locktree_Frame
  imports Lock_Table
begin

text \<open>
  What no operation of a lock tree changes: its dictionary, its comparator, its reference count and whether it has a manager.
\<close>

definition lt_frame :: "locktree \<Rightarrow> 64 word \<times> comparator \<times> 32 word \<times> bool" where
  "lt_frame lt = (lt_dict_id lt, lt_cmp lt, lt_reference_count lt, lt_mem lt = None)"

named_theorems frames \<open>operations keep the frame\<close>

lemma frame_updates [simp]:
  "lt_frame (lt\<lparr>m_rangetree := t\<rparr>) = lt_frame lt" "lt_frame (lt\<lparr>m_sto_txnid := u\<rparr>) = lt_frame lt" "lt_frame (lt\<lparr>m_sto_buffer := b\<rparr>) = lt_frame lt"
  "lt_frame (lt\<lparr>m_sto_score := n\<rparr>) = lt_frame lt" "lt_frame (lt\<lparr>m_sto_end_early_count := n\<rparr>) = lt_frame lt"
  "lt_frame (note_mem_used n lt) = lt_frame lt"
  by (simp_all add: lt_frame_def note_mem_used_def)

lemma note_mem_released_frame [frames]: "note_mem_released n lt = Some lt' \<Longrightarrow> lt_frame lt' = lt_frame lt \<and> m_sto_txnid lt' = m_sto_txnid lt"
  by (auto simp: note_mem_released_def lt_frame_def ensure_bind_Some split: option.splits)

lemma note_mem_used_sto [simp]: "m_sto_txnid (note_mem_used n lt) = m_sto_txnid lt"
  by (simp add: note_mem_used_def)

lemma remove_row_lock_frame [frames]:
  "remove_row_lock_from_tree lkr l (t, lt) = Some (t', lt') \<Longrightarrow> lt_frame lt' = lt_frame lt \<and> m_sto_txnid lt' = m_sto_txnid lt"
  by (auto simp: remove_row_lock_from_tree_def bind_eq_Some_conv Let_def dest: note_mem_released_frame)

lemma insert_row_lock_frame [frames]:
  "insert_row_lock_into_tree lkr l (t, lt) = Some (t', lt') \<Longrightarrow> lt_frame lt' = lt_frame lt \<and> m_sto_txnid lt' = m_sto_txnid lt"
  by (auto simp: insert_row_lock_into_tree_def bind_eq_Some_conv Let_def)

lemma consolidate_frame [frames]:
  "consolidate lkr u ls k (t, lt) = Some (k', t', lt') \<Longrightarrow> lt_frame lt' = lt_frame lt \<and> m_sto_txnid lt' = m_sto_txnid lt"
proof (induction ls arbitrary: k t lt)
  case (Cons l ls)
  then obtain t1 lt1 where "remove_row_lock_from_tree lkr l (t, lt) = Some (t1, lt1)" "consolidate lkr u ls (keyrange_extend (lt_cmp lt) k (fst l)) (t1, lt1) = Some (k', t', lt')"
    by (auto simp: bind_eq_Some_conv ensure_bind_Some)
  then show ?case using Cons.IH remove_row_lock_frame by metis
qed simp

lemma acquire_consolidated_frame [frames]:
  assumes "acquire_lock_consolidated u l r cs (t, lt) = Some (e, cs', t', lt')"
  shows "lt_frame lt' = lt_frame lt \<and> m_sto_txnid lt' = m_sto_txnid lt"
  using assms unfolding acquire_lock_consolidated_def
  by (auto simp: bind_eq_Some_conv Let_def case_prod_beta split: if_splits) (metis consolidate_frame insert_row_lock_frame prod.collapse)+

lemma sto_fill_frame [frames]:
  "sto_fill_tree recs (t, lt) = Some (t', lt') \<Longrightarrow> lt_frame lt' = lt_frame lt"
proof (induction recs arbitrary: t lt)
  case (Cons rec recs)
  then obtain e cs t1 lt1 where "acquire_lock_consolidated (m_sto_txnid lt) (fst rec) (snd rec) None (t, lt) = Some (e, cs, t1, lt1)" "sto_fill_tree recs (t1, lt1) = Some (t', lt')"
    by (auto simp: bind_eq_Some_conv ensure_bind_Some)
  then show ?case using Cons.IH acquire_consolidated_frame by metis
qed simp

lemma sto_end_frame [frames]: "sto_end lt = Some lt' \<Longrightarrow> lt_frame lt' = lt_frame lt"
  by (auto simp: sto_end_def bind_eq_Some_conv dest: note_mem_released_frame)

lemma sto_migrate_frame [frames]: "sto_migrate_buffer_ranges_to_tree junk lkr lt = Some lt' \<Longrightarrow> lt_frame lt' = lt_frame lt"
  by (auto simp: sto_migrate_buffer_ranges_to_tree_def bind_eq_Some_conv ensure_bind_Some Let_def case_prod_beta dest: sto_fill_frame)

lemma sto_end_early_frame [frames]:
  "sto_end_early_no_accounting junk lkr lt = Some lt' \<Longrightarrow> lt_frame lt' = lt_frame lt" "sto_end_early junk lkr lt = Some lt' \<Longrightarrow> lt_frame lt' = lt_frame lt"
  by (auto simp: sto_end_early_no_accounting_def sto_end_early_def bind_eq_Some_conv dest!: sto_migrate_frame sto_end_frame)

lemma sto_append_frame [frames]: "sto_append l r lt = Some lt' \<Longrightarrow> lt_frame lt' = lt_frame lt"
  by (auto simp: sto_append_def bind_eq_Some_conv Let_def)

lemma sto_begin_frame [frames]: "sto_begin u lt = Some lt' \<Longrightarrow> lt_frame lt' = lt_frame lt"
  by (auto simp: sto_begin_def bind_eq_Some_conv ensure_bind_Some)

lemma sto_try_acquire_frame [frames]:
  "sto_try_acquire junk lkr u l r lt = Some (acquired, lt') \<Longrightarrow> lt_frame lt' = lt_frame lt \<and> (\<not> acquired \<longrightarrow> m_sto_txnid lt' = TXNID_NONE)"
  unfolding sto_try_acquire_def
  by (auto simp: bind_eq_Some_conv ensure_bind_Some split: if_splits dest!: sto_begin_frame sto_end_early_frame sto_append_frame)

lemma acquire_lock_frame [frames]:
  assumes "acquire_lock junk w u l r cs lt = Some (e, cs', lt')"
  shows "lt_frame lt' = lt_frame lt" "e \<noteq> None \<Longrightarrow> m_sto_txnid lt' = TXNID_NONE"
  using assms unfolding acquire_lock_def
  by (auto simp: bind_eq_Some_conv ensure_bind_Some split: if_splits dest!: sto_try_acquire_frame acquire_consolidated_frame)

lemma remove_own_frame [frames]: "remove_own_locks lkr u ls (t, lt) = Some (t', lt') \<Longrightarrow> lt_frame lt' = lt_frame lt"
proof (induction ls arbitrary: t lt)
  case (Cons l ls)
  then obtain t1 lt1 where "(if snd l = u then remove_row_lock_from_tree lkr l (t, lt) else Some (t, lt)) = Some (t1, lt1)" "remove_own_locks lkr u ls (t1, lt1) = Some (t', lt')"
    by (auto simp: bind_eq_Some_conv)
  then show ?case using Cons.IH remove_row_lock_frame by (metis option.inject prod.inject)
qed simp

lemma remove_overlapping_frame [frames]: "remove_overlapping_locks_for_txnid u l r lt = Some lt' \<Longrightarrow> lt_frame lt' = lt_frame lt"
  by (auto simp: remove_overlapping_locks_for_txnid_def bind_eq_Some_conv Let_def case_prod_beta dest: remove_own_frame)

lemma release_ranges_frame [frames]: "release_ranges u recs lt = Some lt' \<Longrightarrow> lt_frame lt' = lt_frame lt"
  by (induction recs arbitrary: lt) (auto simp: bind_eq_Some_conv dest: remove_overlapping_frame)

lemma release_locks_frame [frames]: "release_locks junk u b lt = Some lt' \<Longrightarrow> lt_frame lt' = lt_frame lt"
  by (auto simp: release_locks_def sto_try_release_def bind_eq_Some_conv ensure_bind_Some split: if_splits dest!: release_ranges_frame sto_end_frame)

lemma remove_row_locks_frame [frames]: "remove_row_locks lkr ls (t, lt) = Some (t', lt') \<Longrightarrow> lt_frame lt' = lt_frame lt"
proof (induction ls arbitrary: t lt)
  case (Cons l ls)
  then obtain t1 lt1 where "remove_row_lock_from_tree lkr l (t, lt) = Some (t1, lt1)" "remove_row_locks lkr ls (t1, lt1) = Some (t', lt')"
    by (auto simp: bind_eq_Some_conv)
  then show ?case using Cons.IH remove_row_lock_frame by metis
qed simp

lemma extract_frame [frames]: "extract_first_n_row_locks lkr n (t, lt) = Some (ls, t', lt') \<Longrightarrow> lt_frame lt' = lt_frame lt"
  by (auto simp: extract_first_n_row_locks_def bind_eq_Some_conv ensure_bind_Some Let_def case_prod_beta dest: remove_row_locks_frame)

lemma escalate_extract_frame [frames]: "escalate_extract lkr bufs s = Some (bufs', t', lt') \<Longrightarrow> lt_frame lt' = lt_frame (snd s)"
proof (induction lkr bufs s rule: escalate_extract.induct)
  case (1 lkr bufs s)
  obtain ls t1 lt1 where e: "extract_first_n_row_locks lkr num_row_locks_per_batch s = Some (ls, t1, lt1)"
    using "1.prems" by (subst (asm) escalate_extract.simps) (auto split: option.splits)
  have f: "lt_frame lt1 = lt_frame (snd s)" using extract_frame e by (metis prod.collapse)
  show ?case
  proof (cases "ls = []")
    case True
    then show ?thesis using "1.prems" e f by (subst (asm) escalate_extract.simps) simp
  next
    case False
    then obtain bufs1 where b: "escalate_batch ls bufs = Some bufs1" "escalate_extract lkr bufs1 (t1, lt1) = Some (bufs', t', lt')"
      using "1.prems" e by (subst (asm) escalate_extract.simps) (auto simp: bind_eq_Some_conv)
    then show ?thesis using "1.IH" [OF e] False f by auto
  qed
qed

lemma rebuild_ranges_frame [frames]: "rebuild_ranges lkr u recs (t, lt) = Some (t', lt') \<Longrightarrow> lt_frame lt' = lt_frame lt"
proof (induction recs arbitrary: t lt)
  case (Cons r recs)
  then obtain t1 lt1 where "insert_row_lock_into_tree lkr (keyrange_create (fst r) (snd r), u) (t, lt) = Some (t1, lt1)" "rebuild_ranges lkr u recs (t1, lt1) = Some (t', lt')"
    by (auto simp: bind_eq_Some_conv)
  then show ?case using Cons.IH insert_row_lock_frame by metis
qed simp

lemma escalate_rebuild_frame [frames]: "escalate_rebuild junk lkr bufs (t, lt) = Some (t', lt') \<Longrightarrow> lt_frame lt' = lt_frame lt"
proof (induction bufs arbitrary: t lt)
  case (Cons b bufs)
  then obtain recs t1 lt1 where "rebuild_ranges lkr (fst b) recs (t, lt) = Some (t1, lt1)" "escalate_rebuild junk lkr bufs (t1, lt1) = Some (t', lt')"
    by (auto simp: bind_eq_Some_conv)
  then show ?case using Cons.IH rebuild_ranges_frame by metis
qed simp

lemma escalate_frame [frames]: "escalate junk lt = Some (bufs, lt') \<Longrightarrow> lt_frame lt' = lt_frame lt"
  by (auto simp: escalate_def bind_eq_Some_conv ensure_bind_Some Let_def split: if_splits dest!: escalate_extract_frame escalate_rebuild_frame sto_end_early_frame)

end
