(* ===== verification/Lock_Manager.thy ===== *)
theory Lock_Manager
  imports Locktree_Frame
begin

text \<open>
  The lock tree manager, \<open>src/locktree/manager.cc\<close>: the map from dictionary ids to reference counted lock trees, the memory that all locks may take
  together, and escalation when it is used up; with \<open>try_acquire_lock\<close> of \<open>src/locktree/locktree.cc\<close>, which consults it. Each lock tree carries the
  state of its pending lock requests, \<open>lt_lock_request_info\<close>.

  A pointer to a lock tree is its dictionary id: there is one tree per id in the map, and a tree is in the map as long as it is referenced.
  The counter \<open>m_current_lock_memory\<close> belongs to the manager; while one of its trees works, the tree sees it as \<open>lt_mem\<close>, which is unused in a tree at rest.
  Calls run one after the other; mutexes, and the waiting of one escalating thread for another, are left out.  The times of escalations are left out of the statistics.
\<close>

subsection \<open>State\<close>

datatype lr_type = UNKNOWN | READ | WRITE

datatype lr_state = UNINITIALIZED | INITIALIZED | PENDING | COMPLETE | DESTROYED

text \<open>A null key pointer is the empty buffer at address 0.\<close>

record lock_request =
  lr_txnid :: TXNID
  lr_conflicting_txnid :: TXNID
  lr_start_time :: nat
  lr_left_key :: DBT
  lr_right_key :: DBT
  lr_type :: lr_type
  lr_complete_r :: "ft_error option"
  lr_state :: lr_state
  lr_big_txn :: bool
  lr_extra :: nat

record lt_counters =
  wait_count :: "64 word"
  wait_time :: "64 word"
  long_wait_count :: "64 word"
  long_wait_time :: "64 word"
  timeout_count :: "64 word"

definition counters_add :: "lt_counters \<Rightarrow> lt_counters \<Rightarrow> lt_counters" where
  "counters_add c rhs =
     \<lparr>wait_count = wait_count c + wait_count rhs, wait_time = wait_time c + wait_time rhs,
      long_wait_count = long_wait_count c + long_wait_count rhs, long_wait_time = long_wait_time c + long_wait_time rhs,
      timeout_count = timeout_count c + timeout_count rhs\<rparr>"

definition counters_zero :: lt_counters where
  "counters_zero = \<lparr>wait_count = 0, wait_time = 0, long_wait_count = 0, long_wait_time = 0, timeout_count = 0\<rparr>"

record lt_lock_request_info =
  pending_lock_requests :: "lock_request list"
  pending_is_empty :: bool
  should_retry_lock_requests :: bool
  counters :: lt_counters
  retry_want :: "64 word"
  retry_done :: "64 word"
  running_retry :: bool

definition info_init :: lt_lock_request_info where
  "info_init = \<lparr>pending_lock_requests = [], pending_is_empty = True, should_retry_lock_requests = False,
     counters = counters_zero, retry_want = 0, retry_done = 0, running_retry = False\<rparr>"

record managed_lt =
  ml_tree :: locktree
  ml_info :: lt_lock_request_info

record locktree_manager =
  m_max_lock_memory :: nat
  m_current_lock_memory :: nat
  m_locktree_map :: "managed_lt list"
  m_lt_counters :: lt_counters
  m_escalation_count :: nat
  m_escalation_latest_result :: nat

abbreviation ml_dict :: "managed_lt \<Rightarrow> 64 word" where
  "ml_dict m \<equiv> lt_dict_id (ml_tree m)"

definition DEFAULT_MAX_LOCK_MEMORY :: nat where
  "DEFAULT_MAX_LOCK_MEMORY = 64 * 1024 * 1024"

definition manager_create :: locktree_manager where
  "manager_create = \<lparr>m_max_lock_memory = DEFAULT_MAX_LOCK_MEMORY, m_current_lock_memory = 0, m_locktree_map = [],
     m_lt_counters = counters_zero, m_escalation_count = 0, m_escalation_latest_result = 0\<rparr>"

definition manager_destroy :: "locktree_manager \<Rightarrow> unit option" where
  "manager_destroy mgr = do {
     ensure (m_current_lock_memory mgr = 0);
     ensure (length (m_locktree_map mgr) = 0)
   }"

definition set_max_lock_memory :: "nat \<Rightarrow> locktree_manager \<Rightarrow> ft_error option \<times> locktree_manager" where
  "set_max_lock_memory max_lock_memory mgr =
     (if max_lock_memory < m_current_lock_memory mgr then (Some EDOM, mgr)
      else (None, mgr\<lparr>m_max_lock_memory := max_lock_memory\<rparr>))"

subsection \<open>The map and the reference counts\<close>

definition find_by_dict_id :: "64 word \<Rightarrow> managed_lt \<Rightarrow> int" where
  "find_by_dict_id dict_id m = (if ml_dict m < dict_id then - 1 else if ml_dict m = dict_id then 0 else 1)"

definition locktree_map_find :: "64 word \<Rightarrow> locktree_manager \<Rightarrow> nat option" where
  "locktree_map_find dict_id mgr =
     (case omt_find_zero (find_by_dict_id dict_id) (m_locktree_map mgr) of Inr (_, idx) \<Rightarrow> Some idx | Inl _ \<Rightarrow> None)"

definition locktree_map_put :: "managed_lt \<Rightarrow> locktree_manager \<Rightarrow> locktree_manager option" where
  "locktree_map_put m mgr =
     (case omt_insert (find_by_dict_id (ml_dict m)) (m_locktree_map mgr) m of
        Inr (ms, _) \<Rightarrow> Some (mgr\<lparr>m_locktree_map := ms\<rparr>)
      | Inl _ \<Rightarrow> None)"

definition locktree_map_remove :: "64 word \<Rightarrow> locktree_manager \<Rightarrow> locktree_manager option" where
  "locktree_map_remove dict_id mgr = do {
     idx \<leftarrow> locktree_map_find dict_id mgr;
     case omt_delete_at (m_locktree_map mgr) idx of
       Inr ms \<Rightarrow> Some (mgr\<lparr>m_locktree_map := ms\<rparr>)
     | Inl _ \<Rightarrow> None
   }"

definition update_at :: "nat \<Rightarrow> (managed_lt \<Rightarrow> managed_lt) \<Rightarrow> locktree_manager \<Rightarrow> locktree_manager" where
  "update_at i f mgr = mgr\<lparr>m_locktree_map := (m_locktree_map mgr)[i := f (m_locktree_map mgr ! i)]\<rparr>"

definition count_reference :: "32 word \<Rightarrow> managed_lt \<Rightarrow> managed_lt" where
  "count_reference d m = m\<lparr>ml_tree := (ml_tree m)\<lparr>lt_reference_count := lt_reference_count (ml_tree m) + d\<rparr>\<rparr>"

definition reference_lt :: "64 word \<Rightarrow> locktree_manager \<Rightarrow> locktree_manager option" where
  "reference_lt dict_id mgr = do {
     i \<leftarrow> locktree_map_find dict_id mgr;
     Some (update_at i (count_reference 1) mgr)
   }"

definition locktree_destroy :: "managed_lt \<Rightarrow> unit option" where
  "locktree_destroy m = do {
     ensure (lt_reference_count (ml_tree m) = 0);
     ensure (length (pending_lock_requests (ml_info m)) = 0);
     concurrent_tree_destroy (m_rangetree (ml_tree m))
   }"

text \<open>The creation callback belongs to the layers above; the result says whether a tree was returned.\<close>

definition get_lt :: "(locktree \<Rightarrow> int) option \<Rightarrow> nat \<Rightarrow> nat \<Rightarrow> 64 word \<Rightarrow> comparator \<Rightarrow> locktree_manager \<Rightarrow> (bool \<times> locktree_manager) option" where
  "get_lt create_callback sizeof_keyrange sizeof_treenode dict_id cmp mgr =
     (case locktree_map_find dict_id mgr of
        None \<Rightarrow> do {
          let m = \<lparr>ml_tree = locktree_create None sizeof_keyrange sizeof_treenode dict_id cmp, ml_info = info_init\<rparr>;
          let r = (case create_callback of None \<Rightarrow> 0 | Some f \<Rightarrow> f (ml_tree m));
          if r \<noteq> 0 then do {
            locktree_destroy (count_reference (- 1) m);
            Some (False, mgr)
          }
          else do {
            mgr \<leftarrow> locktree_map_put m mgr;
            Some (True, mgr)
          }
        }
      | Some i \<Rightarrow> do {
          mgr \<leftarrow> reference_lt dict_id mgr;
          Some (True, mgr)
        })"

definition release_lt :: "64 word \<Rightarrow> locktree_manager \<Rightarrow> locktree_manager option" where
  "release_lt dict_id mgr = do {
     i \<leftarrow> locktree_map_find dict_id mgr;
     let mgr = update_at i (count_reference (- 1)) mgr;
     let refs = lt_reference_count (ml_tree (m_locktree_map mgr ! i));
     if refs = 0 then
       case locktree_map_find dict_id mgr of
         None \<Rightarrow> Some mgr
       | Some j \<Rightarrow> do {
           let m = m_locktree_map mgr ! j;
           let do_destroy = (lt_reference_count (ml_tree m) = 0);
           mgr \<leftarrow> (if do_destroy then locktree_map_remove dict_id mgr else Some mgr);
           let mgr = mgr\<lparr>m_lt_counters := counters_add (m_lt_counters mgr) (counters (ml_info m))\<rparr>;
           if do_destroy then do {
             locktree_destroy m;
             Some mgr
           }
           else Some mgr
         }
     else Some mgr
   }"

subsection \<open>Calls on a tree\<close>

definition on_tree :: "64 word \<Rightarrow> (locktree \<Rightarrow> ('a \<times> locktree) option) \<Rightarrow> locktree_manager \<Rightarrow> ('a \<times> locktree_manager) option" where
  "on_tree dict_id f mgr = do {
     i \<leftarrow> locktree_map_find dict_id mgr;
     (x, lt) \<leftarrow> f ((ml_tree (m_locktree_map mgr ! i))\<lparr>lt_mem := Some (m_current_lock_memory mgr)\<rparr>);
     mem \<leftarrow> lt_mem lt;
     Some (x, (update_at i (\<lambda>m. m\<lparr>ml_tree := lt\<lparr>lt_mem := None\<rparr>\<rparr>) mgr)\<lparr>m_current_lock_memory := mem\<rparr>)
   }"

type_synonym escalations = "(64 word \<times> txnid_range_buffer list) list"

fun escalate_locktrees :: "rb_record \<Rightarrow> 64 word list \<Rightarrow> locktree_manager \<Rightarrow> (escalations \<times> locktree_manager) option" where
  "escalate_locktrees junk [] mgr =
     Some ([], mgr\<lparr>m_escalation_count := m_escalation_count mgr + 1, m_escalation_latest_result := m_current_lock_memory mgr\<rparr>)"
| "escalate_locktrees junk (dict_id # dict_ids) mgr = do {
     (bufs, mgr) \<leftarrow> on_tree dict_id (escalate junk) mgr;
     mgr \<leftarrow> release_lt dict_id mgr;
     (calls, mgr) \<leftarrow> escalate_locktrees junk dict_ids mgr;
     Some ((dict_id, bufs) # calls, mgr)
   }"

fun reference_all :: "64 word list \<Rightarrow> locktree_manager \<Rightarrow> locktree_manager option" where
  "reference_all [] mgr = Some mgr"
| "reference_all (dict_id # dict_ids) mgr = do {
     mgr \<leftarrow> reference_lt dict_id mgr;
     reference_all dict_ids mgr
   }"

definition escalate_all_locktrees :: "rb_record \<Rightarrow> locktree_manager \<Rightarrow> (escalations \<times> locktree_manager) option" where
  "escalate_all_locktrees junk mgr = do {
     let locktrees = map ml_dict (m_locktree_map mgr);
     mgr \<leftarrow> reference_all locktrees mgr;
     escalate_locktrees junk locktrees mgr
   }"

definition run_escalation :: "rb_record \<Rightarrow> locktree_manager \<Rightarrow> (escalations \<times> locktree_manager) option" where
  "run_escalation junk mgr = escalate_all_locktrees junk mgr"

definition out_of_locks :: "locktree_manager \<Rightarrow> bool" where
  "out_of_locks mgr = (m_current_lock_memory mgr \<ge> m_max_lock_memory mgr)"

definition over_big_threshold :: "locktree_manager \<Rightarrow> bool" where
  "over_big_threshold mgr = (m_current_lock_memory mgr \<ge> m_max_lock_memory mgr div 2)"

definition check_current_lock_constraints :: "rb_record \<Rightarrow> bool \<Rightarrow> locktree_manager \<Rightarrow> (ft_error option \<times> escalations \<times> locktree_manager) option" where
  "check_current_lock_constraints junk big_txn mgr = do {
     (r, calls, mgr) \<leftarrow>
       (if big_txn \<and> over_big_threshold mgr then do {
          (calls, mgr) \<leftarrow> run_escalation junk mgr;
          Some (if over_big_threshold mgr then Some TOKUDB_OUT_OF_LOCKS else None, calls, mgr)
        }
        else Some (None, [], mgr));
     if r = None \<and> out_of_locks mgr then do {
       (more, mgr) \<leftarrow> run_escalation junk mgr;
       Some (if out_of_locks mgr then Some TOKUDB_OUT_OF_LOCKS else r, calls @ more, mgr)
     }
     else Some (r, calls, mgr)
   }"

text \<open>\<open>acquire_write_lock\<close> and \<open>acquire_read_lock\<close> are both \<open>try_acquire_lock\<close> for a write lock.\<close>

definition try_acquire_lock ::
  "rb_record \<Rightarrow> 64 word \<Rightarrow> bool \<Rightarrow> TXNID \<Rightarrow> DBT \<Rightarrow> DBT \<Rightarrow> TXNID list \<Rightarrow> bool \<Rightarrow> locktree_manager \<Rightarrow>
     (ft_error option \<times> TXNID list \<times> escalations \<times> locktree_manager) option" where
  "try_acquire_lock junk dict_id is_write_request txnid left_key right_key conflicts big_txn mgr = do {
     (r, calls, mgr) \<leftarrow> check_current_lock_constraints junk big_txn mgr;
     if r = None then do {
       ((r, cs), mgr) \<leftarrow> on_tree dict_id
         (\<lambda>lt. map_option (\<lambda>(r, cs, lt). ((r, cs), lt)) (acquire_lock junk is_write_request txnid left_key right_key (Some conflicts) lt)) mgr;
       conflicts \<leftarrow> cs;
       Some (r, conflicts, calls, mgr)
     }
     else Some (r, conflicts, calls, mgr)
   }"

definition manager_release_locks :: "rb_record \<Rightarrow> 64 word \<Rightarrow> TXNID \<Rightarrow> range_buffer \<Rightarrow> locktree_manager \<Rightarrow> locktree_manager option" where
  "manager_release_locks junk dict_id txnid ranges mgr =
     map_option snd (on_tree dict_id (\<lambda>lt. map_option (Pair ()) (release_locks junk txnid ranges lt)) mgr)"

end
