(* ===== verification/Lock_Manager_Props.thy ===== *)
theory Lock_Manager_Props
  imports Lock_Manager
begin

text \<open>
  The invariant of the lock tree manager, with exact accounting of the memory that the locks of all trees take, and what its operations do to
  what the transactions hold.
\<close>

subsection \<open>The invariant\<close>

definition manager_ok :: "locktree_manager \<Rightarrow> bool" where
  "manager_ok mgr \<longleftrightarrow> sorted_by ml_dict (m_locktree_map mgr) \<and>
     (\<forall>m\<in>set (m_locktree_map mgr). lt_ok 0 (ml_tree m) \<and> lt_mem (ml_tree m) = None \<and> lt_reference_count (ml_tree m) \<noteq> 0) \<and>
     m_current_lock_memory mgr = (\<Sum>m\<leftarrow>m_locktree_map mgr. lt_usage (ml_tree m))"

text \<open>What transaction \<open>u\<close> holds in dictionary \<open>d\<close>.\<close>

definition mgr_held :: "locktree_manager \<Rightarrow> 64 word \<Rightarrow> TXNID \<Rightarrow> endpoint set" where
  "mgr_held mgr d u = (\<Union>m\<in>{m \<in> set (m_locktree_map mgr). ml_dict m = d}. lt_held (ml_tree m) u)"

text \<open>What the calls of the lock trees leave alone: the frames of the trees and the state of their requests.\<close>

definition mgr_sig :: "locktree_manager \<Rightarrow> ((64 word \<times> comparator \<times> 32 word \<times> bool) \<times> lt_lock_request_info) list" where
  "mgr_sig mgr = map (\<lambda>m. (lt_frame (ml_tree m), ml_info m)) (m_locktree_map mgr)"

definition mgr_dicts :: "locktree_manager \<Rightarrow> 64 word list" where
  "mgr_dicts mgr = map ml_dict (m_locktree_map mgr)"

lemma mem_irrelevant [simp]:
  "lt_held (lt\<lparr>lt_mem := x\<rparr>) u = lt_held lt u" "lt_usage (lt\<lparr>lt_mem := x\<rparr>) = lt_usage lt"
  by (auto simp: lt_held_def lt_usage_def tree_mem_def row_lock_size_in_tree_def)

lemma lt_ok_mem: "lt_ok base lt \<Longrightarrow> x = None \<or> x = Some (base' + lt_usage lt) \<Longrightarrow> lt_ok base' (lt\<lparr>lt_mem := x\<rparr>)"
  unfolding lt_ok_def mem_irrelevant(2) by (auto simp: charged_def)

lemma find_dict_key: "find_by_dict_id d = key_cmp ml_dict d"
  by (auto simp: find_by_dict_id_def key_cmp_def fun_eq_iff)

lemma mgr_split:
  assumes "sorted_by ml_dict ms" "m \<in> set ms"
  obtains us ws where "ms = us @ m # ws" "\<forall>x\<in>set us. ml_dict x \<noteq> ml_dict m" "\<forall>x\<in>set ws. ml_dict x \<noteq> ml_dict m"
    "omt_find_zero (find_by_dict_id (ml_dict m)) ms = Inr (m, length us)"
proof -
  obtain us ws where s: "ms = us @ m # ws" "below_count (key_cmp ml_dict (ml_dict m)) ms = length us" "\<forall>x\<in>set us. ml_dict x < ml_dict m" "\<forall>x\<in>set ws. ml_dict m < ml_dict x"
    by (rule sorted_by_split [OF assms refl])
  then have "omt_find_zero (find_by_dict_id (ml_dict m)) ms = Inr (m, length us)"
    unfolding find_dict_key using omt_find_zero_sorted [OF assms(1), of "ml_dict m" m "length us"] by simp
  then show thesis using s by (intro that) auto
qed

lemma map_find_missing: "sorted_by ml_dict (m_locktree_map mgr) \<Longrightarrow> locktree_map_find d mgr = None \<longleftrightarrow> d \<notin> set (mgr_dicts mgr)"
  using omt_find_zero_missing [of ml_dict "m_locktree_map mgr" d]
  by (auto simp: locktree_map_find_def find_dict_key mgr_dicts_def split: sum.splits)

text \<open>An update of the tree of one dictionary.\<close>

definition put_lt :: "managed_lt \<Rightarrow> locktree_manager \<Rightarrow> locktree_manager" where
  "put_lt m' mgr = mgr\<lparr>m_locktree_map := map (\<lambda>m. if ml_dict m = ml_dict m' then m' else m) (m_locktree_map mgr)\<rparr>"

lemma update_found:
  assumes "sorted_by ml_dict (m_locktree_map mgr)" "m \<in> set (m_locktree_map mgr)" "ml_dict (f m) = ml_dict m"
  obtains i where "locktree_map_find (ml_dict m) mgr = Some i" "m_locktree_map mgr ! i = m" "update_at i f mgr = put_lt (f m) mgr" "i < length (m_locktree_map mgr)"
proof -
  obtain us ws where s: "m_locktree_map mgr = us @ m # ws" "\<forall>x\<in>set us. ml_dict x \<noteq> ml_dict m" "\<forall>x\<in>set ws. ml_dict x \<noteq> ml_dict m"
    "omt_find_zero (find_by_dict_id (ml_dict m)) (m_locktree_map mgr) = Inr (m, length us)"
    by (rule mgr_split [OF assms(1,2)])
  have "map (\<lambda>x. if ml_dict x = ml_dict (f m) then f m else x) (us @ m # ws) = us @ f m # ws" using s(2,3) assms(3) by (simp add: map_idI)
  then have "update_at (length us) f mgr = put_lt (f m) mgr" by (simp add: update_at_def put_lt_def s(1))
  then show thesis using s(1,4) by (intro that [of "length us"]) (simp_all add: locktree_map_find_def)
qed

lemma put_lt_facts:
  assumes "sorted_by ml_dict (m_locktree_map mgr)" "m \<in> set (m_locktree_map mgr)" "ml_dict m' = ml_dict m"
  shows "sorted_by ml_dict (m_locktree_map (put_lt m' mgr))" "set (m_locktree_map (put_lt m' mgr)) = insert m' (set (m_locktree_map mgr) - {m})"
    "(\<Sum>m\<leftarrow>m_locktree_map (put_lt m' mgr). lt_usage (ml_tree m)) + lt_usage (ml_tree m) = (\<Sum>m\<leftarrow>m_locktree_map mgr. lt_usage (ml_tree m)) + lt_usage (ml_tree m')"
    "mgr_held (put_lt m' mgr) d u = (if d = ml_dict m then lt_held (ml_tree m') u else mgr_held mgr d u)"
    "mgr_dicts (put_lt m' mgr) = mgr_dicts mgr"
proof -
  obtain us ws where s: "m_locktree_map mgr = us @ m # ws" "\<forall>x\<in>set us. ml_dict x \<noteq> ml_dict m" "\<forall>x\<in>set ws. ml_dict x \<noteq> ml_dict m"
    by (rule mgr_split [OF assms(1,2)])
  have p: "m_locktree_map (put_lt m' mgr) = us @ m' # ws" using s assms(3) by (simp add: put_lt_def map_idI)
  show "sorted_by ml_dict (m_locktree_map (put_lt m' mgr))" using assms(1,3) unfolding p s(1) by simp
  show "set (m_locktree_map (put_lt m' mgr)) = insert m' (set (m_locktree_map mgr) - {m})" using s(2,3) unfolding p s(1) by auto
  show "(\<Sum>m\<leftarrow>m_locktree_map (put_lt m' mgr). lt_usage (ml_tree m)) + lt_usage (ml_tree m) = (\<Sum>m\<leftarrow>m_locktree_map mgr. lt_usage (ml_tree m)) + lt_usage (ml_tree m')"
    unfolding p s(1) by simp
  show "mgr_held (put_lt m' mgr) d u = (if d = ml_dict m then lt_held (ml_tree m') u else mgr_held mgr d u)"
    using s(2,3) assms(3) unfolding mgr_held_def p s(1) by auto
  show "mgr_dicts (put_lt m' mgr) = mgr_dicts mgr" using assms(3) unfolding mgr_dicts_def p s(1) by simp
qed

lemma mgr_held_at: "manager_ok mgr \<Longrightarrow> m \<in> set (m_locktree_map mgr) \<Longrightarrow> mgr_held mgr (ml_dict m) u = lt_held (ml_tree m) u"
  by (rule mgr_split [of "m_locktree_map mgr" m]) (auto simp: manager_ok_def mgr_held_def)

subsection \<open>Calls on one tree\<close>

lemma manager_ok_usage: "manager_ok mgr \<Longrightarrow> m \<in> set (m_locktree_map mgr) \<Longrightarrow> lt_usage (ml_tree m) \<le> m_current_lock_memory mgr"
  unfolding manager_ok_def by (simp add: member_le_sum_list)

text \<open>The tree as a call sees it, with the memory of the other trees as its base.\<close>

abbreviation seen_tree :: "managed_lt \<Rightarrow> locktree_manager \<Rightarrow> locktree" where
  "seen_tree m mgr \<equiv> (ml_tree m)\<lparr>lt_mem := Some (m_current_lock_memory mgr)\<rparr>"

abbreviation others_usage :: "managed_lt \<Rightarrow> locktree_manager \<Rightarrow> nat" where
  "others_usage m mgr \<equiv> m_current_lock_memory mgr - lt_usage (ml_tree m)"

lemma seen_tree_ok: "manager_ok mgr \<Longrightarrow> m \<in> set (m_locktree_map mgr) \<Longrightarrow> lt_ok (others_usage m mgr) (seen_tree m mgr)"
  by (rule lt_ok_mem [of 0]) (use manager_ok_usage in \<open>auto simp: manager_ok_def\<close>)

lemma on_tree_ok:
  assumes "manager_ok mgr" "m \<in> set (m_locktree_map mgr)" "ml_dict m = d"
    and "f (seen_tree m mgr) = Some (x, lt')" "lt_ok (others_usage m mgr) lt'" "lt_frame lt' = lt_frame (seen_tree m mgr)"
  obtains mgr' where "on_tree d f mgr = Some (x, mgr')" "manager_ok mgr'" "mgr_sig mgr' = mgr_sig mgr" "m_max_lock_memory mgr' = m_max_lock_memory mgr"
    "\<forall>d' u. mgr_held mgr' d' u = (if d' = d then lt_held lt' u else mgr_held mgr d' u)"
    "m\<lparr>ml_tree := lt'\<lparr>lt_mem := None\<rparr>\<rparr> \<in> set (m_locktree_map mgr')" "\<forall>x\<in>set (m_locktree_map mgr). ml_dict x \<noteq> d \<longrightarrow> x \<in> set (m_locktree_map mgr')"
proof -
  let ?m = "m\<lparr>ml_tree := lt'\<lparr>lt_mem := None\<rparr>\<rparr>"
  have so: "sorted_by ml_dict (m_locktree_map mgr)" using assms(1) by (simp add: manager_ok_def)
  have fr: "lt_dict_id lt' = d" "lt_mem lt' \<noteq> None" "lt_reference_count lt' = lt_reference_count (ml_tree m)" "lt_frame (lt'\<lparr>lt_mem := None\<rparr>) = lt_frame (ml_tree m)"
    using assms(1,2,3,6) by (auto simp: lt_frame_def manager_ok_def)
  have "charged lt' (others_usage m mgr + lt_usage lt')" using assms(5) by (simp only: lt_ok_def)
  then have mem: "lt_mem lt' = Some (others_usage m mgr + lt_usage lt')" using fr(2) by (simp only: charged_def simp_thms)
  obtain i where i: "locktree_map_find (ml_dict m) mgr = Some i" "m_locktree_map mgr ! i = m" "update_at i (\<lambda>m. m\<lparr>ml_tree := lt'\<lparr>lt_mem := None\<rparr>\<rparr>) mgr = put_lt ?m mgr"
    by (rule update_found [OF so assms(2), of "\<lambda>m. m\<lparr>ml_tree := lt'\<lparr>lt_mem := None\<rparr>\<rparr>"]) (use fr(1) assms(3) in simp_all)
  have dm: "ml_dict ?m = ml_dict m" using fr(1) assms(3) by simp
  note p = put_lt_facts [OF so assms(2) dm]
  let ?mgr = "(put_lt ?m mgr)\<lparr>m_current_lock_memory := others_usage m mgr + lt_usage lt'\<rparr>"
  have "on_tree d f mgr = Some (x, ?mgr)" using i assms(3,4) mem by (simp add: on_tree_def)
  moreover have "manager_ok ?mgr"
  proof -
    have "lt_ok 0 (lt'\<lparr>lt_mem := None\<rparr>)" by (rule lt_ok_mem [OF assms(5)]) simp
    then have "\<forall>m\<in>set (m_locktree_map (put_lt ?m mgr)). lt_ok 0 (ml_tree m) \<and> lt_mem (ml_tree m) = None \<and> lt_reference_count (ml_tree m) \<noteq> 0"
      using assms(1,2) fr(3) unfolding p(2) by (auto simp: manager_ok_def)
    moreover have "others_usage m mgr + lt_usage lt' = (\<Sum>m\<leftarrow>m_locktree_map (put_lt ?m mgr). lt_usage (ml_tree m))"
      using p(3) manager_ok_usage [OF assms(1,2)] assms(1) by (simp add: manager_ok_def)
    ultimately show ?thesis using p(1) unfolding manager_ok_def by simp
  qed
  moreover have "mgr_sig ?mgr = mgr_sig mgr"
  proof -
    have "m' = m" if "m' \<in> set (m_locktree_map mgr)" "ml_dict m' = ml_dict m" for m'
      by (rule mgr_split [OF so assms(2)]) (use that in auto)
    then show ?thesis using fr(4) dm by (auto simp: mgr_sig_def put_lt_def)
  qed
  moreover have "\<forall>d' u. mgr_held ?mgr d' u = (if d' = d then lt_held lt' u else mgr_held mgr d' u)"
    using p(4) assms(3) by (simp add: mgr_held_def)
  moreover have "?m \<in> set (m_locktree_map ?mgr)" using p(2) by simp
  moreover have "\<forall>x\<in>set (m_locktree_map mgr). ml_dict x \<noteq> d \<longrightarrow> x \<in> set (m_locktree_map ?mgr)" using p(2) assms(3) by auto
  ultimately show thesis by (intro that [of ?mgr]) (simp_all add: put_lt_def)
qed

subsection \<open>Reference counts\<close>

definition add_refs :: "64 word set \<Rightarrow> 32 word \<Rightarrow> locktree_manager \<Rightarrow> locktree_manager" where
  "add_refs ds k mgr = mgr\<lparr>m_locktree_map := map (\<lambda>m. if ml_dict m \<in> ds then count_reference k m else m) (m_locktree_map mgr)\<rparr>"

lemma count_reference_facts [simp]:
  "ml_dict (count_reference k m) = ml_dict m" "lt_held (ml_tree (count_reference k m)) u = lt_held (ml_tree m) u" "lt_usage (ml_tree (count_reference k m)) = lt_usage (ml_tree m)"
  "lt_mem (ml_tree (count_reference k m)) = lt_mem (ml_tree m)" "ml_info (count_reference k m) = ml_info m"
  "lt_reference_count (ml_tree (count_reference k m)) = lt_reference_count (ml_tree m) + k" "lt_ok base (ml_tree (count_reference k m)) = lt_ok base (ml_tree m)"
  by (auto simp: count_reference_def lt_held_def lt_usage_def tree_mem_def row_lock_size_in_tree_def lt_ok_def charged_def)

lemma count_reference_add: "count_reference k (count_reference j m) = count_reference (j + k) m"
  by (simp add: count_reference_def add.assoc)

lemma count_reference_zero: "count_reference 0 m = m"
  by (simp add: count_reference_def)

definition sig_add :: "64 word set \<Rightarrow> 32 word \<Rightarrow> ((64 word \<times> comparator \<times> 32 word \<times> bool) \<times> 'i) list \<Rightarrow> ((64 word \<times> comparator \<times> 32 word \<times> bool) \<times> 'i) list" where
  "sig_add ds k = map (\<lambda>((d, c, r, b), i). ((d, c, if d \<in> ds then r + k else r, b), i))"

lemma sig_add_add: "ds \<inter> es = {} \<Longrightarrow> sig_add es k (sig_add ds k sg) = sig_add (ds \<union> es) k sg" "sig_add ds (- k) (sig_add ds k sg) = sg"
  by (auto simp: sig_add_def intro!: map_idI)

text \<open>One element of the map under \<open>add_refs\<close>.\<close>

abbreviation counted :: "64 word set \<Rightarrow> 32 word \<Rightarrow> managed_lt \<Rightarrow> managed_lt" where
  "counted ds k m \<equiv> if ml_dict m \<in> ds then count_reference k m else m"

lemma counted_facts [simp]:
  "ml_dict (counted ds k m) = ml_dict m" "lt_held (ml_tree (counted ds k m)) u = lt_held (ml_tree m) u" "lt_usage (ml_tree (counted ds k m)) = lt_usage (ml_tree m)"
  by simp_all

lemma add_refs_held: "mgr_held (add_refs ds k mgr) d u = mgr_held mgr d u"
proof -
  have "{m \<in> counted ds k ` set (m_locktree_map mgr). ml_dict m = d} = counted ds k ` {m \<in> set (m_locktree_map mgr). ml_dict m = d}"
  proof (intro set_eqI iffI)
    fix x
    assume "x \<in> {m \<in> counted ds k ` set (m_locktree_map mgr). ml_dict m = d}"
    then obtain m where "m \<in> set (m_locktree_map mgr)" "x = counted ds k m" "ml_dict x = d" by blast
    then show "x \<in> counted ds k ` {m \<in> set (m_locktree_map mgr). ml_dict m = d}" by (intro image_eqI [of _ _ m]) simp_all
  next
    fix x
    assume "x \<in> counted ds k ` {m \<in> set (m_locktree_map mgr). ml_dict m = d}"
    then obtain m where "m \<in> set (m_locktree_map mgr)" "x = counted ds k m" "ml_dict m = d" by blast
    then show "x \<in> {m \<in> counted ds k ` set (m_locktree_map mgr). ml_dict m = d}" by (intro CollectI conjI image_eqI [of _ _ m]) simp_all
  qed
  then show ?thesis by (simp add: mgr_held_def add_refs_def image_image del: if_split)
qed

lemma add_refs_facts:
  "mgr_held (add_refs ds k mgr) d u = mgr_held mgr d u" "mgr_dicts (add_refs ds k mgr) = mgr_dicts mgr" "m_max_lock_memory (add_refs ds k mgr) = m_max_lock_memory mgr"
  "mgr_sig (add_refs ds k mgr) = sig_add ds k (mgr_sig mgr)" "m_current_lock_memory (add_refs ds k mgr) = m_current_lock_memory mgr"
  by (rule add_refs_held) (auto simp: add_refs_def mgr_dicts_def mgr_sig_def sig_add_def lt_frame_def count_reference_def)

lemma add_refs_ok:
  assumes "manager_ok mgr" "\<forall>m\<in>set (m_locktree_map mgr). ml_dict m \<in> ds \<longrightarrow> lt_reference_count (ml_tree m) + k \<noteq> 0"
  shows "manager_ok (add_refs ds k mgr)"
proof -
  have "sorted_by ml_dict (m_locktree_map (add_refs ds k mgr))" using assms(1) by (simp add: manager_ok_def add_refs_def sorted_by_def sorted_wrt_map del: if_split)
  moreover have "(\<Sum>m\<leftarrow>m_locktree_map (add_refs ds k mgr). lt_usage (ml_tree m)) = (\<Sum>m\<leftarrow>m_locktree_map mgr. lt_usage (ml_tree m))"
    by (auto simp: add_refs_def o_def intro!: arg_cong [of _ _ sum_list])
  ultimately show ?thesis using assms by (auto simp: manager_ok_def add_refs_facts add_refs_def)
qed

lemma sig_dicts: "mgr_sig mgr = mgr_sig mgr' \<Longrightarrow> mgr_dicts mgr = mgr_dicts mgr'" "map (fst \<circ> fst) (mgr_sig mgr) = mgr_dicts mgr"
proof -
  show k: "map (fst \<circ> fst) (mgr_sig mgr) = mgr_dicts mgr" for mgr by (simp add: mgr_sig_def mgr_dicts_def lt_frame_def o_def)
  show "mgr_sig mgr = mgr_sig mgr' \<Longrightarrow> mgr_dicts mgr = mgr_dicts mgr'" using k [of mgr] k [of mgr'] by simp
qed

lemma update_refs:
  assumes "sorted_by ml_dict (m_locktree_map mgr)" "d \<in> set (mgr_dicts mgr)"
  obtains i m where "locktree_map_find d mgr = Some i" "update_at i (count_reference k) mgr = add_refs {d} k mgr" "m_locktree_map (add_refs {d} k mgr) ! i = count_reference k m"
    "m \<in> set (m_locktree_map mgr)" "ml_dict m = d"
proof -
  obtain m where m: "m \<in> set (m_locktree_map mgr)" "ml_dict m = d" using assms(2) by (auto simp: mgr_dicts_def)
  obtain i where i: "locktree_map_find (ml_dict m) mgr = Some i" "m_locktree_map mgr ! i = m" "update_at i (count_reference k) mgr = put_lt (count_reference k m) mgr" "i < length (m_locktree_map mgr)"
    by (rule update_found [OF assms(1) m(1), of "count_reference k"]) simp_all
  have "m' = m" if "m' \<in> set (m_locktree_map mgr)" "ml_dict m' = d" for m'
    by (rule mgr_split [OF assms(1) m(1)]) (use that m(2) in auto)
  then have "put_lt (count_reference k m) mgr = add_refs {d} k mgr" using m(2) by (auto simp: put_lt_def add_refs_def)
  then show thesis using i m by (intro that [of i m]) (simp_all add: add_refs_def)
qed

lemma reference_lt_ok: "sorted_by ml_dict (m_locktree_map mgr) \<Longrightarrow> d \<in> set (mgr_dicts mgr) \<Longrightarrow> reference_lt d mgr = Some (add_refs {d} 1 mgr)"
  by (rule update_refs [of mgr d 1]) (simp_all add: reference_lt_def)

lemma release_lt_ok:
  assumes "sorted_by ml_dict (m_locktree_map mgr)" "d \<in> set (mgr_dicts mgr)" "\<forall>m\<in>set (m_locktree_map mgr). ml_dict m = d \<longrightarrow> lt_reference_count (ml_tree m) - 1 \<noteq> 0"
  shows "release_lt d mgr = Some (add_refs {d} (- 1) mgr)"
proof -
  obtain i m where i: "locktree_map_find d mgr = Some i" "update_at i (count_reference (- 1)) mgr = add_refs {d} (- 1) mgr"
    "m_locktree_map (add_refs {d} (- 1) mgr) ! i = count_reference (- 1) m" "m \<in> set (m_locktree_map mgr)" "ml_dict m = d"
    by (rule update_refs [OF assms(1,2)])
  then show ?thesis using assms(3) by (simp add: release_lt_def)
qed

lemma add_refs_add:
  assumes "ds \<inter> es = {}"
  shows "add_refs es k (add_refs ds k mgr) = add_refs (ds \<union> es) k mgr"
proof -
  have "counted es k (counted ds k m) = counted (ds \<union> es) k m" for m using assms by auto
  then show ?thesis by (simp add: add_refs_def o_def del: if_split Un_iff)
qed

lemma add_refs_sorted: "sorted_by ml_dict (m_locktree_map mgr) \<Longrightarrow> sorted_by ml_dict (m_locktree_map (add_refs ds k mgr))"
  by (simp add: add_refs_def sorted_by_def sorted_wrt_map del: if_split)

lemma reference_all_ok:
  "sorted_by ml_dict (m_locktree_map mgr) \<Longrightarrow> set ds \<subseteq> set (mgr_dicts mgr) \<Longrightarrow> distinct ds \<Longrightarrow> reference_all ds mgr = Some (add_refs (set ds) 1 mgr)"
proof (induction ds arbitrary: mgr)
  case Nil
  then show ?case by (simp add: add_refs_def)
next
  case (Cons d ds)
  then have "reference_lt d mgr = Some (add_refs {d} 1 mgr)" using reference_lt_ok by simp
  moreover have "reference_all ds (add_refs {d} 1 mgr) = Some (add_refs (set ds) 1 (add_refs {d} 1 mgr))"
    using Cons.prems by (intro Cons.IH) (simp_all add: add_refs_sorted add_refs_facts)
  ultimately show ?case using Cons.prems(3) add_refs_add [of "{d}" "set ds"] by simp
qed

subsection \<open>Escalation of all trees\<close>

text \<open>The callbacks of an escalation: per dictionary, the buffers list exactly what each transaction holds.\<close>

definition reported :: "escalations \<Rightarrow> locktree_manager \<Rightarrow> bool" where
  "reported calls mgr \<longleftrightarrow> (\<forall>m\<in>set (m_locktree_map mgr). \<forall>bufs u. (ml_dict m, bufs) \<in> set calls \<longrightarrow>
     mgr_held mgr (ml_dict m) u = (\<Union>b\<in>{b \<in> set bufs. fst b = u}. buffer_keys (lt_cmp (ml_tree m)) (buffer_ranges (snd b))))"

text \<open>\<open>grows\<close>: nobody loses a key, and nobody comes in.\<close>

definition grows :: "locktree_manager \<Rightarrow> locktree_manager \<Rightarrow> bool" where
  "grows mgr mgr' \<longleftrightarrow> (\<forall>d u. mgr_held mgr d u \<subseteq> mgr_held mgr' d u \<and> (mgr_held mgr d u = {} \<longrightarrow> mgr_held mgr' d u = {}))"

lemma grows_refl [simp]: "grows mgr mgr"
  by (simp add: grows_def)

lemma grows_trans: "grows m1 m2 \<Longrightarrow> grows m2 m3 \<Longrightarrow> grows m1 m3"
  unfolding grows_def by (meson order_trans)

lemma sig_frames: "manager_ok mgr \<Longrightarrow> m \<in> set (m_locktree_map mgr) \<Longrightarrow> lt_mem (ml_tree m) = None"
  by (simp add: manager_ok_def)

text \<open>Every tree of the dictionaries \<open>ds\<close> is escalated, the locks of the others stay as they are.\<close>

definition same_tree_locks :: "locktree \<Rightarrow> locktree \<Rightarrow> bool" where
  "same_tree_locks lt lt' \<longleftrightarrow> lt_rows lt' = lt_rows lt \<and> m_sto_txnid lt' = m_sto_txnid lt \<and> lt_cmp lt' = lt_cmp lt \<and> lt_held lt' = lt_held lt"

definition escalated_on :: "64 word set \<Rightarrow> locktree_manager \<Rightarrow> locktree_manager \<Rightarrow> bool" where
  "escalated_on ds mgr mgr' \<longleftrightarrow> (\<forall>m\<in>set (m_locktree_map mgr). \<exists>m'\<in>set (m_locktree_map mgr'). ml_dict m' = ml_dict m \<and>
     (if ml_dict m \<in> ds then escalated_tree (ml_tree m) (ml_tree m') else same_tree_locks (ml_tree m) (ml_tree m')))"

text \<open>In an escalation of the manager all trees are escalated.\<close>

definition all_escalated :: "locktree_manager \<Rightarrow> locktree_manager \<Rightarrow> bool" where
  "all_escalated mgr mgr' \<longleftrightarrow> (\<forall>m\<in>set (m_locktree_map mgr). \<exists>m'\<in>set (m_locktree_map mgr'). ml_dict m' = ml_dict m \<and> escalated_tree (ml_tree m) (ml_tree m'))"

lemma same_tree_locks_refl: "same_tree_locks lt lt"
  by (simp add: same_tree_locks_def)

lemma same_tree_locks_trans: "same_tree_locks a b \<Longrightarrow> same_tree_locks b c \<Longrightarrow> same_tree_locks a c"
  by (simp add: same_tree_locks_def)

lemma same_tree_locks_escalated: "same_tree_locks a b \<Longrightarrow> escalated_tree b c \<Longrightarrow> escalated_tree a c" "escalated_tree a b \<Longrightarrow> same_tree_locks b c \<Longrightarrow> escalated_tree a c"
  by (auto simp: escalated_tree_def same_tree_locks_def stands_for_def split: if_splits)

lemma escalated_on_trans:
  assumes "escalated_on ds m1 m2" "escalated_on es m2 m3" "ds \<inter> es = {}"
  shows "escalated_on (ds \<union> es) m1 m3"
  unfolding escalated_on_def
proof
  fix m
  assume "m \<in> set (m_locktree_map m1)"
  then obtain m' where m': "m' \<in> set (m_locktree_map m2)" "ml_dict m' = ml_dict m"
    "if ml_dict m \<in> ds then escalated_tree (ml_tree m) (ml_tree m') else same_tree_locks (ml_tree m) (ml_tree m')" using assms(1) unfolding escalated_on_def by blast
  then obtain m'' where m'': "m'' \<in> set (m_locktree_map m3)" "ml_dict m'' = ml_dict m"
    "if ml_dict m \<in> es then escalated_tree (ml_tree m') (ml_tree m'') else same_tree_locks (ml_tree m') (ml_tree m'')" using assms(2) unfolding escalated_on_def by metis
  have "if ml_dict m \<in> ds \<union> es then escalated_tree (ml_tree m) (ml_tree m'') else same_tree_locks (ml_tree m) (ml_tree m'')"
  proof (cases "ml_dict m \<in> ds")
    case True
    then show ?thesis using m'(3) m''(3) assms(3) same_tree_locks_escalated(2) by (auto split: if_splits)
  next
    case False
    then show ?thesis using m'(3) m''(3) same_tree_locks_escalated(1) same_tree_locks_trans by (auto split: if_splits)
  qed
  then show "\<exists>m'\<in>set (m_locktree_map m3). ml_dict m' = ml_dict m \<and>
      (if ml_dict m \<in> ds \<union> es then escalated_tree (ml_tree m) (ml_tree m') else same_tree_locks (ml_tree m) (ml_tree m'))" using m''(1,2) by blast
qed

lemma add_refs_escalated: "escalated_on {} mgr (add_refs ds k mgr)"
proof -
  have "same_tree_locks (ml_tree m) (ml_tree (counted ds k m))" for m by (auto simp: same_tree_locks_def count_reference_def lt_rows_def lt_held_def fun_eq_iff)
  moreover have "counted ds k m \<in> set (m_locktree_map (add_refs ds k mgr))" if "m \<in> set (m_locktree_map mgr)" for m
    using that unfolding add_refs_def by (simp del: if_split)
  ultimately show ?thesis unfolding escalated_on_def
    by (intro ballI bexI [of _ "counted ds k m" for m] conjI) (simp_all only: counted_facts empty_iff if_False)
qed

lemma escalate_one:
  assumes "manager_ok mgr" "m \<in> set (m_locktree_map mgr)" "ml_dict m = d"
  obtains bufs mgr' where "on_tree d (escalate junk) mgr = Some (bufs, mgr')" "manager_ok mgr'" "mgr_sig mgr' = mgr_sig mgr" "m_max_lock_memory mgr' = m_max_lock_memory mgr"
    "grows mgr mgr'" "\<forall>d' u. d' \<noteq> d \<longrightarrow> mgr_held mgr' d' u = mgr_held mgr d' u"
    "\<forall>u. mgr_held mgr' d u = (\<Union>b\<in>{b \<in> set bufs. fst b = u}. buffer_keys (lt_cmp (ml_tree m)) (buffer_ranges (snd b)))" "escalated_on {d} mgr mgr'"
proof -
  note ok = seen_tree_ok [OF assms(1,2)]
  obtain bufs lt' where e: "escalate junk (seen_tree m mgr) = Some (bufs, lt')" "lt_ok (others_usage m mgr) lt'" "lt_cmp lt' = lt_cmp (seen_tree m mgr)"
    "\<forall>u. lt_held (seen_tree m mgr) u \<subseteq> lt_held lt' u" "\<forall>u. lt_held (seen_tree m mgr) u = {} \<longrightarrow> lt_held lt' u = {}"
    "\<forall>u. lt_held lt' u = (\<Union>b\<in>{b \<in> set bufs. fst b = u}. buffer_keys (lt_cmp (seen_tree m mgr)) (buffer_ranges (snd b)))"
    "escalated_tree (seen_tree m mgr) lt'"
    using key_comparator.escalate_ok [OF lt_key_comparator [OF ok] ok refl, of junk] by (elim exE conjE) (rule that)
  obtain mgr' where g: "on_tree d (escalate junk) mgr = Some (bufs, mgr')" "manager_ok mgr'" "mgr_sig mgr' = mgr_sig mgr" "m_max_lock_memory mgr' = m_max_lock_memory mgr"
    "\<forall>d' u. mgr_held mgr' d' u = (if d' = d then lt_held lt' u else mgr_held mgr d' u)"
    "m\<lparr>ml_tree := lt'\<lparr>lt_mem := None\<rparr>\<rparr> \<in> set (m_locktree_map mgr')" "\<forall>x\<in>set (m_locktree_map mgr). ml_dict x \<noteq> d \<longrightarrow> x \<in> set (m_locktree_map mgr')"
    by (rule on_tree_ok [where f = "escalate junk", OF assms e(1,2) escalate_frame [OF e(1)]])
  have "mgr_held mgr d u = lt_held (seen_tree m mgr) u" for u using mgr_held_at [OF assms(1,2)] assms(3) by simp
  then have "grows mgr mgr'" using g(5) e(4,5) unfolding grows_def by simp
  moreover have "escalated_on {d} mgr mgr'"
  proof -
    let ?m = "m\<lparr>ml_tree := lt'\<lparr>lt_mem := None\<rparr>\<rparr>"
    have "same_tree_locks (ml_tree m) (seen_tree m mgr)" "same_tree_locks lt' (ml_tree ?m)" by (auto simp: same_tree_locks_def lt_rows_def)
    then have t: "escalated_tree (ml_tree m) (ml_tree ?m)" using e(7) same_tree_locks_escalated by blast
    have "ml_dict ?m = d" using escalate_frame [OF e(1)] assms(3) by (simp add: lt_frame_def)
    moreover have "x = m" if "x \<in> set (m_locktree_map mgr)" "ml_dict x = d" for x
      by (rule mgr_split [OF _ assms(2)]) (use that assms(1,3) in \<open>auto simp: manager_ok_def\<close>)
    ultimately show ?thesis using g(6,7) t same_tree_locks_refl unfolding escalated_on_def by (metis (no_types, lifting) singleton_iff)
  qed
  ultimately show thesis using g(1-5) e(6) by (intro that [of bufs mgr']) simp_all
qed

lemma escalate_locktrees_ok:
  assumes "manager_ok mgr" "distinct ds" "set ds \<subseteq> set (mgr_dicts mgr)"
    and "\<forall>m\<in>set (m_locktree_map mgr). ml_dict m \<in> set ds \<longrightarrow> lt_reference_count (ml_tree m) - 1 \<noteq> 0"
  shows "\<exists>calls mgr'. escalate_locktrees junk ds mgr = Some (calls, mgr') \<and> manager_ok mgr' \<and> mgr_sig mgr' = sig_add (set ds) (- 1) (mgr_sig mgr) \<and>
    m_max_lock_memory mgr' = m_max_lock_memory mgr \<and> grows mgr mgr' \<and> (\<forall>d u. d \<notin> set ds \<longrightarrow> mgr_held mgr' d u = mgr_held mgr d u) \<and>
    map fst calls = ds \<and> reported calls mgr' \<and> escalated_on (set ds) mgr mgr'"
  using assms
proof (induction ds arbitrary: mgr)
  case Nil
  then show ?case by (auto simp: manager_ok_def mgr_sig_def sig_add_def grows_def mgr_held_def reported_def escalated_on_def same_tree_locks_def lt_rows_def intro!: map_idI)
next
  case (Cons d ds)
  obtain m where m: "m \<in> set (m_locktree_map mgr)" "ml_dict m = d" using Cons.prems(3) by (auto simp: mgr_dicts_def)
  obtain bufs mgr1 where g1: "on_tree d (escalate junk) mgr = Some (bufs, mgr1)" "manager_ok mgr1" "mgr_sig mgr1 = mgr_sig mgr" "m_max_lock_memory mgr1 = m_max_lock_memory mgr"
    "grows mgr mgr1" "\<forall>d' u. d' \<noteq> d \<longrightarrow> mgr_held mgr1 d' u = mgr_held mgr d' u"
    "\<forall>u. mgr_held mgr1 d u = (\<Union>b\<in>{b \<in> set bufs. fst b = u}. buffer_keys (lt_cmp (ml_tree m)) (buffer_ranges (snd b)))" "escalated_on {d} mgr mgr1"
    by (rule escalate_one [OF Cons.prems(1) m, where junk = junk])
  have refs: "lt_reference_count (ml_tree x) - 1 \<noteq> 0" if "x \<in> set (m_locktree_map mgr1)" "ml_dict x \<in> set (d # ds)" for x
  proof -
    have "(lt_frame (ml_tree x), ml_info x) \<in> set (mgr_sig mgr)" using that(1) unfolding g1(3) [symmetric] by (auto simp: mgr_sig_def)
    then obtain y where "y \<in> set (m_locktree_map mgr)" "lt_frame (ml_tree x) = lt_frame (ml_tree y)" by (auto simp: mgr_sig_def)
    then show ?thesis using Cons.prems(4) that(2) by (auto simp: lt_frame_def)
  qed
  let ?mgr2 = "add_refs {d} (- 1) mgr1"
  have so: "sorted_by ml_dict (m_locktree_map mgr1)" using g1(2) by (simp add: manager_ok_def)
  have ds: "mgr_dicts mgr1 = mgr_dicts mgr" by (rule sig_dicts(1) [OF g1(3)])
  have rel: "release_lt d mgr1 = Some ?mgr2" using refs Cons.prems(3) ds by (intro release_lt_ok [OF so]) auto
  have ok2: "manager_ok ?mgr2" using refs by (intro add_refs_ok [OF g1(2)]) simp
  have more: "distinct ds" "set ds \<subseteq> set (mgr_dicts ?mgr2)" using Cons.prems(2,3) ds by (simp_all add: add_refs_facts)
  have "\<forall>x\<in>set (m_locktree_map ?mgr2). ml_dict x \<in> set ds \<longrightarrow> lt_reference_count (ml_tree x) - 1 \<noteq> 0"
    using refs Cons.prems(2) by (auto simp: add_refs_def split: if_splits)
  note ih = Cons.IH [OF ok2 more this]
  obtain calls mgr' where g2: "escalate_locktrees junk ds ?mgr2 = Some (calls, mgr')" "manager_ok mgr'" "mgr_sig mgr' = sig_add (set ds) (- 1) (mgr_sig ?mgr2)"
    "m_max_lock_memory mgr' = m_max_lock_memory ?mgr2" "grows ?mgr2 mgr'" "\<forall>d u. d \<notin> set ds \<longrightarrow> mgr_held mgr' d u = mgr_held ?mgr2 d u" "map fst calls = ds" "reported calls mgr'" "escalated_on (set ds) ?mgr2 mgr'"
    using ih by (elim exE conjE) (rule that)
  have "escalate_locktrees junk (d # ds) mgr = Some ((d, bufs) # calls, mgr')" using g1(1) rel g2(1) by simp
  moreover have sg: "mgr_sig mgr' = sig_add (set (d # ds)) (- 1) (mgr_sig mgr)" using g2(3) g1(3) Cons.prems(2) by (simp add: add_refs_facts sig_add_add)
  moreover have "grows mgr1 mgr'" using g2(5) unfolding grows_def add_refs_facts .
  then have "grows mgr mgr'" by (rule grows_trans [OF g1(5)])
  moreover have "\<forall>d' u. d' \<notin> set (d # ds) \<longrightarrow> mgr_held mgr' d' u = mgr_held mgr d' u" using g1(6) g2(6) by (simp add: add_refs_facts)
  moreover have "reported ((d, bufs) # calls) mgr'"
  proof -
    have "mgr_held mgr' d u = mgr_held mgr1 d u" for u using g2(6) Cons.prems(2) by (simp add: add_refs_facts)
    moreover have "lt_cmp (ml_tree x) = lt_cmp (ml_tree m)" if "x \<in> set (m_locktree_map mgr')" "ml_dict x = d" for x
    proof -
      note hyp = that
      have "(lt_frame (ml_tree x), ml_info x) \<in> set (sig_add (set (d # ds)) (- 1) (mgr_sig mgr))" using hyp(1) unfolding sg [symmetric] by (auto simp: mgr_sig_def)
      then obtain y where y: "y \<in> set (m_locktree_map mgr)" "ml_dict y = d" "lt_cmp (ml_tree x) = lt_cmp (ml_tree y)" using hyp(2) by (auto simp: mgr_sig_def sig_add_def lt_frame_def)
      have "y = m" by (rule mgr_split [OF _ m(1)]) (use y m(2) Cons.prems(1) in \<open>auto simp: manager_ok_def\<close>)
      then show ?thesis using y(3) by simp
    qed
    moreover have "d \<notin> set (map fst calls)" using g2(7) Cons.prems(2) by simp
    ultimately show ?thesis using g1(7) g2(8) unfolding reported_def by (auto simp: rev_image_eqI)
  qed
  moreover have "escalated_on (set (d # ds)) mgr mgr'"
    using escalated_on_trans [OF g1(8) escalated_on_trans [OF add_refs_escalated g2(9)]] Cons.prems(2) by simp
  ultimately show ?case using g2(2,4,7) g1(4) by (intro exI [of _ "(d, bufs) # calls"] exI [of _ mgr']) (simp add: add_refs_facts)
qed

text \<open>No reference count can overflow while the trees are referenced once more.\<close>

definition refs_room :: "locktree_manager \<Rightarrow> bool" where
  "refs_room mgr \<longleftrightarrow> (\<forall>m\<in>set (m_locktree_map mgr). lt_reference_count (ml_tree m) + 1 \<noteq> 0)"

lemma run_escalation_ok:
  assumes "manager_ok mgr" "refs_room mgr"
  obtains calls mgr' where "run_escalation junk mgr = Some (calls, mgr')" "manager_ok mgr'" "mgr_sig mgr' = mgr_sig mgr" "m_max_lock_memory mgr' = m_max_lock_memory mgr"
    "grows mgr mgr'" "reported calls mgr'" "map fst calls = mgr_dicts mgr" "all_escalated mgr mgr'"
proof -
  let ?ds = "mgr_dicts mgr"
  have so: "sorted_by ml_dict (m_locktree_map mgr)" using assms(1) by (simp add: manager_ok_def)
  then have "sorted_wrt (<) ?ds" by (simp add: mgr_dicts_def sorted_by_def sorted_wrt_map)
  then have dist: "distinct ?ds" by (simp add: strict_sorted_iff)
  have all: "add_refs (set ?ds) 1 mgr = mgr\<lparr>m_locktree_map := map (count_reference 1) (m_locktree_map mgr)\<rparr>" by (auto simp: add_refs_def mgr_dicts_def)
  have ref: "reference_all ?ds mgr = Some (add_refs (set ?ds) 1 mgr)" by (rule reference_all_ok [OF so _ dist]) simp
  have ok: "manager_ok (add_refs (set ?ds) 1 mgr)" using assms(2) by (intro add_refs_ok [OF assms(1)]) (simp add: refs_room_def)
  have sub: "set ?ds \<subseteq> set (mgr_dicts (add_refs (set ?ds) 1 mgr))" by (simp add: add_refs_facts)
  have *: "\<forall>m\<in>set (m_locktree_map (add_refs (set ?ds) 1 mgr)). ml_dict m \<in> set ?ds \<longrightarrow> lt_reference_count (ml_tree m) - 1 \<noteq> 0"
    using assms(1) unfolding all by (auto simp: manager_ok_def)
  obtain calls mgr' where e: "escalate_locktrees junk ?ds (add_refs (set ?ds) 1 mgr) = Some (calls, mgr')" "manager_ok mgr'"
    "mgr_sig mgr' = sig_add (set ?ds) (- 1) (mgr_sig (add_refs (set ?ds) 1 mgr))" "m_max_lock_memory mgr' = m_max_lock_memory (add_refs (set ?ds) 1 mgr)"
    "grows (add_refs (set ?ds) 1 mgr) mgr'" "map fst calls = ?ds" "reported calls mgr'"
    "escalated_on (set ?ds) (add_refs (set ?ds) 1 mgr) mgr'"
    using escalate_locktrees_ok [OF ok dist sub *, of junk] by (elim exE conjE) (rule that)
  have "run_escalation junk mgr = Some (calls, mgr')" using ref e(1) by (simp add: run_escalation_def escalate_all_locktrees_def Let_def mgr_dicts_def)
  moreover have "grows mgr mgr'" using e(5) unfolding grows_def add_refs_facts .
  moreover have "all_escalated mgr mgr'"
    using escalated_on_trans [OF add_refs_escalated e(8)] by (fastforce simp: all_escalated_def escalated_on_def mgr_dicts_def)
  ultimately show thesis using e(2-4,6,7) by (intro that) (simp_all add: add_refs_facts sig_add_add)
qed

subsection \<open>The memory limit\<close>

lemma refs_room_sig: "mgr_sig mgr = mgr_sig mgr' \<Longrightarrow> refs_room mgr = refs_room mgr'"
proof -
  have "refs_room mgr \<longleftrightarrow> (\<forall>((d, c, r, b), i)\<in>set (mgr_sig mgr). r + 1 \<noteq> 0)" for mgr by (auto simp: refs_room_def mgr_sig_def lt_frame_def)
  then show "mgr_sig mgr = mgr_sig mgr' \<Longrightarrow> refs_room mgr = refs_room mgr'" by simp
qed

definition over_limit :: "bool \<Rightarrow> locktree_manager \<Rightarrow> bool" where
  "over_limit big_txn mgr \<longleftrightarrow> out_of_locks mgr \<or> big_txn \<and> over_big_threshold mgr"

lemma check_constraints_ok:
  assumes "manager_ok mgr" "refs_room mgr"
  obtains r calls mgr' where "check_current_lock_constraints junk big_txn mgr = Some (r, calls, mgr')" "manager_ok mgr'" "mgr_sig mgr' = mgr_sig mgr" "m_max_lock_memory mgr' = m_max_lock_memory mgr"
    "grows mgr mgr'" "r = (if over_limit big_txn mgr' then Some TOKUDB_OUT_OF_LOCKS else None)"
    "if over_limit big_txn mgr then map fst calls = mgr_dicts mgr \<and> reported calls mgr' \<and> all_escalated mgr mgr' else calls = [] \<and> mgr' = mgr"
proof -
  have half: "over_big_threshold mgr" if "out_of_locks mgr" for mgr using that by (simp add: over_big_threshold_def out_of_locks_def)
  obtain calls mgr' where e: "run_escalation junk mgr = Some (calls, mgr')" "manager_ok mgr'" "mgr_sig mgr' = mgr_sig mgr" "m_max_lock_memory mgr' = m_max_lock_memory mgr"
    "grows mgr mgr'" "reported calls mgr'" "map fst calls = mgr_dicts mgr" "all_escalated mgr mgr'"
    by (rule run_escalation_ok [OF assms])
  show thesis
  proof (cases "over_limit big_txn mgr")
    case False
    then show thesis using assms by (intro that [of None "[]" mgr]) (auto simp: check_current_lock_constraints_def over_limit_def)
  next
    case True
    then have "check_current_lock_constraints junk big_txn mgr = Some (if over_limit big_txn mgr' then Some TOKUDB_OUT_OF_LOCKS else None, calls, mgr')"
      using e(1) half [of mgr] half [of mgr'] by (auto simp: check_current_lock_constraints_def over_limit_def)
    then show thesis using e(2-8) True by (intro that) simp_all
  qed
qed

text \<open>The transactions other than \<open>u\<close> that hold a key of the range in dictionary \<open>d\<close>.\<close>

definition mgr_blockers :: "locktree_manager \<Rightarrow> 64 word \<Rightarrow> TXNID \<Rightarrow> endpoint set \<Rightarrow> TXNID set" where
  "mgr_blockers mgr d u keys = {v. v \<noteq> u \<and> mgr_held mgr d v \<inter> keys \<noteq> {}}"

lemma seen_blockers: "manager_ok mgr \<Longrightarrow> m \<in> set (m_locktree_map mgr) \<Longrightarrow> ml_dict m = d \<Longrightarrow>
    lt_blockers (seen_tree m mgr) u l r = mgr_blockers mgr d u (interval_keys (lt_cmp (ml_tree m)) (keyof l, keyof r))"
  using mgr_held_at [of mgr m] by (simp add: lt_blockers_def mgr_blockers_def)

lemma acquire_on_tree:
  fixes u :: TXNID
  assumes "manager_ok mgr" "m \<in> set (m_locktree_map mgr)" "ml_dict m = d" "range_ok (lt_cmp (ml_tree m)) l r" "txnid_set_ok cs"
  defines "B \<equiv> mgr_blockers mgr d u (interval_keys (lt_cmp (ml_tree m)) (keyof l, keyof r))"
  obtains cs' mgr' where "on_tree d (\<lambda>lt. map_option (\<lambda>(r, cs, lt). ((r, cs), lt)) (acquire_lock junk True u l r (Some cs) lt)) mgr =
      Some ((if B = {} then None else Some DB_LOCK_NOTGRANTED, Some cs'), mgr')" "txnid_set_ok cs'" "set cs' = set cs \<union> B" "manager_ok mgr'" "mgr_sig mgr' = mgr_sig mgr"
    "m_max_lock_memory mgr' = m_max_lock_memory mgr"
    "\<forall>d' v. mgr_held mgr' d' v = mgr_held mgr d' v \<union> (if B = {} \<and> d' = d \<and> v = u then interval_keys (lt_cmp (ml_tree m)) (keyof l, keyof r) else {})"
    "B \<noteq> {} \<longrightarrow> (\<exists>m'\<in>set (m_locktree_map mgr'). ml_dict m' = d \<and> m_sto_txnid (ml_tree m') = TXNID_NONE)"
proof -
  note ok = seen_tree_ok [OF assms(1,2)]
  have B: "lt_blockers (seen_tree m mgr) u l r = B" unfolding B_def by (rule seen_blockers [OF assms(1-3)])
  have rng: "range_ok (lt_cmp (seen_tree m mgr)) l r" using assms(4) by simp
  have cok: "conflicts_ok (Some cs)" using assms(5) by (simp add: conflicts_ok_def)
  obtain co lt' where a: "acquire_lock junk True u l r (Some cs) (seen_tree m mgr) = Some (if B = {} then None else Some DB_LOCK_NOTGRANTED, co, lt')" "conflicts_added (Some cs) B co"
    "lt_ok (others_usage m mgr) lt'"
    "\<forall>v. lt_held lt' v = lt_held (seen_tree m mgr) v \<union> (if B = {} \<and> v = u then interval_keys (lt_cmp (seen_tree m mgr)) (keyof l, keyof r) else {})"
    using key_comparator.acquire_lock_ok [OF lt_key_comparator [OF ok] ok refl rng cok, of junk u] unfolding B by (elim exE conjE) (rule that)
  obtain cs' where cs: "co = Some cs'" "txnid_set_ok cs'" "set cs' = set cs \<union> B" using a(2) by (cases co) (simp_all add: conflicts_added_def)
  let ?f = "\<lambda>lt. map_option (\<lambda>(r, cs, lt). ((r, cs), lt)) (acquire_lock junk True u l r (Some cs) lt)"
  have f: "?f (seen_tree m mgr) = Some ((if B = {} then None else Some DB_LOCK_NOTGRANTED, Some cs'), lt')" using a(1) cs(1) by simp
  obtain mgr' where g: "on_tree d ?f mgr = Some ((if B = {} then None else Some DB_LOCK_NOTGRANTED, Some cs'), mgr')" "manager_ok mgr'" "mgr_sig mgr' = mgr_sig mgr"
    "m_max_lock_memory mgr' = m_max_lock_memory mgr" "\<forall>d' u. mgr_held mgr' d' u = (if d' = d then lt_held lt' u else mgr_held mgr d' u)"
    "m\<lparr>ml_tree := lt'\<lparr>lt_mem := None\<rparr>\<rparr> \<in> set (m_locktree_map mgr')"
    by (rule on_tree_ok [where f = ?f, OF assms(1-3) f a(3) acquire_lock_frame(1) [OF a(1)]])
  have "mgr_held mgr d v = lt_held (seen_tree m mgr) v" for v using mgr_held_at [OF assms(1,2)] assms(3) by simp
  then have "\<forall>d' v. mgr_held mgr' d' v = mgr_held mgr d' v \<union> (if B = {} \<and> d' = d \<and> v = u then interval_keys (lt_cmp (ml_tree m)) (keyof l, keyof r) else {})"
    using a(4) g(5) by auto
  moreover have "\<exists>m'\<in>set (m_locktree_map mgr'). ml_dict m' = d \<and> m_sto_txnid (ml_tree m') = TXNID_NONE" if "B \<noteq> {}"
  proof (rule bexI [OF _ g(6)])
    have "m_sto_txnid lt' = TXNID_NONE" using acquire_lock_frame(2) [OF a(1)] that by simp
    moreover have "lt_dict_id lt' = d" using acquire_lock_frame(1) [OF a(1)] assms(3) by (simp add: lt_frame_def)
    ultimately show "ml_dict (m\<lparr>ml_tree := lt'\<lparr>lt_mem := None\<rparr>\<rparr>) = d \<and> m_sto_txnid (ml_tree (m\<lparr>ml_tree := lt'\<lparr>lt_mem := None\<rparr>\<rparr>)) = TXNID_NONE" by simp
  qed
  ultimately show thesis using g(1-4) cs(2,3) by (intro that [of cs' mgr']) simp_all
qed

lemma sig_tree:
  assumes "mgr_sig mgr' = mgr_sig mgr" "m \<in> set (m_locktree_map mgr)"
  obtains m' where "m' \<in> set (m_locktree_map mgr')" "ml_dict m' = ml_dict m" "lt_cmp (ml_tree m') = lt_cmp (ml_tree m)" "ml_info m' = ml_info m"
proof -
  have "(lt_frame (ml_tree m), ml_info m) \<in> set (mgr_sig mgr')" using assms(2) unfolding assms(1) by (auto simp: mgr_sig_def)
  then show thesis using that by (auto simp: mgr_sig_def lt_frame_def)
qed

text \<open>The result of a request: the limit first, with \<open>mgr1\<close> the state after the escalation that it may have caused, then the lock itself.\<close>

lemma try_acquire_ok:
  fixes u :: TXNID
  assumes "manager_ok mgr" "refs_room mgr" "m \<in> set (m_locktree_map mgr)" "ml_dict m = d" "range_ok (lt_cmp (ml_tree m)) l r" "txnid_set_ok cs"
  obtains mgr1 calls e cs' mgr' where "try_acquire_lock junk d True u l r cs big_txn mgr = Some (e, cs', calls, mgr')"
    "manager_ok mgr1" "mgr_sig mgr1 = mgr_sig mgr" "grows mgr mgr1" "if over_limit big_txn mgr then map fst calls = mgr_dicts mgr \<and> reported calls mgr1 \<and> all_escalated mgr mgr1 else calls = [] \<and> mgr1 = mgr"
    "manager_ok mgr'" "mgr_sig mgr' = mgr_sig mgr" "m_max_lock_memory mgr' = m_max_lock_memory mgr"
    "over_limit big_txn mgr1 \<longrightarrow> e = Some TOKUDB_OUT_OF_LOCKS \<and> cs' = cs \<and> mgr' = mgr1"
    "\<not> over_limit big_txn mgr1 \<longrightarrow> (let K = interval_keys (lt_cmp (ml_tree m)) (keyof l, keyof r); B = mgr_blockers mgr1 d u K in
       e = (if B = {} then None else Some DB_LOCK_NOTGRANTED) \<and> txnid_set_ok cs' \<and> set cs' = set cs \<union> B \<and>
       (\<forall>d' v. mgr_held mgr' d' v = mgr_held mgr1 d' v \<union> (if B = {} \<and> d' = d \<and> v = u then K else {})) \<and>
       (B \<noteq> {} \<longrightarrow> (\<exists>m'\<in>set (m_locktree_map mgr'). ml_dict m' = d \<and> m_sto_txnid (ml_tree m') = TXNID_NONE)))"
proof -
  obtain e calls mgr1 where c: "check_current_lock_constraints junk big_txn mgr = Some (e, calls, mgr1)" "manager_ok mgr1" "mgr_sig mgr1 = mgr_sig mgr" "m_max_lock_memory mgr1 = m_max_lock_memory mgr"
    "grows mgr mgr1" "e = (if over_limit big_txn mgr1 then Some TOKUDB_OUT_OF_LOCKS else None)"
    "if over_limit big_txn mgr then map fst calls = mgr_dicts mgr \<and> reported calls mgr1 \<and> all_escalated mgr mgr1 else calls = [] \<and> mgr1 = mgr"
    by (rule check_constraints_ok [OF assms(1,2)])
  obtain m1 where m1: "m1 \<in> set (m_locktree_map mgr1)" "ml_dict m1 = ml_dict m" "lt_cmp (ml_tree m1) = lt_cmp (ml_tree m)" by (rule sig_tree [OF c(3) assms(3)])
  have d1: "ml_dict m1 = d" using m1(2) assms(4) by simp
  have rng1: "range_ok (lt_cmp (ml_tree m1)) l r" using m1(3) assms(5) by simp
  let ?K = "interval_keys (lt_cmp (ml_tree m)) (keyof l, keyof r)"
  let ?B = "mgr_blockers mgr1 d u ?K"
  show thesis
  proof (cases "over_limit big_txn mgr1")
    case True
    then have "try_acquire_lock junk d True u l r cs big_txn mgr = Some (Some TOKUDB_OUT_OF_LOCKS, cs, calls, mgr1)" using c(1,6) by (simp add: try_acquire_lock_def)
    then show thesis using c True by (intro that [of "Some TOKUDB_OUT_OF_LOCKS" cs calls mgr1 mgr1]) simp_all
  next
    case False
    obtain cs' mgr' where a: "on_tree d (\<lambda>lt. map_option (\<lambda>(r, cs, lt). ((r, cs), lt)) (acquire_lock junk True u l r (Some cs) lt)) mgr1 =
        Some ((if ?B = {} then None else Some DB_LOCK_NOTGRANTED, Some cs'), mgr')" "txnid_set_ok cs'" "set cs' = set cs \<union> ?B" "manager_ok mgr'" "mgr_sig mgr' = mgr_sig mgr1"
      "m_max_lock_memory mgr' = m_max_lock_memory mgr1"
      "\<forall>d' v. mgr_held mgr' d' v = mgr_held mgr1 d' v \<union> (if ?B = {} \<and> d' = d \<and> v = u then ?K else {})"
      "?B \<noteq> {} \<longrightarrow> (\<exists>m'\<in>set (m_locktree_map mgr'). ml_dict m' = d \<and> m_sto_txnid (ml_tree m') = TXNID_NONE)"
      by (rule acquire_on_tree [OF c(2) m1(1) d1 rng1 assms(6), where junk = junk and u = u, unfolded m1(3)])
    have t: "try_acquire_lock junk d True u l r cs big_txn mgr = Some (if ?B = {} then None else Some DB_LOCK_NOTGRANTED, cs', calls, mgr')"
      using c(1,6) False a(1) by (simp add: try_acquire_lock_def)
    show thesis using c(2,3,4,5,7) a(2-8) False by (intro that [OF t, of mgr1]) (simp_all add: Let_def)
  qed
qed

subsection \<open>Idle trees\<close>

context key_comparator
begin

lemma range_has_key: "range_ok c l r \<Longrightarrow> keyof l \<in> interval_keys c (keyof l, keyof r)"
  by (simp add: range_ok_def range_proper_def interval_keys_def)

lemma idle_empty:
  assumes "lt_ok base lt" "lt_cmp lt = c" "\<forall>u. lt_held lt u = {}"
  shows "m_is_empty (m_rangetree lt)" "lt_usage lt = 0" "m_sto_txnid lt = TXNID_NONE"
proof -
  show none: "m_sto_txnid lt = TXNID_NONE"
  proof (rule ccontr)
    assume sto: "m_sto_txnid lt \<noteq> TXNID_NONE"
    then have "sto_ok c (m_sto_buffer lt)" using assms(1,2) by (simp add: lt_ok_def)
    then obtain cur os where h: "rb_holds (m_sto_buffer lt) cur os" "cur @ concat os \<noteq> []" "\<forall>p\<in>set (cur @ concat os). range_ok c (fst p) (snd p)"
      unfolding sto_ok_def by blast
    then obtain p where p: "p \<in> set (cur @ concat os)" by (cases "cur @ concat os") auto
    have "keyof (fst p) \<in> interval_keys c (keys_of p)" using range_has_key [of "fst p" "snd p"] h(3) p by (simp add: keys_of_def)
    moreover have "interval_keys c (keys_of p) \<subseteq> buffer_keys c (buffer_ranges (m_sto_buffer lt))"
      using p unfolding buffer_keys_def buffer_ranges_keys [OF h(1)] by auto
    ultimately have "lt_held lt (m_sto_txnid lt) \<noteq> {}" using sto assms(2) by (auto simp: lt_held_def)
    then show False using assms(3) by blast
  qed
  have wf: "ct_wf c (m_rangetree lt)" using assms(1,2) by (simp add: lt_ok_def)
  have "u \<notin> snd ` set (ct_nodes (m_rangetree lt))" for u
    using owners_held [of "ct_nodes (m_rangetree lt)" u] wf assms(2,3) none by (auto simp: ct_wf_def lt_held_none)
  then have nil: "ct_nodes (m_rangetree lt) = []" by fastforce
  then show "m_is_empty (m_rangetree lt)" using ct_nodes_empty [OF wf] by simp
  show "lt_usage lt = 0" using nil none assms(1) by (simp add: lt_usage_def lt_ok_def)
qed

end

subsection \<open>Opening and closing\<close>

lemma manager_ok_unique: "manager_ok mgr \<Longrightarrow> m \<in> set (m_locktree_map mgr) \<Longrightarrow> m' \<in> set (m_locktree_map mgr) \<Longrightarrow> ml_dict m' = ml_dict m \<Longrightarrow> m' = m"
  by (rule mgr_split [of "m_locktree_map mgr" m]) (auto simp: manager_ok_def)

definition dict_refs :: "locktree_manager \<Rightarrow> 64 word \<Rightarrow> 32 word set" where
  "dict_refs mgr d = {lt_reference_count (ml_tree m) |m. m \<in> set (m_locktree_map mgr) \<and> ml_dict m = d}"

lemma get_lt_ok:
  assumes "manager_ok mgr" "comparator_ok c" "- 1 \<notin> dict_refs mgr d"
  shows "\<exists>found mgr'. get_lt cb szk szt d c mgr = Some (found, mgr') \<and> manager_ok mgr' \<and> (\<forall>d u. mgr_held mgr' d u = mgr_held mgr d u) \<and>
    (found \<longleftrightarrow> d \<in> set (mgr_dicts mgr'))"
proof (cases "locktree_map_find d mgr")
  case None
  let ?m = "\<lparr>ml_tree = locktree_create None szk szt d c, ml_info = info_init\<rparr>"
  have so: "sorted_by ml_dict (m_locktree_map mgr)" using assms(1) by (simp add: manager_ok_def)
  have new: "d \<notin> set (mgr_dicts mgr)" using None map_find_missing [OF so] by simp
  have dm: "ml_dict ?m = d" by (simp add: locktree_create_def)
  obtain i ms where ins: "omt_insert (find_by_dict_id d) (m_locktree_map mgr) ?m = Inr (ms, i)" "sorted_by ml_dict ms" "set ms = insert ?m (set (m_locktree_map mgr))"
    by (rule omt_insert_sorted [OF so, of ?m, unfolded dm, folded find_dict_key]) (use new in \<open>simp_all add: mgr_dicts_def\<close>)
  have use0: "lt_usage (ml_tree ?m) = 0" using lt_create_ok [OF assms(2), of None 0] by (simp add: lt_usage_def locktree_create_def ct_nodes_def concurrent_tree_create_def)
  have sum: "(\<Sum>m\<leftarrow>ms. lt_usage (ml_tree m)) = (\<Sum>m\<leftarrow>m_locktree_map mgr. lt_usage (ml_tree m))"
  proof -
    obtain j where "ms = take j (m_locktree_map mgr) @ ?m # drop j (m_locktree_map mgr)"
      using ins(1) by (auto simp: omt_insert_def omt_insert_at_def split: sum.splits prod.splits if_splits)
    then have "(\<Sum>m\<leftarrow>ms. lt_usage (ml_tree m)) = lt_usage (ml_tree ?m) + (\<Sum>m\<leftarrow>take j (m_locktree_map mgr) @ drop j (m_locktree_map mgr). lt_usage (ml_tree m))"
      by (simp only: map_append sum_list_append list.map sum_list.Cons)
    then show ?thesis using use0 by simp
  qed
  have ok: "lt_ok 0 (ml_tree ?m)" "lt_mem (ml_tree ?m) = None" "lt_reference_count (ml_tree ?m) = 1"
    using lt_create_ok [OF assms(2), of None 0] by (simp_all add: locktree_create_def)
  let ?mgr = "mgr\<lparr>m_locktree_map := ms\<rparr>"
  have put: "locktree_map_put ?m mgr = Some ?mgr" using ins(1) by (simp add: locktree_map_put_def dm [simplified])
  have "manager_ok ?mgr" using assms(1) ins(2,3) ok sum by (simp add: manager_ok_def)
  moreover have "mgr_held ?mgr d' u = mgr_held mgr d' u" for d' u
    using ins(3) lt_create_held [of None szk szt d c u] by (auto simp: mgr_held_def)
  moreover have "d \<in> set (mgr_dicts ?mgr)" using ins(3) dm by (simp add: mgr_dicts_def)
  moreover have "locktree_destroy (count_reference (- 1) ?m) = Some ()"
    by (simp add: locktree_destroy_def count_reference_def locktree_create_def info_init_def concurrent_tree_destroy_def concurrent_tree_create_def)
  ultimately show ?thesis using None put assms(1) new unfolding get_lt_def by (auto simp: Let_def)
next
  case (Some i)
  have so: "sorted_by ml_dict (m_locktree_map mgr)" using assms(1) by (simp add: manager_ok_def)
  have d: "d \<in> set (mgr_dicts mgr)" using Some map_find_missing [OF so, of d] by auto
  have "get_lt cb szk szt d c mgr = Some (True, add_refs {d} 1 mgr)" using Some reference_lt_ok [OF so d] by (simp add: get_lt_def)
  moreover have "lt_reference_count (ml_tree m) + 1 \<noteq> 0" if "m \<in> set (m_locktree_map mgr)" "ml_dict m = d" for m
    using assms(3) that by (auto simp: dict_refs_def add_eq_0_iff2)
  then have "manager_ok (add_refs {d} 1 mgr)" by (intro add_refs_ok [OF assms(1)]) simp
  ultimately show ?thesis using d by (intro exI [of _ True]) (simp add: add_refs_facts)
qed

lemma release_lt_any:
  assumes "manager_ok mgr" "m \<in> set (m_locktree_map mgr)" "ml_dict m = d"
    and "lt_reference_count (ml_tree m) = 1 \<Longrightarrow> (\<forall>u. mgr_held mgr d u = {}) \<and> pending_lock_requests (ml_info m) = []"
  shows "\<exists>mgr'. release_lt d mgr = Some mgr' \<and> manager_ok mgr' \<and> (\<forall>d u. mgr_held mgr' d u = mgr_held mgr d u) \<and>
    set (mgr_dicts mgr') = set (mgr_dicts mgr) - (if lt_reference_count (ml_tree m) = 1 then {d} else {})"
proof -
  have so: "sorted_by ml_dict (m_locktree_map mgr)" using assms(1) by (simp add: manager_ok_def)
  have d: "d \<in> set (mgr_dicts mgr)" using assms(2,3) by (auto simp: mgr_dicts_def)
  have all: "\<forall>m'\<in>set (m_locktree_map mgr). ml_dict m' = d \<longrightarrow> m' = m"
    by (intro ballI impI, rule manager_ok_unique [OF assms(1,2)]) (simp_all add: assms(3))
  show ?thesis
  proof (cases "lt_reference_count (ml_tree m) = 1")
    case False
    then have "lt_reference_count (ml_tree m) - 1 \<noteq> 0" by simp
    then have refs: "\<forall>m'\<in>set (m_locktree_map mgr). ml_dict m' = d \<longrightarrow> lt_reference_count (ml_tree m') - 1 \<noteq> 0" using all by blast
    have "release_lt d mgr = Some (add_refs {d} (- 1) mgr)" by (rule release_lt_ok [OF so d refs])
    moreover have "manager_ok (add_refs {d} (- 1) mgr)" using refs by (intro add_refs_ok [OF assms(1)]) simp
    ultimately show ?thesis using False by (simp add: add_refs_facts)
  next
    case True
    obtain i m0 where i: "locktree_map_find d mgr = Some i" "update_at i (count_reference (- 1)) mgr = add_refs {d} (- 1) mgr"
      "m_locktree_map (add_refs {d} (- 1) mgr) ! i = count_reference (- 1) m0" "m0 \<in> set (m_locktree_map mgr)" "ml_dict m0 = d"
      by (rule update_refs [OF so d])
    have m0: "m0 = m" using all i(4,5) by blast
    obtain us ws where s: "m_locktree_map mgr = us @ m # ws" "\<forall>x\<in>set us. ml_dict x \<noteq> ml_dict m" "\<forall>x\<in>set ws. ml_dict x \<noteq> ml_dict m"
      by (rule mgr_split [OF so assms(2)])
    let ?a = "add_refs {d} (- 1) mgr" and ?m = "count_reference (- 1) m"
    have map: "m_locktree_map ?a = us @ ?m # ws" using s assms(3) by (simp add: add_refs_def map_idI)
    have soa: "sorted_by ml_dict (m_locktree_map ?a)" by (rule add_refs_sorted [OF so])
    obtain us' ws' where s': "m_locktree_map ?a = us' @ ?m # ws'" "\<forall>x\<in>set us'. ml_dict x \<noteq> ml_dict ?m" "\<forall>x\<in>set ws'. ml_dict x \<noteq> ml_dict ?m"
      "omt_find_zero (find_by_dict_id (ml_dict ?m)) (m_locktree_map ?a) = Inr (?m, length us')"
      by (rule mgr_split [OF soa, of ?m]) (simp add: map)
    have find: "locktree_map_find d ?a = Some (length us')" using s'(4) assms(3) by (simp add: locktree_map_find_def)
    have rem: "locktree_map_remove d ?a = Some (?a\<lparr>m_locktree_map := us' @ ws'\<rparr>)" using find by (simp add: locktree_map_remove_def omt_delete_at_def s'(1))
    have "us' @ ws' = us @ ws"
    proof -
      have "filter (\<lambda>x. ml_dict x \<noteq> d) (us' @ ?m # ws') = filter (\<lambda>x. ml_dict x \<noteq> d) (us @ ?m # ws)" using map s'(1) by simp
      then show ?thesis using s(2,3) s'(2,3) assms(3) by (simp add: filter_True)
    qed
    have idle: "\<forall>u. lt_held (ml_tree m) u = {}" "pending_lock_requests (ml_info m) = []"
      using assms(4) [OF True] mgr_held_at [OF assms(1,2)] assms(3) by simp_all
    have mok: "lt_ok 0 (ml_tree m)" using assms(1,2) by (simp add: manager_ok_def)
    note empty = key_comparator.idle_empty [OF lt_key_comparator [OF mok] mok refl idle(1)]
    have des: "locktree_destroy ?m = Some ()" using True idle(2) empty(1)
      by (simp add: locktree_destroy_def concurrent_tree_destroy_def concurrent_tree_is_empty_def) (simp add: count_reference_def)
    let ?c = "counters_add (m_lt_counters ?a) (counters (ml_info ?m))"
    let ?mgr = "?a\<lparr>m_locktree_map := us @ ws, m_lt_counters := ?c\<rparr>"
    have "release_lt d mgr = Some ?mgr" using i(1-3) find rem des True s'(1) \<open>us' @ ws' = us @ ws\<close> m0 by (simp add: release_lt_def Let_def)
    moreover have "manager_ok ?mgr" using assms(1) empty(2) unfolding manager_ok_def s(1) by (simp add: add_refs_def)
    moreover have "mgr_held ?mgr d' u = mgr_held mgr d' u" for d' u using idle(1) unfolding mgr_held_def s(1) by auto
    moreover have "set (mgr_dicts ?mgr) = set (mgr_dicts mgr) - {d}" using s(2,3) assms(3) unfolding mgr_dicts_def s(1) by auto
    ultimately show ?thesis using True by simp
  qed
qed

lemma manager_release_ok:
  assumes "manager_ok mgr" "m \<in> set (m_locktree_map mgr)" "ml_dict m = d" "mgr_held mgr d u \<noteq> {}" "buffer_good (lt_cmp (ml_tree m)) b"
  shows "\<exists>mgr'. manager_release_locks junk d u b mgr = Some mgr' \<and> manager_ok mgr' \<and> mgr_sig mgr' = mgr_sig mgr \<and>
    (\<forall>d' w. (d', w) \<noteq> (d, u) \<longrightarrow> mgr_held mgr' d' w = mgr_held mgr d' w) \<and>
    mgr_held mgr' d u \<subseteq> mgr_held mgr d u - buffer_keys (lt_cmp (ml_tree m)) (buffer_ranges b)"
proof -
  note ok = seen_tree_ok [OF assms(1,2)]
  have held: "mgr_held mgr d w = lt_held (seen_tree m mgr) w" for w using mgr_held_at [OF assms(1,2)] assms(3) by simp
  have pre: "lt_held (seen_tree m mgr) u \<noteq> {}" "buffer_good (lt_cmp (seen_tree m mgr)) b" using assms(4,5) held by simp_all
  obtain lt' where r: "release_locks junk u b (seen_tree m mgr) = Some lt'" "lt_ok (others_usage m mgr) lt'"
    "\<forall>w. w \<noteq> u \<longrightarrow> lt_held lt' w = lt_held (seen_tree m mgr) w" "lt_held lt' u \<subseteq> lt_held (seen_tree m mgr) u"
    "lt_held lt' u \<inter> buffer_keys (lt_cmp (seen_tree m mgr)) (buffer_ranges b) = {}"
    using release_held [OF ok pre, of junk] by (elim exE conjE) (rule that)
  let ?f = "\<lambda>lt. map_option (Pair ()) (release_locks junk u b lt)"
  have f: "?f (seen_tree m mgr) = Some ((), lt')" using r(1) by simp
  obtain mgr' where g: "on_tree d ?f mgr = Some ((), mgr')" "manager_ok mgr'" "mgr_sig mgr' = mgr_sig mgr"
    "\<forall>d' w. mgr_held mgr' d' w = (if d' = d then lt_held lt' w else mgr_held mgr d' w)"
    by (rule on_tree_ok [where f = ?f, OF assms(1-3) f r(2) release_locks_frame [OF r(1)]])
  have "manager_release_locks junk d u b mgr = Some mgr'" using g(1) by (simp add: manager_release_locks_def)
  moreover have "\<forall>d' w. (d', w) \<noteq> (d, u) \<longrightarrow> mgr_held mgr' d' w = mgr_held mgr d' w" using g(4) r(3) held by simp
  moreover have "mgr_held mgr' d u \<subseteq> mgr_held mgr d u - buffer_keys (lt_cmp (ml_tree m)) (buffer_ranges b)" using g(4) r(4,5) held [of u] by auto
  ultimately show ?thesis using g(2,3) by blast
qed

lemma set_max_ok: "manager_ok mgr \<Longrightarrow> manager_ok (snd (set_max_lock_memory n mgr))" "mgr_held (snd (set_max_lock_memory n mgr)) d u = mgr_held mgr d u"
  by (auto simp: set_max_lock_memory_def manager_ok_def mgr_held_def)

lemma manager_create_ok: "manager_ok manager_create" "mgr_held manager_create d u = {}"
  by (simp_all add: manager_create_def manager_ok_def mgr_held_def)

lemma mgr_exclusive: "manager_ok mgr \<Longrightarrow> u \<noteq> w \<Longrightarrow> mgr_held mgr d u \<inter> mgr_held mgr d w = {}"
proof -
  assume a: "manager_ok mgr" "u \<noteq> w"
  show ?thesis
  proof (cases "\<exists>m\<in>set (m_locktree_map mgr). ml_dict m = d")
    case True
    then obtain m where m: "m \<in> set (m_locktree_map mgr)" "ml_dict m = d" by blast
    have ok: "lt_ok 0 (ml_tree m)" using a(1) m(1) by (simp add: manager_ok_def)
    show ?thesis using key_comparator.held_exclusive [OF lt_key_comparator [OF ok] ok refl a(2)] mgr_held_at [OF a(1) m(1)] m(2) by simp
  qed (auto simp: mgr_held_def)
qed

lemma idle_manager:
  assumes "manager_ok mgr" "mgr_dicts mgr = []"
  shows "manager_destroy mgr = Some ()"
  using assms by (simp add: manager_destroy_def manager_ok_def mgr_dicts_def)

subsection \<open>Histories of the manager\<close>

datatype mgr_op =
    GetLt "64 word" comparator
  | ReleaseLt "64 word"
  | SetMax nat
  | TryAcquire "64 word" TXNID DBT DBT bool
  | ReleaseLocks "64 word" TXNID range_buffer

fun mgr_apply :: "rb_record \<Rightarrow> nat \<Rightarrow> nat \<Rightarrow> mgr_op \<Rightarrow> locktree_manager \<Rightarrow> locktree_manager option" where
  "mgr_apply junk szk szt (GetLt d c) mgr = map_option snd (get_lt None szk szt d c mgr)"
| "mgr_apply junk szk szt (ReleaseLt d) mgr = release_lt d mgr"
| "mgr_apply junk szk szt (SetMax n) mgr = Some (snd (set_max_lock_memory n mgr))"
| "mgr_apply junk szk szt (TryAcquire d u l r big_txn) mgr = map_option (\<lambda>(e, cs, calls, mgr). mgr) (try_acquire_lock junk d True u l r txnid_set_create big_txn mgr)"
| "mgr_apply junk szk szt (ReleaseLocks d u b) mgr = manager_release_locks junk d u b mgr"

text \<open>
  When a call is permitted: a tree is used only while it is referenced, the last reference goes only when nobody holds or waits for a lock, and reference counts do not overflow.
\<close>

fun mgr_pre :: "mgr_op \<Rightarrow> locktree_manager \<Rightarrow> bool" where
  "mgr_pre (GetLt d c) mgr = (comparator_ok c \<and> - 1 \<notin> dict_refs mgr d)"
| "mgr_pre (ReleaseLt d) mgr = (\<exists>m\<in>set (m_locktree_map mgr). ml_dict m = d \<and>
     (lt_reference_count (ml_tree m) = 1 \<longrightarrow> (\<forall>u. mgr_held mgr d u = {}) \<and> pending_lock_requests (ml_info m) = []))"
| "mgr_pre (SetMax n) mgr = True"
| "mgr_pre (TryAcquire d u l r big_txn) mgr = (refs_room mgr \<and> (\<exists>m\<in>set (m_locktree_map mgr). ml_dict m = d \<and> range_ok (lt_cmp (ml_tree m)) l r))"
| "mgr_pre (ReleaseLocks d u b) mgr = (mgr_held mgr d u \<noteq> {} \<and> (\<exists>m\<in>set (m_locktree_map mgr). ml_dict m = d \<and> buffer_good (lt_cmp (ml_tree m)) b))"

fun gives_up :: "TXNID \<Rightarrow> mgr_op \<Rightarrow> bool" where
  "gives_up u (ReleaseLocks d w b) = (u = w)"
| "gives_up u _ = False"

lemma manager_step:
  assumes "manager_ok mgr" "mgr_pre op mgr"
  shows "\<exists>mgr'. mgr_apply junk szk szt op mgr = Some mgr' \<and> manager_ok mgr' \<and> (\<forall>d u. \<not> gives_up u op \<longrightarrow> mgr_held mgr d u \<subseteq> mgr_held mgr' d u)"
proof (cases op)
  case (GetLt d c)
  then show ?thesis using get_lt_ok [OF assms(1), of c d None szk szt] assms(2) by fastforce
next
  case (ReleaseLt d)
  then obtain m where m: "m \<in> set (m_locktree_map mgr)" "ml_dict m = d"
    "lt_reference_count (ml_tree m) = 1 \<longrightarrow> (\<forall>u. mgr_held mgr d u = {}) \<and> pending_lock_requests (ml_info m) = []" using assms(2) by auto
  then show ?thesis using release_lt_any [OF assms(1) m(1,2)] ReleaseLt by fastforce
next
  case (SetMax n)
  then show ?thesis using set_max_ok assms(1) by simp
next
  case (TryAcquire d u l r big_txn)
  then obtain m where m: "refs_room mgr" "m \<in> set (m_locktree_map mgr)" "ml_dict m = d" "range_ok (lt_cmp (ml_tree m)) l r" using assms(2) by auto
  have cs: "txnid_set_ok txnid_set_create" by (simp add: txnid_set_create_def)
  obtain mgr1 calls e cs' mgr' where t: "try_acquire_lock junk d True u l r txnid_set_create big_txn mgr = Some (e, cs', calls, mgr')" "grows mgr mgr1" "manager_ok mgr'"
    "over_limit big_txn mgr1 \<longrightarrow> e = Some TOKUDB_OUT_OF_LOCKS \<and> cs' = txnid_set_create \<and> mgr' = mgr1"
    "\<not> over_limit big_txn mgr1 \<longrightarrow> (let K = interval_keys (lt_cmp (ml_tree m)) (keyof l, keyof r); B = mgr_blockers mgr1 d u K in
       e = (if B = {} then None else Some DB_LOCK_NOTGRANTED) \<and> txnid_set_ok cs' \<and> set cs' = set txnid_set_create \<union> B \<and>
       (\<forall>d' v. mgr_held mgr' d' v = mgr_held mgr1 d' v \<union> (if B = {} \<and> d' = d \<and> v = u then K else {})) \<and>
       (B \<noteq> {} \<longrightarrow> (\<exists>m'\<in>set (m_locktree_map mgr'). ml_dict m' = d \<and> m_sto_txnid (ml_tree m') = TXNID_NONE)))"
    by (rule try_acquire_ok [OF assms(1) m cs, where u = u and junk = junk and big_txn = big_txn])
  have "mgr_held mgr1 d' v \<subseteq> mgr_held mgr' d' v" for d' v using t(4,5) by (cases "over_limit big_txn mgr1") (auto simp: Let_def)
  moreover have "mgr_held mgr d' v \<subseteq> mgr_held mgr1 d' v" for d' v using t(2) by (simp add: grows_def)
  ultimately have "mgr_held mgr d' v \<subseteq> mgr_held mgr' d' v" for d' v by (rule order_trans [rotated])
  then show ?thesis using t(1,3) TryAcquire by simp
next
  case (ReleaseLocks d u b)
  then obtain m where m: "m \<in> set (m_locktree_map mgr)" "ml_dict m = d" "mgr_held mgr d u \<noteq> {}" "buffer_good (lt_cmp (ml_tree m)) b" using assms(2) by auto
  then show ?thesis using manager_release_ok [OF assms(1) m, of junk] ReleaseLocks by fastforce
qed

text \<open>The contract of a machine whose permitted calls return and keep an invariant.\<close>

locale checked_machine =
  fixes ok :: "'s \<Rightarrow> bool" and pre :: "'o \<Rightarrow> 's \<Rightarrow> bool" and app :: "'o \<Rightarrow> 's \<Rightarrow> 's option" and le :: "'o \<Rightarrow> 's \<Rightarrow> 's \<Rightarrow> bool"
  assumes step: "ok s \<Longrightarrow> pre op s \<Longrightarrow> \<exists>s'. app op s = Some s' \<and> ok s' \<and> le op s s'"
begin

fun chain :: "'o list \<Rightarrow> 's \<Rightarrow> 's \<Rightarrow> bool" where
  "chain [] s s' = (s = s')"
| "chain (op # ops) s s' = (\<exists>t. le op s t \<and> chain ops t s')"

lemma runs: "ok s \<Longrightarrow> legal_ops pre app ops s \<Longrightarrow> \<exists>s'. run_lock_ops app ops s = Some s' \<and> ok s' \<and> chain ops s s'"
proof (induction ops arbitrary: s)
  case (Cons op ops)
  then obtain t where t: "app op s = Some t" "ok t" "le op s t" using step [of s op] by auto
  then obtain s' where "run_lock_ops app ops t = Some s'" "ok s'" "chain ops t s'" using Cons.IH [of t] Cons.prems(2) by auto
  then show ?case using t by auto
qed simp

end

interpretation mgr: checked_machine manager_ok mgr_pre "mgr_apply junk szk szt" "\<lambda>op s s'. \<forall>d u. \<not> gives_up u op \<longrightarrow> mgr_held s d u \<subseteq> mgr_held s' d u"
  for junk szk szt
  by unfold_locales (rule manager_step)

lemma mgr_chain:
  "mgr.chain ops mgr mgr' \<Longrightarrow> \<forall>op\<in>set ops. \<not> gives_up u op \<Longrightarrow> mgr_held mgr d u \<subseteq> mgr_held mgr' d u"
  by (induction ops arbitrary: mgr) (auto, blast)

subsection \<open>Properties\<close>

text \<open>
  C34. Every history of permitted calls of the lock tree manager - opening and closing lock trees, changing the limit, requests for locks with the escalations that they cause, releases - returns;
  afterwards the memory counter is exactly what the locks of all trees take, every tree satisfies its invariant, no key has two owners, no transaction has lost a key without releasing its
  locks, and a manager whose trees are all closed can be destroyed: its assertion that no memory is in use holds.
\<close>

theorem manager_history:
  assumes "manager_ok mgr" "legal_ops mgr_pre (mgr_apply junk szk szt) ops mgr"
  shows "\<exists>mgr'. run_lock_ops (mgr_apply junk szk szt) ops mgr = Some mgr' \<and> manager_ok mgr' \<and>
    m_current_lock_memory mgr' = (\<Sum>m\<leftarrow>m_locktree_map mgr'. lt_usage (ml_tree m)) \<and>
    (\<forall>d u w. u \<noteq> w \<longrightarrow> mgr_held mgr' d u \<inter> mgr_held mgr' d w = {}) \<and>
    (\<forall>d u. (\<forall>op\<in>set ops. \<not> gives_up u op) \<longrightarrow> mgr_held mgr d u \<subseteq> mgr_held mgr' d u) \<and>
    (mgr_dicts mgr' = [] \<longrightarrow> manager_destroy mgr' = Some ())"
proof -
  obtain mgr' where r: "run_lock_ops (mgr_apply junk szk szt) ops mgr = Some mgr'" "manager_ok mgr'" "mgr.chain ops mgr mgr'" using mgr.runs [OF assms] by blast
  have "\<forall>d u w. u \<noteq> w \<longrightarrow> mgr_held mgr' d u \<inter> mgr_held mgr' d w = {}" using mgr_exclusive [OF r(2)] by blast
  moreover have "\<forall>d u. (\<forall>op\<in>set ops. \<not> gives_up u op) \<longrightarrow> mgr_held mgr d u \<subseteq> mgr_held mgr' d u" using mgr_chain [OF r(3)] by blast
  ultimately show ?thesis using r(1,2) idle_manager [OF r(2)] by (intro exI [of _ mgr']) (simp add: manager_ok_def)
qed

text \<open>
  C35. A request for a lock under the limit of the memory for locks. If the limit (for a large transaction: half of it) is reached, every tree is escalated first: its single transaction
  optimisation is off, its rows are those of before with the neighbours of one owner merged, in batches (\<open>all_escalated\<close>); nobody loses a key, and the callbacks, one per tree, report what everybody holds then. Otherwise nothing
  is escalated. The request fails with \<open>TOKUDB_OUT_OF_LOCKS\<close>, and changes nothing more, exactly if the limit is still reached then; otherwise it is granted exactly if nobody else holds a
  key of the range, and the conflict set gets exactly those who do.
\<close>

theorem try_acquire_lock_limits:
  fixes txnid :: TXNID
  assumes "manager_ok mgr" "refs_room mgr" "m \<in> set (m_locktree_map mgr)" "range_ok (lt_cmp (ml_tree m)) l r" "txnid_set_ok cs"
  defines "keys \<equiv> interval_keys (lt_cmp (ml_tree m)) (keyof l, keyof r)"
  shows "\<exists>e cs' calls mgr1 mgr'. try_acquire_lock junk (ml_dict m) True txnid l r cs big_txn mgr = Some (e, cs', calls, mgr') \<and> manager_ok mgr' \<and>
    grows mgr mgr1 \<and>
    (if over_limit big_txn mgr then map fst calls = mgr_dicts mgr \<and> reported calls mgr1 \<and> all_escalated mgr mgr1 else calls = [] \<and> mgr1 = mgr) \<and>
    (e = Some TOKUDB_OUT_OF_LOCKS \<longleftrightarrow> over_limit big_txn mgr1) \<and> (over_limit big_txn mgr1 \<longrightarrow> mgr' = mgr1 \<and> cs' = cs) \<and>
    (\<not> over_limit big_txn mgr1 \<longrightarrow> (let others = mgr_blockers mgr1 (ml_dict m) txnid keys in
       e = (if others = {} then None else Some DB_LOCK_NOTGRANTED) \<and> txnid_set_ok cs' \<and> set cs' = set cs \<union> others \<and>
       (\<forall>d v. mgr_held mgr' d v = mgr_held mgr1 d v \<union> (if others = {} \<and> d = ml_dict m \<and> v = txnid then keys else {}))))"
proof -
  obtain mgr1 calls e cs' mgr' where t: "try_acquire_lock junk (ml_dict m) True txnid l r cs big_txn mgr = Some (e, cs', calls, mgr')" "grows mgr mgr1"
    "if over_limit big_txn mgr then map fst calls = mgr_dicts mgr \<and> reported calls mgr1 \<and> all_escalated mgr mgr1 else calls = [] \<and> mgr1 = mgr" "manager_ok mgr'"
    "over_limit big_txn mgr1 \<longrightarrow> e = Some TOKUDB_OUT_OF_LOCKS \<and> cs' = cs \<and> mgr' = mgr1"
    "\<not> over_limit big_txn mgr1 \<longrightarrow> (let K = interval_keys (lt_cmp (ml_tree m)) (keyof l, keyof r); B = mgr_blockers mgr1 (ml_dict m) txnid K in
       e = (if B = {} then None else Some DB_LOCK_NOTGRANTED) \<and> txnid_set_ok cs' \<and> set cs' = set cs \<union> B \<and>
       (\<forall>d' v. mgr_held mgr' d' v = mgr_held mgr1 d' v \<union> (if B = {} \<and> d' = ml_dict m \<and> v = txnid then K else {})) \<and>
       (B \<noteq> {} \<longrightarrow> (\<exists>m'\<in>set (m_locktree_map mgr'). ml_dict m' = ml_dict m \<and> m_sto_txnid (ml_tree m') = TXNID_NONE)))"
    by (rule try_acquire_ok [OF assms(1-3) refl assms(4,5), where u = txnid and junk = junk and big_txn = big_txn])
  have "e = Some TOKUDB_OUT_OF_LOCKS \<longleftrightarrow> over_limit big_txn mgr1" using t(5,6) by (cases "over_limit big_txn mgr1") (auto simp: Let_def split: if_splits)
  then show ?thesis using t unfolding keys_def
    by (intro exI [of _ e] exI [of _ cs'] exI [of _ calls] exI [of _ mgr1] exI [of _ mgr'] conjI) (simp_all add: Let_def split: if_splits)
qed

text \<open>A manager with one open lock tree, for the witnesses.\<close>

definition demo_manager_with :: "lt_lock_request_info \<Rightarrow> locktree_manager" where
  "demo_manager_with info = manager_create\<lparr>m_locktree_map := [\<lparr>ml_tree = locktree_create None 64 128 7 builtin_comparator, ml_info = info\<rparr>]\<rparr>"

abbreviation demo_manager :: locktree_manager where
  "demo_manager \<equiv> demo_manager_with info_init"

lemma demo_manager_get: "mgr_apply junk 64 128 (GetLt 7 builtin_comparator) manager_create = Some demo_manager"
  by (simp add: get_lt_def locktree_map_find_def manager_create_def omt_find_zero_def below_count_def Let_def locktree_map_put_def omt_insert_def omt_insert_at_def demo_manager_with_def)

lemma demo_manager_ok: "manager_ok (demo_manager_with info)" "refs_room (demo_manager_with info)" "mgr_held (demo_manager_with info) d u = {}" "\<not> over_limit True (demo_manager_with info)"
proof -
  have ok: "lt_ok 0 (locktree_create None 64 128 7 builtin_comparator)" by (rule lt_create_ok) (simp_all add: builtin_comparator_ok)
  have "lt_usage (locktree_create None 64 128 7 builtin_comparator) = 0" by (simp add: lt_usage_def locktree_create_def ct_nodes_def concurrent_tree_create_def)
  then show "manager_ok (demo_manager_with info)" using ok by (simp add: demo_manager_with_def manager_ok_def manager_create_def locktree_create_def)
  show "refs_room (demo_manager_with info)" by (simp add: demo_manager_with_def refs_room_def manager_create_def locktree_create_def)
  show "mgr_held (demo_manager_with info) d u = {}" using lt_create_held [of None 64 128 7 builtin_comparator u] by (auto simp: demo_manager_with_def mgr_held_def manager_create_def)
  show "\<not> over_limit True (demo_manager_with info)"
    by (simp add: over_limit_def out_of_locks_def over_big_threshold_def demo_manager_with_def manager_create_def DEFAULT_MAX_LOCK_MEMORY_def)
qed

lemma demo_manager_tree:
  obtains m where "m \<in> set (m_locktree_map (demo_manager_with info))" "ml_dict m = 7" "lt_cmp (ml_tree m) = builtin_comparator" "ml_info m = info"
  by (rule that [of "\<lparr>ml_tree = locktree_create None 64 128 7 builtin_comparator, ml_info = info\<rparr>"]) (simp_all add: demo_manager_with_def locktree_create_def)

theorem manager_history_witness:
  "\<exists>mgr. run_lock_ops (mgr_apply blank_record 64 128) [GetLt 7 builtin_comparator, TryAcquire 7 9 (Dbt 1 [3]) (Dbt 2 [5]) True] manager_create = Some mgr \<and> manager_ok mgr"
proof -
  obtain m where m: "m \<in> set (m_locktree_map demo_manager)" "ml_dict m = 7" "lt_cmp (ml_tree m) = builtin_comparator" by (rule demo_manager_tree [of info_init])
  have "range_ok (lt_cmp (ml_tree m)) (Dbt 1 [3]) (Dbt 2 [5])" unfolding m(3) by (rule demo_range_ok(1))
  then have "mgr_pre (TryAcquire 7 9 (Dbt 1 [3]) (Dbt 2 [5]) True) demo_manager" using m(1,2) demo_manager_ok(2) by auto
  then have "legal_ops mgr_pre (mgr_apply blank_record 64 128) [GetLt 7 builtin_comparator, TryAcquire 7 9 (Dbt 1 [3]) (Dbt 2 [5]) True] manager_create"
    using demo_manager_get builtin_comparator_ok by (simp add: dict_refs_def manager_create_def del: mgr_apply.simps mgr_pre.simps(4) split: option.splits)
  from manager_history [OF manager_create_ok(1) this] show ?thesis by blast
qed

theorem try_acquire_lock_limits_witness:
  "\<exists>cs calls mgr. try_acquire_lock blank_record 7 True 9 (Dbt 1 [3]) (Dbt 2 [5]) [] True demo_manager = Some (None, cs, calls, mgr) \<and> manager_ok mgr \<and> Point [4] \<in> mgr_held mgr 7 9"
proof -
  obtain m where m: "m \<in> set (m_locktree_map demo_manager)" "ml_dict m = 7" "lt_cmp (ml_tree m) = builtin_comparator" by (rule demo_manager_tree [of info_init])
  have rng: "range_ok (lt_cmp (ml_tree m)) (Dbt 1 [3]) (Dbt 2 [5])" unfolding m(3) by (rule demo_range_ok(1))
  note lim = demo_manager_ok(4)
  have none: "mgr_blockers demo_manager 7 9 K = {}" for K by (simp add: mgr_blockers_def demo_manager_ok(3))
  from try_acquire_lock_limits [OF demo_manager_ok(1,2) m(1) rng, of "[]" blank_record 9 True]
  show ?thesis using lim none m(2,3) demo_inside by auto
qed

end
