(* ===== verification/Wfg.thy ===== *)
theory Wfg
  imports Txnid_Set
begin

text \<open>
  The wait-for graph, \<open>src/locktree/wfg.cc\<close>: nodes are transactions with the set of the transactions that they wait for, kept in an order maintenance tree
  that is represented by the list of its values. The search for a cycle is shown to end and to find a cycle exactly if there is one.
\<close>

subsection \<open>The graph\<close>

record wfg_node =
  wn_txnid :: TXNID
  wn_edges :: "TXNID list"
  wn_visited :: bool

type_synonym wfg = "wfg_node list"

definition wfg_create :: wfg where
  "wfg_create = []"

definition wfg_find_by_txnid :: "TXNID \<Rightarrow> wfg_node \<Rightarrow> int" where
  "wfg_find_by_txnid txnid_b node_a = (if wn_txnid node_a < txnid_b then - 1 else if wn_txnid node_a = txnid_b then 0 else 1)"

definition node_alloc :: "TXNID \<Rightarrow> wfg_node" where
  "node_alloc txnid = \<lparr>wn_txnid = txnid, wn_edges = txnid_set_create, wn_visited = False\<rparr>"

text \<open>A pointer to a node is its index, which is valid until the next insertion.\<close>

definition find_node :: "TXNID \<Rightarrow> wfg \<Rightarrow> nat option" where
  "find_node txnid g = (case omt_find_zero (wfg_find_by_txnid txnid) g of Inr (_, idx) \<Rightarrow> Some idx | Inl _ \<Rightarrow> None)"

definition find_create_node :: "TXNID \<Rightarrow> wfg \<Rightarrow> wfg option" where
  "find_create_node txnid g =
     (case omt_find_zero (wfg_find_by_txnid txnid) g of
        Inr _ \<Rightarrow> Some g
      | Inl idx \<Rightarrow> (case omt_insert_at g (node_alloc txnid) idx of Inr g' \<Rightarrow> Some g' | Inl _ \<Rightarrow> None))"

definition node_exists :: "TXNID \<Rightarrow> wfg \<Rightarrow> bool" where
  "node_exists txnid g = (find_node txnid g \<noteq> None)"

definition add_edge :: "TXNID \<Rightarrow> TXNID \<Rightarrow> wfg \<Rightarrow> wfg option" where
  "add_edge a_txnid b_txnid g = do {
     g \<leftarrow> find_create_node a_txnid g;
     g \<leftarrow> find_create_node b_txnid g;
     a \<leftarrow> find_node a_txnid g;
     edges \<leftarrow> txnid_set_add (wn_edges (g ! a)) b_txnid;
     Some (g[a := (g ! a)\<lparr>wn_edges := edges\<rparr>])
   }"

subsection \<open>The search for a cycle\<close>

definition set_visited :: "nat \<Rightarrow> bool \<Rightarrow> wfg \<Rightarrow> wfg" where
  "set_visited i b g = g[i := (g ! i)\<lparr>wn_visited := b\<rparr>]"

text \<open>The loop of \<open>cycle_exists_from_node\<close> over the remaining edges of a node, with the recursive call for an edge to a node that is not on the path.\<close>

function cycle_from_edges :: "TXNID \<Rightarrow> TXNID list \<Rightarrow> wfg \<Rightarrow> bool \<times> wfg" where
  "cycle_from_edges target [] g = (False, g)"
| "cycle_from_edges target (edge_id # edges) g =
     (if target = edge_id then (True, g)
      else case find_node edge_id g of
        None \<Rightarrow> cycle_from_edges target edges g
      | Some i \<Rightarrow>
          if wn_visited (g ! i) then cycle_from_edges target edges g
          else case cycle_from_edges target (wn_edges (g ! i)) (set_visited i True g) of
            (cycle_found, g1) \<Rightarrow>
              if cycle_found then (True, set_visited i False g1) else cycle_from_edges target edges (set_visited i False g1))"
  by pat_completeness auto

lemma find_node_Some: "find_node x g = Some i \<Longrightarrow> i < length g \<and> wn_txnid (g ! i) = x"
  by (auto simp: find_node_def omt_find_zero_def wfg_find_by_txnid_def Let_def split: if_splits)

lemma set_visited_back: "\<not> wn_visited (g ! i) \<Longrightarrow> i < length g \<Longrightarrow> set_visited i False (set_visited i True g) = g"
  by (simp add: set_visited_def list_update_same_conv)

lemma cycle_from_edges_dom: "cycle_from_edges_dom (t, es, g) \<Longrightarrow> snd (cycle_from_edges t es g) = g"
proof (induction rule: cycle_from_edges.pinduct)
  case (1 target g)
  then show ?case by (simp add: cycle_from_edges.psimps)
next
  case (2 target e es g)
  show ?case
  proof (cases "target = e \<or> find_node e g = None")
    case True
    then show ?thesis using 2 by (auto simp: cycle_from_edges.psimps)
  next
    case False
    then obtain i where i: "target \<noteq> e" "find_node e g = Some i" by auto
    show ?thesis
    proof (cases "wn_visited (g ! i)")
      case True
      then show ?thesis using 2 i by (simp add: cycle_from_edges.psimps)
    next
      case False
      then have restored: "set_visited i False (snd (cycle_from_edges target (wn_edges (g ! i)) (set_visited i True g))) = g"
        using "2.IH"(3) [OF i(1,2) False] set_visited_back [OF False] find_node_Some [OF i(2)] by simp
      obtain b g1 where rec: "cycle_from_edges target (wn_edges (g ! i)) (set_visited i True g) = (b, g1)" by fastforce
      have "snd (cycle_from_edges target es (set_visited i False g1)) = set_visited i False g1" if "\<not> b"
        by (rule "2.IH"(4) [OF i False rec [symmetric] that])
      then show ?thesis using restored rec "2.hyps" i False by (simp add: cycle_from_edges.psimps)
    qed
  qed
qed

definition unvisited :: "wfg \<Rightarrow> nat" where
  "unvisited g = length (filter (\<lambda>n. \<not> wn_visited n) g)"

lemma unvisited_set: "i < length g \<Longrightarrow> \<not> wn_visited (g ! i) \<Longrightarrow> unvisited (set_visited i True g) < unvisited g"
  using arg_cong [OF id_take_nth_drop [of i g], of "filter (\<lambda>n. \<not> wn_visited n)"] by (simp add: unvisited_def set_visited_def upd_conv_take_nth_drop)

lemma cycle_from_edges_ends: "All cycle_from_edges_dom"
proof (relation "measures [\<lambda>(t, es, g). unvisited g, \<lambda>(t, es, g). length es]")
  show "wf (measures [\<lambda>(t, es, g). unvisited g, \<lambda>(t, es, g). length es])" by simp
next
  fix target edge_id edges g i b g1
  assume i: "find_node edge_id g = Some i" "\<not> wn_visited (g ! i)" and "(b, g1) = cycle_from_edges target (wn_edges (g ! i)) (set_visited i True g)"
    "cycle_from_edges_dom (target, wn_edges (g ! i), set_visited i True g)"
  then have "g1 = set_visited i True g" using cycle_from_edges_dom by (metis snd_conv)
  then have "set_visited i False g1 = g" using set_visited_back find_node_Some i by simp
  then show "((target, edges, set_visited i False g1), target, edge_id # edges, g) \<in> measures [\<lambda>(t, es, g). unvisited g, \<lambda>(t, es, g). length es]" by simp
qed (auto dest: find_node_Some intro: unvisited_set)

termination cycle_from_edges
  by (rule cycle_from_edges_ends)

lemma cycle_from_edges_restores [simp]: "snd (cycle_from_edges t es g) = g"
  using cycle_from_edges_ends by (intro cycle_from_edges_dom) blast

definition cycle_exists_from_node :: "TXNID \<Rightarrow> nat \<Rightarrow> wfg \<Rightarrow> bool \<times> wfg" where
  "cycle_exists_from_node target head g =
     (let (cycle_found, g1) = cycle_from_edges target (wn_edges (g ! head)) (set_visited head True g)
      in (cycle_found, set_visited head False g1))"

definition cycle_exists_from_txnid :: "TXNID \<Rightarrow> wfg \<Rightarrow> bool \<times> wfg" where
  "cycle_exists_from_txnid txnid g =
     (case find_node txnid g of
        None \<Rightarrow> (False, g)
      | Some a_node \<Rightarrow> cycle_exists_from_node (wn_txnid (g ! a_node)) a_node g)"

subsection \<open>What the search finds\<close>

definition wfg_ok :: "wfg \<Rightarrow> bool" where
  "wfg_ok g \<longleftrightarrow> sorted_by wn_txnid g \<and> (\<forall>n\<in>set g. txnid_set_ok (wn_edges n) \<and> \<not> wn_visited n)"

text \<open>Transaction \<open>a\<close> waits for \<open>b\<close> according to the graph.\<close>

definition wfg_edges :: "wfg \<Rightarrow> (TXNID \<times> TXNID) set" where
  "wfg_edges g = {(wn_txnid n, b) |n b. n \<in> set g \<and> b \<in> set (wn_edges n)}"

lemma wfg_find_key: "wfg_find_by_txnid txnid = key_cmp wn_txnid txnid"
  by (auto simp: wfg_find_by_txnid_def key_cmp_def fun_eq_iff)

lemma find_node_iff:
  assumes "sorted_by wn_txnid g"
  shows "find_node x g = Some i \<longleftrightarrow> i < length g \<and> wn_txnid (g ! i) = x"
proof
  assume "i < length g \<and> wn_txnid (g ! i) = x"
  then show "find_node x g = Some i" using omt_find_zero_sorted [OF assms, of x "g ! i" i] by (simp add: find_node_def wfg_find_key)
qed (rule find_node_Some)

lemma find_node_None: "sorted_by wn_txnid g \<Longrightarrow> find_node x g = None \<longleftrightarrow> x \<notin> wn_txnid ` set g"
  using omt_find_zero_missing [of wn_txnid g x] by (auto simp: find_node_def wfg_find_key split: sum.splits)

text \<open>A walk can be cut at its last visit to \<open>e\<close>.\<close>

lemma trancl_last_visit:
  "(x, t) \<in> R\<^sup>+ \<Longrightarrow> x \<noteq> e \<and> (x, t) \<in> (R \<inter> {e'. fst e' \<noteq> e})\<^sup>+ \<or>
     (\<exists>y. (e, y) \<in> R \<and> (y = t \<or> y \<noteq> e \<and> (y, t) \<in> (R \<inter> {e'. fst e' \<noteq> e})\<^sup>+))"
proof (induction rule: converse_trancl_induct)
  case (base x)
  then show ?case by (cases "x = e") auto
next
  case (step x y)
  then show ?case by (cases "x = e") (auto intro: trancl_into_trancl2)
qed

lemma trancl_from: "(e, t) \<in> R\<^sup>+ \<longleftrightarrow> (\<exists>y. (e, y) \<in> R \<and> (y = t \<or> y \<noteq> e \<and> (y, t) \<in> (R \<inter> {e'. fst e' \<noteq> e})\<^sup>+))"
proof
  assume "(e, t) \<in> R\<^sup>+"
  then show "\<exists>y. (e, y) \<in> R \<and> (y = t \<or> y \<noteq> e \<and> (y, t) \<in> (R \<inter> {e'. fst e' \<noteq> e})\<^sup>+)" using trancl_last_visit by fastforce
next
  have "(R \<inter> {e'. fst e' \<noteq> e})\<^sup>+ \<subseteq> R\<^sup>+" by (rule trancl_mono_subset) simp
  moreover assume "\<exists>y. (e, y) \<in> R \<and> (y = t \<or> y \<noteq> e \<and> (y, t) \<in> (R \<inter> {e'. fst e' \<noteq> e})\<^sup>+)"
  ultimately show "(e, t) \<in> R\<^sup>+" by (blast intro: trancl_into_trancl2)
qed

definition path_nodes :: "wfg \<Rightarrow> TXNID set" where
  "path_nodes g = wn_txnid ` {n \<in> set g. wn_visited n}"

text \<open>The edges that leave nodes that are not on the path.\<close>

definition free_edges :: "wfg \<Rightarrow> (TXNID \<times> TXNID) set" where
  "free_edges g = wfg_edges g \<inter> {e. fst e \<notin> path_nodes g}"

lemma map_set_visited: "i < length g \<Longrightarrow> map wn_txnid (set_visited i b g) = map wn_txnid g" "i < length g \<Longrightarrow> map wn_edges (set_visited i b g) = map wn_edges g"
  by (simp_all add: set_visited_def map_update list_update_same_conv)

lemma sorted_by_keys: "sorted_by key g \<longleftrightarrow> sorted_by (\<lambda>x. x) (map key g)"
  by (simp add: sorted_by_def sorted_wrt_map)

lemma wfg_edges_nth: "(a, b) \<in> wfg_edges g \<longleftrightarrow> (\<exists>i<length g. wn_txnid (g ! i) = a \<and> b \<in> set (wn_edges (g ! i)))"
  by (auto simp: wfg_edges_def in_set_conv_nth)

lemma path_nodes_nth: "a \<in> path_nodes g \<longleftrightarrow> (\<exists>i<length g. wn_txnid (g ! i) = a \<and> wn_visited (g ! i))"
  by (auto simp: path_nodes_def in_set_conv_nth image_iff)

lemma sorted_by_inj: "sorted_by key g \<Longrightarrow> i < length g \<Longrightarrow> j < length g \<Longrightarrow> key (g ! i) = key (g ! j) \<Longrightarrow> i = j"
  unfolding sorted_by_def sorted_wrt_iff_nth_less by (metis linorder_neqE_nat order_less_irrefl)

lemma set_visited_ok:
  assumes "sorted_by wn_txnid g" "i < length g" "\<not> wn_visited (g ! i)"
  shows "sorted_by wn_txnid (set_visited i True g)" "path_nodes (set_visited i True g) = insert (wn_txnid (g ! i)) (path_nodes g)"
    "free_edges (set_visited i True g) = free_edges g \<inter> {e. fst e \<noteq> wn_txnid (g ! i)}"
proof -
  show "sorted_by wn_txnid (set_visited i True g)" using assms(1,2) map_set_visited(1) [of i g True] sorted_by_keys by metis
  have nth: "set_visited i True g ! j = (if j = i then (g ! i)\<lparr>wn_visited := True\<rparr> else g ! j)" "length (set_visited i True g) = length g" if "j < length g" for j
    using assms(2) that by (auto simp: set_visited_def)
  have len: "length (set_visited i True g) = length g" by (simp add: set_visited_def)
  show p: "path_nodes (set_visited i True g) = insert (wn_txnid (g ! i)) (path_nodes g)"
  proof (intro set_eqI)
    fix a
    have "a \<in> path_nodes (set_visited i True g) \<longleftrightarrow> (\<exists>j. j < length g \<and> (j = i \<or> wn_visited (g ! j)) \<and> wn_txnid (g ! j) = a)"
      unfolding path_nodes_nth len by (intro ex_cong1) (use nth(1) in \<open>auto split: if_splits\<close>)
    then show "a \<in> path_nodes (set_visited i True g) \<longleftrightarrow> a \<in> insert (wn_txnid (g ! i)) (path_nodes g)"
      using assms(2) by (auto simp: path_nodes_nth)
  qed
  have "(a, b) \<in> wfg_edges (set_visited i True g) \<longleftrightarrow> (a, b) \<in> wfg_edges g" for a b
    unfolding wfg_edges_nth len by (intro ex_cong1) (use nth(1) in \<open>auto split: if_splits\<close>)
  then have "wfg_edges (set_visited i True g) = wfg_edges g" by auto
  then show "free_edges (set_visited i True g) = free_edges g \<inter> {e. fst e \<noteq> wn_txnid (g ! i)}" unfolding free_edges_def p by auto
qed

lemma free_edges_source: "(a, b) \<in> (free_edges g)\<^sup>+ \<Longrightarrow> a \<notin> path_nodes g \<and> a \<in> wn_txnid ` set g"
  by (drule tranclD) (auto simp: free_edges_def wfg_edges_def)

lemma free_edges_at: "sorted_by wn_txnid g \<Longrightarrow> i < length g \<Longrightarrow> \<not> wn_visited (g ! i) \<Longrightarrow> (wn_txnid (g ! i), y) \<in> free_edges g \<longleftrightarrow> y \<in> set (wn_edges (g ! i))"
  unfolding free_edges_def by (auto simp: wfg_edges_nth path_nodes_nth dest: sorted_by_inj)

lemma cycle_from_edges_iff:
  "sorted_by wn_txnid g \<Longrightarrow> fst (cycle_from_edges t es g) \<longleftrightarrow> (\<exists>e\<in>set es. e = t \<or> (e, t) \<in> (free_edges g)\<^sup>+)"
proof (induction t es g rule: cycle_from_edges.induct)
  case (2 t e es g)
  show ?case
  proof (cases "t = e")
    case False
    show ?thesis
    proof (cases "find_node e g")
      case None
      then have "(e, t) \<notin> (free_edges g)\<^sup>+" using find_node_None [OF "2.prems"] free_edges_source by blast
      then show ?thesis using "2.IH"(1) [OF False None "2.prems"] False None by auto
    next
      case (Some i)
      have i: "i < length g" "wn_txnid (g ! i) = e" using find_node_Some [OF Some] by simp_all
      show ?thesis
      proof (cases "wn_visited (g ! i)")
        case True
        then have "(e, t) \<notin> (free_edges g)\<^sup>+" using free_edges_source i path_nodes_nth by blast
        then show ?thesis using "2.IH"(2) [OF False Some True "2.prems"] False Some True by auto
      next
        case new: False
        note sv = set_visited_ok [OF "2.prems" i(1) new, unfolded i(2)]
        obtain b where rec: "cycle_from_edges t (wn_edges (g ! i)) (set_visited i True g) = (b, set_visited i True g)"
          using cycle_from_edges_restores by (metis prod.collapse)
        have again: "set_visited i False (set_visited i True g) = g" by (rule set_visited_back [OF new i(1)])
        have "b \<longleftrightarrow> (\<exists>y\<in>set (wn_edges (g ! i)). y = t \<or> (y, t) \<in> (free_edges g \<inter> {x. fst x \<noteq> e})\<^sup>+)"
          using "2.IH"(3) [OF False Some new sv(1)] rec sv(3) by simp
        also have "\<dots> \<longleftrightarrow> (e, t) \<in> (free_edges g)\<^sup>+"
        proof -
          have "y \<noteq> e" if "(y, t) \<in> (free_edges g \<inter> {x. fst x \<noteq> e})\<^sup>+" for y using tranclD [OF that] by auto
          then show ?thesis unfolding trancl_from [of e] using free_edges_at [OF "2.prems" i(1) new] i(2) by blast
        qed
        finally have b: "b \<longleftrightarrow> (e, t) \<in> (free_edges g)\<^sup>+" .
        show ?thesis
        proof (cases b)
          case True
          then show ?thesis using False Some new rec b by simp
        next
          case nb: False
          have "fst (cycle_from_edges t es g) \<longleftrightarrow> (\<exists>e\<in>set es. e = t \<or> (e, t) \<in> (free_edges g)\<^sup>+)"
            using "2.IH"(4) [OF False Some new rec [symmetric] nb] "2.prems" unfolding again .
          then show ?thesis using False Some new rec b nb again by auto
        qed
      qed
    qed
  qed simp
qed simp

lemma no_path: "wfg_ok g \<Longrightarrow> path_nodes g = {}" "wfg_ok g \<Longrightarrow> free_edges g = wfg_edges g"
  by (auto simp: wfg_ok_def path_nodes_def free_edges_def)

lemma cycle_exists_ok:
  assumes "wfg_ok g"
  shows "cycle_exists_from_txnid txnid g = ((txnid, txnid) \<in> (wfg_edges g)\<^sup>+, g)"
proof -
  have so: "sorted_by wn_txnid g" using assms by (simp add: wfg_ok_def)
  show ?thesis
  proof (cases "find_node txnid g")
    case None
    then have "(txnid, txnid) \<notin> (wfg_edges g)\<^sup>+" using find_node_None [OF so] free_edges_source [of txnid txnid g] no_path(2) [OF assms] by auto
    then show ?thesis using None by (simp add: cycle_exists_from_txnid_def)
  next
    case (Some i)
    have i: "i < length g" "wn_txnid (g ! i) = txnid" using find_node_Some [OF Some] by simp_all
    have new: "\<not> wn_visited (g ! i)" using assms i(1) by (simp add: wfg_ok_def)
    note sv = set_visited_ok [OF so i(1) new, unfolded i(2)]
    have "fst (cycle_from_edges txnid (wn_edges (g ! i)) (set_visited i True g)) \<longleftrightarrow> (txnid, txnid) \<in> (free_edges g)\<^sup>+"
    proof -
      have "y \<noteq> txnid" if "(y, txnid) \<in> (free_edges g \<inter> {x. fst x \<noteq> txnid})\<^sup>+" for y using tranclD [OF that] by auto
      then show ?thesis unfolding cycle_from_edges_iff [OF sv(1)] sv(3) trancl_from [of txnid] using free_edges_at [OF so i(1) new] i(2) by blast
    qed
    then show ?thesis using Some i(2) set_visited_back [OF new i(1)] no_path(2) [OF assms]
      by (simp add: cycle_exists_from_txnid_def cycle_exists_from_node_def case_prod_beta)
  qed
qed

subsection \<open>Building the graph\<close>

lemma wfg_create_ok: "wfg_ok wfg_create" "wfg_edges wfg_create = {}" "wn_txnid ` set wfg_create = {}"
  by (simp_all add: wfg_create_def wfg_ok_def wfg_edges_def)

lemma node_exists_ok: "wfg_ok g \<Longrightarrow> node_exists x g \<longleftrightarrow> x \<in> wn_txnid ` set g"
  using find_node_None [of g x] by (auto simp: node_exists_def wfg_ok_def)

lemma find_create_node_ok:
  assumes "wfg_ok g"
  obtains g' where "find_create_node x g = Some g'" "wfg_ok g'" "wfg_edges g' = wfg_edges g" "wn_txnid ` set g' = insert x (wn_txnid ` set g)"
proof (cases "omt_find_zero (wfg_find_by_txnid x) g")
  case (Inr p)
  then have "find_create_node x g = Some g" by (simp add: find_create_node_def)
  moreover have "x \<in> wn_txnid ` set g" using Inr find_node_None [of g x] assms by (auto simp: find_node_def wfg_ok_def split: prod.splits)
  ultimately show thesis using that [of g] assms by (simp add: insert_absorb)
next
  case (Inl i)
  have so: "sorted_by wn_txnid g" and ok: "\<forall>n\<in>set g. txnid_set_ok (wn_edges n) \<and> \<not> wn_visited n" using assms by (simp_all add: wfg_ok_def)
  have new: "wn_txnid (node_alloc x) \<notin> wn_txnid ` set g" using Inl omt_find_zero_missing [OF so, of x] by (auto simp: wfg_find_key node_alloc_def)
  obtain j g' where ins: "omt_insert (key_cmp wn_txnid x) g (node_alloc x) = Inr (g', j)" "sorted_by wn_txnid g'" "set g' = insert (node_alloc x) (set g)"
    by (rule omt_insert_sorted [OF so new, unfolded node_alloc_def wfg_node.select_convs, folded node_alloc_def])
  then have "find_create_node x g = Some g'" using Inl
    by (auto simp: find_create_node_def omt_insert_def wfg_find_key split: sum.splits)
  moreover have "wfg_ok g'" using ins(2,3) ok by (simp add: wfg_ok_def node_alloc_def txnid_set_create_def)
  moreover have "wfg_edges g' = wfg_edges g" using ins(3) by (auto simp: wfg_edges_def node_alloc_def txnid_set_create_def)
  moreover have "wn_txnid ` set g' = insert x (wn_txnid ` set g)" using ins(3) by (simp add: node_alloc_def)
  ultimately show thesis by (rule that)
qed

lemma add_edge_ok:
  assumes "wfg_ok g"
  obtains g' where "add_edge a b g = Some g'" "wfg_ok g'" "wfg_edges g' = insert (a, b) (wfg_edges g)" "wn_txnid ` set g' = insert a (insert b (wn_txnid ` set g))"
proof -
  obtain g1 where g1: "find_create_node a g = Some g1" "wfg_ok g1" "wfg_edges g1 = wfg_edges g" "wn_txnid ` set g1 = insert a (wn_txnid ` set g)"
    by (rule find_create_node_ok [OF assms])
  obtain g2 where g2: "find_create_node b g1 = Some g2" "wfg_ok g2" "wfg_edges g2 = wfg_edges g1" "wn_txnid ` set g2 = insert b (wn_txnid ` set g1)"
    by (rule find_create_node_ok [OF g1(2)])
  have so: "sorted_by wn_txnid g2" using g2(2) by (simp add: wfg_ok_def)
  have "a \<in> wn_txnid ` set g2" using g2(4) g1(4) by simp
  then obtain i where i: "i < length g2" "wn_txnid (g2 ! i) = a" by (auto simp: in_set_conv_nth)
  have "txnid_set_ok (wn_edges (g2 ! i))" using g2(2) i(1) by (simp add: wfg_ok_def)
  then obtain s where s: "txnid_set_add (wn_edges (g2 ! i)) b = Some s" "txnid_set_ok s" "set s = insert b (set (wn_edges (g2 ! i)))" by (rule txnid_set_add_ok)
  let ?n = "(g2 ! i)\<lparr>wn_edges := s\<rparr>"
  let ?g = "g2[i := ?n]"
  have ids: "map wn_txnid ?g = map wn_txnid g2" using i by (simp add: map_update list_update_same_conv)
  have nth: "?g ! j = (if j = i then ?n else g2 ! j)" if "j < length g2" for j using that i(1) by simp
  have "add_edge a b g = Some ?g" using g1(1) g2(1) s(1) find_node_iff [OF so, of a i] i by (simp add: add_edge_def)
  moreover have "sorted_by wn_txnid ?g" using so ids sorted_by_keys by metis
  then have "wfg_ok ?g" using g2(2) s(2) i(1) unfolding wfg_ok_def by (metis (no_types, lifting) in_set_conv_nth length_list_update nth wfg_node.select_convs(2,3) wfg_node.surjective wfg_node.update_convs(2))
  moreover have "wfg_edges ?g = insert (a, b) (wfg_edges g)"
  proof -
    have "(x, y) \<in> wfg_edges ?g \<longleftrightarrow> (x, y) = (a, b) \<or> (x, y) \<in> wfg_edges g2" for x y
    proof -
      have "(x, y) \<in> wfg_edges ?g \<longleftrightarrow> (\<exists>j. j < length g2 \<and> wn_txnid (g2 ! j) = x \<and> (y \<in> set (wn_edges (g2 ! j)) \<or> j = i \<and> y = b))"
        unfolding wfg_edges_nth length_list_update by (intro ex_cong1) (use i(1) s(3) in \<open>auto simp: nth_list_update\<close>)
      then show ?thesis using i by (auto simp: wfg_edges_nth)
    qed
    then show ?thesis using g1(3) g2(3) by (auto simp del: nth_list_update)
  qed
  moreover have "wn_txnid ` set ?g = insert a (insert b (wn_txnid ` set g))" using arg_cong [OF ids, of set] g1(4) g2(4) by (simp add: insert_commute)
  ultimately show thesis by (rule that)
qed

subsection \<open>Properties\<close>

text \<open>
  C33. The search for a deadlock ends on every graph, leaves the graph as it was, and answers exactly the question asked: whether the transaction waits, directly or through others, for itself.
  The search marks only the nodes on its current path and clears the marks on its way back.
\<close>

theorem cycle_exists_correct:
  assumes "wfg_ok g"
  shows "cycle_exists_from_txnid txnid g = ((txnid, txnid) \<in> (wfg_edges g)\<^sup>+, g)"
  by (rule cycle_exists_ok [OF assms])

theorem cycle_exists_correct_witness:
  "\<exists>g. do { g \<leftarrow> add_edge 7 8 wfg_create; g \<leftarrow> add_edge 8 9 g; add_edge 9 7 g } = Some g \<and> wfg_ok g \<and> fst (cycle_exists_from_txnid 7 g)"
proof -
  obtain g1 where g1: "add_edge 7 8 wfg_create = Some g1" "wfg_ok g1" "wfg_edges g1 = insert (7, 8) {}"
    using add_edge_ok [OF wfg_create_ok(1)] wfg_create_ok(2) by metis
  obtain g2 where g2: "add_edge 8 9 g1 = Some g2" "wfg_ok g2" "wfg_edges g2 = insert (8, 9) (wfg_edges g1)" by (rule add_edge_ok [OF g1(2)])
  obtain g3 where g3: "add_edge 9 7 g2 = Some g3" "wfg_ok g3" "wfg_edges g3 = insert (9, 7) (wfg_edges g2)" by (rule add_edge_ok [OF g2(2)])
  have "(7, 8) \<in> wfg_edges g3" "(8, 9) \<in> wfg_edges g3" "(9, 7) \<in> wfg_edges g3" using g1(3) g2(3) g3(3) by simp_all
  then have "(7, 7) \<in> (wfg_edges g3)\<^sup>+" by (meson trancl.simps)
  then show ?thesis using g1(1) g2(1) g3(1,2) cycle_exists_correct [OF g3(2), of 7] by simp
qed

end
