(* ===== verification/Lock_Request.thy ===== *)
theory Lock_Request
  imports Lock_Manager_Props Wfg
begin

text \<open>
  Requests for row locks, \<open>src/locktree/lock_request.cc\<close>: a request that is not granted joins the pending requests of its lock tree unless it would
  close a cycle of waiting transactions; pending requests are retried when locks are released, and leave when they time out or are killed.

  The pending requests are in an order maintenance tree by transaction id, represented by the list of its values. A pending request is
  identified by its transaction id, and an operation on it acts on its entry in the list; an operation that completes it returns its final value. The dictionary id stands for
  the pointers \<open>m_lt\<close> and \<open>m_info\<close>. The mutexes and the condition variables are left out: operations run one after the other, and \<open>wait\<close> is given by the steps between its sleeps.
\<close>

subsection \<open>The life of a request\<close>

definition lock_request_create :: lock_request where
  "lock_request_create =
     \<lparr>lr_txnid = TXNID_NONE, lr_conflicting_txnid = TXNID_NONE, lr_start_time = 0, lr_left_key = toku_init_dbt, lr_right_key = toku_init_dbt,
      lr_type = UNKNOWN, lr_complete_r = None, lr_state = UNINITIALIZED, lr_big_txn = False, lr_extra = 0\<rparr>"

definition lock_request_destroy :: "lock_request \<Rightarrow> lock_request option" where
  "lock_request_destroy req = do {
     ensure (lr_state req \<noteq> PENDING);
     ensure (lr_state req \<noteq> DESTROYED);
     Some (req\<lparr>lr_state := DESTROYED\<rparr>)
   }"

definition lock_request_set :: "TXNID \<Rightarrow> DBT \<Rightarrow> DBT \<Rightarrow> lr_type \<Rightarrow> bool \<Rightarrow> nat \<Rightarrow> lock_request \<Rightarrow> lock_request option" where
  "lock_request_set txnid left_key right_key lock_type big_txn extra req = do {
     ensure (lr_state req \<noteq> PENDING);
     Some (req\<lparr>lr_txnid := txnid, lr_left_key := left_key, lr_right_key := right_key, lr_type := lock_type,
       lr_state := INITIALIZED, lr_big_txn := big_txn, lr_extra := extra\<rparr>)
   }"

definition complete :: "ft_error option \<Rightarrow> lock_request \<Rightarrow> lock_request" where
  "complete complete_r req = req\<lparr>lr_complete_r := complete_r, lr_state := COMPLETE\<rparr>"

text \<open>The copies of the two keys are different buffers.\<close>

definition copy_keys :: "lock_request \<Rightarrow> lock_request" where
  "copy_keys req =
     (let req = (if \<not> toku_dbt_is_infinite (lr_left_key req)
                 then req\<lparr>lr_left_key := toku_clone_dbt (lr_right_key req) (lr_left_key req)\<rparr> else req)
      in if \<not> toku_dbt_is_infinite (lr_right_key req)
         then req\<lparr>lr_right_key := toku_clone_dbt (lr_left_key req) (lr_right_key req)\<rparr> else req)"

subsection \<open>The pending requests of a lock tree\<close>

definition request_find_by_txnid :: "TXNID \<Rightarrow> lock_request \<Rightarrow> int" where
  "request_find_by_txnid txnid request = (if lr_txnid request < txnid then - 1 else if lr_txnid request = txnid then 0 else 1)"

definition find_lock_request :: "TXNID \<Rightarrow> lock_request list \<Rightarrow> lock_request option" where
  "find_lock_request txnid pending =
     (case omt_find_zero (request_find_by_txnid txnid) pending of Inr (request, _) \<Rightarrow> Some request | Inl _ \<Rightarrow> None)"

definition insert_into_lock_requests :: "lock_request \<Rightarrow> lt_lock_request_info \<Rightarrow> lt_lock_request_info option" where
  "insert_into_lock_requests req info =
     (case omt_find_zero (request_find_by_txnid (lr_txnid req)) (pending_lock_requests info) of
        Inr _ \<Rightarrow> None
      | Inl idx \<Rightarrow> (case omt_insert_at (pending_lock_requests info) req idx of
          Inr pending \<Rightarrow> Some (info\<lparr>pending_lock_requests := pending, pending_is_empty := False\<rparr>)
        | Inl _ \<Rightarrow> None))"

definition remove_from_lock_requests :: "lock_request \<Rightarrow> lt_lock_request_info \<Rightarrow> lt_lock_request_info option" where
  "remove_from_lock_requests req info =
     (case omt_find_zero (request_find_by_txnid (lr_txnid req)) (pending_lock_requests info) of
        Inl _ \<Rightarrow> None
      | Inr (request, idx) \<Rightarrow> (case omt_delete_at (pending_lock_requests info) idx of
          Inr pending \<Rightarrow> Some (info\<lparr>pending_lock_requests := pending,
            pending_is_empty := (if length pending = 0 then True else pending_is_empty info)\<rparr>)
        | Inl _ \<Rightarrow> None))"

definition lt_info :: "64 word \<Rightarrow> locktree_manager \<Rightarrow> lt_lock_request_info option" where
  "lt_info dict_id mgr = map_option (\<lambda>i. ml_info (m_locktree_map mgr ! i)) (locktree_map_find dict_id mgr)"

text \<open>Run an operation on the request state of a lock tree.\<close>

definition on_info :: "64 word \<Rightarrow> (lt_lock_request_info \<Rightarrow> lt_lock_request_info option) \<Rightarrow> locktree_manager \<Rightarrow> locktree_manager option" where
  "on_info dict_id f mgr = do {
     i \<leftarrow> locktree_map_find dict_id mgr;
     info \<leftarrow> f (ml_info (m_locktree_map mgr ! i));
     Some (update_at i (\<lambda>m. m\<lparr>ml_info := info\<rparr>) mgr)
   }"

subsection \<open>Deadlocks\<close>

definition request_get_conflicts :: "64 word \<Rightarrow> lock_request \<Rightarrow> TXNID list \<Rightarrow> locktree_manager \<Rightarrow> (TXNID list \<times> locktree_manager) option" where
  "request_get_conflicts dict_id req conflicts mgr = do {
     ensure (lr_state req = PENDING);
     on_tree dict_id (locktree_get_conflicts (lr_txnid req) (lr_left_key req) (lr_right_key req) conflicts) mgr
   }"

text \<open>A graph that is never complete would be \<open>None\<close>.\<close>

partial_function (option) build_wait_graph ::
  "64 word \<Rightarrow> lock_request list \<Rightarrow> lock_request \<Rightarrow> TXNID list \<Rightarrow> wfg \<times> locktree_manager \<Rightarrow> (wfg \<times> locktree_manager) option" where
  "build_wait_graph dict_id pending req conflicts s =
     (case conflicts of
        [] \<Rightarrow> Some s
      | conflicting_txnid # conflicts \<Rightarrow> do {
          ensure (conflicting_txnid \<noteq> lr_txnid req);
          case find_lock_request conflicting_txnid pending of
            None \<Rightarrow> build_wait_graph dict_id pending req conflicts s
          | Some conflicting_request \<Rightarrow> do {
              wait_graph \<leftarrow> add_edge (lr_txnid req) conflicting_txnid (fst s);
              if node_exists conflicting_txnid (fst s) then build_wait_graph dict_id pending req conflicts (wait_graph, snd s)
              else do {
                (other_conflicts, mgr) \<leftarrow> request_get_conflicts dict_id conflicting_request txnid_set_create (snd s);
                s \<leftarrow> build_wait_graph dict_id pending conflicting_request other_conflicts (wait_graph, mgr);
                build_wait_graph dict_id pending req conflicts s
              }
            }
        })"

definition deadlock_exists :: "64 word \<Rightarrow> lock_request list \<Rightarrow> lock_request \<Rightarrow> TXNID list \<Rightarrow> locktree_manager \<Rightarrow> (bool \<times> locktree_manager) option" where
  "deadlock_exists dict_id pending req conflicts mgr = do {
     (wait_graph, mgr) \<leftarrow> build_wait_graph dict_id pending req conflicts (wfg_create, mgr);
     Some (fst (cycle_exists_from_txnid (lr_txnid req) wait_graph), mgr)
   }"

subsection \<open>Starting and retrying\<close>

definition request_start :: "rb_record \<Rightarrow> 64 word \<Rightarrow> nat \<Rightarrow> lock_request \<Rightarrow> locktree_manager \<Rightarrow> (ft_error option \<times> lock_request \<times> escalations \<times> locktree_manager) option" where
  "request_start junk dict_id now req mgr = do {
     ensure (lr_type req = WRITE \<or> lr_type req = READ);
     (r, conflicts, calls, mgr) \<leftarrow> try_acquire_lock junk dict_id True (lr_txnid req) (lr_left_key req) (lr_right_key req) txnid_set_create (lr_big_txn req) mgr;
     if r = Some DB_LOCK_NOTGRANTED then do {
       c \<leftarrow> txnid_set_get conflicts 0;
       let req = (copy_keys req)\<lparr>lr_state := PENDING, lr_start_time := now, lr_conflicting_txnid := c\<rparr>;
       mgr \<leftarrow> on_info dict_id (insert_into_lock_requests req) mgr;
       info \<leftarrow> lt_info dict_id mgr;
       (deadlock, mgr) \<leftarrow> deadlock_exists dict_id (pending_lock_requests info) req conflicts mgr;
       if deadlock then do {
         mgr \<leftarrow> on_info dict_id (remove_from_lock_requests req) mgr;
         Some (Some DB_LOCK_DEADLOCK, complete (Some DB_LOCK_DEADLOCK) req, calls, mgr)
       }
       else Some (r, req, calls, mgr)
     }
     else Some (r, complete r req, calls, mgr)
   }"

definition put_request :: "nat \<Rightarrow> lock_request \<Rightarrow> lt_lock_request_info \<Rightarrow> lt_lock_request_info" where
  "put_request i req info = info\<lparr>pending_lock_requests := (pending_lock_requests info)[i := req]\<rparr>"

text \<open>A retry of the pending request at an index.\<close>

definition request_retry :: "rb_record \<Rightarrow> 64 word \<Rightarrow> nat \<Rightarrow> lock_request \<Rightarrow> locktree_manager \<Rightarrow> (ft_error option \<times> lock_request \<times> escalations \<times> locktree_manager) option" where
  "request_retry junk dict_id i req mgr = do {
     ensure (lr_state req = PENDING);
     (r, conflicts, calls, mgr) \<leftarrow> try_acquire_lock junk dict_id True (lr_txnid req) (lr_left_key req) (lr_right_key req) txnid_set_create (lr_big_txn req) mgr;
     if r = None then do {
       mgr \<leftarrow> on_info dict_id (remove_from_lock_requests req) mgr;
       Some (r, complete r req, calls, mgr)
     }
     else do {
       c \<leftarrow> txnid_set_get conflicts 0;
       let req = req\<lparr>lr_conflicting_txnid := c\<rparr>;
       mgr \<leftarrow> on_info dict_id (\<lambda>info. Some (put_request i req info)) mgr;
       Some (r, req, calls, mgr)
     }
   }"

definition retry_next :: "rb_record \<Rightarrow> 64 word \<Rightarrow> nat \<times> locktree_manager \<Rightarrow> (nat \<times> locktree_manager) option" where
  "retry_next junk dict_id s = (case s of (i, mgr) \<Rightarrow> do {
     info \<leftarrow> lt_info dict_id mgr;
     ensure (i < length (pending_lock_requests info));
     (r, _, _, mgr) \<leftarrow> request_retry junk dict_id i (pending_lock_requests info ! i) mgr;
     Some (if r \<noteq> None then i + 1 else i, mgr)
   })"

partial_function (option) retry_loop :: "rb_record \<Rightarrow> 64 word \<Rightarrow> nat \<times> locktree_manager \<Rightarrow> locktree_manager option" where
  "retry_loop junk dict_id s = do {
     info \<leftarrow> lt_info dict_id (snd s);
     if fst s < length (pending_lock_requests info)
     then do { s \<leftarrow> retry_next junk dict_id s; retry_loop junk dict_id s }
     else Some (snd s)
   }"

definition retry_all_lock_requests_info :: "rb_record \<Rightarrow> 64 word \<Rightarrow> locktree_manager \<Rightarrow> locktree_manager option" where
  "retry_all_lock_requests_info junk dict_id mgr = do {
     mgr \<leftarrow> retry_loop junk dict_id (0, mgr);
     on_info dict_id (\<lambda>info. Some (info\<lparr>should_retry_lock_requests := (length (pending_lock_requests info) > 0)\<rparr>)) mgr
   }"

text \<open>The group retry: a thread that finds another one retrying would sleep, which cannot happen when calls run one after the other.\<close>

definition retry_all_lock_requests :: "rb_record \<Rightarrow> 64 word \<Rightarrow> locktree_manager \<Rightarrow> locktree_manager option" where
  "retry_all_lock_requests junk dict_id mgr = do {
     info \<leftarrow> lt_info dict_id mgr;
     if pending_is_empty info then Some mgr
     else do {
       mgr \<leftarrow> on_info dict_id (\<lambda>info. Some (info\<lparr>retry_want := retry_want info + 1\<rparr>)) mgr;
       info \<leftarrow> lt_info dict_id mgr;
       let my_retry_want = retry_want info;
       if my_retry_want - 1 = retry_done info then do {
         ensure (\<not> running_retry info);
         mgr \<leftarrow> on_info dict_id (\<lambda>info. Some (info\<lparr>running_retry := True, retry_done := retry_want info\<rparr>)) mgr;
         mgr \<leftarrow> retry_all_lock_requests_info junk dict_id mgr;
         on_info dict_id (\<lambda>info. Some (info\<lparr>running_retry := False\<rparr>)) mgr
       }
       else Some mgr
     }
   }"

subsection \<open>Waiting\<close>

definition fail_pending :: "64 word \<Rightarrow> lock_request \<Rightarrow> locktree_manager \<Rightarrow> (lock_request \<times> locktree_manager) option" where
  "fail_pending dict_id req mgr = do {
     mgr \<leftarrow> on_info dict_id (remove_from_lock_requests req) mgr;
     Some (complete (Some DB_LOCK_NOTGRANTED) req, mgr)
   }"

text \<open>
  The steps of \<open>wait\<close>: at the start; in each turn of the loop, before the sleep, with the answer of \<open>killed_callback\<close>; after the sleep, with the time;
  and at the end. The retry at the start drops its result.
\<close>

definition wait_start :: "rb_record \<Rightarrow> 64 word \<Rightarrow> nat \<Rightarrow> lock_request \<Rightarrow> locktree_manager \<Rightarrow> (lock_request \<times> escalations \<times> locktree_manager) option" where
  "wait_start junk dict_id i req mgr =
     (if lr_state req = PENDING then map_option snd (request_retry junk dict_id i req mgr) else Some (req, [], mgr))"

definition wait_before_sleep :: "64 word \<Rightarrow> bool \<Rightarrow> lock_request \<Rightarrow> locktree_manager \<Rightarrow> (lock_request \<times> locktree_manager) option" where
  "wait_before_sleep dict_id killed req mgr =
     (if lr_state req = PENDING \<and> killed then fail_pending dict_id req mgr else Some (req, mgr))"

definition wait_after_sleep :: "64 word \<Rightarrow> nat \<Rightarrow> nat \<Rightarrow> lock_request \<Rightarrow> locktree_manager \<Rightarrow> (lock_request \<times> locktree_manager) option" where
  "wait_after_sleep dict_id t_now t_end req mgr =
     (if lr_state req = PENDING \<and> t_now \<ge> t_end then do {
        mgr \<leftarrow> on_info dict_id (\<lambda>info. Some (info\<lparr>counters := (counters info)\<lparr>timeout_count := timeout_count (counters info) + 1\<rparr>\<rparr>)) mgr;
        fail_pending dict_id req mgr
      }
      else Some (req, mgr))"

definition count_wait :: "64 word \<Rightarrow> lt_counters \<Rightarrow> lt_counters" where
  "count_wait duration c =
     (let c = c\<lparr>wait_count := wait_count c + 1, wait_time := wait_time c + duration\<rparr>
      in if duration \<ge> 1000000 then c\<lparr>long_wait_count := long_wait_count c + 1, long_wait_time := long_wait_time c + duration\<rparr> else c)"

definition wait_end :: "64 word \<Rightarrow> 64 word \<Rightarrow> lock_request \<Rightarrow> locktree_manager \<Rightarrow> (ft_error option \<times> locktree_manager) option" where
  "wait_end dict_id duration req mgr = do {
     mgr \<leftarrow> on_info dict_id (\<lambda>info. Some (info\<lparr>counters := count_wait duration (counters info)\<rparr>)) mgr;
     ensure (lr_state req = COMPLETE);
     Some (lr_complete_r req, mgr)
   }"

definition kill_waiter :: "64 word \<Rightarrow> nat \<Rightarrow> locktree_manager \<Rightarrow> (lock_request option \<times> locktree_manager) option" where
  "kill_waiter dict_id extra mgr = do {
     info \<leftarrow> lt_info dict_id mgr;
     case find (\<lambda>request. lr_extra request = extra) (pending_lock_requests info) of
       None \<Rightarrow> Some (None, mgr)
     | Some request \<Rightarrow> map_option (\<lambda>(request, mgr). (Some request, mgr)) (fail_pending dict_id request mgr)
   }"

subsection \<open>The requests of all lock trees\<close>

text \<open>The manager's iteration over all pending requests, with a callback that passes a state on and stops the iteration by a nonzero code.\<close>

type_synonym 's request_callback = "64 word \<Rightarrow> TXNID \<Rightarrow> DBT \<Rightarrow> DBT \<Rightarrow> TXNID \<Rightarrow> nat \<Rightarrow> 's \<Rightarrow> int \<times> 's"

fun iterate_requests :: "'s request_callback \<Rightarrow> 64 word \<Rightarrow> lock_request list \<Rightarrow> 's \<Rightarrow> int \<times> 's" where
  "iterate_requests callback dict_id [] s = (0, s)"
| "iterate_requests callback dict_id (req # reqs) s =
     (let (r, s) = callback dict_id (lr_txnid req) (lr_left_key req) (lr_right_key req) (lr_conflicting_txnid req) (lr_start_time req) s
      in if r = 0 then iterate_requests callback dict_id reqs s else (r, s))"

fun iterate_locktrees :: "'s request_callback \<Rightarrow> managed_lt list \<Rightarrow> 's \<Rightarrow> int \<times> 's" where
  "iterate_locktrees callback [] s = (0, s)"
| "iterate_locktrees callback (m # ms) s =
     (let (r, s) = iterate_requests callback (ml_dict m) (pending_lock_requests (ml_info m)) s
      in if r = 0 then iterate_locktrees callback ms s else (r, s))"

definition iterate_pending_lock_requests :: "'s request_callback \<Rightarrow> locktree_manager \<Rightarrow> 's \<Rightarrow> int \<times> 's" where
  "iterate_pending_lock_requests callback mgr s = iterate_locktrees callback (m_locktree_map mgr) s"

fun kill_waiters :: "64 word list \<Rightarrow> nat \<Rightarrow> locktree_manager \<Rightarrow> (lock_request list \<times> locktree_manager) option" where
  "kill_waiters [] extra mgr = Some ([], mgr)"
| "kill_waiters (dict_id # dict_ids) extra mgr = do {
     (killed, mgr) \<leftarrow> kill_waiter dict_id extra mgr;
     (more, mgr) \<leftarrow> kill_waiters dict_ids extra mgr;
     Some ((case killed of None \<Rightarrow> more | Some request \<Rightarrow> request # more), mgr)
   }"

definition manager_kill_waiter :: "nat \<Rightarrow> locktree_manager \<Rightarrow> (lock_request list \<times> locktree_manager) option" where
  "manager_kill_waiter extra mgr = kill_waiters (map ml_dict (m_locktree_map mgr)) extra mgr"

end
