(* ===== verification/Lock_Request_Props.thy ===== *)
theory Lock_Request_Props
  imports Lock_Request
begin

text \<open>
  The wait-for graph that a request builds is the relation of waiting that the locks and the pending requests define, so the deadlock check is exact;
  the pending requests stay consistent; and a retry of all of them leaves only requests that somebody else's lock still blocks.
\<close>

subsection \<open>Pending requests\<close>

definition request_ok :: "comparator \<Rightarrow> lock_request \<Rightarrow> bool" where
  "request_ok c q \<longleftrightarrow> range_ok c (lr_left_key q) (lr_right_key q) \<and> (lr_type q = WRITE \<or> lr_type q = READ)"

definition info_ok :: "comparator \<Rightarrow> lt_lock_request_info \<Rightarrow> bool" where
  "info_ok c info \<longleftrightarrow> sorted_by lr_txnid (pending_lock_requests info) \<and> (pending_is_empty info \<longleftrightarrow> pending_lock_requests info = []) \<and>
     (\<forall>q\<in>set (pending_lock_requests info). lr_state q = PENDING \<and> request_ok c q)"

definition request_keys :: "comparator \<Rightarrow> lock_request \<Rightarrow> endpoint set" where
  "request_keys c q = interval_keys c (keyof (lr_left_key q), keyof (lr_right_key q))"

lemma request_find_key: "request_find_by_txnid u = key_cmp lr_txnid u"
  by (auto simp: request_find_by_txnid_def key_cmp_def fun_eq_iff)

lemma find_lock_request_ok:
  assumes "sorted_by lr_txnid ps"
  shows "find_lock_request u ps = Some q \<longleftrightarrow> q \<in> set ps \<and> lr_txnid q = u" "find_lock_request u ps = None \<longleftrightarrow> u \<notin> lr_txnid ` set ps"
proof -
  show "find_lock_request u ps = None \<longleftrightarrow> u \<notin> lr_txnid ` set ps"
    using omt_find_zero_missing [OF assms, of u] by (auto simp: find_lock_request_def request_find_key split: sum.splits)
  have "find_lock_request u ps = Some q \<longleftrightarrow> (\<exists>i. omt_find_zero (key_cmp lr_txnid u) ps = Inr (q, i))"
    by (auto simp: find_lock_request_def request_find_key split: sum.splits)
  then show "find_lock_request u ps = Some q \<longleftrightarrow> q \<in> set ps \<and> lr_txnid q = u"
    unfolding omt_find_zero_sorted [OF assms] in_set_conv_nth by blast
qed

lemma insert_request_ok:
  assumes "info_ok c info" "lr_state q = PENDING" "request_ok c q" "lr_txnid q \<notin> lr_txnid ` set (pending_lock_requests info)"
  obtains info' where "insert_into_lock_requests q info = Some info'" "info_ok c info'" "set (pending_lock_requests info') = insert q (set (pending_lock_requests info))"
proof -
  have so: "sorted_by lr_txnid (pending_lock_requests info)" using assms(1) by (simp add: info_ok_def)
  obtain i ps where ins: "omt_insert (request_find_by_txnid (lr_txnid q)) (pending_lock_requests info) q = Inr (ps, i)" "sorted_by lr_txnid ps"
    "set ps = insert q (set (pending_lock_requests info))"
    by (rule omt_insert_sorted [OF so assms(4), folded request_find_key])
  have "insert_into_lock_requests q info = Some (info\<lparr>pending_lock_requests := ps, pending_is_empty := False\<rparr>)"
    using ins(1) by (auto simp: insert_into_lock_requests_def omt_insert_def split: sum.splits)
  moreover have "ps \<noteq> []" using ins(3) by auto
  then have "info_ok c (info\<lparr>pending_lock_requests := ps, pending_is_empty := False\<rparr>)" using ins(2,3) assms(1-3) by (simp add: info_ok_def)
  ultimately show thesis by (rule that) (simp add: ins(3))
qed

lemma remove_request_ok:
  assumes "info_ok c info" "pending_lock_requests info = us @ p # ws" "lr_txnid p = lr_txnid q"
  obtains info' where "remove_from_lock_requests q info = Some info'" "info_ok c info'" "pending_lock_requests info' = us @ ws"
proof -
  have so: "sorted_by lr_txnid (pending_lock_requests info)" using assms(1) by (simp add: info_ok_def)
  have "omt_find_zero (key_cmp lr_txnid (lr_txnid q)) (pending_lock_requests info) = Inr (p, length us)"
    using omt_find_zero_sorted [OF so, of "lr_txnid q" p "length us"] assms(2,3) by simp
  then have r: "remove_from_lock_requests q info = Some (info\<lparr>pending_lock_requests := us @ ws,
      pending_is_empty := (if length (us @ ws) = 0 then True else pending_is_empty info)\<rparr>)"
    using assms(2) by (simp add: remove_from_lock_requests_def request_find_key omt_delete_at_def)
  have "info_ok c (info\<lparr>pending_lock_requests := us @ ws, pending_is_empty := (if length (us @ ws) = 0 then True else pending_is_empty info)\<rparr>)"
    using assms(1,2) by (auto simp: info_ok_def)
  then show thesis by (rule that [OF r]) simp
qed

lemma copy_keys_ok [simp]:
  "lr_txnid (copy_keys q) = lr_txnid q" "lr_type (copy_keys q) = lr_type q" "request_keys c (copy_keys q) = request_keys c q"
  by (auto simp: copy_keys_def request_keys_def Let_def)

lemma copy_keys_range: "range_ok c (lr_left_key q) (lr_right_key q) \<Longrightarrow> range_ok c (lr_left_key (copy_keys q)) (lr_right_key (copy_keys q))"
proof -
  assume a: "range_ok c (lr_left_key q) (lr_right_key q)"
  have k: "keyof (lr_left_key (copy_keys q)) = keyof (lr_left_key q)" "keyof (lr_right_key (copy_keys q)) = keyof (lr_right_key q)"
    by (auto simp: copy_keys_def Let_def)
  have "toku_dbt_equals (lr_left_key (copy_keys q)) (lr_right_key (copy_keys q)) \<Longrightarrow> keyof (lr_left_key (copy_keys q)) = keyof (lr_right_key (copy_keys q))"
    using clone_not_equals infinite_equals by (auto simp: copy_keys_def Let_def split: if_splits)
  then have "same_range (lr_left_key (copy_keys q), lr_right_key (copy_keys q)) (keys_of (lr_left_key q, lr_right_key q))"
    using k by (simp add: same_range_def keys_of_def)
  from same_range_ok [OF this] a show ?thesis by simp
qed

subsection \<open>The state around a tree\<close>

text \<open>\<open>at_tree\<close>: the tree of the dictionary is open, with this comparator and these requests; \<open>ready\<close>: it is not in the single transaction optimisation.\<close>

definition at_tree :: "64 word \<Rightarrow> comparator \<Rightarrow> lt_lock_request_info \<Rightarrow> locktree_manager \<Rightarrow> bool" where
  "at_tree d c info mgr \<longleftrightarrow> manager_ok mgr \<and> (\<exists>m\<in>set (m_locktree_map mgr). ml_dict m = d \<and> lt_cmp (ml_tree m) = c \<and> ml_info m = info)"

definition ready :: "64 word \<Rightarrow> locktree_manager \<Rightarrow> bool" where
  "ready d mgr \<longleftrightarrow> (\<exists>m\<in>set (m_locktree_map mgr). ml_dict m = d \<and> m_sto_txnid (ml_tree m) = TXNID_NONE)"

definition same_locks :: "locktree_manager \<Rightarrow> locktree_manager \<Rightarrow> bool" where
  "same_locks mgr mgr' \<longleftrightarrow> (\<forall>d u. mgr_held mgr' d u = mgr_held mgr d u) \<and> m_max_lock_memory mgr' = m_max_lock_memory mgr \<and> refs_room mgr' = refs_room mgr"

lemma same_locks_refl [simp]: "same_locks mgr mgr"
  by (simp add: same_locks_def)

lemma same_locks_trans: "same_locks m1 m2 \<Longrightarrow> same_locks m2 m3 \<Longrightarrow> same_locks m1 m3"
  by (simp add: same_locks_def)

lemma same_locks_blockers: "same_locks mgr mgr' \<Longrightarrow> mgr_blockers mgr' d u K = mgr_blockers mgr d u K"
  by (simp add: same_locks_def mgr_blockers_def)

lemma at_tree_sig:
  assumes "at_tree d c info mgr" "manager_ok mgr'" "mgr_sig mgr' = mgr_sig mgr"
  shows "at_tree d c info mgr'"
proof -
  obtain m where m: "m \<in> set (m_locktree_map mgr)" "ml_dict m = d" "lt_cmp (ml_tree m) = c" "ml_info m = info" using assms(1) by (auto simp: at_tree_def)
  obtain m' where "m' \<in> set (m_locktree_map mgr')" "ml_dict m' = ml_dict m" "lt_cmp (ml_tree m') = lt_cmp (ml_tree m)" "ml_info m' = ml_info m"
    by (rule sig_tree [OF assms(3) m(1)])
  then show ?thesis using m assms(2) by (auto simp: at_tree_def)
qed

lemma lt_info_ok:
  assumes "at_tree d c info mgr"
  shows "lt_info d mgr = Some info"
proof -
  obtain m where m: "m \<in> set (m_locktree_map mgr)" "ml_dict m = d" "ml_info m = info" using assms by (auto simp: at_tree_def)
  have so: "sorted_by ml_dict (m_locktree_map mgr)" using assms by (simp add: at_tree_def manager_ok_def)
  obtain i where "locktree_map_find (ml_dict m) mgr = Some i" "m_locktree_map mgr ! i = m" by (rule update_found [OF so m(1), of id]) simp_all
  then show ?thesis using m(2,3) by (simp add: lt_info_def)
qed

lemma on_info_ok:
  assumes "at_tree d c info mgr" "f info = Some info'"
  obtains mgr' where "on_info d f mgr = Some mgr'" "at_tree d c info' mgr'" "same_locks mgr mgr'" "ready d mgr' = ready d mgr"
proof -
  obtain m where m: "m \<in> set (m_locktree_map mgr)" "ml_dict m = d" "lt_cmp (ml_tree m) = c" "ml_info m = info" and ok: "manager_ok mgr" using assms(1) by (auto simp: at_tree_def)
  have so: "sorted_by ml_dict (m_locktree_map mgr)" using ok by (simp add: manager_ok_def)
  let ?m = "m\<lparr>ml_info := info'\<rparr>"
  obtain i where i: "locktree_map_find (ml_dict m) mgr = Some i" "m_locktree_map mgr ! i = m" "update_at i (\<lambda>m. m\<lparr>ml_info := info'\<rparr>) mgr = put_lt ?m mgr"
    by (rule update_found [OF so m(1), of "\<lambda>m. m\<lparr>ml_info := info'\<rparr>"]) simp_all
  have dm: "ml_dict ?m = ml_dict m" by simp
  note p = put_lt_facts [OF so m(1) dm]
  let ?mgr = "put_lt ?m mgr"
  have cur: "m_current_lock_memory ?mgr = m_current_lock_memory mgr" "m_max_lock_memory ?mgr = m_max_lock_memory mgr" by (simp_all add: put_lt_def)
  have "on_info d f mgr = Some ?mgr" using i m(2,4) assms(2) by (simp add: on_info_def)
  moreover have "manager_ok ?mgr" using ok p(1,3) m(1) unfolding manager_ok_def p(2) cur by auto
  then have "at_tree d c info' ?mgr" using m p(2) by (auto simp: at_tree_def)
  moreover have "mgr_held ?mgr d' u = mgr_held mgr d' u" for d' u using p(4) mgr_held_at [OF ok m(1)] by simp
  moreover have "refs_room ?mgr = refs_room mgr" using m(1) unfolding refs_room_def p(2) by auto
  moreover have "ready d ?mgr = ready d mgr" using m(1,2) unfolding ready_def p(2) by auto
  ultimately show thesis using cur(2) by (intro that [of ?mgr]) (simp_all add: same_locks_def)
qed

subsection \<open>The wait-for graph is the relation of waiting\<close>

text \<open>
  \<open>a\<close> waits for \<open>b\<close>: \<open>a\<close> has a pending request for a range of which \<open>b\<close> holds a key, and \<open>b\<close> has a pending request itself.
\<close>

definition waits :: "64 word \<Rightarrow> comparator \<Rightarrow> lock_request set \<Rightarrow> locktree_manager \<Rightarrow> (TXNID \<times> TXNID) set" where
  "waits d c qs mgr = {(a, b). b \<in> lr_txnid ` qs \<and> (\<exists>q\<in>qs. lr_txnid q = a \<and> b \<in> mgr_blockers mgr d a (request_keys c q))}"

lemma request_get_conflicts_ok:
  assumes "at_tree d c info mgr" "ready d mgr" "lr_state q = PENDING" "request_ok c q"
  obtains cs mgr' where "request_get_conflicts d q txnid_set_create mgr = Some (cs, mgr')" "set cs = mgr_blockers mgr d (lr_txnid q) (request_keys c q)"
    "at_tree d c info mgr'" "ready d mgr'" "same_locks mgr mgr'"
proof -
  obtain m where m: "m \<in> set (m_locktree_map mgr)" "ml_dict m = d" "lt_cmp (ml_tree m) = c" "ml_info m = info" and ok: "manager_ok mgr" using assms(1) by (auto simp: at_tree_def)
  obtain m2 where m2: "m2 \<in> set (m_locktree_map mgr)" "ml_dict m2 = d" "m_sto_txnid (ml_tree m2) = TXNID_NONE" using assms(2) by (auto simp: ready_def)
  have "m2 = m" by (rule manager_ok_unique [OF ok m(1) m2(1)]) (simp add: m(2) m2(2))
  then have sto: "m_sto_txnid (seen_tree m mgr) = TXNID_NONE" using m2(3) by simp
  note lok = seen_tree_ok [OF ok m(1)]
  have rng: "range_ok (lt_cmp (seen_tree m mgr)) (lr_left_key q) (lr_right_key q)" using assms(4) m(3) by (simp add: request_ok_def)
  have cs0: "txnid_set_ok txnid_set_create" by (simp add: txnid_set_create_def)
  obtain cs t where g: "locktree_get_conflicts (lr_txnid q) (lr_left_key q) (lr_right_key q) txnid_set_create (seen_tree m mgr) = Some (cs, (seen_tree m mgr)\<lparr>m_rangetree := t\<rparr>)"
    "set cs = set txnid_set_create \<union> lt_blockers (seen_tree m mgr) (lr_txnid q) (lr_left_key q) (lr_right_key q)"
    "lt_ok (others_usage m mgr) ((seen_tree m mgr)\<lparr>m_rangetree := t\<rparr>)" "\<forall>u. lt_held ((seen_tree m mgr)\<lparr>m_rangetree := t\<rparr>) u = lt_held (seen_tree m mgr) u"
    using key_comparator.get_conflicts_ok [OF lt_key_comparator [OF lok] lok refl sto rng cs0, of "lr_txnid q"] by (elim exE conjE) (rule that)
  let ?lt = "(seen_tree m mgr)\<lparr>m_rangetree := t\<rparr>"
  have fr: "lt_frame ?lt = lt_frame (seen_tree m mgr)" by simp
  obtain mgr' where r: "on_tree d (locktree_get_conflicts (lr_txnid q) (lr_left_key q) (lr_right_key q) txnid_set_create) mgr = Some (cs, mgr')"
    "manager_ok mgr'" "mgr_sig mgr' = mgr_sig mgr" "m_max_lock_memory mgr' = m_max_lock_memory mgr"
    "\<forall>d' u. mgr_held mgr' d' u = (if d' = d then lt_held ?lt u else mgr_held mgr d' u)" "m\<lparr>ml_tree := ?lt\<lparr>lt_mem := None\<rparr>\<rparr> \<in> set (m_locktree_map mgr')"
    by (rule on_tree_ok [where f = "locktree_get_conflicts (lr_txnid q) (lr_left_key q) (lr_right_key q) txnid_set_create", OF ok m(1,2) g(1,3) fr])
  have "request_get_conflicts d q txnid_set_create mgr = Some (cs, mgr')" using r(1) assms(3) by (simp add: request_get_conflicts_def)
  moreover have "set cs = mgr_blockers mgr d (lr_txnid q) (request_keys c q)"
    using g(2) seen_blockers [OF ok m(1,2)] m(3) by (simp add: request_keys_def txnid_set_create_def)
  moreover have "at_tree d c info mgr'" by (rule at_tree_sig [OF assms(1) r(2,3)])
  moreover have "ready d mgr'" unfolding ready_def by (rule bexI [OF _ r(6)]) (use m(2) sto in simp)
  moreover have "mgr_held mgr' d' u = mgr_held mgr d' u" for d' u using r(5) g(4) mgr_held_at [OF ok m(1)] m(2) by simp
  then have "same_locks mgr mgr'" using r(4) refs_room_sig [OF r(3)] by (simp add: same_locks_def)
  ultimately show thesis by (rule that)
qed

lemma waits_same: "same_locks mgr mgr' \<Longrightarrow> waits d c qs mgr' = waits d c qs mgr"
  by (simp add: waits_def same_locks_blockers)

text \<open>A node is done when all that its transaction waits for is in the graph.\<close>

definition node_done :: "(TXNID \<times> TXNID) set \<Rightarrow> wfg \<Rightarrow> TXNID \<Rightarrow> bool" where
  "node_done W g x \<longleftrightarrow> (\<forall>b. (x, b) \<in> W \<longrightarrow> (x, b) \<in> wfg_edges g)"

abbreviation wfg_ids :: "wfg \<Rightarrow> TXNID set" where
  "wfg_ids g \<equiv> wn_txnid ` set g"

definition extends :: "(TXNID \<times> TXNID) set \<Rightarrow> TXNID \<Rightarrow> wfg \<Rightarrow> wfg \<Rightarrow> bool" where
  "extends W u g g' \<longleftrightarrow> wfg_edges g \<subseteq> wfg_edges g' \<and> wfg_ids g \<subseteq> wfg_ids g' \<and> (\<forall>x\<in>wfg_ids g' - wfg_ids g - {u}. node_done W g' x)"

lemma extends_refl: "extends W u g g"
  by (simp add: extends_def)

lemma extendsD:
  assumes "extends W u g g'"
  shows "wfg_edges g \<subseteq> wfg_edges g'" "wfg_ids g \<subseteq> wfg_ids g'" "x \<in> wfg_ids g' \<Longrightarrow> x \<notin> wfg_ids g \<Longrightarrow> x \<noteq> u \<Longrightarrow> node_done W g' x"
proof -
  note e = assms [unfolded extends_def]
  show "wfg_edges g \<subseteq> wfg_edges g'" "wfg_ids g \<subseteq> wfg_ids g'" by (rule conjunct1 [OF e], rule conjunct1 [OF conjunct2 [OF e]])
  show "x \<in> wfg_ids g' \<Longrightarrow> x \<notin> wfg_ids g \<Longrightarrow> x \<noteq> u \<Longrightarrow> node_done W g' x" using conjunct2 [OF conjunct2 [OF e]] by blast
qed

lemma node_done_mono: "wfg_edges g \<subseteq> wfg_edges g' \<Longrightarrow> node_done W g x \<Longrightarrow> node_done W g' x"
  by (auto simp: node_done_def)

lemma extends_trans: "extends W u g1 g2 \<Longrightarrow> extends W u g2 g3 \<Longrightarrow> extends W u g1 g3"
proof -
  assume a: "extends W u g1 g2" "extends W u g2 g3"
  have e: "wfg_edges g1 \<subseteq> wfg_edges g2" "wfg_edges g2 \<subseteq> wfg_edges g3" "wfg_ids g1 \<subseteq> wfg_ids g2" "wfg_ids g2 \<subseteq> wfg_ids g3"
    by (rule extendsD(1) [OF a(1)], rule extendsD(1) [OF a(2)], rule extendsD(2) [OF a(1)], rule extendsD(2) [OF a(2)])
  have "node_done W g3 x" if "x \<in> wfg_ids g3 - wfg_ids g1 - {u}" for x
  proof (cases "x \<in> wfg_ids g2")
    case True
    then have "node_done W g2 x" using extendsD(3) [OF a(1)] that by simp
    then show ?thesis by (rule node_done_mono [OF e(2)])
  next
    case False
    then show ?thesis using extendsD(3) [OF a(2)] that by simp
  qed
  then show ?thesis using order_trans [OF e(1,2)] order_trans [OF e(3,4)] unfolding extends_def by blast
qed

text \<open>A graph below the relation of waiting.\<close>

definition partial_graph :: "(TXNID \<times> TXNID) set \<Rightarrow> TXNID set \<Rightarrow> wfg \<Rightarrow> bool" where
  "partial_graph W P g \<longleftrightarrow> wfg_ok g \<and> wfg_edges g \<subseteq> W \<and> wfg_ids g \<subseteq> P \<and> wfg_edges g \<subseteq> wfg_ids g \<times> wfg_ids g"

lemma partial_graph_edge:
  assumes "partial_graph W P g" "(a, b) \<in> W" "a \<in> P" "b \<in> P"
  obtains g' where "add_edge a b g = Some g'" "partial_graph W P g'" "wfg_edges g' = insert (a, b) (wfg_edges g)" "wfg_ids g' = insert a (insert b (wfg_ids g))"
proof -
  have "wfg_ok g" using assms(1) by (simp add: partial_graph_def)
  then obtain g' where "add_edge a b g = Some g'" "wfg_ok g'" "wfg_edges g' = insert (a, b) (wfg_edges g)" "wfg_ids g' = insert a (insert b (wfg_ids g))"
    by (rule add_edge_ok)
  then show thesis using assms by (intro that [of g']) (auto simp: partial_graph_def)
qed

lemma build_wait_graph_ok:
  assumes "info_ok c info" "finite P" "P = lr_txnid ` set (pending_lock_requests info)"
  shows "at_tree d c info mgr \<Longrightarrow> ready d mgr \<Longrightarrow> waits d c (set (pending_lock_requests info)) mgr = W \<Longrightarrow> partial_graph W P g \<Longrightarrow>
     q \<in> set (pending_lock_requests info) \<Longrightarrow> set cs \<subseteq> mgr_blockers mgr d (lr_txnid q) (request_keys c q) \<Longrightarrow> card (P - wfg_ids g) \<le> n \<Longrightarrow>
     \<exists>g' mgr'. build_wait_graph d (pending_lock_requests info) q cs (g, mgr) = Some (g', mgr') \<and> at_tree d c info mgr' \<and> ready d mgr' \<and> same_locks mgr mgr' \<and>
       partial_graph W P g' \<and> extends W (lr_txnid q) g g' \<and> (\<forall>b\<in>set cs \<inter> P. (lr_txnid q, b) \<in> wfg_edges g')"
proof (induction n arbitrary: q cs g mgr rule: less_induct)
  case (less n)
  let ?ps = "pending_lock_requests info"
  have so: "sorted_by lr_txnid ?ps" and ps: "\<forall>q\<in>set ?ps. lr_state q = PENDING \<and> request_ok c q" using assms(1) by (simp_all add: info_ok_def)
  show ?case using less.prems
  proof (induction cs arbitrary: g mgr)
    case Nil
    then show ?case by (subst build_wait_graph.simps) (simp add: extends_refl)
  next
    case (Cons b cs)
    let ?u = "lr_txnid q"
    have bu: "b \<noteq> ?u" and bb: "b \<in> mgr_blockers mgr d ?u (request_keys c q)" and rest: "set cs \<subseteq> mgr_blockers mgr d ?u (request_keys c q)"
      using Cons.prems(6) by (auto simp: mgr_blockers_def)
    show ?case
    proof (cases "find_lock_request b ?ps")
      case None
      then have "b \<notin> P" using find_lock_request_ok(2) [OF so] assms(3) by simp
      moreover have "build_wait_graph d ?ps q (b # cs) (g, mgr) = build_wait_graph d ?ps q cs (g, mgr)"
        using bu None by (subst build_wait_graph.simps) simp
      ultimately show ?thesis using Cons.IH [OF Cons.prems(1-5) rest Cons.prems(7)] by auto
    next
      case (Some p)
      then have p: "p \<in> set ?ps" "lr_txnid p = b" using find_lock_request_ok(1) [OF so] by simp_all
      have uP: "?u \<in> P" and bP: "b \<in> P" using Cons.prems(5) p assms(3) by auto
      have W: "(?u, b) \<in> W" using Cons.prems(3,5) bb p by (auto simp: waits_def)
      obtain g1 where g1: "add_edge ?u b g = Some g1" "partial_graph W P g1" "wfg_edges g1 = insert (?u, b) (wfg_edges g)" "wfg_ids g1 = insert ?u (insert b (wfg_ids g))"
        by (rule partial_graph_edge [OF Cons.prems(4) W uP bP])
      have wok: "wfg_ok g" using Cons.prems(4) by (simp add: partial_graph_def)
      show ?thesis
      proof (cases "b \<in> wfg_ids g")
        case True
        then have step: "build_wait_graph d ?ps q (b # cs) (g, mgr) = build_wait_graph d ?ps q cs (g1, mgr)"
          using bu Some g1(1) node_exists_ok [OF wok] by (subst build_wait_graph.simps) simp
        have n1: "card (P - wfg_ids g1) \<le> n" by (rule order_trans [OF card_mono Cons.prems(7)]) (use assms(2) g1(4) in auto)
        have e1: "extends W ?u g g1" using True g1(3,4) by (auto simp: extends_def)
        obtain g' mgr' where r: "build_wait_graph d ?ps q cs (g1, mgr) = Some (g', mgr')" "at_tree d c info mgr'" "ready d mgr'" "same_locks mgr mgr'"
          "partial_graph W P g'" "extends W ?u g1 g'" "\<forall>b\<in>set cs \<inter> P. (?u, b) \<in> wfg_edges g'"
          using Cons.IH [OF Cons.prems(1-3) g1(2) Cons.prems(5) rest n1] by (elim exE conjE) (rule that)
        have "(?u, b) \<in> wfg_edges g'" using extendsD(1) [OF r(6)] g1(3) by auto
        then have "\<forall>x\<in>set (b # cs) \<inter> P. (?u, x) \<in> wfg_edges g'" using r(7) by auto
        then show ?thesis using step r(1-5) extends_trans [OF e1 r(6)] by (intro exI [of _ g'] exI [of _ mgr'] conjI) simp_all
      next
        case False
        obtain cs1 mgr1 where c1: "request_get_conflicts d p txnid_set_create mgr = Some (cs1, mgr1)" "set cs1 = mgr_blockers mgr d b (request_keys c p)"
          "at_tree d c info mgr1" "ready d mgr1" "same_locks mgr mgr1"
          using request_get_conflicts_ok [OF Cons.prems(1,2), of p] ps p by auto
        have n1: "card (P - wfg_ids g1) < card (P - wfg_ids g)" by (rule psubset_card_mono) (use assms(2) g1(4) False bP in auto)
        then have lt: "card (P - wfg_ids g1) < n" using Cons.prems(7) by simp
        have W1: "waits d c (set ?ps) mgr1 = W" using waits_same [OF c1(5)] Cons.prems(3) by simp
        have s1: "set cs1 \<subseteq> mgr_blockers mgr1 d (lr_txnid p) (request_keys c p)" using c1(2) p(2) same_locks_blockers [OF c1(5)] by simp
        obtain g2 mgr2 where r2: "build_wait_graph d ?ps p cs1 (g1, mgr1) = Some (g2, mgr2)" "at_tree d c info mgr2" "ready d mgr2" "same_locks mgr1 mgr2"
          "partial_graph W P g2" "extends W b g1 g2" "\<forall>x\<in>set cs1 \<inter> P. (b, x) \<in> wfg_edges g2"
          using less.IH [OF lt c1(3,4) W1 g1(2) p(1) s1 order_refl] unfolding p(2) by (elim exE conjE) (rule that)
        have sl: "same_locks mgr mgr2" by (rule same_locks_trans [OF c1(5) r2(4)])
        have W2: "waits d c (set ?ps) mgr2 = W" using waits_same [OF sl] Cons.prems(3) by simp
        have done_b: "node_done W g2 b"
        proof -
          have "x \<in> set cs1 \<inter> P" if "(b, x) \<in> W" for x
          proof -
            note hyp = that
            obtain p' where "p' \<in> set ?ps" "lr_txnid p' = b" "x \<in> mgr_blockers mgr d b (request_keys c p')" "x \<in> P" using hyp Cons.prems(3) assms(3) by (auto simp: waits_def)
            moreover have "p' = p" using \<open>p' \<in> set ?ps\<close> \<open>lr_txnid p' = b\<close> Some find_lock_request_ok(1) [OF so, of b p'] by simp
            ultimately show ?thesis using c1(2) by simp
          qed
          then show ?thesis using r2(7) by (auto simp: node_done_def)
        qed
        have e2: "extends W ?u g g2"
        proof -
          have "wfg_edges g \<subseteq> wfg_edges g2" "wfg_ids g \<subseteq> wfg_ids g2" using extendsD(1,2) [OF r2(6)] g1(3,4) by auto
          moreover have "node_done W g2 x" if "x \<in> wfg_ids g2 - wfg_ids g - {?u}" for x
            using extendsD(3) [OF r2(6), of x] done_b that g1(4) by (cases "x = b") auto
          ultimately show ?thesis unfolding extends_def by blast
        qed
        have n2: "card (P - wfg_ids g2) \<le> n" by (rule order_trans [OF card_mono Cons.prems(7)]) (use assms(2) extendsD(2) [OF e2] in auto)
        have s2: "set cs \<subseteq> mgr_blockers mgr2 d ?u (request_keys c q)" using rest same_locks_blockers [OF sl] by simp
        obtain g' mgr' where r: "build_wait_graph d ?ps q cs (g2, mgr2) = Some (g', mgr')" "at_tree d c info mgr'" "ready d mgr'" "same_locks mgr2 mgr'"
          "partial_graph W P g'" "extends W ?u g2 g'" "\<forall>b\<in>set cs \<inter> P. (?u, b) \<in> wfg_edges g'"
          using Cons.IH [OF r2(2,3) W2 r2(5) Cons.prems(5) s2 n2] by (elim exE conjE) (rule that)
        have step: "build_wait_graph d ?ps q (b # cs) (g, mgr) = Some (g', mgr')"
          using bu Some g1(1) node_exists_ok [OF wok] False c1(1) r2(1) r(1) by (subst build_wait_graph.simps) simp
        have "(?u, b) \<in> wfg_edges g'" using extendsD(1) [OF r(6)] extendsD(1) [OF r2(6)] g1(3) by auto
        then have "\<forall>x\<in>set (b # cs) \<inter> P. (?u, x) \<in> wfg_edges g'" using r(7) by auto
        then show ?thesis using step r(2,3,5) extends_trans [OF e2 r(6)] same_locks_trans [OF sl r(4)] by (intro exI [of _ g'] exI [of _ mgr'] conjI) simp_all
      qed
    qed
  qed
qed

subsection \<open>Deadlocks are found exactly\<close>

lemma deadlock_exists_ok:
  assumes "info_ok c info" "at_tree d c info mgr" "ready d mgr" "q \<in> set (pending_lock_requests info)" "set cs = mgr_blockers mgr d (lr_txnid q) (request_keys c q)"
  obtains mgr' where "deadlock_exists d (pending_lock_requests info) q cs mgr =
      Some ((lr_txnid q, lr_txnid q) \<in> (waits d c (set (pending_lock_requests info)) mgr)\<^sup>+, mgr')" "at_tree d c info mgr'" "ready d mgr'" "same_locks mgr mgr'"
proof -
  let ?ps = "pending_lock_requests info" and ?u = "lr_txnid q"
  let ?W = "waits d c (set ?ps) mgr" and ?P = "lr_txnid ` set ?ps"
  have empty: "partial_graph ?W ?P wfg_create" using wfg_create_ok by (simp add: partial_graph_def)
  obtain g mgr' where b: "build_wait_graph d ?ps q cs (wfg_create, mgr) = Some (g, mgr')" "at_tree d c info mgr'" "ready d mgr'" "same_locks mgr mgr'"
    "partial_graph ?W ?P g" "extends ?W ?u wfg_create g" "\<forall>b\<in>set cs \<inter> ?P. (?u, b) \<in> wfg_edges g"
    using build_wait_graph_ok [OF assms(1) finite_imageI [OF finite_set] refl assms(2,3) refl empty assms(4) eq_refl [OF assms(5)] order_refl] by (elim exE conjE) (rule that)
  have so: "sorted_by lr_txnid ?ps" using assms(1) by (simp add: info_ok_def)
  have "x \<in> set cs \<inter> ?P" if "(?u, x) \<in> ?W" for x
  proof -
    note hyp = that
    obtain p where p: "p \<in> set ?ps" "lr_txnid p = ?u" "x \<in> mgr_blockers mgr d ?u (request_keys c p)" "x \<in> ?P" using hyp by (auto simp: waits_def)
    have "p = q" using find_lock_request_ok(1) [OF so, of ?u p] find_lock_request_ok(1) [OF so, of ?u q] p(1,2) assms(4) by simp
    then show ?thesis using p(3,4) assms(5) by simp
  qed
  then have done_u: "node_done ?W g ?u" using b(7) by (auto simp: node_done_def)
  have all: "node_done ?W g x" if "x \<in> wfg_ids g" for x using extendsD(3) [OF b(6), of x] done_u that wfg_create_ok(3) by (cases "x = ?u") auto
  have ids: "wfg_edges g \<subseteq> wfg_ids g \<times> wfg_ids g" and sub: "wfg_edges g \<subseteq> ?W" and ok: "wfg_ok g" using b(5) by (simp_all add: partial_graph_def)
  have walk: "(?u, y) \<in> (wfg_edges g)\<^sup>+ \<and> y \<in> wfg_ids g" if "(?u, y) \<in> ?W\<^sup>+" for y using that
  proof induction
    case (base y)
    then have "(?u, y) \<in> wfg_edges g" using done_u by (simp add: node_done_def)
    then show ?case using ids by auto
  next
    case (step y z)
    then have "(y, z) \<in> wfg_edges g" using all [of y] by (simp add: node_done_def)
    then show ?case using step.IH ids by (auto intro: trancl_into_trancl)
  qed
  have "(?u, ?u) \<in> (wfg_edges g)\<^sup>+ \<longleftrightarrow> (?u, ?u) \<in> ?W\<^sup>+" using walk [of ?u] trancl_mono [OF _ sub] by blast
  then have "deadlock_exists d ?ps q cs mgr = Some ((?u, ?u) \<in> ?W\<^sup>+, mgr')" using b(1) cycle_exists_ok [OF ok] by (simp add: deadlock_exists_def)
  then show thesis using b(2-4) by (rule that)
qed

lemma waits_cong:
  assumes "lr_txnid q = lr_txnid q'" "request_keys c q = request_keys c q'"
  shows "waits d c (insert q qs) mgr = waits d c (insert q' qs) mgr"
  using assms by (simp add: waits_def)

lemma at_treeE:
  assumes "at_tree d c info mgr"
  obtains m where "manager_ok mgr" "m \<in> set (m_locktree_map mgr)" "ml_dict m = d" "lt_cmp (ml_tree m) = c" "ml_info m = info"
  using assms by (auto simp: at_tree_def)

text \<open>A request to the tree, in the terms of this theory.\<close>

lemma try_request:
  assumes "at_tree d c info mgr" "refs_room mgr" "request_ok c q"
  obtains mgr1 e cs calls mgr' where "try_acquire_lock junk d True (lr_txnid q) (lr_left_key q) (lr_right_key q) txnid_set_create (lr_big_txn q) mgr = Some (e, cs, calls, mgr')"
    "grows mgr mgr1" "at_tree d c info mgr'" "refs_room mgr'" "m_max_lock_memory mgr' = m_max_lock_memory mgr"
    "over_limit (lr_big_txn q) mgr1 \<longrightarrow> e = Some TOKUDB_OUT_OF_LOCKS \<and> cs = [] \<and> mgr' = mgr1"
    "\<not> over_limit (lr_big_txn q) mgr1 \<longrightarrow> (let B = mgr_blockers mgr1 d (lr_txnid q) (request_keys c q) in
       e = (if B = {} then None else Some DB_LOCK_NOTGRANTED) \<and> set cs = B \<and> (B \<noteq> {} \<longrightarrow> ready d mgr') \<and>
       (\<forall>d' v. mgr_held mgr' d' v = mgr_held mgr1 d' v \<union> (if B = {} \<and> d' = d \<and> v = lr_txnid q then request_keys c q else {})))"
proof -
  obtain m where m: "manager_ok mgr" "m \<in> set (m_locktree_map mgr)" "ml_dict m = d" "lt_cmp (ml_tree m) = c" "ml_info m = info" by (rule at_treeE [OF assms(1)])
  have rng: "range_ok (lt_cmp (ml_tree m)) (lr_left_key q) (lr_right_key q)" using assms(3) m(4) by (simp add: request_ok_def)
  have cs0: "txnid_set_ok txnid_set_create" by (simp add: txnid_set_create_def)
  obtain mgr1 calls e cs mgr' where t: "try_acquire_lock junk d True (lr_txnid q) (lr_left_key q) (lr_right_key q) txnid_set_create (lr_big_txn q) mgr = Some (e, cs, calls, mgr')"
    "manager_ok mgr1" "grows mgr mgr1" "manager_ok mgr'" "mgr_sig mgr' = mgr_sig mgr" "m_max_lock_memory mgr' = m_max_lock_memory mgr"
    "over_limit (lr_big_txn q) mgr1 \<longrightarrow> e = Some TOKUDB_OUT_OF_LOCKS \<and> cs = txnid_set_create \<and> mgr' = mgr1"
    "\<not> over_limit (lr_big_txn q) mgr1 \<longrightarrow> (let K = interval_keys (lt_cmp (ml_tree m)) (keyof (lr_left_key q), keyof (lr_right_key q)); B = mgr_blockers mgr1 d (lr_txnid q) K in
       e = (if B = {} then None else Some DB_LOCK_NOTGRANTED) \<and> txnid_set_ok cs \<and> set cs = set txnid_set_create \<union> B \<and>
       (\<forall>d' v. mgr_held mgr' d' v = mgr_held mgr1 d' v \<union> (if B = {} \<and> d' = d \<and> v = lr_txnid q then K else {})) \<and>
       (B \<noteq> {} \<longrightarrow> (\<exists>m'\<in>set (m_locktree_map mgr'). ml_dict m' = d \<and> m_sto_txnid (ml_tree m') = TXNID_NONE)))"
    by (rule try_acquire_ok [OF m(1) assms(2) m(2,3) rng cs0, where u = "lr_txnid q" and junk = junk and big_txn = "lr_big_txn q"])
  have "at_tree d c info mgr'" by (rule at_tree_sig [OF assms(1) t(4,5)])
  moreover have "refs_room mgr'" using refs_room_sig [OF t(5)] assms(2) by simp
  ultimately show thesis using t(1,3,6-8) m(4)
    by (intro that [of e cs calls mgr' mgr1]) (simp_all add: Let_def request_keys_def ready_def txnid_set_create_def)
qed

lemma mgr_blockers_held: "(\<forall>d' v. mgr_held mgr' d' v = mgr_held mgr d' v) \<Longrightarrow> mgr_blockers mgr' d u K = mgr_blockers mgr d u K"
  by (simp add: mgr_blockers_def)

text \<open>The part of \<open>start\<close> that deals with a request that was not granted.\<close>

lemma start_blocked:
  assumes "at_tree d c info mgr" "info_ok c info" "ready d mgr" "request_ok c req" "lr_txnid req \<notin> lr_txnid ` set (pending_lock_requests info)"
    and "set cs = mgr_blockers mgr d (lr_txnid req) (request_keys c req)" "lr_state req = PENDING"
  defines "W \<equiv> waits d c (insert req (set (pending_lock_requests info))) mgr"
  obtains mgr1 info1 mgr2 where "on_info d (insert_into_lock_requests req) mgr = Some mgr1" "lt_info d mgr1 = Some info1"
    "deadlock_exists d (pending_lock_requests info1) req cs mgr1 = Some ((lr_txnid req, lr_txnid req) \<in> W\<^sup>+, mgr2)"
    "at_tree d c info1 mgr2" "info_ok c info1" "ready d mgr2" "same_locks mgr mgr2" "set (pending_lock_requests info1) = insert req (set (pending_lock_requests info))"
proof -
  obtain info1 where i: "insert_into_lock_requests req info = Some info1" "info_ok c info1" "set (pending_lock_requests info1) = insert req (set (pending_lock_requests info))"
    by (rule insert_request_ok [OF assms(2,7,4,5)])
  obtain mgr1 where o: "on_info d (insert_into_lock_requests req) mgr = Some mgr1" "at_tree d c info1 mgr1" "same_locks mgr mgr1" "ready d mgr1 = ready d mgr"
    by (rule on_info_ok [where f = "insert_into_lock_requests req", OF assms(1) i(1)])
  have rd: "ready d mgr1" using o(4) assms(3) by simp
  have q: "req \<in> set (pending_lock_requests info1)" using i(3) by simp
  have cs: "set cs = mgr_blockers mgr1 d (lr_txnid req) (request_keys c req)" using assms(6) same_locks_blockers [OF o(3)] by simp
  have W: "waits d c (set (pending_lock_requests info1)) mgr1 = W" unfolding W_def i(3) by (rule waits_same [OF o(3)])
  obtain mgr2 where x: "deadlock_exists d (pending_lock_requests info1) req cs mgr1 = Some ((lr_txnid req, lr_txnid req) \<in> W\<^sup>+, mgr2)"
    "at_tree d c info1 mgr2" "ready d mgr2" "same_locks mgr1 mgr2"
    by (rule deadlock_exists_ok [OF i(2) o(2) rd q cs, unfolded W])
  show thesis by (rule that [OF o(1) lt_info_ok [OF o(2)] x(1,2) i(2) x(3) same_locks_trans [OF o(3) x(4)] i(3)])
qed

text \<open>A request that joined the pending ones can be taken back.\<close>

lemma withdraw_ok:
  assumes "at_tree d c info1 mgr" "info_ok c info1" "set (pending_lock_requests info1) = insert q P" "lr_txnid q \<notin> lr_txnid ` P"
  obtains info2 mgr' where "on_info d (remove_from_lock_requests q) mgr = Some mgr'" "at_tree d c info2 mgr'" "info_ok c info2" "same_locks mgr mgr'"
    "set (pending_lock_requests info2) = P"
proof -
  obtain us p ws where split: "pending_lock_requests info1 = us @ p # ws" "p = q" using assms(3) by (metis insertI1 split_list)
  have pid: "lr_txnid p = lr_txnid q" using split(2) by simp
  obtain info2 where r: "remove_from_lock_requests q info1 = Some info2" "info_ok c info2" "pending_lock_requests info2 = us @ ws"
    by (rule remove_request_ok [OF assms(2) split(1) pid])
  obtain mgr' where o: "on_info d (remove_from_lock_requests q) mgr = Some mgr'" "at_tree d c info2 mgr'" "same_locks mgr mgr'"
    by (rule on_info_ok [where f = "remove_from_lock_requests q", OF assms(1) r(1)])
  have ids: "distinct (map lr_txnid (pending_lock_requests info1))" using assms(2) unfolding info_ok_def sorted_by_def
    by (simp add: sorted_wrt_map [symmetric] strict_sorted_iff)
  have "lr_txnid q \<notin> lr_txnid ` (set us \<union> set ws)" using ids unfolding split(1) split(2) by auto
  then have "q \<notin> set us \<union> set ws" by (metis imageI)
  moreover have "insert q (set us \<union> set ws) = insert q P" using assms(3) unfolding split(1) split(2) by auto
  moreover have "q \<notin> P" using assms(4) by (metis imageI)
  ultimately have "set (pending_lock_requests info2) = P" unfolding r(3) set_append by (metis insert_ident)
  then show thesis by (rule that [OF o(1,2) r(2) o(3)])
qed

text \<open>The start of a request that others block.\<close>

lemma request_start_blocked:
  assumes "try_acquire_lock junk d True (lr_txnid req) (lr_left_key req) (lr_right_key req) txnid_set_create (lr_big_txn req) mgr = Some (Some DB_LOCK_NOTGRANTED, cs, calls, mgr1)"
    and "at_tree d c info mgr1" "info_ok c info" "ready d mgr1" "request_ok c req" "lr_txnid req \<notin> lr_txnid ` set (pending_lock_requests info)"
    and B: "set cs = mgr_blockers mgr1 d (lr_txnid req) (request_keys c req)" "set cs \<noteq> {}"
  shows "\<exists>r req' mgr' info'. request_start junk d now req mgr = Some (Some r, req', calls, mgr') \<and> at_tree d c info' mgr' \<and> info_ok c info' \<and>
    (let u = lr_txnid req; pending = set (pending_lock_requests info) in
     mgr_blockers mgr' d u (request_keys c req) \<noteq> {} \<and>
       (if (u, u) \<in> (waits d c (insert req pending) mgr')\<^sup>+ then r = DB_LOCK_DEADLOCK \<and> lr_state req' = COMPLETE \<and> set (pending_lock_requests info') = pending
        else r = DB_LOCK_NOTGRANTED \<and> lr_state req' = PENDING \<and> set (pending_lock_requests info') = insert req' pending))"
proof -
  let ?u = "lr_txnid req" and ?K = "request_keys c req" and ?ps = "set (pending_lock_requests info)"
  have type: "lr_type req = WRITE \<or> lr_type req = READ" using assms(5) by (simp add: request_ok_def)
  obtain c0 where c0: "txnid_set_get cs 0 = Some c0" using txnid_set_get_first [of cs] B(2) by auto
  let ?q = "(copy_keys req)\<lparr>lr_state := PENDING, lr_start_time := now, lr_conflicting_txnid := c0\<rparr>"
  have q: "lr_txnid ?q = ?u" "request_keys c ?q = ?K" "lr_state ?q = PENDING" by (simp_all add: request_keys_def copy_keys_ok(3) [of c req, unfolded request_keys_def])
  have qok: "request_ok c ?q" using copy_keys_range assms(5) by (simp add: request_ok_def)
  have new: "lr_txnid ?q \<notin> lr_txnid ` ?ps" unfolding q(1) by (rule assms(6))
  obtain mgr2 info1 mgr3 where b: "on_info d (insert_into_lock_requests ?q) mgr1 = Some mgr2" "lt_info d mgr2 = Some info1"
    "deadlock_exists d (pending_lock_requests info1) ?q cs mgr2 = Some ((?u, ?u) \<in> (waits d c (insert ?q ?ps) mgr1)\<^sup>+, mgr3)"
    "at_tree d c info1 mgr3" "info_ok c info1" "ready d mgr3" "same_locks mgr1 mgr3" "set (pending_lock_requests info1) = insert ?q ?ps"
    by (rule start_blocked [OF assms(2-4) qok new, unfolded q, OF B(1) refl])
  have W: "waits d c (insert ?q ?ps) mgr1 = waits d c (insert req ?ps) mgr1" by (rule waits_cong [OF q(1,2)])
  have same: "waits d c (insert req ?ps) mgr' = waits d c (insert req ?ps) mgr1" "mgr_blockers mgr' d ?u ?K \<noteq> {}" if "same_locks mgr1 mgr'" for mgr'
    using waits_same [OF that] same_locks_blockers [OF that] B by simp_all
  show ?thesis
  proof (cases "(?u, ?u) \<in> (waits d c (insert req ?ps) mgr1)\<^sup>+")
    case False
    have "request_start junk d now req mgr = Some (Some DB_LOCK_NOTGRANTED, ?q, calls, mgr3)"
      using assms(1) type c0 b(1-3) False W by (simp add: request_start_def Let_def)
    then show ?thesis using b(4,5,8) False same [OF b(7)]
      by (intro exI [of _ DB_LOCK_NOTGRANTED] exI [of _ ?q] exI [of _ mgr3] exI [of _ info1] conjI) (simp_all add: Let_def)
  next
    case True
    obtain info2 mgr4 where o: "on_info d (remove_from_lock_requests ?q) mgr3 = Some mgr4" "at_tree d c info2 mgr4" "info_ok c info2" "same_locks mgr3 mgr4"
      "set (pending_lock_requests info2) = ?ps"
      by (rule withdraw_ok [OF b(4,5,8) new])
    have "request_start junk d now req mgr = Some (Some DB_LOCK_DEADLOCK, complete (Some DB_LOCK_DEADLOCK) ?q, calls, mgr4)"
      using assms(1) type c0 b(1-3) True W o(1) by (simp add: request_start_def Let_def)
    then show ?thesis using o(2,3,5) True same [OF same_locks_trans [OF b(7) o(4)]]
      by (intro exI [of _ DB_LOCK_DEADLOCK] exI [of _ "complete (Some DB_LOCK_DEADLOCK) ?q"] exI [of _ mgr4] exI [of _ info2] conjI) (simp_all add: Let_def complete_def)
  qed
qed

text \<open>
  C36. Starting a request for a lock: no assertion fires, whatever the locks and the pending requests are. It is granted and complete if nobody blocks it. If it fails
  for lack of memory, it is complete and the limit is reached. If it is blocked, it joins the pending requests exactly if no deadlock comes of that, that is, if its transaction would not wait for itself
  in the relation of waiting that the locks and all pending requests define; otherwise it is complete with \<open>DB_LOCK_DEADLOCK\<close> and the pending requests are as before.
\<close>

theorem request_start_correct:
  assumes "at_tree d c info mgr" "info_ok c info" "refs_room mgr" "request_ok c req" "lr_txnid req \<notin> lr_txnid ` set (pending_lock_requests info)"
  shows "\<exists>r req' calls mgr' info'. request_start junk d now req mgr = Some (r, req', calls, mgr') \<and> at_tree d c info' mgr' \<and> info_ok c info' \<and>
    (let u = lr_txnid req; keys = request_keys c req; pending = set (pending_lock_requests info); W = waits d c (insert req pending) mgr' in
       if r = None then keys \<subseteq> mgr_held mgr' d u \<and> info' = info \<and> lr_state req' = COMPLETE
       else if r = Some TOKUDB_OUT_OF_LOCKS then over_limit (lr_big_txn req) mgr' \<and> info' = info \<and> lr_state req' = COMPLETE
       else mgr_blockers mgr' d u keys \<noteq> {} \<and>
         (if (u, u) \<in> W\<^sup>+ then r = Some DB_LOCK_DEADLOCK \<and> lr_state req' = COMPLETE \<and> set (pending_lock_requests info') = pending
          else r = Some DB_LOCK_NOTGRANTED \<and> lr_state req' = PENDING \<and> set (pending_lock_requests info') = insert req' pending))"
proof -
  let ?u = "lr_txnid req" and ?K = "request_keys c req" and ?ps = "pending_lock_requests info"
  have type: "lr_type req = WRITE \<or> lr_type req = READ" using assms(4) by (simp add: request_ok_def)
  obtain mgr1 e cs calls mgr' where t: "try_acquire_lock junk d True ?u (lr_left_key req) (lr_right_key req) txnid_set_create (lr_big_txn req) mgr = Some (e, cs, calls, mgr')"
    "grows mgr mgr1" "at_tree d c info mgr'" "refs_room mgr'" "m_max_lock_memory mgr' = m_max_lock_memory mgr"
    "over_limit (lr_big_txn req) mgr1 \<longrightarrow> e = Some TOKUDB_OUT_OF_LOCKS \<and> cs = [] \<and> mgr' = mgr1"
    "\<not> over_limit (lr_big_txn req) mgr1 \<longrightarrow> (let B = mgr_blockers mgr1 d ?u ?K in
       e = (if B = {} then None else Some DB_LOCK_NOTGRANTED) \<and> set cs = B \<and> (B \<noteq> {} \<longrightarrow> ready d mgr') \<and>
       (\<forall>d' v. mgr_held mgr' d' v = mgr_held mgr1 d' v \<union> (if B = {} \<and> d' = d \<and> v = ?u then ?K else {})))"
    by (rule try_request [OF assms(1,3,4), where junk = junk])
  consider (out) "over_limit (lr_big_txn req) mgr1" | (ok) "\<not> over_limit (lr_big_txn req) mgr1" "mgr_blockers mgr1 d ?u ?K = {}"
    | (blocked) "\<not> over_limit (lr_big_txn req) mgr1" "mgr_blockers mgr1 d ?u ?K \<noteq> {}" by blast
  then show ?thesis
  proof cases
    case out
    then have "request_start junk d now req mgr = Some (e, complete e req, calls, mgr')" "e = Some TOKUDB_OUT_OF_LOCKS" "mgr' = mgr1" using t(1,6) type by (simp_all add: request_start_def)
    then show ?thesis using t(3) assms(2) out by (intro exI [of _ e] exI [of _ "complete e req"] exI [of _ calls] exI [of _ mgr'] exI [of _ info] conjI) (simp_all add: complete_def)
  next
    case ok
    then have e: "e = None" and h: "mgr_held mgr' d ?u = mgr_held mgr1 d ?u \<union> ?K" using t(7) by (simp_all add: Let_def)
    have "request_start junk d now req mgr = Some (None, complete None req, calls, mgr')" using t(1) e type by (simp add: request_start_def)
    then show ?thesis using t(3) assms(2) h by (intro exI [of _ None] exI [of _ "complete None req"] exI [of _ calls] exI [of _ mgr'] exI [of _ info] conjI) (simp_all add: complete_def)
  next
    case blocked
    have f: "e = Some DB_LOCK_NOTGRANTED" "set cs = mgr_blockers mgr1 d ?u ?K" "ready d mgr'" "\<forall>d' v. mgr_held mgr' d' v = mgr_held mgr1 d' v"
      using blocked t(7) by (simp_all add: Let_def)
    have B: "set cs = mgr_blockers mgr' d ?u ?K" "set cs \<noteq> {}" using f(2) mgr_blockers_held [OF f(4)] blocked(2) by simp_all
    obtain r req' mgr2 info' where b: "request_start junk d now req mgr = Some (Some r, req', calls, mgr2)" "at_tree d c info' mgr2" "info_ok c info'"
      "let u = ?u; pending = set ?ps in mgr_blockers mgr2 d u ?K \<noteq> {} \<and>
         (if (u, u) \<in> (waits d c (insert req pending) mgr2)\<^sup>+ then r = DB_LOCK_DEADLOCK \<and> lr_state req' = COMPLETE \<and> set (pending_lock_requests info') = pending
          else r = DB_LOCK_NOTGRANTED \<and> lr_state req' = PENDING \<and> set (pending_lock_requests info') = insert req' pending)"
      using request_start_blocked [OF t(1) [unfolded f(1)] t(3) assms(2) f(3) assms(4,5) B] by blast
    then show ?thesis
      by (intro exI [of _ "Some r"] exI [of _ req'] exI [of _ calls] exI [of _ mgr2] exI [of _ info'] conjI) (auto simp: Let_def split: if_splits)
  qed
qed

text \<open>A request for the witnesses.\<close>

definition demo_request :: "lr_state \<Rightarrow> lock_request" where
  "demo_request st = \<lparr>lr_txnid = 9, lr_conflicting_txnid = TXNID_NONE, lr_start_time = 0, lr_left_key = Dbt 1 [3], lr_right_key = Dbt 2 [5],
     lr_type = WRITE, lr_complete_r = None, lr_state = st, lr_big_txn = False, lr_extra = 0\<rparr>"

lemma demo_request_ok: "request_ok builtin_comparator (demo_request st)"
  using demo_range_ok(1) by (simp add: request_ok_def demo_request_def)

lemma demo_request_keys: "Point [4] \<in> request_keys builtin_comparator (demo_request st)"
  using demo_inside by (simp add: request_keys_def demo_request_def)

lemma demo_at_tree: "at_tree 7 builtin_comparator info (demo_manager_with info)"
  using demo_manager_ok(1) demo_manager_tree [of info] unfolding at_tree_def by metis

lemma demo_request_granted:
  obtains cs calls mgr' where "try_acquire_lock junk 7 True 9 (Dbt 1 [3]) (Dbt 2 [5]) txnid_set_create False (demo_manager_with info) = Some (None, cs, calls, mgr')"
    "at_tree 7 builtin_comparator info mgr'"
proof -
  obtain m where m: "m \<in> set (m_locktree_map (demo_manager_with info))" "ml_dict m = 7" "lt_cmp (ml_tree m) = builtin_comparator" by (rule demo_manager_tree [of info])
  have rng: "range_ok (lt_cmp (ml_tree m)) (Dbt 1 [3]) (Dbt 2 [5])" unfolding m(3) by (rule demo_range_ok(1))
  have cs0: "txnid_set_ok txnid_set_create" by (simp add: txnid_set_create_def)
  have lim: "\<not> over_limit False (demo_manager_with info)" using demo_manager_ok(4) [of info] by (auto simp: over_limit_def)
  have none: "mgr_blockers (demo_manager_with info) 7 9 K = {}" for K by (simp add: mgr_blockers_def demo_manager_ok(3))
  obtain mgr1 calls e cs mgr' where t: "try_acquire_lock junk 7 True 9 (Dbt 1 [3]) (Dbt 2 [5]) txnid_set_create False (demo_manager_with info) = Some (e, cs, calls, mgr')"
    "if over_limit False (demo_manager_with info) then map fst calls = mgr_dicts (demo_manager_with info) \<and> reported calls mgr1 \<and> all_escalated (demo_manager_with info) mgr1 else calls = [] \<and> mgr1 = demo_manager_with info"
    "manager_ok mgr'" "mgr_sig mgr' = mgr_sig (demo_manager_with info)"
    "\<not> over_limit False mgr1 \<longrightarrow> (let K = interval_keys (lt_cmp (ml_tree m)) (keyof (Dbt 1 [3]), keyof (Dbt 2 [5])); B = mgr_blockers mgr1 7 9 K in
       e = (if B = {} then None else Some DB_LOCK_NOTGRANTED) \<and> txnid_set_ok cs \<and> set cs = set txnid_set_create \<union> B \<and>
       (\<forall>d' v. mgr_held mgr' d' v = mgr_held mgr1 d' v \<union> (if B = {} \<and> d' = 7 \<and> v = 9 then K else {})) \<and>
       (B \<noteq> {} \<longrightarrow> (\<exists>m'\<in>set (m_locktree_map mgr'). ml_dict m' = 7 \<and> m_sto_txnid (ml_tree m') = TXNID_NONE)))"
    by (rule try_acquire_ok [OF demo_manager_ok(1,2) m(1,2) rng cs0, where u = 9 and junk = junk and big_txn = False])
  have "e = None" using t(2,5) lim none by (simp add: Let_def)
  then show thesis using t(1) at_tree_sig [OF demo_at_tree t(3,4)] by (intro that) simp_all
qed

theorem request_start_correct_witness:
  "\<exists>req calls mgr. request_start blank_record 7 0 (demo_request INITIALIZED) demo_manager = Some (None, req, calls, mgr) \<and> lr_state req = COMPLETE \<and> Point [4] \<in> mgr_held mgr 7 9"
proof -
  have info: "info_ok builtin_comparator info_init" by (simp add: info_ok_def info_init_def)
  obtain cs calls mgr where "try_acquire_lock blank_record 7 True 9 (Dbt 1 [3]) (Dbt 2 [5]) txnid_set_create False demo_manager = Some (None, cs, calls, mgr)"
    by (rule demo_request_granted [of blank_record info_init])
  then have s: "request_start blank_record 7 0 (demo_request INITIALIZED) demo_manager = Some (None, complete None (demo_request INITIALIZED), calls, mgr)"
    by (simp add: request_start_def demo_request_def)
  have new: "lr_txnid (demo_request INITIALIZED) \<notin> lr_txnid ` set (pending_lock_requests info_init)" by (simp add: info_init_def)
  from request_start_correct [OF demo_at_tree info demo_manager_ok(2) demo_request_ok new, of blank_record 0]
  have "request_keys builtin_comparator (demo_request INITIALIZED) \<subseteq> mgr_held mgr 7 (lr_txnid (demo_request INITIALIZED))" unfolding s by (auto simp: Let_def)
  then have "Point [4] \<in> mgr_held mgr 7 9" using demo_request_keys by (auto simp: demo_request_def)
  then show ?thesis using s by (simp add: complete_def)
qed

end
