(* ===== verification/Lock_Request_Retry.thy ===== *)
theory Lock_Request_Retry
  imports Lock_Request_Props
begin

text \<open>
  Retrying the pending requests of a lock tree: the loop ends, and when it returns, what is still pending is still blocked and everything else has been granted.
\<close>

subsection \<open>One retry\<close>

definition blocked :: "64 word \<Rightarrow> comparator \<Rightarrow> locktree_manager \<Rightarrow> lock_request \<Rightarrow> bool" where
  "blocked d c mgr q \<longleftrightarrow> mgr_blockers mgr d (lr_txnid q) (request_keys c q) \<noteq> {}"

definition claims :: "comparator \<Rightarrow> lt_lock_request_info \<Rightarrow> (TXNID \<times> endpoint set) set" where
  "claims c info = (\<lambda>q. (lr_txnid q, request_keys c q)) ` set (pending_lock_requests info)"

text \<open>Requests leave the pending ones only with their locks.\<close>

definition progress :: "64 word \<Rightarrow> comparator \<Rightarrow> locktree_manager \<Rightarrow> lt_lock_request_info \<Rightarrow> locktree_manager \<Rightarrow> lt_lock_request_info \<Rightarrow> bool" where
  "progress d c mgr info mgr' info' \<longleftrightarrow> (\<forall>u. mgr_held mgr d u \<subseteq> mgr_held mgr' d u) \<and> claims c info' \<subseteq> claims c info \<and>
     (\<forall>u K. (u, K) \<in> claims c info - claims c info' \<longrightarrow> K \<subseteq> mgr_held mgr' d u)"

lemma progress_refl: "progress d c mgr info mgr info"
  by (simp add: progress_def)

lemma progress_trans:
  assumes "progress d c m1 i1 m2 i2" "progress d c m2 i2 m3 i3"
  shows "progress d c m1 i1 m3 i3"
proof -
  have "K \<subseteq> mgr_held m3 d u" if "(u, K) \<in> claims c i1 - claims c i3" for u K
    using that assms unfolding progress_def by (cases "(u, K) \<in> claims c i2") blast+
  then show ?thesis using assms unfolding progress_def by blast
qed

lemma blocked_mono: "(\<And>u. mgr_held mgr d u \<subseteq> mgr_held mgr' d u) \<Longrightarrow> blocked d c mgr q \<Longrightarrow> blocked d c mgr' q"
  unfolding blocked_def mgr_blockers_def by blast

text \<open>The state of the loop: the requests before the index are blocked.\<close>

definition retrying :: "64 word \<Rightarrow> comparator \<Rightarrow> nat \<Rightarrow> locktree_manager \<Rightarrow> lt_lock_request_info \<Rightarrow> bool" where
  "retrying d c i mgr info \<longleftrightarrow> at_tree d c info mgr \<and> info_ok c info \<and> refs_room mgr \<and> i \<le> length (pending_lock_requests info) \<and>
     (\<forall>q\<in>set (take i (pending_lock_requests info)). blocked d c mgr q)"

text \<open>The retry of a request that the memory limit stops: the code then reads the first element of an empty set of conflicts, which fails an assertion.\<close>

definition stopped :: "rb_record \<Rightarrow> 64 word \<Rightarrow> lock_request \<Rightarrow> locktree_manager \<Rightarrow> bool" where
  "stopped junk d q mgr \<longleftrightarrow> (\<exists>calls mgr'. try_acquire_lock junk d True (lr_txnid q) (lr_left_key q) (lr_right_key q) txnid_set_create (lr_big_txn q) mgr =
     Some (Some TOKUDB_OUT_OF_LOCKS, txnid_set_create, calls, mgr'))"

lemma put_request_ok:
  fixes c0 :: TXNID
  assumes "info_ok c info" "i < length (pending_lock_requests info)"
  defines "q \<equiv> (pending_lock_requests info ! i)\<lparr>lr_conflicting_txnid := c0\<rparr>"
  shows "info_ok c (put_request i q info)" "claims c (put_request i q info) = claims c info"
proof -
  let ?ps = "pending_lock_requests info"
  have key: "lr_txnid q = lr_txnid (?ps ! i)" "request_keys c q = request_keys c (?ps ! i)" "lr_state q = lr_state (?ps ! i)" "request_ok c q = request_ok c (?ps ! i)"
    by (simp_all add: q_def request_keys_def request_ok_def)
  have at: "?ps ! i \<in> set ?ps" using assms(2) by simp
  have so: "map lr_txnid (?ps[i := q]) = map lr_txnid ?ps" using key(1) assms(2) by (simp add: map_update list_update_same_conv)
  have "sorted_by lr_txnid (?ps[i := q])" using assms(1) unfolding info_ok_def sorted_by_def sorted_wrt_map [symmetric, of "(<)" lr_txnid] so by simp
  moreover have "lr_state p = PENDING \<and> request_ok c p" if "p \<in> set (?ps[i := q])" for p
    using subsetD [OF set_update_subset_insert that] key at assms(1) by (auto simp: info_ok_def)
  ultimately show "info_ok c (put_request i q info)" using assms(1) by (simp add: info_ok_def put_request_def)
  have "map (\<lambda>q. (lr_txnid q, request_keys c q)) (?ps[i := q]) = map (\<lambda>q. (lr_txnid q, request_keys c q)) ?ps"
    using key(1,2) assms(2) by (simp add: map_update list_update_same_conv)
  then show "claims c (put_request i q info) = claims c info" unfolding claims_def put_request_def set_map [symmetric] by simp
qed

lemma retry_step:
  assumes "retrying d c i mgr info" "i < length (pending_lock_requests info)"
  obtains (out) "stopped junk d (pending_lock_requests info ! i) mgr" "retry_next junk d (i, mgr) = None"
  | (step) j mgr' info' where "retry_next junk d (i, mgr) = Some (j, mgr')" "retrying d c j mgr' info'" "progress d c mgr info mgr' info'"
      "length (pending_lock_requests info') - j < length (pending_lock_requests info) - i"
proof -
  let ?ps = "pending_lock_requests info"
  let ?q = "?ps ! i"
  let ?u = "lr_txnid ?q" and ?K = "request_keys c ?q"
  have tree: "at_tree d c info mgr" and iok: "info_ok c info" and room: "refs_room mgr" and before: "\<forall>q\<in>set (take i ?ps). blocked d c mgr q"
    using assms(1) by (simp_all add: retrying_def)
  have pend: "lr_state ?q = PENDING" and qok: "request_ok c ?q" using iok assms(2) by (simp_all add: info_ok_def)
  obtain mgr1 e cs calls mgr2 where t: "try_acquire_lock junk d True ?u (lr_left_key ?q) (lr_right_key ?q) txnid_set_create (lr_big_txn ?q) mgr = Some (e, cs, calls, mgr2)"
    "grows mgr mgr1" "at_tree d c info mgr2" "refs_room mgr2" "m_max_lock_memory mgr2 = m_max_lock_memory mgr"
    "over_limit (lr_big_txn ?q) mgr1 \<longrightarrow> e = Some TOKUDB_OUT_OF_LOCKS \<and> cs = [] \<and> mgr2 = mgr1"
    "\<not> over_limit (lr_big_txn ?q) mgr1 \<longrightarrow> (let B = mgr_blockers mgr1 d ?u ?K in
       e = (if B = {} then None else Some DB_LOCK_NOTGRANTED) \<and> set cs = B \<and> (B \<noteq> {} \<longrightarrow> ready d mgr2) \<and>
       (\<forall>d' v. mgr_held mgr2 d' v = mgr_held mgr1 d' v \<union> (if B = {} \<and> d' = d \<and> v = ?u then ?K else {})))"
    by (rule try_request [OF tree room qok, where junk = junk])
  have info: "lt_info d mgr = Some info" by (rule lt_info_ok [OF tree])
  consider (limit) "over_limit (lr_big_txn ?q) mgr1" | (free) "\<not> over_limit (lr_big_txn ?q) mgr1" "mgr_blockers mgr1 d ?u ?K = {}"
    | (held) "\<not> over_limit (lr_big_txn ?q) mgr1" "mgr_blockers mgr1 d ?u ?K \<noteq> {}" by blast
  then show thesis
  proof cases
    case limit
    then have e: "e = Some TOKUDB_OUT_OF_LOCKS" "cs = []" using t(6) by simp_all
    have "stopped junk d ?q mgr" using t(1) e by (auto simp: stopped_def txnid_set_create_def)
    moreover have "request_retry junk d i ?q mgr = None" using t(1) e pend by (simp add: request_retry_def txnid_set_get_def omt_fetch_def)
    then have "retry_next junk d (i, mgr) = None" using info assms(2) by (simp add: retry_next_def)
    ultimately show thesis by (rule out)
  next
    case free
    have f: "e = None" "\<forall>v. mgr_held mgr2 d v = mgr_held mgr1 d v \<union> (if v = ?u then ?K else {})" using free t(7) by (simp_all add: Let_def)
    have split: "?ps = take i ?ps @ ?q # drop (Suc i) ?ps" by (rule id_take_nth_drop [OF assms(2)])
    obtain info' where r: "remove_from_lock_requests ?q info = Some info'" "info_ok c info'" "pending_lock_requests info' = take i ?ps @ drop (Suc i) ?ps"
      by (rule remove_request_ok [OF iok split refl])
    obtain mgr' where o: "on_info d (remove_from_lock_requests ?q) mgr2 = Some mgr'" "at_tree d c info' mgr'" "same_locks mgr2 mgr'"
      by (rule on_info_ok [where f = "remove_from_lock_requests ?q", OF t(3) r(1)])
    have up: "mgr_held mgr d v \<subseteq> mgr_held mgr' d v" for v using t(2) f(2) o(3) by (auto simp: grows_def same_locks_def)
    have K: "?K \<subseteq> mgr_held mgr' d ?u" using f(2) o(3) by (simp add: same_locks_def)
    have "retry_next junk d (i, mgr) = Some (i, mgr')"
      using info assms(2) t(1) f(1) o(1) pend by (simp add: retry_next_def request_retry_def)
    moreover have "retrying d c i mgr' info'" using o r(2,3) t(4) before blocked_mono [OF up] assms(2) by (simp add: retrying_def same_locks_def)
    moreover have "claims c info = insert (?u, ?K) (claims c info')" unfolding claims_def r(3) by (subst split) auto
    then have "progress d c mgr info mgr' info'" using up K by (auto simp: progress_def)
    moreover have "length (pending_lock_requests info') - i < length ?ps - i" using r(3) assms(2) by simp
    ultimately show thesis by (rule step)
  next
    case held
    have f: "e = Some DB_LOCK_NOTGRANTED" "set cs = mgr_blockers mgr1 d ?u ?K" "\<forall>d' v. mgr_held mgr2 d' v = mgr_held mgr1 d' v" using held t(7) by (simp_all add: Let_def)
    obtain c0 where c0: "txnid_set_get cs 0 = Some c0" using txnid_set_get_first [of cs] f(2) held(2) by auto
    let ?q' = "?q\<lparr>lr_conflicting_txnid := c0\<rparr>"
    let ?info = "put_request i ?q' info"
    note pr = put_request_ok [OF iok assms(2), of c0]
    obtain mgr' where o: "on_info d (\<lambda>info. Some (put_request i ?q' info)) mgr2 = Some mgr'" "at_tree d c ?info mgr'" "same_locks mgr2 mgr'"
      by (rule on_info_ok [where f = "\<lambda>info. Some (put_request i ?q' info)", OF t(3) refl])
    have up: "mgr_held mgr d v \<subseteq> mgr_held mgr' d v" for v using t(2) f(3) o(3) by (auto simp: grows_def same_locks_def)
    have "mgr_blockers mgr' d ?u ?K = mgr_blockers mgr1 d ?u ?K" using f(3) o(3) by (simp add: mgr_blockers_def same_locks_def)
    then have bq: "blocked d c mgr' ?q'" using held(2) by (simp add: blocked_def request_keys_def)
    have "retry_next junk d (i, mgr) = Some (Suc i, mgr')"
      using info assms(2) t(1) f(1) o(1) pend c0 by (simp add: retry_next_def request_retry_def Let_def)
    moreover have "take (Suc i) (?ps[i := ?q']) = take i ?ps @ [?q']" using assms(2) by (simp add: take_Suc_conv_app_nth)
    then have "retrying d c (Suc i) mgr' ?info" using o pr(1) t(4) before blocked_mono [OF up] bq assms(2) by (auto simp: retrying_def same_locks_def put_request_def)
    moreover have "progress d c mgr info mgr' ?info" using up pr(2) by (simp add: progress_def)
    moreover have "length (pending_lock_requests ?info) - Suc i < length ?ps - i" using assms(2) by (simp add: put_request_def)
    ultimately show thesis by (rule step)
  qed
qed

subsection \<open>The loop\<close>

abbreviation retries :: "rb_record \<Rightarrow> 64 word \<Rightarrow> ((nat \<times> locktree_manager) \<times> (nat \<times> locktree_manager)) set" where
  "retries junk d \<equiv> {(s, s'). retry_next junk d s = Some s'}"

lemma retry_loop_ok:
  "retrying d c i mgr info \<Longrightarrow> \<exists>j mgr' info'. ((i, mgr), (j, mgr')) \<in> (retries junk d)\<^sup>* \<and> retrying d c j mgr' info' \<and> progress d c mgr info mgr' info' \<and>
     (if j = length (pending_lock_requests info') then retry_loop junk d (i, mgr) = Some mgr'
      else stopped junk d (pending_lock_requests info' ! j) mgr' \<and> retry_loop junk d (i, mgr) = None)"
proof (induction "length (pending_lock_requests info) - i" arbitrary: i mgr info rule: less_induct)
  case less
  have info: "lt_info d mgr = Some info" by (rule lt_info_ok [of d c]) (use less.prems in \<open>simp add: retrying_def\<close>)
  show ?case
  proof (cases "i < length (pending_lock_requests info)")
    case False
    then have "i = length (pending_lock_requests info)" using less.prems by (simp add: retrying_def)
    moreover have "retry_loop junk d (i, mgr) = Some mgr" using False info by (subst retry_loop.simps) simp
    ultimately show ?thesis using less.prems progress_refl by (intro exI [of _ i] exI [of _ mgr] exI [of _ info]) simp
  next
    case True
    show ?thesis using less.prems True
    proof (cases rule: retry_step [where junk = junk])
      case out
      then have "retry_loop junk d (i, mgr) = None" using True info by (subst retry_loop.simps) simp
      then show ?thesis using less.prems progress_refl True out(1) by (intro exI [of _ i] exI [of _ mgr] exI [of _ info]) simp
    next
      case (step i1 mgr1 info1)
      have eq: "retry_loop junk d (i, mgr) = retry_loop junk d (i1, mgr1)" using True info step(1) by (subst retry_loop.simps) simp
      obtain j mgr' info' where l: "((i1, mgr1), (j, mgr')) \<in> (retries junk d)\<^sup>*" "retrying d c j mgr' info'" "progress d c mgr1 info1 mgr' info'"
        "if j = length (pending_lock_requests info') then retry_loop junk d (i1, mgr1) = Some mgr'
         else stopped junk d (pending_lock_requests info' ! j) mgr' \<and> retry_loop junk d (i1, mgr1) = None"
        using less.hyps [OF step(4,2)] by (elim exE conjE) (rule that)
      have first: "((i, mgr), (i1, mgr1)) \<in> retries junk d" using step(1) by simp
      note facts = converse_rtrancl_into_rtrancl [OF first l(1)] l(2) progress_trans [OF step(3) l(3)] l(4) [folded eq]
      show ?thesis by (intro exI [of _ j] exI [of _ mgr'] exI [of _ info'] conjI) (rule facts)+
    qed
  qed
qed

subsection \<open>Killing a waiter\<close>

lemma kill_waiter_ok:
  assumes "at_tree d c info mgr" "info_ok c info"
  obtains (none) "kill_waiter d extra mgr = Some (None, mgr)" "\<forall>q\<in>set (pending_lock_requests info). lr_extra q \<noteq> extra"
  | (killed) us q ws mgr' info' where "kill_waiter d extra mgr = Some (Some (complete (Some DB_LOCK_NOTGRANTED) q), mgr')" "pending_lock_requests info = us @ q # ws"
      "lr_extra q = extra" "\<forall>p\<in>set us. lr_extra p \<noteq> extra" "pending_lock_requests info' = us @ ws" "at_tree d c info' mgr'" "info_ok c info'" "same_locks mgr mgr'"
proof (cases "find (\<lambda>request. lr_extra request = extra) (pending_lock_requests info)")
  case None
  then have "kill_waiter d extra mgr = Some (None, mgr)" using lt_info_ok [OF assms(1)] by (simp add: kill_waiter_def)
  then show thesis by (rule none) (use None in \<open>simp add: find_None_iff\<close>)
next
  case (Some q)
  have ex: "\<exists>p\<in>set (pending_lock_requests info). lr_extra p = extra" using Some unfolding find_Some_iff by (metis nth_mem)
  obtain us p ws where s: "pending_lock_requests info = us @ p # ws" "lr_extra p = extra" "\<forall>p\<in>set us. lr_extra p \<noteq> extra"
    using split_list_first_prop [OF ex] by blast
  have "find (\<lambda>request. lr_extra request = extra) (us @ p # ws) = Some p" using s(2,3) by (induction us) simp_all
  then have qp: "q = p" using Some s(1) by simp
  obtain info' where r: "remove_from_lock_requests q info = Some info'" "info_ok c info'" "pending_lock_requests info' = us @ ws"
    by (rule remove_request_ok [OF assms(2) s(1)]) (simp_all add: qp)
  obtain mgr' where o: "on_info d (remove_from_lock_requests q) mgr = Some mgr'" "at_tree d c info' mgr'" "same_locks mgr mgr'"
    by (rule on_info_ok [where f = "remove_from_lock_requests q", OF assms(1) r(1)])
  have "kill_waiter d extra mgr = Some (Some (complete (Some DB_LOCK_NOTGRANTED) q), mgr')"
    using lt_info_ok [OF assms(1)] Some o(1) by (simp add: kill_waiter_def fail_pending_def)
  then show thesis using s o(2,3) r(2,3) qp by (intro killed) simp_all
qed

subsection \<open>Properties\<close>

text \<open>
  C37. Retrying all pending requests of a lock tree ends. Nobody loses a lock and no request appears. When the retry returns, every request that is still pending is blocked by a lock that somebody else
  holds at that moment, every other one has got its range, and \<open>should_retry_lock_requests\<close> says whether any is left. There is one exception: if a request meets the limit of the memory for locks,
  it fails without a conflict, and the first assertion that reads the conflicts stops the process.
\<close>

theorem retry_all_correct:
  assumes "at_tree d c info mgr" "info_ok c info" "refs_room mgr"
  shows "\<exists>j mgr' info'. ((0, mgr), (j, mgr')) \<in> {(s, s'). retry_next junk d s = Some s'}\<^sup>* \<and> at_tree d c info' mgr' \<and> info_ok c info' \<and> progress d c mgr info mgr' info' \<and>
    (\<forall>q\<in>set (take j (pending_lock_requests info')). blocked d c mgr' q) \<and>
    (if j = length (pending_lock_requests info') then
       \<exists>mgr''. retry_all_lock_requests_info junk d mgr = Some mgr'' \<and> same_locks mgr' mgr'' \<and>
         at_tree d c (info'\<lparr>should_retry_lock_requests := (pending_lock_requests info' \<noteq> [])\<rparr>) mgr''
     else stopped junk d (pending_lock_requests info' ! j) mgr' \<and> retry_all_lock_requests_info junk d mgr = None)"
proof -
  have start: "retrying d c 0 mgr info" using assms by (simp add: retrying_def)
  obtain j mgr' info' where l: "((0, mgr), (j, mgr')) \<in> (retries junk d)\<^sup>*" "retrying d c j mgr' info'" "progress d c mgr info mgr' info'"
    "if j = length (pending_lock_requests info') then retry_loop junk d (0, mgr) = Some mgr'
     else stopped junk d (pending_lock_requests info' ! j) mgr' \<and> retry_loop junk d (0, mgr) = None"
    using retry_loop_ok [OF start, of junk] by (elim exE conjE) (rule that)
  have tree: "at_tree d c info' mgr'" and iok: "info_ok c info'" and before: "\<forall>q\<in>set (take j (pending_lock_requests info')). blocked d c mgr' q"
    using l(2) by (simp_all add: retrying_def)
  have stop: "retry_all_lock_requests_info junk d mgr = None" if "retry_loop junk d (0, mgr) = None" using that by (simp add: retry_all_lock_requests_info_def)
  have fin: "\<exists>mgr''. retry_all_lock_requests_info junk d mgr = Some mgr'' \<and> same_locks mgr' mgr'' \<and>
         at_tree d c (info'\<lparr>should_retry_lock_requests := (pending_lock_requests info' \<noteq> [])\<rparr>) mgr''" if run: "retry_loop junk d (0, mgr) = Some mgr'"
  proof -
    let ?f = "\<lambda>info. Some (info\<lparr>should_retry_lock_requests := (length (pending_lock_requests info) > 0)\<rparr>)"
    obtain mgr'' where o: "on_info d ?f mgr' = Some mgr''" "at_tree d c (info'\<lparr>should_retry_lock_requests := (length (pending_lock_requests info') > 0)\<rparr>) mgr''" "same_locks mgr' mgr''"
      by (rule on_info_ok [where f = ?f, OF tree refl])
    then show ?thesis using run by (intro exI [of _ mgr'']) (simp add: retry_all_lock_requests_info_def)
  qed
  show ?thesis using l(1,3,4) tree iok before stop fin
    by (intro exI [of _ j] exI [of _ mgr'] exI [of _ info'] conjI) (simp_all split: if_splits)
qed

text \<open>A pending request that nobody blocks.\<close>

abbreviation demo_pending :: lt_lock_request_info where
  "demo_pending \<equiv> info_init\<lparr>pending_lock_requests := [demo_request PENDING], pending_is_empty := False\<rparr>"

lemma demo_pending_ok: "info_ok builtin_comparator demo_pending"
  using demo_request_ok by (simp add: info_ok_def info_init_def sorted_by_def demo_request_def)

lemma demo_retry_next:
  obtains mgr' info' where "retry_next junk 7 (0, demo_manager_with demo_pending) = Some (0, mgr')" "lt_info 7 mgr' = Some info'" "pending_lock_requests info' = []"
proof -
  obtain cs calls mgr1 where t: "try_acquire_lock junk 7 True 9 (Dbt 1 [3]) (Dbt 2 [5]) txnid_set_create False (demo_manager_with demo_pending) = Some (None, cs, calls, mgr1)"
    "at_tree 7 builtin_comparator demo_pending mgr1" by (rule demo_request_granted [of junk demo_pending])
  have split: "pending_lock_requests demo_pending = [] @ demo_request PENDING # []" by simp
  obtain info' where r: "remove_from_lock_requests (demo_request PENDING) demo_pending = Some info'" "pending_lock_requests info' = [] @ []"
    by (rule remove_request_ok [OF demo_pending_ok split refl])
  obtain mgr' where o: "on_info 7 (remove_from_lock_requests (demo_request PENDING)) mgr1 = Some mgr'" "at_tree 7 builtin_comparator info' mgr'"
    by (rule on_info_ok [where f = "remove_from_lock_requests (demo_request PENDING)", OF t(2) r(1)])
  have q: "lr_txnid (demo_request PENDING) = 9" "lr_left_key (demo_request PENDING) = Dbt 1 [3]" "lr_right_key (demo_request PENDING) = Dbt 2 [5]"
    "lr_big_txn (demo_request PENDING) = False" "lr_state (demo_request PENDING) = PENDING" by (simp_all add: demo_request_def)
  have "request_retry junk 7 0 (demo_request PENDING) (demo_manager_with demo_pending) = Some (None, complete None (demo_request PENDING), calls, mgr')"
    using t(1) o(1) q by (simp add: request_retry_def)
  then have "retry_next junk 7 (0, demo_manager_with demo_pending) = Some (0, mgr')" using lt_info_ok [OF demo_at_tree] by (simp add: retry_next_def)
  then show thesis using lt_info_ok [OF o(2)] r(2) by (intro that) simp_all
qed

theorem retry_all_correct_witness:
  "\<exists>mgr. retry_all_lock_requests_info blank_record 7 (demo_manager_with demo_pending) = Some mgr \<and> Point [4] \<in> mgr_held mgr 7 9"
proof -
  let ?mgr = "demo_manager_with demo_pending"
  obtain j mgr' info' where r: "((0, ?mgr), (j, mgr')) \<in> (retries blank_record 7)\<^sup>*" "at_tree 7 builtin_comparator info' mgr'"
    "progress 7 builtin_comparator ?mgr demo_pending mgr' info'"
    "if j = length (pending_lock_requests info') then
       \<exists>mgr''. retry_all_lock_requests_info blank_record 7 ?mgr = Some mgr'' \<and> same_locks mgr' mgr'' \<and>
         at_tree 7 builtin_comparator (info'\<lparr>should_retry_lock_requests := (pending_lock_requests info' \<noteq> [])\<rparr>) mgr''
     else stopped blank_record 7 (pending_lock_requests info' ! j) mgr' \<and> retry_all_lock_requests_info blank_record 7 ?mgr = None"
    using retry_all_correct [OF demo_at_tree demo_pending_ok demo_manager_ok(2), of blank_record] by (elim exE conjE) (rule that)
  obtain mgr1 info1 where n: "retry_next blank_record 7 (0, ?mgr) = Some (0, mgr1)" "lt_info 7 mgr1 = Some info1" "pending_lock_requests info1 = []" by (rule demo_retry_next)
  have stop: "retry_next blank_record 7 (0, mgr1) = None" using n(2,3) by (simp add: retry_next_def)
  have fin: "j = length (pending_lock_requests info') \<and> pending_lock_requests info' = []" using r(1)
  proof (cases rule: converse_rtranclE)
    case base
    then have at: "j = 0" "mgr' = ?mgr" by simp_all
    have "info' = demo_pending" using lt_info_ok [OF r(2)] lt_info_ok [OF demo_at_tree, of demo_pending] at(2) by simp
    then have ne: "j \<noteq> length (pending_lock_requests info')" and q: "pending_lock_requests info' ! j = demo_request PENDING" using at(1) by simp_all
    have "stopped blank_record 7 (demo_request PENDING) ?mgr" using conjunct1 [OF r(4) [unfolded if_not_P [OF ne]]] unfolding q at(2) .
    moreover obtain cs calls mgr0 where "try_acquire_lock blank_record 7 True 9 (Dbt 1 [3]) (Dbt 2 [5]) txnid_set_create False ?mgr = Some (None, cs, calls, mgr0)"
      by (rule demo_request_granted [of blank_record demo_pending])
    then have "\<not> stopped blank_record 7 (demo_request PENDING) ?mgr" by (simp add: stopped_def demo_request_def)
    ultimately show ?thesis by blast
  next
    case (step s)
    then have "(0, mgr1) = (j, mgr')" using n(1) stop by (auto elim: converse_rtranclE)
    then show ?thesis using lt_info_ok [OF r(2)] n(2,3) by simp
  qed
  note out = r(4) [unfolded if_P [OF conjunct1 [OF fin]]]
  obtain mgr'' where m: "retry_all_lock_requests_info blank_record 7 ?mgr = Some mgr''" "same_locks mgr' mgr''" using out by (elim exE conjE) (rule that)
  have "claims builtin_comparator info' = {}" using fin by (simp add: claims_def)
  moreover have "(9, request_keys builtin_comparator (demo_request PENDING)) \<in> claims builtin_comparator demo_pending" by (simp add: claims_def demo_request_def)
  ultimately have "request_keys builtin_comparator (demo_request PENDING) \<subseteq> mgr_held mgr' 7 9" using r(3) by (simp add: progress_def)
  then show ?thesis using m demo_request_keys by (auto simp: same_locks_def)
qed

end
