(* ===== verification/X1764.thy ===== *)
theory X1764
  imports Ft_Prelude
begin

text \<open>
  The checksum of blocks and messages, \<open>src/util/x1764.cc\<close>: the polynomial in 17 over the little-endian 64-bit words of the input, folded to 32 bits. The unrolled
  computation and the incremental one, which the code uses everywhere, agree with the simple one.

  A buffer and its length are the list of its bytes. \<open>toku_x1764_add\<close> reads words at unaligned addresses, which is what a little-endian load of the next bytes gives.
\<close>

subsection \<open>The simple computation\<close>

function x1764_words :: "64 word \<Rightarrow> byte list \<Rightarrow> 64 word \<times> byte list" where
  "x1764_words c buf = (if length buf \<ge> 8 then x1764_words (c * 17 + le_word (take 8 buf)) (drop 8 buf) else (c, buf))"
  by pat_completeness auto
termination by (relation "measure (\<lambda>(c, buf). length buf)") auto

declare x1764_words.simps [simp del]

fun x1764_tail :: "nat \<Rightarrow> 64 word \<Rightarrow> byte list \<Rightarrow> 64 word" where
  "x1764_tail i input [] = input"
| "x1764_tail i input (b # bs) = x1764_tail (i + 1) (input OR push_bit (8 * i) (ucast b)) bs"

definition x1764_fold :: "64 word \<Rightarrow> 32 word" where
  "x1764_fold c = ucast (NOT ((c AND 0xFFFFFFFF) XOR drop_bit 32 c))"

definition toku_x1764_memory_simple :: "byte list \<Rightarrow> 32 word" where
  "toku_x1764_memory_simple buf =
     (let (c, rest) = x1764_words 0 buf;
          c = (if length rest > 0 then c * 17 + x1764_tail 0 0 rest else c)
      in x1764_fold c)"

subsection \<open>The unrolled computation\<close>

function x1764_four_words :: "64 word \<Rightarrow> 64 word \<Rightarrow> 64 word \<Rightarrow> 64 word \<Rightarrow> byte list \<Rightarrow> 64 word \<times> 64 word \<times> 64 word \<times> 64 word \<times> byte list" where
  "x1764_four_words suma sumb sumc sumd buf =
     (if length buf \<ge> 32 then
        x1764_four_words (suma * (17 * 17 * 17 * 17) + le_word (take 8 buf))
          (sumb * (17 * 17 * 17 * 17) + le_word (take 8 (drop 8 buf)))
          (sumc * (17 * 17 * 17 * 17) + le_word (take 8 (drop 16 buf)))
          (sumd * (17 * 17 * 17 * 17) + le_word (take 8 (drop 24 buf)))
          (drop 32 buf)
      else (suma, sumb, sumc, sumd, buf))"
  by pat_completeness auto
termination by (relation "measure (\<lambda>(a, b, c, d, buf). length buf)") auto

declare x1764_four_words.simps [simp del]

definition toku_x1764_memory :: "byte list \<Rightarrow> 32 word" where
  "toku_x1764_memory buf =
     (let (suma, sumb, sumc, sumd, buf) = x1764_four_words 0 0 0 0 buf;
          sm = suma * 17 * 17 * 17 + sumb * 17 * 17 + sumc * 17 + sumd;
          (sm, rest) = x1764_words sm buf;
          sm = (if length rest > 0 then sm * 17 + x1764_tail 0 0 rest else sm)
      in x1764_fold sm)"

subsection \<open>The incremental computation\<close>

record x1764 =
  x_sum :: "64 word"
  x_input :: "64 word"
  x_n_input_bytes :: nat

definition toku_x1764_init :: x1764 where
  "toku_x1764_init = \<lparr>x_sum = 0, x_input = 0, x_n_input_bytes = 0\<rparr>"

text \<open>The loop over whole words when some bytes are pending.\<close>

function x1764_shifted_words :: "nat \<Rightarrow> 64 word \<Rightarrow> 64 word \<Rightarrow> byte list \<Rightarrow> 64 word \<times> 64 word \<times> byte list" where
  "x1764_shifted_words n sm input cbuf =
     (if length cbuf \<ge> 8 then
        (let thisv = le_word (take 8 cbuf)
         in x1764_shifted_words n (sm * 17 + (input OR push_bit (8 * n) thisv)) (drop_bit (8 * (8 - n)) thisv) (drop 8 cbuf))
      else (sm, input, cbuf))"
  by pat_completeness auto
termination by (relation "measure (\<lambda>(n, sm, input, cbuf). length cbuf)") auto

declare x1764_shifted_words.simps [simp del]

fun x1764_fill :: "64 word \<Rightarrow> nat \<Rightarrow> byte list \<Rightarrow> 64 word \<times> nat \<times> byte list" where
  "x1764_fill input n [] = (input, n, [])"
| "x1764_fill input n (b # bs) = (if n < 8 then x1764_fill (input OR push_bit (8 * n) (ucast b)) (n + 1) bs else (input, n, b # bs))"

definition x1764_add_byte :: "x1764 \<Rightarrow> byte list \<Rightarrow> x1764" where
  "x1764_add_byte l cbuf =
     (let input = x_input l OR push_bit (8 * x_n_input_bytes l) (le_word (take 1 cbuf));
          n_input_bytes = x_n_input_bytes l + 1
      in if n_input_bytes = 8 then \<lparr>x_sum = x_sum l * 17 + input, x_input = 0, x_n_input_bytes = 0\<rparr>
         else l\<lparr>x_input := input, x_n_input_bytes := n_input_bytes\<rparr>)"

definition x1764_add_two :: "x1764 \<Rightarrow> byte list \<Rightarrow> x1764" where
  "x1764_add_two l cbuf =
     (let n_input_bytes = x_n_input_bytes l; input = x_input l; thisv = le_word (take 2 cbuf)
      in if n_input_bytes = 7 then
           \<lparr>x_sum = x_sum l * 17 + (input OR push_bit (8 * 7) thisv), x_input = drop_bit 8 thisv, x_n_input_bytes = 1\<rparr>
         else if n_input_bytes = 6 then
           \<lparr>x_sum = x_sum l * 17 + (input OR push_bit (8 * 6) thisv), x_input = 0, x_n_input_bytes = 0\<rparr>
         else l\<lparr>x_input := input OR push_bit (8 * n_input_bytes) thisv, x_n_input_bytes := n_input_bytes + 2\<rparr>)"

text \<open>The end of \<open>toku_x1764_add\<close>, where no bytes are pending.\<close>

definition x1764_add_aligned :: "64 word \<Rightarrow> byte list \<Rightarrow> x1764" where
  "x1764_add_aligned sm cbuf =
     (let (sm, rest) = x1764_words sm cbuf
      in \<lparr>x_sum = sm, x_input = x1764_tail 0 0 rest, x_n_input_bytes = length rest\<rparr>)"

definition toku_x1764_add :: "x1764 \<Rightarrow> byte list \<Rightarrow> x1764" where
  "toku_x1764_add l cbuf =
     (if length cbuf = 1 then x1764_add_byte l cbuf
      else if length cbuf = 2 then x1764_add_two l cbuf
      else if x_n_input_bytes l \<noteq> 0 then
        (let n_input_bytes = x_n_input_bytes l;
             (sm, input, cbuf) = x1764_shifted_words n_input_bytes (x_sum l) (x_input l) cbuf;
             (sm, input, n_input_bytes, cbuf) =
               (if length cbuf \<ge> 4 then
                  (let thisv = le_word (take 4 cbuf)
                   in if n_input_bytes < 4 then (sm, input OR push_bit (8 * n_input_bytes) thisv, n_input_bytes + 4, drop 4 cbuf)
                      else (sm * 17 + (input OR push_bit (8 * n_input_bytes) thisv), drop_bit (8 * (8 - n_input_bytes)) thisv, n_input_bytes - 4, drop 4 cbuf))
                else (sm, input, n_input_bytes, cbuf));
             (input, n_input_bytes, cbuf) = x1764_fill input n_input_bytes cbuf
         in if n_input_bytes < 8 then \<lparr>x_sum = sm, x_input = input, x_n_input_bytes = n_input_bytes\<rparr>
            else x1764_add_aligned (sm * 17 + input) cbuf)
      else x1764_add_aligned (x_sum l) cbuf)"

definition toku_x1764_finish :: "x1764 \<Rightarrow> 32 word" where
  "toku_x1764_finish l = x1764_fold (if x_n_input_bytes l > 0 then x_sum l * 17 + x_input l else x_sum l)"

subsection \<open>Words of bytes\<close>

lemma le_word_append: "le_word (a @ b) = (le_word a OR push_bit (8 * length a) (le_word b) :: 'a::len word)"
proof (induction a)
  case (Cons x a)
  have "push_bit 8 (push_bit (8 * length a) (le_word b)) = push_bit (8 * length (x # a)) (le_word b :: 'a word)" by (simp add: algebra_simps)
  then show ?case using Cons by (simp add: or.assoc push_bit_or)
qed simp

lemma drop_bit_le_word:
  fixes bs :: "byte list"
  assumes "8 * length bs \<le> LENGTH('a::len)" "k \<le> length bs"
  shows "drop_bit (8 * k) (le_word bs :: 'a word) = le_word (drop k bs)"
proof (rule bit_word_eqI)
  fix n assume n: "n < LENGTH('a)"
  have d: "(8 * k + n) div 8 = k + n div 8" "(8 * k + n) mod 8 = n mod 8" by simp_all
  have "8 * (n div 8) + 8 > n" by simp
  then have small: "8 * k + n < LENGTH('a)" if "k + n div 8 < length bs" using that assms(1) by linarith
  have len: "n div 8 < length (drop k bs) \<longleftrightarrow> k + n div 8 < length bs" by (simp add: less_diff_conv add.commute)
  have nth: "drop k bs ! (n div 8) = bs ! (k + n div 8)" by (rule nth_drop [OF assms(2)])
  show "bit (drop_bit (8 * k) (le_word bs :: 'a word)) n = bit (le_word (drop k bs) :: 'a word) n"
    unfolding bit_drop_bit_eq comp_def bit_le_word d len nth using small n by blast
qed

lemma x1764_tail_le_word: "x1764_tail i input bs = input OR push_bit (8 * i) (le_word bs)"
proof (induction bs arbitrary: i input)
  case (Cons b bs)
  have "push_bit (8 * i) (push_bit 8 (le_word bs)) = push_bit (8 * (i + 1)) (le_word bs :: 64 word)" by (simp add: algebra_simps)
  then show ?case using Cons by (simp add: or.assoc push_bit_or)
qed simp

lemma x1764_words_short: "length buf < 8 \<Longrightarrow> x1764_words c buf = (c, buf)"
  by (simp add: x1764_words.simps)

lemma x1764_words_append: "8 dvd length a \<Longrightarrow> x1764_words c (a @ b) = x1764_words (fst (x1764_words c a)) b"
proof (induction c a rule: x1764_words.induct)
  case (1 c a)
  show ?case
  proof (cases "length a \<ge> 8")
    case True
    have d: "8 dvd length (drop 8 a)" using "1.prems" True by simp
    have "x1764_words c (a @ b) = x1764_words (c * 17 + le_word (take 8 a)) (drop 8 a @ b)" using True by (subst x1764_words.simps) simp
    moreover have "x1764_words c a = x1764_words (c * 17 + le_word (take 8 a)) (drop 8 a)" using True by (subst x1764_words.simps) simp
    ultimately show ?thesis using "1.IH" [OF True d] by simp
  next
    case False
    then have "length a = 0" using "1.prems" by presburger
    then have "a = []" by simp
    then show ?thesis by (simp add: x1764_words_short)
  qed
qed

lemma x1764_words_step: "length buf \<ge> 8 \<Longrightarrow> x1764_words c buf = x1764_words (c * 17 + le_word (take 8 buf)) (drop 8 buf)"
  by (subst x1764_words.simps) simp

lemma x1764_words_eight: "length a = 8 \<Longrightarrow> x1764_words c (a @ b) = x1764_words (c * 17 + le_word a) b"
  by (subst x1764_words.simps) simp

lemma x1764_words_rest: "length (snd (x1764_words c bs)) < 8 \<and> (\<exists>full. bs = full @ snd (x1764_words c bs) \<and> 8 dvd length full \<and> fst (x1764_words c bs) = fst (x1764_words c full))"
proof (induction c bs rule: x1764_words.induct)
  case (1 c bs)
  show ?case
  proof (cases "length bs \<ge> 8")
    case True
    obtain full where f: "drop 8 bs = full @ snd (x1764_words (c * 17 + le_word (take 8 bs)) (drop 8 bs))" "8 dvd length full"
      "fst (x1764_words (c * 17 + le_word (take 8 bs)) (drop 8 bs)) = fst (x1764_words (c * 17 + le_word (take 8 bs)) full)" using 1 [OF True] by blast
    have step: "x1764_words c bs = x1764_words (c * 17 + le_word (take 8 bs)) (drop 8 bs)" using True by (subst x1764_words.simps) simp
    have "bs = (take 8 bs @ full) @ snd (x1764_words c bs)" unfolding step append_assoc f(1) [symmetric] by simp
    moreover have "fst (x1764_words c bs) = fst (x1764_words c (take 8 bs @ full))" unfolding step f(3) using True by (simp add: x1764_words_eight)
    moreover have "8 dvd length (take 8 bs @ full)" using f(2) True by simp
    ultimately show ?thesis using 1 [OF True] unfolding step by blast
  next
    case False
    then show ?thesis by (simp add: x1764_words_short)
  qed
qed

lemma le_word_take: "(le_word bs :: 64 word) = le_word (take 8 bs)"
proof (cases "length bs \<le> 8")
  case False
  have "le_word bs = (le_word (take 8 bs @ drop 8 bs) :: 64 word)" by simp
  also have "\<dots> = le_word (take 8 bs) OR push_bit 64 (le_word (drop 8 bs))" unfolding le_word_append using False by simp
  also have "push_bit 64 (le_word (drop 8 bs)) = (0 :: 64 word)" by (rule bit_word_eqI) (simp add: bit_push_bit_iff)
  finally show ?thesis by simp
qed simp

lemma x1764_words_snoc: "8 dvd length full \<Longrightarrow> length w = 8 \<Longrightarrow> fst (x1764_words c (full @ w)) = fst (x1764_words c full) * 17 + le_word w"
  using x1764_words_append [of full c w] x1764_words_eight [of w _ "[]"] by (simp add: x1764_words_short)

subsection \<open>The unrolled computation agrees\<close>

lemma x1764_four_words_ok:
  "x1764_four_words a b c d buf = (a', b', c', d', rest) \<Longrightarrow>
     x1764_words (a * 17 * 17 * 17 + b * 17 * 17 + c * 17 + d) buf = x1764_words (a' * 17 * 17 * 17 + b' * 17 * 17 + c' * 17 + d') rest"
proof (induction a b c d buf rule: x1764_four_words.induct)
  case (1 a b c d buf)
  show ?case
  proof (cases "length buf \<ge> 32")
    case True
    define w0 w1 w2 w3 :: "64 word" where w: "w0 = le_word (take 8 buf)" "w1 = le_word (take 8 (drop 8 buf))" "w2 = le_word (take 8 (drop 16 buf))" "w3 = le_word (take 8 (drop 24 buf))"
    have "x1764_words x buf = x1764_words (x * 17 + w0) (drop 8 buf)" "x1764_words x (drop 8 buf) = x1764_words (x * 17 + w1) (drop 16 buf)"
      "x1764_words x (drop 16 buf) = x1764_words (x * 17 + w2) (drop 24 buf)" "x1764_words x (drop 24 buf) = x1764_words (x * 17 + w3) (drop 32 buf)" for x
      using True x1764_words_step [of _ x] unfolding w by simp_all
    then have "x1764_words x buf = x1764_words ((((x * 17 + w0) * 17 + w1) * 17 + w2) * 17 + w3) (drop 32 buf)" for x by simp
    moreover have "x1764_four_words (a * (17 * 17 * 17 * 17) + w0) (b * (17 * 17 * 17 * 17) + w1) (c * (17 * 17 * 17 * 17) + w2) (d * (17 * 17 * 17 * 17) + w3) (drop 32 buf) = (a', b', c', d', rest)"
      using "1.prems" True unfolding w by (subst (asm) x1764_four_words.simps) simp
    note ih = "1.IH" [OF True, folded w, OF this]
    ultimately show ?thesis unfolding ih [symmetric] by (simp add: algebra_simps)
  next
    case False
    then show ?thesis using "1.prems" by (subst (asm) x1764_four_words.simps) simp
  qed
qed

lemma toku_x1764_memory_eq: "toku_x1764_memory buf = toku_x1764_memory_simple buf"
proof -
  obtain a b c d rest where f: "x1764_four_words 0 0 0 0 buf = (a, b, c, d, rest)" by (metis prod_cases5)
  show ?thesis using x1764_four_words_ok [OF f] by (simp add: toku_x1764_memory_def toku_x1764_memory_simple_def f)
qed

subsection \<open>The incremental computation agrees\<close>

definition x1764_reads :: "x1764 \<Rightarrow> byte list \<Rightarrow> bool" where
  "x1764_reads l bs \<longleftrightarrow> (\<exists>full tail. bs = full @ tail \<and> 8 dvd length full \<and> length tail < 8 \<and>
     l = \<lparr>x_sum = fst (x1764_words 0 full), x_input = le_word tail, x_n_input_bytes = length tail\<rparr>)"

lemma x1764_readsI: "8 dvd length full \<Longrightarrow> length tail < 8 \<Longrightarrow> bs = full @ tail \<Longrightarrow> s = fst (x1764_words 0 full) \<Longrightarrow> i = le_word tail \<Longrightarrow> n = length tail \<Longrightarrow>
    x1764_reads \<lparr>x_sum = s, x_input = i, x_n_input_bytes = n\<rparr> bs"
  unfolding x1764_reads_def by blast

lemma x1764_reads_init: "x1764_reads toku_x1764_init []"
  unfolding toku_x1764_init_def by (rule x1764_readsI [of "[]" "[]"]) (simp_all add: x1764_words_short)

lemma x1764_add_aligned_ok:
  assumes "8 dvd length full"
  shows "x1764_reads (x1764_add_aligned (fst (x1764_words 0 full)) buf) (full @ buf)"
proof -
  let ?s = "fst (x1764_words 0 full)"
  obtain mid where m: "buf = mid @ snd (x1764_words ?s buf)" "8 dvd length mid" "fst (x1764_words ?s buf) = fst (x1764_words ?s mid)" and short: "length (snd (x1764_words ?s buf)) < 8"
    using x1764_words_rest [of ?s buf] by blast
  have "fst (x1764_words 0 (full @ mid)) = fst (x1764_words ?s buf)" using x1764_words_append [OF assms, of 0 mid] m(3) by simp
  moreover have "full @ buf = (full @ mid) @ snd (x1764_words ?s buf)" using m(1) by simp
  ultimately show ?thesis unfolding x1764_add_aligned_def case_prod_beta Let_def
    by (intro x1764_readsI [of "full @ mid" "snd (x1764_words ?s buf)"]) (use assms m(2) short in \<open>simp_all add: x1764_tail_le_word\<close>)
qed

lemma x1764_shifted_words_ok:
  assumes "8 dvd length full" "length tail = n" "n < 8"
  shows "\<exists>full' tail' rest. x1764_shifted_words n (fst (x1764_words 0 full)) (le_word tail) buf = (fst (x1764_words 0 full'), le_word tail', rest) \<and>
    full @ tail @ buf = full' @ tail' @ rest \<and> 8 dvd length full' \<and> length tail' = n \<and> length rest < 8"
  using assms
proof (induction buf arbitrary: full tail rule: measure_induct_rule [where f = length])
  case (less buf)
  show ?case
  proof (cases "length buf \<ge> 8")
    case True
    let ?w = "take 8 buf"
    let ?full = "full @ tail @ take (8 - n) ?w" and ?tail = "drop (8 - n) ?w"
    have len: "length (tail @ take (8 - n) ?w) = 8" using less.prems True by simp
    have "le_word tail OR push_bit (8 * n) (le_word ?w) = (le_word (tail @ ?w) :: 64 word)" unfolding le_word_append using less.prems(2) by simp
    also have "\<dots> = le_word (take 8 (tail @ ?w))" by (rule le_word_take)
    also have "take 8 (tail @ ?w) = tail @ take (8 - n) ?w" using less.prems(2,3) by simp
    finally have "fst (x1764_words 0 full) * 17 + (le_word tail OR push_bit (8 * n) (le_word ?w)) = fst (x1764_words 0 ?full)"
      using x1764_words_snoc [OF less.prems(1) len, of 0] by simp
    moreover have "drop_bit (8 * (8 - n)) (le_word ?w :: 64 word) = le_word ?tail" using True by (intro drop_bit_le_word) simp_all
    ultimately have step: "x1764_shifted_words n (fst (x1764_words 0 full)) (le_word tail) buf = x1764_shifted_words n (fst (x1764_words 0 ?full)) (le_word ?tail) (drop 8 buf)"
      using True by (subst x1764_shifted_words.simps) (simp add: Let_def)
    have "8 dvd length ?full" "length ?tail = n" using less.prems len True by simp_all
    moreover have "length (drop 8 buf) < length buf" using True by (simp add: diff_less)
    moreover have "full @ tail @ buf = ?full @ ?tail @ drop 8 buf" by (metis append.assoc append_take_drop_id)
    ultimately show ?thesis using less.IH [of "drop 8 buf" ?full ?tail] less.prems(3) unfolding step by simp
  next
    case False
    then have "x1764_shifted_words n (fst (x1764_words 0 full)) (le_word tail) buf = (fst (x1764_words 0 full), le_word tail, buf)" by (subst x1764_shifted_words.simps) simp
    then show ?thesis using less.prems False by auto
  qed
qed

lemma x1764_fill_ok:
  "n = length tail \<Longrightarrow> n \<le> 8 \<Longrightarrow> x1764_fill (le_word tail) n buf = (le_word (tail @ take (8 - n) buf), min 8 (n + length buf), drop (8 - n) buf)"
proof (induction "le_word tail :: 64 word" n buf arbitrary: tail rule: x1764_fill.induct)
  case (2 n b bs)
  show ?case
  proof (cases "n < 8")
    case True
    have w: "le_word tail OR push_bit (8 * n) (ucast b) = (le_word (tail @ [b]) :: 64 word)" unfolding le_word_append using "2.prems"(1) by simp
    have "x1764_fill (le_word (tail @ [b])) (n + 1) bs = (le_word ((tail @ [b]) @ take (8 - (n + 1)) bs), min 8 (n + 1 + length bs), drop (8 - (n + 1)) bs)"
      using "2.hyps" [OF True w] "2.prems" True w by simp
    moreover have "take (8 - n) (b # bs) = b # take (8 - (n + 1)) bs" "drop (8 - n) (b # bs) = drop (8 - (n + 1)) bs"
      using True by (simp_all add: take_Cons' drop_Cons')
    ultimately show ?thesis using True w by simp
  next
    case False
    then show ?thesis using "2.prems" by simp
  qed
qed simp

text \<open>Filling up the pending bytes, and going on with whole words if they are full.\<close>

lemma x1764_finish_add_ok:
  assumes "8 dvd length full" "length tail < 8" "x1764_fill (le_word tail) (length tail) buf = (input, n, rest)"
  shows "x1764_reads (if n < 8 then \<lparr>x_sum = fst (x1764_words 0 full), x_input = input, x_n_input_bytes = n\<rparr>
      else x1764_add_aligned (fst (x1764_words 0 full) * 17 + input) rest) (full @ tail @ buf)"
proof -
  let ?k = "8 - length tail"
  have f: "input = le_word (tail @ take ?k buf)" "n = min 8 (length tail + length buf)" "rest = drop ?k buf"
    using x1764_fill_ok [OF refl, of tail buf] assms(2,3) by simp_all
  show ?thesis
  proof (cases "n < 8")
    case True
    then have "x1764_reads \<lparr>x_sum = fst (x1764_words 0 full), x_input = input, x_n_input_bytes = n\<rparr> (full @ tail @ buf)"
      by (intro x1764_readsI [of full "tail @ buf"]) (use assms(1,2) f in simp_all)
    then show ?thesis unfolding if_P [OF True] .
  next
    case False
    then have len: "length (tail @ take ?k buf) = 8" using f(2) assms(2) by simp
    have "fst (x1764_words 0 full) * 17 + input = fst (x1764_words 0 (full @ tail @ take ?k buf))" using x1764_words_snoc [OF assms(1) len, of 0] f(1) by simp
    moreover have "8 dvd length (full @ tail @ take ?k buf)" using assms(1) len by simp
    ultimately show ?thesis using x1764_add_aligned_ok [of "full @ tail @ take ?k buf" rest] False f(3) by simp
  qed
qed

lemma x1764_pending:
  assumes "length tail \<le> 8" "length tail + length w \<ge> 8"
  shows "le_word tail OR push_bit (8 * length tail) (le_word w) = (le_word (tail @ take (8 - length tail) w) :: 64 word)"
  unfolding le_word_append [symmetric] by (subst le_word_take) (use assms in simp)

lemma x1764_add_four_ok:
  assumes "8 dvd length full" "length tail = n" "0 < n" "n < 8" "length buf \<ge> 4" "length buf < 8"
  defines "thisv \<equiv> le_word (take 4 buf) :: 64 word"
  shows "\<exists>full' tail'. (if n < 4 then (fst (x1764_words 0 full), le_word tail OR push_bit (8 * n) thisv, n + 4, drop 4 buf)
        else (fst (x1764_words 0 full) * 17 + (le_word tail OR push_bit (8 * n) thisv), drop_bit (8 * (8 - n)) thisv, n - 4, drop 4 buf)) =
      (fst (x1764_words 0 full'), le_word tail', length tail', drop 4 buf) \<and> full @ tail @ buf = full' @ tail' @ drop 4 buf \<and> 8 dvd length full' \<and> length tail' < 8"
proof (cases "n < 4")
  case True
  have "le_word tail OR push_bit (8 * n) thisv = le_word (tail @ take 4 buf)" unfolding thisv_def le_word_append using assms(2) by simp
  then show ?thesis using True assms(1-6) by (intro exI [of _ full] exI [of _ "tail @ take 4 buf"]) simp
next
  case False
  let ?w = "take 4 buf"
  let ?full = "full @ tail @ take (8 - n) ?w" and ?tail = "drop (8 - n) ?w"
  have len: "length (tail @ take (8 - n) ?w) = 8" using assms(2,4,5) False by simp
  have p: "le_word tail OR push_bit (8 * n) thisv = (le_word (tail @ take (8 - n) ?w) :: 64 word)"
    unfolding thisv_def assms(2) [symmetric] by (rule x1764_pending) (use assms(2,4,5) False in simp_all)
  have "fst (x1764_words 0 full) * 17 + (le_word tail OR push_bit (8 * n) thisv) = fst (x1764_words 0 ?full)"
    unfolding p using x1764_words_snoc [OF assms(1) len, of 0] by simp
  moreover have "drop_bit (8 * (8 - n)) thisv = le_word ?tail" unfolding thisv_def using assms(5) False by (intro drop_bit_le_word) simp_all
  moreover have "full @ tail @ buf = ?full @ ?tail @ drop 4 buf" by (metis append.assoc append_take_drop_id)
  moreover have "8 dvd length ?full" "length ?tail = n - 4" using assms(1,2,4,5) len False by simp_all
  ultimately show ?thesis using False assms(4) by (intro exI [of _ ?full] exI [of _ ?tail]) simp
qed

lemma toku_x1764_add_ok:
  assumes "x1764_reads l bs"
  shows "x1764_reads (toku_x1764_add l cbuf) (bs @ cbuf)"
proof -
  obtain full tail where r: "bs = full @ tail" "8 dvd length full" "length tail < 8"
    and l: "l = \<lparr>x_sum = fst (x1764_words 0 full), x_input = le_word tail, x_n_input_bytes = length tail\<rparr>" using assms unfolding x1764_reads_def by blast
  let ?n = "length tail"
  consider (one) "length cbuf = 1" | (two) "length cbuf = 2" | (start) "length cbuf \<noteq> 1" "length cbuf \<noteq> 2" "?n = 0" | (long) "length cbuf \<noteq> 1" "length cbuf \<noteq> 2" "?n \<noteq> 0" by blast
  then show ?thesis
  proof cases
    case one
    have w: "le_word tail OR push_bit (8 * ?n) (le_word cbuf) = (le_word (tail @ cbuf) :: 64 word)" by (simp add: le_word_append)
    show ?thesis
    proof (cases "?n + 1 = 8")
      case True
      then have len: "length (tail @ cbuf) = 8" using one by simp
      have "toku_x1764_add l cbuf = \<lparr>x_sum = fst (x1764_words 0 (full @ tail @ cbuf)), x_input = 0, x_n_input_bytes = 0\<rparr>"
        using one True w x1764_words_snoc [OF r(2) len, of 0] by (simp add: toku_x1764_add_def x1764_add_byte_def l Let_def)
      then show ?thesis using r len by (auto intro!: x1764_readsI [of "full @ tail @ cbuf" "[]"])
    next
      case False
      then have "toku_x1764_add l cbuf = \<lparr>x_sum = fst (x1764_words 0 full), x_input = le_word (tail @ cbuf), x_n_input_bytes = length (tail @ cbuf)\<rparr>"
        using one w by (simp add: toku_x1764_add_def x1764_add_byte_def l Let_def)
      then show ?thesis using r one False by (auto intro!: x1764_readsI [of full "tail @ cbuf"])
    qed
  next
    case two
    show ?thesis
    proof (cases "?n < 6")
      case True
      have "le_word tail OR push_bit (8 * ?n) (le_word cbuf) = (le_word (tail @ cbuf) :: 64 word)" by (simp add: le_word_append)
      then have "toku_x1764_add l cbuf = \<lparr>x_sum = fst (x1764_words 0 full), x_input = le_word (tail @ cbuf), x_n_input_bytes = length (tail @ cbuf)\<rparr>"
        using two True by (simp add: toku_x1764_add_def x1764_add_two_def l Let_def)
      then show ?thesis using r two True by (auto intro!: x1764_readsI [of full "tail @ cbuf"])
    next
      case False
      let ?k = "8 - ?n"
      have n: "?n = 6 \<or> ?n = 7" using False r(3) by arith
      have len: "length (tail @ take ?k cbuf) = 8" using two n by auto
      have p: "le_word tail OR push_bit (8 * ?n) (le_word cbuf) = (le_word (tail @ take ?k cbuf) :: 64 word)" by (rule x1764_pending) (use two n in auto)
      have d: "drop_bit (8 * ?k) (le_word cbuf :: 64 word) = le_word (drop ?k cbuf)" using two n by (intro drop_bit_le_word) auto
      have "toku_x1764_add l cbuf = \<lparr>x_sum = fst (x1764_words 0 full) * 17 + (le_word tail OR push_bit (8 * ?n) (le_word cbuf)), x_input = le_word (drop ?k cbuf), x_n_input_bytes = length (drop ?k cbuf)\<rparr>"
        using n two d by (auto simp: toku_x1764_add_def x1764_add_two_def l Let_def)
      also have "\<dots> = \<lparr>x_sum = fst (x1764_words 0 (full @ tail @ take ?k cbuf)), x_input = le_word (drop ?k cbuf), x_n_input_bytes = length (drop ?k cbuf)\<rparr>"
        unfolding p using x1764_words_snoc [OF r(2) len, of 0] by simp
      finally show ?thesis using r two len by (auto intro!: x1764_readsI [of "full @ tail @ take ?k cbuf" "drop ?k cbuf"])
    qed
  next
    case start
    then have "toku_x1764_add l cbuf = x1764_add_aligned (fst (x1764_words 0 full)) cbuf" by (simp add: toku_x1764_add_def l)
    then show ?thesis using x1764_add_aligned_ok [OF r(2), of cbuf] start r(1) by simp
  next
    case long
    obtain full1 tail1 rest1 where s: "x1764_shifted_words ?n (fst (x1764_words 0 full)) (le_word tail) cbuf = (fst (x1764_words 0 full1), le_word tail1, rest1)"
      "full @ tail @ cbuf = full1 @ tail1 @ rest1" "8 dvd length full1" "length tail1 = ?n" "length rest1 < 8"
      using x1764_shifted_words_ok [OF r(2) refl r(3), of cbuf] by (elim exE conjE) (rule that)
    let ?four = "if length rest1 \<ge> 4 then
        (let thisv = le_word (take 4 rest1) in
         if ?n < 4 then (fst (x1764_words 0 full1), le_word tail1 OR push_bit (8 * ?n) thisv, ?n + 4, drop 4 rest1)
         else (fst (x1764_words 0 full1) * 17 + (le_word tail1 OR push_bit (8 * ?n) thisv), drop_bit (8 * (8 - ?n)) thisv, ?n - 4, drop 4 rest1))
      else (fst (x1764_words 0 full1), le_word tail1, ?n, rest1)"
    obtain full2 tail2 rest2 where f: "?four = (fst (x1764_words 0 full2), le_word tail2, length tail2, rest2)" "full1 @ tail1 @ rest1 = full2 @ tail2 @ rest2" "8 dvd length full2" "length tail2 < 8"
    proof (cases "length rest1 \<ge> 4")
      case True
      have pos: "0 < ?n" using long(3) by simp
      obtain full2 tail2 where "(if ?n < 4 then (fst (x1764_words 0 full1), le_word tail1 OR push_bit (8 * ?n) (le_word (take 4 rest1)), ?n + 4, drop 4 rest1)
          else (fst (x1764_words 0 full1) * 17 + (le_word tail1 OR push_bit (8 * ?n) (le_word (take 4 rest1))), drop_bit (8 * (8 - ?n)) (le_word (take 4 rest1)), ?n - 4, drop 4 rest1)) =
          (fst (x1764_words 0 full2), le_word tail2 :: 64 word, length tail2, drop 4 rest1)" "full1 @ tail1 @ rest1 = full2 @ tail2 @ drop 4 rest1" "8 dvd length full2" "length tail2 < 8"
        using x1764_add_four_ok [OF s(3,4) pos r(3) True s(5)] by (elim exE conjE) (rule that)
      then show thesis using True by (intro that [of full2 tail2 "drop 4 rest1"]) (simp_all add: Let_def)
    next
      case False
      then show thesis using s(3,4) r(3) by (intro that [of full1 tail1 rest1]) simp_all
    qed
    obtain input n rest where fill: "x1764_fill (le_word tail2) (length tail2) rest2 = (input, n, rest)" by (metis prod_cases3)
    have "toku_x1764_add l cbuf = (if n < 8 then \<lparr>x_sum = fst (x1764_words 0 full2), x_input = input, x_n_input_bytes = n\<rparr>
      else x1764_add_aligned (fst (x1764_words 0 full2) * 17 + input) rest)"
      using long s(1) f(1) fill by (simp add: toku_x1764_add_def l Let_def)
    then show ?thesis using x1764_finish_add_ok [OF f(3,4) fill] r(1) s(2) f(2) by simp
  qed
qed

lemma toku_x1764_finish_ok:
  assumes "x1764_reads l bs"
  shows "toku_x1764_finish l = toku_x1764_memory_simple bs"
proof -
  obtain full tail where r: "bs = full @ tail" "8 dvd length full" "length tail < 8"
    and l: "l = \<lparr>x_sum = fst (x1764_words 0 full), x_input = le_word tail, x_n_input_bytes = length tail\<rparr>" using assms unfolding x1764_reads_def by blast
  have "x1764_words 0 bs = (fst (x1764_words 0 full), tail)" using x1764_words_append [OF r(2), of 0 tail] r(1,3) by (simp add: x1764_words_short)
  then show ?thesis by (simp add: toku_x1764_finish_def l toku_x1764_memory_simple_def x1764_tail_le_word)
qed

subsection \<open>Properties\<close>

text \<open>
  C38. The checksum has one value: the unrolled computation gives what the simple one gives, and so does the incremental one however the input is cut into pieces.
\<close>

theorem x1764_agree:
  "toku_x1764_memory buf = toku_x1764_memory_simple buf \<and>
   toku_x1764_finish (fold (\<lambda>piece l. toku_x1764_add l piece) pieces toku_x1764_init) = toku_x1764_memory_simple (concat pieces)"
proof -
  have "x1764_reads l bs \<Longrightarrow> x1764_reads (fold (\<lambda>piece l. toku_x1764_add l piece) pieces l) (bs @ concat pieces)" for l bs
  proof (induction pieces arbitrary: l bs)
    case (Cons p pieces)
    then show ?case using Cons.IH [OF toku_x1764_add_ok [OF Cons.prems, of p]] by simp
  qed simp
  from this [OF x1764_reads_init] show ?thesis using toku_x1764_finish_ok toku_x1764_memory_eq by simp
qed

end
