(* ===== verification/Wbuf.thy ===== *)
theory Wbuf
  imports X1764
begin

text \<open>
  Writing and reading the bytes of blocks: \<open>src/ft/serialize/wbuf.h\<close> and \<open>src/ft/serialize/rbuf.h\<close>. Positions and sizes are 32-bit words, as in the structs, so the bounds checks wrap as they do there; an
  access outside the memory of the buffer is \<open>None\<close>. The \<open>nocrc\<close> functions leave the checksum alone.
\<close>

subsection \<open>Writing\<close>

record wbuf =
  wb_buf :: "byte list"
  wb_size :: "32 word"
  wb_ndone :: "32 word"
  wb_checksum :: x1764

definition wbuf_nocrc_init :: "byte list \<Rightarrow> 32 word \<Rightarrow> x1764 \<Rightarrow> wbuf" where
  "wbuf_nocrc_init buf sz junk = \<lparr>wb_buf = buf, wb_size = sz, wb_ndone = 0, wb_checksum = junk\<rparr>"

definition wbuf_init :: "byte list \<Rightarrow> 32 word \<Rightarrow> wbuf" where
  "wbuf_init buf sz = \<lparr>wb_buf = buf, wb_size = sz, wb_ndone = 0, wb_checksum = toku_x1764_init\<rparr>"

definition wbuf_store :: "byte list \<Rightarrow> wbuf \<Rightarrow> wbuf option" where
  "wbuf_store bytes w = do {
     let n = unat (wb_ndone w);
     ensure (n + length bytes \<le> length (wb_buf w));
     Some (w\<lparr>wb_buf := take n (wb_buf w) @ bytes @ drop (n + length bytes) (wb_buf w), wb_ndone := wb_ndone w + of_nat (length bytes)\<rparr>)
   }"

definition wbuf_nocrc_char :: "byte \<Rightarrow> wbuf \<Rightarrow> wbuf option" where
  "wbuf_nocrc_char ch w = do {
     ensure (wb_ndone w < wb_size w);
     wbuf_store [ch] w
   }"

definition wbuf_nocrc_int :: "32 word \<Rightarrow> wbuf \<Rightarrow> wbuf option" where
  "wbuf_nocrc_int i w = do {
     ensure (wb_ndone w + 4 \<le> wb_size w);
     wbuf_store (le_bytes 4 i) w
   }"

definition wbuf_nocrc_literal_bytes :: "byte list \<Rightarrow> wbuf \<Rightarrow> wbuf option" where
  "wbuf_nocrc_literal_bytes bytes w = do {
     ensure (wb_ndone w + of_nat (length bytes) \<le> wb_size w);
     wbuf_store bytes w
   }"

definition wbuf_nocrc_bytes :: "byte list \<Rightarrow> wbuf \<Rightarrow> wbuf option" where
  "wbuf_nocrc_bytes bytes w = do {
     w \<leftarrow> wbuf_nocrc_int (of_nat (length bytes)) w;
     wbuf_nocrc_literal_bytes bytes w
   }"

definition wbuf_nocrc_ulonglong :: "64 word \<Rightarrow> wbuf \<Rightarrow> wbuf option" where
  "wbuf_nocrc_ulonglong ull w = do {
     w \<leftarrow> wbuf_nocrc_int (ucast (drop_bit 32 ull)) w;
     wbuf_nocrc_int (ucast (ull AND 0xFFFFFFFF)) w
   }"

definition wbuf_char :: "byte \<Rightarrow> wbuf \<Rightarrow> wbuf option" where
  "wbuf_char ch w = do {
     w \<leftarrow> wbuf_nocrc_char ch w;
     Some (w\<lparr>wb_checksum := toku_x1764_add (wb_checksum w) [ch]\<rparr>)
   }"

definition wbuf_int :: "32 word \<Rightarrow> wbuf \<Rightarrow> wbuf option" where
  "wbuf_int i w = do {
     w \<leftarrow> wbuf_nocrc_int i w;
     Some (w\<lparr>wb_checksum := toku_x1764_add (wb_checksum w) (le_bytes 4 i)\<rparr>)
   }"

definition wbuf_literal_bytes :: "byte list \<Rightarrow> wbuf \<Rightarrow> wbuf option" where
  "wbuf_literal_bytes bytes w = do {
     w \<leftarrow> wbuf_nocrc_literal_bytes bytes w;
     Some (w\<lparr>wb_checksum := toku_x1764_add (wb_checksum w) bytes\<rparr>)
   }"

definition wbuf_bytes :: "byte list \<Rightarrow> wbuf \<Rightarrow> wbuf option" where
  "wbuf_bytes bytes w = do {
     w \<leftarrow> wbuf_int (of_nat (length bytes)) w;
     wbuf_literal_bytes bytes w
   }"

definition wbuf_ulonglong :: "64 word \<Rightarrow> wbuf \<Rightarrow> wbuf option" where
  "wbuf_ulonglong ull w = do {
     w \<leftarrow> wbuf_int (ucast (drop_bit 32 ull)) w;
     wbuf_int (ucast (ull AND 0xFFFFFFFF)) w
   }"

subsection \<open>Reading\<close>

record rbuf =
  rb_buf :: "byte list"
  rb_size :: "32 word"
  rb_ndone :: "32 word"

definition rbuf_init :: "byte list \<Rightarrow> 32 word \<Rightarrow> rbuf" where
  "rbuf_init buf sz = \<lparr>rb_buf = buf, rb_size = sz, rb_ndone = 0\<rparr>"

definition rbuf_load :: "32 word \<Rightarrow> nat \<Rightarrow> rbuf \<Rightarrow> byte list option" where
  "rbuf_load pos n r = do {
     ensure (unat pos + n \<le> length (rb_buf r));
     Some (take n (drop (unat pos) (rb_buf r)))
   }"

definition rbuf_char :: "rbuf \<Rightarrow> (byte \<times> rbuf) option" where
  "rbuf_char r = do {
     ensure (rb_ndone r < rb_size r);
     bs \<leftarrow> rbuf_load (rb_ndone r) 1 r;
     Some (hd bs, r\<lparr>rb_ndone := rb_ndone r + 1\<rparr>)
   }"

definition rbuf_int :: "rbuf \<Rightarrow> (32 word \<times> rbuf) option" where
  "rbuf_int r = do {
     ensure (rb_ndone r + 4 \<le> rb_size r);
     bs \<leftarrow> rbuf_load (rb_ndone r) 4 r;
     Some (le_word bs, r\<lparr>rb_ndone := rb_ndone r + 4\<rparr>)
   }"

text \<open>The result is a pointer into the buffer and a length; its bytes are loaded by whoever uses it.\<close>

definition rbuf_literal_bytes :: "32 word \<Rightarrow> rbuf \<Rightarrow> (32 word \<times> rbuf) option" where
  "rbuf_literal_bytes n_bytes r = do {
     let r' = r\<lparr>rb_ndone := rb_ndone r + n_bytes\<rparr>;
     ensure (rb_ndone r' \<le> rb_size r');
     Some (rb_ndone r, r')
   }"

definition rbuf_bytes :: "rbuf \<Rightarrow> ((32 word \<times> 32 word) \<times> rbuf) option" where
  "rbuf_bytes r = do {
     (n_bytes, r) \<leftarrow> rbuf_int r;
     (bytes, r) \<leftarrow> rbuf_literal_bytes n_bytes r;
     Some ((bytes, n_bytes), r)
   }"

definition rbuf_ulonglong :: "rbuf \<Rightarrow> (64 word \<times> rbuf) option" where
  "rbuf_ulonglong r = do {
     (i0, r) \<leftarrow> rbuf_int r;
     (i1, r) \<leftarrow> rbuf_int r;
     Some (push_bit 32 (ucast i0) OR ucast i1, r)
   }"

subsection \<open>What is written\<close>

text \<open>\<open>writes m w bytes\<close>: the call returns, having appended the bytes within the bounds of the buffer.\<close>

definition wbuf_ok :: "wbuf \<Rightarrow> bool" where
  "wbuf_ok w \<longleftrightarrow> unat (wb_size w) \<le> length (wb_buf w) \<and> wb_ndone w \<le> wb_size w"

definition wbuf_room :: "wbuf \<Rightarrow> nat" where
  "wbuf_room w = unat (wb_size w) - unat (wb_ndone w)"

definition written :: "wbuf \<Rightarrow> byte list" where
  "written w = take (unat (wb_ndone w)) (wb_buf w)"

definition writes :: "wbuf option \<Rightarrow> wbuf \<Rightarrow> byte list \<Rightarrow> bool" where
  "writes m w bytes \<longleftrightarrow> (\<exists>w'. m = Some w' \<and> wbuf_ok w' \<and> written w' = written w @ bytes \<and> wbuf_room w' + length bytes = wbuf_room w)"

lemma writesE:
  assumes "writes m w bytes"
  obtains w' where "m = Some w'" "wbuf_ok w'" "written w' = written w @ bytes" "wbuf_room w' + length bytes = wbuf_room w"
  using assms by (auto simp: writes_def)

lemma writes_then:
  assumes "writes m w as" "\<And>w'. wbuf_ok w' \<Longrightarrow> wbuf_room w' + length as = wbuf_room w \<Longrightarrow> writes (f w') w' bs"
  shows "writes (Option.bind m f) w (as @ bs)"
proof -
  obtain w' where w: "m = Some w'" "wbuf_ok w'" "written w' = written w @ as" "wbuf_room w' + length as = wbuf_room w" by (rule writesE [OF assms(1)])
  show ?thesis using assms(2) [OF w(2,4)] w(1,3,4) by (auto simp: writes_def)
qed

lemma writes_checksum: "writes m w bytes \<Longrightarrow> writes (Option.bind m (\<lambda>w. Some (w\<lparr>wb_checksum := f w\<rparr>))) w bytes"
  by (auto simp: writes_def wbuf_ok_def written_def wbuf_room_def)

lemma word_size_bound: "unat (a :: 32 word) < 2 ^ 32"
  using unsigned_less [of a, where ?'a = nat] by simp

lemma of_nat_fits:
  fixes a :: "32 word"
  assumes "unat a + n < 2 ^ 32"
  shows "unat (a + of_nat n) = unat a + n"
proof -
  have "unat (of_nat n :: 32 word) = n" using assms by (simp add: unat_of_nat take_bit_nat_eq_self)
  then show ?thesis using assms by (simp add: unat_plus_simple [THEN iffD1] word_le_nat_alt unat_word_ariths)
qed

lemma wbuf_fits:
  assumes "wbuf_ok w" "n \<le> wbuf_room w"
  shows "unat (wb_ndone w + of_nat n) = unat (wb_ndone w) + n" "wb_ndone w + of_nat n \<le> wb_size w" "unat (wb_ndone w) + n \<le> length (wb_buf w)"
proof -
  have "unat (wb_ndone w) \<le> unat (wb_size w)" using assms(1) by (simp add: wbuf_ok_def word_le_nat_alt)
  then have le: "unat (wb_ndone w) + n \<le> unat (wb_size w)" using assms(2) unfolding wbuf_room_def by linarith
  then have "unat (wb_ndone w) + n < 2 ^ 32" using word_size_bound [of "wb_size w"] by simp
  then show u: "unat (wb_ndone w + of_nat n) = unat (wb_ndone w) + n" by (rule of_nat_fits)
  show "wb_ndone w + of_nat n \<le> wb_size w" unfolding word_le_nat_alt u by (rule le)
  show "unat (wb_ndone w) + n \<le> length (wb_buf w)" using le assms(1) by (simp add: wbuf_ok_def)
qed

lemma wbuf_store_writes:
  assumes "wbuf_ok w" "length bytes \<le> wbuf_room w"
  shows "writes (wbuf_store bytes w) w bytes"
proof -
  note f = wbuf_fits [OF assms]
  let ?n = "unat (wb_ndone w)"
  let ?w = "w\<lparr>wb_buf := take ?n (wb_buf w) @ bytes @ drop (?n + length bytes) (wb_buf w), wb_ndone := wb_ndone w + of_nat (length bytes)\<rparr>"
  have "wbuf_store bytes w = Some ?w" using f(3) by (simp add: wbuf_store_def Let_def)
  moreover have "wbuf_ok ?w" using assms(1) f by (simp add: wbuf_ok_def)
  moreover have "written ?w = written w @ bytes" using f by (simp add: written_def)
  moreover have "wbuf_room ?w + length bytes = wbuf_room w" using f(1) assms(2) by (simp add: wbuf_room_def)
  ultimately show ?thesis unfolding writes_def by blast
qed

lemma wbuf_nocrc_writes:
  assumes "wbuf_ok w"
  shows "1 \<le> wbuf_room w \<Longrightarrow> writes (wbuf_nocrc_char ch w) w [ch]"
    and "4 \<le> wbuf_room w \<Longrightarrow> writes (wbuf_nocrc_int i w) w (le_bytes 4 i)"
    and "length bs \<le> wbuf_room w \<Longrightarrow> writes (wbuf_nocrc_literal_bytes bs w) w bs"
proof -
  show "writes (wbuf_nocrc_char ch w) w [ch]" if "1 \<le> wbuf_room w"
  proof -
    have "wb_ndone w < wb_size w" using that by (simp add: wbuf_room_def word_less_nat_alt)
    then show ?thesis using wbuf_store_writes [OF assms, of "[ch]"] that by (simp add: wbuf_nocrc_char_def)
  qed
  show "writes (wbuf_nocrc_int i w) w (le_bytes 4 i)" if "4 \<le> wbuf_room w"
    using wbuf_store_writes [OF assms, of "le_bytes 4 i"] wbuf_fits(2) [OF assms that] that by (simp add: wbuf_nocrc_int_def)
  show "writes (wbuf_nocrc_literal_bytes bs w) w bs" if "length bs \<le> wbuf_room w"
    using wbuf_store_writes [OF assms that] wbuf_fits(2) [OF assms that] by (simp add: wbuf_nocrc_literal_bytes_def)
qed

lemma wbuf_crc_writes:
  assumes "wbuf_ok w"
  shows "4 \<le> wbuf_room w \<Longrightarrow> writes (wbuf_int i w) w (le_bytes 4 i)"
  unfolding wbuf_int_def by (rule writes_checksum) (rule wbuf_nocrc_writes(2) [OF assms])

text \<open>The encodings: a 64-bit number is its upper half and then its lower half, a byte string is preceded by its length.\<close>

definition ull_bytes :: "64 word \<Rightarrow> byte list" where
  "ull_bytes ull = le_bytes 4 (ucast (drop_bit 32 ull) :: 32 word) @ le_bytes 4 (ucast (ull AND 0xFFFFFFFF) :: 32 word)"

definition string_bytes :: "byte list \<Rightarrow> byte list" where
  "string_bytes bs = le_bytes 4 (of_nat (length bs) :: 32 word) @ bs"

lemma length_wire [simp]: "length (ull_bytes ull) = 8" "length (string_bytes bs) = 4 + length bs"
  by (simp_all add: ull_bytes_def string_bytes_def)

lemma wbuf_writes:
  assumes "wbuf_ok w"
  shows "8 \<le> wbuf_room w \<Longrightarrow> writes (wbuf_nocrc_ulonglong ull w) w (ull_bytes ull)"
    and "8 \<le> wbuf_room w \<Longrightarrow> writes (wbuf_ulonglong ull w) w (ull_bytes ull)"
    and "4 + length bs \<le> wbuf_room w \<Longrightarrow> writes (wbuf_nocrc_bytes bs w) w (string_bytes bs)"
  unfolding wbuf_nocrc_ulonglong_def wbuf_ulonglong_def wbuf_nocrc_bytes_def ull_bytes_def string_bytes_def
  using assms by (auto intro!: writes_then wbuf_nocrc_writes wbuf_crc_writes)

subsection \<open>What is read\<close>

definition rbuf_ok :: "rbuf \<Rightarrow> bool" where
  "rbuf_ok r \<longleftrightarrow> unat (rb_size r) \<le> length (rb_buf r) \<and> rb_ndone r \<le> rb_size r"

definition unread :: "rbuf \<Rightarrow> byte list" where
  "unread r = drop (unat (rb_ndone r)) (take (unat (rb_size r)) (rb_buf r))"

text \<open>\<open>reads m r x rest\<close>: the call returns \<open>x\<close> and leaves \<open>rest\<close> to be read, in the same buffer.\<close>

definition reads :: "('a \<times> rbuf) option \<Rightarrow> rbuf \<Rightarrow> 'a \<Rightarrow> byte list \<Rightarrow> bool" where
  "reads m r x rest \<longleftrightarrow> (\<exists>r'. m = Some (x, r') \<and> rbuf_ok r' \<and> unread r' = rest \<and> rb_buf r' = rb_buf r \<and> rb_size r' = rb_size r)"

lemma reads_then:
  assumes "reads m r x rest" "\<And>r'. rbuf_ok r' \<Longrightarrow> unread r' = rest \<Longrightarrow> rb_buf r' = rb_buf r \<Longrightarrow> rb_size r' = rb_size r \<Longrightarrow> reads (f (x, r')) r' y rest'"
  shows "reads (Option.bind m f) r y rest'"
proof -
  obtain r' where r: "m = Some (x, r')" "rbuf_ok r'" "unread r' = rest" "rb_buf r' = rb_buf r" "rb_size r' = rb_size r" using assms(1) by (auto simp: reads_def)
  show ?thesis using assms(2) [OF r(2-5)] r by (auto simp: reads_def)
qed

lemma reads_Some: "reads (Some (x, r)) r y rest \<longleftrightarrow> x = y \<and> rbuf_ok r \<and> unread r = rest"
  by (auto simp: reads_def)

lemma rbuf_fits:
  assumes "rbuf_ok r" "unread r = bs @ rest"
  shows "unat (rb_ndone r + of_nat (length bs)) = unat (rb_ndone r) + length bs" "rb_ndone r + of_nat (length bs) \<le> rb_size r"
    "rbuf_load (rb_ndone r) (length bs) r = Some bs" "reads (Some (x, r\<lparr>rb_ndone := rb_ndone r + of_nat (length bs)\<rparr>)) r x rest"
proof -
  have len: "unat (rb_size r) - unat (rb_ndone r) = length bs + length rest"
    using arg_cong [OF assms(2), of length] assms(1) by (simp add: unread_def rbuf_ok_def min_absorb2)
  moreover have "unat (rb_ndone r) \<le> unat (rb_size r)" using assms(1) by (simp add: rbuf_ok_def word_le_nat_alt)
  ultimately have le: "unat (rb_ndone r) + length bs \<le> unat (rb_size r)" by linarith
  then have "unat (rb_ndone r) + length bs < 2 ^ 32" using word_size_bound [of "rb_size r"] by simp
  then show u: "unat (rb_ndone r + of_nat (length bs)) = unat (rb_ndone r) + length bs" by (rule of_nat_fits)
  show s: "rb_ndone r + of_nat (length bs) \<le> rb_size r" unfolding word_le_nat_alt u by (rule le)
  have "take (length bs) (unread r) = bs" unfolding assms(2) by simp
  moreover have "take (length bs) (unread r) = take (length bs) (drop (unat (rb_ndone r)) (rb_buf r))" using le by (simp add: unread_def drop_take take_take min_def)
  ultimately show "rbuf_load (rb_ndone r) (length bs) r = Some bs" using le assms(1) by (simp add: rbuf_load_def rbuf_ok_def)
  have "unread (r\<lparr>rb_ndone := rb_ndone r + of_nat (length bs)\<rparr>) = drop (length bs) (unread r)" by (simp add: unread_def u add.commute)
  then show "reads (Some (x, r\<lparr>rb_ndone := rb_ndone r + of_nat (length bs)\<rparr>)) r x rest" using s assms by (simp add: reads_def rbuf_ok_def)
qed

lemma rbuf_reads:
  assumes "rbuf_ok r"
  shows "unread r = b # rest \<Longrightarrow> reads (rbuf_char r) r b rest"
    and "unread r = le_bytes 4 i @ rest \<Longrightarrow> reads (rbuf_int r) r i rest"
proof -
  show "reads (rbuf_char r) r b rest" if u: "unread r = b # rest"
  proof -
    have u': "unread r = [b] @ rest" using u by simp
    note f = rbuf_fits [OF assms u']
    have "rb_ndone r < rb_size r" using f(1,2) by (simp add: word_less_nat_alt word_le_nat_alt)
    then show ?thesis using f(3) f(4) [of b] by (simp add: rbuf_char_def)
  qed
  show "reads (rbuf_int r) r i rest" if u: "unread r = le_bytes 4 i @ rest"
    using rbuf_fits [OF assms u] by (simp add: rbuf_int_def)
qed

lemma halves: "(push_bit 32 (ucast (ucast (drop_bit 32 ull) :: 32 word)) OR ucast (ucast (ull AND 0xFFFFFFFF) :: 32 word) :: 64 word) = ull"
proof (rule bit_word_eqI)
  fix n assume "n < LENGTH(64)"
  have m: "(0xFFFFFFFF :: 64 word) = mask 32" by (simp add: mask_eq_exp_minus_1)
  show "bit (push_bit 32 (ucast (ucast (drop_bit 32 ull) :: 32 word)) OR ucast (ucast (ull AND 0xFFFFFFFF) :: 32 word) :: 64 word) n = bit ull n"
    using \<open>n < LENGTH(64)\<close> unfolding m by (auto simp: bit_or_iff bit_push_bit_iff bit_ucast_iff bit_drop_bit_eq bit_and_iff bit_mask_iff)
qed

lemma rbuf_ulonglong_reads:
  assumes "rbuf_ok r" "unread r = ull_bytes ull @ rest"
  shows "reads (rbuf_ulonglong r) r ull rest"
  unfolding rbuf_ulonglong_def
  by (rule reads_then [OF rbuf_reads(2) [OF assms(1)]], use assms(2) in \<open>simp add: ull_bytes_def\<close>)
    (simp, rule reads_then [OF rbuf_reads(2)], assumption, assumption, simp add: reads_Some halves)

lemma rbuf_bytes_reads:
  assumes "rbuf_ok r" "unread r = string_bytes bs @ rest" "length bs < 2 ^ 32"
  shows "\<exists>p. reads (rbuf_bytes r) r (p, of_nat (length bs)) rest \<and> rbuf_load p (length bs) r = Some bs"
proof -
  have "reads (rbuf_int r) r (of_nat (length bs)) (bs @ rest)" by (rule rbuf_reads(2) [OF assms(1)]) (simp add: assms(2) string_bytes_def)
  then obtain r1 where r1: "rbuf_int r = Some (of_nat (length bs), r1)" "rbuf_ok r1" "unread r1 = bs @ rest" "rb_buf r1 = rb_buf r" "rb_size r1 = rb_size r" by (auto simp: reads_def)
  note f = rbuf_fits [OF r1(2,3)]
  have "rbuf_load (rb_ndone r1) (length bs) r = Some bs" using f(3) r1(4) by (simp add: rbuf_load_def)
  moreover have "reads (rbuf_bytes r) r (rb_ndone r1, of_nat (length bs)) rest"
    using r1 f(2) f(4) [of "(rb_ndone r1, of_nat (length bs))"] by (simp add: rbuf_bytes_def rbuf_literal_bytes_def reads_def)
  ultimately show ?thesis by blast
qed

text \<open>
  The check in \<open>rbuf_literal_bytes\<close> comes after the addition, so a length near \<open>2 ^ 32\<close> wraps around and passes: the position even moves backwards, and the bytes of the string
  lie outside the buffer.
\<close>

lemma rbuf_literal_bytes_wraps:
  "rbuf_literal_bytes (- 1) \<lparr>rb_buf = [7], rb_size = 1, rb_ndone = 1\<rparr> = Some (1, \<lparr>rb_buf = [7], rb_size = 1, rb_ndone = 0\<rparr>)"
  "rbuf_load 1 (unat (- 1 :: 32 word)) \<lparr>rb_buf = [7], rb_size = 1, rb_ndone = 0\<rparr> = None"
  by (simp_all add: rbuf_literal_bytes_def rbuf_load_def unsigned_minus_1_eq_mask mask_eq_exp_minus_1)

end
