(* ===== verification/Msg_Buffer.thy ===== *)
theory Msg_Buffer
  imports Ft_Msg Wbuf
begin

text \<open>
  Messages on disk and in the buffers of interior nodes: \<open>src/ft/msg.cc\<close>, the serialization of \<open>src/ft/txn/xids.cc\<close>, and \<open>src/ft/msg_buffer.cc\<close>. A message buffer is a growing block of memory
  in which the entries lie one after the other; an entry is known by its offset.

  Sizes and offsets are \<open>int\<close> in the code; a sum that does not fit is \<open>None\<close>, and so is an access outside the allocated memory. \<open>junk\<close> gives the bytes of fresh memory. The byte of a message type that
  is none of the enumeration is \<open>None\<close>: the classification of message types asserts that there is no such type.
\<close>

subsection \<open>Messages\<close>

definition wbuf_nocrc_TXNID :: "TXNID \<Rightarrow> wbuf \<Rightarrow> wbuf option" where
  "wbuf_nocrc_TXNID txnid w = wbuf_nocrc_ulonglong txnid w"

fun wbuf_txnids :: "TXNID list \<Rightarrow> wbuf \<Rightarrow> wbuf option" where
  "wbuf_txnids [] w = Some w"
| "wbuf_txnids (xid # xids) w = do {
     w \<leftarrow> wbuf_nocrc_TXNID xid w;
     wbuf_txnids xids w
   }"

definition wbuf_nocrc_xids :: "XIDS \<Rightarrow> wbuf \<Rightarrow> wbuf option" where
  "wbuf_nocrc_xids xids w = do {
     w \<leftarrow> wbuf_nocrc_char (of_nat (length xids)) w;
     wbuf_txnids xids w
   }"

fun rbuf_txnids :: "nat \<Rightarrow> rbuf \<Rightarrow> (TXNID list \<times> rbuf) option" where
  "rbuf_txnids 0 r = Some ([], r)"
| "rbuf_txnids (Suc n) r = do {
     (xid, r) \<leftarrow> rbuf_ulonglong r;
     (xids, r) \<leftarrow> rbuf_txnids n r;
     Some (xid # xids, r)
   }"

definition toku_xids_create_from_buffer :: "rbuf \<Rightarrow> (XIDS \<times> rbuf) option" where
  "toku_xids_create_from_buffer r = do {
     (num_xids, r) \<leftarrow> rbuf_char r;
     ensure (unat num_xids < MAX_TRANSACTION_RECORDS);
     rbuf_txnids (unat num_xids) r
   }"

definition ft_msg_types :: "ft_msg_type list" where
  "ft_msg_types = [FT_NONE, FT_INSERT, FT_DELETE_ANY, FT_ABORT_ANY, FT_COMMIT_ANY, FT_COMMIT_BROADCAST_ALL, FT_COMMIT_BROADCAST_TXN,
     FT_ABORT_BROADCAST_TXN, FT_INSERT_NO_OVERWRITE, FT_OPTIMIZE, FT_OPTIMIZE_FOR_UPGRADE, FT_UPDATE, FT_UPDATE_BROADCAST_ALL]"

definition ft_msg_type_of :: "byte \<Rightarrow> ft_msg_type option" where
  "ft_msg_type_of b = find (\<lambda>t. ft_msg_type_code t = b) ft_msg_types"

definition total_size :: "ft_msg \<Rightarrow> nat" where
  "total_size msg = 8 + (2 + 8) + (length (msg_key msg) + length (msg_val msg)) + toku_xids_get_serialize_size (msg_xids msg)"

definition serialize_to_wbuf :: "ft_msg \<Rightarrow> bool \<Rightarrow> wbuf \<Rightarrow> wbuf option" where
  "serialize_to_wbuf msg is_fresh w = do {
     w \<leftarrow> wbuf_nocrc_char (ft_msg_type_code (msg_type msg)) w;
     w \<leftarrow> wbuf_nocrc_char (if is_fresh then 1 else 0) w;
     w \<leftarrow> wbuf_ulonglong (msg_msn msg) w;
     w \<leftarrow> wbuf_nocrc_xids (msg_xids msg) w;
     w \<leftarrow> wbuf_nocrc_bytes (msg_key msg) w;
     wbuf_nocrc_bytes (msg_val msg) w
   }"

text \<open>The message gets pointers to the key and the value in the buffer; here they are loaded.\<close>

definition rbuf_string :: "rbuf \<Rightarrow> (byte list \<times> rbuf) option" where
  "rbuf_string r = do {
     ((p, n), r) \<leftarrow> rbuf_bytes r;
     bs \<leftarrow> rbuf_load p (unat n) r;
     Some (bs, r)
   }"

definition deserialize_from_rbuf :: "rbuf \<Rightarrow> ((ft_msg \<times> bool) \<times> rbuf) option" where
  "deserialize_from_rbuf r = do {
     (b, r) \<leftarrow> rbuf_char r;
     (fresh, r) \<leftarrow> rbuf_char r;
     (m, r) \<leftarrow> rbuf_ulonglong r;
     (x, r) \<leftarrow> toku_xids_create_from_buffer r;
     (key, r) \<leftarrow> rbuf_string r;
     (val, r) \<leftarrow> rbuf_string r;
     t \<leftarrow> ft_msg_type_of b;
     Some ((\<lparr>msg_key = key, msg_val = val, msg_type = t, msg_msn = m, msg_xids = x\<rparr>, fresh \<noteq> 0), r)
   }"

definition deserialize_from_rbuf_v13 :: "64 word \<Rightarrow> rbuf \<Rightarrow> (ft_msg \<times> rbuf) option" where
  "deserialize_from_rbuf_v13 m r = do {
     (b, r) \<leftarrow> rbuf_char r;
     (x, r) \<leftarrow> toku_xids_create_from_buffer r;
     (key, r) \<leftarrow> rbuf_string r;
     (val, r) \<leftarrow> rbuf_string r;
     t \<leftarrow> ft_msg_type_of b;
     Some (\<lparr>msg_key = key, msg_val = val, msg_type = t, msg_msn = m, msg_xids = x\<rparr>, r)
   }"

subsection \<open>Message buffers\<close>

record message_buffer =
  mb_num_entries :: nat
  mb_memory :: "byte list option"
  mb_memory_size :: nat
  mb_memory_used :: nat

definition mb_create :: message_buffer where
  "mb_create = \<lparr>mb_num_entries = 0, mb_memory = None, mb_memory_size = 0, mb_memory_used = 0\<rparr>"

definition mb_clone :: "message_buffer \<Rightarrow> message_buffer" where
  "mb_clone src = \<lparr>mb_num_entries = mb_num_entries src, mb_memory = Some (case mb_memory src of None \<Rightarrow> [] | Some mem \<Rightarrow> mem),
     mb_memory_size = mb_memory_size src, mb_memory_used = mb_memory_used src\<rparr>"

definition mb_resize :: "(nat \<Rightarrow> byte) \<Rightarrow> nat \<Rightarrow> message_buffer \<Rightarrow> message_buffer" where
  "mb_resize junk new_size mb =
     (let old = (case mb_memory mb of None \<Rightarrow> [] | Some mem \<Rightarrow> mem)
      in mb\<lparr>mb_memory := Some (map (\<lambda>i. if i < length old then old ! i else junk i) [0..<new_size]), mb_memory_size := new_size\<rparr>)"

function next_power_of_two_from :: "nat \<Rightarrow> nat \<Rightarrow> nat option" where
  "next_power_of_two_from r n =
     (if 0 < r \<and> r < n then (if r * 2 < 2 ^ 31 then next_power_of_two_from (r * 2) n else None) else Some r)"
  by pat_completeness auto
termination by (relation "measure (\<lambda>(r, n). n - r)") auto

declare next_power_of_two_from.simps [simp del]

definition next_power_of_two :: "nat \<Rightarrow> nat option" where
  "next_power_of_two n = next_power_of_two_from 4096 n"

text \<open>The packed struct of an entry: lengths of key and value, type, freshness, MSN and the ids, followed by the key and the value.\<close>

definition xids_bytes :: "XIDS \<Rightarrow> byte list" where
  "xids_bytes xids = of_nat (length xids) # concat (map (le_bytes 8) xids)"

definition entry_bytes :: "ft_msg \<Rightarrow> bool \<Rightarrow> byte list" where
  "entry_bytes msg is_fresh =
     le_bytes 4 (of_nat (length (msg_key msg)) :: 32 word) @ le_bytes 4 (of_nat (length (msg_val msg)) :: 32 word) @
     [ft_msg_type_code (msg_type msg), if is_fresh then 1 else 0] @ le_bytes 8 (msg_msn msg) @ xids_bytes (msg_xids msg) @ msg_key msg @ msg_val msg"

definition msg_memsize_in_buffer :: "ft_msg \<Rightarrow> nat" where
  "msg_memsize_in_buffer msg = 19 + length (msg_key msg) + length (msg_val msg) + toku_xids_get_size (msg_xids msg) - 1"

definition peek :: "message_buffer \<Rightarrow> nat \<Rightarrow> nat \<Rightarrow> byte list option" where
  "peek mb pos n = do {
     mem \<leftarrow> mb_memory mb;
     ensure (pos + n \<le> length mem);
     Some (take n (drop pos mem))
   }"

definition poke :: "nat \<Rightarrow> byte list \<Rightarrow> message_buffer \<Rightarrow> message_buffer option" where
  "poke pos bytes mb = do {
     mem \<leftarrow> mb_memory mb;
     ensure (pos + length bytes \<le> length mem);
     Some (mb\<lparr>mb_memory := Some (take pos mem @ bytes @ drop (pos + length bytes) mem)\<rparr>)
   }"

definition enqueue :: "(nat \<Rightarrow> byte) \<Rightarrow> ft_msg \<Rightarrow> bool \<Rightarrow> message_buffer \<Rightarrow> (nat \<times> message_buffer) option" where
  "enqueue junk msg is_fresh mb = do {
     let need_space_here = msg_memsize_in_buffer msg;
     let need_space_total = mb_memory_used mb + need_space_here;
     ensure (need_space_total < 2 ^ 31);
     mb \<leftarrow> (if mb_memory mb = None \<or> need_space_total > mb_memory_size mb
            then do { next_2 \<leftarrow> next_power_of_two need_space_total; Some (mb_resize junk next_2 mb) }
            else Some mb);
     let offset = mb_memory_used mb;
     mb \<leftarrow> poke offset (entry_bytes msg is_fresh) mb;
     Some (offset, mb\<lparr>mb_num_entries := mb_num_entries mb + 1, mb_memory_used := offset + need_space_here\<rparr>)
   }"

definition set_freshness :: "nat \<Rightarrow> bool \<Rightarrow> message_buffer \<Rightarrow> message_buffer option" where
  "set_freshness offset is_fresh mb = poke (offset + 9) [if is_fresh then 1 else 0] mb"

definition get_freshness :: "nat \<Rightarrow> message_buffer \<Rightarrow> bool option" where
  "get_freshness offset mb = map_option (\<lambda>bs. bs \<noteq> [0]) (peek mb (offset + 9) 1)"

definition get_message :: "nat \<Rightarrow> message_buffer \<Rightarrow> ft_msg option" where
  "get_message offset mb = do {
     klen \<leftarrow> peek mb offset 4;
     vlen \<leftarrow> peek mb (offset + 4) 4;
     let keylen = unat (le_word klen :: 32 word);
     let vallen = unat (le_word vlen :: 32 word);
     b \<leftarrow> peek mb (offset + 8) 1;
     msn \<leftarrow> peek mb (offset + 10) 8;
     num \<leftarrow> peek mb (offset + 18) 1;
     let num_xids = unat (hd num);
     xids \<leftarrow> peek mb (offset + 19) (8 * num_xids);
     let end_of_array = offset + 19 + 8 * num_xids;
     key \<leftarrow> peek mb end_of_array keylen;
     val \<leftarrow> peek mb (end_of_array + keylen) vallen;
     t \<leftarrow> ft_msg_type_of (hd b);
     Some \<lparr>msg_key = key, msg_val = val, msg_type = t, msg_msn = le_word msn, msg_xids = map (\<lambda>i. le_word (take 8 (drop (8 * i) xids))) [0..<num_xids]\<rparr>
   }"

definition get_message_key_msn :: "nat \<Rightarrow> message_buffer \<Rightarrow> (byte list \<times> 64 word) option" where
  "get_message_key_msn offset mb = do {
     klen \<leftarrow> peek mb offset 4;
     msn \<leftarrow> peek mb (offset + 10) 8;
     num \<leftarrow> peek mb (offset + 18) 1;
     key \<leftarrow> peek mb (offset + 19 + 8 * unat (hd num)) (unat (le_word klen :: 32 word));
     Some (key, le_word msn)
   }"

text \<open>The loop of \<open>iterate\<close>, with a callback that passes a state on.\<close>

function iterate_from :: "(ft_msg \<Rightarrow> bool \<Rightarrow> 's \<Rightarrow> (int \<times> 's) option) \<Rightarrow> message_buffer \<Rightarrow> nat \<Rightarrow> 's \<Rightarrow> (int \<times> 's) option" where
  "iterate_from fn mb offset s =
     (if offset < mb_memory_used mb then
        case get_message offset mb of
          None \<Rightarrow> None
        | Some msg \<Rightarrow> (case get_freshness offset mb of
            None \<Rightarrow> None
          | Some is_fresh \<Rightarrow> (case fn msg is_fresh s of
              None \<Rightarrow> None
            | Some (r, s) \<Rightarrow> if r \<noteq> 0 then Some (r, s) else iterate_from fn mb (offset + msg_memsize_in_buffer msg) s))
      else Some (0, s))"
  by pat_completeness auto
termination by (relation "measure (\<lambda>(fn, mb, offset, s). mb_memory_used mb - offset)") (auto simp: msg_memsize_in_buffer_def toku_xids_get_size_def)

declare iterate_from.simps [simp del]

definition mb_iterate :: "(ft_msg \<Rightarrow> bool \<Rightarrow> 's \<Rightarrow> (int \<times> 's) option) \<Rightarrow> message_buffer \<Rightarrow> 's \<Rightarrow> (int \<times> 's) option" where
  "mb_iterate fn mb s = iterate_from fn mb 0 s"

definition mb_equals :: "message_buffer \<Rightarrow> message_buffer \<Rightarrow> bool option" where
  "mb_equals mb other =
     (if mb_memory_used mb \<noteq> mb_memory_used other then Some False
      else do { a \<leftarrow> peek mb 0 (mb_memory_used mb); b \<leftarrow> peek other 0 (mb_memory_used mb); Some (a = b) })"

definition mb_serialize_to_wbuf :: "message_buffer \<Rightarrow> wbuf \<Rightarrow> wbuf option" where
  "mb_serialize_to_wbuf mb w = do {
     w \<leftarrow> wbuf_nocrc_int (of_nat (mb_num_entries mb)) w;
     (r, w) \<leftarrow> mb_iterate (\<lambda>msg is_fresh w. map_option (Pair 0) (serialize_to_wbuf msg is_fresh w)) mb w;
     Some w
   }"

text \<open>The three arrays of offsets are optional; an offset goes to the one of its message.\<close>

record mb_offsets =
  fresh_offsets :: "nat list option"
  stale_offsets :: "nat list option"
  broadcast_offsets :: "nat list option"

definition note_offset :: "ft_msg_type \<Rightarrow> bool \<Rightarrow> nat \<Rightarrow> mb_offsets \<Rightarrow> mb_offsets" where
  "note_offset t is_fresh offset os =
     (if ft_msg_type_applies_once t then
        if is_fresh then os\<lparr>fresh_offsets := map_option (\<lambda>l. l @ [offset]) (fresh_offsets os)\<rparr>
        else os\<lparr>stale_offsets := map_option (\<lambda>l. l @ [offset]) (stale_offsets os)\<rparr>
      else os\<lparr>broadcast_offsets := map_option (\<lambda>l. l @ [offset]) (broadcast_offsets os)\<rparr>)"

fun deserialize_messages :: "(nat \<Rightarrow> byte) \<Rightarrow> nat \<Rightarrow> mb_offsets \<Rightarrow> message_buffer \<Rightarrow> rbuf \<Rightarrow> ((mb_offsets \<times> message_buffer) \<times> rbuf) option" where
  "deserialize_messages junk 0 os mb r = Some ((os, mb), r)"
| "deserialize_messages junk (Suc n) os mb r = do {
     ((msg, is_fresh), r) \<leftarrow> deserialize_from_rbuf r;
     ensure (ft_msg_type_applies_once (msg_type msg) \<or> ft_msg_type_applies_all (msg_type msg) \<or> ft_msg_type_does_nothing (msg_type msg));
     (offset, mb) \<leftarrow> enqueue junk msg is_fresh mb;
     deserialize_messages junk n (note_offset (msg_type msg) is_fresh offset os) mb r
   }"

definition mb_deserialize_from_rbuf :: "(nat \<Rightarrow> byte) \<Rightarrow> mb_offsets \<Rightarrow> message_buffer \<Rightarrow> rbuf \<Rightarrow> ((mb_offsets \<times> message_buffer) \<times> rbuf) option" where
  "mb_deserialize_from_rbuf junk os mb r = do {
     (n, r) \<leftarrow> rbuf_int r;
     let n_in_this_buffer = sint n;
     ensure (n_in_this_buffer \<ge> 0);
     let hint = unat (rb_size r + 64);
     ensure (hint < 2 ^ 31);
     ((os, mb), r) \<leftarrow> deserialize_messages junk (nat n_in_this_buffer) os (mb_resize junk hint mb) r;
     ensure (int (mb_num_entries mb) = n_in_this_buffer);
     Some ((os, mb), r)
   }"

fun deserialize_messages_v13 :: "(nat \<Rightarrow> byte) \<Rightarrow> nat \<Rightarrow> 64 word \<Rightarrow> mb_offsets \<Rightarrow> message_buffer \<Rightarrow> rbuf \<Rightarrow> ((64 word \<times> mb_offsets \<times> message_buffer) \<times> rbuf) option" where
  "deserialize_messages_v13 junk 0 highest os mb r = Some ((highest, os, mb), r)"
| "deserialize_messages_v13 junk (Suc n) highest os mb r = do {
     (msg, r) \<leftarrow> deserialize_from_rbuf_v13 (highest + 1) r;
     ensure (ft_msg_type_applies_once (msg_type msg) \<or> ft_msg_type_applies_all (msg_type msg) \<or> ft_msg_type_does_nothing (msg_type msg));
     (offset, mb) \<leftarrow> enqueue junk msg True mb;
     deserialize_messages_v13 junk n (highest + 1) (note_offset (msg_type msg) True offset os) mb r
   }"

text \<open>The result has the MSN of the last message and the header's MSN after the subtraction.\<close>

definition mb_deserialize_from_rbuf_v13 ::
  "(nat \<Rightarrow> byte) \<Rightarrow> 64 word \<Rightarrow> mb_offsets \<Rightarrow> message_buffer \<Rightarrow> rbuf \<Rightarrow> ((64 word \<times> 64 word \<times> mb_offsets \<times> message_buffer) \<times> rbuf) option" where
  "mb_deserialize_from_rbuf_v13 junk highest_unused os mb r = do {
     (n, r) \<leftarrow> rbuf_int r;
     let n_in_this_buffer = sint n;
     ensure (n_in_this_buffer \<ge> 0 \<or> fresh_offsets os = None \<and> broadcast_offsets os = None);
     let highest_unused = highest_unused - of_int n_in_this_buffer;
     ((highest, os, mb), r) \<leftarrow> deserialize_messages_v13 junk (nat n_in_this_buffer) highest_unused os mb r;
     Some ((highest, highest_unused, os, mb), r)
   }"

end
