(* ===== verification/Msg_Buffer_Props.thy ===== *)
theory Msg_Buffer_Props
  imports Msg_Buffer
begin

text \<open>
  A message buffer holds the sequence of the messages that were put into it, each at its offset; what is written to disk is read back as the same messages.
\<close>

subsection \<open>One message\<close>

definition xids_wire :: "XIDS \<Rightarrow> byte list" where
  "xids_wire xids = of_nat (length xids) # concat (map ull_bytes xids)"

definition msg_wire :: "ft_msg \<Rightarrow> bool \<Rightarrow> byte list" where
  "msg_wire msg is_fresh = [ft_msg_type_code (msg_type msg)] @ [if is_fresh then 1 else 0] @ ull_bytes (msg_msn msg) @ xids_wire (msg_xids msg) @
     string_bytes (msg_key msg) @ string_bytes (msg_val msg)"

definition msg_ok :: "ft_msg \<Rightarrow> bool" where
  "msg_ok msg \<longleftrightarrow> length (msg_xids msg) < MAX_TRANSACTION_RECORDS"

lemma length_xids_wire [simp]: "length (xids_wire xids) = toku_xids_get_serialize_size xids"
  by (induction xids) (simp_all add: xids_wire_def toku_xids_get_serialize_size_def)

lemma length_msg_wire [simp]: "length (msg_wire msg is_fresh) = total_size msg"
  by (simp add: msg_wire_def total_size_def)

lemma ft_msg_type_of_code [simp]: "ft_msg_type_of (ft_msg_type_code t) = Some t"
  by (cases t) (simp_all add: ft_msg_type_of_def ft_msg_types_def)

lemma wbuf_txnids_writes: "wbuf_ok w \<Longrightarrow> 8 * length xids \<le> wbuf_room w \<Longrightarrow> writes (wbuf_txnids xids w) w (concat (map ull_bytes xids))"
proof (induction xids arbitrary: w)
  case Nil
  then show ?case by (simp add: writes_def)
next
  case (Cons x xids)
  have "writes (wbuf_txnids (x # xids) w) w (ull_bytes x @ concat (map ull_bytes xids))"
    unfolding wbuf_txnids.simps wbuf_nocrc_TXNID_def
    by (rule writes_then [OF wbuf_writes(1) [OF Cons.prems(1)]]) (use Cons in auto)
  then show ?case by simp
qed

lemma wbuf_xids_writes:
  assumes "wbuf_ok w" "toku_xids_get_serialize_size xids \<le> wbuf_room w"
  shows "writes (wbuf_nocrc_xids xids w) w (xids_wire xids)"
proof -
  have room: "1 \<le> wbuf_room w" "1 + 8 * length xids \<le> wbuf_room w" using assms(2) by (simp_all add: toku_xids_get_serialize_size_def)
  have "writes (wbuf_nocrc_xids xids w) w ([of_nat (length xids)] @ concat (map ull_bytes xids))"
    unfolding wbuf_nocrc_xids_def by (rule writes_then [OF wbuf_nocrc_writes(1) [OF assms(1) room(1)]]) (rule wbuf_txnids_writes, use room(2) in auto)
  then show ?thesis by (simp add: xids_wire_def)
qed

lemma serialize_writes:
  assumes "wbuf_ok w" "total_size msg \<le> wbuf_room w"
  shows "writes (serialize_to_wbuf msg is_fresh w) w (msg_wire msg is_fresh)"
  unfolding serialize_to_wbuf_def msg_wire_def
  by (intro writes_then wbuf_nocrc_writes wbuf_writes wbuf_xids_writes; (use assms in \<open>simp add: total_size_def\<close>)?)

lemma rbuf_txnids_reads: "rbuf_ok r \<Longrightarrow> unread r = concat (map ull_bytes xids) @ rest \<Longrightarrow> reads (rbuf_txnids (length xids) r) r xids rest"
proof (induction xids arbitrary: r)
  case Nil
  then show ?case by (simp add: reads_def)
next
  case (Cons x xids)
  have "reads (rbuf_ulonglong r) r x (concat (map ull_bytes xids) @ rest)" using Cons.prems by (intro rbuf_ulonglong_reads) simp_all
  then show ?case
  proof (simp, rule reads_then)
    fix r' assume r': "rbuf_ok r'" "unread r' = concat (map ull_bytes xids) @ rest"
    have "reads (rbuf_txnids (length xids) r') r' xids rest" by (rule Cons.IH [OF r'])
    then show "reads (case (x, r') of (xid, r) \<Rightarrow> Option.bind (rbuf_txnids (length xids) r) (\<lambda>(xids, r). Some (xid # xids, r))) r' (x # xids) rest"
      by (auto simp: reads_def)
  qed
qed

lemma xids_from_buffer_reads:
  assumes "rbuf_ok r" "unread r = xids_wire xids @ rest" "length xids < MAX_TRANSACTION_RECORDS"
  shows "reads (toku_xids_create_from_buffer r) r xids rest"
proof -
  have n: "unat (of_nat (length xids) :: byte) = length xids" using assms(3) by (simp add: unat_of_nat)
  have "reads (rbuf_char r) r (of_nat (length xids)) (concat (map ull_bytes xids) @ rest)" using assms(1,2) by (intro rbuf_reads(1)) (simp_all add: xids_wire_def)
  then show ?thesis unfolding toku_xids_create_from_buffer_def
    by (rule reads_then) (use n assms(3) rbuf_txnids_reads in simp)
qed

lemma rbuf_string_reads:
  assumes "rbuf_ok r" "unread r = string_bytes bs @ rest" "length bs < 2 ^ 32"
  shows "reads (rbuf_string r) r bs rest"
proof -
  obtain p where p: "reads (rbuf_bytes r) r (p, of_nat (length bs)) rest" "rbuf_load p (length bs) r = Some bs" using rbuf_bytes_reads [OF assms] by blast
  have n: "unat (of_nat (length bs) :: 32 word) = length bs" using assms(3) by (simp add: unat_of_nat)
  show ?thesis unfolding rbuf_string_def
  proof (rule reads_then [OF p(1)])
    fix r' assume r': "rbuf_ok r'" "unread r' = rest" "rb_buf r' = rb_buf r"
    have "rbuf_load p (length bs) r' = Some bs" using p(2) r'(3) by (simp add: rbuf_load_def)
    then show "reads (case ((p, of_nat (length bs) :: 32 word), r') of (x, r) \<Rightarrow> (case x of (p, n) \<Rightarrow> \<lambda>r. Option.bind (rbuf_load p (unat n) r) (\<lambda>bs. Some (bs, r))) r) r' bs rest"
      using r' n by (simp add: reads_def)
  qed
qed

lemma deserialize_reads:
  assumes "rbuf_ok r" "unread r = msg_wire msg is_fresh @ rest" "msg_ok msg" "length (msg_key msg) < 2 ^ 32" "length (msg_val msg) < 2 ^ 32"
  shows "reads (deserialize_from_rbuf r) r (msg, is_fresh) rest"
proof -
  let ?s = "string_bytes (msg_key msg) @ string_bytes (msg_val msg) @ rest"
  have c1: "reads (rbuf_char r) r (ft_msg_type_code (msg_type msg)) ([if is_fresh then 1 else 0] @ ull_bytes (msg_msn msg) @ xids_wire (msg_xids msg) @ ?s)"
    using assms(1,2) by (intro rbuf_reads(1)) (simp_all add: msg_wire_def)
  have c2: "reads (rbuf_char r) r (if is_fresh then 1 else 0) (ull_bytes (msg_msn msg) @ xids_wire (msg_xids msg) @ ?s)"
    if "rbuf_ok r" "unread r = [if is_fresh then 1 else 0] @ ull_bytes (msg_msn msg) @ xids_wire (msg_xids msg) @ ?s" for r
    using that by (intro rbuf_reads(1)) simp_all
  have fin: "reads (Option.bind (ft_msg_type_of (ft_msg_type_code (msg_type msg)))
      (\<lambda>t. Some ((\<lparr>msg_key = msg_key msg, msg_val = msg_val msg, msg_type = t, msg_msn = msg_msn msg, msg_xids = msg_xids msg\<rparr>, (if is_fresh then 1 else 0 :: byte) \<noteq> 0), r)))
      r (msg, is_fresh) rest" if "rbuf_ok r" "unread r = rest" for r
    using that by (cases msg) (simp add: reads_def)
  show ?thesis unfolding deserialize_from_rbuf_def
    apply (rule reads_then [OF c1], simp only: prod.case)
    apply (rule reads_then [OF c2], assumption, assumption, simp only: prod.case)
    apply (rule reads_then [OF rbuf_ulonglong_reads], assumption, assumption, simp only: prod.case)
    apply (rule reads_then [OF xids_from_buffer_reads], assumption, assumption, use assms(3) in \<open>simp only: msg_ok_def\<close>, simp only: prod.case)
    apply (rule reads_then [OF rbuf_string_reads], assumption, assumption, rule assms(4), simp only: prod.case)
    apply (rule reads_then [OF rbuf_string_reads], assumption, assumption, rule assms(5), simp only: prod.case)
    by (rule fin)
qed

subsection \<open>The entries of a buffer\<close>

definition contents :: "(ft_msg \<times> bool) list \<Rightarrow> byte list" where
  "contents es = concat (map (\<lambda>(msg, is_fresh). entry_bytes msg is_fresh) es)"

definition mb_rep :: "message_buffer \<Rightarrow> (ft_msg \<times> bool) list \<Rightarrow> bool" where
  "mb_rep mb es \<longleftrightarrow> mb_num_entries mb = length es \<and> mb_memory_used mb = length (contents es) \<and> (\<forall>e\<in>set es. msg_ok (fst e)) \<and>
     mb_memory_used mb < 2 ^ 31 \<and> mb_memory_used mb \<le> mb_memory_size mb \<and>
     (case mb_memory mb of None \<Rightarrow> mb_memory_size mb = 0 | Some mem \<Rightarrow> length mem = mb_memory_size mb \<and> take (mb_memory_used mb) mem = contents es)"

lemma contents_simps [simp]:
  "contents [] = []" "contents (e # es) = entry_bytes (fst e) (snd e) @ contents es" "contents (es @ es') = contents es @ contents es'"
  by (simp_all add: contents_def case_prod_beta)

lemma mb_rep_create: "mb_rep mb_create []"
  by (simp add: mb_rep_def mb_create_def)

lemma length_id_bytes [simp]: "length (concat (map (le_bytes 8) xids)) = 8 * length xids"
  by (induction xids) simp_all

lemma length_entry_bytes [simp]: "length (entry_bytes msg is_fresh) = msg_memsize_in_buffer msg"
  by (simp add: entry_bytes_def msg_memsize_in_buffer_def toku_xids_get_size_def xids_bytes_def)

lemma memsize_pos: "msg_memsize_in_buffer msg > 0"
  by (simp add: msg_memsize_in_buffer_def toku_xids_get_size_def)

lemma peek_at: "mb_memory mb = Some mem \<Longrightarrow> mem = a @ b @ c \<Longrightarrow> pos = length a \<Longrightarrow> n = length b \<Longrightarrow> peek mb pos n = Some b"
  by (simp add: peek_def)

lemma id_bytes_back: "map (\<lambda>i. le_word (take 8 (drop (8 * i) (concat (map (le_bytes 8) xids))))) [0..<length xids] = (xids :: TXNID list)"
proof (induction xids)
  case (Cons x xids)
  have "take 8 (le_bytes 8 x @ ys) = le_bytes 8 x" "drop (8 * Suc i) (le_bytes 8 x @ ys) = drop (8 * i) ys" for i ys by simp_all
  then show ?case using Cons by (simp add: map_upt_Suc del: upt_Suc mult_Suc_right drop_append take_append)
qed simp

lemma peek_field:
  assumes "mb_memory mb = Some (pre @ concat fs @ post)" "i < length fs"
  shows "peek mb (length pre + length (concat (take i fs))) (length (fs ! i)) = Some (fs ! i)"
proof -
  have "concat fs = concat (take i fs @ fs ! i # drop (Suc i) fs)" by (simp add: id_take_nth_drop [OF assms(2), symmetric])
  then show ?thesis using assms(1) by (intro peek_at [of mb _ "pre @ concat (take i fs)" "fs ! i" "concat (drop (Suc i) fs) @ post"]) simp_all
qed

lemma get_message_at:
  assumes "mb_memory mb = Some (pre @ entry_bytes msg is_fresh @ post)" "msg_ok msg" "length (msg_key msg) < 2 ^ 32" "length (msg_val msg) < 2 ^ 32"
  shows "get_message (length pre) mb = Some msg" "get_freshness (length pre) mb = Some is_fresh"
proof -
  let ?o = "length pre" and ?k = "msg_key msg" and ?v = "msg_val msg" and ?x = "msg_xids msg" and ?t = "ft_msg_type_code (msg_type msg)" and ?f = "if is_fresh then 1 else 0 :: byte"
  let ?kl = "le_bytes 4 (of_nat (length ?k) :: 32 word)" and ?vl = "le_bytes 4 (of_nat (length ?v) :: 32 word)" and ?m = "le_bytes 8 (msg_msn msg)" and ?ids = "concat (map (le_bytes 8) ?x)"
  let ?fs = "[?kl, ?vl, [?t], [?f], ?m, [of_nat (length ?x)], ?ids, ?k, ?v]"
  have "mb_memory mb = Some (pre @ concat ?fs @ post)" using assms(1) by (simp add: entry_bytes_def xids_bytes_def)
  note at = peek_field [OF this]
  have p: "peek mb ?o 4 = Some ?kl" "peek mb (?o + 4) 4 = Some ?vl" "peek mb (?o + 8) 1 = Some [?t]" "peek mb (?o + 9) 1 = Some [?f]" "peek mb (?o + 10) 8 = Some ?m"
    "peek mb (?o + 18) 1 = Some [of_nat (length ?x)]" "peek mb (?o + 19) (8 * length ?x) = Some ?ids"
    "peek mb (?o + 19 + 8 * length ?x) (length ?k) = Some ?k" "peek mb (?o + 19 + 8 * length ?x + length ?k) (length ?v) = Some ?v"
    using at [of 0] at [of 1] at [of 2] at [of 3] at [of 4] at [of 5] at [of 6] at [of 7] at [of 8] by (simp_all add: add.assoc)
  have n: "unat (of_nat (length ?k) :: 32 word) = length ?k" "unat (of_nat (length ?v) :: 32 word) = length ?v" "unat (of_nat (length ?x) :: byte) = length ?x"
    using assms(2-4) by (simp_all add: unat_of_nat msg_ok_def)
  show "get_message ?o mb = Some msg" using p n id_bytes_back [of ?x] by (cases msg) (simp add: get_message_def Let_def)
  show "get_freshness ?o mb = Some is_fresh" using p(4) by (simp add: get_freshness_def)
qed

lemma mb_rep_split:
  assumes "mb_rep mb (es1 @ (msg, is_fresh) # es2)"
  shows "get_message (length (contents es1)) mb = Some msg" "get_freshness (length (contents es1)) mb = Some is_fresh"
proof -
  let ?es = "es1 @ (msg, is_fresh) # es2"
  have pos: "length (contents ?es) > 0" using memsize_pos [of msg] by simp
  obtain mem where mem: "mb_memory mb = Some mem" "take (mb_memory_used mb) mem = contents ?es" and used: "mb_memory_used mb = length (contents ?es)"
    using assms pos by (auto simp: mb_rep_def split: option.splits)
  have "mem = contents es1 @ entry_bytes msg is_fresh @ contents es2 @ drop (mb_memory_used mb) mem"
    using append_take_drop_id [of "mb_memory_used mb" mem] unfolding mem(2) by simp
  moreover have "msg_memsize_in_buffer msg < 2 ^ 31" using assms by (simp add: mb_rep_def)
  then have "length (msg_key msg) < 2 ^ 32" "length (msg_val msg) < 2 ^ 32" by (simp_all add: msg_memsize_in_buffer_def toku_xids_get_size_def)
  moreover have "msg_ok msg" using assms by (simp add: mb_rep_def)
  ultimately show "get_message (length (contents es1)) mb = Some msg" "get_freshness (length (contents es1)) mb = Some is_fresh"
    using get_message_at [of mb "contents es1" msg is_fresh "contents es2 @ drop (mb_memory_used mb) mem"] mem(1) by simp_all
qed

subsection \<open>Adding a message\<close>

lemma next_power_of_two_from_ok: "r = 2 ^ k \<Longrightarrow> k \<le> 30 \<Longrightarrow> n \<le> 2 ^ 30 \<Longrightarrow> \<exists>p. next_power_of_two_from r n = Some p \<and> n \<le> p \<and> p \<le> 2 ^ 30"
proof (induction "30 - k" arbitrary: r k)
  case 0
  then have "k = 30" by simp
  then show ?case using 0 by (subst next_power_of_two_from.simps) simp
next
  case (Suc m)
  show ?case
  proof (cases "r < n")
    case True
    have k: "m = 30 - Suc k" "Suc k \<le> 30" using Suc.hyps(2) by simp_all
    then have "(2::nat) ^ Suc k \<le> 2 ^ 30" by (intro power_increasing) simp_all
    then have "next_power_of_two_from r n = next_power_of_two_from (2 ^ Suc k) n" using True Suc.prems(1) by (subst next_power_of_two_from.simps) (simp add: mult.commute)
    then show ?thesis using Suc.hyps(1) [OF k(1) refl k(2) Suc.prems(3)] by simp
  next
    case False
    have "(2::nat) ^ k \<le> 2 ^ 30" using Suc.prems(2) by (intro power_increasing) simp_all
    then show ?thesis using False Suc.prems(1) by (subst next_power_of_two_from.simps) simp
  qed
qed

lemma next_power_of_two_ok: "n \<le> 2 ^ 30 \<Longrightarrow> \<exists>p. next_power_of_two n = Some p \<and> n \<le> p \<and> p \<le> 2 ^ 30"
  unfolding next_power_of_two_def by (rule next_power_of_two_from_ok [of _ 12]) simp_all

lemma mb_resize_rep:
  assumes "mb_rep mb es" "mb_memory_used mb \<le> n"
  shows "mb_rep (mb_resize junk n mb) es" "\<exists>mem. mb_memory (mb_resize junk n mb) = Some mem \<and> length mem = n" "mb_memory_used (mb_resize junk n mb) = mb_memory_used mb" "mb_num_entries (mb_resize junk n mb) = mb_num_entries mb"
proof -
  let ?old = "case mb_memory mb of None \<Rightarrow> [] | Some mem \<Rightarrow> mem"
  let ?new = "map (\<lambda>i. if i < length ?old then ?old ! i else junk i) [0..<n]"
  have used: "mb_memory_used mb \<le> length ?old" "take (mb_memory_used mb) ?old = contents es"
    using assms(1) by (auto simp: mb_rep_def split: option.splits)
  have "take (mb_memory_used mb) ?new = take (mb_memory_used mb) ?old" using assms(2) used(1) by (intro nth_equalityI) auto
  then show "mb_rep (mb_resize junk n mb) es" using assms used(2) by (simp add: mb_rep_def mb_resize_def Let_def)
  show "\<exists>mem. mb_memory (mb_resize junk n mb) = Some mem \<and> length mem = n" by (simp add: mb_resize_def Let_def)
  show "mb_memory_used (mb_resize junk n mb) = mb_memory_used mb" "mb_num_entries (mb_resize junk n mb) = mb_num_entries mb" by (simp_all add: mb_resize_def Let_def)
qed

lemma enqueue_ok:
  assumes "mb_rep mb es" "msg_ok msg" "length (contents es) + msg_memsize_in_buffer msg \<le> 2 ^ 30"
  obtains mb' where "enqueue junk msg is_fresh mb = Some (length (contents es), mb')" "mb_rep mb' (es @ [(msg, is_fresh)])"
proof -
  let ?total = "mb_memory_used mb + msg_memsize_in_buffer msg"
  have used: "mb_memory_used mb = length (contents es)" "mb_memory_used mb \<le> mb_memory_size mb" using assms(1) by (simp_all add: mb_rep_def)
  have small: "?total < 2 ^ 31" "?total \<le> 2 ^ 30" using assms(3) used(1) by simp_all
  obtain mb1 where m: "(if mb_memory mb = None \<or> ?total > mb_memory_size mb then Option.bind (next_power_of_two ?total) (\<lambda>p. Some (mb_resize junk p mb)) else Some mb) = Some mb1"
    "mb_rep mb1 es" "mb_memory mb1 \<noteq> None" "?total \<le> mb_memory_size mb1" "mb_memory_used mb1 = mb_memory_used mb"
  proof (cases "mb_memory mb = None \<or> ?total > mb_memory_size mb")
    case True
    obtain p where p: "next_power_of_two ?total = Some p" "?total \<le> p" using next_power_of_two_ok [OF small(2)] by blast
    have le: "mb_memory_used mb \<le> p" using p(2) by simp
    note r = mb_resize_rep [OF assms(1) le, of junk]
    show thesis using True p r by (intro that [of "mb_resize junk p mb"]) (auto simp: mb_resize_def Let_def)
  next
    case False
    then show thesis using assms(1) by (intro that [of mb]) auto
  qed
  obtain mem where mem: "mb_memory mb1 = Some mem" "length mem = mb_memory_size mb1" "take (mb_memory_used mb) mem = contents es" "mb_num_entries mb1 = length es"
    "\<forall>e\<in>set es. msg_ok (fst e)" using m(2,3,5) by (auto simp: mb_rep_def)
  let ?e = "entry_bytes msg is_fresh"
  let ?mem = "take (mb_memory_used mb) mem @ ?e @ drop ?total mem"
  let ?mb = "mb1\<lparr>mb_memory := Some ?mem, mb_num_entries := mb_num_entries mb1 + 1, mb_memory_used := ?total\<rparr>"
  have "enqueue junk msg is_fresh mb = Some (length (contents es), ?mb)"
    unfolding enqueue_def Let_def bind_ensure_True [OF small(1)] m(1) bind.bind_lunit using m(4,5) mem(1,2) used(1) by (simp add: poke_def)
  moreover have "length (contents es) \<le> length mem" using m(4) mem(2) used(1) by simp
  then have "mb_rep ?mb (es @ [(msg, is_fresh)])" using mem m(4) used(1) small(1) assms(2) by (simp add: mb_rep_def)
  ultimately show thesis by (rule that)
qed

subsection \<open>Iteration\<close>

fun mb_visit :: "(ft_msg \<Rightarrow> bool \<Rightarrow> 's \<Rightarrow> (int \<times> 's) option) \<Rightarrow> (ft_msg \<times> bool) list \<Rightarrow> 's \<Rightarrow> (int \<times> 's) option" where
  "mb_visit fn [] s = Some (0, s)"
| "mb_visit fn ((msg, is_fresh) # es) s =
     (case fn msg is_fresh s of None \<Rightarrow> None | Some (r, s) \<Rightarrow> if r \<noteq> 0 then Some (r, s) else mb_visit fn es s)"

lemma iterate_from_ok: "mb_rep mb (es1 @ es2) \<Longrightarrow> iterate_from fn mb (length (contents es1)) s = mb_visit fn es2 s"
proof (induction es2 arbitrary: es1 s)
  case Nil
  then show ?case by (subst iterate_from.simps) (simp add: mb_rep_def)
next
  case (Cons e es2)
  obtain msg f where e: "e = (msg, f)" by (cases e)
  note g = mb_rep_split [OF Cons.prems [unfolded e]]
  have lt: "length (contents es1) < mb_memory_used mb" using Cons.prems memsize_pos [of msg] by (simp add: mb_rep_def e)
  have "iterate_from fn mb (length (contents es1) + msg_memsize_in_buffer msg) s' = mb_visit fn es2 s'" for s'
    using Cons.IH [of "es1 @ [e]" s'] Cons.prems by (simp add: e)
  then show ?case using lt g by (subst iterate_from.simps) (auto simp: e split: option.splits)
qed

lemma mb_iterate_ok: "mb_rep mb es \<Longrightarrow> mb_iterate fn mb s = mb_visit fn es s"
  using iterate_from_ok [of mb "[]" es fn s] by (simp add: mb_iterate_def)

subsection \<open>To disk and back\<close>

definition wire_entries :: "(ft_msg \<times> bool) list \<Rightarrow> byte list" where
  "wire_entries es = concat (map (\<lambda>(msg, is_fresh). msg_wire msg is_fresh) es)"

definition mb_wire :: "(ft_msg \<times> bool) list \<Rightarrow> byte list" where
  "mb_wire es = le_bytes 4 (of_nat (length es) :: 32 word) @ wire_entries es"

lemma wire_entries_simps [simp]: "wire_entries [] = []" "wire_entries (e # es) = msg_wire (fst e) (snd e) @ wire_entries es"
  by (simp_all add: wire_entries_def case_prod_beta)

lemma visit_serialize:
  "wbuf_ok w \<Longrightarrow> length (wire_entries es) \<le> wbuf_room w \<Longrightarrow>
     \<exists>w'. mb_visit (\<lambda>msg is_fresh w. map_option (Pair 0) (serialize_to_wbuf msg is_fresh w)) es w = Some (0, w') \<and> writes (Some w') w (wire_entries es)"
proof (induction es arbitrary: w)
  case Nil
  then show ?case by (simp add: writes_def)
next
  case (Cons e es)
  obtain msg f where e: "e = (msg, f)" by (cases e)
  have "total_size msg \<le> wbuf_room w" using Cons.prems(2) by (simp add: e)
  from serialize_writes [OF Cons.prems(1) this, of f] obtain w1 where w1: "serialize_to_wbuf msg f w = Some w1" "wbuf_ok w1" "written w1 = written w @ msg_wire msg f"
    "wbuf_room w1 + length (msg_wire msg f) = wbuf_room w" by (rule writesE)
  have room: "length (wire_entries es) \<le> wbuf_room w1" using Cons.prems(2) w1(4) by (simp add: e)
  obtain w2 where w2: "mb_visit (\<lambda>msg is_fresh w. map_option (Pair 0) (serialize_to_wbuf msg is_fresh w)) es w1 = Some (0, w2)" "writes (Some w2) w1 (wire_entries es)"
    using Cons.IH [OF w1(2) room] by blast
  have "writes (Some w2) w (wire_entries (e # es))" using w1 w2(2) by (auto simp: writes_def e)
  then show ?case using w1(1) w2(1) by (simp add: e)
qed

lemma mb_serialize_writes:
  assumes "mb_rep mb es" "wbuf_ok w" "length (mb_wire es) \<le> wbuf_room w"
  shows "writes (mb_serialize_to_wbuf mb w) w (mb_wire es)"
proof -
  have n: "mb_num_entries mb = length es" using assms(1) by (simp add: mb_rep_def)
  have four: "4 \<le> wbuf_room w" using assms(3) by (simp add: mb_wire_def)
  show ?thesis unfolding mb_serialize_to_wbuf_def mb_wire_def n
  proof (rule writes_then [OF wbuf_nocrc_writes(2) [OF assms(2) four]])
    fix w' assume w': "wbuf_ok w'" "wbuf_room w' + length (le_bytes 4 (of_nat (length es) :: 32 word)) = wbuf_room w"
    have room: "length (wire_entries es) \<le> wbuf_room w'" using assms(3) w'(2) by (simp add: mb_wire_def)
    obtain w2 where "mb_visit (\<lambda>msg is_fresh w. map_option (Pair 0) (serialize_to_wbuf msg is_fresh w)) es w' = Some (0, w2)" "writes (Some w2) w' (wire_entries es)"
      using visit_serialize [OF w'(1) room] by blast
    then show "writes (Option.bind (mb_iterate (\<lambda>msg is_fresh w. map_option (Pair 0) (serialize_to_wbuf msg is_fresh w)) mb w') (\<lambda>(r, w). Some w)) w' (wire_entries es)"
      by (simp add: mb_iterate_ok [OF assms(1)])
  qed
qed

text \<open>The offset of an entry, and the offsets that are noted for the messages of a buffer.\<close>

definition entry_offset :: "(ft_msg \<times> bool) list \<Rightarrow> nat \<Rightarrow> nat" where
  "entry_offset es i = length (contents (take i es))"

fun note_offsets :: "(ft_msg \<times> bool) list \<Rightarrow> nat \<Rightarrow> mb_offsets \<Rightarrow> mb_offsets" where
  "note_offsets [] offset os = os"
| "note_offsets ((msg, is_fresh) # es) offset os = note_offsets es (offset + msg_memsize_in_buffer msg) (note_offset (msg_type msg) is_fresh offset os)"

lemma deserialize_messages_ok:
  assumes "mb_rep mb es1" "rbuf_ok r" "unread r = wire_entries es2 @ rest" "\<forall>e\<in>set es2. msg_ok (fst e)" "length (contents (es1 @ es2)) \<le> 2 ^ 30"
  shows "\<exists>mb'. reads (deserialize_messages junk (length es2) os mb r) r (note_offsets es2 (length (contents es1)) os, mb') rest \<and> mb_rep mb' (es1 @ es2)"
  using assms
proof (induction es2 arbitrary: es1 os mb r)
  case Nil
  then show ?case by (auto simp: reads_def)
next
  case (Cons e es2)
  obtain msg f where e: "e = (msg, f)" by (cases e)
  have size: "length (contents es1) + msg_memsize_in_buffer msg \<le> 2 ^ 30" using Cons.prems(5) by (simp add: e)
  then have kv: "length (msg_key msg) < 2 ^ 32" "length (msg_val msg) < 2 ^ 32" by (simp_all add: msg_memsize_in_buffer_def toku_xids_get_size_def)
  have mok: "msg_ok msg" using Cons.prems(4) by (simp add: e)
  have "unread r = msg_wire msg f @ (wire_entries es2 @ rest)" using Cons.prems(3) by (simp add: e)
  from deserialize_reads [OF Cons.prems(2) this mok kv] obtain r1 where r1: "deserialize_from_rbuf r = Some ((msg, f), r1)" "rbuf_ok r1" "unread r1 = wire_entries es2 @ rest"
    "rb_buf r1 = rb_buf r" "rb_size r1 = rb_size r" by (auto simp: reads_def)
  obtain mb1 where q: "enqueue junk msg f mb = Some (length (contents es1), mb1)" "mb_rep mb1 (es1 @ [(msg, f)])" by (rule enqueue_ok [OF Cons.prems(1) mok size])
  obtain mb' where d: "reads (deserialize_messages junk (length es2) (note_offset (msg_type msg) f (length (contents es1)) os) mb1 r1) r1
      (note_offsets es2 (length (contents (es1 @ [(msg, f)]))) (note_offset (msg_type msg) f (length (contents es1)) os), mb') rest" "mb_rep mb' ((es1 @ [(msg, f)]) @ es2)"
    using Cons.IH [OF q(2) r1(2,3)] Cons.prems(4,5) by (auto simp: e)
  have "ft_msg_type_applies_once (msg_type msg) \<or> ft_msg_type_applies_all (msg_type msg) \<or> ft_msg_type_does_nothing (msg_type msg)" using ft_msg_type_classes by blast
  then have "reads (deserialize_messages junk (length (e # es2)) os mb r) r (note_offsets (e # es2) (length (contents es1)) os, mb') rest"
    using d(1) r1 q(1) by (simp add: e reads_def)
  then show ?case using d(2) by (auto simp: e)
qed

subsection \<open>Freshness and noted offsets\<close>

lemma set_freshness_ok:
  assumes "mb_rep mb (es1 @ (msg, is_fresh) # es2)"
  obtains mb' where "set_freshness (length (contents es1)) b mb = Some mb'" "mb_rep mb' (es1 @ (msg, b) # es2)"
proof -
  let ?es = "es1 @ (msg, is_fresh) # es2" and ?o = "length (contents es1)"
  let ?A = "le_bytes 4 (of_nat (length (msg_key msg)) :: 32 word) @ le_bytes 4 (of_nat (length (msg_val msg)) :: 32 word) @ [ft_msg_type_code (msg_type msg)]"
  let ?B = "le_bytes 8 (msg_msn msg) @ xids_bytes (msg_xids msg) @ msg_key msg @ msg_val msg"
  have e: "entry_bytes msg f = ?A @ (if f then 1 else 0) # ?B" for f by (simp add: entry_bytes_def)
  have pos: "length (contents ?es) > 0" using memsize_pos [of msg] by simp
  obtain mem where mem: "mb_memory mb = Some mem" "take (mb_memory_used mb) mem = contents ?es" "length mem = mb_memory_size mb" and used: "mb_memory_used mb = length (contents ?es)"
    using assms pos by (auto simp: mb_rep_def split: option.splits)
  define post where "post = drop (mb_memory_used mb) mem"
  have m: "mem = (contents es1 @ ?A) @ (if is_fresh then 1 else 0) # ?B @ contents es2 @ post"
    using append_take_drop_id [of "mb_memory_used mb" mem] e [of is_fresh] unfolding mem(2) post_def by simp
  have len: "?o + 9 = length (contents es1 @ ?A)" by simp
  let ?mem = "(contents es1 @ ?A) @ (if b then 1 else 0) # ?B @ contents es2 @ post"
  define mem' where "mem' = ?mem"
  have "set_freshness ?o b mb = Some (mb\<lparr>mb_memory := Some mem'\<rparr>)" unfolding set_freshness_def poke_def len mem(1) m mem'_def by simp
  moreover have new: "mem' = contents (es1 @ (msg, b) # es2) @ post" using e [of b] by (simp add: mem'_def)
  moreover have "length mem' = length mem" unfolding m mem'_def by simp
  moreover have "length (contents (es1 @ (msg, b) # es2)) = mb_memory_used mb" using used by simp
  then have "take (mb_memory_used mb) mem' = contents (es1 @ (msg, b) # es2)" unfolding new by simp
  ultimately show thesis using assms mem(1,3) used by (intro that [of "mb\<lparr>mb_memory := Some mem'\<rparr>"]) (simp_all add: mb_rep_def)
qed

definition offsets_of :: "(ft_msg_type \<Rightarrow> bool \<Rightarrow> bool) \<Rightarrow> nat \<Rightarrow> (ft_msg \<times> bool) list \<Rightarrow> nat list" where
  "offsets_of P n es = map (entry_offset es) (filter (\<lambda>i. P (msg_type (fst (es ! i))) (snd (es ! i))) [n..<length es])"

lemma offsets_of_step: "offsets_of P (length es1) (es1 @ e # es2) =
    (if P (msg_type (fst e)) (snd e) then [length (contents es1)] else []) @ offsets_of P (length (es1 @ [e])) ((es1 @ [e]) @ es2)"
  by (simp add: offsets_of_def upt_conv_Cons entry_offset_def nth_append del: upt_Suc)

abbreviation once_fresh :: "ft_msg_type \<Rightarrow> bool \<Rightarrow> bool" where
  "once_fresh t is_fresh \<equiv> ft_msg_type_applies_once t \<and> is_fresh"

abbreviation once_stale :: "ft_msg_type \<Rightarrow> bool \<Rightarrow> bool" where
  "once_stale t is_fresh \<equiv> ft_msg_type_applies_once t \<and> \<not> is_fresh"

abbreviation for_all :: "ft_msg_type \<Rightarrow> bool \<Rightarrow> bool" where
  "for_all t is_fresh \<equiv> \<not> ft_msg_type_applies_once t"

lemma note_offsets_eq:
  "note_offsets es2 (length (contents es1)) os =
     \<lparr>fresh_offsets = map_option (\<lambda>l. l @ offsets_of once_fresh (length es1) (es1 @ es2)) (fresh_offsets os),
      stale_offsets = map_option (\<lambda>l. l @ offsets_of once_stale (length es1) (es1 @ es2)) (stale_offsets os),
      broadcast_offsets = map_option (\<lambda>l. l @ offsets_of for_all (length es1) (es1 @ es2)) (broadcast_offsets os)\<rparr>"
proof (induction es2 arbitrary: es1 os)
  case Nil
  then show ?case by (simp add: offsets_of_def option.map_ident)
next
  case (Cons e es2)
  obtain msg f where e: "e = (msg, f)" by (cases e)
  have "note_offsets (e # es2) (length (contents es1)) os = note_offsets es2 (length (contents (es1 @ [e]))) (note_offset (msg_type msg) f (length (contents es1)) os)" by (simp add: e)
  then show ?case unfolding Cons.IH offsets_of_step by (auto simp: note_offset_def e option.map_comp comp_def option.map_ident)
qed

subsection \<open>Properties\<close>

fun enqueue_all :: "(nat \<Rightarrow> byte) \<Rightarrow> (ft_msg \<times> bool) list \<Rightarrow> message_buffer \<Rightarrow> (nat list \<times> message_buffer) option" where
  "enqueue_all junk [] mb = Some ([], mb)"
| "enqueue_all junk ((msg, is_fresh) # es) mb = do {
     (offset, mb) \<leftarrow> enqueue junk msg is_fresh mb;
     (offsets, mb) \<leftarrow> enqueue_all junk es mb;
     Some (offset # offsets, mb)
   }"

lemma enqueue_all_ok:
  "mb_rep mb es1 \<Longrightarrow> \<forall>e\<in>set es2. msg_ok (fst e) \<Longrightarrow> length (contents (es1 @ es2)) \<le> 2 ^ 30 \<Longrightarrow>
     \<exists>mb'. enqueue_all junk es2 mb = Some (map (entry_offset (es1 @ es2)) [length es1..<length (es1 @ es2)], mb') \<and> mb_rep mb' (es1 @ es2)"
proof (induction es2 arbitrary: es1 mb)
  case (Cons e es2)
  obtain msg f where e: "e = (msg, f)" by (cases e)
  have mok: "msg_ok msg" and size: "length (contents es1) + msg_memsize_in_buffer msg \<le> 2 ^ 30" using Cons.prems(2,3) by (simp_all add: e)
  obtain mb1 where q: "enqueue junk msg f mb = Some (length (contents es1), mb1)" "mb_rep mb1 (es1 @ [(msg, f)])" by (rule enqueue_ok [OF Cons.prems(1) mok size])
  obtain mb' where r: "enqueue_all junk es2 mb1 = Some (map (entry_offset ((es1 @ [(msg, f)]) @ es2)) [length (es1 @ [(msg, f)])..<length ((es1 @ [(msg, f)]) @ es2)], mb')"
    "mb_rep mb' ((es1 @ [(msg, f)]) @ es2)" using Cons.IH [OF q(2)] Cons.prems(2,3) by (auto simp: e)
  have "[length es1..<length (es1 @ e # es2)] = length es1 # [length (es1 @ [(msg, f)])..<length ((es1 @ [(msg, f)]) @ es2)]" by (simp add: upt_conv_Cons del: upt_Suc)
  moreover have "entry_offset (es1 @ e # es2) (length es1) = length (contents es1)" by (simp add: entry_offset_def)
  ultimately show ?case using q(1) r by (simp add: e del: upt_Suc)
qed simp

lemma length_contents: "length (contents es) = (\<Sum>(msg, is_fresh)\<leftarrow>es. msg_memsize_in_buffer msg)"
  by (induction es) auto

lemma enqueue_all_create:
  assumes "\<forall>(msg, is_fresh)\<in>set es. msg_ok msg" "(\<Sum>(msg, is_fresh)\<leftarrow>es. msg_memsize_in_buffer msg) \<le> 2 ^ 30"
  obtains mb where "enqueue_all junk es mb_create = Some (map (entry_offset es) [0..<length es], mb)" "mb_rep mb es"
proof -
  have "\<forall>e\<in>set es. msg_ok (fst e)" "length (contents ([] @ es)) \<le> 2 ^ 30" using assms by (auto simp: length_contents)
  from enqueue_all_ok [OF mb_rep_create this, of junk] show thesis using that by auto
qed

text \<open>
  C39. A message buffer holds what was put into it: after any sequence of messages with at most \<open>2 ^ 30\<close> bytes in all, an iteration visits exactly these messages with their freshness in their order, until the callback
  returns a nonzero code; each message is found at the offset that \<open>enqueue\<close> gave for it; and setting its freshness changes nothing else.
\<close>

theorem message_buffer_contents:
  assumes "\<forall>(msg, is_fresh)\<in>set es. msg_ok msg" "(\<Sum>(msg, is_fresh)\<leftarrow>es. msg_memsize_in_buffer msg) \<le> 2 ^ 30"
  shows "\<exists>offsets mb. enqueue_all junk es mb_create = Some (offsets, mb) \<and> length offsets = length es \<and> mb_iterate fn mb s = mb_visit fn es s \<and>
    (\<forall>i<length es. get_message (offsets ! i) mb = Some (fst (es ! i)) \<and> get_freshness (offsets ! i) mb = Some (snd (es ! i)) \<and>
       (\<exists>mb'. set_freshness (offsets ! i) b mb = Some mb' \<and> mb_iterate fn mb' s = mb_visit fn (es[i := (fst (es ! i), b)]) s))"
proof -
  obtain mb where mb: "enqueue_all junk es mb_create = Some (map (entry_offset es) [0..<length es], mb)" "mb_rep mb es" by (rule enqueue_all_create [OF assms])
  have at: "get_message (entry_offset es i) mb = Some (fst (es ! i)) \<and> get_freshness (entry_offset es i) mb = Some (snd (es ! i)) \<and>
       (\<exists>mb'. set_freshness (entry_offset es i) b mb = Some mb' \<and> mb_iterate fn mb' s = mb_visit fn (es[i := (fst (es ! i), b)]) s)" if i: "i < length es" for i
  proof -
    obtain msg f where e: "es ! i = (msg, f)" by (cases "es ! i")
    have es: "es = take i es @ (msg, f) # drop (Suc i) es" using id_take_nth_drop [OF i] by (simp add: e)
    have rep: "mb_rep mb (take i es @ (msg, f) # drop (Suc i) es)" using mb(2) es by simp
    obtain mb' where s': "set_freshness (length (contents (take i es))) b mb = Some mb'" "mb_rep mb' (take i es @ (msg, b) # drop (Suc i) es)" by (rule set_freshness_ok [OF rep])
    have "take i es @ (msg, b) # drop (Suc i) es = es[i := (msg, b)]" by (rule upd_conv_take_nth_drop [OF i, symmetric])
    then show ?thesis using mb_rep_split [OF rep] s' mb_iterate_ok by (auto simp: entry_offset_def e)
  qed
  show ?thesis using mb(1) mb_iterate_ok [OF mb(2)] at by (intro exI [of _ "map (entry_offset es) [0..<length es]"] exI [of _ mb]) simp
qed

text \<open>
  C40. A message buffer survives the way to disk and back: it is written within its announced size, and reading the bytes gives a buffer with the same messages, with the offsets of the fresh, the stale and
  the broadcast messages in the three arrays, and leaves what follows.
\<close>

theorem message_buffer_roundtrip:
  assumes "\<forall>(msg, is_fresh)\<in>set es. msg_ok msg" "(\<Sum>(msg, is_fresh)\<leftarrow>es. msg_memsize_in_buffer msg) \<le> 2 ^ 30" "enqueue_all junk es mb_create = Some (offsets, mb)"
    and "wbuf_ok w" "4 + (\<Sum>(msg, is_fresh)\<leftarrow>es. total_size msg) \<le> wbuf_room w"
  shows "\<exists>w' bytes. mb_serialize_to_wbuf mb w = Some w' \<and> wbuf_ok w' \<and> written w' = written w @ bytes \<and> length bytes = 4 + (\<Sum>(msg, is_fresh)\<leftarrow>es. total_size msg) \<and>
    (\<forall>r rest. rbuf_ok r \<longrightarrow> unread r = bytes @ rest \<longrightarrow> unat (rb_size r) + 64 < 2 ^ 31 \<longrightarrow>
      (\<exists>mb' r'. mb_deserialize_from_rbuf junk \<lparr>fresh_offsets = Some [], stale_offsets = Some [], broadcast_offsets = Some []\<rparr> mb_create r =
         Some ((\<lparr>fresh_offsets = Some (offsets_of once_fresh 0 es), stale_offsets = Some (offsets_of once_stale 0 es), broadcast_offsets = Some (offsets_of for_all 0 es)\<rparr>, mb'), r') \<and>
         mb_iterate fn mb' s = mb_visit fn es s \<and> unread r' = rest))"
proof -
  have rep: "mb_rep mb es" using enqueue_all_create [OF assms(1,2), of junk] assms(3) by auto
  have wire: "length (wire_entries es') = (\<Sum>(msg, is_fresh)\<leftarrow>es'. total_size msg)" for es' by (induction es') auto
  have len: "length (mb_wire es) = 4 + (\<Sum>(msg, is_fresh)\<leftarrow>es. total_size msg)" by (simp add: mb_wire_def wire)
  have room: "length (mb_wire es) \<le> wbuf_room w" using assms(5) len by simp
  from mb_serialize_writes [OF rep assms(4) room] obtain w' where w': "mb_serialize_to_wbuf mb w = Some w'" "wbuf_ok w'" "written w' = written w @ mb_wire es" by (rule writesE)
  have c: "length (contents es) \<le> 2 ^ 30" using assms(2) by (simp add: length_contents)
  have "length es' \<le> length (contents es')" for es'
  proof (induction es')
    case (Cons e es')
    then show ?case using memsize_pos [of "fst e"] by simp
  qed simp
  then have n: "length es \<le> 2 ^ 30" using c le_trans by blast
  then have sn: "sint (of_nat (length es) :: 32 word) = int (length es)" by (simp add: signed_of_nat signed_take_bit_int_eq_self)
  have readback: "\<exists>mb' r'. mb_deserialize_from_rbuf junk \<lparr>fresh_offsets = Some [], stale_offsets = Some [], broadcast_offsets = Some []\<rparr> mb_create r =
         Some ((\<lparr>fresh_offsets = Some (offsets_of once_fresh 0 es), stale_offsets = Some (offsets_of once_stale 0 es), broadcast_offsets = Some (offsets_of for_all 0 es)\<rparr>, mb'), r') \<and>
         mb_iterate fn mb' s = mb_visit fn es s \<and> unread r' = rest" if r: "rbuf_ok r" "unread r = mb_wire es @ rest" "unat (rb_size r) + 64 < 2 ^ 31" for r rest
  proof -
    let ?os = "\<lparr>fresh_offsets = Some [], stale_offsets = Some [], broadcast_offsets = Some []\<rparr>"
    have "reads (rbuf_int r) r (of_nat (length es)) (wire_entries es @ rest)" using r(1,2) by (intro rbuf_reads(2)) (simp_all add: mb_wire_def)
    then obtain r1 where r1: "rbuf_int r = Some (of_nat (length es), r1)" "rbuf_ok r1" "unread r1 = wire_entries es @ rest" "rb_size r1 = rb_size r" by (auto simp: reads_def)
    have h: "unat (rb_size r + 64) = unat (rb_size r) + 64" using of_nat_fits [of "rb_size r" 64] r(3) by simp
    have rep0: "mb_rep (mb_resize junk (unat (rb_size r + 64)) mb_create) []" by (rule mb_resize_rep(1) [OF mb_rep_create]) (simp add: mb_create_def)
    have ok: "\<forall>e\<in>set es. msg_ok (fst e)" and c': "length (contents ([] @ es)) \<le> 2 ^ 30" using assms(1) c by auto
    obtain mb' where d: "reads (deserialize_messages junk (length es) ?os (mb_resize junk (unat (rb_size r + 64)) mb_create) r1) r1 (note_offsets es (length (contents [])) ?os, mb') rest" "mb_rep mb' ([] @ es)"
      using deserialize_messages_ok [OF rep0 r1(2,3) ok c', of junk ?os] by blast
    then obtain r' where r': "deserialize_messages junk (length es) ?os (mb_resize junk (unat (rb_size r + 64)) mb_create) r1 = Some ((note_offsets es (length (contents [])) ?os, mb'), r')" "unread r' = rest"
      by (auto simp: reads_def)
    have "mb_num_entries mb' = length es" using d(2) by (simp add: mb_rep_def)
    then have "mb_deserialize_from_rbuf junk ?os mb_create r = Some ((note_offsets es (length (contents [])) ?os, mb'), r')"
      using r1(1,4) sn h r(3) r'(1) by (simp add: mb_deserialize_from_rbuf_def Let_def)
    then show ?thesis using note_offsets_eq [of es "[]" ?os] d(2) mb_iterate_ok [of mb' es] r'(2) by simp
  qed
  show ?thesis using w' len readback by blast
qed

text \<open>An insertion and a broadcast commit, for the witnesses.\<close>

definition demo_entries :: "(ft_msg \<times> bool) list" where
  "demo_entries =
     [(\<lparr>msg_key = [1], msg_val = [2, 3], msg_type = FT_INSERT, msg_msn = 7, msg_xids = [5, 6]\<rparr>, True),
      (\<lparr>msg_key = [], msg_val = [], msg_type = FT_COMMIT_BROADCAST_TXN, msg_msn = 8, msg_xids = [5]\<rparr>, False)]"

lemma demo_entries_ok: "\<forall>(msg, is_fresh)\<in>set demo_entries. msg_ok msg" "(\<Sum>(msg, is_fresh)\<leftarrow>demo_entries. msg_memsize_in_buffer msg) \<le> 2 ^ 30"
  "4 + (\<Sum>(msg, is_fresh)\<leftarrow>demo_entries. total_size msg) = 69"
  by (simp_all add: demo_entries_def msg_ok_def msg_memsize_in_buffer_def toku_xids_get_size_def total_size_def toku_xids_get_serialize_size_def)

theorem message_buffer_contents_witness:
  "\<exists>offsets mb. enqueue_all (\<lambda>_. 0) demo_entries mb_create = Some (offsets, mb) \<and> get_message (offsets ! 1) mb = Some (fst (demo_entries ! 1)) \<and>
     mb_iterate (\<lambda>msg f n. Some (0, n + length (msg_key msg))) mb 0 = Some (0, 1)"
proof -
  have i: "1 < length demo_entries" by (simp add: demo_entries_def)
  have v: "mb_visit (\<lambda>msg f n. Some (0, n + length (msg_key msg))) demo_entries 0 = Some (0, 1)" by (simp add: demo_entries_def)
  from message_buffer_contents [OF demo_entries_ok(1,2), of "\<lambda>_. 0" "\<lambda>msg f n. Some (0, n + length (msg_key msg))" 0 False]
  show ?thesis unfolding v using i by blast
qed

theorem message_buffer_roundtrip_witness:
  "\<exists>offsets mb w' mb' os r'. enqueue_all (\<lambda>_. 0) demo_entries mb_create = Some (offsets, mb) \<and>
     mb_serialize_to_wbuf mb (wbuf_nocrc_init (replicate 100 0) 100 toku_x1764_init) = Some w' \<and>
     mb_deserialize_from_rbuf (\<lambda>_. 0) \<lparr>fresh_offsets = Some [], stale_offsets = Some [], broadcast_offsets = Some []\<rparr> mb_create (rbuf_init (written w') 69) = Some ((os, mb'), r') \<and>
     mb_iterate (\<lambda>msg f n. Some (0, n + length (msg_key msg))) mb' 0 = Some (0, 1)"
proof -
  let ?w = "wbuf_nocrc_init (replicate 100 0) 100 toku_x1764_init" and ?fn = "\<lambda>msg f n. Some (0 :: int, n + length (msg_key msg))"
  obtain mb where q: "enqueue_all (\<lambda>_. 0) demo_entries mb_create = Some (map (entry_offset demo_entries) [0..<length demo_entries], mb)"
    by (rule enqueue_all_create [OF demo_entries_ok(1,2)])
  have w: "wbuf_ok ?w" "wbuf_room ?w = 100" "written ?w = []" by (simp_all add: wbuf_ok_def wbuf_room_def wbuf_nocrc_init_def written_def)
  have room: "4 + (\<Sum>(msg, is_fresh)\<leftarrow>demo_entries. total_size msg) \<le> wbuf_room ?w" unfolding demo_entries_ok(3) w(2) by simp
  obtain w' bytes where s: "mb_serialize_to_wbuf mb ?w = Some w'" "written w' = bytes" "length bytes = 69"
    "\<forall>r rest. rbuf_ok r \<longrightarrow> unread r = bytes @ rest \<longrightarrow> unat (rb_size r) + 64 < 2 ^ 31 \<longrightarrow>
      (\<exists>mb' r'. mb_deserialize_from_rbuf (\<lambda>_. 0) \<lparr>fresh_offsets = Some [], stale_offsets = Some [], broadcast_offsets = Some []\<rparr> mb_create r =
         Some ((\<lparr>fresh_offsets = Some (offsets_of once_fresh 0 demo_entries), stale_offsets = Some (offsets_of once_stale 0 demo_entries), broadcast_offsets = Some (offsets_of for_all 0 demo_entries)\<rparr>, mb'), r') \<and>
         mb_iterate ?fn mb' 0 = mb_visit ?fn demo_entries 0 \<and> unread r' = rest)"
    using message_buffer_roundtrip [OF demo_entries_ok(1,2) q w(1) room, of ?fn 0] unfolding demo_entries_ok(3) w(3) by auto
  have r: "rbuf_ok (rbuf_init bytes 69)" "unread (rbuf_init bytes 69) = bytes @ []" "unat (rb_size (rbuf_init bytes 69)) + 64 < 2 ^ 31"
    using s(3) by (simp_all add: rbuf_ok_def unread_def rbuf_init_def)
  have "mb_visit ?fn demo_entries 0 = Some (0, 1)" by (simp add: demo_entries_def)
  then show ?thesis using q s(1,2) s(4) [rule_format, OF r] by auto
qed

end
