(* ===== verification/Spec2Isabelle.thy ===== *)
theory Spec2Isabelle
  imports Ule_Modify Gc_Safe Omt_Marks Lock_Request_Retry Msg_Buffer_Props
begin

text \<open>
  A verification development of PerconaFT, the fractal tree storage engine under \<open>src/\<close>. It models the parts that decide what a transaction reads and
  what it may write: the versions of a row and the messages that change them, the transaction manager with its snapshots, the garbage collection of old
  versions, row locking, the message buffers of inner nodes with their format on disk, and the order maintenance tree.

  \<^bold>\<open>The parts and how they interact.\<close>
  A write becomes a message (\<open>ft_msg\<close>) that carries the stack of transaction ids of its transaction (\<open>XIDS\<close>). On its way it waits in the message buffers of inner nodes, which are written to disk and read back. When the message reaches the leaf, it changes the leaf entry of
  its key: the entry is unpacked into a stack of transaction records (\<open>ULE\<close>), modified, garbage collected and packed again. The transaction manager says
  which transactions a reader sees, and gives the collection its picture of the live transactions and snapshots. Before a transaction reads or writes a range of keys it asks the lock tree of the
  dictionary; a request that is not granted waits among the pending requests unless that would be a deadlock. The lock tree manager limits the memory of all locks and escalates them.
  The order maintenance tree (\<open>omt\<close>) keeps live transactions, pending requests, lock trees, sets of transaction ids and wait-for graphs in order.

  \<^bold>\<open>Theories and sources.\<close>
  \<^item> \<open>Ft_Prelude\<close>: machine types, assertions (\<open>ensure\<close>), return codes (\<open>ft_error\<close>, \<open>None\<close> for 0), little-endian bytes, shared lemmas.
  \<^item> \<open>Xids\<close>, \<open>Ft_Msg\<close>: \<open>src/ft/txn/xids.cc\<close>, \<open>src/ft/msg.h\<close>.
  \<^item> \<open>X1764\<close>: the checksum \<open>src/util/x1764.cc\<close>, unrolled, simple and incremental. \<open>Wbuf\<close>: the write and read buffers \<open>src/ft/serialize/wbuf.h\<close>, \<open>rbuf.h\<close>, with \<open>writes\<close> and \<open>reads\<close>
  as the rules by which a format is composed. \<open>Msg_Buffer\<close>: serialization of ids and messages (\<open>xids.cc\<close>, \<open>src/ft/msg.cc\<close>) and the packed buffer \<open>src/ft/msg_buffer.cc\<close>; \<open>Msg_Buffer_Props\<close> proves that
  it keeps its messages in order and survives a round trip.
  \<^item> \<open>Ule\<close>: the unpacked leaf entry of \<open>src/ft/ule.cc\<close>, every \<open>ule_\<close> operation and \<open>msg_modify_ule\<close> under its own name. \<open>Ule_Spec\<close> states what a stack means (two lists of pairs of an id
  and a value) and proves each operation a refinement of it, \<open>Ule_Apply\<close> the \<open>ule_apply_\<close> family, \<open>Ule_Modify\<close> whole messages, what abort and commit undo and keep, and the row counts.
  \<^item> \<open>Leafentry\<close>, \<open>Le_Access\<close>: packing and unpacking (\<open>le_pack\<close>, \<open>le_unpack\<close>) at byte level, the readers of a packed entry and the visibility callback (\<open>le_iterate_val\<close>).
  \<^item> \<open>Ule_Gc\<close>: simple and full garbage collection, and the contract \<open>gc_contract\<close> under which it is safe. \<open>Gc_Safe\<close> interprets the contract on the transaction manager's states.
  \<^item> \<open>Txn_Manager\<close>: \<open>src/ft/txn/txn_manager.cc\<close>, \<open>txn_child_manager.cc\<close> and the begin and completion of \<open>txn.cc\<close>, with transactions and their lists in an explicit store of addresses, so that aliasing shows.
  \<open>Mvcc\<close> is the specification without pointers; \<open>Txn_Snapshots\<close>, \<open>Txn_Refine\<close>, \<open>Txn_Begin\<close>, \<open>Txn_End\<close> prove that the operations return and refine it; \<open>Txn_Run\<close> is the step relation with its invariant by
  rule induction; \<open>Txn_Verify\<close> the self-check; \<open>Txn_Later\<close> relates a state to later ones; \<open>Txn_Props\<close> has the properties.
  \<^item> \<open>Omt_Spec\<close> says what an order maintenance tree promises on the list of its values. \<open>Omt\<close> is \<open>src/util/omt.cc\<close> in both representations with their conversions; \<open>Omt_Tree\<close>, \<open>Omt_Refine\<close>, \<open>Omt_Search\<close>,
  \<open>Omt_Props\<close> prove it an implementation of the list, weight balanced, and of the contract \<open>omt_contract\<close>; \<open>Omt_Marks\<close> has iteration and marks. The other theories use the promise.
  \<^item> \<open>Keyrange\<close>: keys with infinities (\<open>src/util/dbt.cc\<close>), comparators (\<open>src/ft/comparator.h\<close>), key ranges (\<open>src/locktree/keyrange.cc\<close>), the contract \<open>key_order\<close>.
  \<^item> \<open>Treenode\<close>, \<open>Treenode_Props\<close>, \<open>Concurrent_Tree\<close>: \<open>src/locktree/treenode.cc\<close>, \<open>concurrent_tree.cc\<close>; the in-order sequence of disjoint ranges.
  \<^item> \<open>Range_Buffer\<close>, \<open>Range_Buffer_Props\<close>: \<open>src/util/memarena.cc\<close> and \<open>src/locktree/range_buffer.cc\<close> at byte level. \<open>Txnid_Set\<close>: \<open>src/locktree/txnid_set.cc\<close>.
  \<^item> \<open>Locktree\<close>, \<open>Locktree_Escalate\<close>: \<open>src/locktree/locktree.cc\<close>. \<open>Locktree_Props\<close>, \<open>Locktree_Sto\<close>, \<open>Locktree_Release\<close>, \<open>Locktree_Escalate_Props\<close>, \<open>Locktree_Frame\<close> prove its operations;
  \<open>Lock_Table\<close> states the contract \<open>lock_table\<close> on the keys that each transaction holds and interprets it on the lock tree.
  \<^item> \<open>Lock_Manager\<close>, \<open>Lock_Manager_Props\<close>: \<open>src/locktree/manager.cc\<close>. \<open>Wfg\<close>: \<open>src/locktree/wfg.cc\<close>. \<open>Lock_Request\<close>, \<open>Lock_Request_Props\<close>, \<open>Lock_Request_Retry\<close>: \<open>src/locktree/lock_request.cc\<close>.

  \<^bold>\<open>How the code is represented.\<close>
  An assertion that fails, and a read out of bounds, is \<open>None\<close>; a theorem that an operation returns is stated as such. Return codes are \<open>ft_error option\<close> or a sum type. Transaction ids are 64-bit words;
  counters whose overflow the code does not check are words, too. A loop is structural recursion, or a \<open>function\<close> with a measure (the searches of \<open>omt\<close>, the tree of row locks, the checksum loops, the iteration over a message buffer, the search for a cycle in the wait-for graph: the number of unvisited
  nodes, then of edges), or a \<open>partial_function\<close> that is proved to return (the construction of the wait-for graph, the retry loop). There is no fuel anywhere.
  Interfaces are locales: \<open>omt_contract\<close>, \<open>key_order\<close>, \<open>key_comparator\<close>, \<open>gc_contract\<close>, \<open>lock_table\<close>, \<open>checked_machine\<close>; each is interpreted on the model's own definitions.

  \<^bold>\<open>Bounds.\<close>
  New transaction ids stay below \<open>2 ^ 64\<close> (\<open>room\<close>); nesting stays below \<open>MAX_TRANSACTION_RECORDS\<close>, which \<open>toku_xids_can_create_child\<close> checks; committed records below \<open>2 ^ 32\<close>; values below \<open>2 ^ 31\<close> bytes, since the top bit of a length
  marks an insert; order maintenance trees below \<open>2 ^ 31\<close> elements; keys in range buffers have 1 to 65535 bytes (\<open>Range_Buffer_Props.range_buffer_limits\<close> shows why); reference counts of lock trees leave room for one more (\<open>refs_room\<close>);
  message buffers have at most \<open>2 ^ 30\<close> bytes, since the code doubles a signed 32-bit size.

  \<^bold>\<open>What the properties assume.\<close>
  The comparison function of a dictionary is a total order on keys (\<open>comparator_ok\<close>; shown for the built-in one). The ids of provisional records are those of live transactions, and of committed ones those of writers that ended. Runs of the transaction
  manager do not contain \<open>TXN_COPIES_SNAPSHOT\<close> children: \<open>Txn_Props.copies_snapshot_child_frees_parent_list\<close> shows what they do. A transaction releases ranges that cover what it holds, and has at most one pending request in a lock tree.

  \<^bold>\<open>Not modelled.\<close>
  Concurrency: operations run one after the other, as under the mutexes of the code; waiting on condition variables is given by the steps between the sleeps. The calls of the self-check
  \<open>verify_snapshot_system\<close> inside the start and the completion of a transaction, which run only with \<open>garbage_collection_debug\<close> (\<open>Txn_Props.self_check_never_fails\<close> shows that the check itself succeeds between operations),
  and the paranoid checks of debug builds. The nodes of the tree on disk and in memory, their buffers, flushing, splitting and merging
  (\<open>src/ft/ft-ops.cc\<close>, \<open>node.cc\<close>, \<open>ft-flusher.cc\<close>, \<open>bndata.cc\<close>), the cache table and its checkpoints (\<open>src/ft/cachetable/\<close>), the block table, block allocator and serialization of nodes and headers (\<open>src/ft/serialize/\<close>), logging, recovery and rollback (\<open>src/ft/logger/\<close>, \<open>src/ft/txn/roll*.cc\<close>), the
  bulk loader (\<open>src/ft/loader/\<close>), the database layer (\<open>src/src/\<close>), the portability layer (\<open>src/portability/\<close>), tools, bindings and tests. They are mostly input and output, threads and memory management around what is modelled.
\<close>

end
